(* ===== verification/Prelude.thy ===== *)
theory Prelude
  imports "HOL-Library.Word"
begin

unbundle bit_operations_syntax

text \<open>
  Shared vocabulary of the development: the machine types of the C code, the faults by which a
  C call can fail to return, the result type and its sequencing operator, bounded reads and
  writes of byte arrays, C strings, and the word and list lemmas that several components use.

  A C \<open>int\<close> or \<open>unsigned\<close> that crosses the wire is a 32-bit word; sizes, offsets and bit
  positions, which the code keeps non-negative, are natural numbers.  A call that the C program
  would not survive is a value \<open>Inl fault\<close>: \<open>Sys_Error\<close> and \<open>Host_EndGame\<close> are the engine's own
  fatal errors, \<open>Out_Of_Bounds\<close> is a memory access outside the array it is made through,
  \<open>Null_Deref\<close> a dereferenced null pointer and \<open>Stack_Overflow\<close> a recursion deeper than the
  bound the model names; \<open>Div_By_Zero\<close> is an integer division by zero.
\<close>

section \<open>Machine types and faults\<close>

type_synonym byte = "8 word"
type_synonym int32 = "32 word"
type_synonym u64 = "64 word"

datatype fault =
  Sys_Error | Host_EndGame | Out_Of_Bounds | Null_Deref | Div_By_Zero | Stack_Overflow

type_synonym 'a res = "fault + 'a"

named_theorems res_simps \<open>evaluation of the result type\<close>
named_theorems bytes_simps \<open>splitting words into bytes and joining them again\<close>

definition rbind :: "'a res \<Rightarrow> ('a \<Rightarrow> 'b res) \<Rightarrow> 'b res" where
  "rbind r f = (case r of Inl e \<Rightarrow> Inl e | Inr x \<Rightarrow> f x)"

lemma rbind_Inl [simp, res_simps]: "rbind (Inl e) f = Inl e"
  by (simp add: rbind_def)

lemma rbind_Inr [simp, res_simps]: "rbind (Inr x) f = f x"
  by (simp add: rbind_def)

lemma rbind_assoc [res_simps]: "rbind (rbind r f) g = rbind r (\<lambda>x. rbind (f x) g)"
  by (cases r) simp_all

lemma rbind_eq_Inr: "rbind r f = Inr y \<longleftrightarrow> (\<exists>x. r = Inr x \<and> f x = Inr y)"
  by (cases r) simp_all

lemma rbind_InrE [elim]:
  assumes "rbind r f = Inr y"
  obtains x where "r = Inr x" and "f x = Inr y"
  using assms by (auto simp: rbind_eq_Inr)

lemma rbind_Inr_right [simp, res_simps]: "rbind r Inr = r"
  by (cases r) simp_all

lemma rbind_cong: "r = s \<Longrightarrow> (\<And>x. s = Inr x \<Longrightarrow> f x = g x) \<Longrightarrow> rbind r f = rbind s g"
  by (cases s) simp_all

lemma rbind_if: "rbind (if b then r else s) f = (if b then rbind r f else rbind s f)"
  by simp

text \<open>A call that may also fail to return: \<open>None\<close> is a loop that never ends.\<close>

type_synonym 'a run = "'a res option"

definition run_bind :: "'a run \<Rightarrow> ('a \<Rightarrow> 'b run) \<Rightarrow> 'b run" where
  "run_bind r f = (case r of None \<Rightarrow> None | Some (Inl e) \<Rightarrow> Some (Inl e) | Some (Inr x) \<Rightarrow> f x)"

lemma run_bind_simps [simp, res_simps]:
  "run_bind None f = None" "run_bind (Some (Inl e)) f = Some (Inl e)"
  "run_bind (Some (Inr x)) f = f x"
  by (simp_all add: run_bind_def)

section \<open>Byte arrays with bounds\<close>

text \<open>\<open>peek\<close> and \<open>poke\<close> are \<open>a[i]\<close> and \<open>a[i] = v\<close>; \<open>pokes\<close> is \<open>memcpy(a+i, vs, n)\<close>.\<close>

definition peek :: "'a list \<Rightarrow> nat \<Rightarrow> 'a res" where
  "peek a i = (if i < length a then Inr (a ! i) else Inl Out_Of_Bounds)"

definition poke :: "nat \<Rightarrow> 'a \<Rightarrow> 'a list \<Rightarrow> 'a list res" where
  "poke i v a = (if i < length a then Inr (a[i := v]) else Inl Out_Of_Bounds)"

fun pokes :: "nat \<Rightarrow> 'a list \<Rightarrow> 'a list \<Rightarrow> 'a list res" where
  "pokes i [] a = Inr a"
| "pokes i (v # vs) a = rbind (poke i v a) (\<lambda>a'. pokes (Suc i) vs a')"

lemma peek_Inr [simp]: "i < length a \<Longrightarrow> peek a i = Inr (a ! i)"
  by (simp add: peek_def)

lemma poke_Inr [simp]: "i < length a \<Longrightarrow> poke i v a = Inr (a[i := v])"
  by (simp add: poke_def)

lemma poke_length: "poke i v a = Inr a' \<Longrightarrow> length a' = length a"
  by (auto simp: poke_def split: if_splits)

lemma splice_step:
  "i + Suc n \<le> length a \<Longrightarrow>
   take (Suc i) (a[i := v]) @ vs @ drop (Suc i + n) (a[i := v]) =
   take i a @ (v # vs) @ drop (i + Suc n) a"
  by (simp add: take_Suc_conv_app_nth)

lemma pokes_Inr:
  "i + length vs \<le> length a \<Longrightarrow> pokes i vs a = Inr (take i a @ vs @ drop (i + length vs) a)"
proof (induction vs arbitrary: i a)
  case (Cons v vs)
  have "pokes (Suc i) vs (a[i := v]) =
        Inr (take (Suc i) (a[i := v]) @ vs @ drop (Suc i + length vs) (a[i := v]))"
    using Cons.prems by (intro Cons.IH) simp
  then show ?case
    using Cons.prems splice_step [of i "length vs" a v vs] by simp
qed simp

lemma pokes_overflow:
  "length a < i + length vs \<Longrightarrow> vs \<noteq> [] \<Longrightarrow> pokes i vs a = Inl Out_Of_Bounds"
proof (induction vs arbitrary: i a)
  case (Cons v vs)
  show ?case
  proof (cases "i < length a")
    case True
    with Cons.prems have "vs \<noteq> []" by auto
    with Cons.IH [of "a[i := v]" "Suc i"] Cons.prems True show ?thesis by simp
  qed (simp add: poke_def)
qed simp

lemma pokes_length: "pokes i vs a = Inr a' \<Longrightarrow> length a' = length a"
  by (induction vs arbitrary: i a) (auto simp: poke_length)

section \<open>Shifts\<close>

text \<open>
  Where the code can shift by an amount outside the operand's width (undefined in C) the model
  follows the x86 shift instructions, which use the count modulo the width.
\<close>

definition shl32 :: "int32 \<Rightarrow> int \<Rightarrow> int32" where
  "shl32 w n = push_bit (nat (n mod 32)) w"

definition shr64 :: "u64 \<Rightarrow> nat \<Rightarrow> u64" where
  "shr64 w n = drop_bit (n mod 64) w"

definition shl64 :: "u64 \<Rightarrow> nat \<Rightarrow> u64" where
  "shl64 w n = push_bit (n mod 64) w"

section \<open>Signed 32-bit integers\<close>

text \<open>An \<open>int\<close> that stays below \<open>2 ^ 31\<close> is its unsigned value.\<close>

named_theorems small_int \<open>signed integers that are small natural numbers\<close>

lemma sint_small [small_int]: "unat w < 2 ^ 31 \<Longrightarrow> sint w = int (unat w)" for w :: int32
proof -
  assume "unat w < 2 ^ 31"
  then have "int (unat w) < int (2 ^ 31)" by (simp only: of_nat_less_iff)
  moreover have "- (2 ^ 31) \<le> uint w"
    using uint_nonnegative [of w] by (rule order_trans [rotated]) simp
  ultimately have "signed_take_bit 31 (uint w) = uint w"
    by (intro signed_take_bit_int_eq_self) simp_all
  then show ?thesis by (simp add: sint_uint)
qed

lemma unat_Suc_small [small_int]: "unat w < 2 ^ 31 \<Longrightarrow> unat (w + 1) = unat w + 1" for w :: int32
proof -
  assume w: "unat w < 2 ^ 31"
  have "unat (w + 1) = (unat w + 1) mod 2 ^ 32"
    by (simp add: unat_word_ariths)
  with w show ?thesis by simp
qed

section \<open>Words as little-endian bytes\<close>

definition le16 :: "int32 \<Rightarrow> byte list" where
  "le16 c = [ucast c, ucast (drop_bit 8 c)]"

definition le32 :: "int32 \<Rightarrow> byte list" where
  "le32 c = [ucast c, ucast (drop_bit 8 c), ucast (drop_bit 16 c), ucast (drop_bit 24 c)]"

lemma length_le16 [simp]: "length (le16 c) = 2"
  by (simp add: le16_def)

lemma length_le32 [simp]: "length (le32 c) = 4"
  by (simp add: le32_def)

lemma mask_8_eq: "(255::'a::len word) = mask 8"
  by (simp add: mask_eq_exp_minus_1)

lemma byte_of_and_255 [simp, bytes_simps]:
  "(ucast (w AND 255) :: byte) = ucast w" for w :: "'a::len word"
  by (rule bit_word_eqI) (auto simp: bit_simps mask_8_eq dest: bit_imp_le_length)

lemma byte_of_sshift [bytes_simps]:
  "k + 8 \<le> LENGTH('a) \<Longrightarrow> (ucast (signed_drop_bit k w) :: byte) = ucast (drop_bit k w)"
  for w :: "'a::len word"
  by (rule bit_word_eqI) (auto simp: bit_simps)

lemma unat_pow2: "n < LENGTH('a) \<Longrightarrow> unat (2 ^ n :: 'a::len word) = 2 ^ n"
proof -
  assume n: "n < LENGTH('a)"
  have "unat (2 ^ n :: 'a word) = take_bit LENGTH('a) (2 ^ n)"
    using of_nat_power [of 2 n, where 'a = "'a word"] unsigned_of_nat [of "2 ^ n", where 'b = 'a]
    by simp
  with n show ?thesis by (simp add: take_bit_eq_mod)
qed

lemma word_less_pow2: "n < LENGTH('a) \<Longrightarrow> w < 2 ^ n \<longleftrightarrow> unat w < 2 ^ n" for w :: "'a::len word"
  by (simp add: word_less_nat_alt unat_pow2)

lemma bit_128 [simp]: "bit (128 :: byte) n \<longleftrightarrow> n = 7"
proof -
  have "(128 :: byte) = push_bit 7 1" by simp
  then show ?thesis by (simp only: bit_push_bit_iff bit_1_iff) auto
qed

lemma byte_of_int_of_byte [simp]: "ucast (ucast b :: int32) = b" "ucast (scast b :: int32) = b"
  for b :: byte
  by (rule bit_word_eqI, auto simp: bit_simps)+

lemma push_byte_drop:
  "push_bit k (ucast (ucast (drop_bit k c) :: byte) :: 'a::len word) = c AND push_bit k (mask 8)"
  for c :: "'a::len word"
  by (rule bit_word_eqI) (auto simp: bit_simps)

lemma byte_and_mask: "(ucast (ucast c :: byte) :: 'a::len word) = c AND mask 8"
  for c :: "'a::len word"
  using push_byte_drop [of 0 c] by simp

lemma bit_byte_lt: "bit (b :: byte) n \<Longrightarrow> n < 8"
  using bit_imp_le_length [of b n] by simp

lemma word32_and_max [simp]: "c AND 4294967295 = c" for c :: int32
proof -
  have "(4294967295 :: int32) = -1" by simp
  then show ?thesis by (simp only: bit.conj_one_right)
qed

lemma byte_sum_or2: "(ucast a :: int32) + push_bit 8 (ucast b) = ucast a OR push_bit 8 (ucast b)"
  for a b :: byte
  by (rule disjunctive_add) (auto simp: bit_simps dest: bit_byte_lt)

lemma byte_sum_or3:
  "(ucast a :: int32) + push_bit 8 (ucast b) + push_bit 16 (ucast c) =
   ucast a OR push_bit 8 (ucast b) OR push_bit 16 (ucast c)" for a b c :: byte
  by (simp only: byte_sum_or2, subst disjunctive_add)
    (auto simp: bit_simps or.assoc dest: bit_byte_lt)

lemma byte_sum_or4:
  "(ucast a :: int32) + push_bit 8 (ucast b) + push_bit 16 (ucast c) + push_bit 24 (ucast d) =
   ucast a OR push_bit 8 (ucast b) OR push_bit 16 (ucast c) OR push_bit 24 (ucast d)"
  for a b c d :: byte
  by (simp only: byte_sum_or3, subst disjunctive_add)
    (auto simp: bit_simps or.assoc dest: bit_byte_lt)

lemma join_le32 [bytes_simps]:
  "(ucast (ucast c :: byte) :: int32) + push_bit 8 (ucast (ucast (drop_bit 8 c) :: byte)) +
   push_bit 16 (ucast (ucast (drop_bit 16 c) :: byte)) +
   push_bit 24 (ucast (ucast (drop_bit 24 c) :: byte)) = c" for c :: int32
proof -
  have "c AND (mask 8 OR push_bit 8 (mask 8) OR push_bit 16 (mask 8) OR push_bit 24 (mask 8)) = c"
    by (simp add: mask_eq_exp_minus_1)
  then show ?thesis
    unfolding byte_sum_or4
    unfolding push_byte_drop
    unfolding byte_and_mask bit.conj_disj_distrib .
qed

lemma join_le16 [bytes_simps]:
  "(ucast (ucast c :: byte) :: int32) + push_bit 8 (ucast (ucast (drop_bit 8 c) :: byte)) =
   c AND 65535" for c :: int32
proof -
  have "c AND (mask 8 OR push_bit 8 (mask 8)) = c AND 65535"
    by (simp add: mask_eq_exp_minus_1)
  then show ?thesis
    unfolding byte_sum_or2
    unfolding push_byte_drop
    unfolding byte_and_mask bit.conj_disj_distrib .
qed

lemma unat_ucast_up: "unat (ucast x :: u64) = unat x" for x :: int32
proof -
  have "unat x < 2 ^ LENGTH(32)" by (rule unsigned_less)
  then have "unat x < 2 ^ 64" by (simp add: less_trans)
  then show ?thesis by (simp add: unsigned_ucast_eq take_bit_nat_eq_self)
qed

section \<open>C strings\<close>

text \<open>A C string is the list of its bytes before the terminator; \<open>str\<close> makes one of a literal.\<close>

definition str :: "string \<Rightarrow> byte list" where
  "str s = map of_char s"

definition c_string :: "byte list \<Rightarrow> bool" where
  "c_string s \<longleftrightarrow> 0 \<notin> set s"

lemma c_string_simps [simp]:
  "c_string []" "c_string (b # s) \<longleftrightarrow> b \<noteq> 0 \<and> c_string s"
  "c_string (s @ t) \<longleftrightarrow> c_string s \<and> c_string t"
  by (auto simp: c_string_def)

text \<open>The string that stands at the beginning of a piece of memory.\<close>

definition c_str :: "byte list \<Rightarrow> byte list res" where
  "c_str m = (if 0 \<in> set m then Inr (takeWhile (\<lambda>c. c \<noteq> 0) m) else Inl Out_Of_Bounds)"

lemma c_str_mem: "0 \<notin> set s \<Longrightarrow> c_str (s @ 0 # r) = Inr s"
proof -
  assume "0 \<notin> set s"
  then have "\<forall>c \<in> set s. c \<noteq> 0" by auto
  then show ?thesis by (simp add: c_str_def)
qed

end
