(* ===== verification/Huffman.thy ===== *)
theory Huffman
  imports Prelude
begin

text \<open>
  The Huffman coder of \<open>engine/common/huff.c\<close>: its pointer tree as an array of nodes with
  index pointers, bit input and output, and the static operations that send one symbol as the
  path from the root to its leaf and read one back by walking the tree.  \<open>huff_code\<close> reads the
  code word of a node off its parent pointers, checking that every parent points back; a tree
  in which it succeeds for a symbol sends and receives that symbol faithfully.
\<close>

section \<open>The tree\<close>

text \<open>\<open>HMAX\<close>, \<open>NYT\<close> and \<open>INTERNAL_NODE\<close> of the source; node pointers are indices of \<open>nodeList\<close>.\<close>

definition HMAX :: nat where "HMAX = 256"
definition NYT :: nat where "NYT = HMAX"
definition INTERNAL_NODE :: nat where "INTERNAL_NODE = HMAX + 1"

record node_t =
  n_left :: "nat option"
  n_right :: "nat option"
  n_parent :: "nat option"
  n_next :: "nat option"
  n_prev :: "nat option"
  n_head :: "nat option"
  weight :: int
  symbol :: nat

text \<open>
  A cell of \<open>nodePtrs\<close> holds the leader of a block of equal weight, or nothing, or, once freed,
  the next cell of the free list (the C code casts between the two pointer types).
\<close>

datatype ppcell = PP_Null | PP_Node nat | PP_Free "nat option"

record huff_t =
  blocNode :: nat
  blocPtrs :: nat
  tree :: "nat option"
  lhead :: "nat option"
  ltail :: "nat option"
  loc :: "nat option list"
  freelist :: "nat option"
  nodeList :: "node_t list"
  nodePtrs :: "ppcell list"

definition huff_nodes :: nat where "huff_nodes = 768"

section \<open>Bits\<close>

text \<open>The static \<open>bloc\<close> travels with the array it indexes.\<close>

definition huff_add_bit :: "bool \<Rightarrow> byte list \<times> nat \<Rightarrow> (byte list \<times> nat) res" where
  "huff_add_bit b out = (case out of (fout, bloc) \<Rightarrow>
     rbind (if bloc mod 8 = 0 then poke (bloc div 8) 0 fout else Inr fout) (\<lambda>fout.
     rbind (peek fout (bloc div 8)) (\<lambda>v.
     rbind (poke (bloc div 8) (v OR push_bit (bloc mod 8) (of_bool b)) fout) (\<lambda>fout.
     Inr (fout, bloc + 1)))))"

definition huff_get_bit :: "byte list \<Rightarrow> nat \<Rightarrow> (bool \<times> nat) res" where
  "huff_get_bit fin bloc =
     rbind (peek fin (bloc div 8)) (\<lambda>v. Inr (bit v (bloc mod 8), bloc + 1))"

section \<open>Sending and receiving one symbol\<close>

text \<open>
  \<open>huff_send\<close> recurses to the root before it adds its own bit.  The recursion has no bound of
  its own: on a cyclic parent chain the C call overflows its stack.  The first argument bounds
  the depth; \<open>huff_nodes\<close> is what the callers pass, as a parent chain without a cycle is never
  longer than the array of nodes.
\<close>

fun huff_send :: "nat \<Rightarrow> huff_t \<Rightarrow> nat \<Rightarrow> nat option \<Rightarrow> byte list \<times> nat \<Rightarrow> (byte list \<times> nat) res" where
  "huff_send 0 h node child out = Inl Stack_Overflow"
| "huff_send (Suc d) h node child out =
     rbind (peek (nodeList h) node) (\<lambda>n.
     rbind (case n_parent n of None \<Rightarrow> Inr out | Some p \<Rightarrow> huff_send d h p (Some node) out) (\<lambda>out.
     case child of None \<Rightarrow> Inr out | Some c \<Rightarrow> huff_add_bit (n_right n = Some c) out))"

definition Huff_offsetTransmit :: "huff_t \<Rightarrow> nat \<Rightarrow> byte list \<Rightarrow> nat \<Rightarrow> (byte list \<times> nat) res" where
  "Huff_offsetTransmit h ch fout offset =
     rbind (peek (loc h) ch) (\<lambda>l. case l of
       None \<Rightarrow> Inl Null_Deref
     | Some i \<Rightarrow> huff_send huff_nodes h i None (fout, offset))"

text \<open>The loop of \<open>Huff_offsetReceive\<close>: every turn consumes a bit, so it ends at the array's end.\<close>

function huff_walk :: "huff_t \<Rightarrow> byte list \<Rightarrow> nat option \<Rightarrow> nat \<Rightarrow> (nat option \<times> nat) res" where
  "huff_walk h fin node bloc = (case node of
     None \<Rightarrow> Inr (None, bloc)
   | Some i \<Rightarrow>
       rbind (peek (nodeList h) i) (\<lambda>n.
       if symbol n = INTERNAL_NODE then
         (if bloc div 8 < length fin
          then huff_walk h fin (if bit (fin ! (bloc div 8)) (bloc mod 8)
                                then n_right n else n_left n) (bloc + 1)
          else Inl Out_Of_Bounds)
       else Inr (Some i, bloc)))"
  by pat_completeness auto
termination
  by (relation "measure (\<lambda>(h, fin, node, bloc). 8 * length fin - bloc)") auto

declare huff_walk.simps [simp del]

definition Huff_offsetReceive :: "huff_t \<Rightarrow> nat option \<Rightarrow> byte list \<Rightarrow> nat \<Rightarrow> (nat \<times> nat) res" where
  "Huff_offsetReceive h node fin offset =
     rbind (huff_walk h fin node offset) (\<lambda>(n, bloc). case n of
       None \<Rightarrow> Inr (0, offset)
     | Some i \<Rightarrow> rbind (peek (nodeList h) i) (\<lambda>n. Inr (symbol n, bloc)))"

record huffman_t =
  counts :: "nat list"
  crc :: int32
  built :: bool
  compressor :: huff_t
  decompressor :: huff_t

definition Huff_GetByte :: "huffman_t \<Rightarrow> byte list \<Rightarrow> nat \<Rightarrow> (nat \<times> nat) res" where
  "Huff_GetByte q3huff buffer count =
     Huff_offsetReceive (decompressor q3huff) (tree (decompressor q3huff)) buffer count"

definition Huff_EmitByte :: "huffman_t \<Rightarrow> nat \<Rightarrow> byte list \<Rightarrow> nat \<Rightarrow> (byte list \<times> nat) res" where
  "Huff_EmitByte q3huff ch buffer count =
     Huff_offsetTransmit (compressor q3huff) ch buffer count"

section \<open>Code words\<close>

text \<open>
  \<open>huff_code d h i\<close> is the sequence of branches from the root down to node \<open>i\<close>, read upwards;
  it is \<open>None\<close> unless every ancestor is an internal node that points back at its child.
\<close>

fun huff_code :: "nat \<Rightarrow> huff_t \<Rightarrow> nat \<Rightarrow> bool list option" where
  "huff_code 0 h i = None"
| "huff_code (Suc d) h i =
     (if i < length (nodeList h) then
        (case n_parent (nodeList h ! i) of
           None \<Rightarrow> (if tree h = Some i then Some [] else None)
         | Some p \<Rightarrow>
             (case huff_code d h p of
                None \<Rightarrow> None
              | Some bs \<Rightarrow>
                  if symbol (nodeList h ! p) \<noteq> INTERNAL_NODE then None
                  else if n_right (nodeList h ! p) = Some i then Some (bs @ [True])
                  else if n_left (nodeList h ! p) = Some i then Some (bs @ [False])
                  else None))
      else None)"

definition huff_leaf :: "huff_t \<Rightarrow> nat \<Rightarrow> nat \<Rightarrow> bool list \<Rightarrow> bool" where
  "huff_leaf h ch i bs \<longleftrightarrow> ch < length (loc h) \<and> loc h ! ch = Some i \<and> ch \<noteq> INTERNAL_NODE \<and>
     i < length (nodeList h) \<and> symbol (nodeList h ! i) = ch \<and> huff_code huff_nodes h i = Some bs"

text \<open>\<open>huff_sym_ok h ch\<close> decides whether the tree sends and receives \<open>ch\<close> faithfully.\<close>

definition huff_sym_ok :: "huff_t \<Rightarrow> nat \<Rightarrow> bool" where
  "huff_sym_ok h ch = (ch < length (loc h) \<and> (case loc h ! ch of
     None \<Rightarrow> False
   | Some i \<Rightarrow> ch \<noteq> INTERNAL_NODE \<and> i < length (nodeList h) \<and> symbol (nodeList h ! i) = ch \<and>
               huff_code huff_nodes h i \<noteq> None))"

lemma huff_sym_okE:
  assumes "huff_sym_ok h ch"
  obtains i bs where "huff_leaf h ch i bs"
  using assms by (auto simp: huff_sym_ok_def huff_leaf_def split: option.splits)

text \<open>The bits of an array from a position on.\<close>

definition bit_at :: "byte list \<Rightarrow> nat \<Rightarrow> bool" where
  "bit_at a k = bit (a ! (k div 8)) (k mod 8)"

definition bits_at :: "byte list \<Rightarrow> nat \<Rightarrow> bool list \<Rightarrow> bool" where
  "bits_at a p bs \<longleftrightarrow> p + length bs \<le> 8 * length a \<and> (\<forall>k < length bs. bit_at a (p + k) = bs ! k)"

fun add_bits :: "bool list \<Rightarrow> byte list \<times> nat \<Rightarrow> (byte list \<times> nat) res" where
  "add_bits [] out = Inr out"
| "add_bits (b # bs) out = rbind (huff_add_bit b out) (add_bits bs)"

lemma add_bits_append: "add_bits (bs @ cs) out = rbind (add_bits bs out) (add_bits cs)"
  by (induction bs arbitrary: out) (auto simp: rbind_def split: sum.splits)

lemma div8_lt: "p < 8 * n \<Longrightarrow> p div 8 < (n::nat)"
  by (simp add: less_mult_imp_div_less mult.commute)

text \<open>
  Writing ors a bit in, so the rest of the byte at the position must still be clear: the code
  clears a byte when it enters it and never goes back.
\<close>

definition bits_clean :: "byte list \<Rightarrow> nat \<Rightarrow> bool" where
  "bits_clean a p \<longleftrightarrow>
     (p mod 8 \<noteq> 0 \<longrightarrow> (\<forall>k < 8. p mod 8 \<le> k \<longrightarrow> \<not> bit (a ! (p div 8)) k))"

lemma bits_clean_aligned [simp]: "p mod 8 = 0 \<Longrightarrow> bits_clean a p"
  by (simp add: bits_clean_def)

lemma bits_clean_Suc:
  assumes "bits_clean a p" and "p < 8 * length a"
    and "\<forall>k < 8. p mod 8 < k \<longrightarrow> bit (a' ! (p div 8)) k \<longrightarrow> p mod 8 \<noteq> 0 \<and> bit (a ! (p div 8)) k"
  shows "bits_clean a' (Suc p)"
  using assms by (auto simp: bits_clean_def mod_Suc div_Suc)

text \<open>Adding a bit writes it at the position and leaves every earlier bit alone.\<close>

lemma huff_add_bit_eq:
  assumes "p < 8 * length a"
  shows "huff_add_bit b (a, p) = Inr (a[p div 8 :=
    (if p mod 8 = 0 then 0 else a ! (p div 8)) OR push_bit (p mod 8) (of_bool b)], p + 1)"
  using div8_lt [OF assms] by (auto simp: huff_add_bit_def)

lemma bit_byte_or:
  "k < 8 \<Longrightarrow> bit (v OR push_bit j (of_bool b) :: byte) k \<longleftrightarrow> bit v k \<or> (k = j \<and> b)"
  by (cases b) (auto simp: bit_simps)

lemma huff_add_bit_ok:
  assumes "p < 8 * length a" and "bits_clean a p"
  shows "\<exists>a'. huff_add_bit b (a, p) = Inr (a', p + 1) \<and> length a' = length a \<and> bits_at a' p [b] \<and>
    (\<forall>k < p. bit_at a' k = bit_at a k) \<and> bits_clean a' (p + 1)"
proof -
  let ?v = "if p mod 8 = 0 then 0 else a ! (p div 8)"
  let ?a = "a[p div 8 := ?v OR push_bit (p mod 8) (of_bool b)]"
  have pd: "p div 8 < length a" using assms(1) by (rule div8_lt)
  have "bits_at ?a p [b]"
    using assms pd by (auto simp: bits_at_def bit_at_def bit_byte_or bits_clean_def)
  moreover have "bit_at ?a k = bit_at a k" if "k < p" for k
  proof (cases "k div 8 = p div 8")
    case True
    with that have "k mod 8 < p mod 8"
      by (metis add_less_cancel_left div_mult_mod_eq)
    with True pd show ?thesis by (auto simp: bit_at_def bit_byte_or)
  qed (simp add: bit_at_def)
  moreover have "bits_clean ?a (p + 1)"
    using bits_clean_Suc [OF assms(2,1), of ?a] pd by (auto simp: bit_byte_or)
  ultimately show ?thesis
    using huff_add_bit_eq [OF assms(1)] by auto
qed

lemma add_bits_ok:
  assumes "p + length bs \<le> 8 * length a" and "bits_clean a p"
  shows "\<exists>a'. add_bits bs (a, p) = Inr (a', p + length bs) \<and> length a' = length a \<and>
    bits_at a' p bs \<and> (\<forall>k < p. bit_at a' k = bit_at a k) \<and> bits_clean a' (p + length bs)"
  using assms
proof (induction bs arbitrary: a p)
  case Nil
  then show ?case by (simp add: bits_at_def)
next
  case (Cons b bs)
  then obtain a1 where a1: "huff_add_bit b (a, p) = Inr (a1, p + 1)" "length a1 = length a"
    "bits_at a1 p [b]" "\<forall>k < p. bit_at a1 k = bit_at a k" "bits_clean a1 (p + 1)"
    using huff_add_bit_ok [of p a b] by auto
  with Cons.prems obtain a2 where a2: "add_bits bs (a1, p + 1) = Inr (a2, p + 1 + length bs)"
    "length a2 = length a1" "bits_at a2 (p + 1) bs" "\<forall>k < p + 1. bit_at a2 k = bit_at a1 k"
    "bits_clean a2 (p + 1 + length bs)"
    using Cons.IH [of "p + 1" a1] by auto
  have "bits_at a2 p (b # bs)"
    unfolding bits_at_def
  proof (intro conjI allI impI)
    show "p + length (b # bs) \<le> 8 * length a2"
      using Cons.prems a1 a2 by simp
    fix k assume "k < length (b # bs)"
    then show "bit_at a2 (p + k) = (b # bs) ! k"
      using a1(3) a2(3,4) by (cases k) (auto simp: bits_at_def)
  qed
  with a1 a2 show ?case by auto
qed

lemma huff_code_bound: "huff_code d h i = Some bs \<Longrightarrow> i < length (nodeList h)"
  by (cases d) (auto split: if_splits)

lemma huff_send_code:
  "huff_code d h i = Some bs \<Longrightarrow>
   huff_send d h i child out = rbind (add_bits bs out) (\<lambda>out.
     case child of None \<Rightarrow> Inr out
     | Some c \<Rightarrow> huff_add_bit (n_right (nodeList h ! i) = Some c) out)"
proof (induction d arbitrary: i bs child)
  case (Suc d)
  show ?case
  proof (cases "n_parent (nodeList h ! i)")
    case None
    with Suc.prems show ?thesis by (auto split: if_splits)
  next
    case (Some p)
    with Suc.prems obtain ps where ps: "huff_code d h p = Some ps"
      and bs: "bs = ps @ [n_right (nodeList h ! p) = Some i]"
      by (auto split: if_splits option.splits)
    show ?thesis
      using Suc.IH [OF ps, of "Some i"] Some Suc.prems
      by (auto simp: bs add_bits_append rbind_assoc split: if_splits)
  qed
qed simp

lemma bits_at_append:
  "bits_at a p (xs @ ys) \<longleftrightarrow> bits_at a p xs \<and> bits_at a (p + length xs) ys"
proof -
  have "(\<forall>k < length (xs @ ys). bit_at a (p + k) = (xs @ ys) ! k) \<longleftrightarrow>
    (\<forall>k < length xs. bit_at a (p + k) = xs ! k) \<and>
    (\<forall>k < length ys. bit_at a (p + length xs + k) = ys ! k)" (is "?l \<longleftrightarrow> ?r1 \<and> ?r2")
  proof
    assume l: ?l
    have ?r1 using l by (auto simp: nth_append)
    moreover have "bit_at a (p + length xs + k) = ys ! k" if "k < length ys" for k
      using l [rule_format, of "length xs + k"] that by (simp add: add.assoc)
    ultimately show "?r1 \<and> ?r2" by blast
  next
    assume r: "?r1 \<and> ?r2"
    show ?l
    proof (intro allI impI)
      fix k assume "k < length (xs @ ys)"
      then show "bit_at a (p + k) = (xs @ ys) ! k"
        using r [THEN conjunct1, rule_format, of k]
          r [THEN conjunct2, rule_format, of "k - length xs"]
        by (cases "k < length xs") (auto simp: nth_append)
    qed
  qed
  then show ?thesis by (auto simp: bits_at_def)
qed

lemma huff_walk_code:
  "huff_code d h i = Some bs \<Longrightarrow> bits_at fin p bs \<Longrightarrow>
   huff_walk h fin (tree h) p = huff_walk h fin (Some i) (p + length bs)"
proof (induction d arbitrary: i bs)
  case (Suc d)
  show ?case
  proof (cases "n_parent (nodeList h ! i)")
    case None
    with Suc.prems show ?thesis by (auto split: if_splits)
  next
    case (Some q)
    with Suc.prems obtain qs where qs: "huff_code d h q = Some qs"
      and q: "symbol (nodeList h ! q) = INTERNAL_NODE"
        "(if n_right (nodeList h ! q) = Some i then True else n_left (nodeList h ! q) = Some i)"
      and bs: "bs = qs @ [n_right (nodeList h ! q) = Some i]"
      by (auto split: if_splits option.splits)
    from Suc.prems(2) have at: "bits_at fin p qs"
      and b: "bits_at fin (p + length qs) [n_right (nodeList h ! q) = Some i]"
      by (auto simp: bs bits_at_append)
    have "huff_walk h fin (Some q) (p + length qs) = huff_walk h fin (Some i) (p + length bs)"
      using huff_code_bound [OF qs] q b
      by (subst huff_walk.simps) (auto simp: bits_at_def bit_at_def bs div8_lt split: if_splits)
    with Suc.IH [OF qs at] show ?thesis by simp
  qed
qed simp

section \<open>Symbol round trip\<close>

lemma Huff_offsetTransmit_ok:
  assumes "huff_leaf h ch i bs" and "p + length bs \<le> 8 * length a" and "bits_clean a p"
  obtains a' where "Huff_offsetTransmit h ch a p = Inr (a', p + length bs)" "length a' = length a"
    "bits_at a' p bs" "\<And>k. k < p \<Longrightarrow> bit_at a' k = bit_at a k" "bits_clean a' (p + length bs)"
  using add_bits_ok [OF assms(2,3)] assms(1)
  by (fastforce simp: Huff_offsetTransmit_def huff_leaf_def huff_send_code
      rbind_def split: sum.splits)

lemma Huff_offsetReceive_ok:
  assumes "huff_leaf h ch i bs" and "bits_at a p bs"
  shows "Huff_offsetReceive h (tree h) a p = Inr (ch, p + length bs)"
proof -
  have "huff_walk h a (tree h) p = huff_walk h a (Some i) (p + length bs)"
    using assms by (auto simp: huff_leaf_def intro: huff_walk_code)
  also have "\<dots> = Inr (Some i, p + length bs)"
    using assms(1) by (subst huff_walk.simps) (auto simp: huff_leaf_def)
  finally show ?thesis
    using assms(1) by (simp add: Huff_offsetReceive_def huff_leaf_def)
qed

lemma huff_symbol_roundtrip:
  assumes "huff_leaf h ch i bs" and "p + length bs \<le> 8 * length a" and "bits_clean a p"
    and "Huff_offsetTransmit h ch a p = Inr (a', q)"
  shows "Huff_offsetReceive h (tree h) a' p = Inr (ch, q) \<and> q = p + length bs"
  using Huff_offsetTransmit_ok [OF assms(1-3)] Huff_offsetReceive_ok [OF assms(1)] assms(4)
  by (metis Inr_inject Pair_inject)

end
