(* ===== verification/SizeBuf.thy ===== *)
theory SizeBuf
  imports Huffman
begin

text \<open>
  The growable message buffer \<open>sizebuf_t\<close> and the writing half of the message layer
  (\<open>SZ_*\<close> and \<open>MSG_Write*\<close> of \<open>engine/common/common.c\<close>).  \<open>data\<close> is the storage behind the
  pointer, \<open>maxsize\<close> the size the code believes it has, \<open>cursize\<close> the bytes in use.  A float or
  double is represented by its bit pattern: the code only copies it.
\<close>

section \<open>The buffer\<close>

definition COORDTYPE_SIZE_MASK :: byte where "COORDTYPE_SIZE_MASK = 15"

record netprim =
  coordtype :: byte
  anglesize :: byte
  npflags :: byte

datatype sbpacking = SZ_BAD | SZ_RAWBYTES | SZ_RAWBITS | SZ_HUFFMAN

record sizebuf =
  data :: "byte list"
  maxsize :: nat
  cursize :: nat
  allowoverflow :: bool
  overflowed :: bool
  packing :: sbpacking
  currentbit :: nat
  prim :: netprim

definition SZ_Clear :: "sizebuf \<Rightarrow> sizebuf" where
  "SZ_Clear buf = buf\<lparr>cursize := 0, overflowed := False\<rparr>"

text \<open>\<open>SZ_GetSpace\<close> returns the offset into \<open>data\<close> that its C pointer stands for.\<close>

definition SZ_GetSpace :: "sizebuf \<Rightarrow> nat \<Rightarrow> (nat \<times> sizebuf) res" where
  "SZ_GetSpace buf len =
     (if cursize buf + len > maxsize buf then
        (if \<not> allowoverflow buf then Inl Sys_Error
         else let buf = (SZ_Clear buf)\<lparr>overflowed := True\<rparr>
              in Inr (cursize buf, buf\<lparr>cursize := cursize buf + len\<rparr>))
      else Inr (cursize buf, buf\<lparr>cursize := cursize buf + len\<rparr>))"

text \<open>\<open>sz_put i v buf\<close> is \<open>buf->data[i] = v\<close>; \<open>sz_puts\<close> a \<open>memcpy\<close> to \<open>buf->data + i\<close>.\<close>

definition sz_put :: "nat \<Rightarrow> byte \<Rightarrow> sizebuf \<Rightarrow> sizebuf res" where
  "sz_put i v buf = rbind (poke i v (data buf)) (\<lambda>d. Inr (buf\<lparr>data := d\<rparr>))"

definition sz_puts :: "nat \<Rightarrow> byte list \<Rightarrow> sizebuf \<Rightarrow> sizebuf res" where
  "sz_puts i vs buf = rbind (pokes i vs (data buf)) (\<lambda>d. Inr (buf\<lparr>data := d\<rparr>))"

definition SZ_Write :: "sizebuf \<Rightarrow> byte list \<Rightarrow> sizebuf res" where
  "SZ_Write buf bs = rbind (SZ_GetSpace buf (length bs)) (\<lambda>(p, buf). sz_puts p bs buf)"

text \<open>\<open>SZ_Print\<close>: append a string, over the terminator of the string already there.\<close>

definition SZ_Print :: "sizebuf \<Rightarrow> byte list \<Rightarrow> sizebuf res" where
  "SZ_Print buf s =
     (let len = length s + 1 in
      rbind (if cursize buf = 0 then Inr True
             else rbind (peek (data buf) (cursize buf - 1)) (\<lambda>c. Inr (c \<noteq> 0))) (\<lambda>no_zero.
      if no_zero then
        rbind (SZ_GetSpace buf len) (\<lambda>(p, buf). sz_puts p (s @ [0]) buf)
      else
        rbind (SZ_GetSpace buf (len - 1)) (\<lambda>(msg, buf).
          let msg = (if msg = 0 then msg + 1 else msg) in sz_puts (msg - 1) (s @ [0]) buf)))"

section \<open>Writing\<close>

definition MSG_BeginWriting :: "sizebuf \<Rightarrow> netprim \<Rightarrow> byte list option \<Rightarrow> nat \<Rightarrow> sizebuf" where
  "MSG_BeginWriting msg pr storage bufsize =
     (let msg = (if storage \<noteq> None \<or> bufsize \<noteq> 0
                 then msg\<lparr>data := (case storage of None \<Rightarrow> [] | Some d \<Rightarrow> d), maxsize := bufsize\<rparr>
                 else msg)
      in msg\<lparr>overflowed := False, cursize := 0, currentbit := 0, packing := SZ_RAWBYTES,
             prim := pr, allowoverflow := False\<rparr>)"

definition MSG_WriteRawBytes :: "sizebuf \<Rightarrow> int32 \<Rightarrow> nat \<Rightarrow> sizebuf res" where
  "MSG_WriteRawBytes msg value bits =
     (if bits \<le> 8 then
        rbind (SZ_GetSpace msg 1) (\<lambda>(p, msg). sz_put p (ucast value) msg)
      else if bits \<le> 16 then
        rbind (SZ_GetSpace msg 2) (\<lambda>(p, msg).
        rbind (sz_put p (ucast (value AND 0xFF)) msg) (\<lambda>msg.
        sz_put (p + 1) (ucast (signed_drop_bit 8 value)) msg))
      else
        rbind (SZ_GetSpace msg 4) (\<lambda>(p, msg).
        rbind (sz_put p (ucast (value AND 0xFF)) msg) (\<lambda>msg.
        rbind (sz_put (p + 1) (ucast (signed_drop_bit 8 value AND 0xFF)) msg) (\<lambda>msg.
        rbind (sz_put (p + 2) (ucast (signed_drop_bit 16 value AND 0xFF)) msg) (\<lambda>msg.
        sz_put (p + 3) (ucast (signed_drop_bit 24 value)) msg)))))"

text \<open>
  The loop of \<open>MSG_WriteRawBits\<close> from bit \<open>i\<close> on.  It tests \<open>bits\<close>, not the bits left, before
  it stores a whole byte, and never looks at \<open>maxsize\<close>.
\<close>

function MSG_WriteRawBits :: "sizebuf \<Rightarrow> int32 \<Rightarrow> nat \<Rightarrow> nat \<Rightarrow> sizebuf res" where
  "MSG_WriteRawBits msg value bits i =
     (if i < bits then
        (if currentbit msg mod 8 = 0 then
           (let msg = msg\<lparr>cursize := cursize msg + 1\<rparr> in
            if bits \<ge> 8 then
              rbind (sz_put (currentbit msg div 8) (ucast (signed_drop_bit i value AND 0xff)) msg)
                (\<lambda>msg. MSG_WriteRawBits (msg\<lparr>currentbit := currentbit msg + 8\<rparr>) value bits (i + 8))
            else
              rbind (sz_put (currentbit msg div 8) 0 msg) (\<lambda>msg.
              rbind (peek (data msg) (currentbit msg div 8)) (\<lambda>v.
              rbind (sz_put (currentbit msg div 8)
                       (v OR push_bit (currentbit msg mod 8) (of_bool (bit value i))) msg) (\<lambda>msg.
              MSG_WriteRawBits (msg\<lparr>currentbit := currentbit msg + 1\<rparr>) value bits (i + 1)))))
         else
           rbind (peek (data msg) (currentbit msg div 8)) (\<lambda>v.
           rbind (sz_put (currentbit msg div 8)
                    (v OR push_bit (currentbit msg mod 8) (of_bool (bit value i))) msg) (\<lambda>msg.
           MSG_WriteRawBits (msg\<lparr>currentbit := currentbit msg + 1\<rparr>) value bits (i + 1))))
      else Inr msg)"
  by pat_completeness auto
termination
  by (relation "measure (\<lambda>(msg, value, bits, i). bits - i)") auto

declare MSG_WriteRawBits.simps [simp del]

text \<open>\<open>MSG_WriteHuffBits\<close>: the odd bits one by one, then whole bytes through the coder.\<close>

fun huff_write_bits :: "nat \<Rightarrow> int32 \<Rightarrow> byte list \<times> nat \<Rightarrow> (int32 \<times> byte list \<times> nat) res" where
  "huff_write_bits 0 value out = Inr (value, out)"
| "huff_write_bits (Suc n) value out =
     rbind (huff_add_bit (bit (value AND 1) 0) out) (\<lambda>out.
     huff_write_bits n (signed_drop_bit 1 value) out)"

fun huff_write_bytes ::
  "huffman_t \<Rightarrow> nat \<Rightarrow> int32 \<Rightarrow> byte list \<times> nat \<Rightarrow> (byte list \<times> nat) res" where
  "huff_write_bytes hf 0 value out = Inr out"
| "huff_write_bytes hf (Suc n) value out =
     rbind (Huff_EmitByte hf (unat (value AND 255)) (fst out) (snd out)) (\<lambda>out.
     huff_write_bytes hf n (signed_drop_bit 8 value) out)"

definition MSG_WriteHuffBits :: "huffman_t \<Rightarrow> sizebuf \<Rightarrow> int32 \<Rightarrow> nat \<Rightarrow> sizebuf res" where
  "MSG_WriteHuffBits hf msg value bits =
     (let value = value AND drop_bit (32 - bits) 0xFFFFFFFF; remaining = bits mod 8 in
      rbind (huff_write_bits remaining value (data msg, currentbit msg)) (\<lambda>(value, out).
      rbind (if bits - remaining > 0
             then huff_write_bytes hf ((bits - remaining + 7) div 8) value out
             else Inr out) (\<lambda>(d, p).
      Inr (msg\<lparr>data := d, currentbit := p, cursize := p div 8 + 1\<rparr>))))"

definition MSG_WriteBits :: "huffman_t \<Rightarrow> sizebuf \<Rightarrow> int32 \<Rightarrow> int \<Rightarrow> sizebuf res" where
  "MSG_WriteBits hf msg value bits =
     (if bits = 0 \<or> bits < -31 \<or> bits > 32 then Inl Sys_Error
      else
        let value = (if bits < 0 \<and> value AND shl32 1 (bits - 1) \<noteq> 0
                     then value OR shl32 (NOT 1) bits else value);
            bits = nat \<bar>bits\<bar>
        in case packing msg of
             SZ_BAD \<Rightarrow> Inl Sys_Error
           | SZ_RAWBYTES \<Rightarrow> MSG_WriteRawBytes msg value bits
           | SZ_RAWBITS \<Rightarrow> MSG_WriteRawBits msg value bits 0
           | SZ_HUFFMAN \<Rightarrow>
               (if int (maxsize msg) - int (cursize msg) < 4
                then Inr (if \<not> allowoverflow msg then msg\<lparr>overflowed := True\<rparr> else msg)
                else MSG_WriteHuffBits hf msg value bits))"

definition MSG_WriteChar :: "sizebuf \<Rightarrow> int32 \<Rightarrow> sizebuf res" where
  "MSG_WriteChar sb c = rbind (SZ_GetSpace sb 1) (\<lambda>(p, sb). sz_put p (ucast c) sb)"

definition MSG_WriteByte :: "sizebuf \<Rightarrow> int32 \<Rightarrow> sizebuf res" where
  "MSG_WriteByte sb c = rbind (SZ_GetSpace sb 1) (\<lambda>(p, sb). sz_put p (ucast (c AND 0xff)) sb)"

definition MSG_WriteShort :: "sizebuf \<Rightarrow> int32 \<Rightarrow> sizebuf res" where
  "MSG_WriteShort sb c =
     rbind (SZ_GetSpace sb 2) (\<lambda>(p, sb).
     rbind (sz_put p (ucast (c AND 0xff)) sb) (\<lambda>sb.
     sz_put (p + 1) (ucast (signed_drop_bit 8 c AND 0xff)) sb))"

definition MSG_WriteLong :: "sizebuf \<Rightarrow> int32 \<Rightarrow> sizebuf res" where
  "MSG_WriteLong sb c =
     rbind (SZ_GetSpace sb 4) (\<lambda>(p, sb).
     rbind (sz_put p (ucast (c AND 0xff)) sb) (\<lambda>sb.
     rbind (sz_put (p + 1) (ucast (signed_drop_bit 8 c AND 0xff)) sb) (\<lambda>sb.
     rbind (sz_put (p + 2) (ucast (signed_drop_bit 16 c AND 0xff)) sb) (\<lambda>sb.
     sz_put (p + 3) (ucast (signed_drop_bit 24 c AND 0xff)) sb))))"

lemma drop_bit_7_less: "drop_bit 7 (c :: u64) \<noteq> 0 \<Longrightarrow> unat (drop_bit 7 c) < unat c"
proof -
  assume "drop_bit 7 c \<noteq> 0"
  then have "unat (drop_bit 7 c) \<noteq> 0" by (simp only: unat_eq_zero not_False_eq_True)
  moreover have "unat (drop_bit 7 c) = unat c div 128"
    by (simp only: unat_drop_bit_eq) (simp add: drop_bit_eq_div)
  ultimately show ?thesis by (cases "unat c = 0") simp_all
qed

function MSG_WriteULEB128 :: "sizebuf \<Rightarrow> u64 \<Rightarrow> sizebuf res" where
  "MSG_WriteULEB128 sb c =
     (let b = (ucast (c AND 0x7f) :: byte) in
      if drop_bit 7 c = 0 then MSG_WriteByte sb (ucast b)
      else rbind (MSG_WriteByte sb (ucast (b OR 0x80))) (\<lambda>sb. MSG_WriteULEB128 sb (drop_bit 7 c)))"
  by pat_completeness auto
termination
  by (relation "measure (\<lambda>(sb, c). unat c)") (auto intro: drop_bit_7_less)

declare MSG_WriteULEB128.simps [simp del]

text \<open>The sign of a 64-bit value moves to the low bit (\<open>MSG_WriteSignedQEX\<close>, \<open>MSG_WriteInt64\<close>).\<close>

definition zigzag64 :: "u64 \<Rightarrow> u64" where
  "zigzag64 c = (if sint c < 0 then push_bit 1 (-1 - c) OR 1 else push_bit 1 c)"

definition MSG_WriteSignedQEX :: "sizebuf \<Rightarrow> u64 \<Rightarrow> sizebuf res" where
  "MSG_WriteSignedQEX sb c = MSG_WriteULEB128 sb (zigzag64 c)"

text \<open>The \<open>while\<close> of \<open>MSG_WriteUInt64\<close>: how many bytes follow the first.\<close>

function uint64_extra :: "u64 \<Rightarrow> nat \<Rightarrow> u64 \<Rightarrow> nat" where
  "uint64_extra c b l = (if c > l - 1 \<and> b < 8 then uint64_extra c (b + 1) (push_bit 7 l) else b)"
  by pat_completeness auto
termination
  by (relation "measure (\<lambda>(c, b, l). 8 - b)") auto

declare uint64_extra.simps [simp del]

text \<open>The bytes stored by \<open>while(b --> 0) *buf++ = (c >> (b*8))&0xff\<close>.\<close>

fun be_bytes :: "nat \<Rightarrow> u64 \<Rightarrow> byte list" where
  "be_bytes 0 c = []"
| "be_bytes (Suc b) c = ucast (drop_bit (b * 8) c AND 0xff) # be_bytes b c"

definition MSG_WriteUInt64 :: "sizebuf \<Rightarrow> u64 \<Rightarrow> sizebuf res" where
  "MSG_WriteUInt64 sb c =
     (let b = uint64_extra c 0 128 in
      rbind (SZ_GetSpace sb (1 + b)) (\<lambda>(p, sb).
      rbind (sz_put p (ucast (ucast (push_bit (8 - b) (0xff :: int32)) OR shr64 c (b * 8))) sb)
        (\<lambda>sb. sz_puts (p + 1) (be_bytes b c) sb)))"

definition MSG_WriteInt64 :: "sizebuf \<Rightarrow> u64 \<Rightarrow> sizebuf res" where
  "MSG_WriteInt64 sb c = MSG_WriteUInt64 sb (zigzag64 c)"

definition MSG_WriteFloat :: "sizebuf \<Rightarrow> int32 \<Rightarrow> sizebuf res" where
  "MSG_WriteFloat sb f = SZ_Write sb (le32 f)"

definition MSG_WriteDouble :: "sizebuf \<Rightarrow> u64 \<Rightarrow> sizebuf res" where
  "MSG_WriteDouble sb c =
     rbind (SZ_GetSpace sb 8) (\<lambda>(p, sb).
     rbind (sz_put p (ucast (c AND 0xff)) sb) (\<lambda>sb.
     rbind (sz_put (p + 1) (ucast (drop_bit 8 c AND 0xff)) sb) (\<lambda>sb.
     rbind (sz_put (p + 2) (ucast (drop_bit 16 c AND 0xff)) sb) (\<lambda>sb.
     rbind (sz_put (p + 3) (ucast (drop_bit 24 c AND 0xff)) sb) (\<lambda>sb.
     rbind (sz_put (p + 4) (ucast (drop_bit 32 c AND 0xff)) sb) (\<lambda>sb.
     rbind (sz_put (p + 5) (ucast (drop_bit 40 c AND 0xff)) sb) (\<lambda>sb.
     rbind (sz_put (p + 6) (ucast (drop_bit 48 c AND 0xff)) sb) (\<lambda>sb.
     sz_put (p + 7) (ucast (drop_bit 56 c AND 0xff)) sb))))))))"

definition MSG_WriteString :: "sizebuf \<Rightarrow> byte list option \<Rightarrow> sizebuf res" where
  "MSG_WriteString sb s = (case s of None \<Rightarrow> SZ_Write sb [0] | Some s \<Rightarrow> SZ_Write sb (s @ [0]))"

definition ES_SOLID_BSP :: int32 where "ES_SOLID_BSP = 31"

definition MSG_WriteSize16 :: "sizebuf \<Rightarrow> int32 \<Rightarrow> sizebuf res" where
  "MSG_WriteSize16 sb sz =
     (if sz = ES_SOLID_BSP then MSG_WriteShort sb ES_SOLID_BSP
      else if sz \<noteq> 0 then
        let x = sz AND 255;
            zd = drop_bit 8 sz AND 255;
            zu = (drop_bit 16 sz AND 65535) - 32768
        in MSG_WriteShort sb
             (signed_drop_bit 3 x OR push_bit 5 (signed_drop_bit 3 zd) OR
              push_bit 10 (signed_drop_bit 3 (zu + 32)))
      else MSG_WriteShort sb 0)"

definition MAX_EDICTS :: int32 where "MAX_EDICTS = push_bit 22 1 - 1"

definition MSG_WriteEntity :: "sizebuf \<Rightarrow> int32 \<Rightarrow> sizebuf res" where
  "MSG_WriteEntity sb entnum =
     (if entnum > MAX_EDICTS then Inl Host_EndGame
      else if entnum \<ge> 0x8000 then
        rbind (MSG_WriteShort sb (drop_bit 8 entnum OR 0x8000)) (\<lambda>sb.
        MSG_WriteByte sb (entnum AND 0xff))
      else MSG_WriteShort sb entnum)"

section \<open>What the writers do\<close>

text \<open>
  \<open>sz_wf\<close>: the storage is at least as large as the code believes and the bytes in use lie inside it.
  \<open>sz_content\<close> is the message written so far, the abstract value of the buffer.
\<close>

definition sz_wf :: "sizebuf \<Rightarrow> bool" where
  "sz_wf sb \<longleftrightarrow> maxsize sb \<le> length (data sb) \<and> cursize sb \<le> maxsize sb"

definition sz_content :: "sizebuf \<Rightarrow> byte list" where
  "sz_content sb = take (cursize sb) (data sb)"

text \<open>\<open>sz_append sb bs\<close> is \<open>sb\<close> with \<open>bs\<close> stored after the bytes in use.\<close>

definition sz_append :: "sizebuf \<Rightarrow> byte list \<Rightarrow> sizebuf" where
  "sz_append sb bs = sb\<lparr>data := take (cursize sb) (data sb) @ bs @ drop (cursize sb + length bs) (data sb),
                        cursize := cursize sb + length bs\<rparr>"

definition sz_fits :: "sizebuf \<Rightarrow> nat \<Rightarrow> bool" where
  "sz_fits sb n \<longleftrightarrow> sz_wf sb \<and> cursize sb + n \<le> maxsize sb"

lemma sz_puts_Cons: "sz_puts i (v # vs) = (\<lambda>sb. rbind (sz_put i v sb) (sz_puts (Suc i) vs))"
  by (auto simp: sz_puts_def sz_put_def rbind_def split: sum.splits)

lemma sz_puts_Nil: "sz_puts i [] = Inr"
  by (auto simp: sz_puts_def)

lemmas sz_puts_simps = sz_puts_Cons sz_puts_Nil

lemma SZ_Write_fits:
  assumes "sz_fits sb (length bs)"
  shows "SZ_Write sb bs = Inr (sz_append sb bs)"
  using assms
  by (cases sb) (simp add: SZ_Write_def SZ_GetSpace_def sz_puts_def pokes_Inr sz_append_def
      sz_fits_def sz_wf_def)

lemma sz_append_wf: "sz_fits sb (length bs) \<Longrightarrow> sz_wf (sz_append sb bs)"
  by (simp add: sz_fits_def sz_wf_def sz_append_def)

lemma sz_append_content: "sz_fits sb (length bs) \<Longrightarrow> sz_content (sz_append sb bs) = sz_content sb @ bs"
  by (simp add: sz_fits_def sz_wf_def sz_append_def sz_content_def)

lemma sz_append_append:
  "sz_fits sb (length bs) \<Longrightarrow> sz_append (sz_append sb bs) cs = sz_append sb (bs @ cs)"
  by (cases sb) (simp add: sz_append_def sz_fits_def sz_wf_def add.assoc add.commute add.left_commute)

lemma sz_append_fits:
  "sz_fits sb (length bs + n) \<Longrightarrow> sz_fits (sz_append sb bs) n"
  by (simp add: sz_fits_def sz_wf_def sz_append_def)

lemma sz_append_frame [simp]:
  "maxsize (sz_append sb bs) = maxsize sb" "cursize (sz_append sb bs) = cursize sb + length bs"
  "allowoverflow (sz_append sb bs) = allowoverflow sb" "overflowed (sz_append sb bs) = overflowed sb"
  "packing (sz_append sb bs) = packing sb" "currentbit (sz_append sb bs) = currentbit sb"
  "prim (sz_append sb bs) = prim sb"
  by (simp_all add: sz_append_def)

lemma sz_fits_mono: "sz_fits sb n \<Longrightarrow> m \<le> n \<Longrightarrow> sz_fits sb m"
  by (simp add: sz_fits_def)

text \<open>Every fixed-size writer is \<open>SZ_Write\<close> of its encoding, overflow and error cases included.\<close>

lemma MSG_WriteChar_eq: "MSG_WriteChar sb c = SZ_Write sb [ucast c]"
  by (simp add: MSG_WriteChar_def SZ_Write_def sz_puts_simps)

lemma MSG_WriteByte_eq: "MSG_WriteByte sb c = SZ_Write sb [ucast c]"
  by (simp add: MSG_WriteByte_def SZ_Write_def sz_puts_simps)

lemma MSG_WriteShort_eq: "MSG_WriteShort sb c = SZ_Write sb (le16 c)"
  by (simp add: MSG_WriteShort_def SZ_Write_def) (simp add: le16_def sz_puts_simps bytes_simps)

lemma MSG_WriteLong_eq: "MSG_WriteLong sb c = SZ_Write sb (le32 c)"
  by (simp add: MSG_WriteLong_def SZ_Write_def)
    (simp add: le32_def sz_puts_simps bytes_simps numeral_2_eq_2 numeral_3_eq_3)

end
