(* ===== verification/MsgRead.thy ===== *)
theory MsgRead
  imports SizeBuf
begin

text \<open>
  The reading half of the message layer (\<open>MSG_Read*\<close> of \<open>engine/common/common.c\<close>).  The record
  \<open>netread\<close> holds what the C code keeps in globals: the message being read (\<open>msg_readmsg\<close>), the
  sticky error flag \<open>msg_badread\<close> and the Huffman tables.  A reader returns its value and the
  state, or a fault when it would touch memory outside the message's storage.
\<close>

section \<open>The reading state\<close>

record netread =
  msg_readmsg :: sizebuf
  msg_badread :: bool
  q3huff :: huffman_t

definition MSG_BeginReading :: "netread \<Rightarrow> sizebuf \<Rightarrow> netprim \<Rightarrow> netread" where
  "MSG_BeginReading rd sb pr = rd\<lparr>msg_readmsg := sb\<lparr>currentbit := 0, packing := SZ_RAWBYTES, prim := pr\<rparr>,
                                  msg_badread := False\<rparr>"

definition MSG_GetReadCount :: "netread \<Rightarrow> nat" where
  "MSG_GetReadCount rd = currentbit (msg_readmsg rd) div 8"

definition set_bit_pos :: "nat \<Rightarrow> netread \<Rightarrow> netread" where
  "set_bit_pos p rd = rd\<lparr>msg_readmsg := (msg_readmsg rd)\<lparr>currentbit := p\<rparr>\<rparr>"

definition bad_read :: "netread \<Rightarrow> netread" where
  "bad_read rd = rd\<lparr>msg_badread := True\<rparr>"

text \<open>\<open>rd_byte i rd\<close> is \<open>msg_readmsg->data[i]\<close>.\<close>

definition rd_byte :: "nat \<Rightarrow> netread \<Rightarrow> byte res" where
  "rd_byte i rd = peek (data (msg_readmsg rd)) i"

section \<open>Bit fields\<close>

definition MSG_ReadRawBytes :: "netread \<Rightarrow> nat \<Rightarrow> (int32 \<times> netread) res" where
  "MSG_ReadRawBytes rd bits =
     (let pos = currentbit (msg_readmsg rd); readcount = pos div 8 in
      if readcount + bits div 8 \<ge> cursize (msg_readmsg rd) then
        Inr (-1, set_bit_pos (pos + bits) (bad_read rd))
      else if bits \<le> 8 then
        rbind (rd_byte readcount rd) (\<lambda>b0. Inr (ucast b0, set_bit_pos (pos + 8) rd))
      else if bits \<le> 16 then
        rbind (rd_byte readcount rd) (\<lambda>b0.
        rbind (rd_byte (readcount + 1) rd) (\<lambda>b1.
        Inr (ucast (ucast (ucast b0 + push_bit 8 (ucast b1) :: int32) :: 16 word),
             set_bit_pos (pos + 16) rd)))
      else if bits \<le> 32 then
        rbind (rd_byte readcount rd) (\<lambda>b0.
        rbind (rd_byte (readcount + 1) rd) (\<lambda>b1.
        rbind (rd_byte (readcount + 2) rd) (\<lambda>b2.
        rbind (rd_byte (readcount + 3) rd) (\<lambda>b3.
        Inr (ucast b0 + push_bit 8 (ucast b1) + push_bit 16 (ucast b2) + push_bit 24 (ucast b3),
             set_bit_pos (pos + 32) rd)))))
      else Inr (0, rd))"

text \<open>The \<open>for\<close> of \<open>MSG_ReadRawBits\<close>: \<open>n\<close> bits still to read, the next one into bit \<open>i\<close>.\<close>

fun read_raw_loop :: "byte list \<Rightarrow> nat \<Rightarrow> nat \<Rightarrow> nat \<Rightarrow> int32 \<Rightarrow> int32 res" where
  "read_raw_loop d p i 0 bitmask = Inr bitmask"
| "read_raw_loop d p i (Suc n) bitmask =
     rbind (peek d (p div 8)) (\<lambda>b.
     read_raw_loop d (p + 1) (i + 1) n
       (bitmask OR push_bit i (ucast (drop_bit (p mod 8) b) AND 1)))"

definition MSG_ReadRawBits :: "netread \<Rightarrow> nat \<Rightarrow> (int32 \<times> netread) res" where
  "MSG_ReadRawBits rd bits =
     (let m = msg_readmsg rd in
      if currentbit m + bits > 8 * cursize m then
        Inr (-1, set_bit_pos (8 * cursize m) (bad_read rd))
      else
        rbind (read_raw_loop (data m) (currentbit m) 0 bits 0) (\<lambda>v.
        Inr (v, set_bit_pos (currentbit m + bits) rd)))"

text \<open>The \<open>for\<close> of \<open>MSG_ReadHuffBits\<close>: \<open>n\<close> coded bytes, the next one shifted by \<open>sh\<close>.\<close>

fun read_huff_loop :: "huffman_t \<Rightarrow> byte list \<Rightarrow> nat \<Rightarrow> nat \<Rightarrow> nat \<Rightarrow> int32 \<Rightarrow> (int32 \<times> nat) res" where
  "read_huff_loop hf d 0 sh p bitmask = Inr (bitmask, p)"
| "read_huff_loop hf d (Suc n) sh p bitmask =
     rbind (Huff_GetByte hf d p) (\<lambda>(val, p).
     read_huff_loop hf d n (sh + 8) p (bitmask OR push_bit sh (word_of_nat val)))"

definition MSG_ReadHuffBits :: "netread \<Rightarrow> nat \<Rightarrow> (int32 \<times> netread) res" where
  "MSG_ReadHuffBits rd bits =
     (let remaining = bits mod 8 in
      rbind (MSG_ReadRawBits rd remaining) (\<lambda>(bitmask, rd).
      let m = msg_readmsg rd in
      rbind (read_huff_loop (q3huff rd) (data m) ((bits - remaining) div 8) remaining
               (currentbit m) bitmask) (\<lambda>(bitmask, p).
      if p > 8 * cursize m then Inr (-1, set_bit_pos (8 * cursize m) (bad_read rd))
      else Inr (bitmask, set_bit_pos p rd))))"

definition MSG_ReadBits :: "netread \<Rightarrow> int \<Rightarrow> (int32 \<times> netread) res" where
  "MSG_ReadBits rd bits =
     (let extend = bits < 0; n = nat \<bar>bits\<bar> in
      rbind (case packing (msg_readmsg rd) of
               SZ_BAD \<Rightarrow> Inl Sys_Error
             | SZ_RAWBYTES \<Rightarrow> MSG_ReadRawBytes rd n
             | SZ_RAWBITS \<Rightarrow> MSG_ReadRawBits rd n
             | SZ_HUFFMAN \<Rightarrow> MSG_ReadHuffBits rd n) (\<lambda>(bitmask, rd).
      Inr (if extend \<and> bitmask AND shl32 1 (int n - 1) \<noteq> 0
           then bitmask OR NOT (shl32 1 (int n) - 1) else bitmask, rd)))"

section \<open>Skipping and fixed-size values\<close>

fun skip_bits :: "nat \<Rightarrow> int \<Rightarrow> netread \<Rightarrow> netread res" where
  "skip_bits 0 w rd = Inr rd"
| "skip_bits (Suc n) w rd = rbind (MSG_ReadBits rd w) (\<lambda>(_, rd). skip_bits n w rd)"

text \<open>
  \<open>MSG_ReadSkip\<close>: outside raw-byte packing it reads 32 bits while more than four bytes are left,
  then single bytes, and goes on with the (now zero or negative) count.
\<close>

definition MSG_ReadSkip :: "netread \<Rightarrow> int \<Rightarrow> netread res" where
  "MSG_ReadSkip rd bytes =
     rbind (if packing (msg_readmsg rd) \<noteq> SZ_RAWBYTES \<and> bytes > 0 then
              (let n = nat bytes; big = (n - 1) div 4 in
               rbind (skip_bits big 32 rd) (\<lambda>rd.
               rbind (skip_bits (n - 4 * big) 8 rd) (\<lambda>rd. Inr (rd, 0))))
            else Inr (rd, bytes)) (\<lambda>(rd, bytes).
     let m = msg_readmsg rd; pos = int (currentbit m) + 8 * bytes in
     Inr (if pos < 0 then set_bit_pos 0 (bad_read rd)
          else if pos > 8 * int (cursize m) then set_bit_pos (8 * cursize m) (bad_read rd)
          else set_bit_pos (nat pos) rd))"

definition MSG_ReadChar :: "netread \<Rightarrow> (int32 \<times> netread) res" where
  "MSG_ReadChar rd =
     (if packing (msg_readmsg rd) \<noteq> SZ_RAWBYTES then MSG_ReadBits rd (-8)
      else let n = currentbit (msg_readmsg rd) div 8 in
        if n + 1 > cursize (msg_readmsg rd) then Inr (-1, bad_read rd)
        else rbind (rd_byte n rd) (\<lambda>c. Inr (scast c, set_bit_pos (8 * (n + 1)) rd)))"

definition MSG_PeekByte :: "netread \<Rightarrow> int32 res" where
  "MSG_PeekByte rd =
     (if packing (msg_readmsg rd) \<noteq> SZ_RAWBYTES then Inr (-1)
      else let n = currentbit (msg_readmsg rd) div 8 in
        if n + 1 > cursize (msg_readmsg rd) then Inr (-1)
        else rbind (rd_byte n rd) (\<lambda>c. Inr (ucast c)))"

definition MSG_ReadByte :: "netread \<Rightarrow> (int32 \<times> netread) res" where
  "MSG_ReadByte rd =
     (if packing (msg_readmsg rd) \<noteq> SZ_RAWBYTES then MSG_ReadBits rd 8
      else let n = currentbit (msg_readmsg rd) div 8 in
        if n + 1 > cursize (msg_readmsg rd) then Inr (-1, bad_read rd)
        else rbind (rd_byte n rd) (\<lambda>c. Inr (ucast c, set_bit_pos (8 * (n + 1)) rd)))"

definition MSG_ReadShort :: "netread \<Rightarrow> (int32 \<times> netread) res" where
  "MSG_ReadShort rd =
     (if packing (msg_readmsg rd) \<noteq> SZ_RAWBYTES then
        rbind (MSG_ReadBits rd 16) (\<lambda>(v, rd). Inr (scast (ucast v :: 16 word), rd))
      else let n = currentbit (msg_readmsg rd) div 8 in
        if n + 2 > cursize (msg_readmsg rd) then Inr (-1, bad_read rd)
        else
          rbind (rd_byte n rd) (\<lambda>b0. rbind (rd_byte (n + 1) rd) (\<lambda>b1.
          Inr (scast (ucast (ucast b0 + push_bit 8 (ucast b1) :: int32) :: 16 word),
               set_bit_pos (8 * (n + 2)) rd))))"

definition MSG_ReadUInt16 :: "netread \<Rightarrow> (int32 \<times> netread) res" where
  "MSG_ReadUInt16 rd =
     (if packing (msg_readmsg rd) \<noteq> SZ_RAWBYTES then
        rbind (MSG_ReadBits rd 16) (\<lambda>(v, rd). Inr (scast (ucast v :: 16 word), rd))
      else let n = currentbit (msg_readmsg rd) div 8 in
        if n + 2 > cursize (msg_readmsg rd) then Inr (-1, bad_read rd)
        else
          rbind (rd_byte n rd) (\<lambda>b0. rbind (rd_byte (n + 1) rd) (\<lambda>b1.
          Inr (ucast (ucast (ucast b0 + push_bit 8 (ucast b1) :: int32) :: 16 word),
               set_bit_pos (8 * (n + 2)) rd))))"

definition MSG_ReadLong :: "netread \<Rightarrow> (int32 \<times> netread) res" where
  "MSG_ReadLong rd =
     (if packing (msg_readmsg rd) \<noteq> SZ_RAWBYTES then MSG_ReadBits rd 32
      else let n = currentbit (msg_readmsg rd) div 8 in
        if n + 4 > cursize (msg_readmsg rd) then Inr (-1, bad_read rd)
        else
          rbind (rd_byte n rd) (\<lambda>b0. rbind (rd_byte (n + 1) rd) (\<lambda>b1.
          rbind (rd_byte (n + 2) rd) (\<lambda>b2. rbind (rd_byte (n + 3) rd) (\<lambda>b3.
          Inr (ucast b0 + push_bit 8 (ucast b1) + push_bit 16 (ucast b2) + push_bit 24 (ucast b3),
               set_bit_pos (8 * (n + 4)) rd))))))"

section \<open>Variable-size integers\<close>

text \<open>
  The loop of \<open>MSG_ReadULEB128\<close>.  The seven bits are shifted as an \<open>int\<close> and widened to 64 bits
  with sign; the shift count is a byte that wraps.  A turn that succeeds moves the position
  forward, so the number of message bytes bounds the turns: \<open>fuel\<close> is what is left of it.
\<close>

fun uleb_loop :: "nat \<Rightarrow> netread \<Rightarrow> u64 \<Rightarrow> byte \<Rightarrow> (u64 \<times> netread) res" where
  "uleb_loop 0 rd r sh = Inl Stack_Overflow"
| "uleb_loop (Suc fuel) rd r sh =
     (if msg_badread rd then Inr (r, rd)
      else rbind (MSG_ReadByte rd) (\<lambda>(v, rd).
        let b = (ucast v :: byte);
            r = r OR scast (shl32 (ucast (b AND 0x7f)) (uint sh))
        in if b AND 0x80 = 0 then Inr (r, rd) else uleb_loop fuel rd r (sh + 7)))"

definition MSG_ReadULEB128 :: "netread \<Rightarrow> (u64 \<times> netread) res" where
  "MSG_ReadULEB128 rd = uleb_loop (8 * cursize (msg_readmsg rd) + 2) rd 0 0"

definition unzigzag64 :: "u64 \<Rightarrow> u64" where
  "unzigzag64 c = (if c AND 1 \<noteq> 0 then -1 - drop_bit 1 c else drop_bit 1 c)"

definition MSG_ReadSignedQEX :: "netread \<Rightarrow> (u64 \<times> netread) res" where
  "MSG_ReadSignedQEX rd = rbind (MSG_ReadULEB128 rd) (\<lambda>(c, rd). Inr (unzigzag64 c, rd))"

text \<open>The \<open>for\<close> of \<open>MSG_ReadUInt64\<close>: strip the leading one bits of \<open>v\<close> and count them.\<close>

function uint64_prefix :: "byte \<Rightarrow> byte \<Rightarrow> byte \<Rightarrow> byte \<times> byte" where
  "uint64_prefix v l b =
     (if v AND l \<noteq> 0 then uint64_prefix (v - l) (drop_bit 1 l) (b + 1) else (v, b))"
  by pat_completeness auto
termination
proof (relation "measure (\<lambda>(v, l, b). unat l)", simp, simp)
  fix v l :: byte assume "v AND l \<noteq> 0"
  then have "unat l \<noteq> 0" by (auto simp: unat_eq_zero)
  moreover have "unat (drop_bit 1 l) = unat l div 2"
    by (simp only: unat_drop_bit_eq) (simp add: drop_bit_eq_div)
  ultimately show "unat (drop_bit (Suc 0) l) < unat l" by simp
qed

declare uint64_prefix.simps [simp del]

fun read_be :: "nat \<Rightarrow> netread \<Rightarrow> u64 \<Rightarrow> (u64 \<times> netread) res" where
  "read_be 0 rd r = Inr (r, rd)"
| "read_be (Suc b) rd r =
     rbind (MSG_ReadByte rd) (\<lambda>(v, rd). read_be b rd (r OR shl64 (scast v) (b * 8)))"

definition MSG_ReadUInt64 :: "netread \<Rightarrow> (u64 \<times> netread) res" where
  "MSG_ReadUInt64 rd =
     rbind (MSG_ReadByte rd) (\<lambda>(v, rd).
     let (v, b) = uint64_prefix (ucast v) 0x80 0 in
     read_be (unat b) rd (shl64 (ucast v) (unat b * 8)))"

definition MSG_ReadInt64 :: "netread \<Rightarrow> (u64 \<times> netread) res" where
  "MSG_ReadInt64 rd = rbind (MSG_ReadUInt64 rd) (\<lambda>(c, rd). Inr (unzigzag64 c, rd))"

section \<open>Floats\<close>

text \<open>\<open>return -1\<close> of a float reader is the value -1.0.\<close>

definition float_minus_one :: int32 where "float_minus_one = 0xBF800000"
definition double_minus_one :: u64 where "double_minus_one = 0xBFF0000000000000"

definition MSG_ReadFloat :: "netread \<Rightarrow> (int32 \<times> netread) res" where
  "MSG_ReadFloat rd =
     (if packing (msg_readmsg rd) \<noteq> SZ_RAWBYTES then MSG_ReadBits rd 32
      else let n = currentbit (msg_readmsg rd) div 8 in
        if n + 4 > cursize (msg_readmsg rd) then Inr (float_minus_one, bad_read rd)
        else
          rbind (rd_byte n rd) (\<lambda>b0. rbind (rd_byte (n + 1) rd) (\<lambda>b1.
          rbind (rd_byte (n + 2) rd) (\<lambda>b2. rbind (rd_byte (n + 3) rd) (\<lambda>b3.
          Inr (ucast b0 OR push_bit 8 (ucast b1) OR push_bit 16 (ucast b2) OR push_bit 24 (ucast b3),
               set_bit_pos (8 * (n + 4)) rd))))))"

text \<open>
  \<open>MSG_ReadDouble\<close> takes its bytes from the global \<open>net_message\<close>, whatever \<open>msg_readmsg\<close> points
  at, widens the fourth byte with its sign, and leaves the read position where it was.
\<close>

definition MSG_ReadDouble :: "sizebuf \<Rightarrow> netread \<Rightarrow> (u64 \<times> netread) res" where
  "MSG_ReadDouble net_message rd =
     (let n = currentbit (msg_readmsg rd) div 8; d = data net_message in
      if n + 8 > cursize net_message then Inr (double_minus_one, bad_read rd)
      else
        rbind (peek d n) (\<lambda>b0. rbind (peek d (n + 1)) (\<lambda>b1.
        rbind (peek d (n + 2)) (\<lambda>b2. rbind (peek d (n + 3)) (\<lambda>b3.
        rbind (peek d (n + 4)) (\<lambda>b4. rbind (peek d (n + 5)) (\<lambda>b5.
        rbind (peek d (n + 6)) (\<lambda>b6. rbind (peek d (n + 7)) (\<lambda>b7.
        Inr (ucast b0 OR push_bit 8 (ucast b1) OR push_bit 16 (ucast b2) OR
             scast (push_bit 24 (ucast b3) :: int32) OR
             push_bit 32 (ucast b4) OR push_bit 40 (ucast b5) OR
             push_bit 48 (ucast b6) OR push_bit 56 (ucast b7), rd))))))))))"

section \<open>Strings\<close>

text \<open>
  \<open>read_chars n\<close> is the loop of \<open>MSG_ReadString\<close> with room for \<open>n\<close> more characters.  With no room
  left the code sets \<open>msg_badread\<close> and goes round once more; that turn reads a character and stops.
\<close>

fun read_chars :: "nat \<Rightarrow> netread \<Rightarrow> (byte list \<times> netread) res" where
  "read_chars 0 rd =
     rbind (MSG_ReadChar rd) (\<lambda>(c, rd).
       if msg_badread rd \<or> c = 0 then Inr ([], rd)
       else rbind (MSG_ReadChar (bad_read rd)) (\<lambda>(_, rd). Inr ([], rd)))"
| "read_chars (Suc n) rd =
     rbind (MSG_ReadChar rd) (\<lambda>(c, rd).
       if msg_badread rd \<or> c = 0 then Inr ([], rd)
       else rbind (read_chars n rd) (\<lambda>(s, rd). Inr (ucast c # s, rd)))"

definition MSG_ReadString :: "netread \<Rightarrow> (byte list \<times> netread) res" where
  "MSG_ReadString rd = read_chars 65535 rd"

text \<open>
  The \<open>do ... while (l < outsize-1)\<close> of \<open>MSG_ReadStringBuffer\<close> and \<open>MSG_ReadStringLine\<close>, with the
  characters that end the loop as an argument: the store at \<open>l\<close> and the final terminator must
  lie inside the \<open>outsize\<close> bytes of the buffer.
\<close>

function read_buffer_loop ::
  "int32 set \<Rightarrow> nat \<Rightarrow> nat \<Rightarrow> netread \<Rightarrow> (byte list \<times> netread) res" where
  "read_buffer_loop stop outsize l rd =
     rbind (MSG_ReadChar rd) (\<lambda>(c, rd).
       if msg_badread rd \<or> c \<in> stop then
         (if l < outsize then Inr ([], rd) else Inl Out_Of_Bounds)
       else if \<not> l < outsize then Inl Out_Of_Bounds
       else if l + 1 < outsize - 1 then
         rbind (read_buffer_loop stop outsize (l + 1) rd) (\<lambda>(s, rd). Inr (ucast c # s, rd))
       else if l + 1 < outsize then Inr ([ucast c], rd) else Inl Out_Of_Bounds)"
  by pat_completeness auto
termination
  by (relation "measure (\<lambda>(stop, outsize, l, rd). outsize - l)") auto

declare read_buffer_loop.simps [simp del]

definition MSG_ReadStringBuffer :: "nat \<Rightarrow> netread \<Rightarrow> (byte list \<times> netread) res" where
  "MSG_ReadStringBuffer outsize rd = read_buffer_loop {0} outsize 0 rd"

definition MSG_ReadStringLine :: "netread \<Rightarrow> (byte list \<times> netread) res" where
  "MSG_ReadStringLine rd = read_buffer_loop {0, 10} 2048 0 rd"

section \<open>Composite values\<close>

definition MSG_ReadSize16 :: "netread \<Rightarrow> (int32 \<times> netread) res" where
  "MSG_ReadSize16 rd =
     rbind (MSG_ReadShort rd) (\<lambda>(v, rd).
     let ssolid = ucast (ucast v :: 16 word) :: int32 in
     Inr (if ssolid = ES_SOLID_BSP then ssolid
          else push_bit 16 ((drop_bit 7 ssolid AND 0x1F8) - 32 + 32768) OR
               push_bit 3 (ssolid AND 0x1F) OR push_bit 6 (ssolid AND 0x3E0), rd))"

definition MSG_ReadBigEntity :: "netread \<Rightarrow> (int32 \<times> netread) res" where
  "MSG_ReadBigEntity rd =
     rbind (MSG_ReadShort rd) (\<lambda>(num, rd).
     if num AND 0x8000 \<noteq> 0 then
       rbind (MSG_ReadByte rd) (\<lambda>(b, rd). Inr (push_bit 8 (num AND 0x7fff) OR b, rd))
     else Inr (num, rd))"

fun MSG_ReadData :: "nat \<Rightarrow> netread \<Rightarrow> (byte list \<times> netread) res" where
  "MSG_ReadData 0 rd = Inr ([], rd)"
| "MSG_ReadData (Suc n) rd =
     rbind (MSG_ReadByte rd) (\<lambda>(c, rd).
     rbind (MSG_ReadData n rd) (\<lambda>(cs, rd). Inr (ucast c # cs, rd)))"

end
