(* ===== verification/MsgCodec.thy ===== *)
theory MsgCodec
  imports MsgRead
begin

text \<open>
  The contract between the writing and the reading half of the message layer.  The locale
  \<open>codec\<close> says that a writer stores an encoding and that a reader standing before that encoding
  returns the value and stops behind it; round trips of single values, of sequences and of pairs
  are proved once from it.  Every writer/reader pair of the source interprets it.
\<close>

section \<open>Reading positions\<close>

definition rd_ok :: "netread \<Rightarrow> bool" where
  "rd_ok rd \<longleftrightarrow> packing (msg_readmsg rd) = SZ_RAWBYTES \<and> currentbit (msg_readmsg rd) mod 8 = 0 \<and>
     \<not> msg_badread rd \<and> cursize (msg_readmsg rd) \<le> length (data (msg_readmsg rd))"

definition rd_rest :: "netread \<Rightarrow> byte list" where
  "rd_rest rd = drop (currentbit (msg_readmsg rd) div 8)
     (take (cursize (msg_readmsg rd)) (data (msg_readmsg rd)))"

definition rd_adv :: "nat \<Rightarrow> netread \<Rightarrow> netread" where
  "rd_adv n rd = set_bit_pos (currentbit (msg_readmsg rd) + 8 * n) rd"

text \<open>\<open>read_at rd sb p\<close> has begun reading \<open>sb\<close> and stands at byte \<open>p\<close>.\<close>

definition read_at :: "netread \<Rightarrow> sizebuf \<Rightarrow> nat \<Rightarrow> netread" where
  "read_at rd sb p = set_bit_pos (8 * p) (MSG_BeginReading rd sb (prim sb))"

lemma rd_ok_adv [simp]: "rd_ok (rd_adv n rd) \<longleftrightarrow> rd_ok rd"
  by (simp add: rd_ok_def rd_adv_def set_bit_pos_def)

lemma rd_rest_adv [simp]: "rd_rest (rd_adv n rd) = drop n (rd_rest rd)"
  by (simp add: rd_rest_def rd_adv_def set_bit_pos_def add.commute)

lemma rd_adv_0 [simp]: "rd_adv 0 rd = rd"
  by (simp add: rd_adv_def set_bit_pos_def)

lemma rd_adv_adv [simp]: "rd_adv n (rd_adv m rd) = rd_adv (m + n) rd"
  by (simp add: rd_adv_def set_bit_pos_def algebra_simps)

lemma read_at_adv [simp]: "rd_adv n (read_at rd sb p) = read_at rd sb (p + n)"
  by (simp add: rd_adv_def read_at_def set_bit_pos_def MSG_BeginReading_def)

lemma read_at_ok: "sz_wf sb \<Longrightarrow> rd_ok (read_at rd sb p)"
  by (simp add: rd_ok_def read_at_def set_bit_pos_def MSG_BeginReading_def sz_wf_def)

lemma read_at_rest: "rd_rest (read_at rd sb p) = drop p (sz_content sb)"
  by (simp add: rd_rest_def read_at_def set_bit_pos_def MSG_BeginReading_def sz_content_def)

lemma read_at_append:
  "sz_fits sb (length bs) \<Longrightarrow> rd_rest (read_at rd (sz_append sb bs) (cursize sb)) = bs"
  by (simp add: read_at_rest sz_append_content) (simp add: sz_content_def sz_fits_def sz_wf_def)

text \<open>The bytes of \<open>rd_rest\<close> are those the readers fetch.\<close>

lemma rd_rest_bytes:
  assumes "rd_ok rd" and "i < length (rd_rest rd)"
  shows "rd_byte (currentbit (msg_readmsg rd) div 8 + i) rd = Inr (rd_rest rd ! i)"
    and "currentbit (msg_readmsg rd) div 8 + i < cursize (msg_readmsg rd)"
  using assms by (auto simp: rd_ok_def rd_rest_def rd_byte_def)

lemma rd_pos: "rd_ok rd \<Longrightarrow> set_bit_pos (8 * (currentbit (msg_readmsg rd) div 8 + n)) rd = rd_adv n rd"
  by (auto simp: rd_ok_def rd_adv_def distrib_left)

lemma rd_okD:
  "rd_ok rd \<Longrightarrow> packing (msg_readmsg rd) = SZ_RAWBYTES"
  "rd_ok rd \<Longrightarrow> \<not> msg_badread rd"
  by (auto simp: rd_ok_def)

section \<open>Fixed-size readers before their encoding\<close>

lemma MSG_ReadByte_ok:
  assumes "rd_ok rd" and "rd_rest rd = b # bs"
  shows "MSG_ReadByte rd = Inr (ucast b, rd_adv 1 rd)"
  using assms rd_rest_bytes [OF assms(1), of 0] rd_pos [OF assms(1), of 1]
  by (simp add: MSG_ReadByte_def rd_okD)

lemma MSG_ReadChar_ok:
  assumes "rd_ok rd" and "rd_rest rd = b # bs"
  shows "MSG_ReadChar rd = Inr (scast b, rd_adv 1 rd)"
  using assms rd_rest_bytes [OF assms(1), of 0] rd_pos [OF assms(1), of 1]
  by (simp add: MSG_ReadChar_def rd_okD)

lemma word16_of_le16:
  "(ucast ((ucast (ucast c :: byte) :: int32) + push_bit 8 (ucast (ucast (drop_bit 8 c) :: byte))) :: 16 word) =
   ucast c" for c :: int32
proof -
  have "(ucast (c AND mask 16) :: 16 word) = ucast c"
    by (rule bit_word_eqI) (auto simp: bit_simps)
  then show ?thesis
    by (simp only: join_le16) (simp add: mask_eq_exp_minus_1)
qed

lemma MSG_ReadShort_ok:
  assumes "rd_ok rd" and "rd_rest rd = le16 c @ bs"
  shows "MSG_ReadShort rd = Inr (scast (ucast c :: 16 word), rd_adv 2 rd)"
  using assms rd_rest_bytes [OF assms(1), of 0] rd_rest_bytes [OF assms(1), of 1]
    rd_pos [OF assms(1), of 2]
  by (simp add: MSG_ReadShort_def rd_okD le16_def word16_of_le16)

lemma MSG_ReadUInt16_ok:
  assumes "rd_ok rd" and "rd_rest rd = le16 c @ bs"
  shows "MSG_ReadUInt16 rd = Inr (ucast (ucast c :: 16 word), rd_adv 2 rd)"
  using assms rd_rest_bytes [OF assms(1), of 0] rd_rest_bytes [OF assms(1), of 1]
    rd_pos [OF assms(1), of 2]
  by (simp add: MSG_ReadUInt16_def rd_okD le16_def word16_of_le16)

lemma rd_bytes4:
  assumes "rd_ok rd" and "rd_rest rd = b0 # b1 # b2 # b3 # bs"
  defines "n \<equiv> currentbit (msg_readmsg rd) div 8"
  shows "rd_byte n rd = Inr b0" "rd_byte (n + 1) rd = Inr b1" "rd_byte (n + 2) rd = Inr b2"
    "rd_byte (n + 3) rd = Inr b3" "\<not> n + 4 > cursize (msg_readmsg rd)"
  using assms(2) rd_rest_bytes [OF assms(1), of 0] rd_rest_bytes [OF assms(1), of 1]
    rd_rest_bytes [OF assms(1), of 2] rd_rest_bytes [OF assms(1), of 3]
  by (simp_all add: n_def)

lemma MSG_ReadLong_ok:
  assumes "rd_ok rd" and "rd_rest rd = le32 c @ bs"
  shows "MSG_ReadLong rd = Inr (c, rd_adv 4 rd)"
proof -
  note bytes = rd_bytes4 [OF assms(1) assms(2) [unfolded le32_def append.simps]]
  show ?thesis
    unfolding MSG_ReadLong_def Let_def
    by (simp only: bytes rd_okD [OF assms(1)] rbind_Inr join_le32 rd_pos [OF assms(1)] simp_thms if_False)
qed

section \<open>The contract\<close>

fun write_all :: "(sizebuf \<Rightarrow> 'a \<Rightarrow> sizebuf res) \<Rightarrow> sizebuf \<Rightarrow> 'a list \<Rightarrow> sizebuf res" where
  "write_all wr sb [] = Inr sb"
| "write_all wr sb (x # xs) = rbind (wr sb x) (\<lambda>sb. write_all wr sb xs)"

fun read_n :: "(netread \<Rightarrow> ('a \<times> netread) res) \<Rightarrow> nat \<Rightarrow> netread \<Rightarrow> ('a list \<times> netread) res" where
  "read_n rdr 0 rd = Inr ([], rd)"
| "read_n rdr (Suc n) rd =
     rbind (rdr rd) (\<lambda>(x, rd). rbind (read_n rdr n rd) (\<lambda>(xs, rd). Inr (x # xs, rd)))"

locale codec =
  fixes wr :: "sizebuf \<Rightarrow> 'a \<Rightarrow> sizebuf res"
    and rdr :: "netread \<Rightarrow> ('a \<times> netread) res"
    and enc :: "'a \<Rightarrow> byte list"
    and ok :: "'a \<Rightarrow> bool"
  assumes wr_enc: "ok x \<Longrightarrow> sz_fits sb (length (enc x)) \<Longrightarrow> wr sb x = Inr (sz_append sb (enc x))"
    and rd_enc: "ok x \<Longrightarrow> rd_ok rd \<Longrightarrow> rd_rest rd = enc x @ ys \<Longrightarrow>
      rdr rd = Inr (x, rd_adv (length (enc x)) rd)"
begin

lemma roundtrip:
  assumes "ok x" and "sz_fits sb (length (enc x))"
  shows "rbind (wr sb x) (\<lambda>sb'. rdr (read_at rd sb' (cursize sb))) =
         Inr (x, read_at rd (sz_append sb (enc x)) (cursize sb + length (enc x)))"
  using assms read_at_append [OF assms(2), of rd]
    rd_enc [of x "read_at rd (sz_append sb (enc x)) (cursize sb)" "[]"]
  by (simp add: wr_enc read_at_ok sz_append_wf)

lemma write_all_enc:
  assumes "list_all ok xs" and "sz_fits sb (length (concat (map enc xs)))"
  shows "write_all wr sb xs = Inr (sz_append sb (concat (map enc xs)))"
  using assms
proof (induction xs arbitrary: sb)
  case Nil
  then show ?case by (simp add: sz_append_def)
next
  case (Cons x xs)
  then have "sz_fits sb (length (enc x))" "sz_fits (sz_append sb (enc x)) (length (concat (map enc xs)))"
    by (auto intro: sz_append_fits elim: sz_fits_mono)
  with Cons show ?case by (simp add: wr_enc sz_append_append)
qed

lemma read_n_enc:
  assumes "list_all ok xs" and "rd_ok rd" and "rd_rest rd = concat (map enc xs) @ ys"
  shows "read_n rdr (length xs) rd = Inr (xs, rd_adv (length (concat (map enc xs))) rd)"
  using assms
proof (induction xs arbitrary: rd)
  case (Cons x xs)
  then have "rdr rd = Inr (x, rd_adv (length (enc x)) rd)"
    by (intro rd_enc [where ys = "concat (map enc xs) @ ys"]) simp_all
  with Cons show ?case by simp
qed simp

lemma roundtrip_list:
  assumes "list_all ok xs" and "sz_fits sb (length (concat (map enc xs)))"
  shows "rbind (write_all wr sb xs) (\<lambda>sb'. read_n rdr (length xs) (read_at rd sb' (cursize sb))) =
         Inr (xs, read_at rd (sz_append sb (concat (map enc xs)))
                    (cursize sb + length (concat (map enc xs))))"
  using assms read_at_append [OF assms(2), of rd]
    read_n_enc [OF assms(1), of "read_at rd (sz_append sb (concat (map enc xs))) (cursize sb)" "[]"]
  by (simp add: write_all_enc read_at_ok sz_append_wf)

end

text \<open>Two values one after the other: the pair of two codecs is a codec.\<close>

definition write_pair ::
  "(sizebuf \<Rightarrow> 'a \<Rightarrow> sizebuf res) \<Rightarrow> (sizebuf \<Rightarrow> 'b \<Rightarrow> sizebuf res) \<Rightarrow> sizebuf \<Rightarrow> 'a \<times> 'b \<Rightarrow> sizebuf res" where
  "write_pair w1 w2 sb p = rbind (w1 sb (fst p)) (\<lambda>sb. w2 sb (snd p))"

definition read_pair ::
  "(netread \<Rightarrow> ('a \<times> netread) res) \<Rightarrow> (netread \<Rightarrow> ('b \<times> netread) res) \<Rightarrow> netread \<Rightarrow> (('a \<times> 'b) \<times> netread) res" where
  "read_pair r1 r2 rd = rbind (r1 rd) (\<lambda>(x, rd). rbind (r2 rd) (\<lambda>(y, rd). Inr ((x, y), rd)))"

locale codec_pair = fst: codec w1 r1 e1 ok1 + snd: codec w2 r2 e2 ok2
  for w1 :: "sizebuf \<Rightarrow> 'a \<Rightarrow> sizebuf res" and r1 e1 ok1
  and w2 :: "sizebuf \<Rightarrow> 'b \<Rightarrow> sizebuf res" and r2 e2 ok2

sublocale codec_pair \<subseteq> pair: codec "write_pair w1 w2" "read_pair r1 r2"
  "\<lambda>p. e1 (fst p) @ e2 (snd p)" "\<lambda>p. ok1 (fst p) \<and> ok2 (snd p)"
proof (unfold_locales, goal_cases)
  case (1 x sb)
  then have "sz_fits sb (length (e1 (fst x)))" "sz_fits (sz_append sb (e1 (fst x))) (length (e2 (snd x)))"
    by (auto intro: sz_append_fits elim: sz_fits_mono)
  with 1 show ?case
    by (simp add: write_pair_def fst.wr_enc snd.wr_enc sz_append_append)
next
  case (2 x rd ys)
  then have "r1 rd = Inr (fst x, rd_adv (length (e1 (fst x))) rd)"
    by (intro fst.rd_enc [where ys = "e2 (snd x) @ ys"]) simp_all
  moreover from 2 have "r2 (rd_adv (length (e1 (fst x))) rd) =
      Inr (snd x, rd_adv (length (e2 (snd x))) (rd_adv (length (e1 (fst x))) rd))"
    by (intro snd.rd_enc [where ys = ys]) simp_all
  ultimately show ?case by (simp add: read_pair_def)
qed

end
