(* ===== verification/MsgPrims.thy ===== *)
theory MsgPrims
  imports MsgCodec
begin

text \<open>
  Every primitive of the message layer as an instance of \<open>codec\<close>: which values it carries
  faithfully, and its encoding.
\<close>

section \<open>Word facts\<close>

lemma not_bit_ge:
  fixes w :: "'a::len word"
  assumes "w < 2 ^ n" and "n \<le> k"
  shows "\<not> bit w k"
proof -
  have "bit w k = bit (w AND mask n) k"
    by (simp only: less_mask_eq [OF assms(1)])
  with assms(2) show ?thesis by (simp add: bit_simps)
qed

section \<open>Fixed-size values\<close>

interpretation byte: codec MSG_WriteByte MSG_ReadByte "\<lambda>c. [ucast c]" "\<lambda>c. c < 256"
proof (unfold_locales, goal_cases)
  case (1 x sb)
  then show ?case by (simp add: MSG_WriteByte_eq SZ_Write_fits)
next
  case (2 x rd ys)
  have "ucast (ucast x :: byte) = x"
    using 2(1) not_bit_ge [of x 8] by (intro bit_word_eqI) (auto simp: bit_simps not_less [symmetric])
  with 2 MSG_ReadByte_ok [of rd "ucast x" ys] show ?case by simp
qed

interpretation char: codec MSG_WriteChar MSG_ReadChar "\<lambda>c. [ucast c]" "\<lambda>c. c = scast (ucast c :: byte)"
proof (unfold_locales, goal_cases)
  case (1 x sb)
  then show ?case by (simp add: MSG_WriteChar_eq SZ_Write_fits)
next
  case (2 x rd ys)
  with MSG_ReadChar_ok [of rd "ucast x" ys] show ?case by simp
qed

interpretation short: codec MSG_WriteShort MSG_ReadShort le16 "\<lambda>c. c = scast (ucast c :: 16 word)"
proof (unfold_locales, goal_cases)
  case (1 x sb)
  then show ?case by (simp add: MSG_WriteShort_eq SZ_Write_fits)
next
  case (2 x rd ys)
  with MSG_ReadShort_ok [of rd x ys] show ?case by simp
qed

interpretation uint16: codec MSG_WriteShort MSG_ReadUInt16 le16 "\<lambda>c. c = ucast (ucast c :: 16 word)"
proof (unfold_locales, goal_cases)
  case (1 x sb)
  then show ?case by (simp add: MSG_WriteShort_eq SZ_Write_fits)
next
  case (2 x rd ys)
  with MSG_ReadUInt16_ok [of rd x ys] show ?case by simp
qed

interpretation long: codec MSG_WriteLong MSG_ReadLong le32 "\<lambda>_. True"
proof (unfold_locales, goal_cases)
  case (1 x sb)
  then show ?case by (simp add: MSG_WriteLong_eq SZ_Write_fits)
next
  case (2 x rd ys)
  with MSG_ReadLong_ok [of rd x ys] show ?case by simp
qed

lemma MSG_ReadFloat_ok:
  assumes "rd_ok rd" and "rd_rest rd = le32 c @ bs"
  shows "MSG_ReadFloat rd = Inr (c, rd_adv 4 rd)"
proof -
  note bytes = rd_bytes4 [OF assms(1) assms(2) [unfolded le32_def append.simps]]
  show ?thesis
    unfolding MSG_ReadFloat_def Let_def
    by (simp only: bytes rd_okD [OF assms(1)] rbind_Inr join_le32 [unfolded byte_sum_or4]
        rd_pos [OF assms(1)] simp_thms if_False)
qed

interpretation float: codec MSG_WriteFloat MSG_ReadFloat le32 "\<lambda>_. True"
proof (unfold_locales, goal_cases)
  case (1 x sb)
  then show ?case by (simp add: MSG_WriteFloat_def SZ_Write_fits)
next
  case (2 x rd ys)
  with MSG_ReadFloat_ok [of rd x ys] show ?case by simp
qed

section \<open>Unsigned LEB128\<close>

function uleb_enc :: "u64 \<Rightarrow> byte list" where
  "uleb_enc c = (if drop_bit 7 c = 0 then [ucast (c AND 0x7f)]
                 else (ucast (c AND 0x7f) OR 0x80) # uleb_enc (drop_bit 7 c))"
  by pat_completeness auto
termination
  by (relation "measure unat") (auto intro: drop_bit_7_less)

declare uleb_enc.simps [simp del]

lemma MSG_WriteULEB128_enc:
  "sz_fits sb (length (uleb_enc c)) \<Longrightarrow> MSG_WriteULEB128 sb c = Inr (sz_append sb (uleb_enc c))"
proof (induction c arbitrary: sb rule: uleb_enc.induct)
  case (1 c)
  let ?b = "ucast (c AND 0x7f) :: byte"
  show ?case
  proof (cases "drop_bit 7 c = 0")
    case True
    with 1 show ?thesis
      by (subst MSG_WriteULEB128.simps)
        (simp add: Let_def MSG_WriteByte_eq SZ_Write_fits uleb_enc.simps [of c] del: byte_of_and_255)
  next
    case False
    have e: "uleb_enc c = (?b OR 0x80) # uleb_enc (drop_bit 7 c)"
      using False by (subst uleb_enc.simps) simp
    with 1(2) have f: "sz_fits sb (length [?b OR 0x80])"
      "sz_fits (sz_append sb [?b OR 0x80]) (length (uleb_enc (drop_bit 7 c)))"
      by (auto intro: sz_append_fits elim: sz_fits_mono)
    show ?thesis
      using False 1(1) [OF False f(2)] f(1)
      by (subst MSG_WriteULEB128.simps)
        (simp add: Let_def MSG_WriteByte_eq SZ_Write_fits sz_append_append e)
  qed
qed

text \<open>The seven bits the reader shifts as an \<open>int\<close> keep their value below bit 31.\<close>

lemma mask_7_eq: "(0x7f :: 'a::len word) = mask 7"
  by (simp add: mask_eq_exp_minus_1)

lemma uleb_digit:
  fixes c :: u64
  assumes "\<And>n. bit c n \<Longrightarrow> n + k < 31"
  shows "scast (push_bit k (ucast (ucast (c AND mask 7) :: byte) :: int32)) =
         push_bit k (c AND mask 7)"
  by (rule bit_word_eqI) (use assms in \<open>fastforce simp: bit_simps\<close>)

lemma uleb_byte:
  "(ucast (c AND mask 7) :: byte) AND mask 7 = ucast (c AND mask 7)"
  "((ucast (c AND mask 7) :: byte) OR 128) AND mask 7 = ucast (c AND mask 7)"
  "(ucast (c AND mask 7) :: byte) AND 128 = 0"
  "((ucast (c AND mask 7) :: byte) OR 128) AND 128 \<noteq> 0" for c :: u64
proof -
  show "(ucast (c AND mask 7) :: byte) AND mask 7 = ucast (c AND mask 7)"
    "((ucast (c AND mask 7) :: byte) OR 128) AND mask 7 = ucast (c AND mask 7)"
    "(ucast (c AND mask 7) :: byte) AND 128 = 0"
    by (rule bit_word_eqI, auto simp: bit_simps simp del: bit_numeral_word_iff)+
  have "bit (((ucast (c AND mask 7) :: byte) OR 128) AND 128) 7"
    by (simp add: bit_simps)
  then show "((ucast (c AND mask 7) :: byte) OR 128) AND 128 \<noteq> 0"
    by auto
qed

lemma uleb_join: "c AND mask 7 OR push_bit 7 (drop_bit 7 c) = c" for c :: u64
  by (rule bit_word_eqI) (auto simp: bit_simps, metis le_add_diff_inverse not_less)

lemma uleb_enc_length: "0 < length (uleb_enc c)"
  by (subst uleb_enc.simps) simp

lemma uleb_join_at:
  "(r OR push_bit k (c AND mask 7)) OR push_bit (k + 7) (drop_bit 7 c) = r OR push_bit k c"
  for c :: u64
proof -
  have "push_bit k (c AND mask 7) OR push_bit (k + 7) (drop_bit 7 c) =
        push_bit k (c AND mask 7 OR push_bit 7 (drop_bit 7 c))"
    by (simp add: push_bit_or add.commute)
  then show ?thesis by (simp only: uleb_join or.assoc)
qed

lemma uleb_loop_enc:
  assumes "rd_ok rd" and "rd_rest rd = uleb_enc c @ ys" and "\<And>n. bit c n \<Longrightarrow> n + k < 31"
    and "k < 31" and "length (uleb_enc c) < fuel"
  shows "uleb_loop fuel rd r (word_of_nat k) =
         Inr (r OR push_bit k c, rd_adv (length (uleb_enc c)) rd)"
  using assms
proof (induction c arbitrary: fuel rd r k rule: uleb_enc.induct)
  case (1 c)
  let ?b = "ucast (c AND mask 7) :: byte"
  obtain fuel' where fuel: "fuel = Suc fuel'"
    using 1(6) by (cases fuel) auto
  have u: "nat (uint (word_of_nat k :: byte) mod 32) = k"
    using 1(5) by (simp add: unsigned_of_nat take_bit_eq_mod zmod_int nat_mod_distrib)
  have digit: "scast (push_bit k (ucast ?b :: int32)) = push_bit k (c AND mask 7)"
    using uleb_digit 1(4) by blast
  show ?case
  proof (cases "drop_bit 7 c = 0")
    case True
    then have e: "uleb_enc c = [?b]" by (subst uleb_enc.simps) (simp add: mask_7_eq)
    have m: "c AND mask 7 = c"
      using uleb_join [of c] True by simp
    have "uleb_loop fuel rd r (word_of_nat k) = Inr (r OR push_bit k (c AND mask 7), rd_adv 1 rd)"
      using 1(3) fuel e digit u MSG_ReadByte_ok [OF 1(2), of ?b ys] 1(2)
      by (simp add: rd_okD Let_def mask_7_eq uleb_byte shl32_def)
    with e show ?thesis by (simp add: m)
  next
    case False
    then have e: "uleb_enc c = (?b OR 128) # uleb_enc (drop_bit 7 c)"
      by (subst uleb_enc.simps) (simp add: mask_7_eq)
    from False obtain n where "bit (drop_bit 7 c) n" by (auto simp: bit_eq_iff)
    then have k7: "k + 7 < 31" using 1(4) [of "7 + n"] by (simp add: bit_simps)
    have IH: "uleb_loop fuel' (rd_adv 1 rd) (r OR push_bit k (c AND mask 7)) (word_of_nat (k + 7)) =
        Inr ((r OR push_bit k (c AND mask 7)) OR push_bit (k + 7) (drop_bit 7 c),
             rd_adv (length (uleb_enc (drop_bit 7 c))) (rd_adv 1 rd))"
    proof (rule 1(1) [OF False])
      show "rd_rest (rd_adv 1 rd) = uleb_enc (drop_bit 7 c) @ ys"
        using 1(3) e by simp
      show "n + (k + 7) < 31" if "bit (drop_bit 7 c) n" for n
        using 1(4) [of "7 + n"] that by (simp add: bit_simps)
    qed (use 1 e fuel k7 in simp_all)
    with 1(3) fuel e digit u MSG_ReadByte_ok [OF 1(2), of "?b OR 128" "uleb_enc (drop_bit 7 c) @ ys"]
      1(2) show ?thesis
      by (simp add: rd_okD Let_def mask_7_eq uleb_byte shl32_def uleb_join_at [unfolded push_bit_and])
  qed
qed

lemma uleb_enc_fuel: "rd_ok rd \<Longrightarrow> rd_rest rd = uleb_enc c @ ys \<Longrightarrow>
  length (uleb_enc c) < 8 * cursize (msg_readmsg rd) + 2"
  by (drule arg_cong [where f = length]) (auto simp: rd_rest_def)

interpretation uleb: codec MSG_WriteULEB128 MSG_ReadULEB128 uleb_enc "\<lambda>c. c < 2 ^ 31"
proof (unfold_locales, goal_cases)
  case (1 x sb)
  then show ?case by (simp add: MSG_WriteULEB128_enc)
next
  case (2 x rd ys)
  have "n + 0 < 31" if "bit x n" for n
    using not_bit_ge [OF 2(1), of n] that by fastforce
  then show ?case
    using uleb_loop_enc [OF 2(2,3), of 0 _ 0] uleb_enc_fuel [OF 2(2,3)]
    by (simp add: MSG_ReadULEB128_def del: uleb_loop.simps)
qed

section \<open>Length-prefixed 64-bit integers\<close>

definition uint64_first :: "nat \<Rightarrow> byte \<Rightarrow> byte" where
  "uint64_first b w = ucast (push_bit (8 - b) (0xff :: int32)) OR w"

definition uint64_enc :: "u64 \<Rightarrow> byte list" where
  "uint64_enc c = (let b = uint64_extra c 0 128 in
     ucast (ucast (push_bit (8 - b) (0xff :: int32)) OR shr64 c (b * 8)) # be_bytes b c)"

lemma length_be_bytes [simp]: "length (be_bytes b c) = b"
  by (induction b) simp_all

lemma uint64_enc_length: "length (uint64_enc c) = Suc (uint64_extra c 0 128)"
  by (simp add: uint64_enc_def Let_def)

text \<open>The number of extra bytes is the least that leaves room for the value.\<close>

lemma uint64_extra_spec:
  assumes "l = 2 ^ (7 + 7 * b)" and "b \<le> 8"
  shows "b \<le> uint64_extra c b l \<and> uint64_extra c b l \<le> 8 \<and>
    (uint64_extra c b l < 8 \<longrightarrow> c < 2 ^ (7 + 7 * uint64_extra c b l))"
  using assms
proof (induction c b l rule: uint64_extra.induct)
  case (1 c b l)
  show ?case
  proof (cases "c > l - 1 \<and> b < 8")
    case True
    have "push_bit 7 l = 2 ^ (7 + 7 * (b + 1))"
      using 1(2) by (simp add: push_bit_eq_mult power_add)
    with 1(1) [OF True] True show ?thesis
      by (subst (1 2 3 4) uint64_extra.simps) auto
  next
    case False
    have "c < l" if "b < 8"
    proof -
      have "unat l = 2 ^ (7 + 7 * b)"
        using that 1(2) by (simp add: unat_pow2 del: power_add)
      then have "0 < unat l" by simp
      moreover from this have "unat (l - 1) = unat l - 1"
        by (simp add: unat_sub word_le_nat_alt)
      ultimately show ?thesis
        using False that unfolding word_less_nat_alt by linarith
    qed
    with False 1(2,3) show ?thesis
      by (subst (1 2 3 4) uint64_extra.simps) auto
  qed
qed

lemma uint64_extra_le: "uint64_extra c 0 128 \<le> 8"
  using uint64_extra_spec [of 128 0 c] by simp

text \<open>Stripping the prefix recovers the count and the top bits, checked for every first byte.\<close>

lemma uint64_prefix_table:
  "list_all (\<lambda>b. list_all (\<lambda>w. uint64_prefix (uint64_first b (word_of_nat w)) 0x80 0 =
     (word_of_nat w, word_of_nat b)) [0..<2 ^ (7 - b)]) [0..<8]"
  by code_simp

lemma uint64_prefix_full: "uint64_prefix (uint64_first 8 w) 0x80 0 = (0, 8)"
proof -
  have "uint64_first 8 w = 255"
    by (rule bit_word_eqI) (auto simp: uint64_first_def bit_simps mask_8_eq dest: bit_byte_lt)
  moreover have "uint64_prefix 255 0x80 0 = (0, 8)"
    by code_simp
  ultimately show ?thesis by simp
qed

lemma uint64_prefix_ok:
  assumes "b < 8" and "w < 2 ^ (7 - b)"
  shows "uint64_prefix (uint64_first b w) 0x80 0 = (w, word_of_nat b)"
proof -
  have "unat w < 2 ^ (7 - b)"
    using assms(2) word_less_pow2 [of "7 - b" w] by simp
  then show ?thesis
    using uint64_prefix_table [unfolded list_all_iff set_upt, THEN bspec, of b, THEN bspec, of "unat w"]
      assms(1) by simp
qed

lemma scast_byte: "(scast (ucast b :: int32) :: u64) = ucast b" for b :: byte
  by (rule bit_word_eqI) (auto simp: bit_simps min_def dest: bit_byte_lt split: if_splits)

lemma read_be_ok:
  assumes "rd_ok rd" and "rd_rest rd = be_bytes b c @ ys" and "b \<le> 8"
  shows "read_be b rd r = Inr (r OR (c AND mask (8 * b)), rd_adv b rd)"
  using assms
proof (induction b arbitrary: rd r)
  case (Suc b)
  let ?x = "ucast (drop_bit (b * 8) c) :: byte"
  have "MSG_ReadByte rd = Inr (ucast ?x, rd_adv 1 rd)"
    using MSG_ReadByte_ok [OF Suc.prems(1), of ?x "be_bytes b c @ ys"] Suc.prems(2) by simp
  moreover have "shl64 (scast (ucast ?x :: int32)) (b * 8) = c AND push_bit (8 * b) (mask 8)"
    using Suc.prems(3) push_byte_drop [of "8 * b" c]
    by (simp add: shl64_def scast_byte mult.commute)
  moreover have "push_bit (8 * b) (mask 8) OR mask (8 * b) = (mask (8 + 8 * b) :: u64)"
    by (rule bit_word_eqI) (use Suc.prems(3) in \<open>auto simp: bit_simps\<close>)
  ultimately show ?case
    using Suc by (simp add: or.assoc flip: bit.conj_disj_distrib)
qed simp

lemma MSG_WriteUInt64_enc:
  "sz_fits sb (length (uint64_enc c)) \<Longrightarrow> MSG_WriteUInt64 sb c = Inr (sz_append sb (uint64_enc c))"
proof -
  assume fits: "sz_fits sb (length (uint64_enc c))"
  have "MSG_WriteUInt64 sb c = SZ_Write sb (uint64_enc c)"
    by (simp add: MSG_WriteUInt64_def SZ_Write_def uint64_enc_length Let_def)
      (simp add: uint64_enc_def Let_def sz_puts_Cons)
  with fits show ?thesis by (simp add: SZ_Write_fits)
qed

lemma uint64_first_eq:
  "ucast (ucast (push_bit (8 - b) (0xff :: int32)) OR w :: u64) = uint64_first b (ucast w)"
  by (rule bit_word_eqI) (auto simp: uint64_first_def bit_simps)

lemma uint64_top:
  fixes c :: u64
  assumes "b < 8" and "c < 2 ^ (7 + 7 * b)"
  shows "(ucast (drop_bit (b * 8) c) :: byte) < 2 ^ (7 - b)"
proof -
  have "unat c < 2 ^ (7 - b) * 2 ^ (b * 8)"
    using assms word_less_pow2 [of "7 + 7 * b" c] by (simp add: add.commute flip: power_add)
  then have "unat c div 2 ^ (b * 8) < 2 ^ (7 - b)"
    by (rule less_mult_imp_div_less)
  moreover have "unat (ucast (drop_bit (b * 8) c) :: byte) \<le> unat c div 2 ^ (b * 8)"
    by (simp only: unsigned_ucast_eq unat_drop_bit_eq) (simp add: drop_bit_eq_div take_bit_nat_less_eq_self)
  ultimately show ?thesis
    using word_less_pow2 [of "7 - b" "ucast (drop_bit (b * 8) c) :: byte"] by simp
qed

lemma uint64_join:
  fixes c :: u64
  assumes "b < 8" and "c < 2 ^ (7 + 7 * b)"
  shows "shl64 (ucast (ucast (drop_bit (b * 8) c) :: byte)) (b * 8) OR (c AND mask (8 * b)) = c"
proof -
  have "n < 7 + 7 * b" if "bit c n" for n
    using not_bit_ge [OF assms(2), of n] that by fastforce
  then show ?thesis
    using assms(1) by (intro bit_word_eqI) (fastforce simp: shl64_def bit_simps)
qed

lemma MSG_ReadUInt64_enc:
  assumes "rd_ok rd" and "rd_rest rd = uint64_enc c @ ys"
  shows "MSG_ReadUInt64 rd = Inr (c, rd_adv (length (uint64_enc c)) rd)"
proof -
  define b where "b = uint64_extra c 0 128"
  have b: "b \<le> 8" "b < 8 \<Longrightarrow> c < 2 ^ (7 + 7 * b)"
    using uint64_extra_spec [of 128 0 c] by (auto simp: b_def)
  let ?f = "uint64_first b (ucast (shr64 c (b * 8)))"
  let ?w = "if b < 8 then ucast (drop_bit (b * 8) c) else 0 :: byte"
  have rest: "rd_rest rd = ?f # be_bytes b c @ ys"
    using assms(2) by (simp add: uint64_enc_def Let_def b_def uint64_first_eq)
  have pre: "uint64_prefix ?f 0x80 0 = (?w, word_of_nat b)"
  proof (cases "b < 8")
    case True
    then show ?thesis
      using uint64_prefix_ok [OF True uint64_top [OF True b(2) [OF True]]] by (simp add: shr64_def)
  next
    case False
    with b have "b = 8" by simp
    with uint64_prefix_full show ?thesis by simp
  qed
  have join: "shl64 (ucast ?w) (b * 8) OR (c AND mask (8 * b)) = c"
  proof (cases "b < 8")
    case True
    with uint64_join [OF True b(2) [OF True]] show ?thesis by simp
  next
    case False
    with b have "b = 8" by simp
    moreover have "c AND mask 64 = c" by (rule bit_word_eqI) (simp add: bit_simps)
    ultimately show ?thesis by (simp add: shl64_def)
  qed
  have "read_be b (rd_adv 1 rd) (shl64 (ucast ?w) (b * 8)) =
      Inr (shl64 (ucast ?w) (b * 8) OR (c AND mask (8 * b)), rd_adv b (rd_adv 1 rd))"
    using assms(1) rest b(1) by (intro read_be_ok) simp_all
  then have "read_be b (rd_adv 1 rd) (shl64 (ucast ?w) (b * 8)) = Inr (c, rd_adv b (rd_adv 1 rd))"
    by (simp only: join)
  moreover have "unat (word_of_nat b :: byte) = b"
    using b(1) by (simp add: unat_of_nat)
  ultimately show ?thesis
    unfolding MSG_ReadUInt64_def MSG_ReadByte_ok [OF assms(1) rest] rbind_Inr prod.case
      byte_of_int_of_byte pre Let_def
    by (simp add: uint64_enc_length flip: b_def)
qed

interpretation uint64: codec MSG_WriteUInt64 MSG_ReadUInt64 uint64_enc "\<lambda>_. True"
  by unfold_locales (simp_all add: MSG_WriteUInt64_enc MSG_ReadUInt64_enc)

section \<open>Signed 64-bit integers\<close>

lemma drop_push_top:
  fixes w :: u64
  assumes "\<not> bit w 63"
  shows "drop_bit 1 (push_bit 1 w OR 1) = w" "drop_bit 1 (push_bit 1 w) = w"
proof -
  have "bit (drop_bit 1 (push_bit 1 w OR 1)) n = bit w n \<and> bit (drop_bit 1 (push_bit 1 w)) n = bit w n"
    if "n < 64" for n
    using assms that
    by (cases "n = 63") (auto simp only: bit_drop_bit_eq bit_push_bit_iff possible_bit_word bit_or_iff bit_1_iff o_apply,
      simp_all)
  then show "drop_bit 1 (push_bit 1 w OR 1) = w" "drop_bit 1 (push_bit 1 w) = w"
    by (auto intro!: bit_word_eqI)
qed

lemma unzigzag_zigzag: "unzigzag64 (zigzag64 c) = c"
proof (cases "sint c < 0")
  case True
  then have b63: "bit c 63" using bit_last_iff [of c] by simp
  have n: "-1 - c = NOT c" "-1 - NOT c = c" by (simp_all add: not_eq_complement)
  have "drop_bit 1 (push_bit 1 (NOT c) OR 1) = NOT c"
    using b63 by (intro drop_push_top) (simp add: bit_simps)
  moreover have "bit ((push_bit 1 (NOT c) OR 1) AND 1) 0"
    by (simp only: bit_and_iff bit_or_iff bit_1_iff) simp
  then have "(push_bit 1 (NOT c) OR 1) AND 1 \<noteq> 0"
    by (metis bit_0_eq bot_apply bot_bool_def)
  ultimately show ?thesis
    using True by (simp only: zigzag64_def unzigzag64_def n if_True not_False_eq_True)
next
  case False
  then have b63: "\<not> bit c 63" using bit_last_iff [of c] by simp
  have "drop_bit 1 (push_bit 1 c) = c"
    using b63 by (rule drop_push_top)
  moreover have "push_bit 1 c AND 1 = 0"
    by (simp add: and_one_eq mod_2_eq_odd)
  ultimately show ?thesis
    using False by (simp only: zigzag64_def unzigzag64_def if_False simp_thms)
qed

interpretation int64: codec MSG_WriteInt64 MSG_ReadInt64 "\<lambda>c. uint64_enc (zigzag64 c)" "\<lambda>_. True"
proof (unfold_locales, goal_cases)
  case (1 x sb)
  then show ?case by (simp add: MSG_WriteInt64_def MSG_WriteUInt64_enc)
next
  case (2 x rd ys)
  then show ?case
    using MSG_ReadUInt64_enc [OF 2(2,3)] by (simp add: MSG_ReadInt64_def unzigzag_zigzag)
qed

interpretation qex: codec MSG_WriteSignedQEX MSG_ReadSignedQEX "\<lambda>c. uleb_enc (zigzag64 c)"
  "\<lambda>c. zigzag64 c < 2 ^ 31"
proof (unfold_locales, goal_cases)
  case (1 x sb)
  then show ?case by (simp add: MSG_WriteSignedQEX_def MSG_WriteULEB128_enc)
next
  case (2 x rd ys)
  then show ?case
    using uleb.rd_enc [OF 2(1,2,3)] by (simp add: MSG_ReadSignedQEX_def unzigzag_zigzag)
qed

section \<open>Strings\<close>

lemma read_chars_enc:
  assumes "c_string s" and "length s \<le> n" and "rd_ok rd" and "rd_rest rd = s @ [0] @ ys"
  shows "read_chars n rd = Inr (s, rd_adv (Suc (length s)) rd)"
  using assms
proof (induction s arbitrary: n rd)
  case Nil
  with MSG_ReadChar_ok [of rd 0 ys] show ?case
    by (cases n) simp_all
next
  case (Cons c s)
  obtain m where n: "n = Suc m"
    using Cons.prems(2) by (cases n) auto
  have "(scast c :: int32) \<noteq> 0"
    using Cons.prems(1) byte_of_int_of_byte(2) [of c] by (metis c_string_simps(2) ucast_0)
  moreover have "read_chars m (rd_adv 1 rd) = Inr (s, rd_adv (Suc (length s)) (rd_adv 1 rd))"
    using Cons.prems n by (intro Cons.IH) simp_all
  ultimately show ?case
    using Cons.prems MSG_ReadChar_ok [of rd c "s @ [0] @ ys"]
    by (simp add: n) (simp add: rd_ok_def rd_adv_def set_bit_pos_def)
qed

interpretation string: codec "\<lambda>sb s. MSG_WriteString sb (Some s)" MSG_ReadString "\<lambda>s. s @ [0]"
  "\<lambda>s. c_string s \<and> length s \<le> 65535"
proof (unfold_locales, goal_cases)
  case (1 x sb)
  then show ?case by (simp add: MSG_WriteString_def SZ_Write_fits)
next
  case (2 x rd ys)
  then show ?case
    using read_chars_enc [of x 65535 rd ys] by (simp add: MSG_ReadString_def del: read_chars.simps)
qed

section \<open>Entity numbers\<close>

definition entity_enc :: "int32 \<Rightarrow> byte list" where
  "entity_enc n = (if n \<ge> 0x8000 then le16 (drop_bit 8 n OR 0x8000) @ [ucast n] else le16 n)"

lemma bit_32768 [simp]: "bit (0x8000 :: int32) n \<longleftrightarrow> n = 15"
proof -
  have "(0x8000 :: int32) = push_bit 15 1" by simp
  then show ?thesis by (simp only: bit_push_bit_iff bit_1_iff) auto
qed

lemma entity_long:
  fixes x :: int32
  shows "scast (ucast (drop_bit 8 x OR 0x8000) :: 16 word) AND (0x8000 :: int32) \<noteq> 0"
    and "x \<le> MAX_EDICTS \<Longrightarrow>
      push_bit 8 (scast (ucast (drop_bit 8 x OR 0x8000) :: 16 word) AND 0x7fff) OR
      ucast (ucast x :: byte) = x"
proof -
  have "bit (scast (ucast (drop_bit 8 x OR 0x8000) :: 16 word) AND (0x8000 :: int32)) 15"
    by (simp add: bit_simps del: bit_numeral_word_iff)
  then show "scast (ucast (drop_bit 8 x OR 0x8000) :: 16 word) AND (0x8000 :: int32) \<noteq> 0"
    by (metis bit_0_eq bot_apply bot_bool_def)
next
  assume "x \<le> MAX_EDICTS"
  then have "x < 2 ^ 22"
    by (simp add: MAX_EDICTS_def word_le_nat_alt word_less_nat_alt)
  then have hi: "n < 22" if "bit x n" for n
    using not_bit_ge [of x 22 n] that by fastforce
  have m: "(0x7fff :: int32) = mask 15"
    by (simp add: mask_eq_exp_minus_1)
  show "push_bit 8 (scast (ucast (drop_bit 8 x OR 0x8000) :: 16 word) AND 0x7fff) OR
      ucast (ucast x :: byte) = x"
    unfolding m
    by (rule bit_word_eqI) (use hi in \<open>fastforce simp: bit_simps simp del: bit_numeral_word_iff\<close>)
qed

lemma entity_short:
  fixes x :: int32
  assumes "\<not> x \<ge> 0x8000"
  shows "scast (ucast x :: 16 word) = x" "x AND 0x8000 = 0"
proof -
  have "x < 2 ^ 15" using assms by (simp add: not_le)
  then have hi: "n < 15" if "bit x n" for n
    using not_bit_ge [of x 15 n] that by fastforce
  show "scast (ucast x :: 16 word) = x"
    by (rule bit_word_eqI) (use hi in \<open>fastforce simp: bit_simps min_def split: if_splits\<close>)
  show "x AND 0x8000 = 0"
    by (rule bit_word_eqI) (use hi in \<open>fastforce simp: bit_simps simp del: bit_numeral_word_iff\<close>)
qed

interpretation entity: codec MSG_WriteEntity MSG_ReadBigEntity entity_enc "\<lambda>n. n \<le> MAX_EDICTS"
proof (unfold_locales, goal_cases)
  case (1 x sb)
  show ?case
  proof (cases "x \<ge> 0x8000")
    case True
    with 1(2) have "sz_fits sb (length (le16 (drop_bit 8 x OR 0x8000)))"
      "sz_fits (sz_append sb (le16 (drop_bit 8 x OR 0x8000))) (length [ucast x :: byte])"
      by (auto simp: entity_enc_def intro: sz_append_fits elim: sz_fits_mono)
    with 1(1) True show ?thesis
      by (simp add: MSG_WriteEntity_def entity_enc_def MSG_WriteShort_eq MSG_WriteByte_eq
          SZ_Write_fits sz_append_append leD del: length_le16)
  next
    case False
    with 1 show ?thesis
      by (simp add: MSG_WriteEntity_def entity_enc_def MSG_WriteShort_eq SZ_Write_fits leD)
  qed
next
  case (2 x rd ys)
  let ?n = "\<lambda>w :: int32. scast (ucast w :: 16 word) :: int32"
  show ?case
  proof (cases "x \<ge> 0x8000")
    case True
    let ?w = "drop_bit 8 x OR 0x8000"
    have rest: "rd_rest rd = le16 ?w @ [ucast x] @ ys"
      using 2(3) True by (simp add: entity_enc_def)
    have "MSG_ReadByte (rd_adv 2 rd) = Inr (ucast (ucast x :: byte), rd_adv 1 (rd_adv 2 rd))"
      using 2(2) rest by (intro MSG_ReadByte_ok [where bs = ys]) simp_all
    then show ?thesis
      using MSG_ReadShort_ok [OF 2(2) rest] entity_long(1) [of x] entity_long(2) [OF 2(1)] True
      by (simp add: MSG_ReadBigEntity_def entity_enc_def del: byte_of_int_of_byte)
  next
    case False
    then have rest: "rd_rest rd = le16 x @ ys"
      using 2(3) by (simp add: entity_enc_def)
    show ?thesis
      using MSG_ReadShort_ok [OF 2(2) rest] entity_short [of x] False
      by (simp add: MSG_ReadBigEntity_def entity_enc_def)
  qed
qed

section \<open>An entity number and its name\<close>

interpretation named: codec_pair MSG_WriteEntity MSG_ReadBigEntity entity_enc "\<lambda>n. n \<le> MAX_EDICTS"
  "\<lambda>sb s. MSG_WriteString sb (Some s)" MSG_ReadString "\<lambda>s. s @ [0]"
  "\<lambda>s. c_string s \<and> length s \<le> 65535"
  ..

end
