(* ===== verification/MsgBits.thy ===== *)
theory MsgBits
  imports MsgPrims
begin

text \<open>
  Bit fields: what \<open>MSG_WriteBits\<close> stores and \<open>MSG_ReadBits\<close> gets back in each packing, and
  where the two disagree about the position.
\<close>

section \<open>Plain bits\<close>

abbreviation low_bits :: "nat \<Rightarrow> int32 \<Rightarrow> bool list" where
  "low_bits n v \<equiv> map (bit v) [0..<n]"

lemma bits_at_nth: "bits_at a p bs \<Longrightarrow> k < length bs \<Longrightarrow> bit_at a (p + k) = bs ! k"
  by (simp add: bits_at_def)

lemma read_raw_loop_bits:
  assumes "p + n \<le> 8 * length d"
  shows "\<exists>v. read_raw_loop d p i n m = Inr v \<and>
    (\<forall>j < 32. bit v j \<longleftrightarrow> bit m j \<or> (i \<le> j \<and> j < i + n \<and> bit_at d (p + (j - i))))"
  using assms
proof (induction n arbitrary: p i m)
  case (Suc n)
  let ?m = "m OR push_bit i (ucast (drop_bit (p mod 8) (d ! (p div 8))) AND 1)"
  have pd: "p div 8 < length d" using Suc.prems by (intro div8_lt) simp
  have m: "bit ?m j \<longleftrightarrow> bit m j \<or> (j = i \<and> bit_at d p)" if "j < 32" for j
    using that by (auto simp: bit_simps bit_at_def)
  obtain v where v: "read_raw_loop d (p + 1) (i + 1) n ?m = Inr v"
    "\<forall>j < 32. bit v j \<longleftrightarrow> bit ?m j \<or> (i + 1 \<le> j \<and> j < i + 1 + n \<and> bit_at d (p + 1 + (j - (i + 1))))"
    using Suc.IH [of "p + 1" "i + 1" ?m] Suc.prems by auto
  have "bit v j \<longleftrightarrow> bit m j \<or> (i \<le> j \<and> j < i + Suc n \<and> bit_at d (p + (j - i)))" if "j < 32" for j
  proof (cases "i < j")
    case True
    then have "p + 1 + (j - (i + 1)) = p + (j - i)" by simp
    with v(2) [rule_format, OF that] m [OF that] True show ?thesis by auto
  next
    case False
    with v(2) [rule_format, OF that] m [OF that] show ?thesis by auto
  qed
  with v(1) pd show ?case by auto
qed auto

lemma read_raw_loop_value:
  assumes "bits_at d p (low_bits n v)" and "n \<le> 32"
  shows "read_raw_loop d p 0 n 0 = Inr (v AND mask n)"
proof -
  have "p + n \<le> 8 * length d" using assms(1) by (simp add: bits_at_def)
  then obtain w where w: "read_raw_loop d p 0 n 0 = Inr w"
    "\<forall>j < 32. bit w j \<longleftrightarrow> j < n \<and> bit_at d (p + j)"
    using read_raw_loop_bits [of p n d 0 0] by auto
  have "w = v AND mask n"
    using w(2) bits_at_nth [OF assms(1)] assms(2) by (intro bit_word_eqI) (auto simp: bit_simps)
  with w(1) show ?thesis by simp
qed

text \<open>Writing fewer than eight bits is adding them one by one; \<open>cursize\<close> counts the bytes begun.\<close>

definition raw_bits_wf :: "sizebuf \<Rightarrow> bool" where
  "raw_bits_wf msg \<longleftrightarrow> cursize msg = (currentbit msg + 7) div 8"

lemma bytes_cover: "q \<le> 8 * ((q + 7) div (8 :: nat))"
  by presburger

lemma lt_8_Suc: "q < 8 * Suc (q div (8 :: nat))"
  by presburger

lemma raw_bits_step:
  assumes "raw_bits_wf msg" and "p = currentbit msg"
  shows "(if p mod 8 = 0 then cursize msg + 1 else cursize msg) = (p + 1 + 7) div 8"
proof -
  have "(p + 7) div 8 = (if p mod 8 = 0 then p div 8 else Suc (p div 8))"
  proof -
    have "(8 * q + r + 7) div 8 = (if r = 0 then q else Suc q)" if "r < 8" for q r :: nat
      using that by (simp add: div_add1_eq [of "8 * q + r"]) linarith
    from this [of "p mod 8" "p div 8"] show ?thesis by simp
  qed
  moreover have "(p + 1 + 7) div 8 = Suc (p div 8)" by simp
  ultimately show ?thesis using assms by (simp add: raw_bits_wf_def)
qed

lemma splurge_count:
  assumes "i < bits"
  shows "(bits - i + 7) div 8 = Suc ((bits - (i + 8) + 7) div (8 :: nat))"
proof -
  obtain k where k: "bits = i + Suc k" using assms less_iff_Suc_add [of i bits] by auto
  show ?thesis
  proof (cases "k < 7")
    case True
    then have "(Suc k - 8 + 7) div 8 = 0" "k div 8 = 0" by simp_all
    then show ?thesis using k by simp
  next
    case False
    then have "Suc k - 8 + 7 = k" by simp
    then show ?thesis using k by simp
  qed
qed

lemma MSG_WriteRawBits_small:
  assumes "bits < 8" and "i \<le> bits" and "raw_bits_wf msg"
    and "currentbit msg + (bits - i) \<le> 8 * length (data msg)"
  shows "MSG_WriteRawBits msg v bits i =
    rbind (add_bits (map (bit v) [i..<bits]) (data msg, currentbit msg)) (\<lambda>(d, p).
    Inr (msg\<lparr>data := d, currentbit := p, cursize := (p + 7) div 8\<rparr>))"
  using assms
proof (induction "bits - i" arbitrary: msg i)
  case 0
  then have "i = bits" by simp
  with 0 show ?case
    by (subst MSG_WriteRawBits.simps) (simp add: raw_bits_wf_def)
next
  case (Suc n)
  let ?p = "currentbit msg"
  have i: "i < bits" and pd: "?p div 8 < length (data msg)"
    using Suc.hyps(2) Suc.prems by (auto intro: div8_lt)
  define d where "d = (data msg)[?p div 8 := (if ?p mod 8 = 0 then 0 else data msg ! (?p div 8)) OR
    push_bit (?p mod 8) (of_bool (bit v i))]"
  define msg' where "msg' = msg\<lparr>cursize := (?p + 1 + 7) div 8, data := d, currentbit := ?p + 1\<rparr>"
  have "MSG_WriteRawBits msg v bits i = MSG_WriteRawBits msg' v bits (i + 1)"
  proof (cases "?p mod 8 = 0")
    case True
    with i pd Suc.prems(1) raw_bits_step [OF Suc.prems(3) refl] show ?thesis
      by (subst MSG_WriteRawBits.simps) (simp add: sz_put_def d_def msg'_def)
  next
    case False
    with i pd raw_bits_step [OF Suc.prems(3) refl] show ?thesis
      by (cases msg) (subst MSG_WriteRawBits.simps, simp add: sz_put_def d_def msg'_def)
  qed
  also have "\<dots> = rbind (add_bits (map (bit v) [i + 1..<bits]) (d, ?p + 1)) (\<lambda>(d, p).
      Inr (msg\<lparr>data := d, currentbit := p, cursize := (p + 7) div 8\<rparr>))"
    using Suc.hyps(1) [of "i + 1" msg'] Suc.hyps(2) Suc.prems i
    by (simp add: msg'_def raw_bits_wf_def d_def)
  also have "\<dots> = rbind (add_bits (map (bit v) [i..<bits]) (data msg, ?p)) (\<lambda>(d, p).
      Inr (msg\<lparr>data := d, currentbit := p, cursize := (p + 7) div 8\<rparr>))"
    using i Suc.prems(4) huff_add_bit_eq [of ?p "data msg" "bit v i"]
    by (simp add: upt_conv_Cons d_def)
  finally show ?case .
qed

lemma raw_bits_roundtrip:
  assumes "bits < 8" and "raw_bits_wf msg" and "bits_clean (data msg) (currentbit msg)"
    and "currentbit msg + bits \<le> 8 * length (data msg)"
  shows "\<exists>msg'. MSG_WriteRawBits msg v bits 0 = Inr msg' \<and> raw_bits_wf msg' \<and>
    bits_clean (data msg') (currentbit msg') \<and> currentbit msg' = currentbit msg + bits \<and>
    length (data msg') = length (data msg) \<and>
    MSG_ReadRawBits (set_bit_pos (currentbit msg) (rd\<lparr>msg_readmsg := msg'\<rparr>)) bits =
      Inr (v AND mask bits, rd\<lparr>msg_readmsg := msg'\<rparr>)"
proof -
  obtain d where d: "add_bits (low_bits bits v) (data msg, currentbit msg) = Inr (d, currentbit msg + bits)"
    "length d = length (data msg)" "bits_at d (currentbit msg) (low_bits bits v)"
    "bits_clean d (currentbit msg + bits)"
    using add_bits_ok [of "currentbit msg" "low_bits bits v" "data msg"] assms(3,4) by auto
  let ?p = "currentbit msg + bits"
  let ?m = "msg\<lparr>data := d, currentbit := ?p, cursize := (?p + 7) div 8\<rparr>"
  have "MSG_WriteRawBits msg v bits 0 = Inr ?m"
    using MSG_WriteRawBits_small [of bits 0 msg v] assms d(1) by simp
  moreover have "MSG_ReadRawBits (set_bit_pos (currentbit msg) (rd\<lparr>msg_readmsg := ?m\<rparr>)) bits =
      Inr (v AND mask bits, rd\<lparr>msg_readmsg := ?m\<rparr>)"
    using read_raw_loop_value [OF d(3)] assms(1) bytes_cover [of ?p]
    by (simp add: not_less MSG_ReadRawBits_def set_bit_pos_def Let_def)
  ultimately show ?thesis
    using d by (intro exI [of _ ?m]) (simp add: raw_bits_wf_def)
qed

text \<open>
  From eight bits up an aligned writer stores whole bytes: it moves on to the next multiple of
  eight, while the reader moves by the number of bits.
\<close>

lemma MSG_WriteRawBits_aligned:
  assumes "8 \<le> bits" and "currentbit msg mod 8 = 0"
    and "currentbit msg + 8 * ((bits - i + 7) div 8) \<le> 8 * length (data msg)"
  shows "\<exists>d. MSG_WriteRawBits msg v bits i =
    Inr (msg\<lparr>data := d, cursize := cursize msg + (bits - i + 7) div 8,
             currentbit := currentbit msg + 8 * ((bits - i + 7) div 8)\<rparr>)"
  using assms(2,3)
proof (induction "bits - i" arbitrary: msg i rule: less_induct)
  case less
  show ?case
  proof (cases "i < bits")
    case False
    then show ?thesis
      by (subst MSG_WriteRawBits.simps) (auto intro: exI [of _ "data msg"])
  next
    case True
    have n: "(bits - i + 7) div 8 = Suc ((bits - (i + 8) + 7) div 8)"
      by (rule splurge_count [OF True])
    let ?d = "(data msg)[currentbit msg div 8 := ucast (signed_drop_bit i v AND 255)]"
    let ?m = "msg\<lparr>cursize := cursize msg + 1, data := ?d, currentbit := currentbit msg + 8\<rparr>"
    have pd: "currentbit msg div 8 < length (data msg)"
      using less.prems(2) n by (intro div8_lt) simp
    have "MSG_WriteRawBits msg v bits i = MSG_WriteRawBits ?m v bits (i + 8)"
      using True assms(1) less.prems(1) pd
      by (subst MSG_WriteRawBits.simps) (simp add: sz_put_def Let_def)
    moreover have "\<exists>d. MSG_WriteRawBits ?m v bits (i + 8) =
        Inr (?m\<lparr>data := d, cursize := cursize ?m + (bits - (i + 8) + 7) div 8,
                currentbit := currentbit ?m + 8 * ((bits - (i + 8) + 7) div 8)\<rparr>)"
    proof (rule less.hyps)
      show "currentbit ?m + 8 * ((bits - (i + 8) + 7) div 8) \<le> 8 * length (data ?m)"
        using less.prems(2) unfolding n by simp
    qed (use True less.prems(1) in \<open>simp_all add: mod_eq_0_iff_dvd\<close>)
    ultimately show ?thesis
      by (simp only: n) (simp add: add.assoc)
  qed
qed

section \<open>Bit fields in raw-byte packing\<close>

text \<open>
  In \<open>SZ_RAWBYTES\<close> packing \<open>MSG_ReadRawBytes\<close> wants one byte more than it reads, so a field that
  ends the message is refused although \<open>MSG_ReadLong\<close> reads it.
\<close>

lemma rd_rest_length: "rd_ok rd \<Longrightarrow>
  length (rd_rest rd) = cursize (msg_readmsg rd) - currentbit (msg_readmsg rd) div 8"
  by (simp add: rd_rest_def rd_ok_def)

lemma MSG_ReadBits_32_more:
  assumes "rd_ok rd" and "rd_rest rd = le32 c @ ys" and "ys \<noteq> []"
  shows "MSG_ReadBits rd 32 = Inr (c, rd_adv 4 rd)"
proof -
  note bytes = rd_bytes4 [OF assms(1) assms(2) [unfolded le32_def append.simps]]
  have "length (le32 c @ ys) = cursize (msg_readmsg rd) - currentbit (msg_readmsg rd) div 8"
    using rd_rest_length [OF assms(1)] assms(2) by simp
  then have "\<not> cursize (msg_readmsg rd) \<le> currentbit (msg_readmsg rd) div 8 + 4"
    using assms(3) by (cases ys) auto
  moreover have "set_bit_pos (currentbit (msg_readmsg rd) + 32) rd = rd_adv 4 rd"
    by (simp add: rd_adv_def)
  ultimately show ?thesis
    using bytes rd_okD [OF assms(1)] join_le32 [of c]
    by (simp add: MSG_ReadBits_def MSG_ReadRawBytes_def Let_def)
qed

lemma MSG_ReadBits_32_last:
  assumes "rd_ok rd" and "rd_rest rd = le32 c"
  shows "MSG_ReadBits rd 32 = Inr (-1, rd_adv 4 (bad_read rd))"
proof -
  have "4 = cursize (msg_readmsg rd) - currentbit (msg_readmsg rd) div 8"
    using rd_rest_length [OF assms(1)] assms(2) by simp
  then have "cursize (msg_readmsg rd) \<le> currentbit (msg_readmsg rd) div 8 + 4" by simp
  then show ?thesis
    using rd_okD [OF assms(1)]
    by (simp add: MSG_ReadBits_def MSG_ReadRawBytes_def Let_def rd_adv_def bad_read_def)
qed

section \<open>Huffman-coded bit fields\<close>

text \<open>\<open>huff_codes hf chs codes\<close>: both tables give the symbols \<open>chs\<close> the code words \<open>codes\<close>.\<close>

definition huff_codes :: "huffman_t \<Rightarrow> nat list \<Rightarrow> bool list list \<Rightarrow> bool" where
  "huff_codes hf chs codes \<longleftrightarrow> list_all2 (\<lambda>ch bs.
     (\<exists>i. huff_leaf (compressor hf) ch i bs) \<and> (\<exists>j. huff_leaf (decompressor hf) ch j bs)) chs codes"

text \<open>The bytes of a value as \<open>MSG_WriteHuffBits\<close> takes them off, low byte first.\<close>

fun value_bytes :: "nat \<Rightarrow> int32 \<Rightarrow> nat list" where
  "value_bytes 0 v = []"
| "value_bytes (Suc n) v = unat (v AND 255) # value_bytes n (signed_drop_bit 8 v)"

lemma huff_write_bits_eq:
  "n \<le> 32 \<Longrightarrow> huff_write_bits n v out =
     rbind (add_bits (low_bits n v) out) (\<lambda>out. Inr (signed_drop_bit n v, out))"
proof (induction n arbitrary: v out)
  case (Suc n)
  have "low_bits (Suc n) v = bit v 0 # low_bits n (signed_drop_bit 1 v)"
    using Suc.prems by (auto simp: upt_rec [of 0 "Suc n"] bit_simps map_Suc_upt [symmetric] min_def
        simp del: upt_Suc)
  moreover have "signed_drop_bit n (signed_drop_bit 1 v) = signed_drop_bit (Suc n) v"
    by (rule bit_word_eqI) (auto simp: bit_simps min_def)
  ultimately show ?case
    using Suc by (auto simp: rbind_assoc bit_simps simp del: upt_Suc intro!: rbind_cong)
qed simp

lemma huff_write_bytes_ok:
  assumes "huff_codes hf (value_bytes n v) codes" and "p + length (concat codes) \<le> 8 * length a"
    and "bits_clean a p"
  shows "\<exists>a'. huff_write_bytes hf n v (a, p) = Inr (a', p + length (concat codes)) \<and>
    length a' = length a \<and> bits_at a' p (concat codes) \<and> (\<forall>k < p. bit_at a' k = bit_at a k)"
  using assms
proof (induction n arbitrary: v codes a p)
  case 0
  then show ?case by (simp add: huff_codes_def bits_at_def)
next
  case (Suc n)
  let ?ch = "unat (v AND 255)"
  obtain c cs where codes: "codes = c # cs" "huff_codes hf (value_bytes n (signed_drop_bit 8 v)) cs"
    and c: "\<exists>i. huff_leaf (compressor hf) ?ch i c"
    using Suc.prems(1) by (auto simp: huff_codes_def list_all2_Cons1)
  then obtain i where i: "huff_leaf (compressor hf) ?ch i c" by blast
  have "p + length c \<le> 8 * length a" using Suc.prems(2) codes by simp
  then obtain a1 where a1: "Huff_offsetTransmit (compressor hf) ?ch a p = Inr (a1, p + length c)"
    "length a1 = length a" "bits_at a1 p c" "\<And>k. k < p \<Longrightarrow> bit_at a1 k = bit_at a k"
    "bits_clean a1 (p + length c)"
    using Huff_offsetTransmit_ok [OF i _ Suc.prems(3)] by metis
  obtain a2 where a2: "huff_write_bytes hf n (signed_drop_bit 8 v) (a1, p + length c) =
      Inr (a2, p + length c + length (concat cs))"
    "length a2 = length a1" "bits_at a2 (p + length c) (concat cs)"
    "\<forall>k < p + length c. bit_at a2 k = bit_at a1 k"
    using Suc.IH [OF codes(2), of "p + length c" a1] Suc.prems(2) codes a1 by auto
  have "bits_at a2 p (c @ concat cs)"
    using a1(2,3) a2 by (simp add: bits_at_append) (simp add: bits_at_def)
  then show ?case
    using a1 a2 codes by (simp add: Huff_EmitByte_def add.assoc)
qed

lemma byte_push_join:
  fixes v :: int32
  assumes "8 * Suc n \<le> 32"
  shows "push_bit sh (word_of_nat (unat (v AND 255))) OR
         push_bit (sh + 8) (signed_drop_bit 8 v AND mask (8 * n)) = push_bit sh (v AND mask (8 * Suc n))"
proof -
  have "(v AND mask 8) OR push_bit 8 (signed_drop_bit 8 v AND mask (8 * n)) = v AND mask (8 * Suc n)"
  proof (rule bit_word_eqI)
    fix k assume "k < LENGTH(32)"
    show "bit ((v AND mask 8) OR push_bit 8 (signed_drop_bit 8 v AND mask (8 * n))) k =
        bit (v AND mask (8 * Suc n)) k"
      using assms \<open>k < LENGTH(32)\<close> by (cases "k < 8") (auto simp: bit_simps min_def)
  qed
  then have "push_bit sh (v AND mask 8) OR push_bit sh (push_bit 8 (signed_drop_bit 8 v AND mask (8 * n))) =
      push_bit sh (v AND mask (8 * Suc n))"
    by (metis push_bit_or)
  then show ?thesis
    by (simp add: mask_8_eq add.commute)
qed

lemma read_huff_loop_ok:
  assumes "huff_codes hf (value_bytes n v) codes" and "bits_at a p (concat codes)" and "8 * n \<le> 32"
  shows "read_huff_loop hf a n sh p m =
    Inr (m OR push_bit sh (v AND mask (8 * n)), p + length (concat codes))"
  using assms
proof (induction n arbitrary: v codes p sh m)
  case 0
  then show ?case by (simp add: huff_codes_def)
next
  case (Suc n)
  let ?ch = "unat (v AND 255)"
  obtain c cs where codes: "codes = c # cs" "huff_codes hf (value_bytes n (signed_drop_bit 8 v)) cs"
    and "\<exists>i. huff_leaf (decompressor hf) ?ch i c"
    using Suc.prems(1) by (auto simp: huff_codes_def list_all2_Cons1)
  then obtain i where i: "huff_leaf (decompressor hf) ?ch i c" by blast
  have at: "bits_at a p c" "bits_at a (p + length c) (concat cs)"
    using Suc.prems(2) codes by (auto simp: bits_at_append)
  have "read_huff_loop hf a (Suc n) sh p m =
      read_huff_loop hf a n (sh + 8) (p + length c) (m OR push_bit sh (word_of_nat ?ch))"
    using Huff_offsetReceive_ok [OF i at(1)] by (simp add: Huff_GetByte_def)
  also have "\<dots> = Inr ((m OR push_bit sh (word_of_nat ?ch)) OR
      push_bit (sh + 8) (signed_drop_bit 8 v AND mask (8 * n)), p + length c + length (concat cs))"
    using Suc.prems(3) by (intro Suc.IH codes at) simp
  finally show ?case
    using byte_push_join [of n sh v] Suc.prems(3) codes by (simp only: or.assoc) simp
qed

lemma value_mask:
  fixes v :: int32
  assumes "n \<le> 32"
  shows "v AND drop_bit (32 - n) 0xFFFFFFFF = v AND mask n"
proof -
  have m: "(0xFFFFFFFF :: int32) = mask 32" by (simp add: mask_eq_exp_minus_1)
  have "drop_bit (32 - n) (mask 32 :: int32) = mask n"
    using assms by (intro bit_word_eqI) (auto simp: bit_simps)
  then show ?thesis by (simp only: m)
qed

lemma split_value:
  fixes v :: int32
  assumes "r + k = n" and "n \<le> 32"
  shows "(v AND mask r) OR push_bit r (signed_drop_bit r (v AND mask n) AND mask k) = v AND mask n"
proof (rule bit_word_eqI)
  fix j assume j: "j < LENGTH(32)"
  show "bit ((v AND mask r) OR push_bit r (signed_drop_bit r (v AND mask n) AND mask k)) j =
      bit (v AND mask n) j"
    using assms j by (cases "j < r") (auto simp: bit_simps min_def)
qed

text \<open>
  The round trip of a Huffman-packed field: the odd low bits stand plainly in front, the whole
  bytes follow as code words, and the reader stops where the writer stopped.
\<close>

lemma huff_bits_roundtrip:
  fixes v :: int32 and bits :: nat
  defines "r \<equiv> bits mod 8" and "n \<equiv> bits div 8"
  assumes bits: "1 \<le> bits" "bits \<le> 32" and wf: "bits_clean (data msg) (currentbit msg)"
    and codes: "huff_codes hf (value_bytes n (signed_drop_bit r (v AND mask bits))) codes"
    and room: "currentbit msg + r + length (concat codes) \<le> 8 * length (data msg)"
  shows "\<exists>msg'. MSG_WriteHuffBits hf msg v bits = Inr msg' \<and>
    currentbit msg' = currentbit msg + r + length (concat codes) \<and>
    (\<forall>rd. q3huff rd = hf \<longrightarrow>
      MSG_ReadHuffBits (set_bit_pos (currentbit msg) (rd\<lparr>msg_readmsg := msg'\<rparr>)) bits =
      Inr (v AND mask bits, rd\<lparr>msg_readmsg := msg'\<rparr>))"
proof -
  let ?v = "v AND mask bits" and ?p = "currentbit msg"
  let ?w = "signed_drop_bit r ?v"
  have r: "r < 8" "bits - r = 8 * n" "r + 8 * n = bits" "(bits - r + 7) div 8 = n" "n \<le> 4"
    using bits by (auto simp: r_def n_def minus_mod_eq_mult_div)
  have low: "low_bits r ?v = low_bits r v"
    using r by (auto simp: bit_simps)
  obtain d1 where d1: "add_bits (low_bits r ?v) (data msg, ?p) = Inr (d1, ?p + r)"
    "length d1 = length (data msg)" "bits_at d1 ?p (low_bits r ?v)" "bits_clean d1 (?p + r)"
    using add_bits_ok [of ?p "low_bits r ?v" "data msg"] wf room by auto
  obtain d2 where d2: "huff_write_bytes hf n ?w (d1, ?p + r) = Inr (d2, ?p + r + length (concat codes))"
    "length d2 = length d1" "bits_at d2 (?p + r) (concat codes)"
    "\<forall>k < ?p + r. bit_at d2 k = bit_at d1 k"
    using huff_write_bytes_ok [OF codes, of "?p + r" d1] d1 room by auto
  let ?q = "?p + r + length (concat codes)"
  let ?m = "msg\<lparr>data := d2, currentbit := ?q, cursize := ?q div 8 + 1\<rparr>"
  have e: "(if bits - r > 0 then huff_write_bytes hf ((bits - r + 7) div 8) ?w (d1, ?p + r)
      else Inr (d1, ?p + r)) = Inr (d2, ?q)"
    using d2(1) r by (cases "n = 0") auto
  have "huff_write_bits r ?v (data msg, ?p) = Inr (?w, d1, ?p + r)"
    using huff_write_bits_eq [of r ?v "(data msg, ?p)"] r d1(1) by simp
  then have W: "MSG_WriteHuffBits hf msg v bits = Inr ?m"
    unfolding MSG_WriteHuffBits_def Let_def value_mask [OF bits(2)] r_def [symmetric]
    by (simp only: rbind_Inr prod.case e)
  have at: "bits_at d2 ?p (low_bits r v)"
    using d1 d2 low by (simp add: bits_at_def)
  have pos: "\<not> 8 * Suc (?q div 8) < ?q" "\<not> 8 * Suc (?q div 8) < ?p + r"
    using lt_8_Suc [of ?q] by simp_all
  have R: "MSG_ReadHuffBits (set_bit_pos ?p (rd\<lparr>msg_readmsg := ?m\<rparr>)) bits = Inr (?v, rd\<lparr>msg_readmsg := ?m\<rparr>)"
    if "q3huff rd = hf" for rd
    using read_raw_loop_value [OF at] r that pos
      read_huff_loop_ok [OF codes d2(3), of r "v AND mask r"] split_value [of r "8 * n" bits v]
    by (simp add: MSG_ReadHuffBits_def MSG_ReadRawBits_def set_bit_pos_def Let_def bits flip: r_def)
  show ?thesis
    using W R by (intro exI [of _ ?m]) simp
qed

end
