(* ===== verification/MsgProps.thy ===== *)
theory MsgProps
  imports MsgPrims MsgBits
begin

text \<open>
  Properties of the message layer: what the buffer guarantees, and the round trips of values and
  of sequences of values through \<open>MSG_Write*\<close> and \<open>MSG_Read*\<close>.
\<close>

section \<open>A buffer to evaluate on\<close>

definition null_prim :: netprim where
  "null_prim = \<lparr>coordtype = 0, anglesize = 0, npflags = 0\<rparr>"

definition fresh_buf :: "nat \<Rightarrow> sizebuf" where
  "fresh_buf n = \<lparr>data = replicate n 0, maxsize = n, cursize = 0, allowoverflow = False,
     overflowed = False, packing = SZ_RAWBYTES, currentbit = 0, prim = null_prim\<rparr>"

text \<open>A tree with two leaves, the symbols 5 and 6, under one internal node.\<close>

definition leaf_node :: "nat \<Rightarrow> node_t" where
  "leaf_node s = \<lparr>n_left = None, n_right = None, n_parent = Some 0, n_next = None, n_prev = None,
     n_head = None, weight = 1, symbol = s\<rparr>"

definition two_leaf_huff :: huff_t where
  "two_leaf_huff = \<lparr>blocNode = 3, blocPtrs = 0, tree = Some 0, lhead = Some 0, ltail = Some 0,
     loc = [None, None, None, None, None, Some 1, Some 2], freelist = None,
     nodeList = [(leaf_node INTERNAL_NODE)\<lparr>n_left := Some 1, n_right := Some 2, n_parent := None\<rparr>,
                 leaf_node 5, leaf_node 6],
     nodePtrs = []\<rparr>"

definition two_leaf :: huffman_t where
  "two_leaf = \<lparr>counts = [], crc = 0, built = True, compressor = two_leaf_huff, decompressor = two_leaf_huff\<rparr>"

definition fresh_read :: netread where
  "fresh_read = \<lparr>msg_readmsg = fresh_buf 0, msg_badread = False, q3huff = two_leaf\<rparr>"

lemma fresh_buf_fits: "sz_fits (fresh_buf n) m \<longleftrightarrow> m \<le> n"
  by (simp add: sz_fits_def sz_wf_def fresh_buf_def)

lemma fresh_buf_start [simp]: "cursize (fresh_buf n) = 0" "currentbit (fresh_buf n) = 0"
  by (simp_all add: fresh_buf_def)

lemma two_leaf_5: "huff_leaf two_leaf_huff 5 1 [False]"
proof -
  have "huff_code (Suc (Suc n)) two_leaf_huff 1 = Some [False]" for n
    by (simp add: two_leaf_huff_def leaf_node_def INTERNAL_NODE_def HMAX_def)
  from this [of 766] have "huff_code huff_nodes two_leaf_huff 1 = Some [False]"
    by (simp add: huff_nodes_def)
  then show ?thesis
    by (simp add: huff_leaf_def) (simp add: two_leaf_huff_def leaf_node_def INTERNAL_NODE_def HMAX_def)
qed

section \<open>The buffer\<close>

lemma SZ_GetSpace_wf:
  assumes "sz_wf buf" and "len \<le> maxsize buf" and "SZ_GetSpace buf len = Inr (p, buf')"
  shows "sz_wf buf' \<and> p + len = cursize buf' \<and> data buf' = data buf \<and> maxsize buf' = maxsize buf"
  using assms by (auto simp: SZ_GetSpace_def SZ_Clear_def sz_wf_def split: if_splits)

text \<open>C12: what \<open>SZ_Write\<close> does on a well-formed buffer, in every case.  Data that fits is appended.  Data that
  does not fit is a fatal error unless overflow is allowed; where it is, the message restarts with the
  new data and the overflow is marked, if the storage is large enough for the data.  The buffer stays
  well-formed in these cases and nothing outside the storage is written.  In the case left, overflow
  allowed and more data than \<open>maxsize\<close>, the message claims more than \<open>maxsize\<close> bytes, and \<open>SZ_Write\<close>
  writes outside the storage exactly if that is no larger.\<close>

theorem SZ_Write_cases:
  assumes "sz_wf buf"
  shows "(cursize buf + length bs \<le> maxsize buf \<and>
      SZ_Write buf bs = Inr (sz_append buf bs) \<and> sz_wf (sz_append buf bs)) \<or>
    (maxsize buf < cursize buf + length bs \<and> \<not> allowoverflow buf \<and> SZ_Write buf bs = Inl Sys_Error) \<or>
    (\<exists>buf'. maxsize buf < cursize buf + length bs \<and> allowoverflow buf \<and> length bs \<le> maxsize buf \<and>
      SZ_Write buf bs = Inr buf' \<and> sz_wf buf' \<and> overflowed buf' \<and> sz_content buf' = bs) \<or>
    (\<exists>buf'. maxsize buf < length bs \<and> length bs \<le> length (data buf) \<and> allowoverflow buf \<and>
      SZ_Write buf bs = Inr buf' \<and> overflowed buf' \<and> cursize buf' = length bs \<and> \<not> sz_wf buf') \<or>
    (length (data buf) < length bs \<and> allowoverflow buf \<and> SZ_Write buf bs = Inl Out_Of_Bounds)"
proof (cases "cursize buf + length bs \<le> maxsize buf")
  case True
  then have "sz_fits buf (length bs)" using assms(1) by (simp add: sz_fits_def)
  then show ?thesis using True SZ_Write_fits sz_append_wf by blast
next
  case False
  consider "\<not> allowoverflow buf" | "allowoverflow buf" "length bs \<le> maxsize buf"
    | "allowoverflow buf" "maxsize buf < length bs" "length bs \<le> length (data buf)"
    | "allowoverflow buf" "length (data buf) < length bs" by linarith
  then show ?thesis
  proof cases
    case 1
    then show ?thesis using False by (simp add: SZ_Write_def SZ_GetSpace_def)
  next
    case 2
    have "SZ_Write buf bs = Inr (buf\<lparr>data := bs @ drop (length bs) (data buf), cursize := length bs,
        overflowed := True\<rparr>)"
      using False 2 assms pokes_Inr [of 0 bs "data buf"]
      by (cases buf) (simp add: SZ_Write_def SZ_GetSpace_def SZ_Clear_def sz_puts_def sz_wf_def)
    then show ?thesis
      using False 2 assms by (simp add: sz_wf_def sz_content_def)
  next
    case 3
    have "SZ_Write buf bs = Inr (buf\<lparr>data := bs @ drop (length bs) (data buf), cursize := length bs,
        overflowed := True\<rparr>)"
      using False 3 pokes_Inr [of 0 bs "data buf"]
      by (cases buf) (simp add: SZ_Write_def SZ_GetSpace_def SZ_Clear_def sz_puts_def)
    then show ?thesis using 3 by (simp add: sz_wf_def)
  next
    case 4
    have "pokes 0 bs (data buf) = Inl Out_Of_Bounds"
      using 4 by (intro pokes_overflow) auto
    then have "SZ_Write buf bs = Inl Out_Of_Bounds"
      using 4 False by (simp add: SZ_Write_def SZ_GetSpace_def SZ_Clear_def sz_puts_def)
    then show ?thesis using 4 by blast
  qed
qed

theorem SZ_Write_cases_witness:
  "SZ_Write ((fresh_buf 2)\<lparr>cursize := 1\<rparr>) [7] = Inr (sz_append ((fresh_buf 2)\<lparr>cursize := 1\<rparr>) [7]) \<and>
    SZ_Write ((fresh_buf 2)\<lparr>allowoverflow := True\<rparr>) [7, 8, 9] = Inl Out_Of_Bounds"
  using SZ_Write_cases [of "(fresh_buf 2)\<lparr>cursize := 1\<rparr>" "[7]"]
    SZ_Write_cases [of "(fresh_buf 2)\<lparr>allowoverflow := True\<rparr>" "[7, 8, 9]"]
  by (simp add: fresh_buf_def sz_wf_def)

text \<open>where overflow is allowed, a request larger than the whole buffer is granted all the same:
  the message then claims more bytes than the storage holds.\<close>

theorem SZ_GetSpace_oversize:
  assumes "allowoverflow buf" and "maxsize buf < len"
  shows "\<exists>buf'. SZ_GetSpace buf len = Inr (0, buf') \<and> cursize buf' = len \<and> \<not> sz_wf buf'"
  using assms by (simp add: SZ_GetSpace_def SZ_Clear_def sz_wf_def)

theorem SZ_GetSpace_oversize_witness:
  "\<exists>buf'. SZ_GetSpace ((fresh_buf 2)\<lparr>allowoverflow := True\<rparr>) 3 = Inr (0, buf') \<and> cursize buf' = 3 \<and>
    \<not> sz_wf buf'"
  using SZ_GetSpace_oversize [of "(fresh_buf 2)\<lparr>allowoverflow := True\<rparr>" 3]
  by (simp add: fresh_buf_def)

section \<open>Round trips of bytes\<close>

text \<open>C10: strings written one after the other into a buffer that has room for them and their
  terminators are read back as they were, and the reader stops behind the last of them.\<close>

theorem string_list_roundtrip:
  assumes "list_all (\<lambda>s. c_string s \<and> length s \<le> 65535) ss"
    and "sz_fits sb (length (concat (map (\<lambda>s. s @ [0]) ss)))"
  shows "rbind (write_all (\<lambda>sb s. MSG_WriteString sb (Some s)) sb ss)
      (\<lambda>sb'. read_n MSG_ReadString (length ss) (read_at rd sb' (cursize sb))) =
    Inr (ss, read_at rd (sz_append sb (concat (map (\<lambda>s. s @ [0]) ss)))
               (cursize sb + length (concat (map (\<lambda>s. s @ [0]) ss))))"
  using assms by (rule string.roundtrip_list)

theorem string_list_roundtrip_witness:
  "\<exists>rd'. rbind (write_all (\<lambda>sb s. MSG_WriteString sb (Some s)) (fresh_buf 8) [str ''map'', str ''e1''])
      (\<lambda>sb'. read_n MSG_ReadString 2 (read_at fresh_read sb' 0)) = Inr ([str ''map'', str ''e1''], rd')"
proof -
  let ?ss = "[str ''map'', str ''e1'']"
  have ok: "list_all (\<lambda>s. c_string s \<and> length s \<le> 65535) ?ss" by (simp add: str_def)
  have fits: "sz_fits (fresh_buf 8) (length (concat (map (\<lambda>s. s @ [0]) ?ss)))"
    by (simp add: fresh_buf_fits str_def)
  have n: "length ?ss = 2" by simp
  show ?thesis
    using string_list_roundtrip [OF ok fits, of fresh_read] unfolding n fresh_buf_start by blast
qed

text \<open>an entity number, in its two- or three-byte form, followed by a name.\<close>

theorem entity_name_roundtrip:
  assumes "n \<le> MAX_EDICTS" and "c_string s" and "length s \<le> 65535"
    and "sz_fits sb (length (entity_enc n @ s @ [0]))"
  shows "rbind (write_pair MSG_WriteEntity (\<lambda>sb s. MSG_WriteString sb (Some s)) sb (n, s))
      (\<lambda>sb'. read_pair MSG_ReadBigEntity MSG_ReadString (read_at rd sb' (cursize sb))) =
    Inr ((n, s), read_at rd (sz_append sb (entity_enc n @ s @ [0]))
                   (cursize sb + length (entity_enc n @ s @ [0])))"
  using named.pair.roundtrip [of "(n, s)" sb rd] assms by simp

theorem entity_name_roundtrip_witness:
  "\<exists>rd'. rbind (write_pair MSG_WriteEntity (\<lambda>sb s. MSG_WriteString sb (Some s)) (fresh_buf 8) (70000, [65]))
      (\<lambda>sb'. read_pair MSG_ReadBigEntity MSG_ReadString (read_at fresh_read sb' 0)) = Inr ((70000, [65]), rd')"
  using entity_name_roundtrip [of 70000 "[65]" "fresh_buf 8" fresh_read]
  by (auto simp: fresh_buf_fits entity_enc_def MAX_EDICTS_def)

text \<open>unsigned 64-bit integers, one to nine bytes each, with no restriction on the values.\<close>

theorem uint64_list_roundtrip:
  assumes "sz_fits sb (length (concat (map uint64_enc cs)))"
  shows "\<exists>rd'. rbind (write_all MSG_WriteUInt64 sb cs)
      (\<lambda>sb'. read_n MSG_ReadUInt64 (length cs) (read_at rd sb' (cursize sb))) = Inr (cs, rd')"
  using uint64.roundtrip_list [OF _ assms, of rd] by (simp add: list_all_iff)

theorem uint64_list_roundtrip_witness:
  "\<exists>rd'. rbind (write_all MSG_WriteUInt64 (fresh_buf 8) [])
      (\<lambda>sb'. read_n MSG_ReadUInt64 0 (read_at fresh_read sb' 0)) = Inr ([], rd')"
  using uint64_list_roundtrip [of "fresh_buf 8" "[]" fresh_read]
  by (simp add: fresh_buf_fits)

text \<open>the LEB128 form round-trips below two to the 31, which is all the reader's \<open>int\<close> shifts
  keep apart.\<close>

theorem uleb_roundtrip:
  assumes "c < 2 ^ 31" and "sz_fits sb (length (uleb_enc c))"
  shows "\<exists>rd'. rbind (MSG_WriteULEB128 sb c) (\<lambda>sb'. MSG_ReadULEB128 (read_at rd sb' (cursize sb))) =
    Inr (c, rd')"
  using uleb.roundtrip [OF assms] by blast

theorem uleb_roundtrip_witness:
  "\<exists>rd'. rbind (MSG_WriteULEB128 (fresh_buf 5) 300) (\<lambda>sb'. MSG_ReadULEB128 (read_at fresh_read sb' 0)) =
    Inr (300, rd')"
proof -
  have "uleb_enc 300 = [ucast (300 AND 0x7f :: u64) OR 0x80, 2]"
    by (simp add: uleb_enc.simps [of 300] uleb_enc.simps [of 2])
  then show ?thesis
    using uleb_roundtrip [of 300 "fresh_buf 5" fresh_read] by (simp add: fresh_buf_fits)
qed

section \<open>Round trips of bits\<close>

text \<open>C11: a Huffman-packed bit field comes back from the position it was written at, and the reader
  stops at the bit where the writer stopped, for every width up to 32 and every tree whose two
  copies agree on the code words of the value's bytes.\<close>

theorem huff_field_roundtrip:
  assumes "1 \<le> bits" and "bits \<le> 32" and "bits_clean (data msg) (currentbit msg)"
    and "huff_codes hf (value_bytes (bits div 8) (signed_drop_bit (bits mod 8) (v AND mask bits))) codes"
    and "currentbit msg + bits mod 8 + length (concat codes) \<le> 8 * length (data msg)"
  shows "\<exists>msg'. MSG_WriteHuffBits hf msg v bits = Inr msg' \<and>
    currentbit msg' = currentbit msg + bits mod 8 + length (concat codes) \<and>
    (\<forall>rd. q3huff rd = hf \<longrightarrow>
      MSG_ReadHuffBits (set_bit_pos (currentbit msg) (rd\<lparr>msg_readmsg := msg'\<rparr>)) bits =
      Inr (v AND mask bits, rd\<lparr>msg_readmsg := msg'\<rparr>))"
  using assms by (rule huff_bits_roundtrip)

theorem huff_field_roundtrip_witness:
  "\<exists>msg'. MSG_WriteHuffBits two_leaf (fresh_buf 2) 5 8 = Inr msg' \<and> currentbit msg' = 1 \<and>
    MSG_ReadHuffBits (set_bit_pos 0 (fresh_read\<lparr>msg_readmsg := msg'\<rparr>)) 8 =
      Inr (5, fresh_read\<lparr>msg_readmsg := msg'\<rparr>)"
proof -
  have v: "(5 :: int32) AND mask 8 = 5" by (simp add: mask_eq_exp_minus_1)
  have b: "value_bytes (8 div 8) (signed_drop_bit (8 mod 8) (5 :: int32)) = [5]" by simp
  have c: "huff_codes two_leaf [5] [[False]]"
    using two_leaf_5 by (auto simp: huff_codes_def two_leaf_def)
  have "currentbit (fresh_buf 2) = 0" "length (data (fresh_buf 2)) = 2" "q3huff fresh_read = two_leaf"
    by (simp_all add: fresh_buf_def fresh_read_def)
  then show ?thesis
    using huff_field_roundtrip [of 8 "fresh_buf 2" two_leaf 5 "[[False]]", unfolded v b] c by fastforce
qed

text \<open>a plain bit field of fewer than eight bits comes back, and the writer leaves the buffer
  ready for the next field.\<close>

theorem raw_field_roundtrip:
  assumes "bits < 8" and "raw_bits_wf msg" and "bits_clean (data msg) (currentbit msg)"
    and "currentbit msg + bits \<le> 8 * length (data msg)"
  shows "\<exists>msg'. MSG_WriteRawBits msg v bits 0 = Inr msg' \<and> raw_bits_wf msg' \<and>
    bits_clean (data msg') (currentbit msg') \<and> currentbit msg' = currentbit msg + bits \<and>
    length (data msg') = length (data msg) \<and>
    MSG_ReadRawBits (set_bit_pos (currentbit msg) (rd\<lparr>msg_readmsg := msg'\<rparr>)) bits =
      Inr (v AND mask bits, rd\<lparr>msg_readmsg := msg'\<rparr>)"
  using assms by (rule raw_bits_roundtrip)

theorem raw_field_roundtrip_witness:
  "\<exists>msg'. MSG_WriteRawBits (fresh_buf 1) 5 3 0 = Inr msg' \<and> currentbit msg' = 3"
  using raw_field_roundtrip [of 3 "fresh_buf 1" 5 fresh_read]
  by (auto simp: fresh_buf_def raw_bits_wf_def)

text \<open>\<open>MSG_ReadBits\<close> refuses a 32-bit field that ends exactly at the end of a byte-packed message:
  it returns -1 and marks the message bad although all four bytes are there.\<close>

theorem MSG_ReadBits_last_field:
  assumes "rd_ok rd" and "rd_rest rd = le32 c"
  shows "MSG_ReadBits rd 32 = Inr (-1, rd_adv 4 (bad_read rd))"
  using assms by (rule MSG_ReadBits_32_last)

theorem MSG_ReadBits_last_field_witness:
  "\<exists>rd. rd_rest rd = le32 1 \<and> MSG_ReadBits rd 32 = Inr (-1, rd_adv 4 (bad_read rd))"
proof -
  let ?sb = "(fresh_buf 4)\<lparr>data := [1, 0, 0, 0], cursize := 4\<rparr>"
  let ?rd = "fresh_read\<lparr>msg_readmsg := ?sb\<rparr>"
  have "rd_ok ?rd" "rd_rest ?rd = le32 1"
    by (simp_all add: rd_ok_def rd_rest_def fresh_buf_def fresh_read_def le32_def)
  then show ?thesis using MSG_ReadBits_last_field by blast
qed

end
