(* ===== verification/InfoString.thy ===== *)
theory InfoString
  imports Prelude
begin

text \<open>
  Info strings, \<open>\key\value\key\value...\<close> (\<open>Info_*\<close> of \<open>engine/common/common.c\<close>).  A string is
  the list of its bytes; the fixed \<open>char [1024]\<close> scratch buffers of the code are limits on the
  keys and values it copies: the readers check them, the removers do not.
\<close>

definition BSLASH :: byte where "BSLASH = 92"
definition DQUOTE :: byte where "DQUOTE = 34"

definition MAX_INFO_KEY :: nat where "MAX_INFO_KEY = 256"

section \<open>Reading\<close>

text \<open>
  The key loop: copy up to the backslash and step over it; the string's end or a full buffer
  (\<open>o+2 >= pkey+sizeof(pkey)\<close>) ends the call with the empty string.  \<open>n\<close> counts the copied bytes.
\<close>

fun info_copy_key :: "nat \<Rightarrow> byte list \<Rightarrow> (byte list \<times> byte list) option" where
  "info_copy_key n [] = None"
| "info_copy_key n (c # s) =
     (if c = BSLASH then Some ([], s)
      else if n + 1 + 2 \<ge> 1024 then None
      else (case info_copy_key (n + 1) s of None \<Rightarrow> None | Some (k, r) \<Rightarrow> Some (c # k, r)))"

fun info_copy_value :: "nat \<Rightarrow> byte list \<Rightarrow> (byte list \<times> byte list) option" where
  "info_copy_value n [] = Some ([], [])"
| "info_copy_value n (c # s) =
     (if c = BSLASH then Some ([], c # s)
      else if n + 1 + 2 \<ge> 1024 then None
      else (case info_copy_value (n + 1) s of None \<Rightarrow> None | Some (v, r) \<Rightarrow> Some (c # v, r)))"

definition skip_bslash :: "byte list \<Rightarrow> byte list" where
  "skip_bslash s = (case s of [] \<Rightarrow> [] | c # r \<Rightarrow> if c = BSLASH then r else s)"

lemma info_copy_key_length: "info_copy_key n s = Some (k, r) \<Longrightarrow> length r < length s"
  by (induction n s arbitrary: k r rule: info_copy_key.induct)
    (auto split: if_splits option.splits)

lemma info_copy_value_length: "info_copy_value n s = Some (v, r) \<Longrightarrow> length r \<le> length s"
  by (induction n s arbitrary: v r rule: info_copy_value.induct)
    (auto split: if_splits option.splits)

function info_value_loop :: "byte list \<Rightarrow> byte list \<Rightarrow> byte list" where
  "info_value_loop s key =
     (case info_copy_key 0 s of
        None \<Rightarrow> []
      | Some (pkey, s1) \<Rightarrow>
          (case info_copy_value 0 s1 of
             None \<Rightarrow> []
           | Some (v, s2) \<Rightarrow>
               if key = pkey then v
               else (case s2 of [] \<Rightarrow> [] | _ # s3 \<Rightarrow> info_value_loop s3 key)))"
  by pat_completeness auto
termination
  by (relation "measure (\<lambda>(s, key). length s)")
    (fastforce dest: info_copy_key_length info_copy_value_length)+

declare info_value_loop.simps [simp del]

definition Info_ValueForKey :: "byte list \<Rightarrow> byte list \<Rightarrow> byte list" where
  "Info_ValueForKey s key = info_value_loop (skip_bslash s) key"

text \<open>\<open>Info_KeyForNumber\<close> steps over the value without copying it.\<close>

function info_key_loop :: "byte list \<Rightarrow> nat \<Rightarrow> byte list" where
  "info_key_loop s num =
     (case info_copy_key 0 s of
        None \<Rightarrow> []
      | Some (pkey, s1) \<Rightarrow>
          if num = 0 then pkey
          else (case dropWhile (\<lambda>c. c \<noteq> BSLASH) s1 of
                  [] \<Rightarrow> []
                | _ # s2 \<Rightarrow> info_key_loop s2 (num - 1)))"
  by pat_completeness auto
termination
  by (relation "measure (\<lambda>(s, num). num)") auto

declare info_key_loop.simps [simp del]

definition Info_KeyForNumber :: "byte list \<Rightarrow> nat \<Rightarrow> byte list" where
  "Info_KeyForNumber s num = info_key_loop (skip_bslash s) num"

text \<open>\<open>Info_Enumerate\<close>: the callback's arguments, in the order of the calls.\<close>

function info_enum_loop :: "byte list \<Rightarrow> (byte list \<times> byte list) list" where
  "info_enum_loop s =
     (if s = [] then []
      else
        let key = take 1023 (takeWhile (\<lambda>c. c \<noteq> BSLASH) s); s1 = drop (length key) s
        in case s1 of
             [] \<Rightarrow> [(key, [])]
           | _ # s2 \<Rightarrow>
               let val = take 1023 (takeWhile (\<lambda>c. c \<noteq> BSLASH) s2); s3 = drop (length val) s2
               in (key, val) # info_enum_loop (drop 1 s3))"
  by pat_completeness auto
termination
proof (relation "measure length", simp, goal_cases)
  case (1 s key s1 c s2 val s3)
  have "length s2 < length s1" using 1(4) by simp
  also have "length s1 \<le> length s" using 1(3) by simp
  finally show ?case using 1(6) by simp
qed

declare info_enum_loop.simps [simp del]

definition Info_Enumerate :: "byte list \<Rightarrow> (byte list \<times> byte list) list" where
  "Info_Enumerate s = info_enum_loop (skip_bslash s)"

section \<open>Removing\<close>

text \<open>
  \<open>Info_RemoveKey\<close>: \<open>pre\<close> is what lies before \<open>start\<close>.  Keys and values are copied into 1024-byte
  buffers without a check, so a longer one is a write outside the buffer.
\<close>

function info_remove_loop :: "byte list \<Rightarrow> byte list \<Rightarrow> byte list \<Rightarrow> byte list res" where
  "info_remove_loop pre s key =
     (let s0 = skip_bslash s;
          pkey = takeWhile (\<lambda>c. c \<noteq> BSLASH) s0
      in case dropWhile (\<lambda>c. c \<noteq> BSLASH) s0 of
           [] \<Rightarrow> if length pkey > 1024 then Inl Out_Of_Bounds else Inr (pre @ s)
         | _ # s1 \<Rightarrow>
             if length pkey \<ge> 1024 then Inl Out_Of_Bounds
             else
               let val = takeWhile (\<lambda>c. c \<noteq> BSLASH) s1; s2 = dropWhile (\<lambda>c. c \<noteq> BSLASH) s1
               in if length val \<ge> 1024 then Inl Out_Of_Bounds
                  else if key = pkey then Inr (pre @ s2)
                  else if s2 = [] then Inr (pre @ s)
                  else info_remove_loop (pre @ take (length s - length s2) s) s2 key)"
  by pat_completeness auto
termination
proof (relation "measure (\<lambda>(pre, s, key). length s)", simp, goal_cases)
  case (1 pre s key s0 pkey c s1 val s2)
  have "length s0 \<le> length s"
    using 1(1) by (auto simp: skip_bslash_def split: list.splits)
  moreover have "length s1 < length s0"
    using 1(3) length_dropWhile_le [of "\<lambda>c. c \<noteq> BSLASH" s0] by simp
  moreover have "length s2 \<le> length s1"
    using 1 by (simp add: length_dropWhile_le)
  ultimately show ?case by simp
qed

declare info_remove_loop.simps [simp del]

definition Info_RemoveKey :: "byte list \<Rightarrow> byte list \<Rightarrow> byte list res" where
  "Info_RemoveKey s key = (if BSLASH \<in> set key then Inr s else info_remove_loop [] s key)"

text \<open>One pass of \<open>Info_RemovePrefixedKeys\<close> up to the first key with the prefix.\<close>

function info_find_prefixed :: "byte list \<Rightarrow> byte \<Rightarrow> byte list option res" where
  "info_find_prefixed s prefix =
     (let s0 = skip_bslash s;
          pkey = takeWhile (\<lambda>c. c \<noteq> BSLASH) s0
      in case dropWhile (\<lambda>c. c \<noteq> BSLASH) s0 of
           [] \<Rightarrow> if length pkey > 1024 then Inl Out_Of_Bounds else Inr None
         | _ # s1 \<Rightarrow>
             if length pkey \<ge> 1024 then Inl Out_Of_Bounds
             else
               let val = takeWhile (\<lambda>c. c \<noteq> BSLASH) s1; s2 = dropWhile (\<lambda>c. c \<noteq> BSLASH) s1
               in if length val \<ge> 1024 then Inl Out_Of_Bounds
                  else if (case pkey of [] \<Rightarrow> 0 | c # _ \<Rightarrow> c) = prefix then Inr (Some pkey)
                  else if s2 = [] then Inr None
                  else info_find_prefixed s2 prefix)"
  by pat_completeness auto
termination
proof (relation "measure (\<lambda>(s, prefix). length s)", simp, goal_cases)
  case (1 s prefix s0 pkey c s1 val s2)
  have "length s0 \<le> length s"
    using 1(1) by (auto simp: skip_bslash_def split: list.splits)
  moreover have "length s1 < length s0"
    using 1(3) length_dropWhile_le [of "\<lambda>c. c \<noteq> BSLASH" s0] by simp
  moreover have "length s2 \<le> length s1"
    using 1 by (simp add: length_dropWhile_le)
  ultimately show ?case by simp
qed

declare info_find_prefixed.simps [simp del]

text \<open>
  After a removal the pass starts again (unless nothing is left).  Every removal takes at least
  one byte, so the length of the string bounds the passes: it is the fuel.
\<close>

fun info_remove_prefixed :: "nat \<Rightarrow> byte list \<Rightarrow> byte \<Rightarrow> byte list res" where
  "info_remove_prefixed 0 s prefix = Inl Stack_Overflow"
| "info_remove_prefixed (Suc fuel) s prefix =
     rbind (info_find_prefixed s prefix) (\<lambda>found. case found of
       None \<Rightarrow> Inr s
     | Some pkey \<Rightarrow> rbind (Info_RemoveKey s pkey) (\<lambda>s'.
         if s' = [] then Inr s' else info_remove_prefixed fuel s' prefix))"

definition Info_RemovePrefixedKeys :: "byte list \<Rightarrow> byte \<Rightarrow> byte list res" where
  "Info_RemovePrefixedKeys s prefix = info_remove_prefixed (Suc (length s)) s prefix"

section \<open>Writing\<close>

definition STAR_VER :: "byte list" where "STAR_VER = str ''*ver''"

text \<open>
  \<open>Info_SetValueForStarKey\<close>.  When the new value does not fit in place of the old one the code
  drops \<open>*ver\<close> and calls itself; each such call removes a pair, so the length is fuel enough.
\<close>

fun info_set :: "nat \<Rightarrow> byte list \<Rightarrow> byte list \<Rightarrow> byte list \<Rightarrow> nat \<Rightarrow> byte list res" where
  "info_set 0 s key val maxsize = Inl Stack_Overflow"
| "info_set (Suc fuel) s key val maxsize =
     (if BSLASH \<in> set key \<or> BSLASH \<in> set val then Inr s
      else if DQUOTE \<in> set key \<or> DQUOTE \<in> set val then Inr s
      else if length key \<ge> MAX_INFO_KEY then Inr s
      else
        let v = Info_ValueForKey s key in
        if v \<noteq> [] \<and> int (length val) - int (length v) + int (length s) + 1 > int maxsize then
          (if Info_ValueForKey s STAR_VER \<noteq> [] then
             rbind (Info_RemoveKey s STAR_VER) (\<lambda>s. info_set fuel s key val maxsize)
           else Inr s)
        else
          rbind (Info_RemoveKey s key) (\<lambda>s.
          if val = [] then Inr s
          else
            let newv = take 1023 (BSLASH # key @ BSLASH # val) in
            if length newv + length s + 1 > maxsize then Inr s
            else Inr (s @ filter (\<lambda>c. c > 13) newv)))"

definition Info_SetValueForStarKey :: "byte list \<Rightarrow> byte list \<Rightarrow> byte list \<Rightarrow> nat \<Rightarrow> byte list res" where
  "Info_SetValueForStarKey s key val maxsize = info_set (Suc (length s)) s key val maxsize"

definition Info_SetValueForKey :: "byte list \<Rightarrow> byte list \<Rightarrow> byte list \<Rightarrow> nat \<Rightarrow> byte list res" where
  "Info_SetValueForKey s key val maxsize =
     (if key \<noteq> [] \<and> hd key = of_char (CHR ''*'') then Inr s
      else Info_SetValueForStarKey s key val maxsize)"

section \<open>The abstract value: a list of pairs\<close>

definition info_pair :: "byte list \<times> byte list \<Rightarrow> byte list" where
  "info_pair p = BSLASH # fst p @ BSLASH # snd p"

definition info_render :: "(byte list \<times> byte list) list \<Rightarrow> byte list" where
  "info_render kvs = concat (map info_pair kvs)"

definition info_pair_ok :: "byte list \<times> byte list \<Rightarrow> bool" where
  "info_pair_ok p \<longleftrightarrow> BSLASH \<notin> set (fst p) \<and> BSLASH \<notin> set (snd p) \<and>
     length (fst p) \<le> 1021 \<and> length (snd p) \<le> 1021"

definition info_lookup :: "(byte list \<times> byte list) list \<Rightarrow> byte list \<Rightarrow> byte list" where
  "info_lookup kvs key = (case map_of kvs key of None \<Rightarrow> [] | Some v \<Rightarrow> v)"

fun info_del :: "byte list \<Rightarrow> (byte list \<times> byte list) list \<Rightarrow> (byte list \<times> byte list) list" where
  "info_del key [] = []"
| "info_del key (p # ps) = (if fst p = key then ps else p # info_del key ps)"

lemma info_render_simps [simp]:
  "info_render [] = []"
  "info_render (p # ps) = BSLASH # fst p @ BSLASH # snd p @ info_render ps"
  "info_render (ps @ qs) = info_render ps @ info_render qs"
  by (simp_all add: info_render_def info_pair_def)

lemma info_copy_key_ok:
  "BSLASH \<notin> set k \<Longrightarrow> n + length k \<le> 1021 \<Longrightarrow> info_copy_key n (k @ BSLASH # r) = Some (k, r)"
  by (induction k arbitrary: n) auto

lemma info_copy_value_ok:
  "BSLASH \<notin> set v \<Longrightarrow> n + length v \<le> 1021 \<Longrightarrow>
   info_copy_value n (v @ info_render kvs) = Some (v, info_render kvs)"
proof (induction v arbitrary: n)
  case Nil
  then show ?case by (cases kvs) simp_all
qed auto

lemma scan_key [simp]:
  assumes "BSLASH \<notin> set k"
  shows "takeWhile (\<lambda>c. c \<noteq> BSLASH) (k @ BSLASH # r) = k"
    and "dropWhile (\<lambda>c. c \<noteq> BSLASH) (k @ BSLASH # r) = BSLASH # r"
  using assms by (induction k) auto

lemma scan_value [simp]:
  assumes "BSLASH \<notin> set v"
  shows "takeWhile (\<lambda>c. c \<noteq> BSLASH) (v @ info_render kvs) = v"
    and "dropWhile (\<lambda>c. c \<noteq> BSLASH) (v @ info_render kvs) = info_render kvs"
proof -
  show "takeWhile (\<lambda>c. c \<noteq> BSLASH) (v @ info_render kvs) = v"
    using assms
  proof (induction v)
    case Nil
    then show ?case by (cases kvs) simp_all
  qed auto
  show "dropWhile (\<lambda>c. c \<noteq> BSLASH) (v @ info_render kvs) = info_render kvs"
    using assms
  proof (induction v)
    case Nil
    then show ?case by (cases kvs) simp_all
  qed auto
qed

lemma skip_bslash_simps [simp]:
  "skip_bslash [] = []" "skip_bslash (BSLASH # r) = r"
  by (simp_all add: skip_bslash_def)

lemma Info_ValueForKey_render:
  "list_all info_pair_ok kvs \<Longrightarrow> Info_ValueForKey (info_render kvs) key = info_lookup kvs key"
proof (induction kvs)
  case Nil
  then show ?case
    by (simp add: Info_ValueForKey_def info_lookup_def info_value_loop.simps [of "[]"])
next
  case (Cons p kvs)
  then have "info_value_loop (fst p @ BSLASH # snd p @ info_render kvs) key =
      (if key = fst p then snd p
       else case info_render kvs of [] \<Rightarrow> [] | _ # s \<Rightarrow> info_value_loop s key)"
    by (subst info_value_loop.simps)
      (simp add: info_pair_ok_def info_copy_key_ok info_copy_value_ok)
  moreover have "(case info_render kvs of [] \<Rightarrow> [] | _ # s \<Rightarrow> info_value_loop s key) = info_lookup kvs key"
    using Cons by (cases kvs) (simp_all add: Info_ValueForKey_def info_lookup_def)
  ultimately show ?case
    by (cases p) (simp add: Info_ValueForKey_def info_lookup_def)
qed

lemma info_remove_loop_render:
  "list_all info_pair_ok kvs \<Longrightarrow>
   info_remove_loop pre (info_render kvs) key = Inr (pre @ info_render (info_del key kvs))"
proof (induction kvs arbitrary: pre)
  case Nil
  then show ?case by (subst info_remove_loop.simps) simp
next
  case (Cons p kvs)
  let ?s = "info_render (p # kvs)"
  have "info_remove_loop pre ?s key =
      (if key = fst p then Inr (pre @ info_render kvs)
       else if info_render kvs = [] then Inr (pre @ ?s)
       else info_remove_loop (pre @ take (length ?s - length (info_render kvs)) ?s) (info_render kvs) key)"
    using Cons.prems by (subst info_remove_loop.simps) (simp add: info_pair_ok_def Let_def)
  moreover have "take (length ?s - length (info_render kvs)) ?s = info_render [p]"
    by simp
  moreover have "info_del key kvs = []" if "info_render kvs = []"
    using that by (cases kvs) simp_all
  ultimately show ?case
    using Cons by auto
qed

lemma Info_RemoveKey_render:
  assumes "list_all info_pair_ok kvs"
  shows "Info_RemoveKey (info_render kvs) key = Inr (info_render (info_del key kvs))"
proof -
  have "info_del key kvs = kvs" if "BSLASH \<in> set key"
    using assms that by (induction kvs) (auto simp: info_pair_ok_def)
  then show ?thesis
    by (simp add: Info_RemoveKey_def info_remove_loop_render [OF assms])
qed

lemma info_del_ok: "list_all info_pair_ok kvs \<Longrightarrow> list_all info_pair_ok (info_del key kvs)"
  by (induction kvs) auto

lemma info_del_keys: "set (map fst (info_del key kvs)) \<subseteq> set (map fst kvs)"
  by (induction kvs) auto

lemma info_del_distinct:
  "distinct (map fst kvs) \<Longrightarrow> distinct (map fst (info_del key kvs)) \<and> key \<notin> set (map fst (info_del key kvs))"
proof (induction kvs)
  case (Cons p kvs)
  then show ?case using info_del_keys [of key kvs] by auto
qed simp

lemma info_lookup_del:
  "distinct (map fst kvs) \<Longrightarrow> info_lookup (info_del key kvs) = (info_lookup kvs)(key := [])"
proof (induction kvs)
  case (Cons p kvs)
  then have "map_of kvs (fst p) = None" by (simp add: map_of_eq_None_iff)
  with Cons show ?case
    by (cases p) (auto simp: info_lookup_def fun_eq_iff)
qed (simp add: info_lookup_def fun_eq_iff)

lemma info_lookup_append:
  "key \<notin> set (map fst kvs) \<Longrightarrow> info_lookup (kvs @ [(key, v)]) = (info_lookup kvs)(key := v)"
  using map_of_eq_None_iff [of kvs key]
  by (auto simp: info_lookup_def fun_eq_iff map_add_def split: option.splits)

lemma info_render_del_length:
  "distinct (map fst kvs) \<Longrightarrow> info_lookup kvs key \<noteq> [] \<Longrightarrow>
   length (info_render kvs) =
   length (info_render (info_del key kvs)) + length key + length (info_lookup kvs key) + 2"
  by (induction kvs) (auto simp: info_lookup_def)

section \<open>Enumeration\<close>

lemma Info_Enumerate_render: "list_all info_pair_ok kvs \<Longrightarrow> Info_Enumerate (info_render kvs) = kvs"
proof (induction kvs)
  case Nil
  then show ?case by (simp add: Info_Enumerate_def info_enum_loop.simps [of "[]"])
next
  case (Cons p kvs)
  have "info_enum_loop (fst p @ BSLASH # snd p @ info_render kvs) =
      (fst p, snd p) # info_enum_loop (drop 1 (info_render kvs))"
    using Cons.prems by (subst info_enum_loop.simps) (simp add: info_pair_ok_def Let_def)
  moreover have "info_enum_loop (drop 1 (info_render kvs)) = kvs"
    using Cons by (cases kvs) (simp_all add: Info_Enumerate_def)
  ultimately show ?case by (simp add: Info_Enumerate_def)
qed

lemma Info_KeyForNumber_render:
  "list_all info_pair_ok kvs \<Longrightarrow>
   Info_KeyForNumber (info_render kvs) n = (if n < length kvs then fst (kvs ! n) else [])"
proof (induction kvs arbitrary: n)
  case Nil
  then show ?case by (simp add: Info_KeyForNumber_def info_key_loop.simps [of "[]"])
next
  case (Cons p kvs)
  have "info_key_loop (fst p @ BSLASH # snd p @ info_render kvs) n =
      (if n = 0 then fst p
       else case info_render kvs of [] \<Rightarrow> [] | _ # s \<Rightarrow> info_key_loop s (n - 1))"
    using Cons.prems by (subst info_key_loop.simps) (simp add: info_pair_ok_def info_copy_key_ok)
  moreover have "(case info_render kvs of [] \<Rightarrow> [] | _ # s \<Rightarrow> info_key_loop s (n - 1)) =
      Info_KeyForNumber (info_render kvs) (n - 1)"
    by (cases kvs) (simp_all add: Info_KeyForNumber_def info_key_loop.simps [of "[]"])
  ultimately show ?case
    using Cons by (cases n) (simp_all add: Info_KeyForNumber_def)
qed

section \<open>The invariant\<close>

text \<open>
  \<open>info_inv\<close> can be evaluated: the string is what its own enumeration renders, its keys are
  distinct, and keys and values stay within the readers' 1021 bytes.
\<close>

definition info_inv :: "byte list \<Rightarrow> bool" where
  "info_inv s \<longleftrightarrow> (let kvs = Info_Enumerate s in
     s = info_render kvs \<and> list_all info_pair_ok kvs \<and> distinct (map fst kvs))"

definition info_abs :: "byte list \<Rightarrow> byte list \<Rightarrow> byte list" where
  "info_abs s = info_lookup (Info_Enumerate s)"

lemma info_inv_render:
  "list_all info_pair_ok kvs \<Longrightarrow> distinct (map fst kvs) \<Longrightarrow> info_inv (info_render kvs)"
  by (simp add: info_inv_def Info_Enumerate_render)

lemma info_invE:
  assumes "info_inv s"
  obtains kvs where "s = info_render kvs" "list_all info_pair_ok kvs" "distinct (map fst kvs)"
    "Info_Enumerate s = kvs"
  using assms by (auto simp: info_inv_def Let_def)

lemma info_inv_empty: "info_inv []"
  using info_inv_render [of "[]"] by simp

text \<open>What \<open>Info_SetValueForStarKey\<close> accepts and stores without loss.\<close>

definition info_clean :: "byte list \<Rightarrow> bool" where
  "info_clean t \<longleftrightarrow> BSLASH \<notin> set t \<and> DQUOTE \<notin> set t \<and> (\<forall>c \<in> set t. 13 < c)"

definition info_settable :: "byte list \<Rightarrow> byte list \<Rightarrow> bool" where
  "info_settable key val \<longleftrightarrow> info_clean key \<and> info_clean val \<and> length key < MAX_INFO_KEY \<and>
     length key + length val + 2 \<le> 1023"

definition info_fits :: "byte list \<Rightarrow> byte list \<Rightarrow> byte list \<Rightarrow> nat \<Rightarrow> bool" where
  "info_fits s key val maxsize \<longleftrightarrow>
     (Info_ValueForKey s key = [] \<or>
      length val + length s + 1 \<le> maxsize + length (Info_ValueForKey s key)) \<and>
     (case Info_RemoveKey s key of Inl _ \<Rightarrow> False | Inr s' \<Rightarrow>
        val = [] \<or> length key + length val + 2 + length s' + 1 \<le> maxsize)"

lemma info_clean_filter: "info_clean t \<Longrightarrow> filter (\<lambda>c. 13 < c) t = t"
  by (simp add: info_clean_def filter_id_conv)

lemma info_set_render:
  assumes "list_all info_pair_ok kvs" and "info_settable key val"
    and "info_fits (info_render kvs) key val maxsize"
  shows "Info_SetValueForStarKey (info_render kvs) key val maxsize =
    Inr (info_render (if val = [] then info_del key kvs else info_del key kvs @ [(key, val)]))"
proof -
  let ?s = "info_render kvs" and ?r = "info_render (info_del key kvs)"
  note rk = Info_RemoveKey_render [OF assms(1), of key]
  have clean: "(BSLASH \<in> set key \<or> BSLASH \<in> set val) = False"
    "(DQUOTE \<in> set key \<or> DQUOTE \<in> set val) = False" "(length key \<ge> MAX_INFO_KEY) = False"
    using assms(2) by (auto simp: info_settable_def info_clean_def)
  have room: "\<not> (Info_ValueForKey ?s key \<noteq> [] \<and>
      int (length val) - int (length (Info_ValueForKey ?s key)) + int (length ?s) + 1 > int maxsize)"
    using assms(3) by (auto simp: info_fits_def)
  have "Info_SetValueForStarKey ?s key val maxsize =
      (if val = [] then Inr ?r
       else let newv = take 1023 (BSLASH # key @ BSLASH # val) in
         if length newv + length ?r + 1 > maxsize then Inr ?r
         else Inr (?r @ filter (\<lambda>c. c > 13) newv))"
    unfolding Info_SetValueForStarKey_def info_set.simps Let_def
    by (simp only: clean room rk if_False rbind_Inr)
  moreover have "take 1023 (BSLASH # key @ BSLASH # val) = BSLASH # key @ BSLASH # val"
    using assms(2) by (intro take_all) (simp add: info_settable_def)
  moreover have "filter (\<lambda>c. 13 < c) (BSLASH # key @ BSLASH # val) = BSLASH # key @ BSLASH # val"
    using assms(2) by (simp add: info_settable_def info_clean_filter BSLASH_def)
  moreover have "val \<noteq> [] \<Longrightarrow> \<not> length (BSLASH # key @ BSLASH # val) + length ?r + 1 > maxsize"
    using assms(3) rk by (simp add: info_fits_def)
  ultimately show ?thesis by (simp add: Let_def)
qed

section \<open>A store of keys and values\<close>

text \<open>
  What a client relies on: after a \<open>put\<close> that fits, \<open>get\<close> returns the value for the key and is
  unchanged elsewhere; \<open>rem\<close> makes the key's value the empty one.
\<close>

locale kv_store =
  fixes inv :: "'s \<Rightarrow> bool"
    and get :: "'s \<Rightarrow> 'k \<Rightarrow> 'v"
    and put :: "nat \<Rightarrow> 'k \<Rightarrow> 'v \<Rightarrow> 's \<Rightarrow> 's res"
    and rem :: "'k \<Rightarrow> 's \<Rightarrow> 's res"
    and ok :: "'k \<Rightarrow> 'v \<Rightarrow> bool"
    and room :: "nat \<Rightarrow> 'k \<Rightarrow> 'v \<Rightarrow> 's \<Rightarrow> bool"
    and none :: 'v
  assumes put_law: "\<And>s k v n. inv s \<Longrightarrow> ok k v \<Longrightarrow> room n k v s \<Longrightarrow>
      \<exists>s'. put n k v s = Inr s' \<and> inv s' \<and> get s' = (get s)(k := v)"
    and rem_law: "\<And>s k. inv s \<Longrightarrow> \<exists>s'. rem k s = Inr s' \<and> inv s' \<and> get s' = (get s)(k := none)"
begin

lemma get_put_same:
  assumes "inv s" and "ok k v" and "room n k v s" and "put n k v s = Inr s'"
  shows "get s' k = v"
  using put_law [OF assms(1-3)] assms(4) by auto

lemma get_put_other:
  assumes "inv s" and "ok k v" and "room n k v s" and "put n k v s = Inr s'" and "k' \<noteq> k"
  shows "get s' k' = get s k'"
  using put_law [OF assms(1-3)] assms(4,5) by auto

lemma put_put:
  assumes "inv s" and "ok k v" and "ok k v'" and "room n k v s" and "put n k v s = Inr s'"
    and "room n k v' s'" and "put n k v' s' = Inr s''"
  shows "inv s'' \<and> get s'' = (get s)(k := v')"
  using put_law [OF assms(1,2,4)] put_law [of s' k v' n] assms by auto

lemma rem_put:
  assumes "inv s" and "ok k v" and "room n k v s" and "put n k v s = Inr s'" and "rem k s' = Inr s''"
  shows "inv s'' \<and> get s'' = (get s)(k := none)"
  using put_law [OF assms(1-3)] rem_law [of s' k] assms(4,5) by auto

end

lemma info_put_law:
  assumes "info_inv s" and "info_settable key val" and "info_fits s key val maxsize"
  shows "\<exists>s'. Info_SetValueForStarKey s key val maxsize = Inr s' \<and> info_inv s' \<and>
    Info_ValueForKey s' = (Info_ValueForKey s)(key := val)"
proof -
  from assms(1) obtain kvs where kvs: "s = info_render kvs" "list_all info_pair_ok kvs"
    "distinct (map fst kvs)" by (rule info_invE)
  let ?kvs = "if val = [] then info_del key kvs else info_del key kvs @ [(key, val)]"
  have d: "distinct (map fst (info_del key kvs))" "key \<notin> set (map fst (info_del key kvs))"
    using info_del_distinct [OF kvs(3), of key] by auto
  have ok: "list_all info_pair_ok ?kvs"
    using info_del_ok [OF kvs(2), of key] assms(2)
    by (auto simp: info_settable_def info_pair_ok_def info_clean_def)
  have "info_lookup ?kvs = (info_lookup kvs)(key := val)"
    using info_lookup_del [OF kvs(3), of key] info_lookup_append [OF d(2), of val]
    by (simp add: fun_upd_def fun_eq_iff)
  then have "Info_ValueForKey (info_render ?kvs) = (Info_ValueForKey s)(key := val)"
    using Info_ValueForKey_render [OF ok] Info_ValueForKey_render [OF kvs(2)] kvs(1)
    by (simp add: fun_eq_iff)
  moreover have "info_inv (info_render ?kvs)"
    using ok d by (intro info_inv_render) auto
  ultimately show ?thesis
    using info_set_render [OF kvs(2) assms(2)] assms(3) kvs(1) by auto
qed

lemma info_rem_law:
  assumes "info_inv s"
  shows "\<exists>s'. Info_RemoveKey s key = Inr s' \<and> info_inv s' \<and>
    Info_ValueForKey s' = (Info_ValueForKey s)(key := [])"
proof -
  from assms obtain kvs where kvs: "s = info_render kvs" "list_all info_pair_ok kvs"
    "distinct (map fst kvs)" by (rule info_invE)
  have ok: "list_all info_pair_ok (info_del key kvs)"
    by (rule info_del_ok [OF kvs(2)])
  show ?thesis
    using Info_RemoveKey_render [OF kvs(2), of key] kvs(1)
      info_inv_render [OF ok] info_del_distinct [OF kvs(3), of key]
      Info_ValueForKey_render [OF ok] Info_ValueForKey_render [OF kvs(2)]
      info_lookup_del [OF kvs(3), of key]
    by (auto simp: fun_eq_iff)
qed

interpretation info: kv_store info_inv Info_ValueForKey
  "\<lambda>n k v s. Info_SetValueForStarKey s k v n" "\<lambda>k s. Info_RemoveKey s k"
  info_settable "\<lambda>n k v s. info_fits s k v n" "[]"
  by unfold_locales (rule info_put_law info_rem_law; assumption)+

section \<open>Bounds on any string\<close>

lemma info_copy_key_split:
  "info_copy_key n s = Some (k, r) \<Longrightarrow> s = k @ BSLASH # r \<and> BSLASH \<notin> set k"
  by (induction n s arbitrary: k r rule: info_copy_key.induct) (auto split: if_splits option.splits)

lemma info_copy_value_split:
  "info_copy_value n s = Some (v, r) \<Longrightarrow>
   s = v @ r \<and> BSLASH \<notin> set v \<and> (r = [] \<or> (\<exists>r'. r = BSLASH # r'))"
  by (induction n s arbitrary: v r rule: info_copy_value.induct) (auto split: if_splits option.splits)

lemma info_copy_value_scan:
  assumes "info_copy_value n s = Some (v, r)"
  shows "takeWhile (\<lambda>c. c \<noteq> BSLASH) s = v" "dropWhile (\<lambda>c. c \<noteq> BSLASH) s = r"
proof -
  have tw: "takeWhile (\<lambda>c. c \<noteq> BSLASH) v = v" "dropWhile (\<lambda>c. c \<noteq> BSLASH) v = []" if "BSLASH \<notin> set v"
    using that by (induction v) auto
  have "s = v @ r" "BSLASH \<notin> set v" "r = [] \<or> (\<exists>r'. r = BSLASH # r')"
    using info_copy_value_split [OF assms] by auto
  then show "takeWhile (\<lambda>c. c \<noteq> BSLASH) s = v" "dropWhile (\<lambda>c. c \<noteq> BSLASH) s = r"
    using tw by auto
qed

lemma skip_bslash_length: "length (skip_bslash s) \<le> length s"
  by (cases s) (auto simp: skip_bslash_def)

lemma scan_length:
  "length s = length (takeWhile P s) + length (dropWhile P s)"
  using takeWhile_dropWhile_id [of P s] length_append [of "takeWhile P s" "dropWhile P s"] by simp

lemma info_remove_loop_length:
  "info_remove_loop pre s key = Inr s' \<Longrightarrow> length s' \<le> length pre + length s"
proof (induction pre s key rule: info_remove_loop.induct)
  case (1 pre s key)
  let ?s0 = "skip_bslash s"
  let ?d = "dropWhile (\<lambda>c. c \<noteq> BSLASH) ?s0"
  show ?case
  proof (cases ?d)
    case Nil
    then have "info_remove_loop pre s key =
        (if length (takeWhile (\<lambda>c. c \<noteq> BSLASH) ?s0) > 1024 then Inl Out_Of_Bounds else Inr (pre @ s))"
      by (simp only: info_remove_loop.simps [of pre s key] Let_def list.case)
    then show ?thesis using "1.prems" by (simp split: if_splits)
  next
    case (Cons c s1)
    let ?s2 = "dropWhile (\<lambda>c. c \<noteq> BSLASH) s1"
    have len: "length ?s2 < length s"
      using Cons skip_bslash_length [of s] scan_length [of ?s0 "\<lambda>c. c \<noteq> BSLASH"]
        length_dropWhile_le [of "\<lambda>c. c \<noteq> BSLASH" s1] by simp
    have loop: "info_remove_loop pre s key =
       (let pkey = takeWhile (\<lambda>c. c \<noteq> BSLASH) ?s0 in
        if length pkey \<ge> 1024 then Inl Out_Of_Bounds
        else if length (takeWhile (\<lambda>c. c \<noteq> BSLASH) s1) \<ge> 1024 then Inl Out_Of_Bounds
        else if key = pkey then Inr (pre @ ?s2)
        else if ?s2 = [] then Inr (pre @ s)
        else info_remove_loop (pre @ take (length s - length ?s2) s) ?s2 key)"
      by (simp only: info_remove_loop.simps [of pre s key] Cons Let_def list.case)
    have IH: "info_remove_loop (pre @ take (length s - length ?s2) s) ?s2 key = Inr s' \<Longrightarrow>
        length (takeWhile (\<lambda>c. c \<noteq> BSLASH) ?s0) < 1024 \<Longrightarrow>
        length (takeWhile (\<lambda>c. c \<noteq> BSLASH) s1) < 1024 \<Longrightarrow>
        key \<noteq> takeWhile (\<lambda>c. c \<noteq> BSLASH) ?s0 \<Longrightarrow> ?s2 \<noteq> [] \<Longrightarrow>
        length s' \<le> length (pre @ take (length s - length ?s2) s) + length ?s2"
      using "1.IH" [OF refl refl Cons _ refl refl] by simp
    show ?thesis
      using "1.prems" IH len unfolding loop by (auto simp: Let_def not_le split: if_splits)
  qed
qed

lemma info_remove_loop_shrinks:
  "info_value_loop (skip_bslash s) key \<noteq> [] \<Longrightarrow> info_remove_loop pre s key = Inr s' \<Longrightarrow>
   length s' < length pre + length s"
proof (induction "length s" arbitrary: s pre rule: less_induct)
  case less
  let ?s0 = "skip_bslash s"
  from less.prems(1) obtain pkey s1 v s2 where
    k: "info_copy_key 0 ?s0 = Some (pkey, s1)" and v: "info_copy_value 0 s1 = Some (v, s2)"
    by (subst (asm) info_value_loop.simps) (auto split: option.splits)
  note ks = info_copy_key_split [OF k] and vs = info_copy_value_split [OF v]
  note vscan = info_copy_value_scan [OF v]
  have len: "length s2 < length s"
    using ks vs skip_bslash_length [of s] by auto
  have loop: "info_remove_loop pre s key =
      (if length pkey \<ge> 1024 then Inl Out_Of_Bounds
       else if length v \<ge> 1024 then Inl Out_Of_Bounds
       else if key = pkey then Inr (pre @ s2)
       else if s2 = [] then Inr (pre @ s)
       else info_remove_loop (pre @ take (length s - length s2) s) s2 key)"
    using ks vscan by (subst info_remove_loop.simps) (simp add: Let_def)
  show ?case
  proof (cases "key = pkey")
    case True
    then show ?thesis using less.prems(2) len unfolding loop by (auto split: if_splits)
  next
    case False
    have "info_value_loop ?s0 key =
        (if key = pkey then v else (case s2 of [] \<Rightarrow> [] | _ # s3 \<Rightarrow> info_value_loop s3 key))"
      using k v by (subst info_value_loop.simps) simp
    with False less.prems(1) vs have n: "s2 \<noteq> []" "info_value_loop (skip_bslash s2) key \<noteq> []"
      by (auto split: list.splits)
    then have "info_remove_loop (pre @ take (length s - length s2) s) s2 key = Inr s'"
      using less.prems(2) False unfolding loop by (auto split: if_splits)
    from less.hyps [OF len n(2) this] len show ?thesis by simp
  qed
qed

lemma Info_RemoveKey_length: "Info_RemoveKey s key = Inr s' \<Longrightarrow> length s' \<le> length s"
  using info_remove_loop_length [of "[]" s key s'] by (auto simp: Info_RemoveKey_def split: if_splits)

lemma Info_RemoveKey_shrinks:
  "Info_ValueForKey s key \<noteq> [] \<Longrightarrow> BSLASH \<notin> set key \<Longrightarrow> Info_RemoveKey s key = Inr s' \<Longrightarrow>
   length s' < length s"
  using info_remove_loop_shrinks [of s key "[]" s']
  by (auto simp: Info_RemoveKey_def Info_ValueForKey_def)

lemma info_remove_loop_fault: "info_remove_loop pre s key \<noteq> Inl Stack_Overflow"
proof (induction pre s key rule: info_remove_loop.induct)
  case (1 pre s key)
  then show ?case
    by (simp only: info_remove_loop.simps [of pre s key] Let_def split: list.split if_split)
      (simp add: Let_def)
qed

lemma Info_RemoveKey_fault: "Info_RemoveKey s key \<noteq> Inl Stack_Overflow"
  by (simp add: Info_RemoveKey_def info_remove_loop_fault)

lemma STAR_VER_no_bslash: "BSLASH \<notin> set STAR_VER"
  by (simp add: STAR_VER_def str_def BSLASH_def)

lemma info_set_bound:
  "info_set fuel s key val maxsize = Inr s' \<Longrightarrow> length s + 1 \<le> maxsize \<Longrightarrow> length s' + 1 \<le> maxsize"
proof (induction fuel arbitrary: s)
  case (Suc fuel)
  have last: "length s' + 1 \<le> maxsize"
    if "rbind (Info_RemoveKey s key) (\<lambda>s.
          if val = [] then Inr s
          else let newv = take 1023 (BSLASH # key @ BSLASH # val) in
            if length newv + length s + 1 > maxsize then Inr s
            else Inr (s @ filter (\<lambda>c. c > 13) newv)) = Inr s'"
  proof -
    let ?newv = "take 1023 (BSLASH # key @ BSLASH # val)"
    from that obtain s1 where s1: "Info_RemoveKey s key = Inr s1"
      and r: "(if val = [] then Inr s1
          else if length ?newv + length s1 + 1 > maxsize then Inr s1
          else Inr (s1 @ filter (\<lambda>c. c > 13) ?newv)) = (Inr s' :: byte list res)"
      unfolding Let_def by (rule rbind_InrE)
    have "s' = s1 \<or> (length ?newv + length s1 + 1 \<le> maxsize \<and> s' = s1 @ filter (\<lambda>c. c > 13) ?newv)"
      using r by (cases "val = []"; cases "length ?newv + length s1 + 1 > maxsize")
        (simp_all only: if_True if_False sum.inject not_less simp_thms)
    then show ?thesis
      using Info_RemoveKey_length [OF s1] Suc.prems(2) length_filter_le [of "\<lambda>c. c > 13" ?newv]
      by (elim disjE) simp_all
  qed
  have again: "length s' + 1 \<le> maxsize"
    if "rbind (Info_RemoveKey s STAR_VER) (\<lambda>s. info_set fuel s key val maxsize) = Inr s'"
    using that Suc.IH Suc.prems(2) by (elim rbind_InrE) (fastforce dest: Info_RemoveKey_length)
  have "s' = s \<or> rbind (Info_RemoveKey s STAR_VER) (\<lambda>s. info_set fuel s key val maxsize) = Inr s' \<or>
      rbind (Info_RemoveKey s key) (\<lambda>s.
          if val = [] then Inr s
          else let newv = take 1023 (BSLASH # key @ BSLASH # val) in
            if length newv + length s + 1 > maxsize then Inr s
            else Inr (s @ filter (\<lambda>c. c > 13) newv)) = Inr s'"
    using Suc.prems(1) unfolding info_set.simps Let_def [of "Info_ValueForKey s key"]
    by (simp only: sum.inject split: if_split_asm) simp_all
  then show ?case using last again Suc.prems(2) by blast
qed simp

lemma info_set_total:
  "length s < fuel \<Longrightarrow> info_set fuel s key val maxsize \<noteq> Inl Stack_Overflow"
proof (induction fuel arbitrary: s)
  case (Suc fuel)
  let ?last = "rbind (Info_RemoveKey s key) (\<lambda>s.
          if val = [] then Inr s
          else let newv = take 1023 (BSLASH # key @ BSLASH # val) in
            if length newv + length s + 1 > maxsize then Inr s
            else Inr (s @ filter (\<lambda>c. c > 13) newv))"
  let ?again = "rbind (Info_RemoveKey s STAR_VER) (\<lambda>s. info_set fuel s key val maxsize)"
  have "?last \<noteq> Inl Stack_Overflow"
    using Info_RemoveKey_fault [of s key] by (cases "Info_RemoveKey s key") (simp_all add: Let_def)
  moreover have "Info_ValueForKey s STAR_VER \<noteq> [] \<Longrightarrow> ?again \<noteq> Inl Stack_Overflow"
  proof (cases "Info_RemoveKey s STAR_VER")
    case (Inl e)
    then show ?thesis using Info_RemoveKey_fault [of s STAR_VER] by simp
  next
    case (Inr s1)
    assume "Info_ValueForKey s STAR_VER \<noteq> []"
    from Info_RemoveKey_shrinks [OF this STAR_VER_no_bslash Inr] Suc.prems
    have "length s1 < fuel" by simp
    with Suc.IH Inr show ?thesis by simp
  qed
  ultimately show ?case
    unfolding info_set.simps Let_def [of "Info_ValueForKey s key"] by simp
qed simp

section \<open>Removing the keys with a prefix\<close>

definition info_head :: "byte list \<Rightarrow> byte" where
  "info_head k = (case k of [] \<Rightarrow> 0 | c # _ \<Rightarrow> c)"

lemma info_find_prefixed_render:
  "list_all info_pair_ok kvs \<Longrightarrow>
   info_find_prefixed (info_render kvs) c = Inr (find (\<lambda>k. info_head k = c) (map fst kvs))"
proof (induction kvs)
  case Nil
  then show ?case by (subst info_find_prefixed.simps) simp
next
  case (Cons p kvs)
  have "info_find_prefixed (info_render (p # kvs)) c =
      (if info_head (fst p) = c then Inr (Some (fst p))
       else if info_render kvs = [] then Inr None
       else info_find_prefixed (info_render kvs) c)"
    using Cons.prems
    by (subst info_find_prefixed.simps) (simp add: info_pair_ok_def info_head_def Let_def)
  moreover have "kvs = []" if "info_render kvs = []"
    using that by (cases kvs) simp_all
  ultimately show ?case
    using Cons by auto
qed

lemma find_holds: "find P xs = Some x \<Longrightarrow> P x"
  by (auto simp: find_Some_iff)

lemma find_del:
  "find (\<lambda>k. P k) (map fst kvs) = Some key \<Longrightarrow>
   filter (\<lambda>p. \<not> P (fst p)) (info_del key kvs) = filter (\<lambda>p. \<not> P (fst p)) kvs \<and>
   Suc (length (info_del key kvs)) = length kvs"
  by (induction kvs) (auto split: if_splits dest: find_holds)

lemma find_none: "find (\<lambda>k. P k) (map fst kvs) = None \<Longrightarrow> filter (\<lambda>p. \<not> P (fst p)) kvs = kvs"
  by (induction kvs) (auto split: if_splits)

lemma info_remove_prefixed_render:
  "list_all info_pair_ok kvs \<Longrightarrow> length kvs < fuel \<Longrightarrow>
   info_remove_prefixed fuel (info_render kvs) c =
   Inr (info_render (filter (\<lambda>p. info_head (fst p) \<noteq> c) kvs))"
proof (induction fuel arbitrary: kvs)
  case (Suc fuel)
  note found = info_find_prefixed_render [OF Suc.prems(1), of c]
  show ?case
  proof (cases "find (\<lambda>k. info_head k = c) (map fst kvs)")
    case None
    then show ?thesis using found find_none [OF None] by simp
  next
    case (Some key)
    let ?kvs = "info_del key kvs"
    note del = find_del [OF Some]
    have "info_remove_prefixed fuel (info_render ?kvs) c =
        Inr (info_render (filter (\<lambda>p. info_head (fst p) \<noteq> c) kvs))"
      using Suc.IH [OF info_del_ok [OF Suc.prems(1), of key]] del Suc.prems(2) by simp
    moreover have "?kvs = []" if "info_render ?kvs = []"
      using that by (cases ?kvs) simp_all
    ultimately show ?thesis
      using found Some Info_RemoveKey_render [OF Suc.prems(1), of key] del by auto
  qed
qed simp

lemma info_render_count: "length kvs \<le> length (info_render kvs)"
  by (induction kvs) simp_all

lemma Info_RemovePrefixedKeys_render:
  "list_all info_pair_ok kvs \<Longrightarrow>
   Info_RemovePrefixedKeys (info_render kvs) c =
   Inr (info_render (filter (\<lambda>p. info_head (fst p) \<noteq> c) kvs))"
  using info_remove_prefixed_render [of kvs "Suc (length (info_render kvs))" c]
    info_render_count [of kvs] by (simp add: Info_RemovePrefixedKeys_def del: info_remove_prefixed.simps)

section \<open>Properties\<close>

text \<open>C31: setting a key of a well-formed info string to a value that fits stores it: the string stays
  well-formed, the key has the new value (an empty value removes the key) and every other key
  keeps its own.\<close>

theorem Info_set_get:
  assumes "info_inv s" and "info_settable key val" and "info_fits s key val maxsize"
  shows "\<exists>s'. Info_SetValueForStarKey s key val maxsize = Inr s' \<and> info_inv s' \<and>
    Info_ValueForKey s' key = val \<and> (\<forall>k. k \<noteq> key \<longrightarrow> Info_ValueForKey s' k = Info_ValueForKey s k)"
  using info.put_law [OF assms] by auto

theorem Info_set_get_witness:
  "\<exists>s'. Info_SetValueForStarKey [] (str ''name'') (str ''bob'') 64 = Inr s' \<and>
    Info_ValueForKey s' (str ''name'') = str ''bob''"
proof -
  have "info_settable (str ''name'') (str ''bob'')" "info_fits [] (str ''name'') (str ''bob'') 64"
    by code_simp+
  from Info_set_get [OF info_inv_empty this] show ?thesis by blast
qed

text \<open>C32: whatever the string, the key and the value are, a call that returns leaves the string, with
  its terminator, within \<open>maxsize\<close> if it was before.\<close>

theorem Info_set_bounded:
  assumes "length s + 1 \<le> maxsize" and "Info_SetValueForStarKey s key val maxsize = Inr s'"
  shows "length s' + 1 \<le> maxsize"
  using info_set_bound assms unfolding Info_SetValueForStarKey_def by blast

theorem Info_set_bounded_witness:
  "Info_SetValueForStarKey [] [107] [118] 3 = Inr [] \<and> length ([] :: byte list) + 1 \<le> 3"
proof -
  have "Info_SetValueForStarKey [] [107] [118] 3 = Inr []" by code_simp
  then show ?thesis using Info_set_bounded [of "[]" 3 "[107]" "[118]" "[]"] by simp
qed

text \<open>the self-call that drops \<open>*ver\<close> to make room always ends: the recursion of
  \<open>Info_SetValueForStarKey\<close> is never deeper than the string is long.\<close>

theorem Info_set_terminates:
  "Info_SetValueForStarKey s key val maxsize \<noteq> Inl Stack_Overflow"
  unfolding Info_SetValueForStarKey_def by (rule info_set_total) simp

text \<open>removing the keys with a prefix keeps exactly the pairs whose key does not start with it,
  in their order.\<close>

theorem Info_remove_prefixed:
  assumes "info_inv s"
  shows "Info_RemovePrefixedKeys s c =
    Inr (info_render (filter (\<lambda>p. info_head (fst p) \<noteq> c) (Info_Enumerate s)))"
  using assms Info_RemovePrefixedKeys_render by (metis info_invE)

theorem Info_remove_prefixed_witness:
  "Info_RemovePrefixedKeys (info_render [([42, 97], [49]), ([98], [50])]) 42 = Inr (info_render [([98], [50])])"
proof -
  have i: "info_inv (info_render [([42, 97], [49]), ([98], [50])])"
    by (rule info_inv_render) (simp_all add: info_pair_ok_def BSLASH_def)
  have e: "Info_Enumerate (info_render [([42, 97], [49]), ([98], [50])]) = [([42, 97], [49]), ([98], [50])]"
    by (rule Info_Enumerate_render) (simp add: info_pair_ok_def BSLASH_def)
  show ?thesis using Info_remove_prefixed [OF i, of 42] unfolding e by (simp add: info_head_def)
qed

text \<open>the number of a key and the order of the enumeration agree.\<close>

theorem Info_key_number:
  assumes "info_inv s"
  shows "Info_KeyForNumber s n =
    (if n < length (Info_Enumerate s) then fst (Info_Enumerate s ! n) else [])"
  using assms Info_KeyForNumber_render by (metis info_invE)

theorem Info_key_number_witness: "Info_KeyForNumber [] 3 = []"
proof -
  have "Info_Enumerate [] = []" using Info_Enumerate_render [of "[]"] by simp
  then show ?thesis using Info_key_number [OF info_inv_empty, of 3] by simp
qed

text \<open>a key of 1024 bytes or more overruns the stack buffer of \<open>Info_RemoveKey\<close>.\<close>

theorem Info_RemoveKey_overrun:
  assumes "BSLASH \<notin> set k" and "1024 \<le> length k" and "BSLASH \<notin> set key"
  shows "Info_RemoveKey (BSLASH # k @ BSLASH # r) key = Inl Out_Of_Bounds"
  using assms by (simp add: Info_RemoveKey_def info_remove_loop.simps [of "[]"] Let_def)

theorem Info_RemoveKey_overrun_witness:
  "Info_RemoveKey (BSLASH # replicate 1024 97 @ [BSLASH]) [98] = Inl Out_Of_Bounds"
  using Info_RemoveKey_overrun [of "replicate 1024 97" "[98]" "[]"] by (simp add: BSLASH_def)

end
