(* ===== verification/HashTable.thy ===== *)
theory HashTable
  imports Prelude
begin

text \<open>
  The intrusive hash tables of \<open>engine/qclib/hash.c\<close>.  The caller allocates every \<open>bucket_t\<close>; the
  table holds the heads of the chains and the chains run through the \<open>next\<close> pointers of the
  buckets, so the model has an explicit store of buckets, addressed by pointers with \<open>NULL = 0\<close>.
  A loop over a chain returns only if the chain ends: \<open>None\<close> is a call that does not return.
\<close>

type_synonym ptr = nat

abbreviation NULL :: ptr where "NULL \<equiv> 0"

datatype hkey = KString "byte list" | KValue int32

record bucket_t =
  bk_data :: ptr
  bk_key :: hkey
  bk_next :: ptr

record hashtable_t =
  numbuckets :: int32
  bucket :: "ptr list"

type_synonym heap = "ptr \<rightharpoonup> bucket_t"
type_synonym hstate = "hashtable_t \<times> heap"
definition deref :: "heap \<Rightarrow> ptr \<Rightarrow> bucket_t res" where
  "deref h p = (if p = NULL then Inl Null_Deref
     else case h p of None \<Rightarrow> Inl Out_Of_Bounds | Some b \<Rightarrow> Inr b)"

definition umod :: "int32 \<Rightarrow> int32 \<Rightarrow> int32 res" where
  "umod a m = (if m = 0 then Inl Div_By_Zero else Inr (a mod m))"

section \<open>Keys\<close>

text \<open>\<open>*name\<close> is a signed \<open>char\<close>; \<open>stricmp\<close> is \<open>strcasecmp\<close>, which folds the letters A to Z.\<close>

definition lower :: "byte \<Rightarrow> byte" where
  "lower c = (if 65 \<le> c \<and> c \<le> 90 then c - 65 + 97 else c)"

definition key_step :: "byte \<Rightarrow> int32 \<Rightarrow> int32" where
  "key_step c key = key + (push_bit 3 key + drop_bit 28 key + scast c)"

definition Hash_Key :: "byte list \<Rightarrow> int32 \<Rightarrow> int32 res" where
  "Hash_Key name modulus = umod (fold key_step name 0) modulus"

definition key_step_insensitive :: "byte \<Rightarrow> int32 \<Rightarrow> int32" where
  "key_step_insensitive c key =
     (if 65 \<le> c \<and> c \<le> 90 then key + (push_bit 3 key + drop_bit 28 key + (scast c - 65 + 97))
      else key + (push_bit 3 key + drop_bit 28 key + scast c))"

definition Hash_KeyInsensitive :: "byte list \<Rightarrow> int32 \<Rightarrow> int32 res" where
  "Hash_KeyInsensitive name modulus = umod (fold key_step_insensitive name 0) modulus"

text \<open>A test on a chain sees the bucket's address, its data and its key.\<close>

type_synonym test = "ptr \<Rightarrow> ptr \<Rightarrow> hkey \<Rightarrow> bool"

definition same_string :: "byte list \<Rightarrow> hkey \<Rightarrow> bool" where
  "same_string name k = (case k of KString s \<Rightarrow> name = s | KValue _ \<Rightarrow> False)"

definition same_insensitive :: "byte list \<Rightarrow> hkey \<Rightarrow> bool" where
  "same_insensitive name k = (case k of KString s \<Rightarrow> map lower name = map lower s | KValue _ \<Rightarrow> False)"

definition same_value :: "int32 \<Rightarrow> hkey \<Rightarrow> bool" where
  "same_value key k = (case k of KString _ \<Rightarrow> False | KValue v \<Rightarrow> v = key)"

section \<open>Loops over a chain\<close>

text \<open>\<open>while(buck) { if (test) break; buck = buck->next; }\<close>\<close>

partial_function (option) scan :: "heap \<Rightarrow> test \<Rightarrow> ptr \<Rightarrow> ptr run" where
  "scan h P p =
     (if p = NULL then Some (Inr NULL)
      else (case h p of
              None \<Rightarrow> Some (Inl Out_Of_Bounds)
            | Some b \<Rightarrow> if P p (bk_data b) (bk_key b) then Some (Inr p) else scan h P (bk_next b)))"

definition head_of :: "hashtable_t \<Rightarrow> int32 res \<Rightarrow> ptr run" where
  "head_of t bucknum = Some (rbind bucknum (\<lambda>n. peek (bucket t) (unat n)))"

text \<open>The data of the bucket a scan ended at, \<open>NULL\<close> if it ran off the chain.\<close>

definition data_at :: "heap \<Rightarrow> ptr \<Rightarrow> ptr run" where
  "data_at h p = (if p = NULL then Some (Inr NULL)
     else Some (rbind (deref h p) (\<lambda>b. Inr (bk_data b))))"

definition get_by :: "hstate \<Rightarrow> int32 res \<Rightarrow> test \<Rightarrow> ptr run" where
  "get_by s bucknum P =
     run_bind (head_of (fst s) bucknum) (\<lambda>p. run_bind (scan (snd s) P p) (data_at (snd s)))"

definition get_next_by :: "hstate \<Rightarrow> int32 res \<Rightarrow> test \<Rightarrow> ptr \<Rightarrow> ptr run" where
  "get_next_by s bucknum P old =
     run_bind (head_of (fst s) bucknum) (\<lambda>p.
     run_bind (scan (snd s) (\<lambda>_ d _. d = old) p) (\<lambda>q.
       if q = NULL then Some (Inr NULL)
       else run_bind (Some (deref (snd s) q)) (\<lambda>b.
         run_bind (scan (snd s) P (bk_next b)) (data_at (snd s)))))"

section \<open>Looking up\<close>

definition Hash_InitTable :: "int32 \<Rightarrow> ptr list \<Rightarrow> hashtable_t" where
  "Hash_InitTable numbucks mem = \<lparr>numbuckets = numbucks, bucket = mem\<rparr>"

definition Hash_Get :: "hstate \<Rightarrow> byte list \<Rightarrow> ptr run" where
  "Hash_Get s name = get_by s (Hash_Key name (numbuckets (fst s))) (\<lambda>_ _ k. same_string name k)"

definition Hash_GetInsensitive :: "hstate \<Rightarrow> byte list \<Rightarrow> ptr run" where
  "Hash_GetInsensitive s name =
     get_by s (Hash_KeyInsensitive name (numbuckets (fst s))) (\<lambda>_ _ k. same_insensitive name k)"

definition Hash_GetInsensitiveBucket :: "hstate \<Rightarrow> byte list \<Rightarrow> ptr run" where
  "Hash_GetInsensitiveBucket s name =
     run_bind (head_of (fst s) (Hash_KeyInsensitive name (numbuckets (fst s))))
       (scan (snd s) (\<lambda>_ _ k. same_insensitive name k))"

definition Hash_GetKey :: "hstate \<Rightarrow> int32 \<Rightarrow> ptr run" where
  "Hash_GetKey s key = get_by s (umod key (numbuckets (fst s))) (\<lambda>_ _ k. same_value key k)"

definition Hash_GetNextKey :: "hstate \<Rightarrow> int32 \<Rightarrow> ptr \<Rightarrow> ptr run" where
  "Hash_GetNextKey s key old =
     get_next_by s (umod key (numbuckets (fst s))) (\<lambda>_ _ k. same_value key k) old"

definition Hash_GetNext :: "hstate \<Rightarrow> byte list \<Rightarrow> ptr \<Rightarrow> ptr run" where
  "Hash_GetNext s name old =
     get_next_by s (Hash_Key name (numbuckets (fst s))) (\<lambda>_ _ k. same_string name k) old"

definition Hash_GetNextInsensitive :: "hstate \<Rightarrow> byte list \<Rightarrow> ptr \<Rightarrow> ptr run" where
  "Hash_GetNextInsensitive s name old =
     get_next_by s (Hash_KeyInsensitive name (numbuckets (fst s))) (\<lambda>_ _ k. same_insensitive name k) old"

text \<open>
  \<open>Hash_GetIdx\<close>: the inner loop returns the data it found (\<open>Inl\<close>) or the count that is left;
  \<open>idx\<close> is unsigned and the test \<open>!idx--\<close> comes before the decrement.
\<close>

partial_function (option) idx_loop :: "heap \<Rightarrow> int32 \<Rightarrow> ptr \<Rightarrow> (ptr + int32) run" where
  "idx_loop h idx p =
     (if p = NULL then Some (Inr (Inr idx))
      else (case h p of
              None \<Rightarrow> Some (Inl Out_Of_Bounds)
            | Some b \<Rightarrow> if idx = 0 then Some (Inr (Inl (bk_data b)))
                        else idx_loop h (idx - 1) (bk_next b)))"

fun idx_buckets :: "hstate \<Rightarrow> nat list \<Rightarrow> int32 \<Rightarrow> ptr run" where
  "idx_buckets s [] idx = Some (Inr NULL)"
| "idx_buckets s (n # ns) idx =
     run_bind (Some (peek (bucket (fst s)) n)) (\<lambda>p.
     run_bind (idx_loop (snd s) idx p) (\<lambda>r.
       case r of Inl d \<Rightarrow> Some (Inr d) | Inr idx \<Rightarrow> idx_buckets s ns idx))"

definition Hash_GetIdx :: "hstate \<Rightarrow> int32 \<Rightarrow> ptr run" where
  "Hash_GetIdx s idx = idx_buckets s [0..<unat (numbuckets (fst s))] idx"

text \<open>
  \<open>Hash_Enumerate\<close>: the callback is a function of its data and of everything it may change, the
  table, the store and its own context; the loop has read \<open>next\<close> before it calls it.
\<close>

partial_function (option) enum_loop ::
  "(ptr \<Rightarrow> hstate \<times> 'c \<Rightarrow> (hstate \<times> 'c) res) \<Rightarrow> ptr \<Rightarrow> hstate \<times> 'c \<Rightarrow> (hstate \<times> 'c) run" where
  "enum_loop callback p sc =
     (if p = NULL then Some (Inr sc)
      else (case snd (fst sc) p of
              None \<Rightarrow> Some (Inl Out_Of_Bounds)
            | Some b \<Rightarrow> (case callback (bk_data b) sc of
                 Inl e \<Rightarrow> Some (Inl e)
               | Inr sc' \<Rightarrow> enum_loop callback (bk_next b) sc')))"

partial_function (option) enum_buckets ::
  "(ptr \<Rightarrow> hstate \<times> 'c \<Rightarrow> (hstate \<times> 'c) res) \<Rightarrow> nat \<Rightarrow> hstate \<times> 'c \<Rightarrow> (hstate \<times> 'c) run" where
  "enum_buckets callback n sc =
     (if n < unat (numbuckets (fst (fst sc))) then
        (case peek (bucket (fst (fst sc))) n of
           Inl e \<Rightarrow> Some (Inl e)
         | Inr p \<Rightarrow> (case enum_loop callback p sc of
              None \<Rightarrow> None
            | Some (Inl e) \<Rightarrow> Some (Inl e)
            | Some (Inr sc') \<Rightarrow> enum_buckets callback (n + 1) sc'))
      else Some (Inr sc))"

definition Hash_Enumerate ::
  "(ptr \<Rightarrow> hstate \<times> 'c \<Rightarrow> (hstate \<times> 'c) res) \<Rightarrow> hstate \<times> 'c \<Rightarrow> (hstate \<times> 'c) run" where
  "Hash_Enumerate callback sc = enum_buckets callback 0 sc"

section \<open>Adding\<close>

definition link_in :: "hstate \<Rightarrow> int32 res \<Rightarrow> hkey \<Rightarrow> ptr \<Rightarrow> ptr \<Rightarrow> hstate res" where
  "link_in s bucknum key dat buck =
     rbind bucknum (\<lambda>n.
     rbind (deref (snd s) buck) (\<lambda>b.
     rbind (peek (bucket (fst s)) (unat n)) (\<lambda>hd.
     rbind (poke (unat n) buck (bucket (fst s))) (\<lambda>bs.
       Inr ((fst s)\<lparr>bucket := bs\<rparr>,
            (snd s)(buck \<mapsto> b\<lparr>bk_data := dat, bk_key := key, bk_next := hd\<rparr>))))))"

definition Hash_Add :: "hstate \<Rightarrow> byte list \<Rightarrow> ptr \<Rightarrow> ptr \<Rightarrow> hstate res" where
  "Hash_Add s name dat buck = link_in s (Hash_Key name (numbuckets (fst s))) (KString name) dat buck"

definition Hash_AddInsensitive :: "hstate \<Rightarrow> byte list \<Rightarrow> ptr \<Rightarrow> ptr \<Rightarrow> hstate res" where
  "Hash_AddInsensitive s name dat buck =
     link_in s (Hash_KeyInsensitive name (numbuckets (fst s))) (KString name) dat buck"

definition Hash_AddKey :: "hstate \<Rightarrow> int32 \<Rightarrow> ptr \<Rightarrow> ptr \<Rightarrow> hstate res" where
  "Hash_AddKey s key dat buck = link_in s (umod key (numbuckets (fst s))) (KValue key) dat buck"

section \<open>Removing\<close>

text \<open>A \<open>bucket_t **link\<close> points into the table's array or at the \<open>next\<close> field of a bucket.\<close>

datatype link = Head nat | Next ptr

definition read_link :: "hstate \<Rightarrow> link \<Rightarrow> ptr res" where
  "read_link s l = (case l of
     Head i \<Rightarrow> peek (bucket (fst s)) i
   | Next p \<Rightarrow> rbind (deref (snd s) p) (\<lambda>b. Inr (bk_next b)))"

definition write_link :: "hstate \<Rightarrow> link \<Rightarrow> ptr \<Rightarrow> hstate res" where
  "write_link s l v = (case l of
     Head i \<Rightarrow> rbind (poke i v (bucket (fst s))) (\<lambda>bs. Inr ((fst s)\<lparr>bucket := bs\<rparr>, snd s))
   | Next p \<Rightarrow> rbind (deref (snd s) p) (\<lambda>b. Inr (fst s, (snd s)(p \<mapsto> b\<lparr>bk_next := v\<rparr>))))"

text \<open>\<open>for (link = ...; *link; link = &(*link)->next) if (test) { *link = buck->next; return; }\<close>\<close>

partial_function (option) unlink_loop :: "hstate \<Rightarrow> test \<Rightarrow> link \<Rightarrow> hstate run" where
  "unlink_loop s P l =
     (case read_link s l of
        Inl e \<Rightarrow> Some (Inl e)
      | Inr p \<Rightarrow>
          if p = NULL then Some (Inr s)
          else (case snd s p of
                  None \<Rightarrow> Some (Inl Out_Of_Bounds)
                | Some b \<Rightarrow> if P p (bk_data b) (bk_key b) then Some (write_link s l (bk_next b))
                            else unlink_loop s P (Next p)))"

definition unlink_by :: "hstate \<Rightarrow> int32 res \<Rightarrow> test \<Rightarrow> hstate run" where
  "unlink_by s bucknum P = run_bind (Some bucknum) (\<lambda>n. unlink_loop s P (Head (unat n)))"

definition Hash_RemoveDataInsensitive :: "hstate \<Rightarrow> byte list \<Rightarrow> ptr \<Rightarrow> hstate run" where
  "Hash_RemoveDataInsensitive s name dat =
     unlink_by s (Hash_KeyInsensitive name (numbuckets (fst s)))
       (\<lambda>_ d k. d = dat \<and> same_insensitive name k)"

definition Hash_RemoveData :: "hstate \<Rightarrow> byte list \<Rightarrow> ptr \<Rightarrow> hstate run" where
  "Hash_RemoveData s name dat =
     unlink_by s (Hash_Key name (numbuckets (fst s))) (\<lambda>_ d k. d = dat \<and> same_insensitive name k)"

definition Hash_RemoveBucket :: "hstate \<Rightarrow> byte list \<Rightarrow> ptr \<Rightarrow> hstate run" where
  "Hash_RemoveBucket s name dat =
     unlink_by s (Hash_Key name (numbuckets (fst s))) (\<lambda>p _ k. p = dat \<and> same_insensitive name k)"

definition Hash_RemoveDataKey :: "hstate \<Rightarrow> int32 \<Rightarrow> ptr \<Rightarrow> hstate run" where
  "Hash_RemoveDataKey s key dat =
     unlink_by s (umod key (numbuckets (fst s))) (\<lambda>_ d k. d = dat \<and> same_value key k)"

text \<open>
  \<open>Hash_Remove\<close> and \<open>Hash_RemoveKey\<close> read the first bucket before they test that there is one.
\<close>

partial_function (option) remove_after :: "hstate \<Rightarrow> test \<Rightarrow> ptr \<Rightarrow> hstate run" where
  "remove_after s P buck =
     (case deref (snd s) buck of
        Inl e \<Rightarrow> Some (Inl e)
      | Inr b \<Rightarrow>
          if bk_next b = NULL then Some (Inr s)
          else (case deref (snd s) (bk_next b) of
                  Inl e \<Rightarrow> Some (Inl e)
                | Inr n \<Rightarrow> if P (bk_next b) (bk_data n) (bk_key n)
                           then Some (write_link s (Next buck) (bk_next n))
                           else remove_after s P (bk_next b)))"

definition remove_by :: "hstate \<Rightarrow> int32 res \<Rightarrow> test \<Rightarrow> hstate run" where
  "remove_by s bucknum P =
     run_bind (Some bucknum) (\<lambda>n.
     run_bind (Some (peek (bucket (fst s)) (unat n))) (\<lambda>p.
     run_bind (Some (deref (snd s) p)) (\<lambda>b.
       if P p (bk_data b) (bk_key b) then Some (write_link s (Head (unat n)) (bk_next b))
       else remove_after s P p)))"

definition Hash_Remove :: "hstate \<Rightarrow> byte list \<Rightarrow> hstate run" where
  "Hash_Remove s name =
     remove_by s (Hash_Key name (numbuckets (fst s))) (\<lambda>_ _ k. same_string name k)"

definition Hash_RemoveKey :: "hstate \<Rightarrow> int32 \<Rightarrow> hstate run" where
  "Hash_RemoveKey s key =
     remove_by s (umod key (numbuckets (fst s))) (\<lambda>_ _ k. same_value key k)"

end
