(* ===== verification/HashSpec.thy ===== *)
theory HashSpec
  imports HashTable
begin

text \<open>
  What a hash table promises.  A chain in the store is a list of entries (address, data, key); the
  relation \<open>hash_rel\<close> says which list of chains a table and a store hold.  Each operation is
  shown to act on the chains as a function on lists, and the interface \<open>shadow_map\<close> (the newest
  data added under a key hides the older ones until it is removed) is interpreted on the
  case-sensitive, the case-insensitive and the numeric functions of the table.
\<close>

type_synonym entry = "ptr \<times> ptr \<times> hkey"

abbreviation e_addr :: "entry \<Rightarrow> ptr" where "e_addr e \<equiv> fst e"
abbreviation e_data :: "entry \<Rightarrow> ptr" where "e_data e \<equiv> fst (snd e)"
abbreviation e_key :: "entry \<Rightarrow> hkey" where "e_key e \<equiv> snd (snd e)"

definition holds :: "test \<Rightarrow> entry \<Rightarrow> bool" where
  "holds P e = P (e_addr e) (e_data e) (e_key e)"

fun chain :: "heap \<Rightarrow> entry list \<Rightarrow> ptr \<Rightarrow> bool" where
  "chain h [] p = (p = NULL)"
| "chain h (e # es) p =
     (p = e_addr e \<and> p \<noteq> NULL \<and>
      (case h p of
         None \<Rightarrow> False
       | Some b \<Rightarrow> bk_data b = e_data e \<and> bk_key b = e_key e \<and> chain h es (bk_next b)))"

definition hash_rel :: "hstate \<Rightarrow> entry list list \<Rightarrow> bool" where
  "hash_rel s chs \<longleftrightarrow> numbuckets (fst s) \<noteq> 0 \<and>
     length (bucket (fst s)) = unat (numbuckets (fst s)) \<and>
     list_all2 (chain (snd s)) chs (bucket (fst s)) \<and>
     distinct (map e_addr (concat chs))"

fun rem_first :: "('a \<Rightarrow> bool) \<Rightarrow> 'a list \<Rightarrow> 'a list" where
  "rem_first P [] = []"
| "rem_first P (x # xs) = (if P x then xs else x # rem_first P xs)"

lemma rem_first_set: "set (rem_first P xs) \<subseteq> set xs"
  by (induction xs) auto

lemma rem_first_map_distinct: "distinct (map f xs) \<Longrightarrow> distinct (map f (rem_first P xs))"
  by (induction xs) (use rem_first_set in fastforce)+

lemma rem_first_none: "\<forall>x \<in> set xs. \<not> P x \<Longrightarrow> rem_first P xs = xs"
  by (induction xs) auto

lemma filter_rem_first:
  "\<forall>x \<in> set xs. P x \<longrightarrow> Q x = q \<Longrightarrow>
   filter Q (rem_first P xs) = (if q then rem_first P (filter Q xs) else filter Q xs)"
  by (induction xs) auto

lemma map_rem_first_remove1:
  "\<forall>x \<in> set xs. P x = (f x = d) \<Longrightarrow> map f (rem_first P xs) = remove1 d (map f xs)"
  by (induction xs) auto

section \<open>Chains\<close>

lemma chain_cong: "\<forall>e \<in> set es. h' (e_addr e) = h (e_addr e) \<Longrightarrow> chain h' es p = chain h es p"
  by (induction es arbitrary: p) (auto split: option.splits)

lemma chain_upd_other: "a \<notin> e_addr ` set es \<Longrightarrow> chain (h(a := v)) es p = chain h es p"
  by (rule chain_cong) auto

lemma chain_scan:
  "chain h es p \<Longrightarrow>
   scan h P p = Some (Inr (case find (holds P) es of None \<Rightarrow> NULL | Some e \<Rightarrow> e_addr e))"
proof (induction es arbitrary: p)
  case (Cons e es)
  then obtain b where "h p = Some b" "bk_data b = e_data e" "bk_key b = e_key e" "chain h es (bk_next b)"
    "p = e_addr e" "p \<noteq> NULL"
    by (auto split: option.splits)
  with Cons.IH [of "bk_next b"] show ?case
    by (subst scan.simps) (simp add: holds_def [of P e])
qed (simp add: scan.simps)

lemma chain_member:
  "chain h es p \<Longrightarrow> e \<in> set es \<Longrightarrow>
   e_addr e \<noteq> NULL \<and> (\<exists>b. h (e_addr e) = Some b \<and> bk_data b = e_data e \<and> bk_key b = e_key e)"
proof (induction es arbitrary: p)
  case (Cons f es)
  then show ?case by (cases "e = f") (auto split: option.splits)
qed simp

lemma chain_data:
  "chain h es p \<Longrightarrow> e \<in> set es \<Longrightarrow> e_addr e \<noteq> NULL \<and> data_at h (e_addr e) = Some (Inr (e_data e))"
  using chain_member [of h es p e] by (auto simp: data_at_def deref_def)

lemma chain_lookup:
  assumes "chain h es p"
  shows "run_bind (scan h P p) (data_at h) =
    Some (Inr (case find (holds P) es of None \<Rightarrow> NULL | Some e \<Rightarrow> e_data e))"
proof (cases "find (holds P) es")
  case (Some e)
  then have "e \<in> set es" by (auto simp: find_Some_iff)
  with chain_data [OF assms] chain_scan [OF assms, of P] Some show ?thesis by simp
qed (use chain_scan [OF assms, of P] in \<open>simp add: data_at_def\<close>)

text \<open>The chain from the successor of an entry on.\<close>

lemma chain_suffix:
  "chain h (pre @ e # post) p \<Longrightarrow>
   \<exists>b. h (e_addr e) = Some b \<and> e_addr e \<noteq> NULL \<and> chain h post (bk_next b)"
  by (induction pre arbitrary: p) (auto split: option.splits)

lemma unlink_next:
  "chain (snd s) (e # es) p \<Longrightarrow> distinct (map e_addr (e # es)) \<Longrightarrow>
   \<exists>h. unlink_loop s P (Next (e_addr e)) = Some (Inr (fst s, h)) \<and>
       chain h (e # rem_first (holds P) es) p \<and>
       (\<forall>a. a \<notin> e_addr ` set (e # es) \<longrightarrow> h a = snd s a)"
proof (induction es arbitrary: e p)
  case Nil
  then show ?case
    by (intro exI [of _ "snd s"], subst unlink_loop.simps)
      (auto simp: read_link_def deref_def split: option.splits)
next
  case (Cons f es)
  then obtain b c where b: "snd s (e_addr e) = Some b" "e_addr e \<noteq> NULL" "p = e_addr e"
      "bk_data b = e_data e" "bk_key b = e_key e" "bk_next b = e_addr f"
    and c: "snd s (e_addr f) = Some c" "e_addr f \<noteq> NULL" "bk_data c = e_data f" "bk_key c = e_key f"
      "chain (snd s) es (bk_next c)"
    by (auto split: option.splits)
  have step: "unlink_loop s P (Next (e_addr e)) =
      (if holds P f then Some (write_link s (Next (e_addr e)) (bk_next c))
       else unlink_loop s P (Next (e_addr f)))"
    using b c by (subst unlink_loop.simps) (simp add: read_link_def deref_def holds_def)
  show ?case
  proof (cases "holds P f")
    case True
    let ?h = "(snd s)(e_addr e \<mapsto> b\<lparr>bk_next := bk_next c\<rparr>)"
    have "write_link s (Next (e_addr e)) (bk_next c) = Inr (fst s, ?h)"
      using b by (simp add: write_link_def deref_def)
    moreover have "chain ?h (e # es) p"
      using b c Cons.prems(2) by (simp add: chain_upd_other)
    moreover have "\<forall>a. a \<notin> e_addr ` set (e # f # es) \<longrightarrow> ?h a = snd s a" by simp
    ultimately have "unlink_loop s P (Next (e_addr e)) = Some (Inr (fst s, ?h)) \<and>
        chain ?h (e # rem_first (holds P) (f # es)) p \<and>
        (\<forall>a. a \<notin> e_addr ` set (e # f # es) \<longrightarrow> ?h a = snd s a)"
      using step True by (simp only: if_True rem_first.simps simp_thms)
    then show ?thesis by blast
  next
    case False
    have "chain (snd s) (f # es) (e_addr f)" using c by simp
    from Cons.IH [OF this] Cons.prems(2) obtain h where h:
      "unlink_loop s P (Next (e_addr f)) = Some (Inr (fst s, h))"
      "chain h (f # rem_first (holds P) es) (e_addr f)"
      "\<forall>a. a \<notin> e_addr ` set (f # es) \<longrightarrow> h a = snd s a" by auto
    have "h (e_addr e) = Some b" using h(3) b Cons.prems(2) by auto
    then have "chain h (e # rem_first (holds P) (f # es)) p"
      using h(2) b False by simp
    with h step False show ?thesis by (intro exI [of _ h]) auto
  qed
qed

section \<open>The table\<close>

lemma hash_relD:
  assumes "hash_rel s chs"
  shows "length chs = unat (numbuckets (fst s))" "length (bucket (fst s)) = length chs"
    "numbuckets (fst s) \<noteq> 0"
    "\<And>i. i < length chs \<Longrightarrow> chain (snd s) (chs ! i) (bucket (fst s) ! i)"
    "distinct (map e_addr (concat chs))"
  using assms list_all2_lengthD [of "chain (snd s)" chs "bucket (fst s)"]
  by (auto simp: hash_rel_def list_all2_nthD)

lemma hash_relI:
  assumes "length chs = unat (numbuckets (fst s))" "length (bucket (fst s)) = length chs"
    "numbuckets (fst s) \<noteq> 0"
    "\<And>i. i < length chs \<Longrightarrow> chain (snd s) (chs ! i) (bucket (fst s) ! i)"
    "distinct (map e_addr (concat chs))"
  shows "hash_rel s chs"
  using assms by (auto simp: hash_rel_def list_all2_all_nthI)

lemma umod_lt: "umod k m = Inr n \<Longrightarrow> unat n < unat m"
  by (auto simp: umod_def unat_mod unat_gt_0 split: if_splits)

lemma umod_total: "m \<noteq> 0 \<Longrightarrow> \<exists>n. umod k m = Inr n"
  by (simp add: umod_def)

lemma concat_split:
  "i < length chs \<Longrightarrow> concat chs = concat (take i chs) @ chs ! i @ concat (drop (Suc i) chs)"
  by (metis append_take_drop_id concat_append concat.simps(2) Cons_nth_drop_Suc)

lemma concat_update:
  "i < length chs \<Longrightarrow> concat (chs[i := es]) = concat (take i chs) @ es @ concat (drop (Suc i) chs)"
  by (simp add: upd_conv_take_nth_drop)

lemma chains_disjoint:
  assumes "distinct (map e_addr (concat chs))" and "i < length chs" and "j < length chs" and "i \<noteq> j"
  shows "e_addr ` set (chs ! i) \<inter> e_addr ` set (chs ! j) = {}"
proof -
  have "chs ! j \<in> set (take i chs) \<union> set (drop (Suc i) chs)"
  proof (cases "j < i")
    case True
    then show ?thesis using assms(2,3) by (auto simp: in_set_conv_nth)
  next
    case False
    then have "drop (Suc i) chs ! (j - Suc i) = chs ! j" "j - Suc i < length (drop (Suc i) chs)"
      using assms(2-4) by auto
    then show ?thesis by (metis UnI2 nth_mem)
  qed
  then have "set (chs ! j) \<subseteq> set (concat (take i chs)) \<union> set (concat (drop (Suc i) chs))" by auto
  then have "e_addr ` set (chs ! j) \<subseteq>
      set (map e_addr (concat (take i chs))) \<union> set (map e_addr (concat (drop (Suc i) chs)))"
    by (auto simp del: set_concat)
  moreover have "set (map e_addr (chs ! i)) \<inter>
      (set (map e_addr (concat (take i chs))) \<union> set (map e_addr (concat (drop (Suc i) chs)))) = {}"
    using assms(1) [unfolded concat_split [OF assms(2)] map_append]
    by (simp only: distinct_append set_append) blast
  ultimately show ?thesis by (simp only: set_map) blast
qed

lemma other_chain:
  assumes "x \<in> set (concat (take i chs) @ concat (drop (Suc i) chs))" and "i < length chs"
  shows "\<exists>j < length chs. j \<noteq> i \<and> x \<in> set (chs ! j)"
proof -
  from assms(1) consider es where "es \<in> set (take i chs)" "x \<in> set es"
    | es where "es \<in> set (drop (Suc i) chs)" "x \<in> set es" by auto
  then show ?thesis
  proof cases
    case 1
    then obtain j where "j < i" "chs ! j = es" using assms(2) by (auto simp: in_set_conv_nth)
    with 1 assms(2) show ?thesis by (intro exI [of _ j]) simp
  next
    case 2
    then obtain j where j: "j < length (drop (Suc i) chs)" "drop (Suc i) chs ! j = es"
      by (auto simp only: in_set_conv_nth)
    then have "chs ! (Suc i + j) = es" "Suc i + j < length chs" using assms(2) by simp_all
    with 2 show ?thesis by (intro exI [of _ "Suc i + j"]) simp
  qed
qed

lemma distinct_replace:
  "A \<inter> (set xs \<union> set ys) = {} \<Longrightarrow> set es \<subseteq> A \<union> set cs \<Longrightarrow> distinct (xs @ cs @ ys) \<Longrightarrow>
   distinct es \<Longrightarrow> distinct (xs @ es @ ys)"
  by auto

text \<open>Replacing the chain of one bucket, the store changing only inside that chain.\<close>

lemma hash_rel_update:
  assumes rel: "hash_rel (t, h) chs" and i: "i < length chs"
    and chain: "chain h' es p"
    and frame: "\<And>a. a \<notin> e_addr ` set (chs ! i) \<Longrightarrow> a \<notin> A \<Longrightarrow> h' a = h a"
    and fresh: "\<And>j. j < length chs \<Longrightarrow> j \<noteq> i \<Longrightarrow> A \<inter> e_addr ` set (chs ! j) = {}"
    and dist: "distinct (map e_addr es)"
    and sub: "e_addr ` set es \<subseteq> A \<union> e_addr ` set (chs ! i)"
  shows "hash_rel (t\<lparr>bucket := (bucket t)[i := p]\<rparr>, h') (chs[i := es])"
proof (rule hash_relI)
  note D = hash_relD [OF rel, unfolded fst_conv snd_conv]
  show "numbuckets (fst (t\<lparr>bucket := (bucket t)[i := p]\<rparr>, h')) \<noteq> 0" using D by simp
  show "length (chs[i := es]) = unat (numbuckets (fst (t\<lparr>bucket := (bucket t)[i := p]\<rparr>, h')))"
    and "length (bucket (fst (t\<lparr>bucket := (bucket t)[i := p]\<rparr>, h'))) = length (chs[i := es])"
    using D by auto
  fix j assume "j < length (chs[i := es])"
  then have j: "j < length chs" by simp
  show "chain (snd (t\<lparr>bucket := (bucket t)[i := p]\<rparr>, h')) (chs[i := es] ! j)
      (bucket (fst (t\<lparr>bucket := (bucket t)[i := p]\<rparr>, h')) ! j)"
  proof (cases "j = i")
    case True
    then show ?thesis using chain i D(2) by simp
  next
    case False
    have "e_addr ` set (chs ! i) \<inter> e_addr ` set (chs ! j) = {}"
      using chains_disjoint [OF D(5) i j] False by simp
    then have "\<forall>e \<in> set (chs ! j). h' (e_addr e) = h (e_addr e)"
      using frame fresh [OF j False] by blast
    from chain_cong [OF this] show ?thesis using D(4) [OF j] False by simp
  qed
next
  note D = hash_relD [OF rel, unfolded fst_conv snd_conv]
  have "A \<inter> e_addr ` set (concat (take i chs) @ concat (drop (Suc i) chs)) = {}"
    using fresh other_chain [OF _ i] by blast
  then have disj: "A \<inter> (set (map e_addr (concat (take i chs))) \<union>
      set (map e_addr (concat (drop (Suc i) chs)))) = {}"
    by (simp only: set_map set_append image_Un)
  have "set (map e_addr es) \<subseteq> A \<union> set (map e_addr (chs ! i))"
    using sub by simp
  note distinct_replace [OF disj this D(5) [unfolded concat_split [OF i] map_append] dist]
  then show "distinct (map e_addr (concat (chs[i := es])))"
    by (simp only: concat_update [OF i] map_append)
qed

section \<open>The operations on the chains\<close>

abbreviation slots :: "hstate \<Rightarrow> int32" where "slots s \<equiv> numbuckets (fst s)"

lemma unlink_head:
  assumes rel: "hash_rel s chs" and i: "i < length chs"
  shows "\<exists>s'. unlink_loop s P (Head i) = Some (Inr s') \<and> slots s' = slots s \<and>
    hash_rel s' (chs[i := rem_first (holds P) (chs ! i)])"
proof -
  obtain t h where s: "s = (t, h)" by (cases s)
  note D = hash_relD [OF rel, unfolded s fst_conv snd_conv]
  have ib: "i < length (bucket t)" using D(2) i by simp
  have rl: "read_link s (Head i) = Inr (bucket t ! i)" using ib s by (simp add: read_link_def)
  have same: "t\<lparr>bucket := (bucket t)[i := bucket t ! i]\<rparr> = t" by simp
  show ?thesis
  proof (cases "chs ! i")
    case Nil
    then have "bucket t ! i = NULL" using D(4) [OF i] by simp
    with rl have "unlink_loop s P (Head i) = Some (Inr s)"
      by (subst unlink_loop.simps) simp
    moreover have "chs[i := []] = chs" using Nil by (metis list_update_id)
    ultimately show ?thesis using rel Nil by simp
  next
    case (Cons e es)
    have ch: "chain h (e # es) (bucket t ! i)" using D(4) [OF i] by (simp only: Cons)
    then obtain b where b: "h (e_addr e) = Some b" "e_addr e \<noteq> NULL" "bucket t ! i = e_addr e"
      "bk_data b = e_data e" "bk_key b = e_key e" "chain h es (bk_next b)"
      by (auto split: option.splits)
    have dist: "distinct (map e_addr (e # es))"
      using D(5) i unfolding concat_split [OF i] Cons by simp
    have step: "unlink_loop s P (Head i) =
        (if holds P e then Some (write_link s (Head i) (bk_next b))
         else unlink_loop s P (Next (e_addr e)))"
      using rl b s by (subst unlink_loop.simps) (simp add: holds_def)
    show ?thesis
    proof (cases "holds P e")
      case True
      let ?s = "(t\<lparr>bucket := (bucket t)[i := bk_next b]\<rparr>, h)"
      have "write_link s (Head i) (bk_next b) = Inr ?s"
        using s ib by (simp add: write_link_def)
      moreover have "hash_rel ?s (chs[i := es])"
        using rel [unfolded s] i b(6)
        by (rule hash_rel_update [where A = "{}"]) (use dist Cons in auto)
      ultimately show ?thesis using step True Cons s by (intro exI [of _ ?s]) simp
    next
      case False
      from unlink_next [of s e es "bucket t ! i" P] ch dist s obtain h' where h':
        "unlink_loop s P (Next (e_addr e)) = Some (Inr (t, h'))"
        "chain h' (e # rem_first (holds P) es) (bucket t ! i)"
        "\<forall>a. a \<notin> e_addr ` set (e # es) \<longrightarrow> h' a = h a" by auto
      have "hash_rel (t\<lparr>bucket := (bucket t)[i := bucket t ! i]\<rparr>, h')
          (chs[i := e # rem_first (holds P) es])"
        using rel [unfolded s] i h'(2)
      proof (rule hash_rel_update [where A = "{}"])
        show "distinct (map e_addr (e # rem_first (holds P) es))"
          using rem_first_map_distinct [of e_addr "e # es" "holds P"] dist False by simp
        show "e_addr ` set (e # rem_first (holds P) es) \<subseteq> {} \<union> e_addr ` set (chs ! i)"
          using rem_first_set [of "holds P" es] Cons by auto
      qed (use h'(3) Cons in auto)
      then show ?thesis
        using step False Cons h'(1) s unfolding same by (intro exI [of _ "(t, h')"]) simp
    qed
  qed
qed

lemma unlink_by_rel:
  assumes "hash_rel s chs" and "n = Inr i" and "unat i < length chs"
  shows "\<exists>s'. unlink_by s n P = Some (Inr s') \<and> slots s' = slots s \<and>
    hash_rel s' (chs[unat i := rem_first (holds P) (chs ! unat i)])"
  using unlink_head [OF assms(1,3)] assms(2) by (simp add: unlink_by_def)

lemma link_in_rel:
  assumes rel: "hash_rel s chs" and n: "n = Inr i" "unat i < length chs"
    and fresh: "snd s b \<noteq> None" "b \<noteq> NULL" "b \<notin> e_addr ` set (concat chs)"
  shows "\<exists>s'. link_in s n k d b = Inr s' \<and> slots s' = slots s \<and>
    hash_rel s' (chs[unat i := (b, d, k) # chs ! unat i])"
proof -
  obtain t h where s: "s = (t, h)" by (cases s)
  note D = hash_relD [OF rel, unfolded s fst_conv snd_conv]
  obtain c where c: "h b = Some c" using fresh(1) s by auto
  let ?i = "unat i"
  let ?h = "h(b \<mapsto> c\<lparr>bk_data := d, bk_key := k, bk_next := bucket t ! ?i\<rparr>)"
  let ?s = "(t\<lparr>bucket := (bucket t)[?i := b]\<rparr>, ?h)"
  have "link_in s n k d b = Inr ?s"
    using n s c fresh(2) D(2) by (simp add: link_in_def deref_def)
  moreover have "hash_rel ?s (chs[?i := (b, d, k) # chs ! ?i])"
  proof (rule hash_rel_update [where A = "{b}"])
    show "hash_rel (t, h) chs" using rel s by simp
    show "?i < length chs" by (rule n(2))
    have b: "b \<notin> e_addr ` set (chs ! j)" if "j < length chs" for j
    proof -
      have "set (chs ! j) \<subseteq> set (concat chs)" using nth_mem [OF that] by auto
      with fresh(3) show ?thesis by blast
    qed
    show "chain ?h ((b, d, k) # chs ! ?i) b"
      using D(4) [OF n(2)] b [OF n(2)] fresh(2) chain_upd_other [of b "chs ! ?i" h] by simp
    show "\<And>j. j < length chs \<Longrightarrow> j \<noteq> ?i \<Longrightarrow> {b} \<inter> e_addr ` set (chs ! j) = {}"
      using b by blast
    have "distinct (map e_addr (chs ! ?i))"
      using D(5) unfolding concat_split [OF n(2)] by simp
    then show "distinct (map e_addr ((b, d, k) # chs ! ?i))"
      using b [OF n(2)] by simp
  qed auto
  ultimately show ?thesis using s by (intro exI [of _ ?s]) simp
qed

lemma get_by_rel:
  assumes "hash_rel s chs" and "n = Inr i" and "unat i < length chs"
  shows "get_by s n P =
    Some (Inr (case find (holds P) (chs ! unat i) of None \<Rightarrow> NULL | Some e \<Rightarrow> e_data e))"
  using assms hash_relD [OF assms(1)] chain_lookup [of "snd s" "chs ! unat i" _ P]
  by (simp add: get_by_def head_of_def)

lemma get_next_by_rel:
  assumes "hash_rel s chs" and "n = Inr i" and "unat i < length chs"
    and "chs ! unat i = pre @ e # post" and "e_data e = old" and "\<forall>f \<in> set pre. e_data f \<noteq> old"
  shows "get_next_by s n P old =
    Some (Inr (case find (holds P) post of None \<Rightarrow> NULL | Some f \<Rightarrow> e_data f))"
proof -
  let ?p = "bucket (fst s) ! unat i"
  have ch: "chain (snd s) (pre @ e # post) ?p" using hash_relD(4) [OF assms(1,3)] assms(4) by simp
  have "find (holds (\<lambda>_ d _. d = old)) (pre @ e # post) = Some e"
    using assms(5,6) by (induction pre) (auto simp: holds_def)
  then have "scan (snd s) (\<lambda>_ d _. d = old) ?p = Some (Inr (e_addr e))"
    using chain_scan [OF ch, of "\<lambda>_ d _. d = old"] by simp
  moreover obtain b where b: "snd s (e_addr e) = Some b" "e_addr e \<noteq> NULL" "chain (snd s) post (bk_next b)"
    using chain_suffix [OF ch] by auto
  ultimately show ?thesis
    using assms(1-3) hash_relD(2) [OF assms(1)] chain_lookup [OF b(3), of P]
    by (simp add: get_next_by_def head_of_def deref_def)
qed

text \<open>The \<open>Hash_Remove\<close> loop is the \<open>link\<close> loop from the second bucket on.\<close>

lemma remove_after_unlink:
  "chain (snd s) (e # es) p \<Longrightarrow> remove_after s P (e_addr e) = unlink_loop s P (Next (e_addr e))"
proof (induction es arbitrary: e p)
  case Nil
  then show ?case
    by (subst remove_after.simps, subst unlink_loop.simps)
      (auto simp: read_link_def deref_def split: option.splits)
next
  case (Cons f es)
  then obtain b c where b: "snd s (e_addr e) = Some b" "e_addr e \<noteq> NULL" "bk_next b = e_addr f"
    and c: "snd s (e_addr f) = Some c" "e_addr f \<noteq> NULL" "chain (snd s) (f # es) (e_addr f)"
    by (auto split: option.splits)
  from b c(1,2) Cons.IH [OF c(3)] show ?case
    by (subst remove_after.simps, subst unlink_loop.simps) (simp add: read_link_def deref_def)
qed

lemma remove_by_rel:
  assumes "hash_rel s chs" and "n = Inr i" and "unat i < length chs" and "chs ! unat i \<noteq> []"
  shows "\<exists>s'. remove_by s n P = Some (Inr s') \<and> slots s' = slots s \<and>
    hash_rel s' (chs[unat i := rem_first (holds P) (chs ! unat i)])"
proof -
  let ?i = "unat i"
  obtain e es where es: "chs ! ?i = e # es" using assms(4) by (cases "chs ! ?i") auto
  have ch: "chain (snd s) (e # es) (bucket (fst s) ! ?i)"
    using hash_relD(4) [OF assms(1,3)] by (simp only: es)
  then obtain b where b: "snd s (e_addr e) = Some b" "e_addr e \<noteq> NULL" "bucket (fst s) ! ?i = e_addr e"
    by (auto split: option.splits)
  have ib: "?i < length (bucket (fst s))" using assms(3) hash_relD(2) [OF assms(1)] by simp
  have "unlink_loop s P (Head ?i) =
      (if P (e_addr e) (bk_data b) (bk_key b) then Some (write_link s (Head ?i) (bk_next b))
       else unlink_loop s P (Next (e_addr e)))"
    using b ib by (subst unlink_loop.simps) (simp add: read_link_def)
  then have "remove_by s n P = unlink_loop s P (Head ?i)"
    using b ib assms(2) remove_after_unlink [OF ch, of P] by (simp add: remove_by_def deref_def)
  with unlink_head [OF assms(1,3), of P] show ?thesis by simp
qed

lemma remove_by_empty:
  assumes "hash_rel s chs" and "n = Inr i" and "unat i < length chs" and "chs ! unat i = []"
  shows "remove_by s n P = Some (Inl Null_Deref)"
proof -
  have "bucket (fst s) ! unat i = NULL" using hash_relD(4) [OF assms(1,3)] by (simp add: assms(4))
  with assms hash_relD(2) [OF assms(1)] show ?thesis by (simp add: remove_by_def deref_def)
qed

section \<open>The interface\<close>

text \<open>
  \<open>vals a k\<close> is what a table with the chains \<open>a\<close> holds under \<open>k\<close>, the newest first; \<open>same\<close> is
  the table's equality of keys.
\<close>

locale shadow_map =
  fixes rel :: "'s \<Rightarrow> 'a \<Rightarrow> bool"
    and vals :: "'s \<Rightarrow> 'a \<Rightarrow> 'k \<Rightarrow> ptr list"
    and same :: "'k \<Rightarrow> 'k \<Rightarrow> bool"
    and fresh :: "ptr \<Rightarrow> 's \<Rightarrow> 'a \<Rightarrow> bool"
    and deletable :: "'s \<Rightarrow> 'a \<Rightarrow> 'k \<Rightarrow> ptr \<Rightarrow> bool"
    and get :: "'s \<Rightarrow> 'k \<Rightarrow> ptr run"
    and add :: "'s \<Rightarrow> 'k \<Rightarrow> ptr \<Rightarrow> ptr \<Rightarrow> 's res"
    and del :: "'s \<Rightarrow> 'k \<Rightarrow> ptr \<Rightarrow> 's run"
  assumes same_refl: "\<And>k. same k k"
    and get_law: "\<And>s a k. rel s a \<Longrightarrow>
      get s k = Some (Inr (case vals s a k of [] \<Rightarrow> NULL | d # _ \<Rightarrow> d))"
    and add_law: "\<And>s a b k d. rel s a \<Longrightarrow> fresh b s a \<Longrightarrow>
      \<exists>s' a'. add s k d b = Inr s' \<and> rel s' a' \<and>
        vals s' a' = (\<lambda>k'. if same k k' then d # vals s a k' else vals s a k')"
    and del_law: "\<And>s a k d. rel s a \<Longrightarrow> deletable s a k d \<Longrightarrow>
      \<exists>s' a'. del s k d = Some (Inr s') \<and> rel s' a' \<and>
        vals s' a' = (\<lambda>k'. if same k k' then remove1 d (vals s a k') else vals s a k')"
begin

lemma get_add:
  assumes "rel s a" and "fresh b s a"
  shows "\<exists>s'. add s k d b = Inr s' \<and>
    (\<forall>k'. get s' k' = (if same k k' then Some (Inr d) else get s k'))"
proof -
  obtain s' a' where s': "add s k d b = Inr s'" "rel s' a'"
    "vals s' a' = (\<lambda>k'. if same k k' then d # vals s a k' else vals s a k')"
    using add_law [OF assms, of k d] by blast
  then show ?thesis
    using get_law [OF s'(2)] get_law [OF assms(1)] by simp
qed

lemma del_restores:
  assumes "rel s a" and "rel s' a'" and "deletable s' a' k d"
    and "vals s' a' = (\<lambda>k'. if same k k' then d # vals s a k' else vals s a k')"
  shows "\<exists>s''. del s' k d = Some (Inr s'') \<and> (\<forall>k'. get s'' k' = get s k')"
proof -
  obtain s'' a'' where s'': "del s' k d = Some (Inr s'')" "rel s'' a''"
    "vals s'' a'' = (\<lambda>k'. if same k k' then remove1 d (vals s' a' k') else vals s' a' k')"
    using del_law [OF assms(2,3)] by blast
  then have "vals s'' a'' = vals s a" using assms(4) by (simp add: fun_eq_iff)
  then show ?thesis using s'' get_law [OF s''(2)] get_law [OF assms(1)] by simp
qed

end

section \<open>The three tables\<close>

definition slot :: "int32 res \<Rightarrow> nat" where
  "slot r = (case r of Inl _ \<Rightarrow> 0 | Inr n \<Rightarrow> unat n)"

definition vals_by :: "(int32 \<Rightarrow> 'k \<Rightarrow> int32 res) \<Rightarrow> ('k \<Rightarrow> hkey \<Rightarrow> bool) \<Rightarrow>
    hstate \<Rightarrow> entry list list \<Rightarrow> 'k \<Rightarrow> ptr list" where
  "vals_by hash match s chs k =
     map e_data (filter (\<lambda>e. match k (e_key e)) (chs ! slot (hash (slots s) k)))"

definition fresh_bucket :: "ptr \<Rightarrow> hstate \<Rightarrow> entry list list \<Rightarrow> bool" where
  "fresh_bucket b s chs \<longleftrightarrow> snd s b \<noteq> None \<and> b \<noteq> NULL \<and> b \<notin> e_addr ` set (concat chs)"

definition string_vals :: "hstate \<Rightarrow> entry list list \<Rightarrow> byte list \<Rightarrow> ptr list" where
  "string_vals = vals_by (\<lambda>m k. Hash_Key k m) same_string"

definition insensitive_vals :: "hstate \<Rightarrow> entry list list \<Rightarrow> byte list \<Rightarrow> ptr list" where
  "insensitive_vals = vals_by (\<lambda>m k. Hash_KeyInsensitive k m) same_insensitive"

definition value_vals :: "hstate \<Rightarrow> entry list list \<Rightarrow> int32 \<Rightarrow> ptr list" where
  "value_vals = vals_by (\<lambda>m k. umod k m) same_value"

definition same_name :: "byte list \<Rightarrow> byte list \<Rightarrow> bool" where
  "same_name a b \<longleftrightarrow> map lower a = map lower b"

text \<open>
  \<open>Hash_RemoveData\<close> compares names without case in the chain of the exact name: it takes out the
  right entry unless that chain has the same data under another spelling of the name.
\<close>

definition one_spelling :: "hstate \<Rightarrow> entry list list \<Rightarrow> byte list \<Rightarrow> ptr \<Rightarrow> bool" where
  "one_spelling s chs k d \<longleftrightarrow>
     (\<forall>e \<in> set (chs ! slot (Hash_Key k (slots s))).
        e_data e = d \<and> same_insensitive k (e_key e) \<longrightarrow> same_string k (e_key e))"

lemma fold_key_step_insensitive:
  "fold key_step_insensitive name key = fold key_step (map lower name) key"
proof (induction name arbitrary: key)
  case (Cons c name)
  have "key_step_insensitive c key = key_step (lower c) key"
  proof (cases "65 \<le> c \<and> c \<le> 90")
    case True
    then have c: "65 \<le> unat c" "unat c \<le> 90" by (simp_all add: word_le_nat_alt)
    then obtain n where n: "c = word_of_nat n" "65 \<le> n" "n \<le> 90"
      by (intro that [of "unat c"]) simp_all
    have "scast (c - 65 + 97) = (scast c - 65 + 97 :: int32)"
    proof -
      have "n \<in> {65..<91}" using n by simp
      moreover have "\<forall>n \<in> set [65..<91].
          scast ((word_of_nat n :: byte) - 65 + 97) = (scast (word_of_nat n :: byte) - 65 + 97 :: int32)"
        by code_simp
      ultimately have "scast ((word_of_nat n :: byte) - 65 + 97) = (scast (word_of_nat n :: byte) - 65 + 97 :: int32)"
        unfolding set_upt by blast
      then show ?thesis unfolding n(1) .
    qed
    with True show ?thesis by (simp add: key_step_insensitive_def key_step_def lower_def)
  qed (auto simp: key_step_insensitive_def key_step_def lower_def)
  with Cons show ?case by simp
qed simp

lemma Hash_KeyInsensitive_same:
  "same_name a b \<Longrightarrow> Hash_KeyInsensitive a m = Hash_KeyInsensitive b m"
  by (simp add: Hash_KeyInsensitive_def fold_key_step_insensitive same_name_def)

text \<open>One proof of the laws for any of the tables.\<close>

lemma find_filter: "(case find P xs of None \<Rightarrow> z | Some x \<Rightarrow> f x) =
    (case map f (filter P xs) of [] \<Rightarrow> z | y # _ \<Rightarrow> y)"
  by (induction xs) auto

lemma slot_bound:
  assumes "hash_rel s chs" and "\<And>m. m \<noteq> 0 \<Longrightarrow> \<exists>n. hash m k = Inr n \<and> unat n < unat m"
  obtains i where "hash (slots s) k = Inr i" "unat i < length chs" "slot (hash (slots s) k) = unat i"
  using assms(2) [of "slots s"] hash_relD [OF assms(1)] by (auto simp: slot_def)

lemma get_by_law:
  assumes "hash_rel s chs" and "\<And>m. m \<noteq> 0 \<Longrightarrow> \<exists>n. hash m k = Inr n \<and> unat n < unat m"
  shows "get_by s (hash (slots s) k) (\<lambda>_ _ k'. match k k') =
    Some (Inr (case vals_by hash match s chs k of [] \<Rightarrow> NULL | d # _ \<Rightarrow> d))"
proof -
  obtain i where i: "hash (slots s) k = Inr i" "unat i < length chs" "slot (hash (slots s) k) = unat i"
    by (rule slot_bound [of s chs hash k, OF assms])
  have "holds (\<lambda>_ _ k'. match k k') = (\<lambda>e. match k (e_key e))" by (simp add: fun_eq_iff holds_def)
  with get_by_rel [OF assms(1) i(1,2), of "\<lambda>_ _ k'. match k k'"] i(3) show ?thesis
    by (simp add: vals_by_def find_filter)
qed

lemma link_in_law:
  assumes rel: "hash_rel s chs" and fresh: "fresh_bucket b s chs"
    and hash: "\<And>m k. m \<noteq> 0 \<Longrightarrow> \<exists>n. hash m k = Inr n \<and> unat n < unat m"
    and same: "\<And>k'. match k' key \<longleftrightarrow> same k k'" "\<And>m k'. same k k' \<Longrightarrow> hash m k = hash m k'"
  shows "\<exists>s' chs'. link_in s (hash (slots s) k) key d b = Inr s' \<and> hash_rel s' chs' \<and>
    vals_by hash match s' chs' =
    (\<lambda>k'. if same k k' then d # vals_by hash match s chs k' else vals_by hash match s chs k')"
proof -
  obtain i where i: "hash (slots s) k = Inr i" "unat i < length chs" "slot (hash (slots s) k) = unat i"
    by (rule slot_bound [of s chs hash k, OF rel hash])
  obtain s' where s': "link_in s (hash (slots s) k) key d b = Inr s'" "slots s' = slots s"
    "hash_rel s' (chs[unat i := (b, d, key) # chs ! unat i])"
    using link_in_rel [OF rel i(1,2), of b key d] fresh by (auto simp: fresh_bucket_def)
  have "vals_by hash match s' (chs[unat i := (b, d, key) # chs ! unat i]) k' =
      (if same k k' then d # vals_by hash match s chs k' else vals_by hash match s chs k')" for k'
    using i(2,3) s'(2) same(1) [of k'] same(2) [of k' "slots s"]
    by (cases "slot (hash (slots s) k') = unat i") (auto simp: vals_by_def)
  with s' show ?thesis by blast
qed

lemma unlink_by_law:
  assumes rel: "hash_rel s chs"
    and hash: "\<And>m k. m \<noteq> 0 \<Longrightarrow> \<exists>n. hash m k = Inr n \<and> unat n < unat m"
    and same: "\<And>m k'. same k k' \<Longrightarrow> hash m k = hash m k'"
    and match: "\<And>e k'. e \<in> set (chs ! slot (hash (slots s) k)) \<Longrightarrow> match' k (e_key e) \<Longrightarrow>
      e_data e = d \<Longrightarrow> match k' (e_key e) = same k k'"
    and match': "\<And>e k'. e \<in> set (chs ! slot (hash (slots s) k)) \<Longrightarrow> same k k' \<Longrightarrow> match k' (e_key e) \<Longrightarrow>
      match' k (e_key e)"
  shows "\<exists>s' chs'. unlink_by s (hash (slots s) k) (\<lambda>_ d' k'. d' = d \<and> match' k k') = Some (Inr s') \<and>
    hash_rel s' chs' \<and>
    vals_by hash match s' chs' =
    (\<lambda>k'. if same k k' then remove1 d (vals_by hash match s chs k') else vals_by hash match s chs k')"
proof -
  obtain i where i: "hash (slots s) k = Inr i" "unat i < length chs" "slot (hash (slots s) k) = unat i"
    by (rule slot_bound [of s chs hash k, OF rel hash])
  let ?P = "\<lambda>_ d' k'. d' = d \<and> match' k k'" and ?es = "chs ! unat i"
  obtain s' where s': "unlink_by s (hash (slots s) k) ?P = Some (Inr s')" "slots s' = slots s"
    "hash_rel s' (chs[unat i := rem_first (holds ?P) ?es])"
    using unlink_by_rel [OF rel i(1,2), of ?P] by blast
  have here: "map e_data (filter (\<lambda>e. match k' (e_key e)) (rem_first (holds ?P) ?es)) =
      (if same k k' then remove1 d (map e_data (filter (\<lambda>e. match k' (e_key e)) ?es))
       else map e_data (filter (\<lambda>e. match k' (e_key e)) ?es))" for k'
  proof -
    have "filter (\<lambda>e. match k' (e_key e)) (rem_first (holds ?P) ?es) =
        (if same k k' then rem_first (holds ?P) (filter (\<lambda>e. match k' (e_key e)) ?es)
         else filter (\<lambda>e. match k' (e_key e)) ?es)"
      using match i(3) by (intro filter_rem_first) (auto simp: holds_def)
    moreover have "map e_data (rem_first (holds ?P) (filter (\<lambda>e. match k' (e_key e)) ?es)) =
        remove1 d (map e_data (filter (\<lambda>e. match k' (e_key e)) ?es))" if "same k k'"
      using match' [OF _ that] i(3) by (intro map_rem_first_remove1) (auto simp: holds_def)
    ultimately show ?thesis by simp
  qed
  have "vals_by hash match s' (chs[unat i := rem_first (holds ?P) ?es]) k' =
      (if same k k' then remove1 d (vals_by hash match s chs k') else vals_by hash match s chs k')" for k'
    using i(2,3) s'(2) here [of k'] same [of k' "slots s"]
    by (cases "slot (hash (slots s) k') = unat i") (auto simp: vals_by_def)
  with s' show ?thesis by blast
qed

lemma Hash_Key_bound: "m \<noteq> 0 \<Longrightarrow> \<exists>n. Hash_Key k m = Inr n \<and> unat n < unat m"
  using umod_total umod_lt by (fastforce simp: Hash_Key_def)

lemma Hash_KeyInsensitive_bound: "m \<noteq> 0 \<Longrightarrow> \<exists>n. Hash_KeyInsensitive k m = Inr n \<and> unat n < unat m"
  using umod_total umod_lt by (fastforce simp: Hash_KeyInsensitive_def)

lemma umod_bound: "m \<noteq> 0 \<Longrightarrow> \<exists>n. umod k m = Inr n \<and> unat n < unat m"
  using umod_total umod_lt by fastforce

interpretation strings: shadow_map hash_rel string_vals "(=)" fresh_bucket one_spelling
  Hash_Get Hash_Add Hash_RemoveData
proof unfold_locales
  show "Hash_Get s k = Some (Inr (case string_vals s a k of [] \<Rightarrow> NULL | d # _ \<Rightarrow> d))"
    if "hash_rel s a" for s a k
    unfolding Hash_Get_def string_vals_def by (rule get_by_law [OF that Hash_Key_bound])
  show "\<exists>s' a'. Hash_Add s k d b = Inr s' \<and> hash_rel s' a' \<and>
      string_vals s' a' = (\<lambda>k'. if k = k' then d # string_vals s a k' else string_vals s a k')"
    if "hash_rel s a" "fresh_bucket b s a" for s a b k d
    unfolding Hash_Add_def string_vals_def
    by (rule link_in_law [OF that Hash_Key_bound]) (auto simp: same_string_def)
  show "\<exists>s' a'. Hash_RemoveData s k d = Some (Inr s') \<and> hash_rel s' a' \<and>
      string_vals s' a' = (\<lambda>k'. if k = k' then remove1 d (string_vals s a k') else string_vals s a k')"
    if "hash_rel s a" "one_spelling s a k d" for s a k d
    unfolding Hash_RemoveData_def string_vals_def
    by (rule unlink_by_law [OF that(1) Hash_Key_bound])
      (use that(2) in \<open>fastforce simp: one_spelling_def same_string_def same_insensitive_def
        split: hkey.splits\<close>)+
qed simp

interpretation names: shadow_map hash_rel insensitive_vals same_name fresh_bucket "\<lambda>_ _ _ _. True"
  Hash_GetInsensitive Hash_AddInsensitive Hash_RemoveDataInsensitive
proof unfold_locales
  show "Hash_GetInsensitive s k = Some (Inr (case insensitive_vals s a k of [] \<Rightarrow> NULL | d # _ \<Rightarrow> d))"
    if "hash_rel s a" for s a k
    unfolding Hash_GetInsensitive_def insensitive_vals_def
    by (rule get_by_law [OF that Hash_KeyInsensitive_bound])
  show "\<exists>s' a'. Hash_AddInsensitive s k d b = Inr s' \<and> hash_rel s' a' \<and> insensitive_vals s' a' =
      (\<lambda>k'. if same_name k k' then d # insensitive_vals s a k' else insensitive_vals s a k')"
    if "hash_rel s a" "fresh_bucket b s a" for s a b k d
    unfolding Hash_AddInsensitive_def insensitive_vals_def
    by (rule link_in_law [OF that Hash_KeyInsensitive_bound])
      (auto simp: same_insensitive_def same_name_def intro: Hash_KeyInsensitive_same)
  show "\<exists>s' a'. Hash_RemoveDataInsensitive s k d = Some (Inr s') \<and> hash_rel s' a' \<and>
      insensitive_vals s' a' =
      (\<lambda>k'. if same_name k k' then remove1 d (insensitive_vals s a k') else insensitive_vals s a k')"
    if "hash_rel s a" for s a k d
    unfolding Hash_RemoveDataInsensitive_def insensitive_vals_def
    by (rule unlink_by_law [OF that Hash_KeyInsensitive_bound])
      (auto simp: same_insensitive_def same_name_def intro: Hash_KeyInsensitive_same split: hkey.splits)
qed (simp add: same_name_def)

interpretation numbers: shadow_map hash_rel value_vals "(=)" fresh_bucket "\<lambda>_ _ _ _. True"
  Hash_GetKey Hash_AddKey Hash_RemoveDataKey
proof unfold_locales
  show "Hash_GetKey s k = Some (Inr (case value_vals s a k of [] \<Rightarrow> NULL | d # _ \<Rightarrow> d))"
    if "hash_rel s a" for s a k
    unfolding Hash_GetKey_def value_vals_def by (rule get_by_law [OF that umod_bound])
  show "\<exists>s' a'. Hash_AddKey s k d b = Inr s' \<and> hash_rel s' a' \<and>
      value_vals s' a' = (\<lambda>k'. if k = k' then d # value_vals s a k' else value_vals s a k')"
    if "hash_rel s a" "fresh_bucket b s a" for s a b k d
    unfolding Hash_AddKey_def value_vals_def
    by (rule link_in_law [OF that umod_bound]) (auto simp: same_value_def)
  show "\<exists>s' a'. Hash_RemoveDataKey s k d = Some (Inr s') \<and> hash_rel s' a' \<and>
      value_vals s' a' = (\<lambda>k'. if k = k' then remove1 d (value_vals s a k') else value_vals s a k')"
    if "hash_rel s a" for s a k d
    unfolding Hash_RemoveDataKey_def value_vals_def
    by (rule unlink_by_law [OF that umod_bound]) (auto simp: same_value_def split: hkey.splits)
qed simp

section \<open>Walking the whole table\<close>

lemma chain_idx:
  "chain h es p \<Longrightarrow> idx_loop h idx p =
   Some (Inr (if unat idx < length es then Inl (e_data (es ! unat idx))
              else Inr (word_of_nat (unat idx - length es))))"
proof (induction es arbitrary: p idx)
  case (Cons e es)
  then obtain b where b: "h p = Some b" "bk_data b = e_data e" "chain h es (bk_next b)" "p \<noteq> NULL"
    by (auto split: option.splits)
  show ?case
  proof (cases "idx = 0")
    case False
    then have "0 < unat idx" by (simp add: unat_gt_0)
    then obtain n where n: "unat idx = Suc n" using gr0_conv_Suc by auto
    then have "unat (idx - 1) = n" by (simp add: unat_minus_one [OF False])
    with Cons.IH [OF b(3), of "idx - 1"] b n False show ?thesis
      by (subst idx_loop.simps) simp
  qed (use b in \<open>subst idx_loop.simps, simp\<close>)
qed (simp add: idx_loop.simps)

lemma idx_buckets_rel:
  assumes rel: "hash_rel s chs"
  shows "\<forall>n \<in> set ns. n < length chs \<Longrightarrow>
    idx_buckets s ns idx = Some (Inr (let es = concat (map ((!) chs) ns) in
      if unat idx < length es then e_data (es ! unat idx) else NULL))"
proof (induction ns arbitrary: idx)
  case (Cons n ns)
  let ?es = "chs ! n" and ?idx = "word_of_nat (unat idx - length (chs ! n)) :: int32"
  have n: "n < length chs" "n < length (bucket (fst s))"
    using Cons.prems hash_relD(2) [OF rel] by auto
  have u: "unat ?idx = unat idx - length ?es"
  proof -
    have "unat idx < 2 ^ LENGTH(32)" by (rule unsigned_less)
    then have "unat idx - length ?es < 2 ^ 32" by (simp add: less_imp_diff_less)
    then show ?thesis by (simp add: unsigned_of_nat take_bit_eq_mod)
  qed
  have "idx_loop (snd s) idx (bucket (fst s) ! n) =
      Some (Inr (if unat idx < length ?es then Inl (e_data (?es ! unat idx)) else Inr ?idx))"
    by (rule chain_idx [OF hash_relD(4) [OF rel n(1)]])
  then have "idx_buckets s (n # ns) idx =
      (if unat idx < length ?es then Some (Inr (e_data (?es ! unat idx))) else idx_buckets s ns ?idx)"
    using n by simp
  also have "idx_buckets s ns ?idx = Some (Inr (let es = concat (map ((!) chs) ns) in
      if unat ?idx < length es then e_data (es ! unat ?idx) else NULL))"
    using Cons by simp
  finally show ?case
    unfolding u by (auto simp: Let_def nth_append)
qed simp

lemma Hash_GetIdx_rel:
  assumes "hash_rel s chs"
  shows "Hash_GetIdx s idx = Some (Inr (if unat idx < length (concat chs)
    then e_data (concat chs ! unat idx) else NULL))"
proof -
  have "map ((!) chs) [0..<length chs] = chs" by (rule map_nth)
  then show ?thesis
    using idx_buckets_rel [OF assms, of "[0..<length chs]" idx] hash_relD(1) [OF assms]
    by (simp add: Hash_GetIdx_def Let_def)
qed

text \<open>A callback that leaves the table alone sees every entry's data once, in the table's order.\<close>

lemma chain_enum:
  "chain (snd s) es p \<Longrightarrow>
   enum_loop (\<lambda>d (s, c). Inr (s, f d c)) p (s, c) = Some (Inr (s, fold f (map e_data es) c))"
proof (induction es arbitrary: p c)
  case (Cons e es)
  then obtain b where "snd s p = Some b" "bk_data b = e_data e" "chain (snd s) es (bk_next b)" "p \<noteq> NULL"
    by (auto split: option.splits)
  with Cons.IH [of "bk_next b" "f (e_data e) c"] show ?case
    by (subst enum_loop.simps) simp
qed (simp add: enum_loop.simps)

lemma enum_buckets_rel:
  assumes rel: "hash_rel s chs" and "n \<le> length chs"
  shows "enum_buckets (\<lambda>d (s, c). Inr (s, f d c)) n (s, c) =
    Some (Inr (s, fold f (map e_data (concat (drop n chs))) c))"
  using assms(2)
proof (induction "length chs - n" arbitrary: n c)
  case 0
  then show ?case using hash_relD [OF rel] by (subst enum_buckets.simps) simp
next
  case (Suc k)
  then have n: "n < length chs" by simp
  have "drop n chs = chs ! n # drop (Suc n) chs" using n by (rule Cons_nth_drop_Suc [symmetric])
  moreover have "enum_loop (\<lambda>d (s, c). Inr (s, f d c)) (bucket (fst s) ! n) (s, c) =
      Some (Inr (s, fold f (map e_data (chs ! n)) c))"
    by (rule chain_enum [OF hash_relD(4) [OF rel n]])
  ultimately show ?case
    using n hash_relD [OF rel] Suc.hyps(1) [of "Suc n"] Suc.hyps(2)
    by (subst enum_buckets.simps) simp
qed

lemma Hash_Enumerate_rel:
  "hash_rel s chs \<Longrightarrow> Hash_Enumerate (\<lambda>d (s, c). Inr (s, f d c)) (s, c) =
   Some (Inr (s, fold f (map e_data (concat chs)) c))"
  using enum_buckets_rel [of s chs 0 f c] by (simp add: Hash_Enumerate_def)

section \<open>Properties\<close>

definition demo_bucket :: bucket_t where
  "demo_bucket = \<lparr>bk_data = 0, bk_key = KValue 0, bk_next = 0\<rparr>"

definition demo_table :: hstate where
  "demo_table = (Hash_InitTable 2 [NULL, NULL], [1 \<mapsto> demo_bucket, 2 \<mapsto> demo_bucket])"

lemma demo_rel: "hash_rel demo_table [[], []]"
  by (simp add: hash_rel_def demo_table_def Hash_InitTable_def)

lemma demo_fresh: "fresh_bucket 1 demo_table [[], []]"
  by (simp add: fresh_bucket_def demo_table_def)

text \<open>C33: after \<open>Hash_Add\<close> of an unused bucket, \<open>Hash_Get\<close> finds the new data under the name and
  under every other name what it found before.\<close>

theorem Hash_Get_Add:
  assumes "hash_rel s chs" and "fresh_bucket b s chs"
  shows "\<exists>s'. Hash_Add s name d b = Inr s' \<and>
    (\<forall>k. Hash_Get s' k = (if name = k then Some (Inr d) else Hash_Get s k))"
  using assms by (rule strings.get_add)

theorem Hash_Get_Add_witness:
  "\<exists>s'. Hash_Add demo_table (str ''a'') 7 1 = Inr s' \<and> Hash_Get s' (str ''a'') = Some (Inr 7)"
  using Hash_Get_Add [OF demo_rel demo_fresh, of "str ''a''" 7] by fastforce

text \<open>the case-insensitive table: \<open>Hash_AddInsensitive\<close> followed by
  \<open>Hash_RemoveDataInsensitive\<close> of the same data, under any spelling, gives back every lookup.\<close>

theorem Hash_insensitive_restore:
  assumes "hash_rel s chs" and "fresh_bucket b s chs" and "same_name name name'"
  shows "\<exists>s' s''. Hash_AddInsensitive s name d b = Inr s' \<and>
    Hash_RemoveDataInsensitive s' name' d = Some (Inr s'') \<and>
    (\<forall>k. Hash_GetInsensitive s'' k = Hash_GetInsensitive s k)"
proof -
  obtain s' a' where s': "Hash_AddInsensitive s name d b = Inr s'" "hash_rel s' a'"
    "insensitive_vals s' a' = (\<lambda>k'. if same_name name k' then d # insensitive_vals s chs k'
                                    else insensitive_vals s chs k')"
    using names.add_law [OF assms(1,2)] by blast
  moreover have "same_name name k = same_name name' k" for k
    using assms(3) by (auto simp: same_name_def)
  ultimately show ?thesis
    using names.del_restores [OF assms(1) s'(2), of name' d] by auto
qed

theorem Hash_insensitive_restore_witness:
  "\<exists>s' s''. Hash_AddInsensitive demo_table (str ''Ab'') 7 1 = Inr s' \<and>
    Hash_RemoveDataInsensitive s' (str ''aB'') 7 = Some (Inr s'') \<and>
    Hash_GetInsensitive s'' (str ''AB'') = Hash_GetInsensitive demo_table (str ''AB'')"
proof -
  have "same_name (str ''Ab'') (str ''aB'')" by code_simp
  from Hash_insensitive_restore [OF demo_rel demo_fresh this, of 7] show ?thesis by blast
qed

text \<open>\<open>Hash_RemoveData\<close> hashes the exact name but compares without case; where the chain holds
  the data under one spelling only it takes out that entry and nothing else.\<close>

theorem Hash_RemoveData_exact:
  assumes "hash_rel s chs" and "one_spelling s chs name d"
  shows "\<exists>s' chs'. Hash_RemoveData s name d = Some (Inr s') \<and> hash_rel s' chs' \<and>
    (\<forall>k. string_vals s' chs' k =
      (if name = k then remove1 d (string_vals s chs k) else string_vals s chs k))"
  using strings.del_law [OF assms] by fastforce

theorem Hash_RemoveData_exact_witness:
  "\<exists>s' chs'. Hash_RemoveData demo_table (str ''a'') 7 = Some (Inr s') \<and> hash_rel s' chs'"
proof -
  obtain i where i: "slot (Hash_Key (str ''a'') (slots demo_table)) = i" "i < 2"
    using Hash_Key_bound [of "slots demo_table" "str ''a''"]
    by (auto simp: slot_def demo_table_def Hash_InitTable_def)
  then have "[[], []] ! slot (Hash_Key (str ''a'') (slots demo_table)) = ([] :: entry list)"
    by (cases i) (auto simp: less_Suc_eq numeral_2_eq_2)
  then have "one_spelling demo_table [[], []] (str ''a'') 7" by (simp add: one_spelling_def)
  from Hash_RemoveData_exact [OF demo_rel this] show ?thesis by blast
qed

text \<open>\<open>Hash_RemoveKey\<close> on a table whose chain for the key is empty reads through a null pointer.\<close>

theorem Hash_RemoveKey_empty:
  assumes "hash_rel s chs" and "chs ! unat (key mod slots s) = []"
  shows "Hash_RemoveKey s key = Some (Inl Null_Deref)"
proof -
  have u: "umod key (slots s) = Inr (key mod slots s)"
    using hash_relD(3) [OF assms(1)] by (simp add: umod_def)
  then have "unat (key mod slots s) < length chs"
    using umod_lt hash_relD(1) [OF assms(1)] by metis
  then show ?thesis
    unfolding Hash_RemoveKey_def by (rule remove_by_empty [OF assms(1) u _ assms(2)])
qed

theorem Hash_RemoveKey_empty_witness: "Hash_RemoveKey demo_table 5 = Some (Inl Null_Deref)"
  using Hash_RemoveKey_empty [OF demo_rel, of 5]
  by (simp add: demo_table_def Hash_InitTable_def)

text \<open>the enumeration visits the data of every entry once, chain by chain, and \<open>Hash_GetIdx\<close>
  numbers the entries in the same order.\<close>

theorem Hash_enumerates:
  assumes "hash_rel s chs"
  shows "Hash_Enumerate (\<lambda>d (s, ds). Inr (s, ds @ [d])) (s, []) = Some (Inr (s, map e_data (concat chs))) \<and>
    Hash_GetIdx s idx = Some (Inr (if unat idx < length (concat chs)
      then map e_data (concat chs) ! unat idx else NULL))"
proof -
  have "fold (\<lambda>d ds. ds @ [d]) xs ys = ys @ xs" for xs ys :: "ptr list"
    by (induction xs arbitrary: ys) simp_all
  then show ?thesis
    using Hash_Enumerate_rel [OF assms, of "\<lambda>d ds. ds @ [d]" "[]"] Hash_GetIdx_rel [OF assms, of idx]
    by (simp del: length_concat)
qed

theorem Hash_enumerates_witness:
  "Hash_Enumerate (\<lambda>d (s, ds). Inr (s, ds @ [d])) (demo_table, []) = Some (Inr (demo_table, []))"
  using Hash_enumerates [OF demo_rel] by simp

end
