(* ===== verification/Fips.thy ===== *)
theory Fips
  imports Prelude
begin

text \<open>
  The standards the digests are measured against, written from the documents and not from the code:
  SHA-1 and SHA-2 of FIPS 180-4 as functions from octet strings to octet strings, HMAC of RFC 2104.
  Nothing here mentions a definition that models the sources.  The tables of constants are not copied:
  they are the leading bits of the fractional parts of square and cube roots of primes, computed here.
\<close>

section \<open>Roots of primes\<close>

text \<open>The integer part of the \<open>k\<close>-th root of \<open>n\<close>, for roots below \<open>2 ^ 80\<close>, bit by bit from above.\<close>

definition root_bit :: "nat \<Rightarrow> nat \<Rightarrow> nat \<Rightarrow> nat \<Rightarrow> nat" where
  "root_bit k n r b = (if (r + 2 ^ b) ^ k \<le> n then r + 2 ^ b else r)"

definition iroot :: "nat \<Rightarrow> nat \<Rightarrow> nat" where
  "iroot k n = foldl (root_bit k n) 0 (rev [0..<80])"

lemma root_bits:
  assumes "0 < k" and "r ^ k \<le> n" and "n < (r + 1) ^ k"
  shows "foldl (root_bit k n) (r div 2 ^ b * 2 ^ b) (rev [0..<b]) = r"
proof (induction b)
  case (Suc b)
  have le: "x ^ k \<le> n \<longleftrightarrow> x \<le> r" for x
  proof
    assume "x ^ k \<le> n"
    then have "x ^ k < (r + 1) ^ k" using assms(3) by linarith
    then have "x < r + 1" using power_less_imp_less_base [of x k "r + 1"] by simp
    then show "x \<le> r" by simp
  next
    assume "x \<le> r"
    then have "x ^ k \<le> r ^ k" by (rule power_mono) simp
    then show "x ^ k \<le> n" using assms(2) by linarith
  qed
  let ?q = "r div 2 ^ Suc b"
  have q: "r div 2 ^ b = 2 * ?q + r div 2 ^ b mod 2"
  proof -
    have "2 ^ Suc b = 2 ^ b * (2 :: nat)" by simp
    then have "?q = r div 2 ^ b div 2" by (simp only: div_mult2_eq)
    then show ?thesis by (simp only: mult_div_mod_eq)
  qed
  have p: "?q * 2 ^ Suc b = (2 * ?q) * 2 ^ b" by simp
  have "root_bit k n (?q * 2 ^ Suc b) b = r div 2 ^ b * 2 ^ b"
  proof (cases "r div 2 ^ b mod 2 = 0")
    case True
    then have e: "r div 2 ^ b = 2 * ?q" using q by simp
    have "r < (r div 2 ^ b + 1) * 2 ^ b"
      using dividend_less_div_times [of "2 ^ b" r] by simp
    then have "\<not> ?q * 2 ^ Suc b + 2 ^ b \<le> r" unfolding p e by (simp add: algebra_simps)
    then show ?thesis unfolding root_bit_def le using e by simp
  next
    case False
    then have e: "r div 2 ^ b = 2 * ?q + 1" using q by simp
    have "?q * 2 ^ Suc b + 2 ^ b = r div 2 ^ b * 2 ^ b" unfolding p e by simp
    moreover have "r div 2 ^ b * 2 ^ b \<le> r" by (rule div_times_less_eq_dividend)
    ultimately show ?thesis unfolding root_bit_def le by simp
  qed
  then show ?case using Suc.IH by simp
qed simp

lemma iroot_unique:
  assumes "0 < k" and "r ^ k \<le> n" and "n < (r + 1) ^ k" and "r < 2 ^ 80"
  shows "iroot k n = r"
  using root_bits [OF assms(1-3), of 80] assms(4) by (simp add: iroot_def div_less)

text \<open>The first \<open>w\<close> bits of the fractional part of the \<open>k\<close>-th root of \<open>p\<close>.\<close>

definition root_frac :: "nat \<Rightarrow> nat \<Rightarrow> nat \<Rightarrow> nat" where
  "root_frac k w p = iroot k (p * 2 ^ (w * k)) mod 2 ^ w"

definition std_primes :: "nat list" where
  "std_primes =
     [2, 3, 5, 7, 11, 13, 17, 19, 23, 29, 31, 37, 41, 43, 47, 53, 59, 61, 67, 71, 73, 79, 83, 89, 97, 101,
      103, 107, 109, 113, 127, 131, 137, 139, 149, 151, 157, 163, 167, 173, 179, 181, 191, 193, 197, 199,
      211, 223, 227, 229, 233, 239, 241, 251, 257, 263, 269, 271, 277, 281, 283, 293, 307, 311, 313, 317,
      331, 337, 347, 349, 353, 359, 367, 373, 379, 383, 389, 397, 401, 409]"

definition is_root :: "nat \<Rightarrow> nat \<Rightarrow> nat \<times> nat \<times> nat \<Rightarrow> bool" where
  "is_root k w = (\<lambda>(p, q, c). c < 2 ^ w \<and> q * 2 ^ w + c < 2 ^ 80 \<and> (q * 2 ^ w + c) ^ k \<le> p * 2 ^ (w * k) \<and>
     p * 2 ^ (w * k) < (q * 2 ^ w + c + 1) ^ k)"

lemma is_root_frac: "0 < k \<Longrightarrow> is_root k w (p, q, c) \<Longrightarrow> root_frac k w p = c"
  using iroot_unique [of k "q * 2 ^ w + c" "p * 2 ^ (w * k)"] by (simp add: is_root_def root_frac_def)

lemma root_fracs:
  assumes "0 < k" and "list_all (is_root k w) (zip ps (zip qs cs))" and "length ps = length cs" and "length qs = length cs"
  shows "map (root_frac k w) ps = cs"
proof (rule nth_equalityI)
  fix i assume "i < length (map (root_frac k w) ps)"
  then have i: "i < length ps" by simp
  then have "is_root k w (ps ! i, qs ! i, cs ! i)" using assms(2-4) by (simp add: list_all_length)
  then show "map (root_frac k w) ps ! i = cs ! i" using is_root_frac [OF assms(1)] i by simp
qed (use assms(3) in simp)

lemma root_frac_short:
  assumes "0 < k" and "is_root k (w + v) (p, q, c)"
  shows "root_frac k w p = c div 2 ^ v"
proof -
  let ?r = "q * 2 ^ (w + v) + c"
  let ?s = "q * 2 ^ w + c div 2 ^ v"
  have r: "c < 2 ^ (w + v)" "?r < 2 ^ 80" "?r ^ k \<le> p * 2 ^ ((w + v) * k)" "p * 2 ^ ((w + v) * k) < (?r + 1) ^ k"
    using assms(2) by (simp_all add: is_root_def)
  have e: "p * 2 ^ ((w + v) * k) = p * 2 ^ (w * k) * (2 ^ v) ^ k"
    by (simp add: algebra_simps power_add power_mult [symmetric])
  have s: "?s * 2 ^ v \<le> ?r" "?r + 1 \<le> (?s + 1) * 2 ^ v"
    using div_times_less_eq_dividend [of c "2 ^ v"] dividend_less_div_times [of "2 ^ v" c]
    by (simp_all add: algebra_simps power_add)
  have "(?s * 2 ^ v) ^ k \<le> p * 2 ^ (w * k) * (2 ^ v) ^ k"
    using power_mono [OF s(1), of k] r(3) unfolding e by linarith
  then have 1: "?s ^ k \<le> p * 2 ^ (w * k)" by (simp add: power_mult_distrib)
  have "p * 2 ^ (w * k) * (2 ^ v) ^ k < ((?s + 1) * 2 ^ v) ^ k"
    using power_mono [OF s(2), of k] r(4) unfolding e by linarith
  then have 2: "p * 2 ^ (w * k) < (?s + 1) ^ k" by (simp only: power_mult_distrib mult_less_cancel2)
  have "?s \<le> ?s * 2 ^ v" by simp
  then have 3: "?s < 2 ^ 80" using s(1) r(2) by linarith
  have 4: "c div 2 ^ v < 2 ^ w" using r(1) by (simp add: less_mult_imp_div_less power_add)
  then have "is_root k w (p, q, c div 2 ^ v)" using 1 2 3 by (simp add: is_root_def)
  then show ?thesis by (rule is_root_frac [OF assms(1)])
qed

lemma root_fracs_short:
  assumes "0 < k" and "list_all (is_root k (w + v)) (zip ps (zip qs cs))" and "length ps = length cs" and "length qs = length cs"
  shows "map (root_frac k w) ps = map (\<lambda>c. c div 2 ^ v) cs"
proof (rule nth_equalityI)
  fix i assume "i < length (map (root_frac k w) ps)"
  then have i: "i < length ps" by simp
  then have "is_root k (w + v) (ps ! i, qs ! i, cs ! i)" using assms(2-4) by (simp add: list_all_length)
  then show "map (root_frac k w) ps ! i = map (\<lambda>c. c div 2 ^ v) cs ! i"
    using root_frac_short [OF assms(1)] i assms(3) by simp
qed (use assms(3) in simp)

text \<open>The square roots of the first sixteen primes; \<open>qs\<close> are the integer parts.\<close>

lemma sqrt_roots:
  "list_all (is_root 2 64) (zip (take 16 std_primes) (zip [1, 1, 2, 2, 3, 3, 4, 4, 4, 5, 5, 6, 6, 6, 6, 7]
    [0x6a09e667f3bcc908, 0xbb67ae8584caa73b, 0x3c6ef372fe94f82b, 0xa54ff53a5f1d36f1,
     0x510e527fade682d1, 0x9b05688c2b3e6c1f, 0x1f83d9abfb41bd6b, 0x5be0cd19137e2179,
     0xcbbb9d5dc1059ed8, 0x629a292a367cd507, 0x9159015a3070dd17, 0x152fecd8f70e5939,
     0x67332667ffc00b31, 0x8eb44a8768581511, 0xdb0c2e0d64f98fa7, 0x47b5481dbefa4fa4]))"
  by (simp add: std_primes_def is_root_def)

lemma sqrt_fracs:
  "map (root_frac 2 64) (take 16 std_primes) =
    [0x6a09e667f3bcc908, 0xbb67ae8584caa73b, 0x3c6ef372fe94f82b, 0xa54ff53a5f1d36f1,
     0x510e527fade682d1, 0x9b05688c2b3e6c1f, 0x1f83d9abfb41bd6b, 0x5be0cd19137e2179,
     0xcbbb9d5dc1059ed8, 0x629a292a367cd507, 0x9159015a3070dd17, 0x152fecd8f70e5939,
     0x67332667ffc00b31, 0x8eb44a8768581511, 0xdb0c2e0d64f98fa7, 0x47b5481dbefa4fa4]"
  by (rule root_fracs [OF _ sqrt_roots]) (simp_all add: std_primes_def)

lemma sqrt_fracs_32:
  "map (root_frac 2 32) (take 8 std_primes) =
    [0x6a09e667, 0xbb67ae85, 0x3c6ef372, 0xa54ff53a, 0x510e527f, 0x9b05688c, 0x1f83d9ab, 0x5be0cd19]"
proof -
  have "list_all (is_root 2 (32 + 32)) (zip (take 16 std_primes) (zip [1, 1, 2, 2, 3, 3, 4, 4, 4, 5, 5, 6, 6, 6, 6, 7]
    [0x6a09e667f3bcc908, 0xbb67ae8584caa73b, 0x3c6ef372fe94f82b, 0xa54ff53a5f1d36f1,
     0x510e527fade682d1, 0x9b05688c2b3e6c1f, 0x1f83d9abfb41bd6b, 0x5be0cd19137e2179,
     0xcbbb9d5dc1059ed8, 0x629a292a367cd507, 0x9159015a3070dd17, 0x152fecd8f70e5939,
     0x67332667ffc00b31, 0x8eb44a8768581511, 0xdb0c2e0d64f98fa7, 0x47b5481dbefa4fa4]))"
    using sqrt_roots by (simp only: numeral_plus_numeral add_num_simps)
  from root_fracs_short [OF _ this] have "take 8 (map (root_frac 2 32) (take 16 std_primes)) =
    take 8 (map (\<lambda>c. c div 2 ^ 32) [0x6a09e667f3bcc908, 0xbb67ae8584caa73b, 0x3c6ef372fe94f82b, 0xa54ff53a5f1d36f1,
     0x510e527fade682d1, 0x9b05688c2b3e6c1f, 0x1f83d9abfb41bd6b, 0x5be0cd19137e2179,
     0xcbbb9d5dc1059ed8, 0x629a292a367cd507, 0x9159015a3070dd17, 0x152fecd8f70e5939,
     0x67332667ffc00b31, 0x8eb44a8768581511, 0xdb0c2e0d64f98fa7, 0x47b5481dbefa4fa4])"
    by (simp add: std_primes_def)
  then show ?thesis by (simp add: take_map)
qed

text \<open>The cube roots of the first eighty primes.\<close>

definition cbrt_parts :: "nat list" where
  "cbrt_parts =
    [1, 1, 1, 1, 2, 2, 2, 2, 2, 3, 3, 3, 3, 3, 3, 3, 3, 3, 4, 4, 4, 4, 4, 4, 4, 4, 4, 4, 4, 4, 5, 5, 5, 5, 5, 5, 5, 5, 5, 5, 5, 5, 5, 5, 5, 5, 5,
     6, 6, 6, 6, 6, 6, 6, 6, 6, 6, 6, 6, 6, 6, 6, 6, 6, 6, 6, 6, 6, 7, 7, 7, 7, 7, 7, 7, 7, 7, 7, 7, 7]"

definition cbrt_table :: "nat list" where
  "cbrt_table =
    [0x428a2f98d728ae22, 0x7137449123ef65cd, 0xb5c0fbcfec4d3b2f, 0xe9b5dba58189dbbc,
     0x3956c25bf348b538, 0x59f111f1b605d019, 0x923f82a4af194f9b, 0xab1c5ed5da6d8118,
     0xd807aa98a3030242, 0x12835b0145706fbe, 0x243185be4ee4b28c, 0x550c7dc3d5ffb4e2,
     0x72be5d74f27b896f, 0x80deb1fe3b1696b1, 0x9bdc06a725c71235, 0xc19bf174cf692694,
     0xe49b69c19ef14ad2, 0xefbe4786384f25e3, 0x0fc19dc68b8cd5b5, 0x240ca1cc77ac9c65,
     0x2de92c6f592b0275, 0x4a7484aa6ea6e483, 0x5cb0a9dcbd41fbd4, 0x76f988da831153b5,
     0x983e5152ee66dfab, 0xa831c66d2db43210, 0xb00327c898fb213f, 0xbf597fc7beef0ee4,
     0xc6e00bf33da88fc2, 0xd5a79147930aa725, 0x06ca6351e003826f, 0x142929670a0e6e70,
     0x27b70a8546d22ffc, 0x2e1b21385c26c926, 0x4d2c6dfc5ac42aed, 0x53380d139d95b3df,
     0x650a73548baf63de, 0x766a0abb3c77b2a8, 0x81c2c92e47edaee6, 0x92722c851482353b,
     0xa2bfe8a14cf10364, 0xa81a664bbc423001, 0xc24b8b70d0f89791, 0xc76c51a30654be30,
     0xd192e819d6ef5218, 0xd69906245565a910, 0xf40e35855771202a, 0x106aa07032bbd1b8,
     0x19a4c116b8d2d0c8, 0x1e376c085141ab53, 0x2748774cdf8eeb99, 0x34b0bcb5e19b48a8,
     0x391c0cb3c5c95a63, 0x4ed8aa4ae3418acb, 0x5b9cca4f7763e373, 0x682e6ff3d6b2b8a3,
     0x748f82ee5defb2fc, 0x78a5636f43172f60, 0x84c87814a1f0ab72, 0x8cc702081a6439ec,
     0x90befffa23631e28, 0xa4506cebde82bde9, 0xbef9a3f7b2c67915, 0xc67178f2e372532b,
     0xca273eceea26619c, 0xd186b8c721c0c207, 0xeada7dd6cde0eb1e, 0xf57d4f7fee6ed178,
     0x06f067aa72176fba, 0x0a637dc5a2c898a6, 0x113f9804bef90dae, 0x1b710b35131c471b,
     0x28db77f523047d84, 0x32caab7b40c72493, 0x3c9ebe0a15c9bebc, 0x431d67c49c100d4c,
     0x4cc5d4becb3e42b6, 0x597f299cfc657e2a, 0x5fcb6fab3ad6faec, 0x6c44198c4a475817]"

lemma cbrt_roots: "list_all (is_root 3 64) (zip std_primes (zip cbrt_parts cbrt_table))"
  by (simp add: std_primes_def cbrt_parts_def cbrt_table_def is_root_def)

lemma cbrt_fracs: "map (root_frac 3 64) std_primes = cbrt_table"
  by (rule root_fracs [OF _ cbrt_roots]) (simp_all add: std_primes_def cbrt_parts_def cbrt_table_def)

lemma cbrt_fracs_32: "map (root_frac 3 32) std_primes = map (\<lambda>c. c div 2 ^ 32) cbrt_table"
proof -
  have "list_all (is_root 3 (32 + 32)) (zip std_primes (zip cbrt_parts cbrt_table))"
    using cbrt_roots by (simp only: numeral_plus_numeral add_num_simps)
  from root_fracs_short [OF _ this] show ?thesis
    by (simp add: std_primes_def cbrt_parts_def cbrt_table_def)
qed

section \<open>Octets, padding and blocks\<close>

text \<open>The number an octet string writes, and the last \<open>n\<close> octets of a number; big-endian.\<close>

definition octets_value :: "byte list \<Rightarrow> nat" where
  "octets_value = foldl (\<lambda>v b. 256 * v + unat b) 0"

definition octets :: "nat \<Rightarrow> nat \<Rightarrow> byte list" where
  "octets n v = map (\<lambda>i. word_of_nat (v div 256 ^ (n - 1 - i))) [0..<n]"

text \<open>
  The bit 1, the least number of zeros that completes the last block of \<open>n\<close> octets, and the length in
  bits, in \<open>k\<close> octets.
\<close>

definition std_zeros :: "nat \<Rightarrow> nat \<Rightarrow> nat \<Rightarrow> nat" where
  "std_zeros n k len = nat ((- int k - 1 - int len) mod int n)"

definition std_pad :: "nat \<Rightarrow> nat \<Rightarrow> byte list \<Rightarrow> byte list" where
  "std_pad n k m = m @ 0x80 # replicate (std_zeros n k (length m)) 0 @ octets k (8 * length m)"

lemma length_octets [simp]: "length (octets n v) = n"
  by (simp add: octets_def)

text \<open>The padding is what the standard describes: it fills the block, with less than a block of zeros.\<close>

lemma std_pad_blocks: "0 < n \<Longrightarrow> length (std_pad n k m) mod n = 0"
proof -
  assume n: "0 < n"
  have "int (length (std_pad n k m)) = int (length m) + 1 + int k + (- int k - 1 - int (length m)) mod int n"
    using n by (simp add: std_pad_def std_zeros_def)
  then have "int (length (std_pad n k m)) mod int n = 0" by (simp add: mod_add_right_eq)
  then show ?thesis by (simp add: zmod_int [symmetric])
qed

text \<open>The hash computation: the compression function over the blocks.\<close>

definition std_blocks :: "nat \<Rightarrow> ('s \<Rightarrow> byte list \<Rightarrow> 's) \<Rightarrow> 's \<Rightarrow> byte list \<Rightarrow> 's" where
  "std_blocks n F H m = foldl (\<lambda>H i. F H (take n (drop (i * n) m))) H [0..<length m div n]"

text \<open>Word \<open>t\<close> of a block, of \<open>b\<close> octets.\<close>

definition std_word :: "nat \<Rightarrow> byte list \<Rightarrow> nat \<Rightarrow> 'a::len word" where
  "std_word b M t = word_of_nat (octets_value (take b (drop (b * t) M)))"

section \<open>SHA-1\<close>

definition std_Ch :: "'a::len word \<Rightarrow> 'a word \<Rightarrow> 'a word \<Rightarrow> 'a word" where
  "std_Ch x y z = (x AND y) XOR (NOT x AND z)"

definition std_Maj :: "'a::len word \<Rightarrow> 'a word \<Rightarrow> 'a word \<Rightarrow> 'a word" where
  "std_Maj x y z = (x AND y) XOR (x AND z) XOR (y AND z)"

definition std_f :: "nat \<Rightarrow> int32 \<Rightarrow> int32 \<Rightarrow> int32 \<Rightarrow> int32" where
  "std_f t x y z =
     (if t \<le> 19 then std_Ch x y z else if t \<le> 39 then x XOR y XOR z
      else if t \<le> 59 then std_Maj x y z else x XOR y XOR z)"

text \<open>\<open>2 ^ 30\<close> times the square roots of 2, 3, 5 and 10.\<close>

definition std_K1 :: "nat \<Rightarrow> int32" where
  "std_K1 t = word_of_nat (iroot 2 ((if t \<le> 19 then 2 else if t \<le> 39 then 3 else if t \<le> 59 then 5 else 10) * 2 ^ 60))"

fun std_W1 :: "byte list \<Rightarrow> nat \<Rightarrow> int32" where
  "std_W1 M t =
     (if t \<le> 15 then std_word 4 M t
      else word_rotl 1 (std_W1 M (t - 3) XOR std_W1 M (t - 8) XOR std_W1 M (t - 14) XOR std_W1 M (t - 16)))"

declare std_W1.simps [simp del]

type_synonym std_H1 = "int32 \<times> int32 \<times> int32 \<times> int32 \<times> int32"

definition std_round1 :: "byte list \<Rightarrow> nat \<Rightarrow> std_H1 \<Rightarrow> std_H1" where
  "std_round1 M t = (\<lambda>(a, b, c, d, e).
     (word_rotl 5 a + std_f t b c d + e + std_K1 t + std_W1 M t, a, word_rotl 30 b, c, d))"

definition std_compress1 :: "std_H1 \<Rightarrow> byte list \<Rightarrow> std_H1" where
  "std_compress1 H M =
     (case fold (std_round1 M) [0..<80] H of (a, b, c, d, e) \<Rightarrow>
      case H of (H0, H1, H2, H3, H4) \<Rightarrow> (a + H0, b + H1, c + H2, d + H3, e + H4))"

definition std_start1 :: std_H1 where
  "std_start1 = (0x67452301, 0xefcdab89, 0x98badcfe, 0x10325476, 0xc3d2e1f0)"

definition std_sha1 :: "byte list \<Rightarrow> byte list" where
  "std_sha1 m =
     (case std_blocks 64 std_compress1 std_start1 (std_pad 64 8 m) of (H0, H1, H2, H3, H4) \<Rightarrow>
        octets 4 (unat H0) @ octets 4 (unat H1) @ octets 4 (unat H2) @ octets 4 (unat H3) @ octets 4 (unat H4))"

section \<open>SHA-2\<close>

text \<open>
  The functions on words of 32 bits and of 64 bits have the same shape; a \<open>std_sha2\<close> holds what the two
  do differently.
\<close>

type_synonym 'a std_H2 = "'a word \<times> 'a word \<times> 'a word \<times> 'a word \<times> 'a word \<times> 'a word \<times> 'a word \<times> 'a word"

record 'w std_sha2 =
  bSigma0 :: "'w \<Rightarrow> 'w"
  bSigma1 :: "'w \<Rightarrow> 'w"
  sSigma0 :: "'w \<Rightarrow> 'w"
  sSigma1 :: "'w \<Rightarrow> 'w"
  std_K :: "'w list"
  std_octets :: nat

definition std_Sigma :: "nat \<Rightarrow> nat \<Rightarrow> nat \<Rightarrow> 'a::len word \<Rightarrow> 'a word" where
  "std_Sigma i j k x = word_rotr i x XOR word_rotr j x XOR word_rotr k x"

definition std_sigma :: "nat \<Rightarrow> nat \<Rightarrow> nat \<Rightarrow> 'a::len word \<Rightarrow> 'a word" where
  "std_sigma i j k x = word_rotr i x XOR word_rotr j x XOR drop_bit k x"

definition std_words32 :: "32 word std_sha2" where
  "std_words32 = \<lparr>bSigma0 = std_Sigma 2 13 22, bSigma1 = std_Sigma 6 11 25,
     sSigma0 = std_sigma 7 18 3, sSigma1 = std_sigma 17 19 10,
     std_K = map (\<lambda>p. word_of_nat (root_frac 3 32 p)) (take 64 std_primes), std_octets = 4\<rparr>"

definition std_words64 :: "64 word std_sha2" where
  "std_words64 = \<lparr>bSigma0 = std_Sigma 28 34 39, bSigma1 = std_Sigma 14 18 41,
     sSigma0 = std_sigma 1 8 7, sSigma1 = std_sigma 19 61 6,
     std_K = map (\<lambda>p. word_of_nat (root_frac 3 64 p)) std_primes, std_octets = 8\<rparr>"

fun std_W :: "'a::len word std_sha2 \<Rightarrow> byte list \<Rightarrow> nat \<Rightarrow> 'a word" where
  "std_W S M t =
     (if t \<le> 15 then std_word (std_octets S) M t
      else sSigma1 S (std_W S M (t - 2)) + std_W S M (t - 7) + sSigma0 S (std_W S M (t - 15)) + std_W S M (t - 16))"

declare std_W.simps [simp del]

definition std_round :: "'a::len word std_sha2 \<Rightarrow> byte list \<Rightarrow> nat \<Rightarrow> 'a std_H2 \<Rightarrow> 'a std_H2" where
  "std_round S M t = (\<lambda>(a, b, c, d, e, f, g, h).
     let T1 = h + bSigma1 S e + std_Ch e f g + std_K S ! t + std_W S M t;
         T2 = bSigma0 S a + std_Maj a b c
     in (T1 + T2, a, b, c, d + T1, e, f, g))"

definition std_compress :: "'a::len word std_sha2 \<Rightarrow> 'a std_H2 \<Rightarrow> byte list \<Rightarrow> 'a std_H2" where
  "std_compress S H M =
     (case fold (std_round S M) [0..<length (std_K S)] H of (a, b, c, d, e, f, g, h) \<Rightarrow>
      case H of (H0, H1, H2, H3, H4, H5, H6, H7) \<Rightarrow>
        (a + H0, b + H1, c + H2, d + H3, e + H4, f + H5, g + H6, h + H7))"

definition std_eight :: "'w list \<Rightarrow> 'w \<times> 'w \<times> 'w \<times> 'w \<times> 'w \<times> 'w \<times> 'w \<times> 'w" where
  "std_eight xs = (xs ! 0, xs ! 1, xs ! 2, xs ! 3, xs ! 4, xs ! 5, xs ! 6, xs ! 7)"

definition std_hash2 :: "'a::len word std_sha2 \<Rightarrow> 'a std_H2 \<Rightarrow> byte list \<Rightarrow> byte list" where
  "std_hash2 S start m =
     (let b = std_octets S in
      case std_blocks (16 * b) (std_compress S) start (std_pad (16 * b) (2 * b) m) of
        (H0, H1, H2, H3, H4, H5, H6, H7) \<Rightarrow>
          concat (map (\<lambda>H. octets b (unat H)) [H0, H1, H2, H3, H4, H5, H6, H7]))"

text \<open>
  The initial values: the square roots of the first eight primes; for the truncated digests those of the
  next eight, of which SHA-224 takes the second 32 bits.
\<close>

definition std_sha256 :: "byte list \<Rightarrow> byte list" where
  "std_sha256 = std_hash2 std_words32 (std_eight (map (\<lambda>p. word_of_nat (root_frac 2 32 p)) (take 8 std_primes)))"

definition std_sha224 :: "byte list \<Rightarrow> byte list" where
  "std_sha224 m = take 28 (std_hash2 std_words32
     (std_eight (map (\<lambda>p. word_of_nat (root_frac 2 64 p mod 2 ^ 32)) (drop 8 (take 16 std_primes)))) m)"

definition std_sha512 :: "byte list \<Rightarrow> byte list" where
  "std_sha512 = std_hash2 std_words64 (std_eight (map (\<lambda>p. word_of_nat (root_frac 2 64 p)) (take 8 std_primes)))"

definition std_sha384 :: "byte list \<Rightarrow> byte list" where
  "std_sha384 m = take 48 (std_hash2 std_words64
     (std_eight (map (\<lambda>p. word_of_nat (root_frac 2 64 p)) (drop 8 (take 16 std_primes)))) m)"

section \<open>HMAC\<close>

text \<open>Blocks of 64 octets; a longer key is replaced by its digest.\<close>

definition std_hmac :: "(byte list \<Rightarrow> byte list) \<Rightarrow> byte list \<Rightarrow> byte list \<Rightarrow> byte list" where
  "std_hmac H K m =
     (let K0 = (if length K \<le> 64 then K else H K); K0 = K0 @ replicate (64 - length K0) 0
      in H (map (\<lambda>k. k XOR 0x5c) K0 @ H (map (\<lambda>k. k XOR 0x36) K0 @ m)))"

section \<open>Shifts, rotations and octets\<close>

text \<open>How an implementation writes a rotation, a big-endian word and its octets.\<close>

lemma rotr_shifts:
  fixes x :: "'a::len word"
  assumes "0 < n" and "n < LENGTH('a)"
  shows "drop_bit n x OR push_bit (LENGTH('a) - n) x = word_rotr n x"
proof (rule bit_word_eqI)
  fix k assume k: "k < LENGTH('a)"
  show "bit (drop_bit n x OR push_bit (LENGTH('a) - n) x) k = bit (word_rotr n x) k"
  proof (cases "k + n < LENGTH('a)")
    case True
    then have "\<not> LENGTH('a) - n \<le> k" by simp
    then show ?thesis using True assms k by (simp add: bit_simps bit_word_rotr_iff add.commute)
  next
    case False
    then have "(k + n) mod LENGTH('a) = k + n - LENGTH('a)" using assms k by (simp add: le_mod_geq)
    moreover have "LENGTH('a) - n \<le> k" using False by simp
    moreover have "\<not> bit x (n + k)" using False bit_imp_le_length [of x "n + k"] by auto
    ultimately show ?thesis using assms k False by (simp add: bit_simps bit_word_rotr_iff)
  qed
qed

lemma rotl_shifts:
  fixes x :: "'a::len word"
  assumes "0 < n" and "n < LENGTH('a)"
  shows "push_bit n x OR drop_bit (LENGTH('a) - n) x = word_rotl n x"
proof -
  have "word_rotl n x = word_rotr (LENGTH('a) - n) x"
  proof (rule bit_word_eqI)
    fix k assume k: "k < LENGTH('a)"
    have n: "n mod LENGTH('a) = n" using assms by simp
    show "bit (word_rotl n x) k = bit (word_rotr (LENGTH('a) - n) x) k"
      using k assms by (simp add: bit_word_rotl_iff bit_word_rotr_iff n add.commute)
  qed
  then show ?thesis
    using rotr_shifts [of "LENGTH('a) - n" x] assms by (simp add: or.commute)
qed

lemma foldl_octets:
  "foldl (\<lambda>v b. push_bit 8 v OR ucast b) (word_of_nat a) bs = (word_of_nat (foldl (\<lambda>v b. 256 * v + unat b) a bs) :: 'a::len word)"
  for bs :: "byte list"
proof (induction bs arbitrary: a)
  case (Cons b bs)
  have d: "\<not> bit (push_bit 8 x) n \<or> \<not> bit (ucast b :: 'a word) n" for x :: "'a word" and n
    using bit_imp_le_length [of b n] by (auto simp: bit_simps)
  have "push_bit 8 (word_of_nat a) OR ucast b = (push_bit 8 (word_of_nat a) + ucast b :: 'a word)"
    by (rule disjunctive_add [symmetric]) (rule d)
  also have "\<dots> = word_of_nat (256 * a + unat b)" by (simp add: push_bit_eq_mult)
  finally show ?case using Cons.IH [of "256 * a + unat b"] by simp
qed simp

lemma be_octets:
  "map (\<lambda>k. ucast (drop_bit (8 * k) w)) (rev [0..<n]) = octets n (unat w)" for w :: "'a::len word"
proof (rule nth_equalityI)
  fix i assume "i < length (map (\<lambda>k. ucast (drop_bit (8 * k) w) :: byte) (rev [0..<n]))"
  then have i: "i < n" by simp
  have "rev [0..<n] ! i = n - 1 - i" using i by (simp add: rev_nth)
  moreover have "ucast (drop_bit (8 * k) w) = (word_of_nat (unat w div 256 ^ k) :: byte)" for k
  proof -
    have "ucast (drop_bit (8 * k) w) = (word_of_nat (unat (drop_bit (8 * k) w)) :: byte)" by simp
    moreover have "(2 :: nat) ^ (8 * k) = 256 ^ k" by (simp add: power_mult)
    ultimately show ?thesis by (simp only: unat_drop_bit_eq [of "8 * k" w] drop_bit_eq_div [of _ "unat w"])
  qed
  ultimately show "map (\<lambda>k. ucast (drop_bit (8 * k) w)) (rev [0..<n]) ! i = octets n (unat w) ! i"
    using i by (simp add: octets_def)
qed (simp add: octets_def)

lemma octets_split: "octets (n + k) v = octets n (v div 256 ^ k) @ octets k v"
proof (rule nth_equalityI)
  fix i assume "i < length (octets (n + k) v)"
  then have i: "i < n + k" by simp
  show "octets (n + k) v ! i = (octets n (v div 256 ^ k) @ octets k v) ! i"
  proof (cases "i < n")
    case True
    then have "n + k - 1 - i = k + (n - 1 - i)" by simp
    then have "v div 256 ^ (n + k - 1 - i) = v div 256 ^ k div 256 ^ (n - 1 - i)"
      by (simp only: power_add div_mult2_eq)
    then show ?thesis using True i by (simp add: octets_def nth_append)
  next
    case False
    then have "i - n < k" "n + k - 1 - i = k - 1 - (i - n)" using i by simp_all
    then show ?thesis using False i by (simp add: octets_def nth_append del: One_nat_def)
  qed
qed simp

lemma octets_mod: "octets n (v mod 256 ^ n) = octets n v"
proof (rule nth_equalityI)
  fix i assume "i < length (octets n (v mod 256 ^ n))"
  then have i: "i < n" by simp
  define j where "j = n - 1 - i"
  have "n = j + (n - j)" using i by (simp add: j_def)
  then have "(256 :: nat) ^ n = 256 ^ j * 256 ^ (n - j)" by (metis power_add)
  then have "v mod 256 ^ n = 256 ^ j * (v div 256 ^ j mod 256 ^ (n - j)) + v mod 256 ^ j"
    by (simp only: mod_mult2_eq)
  then have "v mod 256 ^ n div 256 ^ j = v div 256 ^ j mod 256 ^ (n - j)" by simp
  moreover have "(256 :: nat) dvd 256 ^ (n - j)" using i by (simp add: j_def)
  ultimately have "v mod 256 ^ n div 256 ^ j mod 256 = v div 256 ^ j mod 256" by (simp add: mod_mod_cancel)
  then have "word_of_nat (v mod 256 ^ n div 256 ^ j) = (word_of_nat (v div 256 ^ j) :: byte)"
    by (simp add: word_unat_eq_iff unsigned_of_nat take_bit_eq_mod)
  then show "octets n (v mod 256 ^ n) ! i = octets n v ! i"
    using i by (simp add: octets_def j_def)
qed simp

end
