(* ===== verification/DigestApi.thy ===== *)
theory DigestApi
  imports Fips
begin

text \<open>
  The interface of the message digests: \<open>hashfunc_t\<close> of \<open>engine/common/common.h\<close> and its clients
  \<open>CalcHash\<close>, \<open>CalcHashInt\<close>, \<open>hashfunc_terminate_uint\<close> and \<open>CalcHMAC\<close> of \<open>engine/common/sha1.c\<close>.
  A context is allocated uninitialised (\<open>alloca\<close>), so \<open>init\<close> takes the memory it finds.  The locale
  \<open>stream_hash\<close> is what the clients rely on: however the message is cut into \<open>process\<close> calls,
  \<open>terminate\<close> writes one and the same function of the whole message.
\<close>

record 'c hashfunc_t =
  digestsize :: nat
  hash_init :: "'c \<Rightarrow> 'c"
  hash_process :: "'c \<Rightarrow> byte list \<Rightarrow> 'c res"
  hash_terminate :: "'c \<Rightarrow> (byte list \<times> 'c) res"

definition hashfunc_terminate_uint :: "'c hashfunc_t \<Rightarrow> 'c \<Rightarrow> int32 res" where
  "hashfunc_terminate_uint func context = rbind (hash_terminate func context) (\<lambda>(digest, _).
     foldl (\<lambda>r l. rbind r (\<lambda>r. rbind (peek digest l) (\<lambda>b.
              Inr (r XOR push_bit ((l mod 4) * 8) (ucast b)))))
       (Inr 0) [0..<digestsize func])"

definition CalcHashInt :: "'c hashfunc_t \<Rightarrow> 'c \<Rightarrow> byte list \<Rightarrow> int32 res" where
  "CalcHashInt func ctx dat =
     rbind (hash_process func (hash_init func ctx) dat) (hashfunc_terminate_uint func)"

text \<open>The result: the digest that was written, or \<open>None\<close> when nothing is written and 0 returned.\<close>

definition CalcHash :: "'c hashfunc_t \<Rightarrow> 'c \<Rightarrow> nat \<Rightarrow> byte list \<Rightarrow> byte list option res" where
  "CalcHash func ctx maxdigestsize string =
     (if maxdigestsize < digestsize func then Inr None
      else rbind (hash_process func (hash_init func ctx) string) (\<lambda>ctx.
           rbind (hash_terminate func ctx) (\<lambda>(digest, _). Inr (Some digest))))"

section \<open>HMAC\<close>

definition IPAD :: byte where "IPAD = 0x36"
definition OPAD :: byte where "OPAD = 0x5c"

text \<open>\<open>memxor\<close>: byte \<open>i\<close> of both arrays for \<open>i\<close> up to \<open>length\<close>, checked against both arrays.\<close>

fun memxor :: "byte list \<Rightarrow> byte list \<Rightarrow> nat list \<Rightarrow> byte list res" where
  "memxor dest src [] = Inr dest"
| "memxor dest src (i # is) =
     rbind (peek dest i) (\<lambda>d. rbind (peek src i) (\<lambda>s. rbind (poke i (d XOR s) dest) (\<lambda>dest.
       memxor dest src is)))"

definition hmac_pass :: "'c hashfunc_t \<Rightarrow> 'c \<Rightarrow> byte list \<Rightarrow> byte list \<Rightarrow> byte list res" where
  "hmac_pass hashfunc ctx block dat =
     rbind (hash_process hashfunc (hash_init hashfunc ctx) block) (\<lambda>ctx.
     rbind (hash_process hashfunc ctx dat) (\<lambda>ctx.
     rbind (hash_terminate hashfunc ctx) (\<lambda>(digest, _). Inr digest)))"

definition CalcHMAC ::
  "'c hashfunc_t \<Rightarrow> 'c \<Rightarrow> byte list \<Rightarrow> nat \<Rightarrow> byte list \<Rightarrow> byte list \<Rightarrow> byte list option res" where
  "CalcHMAC hashfunc ctx optkeybuf maxdigestsize dat key =
     (if digestsize hashfunc > 64 \<or> digestsize hashfunc > maxdigestsize then Inr None
      else
        let keylen = length key in
        rbind (if keylen > 64 then
                 rbind (hash_process hashfunc (hash_init hashfunc ctx) key) (\<lambda>c.
                 rbind (hash_terminate hashfunc c) (\<lambda>(digest, _). pokes 0 digest optkeybuf))
               else Inr key) (\<lambda>key.
        rbind (memxor (replicate 64 IPAD) key [0..<keylen]) (\<lambda>block.
        rbind (hmac_pass hashfunc ctx block dat) (\<lambda>innerhash.
        rbind (memxor (replicate 64 OPAD) key [0..<keylen]) (\<lambda>block.
        rbind (hmac_pass hashfunc ctx block (take (digestsize hashfunc) innerhash)) (\<lambda>digest.
          Inr (Some digest)))))))"

text \<open>HMAC with a key of at most one block, over the digest \<open>H\<close>.\<close>

definition hmac_pad :: "byte \<Rightarrow> byte list \<Rightarrow> byte list" where
  "hmac_pad b key = map (\<lambda>k. b XOR k) key @ replicate (64 - length key) b"

definition hmac :: "(byte list \<Rightarrow> byte list) \<Rightarrow> byte list \<Rightarrow> byte list \<Rightarrow> byte list" where
  "hmac H key m = H (hmac_pad OPAD key @ H (hmac_pad IPAD key @ m))"

lemma hmac_std: "length key \<le> 64 \<Longrightarrow> hmac H key m = std_hmac H key m"
proof -
  assume k: "length key \<le> 64"
  have c: "map (\<lambda>k. b XOR k) key = map (\<lambda>k. k XOR b) key" for b :: byte
    by (rule map_cong [OF refl]) (rule xor.commute)
  have "hmac_pad b key = map (\<lambda>k. k XOR b) (key @ replicate (64 - length key) 0)" for b
    unfolding hmac_pad_def by (simp only: c map_append map_replicate xor.left_neutral)
  then show ?thesis using k by (simp add: hmac_def std_hmac_def OPAD_def IPAD_def)
qed

lemma memxor_loop:
  "n + k \<le> length dest \<Longrightarrow> n + k \<le> length src \<Longrightarrow>
   memxor dest src [k..<n + k] =
   Inr (take k dest @ map2 (XOR) (take n (drop k dest)) (take n (drop k src)) @ drop (n + k) dest)"
proof (induction n arbitrary: k dest)
  case (Suc n)
  have "[k..<Suc n + k] = k # [Suc k..<n + Suc k]" by (simp add: upt_conv_Cons)
  moreover have "memxor (dest[k := dest ! k XOR src ! k]) src [Suc k..<n + Suc k] =
      Inr (take (Suc k) (dest[k := dest ! k XOR src ! k]) @
           map2 (XOR) (take n (drop (Suc k) dest)) (take n (drop (Suc k) src)) @ drop (n + Suc k) dest)"
    using Suc.IH [of "Suc k" "dest[k := dest ! k XOR src ! k]"] Suc.prems by simp
  moreover have "drop k dest = dest ! k # drop (Suc k) dest" "drop k src = src ! k # drop (Suc k) src"
    using Suc.prems by (simp_all add: Cons_nth_drop_Suc)
  ultimately show ?case
    using Suc.prems by (simp add: take_Suc_conv_app_nth)
qed simp

lemma map2_replicate: "length ys = n \<Longrightarrow> map2 f (replicate n x) ys = map (f x) ys"
  by (induction ys arbitrary: n) auto

lemma memxor_pad: "length key \<le> 64 \<Longrightarrow> memxor (replicate 64 b) key [0..<length key] = Inr (hmac_pad b key)"
  using memxor_loop [of "length key" 0 "replicate 64 b" key]
  by (simp add: hmac_pad_def map2_replicate min_def)

lemma memxor_outside:
  "\<exists>i \<in> set is. length dest \<le> i \<Longrightarrow> memxor dest src is = Inl Out_Of_Bounds"
proof (induction "is" arbitrary: dest)
  case (Cons i "is")
  show ?case
  proof (cases "i < length dest \<and> i < length src")
    case True
    with Cons.prems have "\<exists>j \<in> set is. length (dest[i := dest ! i XOR src ! i]) \<le> j" by auto
    from Cons.IH [OF this] True show ?thesis by simp
  qed (auto simp: peek_def)
qed simp

section \<open>What a digest promises\<close>

locale stream_hash =
  fixes hf :: "'c hashfunc_t"
    and mem :: "'c \<Rightarrow> bool"
    and rep :: "'c \<Rightarrow> byte list \<Rightarrow> bool"
    and H :: "byte list \<Rightarrow> byte list"
    and lim :: nat
  assumes init_law: "\<And>c. mem c \<Longrightarrow> rep (hash_init hf c) []"
    and process_law: "\<And>c m d. rep c m \<Longrightarrow> length d < lim \<Longrightarrow>
      \<exists>c'. hash_process hf c d = Inr c' \<and> rep c' (m @ d)"
    and terminate_law: "\<And>c m. rep c m \<Longrightarrow> \<exists>c'. hash_terminate hf c = Inr (H m, c')"
    and size_law: "\<And>m. length (H m) = digestsize hf"
    and lim_law: "64 < lim"
begin

lemma CalcHash_eq:
  assumes "mem c" and "length d < lim" and "digestsize hf \<le> n"
  shows "CalcHash hf c n d = Inr (Some (H d))"
proof -
  obtain c' where "hash_process hf (hash_init hf c) d = Inr c'" "rep c' d"
    using process_law [OF init_law [OF assms(1)] assms(2)] by auto
  then show ?thesis
    using terminate_law [of c' d] assms(3) by (auto simp: CalcHash_def)
qed

lemma process_chunks:
  "rep c m \<Longrightarrow> list_all (\<lambda>d. length d < lim) ds \<Longrightarrow>
   \<exists>c'. foldl (\<lambda>r d. rbind r (\<lambda>c. hash_process hf c d)) (Inr c) ds = Inr c' \<and> rep c' (m @ concat ds)"
proof (induction ds arbitrary: c m)
  case (Cons d ds)
  then obtain c' where "hash_process hf c d = Inr c'" "rep c' (m @ d)"
    using process_law [of c m d] by auto
  with Cons.IH [of c' "m @ d"] Cons.prems show ?case by simp
qed simp

lemma hash_chunks:
  assumes "mem c" and "list_all (\<lambda>d. length d < lim) ds"
  shows "\<exists>c'. rbind (foldl (\<lambda>r d. rbind r (\<lambda>c. hash_process hf c d)) (Inr (hash_init hf c)) ds)
    (hash_terminate hf) = Inr (H (concat ds), c')"
  using process_chunks [OF init_law [OF assms(1)] assms(2)] terminate_law by fastforce

lemma hmac_pass_eq:
  assumes "mem c" and "length b < lim" and "length d < lim"
  shows "hmac_pass hf c b d = Inr (H (b @ d))"
proof -
  obtain c1 where c1: "hash_process hf (hash_init hf c) b = Inr c1" "rep c1 b"
    using process_law [OF init_law [OF assms(1)] assms(2)] by auto
  obtain c2 where c2: "hash_process hf c1 d = Inr c2" "rep c2 (b @ d)"
    using process_law [OF c1(2) assms(3)] by auto
  obtain c3 where "hash_terminate hf c2 = Inr (H (b @ d), c3)"
    using terminate_law [OF c2(2)] by auto
  with c1 c2 show ?thesis by (simp add: hmac_pass_def)
qed

lemma CalcHMAC_eq:
  assumes "mem c" and "length d < lim" and "length key \<le> 64"
    and "digestsize hf \<le> 64" and "digestsize hf \<le> n"
  shows "CalcHMAC hf c buf n d key = Inr (Some (hmac H key d))"
proof -
  have pad: "length (hmac_pad b key) < lim" for b
    using assms(3) lim_law by (simp add: hmac_pad_def)
  have inner: "length (H (hmac_pad IPAD key @ d)) < lim" "take (digestsize hf) (H x) = H x" for x
    using size_law assms(4) lim_law by simp_all
  show ?thesis
    using assms(3-5) hmac_pass_eq [OF assms(1) pad assms(2)] hmac_pass_eq [OF assms(1) pad inner(1)]
      memxor_pad [OF assms(3)] inner(2)
    by (simp add: CalcHMAC_def hmac_def Let_def)
qed

text \<open>
  A key longer than a block is replaced by its digest, but \<open>keylen\<close> keeps the old length: the
  xor runs past the 64 bytes of \<open>block\<close>.
\<close>

lemma CalcHMAC_long_key:
  assumes "mem c" and "64 < length key" and "length key < lim" and "length buf = 64"
    and "digestsize hf \<le> 64" and "digestsize hf \<le> n"
  shows "CalcHMAC hf c buf n d key = Inl Out_Of_Bounds"
proof -
  obtain c' where c': "hash_process hf (hash_init hf c) key = Inr c'" "rep c' key"
    using process_law [OF init_law [OF assms(1)] assms(3)] by auto
  moreover obtain c'' where "hash_terminate hf c' = Inr (H key, c'')"
    using terminate_law [OF c'(2)] by auto
  moreover have "pokes 0 (H key) buf = Inr (H key @ drop (digestsize hf) buf)"
    using pokes_Inr [of 0 "H key" buf] assms(4,5) size_law by simp
  moreover have "memxor (replicate 64 IPAD) k [0..<length key] = Inl Out_Of_Bounds" for k
    using assms(2) by (intro memxor_outside) auto
  ultimately show ?thesis
    using assms(2,5,6) by (simp add: CalcHMAC_def Let_def)
qed

end

section \<open>Buffering whole blocks\<close>

text \<open>
  \<open>absorb\<close> is the reference for all the block digests: run the compression function over the
  whole blocks of the data, from the left, and keep what is left over.
\<close>

fun absorb :: "nat \<Rightarrow> ('s \<Rightarrow> byte list \<Rightarrow> 's) \<Rightarrow> 's \<Rightarrow> byte list \<Rightarrow> 's \<times> byte list" where
  "absorb n T s m =
     (if 0 < n \<and> n \<le> length m then absorb n T (T s (take n m)) (drop n m) else (s, m))"

declare absorb.simps [simp del]

lemma absorb_short: "length m < n \<Longrightarrow> absorb n T s m = (s, m)"
  by (simp add: absorb.simps)

lemma absorb_block: "0 < n \<Longrightarrow> length b = n \<Longrightarrow> absorb n T s (b @ m) = absorb n T (T s b) m"
  by (simp add: absorb.simps [of n T s "b @ m"])

lemma absorb_append:
  "absorb n T s (m @ d) = (case absorb n T s m of (s', r) \<Rightarrow> absorb n T s' (r @ d))"
proof (induction n T s m rule: absorb.induct)
  case (1 n T s m)
  show ?case
  proof (cases "0 < n \<and> n \<le> length m")
    case True
    then have "absorb n T s (m @ d) = absorb n T (T s (take n m)) (drop n m @ d)"
      by (simp add: absorb.simps [of n T s "m @ d"])
    with True 1 show ?thesis by (simp add: absorb.simps [of n T s m])
  next
    case False
    then have "absorb n T s m = (s, m)" by (simp only: absorb.simps [of n T s m] if_False)
    then show ?thesis by simp
  qed
qed

lemma absorb_rest: "0 < n \<Longrightarrow> length (snd (absorb n T s m)) = length m mod n"
proof (induction n T s m rule: absorb.induct)
  case (1 n T s m)
  then show ?case
    by (cases "n \<le> length m") (simp_all add: absorb.simps [of n T s m] le_mod_geq)
qed

text \<open>\<open>for ( ; i + 63 < len; i += 64) Transform(state, data + i);\<close>\<close>

function transform_from :: "('s \<Rightarrow> byte list \<Rightarrow> 's) \<Rightarrow> 's \<Rightarrow> byte list \<Rightarrow> nat \<Rightarrow> 's \<times> nat" where
  "transform_from T s dat i =
     (if i + 63 < length dat then transform_from T (T s (take 64 (drop i dat))) dat (i + 64)
      else (s, i))"
  by pat_completeness auto
termination
  by (relation "measure (\<lambda>(T, s, dat, i). length dat - i)") auto

declare transform_from.simps [simp del]

lemma transform_from_absorb:
  assumes "i \<le> length dat"
  shows "absorb 64 T s (drop i dat) =
    (fst (transform_from T s dat i), drop (snd (transform_from T s dat i)) dat)"
  using assms
proof (induction T s dat i rule: transform_from.induct)
  case (1 T s dat i)
  show ?case
  proof (cases "i + 63 < length dat")
    case True
    then have "64 \<le> length (drop i dat)" by simp
    with 1 True show ?thesis
      by (simp add: absorb.simps [of 64 T s] transform_from.simps [of T s dat i] add.commute)
  next
    case False
    then have "length (drop i dat) < 64" using 1(2) by simp
    with False show ?thesis
      by (simp add: absorb_short transform_from.simps [of T s dat i])
  qed
qed

text \<open>
  The body that \<open>SHA1Update\<close> and \<open>MD4Update\<close> share: with \<open>j\<close> bytes in the buffer, fill it up, run the
  whole blocks, and keep the rest.
\<close>

definition fill_blocks ::
  "('s \<Rightarrow> byte list \<Rightarrow> 's) \<Rightarrow> 's \<Rightarrow> byte list \<Rightarrow> nat \<Rightarrow> byte list \<Rightarrow> ('s \<times> byte list) res" where
  "fill_blocks T state buffer j dat =
     (if j + length dat > 63 then
        let i = 64 - j in
        rbind (pokes j (take i dat) buffer) (\<lambda>buffer.
          let (state, i) = transform_from T (T state buffer) dat i in
          rbind (pokes 0 (drop i dat) buffer) (\<lambda>buffer. Inr (state, buffer)))
      else rbind (pokes j dat buffer) (\<lambda>buffer. Inr (state, buffer)))"

definition block_rep ::
  "('s \<Rightarrow> byte list \<Rightarrow> 's) \<Rightarrow> 's \<Rightarrow> 's \<Rightarrow> byte list \<Rightarrow> byte list \<Rightarrow> bool" where
  "block_rep T s0 state buffer m \<longleftrightarrow>
     length buffer = 64 \<and> absorb 64 T s0 m = (state, take (length m mod 64) buffer)"

lemma block_rep_init: "length buffer = 64 \<Longrightarrow> block_rep T s0 s0 buffer []"
  by (simp add: block_rep_def absorb_short)

lemma absorb_restD: "absorb 64 T s0 m = (st, r) \<Longrightarrow> length r = length m mod 64"
  using absorb_rest [of 64 T s0 m] by simp

lemma fill_blocks_rep:
  assumes rep: "block_rep T s0 s buf m"
  shows "\<exists>s' buf'. fill_blocks T s buf (length m mod 64) d = Inr (s', buf') \<and>
    block_rep T s0 s' buf' (m @ d)"
proof -
  let ?j = "length m mod 64"
  have buf: "length buf = 64" and ab: "absorb 64 T s0 m = (s, take ?j buf)"
    using rep by (auto simp: block_rep_def)
  have app: "absorb 64 T s0 (m @ d) = absorb 64 T s (take ?j buf @ d)"
    by (simp only: absorb_append [of _ _ _ m d] ab prod.case)
  have j: "?j < 64" by simp
  show ?thesis
  proof (cases "?j + length d > 63")
    case False
    then have p: "pokes ?j d buf = Inr (take ?j buf @ d @ drop (?j + length d) buf)"
      using buf by (intro pokes_Inr) simp
    have ab': "absorb 64 T s0 (m @ d) = (s, take ?j buf @ d)"
      using False buf unfolding app by (intro absorb_short) simp
    have "length (m @ d) mod 64 = ?j + length d"
      using absorb_restD [OF ab'] buf by simp
    with ab' p False buf show ?thesis
      by (simp add: fill_blocks_def block_rep_def)
  next
    case True
    let ?b1 = "take ?j buf @ take (64 - ?j) d"
    have b1: "length ?b1 = 64" using True buf j by simp
    have "length (take (64 - ?j) d) = 64 - ?j" using True by simp
    then have p1: "pokes ?j (take (64 - ?j) d) buf = Inr ?b1"
      using pokes_Inr [of ?j "take (64 - ?j) d" buf] buf j by simp
    obtain s' i where si: "transform_from T (T s ?b1) d (64 - ?j) = (s', i)"
      by (cases "transform_from T (T s ?b1) d (64 - ?j)")
    have "absorb 64 T s0 (m @ d) = absorb 64 T s (?b1 @ drop (64 - ?j) d)"
      unfolding app by simp
    also have "\<dots> = absorb 64 T (T s ?b1) (drop (64 - ?j) d)"
      by (rule absorb_block) (use b1 in auto)
    also have "\<dots> = (s', drop i d)"
      using transform_from_absorb [of "64 - ?j" d T "T s ?b1"] True si by simp
    finally have ab': "absorb 64 T s0 (m @ d) = (s', drop i d)" .
    then have len: "length (drop i d) = length (m @ d) mod 64" by (rule absorb_restD)
    obtain r where r: "r = drop i d" by simp
    obtain b1 where b1': "b1 = ?b1" by simp
    have small: "length r < 64" "length r = length (m @ d) mod 64"
      unfolding r using len by simp_all
    have lb: "length b1 = 64" unfolding b1' by (rule b1)
    have "pokes 0 r b1 = Inr (r @ drop (length r) b1)"
      using pokes_Inr [of 0 r b1] lb small(1) by simp
    moreover have "block_rep T s0 s' (r @ drop (length r) b1) (m @ d)"
      using ab' small lb unfolding block_rep_def r [symmetric] by simp
    ultimately show ?thesis
      using p1 si True unfolding r b1' by (simp add: fill_blocks_def Let_def)
  qed
qed

section \<open>The 64-bit count of bits in two unsigned ints\<close>

definition count_low :: "nat \<Rightarrow> int32" where "count_low len = word_of_nat (8 * len)"
definition count_high :: "nat \<Rightarrow> int32" where "count_high len = word_of_nat (8 * len div 2 ^ 32)"

lemma carry_test: "b < M \<Longrightarrow> (a + b) mod M < b \<longleftrightarrow> M \<le> a mod M + b" for a b M :: nat
proof -
  assume b: "b < M"
  obtain x where x: "x = a mod M" "x < M" using b by auto
  have "(a + b) mod M = (x + b) mod M" unfolding x by (simp add: mod_add_left_eq)
  also have "\<dots> = (if M \<le> x + b then x + b - M else x + b)"
    using x(2) b by (simp add: le_mod_geq)
  finally show ?thesis using x(2) b unfolding x(1) [symmetric] by auto
qed

lemma carry_div: "b < M \<Longrightarrow> (a + b) div M = a div M + (if M \<le> a mod M + b then 1 else 0)" for a b M :: nat
proof -
  assume b: "b < M"
  obtain x where x: "x = a mod M" "x < M" using b by auto
  have "a + b = x + b + a div M * M" unfolding x by simp
  then have "(a + b) div M = a div M + (x + b) div M"
    using b by (simp only: div_mult_self1)
  moreover have "(x + b) div M = (if M \<le> x + b then 1 else 0)"
  proof -
    have "x + b - M < M" using x(2) b by linarith
    then show ?thesis using b by (simp add: div_if [of "x + b"])
  qed
  ultimately show ?thesis unfolding x by simp
qed

lemma count_index: "unat (drop_bit 3 (count_low len) AND 63) = len mod 64"
proof -
  have "drop_bit 3 (count_low len) AND 63 = (word_of_nat (take_bit 6 len) :: int32)"
  proof (rule bit_word_eqI)
    fix n
    have l: "(8 :: nat) * len = push_bit 3 len" by (simp add: push_bit_eq_mult)
    have m: "(63 :: int32) = mask 6" by (simp add: mask_eq_exp_minus_1)
    show "bit (drop_bit 3 (count_low len) AND 63) n = bit (word_of_nat (take_bit 6 len) :: int32) n"
      unfolding count_low_def l m by (auto simp: bit_simps)
  qed
  moreover have "take_bit 6 len = len mod 64" by (simp add: take_bit_eq_mod)
  moreover have "len mod 64 < 2 ^ 32"
    by (rule less_trans [of _ 64]) simp_all
  ultimately show ?thesis by (simp add: unsigned_of_nat take_bit_eq_mod)
qed

lemma unat_word_of_nat32: "unat (word_of_nat n :: int32) = n mod 2 ^ 32"
  by (simp add: unsigned_of_nat take_bit_eq_mod)

lemma unat_word_of_nat64: "unat (word_of_nat n :: u64) = n mod 2 ^ 64"
  by (simp add: unsigned_of_nat take_bit_eq_mod)

lemma mod_64_32: "(x + y mod 18446744073709551616) mod 4294967296 = (x + y) mod 4294967296" for x y :: int
proof -
  have "y mod 18446744073709551616 mod 4294967296 = y mod 4294967296"
    by (rule mod_mod_cancel) simp
  then show ?thesis by (metis mod_add_right_eq)
qed

lemma mod_64_32': "(x mod 4294967296 + y) mod 18446744073709551616 mod 4294967296 = (x + y) mod 4294967296"
  for x y :: int
proof -
  have "(x mod 4294967296 + y) mod 18446744073709551616 mod 4294967296 = (x mod 4294967296 + y) mod 4294967296"
    by (rule mod_mod_cancel) simp
  then show ?thesis by (simp only: mod_add_left_eq)
qed

lemma ucast_add_down: "ucast (ucast a + b :: u64) = a + (ucast b :: int32)" for a :: int32
  by transfer (simp add: take_bit_eq_mod mod_64_32 mod_64_32' mod_add_left_eq mod_add_right_eq)

lemma ucast_word_of_nat: "(ucast (word_of_nat n :: u64) :: int32) = word_of_nat n"
  by transfer simp

lemma count_zero: "count_low 0 = 0" "count_high 0 = 0"
  by (simp_all add: count_low_def count_high_def)

text \<open>Adding \<open>l\<close> bytes, for \<open>8 * l\<close> below two to the 32: the low half wraps exactly when it is then below what was added.\<close>

lemma count_add:
  assumes "l < 2 ^ 29"
  shows "count_low len + word_of_nat (8 * l) = count_low (len + l)"
    and "unat (count_low (len + l)) < 8 * l \<longleftrightarrow> 2 ^ 32 \<le> 8 * len mod 2 ^ 32 + 8 * l"
    and "count_high (len + l) =
      (if unat (count_low (len + l)) < 8 * l then count_high len + 1 else count_high len)"
proof -
  have l: "8 * l < 2 ^ 32" using assms by simp
  show "count_low len + word_of_nat (8 * l) = count_low (len + l)"
    by (simp add: count_low_def algebra_simps)
  have u: "unat (count_low (len + l)) = (8 * len + 8 * l) mod 2 ^ 32"
    by (simp only: count_low_def unat_word_of_nat32 distrib_left)
  show t: "unat (count_low (len + l)) < 8 * l \<longleftrightarrow> 2 ^ 32 \<le> 8 * len mod 2 ^ 32 + 8 * l"
    unfolding u by (rule carry_test [OF l])
  have "8 * (len + l) div 2 ^ 32 =
      8 * len div 2 ^ 32 + (if 2 ^ 32 \<le> 8 * len mod 2 ^ 32 + 8 * l then 1 else 0)"
    using carry_div [OF l, of "8 * len"] by (simp only: distrib_left)
  then show "count_high (len + l) =
      (if unat (count_low (len + l)) < 8 * l then count_high len + 1 else count_high len)"
    unfolding t count_high_def by (simp split: if_split)
qed

lemma count_masked: "count_low len AND 504 = word_of_nat (8 * (len mod 64))"
proof (rule bit_word_eqI)
  fix n
  have l: "(8 :: nat) * k = push_bit 3 k" for k by (simp add: push_bit_eq_mult)
  have m: "(504 :: int32) = push_bit 3 (mask 6)" by (simp add: mask_eq_exp_minus_1)
  have t: "len mod 64 = take_bit 6 len" by (simp add: take_bit_eq_mod)
  assume "n < LENGTH(32)"
  then show "bit (count_low len AND 504) n = bit (word_of_nat (8 * (len mod 64)) :: int32) n"
    unfolding count_low_def l m t by (auto simp: bit_simps)
qed

lemma count_low_504: "count_low len AND 504 = 448 \<longleftrightarrow> len mod 64 = 56"
proof -
  have "8 * (len mod 64) < 2 ^ 32" by (rule less_trans [of _ 512]) simp_all
  then have "unat (count_low len AND 504) = 8 * (len mod 64)"
    unfolding count_masked unat_word_of_nat32 by (rule mod_less)
  then show ?thesis by (simp add: word_unat_eq_iff)
qed

section \<open>Big-endian words\<close>

definition be32 :: "int32 \<Rightarrow> byte list" where
  "be32 w = [ucast (drop_bit 24 w), ucast (drop_bit 16 w), ucast (drop_bit 8 w), ucast w]"

definition get_be32 :: "byte list \<Rightarrow> nat \<Rightarrow> int32" where
  "get_be32 b i = push_bit 24 (ucast (b ! i)) OR push_bit 16 (ucast (b ! (i + 1))) OR
     push_bit 8 (ucast (b ! (i + 2))) OR ucast (b ! (i + 3))"

definition get_le32 :: "byte list \<Rightarrow> nat \<Rightarrow> int32" where
  "get_le32 b i = ucast (b ! i) OR push_bit 8 (ucast (b ! (i + 1))) OR
     push_bit 16 (ucast (b ! (i + 2))) OR push_bit 24 (ucast (b ! (i + 3)))"

definition rol32 :: "int32 \<Rightarrow> nat \<Rightarrow> int32" where
  "rol32 value bits = push_bit bits value OR drop_bit (32 - bits) value"

lemma length_be32 [simp]: "length (be32 w) = 4"
  by (simp add: be32_def)

section \<open>The standards' formulation\<close>

lemma std_blocks_absorb: "0 < n \<Longrightarrow> fst (absorb n T s m) = std_blocks n T s m"
proof (induction n T s m rule: absorb.induct)
  case (1 n T s m)
  show ?case
  proof (cases "n \<le> length m")
    case True
    define k where "k = (length m - n) div n"
    have l: "length m div n = Suc k" using True 1(2) by (simp add: k_def le_div_geq)
    have u: "[0..<Suc k] = 0 # map Suc [0..<k]" by (simp add: upt_conv_Cons map_Suc_upt del: upt_Suc)
    have "std_blocks n T s m = std_blocks n T (T s (take n m)) (drop n m)"
      unfolding std_blocks_def l u by (simp add: k_def foldl_map add.commute)
    then show ?thesis using 1 True by (subst absorb.simps) simp
  next
    case False
    then show ?thesis by (simp add: absorb_short std_blocks_def)
  qed
qed

lemma std_blocks_cong:
  assumes "\<And>s b. length b = n \<Longrightarrow> T s b = T' s b"
  shows "std_blocks n T s m = std_blocks n T' s m"
proof -
  have "length (take n (drop (i * n) m)) = n" if "i < length m div n" for i
  proof -
    have "Suc i * n \<le> length m div n * n" using that by (intro mult_le_mono1) simp
    also have "\<dots> \<le> length m" by (rule div_times_less_eq_dividend)
    finally show ?thesis by simp
  qed
  then show ?thesis unfolding std_blocks_def using assms by (intro foldl_cong) simp_all
qed

lemma be32_octets: "be32 w = octets 4 (unat w)"
proof -
  have "rev [0..<4] = [3, 2, 1, 0::nat]" by (simp add: upt_conv_Cons)
  then show ?thesis using be_octets [of w 4] by (simp add: be32_def)
qed

lemma get_be32_word: "4 * i + 4 \<le> length M \<Longrightarrow> get_be32 M (4 * i) = std_word 4 M i"
proof -
  assume l: "4 * i + 4 \<le> length M"
  have t: "take 4 (drop (4 * i) M) = [M ! (4 * i), M ! (4 * i + 1), M ! (4 * i + 2), M ! (4 * i + 3)]"
    by (rule nth_equalityI) (use l in \<open>auto simp: less_Suc_eq numeral_eq_Suc\<close>)
  have "std_word 4 M i = (foldl (\<lambda>v b. push_bit 8 v OR ucast b) (word_of_nat 0) (take 4 (drop (4 * i) M)) :: int32)"
    unfolding std_word_def octets_value_def foldl_octets ..
  also have "\<dots> = get_be32 M (4 * i)"
    unfolding t by (simp add: get_be32_def push_bit_or or.assoc)
  finally show ?thesis by simp
qed

lemma rol32_rotl: "0 < n \<Longrightarrow> n < 32 \<Longrightarrow> rol32 w n = word_rotl n w"
  using rotl_shifts [of n w] by (simp add: rol32_def)

section \<open>Padding\<close>

text \<open>How many zero bytes follow the byte \<open>0x80\<close> up to eight bytes before the end of a block.\<close>

definition pad_zeros :: "nat \<Rightarrow> nat" where
  "pad_zeros len = (119 - len mod 64) mod 64"

lemma pad_zeros: "(len + 1 + pad_zeros len) mod 64 = 56" "pad_zeros len < 64"
proof -
  obtain r where r: "r = len mod 64" "r < 64" by simp
  have "(len + 1 + pad_zeros len) mod 64 = (r + 1 + (119 - r) mod 64) mod 64"
    unfolding pad_zeros_def r(1) by (metis mod_add_left_eq)
  also have "\<dots> = (r + 1 + (119 - r)) mod 64" by (rule mod_add_right_eq)
  also have "\<dots> = 56" using r(2) by simp
  finally show "(len + 1 + pad_zeros len) mod 64 = 56" .
  show "pad_zeros len < 64" by (simp add: pad_zeros_def)
qed

lemma pad_length:
  "(if len mod 64 < 56 then 56 - len mod 64 else 120 - len mod 64) = Suc (pad_zeros len)"
proof -
  obtain r where r: "r = len mod 64" "r < 64" by simp
  have "(119 - r) mod 64 = (if r < 56 then 55 - r else 119 - r)"
  proof (cases "r < 56")
    case True
    then have "119 - r = 55 - r + 64" by simp
    then have "(119 - r) mod 64 = (55 - r) mod 64" by (simp only: mod_add_self2)
    then show ?thesis using True by simp
  qed (use r in simp)
  then show ?thesis using r(2) unfolding pad_zeros_def r(1) [symmetric] by auto
qed

text \<open>The zeros of the standard's padding, without a subtraction below zero.\<close>

lemma std_zeros_eq: "k + 1 < n \<Longrightarrow> std_zeros n k len = (n + (n - k) - 1 - len mod n) mod n"
proof -
  assume k: "k + 1 < n"
  have "(- int k - 1 - int len) mod int n = (- int k - 1 - int len mod int n) mod int n"
    by (simp add: mod_diff_right_eq)
  also have "\<dots> = (- int k - 1 - int len mod int n + 2 * int n) mod int n" by simp
  also have "- int k - 1 - int len mod int n + 2 * int n = int (n + (n - k) - 1 - len mod n)"
  proof -
    obtain r where r: "r = len mod n" "r < n" using k by simp
    then show ?thesis using k unfolding zmod_int [symmetric] r(1) [symmetric] by linarith
  qed
  finally show ?thesis by (simp add: std_zeros_def zmod_int [symmetric])
qed

end
