(* ===== verification/Sha1.thy ===== *)
theory Sha1
  imports DigestApi
begin

text \<open>
  SHA-1 of \<open>engine/common/sha1.c\<close>: context, compression function, update with buffering, padding;
  and the proof that, cut into pieces of less than \<open>2 ^ 29\<close> bytes, every message has the digest
  that FIPS 180-4 (theory \<open>Fips\<close>) gives it.
\<close>

type_synonym sha1_state = "int32 \<times> int32 \<times> int32 \<times> int32 \<times> int32"

record SHA1_CTX =
  sha_state :: sha1_state
  sha_count0 :: int32
  sha_count1 :: int32
  sha_buffer :: "byte list"

section \<open>The compression function\<close>

text \<open>
  \<open>block->l\<close> as the list of its 16 words; \<open>blk0\<close> is the big-endian word \<open>i\<close> of the data, \<open>blk\<close>
  replaces word \<open>i & 15\<close> by the next one of the schedule.
\<close>

definition blk :: "nat \<Rightarrow> int32 list \<Rightarrow> int32 \<times> int32 list" where
  "blk i l = (let w = rol32 (l ! ((i + 13) mod 16) XOR l ! ((i + 8) mod 16) XOR
                             l ! ((i + 2) mod 16) XOR l ! (i mod 16)) 1
              in (w, l[i mod 16 := w]))"

definition sha1_f :: "nat \<Rightarrow> int32 \<Rightarrow> int32 \<Rightarrow> int32 \<Rightarrow> int32" where
  "sha1_f i w x y =
     (if i < 20 then (w AND (x XOR y)) XOR y
      else if i < 40 then w XOR x XOR y
      else if i < 60 then ((w OR x) AND y) OR (w AND x)
      else w XOR x XOR y)"

definition sha1_k :: "nat \<Rightarrow> int32" where
  "sha1_k i = (if i < 20 then 0x5A827999 else if i < 40 then 0x6ED9EBA1
               else if i < 60 then 0x8F1BBCDC else 0xCA62C1D6)"

text \<open>
  \<open>R0\<close> to \<open>R4\<close>.  The 80 unrolled calls pass the variables one place further along each time, which
  the step does by returning them rotated.
\<close>

definition sha1_step :: "nat \<Rightarrow> int32 list \<times> sha1_state \<Rightarrow> int32 list \<times> sha1_state" where
  "sha1_step i s = (case s of (l, v, w, x, y, z) \<Rightarrow>
     let (b, l) = (if i < 16 then (l ! i, l) else blk i l);
         z = z + (sha1_f i w x y + b + sha1_k i + rol32 v 5);
         w = rol32 w 30
     in (l, z, v, w, x, y))"

definition SHA1Transform :: "sha1_state \<Rightarrow> byte list \<Rightarrow> sha1_state" where
  "SHA1Transform state buffer =
     (case fold sha1_step [0..<80] (map (\<lambda>i. get_be32 buffer (4 * i)) [0..<16], state) of
        (l, a, b, c, d, e) \<Rightarrow> (case state of (s0, s1, s2, s3, s4) \<Rightarrow>
          (s0 + a, s1 + b, s2 + c, s3 + d, s4 + e)))"

section \<open>The streaming interface\<close>

definition sha1_start :: sha1_state where
  "sha1_start = (0x67452301, 0xEFCDAB89, 0x98BADCFE, 0x10325476, 0xC3D2E1F0)"

definition SHA1Init :: "SHA1_CTX \<Rightarrow> SHA1_CTX" where
  "SHA1Init context = context\<lparr>sha_state := sha1_start, sha_count0 := 0, sha_count1 := 0\<rparr>"

text \<open>
  The counts are \<open>unsigned int\<close>, \<open>len << 3\<close> is a 64-bit \<open>size_t\<close>: the comparison that detects the
  carry is made at 64 bits.
\<close>

definition SHA1Update :: "SHA1_CTX \<Rightarrow> byte list \<Rightarrow> SHA1_CTX res" where
  "SHA1Update context dat =
     (let len = word_of_nat (length dat) :: u64;
          j = unat (drop_bit 3 (sha_count0 context) AND 63);
          count0 = ucast (ucast (sha_count0 context) + push_bit 3 len) :: int32;
          count1 = (if ucast count0 < push_bit 3 len then sha_count1 context + 1 else sha_count1 context);
          count1 = count1 + ucast (drop_bit 29 len)
      in rbind (fill_blocks SHA1Transform (sha_state context) (sha_buffer context) j dat)
           (\<lambda>(state, buffer).
             Inr (context\<lparr>sha_state := state, sha_count0 := count0, sha_count1 := count1,
                          sha_buffer := buffer\<rparr>)))"

text \<open>The zero bytes of the padding, one call each; there are at most 63, \<open>fuel\<close> bounds the loop.\<close>

fun sha1_zero_pad :: "nat \<Rightarrow> SHA1_CTX \<Rightarrow> SHA1_CTX res" where
  "sha1_zero_pad fuel context =
     (if sha_count0 context AND 504 \<noteq> 448 then
        (case fuel of
           0 \<Rightarrow> Inl Stack_Overflow
         | Suc fuel \<Rightarrow> rbind (SHA1Update context [0]) (sha1_zero_pad fuel))
      else Inr context)"

declare sha1_zero_pad.simps [simp del]

definition sha1_digest :: "sha1_state \<Rightarrow> byte list" where
  "sha1_digest s = (case s of (a, b, c, d, e) \<Rightarrow> be32 a @ be32 b @ be32 c @ be32 d @ be32 e)"

definition SHA1Final :: "SHA1_CTX \<Rightarrow> (byte list \<times> SHA1_CTX) res" where
  "SHA1Final context =
     (let finalcount = be32 (sha_count1 context) @ be32 (sha_count0 context) in
      rbind (SHA1Update context [0x80]) (\<lambda>context.
      rbind (sha1_zero_pad 63 context) (\<lambda>context.
      rbind (SHA1Update context finalcount) (\<lambda>context.
        Inr (sha1_digest (sha_state context),
             context\<lparr>sha_buffer := replicate 64 0,
                     sha_state := SHA1Transform (0, 0, 0, 0, 0) (replicate 64 0),
                     sha_count0 := 0, sha_count1 := 0\<rparr>)))))"

definition hash_sha1 :: "SHA1_CTX hashfunc_t" where
  "hash_sha1 = \<lparr>digestsize = 20, hash_init = SHA1Init, hash_process = SHA1Update,
     hash_terminate = SHA1Final\<rparr>"

section \<open>The digest in one piece\<close>

definition sha1_padding :: "nat \<Rightarrow> byte list" where
  "sha1_padding len = 0x80 # replicate (pad_zeros len) 0 @ be32 (count_high len) @ be32 (count_low len)"

definition sha1 :: "byte list \<Rightarrow> byte list" where
  "sha1 m = sha1_digest (fst (absorb 64 SHA1Transform sha1_start (m @ sha1_padding (length m))))"

definition sha1_mem :: "SHA1_CTX \<Rightarrow> bool" where
  "sha1_mem c \<longleftrightarrow> length (sha_buffer c) = 64"

definition sha1_rep :: "SHA1_CTX \<Rightarrow> byte list \<Rightarrow> bool" where
  "sha1_rep c m \<longleftrightarrow> block_rep SHA1Transform sha1_start (sha_state c) (sha_buffer c) m \<and>
     sha_count0 c = count_low (length m) \<and> sha_count1 c = count_high (length m)"

lemma SHA1Init_rep: "sha1_mem c \<Longrightarrow> sha1_rep (SHA1Init c) []"
  by (simp add: sha1_mem_def sha1_rep_def SHA1Init_def block_rep_init count_zero)

lemma size_t_shift:
  assumes "l < 2 ^ 29"
  shows "push_bit 3 (word_of_nat l :: u64) = word_of_nat (8 * l)"
    and "unat (word_of_nat (8 * l) :: u64) = 8 * l"
    and "drop_bit 29 (word_of_nat l :: u64) = 0"
proof -
  show "push_bit 3 (word_of_nat l :: u64) = word_of_nat (8 * l)"
    by (simp add: push_bit_eq_mult)
  have "8 * l < 2 ^ 64" using assms by simp
  then show "unat (word_of_nat (8 * l) :: u64) = 8 * l"
    unfolding unat_word_of_nat64 by (rule mod_less)
  have "unat (word_of_nat l :: u64) = l"
    using assms by (simp add: unsigned_of_nat take_bit_eq_mod)
  moreover have "unat (drop_bit 29 (word_of_nat l :: u64)) = drop_bit 29 (unat (word_of_nat l :: u64))"
    by (rule unat_drop_bit_eq)
  ultimately have "unat (drop_bit 29 (word_of_nat l :: u64)) = 0"
    using assms by (simp only: drop_bit_eq_div div_less)
  then show "drop_bit 29 (word_of_nat l :: u64) = 0" by (simp only: unat_eq_0)
qed

lemma SHA1Update_rep:
  assumes rep: "sha1_rep c m" and len: "length d < 2 ^ 29"
  shows "\<exists>c'. SHA1Update c d = Inr c' \<and> sha1_rep c' (m @ d)"
proof -
  note S = size_t_shift [OF len] and C = count_add [OF len, of "length m"]
  have c: "block_rep SHA1Transform sha1_start (sha_state c) (sha_buffer c) m"
    "sha_count0 c = count_low (length m)" "sha_count1 c = count_high (length m)"
    using rep by (auto simp: sha1_rep_def)
  obtain st buf where fb:
    "fill_blocks SHA1Transform (sha_state c) (sha_buffer c) (length m mod 64) d = Inr (st, buf)"
    "block_rep SHA1Transform sha1_start st buf (m @ d)"
    using fill_blocks_rep [OF c(1), of d] by auto
  have low: "ucast (ucast (sha_count0 c) + push_bit 3 (word_of_nat (length d) :: u64)) =
      count_low (length (m @ d))"
    unfolding S c(2) length_append C(1) [symmetric]
    by (simp only: ucast_add_down ucast_word_of_nat)
  have high: "(ucast (count_low (length (m @ d))) < push_bit 3 (word_of_nat (length d) :: u64)) \<longleftrightarrow>
      unat (count_low (length (m @ d))) < 8 * length d"
    unfolding S word_less_nat_alt by (simp only: unat_ucast_up S(2))
  have "SHA1Update c d = Inr (c\<lparr>sha_state := st, sha_count0 := count_low (length (m @ d)),
      sha_count1 := count_high (length (m @ d)), sha_buffer := buf\<rparr>)"
    unfolding SHA1Update_def Let_def low high
    using fb(1) C(3) c(3) S(3) by (simp add: c(2) count_index)
  then show ?thesis
    using fb(2) by (simp add: sha1_rep_def)
qed

lemma sha1_zero_pad_rep:
  "sha1_rep c m \<Longrightarrow> (length m + n) mod 64 = 56 \<Longrightarrow> n < 64 \<Longrightarrow>
   n \<le> fuel \<Longrightarrow> \<exists>c'. sha1_zero_pad fuel c = Inr c' \<and> sha1_rep c' (m @ replicate n 0)"
proof (induction n arbitrary: c m fuel)
  case 0
  then have "sha_count0 c AND 504 = 448" by (simp add: sha1_rep_def count_low_504)
  then show ?case using 0 by (simp add: sha1_zero_pad.simps [of fuel])
next
  case (Suc n)
  then obtain f where f: "fuel = Suc f" "n \<le> f" by (cases fuel) auto
  have "length m mod 64 \<noteq> 56"
  proof
    assume "length m mod 64 = 56"
    then have "(56 + Suc n) mod 64 = 56" using Suc.prems(2) mod_add_left_eq [of "length m" 64 "Suc n"] by simp
    with Suc.prems(3) show False by (cases "56 + Suc n < 64") (simp_all add: le_mod_geq)
  qed
  then have "sha_count0 c AND 504 \<noteq> 448" using Suc.prems(1) by (simp add: sha1_rep_def count_low_504)
  moreover obtain c' where c': "SHA1Update c [0] = Inr c'" "sha1_rep c' (m @ [0])"
    using SHA1Update_rep [OF Suc.prems(1), of "[0]"] by auto
  moreover have "\<exists>c''. sha1_zero_pad f c' = Inr c'' \<and> sha1_rep c'' ((m @ [0]) @ replicate n 0)"
    using Suc.prems f by (intro Suc.IH [OF c'(2)]) simp_all
  ultimately show ?case
    unfolding f(1) by (simp add: sha1_zero_pad.simps [of "Suc f"])
qed

lemma SHA1Final_rep:
  assumes "sha1_rep c m"
  shows "\<exists>c'. SHA1Final c = Inr (sha1 m, c')"
proof -
  let ?n = "pad_zeros (length m)"
  let ?f = "be32 (count_high (length m)) @ be32 (count_low (length m))"
  obtain c1 where c1: "SHA1Update c [0x80] = Inr c1" "sha1_rep c1 (m @ [0x80])"
    using SHA1Update_rep [OF assms, of "[0x80]"] by auto
  obtain c2 where c2: "sha1_zero_pad 63 c1 = Inr c2" "sha1_rep c2 ((m @ [0x80]) @ replicate ?n 0)"
    using sha1_zero_pad_rep [OF c1(2), of ?n 63] pad_zeros [of "length m"] by auto
  obtain c3 where c3: "SHA1Update c2 ?f = Inr c3" "sha1_rep c3 (((m @ [0x80]) @ replicate ?n 0) @ ?f)"
    using SHA1Update_rep [OF c2(2), of ?f] by auto
  have fin: "be32 (sha_count1 c) @ be32 (sha_count0 c) = ?f"
    using assms by (simp add: sha1_rep_def)
  have "((m @ [0x80]) @ replicate ?n 0) @ ?f = m @ sha1_padding (length m)"
    by (simp add: sha1_padding_def)
  then have "sha_state c3 = fst (absorb 64 SHA1Transform sha1_start (m @ sha1_padding (length m)))"
    using c3(2) by (simp add: sha1_rep_def block_rep_def)
  then show ?thesis
    using c1(1) c2(1) c3(1) unfolding SHA1Final_def fin by (simp add: sha1_def Let_def)
qed

lemma length_sha1: "length (sha1 m) = 20"
  by (simp add: sha1_def sha1_digest_def split: prod.splits)

interpretation sha1: stream_hash hash_sha1 sha1_mem sha1_rep sha1 "2 ^ 29"
proof unfold_locales
  show "sha1_mem c \<Longrightarrow> sha1_rep (hash_init hash_sha1 c) []" for c
    using SHA1Init_rep by (simp add: hash_sha1_def)
  show "sha1_rep c m \<Longrightarrow> length d < 2 ^ 29 \<Longrightarrow>
      \<exists>c'. hash_process hash_sha1 c d = Inr c' \<and> sha1_rep c' (m @ d)" for c m d
    using SHA1Update_rep by (simp add: hash_sha1_def)
  show "sha1_rep c m \<Longrightarrow> \<exists>c'. hash_terminate hash_sha1 c = Inr (sha1 m, c')" for c m
    using SHA1Final_rep by (simp add: hash_sha1_def)
  show "length (sha1 m) = digestsize hash_sha1" for m
    by (simp add: length_sha1 hash_sha1_def)
qed simp

text \<open>
  A single update of \<open>2 ^ 29\<close> bytes or more always takes the branch of the carry, since a 32-bit
  count is below \<open>len << 3\<close>: the high half of the count is one too large when nothing carried.
\<close>

lemma SHA1Update_large:
  assumes c: "sha1_rep c m" and len: "length d = 2 ^ 29" and r: "SHA1Update c d = Inr c'"
  shows "sha_count1 c' = count_high (length m) + 2"
proof -
  have l: "(word_of_nat (length d) :: u64) = 536870912" unfolding len by simp
  have p: "push_bit 3 (536870912 :: u64) = 4294967296" "drop_bit 29 (536870912 :: u64) = 1" by simp_all
  have carry: "ucast x < (4294967296 :: u64)" for x :: int32
  proof -
    have "unat x < 2 ^ LENGTH(32)" by (rule unsigned_less)
    then show ?thesis by (simp add: word_less_nat_alt unat_ucast_up)
  qed
  have "sha_count1 c' = sha_count1 c + 1 + 1"
    using r unfolding SHA1Update_def Let_def l p by (auto simp: carry)
  with c show ?thesis by (simp add: sha1_rep_def)
qed

section \<open>The digest in one piece is the standard's\<close>

lemma sha1_f_std: "sha1_f t x y z = std_f t x y z"
  unfolding sha1_f_def std_f_def std_Ch_def std_Maj_def
  by (rule bit_word_eqI) (auto simp: bit_simps)

lemma sha1_k_std: "sha1_k t = std_K1 t"
proof -
  have "iroot 2 (2 * 2 ^ 60) = 0x5A827999" "iroot 2 (3 * 2 ^ 60) = 0x6ED9EBA1"
    "iroot 2 (5 * 2 ^ 60) = 0x8F1BBCDC" "iroot 2 (10 * 2 ^ 60) = 0xCA62C1D6"
    by ((rule iroot_unique, simp_all add: power2_eq_square)[1])+
  then show ?thesis by (auto simp: sha1_k_def std_K1_def)
qed

text \<open>The ring of sixteen words holds the last sixteen words of the schedule.\<close>

definition ring_of :: "byte list \<Rightarrow> nat \<Rightarrow> int32 list \<Rightarrow> bool" where
  "ring_of M i l \<longleftrightarrow> length l = 16 \<and> (\<forall>t. t < max i 16 \<longrightarrow> max i 16 \<le> t + 16 \<longrightarrow> l ! (t mod 16) = std_W1 M t)"

lemma blk_ring:
  assumes "ring_of M i l" and "16 \<le> i"
  shows "fst (blk i l) = std_W1 M i" and "ring_of M (Suc i) (snd (blk i l))"
proof -
  have l: "t < i \<Longrightarrow> i \<le> t + 16 \<Longrightarrow> l ! (t mod 16) = std_W1 M t" "length l = 16" for t
    using assms by (simp_all add: ring_of_def)
  have m: "(i + 13) mod 16 = (i - 3) mod 16" "(i + 8) mod 16 = (i - 8) mod 16" "(i + 2) mod 16 = (i - 14) mod 16"
    "i mod 16 = (i - 16) mod 16"
  proof -
    obtain k where "i = k + 16" using assms(2) le_Suc_ex by (metis add.commute)
    moreover have "k + 16 + 13 = k + 13 + 16" "k + 16 + 8 = k + 8 + 16" "k + 16 + 2 = k + 2 + 16" by simp_all
    ultimately show "(i + 13) mod 16 = (i - 3) mod 16" "(i + 8) mod 16 = (i - 8) mod 16"
      "(i + 2) mod 16 = (i - 14) mod 16" "i mod 16 = (i - 16) mod 16"
      by (simp_all only: mod_add_self2) (simp_all add: add.commute)
  qed
  have w: "rol32 (l ! ((i + 13) mod 16) XOR l ! ((i + 8) mod 16) XOR l ! ((i + 2) mod 16) XOR l ! (i mod 16)) 1 = std_W1 M i"
    unfolding m using assms(2) by (subst std_W1.simps) (simp add: l rol32_rotl)
  show "fst (blk i l) = std_W1 M i" unfolding blk_def w Let_def by simp
  have "l[i mod 16 := std_W1 M i] ! (t mod 16) = std_W1 M t" if t: "t < Suc i" "Suc i \<le> t + 16" for t
  proof (cases "t = i")
    case True
    then show ?thesis using l(2) by simp
  next
    case False
    then have "\<not> 16 dvd i - t" using t by (auto dest: dvd_imp_le)
    then have "i mod 16 \<noteq> t mod 16" using t mod_eq_dvd_iff_nat [of t i 16] by simp
    then show ?thesis using l(1) [of t] t False by simp
  qed
  then show "ring_of M (Suc i) (snd (blk i l))"
    using assms(2) l(2) unfolding blk_def w Let_def ring_of_def by simp
qed

lemma sha1_steps_std:
  assumes "64 \<le> length M"
  shows "\<exists>l. fold sha1_step [0..<i] (map (\<lambda>i. get_be32 M (4 * i)) [0..<16], s) = (l, fold (std_round1 M) [0..<i] s) \<and>
    ring_of M i l"
proof (induction i)
  case 0
  have "get_be32 M (4 * t) = std_W1 M t" if "t < 16" for t
    using that assms by (subst std_W1.simps) (simp add: get_be32_word)
  then show ?case by (simp add: ring_of_def)
next
  case (Suc i)
  then obtain l where l: "fold sha1_step [0..<i] (map (\<lambda>i. get_be32 M (4 * i)) [0..<16], s) = (l, fold (std_round1 M) [0..<i] s)"
    "ring_of M i l" by blast
  obtain a b c d e where st: "fold (std_round1 M) [0..<i] s = (a, b, c, d, e)" by (metis prod_cases5)
  obtain w l' where w: "(if i < 16 then (l ! i, l) else blk i l) = (w, l')" by fastforce
  have "w = std_W1 M i \<and> ring_of M (Suc i) l'"
  proof (cases "i < 16")
    case True
    then have "l ! (i mod 16) = std_W1 M i" using l(2) unfolding ring_of_def by (metis max.absorb2 less_imp_le le_add2)
    then show ?thesis using True l(2) w by (auto simp: ring_of_def max_def)
  next
    case False
    then show ?thesis using blk_ring [OF l(2)] w by simp
  qed
  then have "sha1_step i (l, a, b, c, d, e) = (l', std_round1 M i (a, b, c, d, e)) \<and> ring_of M (Suc i) l'"
    using w by (simp add: sha1_step_def std_round1_def sha1_f_std sha1_k_std rol32_rotl algebra_simps)
  then show ?case using l(1) st by simp
qed

lemma SHA1Transform_std: "length M = 64 \<Longrightarrow> SHA1Transform s M = std_compress1 s M"
  using sha1_steps_std [of M 80 s]
  by (auto simp: SHA1Transform_def std_compress1_def add.commute split: prod.splits)

lemma sha1_std: "sha1 m = std_sha1 m"
proof -
  have w: "be32 (word_of_nat v) = octets 4 v" for v
    using octets_mod [of 4 v] by (simp only: be32_octets unat_word_of_nat32) simp
  have "octets (4 + 4) v = be32 (word_of_nat (v div 2 ^ 32)) @ be32 (word_of_nat v)" for v
    unfolding w octets_split by simp
  then have "octets 8 (8 * n) = be32 (count_high n) @ be32 (count_low n)" for n
    unfolding count_high_def count_low_def by simp
  then have pad: "m @ sha1_padding (length m) = std_pad 64 8 m"
    by (simp add: sha1_padding_def std_pad_def std_zeros_eq pad_zeros_def)
  have "fst (absorb 64 SHA1Transform sha1_start (std_pad 64 8 m)) = std_blocks 64 std_compress1 std_start1 (std_pad 64 8 m)"
    using std_blocks_cong [of 64 SHA1Transform std_compress1] SHA1Transform_std
    by (simp add: std_blocks_absorb sha1_start_def std_start1_def)
  then show ?thesis
    by (simp add: sha1_def std_sha1_def pad sha1_digest_def be32_octets split: prod.split)
qed

section \<open>Properties\<close>

definition sha1_garbage :: SHA1_CTX where
  "sha1_garbage = \<lparr>sha_state = (1, 2, 3, 4, 5), sha_count0 = 6, sha_count1 = 7,
     sha_buffer = replicate 64 8\<rparr>"

lemma sha1_garbage_mem: "sha1_mem sha1_garbage"
  by (simp add: sha1_mem_def sha1_garbage_def)

text \<open>the digest of a message does not depend on how it is cut into updates, nor on what the
  context held before: it is the SHA-1 of FIPS 180-4 of the whole message.\<close>

theorem SHA1_stream:
  assumes "sha1_mem c" and "list_all (\<lambda>d. length d < 2 ^ 29) ds"
  shows "\<exists>c'. rbind (foldl (\<lambda>r d. rbind r (\<lambda>c. SHA1Update c d)) (Inr (SHA1Init c)) ds) SHA1Final =
    Inr (std_sha1 (concat ds), c')"
  using sha1.hash_chunks [OF assms] by (simp add: hash_sha1_def sha1_std)

theorem SHA1_stream_witness:
  "\<exists>c'. rbind (rbind (SHA1Update (SHA1Init sha1_garbage) [97]) (\<lambda>c. SHA1Update c [98, 99])) SHA1Final =
    Inr (std_sha1 [97, 98, 99], c')"
  using SHA1_stream [OF sha1_garbage_mem, of "[[97], [98, 99]]"] by simp

text \<open>C35: \<open>CalcHMAC\<close> over \<open>hash_sha1\<close>, with a key of at most 64 bytes (one block of SHA-1) and a message of
  less than \<open>2 ^ 29\<close> bytes, is the HMAC of RFC 2104 over the SHA-1 of FIPS 180-4, both written from the
  standards in \<open>Fips\<close>.  A longer key, and SHA-384 and SHA-512 with their blocks of 128 bytes, are not
  covered: there \<open>CalcHMAC\<close> is not HMAC.\<close>

theorem CalcHMAC_sha1:
  assumes "sha1_mem c" and "length m < 2 ^ 29" and "length key \<le> 64" and "20 \<le> n"
  shows "CalcHMAC hash_sha1 c buf n m key = Inr (Some (std_hmac std_sha1 key m))"
proof -
  have "sha1 = std_sha1" using sha1_std by (rule ext)
  moreover have "CalcHMAC hash_sha1 c buf n m key = Inr (Some (hmac sha1 key m))"
    using assms by (intro sha1.CalcHMAC_eq) (simp_all add: hash_sha1_def)
  ultimately show ?thesis using hmac_std [OF assms(3)] by simp
qed

theorem CalcHMAC_sha1_witness:
  "CalcHMAC hash_sha1 sha1_garbage [] 20 [1, 2] [3] = Inr (Some (std_hmac std_sha1 [3] [1, 2]))"
  using CalcHMAC_sha1 [OF sha1_garbage_mem, of "[1, 2]" "[3]" 20 "[]"] by simp

text \<open>a key longer than a block makes \<open>CalcHMAC\<close> write outside its block.\<close>

theorem CalcHMAC_sha1_long_key:
  assumes "sha1_mem c" and "64 < length key" and "length key < 2 ^ 29" and "length buf = 64" and "20 \<le> n"
  shows "CalcHMAC hash_sha1 c buf n m key = Inl Out_Of_Bounds"
  using assms by (intro sha1.CalcHMAC_long_key) (simp_all add: hash_sha1_def)

theorem CalcHMAC_sha1_long_key_witness:
  "CalcHMAC hash_sha1 sha1_garbage (replicate 64 0) 20 [] (replicate 65 1) = Inl Out_Of_Bounds"
  using CalcHMAC_sha1_long_key [OF sha1_garbage_mem, of "replicate 65 1" "replicate 64 0" 20 "[]"] by simp

text \<open>one update of exactly 512 MiB counts its bits wrongly: the high word of the count grows by
  two where it should grow by one.\<close>

theorem SHA1Update_512MiB:
  assumes "sha1_rep c m" and "length d = 2 ^ 29" and "SHA1Update c d = Inr c'"
  shows "sha_count1 c' = count_high (length (m @ d)) + 1"
proof -
  have "8 * length (m @ d) div 2 ^ 32 = 8 * length m div 2 ^ 32 + 1"
    using assms(2) by simp
  then have "count_high (length (m @ d)) = count_high (length m) + 1"
    by (simp add: count_high_def)
  then show ?thesis using SHA1Update_large [OF assms] by simp
qed

theorem SHA1Update_512MiB_witness:
  "\<exists>c' d. SHA1Update (SHA1Init sha1_garbage) d = Inr c' \<and> length d = 2 ^ 29 \<and>
    sha_count1 c' = count_high (length d) + 1"
proof -
  obtain d :: "byte list" where d: "length d = 2 ^ 29"
    using Ex_list_of_length [of "2 ^ 29"] by blast
  have rep: "sha1_rep (SHA1Init sha1_garbage) []"
    by (rule SHA1Init_rep [OF sha1_garbage_mem])
  obtain s b where fb: "fill_blocks SHA1Transform (sha_state (SHA1Init sha1_garbage))
      (sha_buffer (SHA1Init sha1_garbage)) 0 d = Inr (s, b)"
    using fill_blocks_rep [of SHA1Transform sha1_start "sha_state (SHA1Init sha1_garbage)"
        "sha_buffer (SHA1Init sha1_garbage)" "[]" d] rep
    by (auto simp: sha1_rep_def)
  have "unat (drop_bit 3 (sha_count0 (SHA1Init sha1_garbage)) AND 63) = 0"
    by (simp add: SHA1Init_def)
  with fb obtain c' where "SHA1Update (SHA1Init sha1_garbage) d = Inr c'"
    by (simp add: SHA1Update_def Let_def)
  with SHA1Update_512MiB [OF rep d] d show ?thesis
    by (intro exI [of _ c'] exI [of _ d]) simp
qed

end
