(* ===== verification/Sha2.thy ===== *)
theory Sha2
  imports DigestApi
begin

text \<open>
  SHA-2 of \<open>engine/common/sha2.c\<close>.  The file compiles itself twice, for 32-bit and for 64-bit
  words: its type \<open>u64\<close> is a word of either width here, and its \<open>#if SHA2==256\<close> is a test of that
  width.  The digests SHA-224, SHA-256, SHA-384 and SHA-512 are shown to be those of the standard
  (theory \<open>Fips\<close>) for every way of cutting the message.
\<close>

section \<open>Constants and the round function\<close>

definition BLOCKBYTES :: "'a::len itself \<Rightarrow> nat" where
  "BLOCKBYTES _ = 16 * (LENGTH('a) div 8)"

definition ROUNDS :: "'a::len itself \<Rightarrow> nat" where
  "ROUNDS _ = (if LENGTH('a) = 32 then 64 else 80)"

definition U64_C :: "u64 \<Rightarrow> 'a::len word" where
  "U64_C n = (if LENGTH('a) = 32 then ucast (drop_bit 32 n) else ucast n)"

definition U64_C_LOW :: "u64 \<Rightarrow> 'a::len word" where
  "U64_C_LOW n = ucast n"

type_synonym 'w oct = "'w \<times> 'w \<times> 'w \<times> 'w \<times> 'w \<times> 'w \<times> 'w \<times> 'w"
type_synonym 'a sha2_state = "'a word oct"

record 'w SHA2_CONTEXT =
  sha2_h :: "'w oct"
  nblocks :: 'w
  sha2_buf :: "byte list"
  sha2_count :: nat

definition sha2_start :: "'a::len sha2_state" where
  "sha2_start = (U64_C 0x6a09e667f3bcc908, U64_C 0xbb67ae8584caa73b, U64_C 0x3c6ef372fe94f82b,
     U64_C 0xa54ff53a5f1d36f1, U64_C 0x510e527fade682d1, U64_C 0x9b05688c2b3e6c1f,
     U64_C 0x1f83d9abfb41bd6b, U64_C 0x5be0cd19137e2179)"

definition sha2trunc_start :: "'a::len sha2_state" where
  "sha2trunc_start = (U64_C_LOW 0xcbbb9d5dc1059ed8, U64_C_LOW 0x629a292a367cd507,
     U64_C_LOW 0x9159015a3070dd17, U64_C_LOW 0x152fecd8f70e5939, U64_C_LOW 0x67332667ffc00b31,
     U64_C_LOW 0x8eb44a8768581511, U64_C_LOW 0xdb0c2e0d64f98fa7, U64_C_LOW 0x47b5481dbefa4fa4)"

definition sha2_init :: "'a::len word SHA2_CONTEXT \<Rightarrow> 'a word SHA2_CONTEXT" where
  "sha2_init ctx = ctx\<lparr>sha2_h := sha2_start, nblocks := 0, sha2_count := 0\<rparr>"

definition sha2trunc_init :: "'a::len word SHA2_CONTEXT \<Rightarrow> 'a word SHA2_CONTEXT" where
  "sha2trunc_init ctx = ctx\<lparr>sha2_h := sha2trunc_start, nblocks := 0, sha2_count := 0\<rparr>"

definition ROTR :: "'a::len word \<Rightarrow> nat \<Rightarrow> 'a word" where
  "ROTR x n = drop_bit n x OR push_bit (LENGTH('a) - n) x"

definition Ch :: "'a::len word \<Rightarrow> 'a word \<Rightarrow> 'a word \<Rightarrow> 'a word" where
  "Ch x y z = (x AND y) XOR (NOT x AND z)"

definition Maj :: "'a::len word \<Rightarrow> 'a word \<Rightarrow> 'a word \<Rightarrow> 'a word" where
  "Maj x y z = (x AND y) XOR (x AND z) XOR (y AND z)"

definition S0 :: "'a::len word \<Rightarrow> 'a word" where
  "S0 x = (if LENGTH('a) = 32 then ROTR x 7 XOR ROTR x 18 XOR drop_bit 3 x
           else ROTR x 1 XOR ROTR x 8 XOR drop_bit 7 x)"

definition S1 :: "'a::len word \<Rightarrow> 'a word" where
  "S1 x = (if LENGTH('a) = 32 then ROTR x 17 XOR ROTR x 19 XOR drop_bit 10 x
           else ROTR x 19 XOR ROTR x 61 XOR drop_bit 6 x)"

definition Sum0 :: "'a::len word \<Rightarrow> 'a word" where
  "Sum0 x = (if LENGTH('a) = 32 then ROTR x 2 XOR ROTR x 13 XOR ROTR x 22
             else ROTR x 28 XOR ROTR x 34 XOR ROTR x 39)"

definition Sum1 :: "'a::len word \<Rightarrow> 'a word" where
  "Sum1 x = (if LENGTH('a) = 32 then ROTR x 6 XOR ROTR x 11 XOR ROTR x 25
             else ROTR x 14 XOR ROTR x 18 XOR ROTR x 41)"

definition sha2_k :: "u64 list" where
  "sha2_k =
    [0x428a2f98d728ae22, 0x7137449123ef65cd, 0xb5c0fbcfec4d3b2f, 0xe9b5dba58189dbbc,
     0x3956c25bf348b538, 0x59f111f1b605d019, 0x923f82a4af194f9b, 0xab1c5ed5da6d8118,
     0xd807aa98a3030242, 0x12835b0145706fbe, 0x243185be4ee4b28c, 0x550c7dc3d5ffb4e2,
     0x72be5d74f27b896f, 0x80deb1fe3b1696b1, 0x9bdc06a725c71235, 0xc19bf174cf692694,
     0xe49b69c19ef14ad2, 0xefbe4786384f25e3, 0x0fc19dc68b8cd5b5, 0x240ca1cc77ac9c65,
     0x2de92c6f592b0275, 0x4a7484aa6ea6e483, 0x5cb0a9dcbd41fbd4, 0x76f988da831153b5,
     0x983e5152ee66dfab, 0xa831c66d2db43210, 0xb00327c898fb213f, 0xbf597fc7beef0ee4,
     0xc6e00bf33da88fc2, 0xd5a79147930aa725, 0x06ca6351e003826f, 0x142929670a0e6e70,
     0x27b70a8546d22ffc, 0x2e1b21385c26c926, 0x4d2c6dfc5ac42aed, 0x53380d139d95b3df,
     0x650a73548baf63de, 0x766a0abb3c77b2a8, 0x81c2c92e47edaee6, 0x92722c851482353b,
     0xa2bfe8a14cf10364, 0xa81a664bbc423001, 0xc24b8b70d0f89791, 0xc76c51a30654be30,
     0xd192e819d6ef5218, 0xd69906245565a910, 0xf40e35855771202a, 0x106aa07032bbd1b8,
     0x19a4c116b8d2d0c8, 0x1e376c085141ab53, 0x2748774cdf8eeb99, 0x34b0bcb5e19b48a8,
     0x391c0cb3c5c95a63, 0x4ed8aa4ae3418acb, 0x5b9cca4f7763e373, 0x682e6ff3d6b2b8a3,
     0x748f82ee5defb2fc, 0x78a5636f43172f60, 0x84c87814a1f0ab72, 0x8cc702081a6439ec,
     0x90befffa23631e28, 0xa4506cebde82bde9, 0xbef9a3f7b2c67915, 0xc67178f2e372532b,
     0xca273eceea26619c, 0xd186b8c721c0c207, 0xeada7dd6cde0eb1e, 0xf57d4f7fee6ed178,
     0x06f067aa72176fba, 0x0a637dc5a2c898a6, 0x113f9804bef90dae, 0x1b710b35131c471b,
     0x28db77f523047d84, 0x32caab7b40c72493, 0x3c9ebe0a15c9bebc, 0x431d67c49c100d4c,
     0x4cc5d4becb3e42b6, 0x597f299cfc657e2a, 0x5fcb6fab3ad6faec, 0x6c44198c4a475817]"

text \<open>
  \<open>w[16 ..]\<close>, one word appended at a time.  The eight unrolled rounds of the C loop pass the
  chaining variables one place further along each time; the step returns them rotated.
\<close>

definition sha2_schedule :: "nat \<Rightarrow> 'a::len word list \<Rightarrow> 'a word list" where
  "sha2_schedule t w = w @ [S1 (w ! (t - 2)) + w ! (t - 7) + S0 (w ! (t - 15)) + w ! (t - 16)]"

definition sha2_round :: "'a::len word list \<Rightarrow> nat \<Rightarrow> 'a sha2_state \<Rightarrow> 'a sha2_state" where
  "sha2_round w t s = (case s of (a, b, c, d, e, f, g, h) \<Rightarrow>
     let t1 = h + Sum1 e + Ch e f g + U64_C (sha2_k ! t) + w ! t;
         t2 = Sum0 a + Maj a b c
     in (t1 + t2, a, b, c, d + t1, e, f, g))"

text \<open>Word \<open>i\<close> of the data, its first byte the most significant one.\<close>

definition sha2_word :: "byte list \<Rightarrow> nat \<Rightarrow> 'a::len word" where
  "sha2_word dat i =
     foldl (\<lambda>v b. push_bit 8 v OR ucast b) 0 (take (LENGTH('a) div 8) (drop (i * (LENGTH('a) div 8)) dat))"

definition sha2_transform :: "'a::len sha2_state \<Rightarrow> byte list \<Rightarrow> 'a sha2_state" where
  "sha2_transform s dat =
     (let w = fold sha2_schedule [16..<ROUNDS TYPE('a)] (map (sha2_word dat) [0..<16]) in
      case fold (sha2_round w) [0..<ROUNDS TYPE('a)] s of (a, b, c, d, e, f, g, h) \<Rightarrow>
      case s of (h0, h1, h2, h3, h4, h5, h6, h7) \<Rightarrow>
        (h0 + a, h1 + b, h2 + c, h3 + d, h4 + e, h5 + f, h6 + g, h7 + h))"

section \<open>Writing\<close>

text \<open>The flush at the head of \<open>sha2_write\<close>, which is all that a call with a null buffer does.\<close>

definition sha2_flush :: "'a::len word SHA2_CONTEXT \<Rightarrow> 'a word SHA2_CONTEXT" where
  "sha2_flush ctx =
     (if sha2_count ctx = BLOCKBYTES TYPE('a)
      then ctx\<lparr>sha2_h := sha2_transform (sha2_h ctx) (sha2_buf ctx), sha2_count := 0, nblocks := nblocks ctx + 1\<rparr>
      else ctx)"

text \<open>\<open>for (; inlen && hd->count < BLOCKBYTES; inlen--) hd->buf[hd->count++] = *inbuf++;\<close>\<close>

fun sha2_fill :: "'a::len word SHA2_CONTEXT \<Rightarrow> byte list \<Rightarrow> ('a word SHA2_CONTEXT \<times> byte list) res" where
  "sha2_fill ctx [] = Inr (ctx, [])"
| "sha2_fill ctx (b # inbuf) =
     (if sha2_count ctx < BLOCKBYTES TYPE('a) then
        rbind (poke (sha2_count ctx) b (sha2_buf ctx)) (\<lambda>buf.
          sha2_fill (ctx\<lparr>sha2_buf := buf, sha2_count := sha2_count ctx + 1\<rparr>) inbuf)
      else Inr (ctx, b # inbuf))"

text \<open>\<open>while (inlen >= BLOCKBYTES)\<close>; a word narrower than a byte would make the block empty.\<close>

function sha2_blocks :: "'a::len word SHA2_CONTEXT \<Rightarrow> byte list \<Rightarrow> 'a word SHA2_CONTEXT \<times> byte list" where
  "sha2_blocks ctx inbuf =
     (if 0 < BLOCKBYTES TYPE('a) \<and> BLOCKBYTES TYPE('a) \<le> length inbuf
      then sha2_blocks (ctx\<lparr>sha2_h := sha2_transform (sha2_h ctx) (take (BLOCKBYTES TYPE('a)) inbuf),
                           sha2_count := 0, nblocks := nblocks ctx + 1\<rparr>)
                       (drop (BLOCKBYTES TYPE('a)) inbuf)
      else (ctx, inbuf))"
  by pat_completeness auto
termination
  by (relation "measure (\<lambda>(ctx, inbuf). length inbuf)") auto

declare sha2_blocks.simps [simp del]

definition sha2_write :: "'a::len word SHA2_CONTEXT \<Rightarrow> byte list \<Rightarrow> 'a word SHA2_CONTEXT res" where
  "sha2_write ctx inbuf =
     (let ctx = sha2_flush ctx in
      rbind (if sha2_count ctx \<noteq> 0
             then rbind (sha2_fill ctx inbuf) (\<lambda>(ctx, inbuf). Inr (sha2_flush ctx, inbuf))
             else Inr (ctx, inbuf)) (\<lambda>(ctx', inbuf).
      if sha2_count ctx \<noteq> 0 \<and> inbuf = [] then Inr ctx'
      else case sha2_blocks ctx' inbuf of (ctx, inbuf) \<Rightarrow>
           rbind (sha2_fill ctx inbuf) (\<lambda>(ctx, _). Inr ctx)))"

section \<open>Finishing\<close>

definition be_word :: "'a::len word \<Rightarrow> byte list" where
  "be_word w = map (\<lambda>k. ucast (drop_bit (8 * k) w)) (rev [0..<LENGTH('a) div 8])"

definition sha2_digest :: "'a::len sha2_state \<Rightarrow> byte list" where
  "sha2_digest s = (case s of (h0, h1, h2, h3, h4, h5, h6, h7) \<Rightarrow>
     concat (map be_word [h0, h1, h2, h3, h4, h5, h6, h7]))"

text \<open>The bit count: \<open>msb\<close> and \<open>lsb\<close> from the number of blocks and the bytes in the buffer.\<close>

definition sha2_bitcount :: "'a::len word SHA2_CONTEXT \<Rightarrow> 'a word \<times> 'a word" where
  "sha2_bitcount ctx =
     (let t = nblocks ctx;
          lsb = t * word_of_nat (BLOCKBYTES TYPE('a));
          msb = drop_bit (LENGTH('a) - (if BLOCKBYTES TYPE('a) = 128 then 7 else 6)) t;
          t = lsb;
          lsb = lsb + word_of_nat (sha2_count ctx);
          msb = (if lsb < t then msb + 1 else msb);
          t = lsb;
          lsb = push_bit 3 lsb;
          msb = push_bit 3 msb;
          msb = msb OR drop_bit (LENGTH('a) - 3) t
      in (msb, lsb))"

text \<open>\<open>while (hd->count < lim) hd->buf[hd->count++] = 0\<close> after the byte \<open>0x80\<close>.\<close>

definition sha2_pad_to :: "nat \<Rightarrow> 'a::len word SHA2_CONTEXT \<Rightarrow> 'a word SHA2_CONTEXT res" where
  "sha2_pad_to lim ctx =
     rbind (pokes (sha2_count ctx) (0x80 # replicate (lim - (sha2_count ctx + 1)) 0) (sha2_buf ctx)) (\<lambda>buf.
       Inr (ctx\<lparr>sha2_buf := buf, sha2_count := max lim (sha2_count ctx + 1)\<rparr>))"

definition sha2_final :: "'a::len word SHA2_CONTEXT \<Rightarrow> 'a word SHA2_CONTEXT res" where
  "sha2_final ctx =
     (let ctx = sha2_flush ctx;
          n = BLOCKBYTES TYPE('a);
          room = n - 2 * (LENGTH('a) div 8);
          (msb, lsb) = sha2_bitcount ctx
      in rbind (if sha2_count ctx < room then sha2_pad_to room ctx
                else rbind (sha2_pad_to n ctx) (\<lambda>ctx.
                     let ctx = sha2_flush ctx in
                     rbind (pokes 0 (replicate room 0) (sha2_buf ctx)) (\<lambda>buf.
                       Inr (ctx\<lparr>sha2_buf := buf\<rparr>)))) (\<lambda>ctx.
         rbind (pokes room (be_word msb @ be_word lsb) (sha2_buf ctx)) (\<lambda>buf.
         let s = sha2_transform (sha2_h ctx) buf in
         rbind (pokes 0 (sha2_digest s) buf) (\<lambda>buf.
           Inr (ctx\<lparr>sha2_h := s, sha2_buf := buf\<rparr>)))))"

definition sha2_finish :: "nat \<Rightarrow> 'a::len word SHA2_CONTEXT \<Rightarrow> (byte list \<times> 'a word SHA2_CONTEXT) res" where
  "sha2_finish n ctx = rbind (sha2_final ctx) (\<lambda>ctx. Inr (take n (sha2_buf ctx), ctx))"

definition hash_sha2_224 :: "32 word SHA2_CONTEXT hashfunc_t" where
  "hash_sha2_224 = \<lparr>digestsize = 28, hash_init = sha2trunc_init, hash_process = sha2_write,
     hash_terminate = sha2_finish 28\<rparr>"

definition hash_sha2_256 :: "32 word SHA2_CONTEXT hashfunc_t" where
  "hash_sha2_256 = \<lparr>digestsize = 32, hash_init = sha2_init, hash_process = sha2_write,
     hash_terminate = sha2_finish 32\<rparr>"

definition hash_sha2_384 :: "64 word SHA2_CONTEXT hashfunc_t" where
  "hash_sha2_384 = \<lparr>digestsize = 48, hash_init = sha2trunc_init, hash_process = sha2_write,
     hash_terminate = sha2_finish 48\<rparr>"

definition hash_sha2_512 :: "64 word SHA2_CONTEXT hashfunc_t" where
  "hash_sha2_512 = \<lparr>digestsize = 64, hash_init = sha2_init, hash_process = sha2_write,
     hash_terminate = sha2_finish 64\<rparr>"

section \<open>The digest in one piece\<close>

text \<open>The padding: the byte \<open>0x80\<close>, zeros up to two words before the end of a block, the bit count.\<close>

definition sha2_bits :: "'a::len itself \<Rightarrow> nat \<Rightarrow> byte list" where
  "sha2_bits _ len =
     be_word (word_of_nat (8 * len div 2 ^ LENGTH('a)) :: 'a word) @ be_word (word_of_nat (8 * len) :: 'a word)"

definition sha2_padding :: "'a::len itself \<Rightarrow> nat \<Rightarrow> byte list" where
  "sha2_padding T len =
     (let n = BLOCKBYTES T; room = n - 2 * (LENGTH('a) div 8)
      in 0x80 # replicate ((n + room - 1 - len mod n) mod n) 0 @ sha2_bits T len)"

definition sha2_ref :: "'a::len sha2_state \<Rightarrow> nat \<Rightarrow> byte list \<Rightarrow> byte list" where
  "sha2_ref s0 k m =
     take k (sha2_digest (fst (absorb (BLOCKBYTES TYPE('a)) sha2_transform s0
       (m @ sha2_padding TYPE('a) (length m)))))"

text \<open>
  \<open>nblocks\<close> is one word: the code counts the bytes modulo \<open>sha2_span\<close>, which is 256 GiB for the
  32-bit digests.  Below it \<open>sha2_code\<close> is \<open>sha2_ref\<close>.
\<close>

definition sha2_span :: "'a::len itself \<Rightarrow> nat" where
  "sha2_span T = BLOCKBYTES T * 2 ^ LENGTH('a)"

definition sha2_code :: "'a::len sha2_state \<Rightarrow> nat \<Rightarrow> byte list \<Rightarrow> byte list" where
  "sha2_code s0 k m =
     take k (sha2_digest (fst (absorb (BLOCKBYTES TYPE('a)) sha2_transform s0
       (m @ sha2_padding TYPE('a) (length m mod sha2_span TYPE('a))))))"

lemma sha2_code_ref: "length m < sha2_span TYPE('a) \<Longrightarrow> sha2_code s0 k m = sha2_ref s0 k m"
  for s0 :: "'a::len sha2_state"
  by (simp add: sha2_code_def sha2_ref_def)

definition sha2_width :: "'a::len itself \<Rightarrow> bool" where
  "sha2_width _ \<longleftrightarrow> LENGTH('a) = 32 \<or> LENGTH('a) = 64"

definition sha2_rep :: "'a::len sha2_state \<Rightarrow> 'a word SHA2_CONTEXT \<Rightarrow> byte list \<Rightarrow> bool" where
  "sha2_rep s0 c m \<longleftrightarrow>
     length (sha2_buf c) = BLOCKBYTES TYPE('a) \<and>
     sha2_count c = length m mod BLOCKBYTES TYPE('a) \<and>
     nblocks c = word_of_nat (length m div BLOCKBYTES TYPE('a)) \<and>
     absorb (BLOCKBYTES TYPE('a)) sha2_transform s0 m = (sha2_h c, take (sha2_count c) (sha2_buf c))"

lemma blockbytes_pos: "sha2_width TYPE('a::len) \<Longrightarrow> 0 < BLOCKBYTES TYPE('a)"
  by (auto simp: BLOCKBYTES_def sha2_width_def)

lemma sha2_flush_part: "sha2_count c < BLOCKBYTES TYPE('a) \<Longrightarrow> sha2_flush c = c"
  for c :: "'a::len word SHA2_CONTEXT"
  by (simp add: sha2_flush_def)

lemma sha2_fill_eq:
  fixes c :: "'a::len word SHA2_CONTEXT"
  assumes "length (sha2_buf c) = BLOCKBYTES TYPE('a)" and "sha2_count c \<le> BLOCKBYTES TYPE('a)"
    and k: "k = min (length d) (BLOCKBYTES TYPE('a) - sha2_count c)"
  shows "sha2_fill c d =
    Inr (c\<lparr>sha2_buf := take (sha2_count c) (sha2_buf c) @ take k d @ drop (sha2_count c + k) (sha2_buf c),
           sha2_count := sha2_count c + k\<rparr>, drop k d)"
  using assms
proof (induction c d arbitrary: k rule: sha2_fill.induct)
  case (2 c b d)
  show ?case
  proof (cases "sha2_count c < BLOCKBYTES TYPE('a)")
    case True
    let ?i = "sha2_count c"
    let ?c = "c\<lparr>sha2_buf := (sha2_buf c)[?i := b], sha2_count := ?i + 1\<rparr>"
    have "sha2_fill ?c d = Inr (?c\<lparr>sha2_buf := take (Suc ?i) (sha2_buf ?c) @ take (k - 1) d @
        drop (Suc ?i + (k - 1)) (sha2_buf ?c), sha2_count := Suc ?i + (k - 1)\<rparr>, drop (k - 1) d)"
    proof -
      have "k - 1 = min (length d) (BLOCKBYTES TYPE('a) - sha2_count ?c)"
        using 2(4) True by auto
      then show ?thesis
        using 2(1) [OF True, of "sha2_buf ?c" "k - 1"] 2(2) True by simp
    qed
    moreover have "k = Suc (k - 1)" using 2(4) True by simp
    moreover have "take (Suc ?i) ((sha2_buf c)[?i := b]) @ take (k - 1) d @ drop (Suc ?i + (k - 1)) ((sha2_buf c)[?i := b])
        = take ?i (sha2_buf c) @ (b # take (k - 1) d) @ drop (?i + Suc (k - 1)) (sha2_buf c)"
      using True 2(2) by (simp add: take_Suc_conv_app_nth)
    ultimately show ?thesis
      using True 2(2) by (cases k) simp_all
  qed (use 2(2-4) in simp)
qed simp

lemma sha2_blocks_eq:
  fixes c :: "'a::len word SHA2_CONTEXT"
  assumes "sha2_blocks c d = (c', r)" and "0 < BLOCKBYTES TYPE('a)" and "sha2_count c = 0"
  shows "absorb (BLOCKBYTES TYPE('a)) sha2_transform (sha2_h c) d = (sha2_h c', r)"
    and "nblocks c' = nblocks c + word_of_nat (length d div BLOCKBYTES TYPE('a))"
    and "sha2_count c' = 0" and "sha2_buf c' = sha2_buf c"
  using assms
proof (induction c d arbitrary: c' r rule: sha2_blocks.induct)
  case (1 c d)
  { case 1
    show ?case
    proof (cases "BLOCKBYTES TYPE('a) \<le> length d")
      case True
      with 1 "1.IH"(1) show ?thesis
        by (simp add: sha2_blocks.simps [of c d] absorb.simps [of _ _ _ d])
    qed (use 1 in \<open>simp add: sha2_blocks.simps [of c d] absorb_short\<close>) }
  { case 2
    show ?case
    proof (cases "BLOCKBYTES TYPE('a) \<le> length d")
      case True
      with 2 "1.IH"(2) show ?thesis
        by (simp add: sha2_blocks.simps [of c d] le_div_geq)
    qed (use 2 in \<open>simp add: sha2_blocks.simps [of c d]\<close>) }
  { case 3
    with "1.IH"(3) show ?case
      by (cases "BLOCKBYTES TYPE('a) \<le> length d") (simp_all add: sha2_blocks.simps [of c d]) }
  { case 4
    with "1.IH"(4) show ?case
      by (cases "BLOCKBYTES TYPE('a) \<le> length d") (simp_all add: sha2_blocks.simps [of c d]) }
qed

lemma length_be_word [simp]: "length (be_word w) = LENGTH('a) div 8" for w :: "'a::len word"
  by (simp add: be_word_def)

lemma sha2_tail_rep:
  fixes c :: "'a::len word SHA2_CONTEXT"
  assumes rep: "sha2_rep s0 c m" and n: "0 < BLOCKBYTES TYPE('a)" and c0: "sha2_count c = 0"
  shows "\<exists>c'. (case sha2_blocks c d of (c, d) \<Rightarrow> rbind (sha2_fill c d) (\<lambda>(c, _). Inr c)) = Inr c' \<and>
    sha2_rep s0 c' (m @ d)"
proof -
  let ?n = "BLOCKBYTES TYPE('a)"
  obtain c1 r where b: "sha2_blocks c d = (c1, r)" by fastforce
  note B = sha2_blocks_eq [OF b n c0]
  have dvd: "?n dvd length m"
    using rep c0 by (simp add: sha2_rep_def mod_eq_0_iff_dvd)
  have r: "length r = length d mod ?n"
    using absorb_rest [OF n, of sha2_transform "sha2_h c" d] by (simp add: B(1))
  have len: "length (sha2_buf c1) = ?n" using rep by (simp add: B(4) sha2_rep_def)
  have f: "sha2_fill c1 r = Inr (c1\<lparr>sha2_buf := r @ drop (length r) (sha2_buf c1),
      sha2_count := length r\<rparr>, [])"
    using sha2_fill_eq [of c1 "length r" r] len n by (simp add: B(3) r less_imp_le)
  have a: "absorb ?n sha2_transform s0 (m @ d) = (sha2_h c1, r)"
    using rep c0 B(1) unfolding absorb_append [of ?n sha2_transform s0 m d] by (simp add: sha2_rep_def)
  have q: "length (m @ d) div ?n = length m div ?n + length d div ?n"
    using dvd by (simp add: div_plus_div_distrib_dvd_left)
  have "sha2_rep s0 (c1\<lparr>sha2_buf := r @ drop (length r) (sha2_buf c1), sha2_count := length r\<rparr>) (m @ d)"
    using rep len a dvd n unfolding sha2_rep_def q
    by (simp add: B(2) r less_imp_le mod_add_eq [symmetric] mod_eq_0_iff_dvd)
  then show ?thesis by (simp add: b f)
qed

text \<open>Filling up a partial buffer: the data ends inside the block, or completes it.\<close>

lemma sha2_part_rep:
  fixes c :: "'a::len word SHA2_CONTEXT"
  assumes rep: "sha2_rep s0 c m" and n: "0 < BLOCKBYTES TYPE('a)"
    and k: "k = BLOCKBYTES TYPE('a) - sha2_count c"
  shows "length d < k \<Longrightarrow> \<exists>c'. sha2_fill c d = Inr (c', []) \<and> sha2_flush c' = c' \<and> sha2_rep s0 c' (m @ d)"
    and "k \<le> length d \<Longrightarrow> \<exists>c'. sha2_fill c d = Inr (c', drop k d) \<and>
      sha2_rep s0 (sha2_flush c') (m @ take k d) \<and> sha2_count (sha2_flush c') = 0"
proof -
  let ?n = "BLOCKBYTES TYPE('a)" and ?r = "sha2_count c"
  have r: "?r = length m mod ?n" "?r < ?n" and len: "length (sha2_buf c) = ?n"
    and nb: "nblocks c = word_of_nat (length m div ?n)"
    and ab: "absorb ?n sha2_transform s0 m = (sha2_h c, take ?r (sha2_buf c))"
    using rep n by (simp_all add: sha2_rep_def)
  have m: "length m = length m div ?n * ?n + ?r" by (simp add: r(1))
  { assume d: "length d < k"
    let ?c = "c\<lparr>sha2_buf := take ?r (sha2_buf c) @ d @ drop (?r + length d) (sha2_buf c),
      sha2_count := ?r + length d\<rparr>"
    have f: "sha2_fill c d = Inr (?c, [])"
      using sha2_fill_eq [OF len, of "length d" d] r(2) d k by simp
    have l: "length (m @ d) = length m div ?n * ?n + (?r + length d)" "?r + length d < ?n"
      using m d k by simp_all
    have q: "length (m @ d) mod ?n = ?r + length d" "length (m @ d) div ?n = length m div ?n"
      unfolding l(1) using l(2) by simp_all
    have "absorb ?n sha2_transform s0 (m @ d) = (sha2_h c, take ?r (sha2_buf c) @ d)"
      unfolding absorb_append [of ?n sha2_transform s0 m d] ab using len r(2) l(2) by (simp add: absorb_short)
    then have "sha2_rep s0 ?c (m @ d)"
      unfolding sha2_rep_def q using len l(2) nb r(2) by simp
    moreover have "sha2_flush ?c = ?c" using l(2) by (intro sha2_flush_part) simp
    ultimately show "\<exists>c'. sha2_fill c d = Inr (c', []) \<and> sha2_flush c' = c' \<and> sha2_rep s0 c' (m @ d)"
      using f by blast }
  { assume d: "k \<le> length d"
    let ?b = "take ?r (sha2_buf c) @ take k d"
    let ?c = "c\<lparr>sha2_buf := ?b, sha2_count := ?n\<rparr>"
    have f: "sha2_fill c d = Inr (?c, drop k d)"
      using sha2_fill_eq [OF len, of k d] r(2) d k len by simp
    have b: "length ?b = ?n" using len r(2) d k by simp
    have l: "length (m @ take k d) = Suc (length m div ?n) * ?n"
      using m d k r(2) by simp
    have q: "length (m @ take k d) mod ?n = 0" "length (m @ take k d) div ?n = Suc (length m div ?n)"
      unfolding l using n by simp_all
    have "absorb ?n sha2_transform s0 (m @ take k d) = (sha2_transform (sha2_h c) ?b, [])"
      unfolding absorb_append [of ?n sha2_transform s0 m "take k d"] ab using absorb_block [OF n b, of _ _ "[]"] n
      by (simp add: absorb_short)
    then have "sha2_rep s0 (sha2_flush ?c) (m @ take k d)"
      unfolding sha2_rep_def q using b nb by (simp add: sha2_flush_def add.commute)
    moreover have "sha2_count (sha2_flush ?c) = 0" by (simp add: sha2_flush_def)
    ultimately show "\<exists>c'. sha2_fill c d = Inr (c', drop k d) \<and>
        sha2_rep s0 (sha2_flush c') (m @ take k d) \<and> sha2_count (sha2_flush c') = 0"
      using f by blast }
qed

lemma sha2_write_rep:
  fixes c :: "'a::len word SHA2_CONTEXT"
  assumes rep: "sha2_rep s0 c m" and n: "0 < BLOCKBYTES TYPE('a)"
  shows "\<exists>c'. sha2_write c d = Inr c' \<and> sha2_rep s0 c' (m @ d)"
proof -
  have fl: "sha2_flush c = c"
    using rep n by (intro sha2_flush_part) (simp add: sha2_rep_def)
  show ?thesis
  proof (cases "sha2_count c = 0")
    case True
    then show ?thesis using sha2_tail_rep [OF rep n True, of d] by (simp add: sha2_write_def fl)
  next
    case False
    let ?k = "BLOCKBYTES TYPE('a) - sha2_count c"
    show ?thesis
    proof (cases "length d < ?k")
      case True
      from sha2_part_rep(1) [OF rep n refl True] False show ?thesis
        by (auto simp: sha2_write_def fl)
    next
      case ge: False
      then obtain c1 where c1: "sha2_fill c d = Inr (c1, drop ?k d)"
        "sha2_rep s0 (sha2_flush c1) (m @ take ?k d)" "sha2_count (sha2_flush c1) = 0"
        using sha2_part_rep(2) [OF rep n refl, of d] by auto
      then show ?thesis
        using sha2_tail_rep [OF c1(2) n c1(3), of "drop ?k d"] False by (auto simp: sha2_write_def fl)
    qed
  qed
qed

text \<open>The bit count, over \<open>n = 2 ^ s\<close> bytes a block and words of \<open>w\<close> bits.\<close>

lemma sha2_high_bits:
  assumes L: "L < 2 ^ (s + LENGTH('a))" and s: "3 \<le> s" "s + 3 \<le> LENGTH('a)"
  shows "push_bit 3 (drop_bit (LENGTH('a) - s) (word_of_nat (L div 2 ^ s) :: 'a::len word)) OR
    drop_bit (LENGTH('a) - 3) (word_of_nat L) = word_of_nat (8 * L div 2 ^ LENGTH('a))"
proof (rule bit_word_eqI)
  fix k
  assume k: "k < LENGTH('a)"
  have top: "\<not> bit L (s + LENGTH('a) + i)" for i
    using L bit_take_bit_iff [of "s + LENGTH('a)" L "s + LENGTH('a) + i"]
    by (simp add: take_bit_nat_eq_self)
  have "8 * L div 2 ^ LENGTH('a) = drop_bit (LENGTH('a) - 3) L"
  proof -
    have "(2 :: nat) ^ LENGTH('a) = 8 * 2 ^ (LENGTH('a) - 3)"
      using s power_add [of "2 :: nat" 3 "LENGTH('a) - 3"] by simp
    then show ?thesis by (simp add: drop_bit_eq_div)
  qed
  moreover have "L div 2 ^ s = drop_bit s L" by (simp add: drop_bit_eq_div)
  moreover have "bit L (LENGTH('a) - 3 + k) \<longleftrightarrow> k < s + 3 \<and> bit L (LENGTH('a) - 3 + k)"
    using top [of "k - s - 3"] s by (cases "k < s + 3") simp_all
  ultimately show "bit (push_bit 3 (drop_bit (LENGTH('a) - s) (word_of_nat (L div 2 ^ s) :: 'a word)) OR
      drop_bit (LENGTH('a) - 3) (word_of_nat L)) k =
      bit (word_of_nat (8 * L div 2 ^ LENGTH('a)) :: 'a word) k"
    using k s by (auto simp: bit_simps)
qed

lemma unat_word_of_nat_mod: "unat (word_of_nat n :: 'a::len word) = n mod 2 ^ LENGTH('a)"
  by (simp add: unsigned_of_nat take_bit_eq_mod)

lemma word_of_nat_mod: "(word_of_nat (n mod 2 ^ LENGTH('a)) :: 'a::len word) = word_of_nat n"
  by (simp add: word_unat_eq_iff unat_word_of_nat_mod)

lemma blockbytes_pow:
  assumes "sha2_width TYPE('a::len)"
  obtains s where "BLOCKBYTES TYPE('a) = 2 ^ s" and "3 \<le> s" and "s + 3 \<le> LENGTH('a)"
    and "s = (if BLOCKBYTES TYPE('a) = 128 then 7 else 6)"
proof -
  have "LENGTH('a) = 32 \<or> LENGTH('a) = 64" using assms by (simp add: sha2_width_def)
  then show ?thesis
  proof
    assume "LENGTH('a) = 32"
    then show ?thesis by (intro that [of 6]) (simp_all add: BLOCKBYTES_def)
  next
    assume "LENGTH('a) = 64"
    then show ?thesis by (intro that [of 7]) (simp_all add: BLOCKBYTES_def)
  qed
qed

lemma sha2_bitcount_bytes:
  fixes c :: "'a::len word SHA2_CONTEXT"
  assumes w: "sha2_width TYPE('a)" and rep: "sha2_rep s0 c m"
  shows "(case sha2_bitcount c of (msb, lsb) \<Rightarrow> be_word msb @ be_word lsb) =
    sha2_bits TYPE('a) (length m mod sha2_span TYPE('a))"
proof -
  obtain s where s: "BLOCKBYTES TYPE('a) = 2 ^ s" "3 \<le> s" "s + 3 \<le> LENGTH('a)"
    "(if BLOCKBYTES TYPE('a) = 128 then 7 else 6) = s"
    using blockbytes_pow [OF w] by metis
  obtain L where L: "L = length m mod (2 ^ s * 2 ^ LENGTH('a))" by simp
  have Lq: "L div 2 ^ s = length m div 2 ^ s mod 2 ^ LENGTH('a)" "L mod 2 ^ s = length m mod 2 ^ s"
    unfolding L mod_mult2_eq by simp_all
  have nb: "nblocks c = word_of_nat (L div 2 ^ s)" "sha2_count c = L mod 2 ^ s"
    using rep by (simp_all add: sha2_rep_def s(1) Lq word_of_nat_mod)
  have t: "word_of_nat (L div 2 ^ s) * word_of_nat (2 ^ s) + word_of_nat (L mod 2 ^ s) =
      (word_of_nat L :: 'a word)"
    unfolding of_nat_mult [symmetric] of_nat_add [symmetric] by (simp only: div_mult_mod_eq)
  have W: "(2 :: nat) ^ LENGTH('a) = 2 ^ s * 2 ^ (LENGTH('a) - s)"
    using s(3) by (simp add: power_add [symmetric])
  have "L div 2 ^ s * 2 ^ s mod 2 ^ LENGTH('a) \<le> L mod 2 ^ LENGTH('a)"
    unfolding W mod_mult2_eq by simp
  then have carry: "\<not> (word_of_nat L :: 'a word) < word_of_nat (L div 2 ^ s) * word_of_nat (2 ^ s)"
    unfolding of_nat_mult [symmetric] word_less_nat_alt unat_word_of_nat_mod by simp
  have "L < 2 ^ (s + LENGTH('a))" unfolding L power_add by simp
  note H = sha2_high_bits [OF this s(2,3)]
  have "sha2_bitcount c = (word_of_nat (8 * L div 2 ^ LENGTH('a)), word_of_nat (8 * L))"
    unfolding sha2_bitcount_def Let_def s(4)
    unfolding nb s(1) t
    using carry H by (simp add: push_bit_eq_mult)
  then show ?thesis
    by (simp add: sha2_bits_def sha2_span_def s(1) L)
qed

lemma sha2_pad_to_eq:
  fixes c :: "'a::len word SHA2_CONTEXT"
  assumes "sha2_count c < lim" and "lim \<le> length (sha2_buf c)"
  shows "sha2_pad_to lim c = Inr (c\<lparr>sha2_buf := take (sha2_count c) (sha2_buf c) @
      0x80 # replicate (lim - (sha2_count c + 1)) 0 @ drop lim (sha2_buf c), sha2_count := lim\<rparr>)"
  using assms pokes_Inr [of "sha2_count c" "0x80 # replicate (lim - (sha2_count c + 1)) 0" "sha2_buf c"]
  by (simp add: sha2_pad_to_def del: pokes.simps)

lemma length_sha2_digest: "length (sha2_digest s) = 8 * (LENGTH('a) div 8)" for s :: "'a::len sha2_state"
  by (simp add: sha2_digest_def split: prod.split)

text \<open>\<open>sha2_final\<close> completes the block with the padding, with or without an extra block.\<close>

lemma sha2_final_rep:
  fixes c :: "'a::len word SHA2_CONTEXT"
  assumes w: "sha2_width TYPE('a)" and rep: "sha2_rep s0 c m"
  shows "\<exists>c'. sha2_final c = Inr c' \<and> sha2_buf c' = sha2_digest (sha2_h c') @
      drop (8 * (LENGTH('a) div 8)) (sha2_buf c') \<and>
    sha2_h c' = fst (absorb (BLOCKBYTES TYPE('a)) sha2_transform s0
      (m @ sha2_padding TYPE('a) (length m mod sha2_span TYPE('a))))"
proof -
  let ?n = "BLOCKBYTES TYPE('a)" and ?b = "LENGTH('a) div 8" and ?r = "sha2_count c"
  let ?room = "?n - 2 * ?b"
  obtain msb lsb where ml: "sha2_bitcount c = (msb, lsb)" by fastforce
  let ?f = "be_word msb @ be_word lsb"
  have bits: "sha2_bits TYPE('a) (length m mod sha2_span TYPE('a)) = ?f"
    using sha2_bitcount_bytes [OF w rep] ml by simp
  have n: "0 < ?n" "?n = 16 * ?b" "0 < ?b"
    using w by (auto simp: BLOCKBYTES_def sha2_width_def)
  obtain N where N: "N = ?n" "2 * ?b < N" "8 * ?b \<le> N" using n by simp
  have r: "?r = length m mod ?n" "?r < ?n" and len: "length (sha2_buf c) = ?n"
    and ab: "absorb ?n sha2_transform s0 m = (sha2_h c, take ?r (sha2_buf c))"
    using rep n by (simp_all add: sha2_rep_def)
  have fl: "sha2_flush c = c" using r(2) by (rule sha2_flush_part)
  have pad: "sha2_padding TYPE('a) (length m mod sha2_span TYPE('a)) =
      0x80 # replicate ((?n + ?room - 1 - ?r) mod ?n) 0 @ ?f"
    unfolding sha2_padding_def Let_def bits r(1)
    by (simp add: sha2_span_def mod_mult2_eq)
  let ?dig = "\<lambda>s blk. pokes 0 (sha2_digest s) blk"
  have dig: "length blk = ?n \<Longrightarrow> pokes 0 (sha2_digest s) blk = Inr (sha2_digest s @ drop (8 * ?b) blk)"
    for s :: "'a sha2_state" and blk
    using pokes_Inr [of 0 "sha2_digest s" blk] N by (simp add: length_sha2_digest)
  have last: "length blk = ?n \<Longrightarrow> pokes ?room ?f blk = Inr (take ?room blk @ ?f)" for blk
    using pokes_Inr [of ?room ?f blk] N by simp
  show ?thesis
  proof (cases "?r < ?room")
    case True
    let ?blk = "take ?r (sha2_buf c) @ 0x80 # replicate (?room - (?r + 1)) 0 @ ?f"
    have z: "(?n + ?room - 1 - ?r) mod ?n = ?room - (?r + 1)"
    proof -
      have "?n + ?room - 1 - ?r = ?room - (?r + 1) + ?n" using True by simp
      moreover have "?room - (?r + 1) < ?n" using n(1) by linarith
      ultimately show ?thesis by (simp only: mod_add_self2 mod_less)
    qed
    have b: "length ?blk = ?n" using True N len by simp
    have "absorb ?n sha2_transform s0 (m @ sha2_padding TYPE('a) (length m mod sha2_span TYPE('a))) =
        (sha2_transform (sha2_h c) ?blk, [])"
      unfolding absorb_append [of ?n sha2_transform s0 m] ab pad z
      using absorb_block [OF n(1) b, of sha2_transform _ "[]"] n(1) by (simp add: absorb_short)
    moreover have "sha2_pad_to ?room c = Inr (c\<lparr>sha2_buf := take ?r (sha2_buf c) @
        0x80 # replicate (?room - (?r + 1)) 0 @ drop ?room (sha2_buf c), sha2_count := ?room\<rparr>)"
      using True len by (intro sha2_pad_to_eq) simp_all
    moreover have "pokes ?room ?f (take ?r (sha2_buf c) @ 0x80 # replicate (?room - (?r + 1)) 0 @
        drop ?room (sha2_buf c)) = Inr ?blk"
      proof -
      let ?P = "take ?r (sha2_buf c) @ 0x80 # replicate (?room - (?r + 1)) 0"
      have "length ?P = ?room" using True len by simp
      then have "take ?room (?P @ drop ?room (sha2_buf c)) = ?P" by (metis append_eq_conv_conj)
      moreover have "length (?P @ drop ?room (sha2_buf c)) = ?n" using True len by simp
      ultimately show ?thesis using last [of "?P @ drop ?room (sha2_buf c)"] by simp
    qed
    ultimately show ?thesis
      using True dig [OF b] by (simp add: sha2_final_def fl ml Let_def length_sha2_digest)
  next
    case False
    let ?blk = "take ?r (sha2_buf c) @ 0x80 # replicate (?n - (?r + 1)) 0"
    let ?blk2 = "replicate ?room 0 @ ?f"
    have z: "(?n + ?room - 1 - ?r) mod ?n = (?n - (?r + 1)) + ?room"
    proof -
      have "?n + ?room - 1 - ?r = (?n - (?r + 1)) + ?room" "(?n - (?r + 1)) + ?room < ?n"
        using False N r(2) unfolding N(1) [symmetric] by simp_all
      then show ?thesis by simp
    qed
    have b: "length ?blk = ?n" "length ?blk2 = ?n" using False N len r(2) by simp_all
    have "absorb ?n sha2_transform s0 (m @ sha2_padding TYPE('a) (length m mod sha2_span TYPE('a))) =
        (sha2_transform (sha2_transform (sha2_h c) ?blk) ?blk2, [])"
      unfolding absorb_append [of ?n sha2_transform s0 m] ab pad z
      using absorb_block [OF n(1) b(1), of sha2_transform "sha2_h c" ?blk2] absorb_block [OF n(1) b(2), of sha2_transform "sha2_transform (sha2_h c) ?blk" "[]"] n(1)
      by (simp add: absorb_short replicate_add)
    moreover have "sha2_pad_to ?n c = Inr (c\<lparr>sha2_buf := ?blk, sha2_count := ?n\<rparr>)"
      using False len r(2) sha2_pad_to_eq [of c ?n] by simp
    moreover have "pokes 0 (replicate ?room 0) ?blk = Inr (replicate ?room 0 @ drop ?room ?blk)"
      using b(1) pokes_Inr [of 0 "replicate ?room 0" ?blk] by simp
    moreover have "pokes ?room ?f (replicate ?room 0 @ drop ?room ?blk) = Inr ?blk2"
    proof -
      obtain B where B: "B = ?blk" by simp
      have "length (replicate ?room 0 @ drop ?room B) = ?n" using b(1) N unfolding B [symmetric] by simp
      then show ?thesis using last [of "replicate ?room 0 @ drop ?room B"] unfolding B [symmetric] by simp
    qed
    moreover have "sha2_flush (c\<lparr>sha2_buf := ?blk, sha2_count := ?n\<rparr>) =
        c\<lparr>sha2_buf := ?blk, sha2_h := sha2_transform (sha2_h c) ?blk, sha2_count := 0, nblocks := nblocks c + 1\<rparr>"
      by (simp add: sha2_flush_def)
    ultimately show ?thesis
      using False dig [OF b(2)] unfolding sha2_final_def Let_def fl ml
      by (simp add: length_sha2_digest)
  qed
qed

section \<open>The four digests\<close>

definition sha2_mem :: "'a::len word SHA2_CONTEXT \<Rightarrow> bool" where
  "sha2_mem c \<longleftrightarrow> length (sha2_buf c) = BLOCKBYTES TYPE('a)"

lemma sha2_init_rep:
  fixes c :: "'a::len word SHA2_CONTEXT"
  assumes "sha2_mem c" and "0 < BLOCKBYTES TYPE('a)"
  shows "sha2_rep sha2_start (sha2_init c) []" and "sha2_rep sha2trunc_start (sha2trunc_init c) []"
  using assms by (simp_all add: sha2_mem_def sha2_rep_def sha2_init_def sha2trunc_init_def absorb_short)

lemma sha2_finish_rep:
  fixes c :: "'a::len word SHA2_CONTEXT"
  assumes "sha2_width TYPE('a)" and "sha2_rep s0 c m" and k: "k \<le> 8 * (LENGTH('a) div 8)"
  shows "\<exists>c'. sha2_finish k c = Inr (sha2_code s0 k m, c')"
proof -
  obtain c' where c': "sha2_final c = Inr c'"
    "sha2_buf c' = sha2_digest (sha2_h c') @ drop (8 * (LENGTH('a) div 8)) (sha2_buf c')"
    "sha2_h c' = fst (absorb (BLOCKBYTES TYPE('a)) sha2_transform s0
      (m @ sha2_padding TYPE('a) (length m mod sha2_span TYPE('a))))"
    using sha2_final_rep [OF assms(1,2)] by auto
  have "take k (sha2_buf c') = take k (sha2_digest (sha2_h c'))"
    by (subst c'(2)) (use k in \<open>simp add: length_sha2_digest\<close>)
  then show ?thesis by (simp add: sha2_finish_def sha2_code_def c'(1,3))
qed

lemma length_sha2_code: "k \<le> 8 * (LENGTH('a) div 8) \<Longrightarrow> length (sha2_code s0 k m) = k"
  for s0 :: "'a::len sha2_state"
  by (simp add: sha2_code_def length_sha2_digest)

lemmas sha2_laws = sha2_init_rep sha2_write_rep sha2_finish_rep length_sha2_code

lemma sha2_widths [simp]:
  "sha2_width TYPE(32)" "sha2_width TYPE(64)" "0 < BLOCKBYTES TYPE(32)" "0 < BLOCKBYTES TYPE(64)"
  by (simp_all add: sha2_width_def BLOCKBYTES_def)

interpretation sha224: stream_hash hash_sha2_224 sha2_mem "sha2_rep sha2trunc_start"
    "sha2_code (sha2trunc_start :: 32 sha2_state) 28" "2 ^ 64"
  by unfold_locales (simp_all add: hash_sha2_224_def sha2_laws)

interpretation sha256: stream_hash hash_sha2_256 sha2_mem "sha2_rep sha2_start"
    "sha2_code (sha2_start :: 32 sha2_state) 32" "2 ^ 64"
  by unfold_locales (simp_all add: hash_sha2_256_def sha2_laws)

interpretation sha384: stream_hash hash_sha2_384 sha2_mem "sha2_rep sha2trunc_start"
    "sha2_code (sha2trunc_start :: 64 sha2_state) 48" "2 ^ 64"
  by unfold_locales (simp_all add: hash_sha2_384_def sha2_laws)

interpretation sha512: stream_hash hash_sha2_512 sha2_mem "sha2_rep sha2_start"
    "sha2_code (sha2_start :: 64 sha2_state) 64" "2 ^ 64"
  by unfold_locales (simp_all add: hash_sha2_512_def sha2_laws)

section \<open>The digest in one piece is the standard's\<close>

text \<open>A \<open>std_sha2\<close> that is the code's at its width.\<close>

definition std_agrees :: "'a::len word std_sha2 \<Rightarrow> bool" where
  "std_agrees S \<longleftrightarrow> bSigma0 S = Sum0 \<and> bSigma1 S = Sum1 \<and> sSigma0 S = S0 \<and> sSigma1 S = S1 \<and>
     std_K S = map U64_C (take (ROUNDS TYPE('a)) sha2_k) \<and> std_octets S = LENGTH('a) div 8 \<and> sha2_width TYPE('a)"

lemma length_sha2_k: "length sha2_k = 80"
  by (simp add: sha2_k_def)

lemma sha2_k_table: "cbrt_table = map unat sha2_k"
  by (simp add: cbrt_table_def sha2_k_def)

lemma std_agrees_32: "std_agrees std_words32"
proof -
  have r: "0 < n \<Longrightarrow> n < 32 \<Longrightarrow> ROTR x n = word_rotr n x" for x :: "32 word" and n
    using rotr_shifts [of n x] by (simp add: ROTR_def)
  have "map (root_frac 3 32) std_primes = map (\<lambda>c. c div 2 ^ 32) (map unat sha2_k)"
    unfolding cbrt_fracs_32 sha2_k_table ..
  then have "map (root_frac 3 32) (take 64 std_primes) = map (\<lambda>c. unat c div 2 ^ 32) (take 64 sha2_k)"
    by (simp add: take_map [symmetric] comp_def)
  moreover have "U64_C c = (word_of_nat (unat c div 2 ^ 32) :: 32 word)" for c
  proof -
    have "U64_C c = (word_of_nat (unat (drop_bit 32 c)) :: 32 word)" by (simp add: U64_C_def)
    then show ?thesis
      by (simp only: unat_drop_bit_eq [of 32 c] drop_bit_eq_div [of _ "unat c"])
  qed
  ultimately have "map (\<lambda>p. word_of_nat (root_frac 3 32 p)) (take 64 std_primes) = (map U64_C (take 64 sha2_k) :: 32 word list)"
    by (simp only: map_map [of word_of_nat "root_frac 3 32", unfolded comp_def, symmetric]) (simp add: comp_def)
  then show ?thesis
    by (simp add: std_agrees_def std_words32_def ROUNDS_def sha2_width_def fun_eq_iff r
        Sum0_def Sum1_def S0_def S1_def std_Sigma_def std_sigma_def)
qed

lemma std_agrees_64: "std_agrees std_words64"
proof -
  have r: "0 < n \<Longrightarrow> n < 64 \<Longrightarrow> ROTR x n = word_rotr n x" for x :: "64 word" and n
    using rotr_shifts [of n x] by (simp add: ROTR_def)
  have "map word_of_nat (map (root_frac 3 64) std_primes) = (map word_of_nat (map unat sha2_k) :: 64 word list)"
    unfolding cbrt_fracs sha2_k_table ..
  moreover have "map U64_C sha2_k = (sha2_k :: 64 word list)"
    by (rule map_idI) (simp add: U64_C_def)
  ultimately have "map (\<lambda>p. word_of_nat (root_frac 3 64 p)) std_primes = (map U64_C (take 80 sha2_k) :: 64 word list)"
    by (simp add: comp_def length_sha2_k)
  then show ?thesis
    by (simp add: std_agrees_def std_words64_def ROUNDS_def sha2_width_def fun_eq_iff r
        Sum0_def Sum1_def S0_def S1_def std_Sigma_def std_sigma_def)
qed

lemma sha2_word_std: "sha2_word M t = (std_word (LENGTH('a) div 8) M t :: 'a::len word)"
proof -
  have "(std_word (LENGTH('a) div 8) M t :: 'a word) =
      foldl (\<lambda>v b. push_bit 8 v OR ucast b) (word_of_nat 0) (take (LENGTH('a) div 8) (drop (LENGTH('a) div 8 * t) M))"
    unfolding std_word_def octets_value_def foldl_octets ..
  then show ?thesis by (simp add: sha2_word_def mult.commute)
qed

lemma schedule_std:
  fixes S :: "'a::len word std_sha2"
  assumes "std_agrees S"
  shows "fold sha2_schedule [16..<16 + n] (map (sha2_word M) [0..<16]) = map (std_W S M) [0..<16 + n]"
proof (induction n)
  case 0
  have "t < 16 \<Longrightarrow> sha2_word M t = std_W S M t" for t
    using assms by (subst std_W.simps) (simp add: sha2_word_std std_agrees_def)
  then show ?case by simp
next
  case (Suc n)
  have "std_W S M (16 + n) = S1 (std_W S M (16 + n - 2)) + std_W S M (16 + n - 7) + S0 (std_W S M (16 + n - 15)) + std_W S M n"
    using assms by (subst std_W.simps) (simp add: std_agrees_def)
  moreover have "[k..<16 + Suc n] = [k..<16 + n] @ [16 + n]" if "k \<le> 16" for k
    using that by (simp only: add_Suc_right upt_Suc) simp
  ultimately show ?case using Suc by (simp add: sha2_schedule_def)
qed

lemma compress_std:
  fixes S :: "'a::len word std_sha2"
  assumes S: "std_agrees S"
  shows "sha2_transform s M = std_compress S s M"
proof -
  have R: "16 \<le> ROUNDS TYPE('a)" "ROUNDS TYPE('a) \<le> 80" by (simp_all add: ROUNDS_def)
  have w: "fold sha2_schedule [16..<ROUNDS TYPE('a)] (map (sha2_word M) [0..<16]) = map (std_W S M) [0..<ROUNDS TYPE('a)]"
    using schedule_std [OF S, of "ROUNDS TYPE('a) - 16" M] R by simp
  have k: "length (std_K S) = ROUNDS TYPE('a)" "t < ROUNDS TYPE('a) \<Longrightarrow> std_K S ! t = U64_C (sha2_k ! t)" for t
    using S R by (simp_all add: std_agrees_def length_sha2_k)
  have "fold (sha2_round (map (std_W S M) [0..<ROUNDS TYPE('a)])) [0..<ROUNDS TYPE('a)] s =
      fold (std_round S M) [0..<ROUNDS TYPE('a)] s"
    using S k(2)
    by (intro fold_cong)
      (auto simp: fun_eq_iff sha2_round_def std_round_def std_agrees_def Ch_def Maj_def std_Ch_def std_Maj_def)
  then show ?thesis
    unfolding sha2_transform_def Let_def w std_compress_def k(1) by (simp add: add.commute split: prod.split)
qed

lemma padding_std:
  assumes "sha2_width TYPE('a::len)"
  shows "m @ sha2_padding TYPE('a) (length m) = std_pad (16 * (LENGTH('a) div 8)) (2 * (LENGTH('a) div 8)) m"
proof -
  let ?b = "LENGTH('a) div 8"
  have b: "(2 :: nat) ^ LENGTH('a) = 256 ^ ?b" "1 \<le> ?b"
    using assms by (auto simp: sha2_width_def)
  have w: "be_word (word_of_nat v :: 'a word) = octets ?b v" for v
    unfolding be_word_def be_octets unat_word_of_nat_mod b(1) by (rule octets_mod)
  have "sha2_bits TYPE('a) (length m) = octets (2 * ?b) (8 * length m)"
    unfolding sha2_bits_def w b(1) mult_2 octets_split ..
  then show ?thesis
    using b(2) by (simp add: sha2_padding_def std_pad_def BLOCKBYTES_def std_zeros_eq Let_def)
qed

lemma sha2_ref_std:
  fixes S :: "'a::len word std_sha2"
  assumes S: "std_agrees S"
  shows "sha2_ref start k m = take k (std_hash2 S start m)"
proof -
  have w: "sha2_width TYPE('a)" "std_octets S = LENGTH('a) div 8" using S by (simp_all add: std_agrees_def)
  have "0 < LENGTH('a) div 8" using w(1) by (auto simp: sha2_width_def)
  then have "fst (absorb (BLOCKBYTES TYPE('a)) sha2_transform start (m @ sha2_padding TYPE('a) (length m))) =
      std_blocks (16 * (LENGTH('a) div 8)) (std_compress S) start
        (std_pad (16 * (LENGTH('a) div 8)) (2 * (LENGTH('a) div 8)) m)"
    using std_blocks_absorb [of "16 * (LENGTH('a) div 8)" sha2_transform start] padding_std [OF w(1), of m]
    by (simp add: BLOCKBYTES_def compress_std [OF S, abs_def])
  moreover have "sha2_digest s = (case s of (H0, H1, H2, H3, H4, H5, H6, H7) \<Rightarrow>
      concat (map (\<lambda>H. octets (LENGTH('a) div 8) (unat H)) [H0, H1, H2, H3, H4, H5, H6, H7]))" for s :: "'a sha2_state"
    by (simp add: sha2_digest_def be_word_def be_octets split: prod.split)
  ultimately show ?thesis unfolding sha2_ref_def std_hash2_def w(2) Let_def by simp
qed

text \<open>The initial values are the square roots of the first sixteen primes.\<close>

lemma sqrt_fracs_eight:
  "map (root_frac 2 64) (take 8 std_primes) = take 8 (map (root_frac 2 64) (take 16 std_primes))"
  "map (root_frac 2 64) (drop 8 (take 16 std_primes)) = drop 8 (map (root_frac 2 64) (take 16 std_primes))"
  by (simp_all add: take_map [symmetric] drop_map [symmetric])

lemma sha2_start_std:
  "sha2_start = std_eight (map (\<lambda>p. word_of_nat (root_frac 2 32 p)) (take 8 std_primes) :: 32 word list)"
  "sha2_start = std_eight (map (\<lambda>p. word_of_nat (root_frac 2 64 p)) (take 8 std_primes) :: 64 word list)"
  "sha2trunc_start = std_eight (map (\<lambda>p. word_of_nat (root_frac 2 64 p mod 2 ^ 32)) (drop 8 (take 16 std_primes)) :: 32 word list)"
  "sha2trunc_start = std_eight (map (\<lambda>p. word_of_nat (root_frac 2 64 p)) (drop 8 (take 16 std_primes)) :: 64 word list)"
proof -
  have m: "map (\<lambda>p. f (g p)) ps = map f (map g ps)" for f :: "nat \<Rightarrow> 'a" and g :: "nat \<Rightarrow> nat" and ps by simp
  show "sha2_start = std_eight (map (\<lambda>p. word_of_nat (root_frac 2 32 p)) (take 8 std_primes) :: 32 word list)"
    unfolding m [of _ "root_frac 2 32"] sqrt_fracs_32 by (simp add: sha2_start_def std_eight_def U64_C_def)
  show "sha2_start = std_eight (map (\<lambda>p. word_of_nat (root_frac 2 64 p)) (take 8 std_primes) :: 64 word list)"
    unfolding m [of _ "root_frac 2 64"] sqrt_fracs_eight sqrt_fracs by (simp add: sha2_start_def std_eight_def U64_C_def)
  show "sha2trunc_start = std_eight (map (\<lambda>p. word_of_nat (root_frac 2 64 p)) (drop 8 (take 16 std_primes)) :: 64 word list)"
    unfolding m [of _ "root_frac 2 64"] sqrt_fracs_eight sqrt_fracs by (simp add: sha2trunc_start_def std_eight_def U64_C_LOW_def)
  show "sha2trunc_start = std_eight (map (\<lambda>p. word_of_nat (root_frac 2 64 p mod 2 ^ 32)) (drop 8 (take 16 std_primes)) :: 32 word list)"
    unfolding m [of "\<lambda>n. word_of_nat (n mod 2 ^ 32)" "root_frac 2 64"] sqrt_fracs_eight sqrt_fracs
    by (simp add: sha2trunc_start_def std_eight_def U64_C_LOW_def)
qed

lemma length_std_hash2: "length (std_hash2 S start m) = 8 * std_octets S"
  by (simp add: std_hash2_def Let_def split: prod.split)

lemma sha2_ref_eqs:
  "sha2_ref (sha2trunc_start :: 32 sha2_state) 28 m = std_sha224 m" "sha2_ref (sha2_start :: 32 sha2_state) 32 m = std_sha256 m"
  "sha2_ref (sha2trunc_start :: 64 sha2_state) 48 m = std_sha384 m" "sha2_ref (sha2_start :: 64 sha2_state) 64 m = std_sha512 m"
proof -
  have [simp]: "std_octets std_words32 = 4" "std_octets std_words64 = 8"
    by (simp_all add: std_words32_def std_words64_def)
  show "sha2_ref (sha2trunc_start :: 32 sha2_state) 28 m = std_sha224 m" "sha2_ref (sha2_start :: 32 sha2_state) 32 m = std_sha256 m"
    unfolding sha2_ref_std [OF std_agrees_32] std_sha224_def std_sha256_def sha2_start_std(1,3)
    by (simp_all add: length_std_hash2)
  show "sha2_ref (sha2trunc_start :: 64 sha2_state) 48 m = std_sha384 m" "sha2_ref (sha2_start :: 64 sha2_state) 64 m = std_sha512 m"
    unfolding sha2_ref_std [OF std_agrees_64] std_sha384_def std_sha512_def sha2_start_std(2,4)
    by (simp_all add: length_std_hash2)
qed

section \<open>Properties\<close>

definition sha256_garbage :: "32 word SHA2_CONTEXT" where
  "sha256_garbage = \<lparr>sha2_h = sha2trunc_start, nblocks = 9, sha2_buf = replicate 64 1, sha2_count = 3\<rparr>"

definition sha512_garbage :: "64 word SHA2_CONTEXT" where
  "sha512_garbage = \<lparr>sha2_h = sha2trunc_start, nblocks = 9, sha2_buf = replicate 128 1, sha2_count = 3\<rparr>"

lemma sha2_garbage_mem: "sha2_mem sha256_garbage" "sha2_mem sha512_garbage"
  by (simp_all add: sha2_mem_def sha256_garbage_def sha512_garbage_def BLOCKBYTES_def)

text \<open>C36: SHA-256 fed with a message cut into any updates, from a context that held anything before, is the
  SHA-256 of FIPS 180-4 of the whole message, up to 256 GiB.  The standard is \<open>std_sha256\<close> of \<open>Fips\<close>,
  which shares no constant, no function and no padding with the code.\<close>

theorem SHA256_stream:
  fixes c :: "32 word SHA2_CONTEXT"
  assumes "sha2_mem c" and "list_all (\<lambda>d. length d < 2 ^ 64) ds"
    and "length (concat ds) < sha2_span TYPE(32)"
  shows "\<exists>c'. rbind (foldl (\<lambda>r d. rbind r (\<lambda>c. sha2_write c d)) (Inr (sha2_init c)) ds) (sha2_finish 32) =
      Inr (std_sha256 (concat ds), c')"
  using sha256.hash_chunks [OF assms(1,2)] assms(3) by (simp add: hash_sha2_256_def sha2_code_ref sha2_ref_eqs)

theorem SHA256_stream_witness:
  "\<exists>c'. rbind (rbind (sha2_write (sha2_init sha256_garbage) [97]) (\<lambda>c. sha2_write c [98, 99])) (sha2_finish 32) =
      Inr (std_sha256 [97, 98, 99], c')"
  using SHA256_stream [OF sha2_garbage_mem(1), of "[[97], [98, 99]]"]
  by (simp add: sha2_span_def BLOCKBYTES_def)

text \<open>\<open>CalcHash\<close> with SHA-384 and with SHA-512 writes the FIPS 180-4 digest, in any buffer that is
  large enough for it.\<close>

theorem CalcHash_sha2_64:
  assumes "sha2_mem c" and "length m < 2 ^ 64" and "64 \<le> n"
  shows "CalcHash hash_sha2_384 c n m = Inr (Some (std_sha384 m)) \<and>
    CalcHash hash_sha2_512 c n m = Inr (Some (std_sha512 m))"
proof -
  have "length m < sha2_span TYPE(64)" using assms(2) by (simp add: sha2_span_def BLOCKBYTES_def)
  then show ?thesis
    using sha384.CalcHash_eq [OF assms(1,2), of n] sha512.CalcHash_eq [OF assms(1,2), of n] assms(3)
    by (simp add: sha2_code_ref sha2_ref_eqs) (simp add: hash_sha2_384_def hash_sha2_512_def)
qed

theorem CalcHash_sha2_64_witness:
  "CalcHash hash_sha2_384 sha512_garbage 64 [97] = Inr (Some (std_sha384 [97])) \<and>
    CalcHash hash_sha2_512 sha512_garbage 64 [97] = Inr (Some (std_sha512 [97]))"
  using CalcHash_sha2_64 [OF sha2_garbage_mem(2), of "[97]" 64] by simp

end
