(* ===== verification/Md4.thy ===== *)
theory Md4
  imports DigestApi
begin

text \<open>
  MD4 of \<open>engine/common/md4.c\<close>: context, compression function, update, padding; and the proof
  that it computes the one-shot reference \<open>md4\<close> however the message is cut.
\<close>

type_synonym md4_state = "int32 \<times> int32 \<times> int32 \<times> int32"

record MD4_CTX =
  md4_st :: md4_state
  md4_count0 :: int32
  md4_count1 :: int32
  md4_buffer :: "byte list"

section \<open>The compression function\<close>

definition md4_F :: "int32 \<Rightarrow> int32 \<Rightarrow> int32 \<Rightarrow> int32" where
  "md4_F x y z = (x AND y) OR (NOT x AND z)"

definition md4_G :: "int32 \<Rightarrow> int32 \<Rightarrow> int32 \<Rightarrow> int32" where
  "md4_G x y z = (x AND y) OR (x AND z) OR (y AND z)"

definition md4_H :: "int32 \<Rightarrow> int32 \<Rightarrow> int32 \<Rightarrow> int32" where
  "md4_H x y z = x XOR y XOR z"

definition md4_op :: "nat \<Rightarrow> int32 \<Rightarrow> int32 \<Rightarrow> int32 \<Rightarrow> int32 \<Rightarrow> int32 \<Rightarrow> nat \<Rightarrow> int32" where
  "md4_op r a b c d x s =
     (if r = 1 then rol32 (a + (md4_F b c d + x)) s
      else if r = 2 then rol32 (a + (md4_G b c d + x + 0x5a827999)) s
      else rol32 (a + (md4_H b c d + x + 0x6ed9eba1)) s)"

text \<open>The 48 unrolled calls: the round, the index into \<open>x\<close> and the rotation.\<close>

definition md4_steps :: "(nat \<times> nat \<times> nat) list" where
  "md4_steps =
    [(1,  0, 3), (1,  1, 7), (1,  2, 11), (1,  3, 19),
     (1,  4, 3), (1,  5, 7), (1,  6, 11), (1,  7, 19),
     (1,  8, 3), (1,  9, 7), (1, 10, 11), (1, 11, 19),
     (1, 12, 3), (1, 13, 7), (1, 14, 11), (1, 15, 19),
     (2,  0, 3), (2,  4, 5), (2,  8,  9), (2, 12, 13),
     (2,  1, 3), (2,  5, 5), (2,  9,  9), (2, 13, 13),
     (2,  2, 3), (2,  6, 5), (2, 10,  9), (2, 14, 13),
     (2,  3, 3), (2,  7, 5), (2, 11,  9), (2, 15, 13),
     (3,  0, 3), (3,  8, 9), (3,  4, 11), (3, 12, 15),
     (3,  2, 3), (3, 10, 9), (3,  6, 11), (3, 14, 15),
     (3,  1, 3), (3,  9, 9), (3,  5, 11), (3, 13, 15),
     (3,  3, 3), (3, 11, 9), (3,  7, 11), (3, 15, 15)]"

text \<open>Each call names the variables one place further along: the step returns them rotated.\<close>

definition md4_step :: "int32 list \<Rightarrow> nat \<times> nat \<times> nat \<Rightarrow> md4_state \<Rightarrow> md4_state" where
  "md4_step x rks s = (case rks of (r, k, n) \<Rightarrow> (case s of (a, b, c, d) \<Rightarrow>
     (d, md4_op r a b c d (x ! k) n, b, c)))"

definition Decode :: "byte list \<Rightarrow> int32 list" where
  "Decode input = map (\<lambda>i. get_le32 input (4 * i)) [0..<16]"

definition MD4Transform :: "md4_state \<Rightarrow> byte list \<Rightarrow> md4_state" where
  "MD4Transform state block =
     (case fold (md4_step (Decode block)) md4_steps state of (a, b, c, d) \<Rightarrow>
       (case state of (s0, s1, s2, s3) \<Rightarrow> (s0 + a, s1 + b, s2 + c, s3 + d)))"

section \<open>The streaming interface\<close>

definition md4_start :: md4_state where
  "md4_start = (0x67452301, 0xefcdab89, 0x98badcfe, 0x10325476)"

definition MD4Init :: "MD4_CTX \<Rightarrow> MD4_CTX" where
  "MD4Init context = context\<lparr>md4_st := md4_start, md4_count0 := 0, md4_count1 := 0\<rparr>"

text \<open>Unlike SHA-1 the code truncates the length to 32 bits before it shifts.\<close>

definition MD4Update :: "MD4_CTX \<Rightarrow> byte list \<Rightarrow> MD4_CTX res" where
  "MD4Update context input =
     (let len = word_of_nat (length input) :: int32;
          index = unat (drop_bit 3 (md4_count0 context) AND 63);
          count0 = md4_count0 context + push_bit 3 len;
          count1 = (if count0 < push_bit 3 len then md4_count1 context + 1 else md4_count1 context);
          count1 = count1 + drop_bit 29 len
      in rbind (fill_blocks MD4Transform (md4_st context) (md4_buffer context) index input)
           (\<lambda>(state, buffer).
             Inr (context\<lparr>md4_st := state, md4_count0 := count0, md4_count1 := count1,
                          md4_buffer := buffer\<rparr>)))"

definition PADDING :: "byte list" where "PADDING = 0x80 # replicate 63 0"

definition md4_digest :: "md4_state \<Rightarrow> byte list" where
  "md4_digest s = (case s of (a, b, c, d) \<Rightarrow> le32 a @ le32 b @ le32 c @ le32 d)"

definition MD4Final :: "MD4_CTX \<Rightarrow> (byte list \<times> MD4_CTX) res" where
  "MD4Final context =
     (let bits = le32 (md4_count0 context) @ le32 (md4_count1 context);
          index = unat (drop_bit 3 (md4_count0 context) AND 63);
          padLen = (if index < 56 then 56 - index else 120 - index)
      in rbind (MD4Update context (take padLen PADDING)) (\<lambda>context.
         rbind (MD4Update context bits) (\<lambda>context.
           Inr (md4_digest (md4_st context),
                \<lparr>md4_st = (0, 0, 0, 0), md4_count0 = 0, md4_count1 = 0,
                 md4_buffer = replicate 64 0\<rparr>))))"

definition hash_md4 :: "MD4_CTX hashfunc_t" where
  "hash_md4 = \<lparr>digestsize = 16, hash_init = MD4Init, hash_process = MD4Update,
     hash_terminate = MD4Final\<rparr>"

section \<open>The reference\<close>

definition md4_padding :: "nat \<Rightarrow> byte list" where
  "md4_padding len = 0x80 # replicate (pad_zeros len) 0 @ le32 (count_low len) @ le32 (count_high len)"

definition md4 :: "byte list \<Rightarrow> byte list" where
  "md4 m = md4_digest (fst (absorb 64 MD4Transform md4_start (m @ md4_padding (length m))))"

definition md4_mem :: "MD4_CTX \<Rightarrow> bool" where
  "md4_mem c \<longleftrightarrow> length (md4_buffer c) = 64"

definition md4_rep :: "MD4_CTX \<Rightarrow> byte list \<Rightarrow> bool" where
  "md4_rep c m \<longleftrightarrow> block_rep MD4Transform md4_start (md4_st c) (md4_buffer c) m \<and>
     md4_count0 c = count_low (length m) \<and> md4_count1 c = count_high (length m)"

lemma MD4Init_rep: "md4_mem c \<Longrightarrow> md4_rep (MD4Init c) []"
  by (simp add: md4_mem_def md4_rep_def MD4Init_def block_rep_init count_zero)

lemma uint4_shift:
  assumes "l < 2 ^ 29"
  shows "push_bit 3 (word_of_nat l :: int32) = word_of_nat (8 * l)"
    and "unat (word_of_nat (8 * l) :: int32) = 8 * l"
    and "drop_bit 29 (word_of_nat l :: int32) = 0"
proof -
  show "push_bit 3 (word_of_nat l :: int32) = word_of_nat (8 * l)"
    by (simp add: push_bit_eq_mult)
  have "8 * l < 2 ^ 32" using assms by simp
  then show "unat (word_of_nat (8 * l) :: int32) = 8 * l"
    unfolding unat_word_of_nat32 by (rule mod_less)
  have "unat (word_of_nat l :: int32) = l"
    using assms by (simp add: unsigned_of_nat take_bit_eq_mod)
  moreover have "unat (drop_bit 29 (word_of_nat l :: int32)) = drop_bit 29 (unat (word_of_nat l :: int32))"
    by (rule unat_drop_bit_eq)
  ultimately have "unat (drop_bit 29 (word_of_nat l :: int32)) = 0"
    using assms by (simp only: drop_bit_eq_div div_less)
  then show "drop_bit 29 (word_of_nat l :: int32) = 0" by (simp only: unat_eq_0)
qed

lemma MD4Update_rep:
  assumes rep: "md4_rep c m" and len: "length d < 2 ^ 29"
  shows "\<exists>c'. MD4Update c d = Inr c' \<and> md4_rep c' (m @ d)"
proof -
  note S = uint4_shift [OF len] and C = count_add [OF len, of "length m"]
  have c: "block_rep MD4Transform md4_start (md4_st c) (md4_buffer c) m"
    "md4_count0 c = count_low (length m)" "md4_count1 c = count_high (length m)"
    using rep by (auto simp: md4_rep_def)
  obtain st buf where fb:
    "fill_blocks MD4Transform (md4_st c) (md4_buffer c) (length m mod 64) d = Inr (st, buf)"
    "block_rep MD4Transform md4_start st buf (m @ d)"
    using fill_blocks_rep [OF c(1), of d] by auto
  have low: "md4_count0 c + push_bit 3 (word_of_nat (length d)) = count_low (length (m @ d))"
    unfolding S c(2) length_append C(1) [symmetric] ..
  have high: "(count_low (length (m @ d)) < push_bit 3 (word_of_nat (length d))) \<longleftrightarrow>
      unat (count_low (length (m @ d))) < 8 * length d"
    unfolding S word_less_nat_alt by (simp only: S(2))
  have "MD4Update c d = Inr (c\<lparr>md4_st := st, md4_count0 := count_low (length (m @ d)),
      md4_count1 := count_high (length (m @ d)), md4_buffer := buf\<rparr>)"
    unfolding MD4Update_def Let_def low high
    using fb(1) C(3) c(3) S(3) by (simp add: c(2) count_index)
  then show ?thesis
    using fb(2) by (simp add: md4_rep_def)
qed

lemma MD4Final_rep:
  assumes "md4_rep c m"
  shows "\<exists>c'. MD4Final c = Inr (md4 m, c')"
proof -
  let ?p = "0x80 # replicate (pad_zeros (length m)) 0"
  let ?f = "le32 (count_low (length m)) @ le32 (count_high (length m))"
  have c: "md4_count0 c = count_low (length m)" "md4_count1 c = count_high (length m)"
    using assms by (auto simp: md4_rep_def)
  have "pad_zeros (length m) \<le> 63" using pad_zeros(2) [of "length m"] by simp
  then have p: "take (Suc (pad_zeros (length m))) PADDING = ?p"
    by (simp add: PADDING_def min_def)
  obtain c1 where c1: "MD4Update c ?p = Inr c1" "md4_rep c1 (m @ ?p)"
    using MD4Update_rep [OF assms, of ?p] \<open>pad_zeros (length m) \<le> 63\<close> by auto
  obtain c2 where c2: "MD4Update c1 ?f = Inr c2" "md4_rep c2 ((m @ ?p) @ ?f)"
    using MD4Update_rep [OF c1(2), of ?f] by auto
  have "(m @ ?p) @ ?f = m @ md4_padding (length m)" by (simp add: md4_padding_def)
  then have st: "md4_st c2 = fst (absorb 64 MD4Transform md4_start (m @ md4_padding (length m)))"
    using c2(2) by (simp add: md4_rep_def block_rep_def)
  show ?thesis
    using c1(1) c2(1) st unfolding MD4Final_def Let_def c count_index pad_length p
    by (simp add: md4_def)
qed

lemma length_md4: "length (md4 m) = 16"
  by (simp add: md4_def md4_digest_def split: prod.splits)

interpretation md4: stream_hash hash_md4 md4_mem md4_rep md4 "2 ^ 29"
proof unfold_locales
  show "md4_mem c \<Longrightarrow> md4_rep (hash_init hash_md4 c) []" for c
    using MD4Init_rep by (simp add: hash_md4_def)
  show "md4_rep c m \<Longrightarrow> length d < 2 ^ 29 \<Longrightarrow>
      \<exists>c'. hash_process hash_md4 c d = Inr c' \<and> md4_rep c' (m @ d)" for c m d
    using MD4Update_rep by (simp add: hash_md4_def)
  show "md4_rep c m \<Longrightarrow> \<exists>c'. hash_terminate hash_md4 c = Inr (md4 m, c')" for c m
    using MD4Final_rep by (simp add: hash_md4_def)
  show "length (md4 m) = digestsize hash_md4" for m
    by (simp add: length_md4 hash_md4_def)
qed simp

section \<open>Properties\<close>

definition md4_garbage :: MD4_CTX where
  "md4_garbage = \<lparr>md4_st = (1, 2, 3, 4), md4_count0 = 6, md4_count1 = 7, md4_buffer = replicate 64 8\<rparr>"

text \<open>the MD4 digest of a message does not depend on how it is cut into updates.\<close>

theorem MD4_stream:
  assumes "md4_mem c" and "list_all (\<lambda>d. length d < 2 ^ 29) ds"
  shows "\<exists>c'. rbind (foldl (\<lambda>r d. rbind r (\<lambda>c. MD4Update c d)) (Inr (MD4Init c)) ds) MD4Final =
    Inr (md4 (concat ds), c')"
  using md4.hash_chunks [OF assms] by (simp add: hash_md4_def)

theorem MD4_stream_witness:
  "\<exists>c'. rbind (rbind (MD4Update (MD4Init md4_garbage) [97]) (\<lambda>c. MD4Update c [98, 99])) MD4Final =
    Inr (md4 [97, 98, 99], c')"
proof -
  have "md4_mem md4_garbage" by (simp add: md4_mem_def md4_garbage_def)
  from MD4_stream [OF this, of "[[97], [98, 99]]"] show ?thesis by simp
qed

end
