(* ===== verification/Md5.thy ===== *)
theory Md5
  imports DigestApi
begin

text \<open>
  MD5 of \<open>engine/common/md5.c\<close>.  One \<open>md5_update\<close> of a whole message gives the digest of the
  reference \<open>md5\<close> unless the message ends 56 to 61 bytes into a block; a second \<open>md5_update\<close> that
  finds bytes in the buffer loses them or writes past its end.
\<close>

type_synonym md5_state = "int32 \<times> int32 \<times> int32 \<times> int32"

record MD5_CONTEXT =
  md5_buf :: "byte list"
  md5_count :: nat
  md5_totalbytes :: u64
  md5_abcd :: md5_state

definition md5_start :: md5_state where
  "md5_start = (0x67452301, 0xefcdab89, 0x98badcfe, 0x10325476)"

definition md5_init :: "MD5_CONTEXT \<Rightarrow> MD5_CONTEXT" where
  "md5_init ctx = ctx\<lparr>md5_abcd := md5_start, md5_totalbytes := 0, md5_count := 0\<rparr>"

section \<open>The compression function\<close>

definition md5_FF :: "int32 \<Rightarrow> int32 \<Rightarrow> int32 \<Rightarrow> int32" where
  "md5_FF b c d = d XOR (b AND (c XOR d))"

definition md5_f :: "nat \<Rightarrow> int32 \<Rightarrow> int32 \<Rightarrow> int32 \<Rightarrow> int32" where
  "md5_f r b c d =
     (if r = 1 then md5_FF b c d
      else if r = 2 then md5_FF d b c
      else if r = 3 then b XOR c XOR d
      else c XOR (b OR NOT d))"

text \<open>The 64 unrolled calls of \<open>OP\<close>: round, index of the word, rotation, constant.\<close>

definition md5_steps :: "(nat \<times> nat \<times> nat \<times> int32) list" where
  "md5_steps =
    [(1, 0, 7, 0xd76aa478), (1, 1, 12, 0xe8c7b756), (1, 2, 17, 0x242070db), (1, 3, 22, 0xc1bdceee),
     (1, 4, 7, 0xf57c0faf), (1, 5, 12, 0x4787c62a), (1, 6, 17, 0xa8304613), (1, 7, 22, 0xfd469501),
     (1, 8, 7, 0x698098d8), (1, 9, 12, 0x8b44f7af), (1, 10, 17, 0xffff5bb1), (1, 11, 22, 0x895cd7be),
     (1, 12, 7, 0x6b901122), (1, 13, 12, 0xfd987193), (1, 14, 17, 0xa679438e), (1, 15, 22, 0x49b40821),
     (2, 1, 5, 0xf61e2562), (2, 6, 9, 0xc040b340), (2, 11, 14, 0x265e5a51), (2, 0, 20, 0xe9b6c7aa),
     (2, 5, 5, 0xd62f105d), (2, 10, 9, 0x02441453), (2, 15, 14, 0xd8a1e681), (2, 4, 20, 0xe7d3fbc8),
     (2, 9, 5, 0x21e1cde6), (2, 14, 9, 0xc33707d6), (2, 3, 14, 0xf4d50d87), (2, 8, 20, 0x455a14ed),
     (2, 13, 5, 0xa9e3e905), (2, 2, 9, 0xfcefa3f8), (2, 7, 14, 0x676f02d9), (2, 12, 20, 0x8d2a4c8a),
     (3, 5, 4, 0xfffa3942), (3, 8, 11, 0x8771f681), (3, 11, 16, 0x6d9d6122), (3, 14, 23, 0xfde5380c),
     (3, 1, 4, 0xa4beea44), (3, 4, 11, 0x4bdecfa9), (3, 7, 16, 0xf6bb4b60), (3, 10, 23, 0xbebfbc70),
     (3, 13, 4, 0x289b7ec6), (3, 0, 11, 0xeaa127fa), (3, 3, 16, 0xd4ef3085), (3, 6, 23, 0x04881d05),
     (3, 9, 4, 0xd9d4d039), (3, 12, 11, 0xe6db99e5), (3, 15, 16, 0x1fa27cf8), (3, 2, 23, 0xc4ac5665),
     (4, 0, 6, 0xf4292244), (4, 7, 10, 0x432aff97), (4, 14, 15, 0xab9423a7), (4, 5, 21, 0xfc93a039),
     (4, 12, 6, 0x655b59c3), (4, 3, 10, 0x8f0ccc92), (4, 10, 15, 0xffeff47d), (4, 1, 21, 0x85845dd1),
     (4, 8, 6, 0x6fa87e4f), (4, 15, 10, 0xfe2ce6e0), (4, 6, 15, 0xa3014314), (4, 13, 21, 0x4e0811a1),
     (4, 4, 6, 0xf7537e82), (4, 11, 10, 0xbd3af235), (4, 2, 15, 0x2ad7d2bb), (4, 9, 21, 0xeb86d391)]"

definition md5_step :: "int32 list \<Rightarrow> nat \<times> nat \<times> nat \<times> int32 \<Rightarrow> md5_state \<Rightarrow> md5_state" where
  "md5_step w op s = (case op of (r, k, n, t) \<Rightarrow> (case s of (a, b, c, d) \<Rightarrow>
     let a = a + (md5_f r b c d + w ! k + t); a = rol32 a n; a = a + b in (d, a, b, c)))"

definition md5_transform :: "md5_state \<Rightarrow> byte list \<Rightarrow> md5_state" where
  "md5_transform s dat =
     (case fold (md5_step (map (\<lambda>i. get_le32 dat (i * 4)) [0..<16])) md5_steps s of (a, b, c, d) \<Rightarrow>
       (case s of (s0, s1, s2, s3) \<Rightarrow> (s0 + a, s1 + b, s2 + c, s3 + d)))"

definition md5_transform_blk :: "MD5_CONTEXT \<Rightarrow> byte list \<Rightarrow> MD5_CONTEXT" where
  "md5_transform_blk ctx dat = ctx\<lparr>md5_abcd := md5_transform (md5_abcd ctx) dat\<rparr>"

section \<open>The streaming interface\<close>

text \<open>\<open>while (sz >= sizeof(hd->buf)) { md5_transform_blk(ctx, in); ... }\<close>: the context and the rest.\<close>

function md5_bulk :: "MD5_CONTEXT \<Rightarrow> byte list \<Rightarrow> MD5_CONTEXT \<times> byte list" where
  "md5_bulk ctx inp =
     (if 64 \<le> length inp then md5_bulk (md5_transform_blk ctx (take 64 inp)) (drop 64 inp)
      else (ctx, inp))"
  by pat_completeness auto
termination
  by (relation "measure (\<lambda>(ctx, inp). length inp)") auto

declare md5_bulk.simps [simp del]

text \<open>
  The first \<open>memcpy\<close> copies all \<open>sz\<close> bytes, not the \<open>pre\<close> that fit, and \<open>count\<close> is not advanced.
\<close>

definition md5_update :: "MD5_CONTEXT \<Rightarrow> byte list \<Rightarrow> MD5_CONTEXT res" where
  "md5_update h inp =
     (let h = h\<lparr>md5_totalbytes := md5_totalbytes h + word_of_nat (length inp)\<rparr> in
      rbind (if md5_count h \<noteq> 0 then
               let pre = min (64 - md5_count h) (length inp) in
               rbind (pokes (md5_count h) inp (md5_buf h)) (\<lambda>buf.
                 Inr (h\<lparr>md5_buf := buf\<rparr>, drop pre inp))
             else Inr (h, inp)) (\<lambda>(h, inp).
      let h = (if md5_count h = 64 then (md5_transform_blk h (md5_buf h))\<lparr>md5_count := 0\<rparr> else h);
          (h, inp) = md5_bulk h inp
      in rbind (pokes 0 inp (md5_buf h)) (\<lambda>buf.
           Inr (h\<lparr>md5_buf := buf, md5_count := length inp\<rparr>))))"

text \<open>\<open>hd->buf[hd->count++] = v\<close>, and the loop that appends zeros while \<open>count\<close> is below 56.\<close>

definition md5_append :: "byte \<Rightarrow> MD5_CONTEXT \<Rightarrow> MD5_CONTEXT res" where
  "md5_append v h = rbind (poke (md5_count h) v (md5_buf h)) (\<lambda>buf.
     Inr (h\<lparr>md5_buf := buf, md5_count := md5_count h + 1\<rparr>))"

function md5_zeros :: "MD5_CONTEXT \<Rightarrow> MD5_CONTEXT res" where
  "md5_zeros h =
     (if md5_count h < 56 then
        (case md5_append 0 h of Inl e \<Rightarrow> Inl e | Inr h' \<Rightarrow> md5_zeros h')
      else Inr h)"
  by pat_completeness auto
termination
  by (relation "measure (\<lambda>h. 56 - md5_count h)") (auto simp: md5_append_def elim!: rbind_InrE)

declare md5_zeros.simps [simp del]

definition md5_digest :: "md5_state \<Rightarrow> byte list" where
  "md5_digest s = (case s of (a, b, c, d) \<Rightarrow> le32 a @ le32 b @ le32 c @ le32 d)"

definition md5_finish :: "u64 \<Rightarrow> MD5_CONTEXT \<Rightarrow> (byte list \<times> MD5_CONTEXT) res" where
  "md5_finish origbigcount h =
     rbind (md5_zeros h) (\<lambda>h.
     rbind (pokes 56 (le32 (ucast origbigcount)) (md5_buf h)) (\<lambda>buf.
     rbind (pokes 60 (le32 (ucast (drop_bit 32 origbigcount))) buf) (\<lambda>buf.
     let h = md5_transform_blk (h\<lparr>md5_buf := buf\<rparr>) buf in
       Inr (md5_digest (md5_abcd h), h\<lparr>md5_buf := replicate 64 0, md5_count := 0\<rparr>))))"

definition md5_final :: "MD5_CONTEXT \<Rightarrow> (byte list \<times> MD5_CONTEXT) res" where
  "md5_final h =
     (let origbigcount = push_bit 3 (md5_totalbytes h) in
      rbind (md5_append 0x80 h) (\<lambda>h.
      rbind (if md5_count h > 56 then
               rbind (if md5_count h < 64 then md5_append 0 h else Inr h) (\<lambda>h.
                 Inr ((md5_transform_blk h (md5_buf h))\<lparr>md5_count := 0\<rparr>))
             else Inr h)
        (md5_finish origbigcount)))"

definition hash_md5 :: "MD5_CONTEXT hashfunc_t" where
  "hash_md5 = \<lparr>digestsize = 16, hash_init = md5_init, hash_process = md5_update,
     hash_terminate = md5_final\<rparr>"

section \<open>The reference\<close>

definition md5_padding :: "nat \<Rightarrow> byte list" where
  "md5_padding len = 0x80 # replicate (pad_zeros len) 0 @ le32 (count_low len) @ le32 (count_high len)"

definition md5 :: "byte list \<Rightarrow> byte list" where
  "md5 m = md5_digest (fst (absorb 64 md5_transform md5_start (m @ md5_padding (length m))))"

definition md5_rep :: "MD5_CONTEXT \<Rightarrow> byte list \<Rightarrow> bool" where
  "md5_rep c m \<longleftrightarrow> block_rep md5_transform md5_start (md5_abcd c) (md5_buf c) m \<and>
     md5_count c = length m mod 64 \<and> md5_totalbytes c = word_of_nat (length m)"

lemma md5_init_rep: "length (md5_buf c) = 64 \<Longrightarrow> md5_rep (md5_init c) []"
  by (simp add: md5_rep_def md5_init_def block_rep_init)

lemma md5_bulk_absorb:
  "md5_bulk ctx inp = (ctx\<lparr>md5_abcd := fst (absorb 64 md5_transform (md5_abcd ctx) inp)\<rparr>,
     snd (absorb 64 md5_transform (md5_abcd ctx) inp))"
proof (induction ctx inp rule: md5_bulk.induct)
  case (1 ctx inp)
  show ?case
  proof (cases "64 \<le> length inp")
    case True
    have "(ctx\<lparr>md5_abcd := a\<rparr>)\<lparr>md5_abcd := b\<rparr> = ctx\<lparr>md5_abcd := b\<rparr>" for a b by simp
    with True 1 show ?thesis
      by (simp add: md5_bulk.simps [of ctx inp] absorb.simps [of 64 md5_transform "md5_abcd ctx" inp]
          md5_transform_blk_def)
  next
    case False
    then have "absorb 64 md5_transform (md5_abcd ctx) inp = (md5_abcd ctx, inp)"
      by (simp add: absorb_short)
    then show ?thesis using False by (simp add: md5_bulk.simps [of ctx inp])
  qed
qed

text \<open>An update that finds the buffer empty is right.\<close>

lemma md5_update_rep:
  assumes rep: "md5_rep c m" and whole: "length m mod 64 = 0"
  shows "\<exists>c'. md5_update c d = Inr c' \<and> md5_rep c' (m @ d)"
proof -
  have c: "length (md5_buf c) = 64" "absorb 64 md5_transform md5_start m = (md5_abcd c, [])"
    "md5_count c = 0" "md5_totalbytes c = word_of_nat (length m)"
    using rep whole by (auto simp: md5_rep_def block_rep_def)
  obtain s r where sr: "absorb 64 md5_transform (md5_abcd c) d = (s, r)"
    by (cases "absorb 64 md5_transform (md5_abcd c) d")
  have r: "length r = length d mod 64" by (rule absorb_restD [OF sr])
  have md: "length (m @ d) mod 64 = length d mod 64"
    using whole mod_add_left_eq [of "length m" 64 "length d"] by simp
  have "length r < 64" using r by simp
  then have p: "pokes 0 r (md5_buf c) = Inr (r @ drop (length r) (md5_buf c))"
    using pokes_Inr [of 0 r "md5_buf c"] c(1) by simp
  have "absorb 64 md5_transform md5_start (m @ d) = (s, r)"
    by (simp only: absorb_append [of _ _ _ m d] c(2) prod.case append_Nil sr)
  moreover have "md5_update c d = Inr (c\<lparr>md5_totalbytes := md5_totalbytes c + word_of_nat (length d),
      md5_abcd := s, md5_buf := r @ drop (length r) (md5_buf c), md5_count := length r\<rparr>)"
    using p c(3) sr by (cases c) (simp add: md5_update_def md5_bulk_absorb)
  ultimately show ?thesis
    using r c(1,4) md \<open>length r < 64\<close> by (simp add: md5_rep_def block_rep_def)
qed

section \<open>The end of a message\<close>

lemma md5_zeros_eq:
  "length (md5_buf h) = 64 \<Longrightarrow> md5_count h \<le> 56 \<Longrightarrow>
   md5_zeros h = Inr (h\<lparr>md5_buf := take (md5_count h) (md5_buf h) @
     replicate (56 - md5_count h) 0 @ drop 56 (md5_buf h), md5_count := 56\<rparr>)"
proof (induction "56 - md5_count h" arbitrary: h)
  case 0
  then have k: "md5_count h = 56" by simp
  then have "h\<lparr>md5_buf := take 56 (md5_buf h) @ drop 56 (md5_buf h), md5_count := 56\<rparr> = h"
    by (cases h) simp
  then show ?case using k by (simp add: md5_zeros.simps [of h])
next
  case (Suc n)
  obtain k where k: "k = md5_count h" "k < 56" using Suc.hyps(2) by simp
  let ?h = "h\<lparr>md5_buf := (md5_buf h)[k := 0], md5_count := k + 1\<rparr>"
  have "md5_append 0 h = Inr ?h"
    using k Suc.prems(1) by (simp add: md5_append_def)
  then have "md5_zeros h = md5_zeros ?h"
    using k by (simp add: md5_zeros.simps [of h])
  moreover have "md5_zeros ?h = Inr (?h\<lparr>md5_buf := take (k + 1) ((md5_buf h)[k := 0]) @
      replicate (56 - (k + 1)) 0 @ drop 56 ((md5_buf h)[k := 0]), md5_count := 56\<rparr>)"
    using Suc.hyps(1) [of ?h] Suc.hyps(2) Suc.prems k by simp
  moreover have "take (k + 1) ((md5_buf h)[k := 0]) = take k (md5_buf h) @ [0]"
    using Suc.prems(1) k(2) by (simp add: take_Suc_conv_app_nth)
  moreover have "drop 56 ((md5_buf h)[k := 0]) = drop 56 (md5_buf h)"
    using k(2) by simp
  moreover have "replicate (56 - k) (0 :: byte) = [0] @ replicate (56 - (k + 1)) 0"
    using k(2) by (simp add: Suc_diff_Suc flip: replicate_Suc)
  ultimately show ?case
    unfolding k(1) [symmetric] by simp
qed

definition md5_lengths :: "u64 \<Rightarrow> byte list" where
  "md5_lengths n = le32 (ucast n) @ le32 (ucast (drop_bit 32 n))"

lemma md5_finish_eq:
  assumes "length (md5_buf h) = 64" and "md5_count h \<le> 56"
  shows "\<exists>h'. md5_finish n h = Inr (md5_digest (md5_transform (md5_abcd h)
    (take (md5_count h) (md5_buf h) @ replicate (56 - md5_count h) 0 @ md5_lengths n)), h')"
proof -
  let ?b = "take (md5_count h) (md5_buf h) @ replicate (56 - md5_count h) 0"
  have b: "length ?b = 56" using assms by simp
  have "pokes 56 (le32 (ucast n)) (?b @ drop 56 (md5_buf h)) =
      Inr (?b @ le32 (ucast n) @ drop 60 (md5_buf h))"
    using pokes_Inr [of 56 "le32 (ucast n)" "?b @ drop 56 (md5_buf h)"] b assms by simp
  moreover have "pokes 60 (le32 (ucast (drop_bit 32 n))) (?b @ le32 (ucast n) @ drop 60 (md5_buf h)) =
      Inr (?b @ md5_lengths n)"
    using pokes_Inr [of 60 "le32 (ucast (drop_bit 32 n))" "?b @ le32 (ucast n) @ drop 60 (md5_buf h)"]
      b assms by (simp add: md5_lengths_def)
  ultimately show ?thesis
    using md5_zeros_eq [OF assms] by (simp add: md5_finish_def md5_transform_blk_def Let_def)
qed

lemma md5_append_eq:
  "length (md5_buf h) = 64 \<Longrightarrow> md5_count h < 64 \<Longrightarrow>
   md5_append v h = Inr (h\<lparr>md5_buf := take (md5_count h) (md5_buf h) @ [v] @ drop (Suc (md5_count h)) (md5_buf h),
     md5_count := Suc (md5_count h)\<rparr>)"
  by (simp add: md5_append_def upd_conv_take_nth_drop)

lemma push_bit_of_nat: "push_bit 3 (word_of_nat n :: u64) = word_of_nat (8 * n)"
  by (simp add: push_bit_eq_mult)

lemma md5_lengths_count:
  "md5_lengths (push_bit 3 (word_of_nat len)) = le32 (count_low len) @ le32 (count_high len)"
proof -
  have "(ucast (word_of_nat x :: u64) :: int32) = word_of_nat x"
    and "(ucast (drop_bit 32 (word_of_nat x :: u64)) :: int32) = word_of_nat (drop_bit 32 x)" for x
    by (rule bit_word_eqI, auto simp: bit_simps)+
  then show ?thesis
    unfolding md5_lengths_def push_bit_of_nat count_low_def count_high_def
    by (simp only: drop_bit_eq_div)
qed

lemma absorb_last:
  "length b = 64 \<Longrightarrow> fst (absorb 64 T s b) = T s b"
  using absorb_block [of 64 b T s "[]"] by (simp add: absorb_short)

lemma absorb_tail:
  assumes "absorb 64 T s0 m = (s, r)"
  shows "absorb 64 T s0 (m @ p) = absorb 64 T s (r @ p)"
  using assms absorb_append [of 64 T s0 m p] by simp

text \<open>
  A message that leaves room for the count, or only one byte besides the \<open>0x80\<close>, is padded as
  RFC 1321 says.
\<close>

lemma md5_final_rep:
  assumes rep: "md5_rep c m" and r: "length m mod 64 < 56 \<or> 62 \<le> length m mod 64"
  shows "\<exists>c'. md5_final c = Inr (md5 m, c')"
proof -
  obtain k where k: "k = length m mod 64" "k < 64" by simp
  let ?n = "push_bit 3 (word_of_nat (length m)) :: u64" and ?rest = "take k (md5_buf c)"
  have c: "length (md5_buf c) = 64" "absorb 64 md5_transform md5_start m = (md5_abcd c, ?rest)"
    "md5_count c = k" "md5_totalbytes c = word_of_nat (length m)"
    using rep k by (auto simp: md5_rep_def block_rep_def)
  have len: "md5_lengths ?n = le32 (count_low (length m)) @ le32 (count_high (length m))"
    by (rule md5_lengths_count)
  let ?c1 = "c\<lparr>md5_buf := ?rest @ [0x80] @ drop (Suc k) (md5_buf c), md5_count := Suc k\<rparr>"
  have c1: "md5_append 0x80 c = Inr ?c1"
    using md5_append_eq [of c "0x80"] c(1,3) k(2) by simp
  have b1: "length (md5_buf ?c1) = 64" using c(1) k(2) by simp
  have md5: "md5 m = md5_digest (fst (absorb 64 md5_transform (md5_abcd c)
      (?rest @ 0x80 # replicate (pad_zeros (length m)) 0 @ md5_lengths ?n)))"
    unfolding md5_def absorb_tail [OF c(2)] md5_padding_def len ..
  show ?thesis
  proof (cases "k < 56")
    case True
    have z: "pad_zeros (length m) = 55 - k"
      using pad_length [of "length m"] True unfolding k(1) [symmetric] by simp
    have l: "length (?rest @ 0x80 # replicate (55 - k) 0 @ md5_lengths ?n) = 64"
      using c(1) True by (simp add: md5_lengths_def)
    have "md5_final c = md5_finish ?n ?c1"
      using c1 c(4) True by (simp add: md5_final_def Let_def)
    moreover have "take (Suc k) (md5_buf ?c1) @ replicate (56 - Suc k) 0 @ md5_lengths ?n =
        ?rest @ 0x80 # replicate (55 - k) 0 @ md5_lengths ?n"
      using c(1) True by simp
    ultimately show ?thesis
      using md5_finish_eq [of ?c1 ?n] b1 True unfolding md5 z absorb_last [OF l] by simp
  next
    case False
    then have k2: "k = 62 \<or> k = 63" using r k by auto
    obtain b where b: "length b = 64" "b = ?rest @ 0x80 # replicate (63 - k) 0"
      using c(1) k2 by auto
    let ?c2 = "c\<lparr>md5_buf := b, md5_abcd := md5_transform (md5_abcd c) b, md5_count := 0\<rparr>"
    have z: "pad_zeros (length m) = (63 - k) + 56"
      using k2 unfolding pad_zeros_def k(1) [symmetric] by auto
    have "rbind (if md5_count ?c1 < 64 then md5_append 0 ?c1 else Inr ?c1) (\<lambda>h.
        Inr ((md5_transform_blk h (md5_buf h))\<lparr>md5_count := 0\<rparr>)) = Inr ?c2"
      using k2 b c(1) b1 md5_append_eq [of ?c1 0] by (auto simp: md5_transform_blk_def)
    moreover have "md5_count ?c1 > 56" using False by simp
    ultimately have "md5_final c = md5_finish ?n ?c2"
      by (simp only: md5_final_def Let_def c1 c(4) rbind_Inr if_True)
    moreover have "fst (absorb 64 md5_transform (md5_abcd c) (?rest @ 0x80 # replicate ((63 - k) + 56) 0 @
        md5_lengths ?n)) = md5_transform (md5_transform (md5_abcd c) b) (replicate 56 0 @ md5_lengths ?n)"
    proof -
      have "?rest @ 0x80 # replicate ((63 - k) + 56) 0 @ md5_lengths ?n =
          b @ (replicate 56 0 @ md5_lengths ?n)"
        unfolding b(2) replicate_add by simp
      moreover have "absorb 64 md5_transform (md5_abcd c) (b @ (replicate 56 0 @ md5_lengths ?n)) =
          absorb 64 md5_transform (md5_transform (md5_abcd c) b) (replicate 56 0 @ md5_lengths ?n)"
        by (rule absorb_block [OF _ b(1)]) simp
      moreover have "length (replicate 56 (0 :: byte) @ md5_lengths ?n) = 64"
        by (simp add: md5_lengths_def)
      ultimately show ?thesis
        by (simp only: absorb_last)
    qed
    ultimately show ?thesis
      using md5_finish_eq [of ?c2 ?n] b(1) unfolding md5 z by simp
  qed
qed

text \<open>Otherwise the block compressed ends with what the buffer held before.\<close>

lemma md5_final_stale:
  assumes rep: "md5_rep c m" and r: "56 \<le> length m mod 64" "length m mod 64 < 62"
  shows "\<exists>c'. md5_final c = Inr (md5_digest (md5_transform (md5_transform (md5_abcd c)
      (take (length m mod 64) (md5_buf c) @ [0x80, 0] @ drop (length m mod 64 + 2) (md5_buf c)))
      (replicate 56 0 @ le32 (count_low (length m)) @ le32 (count_high (length m)))), c')"
proof -
  obtain k where k: "k = length m mod 64" "56 \<le> k" "k < 62" using r by simp
  let ?n = "push_bit 3 (word_of_nat (length m)) :: u64"
  have c: "length (md5_buf c) = 64" "md5_count c = k" "md5_totalbytes c = word_of_nat (length m)"
    using rep k by (auto simp: md5_rep_def block_rep_def)
  let ?b = "take k (md5_buf c) @ [0x80, 0] @ drop (k + 2) (md5_buf c)"
  let ?c2 = "c\<lparr>md5_buf := ?b, md5_abcd := md5_transform (md5_abcd c) ?b, md5_count := 0\<rparr>"
  have "md5_final c = md5_finish ?n ?c2"
    using md5_append_eq [of c "0x80"] c k
      md5_append_eq [of "c\<lparr>md5_buf := take k (md5_buf c) @ [0x80] @ drop (Suc k) (md5_buf c),
        md5_count := Suc k\<rparr>" 0]
    by (simp add: md5_final_def Let_def md5_transform_blk_def)
  moreover have "length (md5_buf ?c2) = 64" using c(1) k by simp
  ultimately show ?thesis
    using md5_finish_eq [of ?c2 ?n] unfolding k(1) [symmetric] md5_lengths_count by simp
qed

section \<open>A second update\<close>

text \<open>With bytes in the buffer, an update past the end of the block writes outside the buffer,\<close>

lemma md5_update_overflow:
  assumes rep: "md5_rep c m" and part: "length m mod 64 \<noteq> 0" and long: "64 < length m mod 64 + length d"
  shows "md5_update c d = Inl Out_Of_Bounds"
proof -
  have c: "length (md5_buf c) = 64" "md5_count c = length m mod 64"
    using rep by (auto simp: md5_rep_def block_rep_def)
  moreover have "d \<noteq> []" using long by (cases d) (auto simp: not_less less_imp_le)
  ultimately have "pokes (length m mod 64) d (md5_buf c) = Inl Out_Of_Bounds"
    using long by (intro pokes_overflow) auto
  then show ?thesis using c part by (simp add: md5_update_def)
qed

text \<open>and a shorter one forgets the bytes of the buffer and its own.\<close>

lemma md5_update_drops:
  assumes rep: "md5_rep c m" and part: "length m mod 64 \<noteq> 0" and short: "length m mod 64 + length d \<le> 64"
  shows "\<exists>c'. md5_update c d = Inr c' \<and> md5_count c' = 0 \<and> md5_abcd c' = md5_abcd c"
proof -
  obtain k where k: "k = length m mod 64" "k < 64" "k \<noteq> 0" "k + length d \<le> 64" using part short by simp
  have c: "length (md5_buf c) = 64" "md5_count c = k"
    using rep k by (auto simp: md5_rep_def block_rep_def)
  then have "pokes k d (md5_buf c) = Inr (take k (md5_buf c) @ d @ drop (k + length d) (md5_buf c))"
    using k by (intro pokes_Inr) simp
  moreover have "drop (min (64 - k) (length d)) d = []" using k by simp
  ultimately show ?thesis
    using c k(2-4) by (simp add: md5_update_def md5_bulk_absorb absorb_short Let_def)
qed

section \<open>Properties\<close>

definition md5_garbage :: MD5_CONTEXT where
  "md5_garbage = \<lparr>md5_buf = replicate 64 9, md5_count = 4, md5_totalbytes = 1, md5_abcd = (1, 2, 3, 4)\<rparr>"

text \<open>\<open>CalcHash\<close> with MD5, one update over the whole message, gives the digest of RFC 1321
  whenever the message does not end 56 to 61 bytes into a block.\<close>

theorem CalcHash_md5:
  assumes "length (md5_buf c) = 64" and "length m mod 64 < 56 \<or> 62 \<le> length m mod 64" and "16 \<le> n"
  shows "CalcHash hash_md5 c n m = Inr (Some (md5 m))"
proof -
  obtain c' where "md5_update (md5_init c) m = Inr c'" "md5_rep c' m"
    using md5_update_rep [OF md5_init_rep [OF assms(1)], of m] by auto
  with md5_final_rep [OF this(2) assms(2)] assms(3) show ?thesis
    by (auto simp: CalcHash_def hash_md5_def)
qed

theorem CalcHash_md5_witness: "CalcHash hash_md5 md5_garbage 16 [97] = Inr (Some (md5 [97]))"
  using CalcHash_md5 [of md5_garbage "[97]" 16] by (simp add: md5_garbage_def)

text \<open>for the other lengths one zero byte is appended where the rest of the block should be
  cleared: the block that is compressed ends with what the buffer held before the message, so the
  digest depends on uninitialised memory.\<close>

theorem md5_final_uninitialised:
  assumes "md5_rep c m" and "56 \<le> length m mod 64" and "length m mod 64 < 62"
  shows "\<exists>c'. md5_final c = Inr (md5_digest (md5_transform (md5_transform (md5_abcd c)
      (take (length m mod 64) (md5_buf c) @ [0x80, 0] @ drop (length m mod 64 + 2) (md5_buf c)))
      (replicate 56 0 @ le32 (count_low (length m)) @ le32 (count_high (length m)))), c')"
  using assms by (rule md5_final_stale)

theorem md5_final_uninitialised_witness:
  "\<exists>c m d c'. md5_rep c m \<and> length m = 56 \<and> drop 58 (md5_buf c) = replicate 6 9 \<and> md5_final c = Inr (d, c')"
proof -
  let ?m = "replicate 56 (97 :: byte)"
  let ?c = "md5_garbage\<lparr>md5_buf := ?m @ replicate 8 9, md5_count := 56, md5_totalbytes := 56,
    md5_abcd := md5_start\<rparr>"
  have m: "length ?m = 56" by simp
  have rep: "md5_rep ?c ?m"
    by (simp add: md5_rep_def block_rep_def absorb_short)
  moreover have "drop 58 (md5_buf ?c) = replicate 6 9" by simp
  ultimately show ?thesis
    using md5_final_uninitialised [OF rep] m by fastforce
qed

text \<open>a second update that finds a partly filled buffer loses data: it leaves the buffer empty
  and the chaining variables as they were, or, past the end of the block, writes outside it.\<close>

theorem md5_update_loses:
  assumes "md5_rep c m" and "length m mod 64 \<noteq> 0"
  shows "if length m mod 64 + length d \<le> 64
    then \<exists>c'. md5_update c d = Inr c' \<and> md5_count c' = 0 \<and> md5_abcd c' = md5_abcd c
    else md5_update c d = Inl Out_Of_Bounds"
  using md5_update_drops [OF assms, of d] md5_update_overflow [OF assms, of d] by simp

theorem md5_update_loses_witness:
  "\<exists>c'. rbind (md5_update (md5_init md5_garbage) [97]) (\<lambda>c. md5_update c [98]) = Inr c' \<and>
    md5_count c' = 0 \<and> md5_abcd c' = md5_start"
proof -
  have len: "length (md5_buf md5_garbage) = 64" by (simp add: md5_garbage_def)
  obtain c where c: "md5_update (md5_init md5_garbage) [97] = Inr c" "md5_rep c [97]"
    using md5_update_rep [OF md5_init_rep [OF len], of "[97]"] by auto
  then have "md5_abcd c = md5_start" by (simp add: md5_rep_def block_rep_def absorb_short)
  with c md5_update_loses [OF c(2), of "[98]"] show ?thesis by auto
qed

end
