(* ===== verification/Blake2b.thy ===== *)
theory Blake2b
  imports DigestApi
begin

text \<open>
  BLAKE2b-256 of \<open>engine/common/blake2b.c\<close>, by which the updater names its files, as a digest that may be
  fed in pieces: it is the function of RFC 7693 of the whole message.  A context holds back a full block
  until it knows that more follows.
\<close>

section \<open>The compression\<close>

definition BLAKE2B_BLOCKBYTES :: nat where "BLAKE2B_BLOCKBYTES = 128"
definition BLAKE2B_OUTBYTES :: nat where "BLAKE2B_OUTBYTES = 32"

record BLAKE2B_CONTEXT =
  b2_h :: "u64 list"
  b2_t :: "u64 \<times> u64"
  b2_buf :: "byte list"
  b2_buflen :: nat

definition blake2b_IV :: "u64 list" where
  "blake2b_IV =
    [0x6a09e667f3bcc908, 0xbb67ae8584caa73b, 0x3c6ef372fe94f82b, 0xa54ff53a5f1d36f1,
     0x510e527fade682d1, 0x9b05688c2b3e6c1f, 0x1f83d9abfb41bd6b, 0x5be0cd19137e2179]"

definition blake2b_sigma :: "nat list list" where
  "blake2b_sigma =
    [[ 0,  1,  2,  3,  4,  5,  6,  7,  8,  9, 10, 11, 12, 13, 14, 15],
     [14, 10,  4,  8,  9, 15, 13,  6,  1, 12,  0,  2, 11,  7,  5,  3],
     [11,  8, 12,  0,  5,  2, 15, 13, 10, 14,  3,  6,  7,  1,  9,  4],
     [ 7,  9,  3,  1, 13, 12, 11, 14,  2,  6,  5, 10,  4,  0, 15,  8],
     [ 9,  0,  5,  7,  2,  4, 10, 15, 14,  1, 11, 12,  6,  8,  3, 13],
     [ 2, 12,  6, 10,  0, 11,  8,  3,  4, 13,  7,  5, 15, 14,  1,  9],
     [12,  5,  1, 15, 14, 13,  4, 10,  0,  7,  6,  3,  9,  2,  8, 11],
     [13, 11,  7, 14, 12,  1,  3,  9,  5,  0, 15,  4,  8,  6,  2, 10],
     [ 6, 15, 14,  9, 11,  3,  0,  8, 12,  2, 13,  7,  1,  4, 10,  5],
     [10,  2,  8,  4,  7,  6,  1,  5, 15, 11,  9, 14,  3, 12, 13,  0],
     [ 0,  1,  2,  3,  4,  5,  6,  7,  8,  9, 10, 11, 12, 13, 14, 15],
     [14, 10,  4,  8,  9, 15, 13,  6,  1, 12,  0,  2, 11,  7,  5,  3]]"

definition blake2b_load64 :: "byte list \<Rightarrow> nat \<Rightarrow> u64" where
  "blake2b_load64 src i =
     ucast (src ! i) OR push_bit 8 (ucast (src ! (i + 1))) OR push_bit 16 (ucast (src ! (i + 2))) OR
     push_bit 24 (ucast (src ! (i + 3))) OR push_bit 32 (ucast (src ! (i + 4))) OR
     push_bit 40 (ucast (src ! (i + 5))) OR push_bit 48 (ucast (src ! (i + 6))) OR
     push_bit 56 (ucast (src ! (i + 7)))"

definition blake2b_store64 :: "u64 \<Rightarrow> byte list" where
  "blake2b_store64 w =
     [ucast w, ucast (drop_bit 8 w), ucast (drop_bit 16 w), ucast (drop_bit 24 w),
      ucast (drop_bit 32 w), ucast (drop_bit 40 w), ucast (drop_bit 48 w), ucast (drop_bit 56 w)]"

definition blake2b_rotr64 :: "u64 \<Rightarrow> nat \<Rightarrow> u64" where
  "blake2b_rotr64 w c = drop_bit c w OR push_bit (64 - c) w"

text \<open>The macro \<open>G\<close> on the words \<open>v[a]\<close>, \<open>v[b]\<close>, \<open>v[c]\<close> and \<open>v[d]\<close>.\<close>

definition blake2b_G :: "u64 list \<Rightarrow> nat \<Rightarrow> nat \<times> nat \<times> nat \<times> nat \<times> nat \<Rightarrow> u64 list \<Rightarrow> u64 list" where
  "blake2b_G m r = (\<lambda>(i, ia, ib, ic, id) v.
     let a = v ! ia; b = v ! ib; c = v ! ic; d = v ! id;
         a = a + b + m ! (blake2b_sigma ! r ! (2 * i));
         d = blake2b_rotr64 (d XOR a) 32;
         c = c + d;
         b = blake2b_rotr64 (b XOR c) 24;
         a = a + b + m ! (blake2b_sigma ! r ! (2 * i + 1));
         d = blake2b_rotr64 (d XOR a) 16;
         c = c + d;
         b = blake2b_rotr64 (b XOR c) 63
     in v[ia := a, ib := b, ic := c, id := d])"

definition blake2b_ROUND :: "u64 list \<Rightarrow> nat \<Rightarrow> u64 list \<Rightarrow> u64 list" where
  "blake2b_ROUND m r v =
     fold (blake2b_G m r)
       [(0, 0, 4, 8, 12), (1, 1, 5, 9, 13), (2, 2, 6, 10, 14), (3, 3, 7, 11, 15),
        (4, 0, 5, 10, 15), (5, 1, 6, 11, 12), (6, 2, 7, 8, 13), (7, 3, 4, 9, 14)] v"

definition blake2b_compress :: "BLAKE2B_CONTEXT \<Rightarrow> byte list \<Rightarrow> bool \<Rightarrow> BLAKE2B_CONTEXT res" where
  "blake2b_compress S block last_block =
     (if length block < BLAKE2B_BLOCKBYTES \<or> length (b2_h S) < 8 then Inl Out_Of_Bounds
      else
        let m = map (\<lambda>i. blake2b_load64 block (8 * i)) [0..<16];
            v = take 8 (b2_h S) @ blake2b_IV;
            v = v[12 := v ! 12 XOR fst (b2_t S), 13 := v ! 13 XOR snd (b2_t S)];
            v = (if last_block then v[14 := NOT (v ! 14)] else v);
            v = fold (blake2b_ROUND m) [0..<12] v
        in Inr (S\<lparr>b2_h := map (\<lambda>i. b2_h S ! i XOR v ! i XOR v ! (8 + i)) [0..<8]\<rparr>))"

definition blake2b_increment :: "u64 \<Rightarrow> BLAKE2B_CONTEXT \<Rightarrow> BLAKE2B_CONTEXT" where
  "blake2b_increment inc S =
     (let t0 = fst (b2_t S) + inc; t1 = (if t0 < inc then snd (b2_t S) + 1 else snd (b2_t S))
      in S\<lparr>b2_t := (t0, t1)\<rparr>)"

section \<open>The interface\<close>

definition blake2b_256_init :: "BLAKE2B_CONTEXT \<Rightarrow> BLAKE2B_CONTEXT" where
  "blake2b_256_init S =
     S\<lparr>b2_h := blake2b_IV[0 := blake2b_IV ! 0 XOR (0x01010000 XOR word_of_nat BLAKE2B_OUTBYTES)],
       b2_t := (0, 0), b2_buflen := 0\<rparr>"

text \<open>\<open>while (datasize > BLAKE2B_BLOCKBYTES)\<close>.\<close>

function blake2b_blocks :: "BLAKE2B_CONTEXT \<Rightarrow> byte list \<Rightarrow> (BLAKE2B_CONTEXT \<times> byte list) res" where
  "blake2b_blocks S d =
     (if BLAKE2B_BLOCKBYTES < length d then
        rbind (blake2b_compress (blake2b_increment (word_of_nat BLAKE2B_BLOCKBYTES) S) d False) (\<lambda>S.
        blake2b_blocks S (drop BLAKE2B_BLOCKBYTES d))
      else Inr (S, d))"
  by pat_completeness auto
termination
  by (relation "measure (\<lambda>(S, d). length d)") (auto simp: BLAKE2B_BLOCKBYTES_def)

declare blake2b_blocks.simps [simp del]

definition blake2b_256_process :: "BLAKE2B_CONTEXT \<Rightarrow> byte list \<Rightarrow> BLAKE2B_CONTEXT res" where
  "blake2b_256_process S d =
     (if d = [] then Inr S
      else
        rbind (if BLAKE2B_BLOCKBYTES < b2_buflen S + length d then
                 (let fill = BLAKE2B_BLOCKBYTES - b2_buflen S in
                  rbind (pokes (b2_buflen S) (take fill d) (b2_buf S)) (\<lambda>buf.
                  rbind (blake2b_compress (blake2b_increment (word_of_nat BLAKE2B_BLOCKBYTES) (S\<lparr>b2_buf := buf\<rparr>)) buf False) (\<lambda>S.
                  blake2b_blocks (S\<lparr>b2_buflen := 0\<rparr>) (drop fill d))))
               else Inr (S, d)) (\<lambda>(S, d).
        rbind (pokes (b2_buflen S) d (b2_buf S)) (\<lambda>buf.
        Inr (S\<lparr>b2_buf := buf, b2_buflen := b2_buflen S + length d\<rparr>))))"

definition blake2b_256_finish :: "BLAKE2B_CONTEXT \<Rightarrow> (byte list \<times> BLAKE2B_CONTEXT) res" where
  "blake2b_256_finish S =
     (let S = blake2b_increment (word_of_nat (b2_buflen S)) S in
      rbind (pokes (b2_buflen S) (replicate (BLAKE2B_BLOCKBYTES - b2_buflen S) 0) (b2_buf S)) (\<lambda>buf.
      rbind (blake2b_compress (S\<lparr>b2_buf := buf\<rparr>) buf True) (\<lambda>S.
      Inr (concat (map (\<lambda>i. blake2b_store64 (b2_h S ! i)) [0..<BLAKE2B_OUTBYTES div 8]), S))))"

definition hash_blake2b_256 :: "BLAKE2B_CONTEXT hashfunc_t" where
  "hash_blake2b_256 = \<lparr>digestsize = BLAKE2B_OUTBYTES, hash_init = blake2b_256_init,
     hash_process = blake2b_256_process, hash_terminate = blake2b_256_finish\<rparr>"

section \<open>The reference\<close>

text \<open>
  RFC 7693, section 3, written from the document: no constant or function of the code is used.  The
  initial vector is \<open>floor(2 ^ 64 * frac(sqrt(p)))\<close> for the first eight primes \<open>p\<close>.  The mixing of sixteen words of message into the state, the permutation of round
  \<open>r\<close> being line \<open>r mod 10\<close> of the table; the counter of bytes is a number of 128 bits.
\<close>

definition rfc_IV :: "u64 list" where
  "rfc_IV = map (\<lambda>p. word_of_nat (root_frac 2 64 p)) (take 8 std_primes)"

definition rfc_sigma :: "nat list list" where
  "rfc_sigma =
    [[0, 1, 2, 3, 4, 5, 6, 7, 8, 9, 10, 11, 12, 13, 14, 15],
     [14, 10, 4, 8, 9, 15, 13, 6, 1, 12, 0, 2, 11, 7, 5, 3],
     [11, 8, 12, 0, 5, 2, 15, 13, 10, 14, 3, 6, 7, 1, 9, 4],
     [7, 9, 3, 1, 13, 12, 11, 14, 2, 6, 5, 10, 4, 0, 15, 8],
     [9, 0, 5, 7, 2, 4, 10, 15, 14, 1, 11, 12, 6, 8, 3, 13],
     [2, 12, 6, 10, 0, 11, 8, 3, 4, 13, 7, 5, 15, 14, 1, 9],
     [12, 5, 1, 15, 14, 13, 4, 10, 0, 7, 6, 3, 9, 2, 8, 11],
     [13, 11, 7, 14, 12, 1, 3, 9, 5, 0, 15, 4, 8, 6, 2, 10],
     [6, 15, 14, 9, 11, 3, 0, 8, 12, 2, 13, 7, 1, 4, 10, 5],
     [10, 2, 8, 4, 7, 6, 1, 5, 15, 11, 9, 14, 3, 12, 13, 0]]"

definition rfc_rotr :: "u64 \<Rightarrow> nat \<Rightarrow> u64" where
  "rfc_rotr w n = word_rotr n w"

definition rfc_G :: "nat \<Rightarrow> nat \<Rightarrow> nat \<Rightarrow> nat \<Rightarrow> u64 \<Rightarrow> u64 \<Rightarrow> u64 list \<Rightarrow> u64 list" where
  "rfc_G a b c d x y v =
     (let v = v[a := v ! a + v ! b + x]; v = v[d := rfc_rotr (v ! d XOR v ! a) 32];
          v = v[c := v ! c + v ! d]; v = v[b := rfc_rotr (v ! b XOR v ! c) 24];
          v = v[a := v ! a + v ! b + y]; v = v[d := rfc_rotr (v ! d XOR v ! a) 16];
          v = v[c := v ! c + v ! d]; v = v[b := rfc_rotr (v ! b XOR v ! c) 63] in v)"

definition rfc_round :: "u64 list \<Rightarrow> nat \<Rightarrow> u64 list \<Rightarrow> u64 list" where
  "rfc_round m r v =
     (let x = (\<lambda>k. m ! (rfc_sigma ! (r mod 10) ! k));
          v = rfc_G 0 4 8 12 (x 0) (x 1) v; v = rfc_G 1 5 9 13 (x 2) (x 3) v;
          v = rfc_G 2 6 10 14 (x 4) (x 5) v; v = rfc_G 3 7 11 15 (x 6) (x 7) v;
          v = rfc_G 0 5 10 15 (x 8) (x 9) v; v = rfc_G 1 6 11 12 (x 10) (x 11) v;
          v = rfc_G 2 7 8 13 (x 12) (x 13) v; v = rfc_G 3 4 9 14 (x 14) (x 15) v in v)"

definition rfc_word :: "byte list \<Rightarrow> u64" where
  "rfc_word bs = (\<Sum>i<8. word_of_nat (unat (bs ! i) * 256 ^ i))"

definition rfc_F :: "u64 list \<Rightarrow> byte list \<Rightarrow> nat \<Rightarrow> bool \<Rightarrow> u64 list" where
  "rfc_F h block t f =
     (let m = map (\<lambda>i. rfc_word (take 8 (drop (8 * i) block))) [0..<16];
          v = h @ rfc_IV;
          v = v[12 := v ! 12 XOR word_of_nat t, 13 := v ! 13 XOR word_of_nat (t div 2 ^ 64)];
          v = (if f then v[14 := v ! 14 XOR (-1)] else v);
          v = fold (rfc_round m) [0..<12] v
      in map (\<lambda>i. h ! i XOR v ! i XOR v ! (i + 8)) [0..<8])"

function rfc_absorb :: "u64 list \<Rightarrow> nat \<Rightarrow> byte list \<Rightarrow> u64 list \<times> nat \<times> byte list" where
  "rfc_absorb h t m =
     (if 128 < length m then rfc_absorb (rfc_F h (take 128 m) (t + 128) False) (t + 128) (drop 128 m)
      else (h, t, m))"
  by pat_completeness auto
termination
  by (relation "measure (\<lambda>(h, t, m). length m)") auto

declare rfc_absorb.simps [simp del]

definition rfc_start :: "u64 list" where
  "rfc_start = rfc_IV[0 := rfc_IV ! 0 XOR 0x01010020]"

text \<open>A word as eight octets, the least significant one first.\<close>

definition rfc_octets :: "u64 \<Rightarrow> byte list" where
  "rfc_octets w = map (\<lambda>i. word_of_nat (unat w div 256 ^ i)) [0..<8]"

definition blake2b_256 :: "byte list \<Rightarrow> byte list" where
  "blake2b_256 msg =
     (case rfc_absorb rfc_start 0 msg of (h, t, r) \<Rightarrow>
        take 32 (concat (map rfc_octets (rfc_F h (r @ replicate (128 - length r) 0) (t + length r) True))))"

section \<open>The compression is the reference's\<close>

lemma IV_eq: "rfc_IV = blake2b_IV"
proof -
  have "rfc_IV = map word_of_nat (take 8 (map (root_frac 2 64) (take 16 std_primes)))"
    by (simp add: rfc_IV_def take_map [symmetric] comp_def)
  then show ?thesis unfolding sqrt_fracs by (simp add: blake2b_IV_def)
qed

lemma octets_eq: "rfc_octets w = blake2b_store64 w"
proof -
  have o: "word_of_nat (unat w div 2 ^ k) = (ucast (drop_bit k w) :: byte)" for k
  proof -
    have "ucast (drop_bit k w) = (word_of_nat (unat (drop_bit k w)) :: byte)" by simp
    then show ?thesis by (simp only: unat_drop_bit_eq [of k w] drop_bit_eq_div [of _ "unat w"])
  qed
  have p: "(256 :: nat) ^ i = 2 ^ (8 * i)" for i by (simp add: power_mult)
  have "[0..<8] = [0, 1, 2, 3, 4, 5, 6, 7 :: nat]" by (simp add: upt_conv_Cons)
  then show ?thesis unfolding rfc_octets_def p o by (simp add: blake2b_store64_def)
qed

lemma rotr_eq: "0 < n \<Longrightarrow> n < 64 \<Longrightarrow> blake2b_rotr64 w n = rfc_rotr w n"
  using rotr_shifts [of n w] by (simp add: blake2b_rotr64_def rfc_rotr_def)

lemma sigma_eq: "blake2b_sigma = rfc_sigma @ take 2 rfc_sigma" "length rfc_sigma = 10"
  by (simp_all add: blake2b_sigma_def rfc_sigma_def)

lemma G_eq:
  assumes "distinct [a, b, c, d]" and "a < length v" and "b < length v" and "c < length v" and "d < length v"
  shows "blake2b_G m r (i, a, b, c, d) v =
    rfc_G a b c d (m ! (blake2b_sigma ! r ! (2 * i))) (m ! (blake2b_sigma ! r ! (2 * i + 1))) v"
  using assms
  by (intro nth_equalityI) (simp_all add: blake2b_G_def rfc_G_def Let_def rotr_eq nth_list_update)

lemma rfc_G_length [simp]: "length (rfc_G a b c d x y v) = length v"
  by (simp add: rfc_G_def Let_def)

lemma ROUND_eq:
  assumes "length v = 16" and "r < 12"
  shows "blake2b_ROUND m r v = rfc_round m r v"
proof -
  consider "r < 10" | "r = 10" | "r = 11" using assms(2) by linarith
  then have "(rfc_sigma @ take 2 rfc_sigma) ! r = rfc_sigma ! (r mod 10)"
    by cases (simp_all add: nth_append sigma_eq)
  then have "blake2b_sigma ! r = rfc_sigma ! (r mod 10)" by (simp only: sigma_eq)
  then show ?thesis using assms(1) by (simp add: blake2b_ROUND_def rfc_round_def G_eq Let_def)
qed

lemma rounds_eq:
  "\<forall>r \<in> set rs. r < 12 \<Longrightarrow> length v = 16 \<Longrightarrow> fold (blake2b_ROUND m) rs v = fold (rfc_round m) rs v"
proof (induction rs arbitrary: v)
  case (Cons r rs)
  have "length (rfc_round m r v) = 16" using Cons.prems by (simp add: rfc_round_def Let_def)
  then show ?case using Cons by (simp add: ROUND_eq)
qed simp

lemma sum8: "(\<Sum>i<8. f i) = f 0 + f 1 + f 2 + f 3 + f 4 + f 5 + f 6 + f (7::nat)" for f :: "nat \<Rightarrow> u64"
proof -
  have "8 = Suc (Suc (Suc (Suc (Suc (Suc (Suc (Suc 0)))))))" by simp
  then show ?thesis by (simp only: sum.lessThan_Suc) (simp add: numeral_eq_Suc)
qed

lemma add_above: "(\<And>n. bit x n \<Longrightarrow> n < k) \<Longrightarrow> x + push_bit k y = x OR push_bit k y" for x y :: u64
proof (rule disjunctive_add)
  assume x: "\<And>n. bit x n \<Longrightarrow> n < k"
  show "\<not> bit x n \<or> \<not> bit (push_bit k y) n" for n using x [of n] by (auto simp: bit_simps)
qed

lemma load64_eq: "i + 8 \<le> length src \<Longrightarrow> blake2b_load64 src i = rfc_word (take 8 (drop i src))"
proof -
  assume l: "i + 8 \<le> length src"
  have p: "word_of_nat (unat b * 256 ^ n) = push_bit (8 * n) (ucast b :: u64)" for b :: byte and n
    by (simp add: push_bit_eq_mult power_mult)
  have "rfc_word (take 8 (drop i src)) =
      ucast (src ! i) + push_bit 8 (ucast (src ! (i + 1))) + push_bit 16 (ucast (src ! (i + 2))) +
      push_bit 24 (ucast (src ! (i + 3))) + push_bit 32 (ucast (src ! (i + 4))) + push_bit 40 (ucast (src ! (i + 5))) +
      push_bit 48 (ucast (src ! (i + 6))) + push_bit 56 (ucast (src ! (i + 7)))"
    using l unfolding rfc_word_def p sum8 by simp
  also have "\<dots> = blake2b_load64 src i"
    unfolding blake2b_load64_def
    by (subst add_above, (auto simp: bit_simps dest: bit_byte_lt)[1])+ (simp add: or.assoc)
  finally show ?thesis by simp
qed

text \<open>The 128-bit counter of the code is a number.\<close>

definition counter :: "nat \<Rightarrow> u64 \<times> u64" where
  "counter n = (word_of_nat n, word_of_nat (n div 2 ^ 64))"

lemma compress_eq:
  assumes "128 \<le> length block" and "length (b2_h S) = 8" and "b2_t S = counter t"
  shows "blake2b_compress S block f = Inr (S\<lparr>b2_h := rfc_F (b2_h S) (take 128 block) t f\<rparr>)"
proof -
  have m: "map (\<lambda>i. blake2b_load64 block (8 * i)) [0..<16] = map (\<lambda>i. rfc_word (take 8 (drop (8 * i) (take 128 block)))) [0..<16]"
  proof (rule map_cong [OF refl])
    fix i :: nat
    assume "i \<in> set [0..<16]"
    then have i: "8 * i + 8 \<le> 128" by simp
    then have "take 8 (drop (8 * i) block) = take 8 (drop (8 * i) (take 128 block))" by (simp add: drop_take)
    moreover have "8 * i + 8 \<le> length block" using i assms(1) by linarith
    ultimately show "blake2b_load64 block (8 * i) = rfc_word (take 8 (drop (8 * i) (take 128 block)))"
      using load64_eq by simp
  qed
  have n: "NOT x = x XOR (-1)" for x :: u64 by simp
  have l: "length (blake2b_IV :: u64 list) = 8" by (simp add: blake2b_IV_def)
  show ?thesis
    using assms unfolding blake2b_compress_def rfc_F_def m BLAKE2B_BLOCKBYTES_def n
    by (simp add: counter_def Let_def rounds_eq l add.commute IV_eq)
qed

lemma increment_eq:
  assumes "b2_t S = counter n" and "k < 2 ^ 64"
  shows "b2_t (blake2b_increment (word_of_nat k) S) = counter (n + k)"
proof -
  let ?x = "n mod 2 ^ 64"
  have k: "unat (word_of_nat k :: u64) = k" using assms(2) by (simp add: unat_of_nat)
  have s: "unat (word_of_nat n + word_of_nat k :: u64) = (?x + k) mod 2 ^ 64"
    unfolding unat_word_ariths(1) unat_of_nat using assms(2) by simp
  have x: "?x < 2 ^ 64" by simp
  have d: "(n + k) div 2 ^ 64 = n div 2 ^ 64 + (?x + k) div 2 ^ 64"
    using div_add1_eq [of n k "2 ^ 64"] assms(2) by simp
  have c: "(word_of_nat n + word_of_nat k :: u64) < word_of_nat k \<longleftrightarrow> 2 ^ 64 \<le> ?x + k"
  proof (cases "?x + k < 2 ^ 64")
    case True
    then show ?thesis unfolding word_less_nat_alt s k by simp
  next
    case False
    then have "(?x + k) mod 2 ^ 64 = ?x + k - 2 ^ 64" using x assms(2) by (simp add: le_mod_geq)
    then show ?thesis unfolding word_less_nat_alt s k using False x by simp
  qed
  have "(?x + k) div 2 ^ 64 = (if 2 ^ 64 \<le> ?x + k then 1 else 0)"
    using x assms(2) by (simp add: div_nat_eqI)
  then show ?thesis
    using assms(1) c d by (simp add: blake2b_increment_def counter_def Let_def)
qed

section \<open>Pieces\<close>

lemma rfc_absorb_short: "length m \<le> 128 \<Longrightarrow> rfc_absorb h t m = (h, t, m)"
  by (subst rfc_absorb.simps) simp

lemma rfc_absorb_long: "128 < length m \<Longrightarrow>
    rfc_absorb h t m = rfc_absorb (rfc_F h (take 128 m) (t + 128) False) (t + 128) (drop 128 m)"
  by (subst rfc_absorb.simps) simp

lemma rfc_absorb_append:
  "rfc_absorb h t m = (h', t', r) \<Longrightarrow> rfc_absorb h t (m @ d) = rfc_absorb h' t' (r @ d)"
proof (induction h t m rule: rfc_absorb.induct)
  case (1 h t m)
  show ?case
  proof (cases "128 < length m")
    case True
    then show ?thesis using 1 by (simp add: rfc_absorb_long)
  next
    case False
    then show ?thesis using 1(2) by (simp add: rfc_absorb_short)
  qed
qed

lemma rfc_F_length: "length (rfc_F h b t f) = 8"
  by (simp add: rfc_F_def Let_def)

text \<open>A context after the message \<open>m\<close>: the buffer holds what the reference has not compressed.\<close>

definition b2_rep :: "BLAKE2B_CONTEXT \<Rightarrow> byte list \<Rightarrow> bool" where
  "b2_rep c m \<longleftrightarrow> length (b2_h c) = 8 \<and> length (b2_buf c) = 128 \<and> b2_buflen c \<le> 128 \<and>
     (\<exists>t. b2_t c = counter t \<and> rfc_absorb rfc_start 0 m = (b2_h c, t, take (b2_buflen c) (b2_buf c)))"

lemma compress_step:
  assumes "128 \<le> length block" and "length (b2_h S) = 8" and "b2_t S = counter t" and "k < 2 ^ 64"
  shows "\<exists>S'. blake2b_compress (blake2b_increment (word_of_nat k) S) block f = Inr S' \<and>
    b2_h S' = rfc_F (b2_h S) (take 128 block) (t + k) f \<and> b2_t S' = counter (t + k) \<and>
    b2_buf S' = b2_buf S \<and> b2_buflen S' = b2_buflen S"
proof -
  let ?S = "blake2b_increment (word_of_nat k) S"
  have "b2_h ?S = b2_h S" "b2_buf ?S = b2_buf S" "b2_buflen ?S = b2_buflen S"
    by (simp_all add: blake2b_increment_def Let_def)
  then show ?thesis
    using compress_eq [of block ?S "t + k" f] increment_eq [OF assms(3,4)] assms(1,2) by simp
qed

lemma blocks_eq:
  assumes "length (b2_h S) = 8" and "b2_t S = counter t"
  shows "\<exists>S' r t'. blake2b_blocks S d = Inr (S', r) \<and> rfc_absorb (b2_h S) t d = (b2_h S', t', r) \<and>
    b2_t S' = counter t' \<and> length (b2_h S') = 8 \<and> length r \<le> 128 \<and> b2_buf S' = b2_buf S \<and> b2_buflen S' = b2_buflen S"
  using assms
proof (induction "length d" arbitrary: S t d rule: less_induct)
  case less
  show ?case
  proof (cases "128 < length d")
    case True
    obtain S1 where S1: "blake2b_compress (blake2b_increment (word_of_nat 128) S) d False = Inr S1"
      "b2_h S1 = rfc_F (b2_h S) (take 128 d) (t + 128) False" "b2_t S1 = counter (t + 128)"
      "b2_buf S1 = b2_buf S" "b2_buflen S1 = b2_buflen S"
      using compress_step [of d S t 128 False] True less.prems by auto
    have "length (drop 128 d) < length d" "length (b2_h S1) = 8" using True S1(2) by (simp_all add: rfc_F_length)
    from less.hyps [OF this S1(3)] show ?thesis
      using True S1 by (subst blake2b_blocks.simps) (simp add: BLAKE2B_BLOCKBYTES_def rfc_absorb_long)
  next
    case False
    then show ?thesis
      using less.prems by (subst blake2b_blocks.simps) (simp add: BLAKE2B_BLOCKBYTES_def rfc_absorb_short)
  qed
qed

lemma put_rest:
  assumes "length (b2_h S) = 8" and "length (b2_buf S) = 128" and "b2_t S = counter t" and "b2_buflen S + length d \<le> 128"
    and "rfc_absorb rfc_start 0 m = (b2_h S, t, take (b2_buflen S) (b2_buf S) @ d)"
  shows "\<exists>c'. rbind (pokes (b2_buflen S) d (b2_buf S)) (\<lambda>buf. Inr (S\<lparr>b2_buf := buf, b2_buflen := b2_buflen S + length d\<rparr>)) = Inr c' \<and>
    b2_rep c' m"
  using assms by (auto simp: pokes_Inr b2_rep_def)

lemma process_rep:
  assumes "b2_rep c m"
  shows "\<exists>c'. blake2b_256_process c d = Inr c' \<and> b2_rep c' (m @ d)"
proof (cases "d = []")
  case True
  then show ?thesis using assms by (simp add: blake2b_256_process_def)
next
  case False
  obtain t where c: "length (b2_h c) = 8" "length (b2_buf c) = 128" "b2_buflen c \<le> 128" "b2_t c = counter t"
    "rfc_absorb rfc_start 0 m = (b2_h c, t, take (b2_buflen c) (b2_buf c))"
    using assms by (auto simp: b2_rep_def)
  let ?k = "b2_buflen c" and ?r = "take (b2_buflen c) (b2_buf c)"
  have a: "rfc_absorb rfc_start 0 (m @ d) = rfc_absorb (b2_h c) t (?r @ d)"
    by (rule rfc_absorb_append [OF c(5)])
  show ?thesis
  proof (cases "128 < ?k + length d")
    case False
    then have "rfc_absorb rfc_start 0 (m @ d) = (b2_h c, t, ?r @ d)" using a c(2,3) by (simp add: rfc_absorb_short)
    then show ?thesis
      using put_rest [of c t d "m @ d"] False c \<open>d \<noteq> []\<close>
      by (simp add: blake2b_256_process_def BLAKE2B_BLOCKBYTES_def)
  next
    case True
    let ?f = "128 - ?k"
    obtain B where B: "B = ?r @ take ?f d" by blast
    have len: "length B = 128" using True c(2,3) by (simp add: B)
    have p: "pokes ?k (take ?f d) (b2_buf c) = Inr B" using True c(2,3) by (simp add: pokes_Inr B)
    obtain S1 where S1: "blake2b_compress (blake2b_increment (word_of_nat 128) (c\<lparr>b2_buf := B\<rparr>)) B False = Inr S1"
      "b2_h S1 = rfc_F (b2_h c) B (t + 128) False" "b2_t S1 = counter (t + 128)" "b2_buf S1 = B"
      using compress_step [of B "c\<lparr>b2_buf := B\<rparr>" t 128 False] len c(1,4) by auto
    let ?S = "S1\<lparr>b2_buflen := 0\<rparr>"
    obtain S2 r t2 where S2: "blake2b_blocks ?S (drop ?f d) = Inr (S2, r)" "rfc_absorb (b2_h ?S) (t + 128) (drop ?f d) = (b2_h S2, t2, r)"
      "b2_t S2 = counter t2" "length (b2_h S2) = 8" "length r \<le> 128" "b2_buf S2 = B" "b2_buflen S2 = 0"
      using blocks_eq [of ?S "t + 128" "drop ?f d"] S1 by (auto simp: rfc_F_length)
    have "take 128 (?r @ d) = B" "drop 128 (?r @ d) = drop ?f d" "128 < length (?r @ d)"
      using True c(2,3) by (simp_all add: B)
    then have "rfc_absorb rfc_start 0 (m @ d) = (b2_h S2, t2, take (b2_buflen S2) (b2_buf S2) @ r)"
      using a rfc_absorb_long [of "?r @ d" "b2_h c" t] S1(2) S2(2,7) by simp
    from put_rest [OF S2(4) _ S2(3) _ this] show ?thesis
      using S2 len p S1(1) True \<open>d \<noteq> []\<close>
      by (simp add: blake2b_256_process_def BLAKE2B_BLOCKBYTES_def Let_def)
  qed
qed

lemma finish_rep:
  assumes "b2_rep c m"
  shows "\<exists>c'. blake2b_256_finish c = Inr (blake2b_256 m, c')"
proof -
  obtain t where c: "length (b2_h c) = 8" "length (b2_buf c) = 128" "b2_buflen c \<le> 128" "b2_t c = counter t"
    "rfc_absorb rfc_start 0 m = (b2_h c, t, take (b2_buflen c) (b2_buf c))"
    using assms by (auto simp: b2_rep_def)
  let ?k = "b2_buflen c" and ?S = "blake2b_increment (word_of_nat (b2_buflen c)) c"
  obtain B where B: "B = take ?k (b2_buf c) @ replicate (128 - ?k) 0" by blast
  have S: "b2_h ?S = b2_h c" "b2_buf ?S = b2_buf c" "b2_buflen ?S = ?k" "b2_t ?S = counter (t + ?k)"
    using increment_eq [OF c(4), of ?k] c(3) by (simp_all add: blake2b_increment_def Let_def)
  have p: "pokes ?k (replicate (128 - ?k) 0) (b2_buf c) = Inr B" using c(2,3) by (simp add: pokes_Inr B)
  have len: "length B = 128" using c(2,3) by (simp add: B)
  let ?h = "rfc_F (b2_h c) B (t + ?k) True"
  have f: "blake2b_compress (?S\<lparr>b2_buf := B\<rparr>) B True = Inr (?S\<lparr>b2_buf := B, b2_h := ?h\<rparr>)"
    using compress_eq [of B "?S\<lparr>b2_buf := B\<rparr>" "t + ?k" True] len S c(1) by simp
  have h8: "length ?h = 8" by (rule rfc_F_length)
  obtain h0 h1 h2 h3 hs where hs: "?h = h0 # h1 # h2 # h3 # hs"
    using h8 by (auto simp: length_Suc_conv eval_nat_numeral)
  have "concat (map (\<lambda>i. blake2b_store64 (?h ! i)) [0..<4]) = take 32 (concat (map blake2b_store64 ?h))"
    unfolding hs by (simp add: blake2b_store64_def eval_nat_numeral)
  moreover have "blake2b_256 m = take 32 (concat (map blake2b_store64 ?h))"
    using c(2,3,5) by (simp add: blake2b_256_def octets_eq [abs_def] min_def B)
  ultimately show ?thesis
    using p f S by (simp add: blake2b_256_finish_def Let_def BLAKE2B_BLOCKBYTES_def BLAKE2B_OUTBYTES_def)
qed

definition b2_mem :: "BLAKE2B_CONTEXT \<Rightarrow> bool" where
  "b2_mem c \<longleftrightarrow> length (b2_buf c) = 128"

lemma init_rep: "b2_mem c \<Longrightarrow> b2_rep (blake2b_256_init c) []"
  by (simp add: b2_mem_def b2_rep_def blake2b_256_init_def counter_def rfc_absorb_short rfc_start_def
      BLAKE2B_OUTBYTES_def IV_eq blake2b_IV_def)

lemma length_blake2b_256: "length (blake2b_256 m) = 32"
proof -
  have "length (concat (map rfc_octets h)) = 8 * length h" for h
    by (induction h) (simp_all add: rfc_octets_def)
  then show ?thesis by (simp add: blake2b_256_def rfc_F_length split: prod.split)
qed

interpretation blake2b: stream_hash hash_blake2b_256 b2_mem b2_rep blake2b_256 "2 ^ 64"
  by unfold_locales
    (simp_all add: hash_blake2b_256_def init_rep process_rep finish_rep length_blake2b_256 BLAKE2B_OUTBYTES_def)

text \<open>
  C34: the digest by which the updater names files is the BLAKE2b-256 of RFC 7693, not a part of the
  512-bit digest, however the content is cut into pieces (a full last block, too, is compressed as the
  last one), from a context that held anything before.
\<close>

theorem BLAKE2b_stream:
  assumes "b2_mem c" and "list_all (\<lambda>d. length d < 2 ^ 64) ds"
  shows "\<exists>c'. rbind (foldl (\<lambda>r d. rbind r (\<lambda>c. blake2b_256_process c d)) (Inr (blake2b_256_init c)) ds) blake2b_256_finish =
    Inr (blake2b_256 (concat ds), c')"
  using blake2b.hash_chunks [OF assms] by (simp add: hash_blake2b_256_def)

definition b2_garbage :: BLAKE2B_CONTEXT where
  "b2_garbage = \<lparr>b2_h = [], b2_t = (5, 6), b2_buf = replicate 128 9, b2_buflen = 77\<rparr>"

lemma BLAKE2b_stream_witness:
  "\<exists>c'. rbind (rbind (blake2b_256_process (blake2b_256_init b2_garbage) [97]) (\<lambda>c. blake2b_256_process c [98, 99])) blake2b_256_finish =
    Inr (blake2b_256 [97, 98, 99], c')"
  using BLAKE2b_stream [of b2_garbage "[[97], [98, 99]]"] by (simp add: b2_mem_def b2_garbage_def)

end
