(* ===== verification/Crc16.thy ===== *)
theory Crc16
  imports DigestApi
begin

text \<open>
  The 16-bit CRC of \<open>engine/common/crc.c\<close>, by table and one byte at a time, in its plain and its
  lower-casing form; the proof that it is the bit-by-bit CRC of the polynomial \<open>0x1021\<close>.
\<close>

type_synonym crc = "16 word"

definition QCRC_INIT_VALUE :: crc where "QCRC_INIT_VALUE = 0xffff"
definition QCRC_XOR_VALUE :: crc where "QCRC_XOR_VALUE = 0"

definition crctable :: "crc list" where
  "crctable =
  [0x0000, 0x1021, 0x2042, 0x3063, 0x4084, 0x50a5, 0x60c6, 0x70e7,
   0x8108, 0x9129, 0xa14a, 0xb16b, 0xc18c, 0xd1ad, 0xe1ce, 0xf1ef,
   0x1231, 0x0210, 0x3273, 0x2252, 0x52b5, 0x4294, 0x72f7, 0x62d6,
   0x9339, 0x8318, 0xb37b, 0xa35a, 0xd3bd, 0xc39c, 0xf3ff, 0xe3de,
   0x2462, 0x3443, 0x0420, 0x1401, 0x64e6, 0x74c7, 0x44a4, 0x5485,
   0xa56a, 0xb54b, 0x8528, 0x9509, 0xe5ee, 0xf5cf, 0xc5ac, 0xd58d,
   0x3653, 0x2672, 0x1611, 0x0630, 0x76d7, 0x66f6, 0x5695, 0x46b4,
   0xb75b, 0xa77a, 0x9719, 0x8738, 0xf7df, 0xe7fe, 0xd79d, 0xc7bc,
   0x48c4, 0x58e5, 0x6886, 0x78a7, 0x0840, 0x1861, 0x2802, 0x3823,
   0xc9cc, 0xd9ed, 0xe98e, 0xf9af, 0x8948, 0x9969, 0xa90a, 0xb92b,
   0x5af5, 0x4ad4, 0x7ab7, 0x6a96, 0x1a71, 0x0a50, 0x3a33, 0x2a12,
   0xdbfd, 0xcbdc, 0xfbbf, 0xeb9e, 0x9b79, 0x8b58, 0xbb3b, 0xab1a,
   0x6ca6, 0x7c87, 0x4ce4, 0x5cc5, 0x2c22, 0x3c03, 0x0c60, 0x1c41,
   0xedae, 0xfd8f, 0xcdec, 0xddcd, 0xad2a, 0xbd0b, 0x8d68, 0x9d49,
   0x7e97, 0x6eb6, 0x5ed5, 0x4ef4, 0x3e13, 0x2e32, 0x1e51, 0x0e70,
   0xff9f, 0xefbe, 0xdfdd, 0xcffc, 0xbf1b, 0xaf3a, 0x9f59, 0x8f78,
   0x9188, 0x81a9, 0xb1ca, 0xa1eb, 0xd10c, 0xc12d, 0xf14e, 0xe16f,
   0x1080, 0x00a1, 0x30c2, 0x20e3, 0x5004, 0x4025, 0x7046, 0x6067,
   0x83b9, 0x9398, 0xa3fb, 0xb3da, 0xc33d, 0xd31c, 0xe37f, 0xf35e,
   0x02b1, 0x1290, 0x22f3, 0x32d2, 0x4235, 0x5214, 0x6277, 0x7256,
   0xb5ea, 0xa5cb, 0x95a8, 0x8589, 0xf56e, 0xe54f, 0xd52c, 0xc50d,
   0x34e2, 0x24c3, 0x14a0, 0x0481, 0x7466, 0x6447, 0x5424, 0x4405,
   0xa7db, 0xb7fa, 0x8799, 0x97b8, 0xe75f, 0xf77e, 0xc71d, 0xd73c,
   0x26d3, 0x36f2, 0x0691, 0x16b0, 0x6657, 0x7676, 0x4615, 0x5634,
   0xd94c, 0xc96d, 0xf90e, 0xe92f, 0x99c8, 0x89e9, 0xb98a, 0xa9ab,
   0x5844, 0x4865, 0x7806, 0x6827, 0x18c0, 0x08e1, 0x3882, 0x28a3,
   0xcb7d, 0xdb5c, 0xeb3f, 0xfb1e, 0x8bf9, 0x9bd8, 0xabbb, 0xbb9a,
   0x4a75, 0x5a54, 0x6a37, 0x7a16, 0x0af1, 0x1ad0, 0x2ab3, 0x3a92,
   0xfd2e, 0xed0f, 0xdd6c, 0xcd4d, 0xbdaa, 0xad8b, 0x9de8, 0x8dc9,
   0x7c26, 0x6c07, 0x5c64, 0x4c45, 0x3ca2, 0x2c83, 0x1ce0, 0x0cc1,
   0xef1f, 0xff3e, 0xcf5d, 0xdf7c, 0xaf9b, 0xbfba, 0x8fd9, 0x9ff8,
   0x6e17, 0x7e36, 0x4e55, 0x5e74, 0x2e93, 0x3eb2, 0x0ed1, 0x1ef0]"

definition CRC16_Init :: "crc \<Rightarrow> crc" where
  "CRC16_Init ctx = QCRC_INIT_VALUE"

definition crc_index :: "crc \<Rightarrow> byte \<Rightarrow> nat" where
  "crc_index crc b = unat (drop_bit 8 crc XOR ucast b)"

fun CRC16_Update :: "crc \<Rightarrow> byte list \<Rightarrow> crc res" where
  "CRC16_Update crc [] = Inr crc"
| "CRC16_Update crc (b # bs) =
     rbind (peek crctable (crc_index crc b)) (\<lambda>t.
       CRC16_Update (push_bit 8 crc AND 0xffff XOR t) bs)"

definition CRC16_Finish :: "crc \<Rightarrow> (byte list \<times> crc) res" where
  "CRC16_Finish ctx =
     (let crc = ctx XOR QCRC_XOR_VALUE in Inr ([ucast crc, ucast (drop_bit 8 crc)], ctx))"

definition hash_crc16 :: "crc hashfunc_t" where
  "hash_crc16 = \<lparr>digestsize = 2, hash_init = CRC16_Init, hash_process = CRC16_Update,
     hash_terminate = CRC16_Finish\<rparr>"

definition tolower :: "byte \<Rightarrow> byte" where
  "tolower c = (if 65 \<le> c \<and> c \<le> 90 then c + 32 else c)"

fun CRC16_Update_Lower :: "crc \<Rightarrow> byte list \<Rightarrow> crc res" where
  "CRC16_Update_Lower crc [] = Inr crc"
| "CRC16_Update_Lower crc (b # bs) =
     rbind (peek crctable (crc_index crc (tolower b))) (\<lambda>t.
       CRC16_Update_Lower (push_bit 8 crc AND 0xffff XOR t) bs)"

definition hash_crc16_lower :: "crc hashfunc_t" where
  "hash_crc16_lower = \<lparr>digestsize = 2, hash_init = CRC16_Init, hash_process = CRC16_Update_Lower,
     hash_terminate = CRC16_Finish\<rparr>"

section \<open>The bit-by-bit reference\<close>

definition crc_shift :: "crc \<Rightarrow> crc" where
  "crc_shift x = (if bit x 15 then push_bit 1 x XOR 0x1021 else push_bit 1 x)"

definition crc_shift8 :: "crc \<Rightarrow> crc" where
  "crc_shift8 x = (crc_shift ^^ 8) x"

definition crc_byte :: "byte \<Rightarrow> crc \<Rightarrow> crc" where
  "crc_byte b x = crc_shift8 (x XOR push_bit 8 (ucast b))"

definition crc16 :: "byte list \<Rightarrow> crc" where
  "crc16 m = fold crc_byte m 0xffff"

definition crc16_digest :: "byte list \<Rightarrow> byte list" where
  "crc16_digest m = [ucast (crc16 m), ucast (drop_bit 8 (crc16 m))]"

lemma length_crctable: "length crctable = 256"
  by (simp add: crctable_def)

lemma xor_if: "(if p \<noteq> q then (a XOR b) XOR k else a XOR b) =
    (if p then a XOR k else a) XOR (if q then b XOR k else b)" for a b k :: "'a::len word"
  by (cases p; cases q) (auto simp: bit_simps intro!: bit_word_eqI)

lemma crc_shift_xor: "crc_shift (x XOR y) = crc_shift x XOR crc_shift y"
  unfolding crc_shift_def push_bit_xor
  by (subst xor_if [symmetric]) (simp only: bit_xor_iff)

lemma crc_shift8_xor: "crc_shift8 (x XOR y) = crc_shift8 x XOR crc_shift8 y"
  by (simp add: crc_shift8_def numeral_eq_Suc crc_shift_xor)

text \<open>The table is linear: each power of two doubles it.\<close>

definition crc_double :: "crc \<Rightarrow> crc list \<Rightarrow> crc list" where
  "crc_double c t = t @ map (\<lambda>x. x XOR c) t"

definition crc_entry :: "nat \<Rightarrow> crc" where
  "crc_entry i = crc_shift8 (push_bit 8 (word_of_nat i))"

lemma crctable_double: "crctable = fold crc_double
   [0x1021, 0x2042, 0x4084, 0x8108, 0x1231, 0x2462, 0x48c4, 0x9188] [0]"
  by code_simp

lemma crc_entry_power: "map (\<lambda>k. crc_shift8 (push_bit 8 (2 ^ k))) [0..<8] =
   [0x1021, 0x2042, 0x4084, 0x8108, 0x1231, 0x2462, 0x48c4, 0x9188]"
proof -
  have c: "crc_shift8 (crc_shift x) = crc_shift (crc_shift8 x)" for x
    by (simp add: crc_shift8_def numeral_eq_Suc)
  have v: "crc_shift 256 = 512" "crc_shift 512 = 1024" "crc_shift 1024 = 2048"
    "crc_shift 2048 = 4096" "crc_shift 4096 = 8192" "crc_shift 8192 = 16384"
    "crc_shift 16384 = 32768" "crc_shift 32768 = 0x1021" "crc_shift 0x1021 = 0x2042"
    "crc_shift 0x2042 = 0x4084" "crc_shift 0x4084 = 0x8108" "crc_shift 0x8108 = 0x1231"
    "crc_shift 0x1231 = 0x2462" "crc_shift 0x2462 = 0x48c4" "crc_shift 0x48c4 = 0x9188"
    by (simp_all add: crc_shift_def)
  have e0: "crc_shift8 256 = 0x1021"
    using v by (simp add: crc_shift8_def numeral_eq_Suc)
  have e1: "crc_shift8 512 = 0x2042" using c [of 256] unfolding v e0 .
  have e2: "crc_shift8 1024 = 0x4084" using c [of 512] unfolding v e1 .
  have e3: "crc_shift8 2048 = 0x8108" using c [of 1024] unfolding v e2 .
  have e4: "crc_shift8 4096 = 0x1231" using c [of 2048] unfolding v e3 .
  have e5: "crc_shift8 8192 = 0x2462" using c [of 4096] unfolding v e4 .
  have e6: "crc_shift8 16384 = 0x48c4" using c [of 8192] unfolding v e5 .
  have e7: "crc_shift8 32768 = 0x9188" using c [of 16384] unfolding v e6 .
  show ?thesis by (simp add: upt_rec e0 e1 e2 e3 e4 e5 e6 e7)
qed

lemma crc_entry_double:
  assumes "k < 8"
  shows "map crc_entry [0..<2 ^ Suc k] =
    crc_double (crc_shift8 (push_bit 8 (2 ^ k))) (map crc_entry [0..<2 ^ k])"
proof -
  have e: "crc_entry (i + 2 ^ k) = crc_entry i XOR crc_shift8 (push_bit 8 (2 ^ k))" if "i < 2 ^ k" for i
  proof -
    have "\<not> bit i k" "\<And>n. bit i n \<Longrightarrow> n < k"
      using that by (metis bit_take_bit_iff order.irrefl take_bit_nat_eq_self,
        metis bit_take_bit_iff take_bit_nat_eq_self that)
    then have "i + 2 ^ k = i XOR 2 ^ k"
      by (intro disjunctive_add_eq_xor) (auto simp: bit_simps intro!: bit_eqI)
    then have "(word_of_nat (i + 2 ^ k) :: crc) = word_of_nat i XOR 2 ^ k"
      by (simp add: of_nat_xor_eq)
    then show ?thesis unfolding crc_entry_def by (simp only: push_bit_xor crc_shift8_xor)
  qed
  have "[0..<2 ^ Suc k] = [0..<2 ^ k] @ map (\<lambda>i. i + 2 ^ k) [0..<2 ^ k]"
    using upt_add_eq_append [of 0 "2 ^ k" "2 ^ k"] map_add_upt [of "2 ^ k" "2 ^ k"]
    by (simp add: mult_2)
  then show ?thesis using e by (simp add: crc_double_def del: upt_Suc)
qed

lemma crctable_entries: "crctable = map crc_entry [0..<256]"
proof -
  have step: "fold crc_double (map (\<lambda>k. crc_shift8 (push_bit 8 (2 ^ k))) [0..<n]) [0] =
      map crc_entry [0..<2 ^ n]" if "n \<le> 8" for n
    using that
  proof (induction n)
    case 0
    have "crc_entry 0 = 0" by (simp add: crc_entry_def crc_shift8_def numeral_eq_Suc crc_shift_def)
    then show ?case by simp
  next
    case (Suc n)
    then show ?case using crc_entry_double [of n] by simp
  qed
  show ?thesis unfolding crctable_double crc_entry_power [symmetric] step [OF order.refl] by simp
qed

lemma crctable_nth: "i < 256 \<Longrightarrow> crctable ! i = crc_entry i"
  unfolding crctable_entries by (simp del: upt_rec_numeral)

text \<open>Eight shifts of a byte in the low half move it to the high half.\<close>

lemma crc_shift_low: "\<not> bit x 15 \<Longrightarrow> crc_shift x = push_bit 1 x"
  by (simp add: crc_shift_def)

lemma crc_shift_low_n:
  "n \<le> 8 \<Longrightarrow> (crc_shift ^^ n) (ucast b) = push_bit n (ucast b)" for b :: byte
proof (induction n)
  case (Suc n)
  then have "\<not> bit (push_bit n (ucast b) :: crc) 15"
    by (auto simp: bit_simps dest: bit_byte_lt)
  then have "crc_shift (push_bit n (ucast b)) = push_bit 1 (push_bit n (ucast b))"
    by (rule crc_shift_low)
  then have "crc_shift (push_bit n (ucast b)) = push_bit (Suc n) (ucast b)"
    by (simp only: push_bit_push_bit plus_1_eq_Suc)
  with Suc show ?case by simp
qed simp

lemma crc_split: "x = push_bit 8 (ucast (ucast (drop_bit 8 x) :: byte)) XOR ucast (ucast x :: byte)"
  for x :: crc
  by (rule bit_word_eqI) (auto simp: bit_simps)

lemma crc_table_step:
  "push_bit 8 crc AND 0xffff XOR crctable ! crc_index crc b = crc_byte b crc"
  and crc_index_bound: "crc_index crc b < 256"
proof -
  let ?hi = "ucast (drop_bit 8 crc) :: byte" and ?lo = "ucast crc :: byte"
  have ix: "drop_bit 8 crc XOR ucast b = ucast (?hi XOR b)"
    by (rule bit_word_eqI) (auto simp: bit_simps dest: bit_byte_lt bit_imp_le_length)
  have "unat (?hi XOR b) < 2 ^ LENGTH(8)" by (rule unsigned_less)
  then have small: "unat (?hi XOR b) < 256" by simp
  have u: "crc_index crc b = unat (?hi XOR b)"
    unfolding crc_index_def ix
    using small by (simp add: unsigned_ucast_eq take_bit_nat_eq_self)
  show lt: "crc_index crc b < 256" unfolding u by (rule small)
  have "crctable ! crc_index crc b = crc_shift8 (push_bit 8 (ucast (?hi XOR b)))"
    using crctable_nth [OF lt] unfolding u crc_entry_def by simp
  moreover have "push_bit 8 crc AND 0xffff = crc_shift8 (ucast ?lo)"
  proof -
    have "crc_shift8 (ucast ?lo) = push_bit 8 (ucast ?lo)"
      unfolding crc_shift8_def by (rule crc_shift_low_n) simp
    also have "\<dots> = push_bit 8 crc" by (rule bit_word_eqI) (auto simp: bit_simps)
    finally have "crc_shift8 (ucast ?lo) = push_bit 8 crc" .
    moreover have "(0xffff :: crc) = -1" by simp
    ultimately show ?thesis by (simp only: bit.conj_one_right)
  qed
  ultimately have "push_bit 8 crc AND 0xffff XOR crctable ! crc_index crc b =
      crc_shift8 (ucast ?lo XOR push_bit 8 (ucast (?hi XOR b)))"
    by (simp only: crc_shift8_xor)
  also have "ucast ?lo XOR push_bit 8 (ucast (?hi XOR b)) = crc XOR push_bit 8 (ucast b)"
    by (rule bit_word_eqI) (auto simp: bit_simps)
  finally show "push_bit 8 crc AND 0xffff XOR crctable ! crc_index crc b = crc_byte b crc"
    by (simp only: crc_byte_def)
qed

lemma CRC16_Update_eq: "CRC16_Update crc m = Inr (fold crc_byte m crc)"
  by (induction m arbitrary: crc)
    (simp_all add: length_crctable crc_index_bound crc_table_step del: crctable_nth)

lemma CRC16_Update_Lower_eq: "CRC16_Update_Lower crc m = CRC16_Update crc (map tolower m)"
  by (induction m arbitrary: crc) simp_all

definition crc_rep :: "crc \<Rightarrow> byte list \<Rightarrow> bool" where
  "crc_rep c m \<longleftrightarrow> c = crc16 m"

interpretation crc16: stream_hash hash_crc16 "\<lambda>_. True" crc_rep crc16_digest "2 ^ 64"
  by unfold_locales
    (auto simp: hash_crc16_def crc_rep_def crc16_def crc16_digest_def CRC16_Init_def QCRC_INIT_VALUE_def
      CRC16_Update_eq CRC16_Finish_def Let_def QCRC_XOR_VALUE_def)

interpretation crc16_lower: stream_hash hash_crc16_lower "\<lambda>_. True"
  "\<lambda>c m. crc_rep c (map tolower m)" "\<lambda>m. crc16_digest (map tolower m)" "2 ^ 64"
  by unfold_locales
    (auto simp: hash_crc16_lower_def crc_rep_def crc16_def crc16_digest_def CRC16_Init_def
      QCRC_INIT_VALUE_def CRC16_Update_Lower_eq CRC16_Update_eq CRC16_Finish_def Let_def QCRC_XOR_VALUE_def)

section \<open>Properties\<close>

text \<open>the table-driven checksum is the bit-by-bit CRC, whatever the context held and however the
  data is cut into updates.\<close>

theorem CRC16_bitwise:
  "rbind (foldl (\<lambda>r d. rbind r (\<lambda>c. CRC16_Update c d)) (Inr (CRC16_Init c)) ds) CRC16_Finish =
   Inr (crc16_digest (concat ds), crc16 (concat ds))"
proof -
  have "foldl (\<lambda>r d. rbind r (\<lambda>c. CRC16_Update c d)) (Inr x) ds = Inr (fold crc_byte (concat ds) x)" for x
    by (induction ds arbitrary: x) (simp_all add: CRC16_Update_eq)
  then show ?thesis
    by (simp add: CRC16_Init_def QCRC_INIT_VALUE_def CRC16_Finish_def QCRC_XOR_VALUE_def crc16_def
        crc16_digest_def Let_def)
qed

text \<open>the lower-casing checksum is the checksum of the lower-cased data.\<close>

theorem CRC16_lower:
  assumes "length m < 2 ^ 64" and "2 \<le> n"
  shows "CalcHash hash_crc16_lower c n m = CalcHash hash_crc16 c n (map tolower m)"
  using crc16_lower.CalcHash_eq [where c = c and d = m and n = n]
    crc16.CalcHash_eq [where c = c and d = "map tolower m" and n = n] assms
  by (simp add: hash_crc16_lower_def hash_crc16_def)

theorem CRC16_lower_witness:
  "CalcHash hash_crc16_lower 0 2 [65] = CalcHash hash_crc16 0 2 [97]"
  using CRC16_lower [of "[65]" 2 0] by (simp add: tolower_def)

end
