(* ===== verification/TextCodes.thy ===== *)
theory TextCodes
  imports Prelude
begin

text \<open>
  The binary-to-text codes of \<open>engine/common/common.c\<close>: \<open>Base64_EncodeBlock\<close> and its URI variant,
  \<open>Base64_DecodeBlock\<close>, \<open>Base16_EncodeBlock\<close> and \<open>Base16_DecodeBlock\<close>.  Output goes to a buffer
  of bytes with an explicit position (\<open>out - start\<close>); input that the C code reads through a
  pointer is the memory from that pointer on, so reading past its end is a fault.
\<close>

section \<open>Characters\<close>

text \<open>\<open>ischar a b c\<close> is \<open>c >= a && c <= b\<close> on a signed \<open>char\<close>.\<close>

definition ischar :: "int \<Rightarrow> int \<Rightarrow> byte \<Rightarrow> bool" where
  "ischar a b c \<longleftrightarrow> a \<le> sint c \<and> sint c \<le> b"

definition dehex :: "byte \<Rightarrow> int32" where
  "dehex i = (if ischar 48 57 i then scast i - 48
              else if ischar 65 70 i then scast i - 65 + 10
              else scast i - 97 + 10)"

definition ishexcode :: "byte \<Rightarrow> bool" where
  "ishexcode x \<longleftrightarrow> ischar 48 57 x \<or> ischar 65 70 x \<or> ischar 97 102 x"

definition Base64_Encode :: "int32 \<Rightarrow> byte" where
  "Base64_Encode byt =
     (let b = sint byt in
      if 0 \<le> b \<and> b < 26 then ucast (65 + byt - 0)
      else if 26 \<le> b \<and> b < 52 then ucast (97 + byt - 26)
      else if 52 \<le> b \<and> b < 62 then ucast (48 + byt - 52)
      else if b = 62 then 43
      else if b = 63 then 47
      else 33)"

definition Base64_Decode :: "byte \<Rightarrow> int32" where
  "Base64_Decode inp =
     (if ischar 65 90 inp then scast inp - 65 + 0
      else if ischar 97 122 inp then scast inp - 97 + 26
      else if ischar 48 57 inp then scast inp - 48 + 52
      else if inp = 43 \<or> inp = 45 then 62
      else if inp = 47 \<or> inp = 95 then 63
      else 0)"

section \<open>Encoding\<close>

text \<open>\<open>if (out < end) *out++ = c\<close>, where \<open>end\<close> is \<open>start + outsize - 1\<close>.\<close>

definition base64_put :: "nat \<Rightarrow> byte \<Rightarrow> byte list \<times> nat \<Rightarrow> (byte list \<times> nat) res" where
  "base64_put outsize c dst = (case dst of (out, pos) \<Rightarrow>
     if pos + 1 < outsize then rbind (poke pos c out) (\<lambda>out. Inr (out, pos + 1)) else Inr (out, pos))"

text \<open>One turn of the loop: up to three bytes of \<open>in\<close> in \<open>v\<close>, then four characters.\<close>

definition base64_v :: "byte list \<Rightarrow> int32" where
  "base64_v inp =
     (if length inp > 0 then push_bit 16 (ucast (inp ! 0)) else 0) OR
     (if length inp > 1 then push_bit 8 (ucast (inp ! 1)) else 0) OR
     (if length inp > 2 then ucast (inp ! 2) else 0)"

definition base64_quad :: "byte list \<Rightarrow> byte list" where
  "base64_quad inp =
     (let v = base64_v inp in
      [if length inp \<ge> 1 then Base64_Encode (drop_bit 18 v AND 63) else 61,
       if length inp \<ge> 1 then Base64_Encode (drop_bit 12 v AND 63) else 61,
       if length inp \<ge> 2 then Base64_Encode (drop_bit 6 v AND 63) else 61,
       if length inp \<ge> 3 then Base64_Encode (v AND 63) else 61])"

fun base64_puts :: "nat \<Rightarrow> byte list \<Rightarrow> byte list \<times> nat \<Rightarrow> (byte list \<times> nat) res" where
  "base64_puts outsize [] dst = Inr dst"
| "base64_puts outsize (c # cs) dst = rbind (base64_put outsize c dst) (base64_puts outsize cs)"

function base64_loop :: "nat \<Rightarrow> byte list \<Rightarrow> byte list \<times> nat \<Rightarrow> (byte list \<times> nat) res" where
  "base64_loop outsize inp dst =
     (if inp = [] then Inr dst
      else rbind (base64_puts outsize (base64_quad inp) dst) (\<lambda>dst.
           if length inp \<le> 3 then Inr dst else base64_loop outsize (drop 3 inp) dst))"
  by pat_completeness auto
termination
  by (relation "measure (\<lambda>(outsize, inp, dst). length inp)") auto

declare base64_loop.simps [simp del]

definition Base64_EncodeBlock :: "byte list \<Rightarrow> byte list \<Rightarrow> nat \<Rightarrow> (byte list \<times> nat) res" where
  "Base64_EncodeBlock inp out outsize =
     rbind (base64_loop outsize inp (out, 0)) (\<lambda>(out, pos).
       if pos < outsize then rbind (poke pos 0 out) (\<lambda>out. Inr (out, pos)) else Inr (out, pos))"

text \<open>The loop of the URI variant over the \<open>n\<close> characters from \<open>i\<close> on.\<close>

fun base64_uri_loop :: "nat \<Rightarrow> byte list \<Rightarrow> nat \<Rightarrow> (byte list \<times> nat) res" where
  "base64_uri_loop 0 out i = Inr (out, i)"
| "base64_uri_loop (Suc n) out i =
     rbind (peek out i) (\<lambda>c.
     if c = 43 then rbind (poke i 45 out) (\<lambda>out. base64_uri_loop n out (i + 1))
     else if c = 47 then rbind (poke i 95 out) (\<lambda>out. base64_uri_loop n out (i + 1))
     else if c = 61 then rbind (poke i 0 out) (\<lambda>out. Inr (out, i))
     else base64_uri_loop n out (i + 1))"

definition Base64_EncodeBlockURI :: "byte list \<Rightarrow> byte list \<Rightarrow> nat \<Rightarrow> (byte list \<times> nat) res" where
  "Base64_EncodeBlockURI inp out outsize =
     rbind (Base64_EncodeBlock inp out outsize) (\<lambda>(out, outsize). base64_uri_loop outsize out 0)"

section \<open>Decoding\<close>

text \<open>\<open>while (*in > 0 && *in < ' ') in++;\<close> from position \<open>i\<close> of the memory.\<close>

function skip_controls :: "byte list \<Rightarrow> nat \<Rightarrow> nat res" where
  "skip_controls inp i =
     (if i < length inp then
        (if 0 < sint (inp ! i) \<and> sint (inp ! i) < 32 then skip_controls inp (i + 1) else Inr i)
      else Inl Out_Of_Bounds)"
  by pat_completeness auto
termination
  by (relation "measure (\<lambda>(inp, i). length inp - i)") auto

declare skip_controls.simps [simp del]

fun c_strlen :: "byte list \<Rightarrow> nat res" where
  "c_strlen [] = Inl Out_Of_Bounds"
| "c_strlen (c # s) = (if c = 0 then Inr 0 else rbind (c_strlen s) (\<lambda>n. Inr (n + 1)))"

text \<open>\<open>in >= in_end || *in == '=' || !*in\<close>, or without the test for the padding.\<close>

definition base64_at_end :: "byte list \<Rightarrow> nat \<Rightarrow> nat \<Rightarrow> bool \<Rightarrow> bool res" where
  "base64_at_end inp in_end i pad =
     (if in_end \<le> i then Inr True else rbind (peek inp i) (\<lambda>c. Inr (pad \<and> c = 61 \<or> c = 0)))"

text \<open>The loop \<open>for (; outsize > 1;)\<close> with the input position \<open>i\<close> and the output position \<open>pos\<close>.\<close>

function base64_decode_loop ::
  "byte list \<Rightarrow> nat \<Rightarrow> nat \<Rightarrow> byte list \<times> nat \<Rightarrow> nat \<Rightarrow> (byte list \<times> nat) res" where
  "base64_decode_loop inp in_end i dst outsize =
     (if outsize > 1 then
        rbind (skip_controls inp i) (\<lambda>i.
        rbind (base64_at_end inp in_end i False) (\<lambda>stop. if stop then Inr dst else
        rbind (peek inp i) (\<lambda>c. let v = push_bit 18 (Base64_Decode c) in
        rbind (skip_controls inp (i + 1)) (\<lambda>i.
        rbind (base64_at_end inp in_end i False) (\<lambda>stop. if stop then Inr dst else
        rbind (peek inp i) (\<lambda>c. let v = v OR push_bit 12 (Base64_Decode c) in
        rbind (poke (snd dst) (ucast (drop_bit 16 v AND 255)) (fst dst)) (\<lambda>out.
        rbind (base64_at_end inp in_end (i + 1) True) (\<lambda>stop.
          if stop \<or> outsize < 2 then Inr (out, snd dst + 1) else
        rbind (peek inp (i + 1)) (\<lambda>c. let v = v OR push_bit 6 (Base64_Decode c) in
        rbind (poke (snd dst + 1) (ucast (drop_bit 8 v AND 255)) out) (\<lambda>out.
        rbind (base64_at_end inp in_end (i + 2) True) (\<lambda>stop.
          if stop \<or> outsize < 3 then Inr (out, snd dst + 2) else
        rbind (peek inp (i + 2)) (\<lambda>c. let v = v OR Base64_Decode c in
        rbind (poke (snd dst + 2) (ucast (v AND 255)) out) (\<lambda>out.
          base64_decode_loop inp in_end (i + 3) (out, snd dst + 3) (outsize - 3))))))))))))))
      else Inr dst)"
  by pat_completeness auto
termination
  by (relation "measure (\<lambda>(inp, in_end, i, dst, outsize). outsize)") auto

declare base64_decode_loop.simps [simp del]

text \<open>\<open>in\<close> is the memory from the pointer on, \<open>in_end\<close> the offset of the end if one is given.\<close>

definition Base64_DecodeBlock ::
  "byte list \<Rightarrow> nat option \<Rightarrow> byte list option \<Rightarrow> nat \<Rightarrow> (byte list \<times> nat) res" where
  "Base64_DecodeBlock inp in_end out outsize =
     rbind (case in_end of None \<Rightarrow> c_strlen inp | Some n \<Rightarrow> Inr n) (\<lambda>in_end.
     case out of
       None \<Rightarrow> Inr ([], (in_end + 3) div 4 * 3 + 1)
     | Some out \<Rightarrow> base64_decode_loop inp in_end 0 (out, 0) outsize)"

section \<open>Base 16\<close>

fun base16_decode_loop :: "byte list \<Rightarrow> nat \<Rightarrow> byte list \<times> nat \<Rightarrow> nat \<Rightarrow> (byte list \<times> nat) res" where
  "base16_decode_loop inp i dst outsize =
     rbind (peek inp i) (\<lambda>a. if \<not> ishexcode a then Inr dst else
     rbind (peek inp (i + 1)) (\<lambda>b. if \<not> ishexcode b then Inr dst else
     (case outsize of
        0 \<Rightarrow> Inr dst
      | Suc n \<Rightarrow>
          rbind (poke (snd dst) (ucast (push_bit 4 (dehex a) OR dehex b)) (fst dst)) (\<lambda>out.
            base16_decode_loop inp (i + 2) (out, snd dst + 1) n))))"

declare base16_decode_loop.simps [simp del]

definition Base16_DecodeBlock :: "byte list \<Rightarrow> byte list option \<Rightarrow> nat \<Rightarrow> (byte list \<times> nat) res" where
  "Base16_DecodeBlock inp out outsize = (case out of
     None \<Rightarrow> rbind (c_strlen inp) (\<lambda>n. Inr ([], (n + 1) div 2 + 1))
   | Some out \<Rightarrow> base16_decode_loop inp 0 (out, 0) outsize)"

definition hex_tab :: "byte list" where
  "hex_tab = [48, 49, 50, 51, 52, 53, 54, 55, 56, 57, 97, 98, 99, 100, 101, 102]"

fun base16_encode_loop :: "byte list \<Rightarrow> byte list \<times> nat \<Rightarrow> (byte list \<times> nat) res" where
  "base16_encode_loop [] dst = Inr dst"
| "base16_encode_loop (c # inp) dst =
     rbind (peek hex_tab (unat (signed_drop_bit 4 c AND 15))) (\<lambda>h.
     rbind (poke (snd dst) h (fst dst)) (\<lambda>out.
     rbind (peek hex_tab (unat (c AND 15))) (\<lambda>l.
     rbind (poke (snd dst + 1) l out) (\<lambda>out.
       base16_encode_loop inp (out, snd dst + 2)))))"

definition Base16_EncodeBlock :: "byte list \<Rightarrow> byte list option \<Rightarrow> nat \<Rightarrow> (byte list \<times> nat) res" where
  "Base16_EncodeBlock inp out outsize = (case out of
     None \<Rightarrow> Inr ([], length inp * 2 + 1)
   | Some out \<Rightarrow>
       rbind (if outsize > length inp * 2 then poke 0 0 out else Inr out) (\<lambda>out.
         base16_encode_loop inp (out, 0)))"

section \<open>The reference\<close>

text \<open>
  RFC 4648 over an alphabet \<open>e\<close> and a padding \<open>p\<close>, on sextets; \<open>base64_std\<close> pads with equals signs,
  \<open>base64_uri\<close> uses the URI alphabet without padding.
\<close>

definition sx1 :: "byte \<Rightarrow> int32" where "sx1 a = drop_bit 2 (ucast a)"
definition sx2 :: "byte \<Rightarrow> byte \<Rightarrow> int32" where "sx2 a b = push_bit 4 (ucast a AND 3) OR drop_bit 4 (ucast b)"
definition sx3 :: "byte \<Rightarrow> byte \<Rightarrow> int32" where "sx3 b c = push_bit 2 (ucast b AND 15) OR drop_bit 6 (ucast c)"
definition sx4 :: "byte \<Rightarrow> int32" where "sx4 c = ucast c AND 63"

lemmas sx_defs = sx1_def sx2_def sx3_def sx4_def

fun base64 :: "(int32 \<Rightarrow> byte) \<Rightarrow> byte list \<Rightarrow> byte list \<Rightarrow> byte list" where
  "base64 e p [] = []"
| "base64 e p [a] = [e (sx1 a), e (sx2 a 0)] @ p @ p"
| "base64 e p [a, b] = [e (sx1 a), e (sx2 a b), e (sx3 b 0)] @ p"
| "base64 e p (a # b # c # inp) = [e (sx1 a), e (sx2 a b), e (sx3 b c), e (sx4 c)] @ base64 e p inp"

definition uri_char :: "byte \<Rightarrow> byte" where
  "uri_char c = (if c = 43 then 45 else if c = 47 then 95 else c)"

definition base64_std :: "byte list \<Rightarrow> byte list" where
  "base64_std = base64 Base64_Encode [61]"

definition base64_uri :: "byte list \<Rightarrow> byte list" where
  "base64_uri = base64 (uri_char \<circ> Base64_Encode) []"

lemma mask_63: "(63 :: int32) = mask 6" "(3 :: int32) = mask 2" "(15 :: int32) = mask 4" "(255 :: int32) = mask 8"
  by (simp_all add: mask_eq_exp_minus_1)

lemma sx_small: "sx1 a AND 63 = sx1 a" "sx2 a b AND 63 = sx2 a b" "sx3 a b AND 63 = sx3 a b" "sx4 a AND 63 = sx4 a"
  unfolding sx_defs mask_63
  by (rule bit_word_eqI, auto simp: bit_simps dest: bit_byte_lt)+

lemma base64_v_sx:
  fixes a b c :: byte
  defines "v \<equiv> push_bit 16 (ucast a) OR push_bit 8 (ucast b) OR (ucast c :: int32)"
  shows "drop_bit 18 v AND 63 = sx1 a" "drop_bit 12 v AND 63 = sx2 a b"
    "drop_bit 6 v AND 63 = sx3 b c" "v AND 63 = sx4 c"
  unfolding v_def sx_defs mask_63
  by (rule bit_word_eqI, auto simp: bit_simps dest: bit_byte_lt)+

lemma base64_quad_sx:
  "base64_quad [a] = [Base64_Encode (sx1 a), Base64_Encode (sx2 a 0), 61, 61]"
  "base64_quad [a, b] = [Base64_Encode (sx1 a), Base64_Encode (sx2 a b), Base64_Encode (sx3 b 0), 61]"
  "base64_quad (a # b # c # r) =
     [Base64_Encode (sx1 a), Base64_Encode (sx2 a b), Base64_Encode (sx3 b c), Base64_Encode (sx4 c)]"
  using base64_v_sx [of a 0 0] base64_v_sx [of a b 0] base64_v_sx [of a b c]
  by (simp_all add: base64_quad_def base64_v_def Let_def or.assoc)

text \<open>The 64 characters, one by one.\<close>

lemma base64_alphabet:
  "list_all (\<lambda>n. Base64_Decode (Base64_Encode (word_of_nat n)) = word_of_nat n \<and>
     Base64_Decode (uri_char (Base64_Encode (word_of_nat n))) = word_of_nat n \<and>
     32 < sint (Base64_Encode (word_of_nat n)) \<and> 32 < sint (uri_char (Base64_Encode (word_of_nat n))) \<and>
     Base64_Encode (word_of_nat n) \<noteq> 61 \<and> uri_char (Base64_Encode (word_of_nat n)) \<noteq> 61) [0..<64]"
  by code_simp

definition base64_code :: "(int32 \<Rightarrow> byte) \<Rightarrow> bool" where
  "base64_code e \<longleftrightarrow> (\<forall>x. x AND 63 = x \<longrightarrow> Base64_Decode (e x) = x \<and> 32 < sint (e x) \<and> e x \<noteq> 61)"

lemma sextet_nat: "x AND 63 = x \<Longrightarrow> \<exists>n \<in> set [0..<64]. x = word_of_nat n" for x :: int32
proof -
  assume x: "x AND 63 = x"
  have "unat (x AND 63) = take_bit 6 (unat x)"
    unfolding mask_63 by (simp add: take_bit_eq_mask [symmetric] unsigned_take_bit_eq)
  then have "unat x < 64" unfolding x by (simp add: take_bit_eq_mod)
  then show ?thesis by (intro bexI [of _ "unat x"]) simp_all
qed

lemma base64_codes: "base64_code Base64_Encode" "base64_code (uri_char \<circ> Base64_Encode)"
  using base64_alphabet unfolding base64_code_def list_all_iff by (force dest: sextet_nat)+

lemma base64_codeD:
  assumes "base64_code e" and "x AND 63 = x"
  shows "Base64_Decode (e x) = x" and "32 < sint (e x)" and "e x \<noteq> 61" and "e x \<noteq> 0"
proof -
  show "Base64_Decode (e x) = x" "32 < sint (e x)" "e x \<noteq> 61"
    using assms by (simp_all add: base64_code_def)
  then show "e x \<noteq> 0" by auto
qed

section \<open>Encoding is bounded and correct\<close>

lemma base64_puts_append:
  "base64_puts n (xs @ ys) dst = rbind (base64_puts n xs dst) (base64_puts n ys)"
  by (induction xs arbitrary: dst) (auto simp: rbind_assoc intro: rbind_cong)

lemma base64_loop_std: "base64_loop n inp dst = base64_puts n (base64_std inp) dst"
proof (induction inp arbitrary: dst rule: base64.induct [of _ "undefined :: int32 \<Rightarrow> byte" "[]"])
  case (4 _ _ a b c inp)
  show ?case
  proof (cases "inp = []")
    case True
    then show ?thesis
      by (simp add: base64_loop.simps [of n "[a, b, c]"] base64_quad_sx base64_std_def)
  next
    case False
    then have "base64_loop n (a # b # c # inp) dst =
        rbind (base64_puts n (base64_quad (a # b # c # inp)) dst) (base64_loop n inp)"
      by (simp add: base64_loop.simps [of n "a # b # c # inp"])
    also have "\<dots> = base64_puts n (base64_quad (a # b # c # inp) @ base64_std inp) dst"
      unfolding base64_puts_append by (rule rbind_cong [OF refl]) (rule 4)
    finally show ?thesis by (simp add: base64_quad_sx base64_std_def)
  qed
qed (simp_all add: base64_loop.simps base64_quad_sx base64_std_def)

lemma base64_puts_eq:
  assumes "n \<le> length out" and "k = min (length cs) (n - 1 - pos)"
  shows "base64_puts n cs (out, pos) = Inr (take pos out @ take k cs @ drop (pos + k) out, pos + k)"
  using assms
proof (induction cs arbitrary: out pos k)
  case (Cons c cs)
  show ?case
  proof (cases "pos + 1 < n")
    case True
    have "k - 1 = min (length cs) (n - 1 - Suc pos)" and k: "k = Suc (k - 1)"
      using Cons.prems(2) True by auto
    then have "base64_puts n cs (out[pos := c], Suc pos) =
        Inr (take (Suc pos) (out[pos := c]) @ take (k - 1) cs @ drop (Suc pos + (k - 1)) (out[pos := c]),
             Suc pos + (k - 1))"
      using Cons.prems(1) by (intro Cons.IH) simp_all
    then show ?thesis
      using True Cons.prems(1) by (subst (1 2 3) k) (simp add: base64_put_def take_Suc_conv_app_nth)
  next
    case False
    then have "k = 0" using Cons.prems(2) by simp
    moreover have "base64_puts n cs (out, pos) = Inr (out, pos)"
      using Cons.IH [OF Cons.prems(1), of 0 pos] False by simp
    ultimately show ?thesis using False by (simp add: base64_put_def)
  qed
qed simp

lemma Base64_EncodeBlock_eq:
  assumes "n \<le> length out" and t: "t = take (n - 1) (base64_std inp)"
  shows "Base64_EncodeBlock inp out n =
    (if n = 0 then Inr (out, 0) else Inr (t @ 0 # drop (Suc (length t)) out, length t))"
proof -
  let ?k = "min (length (base64_std inp)) (n - 1 - 0)"
  have l: "base64_loop n inp (out, 0) = Inr (t @ drop (length t) out, length t)"
    using base64_puts_eq [OF assms(1), of ?k "base64_std inp" 0] t
    by (simp add: base64_loop_std min_def)
  have "length t < n" if "n \<noteq> 0" using t that by simp
  then show ?thesis
    using assms(1) t by (simp add: Base64_EncodeBlock_def l list_update_append Cons_nth_drop_Suc [symmetric])
qed

section \<open>Decoding\<close>

lemma peek_drop: "peek (drop i m) k = peek m (i + k)"
proof (cases "i + k < length m")
  case True
  then have "i \<le> length m" "k < length m - i" by simp_all
  then show ?thesis using True by (simp add: peek_def)
qed (auto simp: peek_def)

lemma skip_here: "peek m i = Inr c \<Longrightarrow> \<not> (0 < sint c \<and> sint c < 32) \<Longrightarrow> skip_controls m i = Inr i"
  by (auto simp: peek_def skip_controls.simps [of m i] split: if_splits)

lemma skip_code:
  assumes "base64_code e" and "x AND 63 = x" and "peek m i = Inr (e x)"
  shows "skip_controls m i = Inr i"
  using base64_codeD(2) [OF assms(1,2)] by (intro skip_here [OF assms(3)]) simp

lemma no_byte_bit: "8 \<le> n \<Longrightarrow> \<not> bit (b :: byte) n"
  using bit_byte_lt by fastforce

lemma upd_splice:
  "i < length a \<Longrightarrow> a[i := x] = take i a @ x # drop (Suc i) a"
  "Suc i < length a \<Longrightarrow> a[i := x, Suc i := y] = take i a @ x # y # drop (Suc (Suc i)) a"
  "Suc (Suc i) < length a \<Longrightarrow>
   a[i := x, Suc i := y, Suc (Suc i) := z] = take i a @ x # y # z # drop (Suc (Suc (Suc i))) a"
  by (simp_all add: upd_conv_take_nth_drop take_Suc_conv_app_nth list_update_append Cons_nth_drop_Suc [symmetric])

lemma lt8_cases: "n < LENGTH(8) \<Longrightarrow> n = 0 \<or> n = 1 \<or> n = 2 \<or> n = 3 \<or> n = 4 \<or> n = 5 \<or> n = 6 \<or> n = 7"
  by auto

lemma base64_join:
  fixes s1 s2 s3 s4 :: int32
  assumes "s1 = sx1 a" and "s2 = sx2 a b" and "s3 = sx3 b c" and "s4 = sx4 c"
  shows "ucast (drop_bit 16 (push_bit 18 s1 OR push_bit 12 s2) AND 255) = a"
    and "ucast (drop_bit 8 (push_bit 18 s1 OR push_bit 12 s2 OR push_bit 6 s3) AND 255) = b"
    and "ucast ((push_bit 18 s1 OR push_bit 12 s2 OR push_bit 6 s3 OR s4) AND 255) = c"
  unfolding assms sx_defs mask_63
  by (rule bit_word_eqI, drule lt8_cases, elim disjE; simp add: bit_simps no_byte_bit del: bit_0)+

text \<open>One turn of the decoder on the characters of one, two or three bytes.\<close>

lemma base64_decode_chars:
  assumes e: "base64_code e" and m: "drop i m = base64 e p inp @ 0 # rest" and p: "p = [] \<or> p = [61]"
    and fin: "in_end = i + length (base64 e p inp)" and n: "length inp < n"
    and room: "pos + n \<le> length out"
  shows "base64_decode_loop m in_end i (out, pos) n =
    Inr (take pos out @ inp @ drop (pos + length inp) out, pos + length inp)"
  using e p m fin n room
proof (induction e p inp arbitrary: i out pos n rule: base64.induct)
  case (1 e p)
  have pk: "peek m i = Inr 0" using peek_drop [of i m 0] 1(3) by simp
  then show ?case
    using 1(4) by (simp add: base64_decode_loop.simps [of m] skip_here [OF pk] base64_at_end_def)
next
  case (2 e p a)
  note E = base64_codeD [OF 2(1) sx_small(1)] base64_codeD [OF 2(1) sx_small(2)]
  have pk: "peek m i = Inr (e (sx1 a))" "peek m (Suc i) = Inr (e (sx2 a 0))"
    "p = [61] \<Longrightarrow> peek m (Suc (Suc i)) = Inr 61"
    using peek_drop [of i m 0] peek_drop [of i m 1] peek_drop [of i m 2] 2(3) by (auto simp: numeral_2_eq_2)
  note sk = skip_code [OF 2(1) sx_small(1) pk(1)] skip_code [OF 2(1) sx_small(2) pk(2)]
  have "base64_at_end m in_end (Suc (Suc i)) True = Inr True"
    using 2(2,4) pk(3) by (auto simp: base64_at_end_def)
  moreover have "base64_at_end m in_end i False = Inr False" "base64_at_end m in_end (Suc i) False = Inr False"
    using 2(4) pk E by (simp_all add: base64_at_end_def)
  ultimately show ?case
    using 2(5,6) E base64_join(1) [OF refl refl refl refl, of a 0]
    by (simp add: base64_decode_loop.simps [of m] sk pk(1,2) upd_splice)
next
  case (3 e p a b)
  note E = base64_codeD [OF 3(1) sx_small(1)] base64_codeD [OF 3(1) sx_small(2)]
    base64_codeD [OF 3(1) sx_small(3)]
  have pk: "peek m i = Inr (e (sx1 a))" "peek m (Suc i) = Inr (e (sx2 a b))"
    "peek m (Suc (Suc i)) = Inr (e (sx3 b 0))" "p = [61] \<Longrightarrow> peek m (Suc (Suc (Suc i))) = Inr 61"
    using peek_drop [of i m 0] peek_drop [of i m 1] peek_drop [of i m 2] peek_drop [of i m 3] 3(3)
    by (auto simp: numeral_2_eq_2 numeral_3_eq_3)
  note sk = skip_code [OF 3(1) sx_small(1) pk(1)] skip_code [OF 3(1) sx_small(2) pk(2)]
  have "base64_at_end m in_end (Suc (Suc (Suc i))) True = Inr True"
    using 3(2,4) pk(4) by (auto simp: base64_at_end_def)
  moreover have "base64_at_end m in_end i False = Inr False" "base64_at_end m in_end (Suc i) False = Inr False"
    "base64_at_end m in_end (Suc (Suc i)) True = Inr False"
    using 3(4) pk E by (simp_all add: base64_at_end_def)
  ultimately show ?case
    using 3(5,6) E base64_join(1) [OF refl refl refl refl, of a b]
      base64_join(2) [OF refl refl refl refl, of a b 0]
    by (simp add: base64_decode_loop.simps [of m] sk pk(1-3) upd_splice or.assoc)
next
  case (4 e p a b c inp)
  note E = base64_codeD [OF 4(2) sx_small(1)] base64_codeD [OF 4(2) sx_small(2)]
    base64_codeD [OF 4(2) sx_small(3)] base64_codeD [OF 4(2) sx_small(4)]
  have pk: "peek m i = Inr (e (sx1 a))" "peek m (Suc i) = Inr (e (sx2 a b))"
    "peek m (Suc (Suc i)) = Inr (e (sx3 b c))" "peek m (Suc (Suc (Suc i))) = Inr (e (sx4 c))"
    using peek_drop [of i m 0] peek_drop [of i m 1] peek_drop [of i m 2] peek_drop [of i m 3] 4(4)
    by (simp_all add: numeral_2_eq_2 numeral_3_eq_3)
  note sk = skip_code [OF 4(2) sx_small(1) pk(1)] skip_code [OF 4(2) sx_small(2) pk(2)]
  have at: "base64_at_end m in_end i False = Inr False" "base64_at_end m in_end (Suc i) False = Inr False"
    "base64_at_end m in_end (Suc (Suc i)) True = Inr False"
    "base64_at_end m in_end (Suc (Suc (Suc i))) True = Inr False"
    using 4(5) pk E by (simp_all add: base64_at_end_def)
  let ?out = "out[pos := a, Suc pos := b, Suc (Suc pos) := c]"
  have "drop (i + 4) m = base64 e p inp @ 0 # rest"
    using 4(4) drop_drop [of 4 i m] by (simp add: add.commute)
  then have "base64_decode_loop m in_end (i + 4) (?out, pos + 3) (n - 3) =
      Inr (take (pos + 3) ?out @ inp @ drop (pos + 3 + length inp) ?out, pos + 3 + length inp)"
    using 4(2,3,5-7) by (intro 4(1)) simp_all
  then show ?case
    using 4(6,7) E base64_join(1) [OF refl refl refl refl, of a b]
      base64_join(2,3) [OF refl refl refl refl, of a b c]
    by (simp add: base64_decode_loop.simps [of m in_end i] sk pk at upd_splice eval_nat_numeral or.assoc
        add.commute [of pos "length inp"])
qed

lemma length_base64_p: "length (base64 e p inp) = length (base64 e' p inp)"
  by (induction e p inp rule: base64.induct) auto

lemma base64_no_nul:
  "base64_code e \<Longrightarrow> 0 \<notin> set p \<Longrightarrow> 0 \<notin> set (base64 e p inp)"
  by (induction e p inp rule: base64.induct) (auto dest: base64_codeD(4) [OF _ sx_small(1), THEN not_sym]
    base64_codeD(4) [OF _ sx_small(2), THEN not_sym] base64_codeD(4) [OF _ sx_small(3), THEN not_sym]
    base64_codeD(4) [OF _ sx_small(4), THEN not_sym])

lemma c_strlen_string: "0 \<notin> set s \<Longrightarrow> c_strlen (s @ 0 # r) = Inr (length s)"
  by (induction s) auto

lemma Base64_Decode_text:
  assumes e: "base64_code e" and p: "p = [] \<or> p = [61]" and "length inp < n" and "n \<le> length out"
  shows "Base64_DecodeBlock (base64 e p inp @ 0 # rest) None (Some out) n =
    Inr (inp @ drop (length inp) out, length inp)"
proof -
  have "0 \<notin> set (base64 e p inp)" using e p by (intro base64_no_nul) auto
  then show ?thesis
    using base64_decode_chars [OF e _ p refl, of 0 "base64 e p inp @ 0 # rest" inp rest n 0 out] assms(3,4)
    by (simp add: Base64_DecodeBlock_def c_strlen_string)
qed

section \<open>The URI variant\<close>

lemma base64_uri_loop_eq:
  "base64_uri_loop (length t) (u @ t @ s) (length u) =
     (let k = takeWhile (\<lambda>c. c \<noteq> 61) t in
      Inr (u @ map uri_char k @ (if length k < length t then 0 # drop (Suc (length k)) t else []) @ s,
           length u + length k))"
proof (induction t arbitrary: u)
  case (Cons c t)
  have step: "base64_uri_loop (length t) (u @ x # t @ s) (Suc (length u)) =
      (let k = takeWhile (\<lambda>c. c \<noteq> 61) t in
       Inr ((u @ [x]) @ map uri_char k @ (if length k < length t then 0 # drop (Suc (length k)) t else []) @ s,
           length (u @ [x]) + length k))" for x
    using Cons.IH [of "u @ [x]"] by simp
  show ?case
    by (auto simp: step uri_char_def Let_def nth_append list_update_append)
qed simp

lemma takeWhile_base64:
  "base64_code e \<Longrightarrow> takeWhile (\<lambda>c. c \<noteq> 61) (base64 e [61] inp) = base64 e [] inp"
  by (induction e "[61 :: byte]" inp rule: base64.induct)
    (auto simp: base64_codeD(3) [OF _ sx_small(1)] base64_codeD(3) [OF _ sx_small(2)]
      base64_codeD(3) [OF _ sx_small(3)] base64_codeD(3) [OF _ sx_small(4)])

lemma map_base64: "map f (base64 e [] inp) = base64 (f \<circ> e) [] inp"
  by (induction e "[] :: byte list" inp rule: base64.induct) auto

lemma Base64_EncodeBlockURI_eq:
  assumes "n \<le> length out" and "length (base64_std inp) < n"
  shows "\<exists>r. Base64_EncodeBlockURI inp out n = Inr (base64_uri inp @ 0 # r, length (base64_uri inp)) \<and>
    length (base64_uri inp @ 0 # r) = length out"
proof -
  let ?t = "base64_std inp"
  have e: "Base64_EncodeBlock inp out n = Inr (?t @ 0 # drop (Suc (length ?t)) out, length ?t)"
    using Base64_EncodeBlock_eq [OF assms(1) refl, of inp] assms(2) by simp
  have k: "takeWhile (\<lambda>c. c \<noteq> 61) ?t = base64 Base64_Encode [] inp"
    unfolding base64_std_def by (rule takeWhile_base64 [OF base64_codes(1)])
  have "length (takeWhile (\<lambda>c. c \<noteq> 61) ?t) \<le> length ?t" by (rule length_takeWhile_le)
  then show ?thesis
    using base64_uri_loop_eq [of ?t "[]" "0 # drop (Suc (length ?t)) out"] assms
    unfolding k by (auto simp: Base64_EncodeBlockURI_def e base64_uri_def map_base64 [symmetric] Let_def)
qed

section \<open>Base 16\<close>

definition hex_byte :: "byte \<Rightarrow> byte list" where
  "hex_byte c = [hex_tab ! unat (drop_bit 4 c AND 15), hex_tab ! unat (c AND 15)]"

lemma unat_nibble: "unat (c AND 15 :: byte) < 16"
proof -
  have m: "(15 :: byte) = mask 4" by (simp add: mask_eq_exp_minus_1)
  have "unat (take_bit 4 c) = take_bit 4 (unat c)" by (simp add: unsigned_take_bit_eq)
  also have "\<dots> < 16" unfolding take_bit_eq_mod by simp
  finally show ?thesis unfolding m take_bit_eq_mask .
qed

lemma nibble_shift: "signed_drop_bit 4 c AND 15 = (drop_bit 4 c AND 15 :: byte)"
proof -
  have m: "(15 :: byte) = mask 4" by (simp add: mask_eq_exp_minus_1)
  show ?thesis unfolding m by (rule bit_word_eqI) (auto simp: bit_simps)
qed

lemma peek_hex: "peek hex_tab (unat (c AND 15 :: byte)) = Inr (hex_tab ! unat (c AND 15))"
  using unat_nibble [of c] by (simp add: peek_def hex_tab_def)

lemma base16_encode_loop_eq:
  "pos + 2 * length inp \<le> length out \<Longrightarrow> base16_encode_loop inp (out, pos) =
     Inr (take pos out @ concat (map hex_byte inp) @ drop (pos + 2 * length inp) out, pos + 2 * length inp)"
proof (induction inp arbitrary: out pos)
  case (Cons c inp)
  then show ?case
    by (simp add: nibble_shift peek_hex hex_byte_def upd_splice add.commute [of pos])
qed simp

lemma base16_encode_loop_overrun:
  "length out < pos + 2 * length inp \<Longrightarrow> inp \<noteq> [] \<Longrightarrow> base16_encode_loop inp (out, pos) = Inl Out_Of_Bounds"
proof (induction inp arbitrary: out pos)
  case (Cons c inp)
  show ?case
  proof (cases "Suc pos < length out")
    case True
    then have "inp \<noteq> []" using Cons.prems(1) by (cases inp) auto
    then show ?thesis using Cons.IH [of "out[pos := x, Suc pos := y]" "pos + 2" for x y] Cons.prems(1) True
      by (simp add: nibble_shift peek_hex)
  qed (auto simp: nibble_shift peek_hex poke_def)
qed simp

lemma hex_digits:
  "list_all (\<lambda>n. ishexcode (hex_tab ! n) \<and> dehex (hex_tab ! n) = word_of_nat n) [0..<16]"
  by code_simp

lemma hex_digit: "n < 16 \<Longrightarrow> ishexcode (hex_tab ! n) \<and> dehex (hex_tab ! n) = word_of_nat n"
  using hex_digits by (simp add: list_all_iff)

lemma dehex_byte:
  "ucast (push_bit 4 (dehex (hex_tab ! unat (drop_bit 4 c AND 15))) OR dehex (hex_tab ! unat (c AND 15))) = c"
  for c :: byte
proof -
  have m: "(15 :: byte) = mask 4" by (simp add: mask_eq_exp_minus_1)
  have "ucast (push_bit 4 (ucast (drop_bit 4 c AND mask 4)) OR ucast (c AND mask 4) :: int32) = c"
    by (rule bit_word_eqI, drule lt8_cases, elim disjE; simp add: bit_simps no_byte_bit del: bit_0)
  then show ?thesis
    using hex_digit [OF unat_nibble] unfolding m by simp
qed

lemma base16_decode_loop_eq:
  assumes "drop i m = concat (map hex_byte inp) @ 0 # rest" and "length inp \<le> n" and "pos + n \<le> length out"
  shows "base16_decode_loop m i (out, pos) n =
    Inr (take pos out @ inp @ drop (pos + length inp) out, pos + length inp)"
  using assms
proof (induction inp arbitrary: i out pos n)
  case Nil
  have "peek m i = Inr 0" using peek_drop [of i m 0] Nil(1) by simp
  then show ?case by (simp add: base16_decode_loop.simps [of m] ishexcode_def ischar_def)
next
  case (Cons c inp)
  obtain n' where n: "n = Suc n'" using Cons.prems(2) by (cases n) auto
  have pk: "peek m i = Inr (hex_tab ! unat (drop_bit 4 c AND 15))"
    "peek m (Suc i) = Inr (hex_tab ! unat (c AND 15))"
    using peek_drop [of i m 0] peek_drop [of i m 1] Cons.prems(1) by (simp_all add: hex_byte_def)
  have "drop (i + 2) m = concat (map hex_byte inp) @ 0 # rest"
    using Cons.prems(1) drop_drop [of 2 i m] by (simp add: hex_byte_def [of c] add.commute)
  then have "base16_decode_loop m (i + 2) (out[pos := c], Suc pos) n' =
      Inr (take (Suc pos) (out[pos := c]) @ inp @ drop (Suc pos + length inp) (out[pos := c]), Suc pos + length inp)"
    using Cons.prems(2,3) n by (intro Cons.IH) simp_all
  then show ?case
    using Cons.prems(3) n hex_digit [OF unat_nibble, THEN conjunct1]
    by (simp add: base16_decode_loop.simps [of m i] pk dehex_byte upd_splice add.commute [of pos])
qed

section \<open>Properties\<close>

text \<open>C37: any bytes encoded with \<open>Base64_EncodeBlock\<close> or \<open>Base64_EncodeBlockURI\<close> into a large enough
  buffer, and decoded from that buffer, are the same bytes again.\<close>

theorem base64_roundtrip:
  assumes "n \<le> length out" and "length (base64_std inp) < n" and "length inp < k" and "k \<le> length out2"
  shows "rbind (Base64_EncodeBlock inp out n) (\<lambda>(text, _). Base64_DecodeBlock text None (Some out2) k) =
      Inr (inp @ drop (length inp) out2, length inp) \<and>
    rbind (Base64_EncodeBlockURI inp out n) (\<lambda>(text, _). Base64_DecodeBlock text None (Some out2) k) =
      Inr (inp @ drop (length inp) out2, length inp)"
proof
  have "Base64_EncodeBlock inp out n =
      Inr (base64_std inp @ 0 # drop (Suc (length (base64_std inp))) out, length (base64_std inp))"
    using Base64_EncodeBlock_eq [OF assms(1) refl, of inp] assms(2) by simp
  then show "rbind (Base64_EncodeBlock inp out n) (\<lambda>(text, _). Base64_DecodeBlock text None (Some out2) k) =
      Inr (inp @ drop (length inp) out2, length inp)"
    using Base64_Decode_text [OF base64_codes(1) _ assms(3,4), of "[61]"] by (simp add: base64_std_def)
  obtain r where "Base64_EncodeBlockURI inp out n = Inr (base64_uri inp @ 0 # r, length (base64_uri inp))"
    using Base64_EncodeBlockURI_eq [OF assms(1,2)] by auto
  then show "rbind (Base64_EncodeBlockURI inp out n) (\<lambda>(text, _). Base64_DecodeBlock text None (Some out2) k) =
      Inr (inp @ drop (length inp) out2, length inp)"
    using Base64_Decode_text [OF base64_codes(2) _ assms(3,4), of "[]"] by (simp add: base64_uri_def)
qed

theorem base64_roundtrip_witness:
  "rbind (Base64_EncodeBlock [251, 240] (replicate 8 7) 8)
     (\<lambda>(text, _). Base64_DecodeBlock text None (Some [9, 9, 9, 9]) 3) = Inr ([251, 240, 9, 9], 2)"
  using base64_roundtrip [of 8 "replicate 8 7" "[251, 240]" 3 "[9, 9, 9, 9]"] by (simp add: base64_std_def)

text \<open>whatever the size of the buffer, \<open>Base64_EncodeBlock\<close> writes the longest prefix of the RFC 4648
  text that leaves room for a terminator, and the terminator, and nothing else.\<close>

theorem base64_bounded:
  assumes "0 < n" and "n \<le> length out"
  shows "Base64_EncodeBlock inp out n =
    Inr (take (n - 1) (base64_std inp) @ 0 # drop (Suc (length (take (n - 1) (base64_std inp)))) out,
         length (take (n - 1) (base64_std inp)))"
  using Base64_EncodeBlock_eq [OF assms(2) refl, of inp] assms(1) by simp

theorem base64_bounded_witness:
  "\<exists>r. Base64_EncodeBlock [104, 101, 108] [7, 7, 7] 3 = Inr (r @ [0], 2) \<and> length r = 2"
  using base64_bounded [of 3 "[7, 7, 7]" "[104, 101, 108]"] by (auto simp: base64_std_def)

text \<open>\<open>Base16_EncodeBlock\<close> never looks at the size of the buffer for its digits: it writes all of them
  and faults when they do not fit; and its terminator goes to the front, where the first digit
  replaces it.  What it has written is read back by \<open>Base16_DecodeBlock\<close>.\<close>

theorem base16_cases:
  assumes "inp \<noteq> []" and "length inp \<le> k" and "k \<le> length out2" and "length out = n"
  shows "if n < 2 * length inp then Base16_EncodeBlock inp (Some out) n = Inl Out_Of_Bounds
    else Base16_EncodeBlock inp (Some out) n =
        Inr (concat (map hex_byte inp) @ drop (2 * length inp) out, 2 * length inp) \<and>
      Base16_DecodeBlock (concat (map hex_byte inp) @ 0 # rest) (Some out2) k =
        Inr (inp @ drop (length inp) out2, length inp)"
proof (cases "n < 2 * length inp")
  case True
  then show ?thesis
    using base16_encode_loop_overrun [of out 0 inp] assms by (simp add: Base16_EncodeBlock_def)
next
  case False
  have "out \<noteq> []" using False assms(1,4) by (cases inp) auto
  then have "drop (2 * length inp) (out[0 := 0]) = drop (2 * length inp) out"
    using assms(1) by (cases inp) auto
  then show ?thesis
    using False base16_encode_loop_eq [of 0 inp out] base16_encode_loop_eq [of 0 inp "out[0 := 0]"]
      base16_decode_loop_eq [of 0 "concat (map hex_byte inp) @ 0 # rest" inp rest k 0 out2] assms
    by (auto simp: Base16_EncodeBlock_def Base16_DecodeBlock_def)
qed

theorem base16_cases_witness:
  "Base16_EncodeBlock [0xab, 0xcd] (Some [7, 7, 7]) 3 = Inl Out_Of_Bounds"
  using base16_cases [of "[0xab, 0xcd]" 2 "[1, 2]" "[7, 7, 7]" 3 "[]"] by simp

end
