(* ===== verification/Unicode.thy ===== *)
theory Unicode
  imports TextCodes
begin

text \<open>
  The character codes of \<open>engine/common/common.c\<close>: \<open>utf8_decode\<close> with its surrogate pairs,
  \<open>utf8_encode\<close>, the two byte code pages with their markup escapes, the functions that choose
  between them by \<open>com_parseutf8\<close>, and the counting and case-changing functions built on these.
  A string is the memory its pointer leads into and a position in it; nothing in the code knows
  where that memory ends, so reading behind it is a fault.
\<close>

section \<open>Decoding UTF-8\<close>

text \<open>\<open>(str[1] & 0xc0) == 0x80 && (str[2] & 0xc0) == 0x80 && ...\<close>, \<open>n\<close> tests from position \<open>i\<close>.\<close>

fun utf8_conts :: "byte list \<Rightarrow> nat \<Rightarrow> nat \<Rightarrow> bool res" where
  "utf8_conts s i 0 = Inr True"
| "utf8_conts s i (Suc n) =
     rbind (peek s i) (\<lambda>c. if c AND 0xc0 = 0x80 then utf8_conts s (i + 1) n else Inr False)"

text \<open>The payload of \<open>l\<close> bytes, six bits from each after the first.\<close>

fun utf8_tail :: "byte list \<Rightarrow> nat \<Rightarrow> nat \<Rightarrow> int32 \<Rightarrow> int32 res" where
  "utf8_tail s i 0 uc = Inr uc"
| "utf8_tail s i (Suc n) uc =
     rbind (peek s i) (\<lambda>c. utf8_tail s (i + 1) n (uc OR push_bit (6 * n) (ucast c AND 0x3f)))"

definition utf8_bits :: "byte list \<Rightarrow> nat \<Rightarrow> nat \<Rightarrow> int32 \<Rightarrow> int32 res" where
  "utf8_bits s i l msk =
     rbind (peek s i) (\<lambda>c. utf8_tail s (i + 1) (l - 1) (push_bit (6 * (l - 1)) (ucast c AND msk)))"

text \<open>A sequence of \<open>l\<close> bytes of which the code tests \<open>n\<close>: the character, the length, the error.\<close>

definition utf8_long :: "byte list \<Rightarrow> nat \<Rightarrow> nat \<Rightarrow> nat \<Rightarrow> int32 \<Rightarrow> int32 \<Rightarrow> (int32 \<times> nat \<times> nat) res" where
  "utf8_long s i n l msk lim =
     rbind (utf8_conts s (i + 1) n) (\<lambda>ok.
     if ok then rbind (utf8_bits s i l msk) (\<lambda>uc.
       Inr (uc, l, if (l = 2 \<and> uc = 0) \<or> uc \<ge> lim then 0 else 2))
     else Inr (0xfffd, 1, 1))"

definition utf8_lead :: "byte list \<Rightarrow> nat \<Rightarrow> (int32 \<times> nat \<times> nat) res" where
  "utf8_lead s i = rbind (peek s i) (\<lambda>c.
     if c AND 0xe0 = 0xc0 then utf8_long s i 1 2 0x1f (2 ^ 7)
     else if c AND 0xf0 = 0xe0 then utf8_long s i 2 3 0x0f (2 ^ 11)
     else if c AND 0xf8 = 0xf0 then utf8_long s i 3 4 0x07 (2 ^ 16)
     else if c AND 0xfc = 0xf8 then utf8_long s i 4 5 0x03 (2 ^ 21)
     else if c AND 0xfe = 0xfc then utf8_long s i 4 6 0x01 (2 ^ 26)
     else if c AND 0x80 \<noteq> 0 then Inr (0xe000 + ucast c, 1, 1)
     else Inr (ucast c, 1, 0))"

lemma utf8_lead_in: "utf8_lead s i = Inr (uc, l, e) \<Longrightarrow> i < length s \<and> 0 < l"
  by (auto simp: utf8_lead_def utf8_long_def peek_def rbind_eq_Inr split: if_splits)

text \<open>
  The result is the character, the error code and the position behind the character.  A high
  surrogate calls the function again on what follows.
\<close>

function utf8_decode :: "byte list \<Rightarrow> nat \<Rightarrow> (int32 \<times> nat \<times> nat) res" where
  "utf8_decode s i = (case utf8_lead s i of
     Inl f \<Rightarrow> Inl f
   | Inr (uc, l, error) \<Rightarrow>
       if error \<noteq> 0 then Inr (uc, error, i + l)
       else
         rbind (if 0xd800 \<le> uc \<and> uc < 0xdc00 then
                  rbind (utf8_decode s (i + l)) (\<lambda>(lowsur, error, lowend).
                    if error = 4
                    then Inr ((push_bit 10 (uc AND 0x3ff) OR (lowsur AND 0x3ff)) + 0x10000, 0, lowend)
                    else Inr (uc, 3, i + l))
                else Inr (uc, 0, i + l)) (\<lambda>(uc, error, out).
         let error = (if 0xdc00 \<le> uc \<and> uc < 0xe000 then 4 else error);
             error = (if uc = 0xfffe \<or> uc = 0xffff \<or> uc > 0x10ffff then 2 else error)
         in Inr (uc, error, out)))"
  by pat_completeness auto
termination
  by (relation "measure (\<lambda>(s, i). length s - i)") (auto dest: utf8_lead_in)

declare utf8_decode.simps [simp del]

section \<open>Decoding by mode\<close>

text \<open>\<open>while (ishexcode( **out ))\<close>.\<close>

function hex_run :: "byte list \<Rightarrow> nat \<Rightarrow> int32 \<Rightarrow> (int32 \<times> nat) res" where
  "hex_run s i charcode =
     (if i < length s then
        (if ishexcode (s ! i) then hex_run s (i + 1) (push_bit 4 charcode OR dehex (s ! i))
         else Inr (charcode, i))
      else Inl Out_Of_Bounds)"
  by pat_completeness auto
termination
  by (relation "measure (\<lambda>(s, i, charcode). length s - i)") auto

declare hex_run.simps [simp del]

fun hex_all :: "byte list \<Rightarrow> nat \<Rightarrow> nat \<Rightarrow> bool res" where
  "hex_all s i 0 = Inr True"
| "hex_all s i (Suc n) = rbind (peek s i) (\<lambda>c. if ishexcode c then hex_all s (i + 1) n else Inr False)"

text \<open>\<open>in[0] == '^' && in[1] == c\<close>.\<close>

definition caret :: "byte list \<Rightarrow> nat \<Rightarrow> byte \<Rightarrow> bool res" where
  "caret s i c = rbind (peek s i) (\<lambda>a. if a = 94 then rbind (peek s (i + 1)) (\<lambda>b. Inr (b = c)) else Inr False)"

definition markup_U :: "byte list \<Rightarrow> nat \<Rightarrow> bool res" where
  "markup_U s i = rbind (caret s i 85) (\<lambda>b. if b then hex_all s (i + 2) 4 else Inr False)"

text \<open>\<open>ival\<close> is \<open>com_parseutf8.ival\<close>: positive for UTF-8, negative for ISO 8859-1, zero for Quake.\<close>

definition unicode_decode :: "int \<Rightarrow> bool \<Rightarrow> byte list \<Rightarrow> nat \<Rightarrow> (int32 \<times> nat \<times> nat) res" where
  "unicode_decode ival markup s i =
     rbind (if markup then markup_U s i else Inr False) (\<lambda>u. if u then
       Inr (push_bit 12 (dehex (s ! (i + 2))) OR push_bit 8 (dehex (s ! (i + 3))) OR
            push_bit 4 (dehex (s ! (i + 4))) OR dehex (s ! (i + 5)), 0, i + 6) else
     rbind (if markup then caret s i 123 else Inr False) (\<lambda>b. if b then
       rbind (hex_run s (i + 2) 0) (\<lambda>(charcode, out).
       rbind (peek s out) (\<lambda>c. Inr (charcode, 0, if c = 125 then out + 1 else out)))
     else if ival > 0 then utf8_decode s i
     else rbind (peek s i) (\<lambda>c.
       if ival \<noteq> 0 then Inr (ucast c, 0, i + 1)
       else let charcode = ucast c :: int32 in
         Inr (if charcode \<noteq> 0 \<and> charcode \<noteq> 10 \<and> charcode \<noteq> 9 \<and> charcode \<noteq> 13 \<and>
                 (charcode < 32 \<or> charcode > 127)
              then charcode OR 0xe000 else charcode, 0, i + 1))))"

section \<open>Encoding\<close>

text \<open>The loop that counts the bytes; it shifts \<open>lim\<close> out of the word when the character is too large.\<close>

partial_function (option) utf8_size :: "int32 \<Rightarrow> nat \<Rightarrow> int32 \<Rightarrow> nat option" where
  "utf8_size unicode bcount lim =
     (if unicode \<ge> lim then
        utf8_size unicode (bcount + 1)
          (if bcount = 1 then push_bit 4 lim else if bcount < 7 then push_bit 5 lim else push_bit 6 lim)
      else Some bcount)"

declare utf8_size.simps [simp del]

text \<open>The \<open>do ... while(shift)\<close>, \<open>n\<close> bytes to go.\<close>

fun utf8_put_conts :: "byte list \<Rightarrow> nat \<Rightarrow> int32 \<Rightarrow> nat \<Rightarrow> byte list res" where
  "utf8_put_conts out pos unicode 0 = Inr out"
| "utf8_put_conts out pos unicode (Suc n) =
     rbind (poke pos (ucast (drop_bit (6 * n) unicode AND 0x3f) OR 0x80) out) (\<lambda>out.
       utf8_put_conts out (pos + 1) unicode n)"

text \<open>
  Writing to \<open>out + pos\<close>; the result is the buffer and the number of bytes, 0 on error.  \<open>maxlen\<close> is
  an \<open>int\<close>, but here it is compared with an unsigned number.
\<close>

definition utf8_encode :: "byte list \<Rightarrow> nat \<Rightarrow> int32 \<Rightarrow> int32 \<Rightarrow> (byte list \<times> nat) run" where
  "utf8_encode out pos unicode maxlen =
     (case (if unicode = 0 then Some 2 else utf8_size unicode 1 0x80) of
        None \<Rightarrow> None
      | Some bcount \<Rightarrow> Some (
          if maxlen < word_of_nat bcount then Inr (out, 0)
          else if bcount = 1 then rbind (poke pos (ucast (unicode AND 0x7f)) out) (\<lambda>out. Inr (out, bcount))
          else
            rbind (poke pos (ucast (drop_bit (6 * (bcount - 1)) unicode AND drop_bit bcount 0x7f) OR
                             ucast (drop_bit bcount (0xffffff00 :: int32) AND 0xff)) out) (\<lambda>out.
            rbind (utf8_put_conts out (pos + 1) unicode (bcount - 1)) (\<lambda>out. Inr (out, bcount)))))"

text \<open>The escapes \<open>^{...}\<close> and \<open>^Uxxxx\<close>, which the two byte code pages write with the same code.\<close>

definition hex_at :: "int32 \<Rightarrow> nat \<Rightarrow> byte" where
  "hex_at unicode k = hex_tab ! unat (drop_bit k unicode AND 15)"

definition markup_text :: "int32 \<Rightarrow> byte list" where
  "markup_text unicode =
     (if unicode > 0xffff then
        [94, 123] @
        (if unicode > 0xfffffff then [hex_at unicode 28] else []) @
        (if unicode > 0xffffff then [hex_at unicode 24] else []) @
        (if unicode > 0xfffff then [hex_at unicode 20] else []) @
        (if unicode > 0xffff then [hex_at unicode 16] else []) @
        (if unicode > 0xfff then [hex_at unicode 12] else []) @
        (if unicode > 0xff then [hex_at unicode 8] else []) @
        (if unicode > 0xf then [hex_at unicode 4] else []) @
        (if unicode > 0 then [hex_at unicode 0] else []) @ [125]
      else [94, 85, hex_at unicode 12, hex_at unicode 8, hex_at unicode 4, hex_at unicode 0])"

definition markup_encode :: "byte list \<Rightarrow> nat \<Rightarrow> int32 \<Rightarrow> int32 \<Rightarrow> bool \<Rightarrow> (byte list \<times> nat) res" where
  "markup_encode out pos unicode maxlen markup =
     (if \<not> markup then
        (if maxlen <s 1 then Inr (out, 0) else rbind (poke pos 63 out) (\<lambda>out. Inr (out, 1)))
      else if maxlen <s (if unicode > 0xffff then 11 else 6) then Inr (out, 0)
      else rbind (pokes pos (markup_text unicode) out) (\<lambda>out. Inr (out, length (markup_text unicode))))"

definition qchar_compatible :: "int32 \<Rightarrow> bool" where
  "qchar_compatible u \<longleftrightarrow>
     ((u \<ge> 32 \<or> u = 10 \<or> u = 9 \<or> u = 13) \<and> u < 128) \<or>
     (u \<ge> 0xe000 \<and> u \<le> 0xe0ff \<and> u \<noteq> 0xe00a \<and> u \<noteq> 0xe009 \<and> u \<noteq> 0xe00d \<and> u \<noteq> 0xe00b)"

definition qchar_encode :: "byte list \<Rightarrow> nat \<Rightarrow> int32 \<Rightarrow> int32 \<Rightarrow> bool \<Rightarrow> (byte list \<times> nat) res" where
  "qchar_encode out pos unicode maxlen markup =
     (if qchar_compatible unicode then
        (if maxlen <s 1 then Inr (out, 0)
         else rbind (poke pos (ucast (unicode AND 0xff)) out) (\<lambda>out. Inr (out, 1)))
      else markup_encode out pos unicode maxlen markup)"

definition iso88591_encode :: "byte list \<Rightarrow> nat \<Rightarrow> int32 \<Rightarrow> int32 \<Rightarrow> bool \<Rightarrow> (byte list \<times> nat) res" where
  "iso88591_encode out pos unicode maxlen markup =
     (if unicode < 256 \<or> (unicode \<ge> 0xe020 \<and> unicode < 0xe080) then
        (if maxlen <s 1 then Inr (out, 0)
         else rbind (poke pos (ucast unicode) out) (\<lambda>out. Inr (out, 1)))
      else markup_encode out pos unicode maxlen markup)"

definition unicode_encode :: "int \<Rightarrow> byte list \<Rightarrow> nat \<Rightarrow> int32 \<Rightarrow> int32 \<Rightarrow> bool \<Rightarrow> (byte list \<times> nat) run" where
  "unicode_encode ival out pos unicode maxlen markup =
     (if ival > 0 then utf8_encode out pos unicode maxlen
      else if ival \<noteq> 0 then Some (iso88591_encode out pos unicode maxlen markup)
      else Some (qchar_encode out pos unicode maxlen markup))"

section \<open>Loops over a string\<close>

lemma utf8_decode_forward: "utf8_decode s i = Inr (uc, e, k) \<Longrightarrow> i < k \<and> i < length s"
proof (induction s i arbitrary: uc e k rule: utf8_decode.induct)
  case (1 s i)
  obtain uc0 l e0 where lead: "utf8_lead s i = Inr (uc0, l, e0)"
    using 1(2) by (cases "utf8_lead s i") (auto simp: utf8_decode.simps [of s i])
  have "i < length s" "0 < l" using utf8_lead_in [OF lead] by simp_all
  moreover have "i + l < j" if "utf8_decode s (i + l) = Inr (u, f, j)"
    and "e0 = 0" and "0xd800 \<le> uc0" and "uc0 < 0xdc00" for u f j
    using 1(1) [OF lead refl refl] that by simp
  ultimately show ?case
    using 1(2) lead
    by (fastforce simp: utf8_decode.simps [of s i] rbind_eq_Inr Let_def split: if_splits)
qed

lemma hex_run_forward: "hex_run s i c = Inr (d, k) \<Longrightarrow> i \<le> k"
proof (induction s i c rule: hex_run.induct)
  case (1 s i c)
  then show ?case by (auto simp: hex_run.simps [of s i] split: if_splits)
qed

lemma unicode_decode_forward: "unicode_decode v m s i = Inr (uc, e, k) \<Longrightarrow> i < k"
  by (auto simp: unicode_decode_def rbind_eq_Inr Let_def dest: utf8_decode_forward hex_run_forward split: if_splits)

text \<open>\<open>for(chars = 0; in < end && *in; chars+=1)\<close>, which two functions share.\<close>

function charcount_loop :: "int \<Rightarrow> bool \<Rightarrow> byte list \<Rightarrow> nat \<Rightarrow> nat \<Rightarrow> nat \<Rightarrow> nat res" where
  "charcount_loop ival markup s i fin chars =
     (if i < fin then
        (case peek s i of Inl f \<Rightarrow> Inl f | Inr c \<Rightarrow>
           if c = 0 then Inr chars
           else (case unicode_decode ival markup s i of Inl f \<Rightarrow> Inl f | Inr (uc, error, i') \<Rightarrow>
                   if i' > fin then Inr chars
                   else charcount_loop ival markup s i' fin (chars + 1)))
      else Inr chars)"
  by pat_completeness auto
termination
  by (relation "measure (\<lambda>(ival, markup, s, i, fin, chars). fin - i)")
    (auto dest!: unicode_decode_forward)

declare charcount_loop.simps [simp del]

definition unicode_charcount :: "int \<Rightarrow> byte list \<Rightarrow> nat \<Rightarrow> bool \<Rightarrow> nat res" where
  "unicode_charcount ival s buffersize markup = charcount_loop ival markup s 0 buffersize 0"

definition unicode_charofsfrombyteofs :: "int \<Rightarrow> byte list \<Rightarrow> nat \<Rightarrow> bool \<Rightarrow> nat res" where
  "unicode_charofsfrombyteofs ival s byteofs markup = charcount_loop ival markup s 0 byteofs 0"

function byteofs_loop :: "int \<Rightarrow> bool \<Rightarrow> byte list \<Rightarrow> nat \<Rightarrow> nat \<Rightarrow> nat \<Rightarrow> nat res" where
  "byteofs_loop ival markup s i charofs chars =
     (if i < length s then
        (if s ! i = 0 \<or> chars \<ge> charofs then Inr i
         else (case unicode_decode ival markup s i of Inl f \<Rightarrow> Inl f | Inr (uc, error, i') \<Rightarrow>
                 byteofs_loop ival markup s i' charofs (chars + 1)))
      else Inl Out_Of_Bounds)"
  by pat_completeness auto
termination
  by (relation "measure (\<lambda>(ival, markup, s, i, charofs, chars). length s - i)")
    (auto dest!: unicode_decode_forward)

declare byteofs_loop.simps [simp del]

definition unicode_byteofsfromcharofs :: "int \<Rightarrow> byte list \<Rightarrow> nat \<Rightarrow> bool \<Rightarrow> nat res" where
  "unicode_byteofsfromcharofs ival s charofs markup = byteofs_loop ival markup s 0 charofs 0"

text \<open>
  \<open>unicode_strtoupper\<close> and \<open>unicode_strtolower\<close> differ in the C library function \<open>tow\<close> they apply,
  which depends on the locale: it is a parameter.  \<open>outsize - l\<close> is a \<open>size_t\<close> that becomes an
  \<open>int\<close>; \<open>l\<close> is the length of the last character written.
\<close>

definition recase :: "(int32 \<Rightarrow> int32) \<Rightarrow> int32 \<Rightarrow> int32" where
  "recase tow c = (if c \<ge> 0xe020 \<and> c \<le> 0xe07f then tow (c AND 0x7f) + (c AND 0xff80) else tow c)"

function recase_loop ::
  "int \<Rightarrow> bool \<Rightarrow> (int32 \<Rightarrow> int32) \<Rightarrow> byte list \<Rightarrow> nat \<Rightarrow> byte list \<Rightarrow> nat \<Rightarrow> nat \<Rightarrow> u64 \<Rightarrow>
   (byte list \<times> nat \<times> nat) run" where
  "recase_loop ival markup tow s i out pos l outsize =
     (case peek s i of Inl f \<Rightarrow> Some (Inl f) | Inr c \<Rightarrow>
        if c = 0 then Some (Inr (out, pos, l))
        else (case unicode_decode ival markup s i of Inl f \<Rightarrow> Some (Inl f) | Inr (c, error, i') \<Rightarrow>
          (case unicode_encode ival out pos (recase tow c) (ucast (outsize - word_of_nat l)) markup of
             None \<Rightarrow> None
           | Some (Inl f) \<Rightarrow> Some (Inl f)
           | Some (Inr (out, l)) \<Rightarrow> recase_loop ival markup tow s i' out (pos + l) l outsize)))"
  by pat_completeness auto
termination
  by (relation "measure (\<lambda>(ival, markup, tow, s, i, out, pos, l, outsize). length s - i)")
    (auto dest!: unicode_decode_forward simp: peek_def split: if_splits)

declare recase_loop.simps [simp del]

definition unicode_recase ::
  "int \<Rightarrow> (int32 \<Rightarrow> int32) \<Rightarrow> byte list \<Rightarrow> byte list \<Rightarrow> nat \<Rightarrow> bool \<Rightarrow> (byte list \<times> nat) run" where
  "unicode_recase ival tow s out outsize markup =
     run_bind (recase_loop ival markup tow s 0 out 0 0 (word_of_nat outsize - 1)) (\<lambda>(out, pos, l).
       Some (rbind (poke pos 0 out) (\<lambda>out. Inr (out, l))))"

definition unicode_strtoupper ::
  "int \<Rightarrow> (int32 \<Rightarrow> int32) \<Rightarrow> byte list \<Rightarrow> byte list \<Rightarrow> nat \<Rightarrow> bool \<Rightarrow> (byte list \<times> nat) run" where
  "unicode_strtoupper ival towupper s out outsize markup = unicode_recase ival towupper s out outsize markup"

definition unicode_strtolower ::
  "int \<Rightarrow> (int32 \<Rightarrow> int32) \<Rightarrow> byte list \<Rightarrow> byte list \<Rightarrow> nat \<Rightarrow> bool \<Rightarrow> (byte list \<times> nat) run" where
  "unicode_strtolower ival towlower s out outsize markup = unicode_recase ival towlower s out outsize markup"

section \<open>How many bytes a character takes\<close>

lemma utf8_size_step:
  "unicode < lim \<Longrightarrow> utf8_size unicode b lim = Some b"
  "lim \<le> unicode \<Longrightarrow> utf8_size unicode b lim = utf8_size unicode (b + 1)
     (if b = 1 then push_bit 4 lim else if b < 7 then push_bit 5 lim else push_bit 6 lim)"
  by (subst utf8_size.simps, simp only: not_le [symmetric] if_False if_True)+

lemma utf8_size_values:
  "u < 0x80 \<Longrightarrow> utf8_size u 1 0x80 = Some 1"
  "0x80 \<le> u \<Longrightarrow> u < 0x800 \<Longrightarrow> utf8_size u 1 0x80 = Some 2"
  "0x800 \<le> u \<Longrightarrow> u < 0x10000 \<Longrightarrow> utf8_size u 1 0x80 = Some 3"
  "0x10000 \<le> u \<Longrightarrow> u < 0x200000 \<Longrightarrow> utf8_size u 1 0x80 = Some 4"
  "0x200000 \<le> u \<Longrightarrow> u < 0x4000000 \<Longrightarrow> utf8_size u 1 0x80 = Some 5"
  "0x4000000 \<le> u \<Longrightarrow> u < 0x80000000 \<Longrightarrow> utf8_size u 1 0x80 = Some 6"
  by (simp_all add: utf8_size_step word_le_nat_alt word_less_nat_alt)

text \<open>With \<open>lim\<close> shifted out the loop never ends: its value is the least fixed point.\<close>

lemma utf8_size_zero: "utf8_size u b 0 = None"
proof -
  have "lim \<noteq> 0" if "utf8_size u b lim = Some r" for lim r
  proof (rule utf8_size.raw_induct [where P = "\<lambda>_ _ lim _. lim \<noteq> 0", OF _ that])
    fix f :: "int32 \<Rightarrow> nat \<Rightarrow> int32 \<Rightarrow> nat option" and u b l r
    assume IH: "\<And>u b l r. f u b l = Some r \<Longrightarrow> l \<noteq> 0"
      and eq: "(if l \<le> u then f u (b + 1) (if b = 1 then push_bit 4 l else if b < 7 then push_bit 5 l
        else push_bit 6 l) else Some b) = Some r"
    show "l \<noteq> 0"
    proof
      assume "l = 0"
      with eq have "f u (b + 1) 0 = Some r" by (simp split: if_splits)
      from IH [OF this] show False by simp
    qed
  qed
  then show ?thesis by (cases "utf8_size u b 0") auto
qed

section \<open>The reference encoding\<close>

definition utf8_cont :: "int32 \<Rightarrow> nat \<Rightarrow> byte" where
  "utf8_cont u k = 0x80 OR ucast (drop_bit k u AND 0x3f)"

definition utf8 :: "int32 \<Rightarrow> byte list" where
  "utf8 u =
     (if u = 0 then [0xc0, 0x80]
      else if u < 0x80 then [ucast u]
      else if u < 0x800 then [0xc0 OR ucast (drop_bit 6 u), utf8_cont u 0]
      else if u < 0x10000 then [0xe0 OR ucast (drop_bit 12 u), utf8_cont u 6, utf8_cont u 0]
      else [0xf0 OR ucast (drop_bit 18 u), utf8_cont u 12, utf8_cont u 6, utf8_cont u 0])"

definition scalar :: "int32 \<Rightarrow> bool" where
  "scalar u \<longleftrightarrow> u \<le> 0x10ffff \<and> \<not> (0xd800 \<le> u \<and> u < 0xe000) \<and> u \<noteq> 0xfffe \<and> u \<noteq> 0xffff"

lemma no_high_bit: "u < 2 ^ k \<Longrightarrow> k \<le> n \<Longrightarrow> \<not> bit u n" for u :: int32
proof
  assume u: "u < 2 ^ k" and n: "k \<le> n" and b: "bit u n"
  then have k: "k < 32" using bit_imp_le_length [OF b] by simp
  then have "unat u < 2 ^ k" using u word_less_pow2 [of k u] by simp
  then have "take_bit k (unat u) = unat u" by (simp add: take_bit_nat_eq_self)
  then have "take_bit k u = u" by (metis unsigned_take_bit_eq word_unat_eq_iff)
  then have "bit (take_bit k u) n" using b by simp
  with n show False by (simp add: bit_take_bit_iff)
qed

lemma byte_masks:
  "(0x80 :: byte) = push_bit 7 (mask 1)" "(0xc0 :: byte) = push_bit 6 (mask 2)"
  "(0xe0 :: byte) = push_bit 5 (mask 3)" "(0xf0 :: byte) = push_bit 4 (mask 4)"
  "(0xf8 :: byte) = push_bit 3 (mask 5)"
  by (simp_all add: mask_eq_exp_minus_1)

lemma int_masks:
  "(0x3f :: int32) = mask 6" "(0x7f :: int32) = mask 7" "(0x1f :: int32) = mask 5"
  "(0x0f :: int32) = mask 4" "(0x07 :: int32) = mask 3"
  by (simp_all add: mask_eq_exp_minus_1)

lemma bit_128_int [simp]: "bit (128 :: int) n \<longleftrightarrow> n = 7"
proof -
  have "(128 :: int) = push_bit 7 1" by simp
  then show ?thesis by (simp only: bit_push_bit_iff bit_1_iff) auto
qed

lemma utf8_cont_ok:
  "utf8_cont u k AND 0xc0 = 0x80" "(ucast (utf8_cont u k) :: int32) AND 0x3f = drop_bit k u AND 0x3f"
proof -
  show "utf8_cont u k AND 0xc0 = 0x80"
    unfolding utf8_cont_def byte_masks int_masks
    by (rule bit_word_eqI, drule lt8_cases, elim disjE; simp add: bit_simps del: bit_0)
  show "(ucast (utf8_cont u k) :: int32) AND 0x3f = drop_bit k u AND 0x3f"
  proof (rule bit_word_eqI)
    fix n :: nat
    have "bit (ucast (utf8_cont u k) :: int32) n \<longleftrightarrow> bit (drop_bit k u) n" if "n < 6"
      using that unfolding utf8_cont_def int_masks by (auto simp: bit_simps)
    then show "bit ((ucast (utf8_cont u k) :: int32) AND 0x3f) n = bit (drop_bit k u AND 0x3f) n"
      unfolding int_masks by (auto simp: bit_simps)
  qed
qed

lemma utf8_cont_put: "ucast (drop_bit k u AND 0x3f) OR 0x80 = utf8_cont u k"
  by (simp add: utf8_cont_def or.commute)

text \<open>The lead bytes: their length code, and their payload.\<close>

lemma utf8_lead2:
  assumes "u < 0x800"
  defines "b \<equiv> 0xc0 OR ucast (drop_bit 6 u) :: byte"
  shows "b AND 0xe0 = 0xc0" and "push_bit 6 ((ucast b :: int32) AND 0x1f) OR (drop_bit 0 u AND 0x3f) = u"
    and "ucast (drop_bit 6 u AND 0x1f) OR 0xc0 = b"
proof -
  have n: "\<not> bit u n" if "11 \<le> n" for n using no_high_bit [of u 11 n] assms(1) that by simp
  then have lt: "bit u n \<Longrightarrow> n < 11" for n by (meson not_le)
  show "b AND 0xe0 = 0xc0" "ucast (drop_bit 6 u AND 0x1f) OR 0xc0 = b"
    unfolding b_def byte_masks int_masks
    by (rule bit_word_eqI, drule lt8_cases, elim disjE; simp add: bit_simps n del: bit_0)+
  show "push_bit 6 ((ucast b :: int32) AND 0x1f) OR (drop_bit 0 u AND 0x3f) = u"
    unfolding b_def byte_masks int_masks
    by (rule bit_word_eqI) (auto simp: bit_simps dest: lt)
qed

lemma utf8_lead3:
  assumes "u < 0x10000"
  defines "b \<equiv> 0xe0 OR ucast (drop_bit 12 u) :: byte"
  shows "b AND 0xe0 \<noteq> 0xc0" and "b AND 0xf0 = 0xe0"
    and "push_bit 12 ((ucast b :: int32) AND 0x0f) OR push_bit 6 (drop_bit 6 u AND 0x3f) OR (drop_bit 0 u AND 0x3f) = u"
    and "ucast (drop_bit 12 u AND 0x0f) OR 0xe0 = b"
proof -
  have n: "\<not> bit u n" if "16 \<le> n" for n using no_high_bit [of u 16 n] assms(1) that by simp
  then have lt: "bit u n \<Longrightarrow> n < 16" for n by (meson not_le)
  show "b AND 0xf0 = 0xe0" "ucast (drop_bit 12 u AND 0x0f) OR 0xe0 = b"
    unfolding b_def byte_masks int_masks
    by (rule bit_word_eqI, drule lt8_cases, elim disjE; simp add: bit_simps n del: bit_0)+
  have "bit (b AND 0xe0) 5 \<noteq> bit (0xc0 :: byte) 5"
    unfolding b_def byte_masks by (simp add: bit_simps)
  then show "b AND 0xe0 \<noteq> 0xc0" by auto
  show "push_bit 12 ((ucast b :: int32) AND 0x0f) OR push_bit 6 (drop_bit 6 u AND 0x3f) OR (drop_bit 0 u AND 0x3f) = u"
  proof (rule bit_word_eqI)
    fix n :: nat
    consider "n < 6" | "6 \<le> n" "n < 12" | "12 \<le> n" "n < 16" | "16 \<le> n" by linarith
    then show "bit (push_bit 12 ((ucast b :: int32) AND 0x0f) OR push_bit 6 (drop_bit 6 u AND 0x3f) OR
        (drop_bit 0 u AND 0x3f)) n = bit u n"
      unfolding b_def byte_masks int_masks by cases (simp_all add: bit_simps n, arith+)
  qed
qed

lemma utf8_lead4:
  assumes "u < 0x200000"
  defines "b \<equiv> 0xf0 OR ucast (drop_bit 18 u) :: byte"
  shows "b AND 0xe0 \<noteq> 0xc0" and "b AND 0xf0 \<noteq> 0xe0" and "b AND 0xf8 = 0xf0"
    and "push_bit 18 ((ucast b :: int32) AND 0x07) OR push_bit 12 (drop_bit 12 u AND 0x3f) OR
      push_bit 6 (drop_bit 6 u AND 0x3f) OR (drop_bit 0 u AND 0x3f) = u"
    and "ucast (drop_bit 18 u AND 0x07) OR 0xf0 = b"
proof -
  have n: "\<not> bit u n" if "21 \<le> n" for n using no_high_bit [of u 21 n] assms(1) that by simp
  then have lt: "bit u n \<Longrightarrow> n < 21" for n by (meson not_le)
  show "b AND 0xf8 = 0xf0" "ucast (drop_bit 18 u AND 0x07) OR 0xf0 = b"
    unfolding b_def byte_masks int_masks
    by (rule bit_word_eqI, drule lt8_cases, elim disjE; simp add: bit_simps n del: bit_0)+
  have "bit (b AND 0xe0) 5 \<noteq> bit (0xc0 :: byte) 5" "bit (b AND 0xf0) 4 \<noteq> bit (0xe0 :: byte) 4"
    unfolding b_def byte_masks by (simp_all add: bit_simps)
  then show "b AND 0xe0 \<noteq> 0xc0" "b AND 0xf0 \<noteq> 0xe0" by auto
  show "push_bit 18 ((ucast b :: int32) AND 0x07) OR push_bit 12 (drop_bit 12 u AND 0x3f) OR
      push_bit 6 (drop_bit 6 u AND 0x3f) OR (drop_bit 0 u AND 0x3f) = u"
  proof (rule bit_word_eqI)
    fix n :: nat
    consider "n < 6" | "6 \<le> n" "n < 12" | "12 \<le> n" "n < 18" | "18 \<le> n" "n < 21" | "21 \<le> n" by linarith
    then show "bit (push_bit 18 ((ucast b :: int32) AND 0x07) OR push_bit 12 (drop_bit 12 u AND 0x3f) OR
        push_bit 6 (drop_bit 6 u AND 0x3f) OR (drop_bit 0 u AND 0x3f)) n = bit u n"
      unfolding b_def byte_masks int_masks by cases (simp_all add: bit_simps n, arith+)
  qed
qed

lemma utf8_length: "length (utf8 u) \<le> 4" "utf8 u \<noteq> []"
  by (simp_all add: utf8_def)

lemma utf8_lead_const:
  "ucast (drop_bit 2 (0xffffff00 :: int32) AND 0xff) = (0xc0 :: byte)" "drop_bit 2 (0x7f :: int32) = 0x1f"
  "ucast (drop_bit 3 (0xffffff00 :: int32) AND 0xff) = (0xe0 :: byte)" "drop_bit 3 (0x7f :: int32) = 0x0f"
  "ucast (drop_bit 4 (0xffffff00 :: int32) AND 0xff) = (0xf0 :: byte)" "drop_bit 4 (0x7f :: int32) = 0x07"
  "[0..<2] = [0, 1]" "[0..<3] = [0, 1, 2]"
  by code_simp+

lemma utf8_put_conts_pokes:
  "utf8_put_conts out pos u n = pokes pos (map (\<lambda>k. utf8_cont u (6 * k)) (rev [0..<n])) out"
  by (induction n arbitrary: out pos) (simp_all add: utf8_cont_put)

definition utf8_bytes :: "int32 \<Rightarrow> nat \<Rightarrow> byte list" where
  "utf8_bytes u b =
     (if b = 1 then [ucast (u AND 0x7f)]
      else (ucast (drop_bit (6 * (b - 1)) u AND drop_bit b 0x7f) OR
            ucast (drop_bit b (0xffffff00 :: int32) AND 0xff)) # map (\<lambda>k. utf8_cont u (6 * k)) (rev [0..<b - 1]))"

lemma utf8_encode_bytes:
  assumes "(if u = 0 then Some 2 else utf8_size u 1 0x80) = Some b"
  shows "utf8_encode out pos u maxlen = Some (if maxlen < word_of_nat b then Inr (out, 0)
    else rbind (pokes pos (utf8_bytes u b) out) (\<lambda>out. Inr (out, b)))"
  using assms by (simp add: utf8_encode_def utf8_bytes_def utf8_put_conts_pokes rbind_assoc)

lemma utf8_bytes_eq:
  assumes "u \<le> 0x10ffff"
  obtains b where "(if u = 0 then Some 2 else utf8_size u 1 0x80) = Some b" and "b = length (utf8 u)"
    and "utf8_bytes u b = utf8 u"
proof -
  consider "u = 0" | "u \<noteq> 0" "u < 0x80" | "0x80 \<le> u" "u < 0x800" | "0x800 \<le> u" "u < 0x10000" |
    "0x10000 \<le> u" "u < 0x200000"
    using assms by (force simp: word_le_nat_alt word_less_nat_alt)
  then show ?thesis
  proof cases
    case 1
    moreover have "utf8_bytes 0 2 = [0xc0, 0x80]"
      by (simp add: utf8_bytes_def utf8_lead_const utf8_cont_def)
    ultimately show ?thesis by (intro that [of 2]) (simp_all add: utf8_def)
  next
    case 2
    have "\<not> bit u n" if "7 \<le> n" for n using no_high_bit [of u 7 n] 2(2) that by simp
    then have "bit u n \<Longrightarrow> n < 7" for n by (meson not_le)
    then have "ucast (u AND 0x7f) = (ucast u :: byte)"
      unfolding int_masks by (intro bit_word_eqI) (auto simp: bit_simps)
    with 2 utf8_size_values(1) [OF 2(2)] show ?thesis
      by (intro that [of 1]) (simp_all add: utf8_def utf8_bytes_def)
  next
    case 3
    then have "u \<noteq> 0" "\<not> u < 0x80" by (auto simp: not_less)
    moreover have "utf8_bytes u 2 = [0xc0 OR ucast (drop_bit 6 u), utf8_cont u 0]"
      using utf8_lead2(3) [OF 3(2)] by (simp add: utf8_bytes_def utf8_lead_const)
    ultimately show ?thesis
      using 3 utf8_size_values(2) [OF 3] by (intro that [of 2]) (simp_all add: utf8_def)
  next
    case 4
    then have "u \<noteq> 0" "\<not> u < 0x80" "\<not> u < 0x800" by (auto simp: word_le_nat_alt word_less_nat_alt)
    moreover have "utf8_bytes u 3 = [0xe0 OR ucast (drop_bit 12 u), utf8_cont u 6, utf8_cont u 0]"
      using utf8_lead3(4) [OF 4(2)] by (simp add: utf8_bytes_def utf8_lead_const)
    ultimately show ?thesis
      using 4 utf8_size_values(3) [OF 4] by (intro that [of 3]) (simp_all add: utf8_def)
  next
    case 5
    then have "u \<noteq> 0" "\<not> u < 0x80" "\<not> u < 0x800" "\<not> u < 0x10000"
      by (auto simp: word_le_nat_alt word_less_nat_alt)
    moreover have "utf8_bytes u 4 = [0xf0 OR ucast (drop_bit 18 u), utf8_cont u 12, utf8_cont u 6, utf8_cont u 0]"
      using utf8_lead4(5) [OF 5(2)] by (simp add: utf8_bytes_def utf8_lead_const)
    ultimately show ?thesis
      using 5 utf8_size_values(4) [OF 5] by (intro that [of 4]) (simp_all add: utf8_def)
  qed
qed

text \<open>The two ways of filling in: with room the bytes of the character, without it nothing.\<close>

lemma utf8_encode_eq:
  assumes u: "u \<le> 0x10ffff" and room: "pos + length (utf8 u) \<le> length out"
  shows "utf8_encode out pos u maxlen =
    (if maxlen < word_of_nat (length (utf8 u)) then Some (Inr (out, 0))
     else Some (Inr (take pos out @ utf8 u @ drop (pos + length (utf8 u)) out, length (utf8 u))))"
proof -
  obtain b where b: "(if u = 0 then Some 2 else utf8_size u 1 0x80) = Some b" "b = length (utf8 u)"
    "utf8_bytes u b = utf8 u" by (rule utf8_bytes_eq [OF u])
  show ?thesis
    unfolding utf8_encode_bytes [OF b(1)] b(3) pokes_Inr [OF room] using b(2) by simp
qed

lemma utf8_conts_unroll:
  "utf8_conts s i 2 = rbind (peek s i) (\<lambda>c. if c AND 0xc0 = 0x80 then utf8_conts s (i + 1) 1 else Inr False)"
  "utf8_conts s i 3 = rbind (peek s i) (\<lambda>c. if c AND 0xc0 = 0x80 then utf8_conts s (i + 1) 2 else Inr False)"
  by (simp_all only: numeral_2_eq_2 numeral_3_eq_3 One_nat_def utf8_conts.simps)

lemma utf8_tail_unroll:
  "utf8_tail s i 2 v = rbind (peek s i) (\<lambda>c. utf8_tail s (i + 1) 1 (v OR push_bit 6 (ucast c AND 0x3f)))"
  "utf8_tail s i 3 v = rbind (peek s i) (\<lambda>c. utf8_tail s (i + 1) 2 (v OR push_bit 12 (ucast c AND 0x3f)))"
  by (simp_all add: numeral_2_eq_2 numeral_3_eq_3)

lemma utf8_decode_eq:
  assumes "scalar u" and s: "drop i s = utf8 u @ r"
  shows "utf8_decode s i = Inr (u, 0, i + length (utf8 u))"
proof -
  have pk: "peek s (i + k) = peek (utf8 u @ r) k" for k by (simp add: peek_drop [symmetric] s)
  have nums: "Suc (Suc 0) = 2" "Suc 2 = 3" by simp_all
  have u: "u \<le> 0x10ffff" "\<not> (0xd800 \<le> u \<and> u < 0xdc00)" "\<not> (0xdc00 \<le> u \<and> u < 0xe000)" "\<not> 0x10ffff < u"
    using assms(1) by (auto simp: scalar_def word_le_nat_alt word_less_nat_alt)
  consider "u = 0" | "u \<noteq> 0" "u < 0x80" | "0x80 \<le> u" "u < 0x800" | "0x800 \<le> u" "u < 0x10000" |
    "0x10000 \<le> u" "u < 0x200000"
    using u(1) by (force simp: word_le_nat_alt word_less_nat_alt)
  then have "utf8_lead s i = Inr (u, length (utf8 u), 0)"
  proof cases
    case 1
    then show ?thesis using pk [of 0] pk [of 1]
      by (simp add: utf8_def utf8_lead_def utf8_long_def utf8_bits_def nums peek_def)
  next
    case 2
    have n: "\<not> bit u n" if "7 \<le> n" for n using no_high_bit [of u 7 n] 2(2) that by simp
    let ?c = "ucast u :: byte"
    have b7: "\<not> bit ?c 7" using n [of 7] by (simp add: bit_simps)
    have m: "?c AND x \<noteq> y" if "bit y 7" for x y
      using that b7 by (metis bit_and_iff)
    have top: "bit (0xc0 :: byte) 7" "bit (0xe0 :: byte) 7" "bit (0xf0 :: byte) 7" "bit (0xf8 :: byte) 7"
      "bit (0xfc :: byte) 7"
      by code_simp+
    have "?c AND 0x80 = 0"
      using b7 unfolding byte_masks
      by (intro bit_word_eqI, drule_tac lt8_cases) (auto simp: bit_simps)
    moreover have "(ucast ?c :: int32) = u"
    proof (rule bit_word_eqI)
      fix k :: nat
      show "bit (ucast ?c :: int32) k = bit u k" using n [of k] by (cases "k < 7") (simp_all add: bit_simps)
    qed
    ultimately show ?thesis using 2 pk [of 0] m [OF top(1)] m [OF top(2)] m [OF top(3)] m [OF top(4)] m [OF top(5)]
      by (simp add: utf8_def utf8_lead_def peek_def)
  next
    case 3
    have "utf8 u = [0xc0 OR ucast (drop_bit 6 u), utf8_cont u 0]"
      using 3 by (auto simp: utf8_def not_less)
    then show ?thesis using pk [of 0] pk [of 1] utf8_lead2(1,2) [OF 3(2)] 3 utf8_cont_ok
      by (simp add: utf8_lead_def utf8_long_def utf8_bits_def nums peek_def)
  next
    case 4
    have "utf8 u = [0xe0 OR ucast (drop_bit 12 u), utf8_cont u 6, utf8_cont u 0]"
      using 4 by (auto simp: utf8_def word_le_nat_alt word_less_nat_alt)
    then show ?thesis using pk [of 0] pk [of 1] pk [of 2] utf8_lead3(1-3) [OF 4(2)] 4 utf8_cont_ok
      by (simp add: utf8_lead_def utf8_long_def utf8_bits_def utf8_conts_unroll utf8_tail_unroll or.assoc
        del: push_bit_and)
  next
    case 5
    have "utf8 u = [0xf0 OR ucast (drop_bit 18 u), utf8_cont u 12, utf8_cont u 6, utf8_cont u 0]"
      using 5 by (auto simp: utf8_def word_le_nat_alt word_less_nat_alt)
    then show ?thesis using pk [of 0] pk [of 1] pk [of 2] pk [of "Suc (Suc (Suc 0))"] utf8_lead4(1-4) [OF 5(2)] 5 utf8_cont_ok
      by (simp add: utf8_lead_def utf8_long_def utf8_bits_def utf8_conts_unroll utf8_tail_unroll or.assoc
        del: push_bit_and)
  qed
  then show ?thesis
    using u assms(1) by (auto simp: utf8_decode.simps [of s i] scalar_def)
qed

lemma utf8_size_total: "utf8_size u 1 0x80 = None \<longleftrightarrow> 0x80000000 \<le> u"
proof (cases "0x80000000 \<le> u")
  case True
  then have "0x80 \<le> u" "0x800 \<le> u" "0x10000 \<le> u" "0x200000 \<le> u" "0x4000000 \<le> u"
    by (simp_all add: word_le_nat_alt)
  note le = this [THEN utf8_size_step(2)] True [THEN utf8_size_step(2)]
  have "utf8_size u 1 0x80 = utf8_size u 7 0"
  proof -
    have "utf8_size u 1 0x80 = utf8_size u 2 0x800" using le(1) [of 1] by (simp add: numeral_2_eq_2)
    moreover have "(68719476736 :: int32) = 0" by simp
    ultimately show ?thesis
      using le(2) [of 2] le(3) [of 3] le(4) [of 4] le(5) [of 5] le(6) [of 6] by simp
  qed
  with True show ?thesis by (simp add: utf8_size_zero)
next
  case False
  then consider "u < 0x80" | "0x80 \<le> u" "u < 0x800" | "0x800 \<le> u" "u < 0x10000" |
    "0x10000 \<le> u" "u < 0x200000" | "0x200000 \<le> u" "u < 0x4000000" | "0x4000000 \<le> u" "u < 0x80000000"
    by (force simp: word_le_nat_alt word_less_nat_alt)
  then have "utf8_size u 1 0x80 \<noteq> None"
    by cases (simp_all only: utf8_size_values option.distinct not_False_eq_True)
  with False show ?thesis by simp
qed

section \<open>Whole strings\<close>

definition utf8_text :: "int32 list \<Rightarrow> byte list" where
  "utf8_text us = concat (map utf8 us)"

lemma utf8_text_simps [simp]: "utf8_text [] = []" "utf8_text (u # us) = utf8 u @ utf8_text us"
  by (simp_all add: utf8_text_def)

lemma utf8_no_nul: "u \<le> 0x10ffff \<Longrightarrow> 0 \<notin> set (utf8 u)"
proof -
  assume u: "u \<le> 0x10ffff"
  have c: "0 \<noteq> utf8_cont u k" for k using utf8_cont_ok(1) [of u k] by auto
  have a: "0 \<noteq> (ucast u :: byte)" if "u \<noteq> 0" "u < 0x80"
  proof
    have n: "\<not> bit u n" if "7 \<le> n" for n using no_high_bit [of u 7 n] \<open>u < 0x80\<close> that by simp
    assume z: "0 = (ucast u :: byte)"
    have "u = 0"
    proof (rule bit_word_eqI)
      fix k :: nat
      have "bit (ucast u :: byte) k \<longleftrightarrow> bit u k" if "k < 7" using that by (simp add: bit_simps)
      then show "bit u k = bit (0 :: int32) k" using n [of k] z by (cases "k < 7") simp_all
    qed
    with that show False by simp
  qed
  have top: "0 \<noteq> y OR x" if "bit y 7" for x y :: byte
  proof
    assume "0 = y OR x"
    then have "bit (y OR x) 7 = bit (0 :: byte) 7" by simp
    with that show False by (simp add: bit_or_iff)
  qed
  have "bit (0xc0 :: byte) 7" "bit (0xe0 :: byte) 7" "bit (0xf0 :: byte) 7" by code_simp+
  note b = this [THEN top]
  show ?thesis using a b c by (simp add: utf8_def)
qed

lemma charcount_text:
  assumes "list_all scalar us" and "drop i s = utf8_text us @ 0 # r" and "0 < ival"
    and "i + length (utf8_text us) \<le> fin"
  shows "charcount_loop ival False s i fin n = Inr (n + length us)"
  using assms
proof (induction us arbitrary: i n)
  case Nil
  then show ?case
    using peek_drop [of i s 0, symmetric] by (simp add: charcount_loop.simps [of ival False s i])
next
  case (Cons u us)
  have d: "utf8_decode s i = Inr (u, 0, i + length (utf8 u))"
    using Cons.prems(1,2) by (intro utf8_decode_eq) simp_all
  have nx: "drop (i + length (utf8 u)) s = utf8_text us @ 0 # r"
    using Cons.prems(2) by (simp add: drop_drop [symmetric] add.commute [of i] del: drop_drop)
  have "peek s i = Inr (hd (utf8 u))" "hd (utf8 u) \<noteq> 0" "i < fin"
    using peek_drop [of i s 0, symmetric] Cons.prems(1,2,4) utf8_no_nul [of u] utf8_length(2) [of u]
    by (cases "utf8 u"; force simp: scalar_def)+
  then show ?case
    using Cons.IH [OF _ nx, of "n + 1"] Cons.prems d
    by (simp add: charcount_loop.simps [of ival False s i] unicode_decode_def)
qed

lemma ucast_word_of_nat64: "(ucast (word_of_nat n :: u64) :: int32) = word_of_nat n"
  by transfer simp

definition plain :: "int32 \<Rightarrow> bool" where
  "plain c \<longleftrightarrow> 32 \<le> c \<and> c < 128"

lemma recase_plain:
  assumes "list_all (\<lambda>c. plain (ucast c)) t" and "drop i s = t @ 0 # r"
    and tow: "\<And>c. plain c \<Longrightarrow> plain (tow c)"
    and m: "\<And>k. k \<le> 1 \<Longrightarrow> \<not> ucast (m - word_of_nat k) <s (1 :: int32)" and "l \<le> 1"
  shows "recase_loop 0 False tow s i out pos l m =
    Some (if pos + length t \<le> length out
      then Inr (take pos out @ map (\<lambda>c. ucast (tow (ucast c))) t @ drop (pos + length t) out,
                pos + length t, if t = [] then l else 1)
      else if t = [] then Inr (out, pos, l) else Inl Out_Of_Bounds)"
  using assms(1,2,5)
proof (induction t arbitrary: i out pos l)
  case Nil
  then show ?case
    using peek_drop [of i s 0, symmetric] by (simp add: recase_loop.simps [of 0 False tow s i])
next
  case (Cons c t)
  let ?d = "tow (ucast c)"
  have nx: "drop (i + 1) s = t @ 0 # r"
    using Cons.prems(2) by (simp add: drop_Suc tl_drop [symmetric])
  have c: "plain (ucast c)" "plain ?d" using Cons.prems(1) tow by simp_all
  have "c \<noteq> 0" using c(1) by (auto simp: plain_def)
  moreover have "unicode_decode 0 False s i = Inr (ucast c, 0, i + 1)"
    using peek_drop [of i s 0, symmetric] Cons.prems(2) c(1)
    by (auto simp: unicode_decode_def plain_def Let_def word_le_nat_alt word_less_nat_alt)
  moreover have "recase tow (ucast c) = ?d"
    using c(1) by (auto simp: recase_def plain_def word_le_nat_alt word_less_nat_alt)
  moreover have "unicode_encode 0 out pos ?d x False = Some (rbind (poke pos (ucast ?d) out) (\<lambda>out. Inr (out, 1)))"
    if "\<not> x <s 1" for x
    using c(2) that by (auto simp: unicode_encode_def qchar_encode_def qchar_compatible_def plain_def)
  moreover note m [OF Cons.prems(3)] peek_drop [of i s 0, symmetric] Cons.prems(2)
  ultimately have "recase_loop 0 False tow s i out pos l m =
      (case poke pos (ucast ?d) out of Inl f \<Rightarrow> Some (Inl f)
       | Inr out \<Rightarrow> recase_loop 0 False tow s (i + 1) out (pos + 1) 1 m)"
    by (simp add: recase_loop.simps [of 0 False tow s i] split: sum.split)
  moreover have "recase_loop 0 False tow s (i + 1) o2 (pos + 1) 1 m =
      Some (if pos + 1 + length t \<le> length o2
        then Inr (take (pos + 1) o2 @ map (\<lambda>c. ucast (tow (ucast c))) t @ drop (pos + 1 + length t) o2,
                  pos + 1 + length t, if t = [] then 1 else 1)
        else if t = [] then Inr (o2, pos + 1, 1) else Inl Out_Of_Bounds)" for o2
    using Cons.prems(1) by (intro Cons.IH [OF _ nx]) simp_all
  ultimately show ?case
    by (cases "pos < length out")
      (auto simp: upd_splice poke_def Suc_le_eq add.commute [of pos "length t"])
qed

text \<open>A lead byte of six with four continuation bytes: the code does not look at the sixth.\<close>

definition six_lead :: "byte \<Rightarrow> bool" where
  "six_lead a \<longleftrightarrow> a AND 0xfe = 0xfc"

definition is_cont :: "byte \<Rightarrow> bool" where
  "is_cont c \<longleftrightarrow> c AND 0xc0 = 0x80"

lemma six_lead_bits: "six_lead a \<Longrightarrow> a AND 0xe0 \<noteq> 0xc0 \<and> a AND 0xf0 \<noteq> 0xe0 \<and> a AND 0xf8 \<noteq> 0xf0 \<and> a AND 0xfc \<noteq> 0xf8 \<and> a \<noteq> 0"
proof -
  assume "six_lead a"
  then have b: "bit (a AND 0xfe) n = bit (0xfc :: byte) n" for n by (simp add: six_lead_def)
  have k: "bit (0xfc :: byte) 5" "bit (0xfc :: byte) 4" "bit (0xfc :: byte) 3" "bit (0xfc :: byte) 2"
    "\<not> bit (0xc0 :: byte) 5" "\<not> bit (0xe0 :: byte) 4" "\<not> bit (0xf0 :: byte) 3" "\<not> bit (0xf8 :: byte) 2"
    "bit (0xe0 :: byte) 5" "bit (0xf0 :: byte) 4" "bit (0xf8 :: byte) 3" "bit (0xfc :: byte) 2"
    by code_simp+
  have a: "bit a 5" "bit a 4" "bit a 3" "bit a 2"
    using b [of 5] b [of 4] b [of 3] b [of 2] k by (simp_all add: bit_and_iff)
  then have "bit (a AND 0xe0) 5 \<noteq> bit (0xc0 :: byte) 5" "bit (a AND 0xf0) 4 \<noteq> bit (0xe0 :: byte) 4"
    "bit (a AND 0xf8) 3 \<noteq> bit (0xf0 :: byte) 3" "bit (a AND 0xfc) 2 \<noteq> bit (0xf8 :: byte) 2" "a \<noteq> 0"
    using k by (auto simp: bit_and_iff)
  then show ?thesis by metis
qed

lemma utf8_six:
  assumes "six_lead a" and "is_cont b" and "is_cont c" and "is_cont d" and "is_cont e"
  shows "\<exists>uc. utf8_decode (a # b # c # d # e # f # r) 0 = Inr (uc, 2, 6)"
proof -
  note six_lead_bits [OF assms(1)]
  moreover have "\<exists>uc. utf8_long (a # b # c # d # e # f # r) 0 4 6 1 (2 ^ 26) = Inr (uc, 6, if 2 ^ 26 \<le> uc then 0 else 2)"
    using assms(2-5) by (simp add: utf8_long_def utf8_bits_def is_cont_def eval_nat_numeral)
  ultimately obtain uc where "utf8_lead (a # b # c # d # e # f # r) 0 = Inr (uc, 6, if 2 ^ 26 \<le> uc then 0 else 2)"
    using assms(1) by (auto simp: utf8_lead_def six_lead_def)
  then show ?thesis
    by (auto simp: utf8_decode.simps [of _ 0] Let_def word_le_nat_alt word_less_nat_alt)
qed

section \<open>Properties\<close>

text \<open>C38: every Unicode scalar value that the code accepts (and the null character in its modified
  two-byte form) is written by \<open>utf8_encode\<close> so that \<open>utf8_decode\<close> reads it back without an error and
  stops right behind it.\<close>

theorem utf8_roundtrip:
  assumes "scalar u" and "pos + 4 \<le> length out" and "\<not> maxlen < 4"
  shows "\<exists>out' n. utf8_encode out pos u maxlen = Some (Inr (out', n)) \<and> n \<le> 4 \<and>
    length out' = length out \<and> take pos out' = take pos out \<and> utf8_decode out' pos = Inr (u, 0, pos + n)"
proof -
  let ?n = "length (utf8 u)"
  have n: "?n \<le> 4" by (rule utf8_length)
  have "unat (word_of_nat ?n :: int32) = ?n" using n by (simp add: unsigned_of_nat take_bit_nat_eq_self)
  then have "\<not> maxlen < word_of_nat ?n" using n assms(3) by (simp add: word_less_nat_alt)
  then have "utf8_encode out pos u maxlen =
      Some (Inr (take pos out @ utf8 u @ drop (pos + ?n) out, ?n))"
    using utf8_encode_eq [of u pos out maxlen] assms(1,2) n by (simp add: scalar_def)
  moreover have "utf8_decode (take pos out @ utf8 u @ drop (pos + ?n) out) pos = Inr (u, 0, pos + ?n)"
    using assms(2) by (intro utf8_decode_eq [OF assms(1)]) simp
  ultimately show ?thesis using n assms(2) by auto
qed

theorem utf8_roundtrip_witness:
  "\<exists>out' n. utf8_encode [1, 2, 3, 4, 5] 1 0x20ac 4 = Some (Inr (out', n)) \<and> utf8_decode out' 1 = Inr (0x20ac, 0, 1 + n)"
  using utf8_roundtrip [of "0x20ac" 1 "[1, 2, 3, 4, 5]" 4] by (auto simp: scalar_def)

text \<open>\<open>unicode_charcount\<close> of a UTF-8 text of scalar values is the number of its characters.\<close>

theorem utf8_charcount:
  assumes "list_all scalar us" and "0 < ival" and "length (utf8_text us) \<le> n"
  shows "unicode_charcount ival (utf8_text us @ 0 # r) n False = Inr (length us)"
  using charcount_text [OF assms(1) _ assms(2), of 0 "utf8_text us @ 0 # r" r n 0] assms(3)
  by (simp add: unicode_charcount_def)

theorem utf8_charcount_witness:
  "unicode_charcount 1 (utf8_text [0x41, 0, 0x1f600] @ [0]) 100 False = Inr 3"
  using utf8_charcount [of "[0x41, 0, 0x1f600]" 1 100 "[]"] by (simp add: scalar_def utf8_def)

text \<open>\<open>utf8_encode\<close> never returns for a character of \<open>2 ^ 31\<close> or more, and for no other.\<close>

theorem utf8_encode_hangs: "utf8_encode out pos u maxlen = None \<longleftrightarrow> 0x80000000 \<le> u"
  using utf8_size_total [of u] by (cases "u = 0") (auto simp: utf8_encode_def split: option.split)

text \<open>a string whose last character is a six-byte lead byte with only four continuation bytes is read
  past its terminator: the next character is looked for behind the string's memory.\<close>

theorem utf8_overread:
  assumes "six_lead a" and "is_cont b" and "is_cont c" and "is_cont d" and "is_cont e" and "1 \<le> n"
  shows "unicode_byteofsfromcharofs 1 [a, b, c, d, e, 0] n False = Inl Out_Of_Bounds"
  using utf8_six [OF assms(1-5), of 0 "[]"] six_lead_bits [OF assms(1)] assms(6)
  by (auto simp: unicode_byteofsfromcharofs_def byteofs_loop.simps unicode_decode_def)

theorem utf8_overread_witness:
  "unicode_byteofsfromcharofs 1 [0xfc, 0x84, 0x80, 0x80, 0x80, 0] 1 False = Inl Out_Of_Bounds"
  using utf8_overread [of "0xfc" "0x84" "0x80" "0x80" "0x80" 1] by (simp add: six_lead_def is_cont_def)

text \<open>in the Quake code page, and for a case mapping that keeps plain characters plain,
  \<open>unicode_strtoupper\<close> converts a plain text that fits its buffer and returns 1, whatever the length;
  a text that does not fit is written past the end of the buffer.\<close>

theorem strtoupper_plain:
  assumes "list_all (\<lambda>c. plain (ucast c)) t" and tow: "\<And>c. plain c \<Longrightarrow> plain (tow c)"
    and n: "3 \<le> n" "n < 2 ^ 31" and out: "length out = n"
  shows "unicode_strtoupper 0 tow (t @ [0]) out n False =
    Some (if length t < n then
        Inr (map (\<lambda>c. ucast (tow (ucast c))) t @ 0 # drop (Suc (length t)) out, if t = [] then 0 else 1)
      else Inl Out_Of_Bounds)"
proof -
  have m: "\<not> ucast (word_of_nat n - 1 - word_of_nat k :: u64) <s (1 :: int32)" if "k \<le> 1" for k
  proof -
    have "(word_of_nat n - 1 - word_of_nat k :: u64) = word_of_nat (n - 1 - k)"
      using n that by (simp add: of_nat_diff)
    then have "ucast (word_of_nat n - 1 - word_of_nat k :: u64) = (word_of_nat (n - 1 - k) :: int32)"
      by (simp only: ucast_word_of_nat64)
    moreover have "sint (word_of_nat (n - 1 - k) :: int32) = int (n - 1 - k)"
      using n(2) by (simp add: signed_of_nat signed_take_bit_int_eq_self)
    ultimately show ?thesis using n that by (simp add: word_sless_alt)
  qed
  have "recase_loop 0 False tow (t @ [0]) 0 out 0 0 (word_of_nat n - 1) =
    Some (if 0 + length t \<le> length out
      then Inr (take 0 out @ map (\<lambda>c. ucast (tow (ucast c))) t @ drop (0 + length t) out,
                0 + length t, if t = [] then 0 else 1)
      else if t = [] then Inr (out, 0, 0) else Inl Out_Of_Bounds)"
    using assms(1) tow m by (intro recase_plain [where r = "[]"]) simp_all
  then show ?thesis
    using out n by (auto simp: unicode_strtoupper_def unicode_recase_def poke_def list_update_append
        Cons_nth_drop_Suc [symmetric])
qed

theorem strtoupper_plain_witness:
  "unicode_strtoupper 0 (\<lambda>c. if 97 \<le> c \<and> c < 123 then c - 32 else c) [104, 105, 97, 0] [7, 7, 7] 3 False =
    Some (Inl Out_Of_Bounds)"
proof -
  have "plain (if 97 \<le> c \<and> c < 123 then c - 32 else c)" if "plain c" for c
    using that by (auto simp: plain_def word_le_nat_alt word_less_nat_alt unat_sub)
  then show ?thesis
    using strtoupper_plain [of "[104, 105, 97]" "\<lambda>c. if 97 \<le> c \<and> c < 123 then c - 32 else c" 3 "[7, 7, 7]"]
    by (simp add: plain_def)
qed

end
