(* ===== verification/HuffTree.thy ===== *)
theory HuffTree
  imports SizeBuf
begin

text \<open>
  The adaptive half of \<open>engine/common/huff.c\<close>: the tree that grows a leaf at the first use of a
  symbol and keeps its nodes in a list ordered by weight (\<open>huff_swap\<close>, \<open>huff_swaplist\<close>,
  \<open>huff_increment\<close>, \<open>Huff_addRef\<close>), the coding of whole messages with it (\<open>Huff_Compress\<close>,
  \<open>Huff_Decompress\<close>) and of packets with the fixed tree (\<open>Huff_CompressPacket\<close>,
  \<open>Huff_DecompressPacket\<close>).  Following a null pointer is the fault \<open>Null_Deref\<close>.
\<close>

section \<open>Pointers\<close>

definition deref :: "nat option \<Rightarrow> nat res" where
  "deref p = (case p of None \<Rightarrow> Inl Null_Deref | Some i \<Rightarrow> Inr i)"

definition get_node :: "huff_t \<Rightarrow> nat \<Rightarrow> node_t res" where
  "get_node h i = peek (nodeList h) i"

text \<open>\<open>upd_node i f h\<close> is an assignment to fields of node \<open>i\<close>.\<close>

definition upd_node :: "nat \<Rightarrow> (node_t \<Rightarrow> node_t) \<Rightarrow> huff_t \<Rightarrow> huff_t res" where
  "upd_node i f h = rbind (get_node h i) (\<lambda>n. Inr (h\<lparr>nodeList := (nodeList h)[i := f n]\<rparr>))"

definition upd_opt :: "nat option \<Rightarrow> (node_t \<Rightarrow> node_t) \<Rightarrow> huff_t \<Rightarrow> huff_t res" where
  "upd_opt p f h = (case p of None \<Rightarrow> Inr h | Some i \<Rightarrow> upd_node i f h)"

text \<open>\<open>*node->head = v\<close> and the node \<open>*node->head\<close>.\<close>

definition set_cell :: "nat option \<Rightarrow> ppcell \<Rightarrow> huff_t \<Rightarrow> huff_t res" where
  "set_cell c v h = rbind (deref c) (\<lambda>c. rbind (poke c v (nodePtrs h)) (\<lambda>a. Inr (h\<lparr>nodePtrs := a\<rparr>)))"

definition get_cell :: "nat option \<Rightarrow> huff_t \<Rightarrow> ppcell res" where
  "get_cell c h = rbind (deref c) (peek (nodePtrs h))"

definition cell_node :: "ppcell \<Rightarrow> nat res" where
  "cell_node v = (case v of PP_Node i \<Rightarrow> Inr i | PP_Null \<Rightarrow> Inl Null_Deref | PP_Free _ \<Rightarrow> Inl Out_Of_Bounds)"

definition ptr_cell :: "nat option \<Rightarrow> ppcell" where
  "ptr_cell p = (case p of None \<Rightarrow> PP_Null | Some i \<Rightarrow> PP_Node i)"

definition huff_get_ppnode :: "huff_t \<Rightarrow> (nat \<times> huff_t) res" where
  "huff_get_ppnode h = (case freelist h of
     None \<Rightarrow> Inr (blocPtrs h, h\<lparr>blocPtrs := blocPtrs h + 1\<rparr>)
   | Some c \<Rightarrow> rbind (peek (nodePtrs h) c) (\<lambda>v. case v of
       PP_Null \<Rightarrow> Inr (c, h\<lparr>freelist := None\<rparr>)
     | PP_Free nxt \<Rightarrow> Inr (c, h\<lparr>freelist := nxt\<rparr>)
     | PP_Node _ \<Rightarrow> Inl Out_Of_Bounds))"

definition huff_free_ppnode :: "huff_t \<Rightarrow> nat option \<Rightarrow> huff_t res" where
  "huff_free_ppnode h ppnode =
     rbind (set_cell ppnode (PP_Free (freelist h)) h) (\<lambda>h. Inr (h\<lparr>freelist := ppnode\<rparr>))"

section \<open>Restructuring\<close>

text \<open>One side of \<open>huff_swap\<close>: the parent \<open>par\<close> of \<open>old\<close> gets \<open>new\<close> as the child in its place.\<close>

definition relink_child :: "nat option \<Rightarrow> nat \<Rightarrow> nat \<Rightarrow> huff_t \<Rightarrow> huff_t res" where
  "relink_child par old new h = (case par of
     None \<Rightarrow> Inr (h\<lparr>tree := Some new\<rparr>)
   | Some p \<Rightarrow> upd_node p (\<lambda>n. if n_left n = Some old then n\<lparr>n_left := Some new\<rparr>
                              else n\<lparr>n_right := Some new\<rparr>) h)"

definition huff_swap :: "huff_t \<Rightarrow> nat \<Rightarrow> nat \<Rightarrow> huff_t res" where
  "huff_swap h node1 node2 =
     rbind (get_node h node1) (\<lambda>a. rbind (get_node h node2) (\<lambda>b.
     let par1 = n_parent a; par2 = n_parent b in
     rbind (relink_child par1 node1 node2 h) (\<lambda>h.
     rbind (relink_child par2 node2 node1 h) (\<lambda>h.
     rbind (upd_node node1 (n_parent_update (\<lambda>_. par2)) h) (\<lambda>h.
     upd_node node2 (n_parent_update (\<lambda>_. par1)) h)))))"

definition huff_swaplist :: "huff_t \<Rightarrow> nat \<Rightarrow> nat \<Rightarrow> huff_t res" where
  "huff_swaplist h node1 node2 =
     rbind (get_node h node1) (\<lambda>a. rbind (get_node h node2) (\<lambda>b.
     rbind (upd_node node1 (n_next_update (\<lambda>_. n_next b)) h) (\<lambda>h.
     rbind (upd_node node2 (n_next_update (\<lambda>_. n_next a)) h) (\<lambda>h.
     rbind (get_node h node1) (\<lambda>a. rbind (get_node h node2) (\<lambda>b.
     rbind (upd_node node1 (n_prev_update (\<lambda>_. n_prev b)) h) (\<lambda>h.
     rbind (upd_node node2 (n_prev_update (\<lambda>_. n_prev a)) h) (\<lambda>h.
     rbind (upd_node node1 (\<lambda>n. if n_next n = Some node1 then n\<lparr>n_next := Some node2\<rparr> else n) h) (\<lambda>h.
     rbind (upd_node node2 (\<lambda>n. if n_next n = Some node2 then n\<lparr>n_next := Some node1\<rparr> else n) h) (\<lambda>h.
     rbind (get_node h node1) (\<lambda>a. rbind (upd_opt (n_next a) (n_prev_update (\<lambda>_. Some node1)) h) (\<lambda>h.
     rbind (get_node h node2) (\<lambda>b. rbind (upd_opt (n_next b) (n_prev_update (\<lambda>_. Some node2)) h) (\<lambda>h.
     rbind (get_node h node1) (\<lambda>a. rbind (upd_opt (n_prev a) (n_next_update (\<lambda>_. Some node1)) h) (\<lambda>h.
     rbind (get_node h node2) (\<lambda>b. upd_opt (n_prev b) (n_next_update (\<lambda>_. Some node2)) h)))))))))))))))))"

text \<open>\<open>p && p->weight == w\<close>.\<close>

definition has_weight :: "huff_t \<Rightarrow> nat option \<Rightarrow> int \<Rightarrow> bool res" where
  "has_weight h p w = (case p of None \<Rightarrow> Inr False
     | Some i \<Rightarrow> rbind (get_node h i) (\<lambda>n. Inr (weight n = w)))"

text \<open>
  \<open>huff_increment\<close> recurses to the parent; its first argument bounds the depth as in \<open>huff_send\<close>.
  The three parts before the recursion are named: moving the node to the front of its block,
  leaving the block and entering the next one.
\<close>

definition inc_front :: "nat \<Rightarrow> huff_t \<Rightarrow> huff_t res" where
  "inc_front node h =
     rbind (get_node h node) (\<lambda>n.
     rbind (has_weight h (n_next n) (weight n)) (\<lambda>same.
     if same then
       rbind (rbind (get_cell (n_head n) h) cell_node) (\<lambda>lnode.
       rbind (if Some lnode \<noteq> n_parent n then huff_swap h lnode node else Inr h) (\<lambda>h.
       huff_swaplist h lnode node))
     else Inr h))"

definition inc_leave :: "nat \<Rightarrow> huff_t \<Rightarrow> huff_t res" where
  "inc_leave node h =
     rbind (get_node h node) (\<lambda>n.
     rbind (has_weight h (n_prev n) (weight n)) (\<lambda>same.
     if same then set_cell (n_head n) (ptr_cell (n_prev n)) h
     else rbind (set_cell (n_head n) PP_Null h) (\<lambda>h. huff_free_ppnode h (n_head n))))"

definition inc_enter :: "nat \<Rightarrow> huff_t \<Rightarrow> huff_t res" where
  "inc_enter node h =
     rbind (upd_node node (\<lambda>n. n\<lparr>weight := weight n + 1\<rparr>) h) (\<lambda>h.
     rbind (get_node h node) (\<lambda>n.
     rbind (has_weight h (n_next n) (weight n)) (\<lambda>same.
     if same then
       rbind (deref (n_next n)) (\<lambda>x. rbind (get_node h x) (\<lambda>nx.
       upd_node node (n_head_update (\<lambda>_. n_head nx)) h))
     else
       rbind (huff_get_ppnode h) (\<lambda>(c, h).
       rbind (upd_node node (n_head_update (\<lambda>_. Some c)) h) (\<lambda>h.
       set_cell (Some c) (PP_Node node) h)))))"

fun huff_increment :: "nat \<Rightarrow> huff_t \<Rightarrow> nat option \<Rightarrow> huff_t res" where
  "huff_increment d h None = Inr h"
| "huff_increment 0 h (Some node) = Inl Stack_Overflow"
| "huff_increment (Suc d) h (Some node) =
     rbind (inc_front node h) (\<lambda>h.
     rbind (inc_leave node h) (\<lambda>h.
     rbind (inc_enter node h) (\<lambda>h.
     rbind (get_node h node) (\<lambda>n.
     case n_parent n of
       None \<Rightarrow> Inr h
     | Some p \<Rightarrow>
         rbind (huff_increment d h (Some p)) (\<lambda>h.
         rbind (get_node h node) (\<lambda>n.
         if n_prev n = n_parent n then
           rbind (deref (n_parent n)) (\<lambda>p.
           rbind (huff_swaplist h node p) (\<lambda>h.
           rbind (get_node h node) (\<lambda>n.
           rbind (get_cell (n_head n) h) (\<lambda>v.
           if v = PP_Node node then set_cell (n_head n) (ptr_cell (n_parent n)) h else Inr h))))
         else Inr h))))))"

text \<open>
  \<open>Huff_addRef\<close> for a symbol seen for the first time: the not-yet-transmitted leaf \<open>lhead\<close> gets an
  internal node above it with the new leaf on its right.  \<open>new_head\<close> is the choice of the block
  cell for a node inserted behind \<open>lhead\<close>; \<open>own\<close> is the node stored in a new cell, which the second
  insertion sets to \<open>tnode2\<close> as the code does (in a branch it says never happens).
\<close>

definition new_head :: "nat \<Rightarrow> nat \<Rightarrow> nat \<Rightarrow> huff_t \<Rightarrow> huff_t res" where
  "new_head node own own_null h =
     rbind (deref (lhead h)) (\<lambda>l. rbind (get_node h l) (\<lambda>ln.
     case n_next ln of
       Some x \<Rightarrow>
         rbind (upd_node x (n_prev_update (\<lambda>_. Some node)) h) (\<lambda>h.
         rbind (get_node h x) (\<lambda>xn.
         if weight xn = 1 then upd_node node (n_head_update (\<lambda>_. n_head xn)) h
         else
           rbind (huff_get_ppnode h) (\<lambda>(c, h).
           rbind (upd_node node (n_head_update (\<lambda>_. Some c)) h) (\<lambda>h.
           set_cell (Some c) (PP_Node own) h))))
     | None \<Rightarrow>
         rbind (huff_get_ppnode h) (\<lambda>(c, h).
         rbind (upd_node node (n_head_update (\<lambda>_. Some c)) h) (\<lambda>h.
         set_cell (Some c) (PP_Node own_null) h))))"

definition insert_after_head :: "nat \<Rightarrow> huff_t \<Rightarrow> huff_t res" where
  "insert_after_head node h =
     rbind (deref (lhead h)) (\<lambda>l.
     rbind (upd_node l (n_next_update (\<lambda>_. Some node)) h) (\<lambda>h.
     upd_node node (n_prev_update (\<lambda>_. Some l)) h))"

definition huff_add_leaf :: "huff_t \<Rightarrow> nat \<Rightarrow> huff_t res" where
  "huff_add_leaf h ch =
     (let tnode = blocNode h; tnode2 = blocNode h + 1; h = h\<lparr>blocNode := blocNode h + 2\<rparr> in
      rbind (deref (lhead h)) (\<lambda>l.
      rbind (get_node h l) (\<lambda>ln.
      rbind (upd_node tnode2 (\<lambda>n. n\<lparr>symbol := INTERNAL_NODE, weight := 1, n_next := n_next ln\<rparr>) h) (\<lambda>h.
      rbind (new_head tnode2 tnode2 tnode2 h) (\<lambda>h.
      rbind (insert_after_head tnode2 h) (\<lambda>h.
      rbind (get_node h l) (\<lambda>ln.
      rbind (upd_node tnode (\<lambda>n. n\<lparr>symbol := ch, weight := 1, n_next := n_next ln\<rparr>) h) (\<lambda>h.
      rbind (new_head tnode tnode2 tnode h) (\<lambda>h.
      rbind (insert_after_head tnode h) (\<lambda>h.
      rbind (upd_node tnode (\<lambda>n. n\<lparr>n_left := None, n_right := None\<rparr>) h) (\<lambda>h.
      rbind (get_node h l) (\<lambda>ln.
      rbind (relink_child (n_parent ln) l tnode2 h) (\<lambda>h.
      rbind (upd_node tnode2 (\<lambda>n. n\<lparr>n_right := Some tnode, n_left := Some l\<rparr>) h) (\<lambda>h.
      rbind (get_node h l) (\<lambda>ln.
      rbind (upd_node tnode2 (n_parent_update (\<lambda>_. n_parent ln)) h) (\<lambda>h.
      rbind (upd_node tnode (n_parent_update (\<lambda>_. Some tnode2)) h) (\<lambda>h.
      rbind (upd_node l (n_parent_update (\<lambda>_. Some tnode2)) h) (\<lambda>h.
      rbind (poke ch (Some tnode) (loc h)) (\<lambda>a.
      let h = h\<lparr>loc := a\<rparr> in
      rbind (get_node h tnode2) (\<lambda>n.
      huff_increment huff_nodes h (n_parent n)))))))))))))))))))))"

definition Huff_addRef :: "huff_t \<Rightarrow> nat \<Rightarrow> huff_t res" where
  "Huff_addRef h ch =
     rbind (peek (loc h) ch) (\<lambda>l. case l of
       None \<Rightarrow> huff_add_leaf h ch
     | Some i \<Rightarrow> huff_increment huff_nodes h (Some i))"

text \<open>The tree of \<open>memset\<close> with the single leaf for symbols not yet transmitted.\<close>

definition zero_node :: node_t where
  "zero_node = \<lparr>n_left = None, n_right = None, n_parent = None, n_next = None, n_prev = None,
     n_head = None, weight = 0, symbol = 0\<rparr>"

definition huff_fresh :: "bool \<Rightarrow> huff_t" where
  "huff_fresh dec = \<lparr>blocNode = 1, blocPtrs = 0, tree = Some 0, lhead = Some 0,
     ltail = (if dec then Some 0 else None), loc = (replicate (HMAX + 1) None)[NYT := Some 0],
     freelist = None, nodeList = zero_node\<lparr>symbol := NYT\<rparr> # replicate (huff_nodes - 1) zero_node,
     nodePtrs = replicate huff_nodes PP_Null\<rparr>"

section \<open>Whole messages\<close>

text \<open>The eight bits of a byte, highest first.\<close>

fun add_byte_bits :: "nat \<Rightarrow> nat \<Rightarrow> byte list \<times> nat \<Rightarrow> (byte list \<times> nat) res" where
  "add_byte_bits 0 ch out = Inr out"
| "add_byte_bits (Suc i) ch out = rbind (huff_add_bit (bit ch i) out) (add_byte_bits i ch)"

fun get_byte_bits :: "nat \<Rightarrow> byte list \<Rightarrow> nat \<Rightarrow> nat \<Rightarrow> (nat \<times> nat) res" where
  "get_byte_bits 0 fin ch bloc = Inr (ch, bloc)"
| "get_byte_bits (Suc i) fin ch bloc =
     rbind (huff_get_bit fin bloc) (\<lambda>(b, bloc). get_byte_bits i fin (2 * ch + of_bool b) bloc)"

text \<open>
  \<open>Huff_transmit\<close> calls itself once, for the symbol that announces a new one; with no leaf for that
  symbol either it recurses for ever.
\<close>

definition Huff_transmit :: "huff_t \<Rightarrow> nat \<Rightarrow> byte list \<times> nat \<Rightarrow> (byte list \<times> nat) res" where
  "Huff_transmit h ch out =
     rbind (peek (loc h) ch) (\<lambda>l. case l of
       Some i \<Rightarrow> huff_send huff_nodes h i None out
     | None \<Rightarrow>
         rbind (peek (loc h) NYT) (\<lambda>l. case l of
           None \<Rightarrow> Inl Stack_Overflow
         | Some i \<Rightarrow> rbind (huff_send huff_nodes h i None out) (add_byte_bits 8 ch)))"

text \<open>\<open>ch\<close> is zero when \<open>Huff_Receive\<close> is called and stays so on a broken tree.\<close>

definition Huff_Receive :: "huff_t \<Rightarrow> byte list \<Rightarrow> nat \<Rightarrow> (nat \<times> nat) res" where
  "Huff_Receive h fin bloc =
     rbind (huff_walk h fin (tree h) bloc) (\<lambda>(n, bloc). case n of
       None \<Rightarrow> Inr (0, bloc)
     | Some i \<Rightarrow> rbind (get_node h i) (\<lambda>n. Inr (symbol n, bloc)))"

fun compress_loop :: "byte list \<Rightarrow> huff_t \<Rightarrow> byte list \<times> nat \<Rightarrow> (byte list \<times> nat) res" where
  "compress_loop [] h out = Inr out"
| "compress_loop (c # cs) h out =
     rbind (Huff_transmit h (unat c) out) (\<lambda>out.
     rbind (Huff_addRef h (unat c)) (\<lambda>h. compress_loop cs h out))"

text \<open>\<open>seq\<close> is the array on the stack, 65536 bytes of undefined content.\<close>

definition Huff_Compress :: "byte list \<Rightarrow> sizebuf \<Rightarrow> nat \<Rightarrow> sizebuf res" where
  "Huff_Compress seq mbuf offset =
     (if cursize mbuf \<le> offset then Inr mbuf
      else
        let sz = cursize mbuf - offset in
        rbind (poke 0 (word_of_nat (sz div 256)) seq) (\<lambda>seq.
        rbind (poke 1 (word_of_nat sz) seq) (\<lambda>seq.
        rbind (compress_loop (take sz (drop offset (data mbuf))) (huff_fresh False) (seq, 16)) (\<lambda>(seq, bloc).
        let n = (bloc + 8) div 8 in
        sz_puts offset (take n seq) (mbuf\<lparr>cursize := n + offset\<rparr>)))))"

text \<open>
  The loop of \<open>Huff_Decompress\<close>: \<open>n\<close> symbols are still to come, the next one at \<open>seq[j]\<close>.  It stops
  early when the position is past the message, and what is then left of \<open>seq\<close> is copied as it is.
\<close>

fun decompress_loop ::
  "nat \<Rightarrow> nat \<Rightarrow> byte list \<Rightarrow> nat \<Rightarrow> huff_t \<Rightarrow> nat \<Rightarrow> byte list \<Rightarrow> byte list res" where
  "decompress_loop 0 j buffer sz h bloc seq = Inr seq"
| "decompress_loop (Suc n) j buffer sz h bloc seq =
     (if bloc div 8 > sz then poke j 0 seq
      else
        rbind (Huff_Receive h buffer bloc) (\<lambda>(ch, bloc).
        rbind (if ch = NYT then get_byte_bits 8 buffer 0 bloc else Inr (ch, bloc)) (\<lambda>(ch, bloc).
        rbind (poke j (word_of_nat ch) seq) (\<lambda>seq.
        rbind (Huff_addRef h (ch mod 256)) (\<lambda>h.
        decompress_loop n (j + 1) buffer sz h bloc seq)))))"

definition Huff_Decompress :: "byte list \<Rightarrow> sizebuf \<Rightarrow> nat \<Rightarrow> sizebuf res" where
  "Huff_Decompress seq mbuf offset =
     (if cursize mbuf \<le> offset then Inr mbuf
      else
        let sz = cursize mbuf - offset; buffer = drop offset (data mbuf) in
        rbind (peek buffer 0) (\<lambda>b0. rbind (peek buffer 1) (\<lambda>b1.
        let cch = min (unat b0 * 256 + unat b1) (maxsize mbuf - offset) in
        rbind (decompress_loop cch 0 buffer sz (huff_fresh True) 16 seq) (\<lambda>seq.
        sz_puts offset (take cch seq) (mbuf\<lparr>cursize := cch + offset\<rparr>)))))"

definition Huff_DecryptPacket :: "byte list \<Rightarrow> sizebuf \<Rightarrow> nat \<Rightarrow> sizebuf res" where
  "Huff_DecryptPacket seq msg offset = Huff_Decompress seq msg offset"

definition Huff_EncryptPacket :: "byte list \<Rightarrow> sizebuf \<Rightarrow> nat \<Rightarrow> sizebuf res" where
  "Huff_EncryptPacket seq msg offset = Huff_Compress seq msg offset"

section \<open>The fixed tree\<close>

fun add_refs :: "nat \<Rightarrow> nat \<Rightarrow> huff_t \<times> huff_t \<Rightarrow> (huff_t \<times> huff_t) res" where
  "add_refs 0 i (c, d) = Inr (c, d)"
| "add_refs (Suc n) i (c, d) =
     rbind (Huff_addRef c i) (\<lambda>c. rbind (Huff_addRef d i) (\<lambda>d. add_refs n i (c, d)))"

fun init_counts :: "nat list \<Rightarrow> nat \<Rightarrow> huff_t \<times> huff_t \<Rightarrow> (huff_t \<times> huff_t) res" where
  "init_counts [] i t = Inr t"
| "init_counts (n # ns) i t = rbind (add_refs n i t) (init_counts ns (i + 1))"

definition Huff_Init :: "huffman_t \<Rightarrow> huffman_t res" where
  "Huff_Init hf =
     rbind (init_counts (counts hf) 0 (huff_fresh False, huff_fresh True)) (\<lambda>(c, d).
     Inr (hf\<lparr>compressor := c, decompressor := d, built := True\<rparr>))"

definition q3huff_counts :: "nat list" where
  "q3huff_counts =
    [250315, 41193, 6292, 7106, 3730, 3750, 6110, 23283,
     33317, 6950, 7838, 9714, 9257, 17259, 3949, 1778,
     8288, 1604, 1590, 1663, 1100, 1213, 1238, 1134,
     1749, 1059, 1246, 1149, 1273, 4486, 2805, 3472,
     21819, 1159, 1670, 1066, 1043, 1012, 1053, 1070,
     1726, 888, 1180, 850, 960, 780, 1752, 3296,
     10630, 4514, 5881, 2685, 4650, 3837, 2093, 1867,
     2584, 1949, 1972, 940, 1134, 1788, 1670, 1206,
     5719, 6128, 7222, 6654, 3710, 3795, 1492, 1524,
     2215, 1140, 1355, 971, 2180, 1248, 1328, 1195,
     1770, 1078, 1264, 1266, 1168, 965, 1155, 1186,
     1347, 1228, 1529, 1600, 2617, 2048, 2546, 3275,
     2410, 3585, 2504, 2800, 2675, 6146, 3663, 2840,
     14253, 3164, 2221, 1687, 3208, 2739, 3512, 4796,
     4091, 3515, 5288, 4016, 7937, 6031, 5360, 3924,
     4892, 3743, 4566, 4807, 5852, 6400, 6225, 8291,
     23243, 7838, 7073, 8935, 5437, 4483, 3641, 5256,
     5312, 5328, 5370, 3492, 2458, 1694, 1821, 2121,
     1916, 1149, 1516, 1367, 1236, 1029, 1258, 1104,
     1245, 1006, 1149, 1025, 1241, 952, 1287, 997,
     1713, 1009, 1187, 879, 1099, 929, 1078, 951,
     1656, 930, 1153, 1030, 1262, 1062, 1214, 1060,
     1621, 930, 1106, 912, 1034, 892, 1158, 990,
     1175, 850, 1121, 903, 1087, 920, 1144, 1056,
     3462, 2240, 4397, 12136, 7758, 1345, 1307, 3278,
     1950, 886, 1023, 1112, 1077, 1042, 1061, 1071,
     1484, 1001, 1096, 915, 1052, 995, 1070, 876,
     1111, 851, 1059, 805, 1112, 923, 1103, 817,
     1899, 1872, 976, 841, 1127, 956, 1159, 950,
     7791, 954, 1289, 933, 1127, 3207, 1020, 927,
     1355, 768, 1040, 745, 952, 805, 1073, 740,
     1013, 805, 1008, 796, 996, 1057, 11457, 13504]"

definition q3huff_unbuilt :: huffman_t where
  "q3huff_unbuilt = \<lparr>counts = q3huff_counts, crc = 0x286f2e8d, built = False,
     compressor = huff_fresh False, decompressor = huff_fresh True\<rparr>"

definition Huff_PreferedCompressionCRC :: "bool \<Rightarrow> huffman_t \<Rightarrow> int32" where
  "Huff_PreferedCompressionCRC net_compress hf = (if \<not> net_compress then 0 else crc hf)"

text \<open>\<open>Huff_CompressionCRC\<close> returns the table and its new state.\<close>

definition Huff_CompressionCRC :: "huffman_t \<Rightarrow> int32 \<Rightarrow> huffman_t option res" where
  "Huff_CompressionCRC hf c =
     (if c \<noteq> crc hf then Inr None
      else if built hf then Inr (Some hf) else rbind (Huff_Init hf) (\<lambda>hf. Inr (Some hf)))"

section \<open>Packets\<close>

definition HUFF_MAX :: nat where "HUFF_MAX = 65536"

datatype pack_end = Pack_Done | Pack_Grown | Pack_Overflow

text \<open>
  The loop of \<open>Huff_CompressPacket\<close>.  \<open>outLen\<close> counts bits and \<open>inLen\<close> bytes, as in the code.
\<close>

fun pack_loop ::
  "huff_t \<Rightarrow> nat \<Rightarrow> byte list \<Rightarrow> byte list \<times> nat \<Rightarrow> (pack_end \<times> byte list \<times> nat) res" where
  "pack_loop h inLen [] out = Inr (Pack_Done, out)"
| "pack_loop h inLen (c # cs) out =
     rbind (Huff_offsetTransmit h (unat c) (fst out) (snd out)) (\<lambda>out.
     if snd out > inLen then Inr (Pack_Grown, out)
     else if snd out > HUFF_MAX - 64 then Inr (Pack_Overflow, out)
     else pack_loop h inLen cs out)"

definition Huff_CompressPacket :: "huffman_t \<Rightarrow> byte list \<Rightarrow> sizebuf \<Rightarrow> nat \<Rightarrow> sizebuf res" where
  "Huff_CompressPacket hf buffer msg offset =
     (let inLen = cursize msg - offset; d = drop offset (data msg) in
      if cursize msg \<le> offset \<or> inLen \<ge> HUFF_MAX then Inr msg
      else
        rbind (pack_loop (compressor hf) inLen (take inLen d) (buffer, 0)) (\<lambda>(r, buffer, outLen).
        case r of
          Pack_Overflow \<Rightarrow> rbind (sz_put offset 0x80 msg) (\<lambda>msg. Inr (msg\<lparr>cursize := offset + 1\<rparr>))
        | Pack_Grown \<Rightarrow>
            rbind (sz_puts (offset + 1) (take inLen d) msg) (\<lambda>msg.
            rbind (sz_put offset 0x80 msg) (\<lambda>msg. Inr (msg\<lparr>cursize := cursize msg + 1\<rparr>)))
        | Pack_Done \<Rightarrow>
            rbind (sz_put offset (word_of_nat (outLen * 8 - outLen)) msg) (\<lambda>msg.
            let msg = msg\<lparr>cursize := offset + outLen + 1\<rparr> in
            if cursize msg > maxsize msg then Inl Sys_Error
            else sz_puts (offset + 1) (take outLen buffer) msg)))"

text \<open>
  The loop of \<open>Huff_DecompressPacket\<close> from \<open>buffer[i]\<close> on, with \<open>n\<close> places left before the code
  gives up; \<open>inLen\<close> is signed and counts bits.
\<close>

fun unpack_loop ::
  "nat \<Rightarrow> huff_t \<Rightarrow> int \<Rightarrow> byte list \<Rightarrow> nat \<Rightarrow> byte list \<Rightarrow> byte list res" where
  "unpack_loop n h inLen d outLen buffer =
     (if int outLen < inLen then
        (case n of
           0 \<Rightarrow> Inl Sys_Error
         | Suc n \<Rightarrow>
             rbind (Huff_offsetReceive h (tree h) d outLen) (\<lambda>(ch, outLen).
             unpack_loop n h inLen d outLen (buffer @ [word_of_nat ch])))
      else Inr buffer)"

definition Huff_DecompressPacket :: "huffman_t \<Rightarrow> sizebuf \<Rightarrow> nat \<Rightarrow> sizebuf res" where
  "Huff_DecompressPacket hf msg offset =
     (let inLen = cursize msg - offset; d = drop offset (data msg) in
      if cursize msg \<le> offset \<or> inLen \<ge> HUFF_MAX then Inr msg
      else
        rbind (peek d 0) (\<lambda>b.
        if b AND 0x80 \<noteq> 0 then
          (let msg = msg\<lparr>cursize := cursize msg - 1\<rparr> in
           if 1 + cursize msg > length d then Inl Out_Of_Bounds
           else sz_puts offset (take (cursize msg) (drop 1 d)) msg)
        else
          rbind (unpack_loop HUFF_MAX (decompressor hf) (int inLen * 8 - 8 - int (unat b))
                   (drop 1 d) 0 []) (\<lambda>buffer.
          let msg = msg\<lparr>cursize := offset + length buffer\<rparr> in
          if cursize msg > maxsize msg then Inl Sys_Error
          else sz_puts offset buffer msg)))"

end
