(* ===== verification/HuffProps.thy ===== *)
theory HuffProps
  imports HuffTree
begin

text \<open>
  Packets through the fixed Huffman tree: what \<open>Huff_CompressPacket\<close> sends and that
  \<open>Huff_DecompressPacket\<close> restores it.
\<close>

lemma length_huff_code: "huff_code d h i = Some bs \<Longrightarrow> length bs < d"
proof (induction d arbitrary: i bs)
  case (Suc d)
  then show ?case by (force split: if_splits option.splits)
qed simp

text \<open>\<open>long_codes h cs\<close>: every byte of \<open>cs\<close> has a code word of two bits or more.\<close>

definition long_codes :: "huff_t \<Rightarrow> byte list \<Rightarrow> bool" where
  "long_codes h cs \<longleftrightarrow> (\<forall>c \<in> set cs. \<exists>i bs. huff_leaf h (unat c) i bs \<and> 2 \<le> length bs)"

lemma pack_loop_grown:
  assumes "long_codes h cs" and "p \<le> inLen" and "inLen < p + 2 * length cs"
    and "inLen \<le> HUFF_MAX - 64" and "length buf = HUFF_MAX" and "bits_clean buf p"
  shows "\<exists>out. pack_loop h inLen cs (buf, p) = Inr (Pack_Grown, out)"
  using assms
proof (induction cs arbitrary: buf p)
  case (Cons c cs)
  then obtain i bs where bs: "huff_leaf h (unat c) i bs" "2 \<le> length bs"
    by (auto simp: long_codes_def)
  then have "length bs < huff_nodes"
    by (auto simp: huff_leaf_def dest: length_huff_code)
  then have "p + length bs \<le> 8 * length buf"
    using Cons.prems by (simp add: huff_nodes_def HUFF_MAX_def)
  from Huff_offsetTransmit_ok [OF bs(1) this Cons.prems(6)] obtain buf' where
    buf': "Huff_offsetTransmit h (unat c) buf p = Inr (buf', p + length bs)"
      "length buf' = length buf" "bits_clean buf' (p + length bs)" by metis
  have "long_codes h cs" using Cons.prems(1) by (simp add: long_codes_def)
  from Cons.IH [OF this, of "p + length bs" buf'] show ?case
    using buf' bs(2) Cons.prems by (cases "inLen < p + length bs") simp_all
qed simp

lemma sz_puts_ok:
  "i + length vs \<le> length (data sb) \<Longrightarrow>
   sz_puts i vs sb = Inr (sb\<lparr>data := take i (data sb) @ vs @ drop (i + length vs) (data sb)\<rparr>)"
  by (simp add: sz_puts_def pokes_Inr)

lemma sz_put_ok: "i < length (data sb) \<Longrightarrow> sz_put i v sb = Inr (sb\<lparr>data := (data sb)[i := v]\<rparr>)"
  by (simp add: sz_put_def)

text \<open>The stored form of a packet: a byte with its top bit set before the unchanged payload.\<close>

lemma Huff_CompressPacket_stored:
  assumes "sz_wf msg" and "offset < cursize msg" and "cursize msg < maxsize msg"
    and "cursize msg - offset \<le> HUFF_MAX - 64" and "length buffer = HUFF_MAX"
    and "long_codes (compressor hf) (drop offset (sz_content msg))"
  shows "Huff_CompressPacket hf buffer msg offset = Inr (msg\<lparr>cursize := cursize msg + 1,
    data := take offset (data msg) @ 0x80 # drop offset (sz_content msg) @ drop (cursize msg + 1) (data msg)\<rparr>)"
proof -
  let ?n = "cursize msg - offset"
  let ?cs = "take ?n (drop offset (data msg))"
  have cs: "drop offset (sz_content msg) = ?cs" by (simp add: sz_content_def drop_take)
  have len: "cursize msg < length (data msg)"
    using assms(1,3) by (simp add: sz_wf_def)
  then have n: "length ?cs = ?n" by simp
  obtain out where out: "pack_loop (compressor hf) ?n ?cs (buffer, 0) = Inr (Pack_Grown, out)"
    using pack_loop_grown [of "compressor hf" ?cs 0 ?n buffer] assms n by (auto simp: cs)
  have "offset + 1 + length ?cs \<le> length (data msg)" using len n assms(2) by simp
  moreover from this have "(take (offset + 1) (data msg) @ ?cs @ drop (cursize msg + 1) (data msg))[offset := 0x80] =
      take offset (data msg) @ 0x80 # ?cs @ drop (cursize msg + 1) (data msg)"
    using assms(2) by (simp add: list_update_append take_Suc_conv_app_nth)
  ultimately show ?thesis
    using out assms(2,4) n
    by (simp add: Huff_CompressPacket_def cs sz_puts_ok sz_put_ok HUFF_MAX_def split: prod.splits)
qed

lemma Huff_DecompressPacket_stored:
  assumes "sz_wf msg" and "cursize msg \<le> offset + HUFF_MAX - 1" and "offset < cursize msg"
    and "data msg ! offset AND 0x80 \<noteq> 0" and "offset + cursize msg \<le> length (data msg)"
  shows "\<exists>m. Huff_DecompressPacket hf msg offset = Inr m \<and>
    sz_content m = take offset (sz_content msg) @ drop (offset + 1) (sz_content msg)"
proof -
  let ?d = "drop offset (data msg)"
  let ?c = "take (cursize msg - 1) (drop 1 ?d)"
  have c: "length ?c = cursize msg - 1" using assms by simp
  have "take (cursize msg - 1) (take offset (data msg) @ ?c @ drop (offset + length ?c) (data msg)) =
      take offset (sz_content msg) @ drop (offset + 1) (sz_content msg)"
  proof -
    obtain k where k: "cursize msg = offset + Suc k"
      using assms(3) by (metis less_imp_Suc_add add_Suc_right)
    moreover from this assms(5) have "k \<le> length (data msg) - Suc offset" by linarith
    ultimately show ?thesis using assms(5) by (simp add: sz_content_def min_def drop_take)
  qed
  moreover have "Huff_DecompressPacket hf msg offset = Inr (msg\<lparr>cursize := cursize msg - 1,
      data := take offset (data msg) @ ?c @ drop (offset + length ?c) (data msg)\<rparr>)"
  proof -
    have "\<not> (cursize msg \<le> offset \<or> HUFF_MAX \<le> cursize msg - offset)" and "peek ?d 0 = Inr (data msg ! offset)"
      and "\<not> length ?d < 1 + (cursize msg - 1)" and "offset + length ?c \<le> length (data msg)"
      using assms c by (simp_all add: HUFF_MAX_def)
    then show ?thesis
      using assms(4) c by (simp add: Huff_DecompressPacket_def Let_def sz_puts_ok cong: if_cong)
  qed
  ultimately show ?thesis by (simp add: sz_content_def)
qed

text \<open>
  with a table whose code words all have two bits or more (as the one of the engine), every
  packet is sent stored: \<open>Huff_CompressPacket\<close> compares the number of bits with the number of
  bytes, so it never finds a gain.  The packet grows by one byte and \<open>Huff_DecompressPacket\<close>
  restores it, provided the receiving buffer has the room its \<open>memmove\<close> reads beyond the message.
\<close>

theorem huff_packet_stored:
  assumes "sz_wf msg" and "offset < cursize msg" and "cursize msg - offset \<le> HUFF_MAX - 64"
    and "cursize msg + offset < maxsize msg" and "length buffer = HUFF_MAX"
    and "long_codes (compressor hf) (drop offset (sz_content msg))"
  shows "\<exists>m m'. Huff_CompressPacket hf buffer msg offset = Inr m \<and>
    sz_content m = take offset (sz_content msg) @ 0x80 # drop offset (sz_content msg) \<and>
    Huff_DecompressPacket hf m offset = Inr m' \<and> sz_content m' = sz_content msg"
proof -
  let ?m = "msg\<lparr>cursize := cursize msg + 1, data := take offset (data msg) @
     0x80 # drop offset (sz_content msg) @ drop (cursize msg + 1) (data msg)\<rparr>"
  have len: "cursize msg + offset < length (data msg)" "cursize msg < maxsize msg"
    using assms(1,2,4) by (simp_all add: sz_wf_def)
  have "Huff_CompressPacket hf buffer msg offset = Inr ?m"
    using assms len by (intro Huff_CompressPacket_stored)
  moreover have c: "sz_content ?m = take offset (sz_content msg) @ 0x80 # drop offset (sz_content msg)"
  proof -
    obtain k where "cursize msg = offset + Suc k"
      using assms(2) by (metis less_imp_Suc_add add_Suc_right)
    with len show ?thesis by (simp add: sz_content_def min_def drop_take)
  qed
  moreover have "\<exists>m'. Huff_DecompressPacket hf ?m offset = Inr m' \<and>
      sz_content m' = take offset (sz_content ?m) @ drop (offset + 1) (sz_content ?m)"
    using assms len
    by (intro Huff_DecompressPacket_stored) (simp_all add: sz_wf_def sz_content_def HUFF_MAX_def nth_append)
  moreover have "length (take offset (sz_content msg)) = offset"
    using assms(2) len by (simp add: sz_content_def)
  then have "take offset (sz_content ?m) @ drop (offset + 1) (sz_content ?m) = sz_content msg"
    unfolding c by simp
  ultimately show ?thesis by metis
qed

text \<open>A tree with four leaves, the bytes 1 to 4, two levels deep.\<close>

definition quad_node :: "nat option \<Rightarrow> nat \<Rightarrow> node_t" where
  "quad_node p s = zero_node\<lparr>n_parent := p, symbol := s\<rparr>"

definition quad_huff :: huff_t where
  "quad_huff = \<lparr>blocNode = 7, blocPtrs = 0, tree = Some 0, lhead = None, ltail = None,
     loc = [None, Some 3, Some 4, Some 5, Some 6], freelist = None,
     nodeList = [(quad_node None INTERNAL_NODE)\<lparr>n_left := Some 1, n_right := Some 2\<rparr>,
                 (quad_node (Some 0) INTERNAL_NODE)\<lparr>n_left := Some 3, n_right := Some 4\<rparr>,
                 (quad_node (Some 0) INTERNAL_NODE)\<lparr>n_left := Some 5, n_right := Some 6\<rparr>,
                 quad_node (Some 1) 1, quad_node (Some 1) 2, quad_node (Some 2) 3,
                 quad_node (Some 2) 4],
     nodePtrs = []\<rparr>"

definition quad :: huffman_t where
  "quad = \<lparr>counts = [], crc = 0, built = True, compressor = quad_huff, decompressor = quad_huff\<rparr>"

lemma quad_leaf:
  "huff_leaf quad_huff 1 3 [False, False]" "huff_leaf quad_huff 4 6 [True, True]"
proof -
  have "huff_code (Suc (Suc (Suc n))) quad_huff 3 = Some [False, False]"
    "huff_code (Suc (Suc (Suc n))) quad_huff 6 = Some [True, True]" for n
    by (simp_all add: quad_huff_def quad_node_def zero_node_def INTERNAL_NODE_def HMAX_def)
  from this [of 765] have "huff_code huff_nodes quad_huff 3 = Some [False, False]"
    "huff_code huff_nodes quad_huff 6 = Some [True, True]"
    by (simp_all add: huff_nodes_def)
  then show "huff_leaf quad_huff 1 3 [False, False]" "huff_leaf quad_huff 4 6 [True, True]"
    by (simp_all add: huff_leaf_def)
      (simp_all add: quad_huff_def quad_node_def zero_node_def INTERNAL_NODE_def HMAX_def)
qed

definition quad_packet :: sizebuf where
  "quad_packet = \<lparr>data = [9, 9, 1, 4, 4, 0, 0, 0, 0, 0], maxsize = 10, cursize = 5,
     allowoverflow = False, overflowed = False, packing = SZ_RAWBYTES, currentbit = 0,
     prim = \<lparr>coordtype = 0, anglesize = 0, npflags = 0\<rparr>\<rparr>"

lemma huff_packet_stored_witness:
  "\<exists>m m'. Huff_CompressPacket quad (replicate HUFF_MAX 0) quad_packet 2 = Inr m \<and>
     sz_content m = [9, 9, 0x80, 1, 4, 4] \<and>
     Huff_DecompressPacket quad m 2 = Inr m' \<and> sz_content m' = [9, 9, 1, 4, 4]"
proof -
  have c: "sz_content quad_packet = [9, 9, 1, 4, 4]"
    by (simp add: sz_content_def quad_packet_def)
  have "long_codes (compressor quad) (drop 2 (sz_content quad_packet))"
    using quad_leaf by (force simp: long_codes_def c quad_def)
  moreover have "sz_wf quad_packet" by (simp add: sz_wf_def quad_packet_def)
  ultimately show ?thesis
    using huff_packet_stored [of quad_packet 2 "replicate HUFF_MAX 0" quad]
    by (simp only: c) (simp add: quad_packet_def HUFF_MAX_def)
qed

end
