(* ===== verification/NetAddr.thy ===== *)
theory NetAddr
  imports Prelude
begin

text \<open>
  Network addresses: \<open>netadr_t\<close> of \<open>engine/common/net.h\<close> and the functions of
  \<open>engine/common/net_wins.c\<close> that compare, mask and classify addresses, in the build with IPv4,
  IPv6 and ICE and without IPX, IRC and Unix sockets.  \<open>address\<close> is the union of the C structure:
  64 bytes, of which IPv4 uses the first four, IPv6 the first sixteen and ICE all as a name.
\<close>

section \<open>Addresses\<close>

datatype netadrtype_t = NA_INVALID | NA_LOOPBACK | NA_IP | NA_IPV6 | NA_IPX | NA_ICE

datatype netproto_t =
  NP_DGRAM | NP_DTLS | NP_KEXLAN | NP_STREAM | NP_TLS | NP_WS | NP_WSS | NP_NATPMP |
  NP_RTC_TCP | NP_RTC_TLS | NP_INVALID

record netadr =
  adr_type :: netadrtype_t
  adr_prot :: netproto_t
  adr_port :: "16 word"
  adr_connum :: "16 word"
  adr_scopeid :: int32
  address :: "byte list"

definition adr_wf :: "netadr \<Rightarrow> bool" where
  "adr_wf a \<longleftrightarrow> length (address a) = 64"

abbreviation ip4 :: "netadr \<Rightarrow> byte list" where "ip4 a \<equiv> take 4 (address a)"
abbreviation ip6 :: "netadr \<Rightarrow> byte list" where "ip6 a \<equiv> take 16 (address a)"

definition NET_AddrIsReliable :: "netadr \<Rightarrow> bool" where
  "NET_AddrIsReliable adr = (adr_prot adr \<in> {NP_KEXLAN, NP_STREAM, NP_TLS, NP_WS, NP_WSS})"

definition NET_IsLoopBackAddress :: "netadr \<Rightarrow> bool" where
  "NET_IsLoopBackAddress adr = (adr_type adr = NA_LOOPBACK)"

section \<open>Comparing\<close>

text \<open>The three loops that recognise the IPv4 address \<open>a\<close> inside the IPv6 address \<open>b\<close>.\<close>

definition v4_in_v6 :: "netadr \<Rightarrow> netadr \<Rightarrow> bool" where
  "v4_in_v6 a b = (take 10 (address b) = replicate 10 0 \<and>
     take 2 (drop 10 (address b)) = [0xff, 0xff] \<and> ip4 a = take 4 (drop 12 (address b)))"

text \<open>\<open>!strcmp(a, b)\<close> on arrays; running off the end of both is a bad access.\<close>

fun str_same :: "byte list \<Rightarrow> byte list \<Rightarrow> bool res" where
  "str_same (x # xs) (y # ys) =
     (if x \<noteq> y then Inr False else if x = 0 then Inr True else str_same xs ys)"
| "str_same _ _ = Inl Out_Of_Bounds"

definition rtc_pair :: "netadr \<Rightarrow> netadr \<Rightarrow> bool" where
  "rtc_pair a b = ((adr_type a = NA_INVALID \<or> adr_type b = NA_INVALID) \<and>
     adr_prot a \<in> {NP_RTC_TCP, NP_RTC_TLS} \<and> adr_prot b \<in> {NP_RTC_TCP, NP_RTC_TLS})"

definition NET_CompareAdr :: "netadr \<Rightarrow> netadr \<Rightarrow> bool res" where
  "NET_CompareAdr a b =
     (if adr_prot a \<noteq> adr_prot b then Inr False
      else if adr_type a \<noteq> adr_type b then
        (if rtc_pair a b then Inr True
         else if adr_port a \<noteq> adr_port b then Inr False
         else if adr_type a = NA_IP \<and> adr_type b = NA_IPV6 then Inr (v4_in_v6 a b)
         else if adr_type a = NA_IPV6 \<and> adr_type b = NA_IP then Inr (v4_in_v6 b a)
         else Inr False)
      else (case adr_type a of
          NA_LOOPBACK \<Rightarrow> Inr True
        | NA_IP \<Rightarrow> Inr (ip4 a = ip4 b \<and> adr_port a = adr_port b)
        | NA_IPV6 \<Rightarrow> Inr (ip6 a = ip6 b \<and> adr_port a = adr_port b)
        | NA_ICE \<Rightarrow> if adr_port a \<noteq> adr_port b then Inr False
                    else str_same (address a) (address b)
        | NA_INVALID \<Rightarrow> Inr (adr_prot a \<noteq> NP_DGRAM)
        | NA_IPX \<Rightarrow> Inr False))"

definition NET_CompareBaseAdr :: "netadr \<Rightarrow> netadr \<Rightarrow> bool res" where
  "NET_CompareBaseAdr a b =
     (if adr_prot a \<noteq> adr_prot b then Inr False
      else if adr_type a \<noteq> adr_type b then
        (if rtc_pair a b then Inr True
         else if adr_type a = NA_IP \<and> adr_type b = NA_IPV6 then Inr (v4_in_v6 a b)
         else if adr_type a = NA_IPV6 \<and> adr_type b = NA_IP then Inr (v4_in_v6 b a)
         else Inr False)
      else (case adr_type a of
          NA_LOOPBACK \<Rightarrow> Inr True
        | NA_IP \<Rightarrow> Inr (ip4 a = ip4 b)
        | NA_IPV6 \<Rightarrow> Inr (ip6 a = ip6 b)
        | NA_ICE \<Rightarrow> str_same (address a) (address b)
        | NA_INVALID \<Rightarrow> if adr_prot a \<noteq> NP_DGRAM then Inr True else Inl Sys_Error
        | NA_IPX \<Rightarrow> Inl Sys_Error))"

definition NET_AddressSmellsFunny :: "netadr \<Rightarrow> bool" where
  "NET_AddressSmellsFunny a = (case adr_type a of
     NA_IP \<Rightarrow> address a ! 0 = 127 \<or> ip4 a = [0, 0, 0, 0] \<or> ip4 a = [255, 255, 255, 0]
   | NA_IPV6 \<Rightarrow> take 12 (address a) = replicate 12 0
   | NA_LOOPBACK \<Rightarrow> False
   | _ \<Rightarrow> True)"

section \<open>Masks\<close>

text \<open>The body of \<open>NET_IntegerToMask\<close> for a mask of \<open>len\<close> bytes and \<open>i\<close> bits, clamped by its caller.\<close>

fun mask_fill :: "nat \<Rightarrow> nat \<Rightarrow> byte list" where
  "mask_fill 0 i = []"
| "mask_fill (Suc len) i =
     (if i \<ge> 8 then 0xFF # mask_fill len (i - 8)
      else (if i > 0 then 255 - (push_bit (8 - i) 1 - 1) else 0) # replicate len 0)"

definition NET_IntegerToMask :: "netadr \<Rightarrow> int \<Rightarrow> netadr" where
  "NET_IntegerToMask a bits =
     (let i = (if bits < 0 then 8000 else nat bits);
          n = (case adr_type a of
                 NA_IP \<Rightarrow> mask_fill 4 (min i 32)
               | NA_IPV6 \<Rightarrow> mask_fill 16 (min i 128)
               | _ \<Rightarrow> [])
      in \<lparr>adr_type = adr_type a, adr_prot = NP_DGRAM, adr_port = 0, adr_connum = 0,
          adr_scopeid = 0, address = n @ replicate (64 - length n) 0\<rparr>)"

definition masked_same :: "nat \<Rightarrow> byte list \<Rightarrow> byte list \<Rightarrow> byte list \<Rightarrow> bool" where
  "masked_same n a b m = list_all (\<lambda>i. a ! i AND m ! i = b ! i AND m ! i) [0..<n]"

definition v4_in_v6_masked :: "netadr \<Rightarrow> netadr \<Rightarrow> netadr \<Rightarrow> bool" where
  "v4_in_v6_masked a b m = (take 10 (address b) = replicate 10 0 \<and>
     take 2 (drop 10 (address b)) = [0xff, 0xff] \<and>
     masked_same 4 (address a) (drop 12 (address b)) (address m))"

definition NET_CompareAdrMasked :: "netadr \<Rightarrow> netadr \<Rightarrow> netadr \<Rightarrow> bool" where
  "NET_CompareAdrMasked a b m =
     (if adr_type b \<noteq> adr_type m then False
      else if adr_port a \<noteq> 0 \<and> adr_port b \<noteq> 0 \<and> adr_port a \<noteq> adr_port b then False
      else if adr_type a \<noteq> adr_type b then
        (if adr_type a = NA_IP \<and> adr_type b = NA_IPV6 \<and> adr_type m = NA_IP
         then v4_in_v6_masked a b m
         else if adr_type a = NA_IPV6 \<and> adr_type b = NA_IP \<and> adr_type m = NA_IP
         then v4_in_v6_masked b a m
         else False)
      else (case adr_type a of
          NA_LOOPBACK \<Rightarrow> True
        | NA_IP \<Rightarrow> masked_same 4 (address a) (address b) (address m)
        | NA_IPV6 \<Rightarrow> masked_same 16 (address a) (address b) (address m)
        | _ \<Rightarrow> False))"

text \<open>
  \<open>UniformMaskedBits\<close>: \<open>uniform_byte\<close> is the inner \<open>while\<close> over the inverted byte, \<open>uniform_loop\<close>
  the \<open>for\<close> over the bytes, last byte first.
\<close>

function uniform_byte :: "byte \<Rightarrow> int \<Rightarrow> bool \<Rightarrow> (int \<times> bool) option" where
  "uniform_byte bs bits bitenc =
     (if bs = 0 then Some (bits, bitenc)
      else if bs AND 1 \<noteq> 0 then
        (if bitenc then None else uniform_byte (drop_bit 1 bs) (bits - 1) bitenc)
      else uniform_byte (drop_bit 1 bs) bits True)"
  by pat_completeness auto
termination
proof (relation "measure (\<lambda>(bs, _). unat bs)", simp)
  fix bs :: byte assume "bs \<noteq> 0"
  then have "unat bs \<noteq> 0" by (simp only: unat_eq_zero not_False_eq_True)
  moreover have "unat (drop_bit 1 bs) = unat bs div 2"
    by (simp only: unat_drop_bit_eq) (simp add: drop_bit_eq_div)
  ultimately have "unat (drop_bit 1 bs) < unat bs" by linarith
  then show "((drop_bit 1 bs, bits - 1, bitenc), bs, bits, bitenc) \<in> measure (\<lambda>(bs, _). unat bs)"
    "((drop_bit 1 bs, bits, True), bs, bits, bitenc) \<in> measure (\<lambda>(bs, _). unat bs)"
    for bits :: int and bitenc by simp_all
qed

declare uniform_byte.simps [simp del]

fun uniform_loop :: "byte list \<Rightarrow> int \<Rightarrow> bool \<Rightarrow> int" where
  "uniform_loop [] bits bitenc = bits"
| "uniform_loop (b # bs) bits bitenc =
     (if b = 0xFF then uniform_loop bs bits True
      else if b \<noteq> 0 then
        (case uniform_byte (NOT b) bits bitenc of
           None \<Rightarrow> -1
         | Some (bits, bitenc) \<Rightarrow> uniform_loop bs bits bitenc)
      else if bitenc then -1
      else uniform_loop bs (bits - 8) bitenc)"

definition UniformMaskedBits :: "netadr \<Rightarrow> int" where
  "UniformMaskedBits m = (case adr_type m of
     NA_IP \<Rightarrow> uniform_loop (rev (ip4 m)) 32 False
   | NA_IPV6 \<Rightarrow> uniform_loop (rev (ip6 m)) 128 False
   | _ \<Rightarrow> -1)"

section \<open>Classification\<close>

datatype addressscope = ASCOPE_PROCESS | ASCOPE_HOST | ASCOPE_LINK | ASCOPE_LAN | ASCOPE_NET

text \<open>
  \<open>BigLong\<close> on a little-endian host, and the load of an \<open>int\<close> from four bytes.  The description
  the C functions also return is only printed and left out.
\<close>

definition BigLong :: "int32 \<Rightarrow> int32" where
  "BigLong w = push_bit 24 (w AND 0xff) OR push_bit 8 (w AND 0xff00) OR
     (drop_bit 8 w AND 0xff00) OR drop_bit 24 w"

definition ld32 :: "byte list \<Rightarrow> int32" where
  "ld32 d = ucast (d ! 0) OR push_bit 8 (ucast (d ! 1)) OR push_bit 16 (ucast (d ! 2)) OR
     push_bit 24 (ucast (d ! 3))"

definition NET_ClassifyAddressipv4 :: "int32 \<Rightarrow> addressscope" where
  "NET_ClassifyAddressipv4 ip =
     (if ip AND BigLong 0xffff0000 = BigLong 0xA9FE0000 then ASCOPE_LINK
      else if ip AND BigLong 0xff000000 = BigLong 0x0a000000 then ASCOPE_LAN
      else if ip AND BigLong 0xff000000 = BigLong 0x7f000000 then ASCOPE_HOST
      else if ip AND BigLong 0xfff00000 = BigLong 0xac100000 then ASCOPE_LAN
      else if ip AND BigLong 0xffff0000 = BigLong 0xc0a80000 then ASCOPE_LAN
      else if ip AND BigLong 0xffc00000 = BigLong 0x64400000 then ASCOPE_LAN
      else if ip = BigLong 0 then ASCOPE_HOST
      else ASCOPE_NET)"

definition NET_ClassifyAddress :: "netadr \<Rightarrow> addressscope" where
  "NET_ClassifyAddress adr = (case adr_type adr of
     NA_LOOPBACK \<Rightarrow> ASCOPE_PROCESS
   | NA_IPV6 \<Rightarrow>
       (let w = ld32 (address adr) in
        if w AND BigLong 0xffc00000 = BigLong 0xfe800000 then ASCOPE_LINK
        else if w AND BigLong 0xfe000000 = BigLong 0xfc00000 then ASCOPE_LAN
        else if w = BigLong 0x20010000 then ASCOPE_NET
        else if w AND BigLong 0xffff0000 = BigLong 0x20020000 then ASCOPE_NET
        else if ip6 adr = replicate 15 0 @ [1] then ASCOPE_HOST
        else if ip6 adr = replicate 16 0 then ASCOPE_HOST
        else if take 12 (address adr) = replicate 10 0 @ [0xff, 0xff]
        then NET_ClassifyAddressipv4 (ld32 (drop 12 (address adr)))
        else ASCOPE_NET)
   | NA_IP \<Rightarrow> NET_ClassifyAddressipv4 (ld32 (address adr))
   | _ \<Rightarrow> ASCOPE_NET)"

section \<open>Comparison is equality of endpoints\<close>

text \<open>
  What an address stands for: the protocol and, past the loopback, an IPv4 endpoint (also when it
  is written as an IPv4-mapped IPv6 address), an IPv6 endpoint or a named ICE peer.
\<close>

datatype endpoint =
  EP_Loop netproto_t
| EP_V4 netproto_t "byte list" "16 word"
| EP_V6 netproto_t "byte list" "16 word"
| EP_Ice netproto_t "byte list" "16 word"

definition v4_mapped :: "netadr \<Rightarrow> bool" where
  "v4_mapped a = (take 12 (address a) = replicate 10 0 @ [0xff, 0xff])"

definition endpoint_of :: "netadr \<Rightarrow> endpoint" where
  "endpoint_of a = (case adr_type a of
     NA_IP \<Rightarrow> EP_V4 (adr_prot a) (ip4 a) (adr_port a)
   | NA_IPV6 \<Rightarrow> (if v4_mapped a then EP_V4 (adr_prot a) (take 4 (drop 12 (address a))) (adr_port a)
               else EP_V6 (adr_prot a) (ip6 a) (adr_port a))
   | NA_ICE \<Rightarrow> EP_Ice (adr_prot a) (takeWhile (\<lambda>c. c \<noteq> 0) (address a)) (adr_port a)
   | _ \<Rightarrow> EP_Loop (adr_prot a))"

definition adr_valid :: "netadr \<Rightarrow> bool" where
  "adr_valid a \<longleftrightarrow> adr_wf a \<and> adr_type a \<in> {NA_LOOPBACK, NA_IP, NA_IPV6, NA_ICE} \<and>
     (adr_type a = NA_ICE \<longrightarrow> 0 \<in> set (address a))"

lemma str_same_terminated:
  "0 \<in> set xs \<Longrightarrow> 0 \<in> set ys \<Longrightarrow>
   str_same xs ys = Inr (takeWhile (\<lambda>c. c \<noteq> 0) xs = takeWhile (\<lambda>c. c \<noteq> 0) ys)"
  by (induction xs ys rule: str_same.induct) auto

lemma take_12_split: "take 12 xs = take 10 xs @ take 2 (drop 10 xs)"
  using take_add [of 10 2 xs] by simp

lemma take_16_split: "take 16 xs = take 12 xs @ take 4 (drop 12 xs)"
  using take_add [of 12 4 xs] by simp

lemma v4_mapped_iff:
  "adr_wf b \<Longrightarrow> v4_mapped b \<longleftrightarrow>
   take 10 (address b) = replicate 10 0 \<and> take 2 (drop 10 (address b)) = [0xff, 0xff]"
  unfolding v4_mapped_def take_12_split
  by (subst append_eq_append_conv) (simp_all add: adr_wf_def)

lemma v4_in_v6_iff: "adr_wf b \<Longrightarrow> v4_in_v6 a b \<longleftrightarrow> v4_mapped b \<and> ip4 a = take 4 (drop 12 (address b))"
  by (auto simp: v4_in_v6_def v4_mapped_iff)

lemma ip6_mapped_eq:
  assumes "adr_wf a" "adr_wf b"
  shows "ip6 a = ip6 b \<longleftrightarrow> take 12 (address a) = take 12 (address b) \<and>
    take 4 (drop 12 (address a)) = take 4 (drop 12 (address b))"
  unfolding take_16_split using assms by (subst append_eq_append_conv) (simp_all add: adr_wf_def)

lemma ip6_endpoint:
  assumes "adr_wf a" "adr_wf b" "adr_type a = NA_IPV6" "adr_type b = NA_IPV6"
  shows "endpoint_of a = endpoint_of b \<longleftrightarrow>
    adr_prot a = adr_prot b \<and> ip6 a = ip6 b \<and> adr_port a = adr_port b"
proof (cases "v4_mapped a = v4_mapped b")
  case True
  then show ?thesis
    using assms ip6_mapped_eq [OF assms(1,2)]
    by (cases "v4_mapped b") (auto simp: endpoint_of_def, auto simp: v4_mapped_def)
next
  case False
  then have "ip6 a \<noteq> ip6 b"
    using ip6_mapped_eq [OF assms(1,2)] by (auto simp: v4_mapped_def)
  with False assms show ?thesis by (auto simp: endpoint_of_def)
qed

text \<open>
  C39: two addresses of the known kinds compare equal exactly when they name the same endpoint, an
  IPv4 address and its IPv6-mapped form being the same; so the comparison by which a channel
  accepts its packets is an equivalence relation.
\<close>

theorem NET_CompareAdr_endpoint:
  assumes "adr_valid a" and "adr_valid b"
  shows "NET_CompareAdr a b = Inr (endpoint_of a = endpoint_of b)"
  using assms
  by (cases "adr_type a"; cases "adr_type b")
    (auto simp: NET_CompareAdr_def rtc_pair_def adr_valid_def ip6_endpoint v4_in_v6_iff
      str_same_terminated, auto simp: endpoint_of_def split: if_splits)

definition sample_v4 :: netadr where
  "sample_v4 = \<lparr>adr_type = NA_IP, adr_prot = NP_DGRAM, adr_port = 26000, adr_connum = 1,
     adr_scopeid = 0, address = [192, 168, 1, 77] @ replicate 60 0\<rparr>"

definition sample_v6 :: netadr where
  "sample_v6 = \<lparr>adr_type = NA_IPV6, adr_prot = NP_DGRAM, adr_port = 26000, adr_connum = 0,
     adr_scopeid = 0, address = replicate 10 0 @ [255, 255, 192, 168, 1, 77] @ replicate 48 0\<rparr>"

lemma NET_CompareAdr_endpoint_witness:
  "NET_CompareAdr sample_v4 sample_v6 = Inr True"
proof -
  have "endpoint_of sample_v4 = endpoint_of sample_v6" by code_simp
  moreover have "adr_valid sample_v4" "adr_valid sample_v6" by code_simp+
  ultimately show ?thesis using NET_CompareAdr_endpoint by simp
qed

section \<open>Masks and prefixes\<close>

text \<open>The bits of an address in network order.\<close>

definition adr_bits :: "byte list \<Rightarrow> bool list" where
  "adr_bits bs = concat (map (\<lambda>b. map (bit b) (rev [0..<8])) bs)"

lemma adr_bits_Cons: "adr_bits (b # bs) = map (bit b) (rev [0..<8]) @ adr_bits bs"
  by (simp add: adr_bits_def)

lemma masked_same_Cons:
  "masked_same (Suc n) (x # a) (y # b) (m # ms) \<longleftrightarrow> x AND m = y AND m \<and> masked_same n a b ms"
  by (simp only: masked_same_def upt_conv_Cons [OF zero_less_Suc] map_Suc_upt [symmetric])
    (simp add: list.pred_map comp_def)

lemma masked_same_zero: "n \<le> k \<Longrightarrow> masked_same n a b (replicate k 0 @ rest)"
  by (auto simp: masked_same_def list_all_iff nth_append)

lemma mask_byte_eq: "i < 8 \<Longrightarrow> 255 - (push_bit (8 - i) 1 - 1) = (NOT (mask (8 - i)) :: byte)"
proof -
  have "(255 :: byte) - x = NOT x" for x
    by (simp add: not_eq_complement)
  then show ?thesis by (simp only: mask_eq_exp_minus_1 push_bit_eq_mult mult_1)
qed

lemma byte_prefix:
  fixes a b :: byte
  assumes "i \<le> 8"
  shows "a AND NOT (mask (8 - i)) = b AND NOT (mask (8 - i)) \<longleftrightarrow>
    take i (map (bit a) (rev [0..<8])) = take i (map (bit b) (rev [0..<8]))"
proof -
  have "(j \<in> set (take i (rev [0..<8]))) \<longleftrightarrow> 8 - i \<le> j \<and> j < 8" for j
    using assms by (auto simp: take_rev drop_upt)
  then show ?thesis
    by (auto simp: take_map bit_eq_iff bit_simps map_eq_conv dest: bit_byte_lt)
qed


lemma byte_and_255 [simp]: "x AND 255 = x" for x :: byte
proof -
  have "(255 :: byte) = -1" by simp
  then show ?thesis by (simp only: bit.conj_one_right)
qed

lemma mask_fill_same:
  "length a = len \<Longrightarrow> length b = len \<Longrightarrow>
   masked_same len a b (mask_fill len i @ rest) \<longleftrightarrow> take i (adr_bits a) = take i (adr_bits b)"
proof (induction len i arbitrary: a b rule: mask_fill.induct)
  case (1 i)
  then show ?case by (simp add: masked_same_def)
next
  case (2 len i)
  from "2.prems" obtain x a' y b' where ab: "a = x # a'" "b = y # b'"
    and len: "length a' = len" "length b' = len"
    by (auto simp: length_Suc_conv)
  show ?case
  proof (cases "i \<ge> 8")
    case True
    have "x = y \<longleftrightarrow> map (bit x) (rev [0..<8]) = map (bit y) (rev [0..<8])"
      using byte_prefix [of 8 x y] by simp
    then show ?thesis
      using True "2.IH" [OF True len] by (simp add: ab adr_bits_Cons masked_same_Cons)
  next
    case False
    then have mb: "mask_fill (Suc len) i = NOT (mask (8 - i)) # replicate len 0"
      using mask_byte_eq [of i] by (cases "i = 0") (simp_all add: mask_eq_exp_minus_1)
    have "masked_same len a' b' (replicate len 0 @ rest)"
      by (simp add: masked_same_zero)
    then show ?thesis
      using False byte_prefix [of i x y]
      by (simp only: mb append_Cons masked_same_Cons ab) (simp add: adr_bits_Cons)
  qed
qed

lemma length_mask_fill [simp]: "length (mask_fill len i) = len"
  by (induction len i rule: mask_fill.induct) simp_all

lemma masked_same_take:
  "masked_same n a b m \<longleftrightarrow> masked_same n (take n a) (take n b) m"
  by (simp add: masked_same_def list_all_iff)

lemma masked_same_prefix:
  assumes "n \<le> length a" and "n \<le> length b"
  shows "masked_same n a b (mask_fill n i @ rest) \<longleftrightarrow>
    take i (adr_bits (take n a)) = take i (adr_bits (take n b))"
  using assms by (subst masked_same_take) (simp add: mask_fill_same)

text \<open>
  with a mask made by \<open>NET_IntegerToMask\<close> for \<open>n\<close> bits, two IPv4 addresses match exactly when
  their first \<open>n\<close> bits in network order agree and their ports, where both are given, are the same.
\<close>

theorem NET_CompareAdrMasked_prefix:
  assumes "adr_wf a" and "adr_wf b" and "adr_type a = NA_IP" and "adr_type b = NA_IP"
    and "0 \<le> n" and "n \<le> 32"
  shows "NET_CompareAdrMasked a b (NET_IntegerToMask b n) \<longleftrightarrow>
    (adr_port a = 0 \<or> adr_port b = 0 \<or> adr_port a = adr_port b) \<and>
    take (nat n) (adr_bits (ip4 a)) = take (nat n) (adr_bits (ip4 b))"
  using assms
  by (auto simp: NET_CompareAdrMasked_def NET_IntegerToMask_def masked_same_prefix adr_wf_def
      min_def nat_le_iff)

lemma NET_CompareAdrMasked_prefix_witness:
  "NET_CompareAdrMasked sample_v4 (sample_v4\<lparr>address := [192, 168, 200, 1] @ replicate 60 0\<rparr>)
     (NET_IntegerToMask sample_v4 16)"
proof -
  let ?b = "sample_v4\<lparr>address := [192, 168, 200, 1] @ replicate 60 0\<rparr>"
  have "take 16 (adr_bits (ip4 sample_v4)) = take 16 (adr_bits (ip4 ?b))" by code_simp
  moreover have "NET_IntegerToMask ?b 16 = NET_IntegerToMask sample_v4 16"
    by (simp add: NET_IntegerToMask_def)
  ultimately show ?thesis
    using NET_CompareAdrMasked_prefix [of sample_v4 ?b 16]
    by (simp add: adr_wf_def) (simp add: sample_v4_def)
qed

section \<open>Counting the bits of a mask\<close>

lemma uniform_byte_ones:
  "k \<le> 8 \<Longrightarrow> uniform_byte (mask k) bits False = Some (bits - int k, False)"
proof (induction k arbitrary: bits)
  case 0
  then show ?case by (simp add: uniform_byte.simps)
next
  case (Suc k)
  have "drop_bit 1 (mask (Suc k) :: byte) = mask k"
    using Suc.prems by (intro bit_word_eqI) (auto simp: bit_simps)
  moreover have "bit (mask (Suc k) AND 1 :: byte) 0" and "bit (mask (Suc k) :: byte) 0"
    by (simp_all add: bit_simps)
  then have "(mask (Suc k) :: byte) AND 1 \<noteq> 0" and "(mask (Suc k) :: byte) \<noteq> 0"
    by (metis bit_0_eq bot_apply bot_bool_def)+
  ultimately show ?case
    using Suc by (subst uniform_byte.simps) simp
qed


lemma mask_fill_eq:
  "i \<le> 8 * len \<Longrightarrow> mask_fill len i = replicate (i div 8) 255 @
     (if i mod 8 = 0 then [] else [NOT (mask (8 - i mod 8))]) @ replicate (len - (i + 7) div 8) 0"
proof (induction len i rule: mask_fill.induct)
  case (2 len i)
  show ?case
  proof (cases "i \<ge> 8")
    case True
    then obtain j where j: "i = 8 + j" by (metis le_add_diff_inverse)
    then have "i div 8 = Suc (j div 8)" "(i + 7) div 8 = Suc ((j + 7) div 8)" "i mod 8 = j mod 8"
      by simp_all
    moreover have "mask_fill (Suc len) i = 255 # mask_fill len j"
      using j by simp
    ultimately show ?thesis
      using "2.IH" [OF True] "2.prems" j by simp
  next
    case False
    then show ?thesis
      using mask_byte_eq [of i] by (cases "i = 0") (simp_all add: mask_eq_exp_minus_1)
  qed
qed simp

lemma uniform_loop_zeros:
  "uniform_loop (replicate n 0 @ bs) bits False = uniform_loop bs (bits - 8 * int n) False"
proof (induction n arbitrary: bits)
  case (Suc n)
  have "bits - 8 - 8 * int n = bits - 8 * int (Suc n)" by simp
  moreover have "(0 :: byte) \<noteq> 0xFF" by simp
  ultimately show ?case
    using Suc.IH [of "bits - 8"] by (simp only: replicate_Suc append_Cons uniform_loop.simps if_False)
      (simp only: simp_thms if_False)
qed simp

lemma uniform_loop_ones: "uniform_loop (replicate n 255) bits e = bits"
  by (induction n arbitrary: e) simp_all

lemma mask_byte_cases:
  "0 < j \<Longrightarrow> j < 8 \<Longrightarrow> NOT (mask (8 - j)) \<noteq> (255 :: byte) \<and> NOT (mask (8 - j)) \<noteq> (0 :: byte)"
proof
  assume j: "0 < j" "j < 8"
  then have "\<not> bit (NOT (mask (8 - j)) :: byte) 0" and "bit (NOT (mask (8 - j)) :: byte) 7"
    by (simp_all add: bit_simps)
  moreover have "bit (255 :: byte) 0" by simp
  ultimately show "NOT (mask (8 - j)) \<noteq> (255 :: byte)" and "NOT (mask (8 - j)) \<noteq> (0 :: byte)"
    by (metis, metis bit_0_eq bot_apply bot_bool_def)
qed

lemma uniform_loop_fill:
  assumes "i \<le> 8 * len"
  shows "uniform_loop (rev (mask_fill len i)) bits False = bits - (8 * int len - int i)"
proof (cases "i mod 8 = 0")
  case True
  then obtain k where "i = 8 * k" by (metis dvd_def mod_0_imp_dvd)
  moreover from this assms have "k \<le> len" by simp
  ultimately show ?thesis
    by (simp add: mask_fill_eq uniform_loop_zeros uniform_loop_ones of_nat_diff)
next
  case False
  obtain j where j_def: "j = i mod 8" by simp
  then obtain k where k: "i = 8 * k + j" by (metis mult_div_mod_eq)
  have j: "0 < j" "j < 8" using False by (simp_all add: j_def)
  have "(i + 7) div 8 = Suc k" "i div 8 = k" using j by (simp_all add: k)
  moreover from j assms have "Suc k \<le> len" by (simp add: k)
  ultimately show ?thesis
    using assms False j uniform_byte_ones [of "8 - j"] mask_byte_cases [OF j]
    by (simp add: mask_fill_eq uniform_loop_zeros uniform_loop_ones of_nat_diff flip: j_def)
      (simp add: k)
qed

text \<open>
  \<open>UniformMaskedBits\<close> returns the number of bits a mask was made with, for IPv4 and IPv6, and
  the full length for a negative number of bits.
\<close>

theorem mask_bits_roundtrip:
  assumes "adr_type a = NA_IP \<and> len = 32 \<or> adr_type a = NA_IPV6 \<and> len = 128"
  shows "UniformMaskedBits (NET_IntegerToMask a n) = (if n < 0 then len else min n len)"
  using assms
  by (auto simp: UniformMaskedBits_def NET_IntegerToMask_def Let_def uniform_loop_fill min_def)

lemma mask_bits_roundtrip_witness:
  "UniformMaskedBits (NET_IntegerToMask sample_v6 96) = 96"
  using mask_bits_roundtrip [of sample_v6 128 96] by (simp add: sample_v6_def)

text \<open>
  a mask that is not uniform is not always refused: the bits of a partial byte are counted
  without remembering that a set bit was met when they are its highest ones, so a zero byte before
  it passes for an empty tail and a mask such as 255.0.240.0 counts as 12 bits.
\<close>

theorem UniformMaskedBits_gap:
  assumes "adr_type m = NA_IP" and "0 < j" and "j < 8"
    and "address m = [255, 0, NOT (mask (8 - j)), 0] @ rest"
  shows "UniformMaskedBits m = 8 + int j"
  using assms uniform_byte_ones [of "8 - j" 24] mask_byte_cases [of j]
  by (simp add: UniformMaskedBits_def of_nat_diff)

lemma UniformMaskedBits_gap_witness:
  "UniformMaskedBits (sample_v4\<lparr>address := [255, 0, 240, 0]\<rparr>) = 12"
  using UniformMaskedBits_gap [of "sample_v4\<lparr>address := [255, 0, 240, 0]\<rparr>" 4 "[]"]
  by (simp add: sample_v4_def mask_eq_exp_minus_1)

section \<open>Classification\<close>

lemma BigLong_consts:
  "BigLong 0xffc00000 = 0xc0ff" "BigLong 0xfe800000 = 0x80fe" "BigLong 0xfe000000 = 0xfe"
  "BigLong 0xfc00000 = 0xc00f" "BigLong 0x20010000 = 0x120" "BigLong 0xffff0000 = 0xffff"
  "BigLong 0x20020000 = 0x220"
  by (simp_all add: BigLong_def push_bit_eq_mult drop_bit_eq_div)

lemma ld32_low: "bit (ld32 d) k \<longleftrightarrow> bit (d ! 0) k" if "k < 8"
  using that by (simp add: ld32_def bit_simps)

text \<open>
  no unique local IPv6 address (fc00::/7) is ever classified as private: the constant it is
  compared with has a digit too few, so the address counts as globally routable.
\<close>

theorem ula_never_lan:
  assumes "adr_wf a" and "adr_type a = NA_IPV6" and "address a ! 0 AND 0xfe = 0xfc"
  shows "NET_ClassifyAddress a = ASCOPE_NET"
proof -
  let ?w = "ld32 (address a)"
  have b: "bit (address a ! 0 AND 0xfe) k \<longleftrightarrow> bit (0xfc :: byte) k" for k
    using assms(3) by simp
  have bits: "bit ?w 1 = False" "bit ?w 2 = True"
    using b [of 1] b [of 2] by (simp_all add: ld32_low bit_and_iff)
  have ne: "v \<noteq> u" if "bit v k \<noteq> bit u k" for v u :: int32 and k
    using that by auto
  have "?w AND 0xc0ff \<noteq> 0x80fe" "?w AND 0xfe \<noteq> 0xc00f"
    by (rule ne [of _ 1], use bits in \<open>simp add: bit_and_iff\<close>)
      (rule ne [of _ 0], simp add: bit_and_iff)
  moreover have "?w \<noteq> 0x120" "?w AND 0xffff \<noteq> 0x220"
    by (rule ne [of _ 2], use bits in \<open>simp add: bit_and_iff\<close>)+
  moreover have "address a ! 0 \<noteq> 0"
    using assms(3) by auto
  then have "ip6 a \<noteq> replicate 15 0 @ [1]" "ip6 a \<noteq> replicate 16 0"
    "take 12 (address a) \<noteq> replicate 10 0 @ [0xff, 0xff]"
    by (metis nth_append nth_replicate nth_take length_replicate zero_less_numeral)+
  ultimately show ?thesis
    using assms(2) by (simp add: NET_ClassifyAddress_def BigLong_consts Let_def)
qed

lemma ula_never_lan_witness:
  "NET_ClassifyAddress (sample_v6\<lparr>address := 0xfd # replicate 63 0\<rparr>) = ASCOPE_NET"
  using ula_never_lan [of "sample_v6\<lparr>address := 0xfd # replicate 63 0\<rparr>"]
  by (simp add: adr_wf_def sample_v6_def)

end
