(* ===== verification/NetLoop.thy ===== *)
theory NetLoop
  imports SizeBuf NetAddr
begin

text \<open>
  The loopback transport of \<open>engine/common/net_wins.c\<close> by which a client and a server in one process
  exchange packets: \<open>NET_SendLoopPacket\<close> and \<open>NET_GetLoopPacket\<close> on a ring of 64 packets that
  overwrites the oldest when it is full.  The locale \<open>bounded_fifo\<close> is what a user of such a
  transport relies on; the ring is shown to provide it.
\<close>

section \<open>The ring\<close>

definition MAX_LOOPBACK :: nat where "MAX_LOOPBACK = 64"
definition MAX_OVERALLMSGLEN :: nat where "MAX_OVERALLMSGLEN = 65536"

datatype neterr_t = NETERR_SENT | NETERR_NOROUTE | NETERR_DISCONNECTED | NETERR_MTU | NETERR_CLOGGED

record loopmsg_t =
  lm_data :: "byte list"
  lm_datalen :: nat
  lm_datamax :: nat

record loopback_t =
  lb_inited :: bool
  lb_msgs :: "loopmsg_t list"
  lb_get :: int32
  lb_send :: int32

definition loop_slot :: "int32 \<Rightarrow> nat" where
  "loop_slot n = unat (n AND (word_of_nat MAX_LOOPBACK - 1))"

text \<open>
  \<open>FTENET_Loop_EstablishConnection\<close> on the ring of its socket, whose storage \<open>FTENET_Loop_Close\<close>
  released when the socket was last used.
\<close>

definition loop_establish :: "loopback_t \<Rightarrow> loopback_t" where
  "loop_establish lb = lb\<lparr>lb_inited := True, lb_get := 0, lb_send := 0\<rparr>"

definition FTENET_Loop_Close :: "loopback_t \<Rightarrow> loopback_t" where
  "FTENET_Loop_Close lb = lb\<lparr>lb_inited := False, lb_get := 0, lb_send := 0,
     lb_msgs := map (\<lambda>_. \<lparr>lm_data = [], lm_datalen = 0, lm_datamax = 0\<rparr>) (lb_msgs lb)\<rparr>"

text \<open>
  Sending to the ring of the peer.  \<open>pkt\<close> is \<open>None\<close> for a null pointer.  Memory from the allocator
  is undefined until it is written; it is filled with zeros here and never read beyond \<open>datalen\<close>.
\<close>

definition NET_SendLoopPacket ::
  "int \<Rightarrow> loopback_t \<Rightarrow> byte list option \<Rightarrow> (neterr_t \<times> loopback_t) res" where
  "NET_SendLoopPacket net_fakemtu loop pkt =
     (case pkt of
        None \<Rightarrow> Inr (NETERR_SENT, loop)
      | Some d \<Rightarrow>
        if length d > MAX_OVERALLMSGLEN then Inr (NETERR_MTU, loop)
        else if net_fakemtu \<noteq> 0 \<and> int (length d) > \<bar>net_fakemtu\<bar> then
          Inr (if net_fakemtu < 0 then NETERR_MTU else NETERR_SENT, loop)
        else if \<not> lb_inited loop then Inr (NETERR_NOROUTE, loop)
        else
          let i = loop_slot (lb_send loop) in
          rbind (peek (lb_msgs loop) i) (\<lambda>m.
          let m = (if length d > lm_datamax m
                   then m\<lparr>lm_datamax := length d + 1024, lm_data := replicate (length d + 1024) 0\<rparr>
                   else m) in
          rbind (pokes 0 d (lm_data m)) (\<lambda>buf.
          Inr (NETERR_SENT,
               loop\<lparr>lb_send := lb_send loop + 1,
                    lb_msgs := (lb_msgs loop)[i := m\<lparr>lm_data := buf, lm_datalen := length d\<rparr>]\<rparr>))))"

definition loop_from :: netadr where
  "loop_from = \<lparr>adr_type = NA_LOOPBACK, adr_prot = NP_DGRAM, adr_port = 0, adr_connum = 0,
     adr_scopeid = 0, address = replicate 64 0\<rparr>"

text \<open>Receiving: the sender's address and the filled message, or \<open>None\<close> when nothing is waiting.\<close>

definition NET_GetLoopPacket ::
  "loopback_t \<Rightarrow> sizebuf \<Rightarrow> ((netadr \<times> sizebuf) option \<times> loopback_t) res" where
  "NET_GetLoopPacket loop message =
     (let loop = (if sint (lb_send loop - lb_get loop) > int MAX_LOOPBACK
                  then loop\<lparr>lb_get := lb_send loop - word_of_nat MAX_LOOPBACK\<rparr> else loop) in
      if sint (lb_get loop) \<ge> sint (lb_send loop) then Inr (None, loop)
      else
        let i = loop_slot (lb_get loop); loop = loop\<lparr>lb_get := lb_get loop + 1\<rparr> in
        rbind (peek (lb_msgs loop) i) (\<lambda>m.
        if maxsize message < lm_datalen m then Inl Sys_Error
        else
          rbind (sz_puts 0 (take (lm_datalen m) (lm_data m)) message) (\<lambda>message.
          Inr (Some (loop_from, message\<lparr>cursize := lm_datalen m, packing := SZ_RAWBYTES,
                                        currentbit := 0\<rparr>),
               loop\<lparr>lb_msgs := (lb_msgs loop)[i := m\<lparr>lm_datalen := 0\<rparr>]\<rparr>))))"

section \<open>What a packet queue promises\<close>

definition lastn :: "nat \<Rightarrow> 'a list \<Rightarrow> 'a list" where
  "lastn n xs = drop (length xs - n) xs"

fun push_all :: "('p \<Rightarrow> 's \<Rightarrow> 's option) \<Rightarrow> 'p list \<Rightarrow> 's \<Rightarrow> 's option" where
  "push_all push [] s = Some s"
| "push_all push (p # ps) s = (case push p s of None \<Rightarrow> None | Some s \<Rightarrow> push_all push ps s)"

fun pop_all :: "('s \<Rightarrow> ('p \<times> 's) option) \<Rightarrow> nat \<Rightarrow> 's \<Rightarrow> 'p list" where
  "pop_all pop 0 s = []"
| "pop_all pop (Suc n) s = (case pop s of None \<Rightarrow> [] | Some (p, s) \<Rightarrow> p # pop_all pop n s)"

lemma lastn_append_lastn: "lastn n (lastn n xs @ ys) = lastn n (xs @ ys)"
  by (cases "n \<le> length xs") (simp_all add: lastn_def add.commute)

lemma lastn_short [simp]: "length xs \<le> n \<Longrightarrow> lastn n xs = xs"
  by (simp add: lastn_def)

lemma length_lastn [simp]: "length (lastn n xs) = min n (length xs)"
  by (simp add: lastn_def)

text \<open>
  \<open>inv n s\<close>: the queue is well formed and takes \<open>n\<close> more packets before its counters wrap.
\<close>

locale bounded_fifo =
  fixes push :: "'p \<Rightarrow> 's \<Rightarrow> 's option" and pop :: "'s \<Rightarrow> ('p \<times> 's) option"
    and queue :: "'s \<Rightarrow> 'p list" and inv :: "nat \<Rightarrow> 's \<Rightarrow> bool" and ok :: "'p \<Rightarrow> bool"
    and cap :: nat
  assumes push_law: "inv (Suc n) s \<Longrightarrow> ok p \<Longrightarrow>
      \<exists>s'. push p s = Some s' \<and> inv n s' \<and> queue s' = lastn cap (queue s @ [p])"
    and pop_law: "inv n s \<Longrightarrow> queue s = p # ps \<Longrightarrow>
      \<exists>s'. pop s = Some (p, s') \<and> inv n s' \<and> queue s' = ps"
    and pop_empty: "inv n s \<Longrightarrow> queue s = [] \<Longrightarrow> pop s = None"
    and queue_cap: "inv n s \<Longrightarrow> length (queue s) \<le> cap"
begin

lemma push_all_queue:
  "inv (length ps + n) s \<Longrightarrow> \<forall>p \<in> set ps. ok p \<Longrightarrow>
   \<exists>s'. push_all push ps s = Some s' \<and> inv n s' \<and> queue s' = lastn cap (queue s @ ps)"
proof (induction ps arbitrary: s)
  case Nil
  then show ?case using queue_cap [of n s] by simp
next
  case (Cons p ps)
  then obtain s1 where s1: "push p s = Some s1" "inv (length ps + n) s1"
    "queue s1 = lastn cap (queue s @ [p])"
    using push_law [of "length ps + n" s p] by auto
  with Cons.IH [of s1] Cons.prems obtain s2 where "push_all push ps s1 = Some s2" "inv n s2"
    "queue s2 = lastn cap (queue s1 @ ps)"
    by auto
  with s1 show ?case by (simp add: lastn_append_lastn)
qed

lemma pop_all_queue: "inv n s \<Longrightarrow> length (queue s) \<le> k \<Longrightarrow> pop_all pop k s = queue s"
proof (induction k arbitrary: s)
  case (Suc k)
  show ?case
  proof (cases "queue s")
    case (Cons p ps)
    with pop_law [OF Suc.prems(1)] obtain s' where "pop s = Some (p, s')" "inv n s'" "queue s' = ps"
      by blast
    with Suc Cons show ?thesis by simp
  qed (use Suc.prems pop_empty in simp)
qed simp

lemma drain:
  assumes "inv (length ps + n) s" and "\<forall>p \<in> set ps. ok p" and "cap \<le> k"
  shows "\<exists>s'. push_all push ps s = Some s' \<and> pop_all pop k s' = lastn cap (queue s @ ps)"
proof -
  obtain s' where s': "push_all push ps s = Some s'" "inv n s'" "queue s' = lastn cap (queue s @ ps)"
    using push_all_queue [OF assms(1,2)] by blast
  with pop_all_queue [OF s'(2), of k] queue_cap [OF s'(2)] assms(3) show ?thesis by auto
qed

end

section \<open>The ring provides it\<close>

definition loop_push :: "byte list \<Rightarrow> loopback_t \<Rightarrow> loopback_t option" where
  "loop_push p lb = (case NET_SendLoopPacket 0 lb (Some p) of
     Inr (NETERR_SENT, lb') \<Rightarrow> Some lb' | _ \<Rightarrow> None)"

definition loop_pop :: "sizebuf \<Rightarrow> loopback_t \<Rightarrow> (byte list \<times> loopback_t) option" where
  "loop_pop message lb = (case NET_GetLoopPacket lb message of
     Inr (Some (from, m), lb') \<Rightarrow> Some (sz_content m, lb') | _ \<Rightarrow> None)"

definition lb_start :: "loopback_t \<Rightarrow> nat" where
  "lb_start lb = max (unat (lb_get lb)) (unat (lb_send lb) - MAX_LOOPBACK)"

definition lb_packet :: "loopback_t \<Rightarrow> nat \<Rightarrow> byte list" where
  "lb_packet lb k = (let m = lb_msgs lb ! (k mod MAX_LOOPBACK) in take (lm_datalen m) (lm_data m))"

definition lb_queue :: "loopback_t \<Rightarrow> byte list list" where
  "lb_queue lb = map (lb_packet lb) [lb_start lb..<unat (lb_send lb)]"

definition msg_wf :: "loopmsg_t \<Rightarrow> bool" where
  "msg_wf m \<longleftrightarrow> length (lm_data m) = lm_datamax m \<and> lm_datalen m \<le> lm_datamax m \<and>
     lm_datalen m \<le> MAX_OVERALLMSGLEN"

definition lb_inv :: "nat \<Rightarrow> loopback_t \<Rightarrow> bool" where
  "lb_inv n lb \<longleftrightarrow> lb_inited lb \<and> length (lb_msgs lb) = MAX_LOOPBACK \<and>
     list_all msg_wf (lb_msgs lb) \<and> unat (lb_get lb) \<le> unat (lb_send lb) \<and>
     unat (lb_send lb) + n < 2 ^ 31"


lemma loop_slot_mod: "loop_slot w = unat w mod MAX_LOOPBACK"
proof -
  have "word_of_nat MAX_LOOPBACK - 1 = (mask 6 :: int32)"
    by (simp add: MAX_LOOPBACK_def mask_eq_exp_minus_1)
  then have "loop_slot w = unat (take_bit 6 w)"
    by (simp only: loop_slot_def take_bit_eq_mask)
  then show ?thesis
    by (simp add: take_bit_eq_mod unat_mod MAX_LOOPBACK_def)
qed

lemma lb_inv_sint:
  assumes "lb_inv n lb"
  shows "int MAX_LOOPBACK < sint (lb_send lb - lb_get lb) \<longleftrightarrow>
      MAX_LOOPBACK + unat (lb_get lb) < unat (lb_send lb)"
    "sint (lb_send lb) \<le> sint (lb_get lb) \<longleftrightarrow> unat (lb_send lb) \<le> unat (lb_get lb)"
proof -
  have le: "lb_get lb \<le> lb_send lb" and s: "unat (lb_send lb) < 2 ^ 31"
    using assms by (simp_all add: lb_inv_def word_le_nat_alt)
  have g: "unat (lb_get lb) < 2 ^ 31"
    using le s unfolding word_le_nat_alt by linarith
  have d: "unat (lb_send lb - lb_get lb) = unat (lb_send lb) - unat (lb_get lb)"
    using le by (rule unat_sub)
  then have "unat (lb_send lb - lb_get lb) < 2 ^ 31"
    using s by linarith
  from sint_small [OF this] show "int MAX_LOOPBACK < sint (lb_send lb - lb_get lb) \<longleftrightarrow>
      MAX_LOOPBACK + unat (lb_get lb) < unat (lb_send lb)"
    unfolding d of_nat_less_iff by linarith
  show "sint (lb_send lb) \<le> sint (lb_get lb) \<longleftrightarrow> unat (lb_send lb) \<le> unat (lb_get lb)"
    unfolding sint_small [OF s] sint_small [OF g] of_nat_le_iff ..
qed

text \<open>Advancing \<open>get\<close> past the packets that were overwritten.\<close>

lemma lb_skip:
  assumes "lb_inv n lb"
  shows "unat (if sint (lb_send lb - lb_get lb) > int MAX_LOOPBACK
               then lb_send lb - word_of_nat MAX_LOOPBACK else lb_get lb) = lb_start lb"
proof -
  have k: "unat (word_of_nat MAX_LOOPBACK :: int32) = 64"
    by (simp add: MAX_LOOPBACK_def)
  show ?thesis
  proof (cases "sint (lb_send lb - lb_get lb) > int MAX_LOOPBACK")
    case True
    then have "MAX_LOOPBACK + unat (lb_get lb) < unat (lb_send lb)"
      using lb_inv_sint [OF assms] by simp
    then have "word_of_nat MAX_LOOPBACK \<le> lb_send lb" and "lb_start lb = unat (lb_send lb) - 64"
      by (auto simp: word_le_nat_alt k MAX_LOOPBACK_def lb_start_def)
    then have "unat (lb_send lb - word_of_nat MAX_LOOPBACK) = lb_start lb"
      by (simp add: unat_sub k)
    with True show ?thesis by simp
  next
    case False
    then show ?thesis
      using lb_inv_sint [OF assms] by (simp add: lb_start_def)
  qed
qed

lemma lb_packet_upd:
  assumes "length (lb_msgs lb) = MAX_LOOPBACK" and "j < MAX_LOOPBACK" and "k mod MAX_LOOPBACK \<noteq> j"
  shows "lb_packet (lb\<lparr>lb_send := s, lb_msgs := (lb_msgs lb)[j := m]\<rparr>) k = lb_packet lb k"
    "lb_packet (lb\<lparr>lb_get := g, lb_msgs := (lb_msgs lb)[j := m]\<rparr>) k = lb_packet lb k"
  using assms by (simp_all add: lb_packet_def)

lemma mod_cap_neq:
  "a < b \<Longrightarrow> b < a + MAX_LOOPBACK \<Longrightarrow> a mod MAX_LOOPBACK \<noteq> b mod MAX_LOOPBACK"
proof
  assume ab: "a < b" "b < a + MAX_LOOPBACK" and eq: "a mod MAX_LOOPBACK = b mod MAX_LOOPBACK"
  then have "MAX_LOOPBACK dvd b - a"
    by (metis less_imp_le mod_eq_dvd_iff_nat)
  then have "MAX_LOOPBACK \<le> b - a"
    using ab by (intro dvd_imp_le) auto
  with ab show False by simp
qed

text \<open>Sending appends to the queue and forgets the oldest packet when there are too many.\<close>

lemma NET_SendLoopPacket_ok:
  assumes "lb_inv (Suc n) lb" and "length p \<le> MAX_OVERALLMSGLEN"
  obtains m where "msg_wf m" "take (lm_datalen m) (lm_data m) = p"
    "NET_SendLoopPacket 0 lb (Some p) = Inr (NETERR_SENT, lb\<lparr>lb_send := lb_send lb + 1,
       lb_msgs := (lb_msgs lb)[unat (lb_send lb) mod MAX_LOOPBACK := m]\<rparr>)"
proof -
  let ?i = "unat (lb_send lb) mod MAX_LOOPBACK"
  let ?old = "lb_msgs lb ! ?i"
  let ?m = "if length p > lm_datamax ?old
            then ?old\<lparr>lm_datamax := length p + 1024, lm_data := replicate (length p + 1024) 0\<rparr>
            else ?old"
  let ?new = "?m\<lparr>lm_data := take 0 (lm_data ?m) @ p @ drop (length p) (lm_data ?m),
               lm_datalen := length p\<rparr>"
  have i: "?i < length (lb_msgs lb)"
    using assms by (simp add: lb_inv_def MAX_LOOPBACK_def)
  then have "msg_wf ?old"
    using assms by (simp add: lb_inv_def list_all_length)
  then have fit: "length p \<le> length (lm_data ?m)" and m: "length (lm_data ?m) = lm_datamax ?m"
    by (simp_all add: msg_wf_def)
  have "pokes 0 p (lm_data ?m) = Inr (p @ drop (length p) (lm_data ?m))"
    using pokes_Inr [of 0 p "lm_data ?m"] fit by simp
  then have "NET_SendLoopPacket 0 lb (Some p) = Inr (NETERR_SENT, lb\<lparr>lb_send := lb_send lb + 1,
       lb_msgs := (lb_msgs lb)[?i := ?new]\<rparr>)"
    using i assms by (simp add: NET_SendLoopPacket_def loop_slot_mod lb_inv_def Let_def)
  moreover have "msg_wf ?new" "take (lm_datalen ?new) (lm_data ?new) = p"
    using fit m assms(2) by (simp_all add: msg_wf_def)
  ultimately show ?thesis using that by blast
qed

lemma lb_queue_Suc:
  assumes "lb_inv (Suc n) lb" and "msg_wf m" and "take (lm_datalen m) (lm_data m) = p"
    and lb': "lb' = lb\<lparr>lb_send := lb_send lb + 1,
                      lb_msgs := (lb_msgs lb)[unat (lb_send lb) mod MAX_LOOPBACK := m]\<rparr>"
  shows "lb_inv n lb' \<and> lb_queue lb' = lastn MAX_LOOPBACK (lb_queue lb @ [p])"
proof
  let ?s = "unat (lb_send lb)"
  have s1: "unat (lb_send lb + 1) = ?s + 1"
    using assms(1) by (simp add: lb_inv_def unat_Suc_small)
  show "lb_inv n lb'"
    using assms s1 by (simp add: lb_inv_def list_all_length nth_list_update)
  have start: "lb_start lb' = max (lb_start lb) (?s + 1 - MAX_LOOPBACK)" and le: "lb_start lb \<le> ?s"
    using assms(1) by (auto simp: lb_start_def s1 lb' lb_inv_def)
  have old: "lb_packet lb' k = lb_packet lb k" if "lb_start lb' \<le> k" "k < ?s" for k
    unfolding lb'
  proof (rule lb_packet_upd(1))
    show "k mod MAX_LOOPBACK \<noteq> ?s mod MAX_LOOPBACK"
      using that start by (intro mod_cap_neq) auto
  qed (use assms(1) in \<open>simp_all add: lb_inv_def MAX_LOOPBACK_def\<close>)
  have new: "lb_packet lb' ?s = p"
    using assms by (simp add: lb_packet_def lb_inv_def MAX_LOOPBACK_def)
  have "lb_start lb' \<le> ?s" using start le by (simp add: MAX_LOOPBACK_def)
  then have "lb_queue lb' = map (lb_packet lb) [lb_start lb'..<?s] @ [p]"
    using old new by (simp add: lb_queue_def s1 lb')
  moreover have "lastn MAX_LOOPBACK (lb_queue lb @ [p]) =
      map (lb_packet lb) [lb_start lb'..<?s] @ [p]"
  proof -
    have "lb_start lb + (?s - (lb_start lb + 63)) = lb_start lb'"
      using start le by (simp add: MAX_LOOPBACK_def)
    then show ?thesis
      using le by (simp add: lastn_def lb_queue_def drop_map MAX_LOOPBACK_def)
  qed
  ultimately show "lb_queue lb' = lastn MAX_LOOPBACK (lb_queue lb @ [p])" by simp
qed


text \<open>Receiving takes the oldest packet that is left.\<close>

lemma lb_queue_rest:
  assumes inv: "lb_inv n lb" and ne: "lb_start lb < unat (lb_send lb)"
    and g: "unat g = lb_start lb + 1" and m: "msg_wf m"
    and lb': "lb' = lb\<lparr>lb_get := g, lb_msgs := (lb_msgs lb)[lb_start lb mod MAX_LOOPBACK := m]\<rparr>"
  shows "lb_inv n lb' \<and> lb_queue lb = lb_packet lb (lb_start lb) # lb_queue lb'"
proof
  show "lb_inv n lb'"
    using inv ne g m by (auto simp: lb_inv_def lb' list_all_length nth_list_update)
  have st: "lb_start lb' = lb_start lb + 1"
    using ne g by (auto simp: lb_start_def lb' MAX_LOOPBACK_def)
  have "lb_packet lb' k = lb_packet lb k" if k: "lb_start lb < k" "k < unat (lb_send lb)" for k
    unfolding lb'
  proof (rule lb_packet_upd(2))
    have "k < lb_start lb + MAX_LOOPBACK"
      using k(2) by (simp add: lb_start_def)
    then show "k mod MAX_LOOPBACK \<noteq> lb_start lb mod MAX_LOOPBACK"
      using mod_cap_neq [OF k(1)] by simp
  qed (use inv in \<open>simp_all add: lb_inv_def MAX_LOOPBACK_def\<close>)
  then have "map (lb_packet lb') [lb_start lb'..<unat (lb_send lb)] =
      map (lb_packet lb) [lb_start lb + 1..<unat (lb_send lb)]"
    by (simp add: st)
  moreover have "lb_send lb' = lb_send lb" by (simp add: lb')
  ultimately show "lb_queue lb = lb_packet lb (lb_start lb) # lb_queue lb'"
    using ne by (simp add: lb_queue_def upt_conv_Cons)
qed

definition lb_next :: "loopback_t \<Rightarrow> int32" where
  "lb_next lb = (if sint (lb_send lb - lb_get lb) > int MAX_LOOPBACK
                 then lb_send lb - word_of_nat MAX_LOOPBACK else lb_get lb)"

lemma NET_GetLoopPacket_eq:
  "NET_GetLoopPacket loop message =
     (let g = lb_next loop in
      if sint g \<ge> sint (lb_send loop) then Inr (None, loop\<lparr>lb_get := g\<rparr>)
      else
        rbind (peek (lb_msgs loop) (loop_slot g)) (\<lambda>m.
        if maxsize message < lm_datalen m then Inl Sys_Error
        else
          rbind (sz_puts 0 (take (lm_datalen m) (lm_data m)) message) (\<lambda>message.
          Inr (Some (loop_from, message\<lparr>cursize := lm_datalen m, packing := SZ_RAWBYTES,
                                        currentbit := 0\<rparr>),
               loop\<lparr>lb_get := g + 1,
                    lb_msgs := (lb_msgs loop)[loop_slot g := m\<lparr>lm_datalen := 0\<rparr>]\<rparr>))))"
  by (cases "sint (lb_send loop - lb_get loop) > int MAX_LOOPBACK")
    (simp_all add: NET_GetLoopPacket_def lb_next_def Let_def cong: if_cong)

definition reads_loop :: "sizebuf \<Rightarrow> bool" where
  "reads_loop message \<longleftrightarrow> sz_wf message \<and> MAX_OVERALLMSGLEN \<le> maxsize message"

lemma NET_GetLoopPacket_none:
  assumes "lb_inv n lb" and "lb_queue lb = []"
  shows "\<exists>lb'. NET_GetLoopPacket lb message = Inr (None, lb')"
proof -
  have "unat (lb_send lb) \<le> unat (lb_get lb)"
    using assms(2) by (auto simp: lb_queue_def lb_start_def MAX_LOOPBACK_def le_max_iff_disj)
  moreover from this have "\<not> MAX_LOOPBACK + unat (lb_get lb) < unat (lb_send lb)" by simp
  ultimately show ?thesis
    by (simp add: NET_GetLoopPacket_def lb_inv_sint [OF assms(1)])
qed

lemma NET_GetLoopPacket_some:
  assumes inv: "lb_inv n lb" and q: "lb_queue lb = p # ps" and rd: "reads_loop message"
  shows "\<exists>m lb'. NET_GetLoopPacket lb message = Inr (Some (loop_from, m), lb') \<and>
    sz_content m = p \<and> maxsize m = maxsize message \<and> lb_inv n lb' \<and> lb_queue lb' = ps"
proof -
  let ?g = "lb_next lb"
  let ?i = "lb_start lb mod MAX_LOOPBACK"
  let ?msg = "lb_msgs lb ! ?i"
  let ?lb = "lb\<lparr>lb_get := ?g + 1, lb_msgs := (lb_msgs lb)[?i := ?msg\<lparr>lm_datalen := 0\<rparr>]\<rparr>"
  have ne: "lb_start lb < unat (lb_send lb)"
    using q by (simp add: lb_queue_def upt_eq_Cons_conv map_eq_Cons_conv)
  have g: "unat ?g = lb_start lb" using lb_skip [OF inv] by (simp add: lb_next_def)
  have s31: "unat (lb_send lb) < 2 ^ 31" using inv by (simp add: lb_inv_def)
  then have g31: "unat ?g < 2 ^ 31" using ne g by linarith
  then have g1: "unat (?g + 1) = lb_start lb + 1" using g unat_Suc_small [OF g31] by linarith
  have i: "?i < length (lb_msgs lb)" using inv by (simp add: lb_inv_def MAX_LOOPBACK_def)
  then have wf: "msg_wf ?msg" using inv by (simp add: lb_inv_def list_all_length)
  have ns: "\<not> sint (lb_send lb) \<le> sint ?g"
    using sint_small [OF g31] sint_small [OF s31] g ne by linarith
  have p: "p = take (lm_datalen ?msg) (lm_data ?msg)"
    using q ne by (simp add: lb_queue_def upt_conv_Cons lb_packet_def Let_def)
  have len: "length p = lm_datalen ?msg" "length p \<le> maxsize message"
    using wf rd by (auto simp: p msg_wf_def reads_loop_def)
  then have cp: "sz_puts 0 p message = Inr (message\<lparr>data := p @ drop (length p) (data message)\<rparr>)"
    using rd pokes_Inr [of 0 p "data message"] by (simp add: sz_puts_def reads_loop_def sz_wf_def)
  have eq: "NET_GetLoopPacket lb message = Inr (Some (loop_from,
      message\<lparr>data := p @ drop (length p) (data message), cursize := length p,
              packing := SZ_RAWBYTES, currentbit := 0\<rparr>), ?lb)"
    using ns i g len cp by (simp add: NET_GetLoopPacket_eq loop_slot_mod p [symmetric] Let_def)
  have "lb_inv n ?lb \<and> lb_queue lb = p # lb_queue ?lb"
    using lb_queue_rest [OF inv ne g1, of "?msg\<lparr>lm_datalen := 0\<rparr>"] wf
    by (simp add: msg_wf_def lb_packet_def Let_def p)
  with q eq len show ?thesis by (auto simp: sz_content_def)
qed


definition loop_inv :: "sizebuf \<Rightarrow> nat \<Rightarrow> loopback_t \<Rightarrow> bool" where
  "loop_inv message n lb \<longleftrightarrow> reads_loop message \<and> lb_inv n lb"

interpretation loop: bounded_fifo loop_push "loop_pop message" lb_queue "loop_inv message"
  "\<lambda>p. length p \<le> MAX_OVERALLMSGLEN" MAX_LOOPBACK for message
proof
  fix n s and p :: "byte list"
  assume inv: "loop_inv message (Suc n) s" and p: "length p \<le> MAX_OVERALLMSGLEN"
  then have i: "lb_inv (Suc n) s" by (simp add: loop_inv_def)
  obtain m where "msg_wf m" "take (lm_datalen m) (lm_data m) = p"
    "NET_SendLoopPacket 0 s (Some p) = Inr (NETERR_SENT, s\<lparr>lb_send := lb_send s + 1,
       lb_msgs := (lb_msgs s)[unat (lb_send s) mod MAX_LOOPBACK := m]\<rparr>)"
    by (rule NET_SendLoopPacket_ok [OF i p])
  with lb_queue_Suc [OF i] inv
  show "\<exists>s'. loop_push p s = Some s' \<and> loop_inv message n s' \<and>
      lb_queue s' = lastn MAX_LOOPBACK (lb_queue s @ [p])"
    by (simp add: loop_push_def loop_inv_def)
next
  fix n s and p :: "byte list" and ps
  assume "loop_inv message n s" and "lb_queue s = p # ps"
  with NET_GetLoopPacket_some [of n s p ps message]
  show "\<exists>s'. loop_pop message s = Some (p, s') \<and> loop_inv message n s' \<and> lb_queue s' = ps"
    by (auto simp: loop_pop_def loop_inv_def)
next
  fix n s
  assume "loop_inv message n s" and "lb_queue s = []"
  with NET_GetLoopPacket_none [of n s message] show "loop_pop message s = None"
    by (auto simp: loop_pop_def loop_inv_def)
next
  fix n s
  assume "loop_inv message n s"
  show "length (lb_queue s) \<le> MAX_LOOPBACK"
    by (simp add: lb_queue_def lb_start_def MAX_LOOPBACK_def)
qed

text \<open>
  C40: on a freshly opened loopback, packets no longer than a message are received as they were sent
  and in the order they were sent; when more than 64 are waiting exactly the 64 newest are kept.
\<close>

theorem loopback_fifo:
  assumes "length (lb_msgs lb) = MAX_LOOPBACK" and "list_all msg_wf (lb_msgs lb)"
    and "\<forall>p \<in> set ps. length p \<le> MAX_OVERALLMSGLEN" and "length ps < 2 ^ 31"
    and "reads_loop message" and "MAX_LOOPBACK \<le> k"
  shows "\<exists>lb'. push_all loop_push ps (loop_establish lb) = Some lb' \<and>
    pop_all (loop_pop message) k lb' = lastn MAX_LOOPBACK ps"
proof -
  have "loop_inv message (length ps) (loop_establish lb)"
    using assms by (simp add: loop_inv_def lb_inv_def loop_establish_def)
  moreover have "lb_queue (loop_establish lb) = []"
    by (simp add: lb_queue_def loop_establish_def lb_start_def)
  ultimately show ?thesis
    using loop.drain [of message ps 0 "loop_establish lb" k] assms(3,6) by simp
qed

definition loop_closed :: loopback_t where
  "loop_closed = FTENET_Loop_Close \<lparr>lb_inited = True,
     lb_msgs = replicate MAX_LOOPBACK \<lparr>lm_data = [], lm_datalen = 0, lm_datamax = 0\<rparr>,
     lb_get = 3, lb_send = 7\<rparr>"

definition net_message :: sizebuf where
  "net_message = \<lparr>data = replicate MAX_OVERALLMSGLEN 0, maxsize = MAX_OVERALLMSGLEN, cursize = 0,
     allowoverflow = False, overflowed = False, packing = SZ_RAWBYTES, currentbit = 0,
     prim = \<lparr>coordtype = 0, anglesize = 0, npflags = 0\<rparr>\<rparr>"

lemma loopback_fifo_witness:
  "\<exists>lb'. push_all loop_push [[1, 2, 3], [], [4]] (loop_establish loop_closed) = Some lb' \<and>
     pop_all (loop_pop net_message) 64 lb' = [[1, 2, 3], [], [4]]"
  using loopback_fifo [of loop_closed "[[1, 2, 3], [], [4]]" net_message 64]
  by (simp add: loop_closed_def FTENET_Loop_Close_def list_all_iff msg_wf_def reads_loop_def
      net_message_def sz_wf_def MAX_LOOPBACK_def MAX_OVERALLMSGLEN_def)

end
