(* ===== verification/Netchan.thy ===== *)
theory Netchan
  imports MsgRead NetLoop HuffTree Complex_Main
begin

text \<open>
  The network channel of \<open>engine/common/net_chan.c\<close> (\<open>netchan_t\<close> of \<open>net.h\<close>): its state, opening a
  channel, bandwidth limits, out-of-band packets and receiving (\<open>Netchan_Process\<close> for QuakeWorld,
  \<open>NQNetChan_Process\<close> for the older protocol).  Sending is in the next theory.

  The host is little-endian.  \<open>int\<close> sequence numbers are 32-bit words compared with their sign;
  sizes, which stay small, are natural numbers; times and rolling averages are real numbers.
  The sockets are a parameter: \<open>sock sent to bytes\<close> is the answer of \<open>NET_SendPacket\<close> when \<open>sent\<close>
  has been sent before.
\<close>

section \<open>The channel\<close>

definition NCF_CLIENT :: int32 where "NCF_CLIENT = 1"
definition NCF_FRAGABLE :: int32 where "NCF_FRAGABLE = 2"
definition NCF_STUNAWARE :: int32 where "NCF_STUNAWARE = 4"
definition PACKET_HEADER :: nat where "PACKET_HEADER = 8"
definition ANTISTUNBIAS :: int32 where "ANTISTUNBIAS = 0x40000000"
definition MAX_QWMSGLEN :: nat where "MAX_QWMSGLEN = 1450"
definition MAX_NQMSGLEN :: nat where "MAX_NQMSGLEN = 65536"
definition MAX_NQDATAGRAM :: nat where "MAX_NQDATAGRAM = 1024"
definition OLD_AVG :: real where "OLD_AVG = 99 / 100"

type_synonym sendlog = "(netadr \<times> byte list) list"
type_synonym sockets = "sendlog \<Rightarrow> netadr \<Rightarrow> byte list \<Rightarrow> neterr_t"

definition NET_SendPacket :: "sockets \<Rightarrow> sendlog \<Rightarrow> netadr \<Rightarrow> byte list \<Rightarrow> neterr_t \<times> sendlog" where
  "NET_SendPacket sock sent to pkt = (sock sent to pkt, sent @ [(to, pkt)])"

record netchan_t =
  fatal_error :: bool
  isnqprotocol :: bool
  nqreliable_allowed :: bool
  nqreliable_resendtime :: real
  nqunreliableonly :: byte
  nc_flags :: int32
  nc_netprim :: netprim
  dupe :: int
  mtu_cur :: nat
  mtu_min :: nat
  mtu_max :: nat
  mtu_resends :: nat
  outgoing_mtu_probe :: int32
  mtu_probes :: nat
  mtu_reprobetime :: real
  sentsizes :: "16 word list"
  outgoing_sequence_last :: int32
  last_received :: real
  frame_latency :: real
  frame_rate :: real
  drop_count :: int32
  bytesin :: int32
  bytesout :: int32
  remote_address :: netadr
  nc_qport :: int32
  qportsize :: nat
  cleartime :: real
  incoming_unreliable :: int32
  incoming_sequence :: int32
  incoming_acknowledged :: int32
  incoming_reliable_acknowledged :: int32
  incoming_reliable_sequence :: int32
  outgoing_unreliable :: int32
  outgoing_sequence :: int32
  reliable_sequence :: int32
  last_reliable_sequence :: int32
  message :: sizebuf
  reliable_length :: nat
  reliable_start :: nat
  reliable_buf :: "byte list"
  compresstable :: "huffman_t option"
  in_fragment_length :: nat
  in_fragment_buf :: "byte list"

abbreviation is_client :: "netchan_t \<Rightarrow> bool" where
  "is_client chan \<equiv> nc_flags chan AND NCF_CLIENT \<noteq> 0"
abbreviation is_fragable :: "netchan_t \<Rightarrow> bool" where
  "is_fragable chan \<equiv> nc_flags chan AND NCF_FRAGABLE \<noteq> 0"
abbreviation is_stunaware :: "netchan_t \<Rightarrow> bool" where
  "is_stunaware chan \<equiv> nc_flags chan AND NCF_STUNAWARE \<noteq> 0"

text \<open>What the code reads from the rest of the engine besides the channel.\<close>

record netenv =
  realtime :: real
  demoplayback :: bool
  net_from :: netadr

section \<open>Opening a channel\<close>

definition zero_prim :: netprim where
  "zero_prim = \<lparr>coordtype = 0, anglesize = 0, npflags = 0\<rparr>"

text \<open>\<open>netchan_t\<close> after \<open>memset(chan, 0, sizeof(*chan))\<close>, and the message pointing at its storage.\<close>

definition zero_message :: sizebuf where
  "zero_message = \<lparr>data = replicate MAX_OVERALLMSGLEN 0, maxsize = 0, cursize = 0,
     allowoverflow = False, overflowed = False, packing = SZ_BAD, currentbit = 0, prim = zero_prim\<rparr>"

definition zero_netadr :: netadr where
  "zero_netadr = \<lparr>adr_type = NA_INVALID, adr_prot = NP_DGRAM, adr_port = 0, adr_connum = 0,
     adr_scopeid = 0, address = replicate 64 0\<rparr>"

definition zero_netchan :: netchan_t where
  "zero_netchan = \<lparr>fatal_error = False, isnqprotocol = False, nqreliable_allowed = False,
     nqreliable_resendtime = 0, nqunreliableonly = 0, nc_flags = 0, nc_netprim = zero_prim,
     dupe = 0, mtu_cur = 0, mtu_min = 0, mtu_max = 0, mtu_resends = 0, outgoing_mtu_probe = 0,
     mtu_probes = 0, mtu_reprobetime = 0, sentsizes = replicate 64 0, outgoing_sequence_last = 0,
     last_received = 0, frame_latency = 0, frame_rate = 0, drop_count = 0, bytesin = 0,
     bytesout = 0, remote_address = zero_netadr, nc_qport = 0, qportsize = 0, cleartime = 0,
     incoming_unreliable = 0, incoming_sequence = 0, incoming_acknowledged = 0,
     incoming_reliable_acknowledged = 0, incoming_reliable_sequence = 0, outgoing_unreliable = 0,
     outgoing_sequence = 0, reliable_sequence = 0, last_reliable_sequence = 0,
     message = zero_message, reliable_length = 0, reliable_start = 0,
     reliable_buf = replicate MAX_OVERALLMSGLEN 0, compresstable = None, in_fragment_length = 0,
     in_fragment_buf = replicate MAX_OVERALLMSGLEN 0\<rparr>"

definition setup_mtu_min :: "netadrtype_t \<Rightarrow> nat" where
  "setup_mtu_min t =
     (let m = (case t of NA_IP \<Rightarrow> 508 | NA_IPV6 \<Rightarrow> 1200 | NA_IPX \<Rightarrow> 1450 | NA_ICE \<Rightarrow> 508
                       | NA_LOOPBACK \<Rightarrow> 8192 | NA_INVALID \<Rightarrow> 1450)
      in if m < 1024 then 1200 else m)"

definition Netchan_Setup :: "netenv \<Rightarrow> int32 \<Rightarrow> netadr \<Rightarrow> int32 \<Rightarrow> nat \<Rightarrow> netchan_t" where
  "Netchan_Setup env flags adr qport mtu =
     (let qps = (if adr_prot adr = NP_KEXLAN then 0 else 2);
          mtu = (if mtu < 64 \<or> mtu > 0xffff then MAX_QWMSGLEN else mtu);
          mtu = max mtu 508;
          mtu_min = setup_mtu_min (adr_type adr);
          mtu = mtu - PACKET_HEADER;
          mtu = (if flags AND NCF_CLIENT \<noteq> 0 then mtu - qps else mtu);
          mtu = (if flags AND NCF_FRAGABLE \<noteq> 0 then mtu - 2 else mtu);
          mtu = (if adr_type adr = NA_ICE then mtu - (48 + 12)
                 else if adr_prot adr = NP_DTLS \<or> adr_prot adr = NP_TLS then mtu - 48 else mtu);
          msize = (if flags AND NCF_FRAGABLE \<noteq> 0 \<and> NET_AddrIsReliable adr then MAX_OVERALLMSGLEN
                   else min mtu MAX_OVERALLMSGLEN)
      in zero_netchan\<lparr>nc_flags := flags, remote_address := adr, last_received := realtime env,
           nqreliable_allowed := True, incoming_unreliable := -1, outgoing_sequence := 1,
           qportsize := qps, nc_qport := qport, mtu_min := min mtu mtu_min, mtu_cur := mtu,
           mtu_max := mtu, mtu_reprobetime := realtime env,
           message := zero_message\<lparr>allowoverflow := True, maxsize := msize\<rparr>\<rparr>)"

section \<open>Bandwidth\<close>

definition Netchan_CanPacket :: "netenv \<Rightarrow> netchan_t \<Rightarrow> int \<Rightarrow> bool" where
  "Netchan_CanPacket env chan rate =
     (adr_type (remote_address chan) = NA_LOOPBACK \<or> rate = 0 \<or>
      cleartime chan < realtime env + 1 / 4)"

text \<open>The conversion of a \<open>double\<close> to \<open>int\<close> drops the fraction.\<close>

definition trunc :: "real \<Rightarrow> int" where
  "trunc x = (if x < 0 then \<lceil>x\<rceil> else \<lfloor>x\<rfloor>)"

definition Netchan_CanBytes :: "netenv \<Rightarrow> netchan_t \<Rightarrow> int \<Rightarrow> int" where
  "Netchan_CanBytes env chan rate =
     (if adr_type (remote_address chan) = NA_LOOPBACK then 0x7fffffff
      else if rate = 0 then 0x7fffffff
      else trunc (((realtime env + 1 / 4) - cleartime chan) * of_int rate))"

definition Netchan_Block :: "netenv \<Rightarrow> netchan_t \<Rightarrow> int \<Rightarrow> int \<Rightarrow> netchan_t" where
  "Netchan_Block env chan bytes rate =
     (if rate \<noteq> 0 then
        (if cleartime chan < realtime env - 1 / 4
         then chan\<lparr>cleartime := realtime env + of_int bytes / of_int rate\<rparr>
         else chan\<lparr>cleartime := cleartime chan + of_int bytes / of_int rate\<rparr>)
      else chan)"

definition Netchan_CanReliable :: "netenv \<Rightarrow> netchan_t \<Rightarrow> int \<Rightarrow> bool" where
  "Netchan_CanReliable env chan rate =
     (if reliable_length chan \<noteq> 0 then False else Netchan_CanPacket env chan rate)"

text \<open>The peer acknowledged a packet after the last reliable one without its even/odd bit.\<close>

definition reliable_dropped :: "netchan_t \<Rightarrow> bool" where
  "reliable_dropped chan =
     (sint (incoming_acknowledged chan) > sint (last_reliable_sequence chan) \<and>
      incoming_reliable_acknowledged chan \<noteq> reliable_sequence chan)"

text \<open>The result is a \<open>size_t\<close>: a negative difference of two \<open>int\<close>s wraps.\<close>

definition Netchan_GetMaxUnreliable :: "netchan_t \<Rightarrow> u64" where
  "Netchan_GetMaxUnreliable chan =
     (if reliable_dropped chan \<and> reliable_length chan \<noteq> 0
      then word_of_int (int (mtu_cur chan) - int (reliable_length chan))
      else if reliable_dropped chan \<and> cursize (message chan) \<noteq> 0
      then word_of_int (int (mtu_cur chan) - int (cursize (message chan)))
      else of_nat (mtu_cur chan))"

section \<open>Out-of-band packets\<close>

definition packet_buf :: "byte list \<Rightarrow> nat \<Rightarrow> sizebuf" where
  "packet_buf storage n = \<lparr>data = storage, maxsize = n, cursize = 0, allowoverflow = False,
     overflowed = False, packing = SZ_BAD, currentbit = 0, prim = zero_prim\<rparr>"

definition Netchan_OutOfBand ::
  "netenv \<Rightarrow> sockets \<Rightarrow> byte list \<Rightarrow> netadr \<Rightarrow> byte list \<Rightarrow> sendlog \<Rightarrow> sendlog res" where
  "Netchan_OutOfBand env sock send_buf adr payload sent =
     rbind (MSG_WriteLong (packet_buf send_buf (MAX_QWMSGLEN + PACKET_HEADER)) (-1)) (\<lambda>send.
     rbind (SZ_Write send payload) (\<lambda>send.
     Inr (if demoplayback env then sent else snd (NET_SendPacket sock sent adr (sz_content send)))))"

section \<open>Receiving: QuakeWorld\<close>

definition clear_fragments :: "netchan_t \<Rightarrow> netchan_t" where
  "clear_fragments chan = chan\<lparr>incoming_unreliable := 0, in_fragment_length := 0\<rparr>"

text \<open>
  The reassembly of \<open>Netchan_Process\<close> for a non-zero offset field: \<open>None\<close> when nothing can be
  processed yet.  A fragment of a new sequence forgets the old ones; fragments must arrive in
  order.
\<close>

definition process_fragment ::
  "int32 \<Rightarrow> int32 \<Rightarrow> netchan_t \<Rightarrow> netread \<Rightarrow> (netread option \<times> netchan_t) res" where
  "process_fragment off sequence chan rd =
     (let m = msg_readmsg rd; pos = MSG_GetReadCount rd; len = cursize m - pos;
          more = (off AND 1 \<noteq> 0); offset = 4 * unat (off AND NOT 1)
      in if offset + len > MAX_OVERALLMSGLEN then Inr (None, chan)
      else
        let chan = (if incoming_unreliable chan \<noteq> sequence
                    then chan\<lparr>in_fragment_length := 0, incoming_unreliable := sequence\<rparr> else chan)
        in if offset \<noteq> in_fragment_length chan then Inr (None, chan)
        else if pos + len > length (data m) then Inl Out_Of_Bounds
        else
          rbind (pokes offset (take len (drop pos (data m))) (in_fragment_buf chan)) (\<lambda>buf.
          let chan = chan\<lparr>in_fragment_buf := buf, in_fragment_length := in_fragment_length chan + len\<rparr>
          in if more then Inr (None, chan)
          else
            rbind (sz_puts 0 (take (in_fragment_length chan) buf) m) (\<lambda>m.
            Inr (Some (rd\<lparr>msg_readmsg := m\<lparr>currentbit := 0, cursize := in_fragment_length chan\<rparr>\<rparr>),
                 clear_fragments chan))))"

text \<open>The part of \<open>Netchan_Process\<close> that accepts the message; the last result is \<open>net_drop\<close>.\<close>

definition process_accept ::
  "netenv \<Rightarrow> bool \<Rightarrow> int32 \<Rightarrow> int32 \<Rightarrow> int32 \<Rightarrow> int32 \<Rightarrow> netchan_t \<Rightarrow> netchan_t \<times> int32" where
  "process_accept env oob_reliable sequence sequence_ack reliable_message reliable_ack chan =
     (let net_drop = sequence - (incoming_sequence chan + 1);
          chan = (if sint net_drop > 0 then chan\<lparr>drop_count := drop_count chan + 1\<rparr> else chan);
          chan = (if reliable_ack = reliable_sequence chan then chan\<lparr>reliable_length := 0\<rparr> else chan);
          chan = (if oob_reliable then chan
                  else
                    let chan = chan\<lparr>incoming_sequence := sequence, incoming_acknowledged := sequence_ack,
                                    incoming_reliable_acknowledged := reliable_ack\<rparr>
                    in if reliable_message \<noteq> 0
                       then chan\<lparr>incoming_reliable_sequence := incoming_reliable_sequence chan XOR 1\<rparr>
                       else chan)
      in (chan\<lparr>frame_latency := frame_latency chan * OLD_AVG +
                 real (unat (outgoing_sequence chan - sequence_ack)) * (1 - OLD_AVG),
               frame_rate := frame_rate chan * OLD_AVG +
                 (realtime env - last_received chan) * (1 - OLD_AVG),
               last_received := realtime env\<rparr>, net_drop))"

text \<open>A packet size that is acknowledged raises the current MTU.\<close>

definition confirm_mtu :: "int32 \<Rightarrow> netchan_t \<Rightarrow> netchan_t res" where
  "confirm_mtu sequence_ack chan =
     rbind (if unat (outgoing_sequence chan - sequence_ack) < 64 - 2
            then rbind (peek (sentsizes chan) (unat (sequence_ack AND 63))) (\<lambda>w. Inr (unat w))
            else Inr 0) (\<lambda>ssize.
     Inr (if ssize \<noteq> 0 \<and> ssize > mtu_cur chan then chan\<lparr>mtu_cur := ssize, mtu_probes := 0\<rparr> else chan))"

text \<open>
  \<open>Netchan_Process\<close>: the result says whether \<open>net_message\<close> (the message of the reading state) holds
  something to parse; the state and \<open>net_drop\<close> follow, the old \<open>net_drop\<close> where it is not set.
  \<open>process_words\<close> goes on once the two words of the header have been read.
\<close>

definition process_words ::
  "netenv \<Rightarrow> int32 \<Rightarrow> int32 \<Rightarrow> netchan_t \<Rightarrow> netread \<Rightarrow> int32 \<Rightarrow> (bool \<times> netchan_t \<times> netread \<times> int32) res" where
  "process_words env sequence0 sequence_ack0 chan rd net_drop =
     (let oob_reliable = (sequence0 = 0x80000000 \<and> sequence_ack0 = 0x80000000) in
      rbind (if is_client chan then Inr rd else MSG_ReadSkip rd (int (qportsize chan))) (\<lambda>rd.
      rbind (if is_fragable chan
             then rbind (MSG_ReadShort rd) (\<lambda>(v, rd). Inr (v AND 0xffff, rd))
             else Inr (0, rd)) (\<lambda>(off, rd).
      let reliable_message = drop_bit 31 sequence0; reliable_ack = drop_bit 31 sequence_ack0;
          sequence = sequence0 AND NOT 0x80000000; sequence_ack = sequence_ack0 AND NOT 0x80000000
      in
      if oob_reliable \<and> \<not> NET_AddrIsReliable (remote_address chan) then
        Inr (False, chan, rd, net_drop)
      else if \<not> oob_reliable \<and> sequence \<le> incoming_sequence chan \<and>
              \<not> (reliable_message \<noteq> 0 \<and> adr_prot (remote_address chan) = NP_KEXLAN) then
        Inr (False, chan, rd, net_drop)
      else
        rbind (if oob_reliable then Inr chan else confirm_mtu sequence_ack chan) (\<lambda>chan.
        rbind (if off \<noteq> 0 then process_fragment off sequence chan rd
               else Inr (Some rd, clear_fragments chan)) (\<lambda>(ready, chan).
        case ready of
          None \<Rightarrow> Inr (False, chan, rd, net_drop)
        | Some rd \<Rightarrow>
            let (chan, net_drop) =
              process_accept env oob_reliable sequence sequence_ack reliable_message reliable_ack chan
            in
            (case compresstable chan of
               None \<Rightarrow> Inr (True, chan, rd, net_drop)
             | Some hf \<Rightarrow>
                 rbind (Huff_DecompressPacket hf (msg_readmsg rd) (MSG_GetReadCount rd)) (\<lambda>m.
                 Inr (True, chan, rd\<lparr>msg_readmsg := m\<rparr>, net_drop))))))))"

definition Netchan_Process ::
  "netenv \<Rightarrow> netchan_t \<Rightarrow> netread \<Rightarrow> int32 \<Rightarrow> (bool \<times> netchan_t \<times> netread \<times> int32) res" where
  "Netchan_Process env chan0 rd0 net_drop =
     rbind (if demoplayback env then Inr True else NET_CompareAdr (net_from env) (remote_address chan0))
       (\<lambda>same.
     if \<not> same then Inr (False, chan0, rd0, net_drop)
     else
       let chan = chan0\<lparr>bytesin := bytesin chan0 + word_of_nat (cursize (msg_readmsg rd0))\<rparr> in
       rbind (MSG_ReadLong (MSG_BeginReading rd0 (msg_readmsg rd0) (nc_netprim chan))) (\<lambda>(sequence, rd).
       rbind (MSG_ReadLong rd) (\<lambda>(sequence_ack, rd).
       if is_stunaware chan then
         (if BigLong sequence AND ANTISTUNBIAS = 0 then Inr (False, chan, rd, net_drop)
          else process_words env (BigLong sequence - ANTISTUNBIAS) (BigLong sequence_ack) chan rd net_drop)
       else process_words env sequence sequence_ack chan rd net_drop)))"

section \<open>Receiving: the older protocol\<close>

definition NETFLAG_LENGTH_MASK :: int32 where "NETFLAG_LENGTH_MASK = 0x0000ffff"
definition NETFLAG_DATA :: int32 where "NETFLAG_DATA = 0x00010000"
definition NETFLAG_ACK :: int32 where "NETFLAG_ACK = 0x00020000"
definition NETFLAG_EOM :: int32 where "NETFLAG_EOM = 0x00080000"
definition NETFLAG_UNRELIABLE :: int32 where "NETFLAG_UNRELIABLE = 0x00100000"
definition NETFLAG_ZLIB :: int32 where "NETFLAG_ZLIB = 0x00200000"
definition NETFLAG_CTL :: int32 where "NETFLAG_CTL = 0x80000000"

datatype nqnc_packettype_e = NQNC_IGNORED | NQNC_ACK | NQNC_RELIABLE | NQNC_UNRELIABLE

definition clc_disconnect :: byte where "clc_disconnect = 2"

text \<open>\<open>LongSwap\<close> is \<open>BigLong\<close> on the little-endian host.\<close>

abbreviation LongSwap :: "int32 \<Rightarrow> int32" where "LongSwap \<equiv> BigLong"

text \<open>An acknowledgement of the reliable packet in flight.\<close>

definition nq_acked :: "netchan_t \<Rightarrow> netchan_t" where
  "nq_acked chan =
     chan\<lparr>incoming_reliable_acknowledged := reliable_sequence chan,
          reliable_sequence := reliable_sequence chan + 1, nqreliable_allowed := True\<rparr>"

definition nq_advance :: "nat \<Rightarrow> netchan_t \<Rightarrow> netchan_t" where
  "nq_advance n chan =
     (let chan = chan\<lparr>reliable_start := reliable_start chan + n\<rparr> in
      if reliable_start chan \<ge> reliable_length chan
      then chan\<lparr>reliable_length := 0, reliable_start := 0\<rparr> else chan)"

definition nq_ack :: "netenv \<Rightarrow> int32 \<Rightarrow> netchan_t \<Rightarrow> netchan_t" where
  "nq_ack env sequence chan =
     (if sequence = reliable_sequence chan
      then (nq_acked (nq_advance MAX_NQDATAGRAM chan))\<lparr>last_received := realtime env\<rparr>
      else chan)"

definition nq_unreliable :: "netenv \<Rightarrow> int32 \<Rightarrow> netchan_t \<Rightarrow> nqnc_packettype_e \<times> netchan_t" where
  "nq_unreliable env sequence chan =
     (if sint sequence \<le> sint (incoming_unreliable chan) then (NQNC_IGNORED, chan)
      else
        let drop = sequence - incoming_unreliable chan - 1;
            chan = (if sint drop > 0 then chan\<lparr>drop_count := drop_count chan + drop\<rparr> else chan)
        in (NQNC_UNRELIABLE,
            chan\<lparr>incoming_unreliable := sequence,
                 frame_rate := frame_rate chan * OLD_AVG +
                   (realtime env - last_received chan) * (1 - OLD_AVG),
                 last_received := realtime env,
                 incoming_acknowledged := incoming_acknowledged chan + 1\<rparr>))"

definition nq_reliable ::
  "int32 \<Rightarrow> int32 \<Rightarrow> netchan_t \<Rightarrow> netread \<Rightarrow> (nqnc_packettype_e \<times> netchan_t \<times> netread) res" where
  "nq_reliable header sequence chan rd =
     (if sequence \<noteq> incoming_reliable_sequence chan then Inr (NQNC_IGNORED, chan, rd)
      else
        let m = msg_readmsg rd; n = cursize m - 8;
            chan = chan\<lparr>incoming_reliable_sequence := incoming_reliable_sequence chan + 1\<rparr>
        in if in_fragment_length chan + cursize m < 8 \<or>
              in_fragment_length chan + n \<ge> MAX_OVERALLMSGLEN
           then Inr (NQNC_IGNORED, chan\<lparr>fatal_error := True\<rparr>, rd)
        else
          rbind (pokes (in_fragment_length chan) (take n (drop 8 (data m))) (in_fragment_buf chan)) (\<lambda>buf.
          let chan = chan\<lparr>in_fragment_buf := buf, in_fragment_length := in_fragment_length chan + n\<rparr>
          in if header AND NETFLAG_EOM \<noteq> 0 then
            rbind (SZ_Write (SZ_Clear m) (take (in_fragment_length chan) buf)) (\<lambda>m.
            Inr (NQNC_RELIABLE, chan\<lparr>in_fragment_length := 0\<rparr>, MSG_BeginReading rd m (nc_netprim chan)))
          else Inr (NQNC_IGNORED, chan, rd)))"

text \<open>
  \<open>inflate\<close> stands for the decompression library: the bytes \<open>ZLib_DecompressBuffer\<close> stores, of
  which the caller's array takes 65535.
\<close>

definition NQNetChan_Process ::
  "netenv \<Rightarrow> sockets \<Rightarrow> (byte list \<Rightarrow> byte list) \<Rightarrow> netchan_t \<Rightarrow> netread \<Rightarrow> sendlog \<Rightarrow>
   (nqnc_packettype_e \<times> netchan_t \<times> netread \<times> sendlog) res" where
  "NQNetChan_Process env sock inflate chan rd sent =
     (let chan = chan\<lparr>bytesin := bytesin chan + word_of_nat (cursize (msg_readmsg rd))\<rparr>;
          rd = MSG_BeginReading rd (msg_readmsg rd) (nc_netprim chan)
      in
      rbind (MSG_ReadLong rd) (\<lambda>(v, rd).
      let header = LongSwap v in
      if header AND NETFLAG_CTL \<noteq> 0 then Inr (NQNC_IGNORED, chan, rd, sent)
      else
      rbind (if header AND NETFLAG_ZLIB = 0 then Inr (Inr (header, rd))
             else
               let m = msg_readmsg rd; n = cursize m in
               if n \<le> PACKET_HEADER \<or> n \<noteq> PACKET_HEADER + unat (header AND NETFLAG_LENGTH_MASK)
               then Inr (Inl (NQNC_IGNORED, rd))
               else
                 rbind (MSG_ReadLong rd) (\<lambda>(_, rd).
                 let tmp = take 0xffff (inflate (take (n - 8) (drop 8 (data m)))) in
                 if length tmp < PACKET_HEADER then
                   (if is_client chan then Inl Host_EndGame
                    else
                      rbind (sz_put 8 clc_disconnect m) (\<lambda>m.
                      Inr (Inl (NQNC_RELIABLE,
                        rd\<lparr>msg_readmsg := m\<lparr>cursize := 9, currentbit := currentbit (msg_readmsg rd)\<rparr>\<rparr>))))
                 else
                   rbind (sz_puts 0 tmp (m\<lparr>cursize := length tmp\<rparr>)) (\<lambda>m.
                   rbind (MSG_ReadLong (MSG_BeginReading rd m (nc_netprim chan))) (\<lambda>(v, rd).
                   Inr (Inr (LongSwap v, rd)))))) (\<lambda>r.
      case r of
        Inl (t, rd) \<Rightarrow> Inr (t, chan, rd, sent)
      | Inr (header, rd) \<Rightarrow>
          if cursize (msg_readmsg rd) \<noteq> unat (header AND NETFLAG_LENGTH_MASK)
          then Inr (NQNC_IGNORED, chan, rd, sent)
          else
            rbind (MSG_ReadLong rd) (\<lambda>(v, rd).
            let sequence = LongSwap v in
            if header AND NETFLAG_ACK \<noteq> 0 then Inr (NQNC_ACK, nq_ack env sequence chan, rd, sent)
            else if header AND NETFLAG_UNRELIABLE \<noteq> 0 then
              (let (t, chan) = nq_unreliable env sequence chan in Inr (t, chan, rd, sent))
            else if header AND NETFLAG_DATA \<noteq> 0 then
              (let runt = le32 (BigLong (NETFLAG_ACK OR 8)) @ le32 (BigLong sequence);
                   sent = snd (NET_SendPacket sock sent (net_from env) runt);
                   chan = chan\<lparr>last_received := realtime env\<rparr>
               in rbind (nq_reliable header sequence chan rd) (\<lambda>(t, chan, rd). Inr (t, chan, rd, sent)))
            else Inr (NQNC_IGNORED, chan, rd, sent)))))"

end
