(* ===== verification/NetSend.thy ===== *)
theory NetSend
  imports Netchan
begin

text \<open>
  Sending on the network channel: \<open>Netchan_Transmit\<close> of \<open>engine/common/net_chan.c\<close>, for the older
  protocol (\<open>transmit_nq\<close>) and for QuakeWorld (\<open>transmit_qw\<close>), the latter in the stages of the code:
  choosing what is reliable, the header, the payload, the MTU probe, and the datagrams, whole or in
  fragments.  \<open>send_buf\<close> is the array on the stack, of undefined content.
\<close>

section \<open>Datagrams\<close>

text \<open>\<open>for (; i < dupes && e == NETERR_SENT; i++) e = NET_SendPacket(...)\<close>.\<close>

function send_dupes ::
  "sockets \<Rightarrow> netadr \<Rightarrow> byte list \<Rightarrow> int \<Rightarrow> int \<Rightarrow> neterr_t \<Rightarrow> sendlog \<Rightarrow> int \<times> neterr_t \<times> sendlog" where
  "send_dupes sock to pkt i dupes e sent =
     (if i < dupes \<and> e = NETERR_SENT then
        (let (e, sent) = NET_SendPacket sock sent to pkt in send_dupes sock to pkt (i + 1) dupes e sent)
      else (i, e, sent))"
  by pat_completeness auto
termination
  by (relation "measure (\<lambda>(sock, to, pkt, i, dupes, e, sent). nat (dupes - i))") auto

declare send_dupes.simps [simp del]

section \<open>The older protocol\<close>

text \<open>The message becomes the reliable message in flight.\<close>

definition nq_consume :: "netchan_t \<Rightarrow> netchan_t res" where
  "nq_consume chan =
     (if reliable_length chan = 0 \<and> cursize (message chan) \<noteq> 0 \<and> nqunreliableonly chan \<noteq> 1 then
        (let n = cursize (message chan) in
         rbind (pokes 0 (take n (data (message chan))) (reliable_buf chan)) (\<lambda>buf.
         Inr (chan\<lparr>nqunreliableonly := (if nqunreliableonly chan = 2 then 1 else nqunreliableonly chan),
                   reliable_buf := buf, reliable_length := n, reliable_start := 0,
                   message := (message chan)\<lparr>cursize := 0\<rparr>\<rparr>)))
      else Inr chan)"

text \<open>One packet of the older protocol: a header with flags and length, a sequence and the payload.\<close>

definition nq_packet :: "int32 \<Rightarrow> int32 \<Rightarrow> byte list \<Rightarrow> sizebuf \<Rightarrow> sizebuf res" where
  "nq_packet flags sequence payload send =
     rbind (MSG_WriteLong send 0) (\<lambda>send.
     rbind (MSG_WriteLong send (LongSwap sequence)) (\<lambda>send.
     rbind (SZ_Write send payload) (\<lambda>send.
     sz_puts 0 (le32 (BigLong (flags OR word_of_nat (cursize send)))) send)))"

definition nq_send_reliable ::
  "netenv \<Rightarrow> sockets \<Rightarrow> netchan_t \<Rightarrow> sizebuf \<Rightarrow> sendlog \<Rightarrow> (nat \<times> netchan_t \<times> sizebuf \<times> sendlog) res" where
  "nq_send_reliable env sock chan send sent =
     (if reliable_length chan \<le> reliable_start chan then Inr (0, chan, send, sent)
      else
        let i = reliable_length chan - reliable_start chan;
            rel = NET_AddrIsReliable (remote_address chan);
            i = (if i > MAX_NQDATAGRAM \<and> \<not> rel then MAX_NQDATAGRAM else i);
            flags = (if reliable_start chan + i = reliable_length chan
                     then NETFLAG_DATA OR NETFLAG_EOM else NETFLAG_DATA)
        in
        rbind (nq_packet flags (reliable_sequence chan)
                 (take i (drop (reliable_start chan) (reliable_buf chan))) send) (\<lambda>send.
        let n = cursize send;
            chan = chan\<lparr>bytesout := bytesout chan + word_of_nat n, nqreliable_allowed := False,
                        nqreliable_resendtime := realtime env + 3 / 10\<rparr>;
            (e, sent) = NET_SendPacket sock sent (remote_address chan) (sz_content send);
            chan = (if e = NETERR_SENT \<and> (rel \<or> nqunreliableonly chan = 3)
                    then nq_acked (nq_advance i chan) else chan)
        in Inr (n, chan, send\<lparr>cursize := 0\<rparr>, sent)))"

definition nq_send_unreliable ::
  "sockets \<Rightarrow> int \<Rightarrow> byte list \<Rightarrow> netchan_t \<Rightarrow> sizebuf \<Rightarrow> sendlog \<Rightarrow> (int \<times> netchan_t \<times> sendlog) res" where
  "nq_send_unreliable sock dupes payload chan send sent =
     (if payload = [] then Inr (0, chan, sent)
      else
        rbind (nq_packet NETFLAG_UNRELIABLE (outgoing_unreliable chan) payload send) (\<lambda>send.
        let chan = chan\<lparr>outgoing_unreliable := outgoing_unreliable chan + 1\<rparr>;
            (i, e, sent) = send_dupes sock (remote_address chan) (sz_content send) (-1) dupes NETERR_SENT sent;
            chan = (if e = NETERR_MTU \<and> mtu_cur chan > mtu_min chan
                    then chan\<lparr>mtu_cur := max (mtu_min chan) (mtu_cur chan - 10)\<rparr> else chan)
        in Inr (int (cursize send) * i, chan, sent)))"

definition transmit_nq ::
  "netenv \<Rightarrow> sockets \<Rightarrow> byte list \<Rightarrow> netchan_t \<Rightarrow> byte list \<Rightarrow> int \<Rightarrow> sendlog \<Rightarrow>
   (int \<times> netchan_t \<times> sendlog) res" where
  "transmit_nq env sock send_buf chan payload rate sent =
     (let send = packet_buf send_buf (MAX_NQMSGLEN + PACKET_HEADER);
          chan = (if nqreliable_resendtime chan < realtime env
                  then chan\<lparr>nqreliable_allowed := True\<rparr> else chan)
      in
      rbind (if nqreliable_allowed chan
             then rbind (nq_consume chan) (\<lambda>chan. nq_send_reliable env sock chan send sent)
             else Inr (0, chan, send, sent)) (\<lambda>(n, chan, send, sent).
      rbind (nq_send_unreliable sock (dupe chan) payload chan send sent) (\<lambda>(u, chan, sent).
      let sentsize = int n + u;
          chan = chan\<lparr>bytesout := bytesout chan + word_of_int sentsize\<rparr>
      in Inr (sentsize, Netchan_Block env chan sentsize rate, sent))))"

section \<open>QuakeWorld: what is sent reliably\<close>

text \<open>
  Whether the reliable message goes out with this packet: it is repeated when the peer dropped it,
  and a new one is taken from the message buffer when none is in flight.
\<close>

definition qw_reliable :: "netchan_t \<Rightarrow> (bool \<times> netchan_t) res" where
  "qw_reliable chan =
     (let send_reliable = reliable_dropped chan in
      if reliable_length chan = 0 \<and> cursize (message chan) \<noteq> 0 then
        (let n = cursize (message chan) in
         rbind (pokes 0 (take n (data (message chan))) (reliable_buf chan)) (\<lambda>buf.
         Inr (True, chan\<lparr>reliable_buf := buf, reliable_length := n,
                         message := (message chan)\<lparr>cursize := 0\<rparr>,
                         reliable_sequence := reliable_sequence chan XOR 1, mtu_resends := 0\<rparr>)))
      else Inr (send_reliable, chan))"

text \<open>On a lobby transport, which is reliable by itself, the reliable message has its own packet.\<close>

definition qw_kexlan ::
  "netenv \<Rightarrow> sockets \<Rightarrow> byte list \<Rightarrow> bool \<Rightarrow> netchan_t \<Rightarrow> sendlog \<Rightarrow> (bool \<times> netchan_t \<times> sendlog) res" where
  "qw_kexlan env sock send_buf send_reliable chan sent =
     (if send_reliable \<and> adr_prot (remote_address chan) = NP_KEXLAN \<and> \<not> demoplayback env then
        rbind (if reliable_length chan \<noteq> 0 then
                 rbind (MSG_WriteLong (packet_buf send_buf (MAX_OVERALLMSGLEN + PACKET_HEADER)) 0x80000000) (\<lambda>send.
                 rbind (MSG_WriteLong send 0x80000000) (\<lambda>send.
                 rbind (SZ_Write send (take (reliable_length chan) (reliable_buf chan))) (\<lambda>send.
                 let (e, sent) = NET_SendPacket sock sent (remote_address chan) (sz_content send)
                 in Inr (if e = NETERR_SENT then chan\<lparr>reliable_length := 0\<rparr> else chan, sent))))
               else Inr (chan, sent)) (\<lambda>(chan, sent).
        Inr (False, chan\<lparr>incoming_reliable_sequence := 0\<rparr>, sent))
      else Inr (send_reliable, chan, sent))"

section \<open>QuakeWorld: the packet\<close>

lemma unat_and_63: "unat (w AND 63) = unat w mod 64" for w :: int32
proof -
  have "(63 :: int32) = mask 6" by (simp add: mask_eq_exp_minus_1)
  then have "unat (w AND 63) = unat (take_bit 6 w)" by (simp only: take_bit_eq_mask)
  then show ?thesis by (simp add: take_bit_eq_mod unat_mod)
qed

lemma and_63_iff: "v AND 63 = w AND 63 \<longleftrightarrow> unat v mod 64 = unat w mod 64" for v w :: int32
  by (simp only: word_unat_eq_iff unat_and_63)

text \<open>The sizes of packets that were never sent under this channel are forgotten.\<close>

function clear_gaps :: "int32 \<Rightarrow> int32 \<Rightarrow> 16 word list \<Rightarrow> int32 \<times> 16 word list" where
  "clear_gaps out lst sizes =
     (if lst AND 63 \<noteq> out AND 63
      then clear_gaps out (lst + 1) (sizes[unat (lst AND 63) := 0]) else (lst, sizes))"
  by pat_completeness auto
termination
proof (relation "measure (\<lambda>(out, lst, sizes). unat ((out - lst) AND 63))", simp)
  fix out lst :: int32 and sizes :: "16 word list"
  assume ne: "lst AND 63 \<noteq> out AND 63"
  obtain x where x: "out = lst + x" by (metis add_diff_cancel_left' add_diff_eq diff_add_cancel add.commute)
  have "unat out mod 64 = (unat lst + unat x) mod 64"
    by (simp add: x unat_word_ariths mod_mod_cancel)
  moreover have "unat lst mod 64 \<noteq> unat out mod 64"
    using ne by (simp add: and_63_iff)
  ultimately have m: "unat x mod 64 \<noteq> 0"
    by (metis add_0_right mod_add_right_eq)
  then have "x \<noteq> 0" by auto
  then have "unat (x - 1) = unat x - 1" by (rule unat_minus_one)
  with m have "unat (x - 1) mod 64 < unat x mod 64"
    by (metis Suc_pred' diff_Suc_1' lessI mod_Suc neq0_conv mod_0)
  moreover have "out - (lst + 1) = x - 1" "out - lst = x" by (simp_all add: x)
  ultimately show "((out, lst + 1, sizes[unat (lst AND 63) := 0]), out, lst, sizes)
      \<in> measure (\<lambda>(out, lst, sizes). unat ((out - lst) AND 63))"
    by (simp only: in_measure prod.case unat_and_63)
qed

declare clear_gaps.simps [simp del]

text \<open>The size of the header, and the fields before the payload.\<close>

definition qw_hsz :: "netchan_t \<Rightarrow> nat" where
  "qw_hsz chan = 8 + (if is_client chan then qportsize chan else 0) + (if is_fragable chan then 2 else 0)"

definition qw_words :: "netchan_t \<Rightarrow> bool \<Rightarrow> int32 \<times> int32" where
  "qw_words chan send_reliable =
     (let w1 = outgoing_sequence chan OR push_bit 31 (of_bool send_reliable);
          w2 = incoming_sequence chan OR push_bit 31 (incoming_reliable_sequence chan)
      in if is_stunaware chan then (BigLong (w1 + ANTISTUNBIAS), BigLong w2) else (w1, w2))"

definition write_qport :: "netchan_t \<Rightarrow> sizebuf \<Rightarrow> sizebuf res" where
  "write_qport chan send =
     (if is_client chan then
        (if qportsize chan = 2 then MSG_WriteShort send (nc_qport chan)
         else if qportsize chan = 1 then MSG_WriteByte send (nc_qport chan AND 0xff)
         else Inr send)
      else Inr send)"

definition qw_header :: "byte list \<Rightarrow> bool \<Rightarrow> netchan_t \<Rightarrow> sizebuf res" where
  "qw_header send_buf send_reliable chan =
     (let (w1, w2) = qw_words chan send_reliable;
          send = packet_buf send_buf (qw_hsz chan + mtu_cur chan)
      in
      rbind (MSG_WriteLong send w1) (\<lambda>send.
      rbind (MSG_WriteLong send w2) (\<lambda>send.
      rbind (write_qport chan send) (\<lambda>send.
      if is_fragable chan then MSG_WriteShort (send\<lparr>maxsize := MAX_OVERALLMSGLEN - 100\<rparr>) 0
      else Inr send))))"

text \<open>
  The reliable part of the packet: \<open>None\<close> when it does not fit, which is fatal to the channel.
  After five resends of the same message the MTU falls back to its minimum.
\<close>

definition qw_add_reliable :: "bool \<Rightarrow> netchan_t \<Rightarrow> sizebuf \<Rightarrow> (netchan_t \<times> sizebuf) option res" where
  "qw_add_reliable send_reliable chan send =
     (if \<not> send_reliable then Inr (Some (chan, send))
      else if int (maxsize send) - int (cursize send) < int (reliable_length chan) then Inr None
      else
        rbind (SZ_Write send (take (reliable_length chan) (reliable_buf chan))) (\<lambda>send.
        let chan = chan\<lparr>last_reliable_sequence := outgoing_sequence chan\<rparr>;
            chan = (if mtu_resends chan > 5 \<and> mtu_cur chan > mtu_min chan
                    then chan\<lparr>mtu_cur := mtu_min chan, mtu_probes := 0\<rparr> else chan)
        in Inr (Some (chan\<lparr>mtu_resends := mtu_resends chan + 1\<rparr>, send))))"

definition qw_blackhole :: "netchan_t \<Rightarrow> netchan_t" where
  "qw_blackhole chan =
     (if sint (outgoing_sequence chan - incoming_acknowledged chan) > 128 \<and> mtu_cur chan > mtu_min chan
      then chan\<lparr>mtu_cur := mtu_min chan, mtu_probes := 0\<rparr> else chan)"

definition svc_nop :: byte where "svc_nop = 1"
definition clc_nop :: byte where "clc_nop = 1"

text \<open>An MTU probe pads the packet with no-operations to a larger size.\<close>

definition qw_probe_due :: "bool \<Rightarrow> netchan_t \<Rightarrow> bool" where
  "qw_probe_due send_reliable chan =
     (\<not> send_reliable \<and>
      sint (incoming_acknowledged chan) \<ge> sint (outgoing_mtu_probe chan + word_of_nat (mtu_probes chan)) \<and>
      mtu_cur chan < mtu_max chan \<and> mtu_probes chan < 5)"

definition qw_reprobe :: "netenv \<Rightarrow> netchan_t \<Rightarrow> netchan_t" where
  "qw_reprobe env chan =
     (if mtu_reprobetime chan < realtime env
      then chan\<lparr>mtu_probes := min (mtu_probes chan) 4, mtu_reprobetime := realtime env + 30\<rparr>
      else chan)"

text \<open>\<open>Q_memset(SZ_GetSpace(&send, n), v, n)\<close>.\<close>

definition sz_fill :: "sizebuf \<Rightarrow> nat \<Rightarrow> byte \<Rightarrow> sizebuf res" where
  "sz_fill send n v = rbind (SZ_GetSpace send n) (\<lambda>(p, send). sz_puts p (replicate n v) send)"

definition qw_probe ::
  "netenv \<Rightarrow> bool \<Rightarrow> netchan_t \<Rightarrow> sizebuf \<Rightarrow> (bool \<times> netchan_t \<times> sizebuf) res" where
  "qw_probe env send_reliable chan send =
     (let chan = qw_reprobe env chan;
          targsize = min (mtu_max chan) (mtu_cur chan + 16);
          padsize = int (qw_hsz chan + targsize) - int (cursize send)
      in if qw_probe_due send_reliable chan \<and> padsize > 0 \<and> targsize \<le> maxsize send then
           rbind (sz_fill send (nat padsize) (if is_client chan then clc_nop else svc_nop)) (\<lambda>send.
           Inr (True, chan\<lparr>mtu_probes := mtu_probes chan + 1, outgoing_mtu_probe := outgoing_sequence chan,
                           mtu_reprobetime := realtime env + 30\<rparr>, send))
         else Inr (False, chan, send))"

section \<open>QuakeWorld: whole and fragmented datagrams\<close>

text \<open>\<open>chan->sentsizes[mtuseq] = n\<close>, which keeps sixteen bits.\<close>

definition note_sent :: "int32 \<Rightarrow> int \<Rightarrow> netchan_t \<Rightarrow> netchan_t" where
  "note_sent mtuseq n chan = chan\<lparr>sentsizes := (sentsizes chan)[unat mtuseq := word_of_int n]\<rparr>"

text \<open>A single datagram; the bytes charged are those of every copy sent.\<close>

definition qw_send_whole ::
  "sockets \<Rightarrow> int \<Rightarrow> int32 \<Rightarrow> netchan_t \<Rightarrow> sizebuf \<Rightarrow> sendlog \<Rightarrow> neterr_t \<times> int \<times> netchan_t \<times> sendlog" where
  "qw_send_whole sock dupes mtuseq chan send sent =
     (let (i, e, sent) = send_dupes sock (remote_address chan) (sz_content send) (-1) dupes NETERR_SENT sent;
          n = int (cursize send) - int (qw_hsz chan);
          chan = (if e = NETERR_MTU \<and> n > int (mtu_min chan)
                  then (let m = max (mtu_min chan) (nat (n - 10))
                        in chan\<lparr>mtu_cur := m, mtu_max := min (mtu_max chan) m\<rparr>)
                  else chan);
          chan = note_sent mtuseq n chan
      in (e, int (cursize send) + int (cursize send) * i, chan, sent))"

text \<open>
  The copies of one fragment.  The first component of the result is \<open>None\<close> when the socket found
  the first fragment too large and a smaller size is to be tried.
\<close>

function send_frag ::
  "sockets \<Rightarrow> int32 \<Rightarrow> byte list \<Rightarrow> bool \<Rightarrow> int \<Rightarrow> int \<Rightarrow> neterr_t \<Rightarrow> int \<Rightarrow> netchan_t \<Rightarrow> sendlog \<Rightarrow>
   bool \<times> neterr_t \<times> int \<times> netchan_t \<times> sendlog" where
  "send_frag sock mtuseq pkt isfirst i dupes e outbytes chan sent =
     (if i < dupes \<and> e = NETERR_SENT then
        (let (e, sent) = NET_SendPacket sock sent (remote_address chan) pkt in
         if e = NETERR_MTU \<and> isfirst \<and> mtu_cur chan > mtu_min chan then
           (let m = max (mtu_min chan) (mtu_cur chan - 16) in
            (True, NETERR_SENT, outbytes, chan\<lparr>mtu_cur := m, mtu_max := min (mtu_max chan) m\<rparr>, sent))
         else
           (let chan = (if isfirst
                        then note_sent mtuseq (int (length pkt) - int (qw_hsz chan)) chan
                        else chan)
            in send_frag sock mtuseq pkt isfirst (i + 1) dupes e (outbytes + int (length pkt)) chan sent))
      else (False, e, outbytes, chan, sent))"
  by pat_completeness auto
termination
  by (relation "measure (\<lambda>(sock, mtuseq, pkt, isfirst, i, dupes, e, outbytes, chan, sent). nat (dupes - i))")
    auto

declare send_frag.simps [simp del]

text \<open>
  The header of the fragment at \<open>offset\<close>, written over the packet bytes before its payload, which
  have been sent already.
\<close>

definition frag_header :: "int32 \<Rightarrow> int32 \<Rightarrow> netchan_t \<Rightarrow> nat \<Rightarrow> bool \<Rightarrow> sizebuf \<Rightarrow> sizebuf res" where
  "frag_header w1 w2 chan offset more_frags send =
     rbind (sz_puts offset (le32 w1) send) (\<lambda>send.
     rbind (sz_puts (offset + 4) (le32 w2) send) (\<lambda>send.
     rbind (if is_client chan then
              (if qportsize chan = 2 then sz_puts (offset + qw_hsz chan - 4) (le16 (nc_qport chan)) send
               else if qportsize chan = 1 then sz_put (offset + qw_hsz chan - 3) (ucast (nc_qport chan)) send
               else Inr send)
            else Inr send) (\<lambda>send.
     sz_puts (offset + qw_hsz chan - 2) (le16 (word_of_nat (offset div 4) OR of_bool more_frags)) send)))"

text \<open>
  The \<open>do ... while (more)\<close> over the fragments; it ends only if every turn advances \<open>offset\<close> or
  lowers the MTU, so the result is \<open>None\<close> when it does not.
\<close>

partial_function (option) qw_frags ::
  "sockets \<Rightarrow> int \<Rightarrow> int32 \<Rightarrow> int32 \<Rightarrow> int32 \<Rightarrow> nat \<Rightarrow> neterr_t \<Rightarrow> int \<Rightarrow> netchan_t \<Rightarrow> sizebuf \<Rightarrow> sendlog \<Rightarrow>
   (neterr_t \<times> int \<times> netchan_t \<times> sendlog) run" where
  "qw_frags sock dupes mtuseq w1 w2 offset e outbytes chan send sent =
     (let hsz = qw_hsz chan; total = int (cursize send) - int hsz;
          no = int offset + int (mtu_cur chan) - int hsz;
          more_frags = (no < total);
          no = (if more_frags then no - no mod 8 else total)
      in case frag_header w1 w2 chan offset more_frags send of
        Inl f \<Rightarrow> Some (Inl f)
      | Inr send \<Rightarrow>
          let pkt = take (nat (no - int offset + int hsz)) (drop offset (data send));
              (smaller, e, outbytes, chan, sent) =
                (if e = NETERR_SENT
                 then send_frag sock mtuseq pkt (offset = 0) (-1) dupes e outbytes chan sent
                 else (False, e, outbytes, chan, sent))
          in if smaller then qw_frags sock dupes mtuseq w1 w2 offset e outbytes chan send sent
             else if more_frags then qw_frags sock dupes mtuseq w1 w2 (nat no) e outbytes chan send sent
             else Some (Inr (e, outbytes, chan, sent)))"

declare qw_frags.simps [simp del]

section \<open>Transmitting\<close>

text \<open>The datagrams of a finished packet, and the accounting after them.\<close>

definition qw_datagrams ::
  "netenv \<Rightarrow> sockets \<Rightarrow> int \<Rightarrow> bool \<Rightarrow> int32 \<Rightarrow> int32 \<times> int32 \<Rightarrow> netchan_t \<Rightarrow> sizebuf \<Rightarrow> sendlog \<Rightarrow>
   (neterr_t \<times> int \<times> netchan_t \<times> sendlog) run" where
  "qw_datagrams env sock availbytes ismtuprobe mtuseq w chan send sent =
     (if demoplayback env then Some (Inr (NETERR_SENT, int (cursize send), chan, sent))
      else
        let dupes = min (dupe chan) (availbytes div int (cursize send)) in
        if ismtuprobe \<or> \<not> is_fragable chan
        then Some (Inr (qw_send_whole sock dupes mtuseq chan send sent))
        else qw_frags sock dupes mtuseq (fst w) (snd w) 0 NETERR_SENT 0 chan send sent)"

definition qw_account ::
  "netenv \<Rightarrow> bool \<Rightarrow> int \<Rightarrow> neterr_t \<Rightarrow> int \<Rightarrow> netchan_t \<Rightarrow> netchan_t" where
  "qw_account env send_reliable rate e n chan =
     (if e = NETERR_SENT then
        (let chan = (if send_reliable \<and> NET_AddrIsReliable (remote_address chan)
                     then chan\<lparr>reliable_length := 0\<rparr> else chan)
         in Netchan_Block env (chan\<lparr>bytesout := bytesout chan + word_of_int n\<rparr>) n rate)
      else chan)"

text \<open>The unreliable part, the probe and the compression of a packet.\<close>

definition qw_finish ::
  "netenv \<Rightarrow> bool \<Rightarrow> byte list \<Rightarrow> netchan_t \<Rightarrow> sizebuf \<Rightarrow> (bool \<times> netchan_t \<times> sizebuf) res" where
  "qw_finish env send_reliable payload chan send =
     rbind (if int (maxsize send) - int (cursize send) \<ge> int (length payload)
            then SZ_Write send payload else Inr send) (\<lambda>send.
     rbind (qw_probe env send_reliable (qw_blackhole chan) send) (\<lambda>(ismtuprobe, chan, send).
     case compresstable chan of
       None \<Rightarrow> Inr (ismtuprobe, chan, send)
     | Some hf \<Rightarrow>
         rbind (Huff_CompressPacket hf (replicate HUFF_MAX 0) send
                  (8 + (if is_client chan then 2 else 0) + (if is_fragable chan then 2 else 0))) (\<lambda>send.
         Inr (ismtuprobe, chan, send))))"

text \<open>
  The packet of one transmission.  The result is \<open>Inl\<close> of the channel when the reliable part does
  not fit and nothing is sent.
\<close>

definition qw_forget_gaps :: "netchan_t \<Rightarrow> netchan_t" where
  "qw_forget_gaps chan =
     (let (lst, sizes) = clear_gaps (outgoing_sequence chan) (outgoing_sequence_last chan) (sentsizes chan)
      in chan\<lparr>outgoing_sequence_last := lst, sentsizes := sizes\<rparr>)"

definition qw_packet ::
  "netenv \<Rightarrow> byte list \<Rightarrow> bool \<Rightarrow> byte list \<Rightarrow> netchan_t \<Rightarrow> (netchan_t + bool \<times> netchan_t \<times> sizebuf) res" where
  "qw_packet env send_buf send_reliable payload chan0 =
     (let chan = qw_forget_gaps chan0 in
      rbind (qw_header send_buf send_reliable chan) (\<lambda>send.
      let chan = chan\<lparr>outgoing_sequence := outgoing_sequence chan + 1\<rparr> in
      rbind (qw_add_reliable send_reliable chan send) (\<lambda>r. case r of
        None \<Rightarrow> Inr (Inl (chan\<lparr>fatal_error := True, outgoing_sequence := outgoing_sequence chan - 1\<rparr>))
      | Some (chan, send) \<Rightarrow> rbind (qw_finish env send_reliable payload chan send) (\<lambda>t. Inr (Inr t)))))"

definition transmit_qw ::
  "netenv \<Rightarrow> sockets \<Rightarrow> byte list \<Rightarrow> netchan_t \<Rightarrow> byte list \<Rightarrow> int \<Rightarrow> sendlog \<Rightarrow>
   (int \<times> netchan_t \<times> sendlog) run" where
  "transmit_qw env sock send_buf chan payload rate sent =
     (if overflowed (message chan) then Some (Inr (0, chan\<lparr>fatal_error := True\<rparr>, sent))
      else
        run_bind (Some (qw_reliable chan)) (\<lambda>(send_reliable, chan).
        run_bind (Some (qw_kexlan env sock send_buf send_reliable chan sent)) (\<lambda>(send_reliable, chan, sent).
        let mtuseq = outgoing_sequence chan AND 63; w = qw_words chan send_reliable;
            availbytes = max 0 (Netchan_CanBytes env chan rate)
        in
        run_bind (Some (qw_packet env send_buf send_reliable payload chan)) (\<lambda>r. case r of
          Inl chan \<Rightarrow> Some (Inr (0, chan, sent))
        | Inr (ismtuprobe, chan, send) \<Rightarrow>
            run_bind (qw_datagrams env sock availbytes ismtuprobe mtuseq w chan send sent) (\<lambda>(e, n, chan, sent).
            Some (Inr (n, qw_account env send_reliable rate e n chan, sent)))))))"

definition Netchan_Transmit ::
  "netenv \<Rightarrow> sockets \<Rightarrow> byte list \<Rightarrow> netchan_t \<Rightarrow> byte list \<Rightarrow> int \<Rightarrow> sendlog \<Rightarrow>
   (int \<times> netchan_t \<times> sendlog) run" where
  "Netchan_Transmit env sock send_buf chan payload rate sent =
     (if isnqprotocol chan
      then Some (transmit_nq env sock send_buf chan payload rate sent)
      else transmit_qw env sock send_buf chan payload rate sent)"

end
