(* ===== verification/NetCore.thy ===== *)
theory NetCore
  imports NetSend
begin

text \<open>
  What sending and receiving do to the part of a channel that carries the reliable protocol
  (\<open>core\<close>: sequence numbers, acknowledgements, the message in flight), apart from MTU discovery,
  statistics and fragment reassembly.  One lemma per stage of \<open>Netchan_Transmit\<close>, then the two
  characterisations \<open>transmit_core\<close> and \<open>process_core\<close> that the protocol proofs use.
\<close>

section \<open>The protocol state\<close>

record core_t =
  c_out :: int32
  c_in :: int32
  c_ack :: int32
  c_relack :: int32
  c_inrel :: int32
  c_rel :: int32
  c_lastrel :: int32
  c_len :: nat
  c_buf :: "byte list"

definition core :: "netchan_t \<Rightarrow> core_t" where
  "core chan = \<lparr>c_out = outgoing_sequence chan, c_in = incoming_sequence chan,
     c_ack = incoming_acknowledged chan, c_relack = incoming_reliable_acknowledged chan,
     c_inrel = incoming_reliable_sequence chan, c_rel = reliable_sequence chan,
     c_lastrel = last_reliable_sequence chan, c_len = reliable_length chan,
     c_buf = reliable_buf chan\<rparr>"

lemma core_simps [simp]:
  "c_out (core chan) = outgoing_sequence chan" "c_in (core chan) = incoming_sequence chan"
  "c_ack (core chan) = incoming_acknowledged chan"
  "c_relack (core chan) = incoming_reliable_acknowledged chan"
  "c_inrel (core chan) = incoming_reliable_sequence chan" "c_rel (core chan) = reliable_sequence chan"
  "c_lastrel (core chan) = last_reliable_sequence chan" "c_len (core chan) = reliable_length chan"
  "c_buf (core chan) = reliable_buf chan"
  by (simp_all add: core_def)

text \<open>
  The settings of a channel, which no operation changes.  \<open>plain\<close>: a QuakeWorld channel without
  compression on an unreliable transport.  \<open>mtu_ok\<close>: the MTU leaves room for the header and eight
  bytes of payload, the unit of fragmentation.
\<close>

definition settings :: "netchan_t \<Rightarrow> bool \<times> int32 \<times> netadr \<times> nat \<times> int32 \<times> huffman_t option \<times> nat" where
  "settings chan = (isnqprotocol chan, nc_flags chan, remote_address chan, qportsize chan,
     nc_qport chan, compresstable chan, mtu_min chan)"

definition plain :: "netchan_t \<Rightarrow> bool" where
  "plain chan \<longleftrightarrow> \<not> isnqprotocol chan \<and> compresstable chan = None \<and>
     \<not> NET_AddrIsReliable (remote_address chan)"

definition mtu_ok :: "netchan_t \<Rightarrow> bool" where
  "mtu_ok chan \<longleftrightarrow> qw_hsz chan + 8 \<le> mtu_min chan \<and> mtu_min chan \<le> mtu_cur chan"

text \<open>What sending leaves alone besides: the fragments received so far.\<close>

definition kept :: "netchan_t \<Rightarrow> (bool \<times> int32 \<times> netadr \<times> nat \<times> int32 \<times> huffman_t option \<times> nat) \<times>
    int32 \<times> nat \<times> byte list" where
  "kept chan = (settings chan, incoming_unreliable chan, in_fragment_length chan, in_fragment_buf chan)"

lemma kept_settings: "kept d = kept c \<Longrightarrow> settings d = settings c"
  by (simp add: kept_def)

lemma settings_plain: "settings d = settings c \<Longrightarrow> plain d \<longleftrightarrow> plain c"
  by (simp add: settings_def plain_def)

lemma settings_hsz: "settings d = settings c \<Longrightarrow> qw_hsz d = qw_hsz c"
  by (simp add: settings_def qw_hsz_def)

lemma settings_eqs:
  assumes "settings d = settings c"
  shows "nc_flags d = nc_flags c" "remote_address d = remote_address c" "mtu_min d = mtu_min c"
    "qportsize d = qportsize c" "nc_qport d = nc_qport c"
  using assms by (simp_all add: settings_def)

lemmas kept_hsz = settings_hsz [OF kept_settings]
lemmas kept_eqs = settings_eqs [OF kept_settings]

definition same_but_mtu :: "netchan_t \<Rightarrow> netchan_t \<Rightarrow> bool" where
  "same_but_mtu c d \<longleftrightarrow> core d = core c \<and> kept d = kept c \<and>
     (mtu_min c \<le> mtu_cur c \<longrightarrow> mtu_min d \<le> mtu_cur d)"

lemma same_but_mtu_refl [intro!, simp]: "same_but_mtu c c"
  by (simp add: same_but_mtu_def)

lemma same_but_mtu_trans [trans]: "same_but_mtu c d \<Longrightarrow> same_but_mtu d e \<Longrightarrow> same_but_mtu c e"
  by (simp add: same_but_mtu_def)

lemma same_but_mtuI:
  assumes "core d = core c" and "kept d = kept c"
    and "mtu_min c \<le> mtu_cur c \<Longrightarrow> mtu_min c \<le> mtu_cur d"
  shows "same_but_mtu c d"
  using assms by (auto simp: same_but_mtu_def kept_def settings_def)

lemma same_but_mtu_ok: "same_but_mtu c d \<Longrightarrow> mtu_ok c \<Longrightarrow> mtu_ok d"
  by (auto simp: same_but_mtu_def mtu_ok_def kept_def settings_def qw_hsz_def)

section \<open>Bytes of a packet\<close>

definition has_words :: "byte list \<Rightarrow> int32 \<Rightarrow> int32 \<Rightarrow> bool" where
  "has_words pkt w1 w2 \<longleftrightarrow> 8 \<le> length pkt \<and> take 8 pkt = le32 w1 @ le32 w2"

text \<open>
  A write that succeeds on a buffer that may not overflow has appended, inside the storage.
  \<open>sz_in N\<close>: the bytes in use lie in the storage of \<open>N\<close> bytes.
\<close>

definition sz_in :: "nat \<Rightarrow> sizebuf \<Rightarrow> bool" where
  "sz_in N sb \<longleftrightarrow> cursize sb \<le> N \<and> length (data sb) = N \<and> \<not> allowoverflow sb"

lemma pokes_bounds: "pokes i vs a = Inr a' \<Longrightarrow> i \<le> length a \<Longrightarrow> i + length vs \<le> length a"
  using pokes_overflow [of a i vs] by (cases "vs = []") force+

lemma sz_puts_bounds:
  assumes "sz_puts i vs sb = Inr sb'" and "i \<le> length (data sb)"
  shows "i + length vs \<le> length (data sb) \<and>
    sb' = sb\<lparr>data := take i (data sb) @ vs @ drop (i + length vs) (data sb)\<rparr>"
  using assms pokes_bounds [of i vs "data sb"]
  by (auto simp: sz_puts_def rbind_eq_Inr pokes_Inr)

lemma SZ_Write_in:
  assumes "SZ_Write sb bs = Inr sb'" and "sz_in N sb"
  shows "sb' = sz_append sb bs \<and> sz_in N sb' \<and> sz_content sb' = sz_content sb @ bs"
proof -
  have "sz_puts (cursize sb) bs (sb\<lparr>cursize := cursize sb + length bs\<rparr>) = Inr sb'"
    using assms by (auto simp: SZ_Write_def SZ_GetSpace_def sz_in_def split: if_splits)
  from sz_puts_bounds [OF this] assms(2) show ?thesis
    by (simp add: sz_append_def sz_in_def sz_content_def)
qed

lemma MSG_WriteLong_in:
  "MSG_WriteLong sb w = Inr sb' \<Longrightarrow> sz_in N sb \<Longrightarrow>
   sz_in N sb' \<and> sz_content sb' = sz_content sb @ le32 w"
  by (simp add: MSG_WriteLong_eq SZ_Write_in)

lemma MSG_WriteShort_in:
  "MSG_WriteShort sb w = Inr sb' \<Longrightarrow> sz_in N sb \<Longrightarrow>
   sz_in N sb' \<and> sz_content sb' = sz_content sb @ le16 w"
  by (simp add: MSG_WriteShort_eq SZ_Write_in)

section \<open>The header\<close>

definition qport_bytes :: "netchan_t \<Rightarrow> byte list" where
  "qport_bytes chan =
     (if is_client chan then
        (if qportsize chan = 2 then le16 (nc_qport chan)
         else if qportsize chan = 1 then [ucast (nc_qport chan)] else [])
      else [])"

definition header_bytes :: "netchan_t \<Rightarrow> int32 \<Rightarrow> int32 \<Rightarrow> int32 \<Rightarrow> byte list" where
  "header_bytes chan w1 w2 fo = le32 w1 @ le32 w2 @ qport_bytes chan @
     (if is_fragable chan then le16 fo else [])"

definition qps_ok :: "netchan_t \<Rightarrow> bool" where
  "qps_ok chan \<longleftrightarrow> qportsize chan \<le> 2"

lemma length_qport_bytes: "qps_ok chan \<Longrightarrow> length (qport_bytes chan) = (if is_client chan then qportsize chan else 0)"
  by (auto simp: qport_bytes_def qps_ok_def le_Suc_eq numeral_2_eq_2)

lemma length_header_bytes [simp]: "qps_ok chan \<Longrightarrow> length (header_bytes chan w1 w2 fo) = qw_hsz chan"
  by (simp add: header_bytes_def length_qport_bytes qw_hsz_def)

lemma write_qport_in:
  assumes "write_qport chan send = Inr send'" and "sz_in N send"
  shows "sz_in N send' \<and> sz_content send' = sz_content send @ qport_bytes chan"
proof -
  have b: "MSG_WriteByte send (nc_qport chan AND 255) = SZ_Write send [ucast (nc_qport chan)]"
    by (simp add: MSG_WriteByte_eq)
  show ?thesis
    using assms SZ_Write_in [of send "[ucast (nc_qport chan)]" send'] MSG_WriteShort_in [of send "nc_qport chan" send']
    by (auto simp: write_qport_def qport_bytes_def b split: if_splits)
qed

lemma qw_header_in:
  assumes "qw_header buf rel chan = Inr send" and "qw_words chan rel = (w1, w2)"
  shows "sz_in (length buf) send \<and> sz_content send = header_bytes chan w1 w2 0"
proof -
  let ?s0 = "packet_buf buf (qw_hsz chan + mtu_cur chan)"
  obtain s1 s2 s3 where s: "MSG_WriteLong ?s0 w1 = Inr s1" "MSG_WriteLong s1 w2 = Inr s2"
    "write_qport chan s2 = Inr s3"
    "(if is_fragable chan then MSG_WriteShort (s3\<lparr>maxsize := MAX_OVERALLMSGLEN - 100\<rparr>) 0 else Inr s3) = Inr send"
    using assms by (auto simp: qw_header_def Let_def rbind_eq_Inr)
  have "sz_in (length buf) ?s0" "sz_content ?s0 = []" by (simp_all add: packet_buf_def sz_in_def sz_content_def)
  with MSG_WriteLong_in [OF s(1)] have "sz_in (length buf) s1" "sz_content s1 = le32 w1" by simp_all
  with MSG_WriteLong_in [OF s(2)] have "sz_in (length buf) s2" "sz_content s2 = le32 w1 @ le32 w2" by simp_all
  with write_qport_in [OF s(3)] have s3: "sz_in (length buf) s3" "sz_content s3 = le32 w1 @ le32 w2 @ qport_bytes chan" by simp_all
  let ?s3 = "s3\<lparr>maxsize := MAX_OVERALLMSGLEN - 100\<rparr>"
  have "sz_in (length buf) ?s3" "sz_content ?s3 = sz_content s3"
    using s3 by (simp_all add: sz_in_def sz_content_def)
  with s3 s(4) MSG_WriteShort_in [of ?s3 0 send] show ?thesis
    by (auto simp: header_bytes_def split: if_splits)
qed


section \<open>The stages of sending\<close>

definition takes_new :: "netchan_t \<Rightarrow> bool" where
  "takes_new chan \<longleftrightarrow> reliable_length chan = 0 \<and> cursize (message chan) \<noteq> 0"

text \<open>The bytes of the message in flight.\<close>

definition reliable_bytes :: "netchan_t \<Rightarrow> byte list" where
  "reliable_bytes chan = take (reliable_length chan) (reliable_buf chan)"

lemma qw_reliable_core:
  assumes "qw_reliable chan = Inr (rel, c)"
  shows "rel = (takes_new chan \<or> reliable_dropped chan) \<and> kept c = kept chan \<and>
    mtu_cur c = mtu_cur chan \<and>
    (if takes_new chan
     then core c = (core chan)\<lparr>c_rel := reliable_sequence chan XOR 1, c_buf := reliable_buf c,
                               c_len := cursize (message chan)\<rparr> \<and>
          (cursize (message chan) \<le> length (data (message chan)) \<longrightarrow> reliable_bytes c = sz_content (message chan))
     else c = chan)"
proof (cases "takes_new chan")
  case True
  then obtain buf where b: "pokes 0 (take (cursize (message chan)) (data (message chan))) (reliable_buf chan) = Inr buf"
    and c: "rel" "c = chan\<lparr>reliable_buf := buf, reliable_length := cursize (message chan),
      message := (message chan)\<lparr>cursize := 0\<rparr>, reliable_sequence := reliable_sequence chan XOR 1,
      mtu_resends := 0\<rparr>"
    using assms by (auto simp: qw_reliable_def takes_new_def rbind_eq_Inr Let_def)
  have "0 + length (take (cursize (message chan)) (data (message chan))) \<le> length (reliable_buf chan)"
    using pokes_bounds [OF b] by simp
  from pokes_Inr [OF this] b have "take (cursize (message chan)) buf = sz_content (message chan)"
    if "cursize (message chan) \<le> length (data (message chan))"
    using that by (simp add: sz_content_def)
  with True c show ?thesis
    by (auto simp: kept_def settings_def core_def reliable_bytes_def)
next
  case False
  with assms show ?thesis by (auto simp: qw_reliable_def takes_new_def Let_def)
qed

lemma qw_kexlan_unreliable:
  "\<not> NET_AddrIsReliable (remote_address chan) \<Longrightarrow>
   qw_kexlan env sock buf rel chan sent = Inr (rel, chan, sent)"
  by (auto simp: qw_kexlan_def NET_AddrIsReliable_def)

lemma qw_add_reliable_core:
  assumes "qw_add_reliable rel chan send = Inr (Some (c, send'))" and "sz_in N send"
  shows "sz_in N send' \<and> kept c = kept chan \<and>
    (mtu_min chan \<le> mtu_cur chan \<longrightarrow> mtu_min c \<le> mtu_cur c) \<and>
    core c = (if rel then (core chan)\<lparr>c_lastrel := outgoing_sequence chan\<rparr> else core chan) \<and>
    sz_content send' = sz_content send @ (if rel then reliable_bytes chan else [])"
proof (cases rel)
  case True
  then obtain s where "SZ_Write send (reliable_bytes chan) = Inr s" "send' = s"
    using assms by (auto simp: qw_add_reliable_def reliable_bytes_def Let_def rbind_eq_Inr split: if_splits)
  with True assms SZ_Write_in [of send "reliable_bytes chan" send'] show ?thesis
    by (auto simp: qw_add_reliable_def core_def kept_def settings_def Let_def rbind_eq_Inr split: if_splits)
qed (use assms in \<open>simp add: qw_add_reliable_def\<close>)

lemma qw_blackhole_frame: "same_but_mtu chan (qw_blackhole chan)"
  by (rule same_but_mtuI) (simp_all add: qw_blackhole_def core_def kept_def settings_def)

lemma qw_reprobe_frame: "same_but_mtu chan (qw_reprobe env chan)"
  by (rule same_but_mtuI) (simp_all add: qw_reprobe_def core_def kept_def settings_def)

lemma sz_fill_write: "sz_fill send n v = SZ_Write send (replicate n v)"
  by (simp add: sz_fill_def SZ_Write_def)

lemma qw_probe_frame:
  assumes "qw_probe env rel chan send = Inr (p, c, send')" and "sz_in N send"
  shows "same_but_mtu chan c \<and> sz_in N send' \<and> (\<exists>pad. sz_content send' = sz_content send @ pad)"
proof -
  obtain d where d: "d = qw_reprobe env chan" by simp
  then have "same_but_mtu chan d" by (simp add: qw_reprobe_frame)
  moreover have "same_but_mtu d (d\<lparr>mtu_probes := mtu_probes d + 1,
      outgoing_mtu_probe := outgoing_sequence d, mtu_reprobetime := realtime env + 30\<rparr>)"
    by (rule same_but_mtuI) (simp_all add: core_def kept_def settings_def)
  moreover have "(c = d \<and> send' = send) \<or> (\<exists>n v. SZ_Write send (replicate n v) = Inr send' \<and>
      c = d\<lparr>mtu_probes := mtu_probes d + 1, outgoing_mtu_probe := outgoing_sequence d,
            mtu_reprobetime := realtime env + 30\<rparr>)"
    using assms(1) unfolding qw_probe_def Let_def sz_fill_write d [symmetric]
    by (auto simp: rbind_eq_Inr split: if_splits)
  moreover have "\<exists>pad. sz_content send = sz_content send @ pad" by (rule exI [of _ "[]"]) simp
  ultimately show ?thesis
    using assms(2) by (elim disjE exE conjE) (auto dest: SZ_Write_in intro: same_but_mtu_trans)
qed


lemma qw_finish_frame:
  assumes "qw_finish env rel payload chan send = Inr (p, c, send')" and "sz_in N send"
    and "compresstable chan = None"
  shows "same_but_mtu chan c \<and> sz_in N send' \<and> (\<exists>rest. sz_content send' = sz_content send @ rest)"
proof -
  obtain s1 q c' s2 where s1: "(if int (maxsize send) - int (cursize send) \<ge> int (length payload)
      then SZ_Write send payload else Inr send) = Inr s1"
    and s2: "qw_probe env rel (qw_blackhole chan) s1 = Inr (q, c', s2)"
    and c: "(case compresstable c' of None \<Rightarrow> Inr (q, c', s2)
      | Some hf \<Rightarrow> rbind (Huff_CompressPacket hf (replicate HUFF_MAX 0) s2
           (8 + (if is_client c' then 2 else 0) + (if is_fragable c' then 2 else 0))) (\<lambda>send.
         Inr (q, c', send))) = Inr (p, c, send')"
    using assms(1) unfolding qw_finish_def
    by (auto simp: rbind_eq_Inr)
  have b: "sz_in N s1" "\<exists>u. sz_content s1 = sz_content send @ u"
    using s1 assms(2) SZ_Write_in [of send payload s1] by (auto split: if_splits)
  have f: "same_but_mtu chan c'" "sz_in N s2" "\<exists>u. sz_content s2 = sz_content s1 @ u"
    using qw_probe_frame [OF s2 b(1)] qw_blackhole_frame [of chan] same_but_mtu_trans by blast+
  then have "compresstable c' = None"
    using assms(3) by (simp add: same_but_mtu_def kept_def settings_def)
  with c f b show ?thesis by auto
qed

lemma qw_forget_gaps_frame:
  "same_but_mtu chan (qw_forget_gaps chan)" "qw_words (qw_forget_gaps chan) rel = qw_words chan rel"
  "header_bytes (qw_forget_gaps chan) = header_bytes chan"
  "reliable_bytes (qw_forget_gaps chan) = reliable_bytes chan"
  "mtu_cur (qw_forget_gaps chan) = mtu_cur chan"
  by (simp_all add: qw_forget_gaps_def split_beta qw_words_def header_bytes_def qport_bytes_def
      reliable_bytes_def same_but_mtu_def core_def kept_def settings_def fun_eq_iff)

text \<open>The packet: header, reliable part, and more; the sequence number moves on.\<close>

lemma qw_packet_core:
  assumes "qw_packet env buf rel payload chan = Inr (Inr (p, c, send))"
    and "compresstable chan = None" and "qw_words chan rel = (w1, w2)"
  shows "kept c = kept chan" "mtu_min chan \<le> mtu_cur chan \<longrightarrow> mtu_min c \<le> mtu_cur c"
    "core c = (core chan)\<lparr>c_out := outgoing_sequence chan + 1,
       c_lastrel := (if rel then outgoing_sequence chan + 1 else last_reliable_sequence chan)\<rparr>"
    "sz_in (length buf) send" "\<exists>rest. sz_content send =
       header_bytes chan w1 w2 0 @ (if rel then reliable_bytes chan else []) @ rest"
proof -
  obtain c0 where c0: "c0 = qw_forget_gaps chan" by simp
  let ?c1 = "c0\<lparr>outgoing_sequence := outgoing_sequence c0 + 1\<rparr>"
  obtain s0 c2 s2 where s0: "qw_header buf rel c0 = Inr s0"
    and s2: "qw_add_reliable rel ?c1 s0 = Inr (Some (c2, s2))"
    and f: "qw_finish env rel payload c2 s2 = Inr (p, c, send)"
    using assms(1) unfolding qw_packet_def c0 [symmetric]
    by (auto simp: Let_def rbind_eq_Inr split: option.splits)
  have h: "sz_in (length buf) s0" "sz_content s0 = header_bytes chan w1 w2 0"
    using qw_header_in [OF s0] assms(3) by (simp_all add: c0 qw_forget_gaps_frame)
  have fr: "core c0 = core chan" "kept c0 = kept chan"
    "mtu_min chan \<le> mtu_cur chan \<longrightarrow> mtu_min c0 \<le> mtu_cur c0" "reliable_bytes c0 = reliable_bytes chan"
    using qw_forget_gaps_frame [of chan] by (simp_all add: same_but_mtu_def c0)
  have c1: "core ?c1 = (core chan)\<lparr>c_out := outgoing_sequence chan + 1\<rparr>" "kept ?c1 = kept chan"
    "mtu_min ?c1 = mtu_min c0" "mtu_cur ?c1 = mtu_cur c0" "reliable_bytes ?c1 = reliable_bytes chan"
    "outgoing_sequence ?c1 = outgoing_sequence chan + 1"
    using fr by (simp_all add: core_def kept_def settings_def reliable_bytes_def)
  have a: "sz_in (length buf) s2" "kept c2 = kept chan" "mtu_min chan \<le> mtu_cur chan \<longrightarrow> mtu_min c2 \<le> mtu_cur c2"
    "core c2 = (if rel then (core ?c1)\<lparr>c_lastrel := outgoing_sequence ?c1\<rparr> else core ?c1)"
    "sz_content s2 = sz_content s0 @ (if rel then reliable_bytes chan else [])"
    using qw_add_reliable_core [OF s2 h(1)] c1 fr by auto
  have "compresstable c2 = None"
    using a(2) assms(2) by (simp add: kept_def settings_def)
  from qw_finish_frame [OF f a(1) this]
  have e: "same_but_mtu c2 c" "sz_in (length buf) send" "\<exists>rest. sz_content send = sz_content s2 @ rest" by blast+
  show "kept c = kept chan" "mtu_min chan \<le> mtu_cur chan \<longrightarrow> mtu_min c \<le> mtu_cur c"
    "sz_in (length buf) send"
    using a e by (auto simp: same_but_mtu_def)
  show "core c = (core chan)\<lparr>c_out := outgoing_sequence chan + 1,
       c_lastrel := (if rel then outgoing_sequence chan + 1 else last_reliable_sequence chan)\<rparr>"
    using a(4) e(1) c1 by (simp add: same_but_mtu_def)
  show "\<exists>rest. sz_content send =
       header_bytes chan w1 w2 0 @ (if rel then reliable_bytes chan else []) @ rest"
    using e(3) a(5) h(2) by auto
qed

lemma qw_packet_fatal:
  assumes "qw_packet env buf rel payload chan = Inr (Inl c)"
  shows "same_but_mtu chan c"
proof -
  obtain c0 where c0: "c0 = qw_forget_gaps chan" by simp
  have "c = c0\<lparr>fatal_error := True\<rparr>"
    using assms unfolding qw_packet_def c0 [symmetric]
    by (auto simp: Let_def rbind_eq_Inr split: option.splits)
  then have "same_but_mtu c0 c"
    by (auto simp: same_but_mtu_def core_def kept_def settings_def)
  with qw_forget_gaps_frame(1) [of chan] show ?thesis
    unfolding c0 by (rule same_but_mtu_trans)
qed


section \<open>Datagrams\<close>

lemma send_dupes_log:
  "\<exists>j. snd (snd (send_dupes sock to pkt i dupes e sent)) = sent @ replicate j (to, pkt)"
proof (induction sock to pkt i dupes e sent rule: send_dupes.induct)
  case (1 sock to pkt i dupes e sent)
  show ?case
  proof (cases "i < dupes \<and> e = NETERR_SENT")
    case True
    have ns: "(sock sent to pkt, sent @ [(to, pkt)]) = NET_SendPacket sock sent to pkt"
      by (simp add: NET_SendPacket_def)
    from "1.IH" [OF True ns refl] obtain j where "snd (snd (send_dupes sock to pkt (i + 1) dupes
        (sock sent to pkt) (sent @ [(to, pkt)]))) = (sent @ [(to, pkt)]) @ replicate j (to, pkt)"
      by blast
    with True show ?thesis
      by (subst send_dupes.simps) (auto simp: NET_SendPacket_def intro: exI [of _ "Suc j"])
  next
    case False
    then show ?thesis by (subst send_dupes.simps) (auto intro: exI [of _ 0])
  qed
qed

lemma note_sent_frame [simp]:
  "same_but_mtu chan (note_sent mtuseq n chan)" "mtu_cur (note_sent mtuseq n chan) = mtu_cur chan"
  "remote_address (note_sent mtuseq n chan) = remote_address chan"
  by (simp_all add: note_sent_def same_but_mtu_def core_def kept_def settings_def)

lemma send_frag_frame:
  "send_frag sock mtuseq pkt isfirst i dupes e outbytes chan sent = (sm, e', n, chan', sent') \<Longrightarrow>
   same_but_mtu chan chan' \<and> (\<exists>j. sent' = sent @ replicate j (remote_address chan, pkt)) \<and>
   (if sm then mtu_cur chan' < mtu_cur chan else mtu_cur chan' = mtu_cur chan)"
proof (induction sock mtuseq pkt isfirst i dupes e outbytes chan sent rule: send_frag.induct)
  case (1 sock mtuseq pkt isfirst i dupes e outbytes chan sent)
  let ?to = "remote_address chan"
  let ?e = "sock sent ?to pkt" and ?sent = "sent @ [(?to, pkt)]"
  let ?m = "max (mtu_min chan) (mtu_cur chan - 16)"
  let ?c = "if isfirst then note_sent mtuseq (int (length pkt) - int (qw_hsz chan)) chan else chan"
  have c: "same_but_mtu chan ?c" "remote_address ?c = ?to" "mtu_cur ?c = mtu_cur chan"
    by (simp_all add: note_sent_frame)
  show ?case
  proof (cases "i < dupes \<and> e = NETERR_SENT")
    case True
    show ?thesis
    proof (cases "?e = NETERR_MTU \<and> isfirst \<and> mtu_cur chan > mtu_min chan")
      case small: True
      with True "1.prems" have "chan' = chan\<lparr>mtu_cur := ?m, mtu_max := min (mtu_max chan) ?m\<rparr>"
        "sent' = ?sent" "sm"
        by (simp_all add: send_frag.simps [of sock mtuseq pkt] NET_SendPacket_def Let_def)
      with small show ?thesis
        by (auto intro!: same_but_mtuI exI [of _ 1] simp: core_def kept_def settings_def)
    next
      case False
      obtain c1 where c1: "c1 = ?c" by simp
      with True False "1.prems" have step: "send_frag sock mtuseq pkt isfirst (i + 1) dupes ?e
          (outbytes + int (length pkt)) c1 ?sent = (sm, e', n, chan', sent')"
        by (subst (asm) send_frag.simps)
          (simp only: NET_SendPacket_def Let_def prod.case if_not_P [OF False] True simp_thms if_True if_False)
      have ns: "(?e, ?sent) = NET_SendPacket sock sent ?to pkt"
        by (simp add: NET_SendPacket_def)
      have "same_but_mtu chan c1" "remote_address c1 = ?to" "mtu_cur c1 = mtu_cur chan"
        using c by (simp_all only: c1)
      moreover from "1.IH" [OF True ns refl False c1 step] obtain j where
        "same_but_mtu c1 chan'" "sent' = ?sent @ replicate j (remote_address c1, pkt)"
        "if sm then mtu_cur chan' < mtu_cur c1 else mtu_cur chan' = mtu_cur c1"
        by blast
      ultimately show ?thesis
        by (auto intro: same_but_mtu_trans exI [of _ "Suc j"])
    qed
  next
    case False
    with "1.prems" show ?thesis
      by (subst (asm) send_frag.simps) (auto intro: exI [of _ 0])
  qed
qed

lemma pokes_append: "pokes i (xs @ ys) a = rbind (pokes i xs a) (pokes (i + length xs) ys)"
proof (induction xs arbitrary: i a)
  case (Cons v xs)
  have "pokes (Suc i) (xs @ ys) = (\<lambda>a. rbind (pokes (Suc i) xs a) (pokes (Suc i + length xs) ys))"
    by (rule ext) (rule Cons.IH)
  then show ?case by (simp add: rbind_assoc)
qed simp

lemma sz_puts_append:
  "sz_puts i (xs @ ys) = (\<lambda>sb. rbind (sz_puts i xs sb) (sz_puts (i + length xs) ys))"
  by (auto simp: sz_puts_def pokes_append rbind_def fun_eq_iff split: sum.splits)

lemma frag_header_puts:
  assumes "is_fragable chan" and "qps_ok chan"
  shows "frag_header w1 w2 chan offset mf send =
    sz_puts offset (header_bytes chan w1 w2 (word_of_nat (offset div 4) OR of_bool mf)) send"
proof -
  have one: "sz_put i v sb = sz_puts i [v] sb" for i v sb
    by (simp add: sz_puts_Cons sz_puts_Nil)
  have "qportsize chan \<in> {0, 1, 2}" using assms(2) by (auto simp: qps_ok_def)
  then show ?thesis
    using assms(1)
    by (cases "is_client chan")
      (auto simp: frag_header_def header_bytes_def qport_bytes_def qw_hsz_def sz_puts_append one
        sz_puts_Nil rbind_assoc add.commute add.left_commute)
qed


text \<open>
  \<open>frag_of chan w1 w2 P pkt\<close>: a datagram that carries a piece of the payload \<open>P\<close>, the whole of it
  on a channel that is not fragmented.  The fragments: with an MTU that leaves room for eight bytes
  of payload the loop ends whatever the sockets answer, and every datagram is a piece of the payload.
\<close>

definition frag_of :: "netchan_t \<Rightarrow> int32 \<Rightarrow> int32 \<Rightarrow> byte list \<Rightarrow> byte list \<Rightarrow> bool" where
  "frag_of chan w1 w2 P pkt \<longleftrightarrow> (\<exists>off k mf. 8 dvd off \<and> off + k \<le> length P \<and>
     (mf \<or> off + k = length P) \<and> (is_fragable chan \<or> off = 0 \<and> \<not> mf) \<and>
     pkt = header_bytes chan w1 w2 (word_of_nat (off div 4) OR of_bool mf) @ take k (drop off P))"

lemma frag_of_settings: "settings c = settings d \<Longrightarrow> frag_of c = frag_of d"
  by (auto simp: fun_eq_iff frag_of_def header_bytes_def qport_bytes_def settings_def)

lemmas frag_of_kept = frag_of_settings [OF kept_settings]

lemma frag_of_whole: "frag_of chan w1 w2 P (header_bytes chan w1 w2 0 @ P)"
  unfolding frag_of_def by (rule exI [of _ 0], rule exI [of _ "length P"], rule exI [of _ False]) simp

lemma frag_of_has_words: "frag_of chan w1 w2 P pkt \<Longrightarrow> has_words pkt w1 w2"
  by (auto simp: frag_of_def has_words_def header_bytes_def)

lemma frag_bytes:
  assumes "qps_ok chan" and "offset + qw_hsz chan \<le> length d" and "off' = offset + qw_hsz chan"
    and "drop off' (take cur d) = drop offset P" and "k \<le> cur - off'"
  shows "take (k + qw_hsz chan) (drop offset (take offset d @ header_bytes chan w1 w2 fo @ drop off' d)) =
    header_bytes chan w1 w2 fo @ take k (drop offset P)"
proof -
  have "take k (drop offset P) = take k (drop off' (take cur d))" by (simp only: assms(4))
  also have "\<dots> = take k (drop off' d)" using assms(5) by (simp add: drop_take min_def)
  finally show ?thesis using assms(1,2) by simp
qed

lemma qw_frags_total:
  assumes "is_fragable chan" and "qps_ok chan" and "mtu_ok chan" and "sz_in N send"
    and "offset + qw_hsz chan \<le> cursize send" and "cursize send = qw_hsz chan + length P"
    and "drop (offset + qw_hsz chan) (take (cursize send) (data send)) = drop offset P" and "8 dvd offset"
  shows "\<exists>e' n chan' new. qw_frags sock dupes mtuseq w1 w2 offset e outbytes chan send sent =
      Some (Inr (e', n, chan', sent @ new)) \<and> same_but_mtu chan chan' \<and>
      (\<forall>p \<in> set new. fst p = remote_address chan \<and> frag_of chan w1 w2 P (snd p))"
  using assms
proof (induction "cursize send - offset + mtu_cur chan" arbitrary: offset e outbytes chan send sent
    rule: less_induct)
  case less
  let ?hsz = "qw_hsz chan"
  let ?total = "int (cursize send) - int ?hsz"
  let ?no0 = "int offset + int (mtu_cur chan) - int ?hsz"
  obtain mf where mf: "mf = (?no0 < ?total)" by simp
  obtain no where no: "no = (if mf then ?no0 - ?no0 mod 8 else ?total)" by simp
  let ?h = "header_bytes chan w1 w2 (word_of_nat (offset div 4) OR of_bool mf)"
  let ?d = "data send"
  let ?send = "send\<lparr>data := take offset ?d @ ?h @ drop (offset + ?hsz) ?d\<rparr>"
  have len: "length ?h = ?hsz" "8 \<le> ?hsz" "offset + ?hsz \<le> length ?d"
    using less.prems by (simp_all add: qw_hsz_def sz_in_def)
  have h: "frag_header w1 w2 chan offset mf send = Inr ?send"
    using less.prems(1,2) len by (simp add: frag_header_puts sz_puts_def pokes_Inr)
  have cur: "?hsz + 8 \<le> mtu_cur chan" using less.prems(3) by (simp add: mtu_ok_def)
  have lo: "int offset \<le> no" "mf \<Longrightarrow> int offset < no" and hi: "no \<le> ?total"
    using cur less.prems(5) pos_mod_bound [of 8 ?no0] pos_mod_sign [of 8 ?no0]
    by (auto simp: no mf)
  let ?pkt = "take (nat (no - int offset + int ?hsz)) (drop offset (data ?send))"
  obtain k where k: "no = int offset + int k" using zle_iff_zadd [of "int offset" no] lo(1) by blast
  have kP: "offset + k \<le> length P" "k \<le> cursize send - (offset + ?hsz)"
    using hi less.prems(6) by (simp_all add: k)
  have "mf \<or> offset + k = length P" using no k less.prems(6) by (cases mf) simp_all
  moreover have "?pkt = ?h @ take k (drop offset P)"
    using frag_bytes [OF less.prems(2) len(3) refl less.prems(7) kP(2), of w1 w2] by (simp add: k nat_add_distrib)
  ultimately have w: "frag_of chan w1 w2 P ?pkt"
    using less.prems(1,8) kP(1) unfolding frag_of_def by blast
  obtain sm e1 n1 c1 sent1 where sf: "(if e = NETERR_SENT
      then send_frag sock mtuseq ?pkt (offset = 0) (-1) dupes e outbytes chan sent
      else (False, e, outbytes, chan, sent)) = (sm, e1, n1, c1, sent1)"
    by (metis prod_cases5)
  have fr: "same_but_mtu chan c1" "\<exists>j. sent1 = sent @ replicate j (remote_address chan, ?pkt)"
    "if sm then mtu_cur c1 < mtu_cur chan else mtu_cur c1 = mtu_cur chan"
  proof -
    have "same_but_mtu chan c1 \<and> (\<exists>j. sent1 = sent @ replicate j (remote_address chan, ?pkt)) \<and>
        (if sm then mtu_cur c1 < mtu_cur chan else mtu_cur c1 = mtu_cur chan)"
    proof (cases "e = NETERR_SENT")
      case True
      with sf show ?thesis by (intro send_frag_frame [of sock mtuseq ?pkt "offset = 0" "-1" dupes e]) simp
    next
      case False
      with sf have "c1 = chan" "sent1 = sent" "\<not> sm" by simp_all
      then show ?thesis by (auto intro: exI [of _ 0])
    qed
    then show "same_but_mtu chan c1" "\<exists>j. sent1 = sent @ replicate j (remote_address chan, ?pkt)"
      "if sm then mtu_cur c1 < mtu_cur chan else mtu_cur c1 = mtu_cur chan" by blast+
  qed
  have eq: "qw_frags sock dupes mtuseq w1 w2 offset e outbytes chan send sent =
      (if sm then qw_frags sock dupes mtuseq w1 w2 offset e1 n1 c1 ?send sent1
       else if mf then qw_frags sock dupes mtuseq w1 w2 (nat no) e1 n1 c1 ?send sent1
       else Some (Inr (e1, n1, c1, sent1)))"
    using sf by (subst qw_frags.simps)
      (simp only: Let_def mf [symmetric] no [symmetric] h sum.case prod.case)
  have c1: "is_fragable c1" "qps_ok c1" "mtu_ok c1" "qw_hsz c1 = ?hsz" "remote_address c1 = remote_address chan"
  proof -
    have st: "kept c1 = kept chan" using fr(1) by (simp add: same_but_mtu_def)
    show "is_fragable c1" "qps_ok c1" "mtu_ok c1" "qw_hsz c1 = ?hsz" "remote_address c1 = remote_address chan"
      using kept_eqs [OF st] kept_hsz [OF st] less.prems(1-3) same_but_mtu_ok [OF fr(1)]
      by (simp_all add: qps_ok_def)
  qed
  have s: "sz_in N ?send" using less.prems(4) len by (simp add: sz_in_def)
  have fo: "frag_of c1 = frag_of chan"
    using fr(1) by (intro frag_of_kept) (simp add: same_but_mtu_def)
  obtain j where j: "sent1 = sent @ replicate j (remote_address chan, ?pkt)" using fr(2) by blast
  show ?case
  proof (cases "sm \<or> mf")
    case True
    let ?o = "if sm then offset else nat no"
    have "cursize ?send - ?o + mtu_cur c1 < cursize send - offset + mtu_cur chan"
    proof (cases sm)
      case True
      with fr(3) show ?thesis by simp
    next
      case False
      with \<open>sm \<or> mf\<close> have "int offset < no" "mtu_cur c1 = mtu_cur chan" using lo(2) fr(3) by simp_all
      with False hi show ?thesis by simp
    qed
    moreover have "?o + qw_hsz c1 \<le> cursize ?send"
      using less.prems(5) hi lo(1) c1(4) by simp linarith?
    moreover have "cursize ?send = qw_hsz c1 + length P" using less.prems(6) c1(4) by simp
    moreover have "drop (?o + qw_hsz c1) (take (cursize ?send) (data ?send)) = drop ?o P"
    proof -
      have o: "?o = offset + (if sm then 0 else k)" by (simp add: k nat_add_distrib)
      have "cursize ?send = cursize send" by simp
      have "drop (offset + ?hsz) (data ?send) = drop (offset + ?hsz) ?d"
        using len by simp
      then have "drop (offset + ?hsz) (take (cursize ?send) (data ?send)) = drop offset P"
        using less.prems(7) \<open>cursize ?send = cursize send\<close> by (simp only: drop_take)
      from arg_cong [OF this, of "drop (if sm then 0 else k)"] show ?thesis
        unfolding o c1(4) by (simp only: drop_drop add_ac)
    qed
    moreover have "8 dvd ?o"
    proof (cases sm)
      case False
      with \<open>sm \<or> mf\<close> have "no = ?no0 - ?no0 mod 8" by (simp add: no)
      then have "8 dvd no" by (simp add: dvd_minus_mod)
      then have "8 dvd int (nat no)" using lo(1) by simp
      with False show ?thesis by (simp only: if_False) presburger
    qed (use less.prems(8) in simp)
    ultimately obtain e' n c2 new where r: "qw_frags sock dupes mtuseq w1 w2 ?o e1 n1 c1 ?send sent1 =
        Some (Inr (e', n, c2, sent1 @ new))" "same_but_mtu c1 c2"
      "\<forall>p \<in> set new. fst p = remote_address c1 \<and> frag_of c1 w1 w2 P (snd p)"
      using less.hyps [OF _ c1(1-3) s, of ?o e1 n1 sent1] by blast
    have "qw_frags sock dupes mtuseq w1 w2 offset e outbytes chan send sent =
        Some (Inr (e', n, c2, sent @ replicate j (remote_address chan, ?pkt) @ new))"
      using r(1) True j unfolding eq by (cases sm) simp_all
    moreover have "\<forall>p \<in> set (replicate j (remote_address chan, ?pkt) @ new).
        fst p = remote_address chan \<and> frag_of chan w1 w2 P (snd p)"
      using r(3) c1(5) w fo by auto
    ultimately show ?thesis using same_but_mtu_trans [OF fr(1) r(2)] by blast
  next
    case False
    then have "qw_frags sock dupes mtuseq w1 w2 offset e outbytes chan send sent =
        Some (Inr (e1, n1, c1, sent @ replicate j (remote_address chan, ?pkt)))"
      using j unfolding eq by simp
    moreover have "\<forall>p \<in> set (replicate j (remote_address chan, ?pkt)).
        fst p = remote_address chan \<and> frag_of chan w1 w2 P (snd p)"
      using w by simp
    ultimately show ?thesis using fr(1) by blast
  qed
qed


lemma qw_datagrams_core:
  assumes "sz_in N send" and "sz_content send = header_bytes chan w1 w2 0 @ P"
    and "qps_ok chan" and "mtu_ok chan"
  shows "\<exists>e n c new. qw_datagrams env sock av probe mtuseq (w1, w2) chan send sent =
      Some (Inr (e, n, c, sent @ new)) \<and> same_but_mtu chan c \<and>
      (\<forall>p \<in> set new. fst p = remote_address chan \<and> frag_of chan w1 w2 P (snd p))"
proof -
  have sz: "cursize send = qw_hsz chan + length P" "take (cursize send) (data send) = header_bytes chan w1 w2 0 @ P"
    using arg_cong [OF assms(2), of length] assms(1-3) by (simp_all add: sz_content_def sz_in_def)
  let ?dupes = "min (dupe chan) (av div int (cursize send))"
  consider (demo) "demoplayback env" | (whole) "\<not> demoplayback env" "probe \<or> \<not> is_fragable chan"
    | (frags) "\<not> demoplayback env" "\<not> probe" "is_fragable chan" by blast
  then show ?thesis
  proof cases
    case demo
    then show ?thesis by (auto simp: qw_datagrams_def intro: exI [of _ "[]"])
  next
    case whole
    obtain i e sent' where sd: "send_dupes sock (remote_address chan) (sz_content send) (-1) ?dupes
        NETERR_SENT sent = (i, e, sent')" by (metis prod_cases3)
    then obtain j where j: "sent' = sent @ replicate j (remote_address chan, sz_content send)"
      using send_dupes_log [of sock "remote_address chan" "sz_content send" "-1" ?dupes NETERR_SENT sent]
      by auto
    obtain n c where w: "qw_send_whole sock ?dupes mtuseq chan send sent = (e, n, c, sent')"
      by (simp add: qw_send_whole_def sd Let_def)
    have "same_but_mtu chan c"
      using w by (auto simp: qw_send_whole_def sd Let_def note_sent_def same_but_mtu_def core_def
          kept_def settings_def split: if_splits)
    moreover have "\<forall>p \<in> set (replicate j (remote_address chan, sz_content send)).
        fst p = remote_address chan \<and> frag_of chan w1 w2 P (snd p)"
      using frag_of_whole [of chan w1 w2 P] assms(2) by simp
    moreover have "qw_datagrams env sock av probe mtuseq (w1, w2) chan send sent =
        Some (Inr (e, n, c, sent'))"
      using whole w by (simp add: qw_datagrams_def)
    ultimately show ?thesis unfolding j by blast
  next
    case frags
    then have "qw_datagrams env sock av probe mtuseq (w1, w2) chan send sent =
        qw_frags sock ?dupes mtuseq w1 w2 0 NETERR_SENT 0 chan send sent"
      by (simp add: qw_datagrams_def)
    then show ?thesis
      using qw_frags_total [OF frags(3) assms(3,4,1), of 0 P] sz assms(3) by simp
  qed
qed

lemma qw_account_frame:
  "\<not> NET_AddrIsReliable (remote_address chan) \<Longrightarrow> same_but_mtu chan (qw_account env rel rate e n chan)"
  by (simp add: qw_account_def Netchan_Block_def same_but_mtu_def core_def kept_def settings_def)

section \<open>Sending\<close>

text \<open>
  What a transmission does on a plain channel: nothing when the message has overflowed; nothing on
  the wire when the reliable part does not fit; otherwise one more sequence number, and datagrams
  that all carry the two words of that packet.
\<close>

lemma transmit_core:
  assumes "Netchan_Transmit env sock buf chan payload rate sent = Some (Inr (n, chan', sent'))"
    and "plain chan" and "qps_ok chan" and "mtu_ok chan"
  shows "kept chan' = kept chan \<and> mtu_ok chan' \<and>
    ((core chan' = core chan \<and> sent' = sent) \<or>
     (\<exists>rel c. qw_reliable chan = Inr (rel, c) \<and> core chan' = core c \<and> sent' = sent) \<or>
     (\<exists>rel c w1 w2 new rest. qw_reliable chan = Inr (rel, c) \<and> qw_words c rel = (w1, w2) \<and>
        core chan' = (core c)\<lparr>c_out := outgoing_sequence c + 1,
          c_lastrel := (if rel then outgoing_sequence c + 1 else last_reliable_sequence c)\<rparr> \<and>
        qw_hsz chan + length ((if rel then reliable_bytes c else []) @ rest) \<le> length buf \<and>
        sent' = sent @ new \<and> (\<forall>p \<in> set new. fst p = remote_address chan \<and>
          frag_of chan w1 w2 ((if rel then reliable_bytes c else []) @ rest) (snd p))))"
proof -
  have nq: "\<not> isnqprotocol chan" and nc: "compresstable chan = None"
    and na: "\<not> NET_AddrIsReliable (remote_address chan)"
    using assms(2) by (simp_all add: plain_def)
  have t: "transmit_qw env sock buf chan payload rate sent = Some (Inr (n, chan', sent'))"
    using assms(1) nq by (simp add: Netchan_Transmit_def)
  show ?thesis
  proof (cases "overflowed (message chan)")
    case True
    with t have "chan' = chan\<lparr>fatal_error := True\<rparr>" "sent' = sent" by (simp_all add: transmit_qw_def)
    then have "same_but_mtu chan chan'" "sent' = sent"
      by (simp_all add: same_but_mtu_def core_def kept_def settings_def)
    then show ?thesis
      using same_but_mtu_ok [OF _ assms(4)] by (simp add: same_but_mtu_def)
  next
    case False
    then obtain rel c where r: "qw_reliable chan = Inr (rel, c)"
      using t by (cases "qw_reliable chan") (auto simp: transmit_qw_def)
    have c: "kept c = kept chan" "mtu_cur c = mtu_cur chan"
      using qw_reliable_core [OF r] by simp_all
    have ca: "compresstable c = None" "\<not> NET_AddrIsReliable (remote_address c)" "qps_ok c" "mtu_ok c"
      using c nc na assms(3,4) kept_hsz [OF c(1)]
      by (simp_all add: kept_def settings_def qps_ok_def mtu_ok_def)
    obtain w1 w2 where w: "qw_words c rel = (w1, w2)" by force
    have t2: "run_bind (Some (qw_packet env buf rel payload c)) (\<lambda>r. case r of
          Inl chan \<Rightarrow> Some (Inr (0, chan, sent))
        | Inr (p, chan, send) \<Rightarrow>
            run_bind (qw_datagrams env sock (max 0 (Netchan_CanBytes env c rate)) p
                (outgoing_sequence c AND 63) (w1, w2) chan send sent) (\<lambda>(e, n, chan, sent).
            Some (Inr (n, qw_account env rel rate e n chan, sent)))) = Some (Inr (n, chan', sent'))"
      using t False r qw_kexlan_unreliable [OF ca(2)] w by (simp add: transmit_qw_def Let_def)
    then obtain x where x: "qw_packet env buf rel payload c = Inr x"
      by (cases "qw_packet env buf rel payload c") simp_all
    show ?thesis
    proof (cases x)
      case (Inl d)
      with x t2 have "same_but_mtu c chan'" "sent' = sent"
        using qw_packet_fatal [of env buf rel payload c d] by simp_all
      then show ?thesis
        using r c same_but_mtu_ok [OF _ ca(4)] by (auto simp: same_but_mtu_def)
    next
      case (Inr y)
      obtain p d send where y: "y = (p, d, send)" by (metis prod_cases3)
      note pk = qw_packet_core [OF x [unfolded Inr y] ca(1) w]
      have d: "kept d = kept chan" "qps_ok d" "mtu_ok d" "qw_hsz d = qw_hsz c"
        using pk(1,2) c ca(3,4) kept_hsz [OF pk(1)]
        by (simp_all add: kept_def settings_def qps_ok_def mtu_ok_def)
      obtain rest where rest: "sz_content send =
          header_bytes c w1 w2 0 @ (if rel then reliable_bytes c else []) @ rest" using pk(5) by blast
      obtain P where P: "P = (if rel then reliable_bytes c else []) @ rest" by simp
      have st: "kept d = kept c" using d(1) c(1) by simp
      have hd: "header_bytes d = header_bytes c"
        using kept_eqs [OF st] by (auto simp: fun_eq_iff header_bytes_def qport_bytes_def)
      from rest have sc: "sz_content send = header_bytes d w1 w2 0 @ P"
        by (simp add: hd P)
      have len: "qw_hsz chan + length P \<le> length buf"
        using arg_cong [OF sc, of length] pk(4) d(2) kept_hsz [OF d(1)]
        by (simp add: sz_content_def sz_in_def)
      from qw_datagrams_core [OF pk(4) sc d(2,3)]
      obtain e k f new where dg: "qw_datagrams env sock (max 0 (Netchan_CanBytes env c rate)) p
          (outgoing_sequence c AND 63) (w1, w2) d send sent = Some (Inr (e, k, f, sent @ new))"
        "same_but_mtu d f" "\<forall>q \<in> set new. fst q = remote_address d \<and> frag_of d w1 w2 P (snd q)"
        by blast
      have "chan' = qw_account env rel rate e n f" "sent' = sent @ new"
        using t2 x Inr y dg(1) by auto
      moreover have "\<not> NET_AddrIsReliable (remote_address f)"
        using dg(2) d(1) na by (simp add: same_but_mtu_def kept_def settings_def)
      ultimately have sm: "same_but_mtu d chan'"
        using same_but_mtu_trans [OF dg(2)] qw_account_frame by blast
      have "remote_address d = remote_address chan" "frag_of d = frag_of chan"
        using d(1) frag_of_kept [OF d(1)] by (simp_all add: kept_def settings_def)
      then have "\<forall>q \<in> set new. fst q = remote_address chan \<and> frag_of chan w1 w2 P (snd q)"
        using dg(3) by simp
      moreover have res: "kept chan' = kept chan" "mtu_ok chan'" "core chan' = core d"
        using sm d(1) same_but_mtu_ok [OF sm d(3)] by (simp_all add: same_but_mtu_def)
      ultimately have "\<exists>rel c w1 w2 new rest. qw_reliable chan = Inr (rel, c) \<and> qw_words c rel = (w1, w2) \<and>
        core chan' = (core c)\<lparr>c_out := outgoing_sequence c + 1,
          c_lastrel := (if rel then outgoing_sequence c + 1 else last_reliable_sequence c)\<rparr> \<and>
        qw_hsz chan + length ((if rel then reliable_bytes c else []) @ rest) \<le> length buf \<and>
        sent' = sent @ new \<and> (\<forall>p \<in> set new. fst p = remote_address chan \<and>
          frag_of chan w1 w2 ((if rel then reliable_bytes c else []) @ rest) (snd p))"
        using r w len \<open>sent' = sent @ new\<close> unfolding P
        by (intro exI [of _ rel] exI [of _ c] exI conjI) (use pk(3) in simp_all)
      with res show ?thesis by blast
    qed
  qed
qed


section \<open>Receiving\<close>

definition same_protocol :: "netchan_t \<Rightarrow> netchan_t \<Rightarrow> bool" where
  "same_protocol c d \<longleftrightarrow> core d = core c \<and> settings d = settings c \<and>
     (mtu_min c \<le> mtu_cur c \<longrightarrow> mtu_min d \<le> mtu_cur d)"

lemma same_protocol_refl [intro!, simp]: "same_protocol c c"
  by (simp add: same_protocol_def)

lemma same_protocol_trans [trans]: "same_protocol c d \<Longrightarrow> same_protocol d e \<Longrightarrow> same_protocol c e"
  by (simp add: same_protocol_def)

lemma same_protocolI:
  assumes "core d = core c" and "settings d = settings c"
    and "mtu_min c \<le> mtu_cur c \<Longrightarrow> mtu_min c \<le> mtu_cur d"
  shows "same_protocol c d"
  using assms by (auto simp: same_protocol_def settings_def)

lemma same_protocol_ok: "same_protocol c d \<Longrightarrow> mtu_ok c \<Longrightarrow> mtu_ok d"
  by (auto simp: same_protocol_def mtu_ok_def settings_def qw_hsz_def)

lemma MSG_ReadLong_le32:
  assumes "packing (msg_readmsg rd) = SZ_RAWBYTES" and "currentbit (msg_readmsg rd) = 8 * k"
    and "k + 4 \<le> cursize (msg_readmsg rd)" and "take 4 (drop k (data (msg_readmsg rd))) = le32 w"
  shows "MSG_ReadLong rd = Inr (w, set_bit_pos (8 * (k + 4)) rd)"
proof -
  let ?d = "data (msg_readmsg rd)"
  have len: "k + 4 \<le> length ?d"
    using arg_cong [OF assms(4), of length] by simp
  then have "take 4 (drop k ?d) = [?d ! k, ?d ! (k + 1), ?d ! (k + 2), ?d ! (k + 3)]"
    by (intro nth_equalityI) (auto simp: nth_Cons numeral_3_eq_3 split: nat.splits)
  with assms(4) have "?d ! k = ucast w" "?d ! (k + 1) = ucast (drop_bit 8 w)"
    "?d ! (k + 2) = ucast (drop_bit 16 w)" "?d ! (k + 3) = ucast (drop_bit 24 w)"
    by (simp_all add: le32_def)
  with assms(1-3) len show ?thesis
    by (simp add: MSG_ReadLong_def rd_byte_def join_le32 del: One_nat_def)
qed

lemma confirm_mtu_frame: "confirm_mtu a chan = Inr c \<Longrightarrow> same_protocol chan c"
  by (auto simp: confirm_mtu_def rbind_eq_Inr same_protocol_def core_def settings_def split: if_splits)

lemma clear_fragments_frame: "same_protocol chan (clear_fragments chan)"
  by (simp add: clear_fragments_def same_protocol_def core_def settings_def)

lemma process_fragment_frame:
  assumes "process_fragment off sequence chan rd = Inr (r, c)"
  shows "same_protocol chan c"
proof -
  have "core c = core chan \<and> settings c = settings chan \<and> mtu_cur c = mtu_cur chan"
    using assms unfolding process_fragment_def
    by (auto simp: Let_def rbind_eq_Inr core_def settings_def clear_fragments_def split: if_splits)
  then show ?thesis by (auto intro: same_protocolI simp: settings_def)
qed

text \<open>The words of a header as \<open>Netchan_Process\<close> takes them.\<close>

definition taken_words :: "netchan_t \<Rightarrow> int32 \<Rightarrow> int32 \<Rightarrow> int32 \<times> int32" where
  "taken_words chan w1 w2 =
     (if is_stunaware chan then (BigLong w1 - ANTISTUNBIAS, BigLong w2) else (w1, w2))"

definition accepted :: "int32 \<Rightarrow> int32 \<Rightarrow> core_t \<Rightarrow> core_t" where
  "accepted s a k = k\<lparr>c_in := s AND NOT 0x80000000, c_ack := a AND NOT 0x80000000,
     c_relack := drop_bit 31 a,
     c_inrel := (if drop_bit 31 s \<noteq> 0 then c_inrel k XOR 1 else c_inrel k),
     c_len := (if drop_bit 31 a = c_rel k then 0 else c_len k)\<rparr>"

lemma process_accept_core:
  "core (fst (process_accept env False (s AND NOT 0x80000000) (a AND NOT 0x80000000)
     (drop_bit 31 s) (drop_bit 31 a) chan)) = accepted s a (core chan)"
  "settings (fst (process_accept env False q b m r chan)) = settings chan"
  "mtu_cur (fst (process_accept env False q b m r chan)) = mtu_cur chan"
  by (simp_all add: process_accept_def accepted_def core_def settings_def Let_def)

text \<open>
  Past the header, \<open>process_words\<close> either refuses the packet at once or confirms the MTU, takes the
  fragment in (\<open>take_payload\<close>) and, when the packet is complete, accepts it.
\<close>

definition read_offset :: "netchan_t \<Rightarrow> netread \<Rightarrow> (int32 \<times> netread) res" where
  "read_offset chan rd = rbind (if is_client chan then Inr rd else MSG_ReadSkip rd (int (qportsize chan)))
     (\<lambda>rd. if is_fragable chan
           then rbind (MSG_ReadShort rd) (\<lambda>(v, rd). Inr (v AND 0xffff, rd)) else Inr (0, rd))"

definition take_payload :: "int32 \<Rightarrow> int32 \<Rightarrow> netchan_t \<Rightarrow> netread \<Rightarrow> (netread option \<times> netchan_t) res" where
  "take_payload off q chan rd =
     (if off \<noteq> 0 then process_fragment off q chan rd else Inr (Some rd, clear_fragments chan))"

lemma process_words_cases:
  assumes "process_words env s a chan rd net_drop = Inr (ok, chan', rd', nd')" and "plain chan"
  obtains "\<not> ok" "chan' = chan"
  | rd1 off c1 ready c2 where "read_offset chan rd = Inr (off, rd1)"
      "incoming_sequence chan < s AND NOT 0x80000000"
      "confirm_mtu (a AND NOT 0x80000000) chan = Inr c1"
      "take_payload off (s AND NOT 0x80000000) c1 rd1 = Inr (ready, c2)"
      "case ready of None \<Rightarrow> \<not> ok \<and> chan' = c2
        | Some rd2 \<Rightarrow> ok \<and> rd' = rd2 \<and> chan' = fst (process_accept env False (s AND NOT 0x80000000)
            (a AND NOT 0x80000000) (drop_bit 31 s) (drop_bit 31 a) c2)"
proof -
  have nc: "compresstable chan = None" and na: "\<not> NET_AddrIsReliable (remote_address chan)"
    using assms(2) by (simp_all add: plain_def)
  then have nk: "adr_prot (remote_address chan) \<noteq> NP_KEXLAN" by (auto simp: NET_AddrIsReliable_def)
  let ?oob = "s = 0x80000000 \<and> a = 0x80000000"
  let ?q = "s AND NOT 0x80000000" and ?b = "a AND NOT 0x80000000"
  show thesis
  proof (cases "?oob \<or> ?q \<le> incoming_sequence chan")
    case True
    then have "chan' = chan \<and> \<not> ok"
      using assms(1) na nk unfolding process_words_def Let_def
      by (auto simp: rbind_eq_Inr split: if_splits)
    then show thesis using that(1) by blast
  next
    case False
    then have oob: "(s = 0x80000000 \<and> a = 0x80000000) = False"
      and q: "(?q \<le> incoming_sequence chan) = False" by blast+
    obtain rd1 off c1 ready c2 where h: "read_offset chan rd = Inr (off, rd1)"
      and c1: "confirm_mtu ?b chan = Inr c1"
      and c2: "take_payload off ?q c1 rd1 = Inr (ready, c2)"
      and r: "(case ready of None \<Rightarrow> Inr (False, c2, rd1, net_drop)
        | Some rd \<Rightarrow>
            let (chan, net_drop) = process_accept env False ?q ?b (drop_bit 31 s) (drop_bit 31 a) c2 in
            (case compresstable chan of None \<Rightarrow> Inr (True, chan, rd, net_drop)
             | Some hf \<Rightarrow> rbind (Huff_DecompressPacket hf (msg_readmsg rd) (MSG_GetReadCount rd))
                 (\<lambda>m. Inr (True, chan, rd\<lparr>msg_readmsg := m\<rparr>, net_drop)))) = Inr (ok, chan', rd', nd')"
      using assms(1) na
      by (simp only: process_words_def read_offset_def take_payload_def Let_def oob q simp_thms if_False
          rbind_eq_Inr split_paired_Ex prod.case) blast
    have f: "same_protocol chan c2"
      using confirm_mtu_frame [OF c1] c2 clear_fragments_frame [of c1] process_fragment_frame [of off ?q c1 rd1]
      by (auto simp: take_payload_def split: if_splits intro: same_protocol_trans)
    obtain c3 nd3 where p: "process_accept env False ?q ?b (drop_bit 31 s) (drop_bit 31 a) c2 = (c3, nd3)"
      by force
    then have "settings c3 = settings c2"
      using process_accept_core(2) [of env ?q ?b "drop_bit 31 s" "drop_bit 31 a" c2] by simp
    then have "compresstable c3 = None"
      using f nc by (simp add: same_protocol_def settings_def)
    with r p have "case ready of None \<Rightarrow> \<not> ok \<and> chan' = c2
        | Some rd2 \<Rightarrow> ok \<and> rd' = rd2 \<and> chan' = fst (process_accept env False ?q ?b (drop_bit 31 s) (drop_bit 31 a) c2)"
      by (cases ready) simp_all
    moreover have "incoming_sequence chan < ?q" using q by simp
    ultimately show thesis using that(2) [OF h _ c1 c2] by blast
  qed
qed

lemma process_words_core:
  assumes "process_words env s a chan rd net_drop = Inr (ok, chan', rd', nd')" and "plain chan"
  shows "settings chan' = settings chan \<and> (mtu_min chan \<le> mtu_cur chan \<longrightarrow> mtu_min chan' \<le> mtu_cur chan') \<and>
    (if ok then incoming_sequence chan < s AND NOT 0x80000000 \<and> core chan' = accepted s a (core chan)
     else core chan' = core chan)"
  using assms
proof (cases rule: process_words_cases)
  case (2 rd1 off c1 ready c2)
  have f: "same_protocol chan c2"
    using confirm_mtu_frame [OF 2(3)] 2(4) clear_fragments_frame [of c1]
      process_fragment_frame [of off "s AND NOT 0x80000000" c1 rd1]
    by (auto simp: take_payload_def split: if_splits intro: same_protocol_trans)
  show ?thesis
  proof (cases ready)
    case None
    with 2(5) f show ?thesis by (simp add: same_protocol_def)
  next
    case (Some rd2)
    with 2(5) have "ok" and c: "chan' = fst (process_accept env False (s AND NOT 0x80000000)
        (a AND NOT 0x80000000) (drop_bit 31 s) (drop_bit 31 a) c2)" by simp_all
    have "core chan' = accepted s a (core c2)" "settings chan' = settings c2" "mtu_cur chan' = mtu_cur c2"
      unfolding c by (rule process_accept_core)+
    with \<open>ok\<close> f 2(2) show ?thesis by (auto simp: same_protocol_def settings_def)
  qed
qed simp

text \<open>
  Receiving on a plain channel: a packet is accepted only if its sequence is newer than every one
  accepted before, and then the protocol state takes its words; otherwise it is unchanged.
\<close>

definition counted :: "sizebuf \<Rightarrow> netchan_t \<Rightarrow> netchan_t" where
  "counted m chan = chan\<lparr>bytesin := bytesin chan + word_of_nat (cursize m)\<rparr>"

lemma counted_frame [simp]:
  "core (counted m chan) = core chan" "kept (counted m chan) = kept chan" "settings (counted m chan) = settings chan"
  "mtu_cur (counted m chan) = mtu_cur chan" "mtu_min (counted m chan) = mtu_min chan"
  "incoming_sequence (counted m chan) = incoming_sequence chan" "nc_netprim (counted m chan) = nc_netprim chan"
  by (simp_all add: counted_def core_def kept_def settings_def)

lemma process_split:
  assumes "Netchan_Process env chan rd net_drop = Inr (ok, chan', rd', nd')"
    and "has_words (sz_content (msg_readmsg rd)) w1 w2" and "taken_words chan w1 w2 = (s, a)"
  shows "(\<not> ok \<and> (chan' = chan \<or> chan' = counted (msg_readmsg rd) chan)) \<or>
    process_words env s a (counted (msg_readmsg rd) chan)
      (set_bit_pos 64 (MSG_BeginReading rd (msg_readmsg rd) (nc_netprim chan))) net_drop =
      Inr (ok, chan', rd', nd')"
proof -
  let ?m = "msg_readmsg rd"
  let ?rd = "MSG_BeginReading rd ?m (nc_netprim chan)"
  have len: "8 \<le> cursize ?m" "8 \<le> length (data ?m)"
    using assms(2) by (simp_all add: has_words_def sz_content_def)
  then have d: "take 8 (data ?m) = le32 w1 @ le32 w2"
    using assms(2) by (simp add: has_words_def sz_content_def min_def)
  have "take 4 (data ?m) = le32 w1" "take 4 (drop 4 (data ?m)) = le32 w2"
    using arg_cong [OF d, of "take 4"] arg_cong [OF d, of "drop 4"] by (simp_all add: take_drop)
  then have r1: "MSG_ReadLong ?rd = Inr (w1, set_bit_pos 32 ?rd)"
    and r2: "MSG_ReadLong (set_bit_pos 32 ?rd) = Inr (w2, set_bit_pos 64 ?rd)"
    using len MSG_ReadLong_le32 [of ?rd 0 w1] MSG_ReadLong_le32 [of "set_bit_pos 32 ?rd" 4 w2]
    by (simp_all add: MSG_BeginReading_def set_bit_pos_def)
  show ?thesis
    using assms(1,3) r1 r2 unfolding Netchan_Process_def Let_def counted_def
    by (auto simp: rbind_eq_Inr taken_words_def split: if_splits)
qed

lemma process_core:
  assumes "Netchan_Process env chan rd net_drop = Inr (ok, chan', rd', nd')" and "plain chan"
    and "mtu_ok chan" and "has_words (sz_content (msg_readmsg rd)) w1 w2"
    and "taken_words chan w1 w2 = (s, a)"
  shows "settings chan' = settings chan \<and> mtu_ok chan' \<and>
    (if ok then incoming_sequence chan < s AND NOT 0x80000000 \<and> core chan' = accepted s a (core chan)
     else core chan' = core chan)"
  using process_split [OF assms(1,4,5)]
proof
  assume "\<not> ok \<and> (chan' = chan \<or> chan' = counted (msg_readmsg rd) chan)"
  then show ?thesis
    using assms(3) settings_hsz [of "counted (msg_readmsg rd) chan" chan] by (auto simp: mtu_ok_def)
next
  assume w: "process_words env s a (counted (msg_readmsg rd) chan)
      (set_bit_pos 64 (MSG_BeginReading rd (msg_readmsg rd) (nc_netprim chan))) net_drop =
      Inr (ok, chan', rd', nd')"
  have "plain (counted (msg_readmsg rd) chan)"
    using assms(2) settings_plain [of "counted (msg_readmsg rd) chan" chan] by simp
  from process_words_core [OF w this] assms(3) show ?thesis
    using settings_hsz [of chan' chan] settings_eqs(3) [of chan' chan] by (auto simp: mtu_ok_def)
qed

end
