(* ===== verification/NetFrag.thy ===== *)
theory NetFrag
  imports NetCore
begin

text \<open>
  Fragments.  A packet larger than the MTU goes out as several datagrams with the same two words and
  an offset; \<open>Netchan_Process\<close> joins them.  \<open>pieces_inv Ps chan\<close> is what the receiver knows: the
  bytes gathered so far are the beginning of the payload \<open>Ps q\<close> that was sent under the sequence
  number \<open>q\<close> they carry.  An accepted packet hands over exactly that payload, however its datagrams
  were lost, repeated or mixed with those of other packets.
\<close>

section \<open>The offset field\<close>

definition frag_field :: "nat \<Rightarrow> bool \<Rightarrow> int32" where
  "frag_field off mf = word_of_nat (off div 4) OR of_bool mf"

lemma bit_of_bool_word [simp]: "bit (of_bool b :: int32) n \<longleftrightarrow> b \<and> n = 0"
  by (cases b) (auto simp: bit_1_iff)

lemma frag_units:
  assumes "off < 4 * 65536"
  shows "unat (word_of_nat (off div 4) :: int32) = off div 4"
proof -
  have "unat (word_of_nat (off div 4) :: int32) = (off div 4) mod 2 ^ 32"
    by (simp only: unsigned_of_nat take_bit_eq_mod) simp
  then show ?thesis using assms by simp
qed

lemma frag_field_bits:
  assumes "8 dvd off" and "off < 4 * 65536"
  shows "frag_field off mf AND 1 = of_bool mf" "frag_field off mf AND NOT 1 = word_of_nat (off div 4)"
    "frag_field off mf AND 0xffff = frag_field off mf"
proof -
  from assms(1) obtain j where j: "off = 8 * j" by blast
  then have q: "(word_of_nat (off div 4) :: int32) = push_bit 1 (word_of_nat j)" by simp
  show "frag_field off mf AND 1 = of_bool mf"
    unfolding frag_field_def q
    by (rule bit_word_eqI, simp only: bit_simps bit_of_bool_word) (auto dest: bit_imp_le_length)
  show "frag_field off mf AND NOT 1 = word_of_nat (off div 4)"
    unfolding frag_field_def q
    by (rule bit_word_eqI, simp only: bit_simps bit_of_bool_word) (auto dest: bit_imp_le_length)
  have u: "unat (word_of_nat (off div 4) :: int32) = off div 4" using assms(2) by (rule frag_units)
  have "take_bit 16 (word_of_nat (off div 4) :: int32) = word_of_nat (off div 4)"
    using assms(2) by (intro word_unat_eq_iff [THEN iffD2])
      (simp only: unsigned_take_bit_eq u take_bit_nat_eq_self, simp add: take_bit_nat_eq_self)
  moreover have "take_bit 16 (of_bool mf :: int32) = of_bool mf"
    by (rule bit_word_eqI) (auto simp: bit_simps)
  ultimately have "take_bit 16 (frag_field off mf) = frag_field off mf"
    unfolding frag_field_def take_bit_or by simp
  moreover have "(0xffff :: int32) = mask 16" by (simp add: mask_eq_exp_minus_1)
  ultimately show "frag_field off mf AND 0xffff = frag_field off mf"
    by (simp only: take_bit_eq_mask)
qed

lemma frag_field_zero:
  assumes "8 dvd off" and "off < 4 * 65536"
  shows "frag_field off mf = 0 \<longleftrightarrow> off = 0 \<and> \<not> mf"
proof
  assume z: "frag_field off mf = 0"
  with frag_field_bits(1,2) [OF assms, of mf] have "of_bool mf = (0 :: int32)" "word_of_nat (off div 4) = (0 :: int32)"
    by simp_all
  with frag_units [OF assms(2)] have "\<not> mf" "off div 4 = 0" by auto
  with assms(1) show "off = 0 \<and> \<not> mf" by auto
qed (simp add: frag_field_def)

section \<open>Reassembly\<close>

definition pieces_inv :: "(int32 \<rightharpoonup> byte list) \<Rightarrow> netchan_t \<Rightarrow> bool" where
  "pieces_inv Ps chan \<longleftrightarrow> in_fragment_length chan \<le> length (in_fragment_buf chan) \<and>
     (in_fragment_length chan \<noteq> 0 \<longrightarrow> (\<exists>P. Ps (incoming_unreliable chan) = Some P \<and>
        in_fragment_length chan \<le> length P \<and>
        take (in_fragment_length chan) (in_fragment_buf chan) = take (in_fragment_length chan) P))"

lemma pieces_inv_mono: "pieces_inv Ps chan \<Longrightarrow> Ps \<subseteq>\<^sub>m Qs \<Longrightarrow> pieces_inv Qs chan"
  by (auto simp: pieces_inv_def map_le_def dom_def)

lemma pieces_inv_kept: "kept d = kept c \<Longrightarrow> pieces_inv Ps d = pieces_inv Ps c"
  by (simp add: kept_def pieces_inv_def)

text \<open>The bytes a reader has before it.\<close>

definition unread :: "netread \<Rightarrow> byte list" where
  "unread rd = drop (MSG_GetReadCount rd) (sz_content (msg_readmsg rd))"

lemma process_fragment_piece:
  assumes "process_fragment (frag_field off mf) q chan rd = Inr (ready, c)"
    and "8 dvd off" and "off < 4 * 65536" and "off + k \<le> length P" and "mf \<or> off + k = length P"
    and "unread rd = take k (drop off P)" and "MSG_GetReadCount rd \<le> cursize (msg_readmsg rd)"
    and "cursize (msg_readmsg rd) \<le> length (data (msg_readmsg rd))" and "pieces_inv Ps chan"
    and "Ps q = Some P"
  shows "pieces_inv Ps c \<and> (\<forall>rd'. ready = Some rd' \<longrightarrow> unread rd' = P)"
proof -
  let ?m = "msg_readmsg rd"
  obtain pos where pos: "pos = MSG_GetReadCount rd" by simp
  have k: "cursize ?m - pos = k"
    using arg_cong [OF assms(6), of length] assms(4,7,8) by (simp add: unread_def sz_content_def pos)
  have piece: "take k (drop pos (data ?m)) = take k (drop off P)"
    using assms(6) k by (simp add: unread_def sz_content_def pos drop_take)
  obtain d where d: "d = (if incoming_unreliable chan \<noteq> q
      then chan\<lparr>in_fragment_length := 0, incoming_unreliable := q\<rparr> else chan)" by simp
  have dinv: "pieces_inv Ps d" "incoming_unreliable d = q"
    using assms(9) by (auto simp: d pieces_inv_def)
  note bits = frag_field_bits [OF assms(2,3), of mf]
  have off: "4 * unat (frag_field off mf AND NOT 1) = off"
    using assms(2) bits frag_units [OF assms(3)] by simp presburger
  have more: "(frag_field off mf AND 1 \<noteq> 0) = mf" using bits by simp
  have pf: "process_fragment (frag_field off mf) q chan rd =
      (if off + k > MAX_OVERALLMSGLEN then Inr (None, chan)
       else if off \<noteq> in_fragment_length d then Inr (None, d)
       else if pos + k > length (data ?m) then Inl Out_Of_Bounds
       else rbind (pokes off (take k (drop pos (data ?m))) (in_fragment_buf d)) (\<lambda>buf.
         if mf then Inr (None, d\<lparr>in_fragment_buf := buf, in_fragment_length := in_fragment_length d + k\<rparr>)
         else rbind (sz_puts 0 (take (in_fragment_length d + k) buf) ?m) (\<lambda>m.
           Inr (Some (rd\<lparr>msg_readmsg := m\<lparr>currentbit := 0, cursize := in_fragment_length d + k\<rparr>\<rparr>),
             clear_fragments (d\<lparr>in_fragment_buf := buf, in_fragment_length := in_fragment_length d + k\<rparr>)))))"
    by (simp only: process_fragment_def Let_def off more k pos [symmetric] d [symmetric])
      (simp cong: if_cong)
  show ?thesis
  proof (cases "off + k > MAX_OVERALLMSGLEN")
    case True
    then have "c = chan" "ready = None"
      using assms(1) by (simp_all add: pf)
    with assms(9) show ?thesis by simp
  next
    case room: False
    show ?thesis
    proof (cases "off = in_fragment_length d")
      case False
      then have "c = d" "ready = None"
        using assms(1) room by (simp_all add: pf)
      with dinv show ?thesis by simp
    next
      case here: True
      obtain buf where buf: "pokes off (take k (drop pos (data ?m))) (in_fragment_buf d) = Inr buf"
        and rest: "(if mf then Inr (None, d\<lparr>in_fragment_buf := buf, in_fragment_length := off + k\<rparr>)
          else rbind (sz_puts 0 (take (off + k) buf) ?m) (\<lambda>m.
            Inr (Some (rd\<lparr>msg_readmsg := m\<lparr>currentbit := 0, cursize := off + k\<rparr>\<rparr>),
              clear_fragments (d\<lparr>in_fragment_buf := buf, in_fragment_length := off + k\<rparr>))))
          = Inr (ready, c)"
        using assms(1) room here [symmetric] by (auto simp: pf rbind_eq_Inr split: if_splits)
      have len: "length (take k (drop pos (data ?m))) = k"
        unfolding piece using assms(4) by simp
      have "off + k \<le> length (in_fragment_buf d)"
        using pokes_bounds [OF buf] dinv(1) here len by (simp add: pieces_inv_def)
      with pokes_Inr [of off "take k (drop pos (data ?m))" "in_fragment_buf d"] buf len
      have buf': "buf = take off (in_fragment_buf d) @ take k (drop off P) @ drop (off + k) (in_fragment_buf d)"
        by (simp add: piece)
      have front: "take off (in_fragment_buf d) = take off P"
        using dinv here assms(10) by (cases "off = 0") (simp_all add: pieces_inv_def)
      have all: "take (off + k) buf = take (off + k) P" "off + k \<le> length buf"
        using assms(4) \<open>off + k \<le> length (in_fragment_buf d)\<close>
        by (simp_all add: buf' front take_add)
      show ?thesis
      proof (cases mf)
        case True
        with rest have "c = d\<lparr>in_fragment_buf := buf, in_fragment_length := off + k\<rparr>" "ready = None"
          by simp_all
        with all assms(4,10) dinv(2) show ?thesis by (simp add: pieces_inv_def)
      next
        case False
        with rest obtain m where m: "sz_puts 0 (take (off + k) buf) ?m = Inr m"
          and c: "c = clear_fragments (d\<lparr>in_fragment_buf := buf, in_fragment_length := off + k\<rparr>)"
          and r: "ready = Some (rd\<lparr>msg_readmsg := m\<lparr>currentbit := 0, cursize := off + k\<rparr>\<rparr>)"
          by (auto simp: rbind_eq_Inr)
        have "take (off + k) (data m) = take (off + k) buf"
          using sz_puts_bounds [OF m] all(2) by simp
        then have "unread (rd\<lparr>msg_readmsg := m\<lparr>currentbit := 0, cursize := off + k\<rparr>\<rparr>) = P"
          using all(1) False assms(5) by (simp add: unread_def sz_content_def MSG_GetReadCount_def)
        then show ?thesis using c r by (simp add: clear_fragments_def pieces_inv_def)
      qed
    qed
  qed
qed

section \<open>Reading the header\<close>

text \<open>
  The two ends of a connection: one is the client, whose packets carry its port number; both agree
  on the size of the number, on fragmentation and on the bias.
\<close>

definition peers :: "netchan_t \<Rightarrow> netchan_t \<Rightarrow> bool" where
  "peers a b \<longleftrightarrow> is_client a \<noteq> is_client b \<and> is_fragable a = is_fragable b \<and>
     is_stunaware a = is_stunaware b \<and> qportsize a = qportsize b \<and> qps_ok a"

lemma peers_settings:
  assumes "settings a' = settings a" and "settings b' = settings b"
  shows "peers a' b' \<longleftrightarrow> peers a b"
  using settings_eqs [OF assms(1)] settings_eqs [OF assms(2)] by (simp add: peers_def qps_ok_def)

lemma MSG_ReadShort_le16:
  assumes "packing (msg_readmsg rd) = SZ_RAWBYTES" and "currentbit (msg_readmsg rd) = 8 * k"
    and "k + 2 \<le> cursize (msg_readmsg rd)" and "take 2 (drop k (data (msg_readmsg rd))) = le16 w"
  shows "MSG_ReadShort rd = Inr (scast (ucast w :: 16 word), set_bit_pos (8 * (k + 2)) rd)"
proof -
  let ?d = "data (msg_readmsg rd)"
  have len: "k + 2 \<le> length ?d"
    using arg_cong [OF assms(4), of length] by simp
  then have "take 2 (drop k ?d) = [?d ! k, ?d ! (k + 1)]"
    by (intro nth_equalityI) (auto simp: nth_Cons split: nat.splits)
  with assms(4) have "?d ! k = ucast w" "?d ! (k + 1) = ucast (drop_bit 8 w)"
    by (simp_all add: le16_def)
  moreover have "(ucast (w AND 65535) :: 16 word) = ucast w"
  proof (rule bit_word_eqI)
    fix n assume "n < LENGTH(16)"
    moreover have "(65535 :: int32) = mask 16" by (simp add: mask_eq_exp_minus_1)
    ultimately show "bit (ucast (w AND 65535) :: 16 word) n = bit (ucast w :: 16 word) n"
      by (simp only: bit_simps) auto
  qed
  ultimately show ?thesis
    using assms(1-3) len by (simp add: MSG_ReadShort_def rd_byte_def join_le16 del: One_nat_def)
qed

lemma short_and_mask: "(scast (ucast w :: 16 word) :: int32) AND 0xffff = w AND 0xffff"
proof (rule bit_word_eqI)
  fix n assume "n < LENGTH(32)"
  moreover have "(0xffff :: int32) = mask 16" by (simp add: mask_eq_exp_minus_1)
  ultimately show "bit (scast (ucast w :: 16 word) AND 0xffff :: int32) n = bit (w AND 0xffff) n"
    by (cases "n = 15"; simp only: bit_simps) (auto simp: bit_simps min_def)
qed

text \<open>A reader behind the two words of a datagram finds its offset field and then its payload.\<close>

lemma read_offset_header:
  assumes "peers a b" and "sz_content (msg_readmsg rd) = header_bytes a w1 w2 fo @ body"
    and "packing (msg_readmsg rd) = SZ_RAWBYTES" and "currentbit (msg_readmsg rd) = 64"
    and "cursize (msg_readmsg rd) \<le> length (data (msg_readmsg rd))"
  shows "read_offset b rd = Inr (if is_fragable a then fo AND 0xffff else 0, set_bit_pos (8 * qw_hsz a) rd)"
proof -
  let ?m = "msg_readmsg rd"
  let ?q = "length (qport_bytes a)"
  have qp: "qps_ok a" using assms(1) by (simp add: peers_def)
  have cs: "cursize ?m = qw_hsz a + length body"
    using arg_cong [OF assms(2), of length] assms(5) qp by (simp add: sz_content_def)
  have hsz: "qw_hsz a = 8 + ?q + (if is_fragable a then 2 else 0)"
    using length_qport_bytes [OF qp] by (simp add: qw_hsz_def)
  have q: "?q = (if is_client b then 0 else qportsize b)"
    using length_qport_bytes [OF qp] assms(1) by (auto simp: peers_def)
  obtain rd1 where rd1: "rd1 = set_bit_pos (64 + 8 * ?q) rd" by simp
  have skip: "(if is_client b then Inr rd else MSG_ReadSkip rd (int (qportsize b))) = Inr rd1"
    using q cs hsz assms(3,4) by (auto simp: rd1 MSG_ReadSkip_def set_bit_pos_def Let_def)
  show ?thesis
  proof (cases "is_fragable a")
    case True
    have "take 2 (drop (8 + ?q) (sz_content ?m)) = le16 fo"
      using True by (simp add: assms(2) header_bytes_def)
    moreover have "take 2 (drop (8 + ?q) (sz_content ?m)) = take 2 (drop (8 + ?q) (data ?m))"
      using cs hsz True by (simp add: sz_content_def drop_take min_def)
    ultimately have "MSG_ReadShort rd1 = Inr (scast (ucast fo :: 16 word), set_bit_pos (8 * (8 + ?q + 2)) rd1)"
      using assms(3) cs hsz True by (intro MSG_ReadShort_le16) (simp_all add: rd1 set_bit_pos_def)
    then show ?thesis
      using True skip assms(1) hsz
      by (simp add: read_offset_def short_and_mask peers_def rd1 set_bit_pos_def)
  next
    case False
    then show ?thesis
      using skip assms(1) hsz by (simp add: read_offset_def peers_def rd1)
  qed
qed

section \<open>What an accepted packet hands over\<close>

lemma confirm_mtu_kept: "confirm_mtu v chan = Inr c \<Longrightarrow> kept c = kept chan"
  by (auto simp: confirm_mtu_def rbind_eq_Inr kept_def settings_def split: if_splits)

lemma process_accept_pieces:
  "pieces_inv Ps (fst (process_accept env oob q v m r chan)) = pieces_inv Ps chan"
proof -
  obtain c where c: "c = fst (process_accept env oob q v m r chan)" by simp
  have "in_fragment_length c = in_fragment_length chan" "in_fragment_buf c = in_fragment_buf chan"
    "incoming_unreliable c = incoming_unreliable chan"
    by (simp_all add: c process_accept_def Let_def)
  then show ?thesis by (simp add: pieces_inv_def c [symmetric])
qed

lemma process_content:
  assumes "Netchan_Process env b rd net_drop = Inr (ok, b', rd', nd')" and "plain b" and "peers a b"
    and "frag_of a w1 w2 P (sz_content (msg_readmsg rd))"
    and "taken_words b w1 w2 = (s, v)" and "length P < 4 * 65536"
    and "cursize (msg_readmsg rd) \<le> length (data (msg_readmsg rd))" and "pieces_inv Ps b"
    and "Ps (s AND NOT 0x80000000) = Some P"
  shows "pieces_inv Ps b' \<and> (ok \<longrightarrow> unread rd' = P)"
proof -
  let ?q = "s AND NOT 0x80000000"
  let ?m = "msg_readmsg rd"
  let ?rd = "set_bit_pos 64 (MSG_BeginReading rd ?m (nc_netprim b))"
  let ?b = "counted ?m b"
  have b: "pieces_inv Ps ?b" using assms(8) by (simp add: pieces_inv_kept [of ?b b])
  from process_split [OF assms(1) frag_of_has_words [OF assms(4)] assms(5)]
  consider "\<not> ok" "b' = b \<or> b' = ?b"
    | "process_words env s v ?b ?rd net_drop = Inr (ok, b', rd', nd')" by blast
  then show ?thesis
  proof cases
    case 1
    with b assms(8) show ?thesis by auto
  next
    case 2
    have "plain ?b" using assms(2) settings_plain [of ?b b] by simp
    from 2 this show ?thesis
    proof (cases rule: process_words_cases)
      case 1
      with b show ?thesis by simp
    next
      case (2 rd1 off c1 ready c2)
      obtain o1 k mf where o1: "8 dvd o1" "o1 + k \<le> length P" "mf \<or> o1 + k = length P"
        "is_fragable a \<or> o1 = 0 \<and> \<not> mf"
        and pkt: "sz_content ?m = header_bytes a w1 w2 (frag_field o1 mf) @ take k (drop o1 P)"
        using assms(4) unfolding frag_of_def frag_field_def by blast
      have small: "o1 < 4 * 65536" using o1(2) assms(6) by simp
      have "peers a ?b" using assms(3) peers_settings [of a a ?b b] by simp
      then have "read_offset ?b ?rd = Inr (if is_fragable a then frag_field o1 mf AND 0xffff else 0,
          set_bit_pos (8 * qw_hsz a) ?rd)"
        using pkt assms(7) by (intro read_offset_header [where body = "take k (drop o1 P)"])
          (simp_all add: MSG_BeginReading_def set_bit_pos_def sz_content_def)
      moreover have "(if is_fragable a then frag_field o1 mf AND 0xffff else 0) = frag_field o1 mf"
        using o1(4) frag_field_bits(3) [OF o1(1) small] by (auto simp: frag_field_def)
      ultimately have rd1: "off = frag_field o1 mf" "rd1 = set_bit_pos (8 * qw_hsz a) ?rd"
        using 2(1) by simp_all
      have qp: "qps_ok a" using assms(3) by (simp add: peers_def)
      have cs: "cursize ?m = qw_hsz a + k"
        using arg_cong [OF pkt, of length] assms(7) o1(2) qp by (simp add: sz_content_def)
      have un: "unread rd1 = take k (drop o1 P)"
      proof -
        have "unread rd1 = drop (qw_hsz a) (sz_content ?m)"
          by (simp add: rd1 unread_def MSG_GetReadCount_def MSG_BeginReading_def set_bit_pos_def sz_content_def)
        then show ?thesis using pkt qp by simp
      qed
      have c1: "pieces_inv Ps c1"
        using b pieces_inv_kept [OF confirm_mtu_kept [OF 2(3)]] by simp
      have "pieces_inv Ps c2 \<and> (\<forall>rd'. ready = Some rd' \<longrightarrow> unread rd' = P)"
      proof (cases "off = 0")
        case True
        then have "o1 = 0" "\<not> mf" using frag_field_zero [OF o1(1) small] rd1 by auto
        with True 2(4) un o1 have "c2 = clear_fragments c1" "ready = Some rd1" "unread rd1 = P"
          by (simp_all add: take_payload_def)
        then show ?thesis by (simp add: clear_fragments_def pieces_inv_def)
      next
        case False
        then have pf: "process_fragment (frag_field o1 mf) ?q c1 rd1 = Inr (ready, c2)"
          using 2(4) rd1 by (simp add: take_payload_def)
        have le: "MSG_GetReadCount rd1 \<le> cursize (msg_readmsg rd1)"
          "cursize (msg_readmsg rd1) \<le> length (data (msg_readmsg rd1))"
          using cs assms(7)
          by (simp_all add: rd1 MSG_GetReadCount_def MSG_BeginReading_def set_bit_pos_def)
        from process_fragment_piece [OF pf o1(1) small o1(2,3) un le c1 assms(9)] show ?thesis .
      qed
      then show ?thesis
        using 2(5) by (cases ready) (simp_all add: process_accept_pieces)
    qed
  qed
qed

end
