(* ===== verification/NetSafe.thy ===== *)
theory NetSafe
  imports NetFrag
begin

text \<open>
  No access outside the channel's arrays.  \<open>store_ok\<close> says that the arrays of a \<open>netchan_t\<close> have the
  sizes of the C declaration and that what is in use lies inside them.  Under it \<open>Netchan_Process\<close>
  takes any datagram whatever, and \<open>Netchan_Transmit\<close> any payload: neither faults, both return, and
  both leave the channel \<open>store_ok\<close>.
\<close>

section \<open>The arrays of a channel\<close>

definition store_ok :: "netchan_t \<Rightarrow> bool" where
  "store_ok chan \<longleftrightarrow> length (sentsizes chan) = 64 \<and> length (reliable_buf chan) = MAX_OVERALLMSGLEN \<and>
     reliable_length chan \<le> MAX_OVERALLMSGLEN \<and> length (in_fragment_buf chan) = MAX_OVERALLMSGLEN \<and>
     in_fragment_length chan \<le> MAX_OVERALLMSGLEN \<and> length (data (message chan)) = MAX_OVERALLMSGLEN \<and>
     cursize (message chan) \<le> MAX_OVERALLMSGLEN"

text \<open>The storage of \<open>net_message\<close>, and a reader inside it.\<close>

definition net_message_ok :: "sizebuf \<Rightarrow> bool" where
  "net_message_ok m \<longleftrightarrow> length (data m) = MAX_OVERALLMSGLEN \<and> cursize m \<le> MAX_OVERALLMSGLEN"

definition rd_in :: "netread \<Rightarrow> bool" where
  "rd_in rd \<longleftrightarrow> net_message_ok (msg_readmsg rd) \<and> packing (msg_readmsg rd) = SZ_RAWBYTES \<and>
     currentbit (msg_readmsg rd) \<le> 8 * cursize (msg_readmsg rd)"

lemma MSG_BeginReading_in: "net_message_ok m \<Longrightarrow> rd_in (MSG_BeginReading rd m pr)"
  by (simp add: rd_in_def net_message_ok_def MSG_BeginReading_def)

lemma rd_in_bad [simp]: "rd_in (bad_read rd) = rd_in rd"
  by (simp add: rd_in_def bad_read_def)

lemma rd_in_pos: "rd_in rd \<Longrightarrow> p \<le> 8 * cursize (msg_readmsg rd) \<Longrightarrow> rd_in (set_bit_pos p rd)"
  by (simp add: rd_in_def set_bit_pos_def net_message_ok_def)

lemma rd_in_byte: "rd_in rd \<Longrightarrow> i < cursize (msg_readmsg rd) \<Longrightarrow> \<exists>b. rd_byte i rd = Inr b"
  by (simp add: rd_in_def rd_byte_def net_message_ok_def)

lemma MSG_ReadLong_in: "rd_in rd \<Longrightarrow> \<exists>w rd'. MSG_ReadLong rd = Inr (w, rd') \<and> rd_in rd'"
  by (auto simp: MSG_ReadLong_def bad_read_def Let_def rd_in_def net_message_ok_def rd_byte_def set_bit_pos_def)

lemma MSG_ReadShort_in: "rd_in rd \<Longrightarrow> \<exists>w rd'. MSG_ReadShort rd = Inr (w, rd') \<and> rd_in rd'"
  by (auto simp: MSG_ReadShort_def bad_read_def Let_def rd_in_def net_message_ok_def rd_byte_def set_bit_pos_def)

lemma MSG_ReadSkip_in: "rd_in rd \<Longrightarrow> \<exists>rd'. MSG_ReadSkip rd n = Inr rd' \<and> rd_in rd'"
  by (auto simp: MSG_ReadSkip_def Let_def rd_in_def bad_read_def set_bit_pos_def net_message_ok_def)

lemma read_offset_in: "rd_in rd \<Longrightarrow> \<exists>off rd'. read_offset chan rd = Inr (off, rd') \<and> rd_in rd'"
proof -
  assume "rd_in rd"
  then obtain rd1 where s: "(if is_client chan then Inr rd else MSG_ReadSkip rd (int (qportsize chan))) = Inr rd1"
    and "rd_in rd1"
    using MSG_ReadSkip_in [of rd "int (qportsize chan)"] by (cases "is_client chan") auto
  moreover from MSG_ReadShort_in [OF \<open>rd_in rd1\<close>] obtain w rd2
    where "MSG_ReadShort rd1 = Inr (w, rd2)" "rd_in rd2" by blast
  ultimately show ?thesis by (auto simp: read_offset_def)
qed

section \<open>Receiving\<close>

lemma confirm_mtu_in:
  assumes "store_ok chan"
  shows "\<exists>c. confirm_mtu v chan = Inr c \<and> store_ok c \<and> compresstable c = compresstable chan"
proof -
  have "unat (v AND 63) < length (sentsizes chan)"
    using assms by (simp add: store_ok_def unat_and_63)
  then show ?thesis
    using assms by (auto simp: confirm_mtu_def store_ok_def)
qed

lemma clear_fragments_in:
  "store_ok chan \<Longrightarrow> store_ok (clear_fragments chan)" "compresstable (clear_fragments chan) = compresstable chan"
  by (simp_all add: store_ok_def clear_fragments_def)

lemma sz_puts_in:
  "i + length vs \<le> length (data m) \<Longrightarrow> \<exists>m'. sz_puts i vs m = Inr m' \<and> length (data m') = length (data m) \<and>
    packing m' = packing m \<and> cursize m' = cursize m"
  by (auto simp: sz_puts_def pokes_Inr)

lemma process_fragment_in:
  assumes "store_ok chan" and "rd_in rd"
  shows "\<exists>r c. process_fragment off q chan rd = Inr (r, c) \<and> store_ok c \<and>
    compresstable c = compresstable chan \<and> (\<forall>rd'. r = Some rd' \<longrightarrow> rd_in rd')"
proof -
  let ?m = "msg_readmsg rd"
  obtain pos n where pos: "pos = MSG_GetReadCount rd" and n: "n = cursize ?m - pos" by simp
  obtain off' where off': "off' = 4 * unat (off AND NOT 1)" by simp
  obtain d where d: "d = (if incoming_unreliable chan \<noteq> q
      then chan\<lparr>in_fragment_length := 0, incoming_unreliable := q\<rparr> else chan)" by simp
  have sd: "store_ok d" "compresstable d = compresstable chan"
    using assms(1) by (auto simp: d store_ok_def)
  have posn: "pos + n \<le> cursize ?m"
    using assms(2) by (auto simp: pos n rd_in_def MSG_GetReadCount_def)
  then have len: "pos + n \<le> length (data ?m)"
    using assms(2) by (simp add: rd_in_def net_message_ok_def)
  have pf: "process_fragment off q chan rd =
      (if off' + n > MAX_OVERALLMSGLEN then Inr (None, chan)
       else if off' \<noteq> in_fragment_length d then Inr (None, d)
       else rbind (pokes off' (take n (drop pos (data ?m))) (in_fragment_buf d)) (\<lambda>buf.
         if off AND 1 \<noteq> 0 then Inr (None, d\<lparr>in_fragment_buf := buf, in_fragment_length := off' + n\<rparr>)
         else rbind (sz_puts 0 (take (off' + n) buf) ?m) (\<lambda>m.
           Inr (Some (rd\<lparr>msg_readmsg := m\<lparr>currentbit := 0, cursize := off' + n\<rparr>\<rparr>),
             clear_fragments (d\<lparr>in_fragment_buf := buf, in_fragment_length := off' + n\<rparr>)))))"
    using len by (simp only: process_fragment_def Let_def pos [symmetric] n [symmetric] off' [symmetric]
      d [symmetric]) (simp cong: if_cong)
  show ?thesis
  proof (cases "off' + n > MAX_OVERALLMSGLEN \<or> off' \<noteq> in_fragment_length d")
    case True
    with assms(1) sd show ?thesis by (auto simp: pf)
  next
    case False
    then have room: "off' + n \<le> MAX_OVERALLMSGLEN" and here: "in_fragment_length d = off'" by simp_all
    obtain buf where buf: "pokes off' (take n (drop pos (data ?m))) (in_fragment_buf d) = Inr buf"
      "length buf = MAX_OVERALLMSGLEN"
      using room len sd(1) by (simp add: pokes_Inr store_ok_def)
    have st: "store_ok (d\<lparr>in_fragment_buf := buf, in_fragment_length := off' + n\<rparr>)"
      using sd(1) buf(2) room by (simp add: store_ok_def)
    obtain m where m: "sz_puts 0 (take (off' + n) buf) ?m = Inr m" "net_message_ok (m\<lparr>cursize := off' + n\<rparr>)"
      "packing m = SZ_RAWBYTES"
      using sz_puts_in [of 0 "take (off' + n) buf" ?m] buf(2) room assms(2)
      by (auto simp: rd_in_def net_message_ok_def)
    show ?thesis
      using False buf(1) m sd(2) st clear_fragments_in(1) [OF st]
      by (auto simp: pf here rd_in_def net_message_ok_def clear_fragments_def)
  qed
qed

lemma process_accept_in:
  "store_ok chan \<Longrightarrow> store_ok (fst (process_accept env oob q v m r chan))"
  "compresstable (fst (process_accept env oob q v m r chan)) = compresstable chan"
  by (simp_all add: store_ok_def process_accept_def Let_def)

lemma process_words_in:
  assumes "store_ok chan" and "rd_in rd" and "compresstable chan = None"
  shows "\<exists>ok chan' rd' nd'. process_words env s a chan rd nd = Inr (ok, chan', rd', nd') \<and>
    store_ok chan' \<and> compresstable chan' = None \<and> rd_in rd'"
proof -
  let ?q = "s AND NOT 0x80000000" and ?v = "a AND NOT 0x80000000"
  obtain oob where oob: "oob = (s = 0x80000000 \<and> a = 0x80000000)" by simp
  obtain off rd1 where off: "read_offset chan rd = Inr (off, rd1)" and rd1: "rd_in rd1"
    using read_offset_in [OF assms(2)] by blast
  obtain c1 where c1: "(if oob then Inr chan else confirm_mtu ?v chan) = Inr c1"
    and sc1: "store_ok c1" "compresstable c1 = None"
    using confirm_mtu_in [OF assms(1), of ?v] assms(1,3) by (cases oob) auto
  obtain r c2 where c2: "take_payload off ?q c1 rd1 = Inr (r, c2)"
    and sc2: "store_ok c2" "compresstable c2 = None" "\<forall>rd'. r = Some rd' \<longrightarrow> rd_in rd'"
    using process_fragment_in [OF sc1(1) rd1, of off ?q] clear_fragments_in [of c1] sc1 rd1
    by (cases "off = 0") (auto simp: take_payload_def)
  obtain c3 nd3 where c3: "process_accept env oob ?q ?v (drop_bit 31 s) (drop_bit 31 a) c2 = (c3, nd3)"
    by force
  then have sc3: "store_ok c3" "compresstable c3 = None"
    using process_accept_in(1) [OF sc2(1), of env oob ?q ?v "drop_bit 31 s" "drop_bit 31 a"]
      process_accept_in(2) [of env oob ?q ?v "drop_bit 31 s" "drop_bit 31 a" c2] sc2(2) by simp_all
  have "process_words env s a chan rd nd =
     (if oob \<and> \<not> NET_AddrIsReliable (remote_address chan) then Inr (False, chan, rd1, nd)
      else if \<not> oob \<and> ?q \<le> incoming_sequence chan \<and>
              \<not> (drop_bit 31 s \<noteq> 0 \<and> adr_prot (remote_address chan) = NP_KEXLAN)
      then Inr (False, chan, rd1, nd)
      else (case r of None \<Rightarrow> Inr (False, c2, rd1, nd) | Some rd2 \<Rightarrow> Inr (True, c3, rd2, nd3)))"
  proof -
    have "process_words env s a chan rd nd = rbind (read_offset chan rd) (\<lambda>(off, rd).
       if oob \<and> \<not> NET_AddrIsReliable (remote_address chan) then Inr (False, chan, rd, nd)
       else if \<not> oob \<and> ?q \<le> incoming_sequence chan \<and>
              \<not> (drop_bit 31 s \<noteq> 0 \<and> adr_prot (remote_address chan) = NP_KEXLAN)
       then Inr (False, chan, rd, nd)
       else rbind (if oob then Inr chan else confirm_mtu ?v chan) (\<lambda>chan.
         rbind (take_payload off ?q chan rd) (\<lambda>(ready, chan).
         case ready of None \<Rightarrow> Inr (False, chan, rd, nd)
         | Some rd \<Rightarrow>
             let (chan, nd) = process_accept env oob ?q ?v (drop_bit 31 s) (drop_bit 31 a) chan in
             (case compresstable chan of None \<Rightarrow> Inr (True, chan, rd, nd)
              | Some hf \<Rightarrow> rbind (Huff_DecompressPacket hf (msg_readmsg rd) (MSG_GetReadCount rd)) (\<lambda>m.
                  Inr (True, chan, rd\<lparr>msg_readmsg := m\<rparr>, nd))))))"
      by (simp only: process_words_def read_offset_def take_payload_def Let_def oob rbind_assoc)
    also have "\<dots> = (if oob \<and> \<not> NET_AddrIsReliable (remote_address chan) then Inr (False, chan, rd1, nd)
      else if \<not> oob \<and> ?q \<le> incoming_sequence chan \<and>
              \<not> (drop_bit 31 s \<noteq> 0 \<and> adr_prot (remote_address chan) = NP_KEXLAN)
      then Inr (False, chan, rd1, nd)
      else (case r of None \<Rightarrow> Inr (False, c2, rd1, nd) | Some rd2 \<Rightarrow> Inr (True, c3, rd2, nd3)))"
      unfolding off rbind_Inr prod.case c1 c2 Let_def
      by (cases r) (simp_all only: c3 sc3 option.case prod.case)
    finally show ?thesis .
  qed
  with assms(1,3) rd1 sc2 sc3 show ?thesis by (auto split: option.split)
qed

lemma NET_CompareAdr_returns: "adr_valid a \<Longrightarrow> adr_valid b \<Longrightarrow> \<exists>r. NET_CompareAdr a b = Inr r"
  by (cases "adr_type a"; cases "adr_type b")
    (auto simp: NET_CompareAdr_def adr_valid_def str_same_terminated)

lemma Netchan_Process_in:
  assumes "store_ok chan" and "net_message_ok (msg_readmsg rd)" and "compresstable chan = None"
    and "(if demoplayback env then Inr True
      else NET_CompareAdr (net_from env) (remote_address chan)) = Inr same"
  shows "\<exists>ok chan' rd' nd'. Netchan_Process env chan rd nd = Inr (ok, chan', rd', nd') \<and>
    store_ok chan' \<and> compresstable chan' = None \<and> net_message_ok (msg_readmsg rd')"
proof -
  let ?c = "chan\<lparr>bytesin := bytesin chan + word_of_nat (cursize (msg_readmsg rd))\<rparr>"
  have c: "store_ok ?c" "compresstable ?c = None"
    using assms(1,3) by (simp_all add: store_ok_def)
  obtain s rd1 where s: "MSG_ReadLong (MSG_BeginReading rd (msg_readmsg rd) (nc_netprim ?c)) = Inr (s, rd1)"
    and rd1: "rd_in rd1" using MSG_ReadLong_in [OF MSG_BeginReading_in [OF assms(2)]] by blast
  obtain a rd2 where a: "MSG_ReadLong rd1 = Inr (a, rd2)" and rd2: "rd_in rd2"
    using MSG_ReadLong_in [OF rd1] by blast
  have "\<exists>ok c' rd' nd'. process_words env x y ?c rd2 nd = Inr (ok, c', rd', nd') \<and> store_ok c' \<and>
      compresstable c' = None \<and> net_message_ok (msg_readmsg rd')" for x y
    using process_words_in [OF c(1) rd2 c(2)] by (fastforce simp: rd_in_def)
  moreover have "net_message_ok (msg_readmsg rd2)" using rd2 by (simp add: rd_in_def)
  ultimately show ?thesis
    using assms(1-3) c unfolding Netchan_Process_def assms(4) rbind_Inr Let_def s a prod.case
    by (cases same; cases "is_stunaware ?c"; cases "BigLong s AND ANTISTUNBIAS = 0")
      (simp_all add: s a exI [of Not False])
qed

text \<open>
  C4: on a channel that does not compress (\<open>compresstable = NULL\<close>), with addresses of the kinds
  \<open>NET_CompareAdr\<close> knows or while a demo plays, no datagram makes \<open>Netchan_Process\<close> fault: whatever the
  bytes in \<open>net_message\<close> (a truncated header, any fragment offset, any sequence numbers), it returns,
  the channel's arrays are respected and what it leaves in \<open>net_message\<close> lies inside the storage.
  Channels with a compression table are not covered: there \<open>Netchan_Process\<close> calls
  \<open>Huff_DecompressPacket\<close>, which can stop in \<open>Sys_Error\<close> or read behind the message.
\<close>

theorem Netchan_Process_safe:
  assumes "store_ok chan" and "net_message_ok (msg_readmsg rd)" and "compresstable chan = None"
    and "demoplayback env \<or> adr_valid (net_from env) \<and> adr_valid (remote_address chan)"
  shows "\<exists>ok chan' rd' net_drop'. Netchan_Process env chan rd net_drop = Inr (ok, chan', rd', net_drop') \<and>
    store_ok chan' \<and> net_message_ok (msg_readmsg rd')"
proof -
  obtain same where "(if demoplayback env then Inr True
      else NET_CompareAdr (net_from env) (remote_address chan)) = Inr same"
    using assms(4) NET_CompareAdr_returns by (cases "demoplayback env") fastforce+
  from Netchan_Process_in [OF assms(1-3) this] show ?thesis by blast
qed

section \<open>Sending: what stays in bounds\<close>

text \<open>
  \<open>lean c d\<close>: \<open>d\<close> has the arrays of \<open>c\<close>, no longer a message and no larger an upper bound of the MTU.
\<close>

definition lean :: "netchan_t \<Rightarrow> netchan_t \<Rightarrow> bool" where
  "lean c d \<longleftrightarrow> length (sentsizes d) = length (sentsizes c) \<and>
     length (data (message d)) = length (data (message c)) \<and>
     cursize (message d) \<le> cursize (message c) \<and> mtu_max d \<le> mtu_max c"

lemma lean_refl [intro!, simp]: "lean c c"
  by (simp add: lean_def)

lemma lean_trans [trans]: "lean c d \<Longrightarrow> lean d e \<Longrightarrow> lean c e"
  by (simp add: lean_def)

lemma qw_reliable_in:
  assumes "store_ok chan"
  shows "\<exists>rel c. qw_reliable chan = Inr (rel, c) \<and> lean chan c \<and> store_ok c"
  using assms
  by (auto simp: qw_reliable_def Let_def store_ok_def pokes_Inr lean_def MAX_OVERALLMSGLEN_def)

lemma clear_gaps_length: "length (snd (clear_gaps out lst sizes)) = length sizes"
proof (induction out lst sizes rule: clear_gaps.induct)
  case (1 out lst sizes)
  then show ?case by (subst clear_gaps.simps) simp
qed

lemma qw_forget_gaps_lean: "lean chan (qw_forget_gaps chan)"
  by (simp add: qw_forget_gaps_def lean_def clear_gaps_length split_beta)

lemma qw_add_reliable_lean:
  "qw_add_reliable rel chan send = Inr (Some (c, send')) \<Longrightarrow> lean chan c"
  by (auto simp: qw_add_reliable_def Let_def rbind_eq_Inr lean_def split: if_splits)

lemma qw_blackhole_lean: "lean chan (qw_blackhole chan)"
  by (simp add: qw_blackhole_def lean_def)

lemma qw_probe_lean: "qw_probe env rel chan send = Inr (p, c, send') \<Longrightarrow> lean chan c"
  by (auto simp: qw_probe_def qw_reprobe_def Let_def rbind_eq_Inr lean_def split: if_splits)

lemma qw_finish_lean:
  assumes "qw_finish env rel payload chan send = Inr (p, c, send')"
  shows "lean chan c"
proof -
  obtain s1 q d s2 where "qw_probe env rel (qw_blackhole chan) s1 = Inr (q, d, s2)" "c = d"
    using assms by (auto simp: qw_finish_def rbind_eq_Inr split: option.splits)
  then show ?thesis using qw_probe_lean lean_trans [OF qw_blackhole_lean] by blast
qed

lemma note_sent_lean [simp]: "lean chan (note_sent mtuseq n chan)"
  by (simp add: note_sent_def lean_def)

lemma send_frag_lean:
  "send_frag sock mtuseq pkt isfirst i dupes e outbytes chan sent = (sm, e', n, chan', sent') \<Longrightarrow>
   lean chan chan'"
proof (induction sock mtuseq pkt isfirst i dupes e outbytes chan sent rule: send_frag.induct)
  case (1 sock mtuseq pkt isfirst i dupes e outbytes chan sent)
  let ?to = "remote_address chan"
  let ?e = "sock sent ?to pkt" and ?sent = "sent @ [(?to, pkt)]"
  obtain c1 where c1: "c1 = (if isfirst then note_sent mtuseq (int (length pkt) - int (qw_hsz chan)) chan else chan)"
    by simp
  then have l1: "lean chan c1" by simp
  consider (stop) "\<not> (i < dupes \<and> e = NETERR_SENT)"
    | (small) "i < dupes \<and> e = NETERR_SENT" "?e = NETERR_MTU \<and> isfirst \<and> mtu_cur chan > mtu_min chan"
    | (on) "i < dupes \<and> e = NETERR_SENT" "\<not> (?e = NETERR_MTU \<and> isfirst \<and> mtu_cur chan > mtu_min chan)"
    by blast
  then show ?case
  proof cases
    case stop
    with "1.prems" show ?thesis by (subst (asm) send_frag.simps) auto
  next
    case small
    with "1.prems" show ?thesis
      by (subst (asm) send_frag.simps) (auto simp: NET_SendPacket_def Let_def lean_def)
  next
    case on
    have "send_frag sock mtuseq pkt isfirst (i + 1) dupes ?e (outbytes + int (length pkt)) c1 ?sent =
        (sm, e', n, chan', sent')"
      using "1.prems" on unfolding c1 by (subst (asm) send_frag.simps)
        (simp only: NET_SendPacket_def Let_def prod.case if_not_P [OF on(2)] on(1) simp_thms if_True if_False)
    from "1.IH" [OF on(1) _ refl on(2) c1 this] l1 show ?thesis
      by (auto simp: NET_SendPacket_def intro: lean_trans)
  qed
qed

lemma qw_frags_lean:
  assumes "qw_frags sock dupes mtuseq w1 w2 offset e outbytes chan send sent = Some (Inr (e', n, chan', sent'))"
  shows "lean chan chan'"
proof -
  have "\<forall>e' n chan' sent'. r = Inr (e', n, chan', sent') \<longrightarrow> lean chan chan'"
    if "qw_frags sock dupes mtuseq w1 w2 offset e outbytes chan send sent = Some r" for r
  proof (induction rule: qw_frags.raw_induct [OF _ that])
    case (1 F sock dupes mtuseq w1 w2 offset e outbytes chan send sent r)
    let ?hsz = "qw_hsz chan"
    let ?total = "int (cursize send) - int ?hsz"
    let ?no0 = "int offset + int (mtu_cur chan) - int ?hsz"
    obtain mf where mf: "mf = (?no0 < ?total)" by simp
    obtain no where no: "no = (if mf then ?no0 - ?no0 mod 8 else ?total)" by simp
    show ?case
    proof (cases "frag_header w1 w2 chan offset mf send")
      case (Inl f)
      with 1(2) show ?thesis by (auto simp: Let_def mf)
    next
      case (Inr s1)
      obtain pkt where pkt: "pkt = take (nat (no - int offset + int ?hsz)) (drop offset (data s1))" by simp
      obtain sm e1 n1 c1 sent1 where sf: "(if e = NETERR_SENT
          then send_frag sock mtuseq pkt (offset = 0) (-1) dupes e outbytes chan sent
          else (False, e, outbytes, chan, sent)) = (sm, e1, n1, c1, sent1)"
        by (metis prod_cases5)
      then have l: "lean chan c1"
        using send_frag_lean [of sock mtuseq pkt "offset = 0" "-1" dupes e outbytes chan sent sm e1 n1 c1 sent1]
        by (cases "e = NETERR_SENT") simp_all
      have "(if sm then F sock dupes mtuseq w1 w2 offset e1 n1 c1 s1 sent1
          else if mf then F sock dupes mtuseq w1 w2 (nat no) e1 n1 c1 s1 sent1
          else Some (Inr (e1, n1, c1, sent1))) = Some r"
        using 1(2) unfolding Let_def mf [symmetric] no [symmetric] Inr sum.case pkt [symmetric] sf prod.case .
      then show ?thesis
        using 1(1) [of sock dupes mtuseq w1 w2 offset e1 n1 c1 s1 sent1 r]
          1(1) [of sock dupes mtuseq w1 w2 "nat no" e1 n1 c1 s1 sent1 r] l
        by (cases sm; cases mf) (auto intro: lean_trans)
    qed
  qed
  with assms show ?thesis by blast
qed

lemma qw_datagrams_lean:
  assumes "qw_datagrams env sock av probe mtuseq w chan send sent = Some (Inr (e, n, chan', sent'))"
  shows "lean chan chan'"
proof -
  have "lean chan c" if "qw_send_whole sock dupes mtuseq chan send sent = (x, y, c, z)" for dupes x y c z
    using that by (auto simp: qw_send_whole_def Let_def note_sent_def lean_def split: prod.splits if_splits)
  then show ?thesis
    using assms qw_frags_lean by (auto simp: qw_datagrams_def Let_def split: if_splits)
qed

lemma qw_account_lean: "lean chan (qw_account env rel rate e n chan)"
  by (simp add: qw_account_def Netchan_Block_def lean_def)

section \<open>Sending: every write fits\<close>

lemma SZ_Write_room:
  assumes "sz_in N sb" and "cursize sb + length bs \<le> maxsize sb" and "cursize sb + length bs \<le> N"
  shows "SZ_Write sb bs = Inr (sz_append sb bs)"
  using assms
  by (cases sb) (simp add: SZ_Write_def SZ_GetSpace_def sz_puts_def pokes_Inr sz_append_def sz_in_def)

text \<open>A packet buffer with its final limit.\<close>

definition packet_in :: "sizebuf \<Rightarrow> bool" where
  "packet_in send \<longleftrightarrow> sz_in (MAX_OVERALLMSGLEN + PACKET_HEADER) send \<and>
     maxsize send = MAX_OVERALLMSGLEN - 100 \<and> cursize send \<le> maxsize send"

lemma packet_write:
  assumes "packet_in send" and "cursize send + length bs \<le> maxsize send"
  shows "SZ_Write send bs = Inr (sz_append send bs) \<and> packet_in (sz_append send bs)"
proof -
  have "SZ_Write send bs = Inr (sz_append send bs)"
    using assms by (intro SZ_Write_room [of "MAX_OVERALLMSGLEN + PACKET_HEADER"]) (auto simp: packet_in_def)
  then show ?thesis
    using assms SZ_Write_in [of send bs "sz_append send bs"] by (simp add: packet_in_def)
qed

lemma write_qport_append:
  "SZ_Write s (qport_bytes chan) = Inr (sz_append s (qport_bytes chan)) \<Longrightarrow>
   write_qport chan s = Inr (sz_append s (qport_bytes chan))"
  by (cases s) (auto simp: write_qport_def qport_bytes_def MSG_WriteShort_eq MSG_WriteByte_eq sz_append_def)

lemma qw_header_total:
  assumes "length buf = MAX_OVERALLMSGLEN + PACKET_HEADER" and "qps_ok chan" and "is_fragable chan"
  shows "\<exists>send. qw_header buf rel chan = Inr send \<and> packet_in send \<and> cursize send = qw_hsz chan"
proof -
  let ?N = "MAX_OVERALLMSGLEN + PACKET_HEADER"
  obtain w1 w2 where w: "qw_words chan rel = (w1, w2)" by force
  let ?s0 = "packet_buf buf (qw_hsz chan + mtu_cur chan)"
  let ?s3 = "sz_append (sz_append (sz_append ?s0 (le32 w1)) (le32 w2)) (qport_bytes chan)"
  have s0: "sz_in ?N ?s0" "cursize ?s0 = 0" "maxsize ?s0 = qw_hsz chan + mtu_cur chan"
    using assms(1) by (simp_all add: packet_buf_def sz_in_def)
  have q: "length (qport_bytes chan) \<le> 2" "qw_hsz chan = 10 + length (qport_bytes chan)"
    using assms(2,3) by (simp_all add: length_qport_bytes qw_hsz_def qps_ok_def)
  have big: "20 \<le> ?N" by (simp add: MAX_OVERALLMSGLEN_def)
  have w1: "SZ_Write ?s0 (le32 w1) = Inr (sz_append ?s0 (le32 w1))" "sz_in ?N (sz_append ?s0 (le32 w1))"
    using SZ_Write_room [OF s0(1), of "le32 w1"] SZ_Write_in [of ?s0 "le32 w1" _ ?N] s0 q big by simp_all
  have w2: "SZ_Write (sz_append ?s0 (le32 w1)) (le32 w2) = Inr (sz_append (sz_append ?s0 (le32 w1)) (le32 w2))"
    "sz_in ?N (sz_append (sz_append ?s0 (le32 w1)) (le32 w2))"
    using SZ_Write_room [OF w1(2), of "le32 w2"] SZ_Write_in [OF _ w1(2), of "le32 w2"] s0 q big by simp_all
  have w3: "write_qport chan (sz_append (sz_append ?s0 (le32 w1)) (le32 w2)) = Inr ?s3" "sz_in ?N ?s3"
  proof -
    have w: "SZ_Write (sz_append (sz_append ?s0 (le32 w1)) (le32 w2)) (qport_bytes chan) = Inr ?s3"
      using SZ_Write_room [OF w2(2), of "qport_bytes chan"] s0 q big by simp
    then show "sz_in ?N ?s3" using SZ_Write_in [OF _ w2(2)] by blast
    from w show "write_qport chan (sz_append (sz_append ?s0 (le32 w1)) (le32 w2)) = Inr ?s3"
      using write_qport_append by simp
  qed
  have c3: "cursize ?s3 + 2 = qw_hsz chan" using s0(2) q by simp
  have "packet_in (?s3\<lparr>maxsize := MAX_OVERALLMSGLEN - 100\<rparr>)"
    using w3(2) c3 q by (simp add: packet_in_def sz_in_def MAX_OVERALLMSGLEN_def)
  then have "SZ_Write (?s3\<lparr>maxsize := MAX_OVERALLMSGLEN - 100\<rparr>) (le16 0) =
      Inr (sz_append (?s3\<lparr>maxsize := MAX_OVERALLMSGLEN - 100\<rparr>) (le16 0)) \<and>
      packet_in (sz_append (?s3\<lparr>maxsize := MAX_OVERALLMSGLEN - 100\<rparr>) (le16 0))"
    using c3 q by (intro packet_write) (simp_all add: MAX_OVERALLMSGLEN_def)
  then show ?thesis
    using w w1(1) w2(1) w3(1) assms(3) c3
    by (simp add: qw_header_def MSG_WriteLong_eq MSG_WriteShort_eq)
qed


lemma qw_add_reliable_total:
  assumes "packet_in send"
  shows "\<exists>r. qw_add_reliable rel chan send = Inr r \<and> (\<forall>c send'. r = Some (c, send') \<longrightarrow> packet_in send')"
proof -
  obtain bs where bs: "bs = take (reliable_length chan) (reliable_buf chan)" by simp
  show ?thesis
  proof (cases "rel \<and> \<not> int (maxsize send) - int (cursize send) < int (reliable_length chan)")
    case True
    moreover have "length bs \<le> reliable_length chan" by (simp add: bs)
    ultimately have "cursize send + length bs \<le> maxsize send" by linarith
    from packet_write [OF assms this] True show ?thesis
      by (simp add: qw_add_reliable_def Let_def bs)
  next
    case False
    with assms show ?thesis by (auto simp: qw_add_reliable_def)
  qed
qed

lemma qw_probe_total:
  assumes "packet_in send" and "qw_hsz chan + mtu_max chan \<le> MAX_OVERALLMSGLEN - 100"
  shows "\<exists>p c send'. qw_probe env rel chan send = Inr (p, c, send')"
proof -
  obtain d where d: "d = qw_reprobe env chan" by simp
  then have m: "mtu_max d = mtu_max chan" "qw_hsz d = qw_hsz chan"
    by (simp_all add: qw_reprobe_def qw_hsz_def)
  obtain t where t: "t = min (mtu_max d) (mtu_cur d + 16)" by simp
  obtain n where n: "n = nat (int (qw_hsz d + t) - int (cursize send))" by simp
  have "\<exists>s. SZ_Write send (replicate n v) = Inr s" if "int (qw_hsz d + t) - int (cursize send) > 0" for v
  proof -
    have "t \<le> mtu_max chan" by (simp add: t m)
    then have "cursize send + length (replicate n v) \<le> maxsize send"
      using that assms m by (simp add: n packet_in_def)
    then show ?thesis using packet_write [OF assms(1)] by blast
  qed
  then obtain s where s: "SZ_Write send (replicate n (if is_client d then clc_nop else svc_nop)) = Inr s"
    if "int (qw_hsz d + t) - int (cursize send) > 0" by blast
  have "\<exists>p. p" "\<exists>p. \<not> p" by blast+
  then show ?thesis
    unfolding qw_probe_def Let_def d [symmetric] t [symmetric] sz_fill_write n [symmetric]
    by (cases "qw_probe_due rel d \<and> 0 < int (qw_hsz d + t) - int (cursize send) \<and> t \<le> maxsize send")
      (simp_all add: s if_not_P)
qed

lemma qw_finish_total:
  assumes "packet_in send" and "qw_hsz chan + mtu_max chan \<le> MAX_OVERALLMSGLEN - 100" and "compresstable chan = None"
  shows "\<exists>p c send'. qw_finish env rel payload chan send = Inr (p, c, send')"
proof -
  obtain s1 where s1: "(if int (maxsize send) - int (cursize send) \<ge> int (length payload)
      then SZ_Write send payload else Inr send) = Inr s1" and p1: "packet_in s1"
    using packet_write [OF assms(1), of payload] assms(1)
    by (cases "int (maxsize send) - int (cursize send) \<ge> int (length payload)") auto
  have "qw_hsz (qw_blackhole chan) = qw_hsz chan" "mtu_max (qw_blackhole chan) = mtu_max chan"
    by (simp_all add: qw_blackhole_def qw_hsz_def)
  then obtain p c s2 where pr: "qw_probe env rel (qw_blackhole chan) s1 = Inr (p, c, s2)"
    using qw_probe_total [OF p1, of "qw_blackhole chan"] assms(2) by fastforce
  have "kept c = kept chan"
    using qw_probe_frame [OF pr, of "MAX_OVERALLMSGLEN + PACKET_HEADER"] qw_blackhole_frame [of chan] p1
    by (simp add: packet_in_def same_but_mtu_def)
  then have "compresstable c = None" using assms(3) by (simp add: kept_def settings_def)
  then show ?thesis by (simp add: qw_finish_def s1 pr)
qed

text \<open>
  \<open>chan_ok\<close>: a fragmented QuakeWorld channel on an unreliable transport, whose upper bound of the MTU
  leaves room in the packet buffer.
\<close>

definition chan_ok :: "netchan_t \<Rightarrow> bool" where
  "chan_ok chan \<longleftrightarrow> store_ok chan \<and> plain chan \<and> is_fragable chan \<and> qps_ok chan \<and> mtu_ok chan \<and>
     qw_hsz chan + mtu_max chan \<le> MAX_OVERALLMSGLEN - 100"

lemma qw_packet_total:
  assumes "length buf = MAX_OVERALLMSGLEN + PACKET_HEADER" and "qps_ok chan" and "is_fragable chan"
    and "qw_hsz chan + mtu_max chan \<le> MAX_OVERALLMSGLEN - 100" and "compresstable chan = None"
  shows "\<exists>r. qw_packet env buf rel payload chan = Inr r \<and>
    (\<forall>c. r = Inl c \<longrightarrow> lean chan c) \<and> (\<forall>p c send. r = Inr (p, c, send) \<longrightarrow> lean chan c)"
proof -
  obtain c0 where c0: "c0 = qw_forget_gaps chan" by simp
  have l0: "lean chan c0" by (simp add: c0 qw_forget_gaps_lean)
  have k0: "kept c0 = kept chan"
    using qw_forget_gaps_frame(1) [of chan] by (simp add: same_but_mtu_def c0)
  let ?c1 = "c0\<lparr>outgoing_sequence := outgoing_sequence c0 + 1\<rparr>"
  have k1: "kept ?c1 = kept chan" using k0 by (simp add: kept_def settings_def)
  have l1: "lean chan ?c1" using l0 by (simp add: lean_def)
  have f0: "is_fragable c0" "qps_ok c0"
    using kept_eqs [OF k0] assms(2,3) by (simp_all add: qps_ok_def)
  obtain s0 where s0: "qw_header buf rel c0 = Inr s0" "packet_in s0"
    using qw_header_total [OF assms(1) f0(2,1)] by blast
  obtain r where r: "qw_add_reliable rel ?c1 s0 = Inr r" "\<forall>c send'. r = Some (c, send') \<longrightarrow> packet_in send'"
    using qw_add_reliable_total [OF s0(2)] by blast
  show ?thesis
  proof (cases r)
    case None
    with s0 r l0 show ?thesis
      by (simp add: qw_packet_def c0 [symmetric] Let_def lean_def)
  next
    case (Some x)
    obtain c2 s2 where x: "x = (c2, s2)" by force
    with Some r have a: "qw_add_reliable rel ?c1 s0 = Inr (Some (c2, s2))" "packet_in s2" by simp_all
    have l2: "lean chan c2" using lean_trans [OF l1 qw_add_reliable_lean [OF a(1)]] .
    have k2: "kept c2 = kept chan"
      using qw_add_reliable_core [OF a(1), of "MAX_OVERALLMSGLEN + PACKET_HEADER"] s0(2) k1
      by (simp add: packet_in_def)
    have "qw_hsz c2 + mtu_max c2 \<le> MAX_OVERALLMSGLEN - 100"
      using assms(4) kept_hsz [OF k2] l2 by (simp add: lean_def)
    moreover have "compresstable c2 = None"
      using assms(5) k2 by (simp add: kept_def settings_def)
    ultimately obtain p c send where f: "qw_finish env rel payload c2 s2 = Inr (p, c, send)"
      using qw_finish_total [OF a(2)] by blast
    have "lean chan c" using lean_trans [OF l2 qw_finish_lean [OF f]] .
    with s0(1) a(1) f show ?thesis
      by (simp add: qw_packet_def c0 [symmetric] Let_def)
  qed
qed

text \<open>It returns, in the sense of \<open>lean\<close>: nothing but the stream and the counters changes.\<close>

lemma transmit_lean:
  assumes "chan_ok chan" and "length buf = MAX_OVERALLMSGLEN + PACKET_HEADER"
  shows "\<exists>n chan' new. Netchan_Transmit env sock buf chan payload rate sent = Some (Inr (n, chan', sent @ new)) \<and>
    lean chan chan'"
proof -
  have nq: "\<not> isnqprotocol chan" and nc: "compresstable chan = None"
    and na: "\<not> NET_AddrIsReliable (remote_address chan)" and pl: "plain chan" and fr: "is_fragable chan"
    and qp: "qps_ok chan" and mo: "mtu_ok chan" and st: "store_ok chan"
    and mx: "qw_hsz chan + mtu_max chan \<le> MAX_OVERALLMSGLEN - 100"
    using assms(1) by (simp_all add: chan_ok_def plain_def)
  show ?thesis
  proof (cases "overflowed (message chan)")
    case True
    then show ?thesis using nq by (auto simp: Netchan_Transmit_def transmit_qw_def lean_def intro!: exI [of _ "[]"])
  next
    case False
    obtain rel c where r: "qw_reliable chan = Inr (rel, c)" and lc: "lean chan c"
      using qw_reliable_in [OF st] by blast
    have kc: "kept c = kept chan" and mc: "mtu_cur c = mtu_cur chan"
      using qw_reliable_core [OF r] by simp_all
    have ca: "compresstable c = None" "\<not> NET_AddrIsReliable (remote_address c)" "qps_ok c" "mtu_ok c" "is_fragable c"
      using kc mc nc na qp mo fr kept_hsz [OF kc]
      by (simp_all add: kept_def settings_def qps_ok_def mtu_ok_def)
    have mx': "qw_hsz c + mtu_max c \<le> MAX_OVERALLMSGLEN - 100"
      using mx lc kept_hsz [OF kc] by (simp add: lean_def)
    obtain w1 w2 where w: "qw_words c rel = (w1, w2)" by force
    let ?mseq = "outgoing_sequence c AND 63" and ?av = "max 0 (Netchan_CanBytes env c rate)"
    obtain x where x: "qw_packet env buf rel payload c = Inr x"
      and lx: "\<forall>d. x = Inl d \<longrightarrow> lean c d" "\<forall>p d send. x = Inr (p, d, send) \<longrightarrow> lean c d"
      using qw_packet_total [OF assms(2) ca(3,5) mx' ca(1)] by blast
    have t: "Netchan_Transmit env sock buf chan payload rate sent =
        (case x of Inl d \<Rightarrow> Some (Inr (0, d, sent))
         | Inr (p, d, send) \<Rightarrow> run_bind (qw_datagrams env sock ?av p ?mseq (w1, w2) d send sent)
             (\<lambda>(e, n, d, sent). Some (Inr (n, qw_account env rel rate e n d, sent))))"
      using nq False r x qw_kexlan_unreliable [OF ca(2)] w
      by (simp add: Netchan_Transmit_def transmit_qw_def Let_def)
    show ?thesis
    proof (cases x)
      case (Inl d)
      with t lx(1) lc show ?thesis by (auto intro: lean_trans intro!: exI [of _ "[]"])
    next
      case (Inr y)
      obtain p d send where y: "y = (p, d, send)" by (metis prod_cases3)
      note pk = qw_packet_core [OF x [unfolded Inr y] ca(1) w]
      have d: "qps_ok d" "mtu_ok d" "lean chan d"
        using pk(1,2) ca(3,4) kept_hsz [OF pk(1)] lx(2) Inr y lc
        by (auto simp: kept_def settings_def qps_ok_def mtu_ok_def intro: lean_trans)
      obtain rest where "sz_content send = header_bytes c w1 w2 0 @ (if rel then reliable_bytes c else []) @ rest"
        using pk(5) by blast
      moreover have "header_bytes d = header_bytes c"
        using kept_eqs [OF pk(1)] by (auto simp: fun_eq_iff header_bytes_def qport_bytes_def)
      ultimately have sc: "sz_content send = header_bytes d w1 w2 0 @ (if rel then reliable_bytes c else []) @ rest"
        by simp
      from qw_datagrams_core [OF pk(4) sc d(1,2)] obtain e k f new where
        dg: "qw_datagrams env sock ?av p ?mseq (w1, w2) d send sent = Some (Inr (e, k, f, sent @ new))" by blast
      then have "Netchan_Transmit env sock buf chan payload rate sent =
          Some (Inr (k, qw_account env rel rate e k f, sent @ new))"
        using t Inr y by simp
      moreover have "lean chan (qw_account env rel rate e k f)"
        using d(3) qw_datagrams_lean [OF dg] qw_account_lean lean_trans by blast
      ultimately show ?thesis by blast
    qed
  qed
qed

text \<open>The reliable buffer holds a message that was in bounds before.\<close>

lemma transmit_reliable_in:
  assumes "chan_ok chan" and "Netchan_Transmit env sock buf chan payload rate sent = Some (Inr (n, chan', sent @ new))"
  shows "reliable_length chan' \<le> MAX_OVERALLMSGLEN \<and> length (reliable_buf chan') = MAX_OVERALLMSGLEN"
proof -
  have pl: "plain chan" and qp: "qps_ok chan" and mo: "mtu_ok chan" and st: "store_ok chan"
    using assms(1) by (simp_all add: chan_ok_def)
  have same: "\<exists>c. store_ok c \<and> c_len (core chan') = c_len (core c) \<and> c_buf (core chan') = c_buf (core c)"
  proof -
    from transmit_core [OF assms(2) pl qp mo]
    consider "core chan' = core chan"
      | rel c where "qw_reliable chan = Inr (rel, c)" "c_len (core chan') = c_len (core c)"
          "c_buf (core chan') = c_buf (core c)" by (elim conjE disjE exE) simp_all
    then show ?thesis
    proof cases
      case 1
      with st show ?thesis by metis
    next
      case 2
      with qw_reliable_in [OF st] show ?thesis by auto
    qed
  qed
  then show ?thesis by (auto simp: store_ok_def)
qed

text \<open>
  C3: on such a channel \<open>Netchan_Transmit\<close> always returns, whatever the payload, the rate and the
  answers of the sockets: the loop over the fragments ends, no write leaves the buffers, and the
  channel is as well-formed afterwards as before.
\<close>

theorem Netchan_Transmit_total:
  assumes "chan_ok chan" and "length buf = MAX_OVERALLMSGLEN + PACKET_HEADER"
  shows "\<exists>n chan' new. Netchan_Transmit env sock buf chan payload rate sent = Some (Inr (n, chan', sent @ new)) \<and>
    chan_ok chan'"
proof -
  have pl: "plain chan" and fr: "is_fragable chan" and qp: "qps_ok chan" and mo: "mtu_ok chan" and st: "store_ok chan"
    and mx: "qw_hsz chan + mtu_max chan \<le> MAX_OVERALLMSGLEN - 100"
    using assms(1) by (simp_all add: chan_ok_def)
  obtain n chan' new where tr: "Netchan_Transmit env sock buf chan payload rate sent = Some (Inr (n, chan', sent @ new))"
    and l: "lean chan chan'" using transmit_lean [OF assms] by blast
  from transmit_core [OF tr pl qp mo] have k: "kept chan' = kept chan" and mo': "mtu_ok chan'" by simp_all
  note res = transmit_reliable_in [OF assms(1) tr]
  have "store_ok chan'"
    using st l k res by (simp add: store_ok_def lean_def kept_def)
  moreover have "plain chan'" using pl settings_plain [OF kept_settings [OF k]] by simp
  moreover have "is_fragable chan'" "qps_ok chan'" "qw_hsz chan' + mtu_max chan' \<le> MAX_OVERALLMSGLEN - 100"
    using fr qp mx l kept_eqs [OF k] kept_hsz [OF k] by (simp_all add: qps_ok_def lean_def)
  ultimately show ?thesis using tr mo' by (auto simp: chan_ok_def)
qed

end
