(* ===== verification/NetProto.thy ===== *)
theory NetProto
  imports Main
begin

text \<open>
  The protocol behind the reliable messages of the network channel, on its own: side A has at most
  one message in flight, sends it with a packet, repeats it when a later packet was acknowledged
  without the even/odd bit of the message, and frees it when the bit comes back; side B flips its
  bit for every packet with the reliable mark that is newer than all it accepted.  Both networks are
  sets of everything ever sent: packets may be lost, repeated and delivered in any order.

  \<open>taken\<close> and \<open>got\<close> count the messages A took for sending and B accepted; a reliable packet
  carries, as a ghost, the number of its message, and a packet of B the value of \<open>got\<close>; \<open>a_got\<close> is
  that of the packet A accepted last and \<open>got_at\<close> the packet in which B accepted the last message.
\<close>

record proto =
  a_out :: nat
  a_in :: nat
  a_ack :: nat
  a_relack :: bool
  a_rel :: bool
  a_last :: nat
  a_busy :: bool
  b_out :: nat
  b_in :: nat
  b_inrel :: bool
  net_ab :: "(nat \<times> nat option) set"
  net_ba :: "(nat \<times> nat \<times> bool \<times> nat) set"
  taken :: nat
  got :: nat
  a_got :: nat
  got_at :: nat

definition dropped :: "proto \<Rightarrow> bool" where
  "dropped S \<longleftrightarrow> a_ack S > a_last S \<and> a_relack S \<noteq> a_rel S"

definition take_message :: "proto \<Rightarrow> proto" where
  "take_message S = S\<lparr>taken := taken S + 1, a_rel := \<not> a_rel S, a_busy := True\<rparr>"

definition emit :: "bool \<Rightarrow> proto \<Rightarrow> proto" where
  "emit rel S = S\<lparr>a_out := a_out S + 1, a_last := (if rel then a_out S + 1 else a_last S),
     net_ab := insert (a_out S, if rel then Some (taken S) else None) (net_ab S)\<rparr>"

inductive astep :: "proto \<Rightarrow> proto \<Rightarrow> bool" where
  stall: "\<not> a_busy S \<Longrightarrow> astep S (take_message S)"
| send_new: "\<not> a_busy S \<Longrightarrow> astep S (emit True (take_message S))"
| send: "astep S (emit (dropped S) S)"
| accept_b: "(s, r) \<in> net_ab S \<Longrightarrow> b_in S < s \<Longrightarrow>
    astep S (if r = None then S\<lparr>b_in := s\<rparr>
             else S\<lparr>b_in := s, b_inrel := \<not> b_inrel S, got := got S + 1, got_at := s\<rparr>)"
| reply: "astep S (S\<lparr>b_out := b_out S + 1,
    net_ba := insert (b_out S, b_in S, b_inrel S, got S) (net_ba S)\<rparr>)"
| accept_a: "(t, v, r, g) \<in> net_ba S \<Longrightarrow> a_in S < t \<Longrightarrow>
    astep S (S\<lparr>a_in := t, a_ack := v, a_relack := r, a_got := g,
               a_busy := (a_busy S \<and> r \<noteq> a_rel S)\<rparr>)"

inductive_cases astepE: "astep S S'"

section \<open>The invariant\<close>

text \<open>Messages are counted alike on both sides, up to the one in flight.\<close>

definition counts_ok :: "proto \<Rightarrow> bool" where
  "counts_ok S \<longleftrightarrow> got S \<le> taken S \<and> taken S \<le> got S + 1 \<and> (\<not> a_busy S \<longrightarrow> got S = taken S) \<and>
     a_rel S = odd (taken S) \<and> b_inrel S = odd (got S)"

text \<open>A reliable packet that B would still accept is the latest one, and new to B.\<close>

definition ab_ok :: "proto \<Rightarrow> bool" where
  "ab_ok S \<longleftrightarrow> b_in S < a_out S \<and> a_last S \<le> a_out S \<and>
     (\<forall>(s, r) \<in> net_ab S. s < a_out S \<and>
        (\<forall>k. r = Some k \<longrightarrow> b_in S < s \<longrightarrow> Suc s = a_last S \<and> k = taken S \<and> Suc (got S) = taken S))"

text \<open>What B replied: never ahead of what it accepted, and growing with the sequence number.\<close>

definition reply_ok :: "proto \<Rightarrow> nat \<Rightarrow> nat \<Rightarrow> bool \<Rightarrow> nat \<Rightarrow> bool" where
  "reply_ok S t v r g \<longleftrightarrow> t < b_out S \<and> v \<le> b_in S \<and> r = odd g \<and> g \<le> got S \<and>
     (g < got S \<longrightarrow> v < got_at S) \<and> (a_in S < t \<longrightarrow> taken S \<le> g + (if a_busy S then 1 else 0))"

definition ba_ok :: "proto \<Rightarrow> bool" where
  "ba_ok S \<longleftrightarrow> a_in S < b_out S \<and> (\<forall>t v r g. (t, v, r, g) \<in> net_ba S \<longrightarrow> reply_ok S t v r g) \<and>
     (\<forall>t v r g t' v' r' g'. (t, v, r, g) \<in> net_ba S \<longrightarrow> (t', v', r', g') \<in> net_ba S \<longrightarrow> t < t' \<longrightarrow> g \<le> g')"

text \<open>What A knows of B.\<close>

definition known_ok :: "proto \<Rightarrow> bool" where
  "known_ok S \<longleftrightarrow> a_ack S \<le> b_in S \<and> a_relack S = odd (a_got S) \<and> a_got S \<le> got S \<and>
     (a_got S < got S \<longrightarrow> a_ack S < got_at S) \<and>
     (got S = taken S \<longrightarrow> 0 < got S \<longrightarrow> got_at S < a_last S)"

definition proto_inv :: "proto \<Rightarrow> bool" where
  "proto_inv S \<longleftrightarrow> counts_ok S \<and> ab_ok S \<and> ba_ok S \<and> known_ok S"

text \<open>A message that A sees as dropped has not been accepted.\<close>

lemma dropped_in_flight:
  assumes "proto_inv S" and "dropped S"
  shows "a_busy S" "taken S = Suc (got S)"
proof -
  have "got S \<noteq> taken S"
  proof
    assume eq: "got S = taken S"
    have "a_got S \<noteq> got S"
      using assms eq by (auto simp: dropped_def proto_inv_def known_ok_def counts_ok_def)
    then have "a_got S < got S" "a_ack S < got_at S"
      using assms by (auto simp: proto_inv_def known_ok_def)
    moreover from this have "got_at S < a_last S"
      using assms eq by (auto simp: proto_inv_def known_ok_def)
    ultimately show False using assms(2) by (simp add: dropped_def)
  qed
  then show "a_busy S" "taken S = Suc (got S)"
    using assms by (auto simp: proto_inv_def counts_ok_def)
qed

text \<open>A set of packets is only ever asked one packet at a time.\<close>

lemma ab_okI:
  assumes "b_in S < a_out S" and "a_last S \<le> a_out S" and "\<And>s r. (s, r) \<in> net_ab S \<Longrightarrow> s < a_out S"
    and "\<And>s k. (s, Some k) \<in> net_ab S \<Longrightarrow> b_in S < s \<Longrightarrow>
      Suc s = a_last S \<and> k = taken S \<and> Suc (got S) = taken S"
  shows "ab_ok S"
  using assms unfolding ab_ok_def by blast

lemma ab_okD:
  assumes "ab_ok S"
  shows "b_in S < a_out S" "a_last S \<le> a_out S" "(s, r) \<in> net_ab S \<Longrightarrow> s < a_out S"
    "(s, Some k) \<in> net_ab S \<Longrightarrow> b_in S < s \<Longrightarrow>
      Suc s = a_last S \<and> k = taken S \<and> Suc (got S) = taken S"
  using assms unfolding ab_ok_def by blast+

lemma ba_okD:
  assumes "ba_ok S"
  shows "a_in S < b_out S" "(t, v, r, g) \<in> net_ba S \<Longrightarrow> reply_ok S t v r g"
    "(t, v, r, g) \<in> net_ba S \<Longrightarrow> (t', v', r', g') \<in> net_ba S \<Longrightarrow> t < t' \<Longrightarrow> g \<le> g'"
  using assms unfolding ba_ok_def by blast+

lemma ba_okI:
  assumes "a_in S < b_out S" and "\<And>t v r g. (t, v, r, g) \<in> net_ba S \<Longrightarrow> reply_ok S t v r g"
    and "\<And>t v r g t' v' r' g'. (t, v, r, g) \<in> net_ba S \<Longrightarrow> (t', v', r', g') \<in> net_ba S \<Longrightarrow> t < t' \<Longrightarrow> g \<le> g'"
  shows "ba_ok S"
  using assms unfolding ba_ok_def by blast

section \<open>Every step keeps it\<close>

lemma take_message_inv:
  assumes "proto_inv S" and "\<not> a_busy S"
  shows "proto_inv (take_message S)"
proof -
  have "counts_ok (take_message S)" "known_ok (take_message S)"
    using assms by (simp_all add: take_message_def proto_inv_def counts_ok_def known_ok_def)
  moreover have eq: "got S = taken S" and ab: "ab_ok S" and ba: "ba_ok S"
    using assms by (simp_all add: proto_inv_def counts_ok_def)
  have "ab_ok (take_message S)"
  proof (rule ab_okI)
    fix s k assume "(s, Some k) \<in> net_ab (take_message S)" "b_in (take_message S) < s"
    then have "Suc (got S) = taken S" using ab_okD(4) [OF ab, of s k] by (simp add: take_message_def)
    with eq show "Suc s = a_last (take_message S) \<and> k = taken (take_message S) \<and>
      Suc (got (take_message S)) = taken (take_message S)" by simp
  qed (use ab_okD(1-3) [OF ab] in \<open>auto simp: take_message_def\<close>)
  moreover have "ba_ok (take_message S)"
  proof (rule ba_okI)
    fix t v r g assume "(t, v, r, g) \<in> net_ba (take_message S)"
    then have "(t, v, r, g) \<in> net_ba S" by (simp add: take_message_def)
    from ba_okD(2) [OF ba this] assms(2)
    show "reply_ok (take_message S) t v r g" by (simp add: take_message_def reply_ok_def)
  qed (use ba_okD(1,3) [OF ba] in \<open>auto simp: take_message_def\<close>)
  ultimately show ?thesis by (simp add: proto_inv_def)
qed

lemma emit_inv:
  assumes "proto_inv S" and "rel \<Longrightarrow> taken S = Suc (got S)"
    and "\<And>s k. rel \<Longrightarrow> (s, Some k) \<in> net_ab S \<Longrightarrow> s \<le> b_in S"
  shows "proto_inv (emit rel S)"
proof -
  have "counts_ok (emit rel S)" "ba_ok (emit rel S)"
    using assms(1) by (simp_all add: emit_def proto_inv_def counts_ok_def ba_ok_def reply_ok_def)
  moreover have ab: "ab_ok S" using assms(1) by (simp add: proto_inv_def)
  moreover have "known_ok (emit rel S)"
    using assms(1,2) by (auto simp: emit_def proto_inv_def known_ok_def)
  moreover have "ab_ok (emit rel S)"
  proof (rule ab_okI)
    show "b_in (emit rel S) < a_out (emit rel S)" "a_last (emit rel S) \<le> a_out (emit rel S)"
      using ab_okD(1,2) [OF ab] by (simp_all add: emit_def)
    fix s r assume "(s, r) \<in> net_ab (emit rel S)"
    then show "s < a_out (emit rel S)"
      using ab_okD(3) [OF ab] by (fastforce simp: emit_def)
  next
    fix s k assume "(s, Some k) \<in> net_ab (emit rel S)" and "b_in (emit rel S) < s"
    then consider "rel" "s = a_out S" "k = taken S" | "(s, Some k) \<in> net_ab S" "b_in S < s"
      by (auto simp: emit_def split: if_splits)
    then show "Suc s = a_last (emit rel S) \<and> k = taken (emit rel S) \<and> Suc (got (emit rel S)) = taken (emit rel S)"
    proof cases
      case 1
      with assms(2) show ?thesis by (simp add: emit_def)
    next
      case 2
      then have "\<not> rel" using assms(3) by force
      with ab_okD(4) [OF ab 2] show ?thesis by (simp add: emit_def)
    qed
  qed
  ultimately show ?thesis by (simp add: proto_inv_def)
qed

text \<open>When A repeats a message, all earlier copies are too old for B.\<close>

lemma emit_dropped_inv:
  assumes "proto_inv S"
  shows "proto_inv (emit (dropped S) S)"
proof (rule emit_inv [OF assms])
  assume d: "dropped S"
  then show "taken S = Suc (got S)" using dropped_in_flight [OF assms] by simp
  fix s k assume "(s, Some k) \<in> net_ab S"
  then have "b_in S < s \<Longrightarrow> Suc s = a_last S" "a_ack S \<le> b_in S"
    using assms ab_okD(4) by (auto simp: proto_inv_def known_ok_def)
  with d show "s \<le> b_in S" by (cases "b_in S < s") (auto simp: dropped_def)
qed

lemma emit_new_inv:
  assumes "proto_inv S" and "\<not> a_busy S"
  shows "proto_inv (emit True (take_message S))"
proof (rule emit_inv [OF take_message_inv [OF assms]])
  have eq: "got S = taken S" using assms by (simp add: proto_inv_def counts_ok_def)
  then show "taken (take_message S) = Suc (got (take_message S))" by (simp add: take_message_def)
  fix s k assume "(s, Some k) \<in> net_ab (take_message S)"
  then show "s \<le> b_in (take_message S)"
    using assms(1) ab_okD(4) [of S s k] eq by (force simp: take_message_def proto_inv_def)
qed

lemma accept_b_plain_inv:
  assumes "proto_inv S" and "(s, None) \<in> net_ab S" and "b_in S < s"
  shows "proto_inv (S\<lparr>b_in := s\<rparr>)"
proof -
  let ?S = "S\<lparr>b_in := s\<rparr>"
  have ab: "ab_ok S" and ba: "ba_ok S" using assms(1) by (simp_all add: proto_inv_def)
  have "counts_ok ?S" "known_ok ?S"
    using assms(1,3) by (simp_all add: proto_inv_def counts_ok_def known_ok_def)
  moreover have "ab_ok ?S"
  proof (rule ab_okI)
    fix s' k assume "(s', Some k) \<in> net_ab ?S" "b_in ?S < s'"
    then show "Suc s' = a_last ?S \<and> k = taken ?S \<and> Suc (got ?S) = taken ?S"
      using ab_okD(4) [OF ab, of s' k] assms(3) by simp
  qed (use ab_okD(2,3) [OF ab] assms(2) in auto)
  moreover have "ba_ok ?S"
  proof (rule ba_okI)
    fix t v r g assume "(t, v, r, g) \<in> net_ba ?S"
    then have "(t, v, r, g) \<in> net_ba S" by simp
    from ba_okD(2) [OF ba this] assms(3)
    show "reply_ok ?S t v r g" by (auto simp: reply_ok_def)
  qed (use ba_okD(1,3) [OF ba] in auto)
  ultimately show ?thesis by (simp add: proto_inv_def)
qed

lemma accept_b_reliable_inv:
  assumes "proto_inv S" and "(s, Some k) \<in> net_ab S" and "b_in S < s"
  shows "proto_inv (S\<lparr>b_in := s, b_inrel := \<not> b_inrel S, got := got S + 1, got_at := s\<rparr>)"
proof -
  let ?S = "S\<lparr>b_in := s, b_inrel := \<not> b_inrel S, got := got S + 1, got_at := s\<rparr>"
  have ab: "ab_ok S" and ba: "ba_ok S" using assms(1) by (simp_all add: proto_inv_def)
  have live: "Suc s = a_last S" "taken S = Suc (got S)" using ab_okD(4) [OF ab assms(2,3)] by simp_all
  have "counts_ok ?S" "known_ok ?S"
    using assms(1,3) live by (auto simp: proto_inv_def counts_ok_def known_ok_def)
  moreover have "ab_ok ?S"
  proof (rule ab_okI)
    fix s' k' assume "(s', Some k') \<in> net_ab ?S" and "b_in ?S < s'"
    then have "(s', Some k') \<in> net_ab S" "b_in S < s'" "s < s'" using assms(3) by simp_all
    then have "Suc s' = a_last S" using ab_okD(4) [OF ab] by simp
    with live \<open>s < s'\<close> show "Suc s' = a_last ?S \<and> k' = taken ?S \<and> Suc (got ?S) = taken ?S" by simp
  qed (use ab_okD(2,3) [OF ab] assms(2) in auto)
  moreover have "ba_ok ?S"
  proof (rule ba_okI)
    fix t v r g assume "(t, v, r, g) \<in> net_ba ?S"
    then have "(t, v, r, g) \<in> net_ba S" by simp
    from ba_okD(2) [OF ba this] assms(3)
    show "reply_ok ?S t v r g" by (auto simp: reply_ok_def)
  qed (use ba_okD(1,3) [OF ba] in auto)
  ultimately show ?thesis by (simp add: proto_inv_def)
qed

lemma reply_inv:
  assumes "proto_inv S"
  shows "proto_inv (S\<lparr>b_out := b_out S + 1, net_ba := insert (b_out S, b_in S, b_inrel S, got S) (net_ba S)\<rparr>)"
proof -
  let ?S = "S\<lparr>b_out := b_out S + 1, net_ba := insert (b_out S, b_in S, b_inrel S, got S) (net_ba S)\<rparr>"
  have ba: "ba_ok S" and c: "counts_ok S" using assms by (simp_all add: proto_inv_def)
  have "counts_ok ?S" "known_ok ?S" "ab_ok ?S"
    using assms by (simp_all add: proto_inv_def counts_ok_def known_ok_def ab_ok_def)
  moreover have "ba_ok ?S"
  proof (rule ba_okI)
    fix t v r g assume "(t, v, r, g) \<in> net_ba ?S"
    then consider "(t, v, r, g) = (b_out S, b_in S, b_inrel S, got S)" | "(t, v, r, g) \<in> net_ba S" by auto
    then show "reply_ok ?S t v r g"
    proof cases
      case 1
      with c show ?thesis by (simp add: counts_ok_def reply_ok_def)
    next
      case 2
      from ba_okD(2) [OF ba this] show ?thesis by (auto simp: reply_ok_def)
    qed
  next
    fix t v r g t' v' r' g'
    assume in1: "(t, v, r, g) \<in> net_ba ?S" and in2: "(t', v', r', g') \<in> net_ba ?S" and "t < t'"
    consider "(t, v, r, g) \<in> net_ba S" "(t', v', r', g') \<in> net_ba S"
      | "t = b_out S" "t' = b_out S \<or> (t', v', r', g') \<in> net_ba S"
      | "(t, v, r, g) \<in> net_ba S" "g' = got S"
      using in1 in2 by auto
    then show "g \<le> g'"
    proof cases
      case 1
      then show ?thesis using ba_okD(3) [OF ba _ _ \<open>t < t'\<close>] by blast
    next
      case 2
      then show ?thesis using ba_okD(2) [OF ba, of t' v' r' g'] \<open>t < t'\<close> by (auto simp: reply_ok_def)
    next
      case 3
      then show ?thesis using ba_okD(2) [OF ba, of t v r g] by (simp add: reply_ok_def)
    qed
  qed (use ba_okD(1) [OF ba] in simp)
  ultimately show ?thesis by (simp add: proto_inv_def)
qed

text \<open>The bit of the message in flight can only come back from a packet sent after its acceptance.\<close>

lemma accept_a_inv:
  assumes "proto_inv S" and "(t, v, r, g) \<in> net_ba S" and "a_in S < t"
  shows "proto_inv (S\<lparr>a_in := t, a_ack := v, a_relack := r, a_got := g, a_busy := (a_busy S \<and> r \<noteq> a_rel S)\<rparr>)"
proof -
  let ?S = "S\<lparr>a_in := t, a_ack := v, a_relack := r, a_got := g, a_busy := (a_busy S \<and> r \<noteq> a_rel S)\<rparr>"
  have ba: "ba_ok S" and c: "counts_ok S" using assms(1) by (simp_all add: proto_inv_def)
  note p = ba_okD(2) [OF ba assms(2), unfolded reply_ok_def]
  have free: "g = taken S" if "\<not> a_busy ?S"
  proof (cases "a_busy S")
    case True
    with that have "odd g = odd (taken S)" using p c by (simp add: counts_ok_def)
    moreover have "taken S \<le> g + 1" "g \<le> taken S" using p True assms(3) c by (auto simp: counts_ok_def)
    ultimately show ?thesis by presburger
  next
    case False
    then show ?thesis using p assms(3) c by (auto simp: counts_ok_def)
  qed
  have "counts_ok ?S"
    using c free p by (auto simp: counts_ok_def)
  moreover have "known_ok ?S" "ab_ok ?S"
    using assms(1) p by (auto simp: proto_inv_def known_ok_def ab_ok_def)
  moreover have "ba_ok ?S"
  proof (rule ba_okI)
    fix t' v' r' g' assume "(t', v', r', g') \<in> net_ba ?S"
    then have in': "(t', v', r', g') \<in> net_ba S" by simp
    have "taken S \<le> g'" if "t < t'" "\<not> a_busy ?S"
      using ba_okD(3) [OF ba assms(2) in' that(1)] free [OF that(2)] by simp
    with ba_okD(2) [OF ba in'] assms(3)
    show "reply_ok ?S t' v' r' g'" by (auto simp: reply_ok_def)
  qed (use ba_okD(3) [OF ba] p in auto)
  ultimately show ?thesis by (simp add: proto_inv_def)
qed

theorem astep_inv:
  assumes "astep S S'" and "proto_inv S"
  shows "proto_inv S'"
  using assms
proof (cases rule: astep.cases)
  case (accept_b s r)
  with assms(2) show ?thesis
    using accept_b_plain_inv [of S s] accept_b_reliable_inv [of S s "the r"] by (cases r) simp_all
next
  case reply
  show ?thesis unfolding reply by (rule reply_inv) (rule assms(2))
next
  case (accept_a t v r g)
  show ?thesis unfolding accept_a(1) by (rule accept_a_inv) (use assms(2) accept_a in auto)
qed (simp_all add: assms(2) take_message_inv emit_new_inv emit_dropped_inv)

end
