(* ===== verification/NetReliable.thy ===== *)
theory NetReliable
  imports NetFrag NetProto
begin

text \<open>
  Two network channels connected by networks that lose, repeat and reorder datagrams.  \<open>exchange\<close> is
  one event: the game writes into a message buffer, a side transmits, or a side receives a datagram
  that was sent at any time before.  Every step runs \<open>Netchan_Transmit\<close> or \<open>Netchan_Process\<close>.  The
  simulation \<open>sim\<close> relates it to the protocol of NetProto, whose invariant gives the theorem:
  reliable messages arrive in order, each exactly once.
\<close>

section \<open>The words of a header\<close>

lemma high_bit: "(0x80000000 :: int32) = push_bit 31 1"
  by simp

lemma small_bit: "unat w < 2 ^ 31 \<Longrightarrow> bit w n \<Longrightarrow> n < 31" for w :: int32
proof -
  assume "unat w < 2 ^ 31" and b: "bit w n"
  then have "take_bit 31 w = w"
    by (intro word_unat_eq_iff [THEN iffD2]) (simp only: unsigned_take_bit_eq take_bit_nat_eq_self)
  then have "bit (take_bit 31 w) n" using b by simp
  then show ?thesis by (simp add: bit_take_bit_iff)
qed

lemma flagged_word:
  assumes "unat w < 2 ^ 31"
  shows "(w OR push_bit 31 (of_bool r)) AND NOT 0x80000000 = w"
    "drop_bit 31 (w OR push_bit 31 (of_bool r)) = (of_bool r :: int32)"
proof -
  note b = small_bit [OF assms]
  show "(w OR push_bit 31 (of_bool r)) AND NOT 0x80000000 = w"
    unfolding high_bit
    by (rule bit_word_eqI, simp only: bit_simps bit_of_bool_word) (auto dest: b)
  show "drop_bit 31 (w OR push_bit 31 (of_bool r)) = (of_bool r :: int32)"
  proof -
    have "drop_bit 31 w = 0"
      by (rule bit_word_eqI) (auto simp: bit_drop_bit_eq dest: b)
    moreover have "drop_bit 31 (push_bit 31 (of_bool r) :: int32) = of_bool r"
      by (cases r) simp_all
    ultimately show ?thesis by (simp only: drop_bit_or or.left_neutral)
  qed
qed

lemma byte_position:
  assumes "(n :: nat) < 32"
  obtains j where "j < 8" and "n = j \<or> n = 8 + j \<or> n = 16 + j \<or> n = 24 + j"
proof -
  have "n mod 8 < 8" "n = n mod 8 \<or> n = 8 + n mod 8 \<or> n = 16 + n mod 8 \<or> n = 24 + n mod 8"
    using assms by presburger+
  then show thesis by (rule that)
qed

lemma bit_BigLong:
  "bit (BigLong w) n \<longleftrightarrow> (24 \<le> n \<and> n < 32 \<and> bit w (n - 24)) \<or> (16 \<le> n \<and> n < 24 \<and> bit w (n - 8)) \<or>
    (8 \<le> n \<and> n < 16 \<and> bit w (n + 8)) \<or> (n < 8 \<and> bit w (n + 24))"
proof -
  have m: "(0xff :: int32) = mask 8" "(0xff00 :: int32) = push_bit 8 (mask 8)"
    by (simp_all add: mask_eq_exp_minus_1)
  show ?thesis
  proof (cases "n < 32")
    case True
    then obtain j where j: "j < 8" "n = j \<or> n = 8 + j \<or> n = 16 + j \<or> n = 24 + j" by (rule byte_position)
    have "\<not> bit w (k + 32)" "\<not> bit w (k + 40)" "\<not> bit w (k + 48)" for k by (auto dest: bit_imp_le_length)
    with j show ?thesis
      unfolding BigLong_def m by (elim disjE) (simp_all only: bit_simps, simp_all add: add.commute)
  qed (auto dest: bit_imp_le_length)
qed

lemma BigLong_BigLong [simp]: "BigLong (BigLong w) = w"
proof (rule bit_word_eqI)
  fix n assume "n < LENGTH(32)"
  then obtain j where "j < 8" "n = j \<or> n = 8 + j \<or> n = 16 + j \<or> n = 24 + j"
    using byte_position [of n] by auto
  then show "bit (BigLong (BigLong w)) n = bit w n"
    by (elim disjE) (simp_all add: bit_BigLong add.commute)
qed

text \<open>The receiver reads the words the sender put together, with or without the bias.\<close>

lemma words_received:
  assumes "qw_words a rel = (w1, w2)" and "is_stunaware a = is_stunaware b"
  shows "taken_words b w1 w2 = (outgoing_sequence a OR push_bit 31 (of_bool rel),
    incoming_sequence a OR push_bit 31 (incoming_reliable_sequence a))"
  using assms by (auto simp: qw_words_def taken_words_def Let_def split: if_splits)

lemma taken_words_settings: "settings d = settings b \<Longrightarrow> taken_words d = taken_words b"
  by (simp add: fun_eq_iff taken_words_def settings_def)

section \<open>A connection\<close>

text \<open>
  \<open>msgs_taken\<close> are the contents of the message buffer that \<open>Netchan_Transmit\<close> of side A took for
  reliable delivery (it flips \<open>reliable_sequence\<close>), \<open>msgs_got\<close> what a reader of side B finds in a
  packet that \<open>Netchan_Process\<close> accepts with the reliable mark (it flips
  \<open>incoming_reliable_sequence\<close>).
\<close>

record conn =
  side_a :: netchan_t
  side_b :: netchan_t
  wire_ab :: "byte list set"
  wire_ba :: "byte list set"
  msgs_taken :: "byte list list"
  msgs_got :: "byte list list"

definition transmits :: "netchan_t \<Rightarrow> netchan_t \<Rightarrow> sendlog \<Rightarrow> bool" where
  "transmits chan chan' new \<longleftrightarrow>
     (\<exists>env sock buf payload rate sent n. length buf = MAX_OVERALLMSGLEN + PACKET_HEADER \<and>
        Netchan_Transmit env sock buf chan payload rate sent = Some (Inr (n, chan', sent @ new)))"

definition receives :: "netchan_t \<Rightarrow> byte list \<Rightarrow> bool \<Rightarrow> netchan_t \<Rightarrow> byte list \<Rightarrow> bool" where
  "receives chan pkt ok chan' payload \<longleftrightarrow>
     (\<exists>env rd rd' net_drop net_drop'. sz_content (msg_readmsg rd) = pkt \<and>
        cursize (msg_readmsg rd) \<le> length (data (msg_readmsg rd)) \<and>
        Netchan_Process env chan rd net_drop = Inr (ok, chan', rd', net_drop') \<and> payload = unread rd')"

inductive exchange :: "conn \<Rightarrow> conn \<Rightarrow> bool" where
  write_a: "cursize m \<le> length (data m) \<Longrightarrow> exchange c (c\<lparr>side_a := (side_a c)\<lparr>message := m\<rparr>\<rparr>)"
| write_b: "exchange c (c\<lparr>side_b := (side_b c)\<lparr>message := m\<rparr>\<rparr>)"
| send_a: "transmits (side_a c) a new \<Longrightarrow> unat (outgoing_sequence (side_a c)) + 1 < 2 ^ 31 \<Longrightarrow>
    cursize (message (side_a c)) \<le> length (data (message (side_a c))) \<Longrightarrow>
    exchange c (c\<lparr>side_a := a, wire_ab := wire_ab c \<union> snd ` set new, msgs_taken := msgs_taken c @
      (if reliable_sequence a = reliable_sequence (side_a c) then []
       else [sz_content (message (side_a c))])\<rparr>)"
| send_b: "transmits (side_b c) b new \<Longrightarrow> unat (outgoing_sequence (side_b c)) + 1 < 2 ^ 31 \<Longrightarrow>
    exchange c (c\<lparr>side_b := b, wire_ba := wire_ba c \<union> snd ` set new\<rparr>)"
| recv_a: "pkt \<in> wire_ba c \<Longrightarrow> receives (side_a c) pkt ok a payload \<Longrightarrow> exchange c (c\<lparr>side_a := a\<rparr>)"
| recv_b: "pkt \<in> wire_ab c \<Longrightarrow> receives (side_b c) pkt ok b payload \<Longrightarrow>
    exchange c (c\<lparr>side_b := b, msgs_got := msgs_got c @
      (if ok \<and> incoming_reliable_sequence b \<noteq> incoming_reliable_sequence (side_b c)
       then [payload] else [])\<rparr>)"

inductive_cases exchangeE: "exchange c c'"

section \<open>The simulation\<close>

definition ends_ok :: "netchan_t \<Rightarrow> netchan_t \<Rightarrow> bool" where
  "ends_ok a b \<longleftrightarrow> plain a \<and> plain b \<and> mtu_ok a \<and> mtu_ok b \<and> peers a b"

definition sim_a :: "proto \<Rightarrow> byte list list \<Rightarrow> core_t \<Rightarrow> bool" where
  "sim_a S msgs k \<longleftrightarrow> unat (c_out k) = a_out S \<and> unat (c_in k) = a_in S \<and> unat (c_ack k) = a_ack S \<and>
     c_relack k = of_bool (a_relack S) \<and> c_rel k = of_bool (a_rel S) \<and> unat (c_lastrel k) = a_last S \<and>
     (c_len k \<noteq> 0) = a_busy S \<and> a_out S < 2 ^ 31 \<and> length msgs = taken S \<and>
     (a_busy S \<longrightarrow> 0 < taken S \<and> take (c_len k) (c_buf k) = msgs ! (taken S - 1))"

definition sim_b :: "proto \<Rightarrow> core_t \<Rightarrow> bool" where
  "sim_b S k \<longleftrightarrow> unat (c_out k) = b_out S \<and> unat (c_in k) = b_in S \<and> c_inrel k = of_bool (b_inrel S) \<and>
     b_out S < 2 ^ 31"

text \<open>The datagrams of A carry pieces of the payloads \<open>Ps\<close>, one for each sequence number.\<close>

definition flagged :: "nat \<Rightarrow> bool \<Rightarrow> int32" where
  "flagged s r = word_of_nat s OR push_bit 31 (of_bool r)"

definition carries :: "(int32 \<rightharpoonup> byte list) \<Rightarrow> (nat \<times> nat option) set \<Rightarrow> netchan_t \<Rightarrow> netchan_t \<Rightarrow> byte list \<Rightarrow> bool" where
  "carries Ps net a b pkt \<longleftrightarrow> (\<exists>s r P w1 w2 v. (s, r) \<in> net \<and>
     Ps (word_of_nat s) = Some P \<and> frag_of a w1 w2 P pkt \<and>
     taken_words b w1 w2 = (flagged s (r \<noteq> None), v))"

definition sim_wire_ab :: "(int32 \<rightharpoonup> byte list) \<Rightarrow> (nat \<times> nat option) set \<Rightarrow> netchan_t \<Rightarrow> netchan_t \<Rightarrow> byte list set \<Rightarrow> bool" where
  "sim_wire_ab Ps net a b wire \<longleftrightarrow> (\<forall>pkt \<in> wire. carries Ps net a b pkt)"

lemma sim_wire_abI: "(\<And>pkt. pkt \<in> wire \<Longrightarrow> carries Ps net a b pkt) \<Longrightarrow> sim_wire_ab Ps net a b wire"
  by (simp add: sim_wire_ab_def)

definition sim_payloads :: "(int32 \<rightharpoonup> byte list) \<Rightarrow> proto \<Rightarrow> byte list list \<Rightarrow> bool" where
  "sim_payloads Ps S msgs \<longleftrightarrow> (\<forall>s P. Ps s = Some P \<longrightarrow> length P < 4 * 65536 \<and> unat s < a_out S) \<and>
     (\<forall>s k. (s, Some k) \<in> net_ab S \<longrightarrow> 0 < k \<and> k \<le> length msgs \<and>
        (\<exists>P rest. Ps (word_of_nat s) = Some P \<and> P = msgs ! (k - 1) @ rest))"

definition sim_wire_ba :: "(nat \<times> nat \<times> bool \<times> nat) set \<Rightarrow> netchan_t \<Rightarrow> byte list set \<Rightarrow> bool" where
  "sim_wire_ba net a wire \<longleftrightarrow> (\<forall>pkt \<in> wire. \<exists>t v r g w1 w2 f. (t, v, r, g) \<in> net \<and>
     has_words pkt w1 w2 \<and> taken_words a w1 w2 = (flagged t f, flagged v r))"

definition sim_msgs :: "proto \<Rightarrow> conn \<Rightarrow> bool" where
  "sim_msgs S c \<longleftrightarrow> length (msgs_got c) = got S \<and> got S \<le> length (msgs_taken c) \<and>
     (\<forall>i < length (msgs_got c). \<exists>rest. msgs_got c ! i = msgs_taken c ! i @ rest)"

definition sim :: "(int32 \<rightharpoonup> byte list) \<Rightarrow> proto \<Rightarrow> conn \<Rightarrow> bool" where
  "sim Ps S c \<longleftrightarrow> proto_inv S \<and> ends_ok (side_a c) (side_b c) \<and>
     sim_a S (msgs_taken c) (core (side_a c)) \<and> sim_b S (core (side_b c)) \<and>
     sim_wire_ab Ps (net_ab S) (side_a c) (side_b c) (wire_ab c) \<and>
     sim_payloads Ps S (msgs_taken c) \<and> sim_wire_ba (net_ba S) (side_a c) (wire_ba c) \<and>
     pieces_inv Ps (side_b c) \<and> sim_msgs S c"

lemma ends_ok_settings:
  assumes "ends_ok a b" and "settings a' = settings a" "settings b' = settings b" and "mtu_ok a'" "mtu_ok b'"
  shows "ends_ok a' b'"
  using assms settings_plain [OF assms(2)] settings_plain [OF assms(3)] peers_settings [OF assms(2,3)]
  by (simp add: ends_ok_def)

lemma sim_wire_ab_settings:
  "settings a' = settings a \<Longrightarrow> settings b' = settings b \<Longrightarrow>
   sim_wire_ab Ps net a' b' wire = sim_wire_ab Ps net a b wire"
  by (simp add: sim_wire_ab_def carries_def frag_of_settings [of a' a] taken_words_settings [of b' b])

lemma sim_wire_ba_settings: "settings a' = settings a \<Longrightarrow> sim_wire_ba net a' wire = sim_wire_ba net a wire"
  by (simp add: sim_wire_ba_def taken_words_settings [of a' a])

text \<open>A side that only changes in ways the protocol does not see.\<close>

lemma sim_side_a:
  assumes "sim Ps S c" and "settings a = settings (side_a c)" and "mtu_ok a"
    and "sim_a S (msgs_taken c) (core a)"
  shows "sim Ps S (c\<lparr>side_a := a\<rparr>)"
  using assms ends_ok_settings [of "side_a c" "side_b c" a "side_b c"]
  by (simp add: sim_def sim_wire_ab_settings [OF assms(2) refl] sim_wire_ba_settings [OF assms(2)]
      ends_ok_def sim_msgs_def)

lemma sim_side_b:
  assumes "sim Ps S c" and "settings b = settings (side_b c)" and "mtu_ok b"
    and "sim_b S (core b)" and "pieces_inv Ps b"
  shows "sim Ps S (c\<lparr>side_b := b\<rparr>)"
  using assms ends_ok_settings [of "side_a c" "side_b c" "side_a c" b]
  by (simp add: sim_def sim_wire_ab_settings [OF refl assms(2)] ends_ok_def sim_msgs_def)

lemma unat_nat: "n < 2 ^ 31 \<Longrightarrow> unat (word_of_nat n :: int32) = n"
  by (simp only: unsigned_of_nat take_bit_eq_mod) simp

lemma flagged_eqs:
  assumes "n < 2 ^ 31"
  shows "flagged n r AND NOT 0x80000000 = word_of_nat n" "drop_bit 31 (flagged n r) = of_bool r"
  using flagged_word [of "word_of_nat n" r] assms unfolding flagged_def unat_nat [OF assms] by blast+

lemma of_bool_word_eq [simp]: "(of_bool r :: int32) = of_bool q \<longleftrightarrow> r = q"
  by (cases r; cases q) simp_all

lemma of_bool_flip [simp]: "(of_bool r :: int32) XOR 1 = of_bool (\<not> r)"
  by (cases r) simp_all

lemma accepted_flagged:
  assumes "t < 2 ^ 31" and "v < 2 ^ 31"
  shows "accepted (flagged t f) (flagged v r) k = k\<lparr>c_in := word_of_nat t, c_ack := word_of_nat v,
     c_relack := of_bool r, c_inrel := (if f then c_inrel k XOR 1 else c_inrel k),
     c_len := (if of_bool r = c_rel k then 0 else c_len k)\<rparr>"
  unfolding accepted_def flagged_eqs [OF assms(1)] flagged_eqs [OF assms(2)] by simp

section \<open>Receiving\<close>

lemma word_less_unat: "w < word_of_nat n \<Longrightarrow> n < 2 ^ 31 \<Longrightarrow> unat w < n" for w :: int32
  using unat_nat [of n] by (simp add: word_less_nat_alt)

lemma sim_recv_a:
  assumes "sim Ps S c" and "pkt \<in> wire_ba c" and "receives (side_a c) pkt ok a payload"
  shows "\<exists>S'. astep\<^sup>=\<^sup>= S S' \<and> sim Ps S' (c\<lparr>side_a := a\<rparr>)"
proof -
  have inv: "proto_inv S" and ends: "ends_ok (side_a c) (side_b c)" and sa: "sim_a S (msgs_taken c) (core (side_a c))"
    and sb: "sim_b S (core (side_b c))" and wba: "sim_wire_ba (net_ba S) (side_a c) (wire_ba c)"
    using assms(1) by (simp_all add: sim_def)
  obtain t v r g w1 w2 f where p: "(t, v, r, g) \<in> net_ba S" "has_words pkt w1 w2"
    "taken_words (side_a c) w1 w2 = (flagged t f, flagged v r)"
    using wba assms(2) unfolding sim_wire_ba_def by meson
  have small: "t < 2 ^ 31" "v < 2 ^ 31"
    using inv p(1) ba_okD(2) [of S t v r g] ab_okD(1) [of S] sa sb
    by (auto simp: proto_inv_def reply_ok_def sim_a_def sim_b_def)
  obtain env rd rd' nd nd' where pr: "Netchan_Process env (side_a c) rd nd = Inr (ok, a, rd', nd')"
    and rd: "sz_content (msg_readmsg rd) = pkt"
    using assms(3) unfolding receives_def by blast
  have pc: "settings a = settings (side_a c)" "mtu_ok a"
    "if ok then incoming_sequence (side_a c) < word_of_nat t \<and>
       core a = accepted (flagged t f) (flagged v r) (core (side_a c)) else core a = core (side_a c)"
    using process_core [OF pr _ _ p(2) [folded rd] p(3)] ends
    unfolding flagged_eqs [OF small(1)] ends_ok_def by blast+
  show ?thesis
  proof (cases ok)
    case False
    with pc(3) sa have "sim_a S (msgs_taken c) (core a)" by simp
    from sim_side_a [OF assms(1) pc(1,2) this] show ?thesis by blast
  next
    case True
    let ?S = "S\<lparr>a_in := t, a_ack := v, a_relack := r, a_got := g, a_busy := (a_busy S \<and> r \<noteq> a_rel S)\<rparr>"
    have "unat (incoming_sequence (side_a c)) < t"
      using True pc(3) word_less_unat [OF _ small(1), of "incoming_sequence (side_a c)"] by simp
    then have new: "a_in S < t" using sa by (simp add: sim_a_def)
    have st: "astep S ?S" using astep.accept_a [OF p(1) new] .
    have ca: "core a = (core (side_a c))\<lparr>c_in := word_of_nat t, c_ack := word_of_nat v,
       c_relack := of_bool r, c_inrel := c_inrel (core a),
       c_len := (if of_bool r = c_rel (core (side_a c)) then 0 else c_len (core (side_a c)))\<rparr>"
      using True pc(3) unfolding accepted_flagged [OF small] by simp
    have "sim_a ?S (msgs_taken c) (core a)"
      using sa unat_nat [OF small(1)] unat_nat [OF small(2)] by (subst ca) (auto simp: sim_a_def)
    then have "sim Ps ?S (c\<lparr>side_a := a\<rparr>)"
      using assms(1) astep_inv [OF st inv] ends_ok_settings [OF ends pc(1) refl pc(2)] ends
      by (simp add: sim_def sim_wire_ab_settings [OF pc(1) refl] sim_wire_ba_settings [OF pc(1)]
          sim_b_def sim_payloads_def sim_msgs_def ends_ok_def)
    with st show ?thesis by blast
  qed
qed

lemma sim_recv_b:
  assumes "sim Ps S c" and "pkt \<in> wire_ab c" and "receives (side_b c) pkt ok b payload"
  shows "\<exists>S'. astep\<^sup>=\<^sup>= S S' \<and> sim Ps S' (c\<lparr>side_b := b, msgs_got := msgs_got c @
      (if ok \<and> incoming_reliable_sequence b \<noteq> incoming_reliable_sequence (side_b c)
       then [payload] else [])\<rparr>)"
proof -
  have inv: "proto_inv S" and ends: "ends_ok (side_a c) (side_b c)" and sa: "sim_a S (msgs_taken c) (core (side_a c))"
    and sb: "sim_b S (core (side_b c))"
    and wab: "sim_wire_ab Ps (net_ab S) (side_a c) (side_b c) (wire_ab c)"
    and pay: "sim_payloads Ps S (msgs_taken c)" and pcs: "pieces_inv Ps (side_b c)"
    and msgs: "sim_msgs S c"
    using assms(1) by (simp_all add: sim_def)
  obtain s r P w1 w2 v where p: "(s, r) \<in> net_ab S" "Ps (word_of_nat s) = Some P"
    "frag_of (side_a c) w1 w2 P pkt" "taken_words (side_b c) w1 w2 = (flagged s (r \<noteq> None), v)"
    using wab assms(2) unfolding sim_wire_ab_def carries_def by meson
  have small: "s < 2 ^ 31"
    using inv p(1) ab_okD(3) [of S s r] sa by (auto simp: proto_inv_def sim_a_def)
  have P: "length P < 4 * 65536" using pay p(2) unfolding sim_payloads_def by blast
  obtain env rd rd' nd nd' where pr: "Netchan_Process env (side_b c) rd nd = Inr (ok, b, rd', nd')"
    and rd: "sz_content (msg_readmsg rd) = pkt" "cursize (msg_readmsg rd) \<le> length (data (msg_readmsg rd))"
    and payload: "payload = unread rd'"
    using assms(3) unfolding receives_def by blast
  have pc: "settings b = settings (side_b c)" "mtu_ok b"
    "if ok then incoming_sequence (side_b c) < word_of_nat s \<and>
       core b = accepted (flagged s (r \<noteq> None)) v (core (side_b c)) else core b = core (side_b c)"
    using process_core [OF pr _ _ frag_of_has_words [OF p(3), folded rd(1)] p(4)] ends
    unfolding flagged_eqs [OF small] ends_ok_def by blast+
  have ct: "pieces_inv Ps b" "ok \<Longrightarrow> payload = P"
    using process_content [OF pr _ _ p(3) [folded rd(1)] p(4) P rd(2) pcs, unfolded flagged_eqs [OF small], OF _ _ p(2)]
      ends unfolding ends_ok_def payload by blast+
  show ?thesis
  proof (cases ok)
    case False
    with pc(3) sb have "sim_b S (core b)" by simp
    from sim_side_b [OF assms(1) pc(1,2) this ct(1)] False show ?thesis by auto
  next
    case True
    have "unat (incoming_sequence (side_b c)) < s"
      using True pc(3) word_less_unat [OF _ small, of "incoming_sequence (side_b c)"] by simp
    then have new: "b_in S < s" using sb by (simp add: sim_b_def)
    have cb: "c_out (core b) = c_out (core (side_b c))" "c_in (core b) = word_of_nat s"
      "c_inrel (core b) = (if r \<noteq> None then c_inrel (core (side_b c)) XOR 1 else c_inrel (core (side_b c)))"
      using True pc(3) unfolding accepted_def flagged_eqs [OF small] by simp_all
    let ?S = "if r = None then S\<lparr>b_in := s\<rparr>
             else S\<lparr>b_in := s, b_inrel := \<not> b_inrel S, got := got S + 1, got_at := s\<rparr>"
    let ?c = "c\<lparr>side_b := b, msgs_got := msgs_got c @
      (if ok \<and> incoming_reliable_sequence b \<noteq> incoming_reliable_sequence (side_b c) then [payload] else [])\<rparr>"
    have st: "astep S ?S" using astep.accept_b [OF p(1) new] .
    have sb': "sim_b ?S (core b)"
      using sb cb unat_nat [OF small] by (auto simp: sim_b_def)
    have flip: "incoming_reliable_sequence b \<noteq> incoming_reliable_sequence (side_b c) \<longleftrightarrow> r \<noteq> None"
      using cb(3) sb by (auto simp: sim_b_def)
    have "sim_msgs ?S ?c"
    proof (cases r)
      case None
      with msgs flip show ?thesis by (simp add: sim_msgs_def)
    next
      case (Some k)
      have k: "k = taken S" "taken S = Suc (got S)"
        using ab_okD(4) [of S s k] inv p(1) new Some by (simp_all add: proto_inv_def)
      obtain rest where "P = msgs_taken c ! (k - 1) @ rest"
        using pay p(1,2) Some unfolding sim_payloads_def by fastforce
      then have "payload = msgs_taken c ! got S @ rest" using True ct(2) k by simp
      moreover have "length (msgs_taken c) = taken S" using sa by (simp add: sim_a_def)
      ultimately show ?thesis
        using msgs flip Some True k by (auto simp: sim_msgs_def nth_append less_Suc_eq)
    qed
    moreover have "sim_a ?S (msgs_taken c) (core (side_a c))" "sim_payloads Ps ?S (msgs_taken c)"
      "net_ab ?S = net_ab S" "net_ba ?S = net_ba S"
      using sa pay by (cases r; auto simp: sim_a_def sim_payloads_def)+
    ultimately have "sim Ps ?S ?c"
      using assms(1) astep_inv [OF st inv] ends_ok_settings [OF ends refl pc(1) _ pc(2)] ends sb' ct(1)
      unfolding sim_def by (simp add: sim_wire_ab_settings [OF refl pc(1)] ends_ok_def)
    with st show ?thesis by blast
  qed
qed

section \<open>Sending\<close>

lemma reliable_dropped_sim:
  assumes "proto_inv S" and "sim_a S msgs (core a)" and "sim_b S (core b)"
  shows "reliable_dropped a \<longleftrightarrow> dropped S"
proof -
  have "a_ack S \<le> b_in S" "b_in S < a_out S" "a_last S \<le> a_out S" "a_out S < 2 ^ 31"
    using assms by (simp_all add: proto_inv_def known_ok_def ab_ok_def sim_a_def)
  then have "unat (incoming_acknowledged a) < 2 ^ 31" "unat (last_reliable_sequence a) < 2 ^ 31"
    using assms(2) by (simp_all add: sim_a_def)
  then have "sint (incoming_acknowledged a) > sint (last_reliable_sequence a) \<longleftrightarrow>
      unat (incoming_acknowledged a) > unat (last_reliable_sequence a)"
    by (simp only: sint_small of_nat_less_iff)
  then show ?thesis
    using assms(2) by (simp add: reliable_dropped_def dropped_def sim_a_def)
qed

text \<open>Taking a new message from the buffer.\<close>

lemma sim_take:
  assumes "sim Ps S c" and "qw_reliable (side_a c) = Inr (rel, a)" and "takes_new (side_a c)"
    and "cursize (message (side_a c)) \<le> length (data (message (side_a c)))"
  shows "\<not> a_busy S" "sim Ps (take_message S)
    (c\<lparr>side_a := a, msgs_taken := msgs_taken c @ [sz_content (message (side_a c))]\<rparr>)"
proof -
  let ?m = "sz_content (message (side_a c))"
  have inv: "proto_inv S" and ends: "ends_ok (side_a c) (side_b c)" and sa: "sim_a S (msgs_taken c) (core (side_a c))"
    using assms(1) by (simp_all add: sim_def)
  show free: "\<not> a_busy S"
    using sa assms(3) by (simp add: sim_a_def takes_new_def)
  note q = qw_reliable_core [OF assms(2)]
  have st: "settings a = settings (side_a c)" and mc: "mtu_cur a = mtu_cur (side_a c)"
    using q kept_settings [of a "side_a c"] by blast+
  have mt: "mtu_ok a"
    using ends mc settings_hsz [OF st] settings_eqs(3) [OF st] by (simp add: ends_ok_def mtu_ok_def)
  have ca: "core a = (core (side_a c))\<lparr>c_rel := reliable_sequence (side_a c) XOR 1,
      c_buf := reliable_buf a, c_len := cursize (message (side_a c))\<rparr>" "reliable_bytes a = ?m"
    using q assms(3,4) by simp_all
  have len: "reliable_length a = cursize (message (side_a c))"
    using arg_cong [OF ca(1), of c_len] by simp
  have "sim_a (take_message S) (msgs_taken c @ [?m]) (core a)"
    using sa assms(3) ca(2) len unfolding ca(1)
    by (simp add: sim_a_def take_message_def takes_new_def reliable_bytes_def nth_append)
  moreover have "sim_payloads Ps (take_message S) (msgs_taken c @ [?m])"
    using assms(1) unfolding sim_def sim_payloads_def take_message_def
    by (fastforce simp: nth_append)
  moreover have "sim_msgs (take_message S) (c\<lparr>side_a := a, msgs_taken := msgs_taken c @ [?m]\<rparr>)"
    using assms(1) by (auto simp: sim_def sim_msgs_def take_message_def nth_append)
  ultimately show "sim Ps (take_message S) (c\<lparr>side_a := a, msgs_taken := msgs_taken c @ [?m]\<rparr>)"
    using assms(1) take_message_inv [OF inv free] ends_ok_settings [OF ends st refl mt] ends
    unfolding sim_def
    by (simp add: sim_wire_ab_settings [OF st refl] sim_wire_ba_settings [OF st] ends_ok_def
        sim_b_def take_message_def)
qed

text \<open>Sending a packet: its sequence number gets its payload.\<close>

lemma sim_emit:
  assumes "sim Ps S c" and "settings a = settings (side_a c)" and "mtu_ok a"
    and ca: "core a = (core (side_a c))\<lparr>c_out := outgoing_sequence (side_a c) + 1,
      c_lastrel := (if rel then outgoing_sequence (side_a c) + 1 else last_reliable_sequence (side_a c))\<rparr>"
    and pk: "\<forall>p \<in> set new. frag_of (side_a c) w1 w2 P (snd p)"
    and wd: "taken_words (side_b c) w1 w2 = (flagged (a_out S) rel, v)"
    and P: "length P < 4 * 65536" "rel \<Longrightarrow> 0 < taken S \<and> (\<exists>rest. P = msgs_taken c ! (taken S - 1) @ rest)"
    and small: "a_out S + 1 < 2 ^ 31" and inv: "proto_inv (emit rel S)"
  shows "\<exists>Ps'. sim Ps' (emit rel S) (c\<lparr>side_a := a, wire_ab := wire_ab c \<union> snd ` set new\<rparr>)"
proof -
  let ?q = "word_of_nat (a_out S) :: int32"
  let ?Ps = "Ps(?q \<mapsto> P)"
  have ends: "ends_ok (side_a c) (side_b c)" and sa: "sim_a S (msgs_taken c) (core (side_a c))"
    and wab: "sim_wire_ab Ps (net_ab S) (side_a c) (side_b c) (wire_ab c)"
    and pay: "sim_payloads Ps S (msgs_taken c)" and ab: "ab_ok S"
    using assms(1) by (simp_all add: sim_def proto_inv_def)
  have q: "unat ?q = a_out S" using small unat_nat [of "a_out S"] by simp
  have fresh: "Ps ?q = None"
    using pay q unfolding sim_payloads_def by (cases "Ps ?q") fastforce+
  then have sub: "Ps \<subseteq>\<^sub>m ?Ps" by (auto simp: map_le_def)
  have out: "unat (outgoing_sequence (side_a c) + 1) = a_out S + 1"
    using sa small unat_Suc_small [of "outgoing_sequence (side_a c)"] by (simp add: sim_a_def)
  have "sim_a (emit rel S) (msgs_taken c) (core a)"
    using sa small out unfolding ca by (auto simp: sim_a_def emit_def)
  moreover have "sim_wire_ab ?Ps (net_ab (emit rel S)) a (side_b c) (wire_ab c \<union> snd ` set new)"
    unfolding sim_wire_ab_settings [OF assms(2) refl]
  proof (rule sim_wire_abI)
    fix pkt assume "pkt \<in> wire_ab c \<union> snd ` set new"
    then consider "pkt \<in> wire_ab c" | "frag_of (side_a c) w1 w2 P pkt" using pk by auto
    then show "carries ?Ps (net_ab (emit rel S)) (side_a c) (side_b c) pkt"
    proof cases
      case 1
      then obtain s r P' w1 w2 v where "(s, r) \<in> net_ab S" "Ps (word_of_nat s) = Some P'"
        "frag_of (side_a c) w1 w2 P' pkt" "taken_words (side_b c) w1 w2 = (flagged s (r \<noteq> None), v)"
        using wab unfolding sim_wire_ab_def carries_def by meson
      moreover from this(2) have "?Ps (word_of_nat s) = Some P'" using fresh by auto
      moreover have "net_ab S \<subseteq> net_ab (emit rel S)" by (auto simp: emit_def)
      ultimately show ?thesis unfolding carries_def by blast
    next
      case 2
      let ?r = "if rel then Some (taken S) else None"
      have "(a_out S, ?r) \<in> net_ab (emit rel S)" by (simp add: emit_def)
      moreover have "?Ps ?q = Some P" by simp
      moreover have "taken_words (side_b c) w1 w2 = (flagged (a_out S) (?r \<noteq> None), v)" using wd by simp
      ultimately show ?thesis using 2 unfolding carries_def by blast
    qed
  qed
  moreover have "sim_payloads ?Ps (emit rel S) (msgs_taken c)"
    unfolding sim_payloads_def
  proof (intro conjI allI impI)
    fix s Q assume "?Ps s = Some Q"
    then show "length Q < 4 * 65536" "unat s < a_out (emit rel S)"
      using pay P(1) q unfolding sim_payloads_def
      by (auto simp: emit_def split: if_splits dest: less_SucI)
  next
    fix s k assume "(s, Some k) \<in> net_ab (emit rel S)"
    then consider "(s, Some k) \<in> net_ab S" | "rel" "s = a_out S" "k = taken S"
      by (auto simp: emit_def split: if_splits)
    then have "0 < k \<and> k \<le> length (msgs_taken c) \<and>
      (\<exists>P rest. ?Ps (word_of_nat s) = Some P \<and> P = msgs_taken c ! (k - 1) @ rest)"
    proof cases
      case 1
      then have "0 < k \<and> k \<le> length (msgs_taken c) \<and>
          (\<exists>P rest. Ps (word_of_nat s) = Some P \<and> P = msgs_taken c ! (k - 1) @ rest)"
        using pay unfolding sim_payloads_def by blast
      with fresh show ?thesis by fastforce
    next
      case 2
      then show ?thesis using P(2) sa by (simp add: sim_a_def)
    qed
    then show "0 < k" "k \<le> length (msgs_taken c)"
      "\<exists>P rest. ?Ps (word_of_nat s) = Some P \<and> P = msgs_taken c ! (k - 1) @ rest" by blast+
  qed
  moreover have "pieces_inv ?Ps (side_b c)"
    using assms(1) pieces_inv_mono [OF _ sub] by (simp add: sim_def)
  ultimately have "sim ?Ps (emit rel S) (c\<lparr>side_a := a, wire_ab := wire_ab c \<union> snd ` set new\<rparr>)"
    using assms(1) inv ends_ok_settings [OF ends assms(2) refl assms(3)] ends
    unfolding sim_def
    by (simp add: sim_wire_ba_settings [OF assms(2)] ends_ok_def sim_b_def sim_msgs_def emit_def)
  then show ?thesis by blast
qed

text \<open>The outcomes of a transmission on a side of a connection.\<close>

lemma transmits_cases:
  assumes "transmits chan chan' new" and "plain chan" and "qps_ok chan" and "mtu_ok chan"
  obtains "core chan' = core chan" "new = []"
  | rel c where "qw_reliable chan = Inr (rel, c)" "core chan' = core c" "new = []"
  | rel c w1 w2 P rest where "qw_reliable chan = Inr (rel, c)" "qw_words c rel = (w1, w2)"
      "core chan' = (core c)\<lparr>c_out := outgoing_sequence c + 1,
         c_lastrel := (if rel then outgoing_sequence c + 1 else last_reliable_sequence c)\<rparr>"
      "P = (if rel then reliable_bytes c else []) @ rest" "length P < 4 * 65536"
      "\<forall>p \<in> set new. frag_of chan w1 w2 P (snd p)"
proof -
  obtain env sock buf payload rate sent n where buf: "length buf = MAX_OVERALLMSGLEN + PACKET_HEADER"
    and t: "Netchan_Transmit env sock buf chan payload rate sent = Some (Inr (n, chan', sent @ new))"
    using assms(1) unfolding transmits_def by blast
  from transmit_core [OF t assms(2-4)]
  consider "core chan' = core chan" "new = []"
    | rel c where "qw_reliable chan = Inr (rel, c)" "core chan' = core c" "new = []"
    | rel c w1 w2 new' rest where "qw_reliable chan = Inr (rel, c)" "qw_words c rel = (w1, w2)"
      "core chan' = (core c)\<lparr>c_out := outgoing_sequence c + 1,
         c_lastrel := (if rel then outgoing_sequence c + 1 else last_reliable_sequence c)\<rparr>"
      "qw_hsz chan + length ((if rel then reliable_bytes c else []) @ rest) \<le> length buf"
      "sent @ new = sent @ new'" "\<forall>p \<in> set new'. fst p = remote_address chan \<and>
         frag_of chan w1 w2 ((if rel then reliable_bytes c else []) @ rest) (snd p)"
    by (elim conjE disjE exE) (simp_all only: append_self_conv)
  then show thesis
  proof cases
    case 1
    then show thesis by (rule that(1))
  next
    case 2
    then show thesis by (rule that(2))
  next
    case 3
    show thesis
    proof (rule that(3) [OF 3(1-3) refl])
      show "length ((if rel then reliable_bytes c else []) @ rest) < 4 * 65536"
        using 3(4) by (simp add: buf MAX_OVERALLMSGLEN_def PACKET_HEADER_def)
      show "\<forall>p \<in> set new. frag_of chan w1 w2 ((if rel then reliable_bytes c else []) @ rest) (snd p)"
        using 3(5,6) by simp
    qed
  qed
qed

lemma transmits_kept:
  assumes "transmits chan chan' new" and "plain chan" and "qps_ok chan" and "mtu_ok chan"
  shows "kept chan' = kept chan" "mtu_ok chan'"
  using assms(1) transmit_core [OF _ assms(2-4)] unfolding transmits_def by blast+

lemma sim_send_a:
  assumes "sim Ps S c" and "transmits (side_a c) a new" and "unat (outgoing_sequence (side_a c)) + 1 < 2 ^ 31"
    and "cursize (message (side_a c)) \<le> length (data (message (side_a c)))"
  shows "\<exists>Ps' S'. astep\<^sup>=\<^sup>= S S' \<and> sim Ps' S' (c\<lparr>side_a := a, wire_ab := wire_ab c \<union> snd ` set new,
    msgs_taken := msgs_taken c @ (if reliable_sequence a = reliable_sequence (side_a c) then []
      else [sz_content (message (side_a c))])\<rparr>)"
proof -
  have inv: "proto_inv S" and ends: "ends_ok (side_a c) (side_b c)" and sa: "sim_a S (msgs_taken c) (core (side_a c))"
    and sb: "sim_b S (core (side_b c))"
    using assms(1) by (simp_all add: sim_def)
  have ok: "plain (side_a c)" "qps_ok (side_a c)" "mtu_ok (side_a c)" "is_stunaware (side_a c) = is_stunaware (side_b c)"
    using ends by (simp_all add: ends_ok_def peers_def)
  have st: "settings a = settings (side_a c)" and mt: "mtu_ok a"
    using transmits_kept [OF assms(2) ok(1-3)] kept_settings by blast+
  have out: "a_out S + 1 < 2 ^ 31" using assms(3) sa by (simp add: sim_a_def)
  let ?take = "takes_new (side_a c)"
  let ?S = "if ?take then take_message S else S"
  let ?msgs = "msgs_taken c @ (if ?take then [sz_content (message (side_a c))] else [])"
  have taken: "sim Ps ?S (c\<lparr>side_a := a1, msgs_taken := ?msgs\<rparr>) \<and> (?take \<longrightarrow> \<not> a_busy S) \<and>
      (reliable_sequence a1 = reliable_sequence (side_a c) \<longleftrightarrow> \<not> ?take)"
    if "qw_reliable (side_a c) = Inr (rel, a1)" for rel a1
  proof (cases ?take)
    case True
    from sim_take [OF assms(1) that True assms(4)] True
    have s: "\<not> a_busy S" "sim Ps ?S (c\<lparr>side_a := a1, msgs_taken := ?msgs\<rparr>)" by simp_all
    then have "reliable_sequence a1 = of_bool (\<not> a_rel S)"
      using True by (simp add: sim_def sim_a_def take_message_def)
    with s True sa show ?thesis by (simp add: sim_a_def)
  next
    case False
    with qw_reliable_core [OF that] have "a1 = side_a c" by simp
    with False assms(1) show ?thesis by simp
  qed
  from assms(2) ok(1-3) show ?thesis
  proof (cases rule: transmits_cases)
    case 1
    from 1(1) have "reliable_sequence a = reliable_sequence (side_a c)" by (metis core_simps(6))
    moreover from 1(1) sa have "sim_a S (msgs_taken c) (core a)" by simp
    from sim_side_a [OF assms(1) st mt this] have "sim Ps S (c\<lparr>side_a := a\<rparr>)" .
    ultimately show ?thesis using 1(2) by auto
  next
    case (2 rel a1)
    note t = taken [OF 2(1)]
    have rs: "reliable_sequence a = reliable_sequence a1" using 2(2) by (metis core_simps(6))
    have "settings a = settings a1"
      using st qw_reliable_core [OF 2(1)] kept_settings [of a1 "side_a c"] by simp
    then have s: "sim Ps ?S (c\<lparr>side_a := a1, msgs_taken := ?msgs, side_a := a\<rparr>)"
      using t mt 2(2) sim_side_a [of Ps ?S "c\<lparr>side_a := a1, msgs_taken := ?msgs\<rparr>" a]
      by (simp add: sim_def)
    have "c\<lparr>side_a := a1, msgs_taken := ?msgs, side_a := a\<rparr> =
        c\<lparr>side_a := a, wire_ab := wire_ab c \<union> snd ` set new, msgs_taken := ?msgs\<rparr>"
      using 2(3) by (cases c) simp
    moreover have "astep\<^sup>=\<^sup>= S ?S" using t astep.stall by auto
    moreover have "reliable_sequence a = reliable_sequence (side_a c) \<longleftrightarrow> \<not> ?take" using t rs by simp
    ultimately show ?thesis using s by (cases ?take) auto
  next
    case (3 rel a1 w1 w2 P rest)
    note t = taken [OF 3(1)]
    let ?c = "c\<lparr>side_a := a1, msgs_taken := ?msgs\<rparr>"
    have sm: "sim Ps ?S ?c" and invS: "proto_inv ?S" using t by (auto simp: sim_def)
    have k: "settings a1 = settings (side_a c)" "rel = (?take \<or> reliable_dropped (side_a c))"
      using qw_reliable_core [OF 3(1)] kept_settings [of a1 "side_a c"] by simp_all
    have dr: "reliable_dropped (side_a c) \<longleftrightarrow> dropped S" by (rule reliable_dropped_sim [OF inv sa sb])
    have step: "astep S (emit rel ?S)"
      using t k(2) dr astep.send_new [of S] astep.send [of S] by auto
    have invE: "proto_inv (emit rel ?S)" by (rule astep_inv [OF step inv])
    have outS: "a_out ?S = a_out S" "a_out ?S + 1 < 2 ^ 31" using out by (simp_all add: take_message_def)
    have sa1: "sim_a ?S ?msgs (core a1)" using sm by (simp add: sim_def)
    have "taken_words (side_b c) w1 w2 = (outgoing_sequence a1 OR push_bit 31 (of_bool rel),
        incoming_sequence a1 OR push_bit 31 (incoming_reliable_sequence a1))"
      using ok(4) settings_eqs(1) [OF k(1)] by (intro words_received [OF 3(2)]) simp
    moreover have "outgoing_sequence a1 = word_of_nat (a_out ?S)"
      using sa1 outS unat_nat [of "a_out ?S"] by (intro word_unat_eq_iff [THEN iffD2]) (simp add: sim_a_def)
    ultimately have wd: "taken_words (side_b ?c) w1 w2 = (flagged (a_out ?S) rel,
        incoming_sequence a1 OR push_bit 31 (incoming_reliable_sequence a1))"
      by (simp add: flagged_def)
    have busy: "rel \<Longrightarrow> a_busy ?S"
      using k(2) dr dropped_in_flight(1) [OF inv] by (auto simp: take_message_def)
    have pk: "\<forall>p \<in> set new. frag_of (side_a ?c) w1 w2 P (snd p)"
      using 3(6) frag_of_settings [OF k(1)] by simp
    have P: "rel \<Longrightarrow> 0 < taken ?S \<and> (\<exists>rest. P = msgs_taken ?c ! (taken ?S - 1) @ rest)"
      using sa1 busy 3(4) by (auto simp: sim_a_def reliable_bytes_def)
    have st1: "settings a = settings (side_a ?c)" using st k(1) by simp
    have ca: "core a = (core (side_a ?c))\<lparr>c_out := outgoing_sequence (side_a ?c) + 1,
      c_lastrel := (if rel then outgoing_sequence (side_a ?c) + 1 else last_reliable_sequence (side_a ?c))\<rparr>"
      using 3(3) by simp
    have eq: "?c\<lparr>side_a := a, wire_ab := wire_ab ?c \<union> snd ` set new\<rparr> =
        c\<lparr>side_a := a, wire_ab := wire_ab c \<union> snd ` set new, msgs_taken := ?msgs\<rparr>"
      by (cases c) simp
    obtain Ps' where s: "sim Ps' (emit rel ?S)
        (c\<lparr>side_a := a, wire_ab := wire_ab c \<union> snd ` set new, msgs_taken := ?msgs\<rparr>)"
      using sim_emit [OF sm st1 mt ca pk wd 3(5) P outS(2) invE] unfolding eq by blast
    have "reliable_sequence a = reliable_sequence a1"
      using arg_cong [OF 3(3), of c_rel] by simp
    then have "reliable_sequence a = reliable_sequence (side_a c) \<longleftrightarrow> \<not> ?take" using t by simp
    with s have "sim Ps' (emit rel ?S) (c\<lparr>side_a := a, wire_ab := wire_ab c \<union> snd ` set new,
        msgs_taken := msgs_taken c @ (if reliable_sequence a = reliable_sequence (side_a c) then []
          else [sz_content (message (side_a c))])\<rparr>)"
      by (cases ?take) auto
    with step show ?thesis by blast
  qed
qed

lemma sim_reply_frame [simp]:
  "sim_a (S\<lparr>b_out := x, net_ba := y\<rparr>) msgs k = sim_a S msgs k"
  "sim_payloads Ps (S\<lparr>b_out := x, net_ba := y\<rparr>) msgs = sim_payloads Ps S msgs"
  "sim_msgs (S\<lparr>b_out := x, net_ba := y\<rparr>) (c\<lparr>side_b := b, wire_ba := w\<rparr>) = sim_msgs S c"
  by (simp_all add: sim_a_def sim_payloads_def sim_msgs_def)

lemma sim_send_b:
  assumes "sim Ps S c" and "transmits (side_b c) b new" and "unat (outgoing_sequence (side_b c)) + 1 < 2 ^ 31"
  shows "\<exists>S'. astep\<^sup>=\<^sup>= S S' \<and> sim Ps S' (c\<lparr>side_b := b, wire_ba := wire_ba c \<union> snd ` set new\<rparr>)"
proof -
  have inv: "proto_inv S" and ends: "ends_ok (side_a c) (side_b c)" and sb: "sim_b S (core (side_b c))"
    and wba: "sim_wire_ba (net_ba S) (side_a c) (wire_ba c)"
    using assms(1) by (simp_all add: sim_def)
  have ok: "plain (side_b c)" "qps_ok (side_b c)" "mtu_ok (side_b c)" "is_stunaware (side_b c) = is_stunaware (side_a c)"
    using ends by (simp_all add: ends_ok_def peers_def qps_ok_def)
  have kept: "kept b = kept (side_b c)" and st: "settings b = settings (side_b c)" and mt: "mtu_ok b"
    using transmits_kept [OF assms(2) ok(1-3)] kept_settings by blast+
  have pcs: "pieces_inv Ps b" using assms(1) pieces_inv_kept [OF kept] by (simp add: sim_def)
  have same: "c_out (core d) = c_out (core (side_b c))" "c_in (core d) = c_in (core (side_b c))"
    "c_inrel (core d) = c_inrel (core (side_b c))" if "qw_reliable (side_b c) = Inr (rel, d)" for rel d
    using qw_reliable_core [OF that] by (cases "takes_new (side_b c)"; simp)+
  from assms(2) ok(1-3) show ?thesis
  proof (cases rule: transmits_cases)
    case 1
    with sb have "sim_b S (core b)" by simp
    from sim_side_b [OF assms(1) st mt this pcs] 1(2) show ?thesis by auto
  next
    case (2 rel d)
    have "sim_b S (core b)" using sb same [OF 2(1)] unfolding 2(2) by (simp add: sim_b_def)
    from sim_side_b [OF assms(1) st mt this pcs] 2(3) show ?thesis by auto
  next
    case (3 rel d w1 w2 P rest)
    let ?S = "S\<lparr>b_out := b_out S + 1, net_ba := insert (b_out S, b_in S, b_inrel S, got S) (net_ba S)\<rparr>"
    have step: "astep S ?S" by (rule astep.reply)
    have d: "outgoing_sequence d = outgoing_sequence (side_b c)" "incoming_sequence d = incoming_sequence (side_b c)"
      "incoming_reliable_sequence d = incoming_reliable_sequence (side_b c)"
      using same [OF 3(1)] by simp_all
    have out: "b_out S + 1 < 2 ^ 31" "unat (outgoing_sequence d + 1) = b_out S + 1"
      using assms(3) sb unat_Suc_small [of "outgoing_sequence d"] by (simp_all add: sim_b_def d)
    have "b_in S < 2 ^ 31" using assms(1) by (simp add: sim_def proto_inv_def ab_ok_def sim_a_def)
    then have w: "outgoing_sequence d = word_of_nat (b_out S)" "incoming_sequence d = word_of_nat (b_in S)"
      using sb out unat_nat [of "b_out S"] unat_nat [of "b_in S"]
      by (simp_all add: word_unat_eq_iff sim_b_def d)
    have "is_stunaware d = is_stunaware (side_a c)"
      using ok(4) qw_reliable_core [OF 3(1)] kept_settings [of d "side_b c"] settings_eqs(1) [of d "side_b c"] by simp
    from words_received [OF 3(2) this] have wd:
      "taken_words (side_a c) w1 w2 = (flagged (b_out S) rel, flagged (b_in S) (b_inrel S))"
      using sb by (simp add: flagged_def w d(3) sim_b_def)
    have "sim_wire_ba (net_ba ?S) (side_a c) (wire_ba c \<union> snd ` set new)"
    proof -
      have "\<exists>t v r g w1 w2 f. (t, v, r, g) \<in> net_ba ?S \<and> has_words pkt w1 w2 \<and>
          taken_words (side_a c) w1 w2 = (flagged t f, flagged v r)"
        if "pkt \<in> wire_ba c \<union> snd ` set new" for pkt
      proof (cases "pkt \<in> wire_ba c")
        case True
        then obtain t v r g w1' w2' f where "(t, v, r, g) \<in> net_ba S" "has_words pkt w1' w2'"
          "taken_words (side_a c) w1' w2' = (flagged t f, flagged v r)"
          using wba unfolding sim_wire_ba_def by meson
        moreover have "net_ba S \<subseteq> net_ba ?S" by auto
        ultimately show ?thesis by blast
      next
        case False
        with that 3(6) have "has_words pkt w1 w2" by (auto intro: frag_of_has_words)
        moreover have "(b_out S, b_in S, b_inrel S, got S) \<in> net_ba ?S" by simp
        ultimately show ?thesis using wd by blast
      qed
      then show ?thesis unfolding sim_wire_ba_def by blast
    qed
    moreover have "sim_b ?S (core b)"
      using sb out same [OF 3(1)] unfolding 3(3) by (simp add: sim_b_def)
    ultimately have "sim Ps ?S (c\<lparr>side_b := b, wire_ba := wire_ba c \<union> snd ` set new\<rparr>)"
      using assms(1) astep_inv [OF step inv] ends_ok_settings [OF ends refl st _ mt] ends pcs
      unfolding sim_def by (simp add: sim_wire_ab_settings [OF refl st] ends_ok_def)
    with step show ?thesis by blast
  qed
qed

section \<open>Every event is simulated\<close>

lemma message_frame [simp]:
  "core (chan\<lparr>message := m\<rparr>) = core chan" "settings (chan\<lparr>message := m\<rparr>) = settings chan"
  "kept (chan\<lparr>message := m\<rparr>) = kept chan" "mtu_ok (chan\<lparr>message := m\<rparr>) = mtu_ok chan"
  by (simp_all add: core_def settings_def kept_def mtu_ok_def qw_hsz_def)

theorem exchange_simulated:
  assumes "exchange c c'" and "sim Ps S c"
  shows "\<exists>Ps' S'. astep\<^sup>=\<^sup>= S S' \<and> sim Ps' S' c'"
  using assms
proof (cases rule: exchange.cases)
  case (write_a m)
  have "sim Ps S c'"
    unfolding write_a(1)
    by (rule sim_side_a [OF assms(2)]) (use assms(2) in \<open>simp_all add: sim_def ends_ok_def\<close>)
  then show ?thesis by blast
next
  case (write_b m)
  have "sim Ps S c'"
    unfolding write_b
    by (rule sim_side_b [OF assms(2)])
      (use assms(2) pieces_inv_kept [of "(side_b c)\<lparr>message := m\<rparr>" "side_b c"] in \<open>simp_all add: sim_def ends_ok_def\<close>)
  then show ?thesis by blast
next
  case (send_a a new)
  from sim_send_a [OF assms(2) send_a(2-4)] show ?thesis unfolding send_a(1) .
next
  case (send_b b new)
  from sim_send_b [OF assms(2) send_b(2,3)] show ?thesis unfolding send_b(1) by blast
next
  case (recv_a pkt ok a payload)
  from sim_recv_a [OF assms(2) recv_a(2,3)] show ?thesis unfolding recv_a(1) by blast
next
  case (recv_b pkt ok b payload)
  from sim_recv_b [OF assms(2) recv_b(2,3)] show ?thesis unfolding recv_b(1) by blast
qed

lemma exchanges_simulated:
  "exchange\<^sup>*\<^sup>* c c' \<Longrightarrow> sim Ps S c \<Longrightarrow> \<exists>Ps' S'. sim Ps' S' c'"
proof (induction rule: rtranclp_induct)
  case (step d e)
  then show ?case using exchange_simulated by blast
qed blast

section \<open>Freshly opened channels\<close>

lemma Netchan_Setup_form:
  "\<exists>m k. 436 \<le> m \<and> m \<le> max (if mtu < 64 \<or> mtu > 0xffff then MAX_QWMSGLEN else mtu) 508 \<and>
     Netchan_Setup env fl adr qp mtu =
     zero_netchan\<lparr>nc_flags := fl, remote_address := adr, last_received := realtime env,
       nqreliable_allowed := True, incoming_unreliable := -1, outgoing_sequence := 1,
       qportsize := (if adr_prot adr = NP_KEXLAN then 0 else 2), nc_qport := qp,
       mtu_min := min m (setup_mtu_min (adr_type adr)), mtu_cur := m, mtu_max := m,
       mtu_reprobetime := realtime env,
       message := zero_message\<lparr>allowoverflow := True, maxsize := k\<rparr>\<rparr>"
proof -
  let ?qps = "if adr_prot adr = NP_KEXLAN then 0 else 2 :: nat"
  obtain m1 where m1: "m1 = max (if mtu < 64 \<or> mtu > 0xffff then MAX_QWMSGLEN else mtu) 508" by simp
  obtain m2 where m2: "m2 = (if fl AND NCF_CLIENT \<noteq> 0 then m1 - PACKET_HEADER - ?qps else m1 - PACKET_HEADER)" by simp
  obtain m3 where m3: "m3 = (if fl AND NCF_FRAGABLE \<noteq> 0 then m2 - 2 else m2)" by simp
  obtain m where m: "m = (if adr_type adr = NA_ICE then m3 - (48 + 12)
      else if adr_prot adr = NP_DTLS \<or> adr_prot adr = NP_TLS then m3 - 48 else m3)" by simp
  have "508 \<le> m1" by (simp add: m1)
  then have "498 \<le> m2" by (auto simp: m2 PACKET_HEADER_def)
  then have "496 \<le> m3" by (auto simp: m3)
  then have "436 \<le> m" by (auto simp: m)
  moreover have "m3 \<le> m1" "m \<le> m3" by (auto simp: m m3 m2)
  then have "m \<le> m1" by simp
  moreover have "\<exists>k. Netchan_Setup env fl adr qp mtu =
     zero_netchan\<lparr>nc_flags := fl, remote_address := adr, last_received := realtime env,
       nqreliable_allowed := True, incoming_unreliable := -1, outgoing_sequence := 1,
       qportsize := ?qps, nc_qport := qp,
       mtu_min := min m (setup_mtu_min (adr_type adr)), mtu_cur := m, mtu_max := m,
       mtu_reprobetime := realtime env,
       message := zero_message\<lparr>allowoverflow := True, maxsize := k\<rparr>\<rparr>"
    unfolding Netchan_Setup_def Let_def m1 [symmetric] m2 [symmetric] m3 [symmetric] m [symmetric]
    by (rule exI) (rule refl)
  ultimately show ?thesis unfolding m1 by blast
qed

lemma Netchan_Setup_fields:
  "nc_flags (Netchan_Setup env fl adr qp mtu) = fl"
  "remote_address (Netchan_Setup env fl adr qp mtu) = adr"
  "qportsize (Netchan_Setup env fl adr qp mtu) = (if adr_prot adr = NP_KEXLAN then 0 else 2)"
  "compresstable (Netchan_Setup env fl adr qp mtu) = None"
  "isnqprotocol (Netchan_Setup env fl adr qp mtu) = False"
  "in_fragment_length (Netchan_Setup env fl adr qp mtu) = 0"
  "core (Netchan_Setup env fl adr qp mtu) = \<lparr>c_out = 1, c_in = 0, c_ack = 0, c_relack = 0, c_inrel = 0,
     c_rel = 0, c_lastrel = 0, c_len = 0, c_buf = replicate MAX_OVERALLMSGLEN 0\<rparr>"
  "436 \<le> mtu_cur (Netchan_Setup env fl adr qp mtu)"
  "mtu_min (Netchan_Setup env fl adr qp mtu) =
     min (mtu_cur (Netchan_Setup env fl adr qp mtu)) (setup_mtu_min (adr_type adr))"
proof -
  obtain m k where m: "436 \<le> m" and s: "Netchan_Setup env fl adr qp mtu =
     zero_netchan\<lparr>nc_flags := fl, remote_address := adr, last_received := realtime env,
       nqreliable_allowed := True, incoming_unreliable := -1, outgoing_sequence := 1,
       qportsize := (if adr_prot adr = NP_KEXLAN then 0 else 2), nc_qport := qp,
       mtu_min := min m (setup_mtu_min (adr_type adr)), mtu_cur := m, mtu_max := m,
       mtu_reprobetime := realtime env,
       message := zero_message\<lparr>allowoverflow := True, maxsize := k\<rparr>\<rparr>"
    using Netchan_Setup_form [of mtu env fl adr qp] by blast
  show "nc_flags (Netchan_Setup env fl adr qp mtu) = fl"
    "remote_address (Netchan_Setup env fl adr qp mtu) = adr"
    "qportsize (Netchan_Setup env fl adr qp mtu) = (if adr_prot adr = NP_KEXLAN then 0 else 2)"
    "compresstable (Netchan_Setup env fl adr qp mtu) = None"
    "isnqprotocol (Netchan_Setup env fl adr qp mtu) = False"
    "in_fragment_length (Netchan_Setup env fl adr qp mtu) = 0"
    "core (Netchan_Setup env fl adr qp mtu) = \<lparr>c_out = 1, c_in = 0, c_ack = 0, c_relack = 0, c_inrel = 0,
       c_rel = 0, c_lastrel = 0, c_len = 0, c_buf = replicate MAX_OVERALLMSGLEN 0\<rparr>"
    "436 \<le> mtu_cur (Netchan_Setup env fl adr qp mtu)"
    "mtu_min (Netchan_Setup env fl adr qp mtu) =
       min (mtu_cur (Netchan_Setup env fl adr qp mtu)) (setup_mtu_min (adr_type adr))"
    using m unfolding s by (simp_all add: zero_netchan_def core_def)
qed

lemma Netchan_Setup_mtu: "mtu_ok (Netchan_Setup env fl adr qp mtu)"
proof -
  have "1200 \<le> setup_mtu_min (adr_type adr)"
    by (simp add: setup_mtu_min_def split: netadrtype_t.split)
  moreover have "qw_hsz (Netchan_Setup env fl adr qp mtu) \<le> 12"
    by (simp add: qw_hsz_def Netchan_Setup_fields)
  ultimately show ?thesis
    using Netchan_Setup_fields(8,9) [of env fl adr qp mtu] by (simp add: mtu_ok_def)
qed

lemma Netchan_Setup_plain:
  "\<not> NET_AddrIsReliable adr \<Longrightarrow> plain (Netchan_Setup env fl adr qp mtu) \<and>
   qportsize (Netchan_Setup env fl adr qp mtu) = 2"
  by (auto simp: plain_def Netchan_Setup_fields NET_AddrIsReliable_def)

text \<open>The flags of the two ends: one client, and the same extensions.\<close>

definition matching_flags :: "int32 \<Rightarrow> int32 \<Rightarrow> bool" where
  "matching_flags fa fb \<longleftrightarrow> (fa AND NCF_CLIENT \<noteq> 0) \<noteq> (fb AND NCF_CLIENT \<noteq> 0) \<and>
     (fa AND NCF_FRAGABLE \<noteq> 0) = (fb AND NCF_FRAGABLE \<noteq> 0) \<and>
     (fa AND NCF_STUNAWARE \<noteq> 0) = (fb AND NCF_STUNAWARE \<noteq> 0)"

definition opened :: "netchan_t \<Rightarrow> netchan_t \<Rightarrow> conn" where
  "opened a b = \<lparr>side_a = a, side_b = b, wire_ab = {}, wire_ba = {}, msgs_taken = [], msgs_got = []\<rparr>"

definition proto_start :: proto where
  "proto_start = \<lparr>a_out = 1, a_in = 0, a_ack = 0, a_relack = False, a_rel = False, a_last = 0,
     a_busy = False, b_out = 1, b_in = 0, b_inrel = False, net_ab = {}, net_ba = {}, taken = 0,
     got = 0, a_got = 0, got_at = 0\<rparr>"

lemma opened_sim:
  assumes "\<not> NET_AddrIsReliable adr" and "\<not> NET_AddrIsReliable adr'" and "matching_flags fa fb"
  shows "sim Map.empty proto_start
    (opened (Netchan_Setup env fa adr qp mtu) (Netchan_Setup env' fb adr' qp' mtu'))"
proof -
  have "ends_ok (Netchan_Setup env fa adr qp mtu) (Netchan_Setup env' fb adr' qp' mtu')"
    using Netchan_Setup_plain [OF assms(1), of env fa qp mtu] Netchan_Setup_plain [OF assms(2), of env' fb qp' mtu']
      Netchan_Setup_mtu [of env fa adr qp mtu] Netchan_Setup_mtu [of env' fb adr' qp' mtu'] assms(3)
    by (auto simp: ends_ok_def peers_def qps_ok_def matching_flags_def Netchan_Setup_fields)
  moreover have "proto_inv proto_start"
    by (simp add: proto_inv_def counts_ok_def ab_ok_def ba_ok_def known_ok_def proto_start_def)
  ultimately show ?thesis
    by (simp add: sim_def opened_def sim_a_def sim_b_def sim_wire_ab_def sim_payloads_def sim_wire_ba_def
        sim_msgs_def pieces_inv_def Netchan_Setup_fields proto_start_def)
qed

text \<open>
  C1: on two channels opened by \<open>Netchan_Setup\<close>, over any network that loses, repeats and reorders
  datagrams, every reliable message that side A took is received by side B exactly once and in the
  order they were taken, whole and in front of the packet it came with; at most the last one is
  still under way.
\<close>

theorem reliable_delivery:
  assumes "exchange\<^sup>*\<^sup>* (opened (Netchan_Setup env fa adr qp mtu) (Netchan_Setup env' fb adr' qp' mtu')) c"
    and "\<not> NET_AddrIsReliable adr" and "\<not> NET_AddrIsReliable adr'" and "matching_flags fa fb"
  shows "length (msgs_got c) \<le> length (msgs_taken c) \<and> length (msgs_taken c) \<le> length (msgs_got c) + 1 \<and>
    (\<forall>i < length (msgs_got c). \<exists>rest. msgs_got c ! i = msgs_taken c ! i @ rest)"
proof -
  obtain Ps S where "sim Ps S c"
    using exchanges_simulated [OF assms(1) opened_sim [OF assms(2-4)]] by blast
  then show ?thesis
    by (simp add: sim_def sim_msgs_def sim_a_def proto_inv_def counts_ok_def)
qed

end
