(* ===== verification/NetLive.thy ===== *)
theory NetLive
  imports NetSafe NetReliable
begin

text \<open>
  What a network that loses nothing delivers: the datagrams of one transmission, received in order,
  give the peer one message, the reliable bytes followed by the payload.  The sender's loop over the
  fragments is shown to cut the payload as \<open>split_payload\<close> does, and the receiver to join them.
\<close>

section \<open>The fragments of a payload\<close>

lemma next_cut: "8 \<le> m \<Longrightarrow> off < off + m - (off + m) mod 8" for m off :: nat
  using mod_less_divisor [of 8 "off + m"] by simp

function split_payload :: "nat \<Rightarrow> nat \<Rightarrow> nat \<Rightarrow> (nat \<times> nat \<times> bool) list" where
  "split_payload m len off =
     (if m < 8 \<or> len \<le> off + m then [(off, len - off, False)]
      else (let nxt = (off + m) - (off + m) mod 8
            in (off, nxt - off, True) # split_payload m len nxt))"
  by pat_completeness auto
termination
proof (relation "measure (\<lambda>(m, len, off). len - off)", goal_cases)
  case (2 m len off nxt)
  with next_cut [of m off] have "off < nxt" "off < len" by simp_all
  then show ?case by simp
qed simp

declare split_payload.simps [simp del]

definition frag_pkt :: "netchan_t \<Rightarrow> int32 \<Rightarrow> int32 \<Rightarrow> byte list \<Rightarrow> nat \<times> nat \<times> bool \<Rightarrow> byte list" where
  "frag_pkt chan w1 w2 P = (\<lambda>(off, k, mf). header_bytes chan w1 w2 (frag_field off mf) @ take k (drop off P))"

definition always_sent :: "sockets \<Rightarrow> bool" where
  "always_sent sock \<longleftrightarrow> (\<forall>sent to pkt. sock sent to pkt = NETERR_SENT)"

lemma send_frag_once:
  assumes "always_sent sock"
  shows "send_frag sock mtuseq pkt isfirst (-1) 0 NETERR_SENT n chan sent =
    (False, NETERR_SENT, n + int (length pkt),
     if isfirst then note_sent mtuseq (int (length pkt) - int (qw_hsz chan)) chan else chan,
     sent @ [(remote_address chan, pkt)])"
  using assms by (simp add: send_frag.simps NET_SendPacket_def always_sent_def Let_def)

lemma note_sent_header [simp]:
  "header_bytes (note_sent q n chan) = header_bytes chan" "qw_hsz (note_sent q n chan) = qw_hsz chan"
  "nc_flags (note_sent q n chan) = nc_flags chan" "qportsize (note_sent q n chan) = qportsize chan"
  "mtu_min (note_sent q n chan) = mtu_min chan"
  by (simp_all add: note_sent_def header_bytes_def qport_bytes_def qw_hsz_def fun_eq_iff)

lemma qw_frags_perfect:
  assumes "is_fragable chan" and "qps_ok chan" and "mtu_ok chan" and "sz_in N send"
    and "offset + qw_hsz chan \<le> cursize send" and "cursize send = qw_hsz chan + length P"
    and "drop (offset + qw_hsz chan) (take (cursize send) (data send)) = drop offset P"
    and "always_sent sock"
  shows "\<exists>n chan'. qw_frags sock 0 mtuseq w1 w2 offset NETERR_SENT outbytes chan send sent =
      Some (Inr (NETERR_SENT, n, chan', sent @ map (\<lambda>p. (remote_address chan, frag_pkt chan w1 w2 P p))
        (split_payload (mtu_cur chan - qw_hsz chan) (length P) offset)))"
  using assms
proof (induction "length P - offset" arbitrary: offset outbytes chan send sent rule: less_induct)
  case less
  let ?hsz = "qw_hsz chan"
  obtain m where "m = mtu_cur chan - ?hsz" by simp
  with less.prems(3) have m: "mtu_cur chan = m + ?hsz" "8 \<le> m" by (auto simp: mtu_ok_def)
  obtain mf where mf: "mf \<longleftrightarrow> offset + m < length P" by simp
  obtain nxt where nxt: "nxt = offset + m - (offset + m) mod 8" by simp
  obtain k where k: "k = (if mf then nxt - offset else length P - offset)" by simp
  have lo: "offset < nxt" "nxt \<le> offset + m" using next_cut [OF m(2), of offset] by (simp_all add: nxt)
  have off: "offset \<le> length P" using less.prems(5,6) by simp
  have mf': "(int offset + int (mtu_cur chan) - int ?hsz < int (cursize send) - int ?hsz) = mf"
    using m(1) less.prems(6) by (simp add: mf) linarith
  have no: "(if mf then int offset + int (mtu_cur chan) - int ?hsz -
        (int offset + int (mtu_cur chan) - int ?hsz) mod 8 else int (cursize send) - int ?hsz) = int (offset + k)"
  proof (cases mf)
    case True
    have "int (offset + m) - int (offset + m) mod 8 = int nxt"
      unfolding nxt by (simp add: of_nat_diff zmod_int)
    with True lo m(1) show ?thesis by (simp add: k)
  next
    case False
    with less.prems(6) off show ?thesis by (simp add: k)
  qed
  let ?h = "header_bytes chan w1 w2 (word_of_nat (offset div 4) OR of_bool mf)"
  let ?d = "data send"
  let ?send = "send\<lparr>data := take offset ?d @ ?h @ drop (offset + ?hsz) ?d\<rparr>"
  have len: "length ?h = ?hsz" "offset + ?hsz \<le> length ?d"
    using less.prems by (simp_all add: sz_in_def)
  have h: "frag_header w1 w2 chan offset mf send = Inr ?send"
    using less.prems(1,2) len by (simp add: frag_header_puts sz_puts_def pokes_Inr)
  have kP: "offset + k \<le> length P" "k \<le> cursize send - (offset + ?hsz)"
    using less.prems(6) off lo by (auto simp: k mf)
  have pkt: "take (nat (int (offset + k) - int offset + int ?hsz)) (drop offset (data ?send)) =
      frag_pkt chan w1 w2 P (offset, k, mf)"
    using frag_bytes [OF less.prems(2) len(2) refl less.prems(7) kP(2), of w1 w2]
    by (simp add: nat_add_distrib frag_pkt_def frag_field_def)
  obtain pk where pk: "pk = frag_pkt chan w1 w2 P (offset, k, mf)" by simp
  obtain c1 where c1: "c1 = (if offset = 0
      then note_sent mtuseq (int (length pk) - int ?hsz) chan else chan)" by simp
  let ?sent = "sent @ [(remote_address chan, pk)]"
  have eq: "qw_frags sock 0 mtuseq w1 w2 offset NETERR_SENT outbytes chan send sent =
      (if mf then qw_frags sock 0 mtuseq w1 w2 (offset + k) NETERR_SENT (outbytes + int (length pk)) c1 ?send ?sent
       else Some (Inr (NETERR_SENT, outbytes + int (length pk), c1, ?sent)))"
    by (subst qw_frags.simps)
      (simp only: Let_def mf' no h sum.case pkt pk [symmetric] send_frag_once [OF less.prems(8)] prod.case
        c1 [symmetric] if_True if_False nat_int simp_thms)
  have f: "header_bytes c1 = header_bytes chan" "qw_hsz c1 = ?hsz" "nc_flags c1 = nc_flags chan"
    "qportsize c1 = qportsize chan" "mtu_min c1 = mtu_min chan" "mtu_cur c1 = mtu_cur chan"
    "remote_address c1 = remote_address chan"
    by (simp_all add: c1)
  have split: "split_payload m (length P) offset =
      (if mf then (offset, k, True) # split_payload m (length P) (offset + k) else [(offset, k, False)])"
    using m(2) lo by (subst split_payload.simps) (simp add: mf k nxt Let_def)
  show ?case
  proof (cases mf)
    case True
    have "length P - (offset + k) < length P - offset"
      using True lo mf by (simp add: k)
    moreover have "is_fragable c1" "qps_ok c1" "mtu_ok c1"
      using less.prems(1-3) f by (simp_all add: qps_ok_def mtu_ok_def)
    moreover have "sz_in N ?send" using less.prems(4) len by (simp add: sz_in_def)
    moreover have "offset + k + qw_hsz c1 \<le> cursize ?send" "cursize ?send = qw_hsz c1 + length P"
      using kP(1) less.prems(6) f(2) by simp_all
    moreover have "drop (offset + k + qw_hsz c1) (take (cursize ?send) (data ?send)) = drop (offset + k) P"
    proof -
      have "drop (offset + ?hsz) (data ?send) = drop (offset + ?hsz) ?d" using len by simp
      moreover have "cursize ?send = cursize send" by simp
      ultimately have "drop (offset + ?hsz) (take (cursize ?send) (data ?send)) = drop offset P"
        using less.prems(7) by (simp only: drop_take)
      from arg_cong [OF this, of "drop k"] show ?thesis unfolding f(2) by (simp only: drop_drop add_ac)
    qed
    ultimately obtain n c' where "qw_frags sock 0 mtuseq w1 w2 (offset + k) NETERR_SENT
        (outbytes + int (length pk)) c1 ?send ?sent = Some (Inr (NETERR_SENT, n, c', ?sent @
        map (\<lambda>p. (remote_address c1, frag_pkt c1 w1 w2 P p)) (split_payload (mtu_cur c1 - qw_hsz c1) (length P) (offset + k))))"
      using less.hyps [of "offset + k" c1 ?send "outbytes + int (length pk)" ?sent] less.prems(8) by blast
    moreover have "frag_pkt c1 = frag_pkt chan" by (simp add: frag_pkt_def f(1) fun_eq_iff)
    ultimately show ?thesis
      using True eq split m(1) pk f(2,6,7) by simp
  next
    case False
    with eq split m(1) pk show ?thesis by simp
  qed
qed


section \<open>Receiving one fragment\<close>

text \<open>The sender of the datagram is the peer.\<close>

definition from_peer :: "netenv \<Rightarrow> netchan_t \<Rightarrow> bool" where
  "from_peer env chan \<longleftrightarrow> demoplayback env \<or> NET_CompareAdr (net_from env) (remote_address chan) = Inr True"

text \<open>A datagram arrives in \<open>net_message\<close>.\<close>

definition load :: "byte list \<Rightarrow> netread \<Rightarrow> netread" where
  "load pkt rd = rd\<lparr>msg_readmsg := (msg_readmsg rd)\<lparr>data := pkt @ drop (length pkt) (data (msg_readmsg rd)),
     cursize := length pkt\<rparr>\<rparr>"

lemma load_ok:
  assumes "net_message_ok (msg_readmsg rd)" and "length pkt \<le> MAX_OVERALLMSGLEN"
  shows "net_message_ok (msg_readmsg (load pkt rd))" "sz_content (msg_readmsg (load pkt rd)) = pkt"
  using assms by (simp_all add: net_message_ok_def load_def sz_content_def)

lemma process_header:
  assumes "has_words (sz_content (msg_readmsg rd)) w1 w2" and "taken_words chan w1 w2 = (s, a)"
    and "from_peer env chan" and "is_stunaware chan \<Longrightarrow> BigLong w1 AND ANTISTUNBIAS \<noteq> 0"
  shows "Netchan_Process env chan rd net_drop = process_words env s a (counted (msg_readmsg rd) chan)
      (set_bit_pos 64 (MSG_BeginReading rd (msg_readmsg rd) (nc_netprim chan))) net_drop"
proof -
  let ?m = "msg_readmsg rd"
  let ?rd = "MSG_BeginReading rd ?m (nc_netprim chan)"
  have len: "8 \<le> cursize ?m" "8 \<le> length (data ?m)"
    using assms(1) by (simp_all add: has_words_def sz_content_def)
  then have d: "take 8 (data ?m) = le32 w1 @ le32 w2"
    using assms(1) by (simp add: has_words_def sz_content_def min_def)
  have "take 4 (data ?m) = le32 w1" "take 4 (drop 4 (data ?m)) = le32 w2"
    using arg_cong [OF d, of "take 4"] arg_cong [OF d, of "drop 4"] by (simp_all add: take_drop)
  then have r1: "MSG_ReadLong ?rd = Inr (w1, set_bit_pos 32 ?rd)"
    and r2: "MSG_ReadLong (set_bit_pos 32 ?rd) = Inr (w2, set_bit_pos 64 ?rd)"
    using len MSG_ReadLong_le32 [of ?rd 0 w1] MSG_ReadLong_le32 [of "set_bit_pos 32 ?rd" 4 w2]
    by (simp_all add: MSG_BeginReading_def set_bit_pos_def)
  have same: "(if demoplayback env then Inr True else NET_CompareAdr (net_from env) (remote_address chan)) = Inr True"
    using assms(3) by (auto simp: from_peer_def)
  have st: "is_stunaware (counted ?m chan) = is_stunaware chan" by (simp add: counted_def)
  show ?thesis
    using assms(2,4) r1 r2 unfolding Netchan_Process_def Let_def counted_def [symmetric] same rbind_Inr
    by (cases "is_stunaware chan") (simp_all add: st taken_words_def)
qed

lemma process_words_new:
  assumes "plain chan" and "incoming_sequence chan < s AND NOT 0x80000000"
    and "read_offset chan rd = Inr (off, rd1)" and "confirm_mtu (a AND NOT 0x80000000) chan = Inr c1"
    and "take_payload off (s AND NOT 0x80000000) c1 rd1 = Inr (r, c2)" and "compresstable c2 = None"
  obtains "r = None" "process_words env s a chan rd nd = Inr (False, c2, rd1, nd)"
  | rd2 c3 nd3 where "r = Some rd2" "process_words env s a chan rd nd = Inr (True, c3, rd2, nd3)"
proof -
  let ?q = "s AND NOT 0x80000000" and ?v = "a AND NOT 0x80000000"
  have s: "s \<noteq> 0x80000000"
    using assms(2) by auto
  have q: "\<not> ?q \<le> incoming_sequence chan" using assms(2) by simp
  obtain c3 nd3 where p: "process_accept env False ?q ?v (drop_bit 31 s) (drop_bit 31 a) c2 = (c3, nd3)"
    by force
  then have c3: "compresstable c3 = None"
    using process_accept_in(2) [of env False ?q ?v "drop_bit 31 s" "drop_bit 31 a" c2] assms(6) by simp
  have "process_words env s a chan rd nd = rbind (read_offset chan rd) (\<lambda>(off, rd).
       rbind (confirm_mtu ?v chan) (\<lambda>chan.
         rbind (take_payload off ?q chan rd) (\<lambda>(ready, chan).
         case ready of None \<Rightarrow> Inr (False, chan, rd, nd)
         | Some rd \<Rightarrow>
             let (chan, nd) = process_accept env False ?q ?v (drop_bit 31 s) (drop_bit 31 a) chan in
             (case compresstable chan of None \<Rightarrow> Inr (True, chan, rd, nd)
              | Some hf \<Rightarrow> rbind (Huff_DecompressPacket hf (msg_readmsg rd) (MSG_GetReadCount rd)) (\<lambda>m.
                  Inr (True, chan, rd\<lparr>msg_readmsg := m\<rparr>, nd))))))"
    using s q by (simp only: process_words_def read_offset_def take_payload_def Let_def rbind_assoc
      simp_thms if_False if_True)
  then have "process_words env s a chan rd nd =
      (case r of None \<Rightarrow> Inr (False, c2, rd1, nd) | Some rd2 \<Rightarrow> Inr (True, c3, rd2, nd3))"
    unfolding assms(3-5) rbind_Inr prod.case Let_def
    by (cases r) (simp_all only: p c3 option.case prod.case assms(4,5) rbind_Inr)
  then show thesis using that by (cases r) simp_all
qed

lemma process_fragment_forward:
  assumes "rd_in rd" and "store_ok chan" and "8 dvd off" and "off < 4 * 65536" and "off + k \<le> MAX_OVERALLMSGLEN"
    and "length (unread rd) = k"
    and "if incoming_unreliable chan = q then in_fragment_length chan = off else off = 0"
  shows "\<exists>r c. process_fragment (frag_field off mf) q chan rd = Inr (r, c) \<and> (r = None \<longleftrightarrow> mf) \<and>
    (mf \<longrightarrow> incoming_unreliable c = q \<and> in_fragment_length c = off + k)"
proof -
  let ?m = "msg_readmsg rd"
  obtain pos where pos: "pos = MSG_GetReadCount rd" by simp
  obtain d where d: "d = (if incoming_unreliable chan \<noteq> q
      then chan\<lparr>in_fragment_length := 0, incoming_unreliable := q\<rparr> else chan)" by simp
  have d': "in_fragment_length d = off" "incoming_unreliable d = q" "length (in_fragment_buf d) = MAX_OVERALLMSGLEN"
    using assms(2,7) by (auto simp: d store_ok_def split: if_splits)
  have m: "length (data ?m) = MAX_OVERALLMSGLEN" "cursize ?m \<le> MAX_OVERALLMSGLEN" "pos \<le> cursize ?m"
    using assms(1) by (auto simp: rd_in_def net_message_ok_def pos MSG_GetReadCount_def)
  have k: "cursize ?m - pos = k"
    using assms(6) m by (simp add: unread_def sz_content_def pos)
  note bits = frag_field_bits [OF assms(3,4), of mf]
  have off: "4 * unat (frag_field off mf AND NOT 1) = off"
    using assms(3) bits frag_units [OF assms(4)] by simp presburger
  have more: "(frag_field off mf AND 1 \<noteq> 0) = mf" using bits by simp
  have room: "\<not> off + k > MAX_OVERALLMSGLEN" "\<not> pos + k > length (data ?m)"
    using assms(5) m k by simp_all
  obtain buf where buf: "pokes off (take k (drop pos (data ?m))) (in_fragment_buf d) = Inr buf"
    "length buf = MAX_OVERALLMSGLEN"
    using assms(5) d'(3) m k by (simp add: pokes_Inr)
  obtain m' where m': "sz_puts 0 (take (off + k) buf) ?m = Inr m'"
    using sz_puts_in [of 0 "take (off + k) buf" ?m] buf(2) m(1) by auto
  have "process_fragment (frag_field off mf) q chan rd =
      (if mf then Inr (None, d\<lparr>in_fragment_buf := buf, in_fragment_length := off + k\<rparr>)
       else Inr (Some (rd\<lparr>msg_readmsg := m'\<lparr>currentbit := 0, cursize := off + k\<rparr>\<rparr>),
             clear_fragments (d\<lparr>in_fragment_buf := buf, in_fragment_length := off + k\<rparr>)))"
    using room d' m' buf(1)
    by (simp only: process_fragment_def Let_def off more k pos [symmetric] d [symmetric])
      (simp cong: if_cong)
  with d' show ?thesis by simp
qed


text \<open>
  What the receiver \<open>b\<close> must satisfy to go on with the packet \<open>q\<close> at byte \<open>off\<close>: it has accepted no
  later packet, and has gathered the bytes before \<open>off\<close>.
\<close>

definition expects :: "netchan_t \<Rightarrow> netenv \<Rightarrow> int32 \<Rightarrow> nat \<Rightarrow> netchan_t \<Rightarrow> bool" where
  "expects a env q off b \<longleftrightarrow> plain b \<and> peers a b \<and> store_ok b \<and> from_peer env b \<and> mtu_min b \<le> mtu_cur b \<and>
     incoming_sequence b < q \<and>
     (if incoming_unreliable b = q then in_fragment_length b = off else off = 0)"

lemma receive_piece:
  assumes "expects a env q off b" and "is_fragable a" and "pieces_inv Ps b" and "Ps q = Some P"
    and "taken_words b w1 w2 = (s, v)" and "q = s AND NOT 0x80000000"
    and "is_stunaware b \<Longrightarrow> BigLong w1 AND ANTISTUNBIAS \<noteq> 0"
    and "net_message_ok (msg_readmsg rd)" and "sz_content (msg_readmsg rd) = frag_pkt a w1 w2 P (off, k, mf)"
    and "8 dvd off" and "off + k \<le> length P" and "mf \<or> off + k = length P" and "length P \<le> MAX_OVERALLMSGLEN"
  shows "\<exists>b' rd' nd'. Netchan_Process env b rd nd = Inr (\<not> mf, b', rd', nd') \<and>
    (if mf then expects a env q (off + k) b' \<and> taken_words b' = taken_words b \<and> pieces_inv Ps b' \<and>
       is_stunaware b' = is_stunaware b \<and> core b' = core b
     else unread rd' = P \<and> core b' = accepted s v (core b)) \<and> net_message_ok (msg_readmsg rd')"
proof -
  let ?m = "msg_readmsg rd" and ?b = "counted (msg_readmsg rd) b"
  let ?rd = "set_bit_pos 64 (MSG_BeginReading rd ?m (nc_netprim b))"
  let ?fo = "frag_field off mf" and ?v = "v AND NOT 0x80000000"
  have b: "plain b" "peers a b" "store_ok b" "from_peer env b" "incoming_sequence b < q" "mtu_min b \<le> mtu_cur b"
    "if incoming_unreliable b = q then in_fragment_length b = off else off = 0"
    using assms(1) by (simp_all add: expects_def)
  have small: "off < 4 * 65536" "length P < 4 * 65536"
    using assms(11,13) by (simp_all add: MAX_OVERALLMSGLEN_def)
  have pkt: "sz_content ?m = header_bytes a w1 w2 ?fo @ take k (drop off P)"
    using assms(9) by (simp add: frag_pkt_def)
  have fo: "frag_of a w1 w2 P (sz_content ?m)"
    unfolding frag_of_def pkt frag_field_def using assms(2,10-12) by blast
  have nm: "cursize ?m \<le> length (data ?m)" "length (data ?m) = MAX_OVERALLMSGLEN" "cursize ?m \<le> MAX_OVERALLMSGLEN"
    using assms(8) by (simp_all add: net_message_ok_def)
  have qp: "qps_ok a" using b(2) by (simp add: peers_def)
  have hw: "has_words (sz_content ?m) w1 w2" using fo by (rule frag_of_has_words)
  note eq = process_header [OF hw assms(5) b(4) assms(7), of nd]
  have kb: "kept ?b = kept b" by simp
  have b1: "plain ?b" "store_ok ?b" "compresstable ?b = None" "incoming_sequence ?b < s AND NOT 0x80000000"
    "incoming_unreliable ?b = incoming_unreliable b" "in_fragment_length ?b = in_fragment_length b"
    using b assms(6) by (simp_all add: counted_def plain_def store_ok_def)
  have cs: "cursize ?m = qw_hsz a + k"
    using arg_cong [OF pkt, of length] nm assms(11) qp by (simp add: sz_content_def)
  have r0: "rd_in ?rd"
    using assms(8) cs by (auto simp: rd_in_def net_message_ok_def MSG_BeginReading_def set_bit_pos_def qw_hsz_def)
  have "peers a ?b" using b(2) peers_settings [of a a ?b b] by simp
  then have ro: "read_offset ?b ?rd = Inr (?fo, set_bit_pos (8 * qw_hsz a) ?rd)"
    using read_offset_header [of a ?b ?rd w1 w2 ?fo "take k (drop off P)"] pkt nm assms(2)
      frag_field_bits(3) [OF assms(10) small(1)]
    by (simp add: MSG_BeginReading_def set_bit_pos_def sz_content_def)
  obtain rd1 where rd1: "rd1 = set_bit_pos (8 * qw_hsz a) ?rd" by simp
  have r1: "rd_in rd1"
    using assms(8) cs unfolding rd1
    by (auto simp: rd_in_def net_message_ok_def MSG_BeginReading_def set_bit_pos_def)
  have un: "unread rd1 = take k (drop off P)"
  proof -
    have "unread rd1 = drop (qw_hsz a) (sz_content ?m)"
      by (simp add: rd1 unread_def MSG_GetReadCount_def MSG_BeginReading_def set_bit_pos_def sz_content_def)
    then show ?thesis using pkt qp by simp
  qed
  obtain c1 where c1: "confirm_mtu ?v ?b = Inr c1" "store_ok c1" "compresstable c1 = None"
    using confirm_mtu_in [OF b1(2), of ?v] b1(3) by auto
  have k1: "incoming_unreliable c1 = incoming_unreliable b" "in_fragment_length c1 = in_fragment_length b"
    using confirm_mtu_kept [OF c1(1)] b1(5,6) by (simp_all add: kept_def)
  obtain r c2 where c2: "take_payload ?fo (s AND NOT 0x80000000) c1 rd1 = Inr (r, c2)"
    "r = None \<longleftrightarrow> mf" "mf \<longrightarrow> incoming_unreliable c2 = q \<and> in_fragment_length c2 = off + k"
    "compresstable c2 = None" "store_ok c2" "\<forall>rd'. r = Some rd' \<longrightarrow> rd_in rd'"
  proof (cases "?fo = 0")
    case True
    then have "\<not> mf" using frag_field_zero [OF assms(10) small(1)] by simp
    with True r1 clear_fragments_in [of c1] c1 show thesis by (intro that) (auto simp: take_payload_def)
  next
    case False
    have "if incoming_unreliable c1 = q then in_fragment_length c1 = off else off = 0"
      using b(7) k1 by simp
    moreover have "length (unread rd1) = k" using un assms(11) by simp
    moreover have "off + k \<le> MAX_OVERALLMSGLEN" using assms(11,13) by simp
    ultimately obtain r c where f: "process_fragment ?fo q c1 rd1 = Inr (r, c)" "r = None \<longleftrightarrow> mf"
      "mf \<longrightarrow> incoming_unreliable c = q \<and> in_fragment_length c = off + k"
      using process_fragment_forward [OF r1 c1(2) assms(10) small(1)] by blast
    moreover have "compresstable c = None" "store_ok c" "\<forall>rd'. r = Some rd' \<longrightarrow> rd_in rd'"
      using process_fragment_in [OF c1(2) r1, of ?fo q] f(1) c1(3) by auto
    ultimately show thesis using False assms(6) by (intro that) (simp_all add: take_payload_def)
  qed
  from process_words_new [where env = env and nd = nd, OF b1(1,4) ro c1(1) c2(1) [unfolded rd1] c2(4)]
  obtain b' rd' nd' where pw: "process_words env s v ?b ?rd nd = Inr (\<not> mf, b', rd', nd')"
    and mb: "mf \<Longrightarrow> b' = c2 \<and> rd' = rd1"
    using c2(2) by (metis (full_types) option.distinct(1) rd1)
  then have np: "Netchan_Process env b rd nd = Inr (\<not> mf, b', rd', nd')" using eq by simp
  have rdo: "net_message_ok (msg_readmsg rd')"
    using process_words_in [OF b1(2) r0 b1(3), of env s v nd] pw by (auto simp: rd_in_def)
  have Pq: "Ps (s AND NOT 0x80000000) = Some P" using assms(4,6) by simp
  note pc = process_content [OF np b(1,2) fo assms(5) small(2) nm(1) assms(3) Pq]
  show ?thesis
  proof (cases mf)
    case True
    have pwc: "settings b' = settings ?b \<and> (mtu_min ?b \<le> mtu_cur ?b \<longrightarrow> mtu_min b' \<le> mtu_cur b') \<and> core b' = core ?b"
      using process_words_core [OF pw b1(1)] True by simp
    then have st: "settings b' = settings b" "core b' = core b" "mtu_min b' \<le> mtu_cur b'" using b(6) by simp_all
    have "incoming_sequence b' = incoming_sequence b" using arg_cong [OF st(2), of c_in] by simp
    then have "expects a env q (off + k) b'"
      using b True mb c2(3,5) st(3) settings_plain [OF st(1)] peers_settings [OF refl st(1)] settings_eqs(2) [OF st(1)]
      by (simp add: expects_def from_peer_def)
    moreover have "is_stunaware b' = is_stunaware b" using settings_eqs(1) [OF st(1)] by simp
    ultimately show ?thesis
      using np rdo pc True taken_words_settings [OF st(1)] st(2) by auto
  next
    case False
    with process_words_core [OF pw b1(1)] have "core b' = accepted s v (core b)" by simp
    with np rdo pc False show ?thesis by auto
  qed
qed

section \<open>Receiving a whole packet\<close>

text \<open>The datagrams are received one after the other; the payloads handed over are collected.\<close>

fun deliver :: "netenv \<Rightarrow> netchan_t \<Rightarrow> netread \<Rightarrow> int32 \<Rightarrow> byte list list \<Rightarrow>
    (byte list list \<times> netchan_t \<times> netread \<times> int32) res" where
  "deliver env chan rd nd [] = Inr ([], chan, rd, nd)"
| "deliver env chan rd nd (pkt # pkts) =
     rbind (Netchan_Process env chan (load pkt rd) nd) (\<lambda>(ok, chan, rd, nd).
     rbind (deliver env chan rd nd pkts) (\<lambda>(got, r). Inr (if ok then unread rd # got else got, r)))"

lemma deliver_split:
  assumes "8 \<le> m" and "off \<le> length P" and "8 dvd off" and "length P + 12 \<le> MAX_OVERALLMSGLEN"
    and "is_fragable a" and "Ps q = Some P" and "q = s AND NOT 0x80000000"
    and "expects a env q off b" and "pieces_inv Ps b" and "taken_words b w1 w2 = (s, v)"
    and "is_stunaware b \<Longrightarrow> BigLong w1 AND ANTISTUNBIAS \<noteq> 0" and "net_message_ok (msg_readmsg rd)"
  shows "\<exists>b' rd' nd'. deliver env b rd nd (map (frag_pkt a w1 w2 P) (split_payload m (length P) off)) =
    Inr ([P], b', rd', nd') \<and> core b' = accepted s v (core b)"
  using assms
proof (induction m "length P" off arbitrary: b rd nd rule: split_payload.induct)
  case (1 m off)
  obtain k mf where k: "mf = (off + m < length P)"
    "k = (if mf then off + m - (off + m) mod 8 - off else length P - off)" by simp
  have lo: "off < off + m - (off + m) mod 8" using next_cut [OF "1.prems"(1)] .
  have kP: "off + k \<le> length P" "mf \<or> off + k = length P" using k lo "1.prems"(2) by auto
  have split: "split_payload m (length P) off =
      (off, k, mf) # (if mf then split_payload m (length P) (off + k) else [])"
    using "1.prems"(1) lo by (subst split_payload.simps) (simp add: k Let_def)
  let ?pkt = "frag_pkt a w1 w2 P (off, k, mf)"
  have "qps_ok a" using "1.prems"(8) by (simp add: expects_def peers_def)
  then have "length ?pkt = qw_hsz a + k" "qw_hsz a \<le> 12"
    using kP(1) by (simp_all add: frag_pkt_def qw_hsz_def qps_ok_def)
  then have "length ?pkt \<le> MAX_OVERALLMSGLEN" using kP(1) "1.prems"(4) by simp
  note ld = load_ok [OF "1.prems"(12) this]
  have "length P \<le> MAX_OVERALLMSGLEN" using "1.prems"(4) by simp
  from receive_piece [OF "1.prems"(8,5,9,6,10,7,11) ld "1.prems"(3) kP this, of nd]
  obtain b1 rd1 nd1 where p: "Netchan_Process env b (load ?pkt rd) nd = Inr (\<not> mf, b1, rd1, nd1)"
    "if mf then expects a env q (off + k) b1 \<and> taken_words b1 = taken_words b \<and> pieces_inv Ps b1 \<and>
       is_stunaware b1 = is_stunaware b \<and> core b1 = core b
     else unread rd1 = P \<and> core b1 = accepted s v (core b)"
    "net_message_ok (msg_readmsg rd1)" by blast
  show ?case
  proof (cases mf)
    case True
    then have nx: "off + k = off + m - (off + m) mod 8" using k lo by simp
    have cond: "\<not> (m < 8 \<or> length P \<le> off + m)" using True k "1.prems"(1) by simp
    have "8 dvd off + k" unfolding nx by (rule dvd_minus_mod)
    then obtain b2 rd2 nd2 where "deliver env b1 rd1 nd1 (map (frag_pkt a w1 w2 P) (split_payload m (length P) (off + k))) =
        Inr ([P], b2, rd2, nd2) \<and> core b2 = accepted s v (core b)"
      using "1.hyps" [OF cond nx "1.prems"(1) kP(1) _ "1.prems"(4-7), of b1 rd1 nd1] p(2,3) "1.prems"(10,11) True by auto
    with p(1) True show ?thesis by (simp add: split)
  next
    case False
    with p show ?thesis by (simp add: split)
  qed
qed


section \<open>A transmission over a perfect network\<close>

text \<open>The reliable bytes of the next packet.\<close>

definition goes_reliable :: "netchan_t \<Rightarrow> bool" where
  "goes_reliable chan \<longleftrightarrow> takes_new chan \<or> reliable_dropped chan"

definition next_reliable :: "netchan_t \<Rightarrow> byte list" where
  "next_reliable chan =
     (if takes_new chan then sz_content (message chan)
      else if reliable_dropped chan then reliable_bytes chan else [])"

definition next_length :: "netchan_t \<Rightarrow> nat" where
  "next_length chan = (if takes_new chan then cursize (message chan)
     else if reliable_dropped chan then reliable_length chan else 0)"

lemma bias_bit: "\<not> bit w 30 \<Longrightarrow> (w + ANTISTUNBIAS) AND ANTISTUNBIAS \<noteq> 0" for w :: int32
proof -
  assume w: "\<not> bit w 30"
  have p: "ANTISTUNBIAS = push_bit 30 1" by (simp add: ANTISTUNBIAS_def)
  have "w + ANTISTUNBIAS = w OR ANTISTUNBIAS"
    unfolding p by (rule disjunctive_add, simp only: bit_simps) (auto simp: w)
  then have "bit ((w + ANTISTUNBIAS) AND ANTISTUNBIAS) 30"
    unfolding p by (simp only: bit_simps) simp
  then show ?thesis by auto
qed

lemma seq_words:
  assumes "unat (outgoing_sequence a) < 2 ^ 30" and "is_stunaware a = is_stunaware b"
    and "qw_words a rel = (w1, w2)" and "taken_words b w1 w2 = (s, v)"
  shows "s AND NOT 0x80000000 = outgoing_sequence a"
    "is_stunaware b \<Longrightarrow> BigLong w1 AND ANTISTUNBIAS \<noteq> 0"
    "drop_bit 31 s = of_bool rel"
proof -
  let ?o = "outgoing_sequence a"
  have s: "s = ?o OR push_bit 31 (of_bool rel)"
    using words_received [OF assms(3,2)] assms(4) by simp
  have lt: "unat ?o < 2 ^ 31" using assms(1) by simp
  from flagged_word [OF lt, of rel] show "s AND NOT 0x80000000 = ?o" "drop_bit 31 s = of_bool rel"
    unfolding s by simp_all
  have "\<not> bit ?o 30"
  proof
    assume "bit ?o 30"
    moreover have "take_bit 30 ?o = ?o"
      using assms(1) by (intro word_unat_eq_iff [THEN iffD2]) (simp only: unsigned_take_bit_eq take_bit_nat_eq_self)
    ultimately have "bit (take_bit 30 ?o) 30" by simp
    then show False by (simp add: bit_take_bit_iff)
  qed
  then have "\<not> bit (?o OR push_bit 31 (of_bool rel)) 30" by (simp only: bit_simps) simp
  from bias_bit [OF this] show "BigLong w1 AND ANTISTUNBIAS \<noteq> 0" if "is_stunaware b"
    using that assms(2,3) by (auto simp: qw_words_def Let_def)
qed

lemma packet_written:
  assumes "SZ_Write s bs = Inr s'" and "packet_in s"
  shows "packet_in s'"
proof -
  have "cursize s + length bs \<le> maxsize s"
    using assms by (auto simp: SZ_Write_def SZ_GetSpace_def packet_in_def sz_in_def split: if_splits)
  from packet_write [OF assms(2) this] assms(1) show ?thesis by simp
qed

lemma qw_probe_packet:
  assumes "qw_probe env rel chan send = Inr (p, c, send')" and "packet_in send"
  shows "packet_in send' \<and> dupe c = dupe chan"
proof -
  obtain d where d: "d = qw_reprobe env chan" by simp
  then have "dupe d = dupe chan" by (simp add: qw_reprobe_def)
  moreover have "(c = d \<and> send' = send) \<or> (\<exists>n v. SZ_Write send (replicate n v) = Inr send' \<and>
      c = d\<lparr>mtu_probes := mtu_probes d + 1, outgoing_mtu_probe := outgoing_sequence d,
            mtu_reprobetime := realtime env + 30\<rparr>)"
    using assms(1) unfolding qw_probe_def Let_def sz_fill_write d [symmetric]
    by (auto simp: rbind_eq_Inr split: if_splits)
  ultimately show ?thesis using assms(2) packet_written by auto
qed

lemma qw_finish_payload:
  assumes "qw_finish env rel payload chan send = Inr (p, c, send')" and "packet_in send"
    and "compresstable chan = None" and "cursize send + length payload \<le> maxsize send"
  shows "\<exists>pad. sz_content send' = sz_content send @ payload @ pad" "packet_in send'" "dupe c = dupe chan"
proof -
  let ?N = "MAX_OVERALLMSGLEN + PACKET_HEADER"
  have "int (maxsize send) - int (cursize send) \<ge> int (length payload)" using assms(4) by linarith
  moreover have w: "SZ_Write send payload = Inr (sz_append send payload)" "packet_in (sz_append send payload)"
    using packet_write [OF assms(2,4)] by simp_all
  ultimately obtain q d s2 where pr: "qw_probe env rel (qw_blackhole chan) (sz_append send payload) = Inr (q, d, s2)"
    and f: "(case compresstable d of None \<Rightarrow> Inr (q, d, s2)
      | Some hf \<Rightarrow> rbind (Huff_CompressPacket hf (replicate HUFF_MAX 0) s2
           (8 + (if is_client d then 2 else 0) + (if is_fragable d then 2 else 0))) (\<lambda>send.
         Inr (q, d, send))) = Inr (p, c, send')"
    using assms(1) unfolding qw_finish_def by (auto simp: rbind_eq_Inr)
  have sz: "sz_in ?N (sz_append send payload)" using w(2) by (simp add: packet_in_def)
  have c: "sz_content (sz_append send payload) = sz_content send @ payload"
    using SZ_Write_in [OF w(1), of ?N] assms(2) by (simp add: packet_in_def)
  from qw_probe_frame [OF pr sz] qw_blackhole_frame [of chan]
  have "kept d = kept chan" "\<exists>pad. sz_content s2 = sz_content (sz_append send payload) @ pad"
    by (simp_all add: same_but_mtu_def)
  moreover from this(1) have "compresstable d = None" using assms(3) by (simp add: kept_def settings_def)
  ultimately show "\<exists>pad. sz_content send' = sz_content send @ payload @ pad" "packet_in send'" "dupe c = dupe chan"
    using f c qw_probe_packet [OF pr w(2)] by (auto simp: qw_blackhole_def)
qed


text \<open>The packet that is put together, with its content.\<close>

lemma qw_packet_content:
  assumes "length buf = MAX_OVERALLMSGLEN + PACKET_HEADER" and "qps_ok chan" and "is_fragable chan"
    and "qw_hsz chan + mtu_max chan \<le> MAX_OVERALLMSGLEN - 100" and "compresstable chan = None"
    and "qw_words chan rel = (w1, w2)" and "R = (if rel then reliable_bytes chan else [])"
    and "rel \<longrightarrow> reliable_length chan \<le> length (reliable_buf chan)"
    and "qw_hsz chan + length R + length payload \<le> MAX_OVERALLMSGLEN - 100"
  shows "\<exists>p c send pad. qw_packet env buf rel payload chan = Inr (Inr (p, c, send)) \<and>
    sz_content send = header_bytes chan w1 w2 0 @ R @ payload @ pad \<and> cursize send \<le> MAX_OVERALLMSGLEN - 100 \<and>
    dupe c = dupe chan"
proof -
  let ?N = "MAX_OVERALLMSGLEN + PACKET_HEADER"
  obtain c0 where c0: "c0 = qw_forget_gaps chan" by simp
  have k0: "kept c0 = kept chan" "core c0 = core chan" "dupe c0 = dupe chan"
    using qw_forget_gaps_frame(1) [of chan]
    by (simp_all add: same_but_mtu_def c0 qw_forget_gaps_def split_beta)
  let ?c1 = "c0\<lparr>outgoing_sequence := outgoing_sequence c0 + 1\<rparr>"
  have k1: "kept ?c1 = kept chan" "lean chan ?c1" "reliable_bytes ?c1 = reliable_bytes chan"
    using k0(1) qw_forget_gaps_lean [of chan]
    by (simp_all add: kept_def settings_def lean_def reliable_bytes_def c0 qw_forget_gaps_def split_beta)
  have f0: "is_fragable c0" "qps_ok c0" "qw_hsz c0 = qw_hsz chan"
    using kept_eqs [OF k0(1)] kept_hsz [OF k0(1)] assms(2,3) by (simp_all add: qps_ok_def)
  obtain s0 where s0: "qw_header buf rel c0 = Inr s0" "packet_in s0" "cursize s0 = qw_hsz chan"
    using qw_header_total [OF assms(1) f0(2,1), of rel] f0(3) by auto
  have cont0: "sz_content s0 = header_bytes chan w1 w2 0"
    using qw_header_in [OF s0(1), of w1 w2] assms(6) by (simp add: c0 qw_forget_gaps_frame)
  have mx: "maxsize s0 = MAX_OVERALLMSGLEN - 100" using s0(2) by (simp add: packet_in_def)
  have lenR: "rel \<Longrightarrow> length R = reliable_length chan"
    using assms(7,8) by (simp add: reliable_bytes_def)
  have "\<exists>c2 s2. qw_add_reliable rel ?c1 s0 = Inr (Some (c2, s2)) \<and> cursize s2 = cursize s0 + length R \<and>
    dupe c2 = dupe chan"
  proof (cases rel)
    case True
    have "cursize s0 + length R \<le> maxsize s0" using assms(9) s0(3) mx by simp
    from packet_write [OF s0(2) this] have w: "SZ_Write s0 (reliable_bytes chan) = Inr (sz_append s0 R)"
      using True assms(7) by simp
    have fit: "\<not> int (maxsize s0) - int (cursize s0) < int (reliable_length chan)"
      using \<open>cursize s0 + length R \<le> maxsize s0\<close> lenR [OF True] by linarith
    have rl: "reliable_length ?c1 = reliable_length chan"
      "take (reliable_length chan) (reliable_buf c0) = reliable_bytes chan"
      by (simp_all add: c0 qw_forget_gaps_def split_beta reliable_bytes_def)
    show ?thesis
      using True w fit rl k0(3) by (auto simp: qw_add_reliable_def Let_def)
  next
    case False
    with assms(7) k0(3) show ?thesis by (auto simp: qw_add_reliable_def)
  qed
  then obtain c2 s2 where a: "qw_add_reliable rel ?c1 s0 = Inr (Some (c2, s2))"
    "cursize s2 = cursize s0 + length R" "dupe c2 = dupe chan" by blast
  have p2: "packet_in s2"
    using qw_add_reliable_total [OF s0(2), of rel ?c1] a(1) by auto
  have l2: "lean chan c2" using lean_trans [OF k1(2) qw_add_reliable_lean [OF a(1)]] .
  note core2 = qw_add_reliable_core [OF a(1), of ?N]
  have k2: "kept c2 = kept chan" and cont2: "sz_content s2 = sz_content s0 @ R"
    using core2 s0(2) k1 assms(7) by (auto simp: packet_in_def)
  have hz: "qw_hsz c2 + mtu_max c2 \<le> MAX_OVERALLMSGLEN - 100" "compresstable c2 = None"
    using assms(4,5) kept_hsz [OF k2] l2 k2 by (simp_all add: lean_def kept_def settings_def)
  obtain p c send where f: "qw_finish env rel payload c2 s2 = Inr (p, c, send)"
    using qw_finish_total [OF p2 hz] by blast
  have "cursize s2 + length payload \<le> maxsize s2"
    using a(2) s0(3) assms(9) p2 by (simp add: packet_in_def)
  note fin = qw_finish_payload [OF f p2 hz(2) this]
  from fin(1) obtain pad where "sz_content send = sz_content s2 @ payload @ pad" by blast
  moreover have "cursize send \<le> MAX_OVERALLMSGLEN - 100" "dupe c = dupe c2"
    using fin(2,3) by (simp_all add: packet_in_def)
  moreover have "qw_packet env buf rel payload chan = Inr (Inr (p, c, send))"
    using s0(1) a(1) f by (simp add: qw_packet_def c0 [symmetric] Let_def)
  ultimately show ?thesis using cont0 cont2 a(3) by auto
qed


text \<open>The datagrams of a packet when every one is sent once.\<close>

lemma qw_datagrams_perfect:
  assumes "always_sent sock" and "\<not> demoplayback env" and "dupe chan = 0" and "0 \<le> av"
    and "is_fragable chan" and "qps_ok chan" and "mtu_ok chan" and "sz_in N send"
    and "sz_content send = header_bytes chan w1 w2 0 @ P"
  shows "\<exists>m e n c. 8 \<le> m \<and> qw_datagrams env sock av probe mtuseq (w1, w2) chan send sent =
    Some (Inr (e, n, c, sent @ map (\<lambda>p. (remote_address chan, frag_pkt chan w1 w2 P p)) (split_payload m (length P) 0)))"
proof -
  have sz: "cursize send = qw_hsz chan + length P" "take (cursize send) (data send) = header_bytes chan w1 w2 0 @ P"
    using arg_cong [OF assms(9), of length] assms(6,8,9) by (simp_all add: sz_content_def sz_in_def)
  have d: "min (dupe chan) (av div int (cursize send)) = 0"
    using assms(3,4) pos_imp_zdiv_nonneg_iff [of "int (cursize send)" av] sz(1) by (simp add: qw_hsz_def)
  show ?thesis
  proof (cases probe)
    case True
    have "split_payload (8 + length P) (length P) 0 = [(0, length P, False)]"
      by (subst split_payload.simps) simp
    moreover have "frag_pkt chan w1 w2 P (0, length P, False) = sz_content send"
      using assms(9) by (simp add: frag_pkt_def frag_field_def)
    moreover have "send_dupes sock (remote_address chan) (sz_content send) (-1) 0 NETERR_SENT sent =
        (0, NETERR_SENT, sent @ [(remote_address chan, sz_content send)])"
      using assms(1) by (simp add: send_dupes.simps NET_SendPacket_def always_sent_def)
    ultimately have "\<exists>e n c. qw_datagrams env sock av probe mtuseq (w1, w2) chan send sent =
        Some (Inr (e, n, c, sent @ map (\<lambda>p. (remote_address chan, frag_pkt chan w1 w2 P p))
          (split_payload (8 + length P) (length P) 0)))"
      using True assms(2) d by (simp add: qw_datagrams_def qw_send_whole_def Let_def)
    moreover have "8 \<le> 8 + length P" by simp
    ultimately show ?thesis by blast
  next
    case False
    have "8 \<le> mtu_cur chan - qw_hsz chan" using assms(7) by (auto simp: mtu_ok_def)
    moreover have "\<exists>n c. qw_frags sock 0 mtuseq w1 w2 0 NETERR_SENT 0 chan send sent =
      Some (Inr (NETERR_SENT, n, c, sent @ map (\<lambda>p. (remote_address chan, frag_pkt chan w1 w2 P p))
        (split_payload (mtu_cur chan - qw_hsz chan) (length P) 0)))"
      using sz assms(6) by (intro qw_frags_perfect [OF assms(5-8)]) (simp_all add: assms(1))
    ultimately show ?thesis
      using False assms(2,5) d unfolding qw_datagrams_def by auto
  qed
qed


lemma xor_one [simp]: "(w XOR 1 = w) = False" for w :: int32
proof -
  have "bit (w XOR 1) 0 \<noteq> bit w 0" by (simp only: bit_simps) simp
  then show ?thesis by metis
qed

text \<open>
  What one transmission sends over sockets that take everything: the fragments of one payload, which
  begins with the reliable bytes due and the payload given.
\<close>

lemma transmit_sends:
  assumes "chan_ok a" and "always_sent sock" and "\<not> demoplayback env" and "dupe a = 0"
    and "\<not> overflowed (message a)" and "length buf = MAX_OVERALLMSGLEN + PACKET_HEADER"
    and "qw_hsz a + next_length a + length payload \<le> MAX_OVERALLMSGLEN - 100"
  shows "\<exists>n a' m w1 w2 P pad c. 8 \<le> m \<and> Netchan_Transmit env sock buf a payload rate sent =
      Some (Inr (n, a', sent @ map (\<lambda>p. (remote_address a, frag_pkt a w1 w2 P p)) (split_payload m (length P) 0))) \<and>
    P = next_reliable a @ payload @ pad \<and> length P + 12 \<le> MAX_OVERALLMSGLEN \<and>
    qw_words c (goes_reliable a) = (w1, w2) \<and> outgoing_sequence c = outgoing_sequence a \<and>
    is_stunaware c = is_stunaware a"
proof -
  have nq: "\<not> isnqprotocol a" and nc: "compresstable a = None"
    and na: "\<not> NET_AddrIsReliable (remote_address a)" and fr: "is_fragable a"
    and qp: "qps_ok a" and mo: "mtu_ok a" and st: "store_ok a"
    and mx: "qw_hsz a + mtu_max a \<le> MAX_OVERALLMSGLEN - 100"
    using assms(1) by (simp_all add: chan_ok_def plain_def)
  obtain rel c where r: "qw_reliable a = Inr (rel, c)" and lc: "lean a c" and sc: "store_ok c"
    using qw_reliable_in [OF st] by blast
  note rc = qw_reliable_core [OF r]
  have rel: "rel = goes_reliable a" and kc: "kept c = kept a" and mc: "mtu_cur c = mtu_cur a"
    using rc by (simp_all add: goes_reliable_def)
  have dc: "dupe c = 0" "outgoing_sequence c = outgoing_sequence a"
    using r assms(4) by (auto simp: qw_reliable_def Let_def rbind_eq_Inr split: if_splits)
  have R: "next_reliable a = (if rel then reliable_bytes c else [])"
    using rc st by (cases "takes_new a") (simp_all add: next_reliable_def store_ok_def)
  have Rl: "length (next_reliable a) \<le> next_length a"
    by (simp add: next_reliable_def next_length_def sz_content_def reliable_bytes_def)
  have ca: "compresstable c = None" "\<not> NET_AddrIsReliable (remote_address c)" "qps_ok c" "mtu_ok c" "is_fragable c"
    "qw_hsz c = qw_hsz a" "remote_address c = remote_address a"
    using kc mc nc na qp mo fr kept_hsz [OF kc]
    by (simp_all add: kept_def settings_def qps_ok_def mtu_ok_def)
  have mx': "qw_hsz c + mtu_max c \<le> MAX_OVERALLMSGLEN - 100" using mx lc ca(6) by (simp add: lean_def)
  obtain w1 w2 where w: "qw_words c rel = (w1, w2)" by force
  let ?mseq = "outgoing_sequence c AND 63" and ?av = "max 0 (Netchan_CanBytes env c rate)"
  have fits: "qw_hsz c + length (next_reliable a) + length payload \<le> MAX_OVERALLMSGLEN - 100"
    using Rl assms(7) ca(6) by simp
  have rl: "rel \<longrightarrow> reliable_length c \<le> length (reliable_buf c)" using sc by (simp add: store_ok_def)
  obtain p d send pad where x: "qw_packet env buf rel payload c = Inr (Inr (p, d, send))"
    and cont: "sz_content send = header_bytes c w1 w2 0 @ next_reliable a @ payload @ pad"
    and cs: "cursize send \<le> MAX_OVERALLMSGLEN - 100" and dd: "dupe d = dupe c"
    using qw_packet_content [OF assms(6) ca(3,5) mx' ca(1) w R rl fits, of env] by blast
  note pk = qw_packet_core [OF x ca(1) w]
  let ?P = "next_reliable a @ payload @ pad"
  have d: "qps_ok d" "mtu_ok d" "is_fragable d" "remote_address d = remote_address a" "header_bytes d = header_bytes a"
    using pk(1,2) ca(3-5,7) kept_hsz [OF pk(1)] kept_eqs [OF pk(1)] kept_eqs [OF kc]
    by (auto simp: kept_def settings_def qps_ok_def mtu_ok_def fun_eq_iff header_bytes_def qport_bytes_def)
  have hc: "header_bytes c = header_bytes a"
    using kept_eqs [OF kc] by (auto simp: fun_eq_iff header_bytes_def qport_bytes_def)
  have fp: "frag_pkt d = frag_pkt a" by (simp add: frag_pkt_def d(5) fun_eq_iff)
  from qw_datagrams_perfect [OF assms(2,3) _ _ d(3,1,2) pk(4), of ?av w1 w2 ?P p ?mseq sent]
  obtain m e n f where m: "8 \<le> m" and dg: "qw_datagrams env sock ?av p ?mseq (w1, w2) d send sent =
      Some (Inr (e, n, f, sent @ map (\<lambda>p. (remote_address a, frag_pkt a w1 w2 ?P p)) (split_payload m (length ?P) 0)))"
    using dd dc(1) cont d(4) fp d(5) hc by auto
  have "Netchan_Transmit env sock buf a payload rate sent = Some (Inr (n, qw_account env rel rate e n f,
      sent @ map (\<lambda>p. (remote_address a, frag_pkt a w1 w2 ?P p)) (split_payload m (length ?P) 0)))"
    using nq assms(5) r x qw_kexlan_unreliable [OF ca(2)] w dg
    by (simp add: Netchan_Transmit_def transmit_qw_def Let_def)
  moreover have "length (sz_content send) \<le> MAX_OVERALLMSGLEN - 100" using cs by (simp add: sz_content_def)
  then have "length ?P + 12 \<le> MAX_OVERALLMSGLEN"
    unfolding cont by (simp add: MAX_OVERALLMSGLEN_def)
  moreover have "is_stunaware c = is_stunaware a" using kept_eqs(1) [OF kc] by simp
  ultimately show ?thesis using m w rel dc(2) by blast
qed

lemma words_deliver:
  assumes "expects a envb (outgoing_sequence c) 0 b" and "is_fragable a" and "pieces_inv Ps b"
    and "incoming_unreliable b \<noteq> outgoing_sequence c" and "unat (outgoing_sequence c) < 2 ^ 30"
    and "qw_words c rel = (w1, w2)" and "is_stunaware c = is_stunaware a"
    and "net_message_ok (msg_readmsg rd)" and "8 \<le> m" and "length P + 12 \<le> MAX_OVERALLMSGLEN"
  shows "\<exists>b' rd' nd'. deliver envb b rd nd (map (frag_pkt a w1 w2 P) (split_payload m (length P) 0)) =
      Inr ([P], b', rd', nd') \<and> incoming_sequence b' = outgoing_sequence c \<and>
    (incoming_reliable_sequence b' = incoming_reliable_sequence b) = (\<not> rel)"
proof -
  obtain s v where tw: "taken_words b w1 w2 = (s, v)" by force
  have stun: "is_stunaware c = is_stunaware b"
    using assms(1,7) by (simp add: expects_def peers_def)
  note sw = seq_words [OF assms(5) stun assms(6) tw]
  have q: "outgoing_sequence c = s AND NOT 0x80000000" using sw(1) by simp
  let ?Qs = "\<lambda>q. if q = outgoing_sequence c then Some P
      else if q = incoming_unreliable b then Ps q else None"
  have pi: "pieces_inv ?Qs b" using assms(3,4) by (auto simp: pieces_inv_def)
  have "\<exists>b' rd' nd'. deliver envb b rd nd (map (frag_pkt a w1 w2 P) (split_payload m (length P) 0)) =
      Inr ([P], b', rd', nd') \<and> core b' = accepted s v (core b)"
    using sw(2) by (intro deliver_split [where q = "outgoing_sequence c" and Ps = ?Qs,
        OF assms(9) _ _ assms(10,2) _ q assms(1) pi tw _ assms(8)]) simp_all
  then obtain b' rd' nd' where dl: "deliver envb b rd nd (map (frag_pkt a w1 w2 P) (split_payload m (length P) 0)) =
      Inr ([P], b', rd', nd')" and cb: "core b' = accepted s v (core b)" by blast
  have "incoming_sequence b' = outgoing_sequence c"
    using arg_cong [OF cb, of c_in] q by (simp add: accepted_def)
  moreover have "(incoming_reliable_sequence b' = incoming_reliable_sequence b) = (\<not> rel)"
    using arg_cong [OF cb, of c_inrel] sw(3) by (auto simp: accepted_def)
  ultimately show ?thesis using dl by blast
qed

text \<open>
  C2: over a network that loses nothing a transmission arrives.  The datagrams that one
  \<open>Netchan_Transmit\<close> sends, whatever their number, received in order by \<open>Netchan_Process\<close> of the peer,
  make it hand over one message: the reliable bytes due, the payload whole, and possibly padding.
\<close>

theorem transmit_delivers:
  assumes "chan_ok a" and "expects a envb (outgoing_sequence a) 0 b" and "pieces_inv Ps b"
    and "incoming_unreliable b \<noteq> outgoing_sequence a" and "unat (outgoing_sequence a) < 2 ^ 30"
    and "always_sent sock" and "\<not> demoplayback env" and "dupe a = 0" and "\<not> overflowed (message a)"
    and "length buf = MAX_OVERALLMSGLEN + PACKET_HEADER" and "net_message_ok (msg_readmsg rd)"
    and "qw_hsz a + next_length a + length payload \<le> MAX_OVERALLMSGLEN - 100"
  shows "\<exists>n a' pkts b' rd' nd' pad.
    Netchan_Transmit env sock buf a payload rate sent =
      Some (Inr (n, a', sent @ map (Pair (remote_address a)) pkts)) \<and>
    deliver envb b rd nd pkts = Inr ([next_reliable a @ payload @ pad], b', rd', nd') \<and>
    incoming_sequence b' = outgoing_sequence a \<and>
    (incoming_reliable_sequence b' = incoming_reliable_sequence b) = (\<not> goes_reliable a)"
proof -
  obtain n a' m w1 w2 P pad c where m: "8 \<le> m" and t: "Netchan_Transmit env sock buf a payload rate sent =
      Some (Inr (n, a', sent @ map (\<lambda>p. (remote_address a, frag_pkt a w1 w2 P p)) (split_payload m (length P) 0)))"
    and P: "P = next_reliable a @ payload @ pad" "length P + 12 \<le> MAX_OVERALLMSGLEN"
    and w: "qw_words c (goes_reliable a) = (w1, w2)" "outgoing_sequence c = outgoing_sequence a"
      "is_stunaware c = is_stunaware a"
    using transmit_sends [OF assms(1,6-10,12), of rate sent] by blast
  have fr: "is_fragable a" using assms(1) by (simp add: chan_ok_def)
  let ?pkts = "map (frag_pkt a w1 w2 P) (split_payload m (length P) 0)"
  have "Netchan_Transmit env sock buf a payload rate sent =
      Some (Inr (n, a', sent @ map (Pair (remote_address a)) ?pkts))"
    using t by (simp add: comp_def)
  moreover have "\<exists>b' rd' nd'. deliver envb b rd nd ?pkts = Inr ([P], b', rd', nd') \<and>
      incoming_sequence b' = outgoing_sequence c \<and>
      (incoming_reliable_sequence b' = incoming_reliable_sequence b) = (\<not> goes_reliable a)"
    using words_deliver [of a envb c b Ps "goes_reliable a" w1 w2 rd m P nd] assms(2-5,11) fr w m P(2) by simp
  ultimately show ?thesis using P(1) w(2) by metis
qed

end
