(* ===== verification/NetOpen.thy ===== *)
theory NetOpen
  imports NetLive
begin

text \<open>
  Two channels freshly opened by \<open>Netchan_Setup\<close>, and the guarantees of the channel at work on them:
  the safety of sending and receiving, the delivery over a perfect network, and the exactly-once
  delivery of reliable messages, here on a connection over which a message really travels.
\<close>

section \<open>Opening gives a well-formed channel\<close>

lemma Netchan_Setup_store:
  "store_ok (Netchan_Setup env fl adr qp mtu)" "dupe (Netchan_Setup env fl adr qp mtu) = 0"
  "\<not> overflowed (message (Netchan_Setup env fl adr qp mtu))"
  "cursize (message (Netchan_Setup env fl adr qp mtu)) = 0"
  "incoming_unreliable (Netchan_Setup env fl adr qp mtu) = -1"
  "mtu \<le> 65000 \<Longrightarrow> mtu_max (Netchan_Setup env fl adr qp mtu) \<le> 65000"
proof -
  obtain m k where m: "m \<le> max (if mtu < 64 \<or> mtu > 0xffff then MAX_QWMSGLEN else mtu) 508"
    and s: "Netchan_Setup env fl adr qp mtu =
     zero_netchan\<lparr>nc_flags := fl, remote_address := adr, last_received := realtime env,
       nqreliable_allowed := True, incoming_unreliable := -1, outgoing_sequence := 1,
       qportsize := (if adr_prot adr = NP_KEXLAN then 0 else 2), nc_qport := qp,
       mtu_min := min m (setup_mtu_min (adr_type adr)), mtu_cur := m, mtu_max := m,
       mtu_reprobetime := realtime env,
       message := zero_message\<lparr>allowoverflow := True, maxsize := k\<rparr>\<rparr>"
    using Netchan_Setup_form [of mtu env fl adr qp] by blast
  show "store_ok (Netchan_Setup env fl adr qp mtu)" "dupe (Netchan_Setup env fl adr qp mtu) = 0"
    "\<not> overflowed (message (Netchan_Setup env fl adr qp mtu))"
    "cursize (message (Netchan_Setup env fl adr qp mtu)) = 0"
    "incoming_unreliable (Netchan_Setup env fl adr qp mtu) = -1"
    unfolding s by (simp_all add: store_ok_def zero_netchan_def zero_message_def)
  show "mtu_max (Netchan_Setup env fl adr qp mtu) \<le> 65000" if "mtu \<le> 65000"
  proof -
    have "m \<le> 65000" using m that by (simp add: MAX_QWMSGLEN_def split: if_splits)
    then show ?thesis unfolding s by simp
  qed
qed

lemma Netchan_Setup_seq:
  "outgoing_sequence (Netchan_Setup env fl adr qp mtu) = 1"
  "incoming_sequence (Netchan_Setup env fl adr qp mtu) = 0"
  "reliable_length (Netchan_Setup env fl adr qp mtu) = 0"
  using arg_cong [OF Netchan_Setup_fields(7) [of env fl adr qp mtu], of c_out]
    arg_cong [OF Netchan_Setup_fields(7) [of env fl adr qp mtu], of c_in]
    arg_cong [OF Netchan_Setup_fields(7) [of env fl adr qp mtu], of c_len] by simp_all

lemma Netchan_Setup_chan_ok:
  assumes "fl AND NCF_FRAGABLE \<noteq> 0" and "\<not> NET_AddrIsReliable adr" and "mtu \<le> 65000"
  shows "chan_ok (Netchan_Setup env fl adr qp mtu)"
proof -
  have q: "qportsize (Netchan_Setup env fl adr qp mtu) = 2"
    using Netchan_Setup_plain [OF assms(2)] by blast
  then have "qw_hsz (Netchan_Setup env fl adr qp mtu) \<le> 12" by (simp add: qw_hsz_def)
  moreover have "(12 :: nat) + 65000 \<le> MAX_OVERALLMSGLEN - 100" by (simp add: MAX_OVERALLMSGLEN_def)
  ultimately have "qw_hsz (Netchan_Setup env fl adr qp mtu) + mtu_max (Netchan_Setup env fl adr qp mtu) \<le> MAX_OVERALLMSGLEN - 100"
    using Netchan_Setup_store(6) [OF assms(3), of env fl adr qp] by linarith
  then show ?thesis
    using Netchan_Setup_store(1) Netchan_Setup_plain [OF assms(2), of env fl qp mtu] Netchan_Setup_mtu assms(1) q
    by (simp add: chan_ok_def qps_ok_def Netchan_Setup_fields)
qed

section \<open>Received datagrams as events of a connection\<close>

lemma load_receives:
  assumes "net_message_ok (msg_readmsg rd)" and "length pkt \<le> MAX_OVERALLMSGLEN"
    and "Netchan_Process env chan (load pkt rd) nd = Inr (ok, chan', rd', nd')"
  shows "receives chan pkt ok chan' (unread rd')"
  using load_ok [OF assms(1,2)] assms(3) unfolding receives_def net_message_ok_def by fastforce

lemma Netchan_Process_settings:
  assumes "Netchan_Process env chan rd nd = Inr (ok, chan', rd', nd')" and "plain chan"
  shows "settings chan' = settings chan \<and> (ok \<or> core chan' = core chan)"
proof -
  let ?c = "counted (msg_readmsg rd) chan"
  consider "\<not> ok" "chan' = chan \<or> chan' = ?c"
    | s a rd1 where "process_words env s a ?c rd1 nd = Inr (ok, chan', rd', nd')"
    using assms(1) unfolding Netchan_Process_def Let_def counted_def [symmetric]
    by (auto simp: rbind_eq_Inr split: if_splits)
  then show ?thesis
  proof cases
    case 2
    moreover have "plain ?c" using assms(2) settings_plain [of ?c chan] by simp
    ultimately show ?thesis using process_words_core [of env s a ?c rd1 nd ok chan' rd' nd'] by (cases ok) simp_all
  qed auto
qed

lemma deliver_exchange:
  assumes "deliver env (side_b c) rd nd pkts = Inr (gp, b', rd', nd')" and "set pkts \<subseteq> wire_ab c"
    and "net_message_ok (msg_readmsg rd)" and "\<forall>pkt \<in> set pkts. length pkt \<le> MAX_OVERALLMSGLEN"
    and "store_ok (side_b c)" and "plain (side_b c)"
  shows "\<exists>gs. exchange\<^sup>*\<^sup>* c (c\<lparr>side_b := b', msgs_got := msgs_got c @ gs\<rparr>) \<and>
    (gs = [] \<longrightarrow> incoming_reliable_sequence b' = incoming_reliable_sequence (side_b c))"
  using assms
proof (induction pkts arbitrary: c rd nd gp)
  case Nil
  then show ?case by (auto intro!: exI [of _ "[]"])
next
  case (Cons pkt pkts)
  obtain ok b1 rd1 nd1 gq where p: "Netchan_Process env (side_b c) (load pkt rd) nd = Inr (ok, b1, rd1, nd1)"
    and d: "deliver env b1 rd1 nd1 pkts = Inr (gq, b', rd', nd')"
    using Cons.prems(1) by (auto simp: rbind_eq_Inr)
  have len: "length pkt \<le> MAX_OVERALLMSGLEN" using Cons.prems(4) by simp
  obtain same where "(if demoplayback env then Inr True
      else NET_CompareAdr (net_from env) (remote_address (side_b c))) = Inr same"
    using p unfolding Netchan_Process_def rbind_eq_Inr by blast
  moreover have "compresstable (side_b c) = None" using Cons.prems(6) by (simp add: plain_def)
  ultimately have n1: "store_ok b1" "net_message_ok (msg_readmsg rd1)"
    using Netchan_Process_in [OF Cons.prems(5) load_ok(1) [OF Cons.prems(3) len], of env same nd] p by simp_all
  have n2: "plain b1" "ok \<or> core b1 = core (side_b c)"
    using Netchan_Process_settings [OF p Cons.prems(6)] settings_plain [of b1 "side_b c"] Cons.prems(6) by blast+
  let ?g = "if ok \<and> incoming_reliable_sequence b1 \<noteq> incoming_reliable_sequence (side_b c) then [unread rd1] else []"
  let ?c = "c\<lparr>side_b := b1, msgs_got := msgs_got c @ ?g\<rparr>"
  have "pkt \<in> wire_ab c" using Cons.prems(2) by simp
  then have st: "exchange c ?c"
    by (rule recv_b) (rule load_receives [OF Cons.prems(3) len p])
  obtain gs where gs: "exchange\<^sup>*\<^sup>* ?c (?c\<lparr>side_b := b', msgs_got := msgs_got ?c @ gs\<rparr>)"
    "gs = [] \<longrightarrow> incoming_reliable_sequence b' = incoming_reliable_sequence b1"
    using Cons.IH [of ?c rd1 nd1 gq] d n1 n2(1) Cons.prems(2,4) by auto
  have "exchange\<^sup>*\<^sup>* c (c\<lparr>side_b := b', msgs_got := msgs_got c @ (?g @ gs)\<rparr>)"
    using converse_rtranclp_into_rtranclp [OF st gs(1)] by simp
  moreover have "incoming_reliable_sequence b' = incoming_reliable_sequence (side_b c)" if "?g @ gs = []"
  proof -
    from that have "gs = []" "\<not> ok \<or> incoming_reliable_sequence b1 = incoming_reliable_sequence (side_b c)"
      by (simp_all split: if_splits)
    moreover have "core b1 = core (side_b c) \<Longrightarrow> incoming_reliable_sequence b1 = incoming_reliable_sequence (side_b c)"
      by (drule arg_cong [where f = c_inrel]) simp
    ultimately show ?thesis using n2(2) gs(2) by auto
  qed
  ultimately show ?case by blast
qed


section \<open>A client and a server\<close>

text \<open>
  \<open>caller\<close> and \<open>callee\<close> are the two ends of a connection just opened; the client has one byte to send
  reliably.
\<close>

definition calm_env :: netenv where
  "calm_env = \<lparr>realtime = 0, demoplayback = False, net_from = sample_v4\<rparr>"

definition greeting :: sizebuf where
  "greeting = zero_message\<lparr>data := 42 # replicate (MAX_OVERALLMSGLEN - 1) 0, maxsize := 1400, cursize := 1\<rparr>"

definition opened_client :: netchan_t where
  "opened_client = Netchan_Setup calm_env (NCF_CLIENT OR NCF_FRAGABLE) sample_v4 7 1450"

definition caller :: netchan_t where
  "caller = opened_client\<lparr>message := greeting\<rparr>"

definition callee :: netchan_t where
  "callee = Netchan_Setup calm_env NCF_FRAGABLE sample_v4 7 1450"

definition unbuilt :: huff_t where
  "unbuilt = \<lparr>blocNode = 0, blocPtrs = 0, tree = None, lhead = None, ltail = None, loc = [],
     freelist = None, nodeList = [], nodePtrs = []\<rparr>"

definition blank_read :: netread where
  "blank_read = \<lparr>msg_readmsg = zero_message, msg_badread = False,
     q3huff = \<lparr>counts = [], crc = 0, built = False, compressor = unbuilt, decompressor = unbuilt\<rparr>\<rparr>"

definition idle_sock :: sockets where
  "idle_sock = (\<lambda>sent to pkt. NETERR_SENT)"

lemma sample_v4_valid: "adr_valid sample_v4" "\<not> NET_AddrIsReliable sample_v4"
  by code_simp+

lemma same_sample: "NET_CompareAdr sample_v4 sample_v4 = Inr True"
  by code_simp

lemma greeting_fields:
  "cursize greeting = 1" "length (data greeting) = MAX_OVERALLMSGLEN" "sz_content greeting = [42]"
  "\<not> overflowed greeting"
  by (simp_all add: greeting_def zero_message_def sz_content_def MAX_OVERALLMSGLEN_def)

lemma flags_of_ends:
  "(NCF_CLIENT OR NCF_FRAGABLE) AND NCF_CLIENT \<noteq> 0" "(NCF_CLIENT OR NCF_FRAGABLE) AND NCF_FRAGABLE \<noteq> 0"
  "(NCF_CLIENT OR NCF_FRAGABLE) AND NCF_STUNAWARE = 0" "NCF_FRAGABLE AND NCF_CLIENT = 0"
  "NCF_FRAGABLE AND NCF_FRAGABLE \<noteq> 0" "NCF_FRAGABLE AND NCF_STUNAWARE = 0" "NCF_FRAGABLE \<noteq> 0"
  by code_simp+

lemma blank_read_ok: "net_message_ok (msg_readmsg blank_read)"
  by (simp add: blank_read_def net_message_ok_def zero_message_def)

lemma opened_client_ok: "chan_ok opened_client"
  unfolding opened_client_def
  by (rule Netchan_Setup_chan_ok) (simp_all add: flags_of_ends sample_v4_valid)

lemma callee_ok: "chan_ok callee"
  unfolding callee_def
  by (rule Netchan_Setup_chan_ok) (simp_all add: flags_of_ends sample_v4_valid)

lemma caller_ok: "chan_ok caller"
proof -
  have "settings caller = settings opened_client" "mtu_cur caller = mtu_cur opened_client"
    "mtu_max caller = mtu_max opened_client" "store_ok caller"
    using opened_client_ok greeting_fields
    by (simp_all add: caller_def settings_def store_ok_def chan_ok_def MAX_OVERALLMSGLEN_def)
  then show ?thesis
    using opened_client_ok settings_plain [of caller opened_client] settings_hsz [of caller opened_client]
      settings_eqs [of caller opened_client]
    by (simp add: chan_ok_def mtu_ok_def qps_ok_def)
qed

lemma caller_fields:
  "outgoing_sequence caller = 1" "dupe caller = 0" "message caller = greeting" "takes_new caller"
  "next_reliable caller = [42]" "next_length caller = 1" "goes_reliable caller" "qw_hsz caller \<le> 12"
  "remote_address caller = sample_v4"
proof -
  have f: "outgoing_sequence opened_client = 1" "reliable_length opened_client = 0" "dupe opened_client = 0"
    "qportsize opened_client = 2" "remote_address opened_client = sample_v4"
    using Netchan_Setup_plain [OF sample_v4_valid(2), of calm_env "NCF_CLIENT OR NCF_FRAGABLE" 7 1450]
    by (simp_all add: opened_client_def Netchan_Setup_store Netchan_Setup_seq Netchan_Setup_fields(1-6))
  then show "outgoing_sequence caller = 1" "dupe caller = 0" "message caller = greeting" "takes_new caller"
    "next_reliable caller = [42]" "next_length caller = 1" "goes_reliable caller" "qw_hsz caller \<le> 12"
    "remote_address caller = sample_v4"
    using greeting_fields
    by (simp_all add: caller_def takes_new_def next_reliable_def next_length_def goes_reliable_def qw_hsz_def)
qed

lemma callee_expects: "expects caller calm_env 1 0 callee" "pieces_inv Map.empty callee" "incoming_unreliable callee = -1"
proof -
  have f: "incoming_sequence callee = 0" "in_fragment_length callee = 0" "incoming_unreliable callee = -1"
    by (simp_all add: callee_def Netchan_Setup_store Netchan_Setup_seq Netchan_Setup_fields(1-6))
  have "peers caller callee"
    using Netchan_Setup_plain [OF sample_v4_valid(2), of calm_env "NCF_CLIENT OR NCF_FRAGABLE" 7 1450]
      Netchan_Setup_plain [OF sample_v4_valid(2), of calm_env NCF_FRAGABLE 7 1450] flags_of_ends
    by (simp add: peers_def caller_def opened_client_def callee_def Netchan_Setup_fields qps_ok_def)
  moreover have "remote_address callee = sample_v4" by (simp add: callee_def Netchan_Setup_fields)
  ultimately show "expects caller calm_env 1 0 callee"
    using callee_ok f same_sample
    by (simp add: expects_def chan_ok_def mtu_ok_def from_peer_def calm_env_def)
  show "pieces_inv Map.empty callee" "incoming_unreliable callee = -1" using f by (simp_all add: pieces_inv_def)
qed

section \<open>The guarantees at work\<close>

lemma Netchan_Process_safe_witness:
  "\<exists>ok chan' rd' net_drop'. Netchan_Process calm_env callee blank_read 0 = Inr (ok, chan', rd', net_drop') \<and>
    store_ok chan' \<and> net_message_ok (msg_readmsg rd')"
  using callee_ok blank_read_ok sample_v4_valid
  by (intro Netchan_Process_safe) (simp_all add: chan_ok_def plain_def callee_def Netchan_Setup_fields calm_env_def)

lemma Netchan_Transmit_total_witness:
  "\<exists>n chan' new. Netchan_Transmit calm_env idle_sock (replicate (MAX_OVERALLMSGLEN + PACKET_HEADER) 0) caller
      (replicate 20000 7) 10000 [] = Some (Inr (n, chan', [] @ new)) \<and> chan_ok chan'"
  by (rule Netchan_Transmit_total [OF caller_ok]) simp

lemma transmit_delivers_witness:
  "\<exists>n a' pkts b' rd' nd' pad.
    Netchan_Transmit calm_env idle_sock (replicate (MAX_OVERALLMSGLEN + PACKET_HEADER) 0) caller
      (replicate 20000 7) 10000 [] = Some (Inr (n, a', [] @ map (Pair (remote_address caller)) pkts)) \<and>
    deliver calm_env callee blank_read 0 pkts = Inr ([next_reliable caller @ replicate 20000 7 @ pad], b', rd', nd') \<and>
    incoming_sequence b' = outgoing_sequence caller \<and>
    (incoming_reliable_sequence b' = incoming_reliable_sequence callee) = (\<not> goes_reliable caller)"
  using callee_expects blank_read_ok caller_fields greeting_fields
  by (intro transmit_delivers [OF caller_ok])
    (simp_all add: always_sent_def idle_sock_def calm_env_def MAX_OVERALLMSGLEN_def)


text \<open>The event of A sending, of a message that becomes reliable.\<close>

lemma transmit_exchange:
  assumes "Netchan_Transmit env sock buf (side_a c) payload rate sent = Some (Inr (n, a', sent @ new))"
    and "length buf = MAX_OVERALLMSGLEN + PACKET_HEADER" and "unat (outgoing_sequence (side_a c)) + 1 < 2 ^ 31"
    and "cursize (message (side_a c)) \<le> length (data (message (side_a c)))"
  shows "\<exists>ms. exchange c (c\<lparr>side_a := a', wire_ab := wire_ab c \<union> snd ` set new, msgs_taken := msgs_taken c @ ms\<rparr>) \<and>
    (ms = [] \<or> ms = [sz_content (message (side_a c))])"
proof -
  have "transmits (side_a c) a' new" unfolding transmits_def using assms(1,2) by blast
  from send_a [OF this assms(3,4)] show ?thesis
    by (intro exI [of _ "if reliable_sequence a' = reliable_sequence (side_a c) then []
      else [sz_content (message (side_a c))]"]) simp
qed

lemma reliable_delivery_witness:
  "\<exists>c rest. exchange\<^sup>*\<^sup>* (opened opened_client callee) c \<and> msgs_taken c = [[42]] \<and> msgs_got c = [42 # rest]"
proof -
  let ?buf = "replicate (MAX_OVERALLMSGLEN + PACKET_HEADER) 0 :: byte list"
  obtain c0 where c0: "c0 = (opened opened_client callee)\<lparr>side_a := caller\<rparr>" by simp
  have w: "exchange (opened opened_client callee) c0"
    using write_a [of greeting "opened opened_client callee"] greeting_fields
    by (simp add: c0 opened_def caller_def MAX_OVERALLMSGLEN_def)
  have room: "qw_hsz caller + next_length caller + length ([] :: byte list) \<le> MAX_OVERALLMSGLEN - 100"
    using caller_fields by (simp add: MAX_OVERALLMSGLEN_def)
  obtain n a' m w1 w2 P pad d where m: "8 \<le> m" and t: "Netchan_Transmit calm_env idle_sock ?buf caller [] 0 [] =
      Some (Inr (n, a', [] @ map (\<lambda>p. (remote_address caller, frag_pkt caller w1 w2 P p)) (split_payload m (length P) 0)))"
    and P: "P = next_reliable caller @ [] @ pad" "length P + 12 \<le> MAX_OVERALLMSGLEN"
    and q: "qw_words d (goes_reliable caller) = (w1, w2)" "outgoing_sequence d = outgoing_sequence caller"
      "is_stunaware d = is_stunaware caller"
    using transmit_sends [OF caller_ok _ _ caller_fields(2) _ _ room, of idle_sock calm_env ?buf 0 "[]"] greeting_fields(4)
      caller_fields(3) by (auto simp: always_sent_def idle_sock_def calm_env_def)
  let ?pkts = "map (frag_pkt caller w1 w2 P) (split_payload m (length P) 0)"
  obtain c1 ms where s: "exchange c0 c1" and c1: "c1 = c0\<lparr>side_a := a', wire_ab := set ?pkts, msgs_taken := ms\<rparr>"
    and ms: "ms = [] \<or> ms = [[42]]"
    using transmit_exchange [of calm_env idle_sock ?buf c0 "[]" 0 "[]" n a'] t caller_fields greeting_fields
    by (auto simp: c0 opened_def image_comp comp_def MAX_OVERALLMSGLEN_def)
  have fr: "is_fragable caller" using caller_ok by (simp add: chan_ok_def)
  obtain b' rd' nd' where dl: "deliver calm_env callee blank_read 0 ?pkts = Inr ([P], b', rd', nd')"
    and ir: "incoming_reliable_sequence b' \<noteq> incoming_reliable_sequence callee"
    using words_deliver [of caller calm_env d callee Map.empty "goes_reliable caller" w1 w2 blank_read m P 0]
      callee_expects caller_fields fr q blank_read_ok m P(2) by auto
  have sb: "side_b c1 = callee" "wire_ab c1 = set ?pkts" "msgs_got c1 = []"
    by (simp_all add: c1 c0 opened_def)
  have short: "\<forall>pkt \<in> set ?pkts. length pkt \<le> MAX_OVERALLMSGLEN"
  proof -
    have "length (frag_pkt caller w1 w2 P p) \<le> qw_hsz caller + length P" for p
      using caller_ok by (cases p) (simp add: frag_pkt_def chan_ok_def)
    then have "length (frag_pkt caller w1 w2 P p) \<le> MAX_OVERALLMSGLEN" for p
      using P(2) caller_fields(8) add_mono [OF caller_fields(8) order_refl, of "length P"]
      by (simp add: add.commute order.trans [OF \<open>\<And>p. length (frag_pkt caller w1 w2 P p) \<le> qw_hsz caller + length P\<close>])
    then show ?thesis by auto
  qed
  obtain gs where r: "exchange\<^sup>*\<^sup>* c1 (c1\<lparr>side_b := b', msgs_got := gs\<rparr>)" "gs \<noteq> []"
    using deliver_exchange [of calm_env c1 blank_read 0 ?pkts] dl ir sb short blank_read_ok callee_ok
    by (auto simp: chan_ok_def)
  let ?c = "c1\<lparr>side_b := b', msgs_got := gs\<rparr>"
  have run: "exchange\<^sup>*\<^sup>* (opened opened_client callee) ?c"
    using w s r(1) by (meson converse_rtranclp_into_rtranclp)
  have "matching_flags (NCF_CLIENT OR NCF_FRAGABLE) NCF_FRAGABLE"
    using flags_of_ends by (simp add: matching_flags_def)
  from reliable_delivery [OF run [unfolded opened_client_def callee_def] sample_v4_valid(2,2) this]
  have "length gs \<le> length ms" "\<forall>i < length gs. \<exists>rest. gs ! i = ms ! i @ rest" by (simp_all add: c1)
  with ms r(2) have "ms = [[42]]" "\<exists>rest. gs = [42 # rest]"
    by (auto simp: length_Suc_conv le_Suc_eq)
  with run show ?thesis by (auto simp: c1)
qed

end
