(* ===== verification/Qvm.thy ===== *)
theory Qvm
  imports Prelude "HOL-Library.Signed_Division"
begin

text \<open>
  The Quake 3 virtual machine of \<open>engine/common/qvm.c\<close>: the loader of \<open>.qvm\<close> files and the
  interpreter.  The code is an array of words, two for each instruction; the memory of the machine
  (data, frames, operand stack) is one block \<open>ds\<close> of \<open>ds_size\<close> bytes, allocated behind the code, so a
  program counter that leaves the code fetches from the data.  Every access is checked against the
  allocation (\<open>Out_Of_Bounds\<close>), which the C code does not do: it masks addresses and tests registers.

  Pointers into the memory (\<open>sp\<close>, \<open>min_sp\<close>, \<open>max_sp\<close>) are byte offsets from \<open>ds\<close>, the program counter a
  word offset from \<open>cs\<close>.  What lies outside the file is a parameter (\<open>qvm_host\<close>): the system calls
  of the engine and the floating-point unit, on the bits of a \<open>float\<close>.  Integer division traps
  (\<open>Div_By_Zero\<close>) as on x86, also for the quotient that does not fit.
\<close>

section \<open>Opcodes\<close>

datatype qvm_op_e =
  OP_UNDEF | OP_NOP | OP_BREAK | OP_ENTER | OP_LEAVE | OP_CALL | OP_PUSH | OP_POP | OP_CONST | OP_LOCAL
| OP_JUMP | OP_EQ | OP_NE | OP_LTI | OP_LEI | OP_GTI | OP_GEI | OP_LTU | OP_LEU | OP_GTU | OP_GEU
| OP_EQF | OP_NEF | OP_LTF | OP_LEF | OP_GTF | OP_GEF | OP_LOAD1 | OP_LOAD2 | OP_LOAD4 | OP_STORE1
| OP_STORE2 | OP_STORE4 | OP_ARG | OP_BLOCK_COPY | OP_SEX8 | OP_SEX16 | OP_NEGI | OP_ADD | OP_SUB
| OP_DIVI | OP_DIVU | OP_MODI | OP_MODU | OP_MULI | OP_MULU | OP_BAND | OP_BOR | OP_BXOR | OP_BCOM
| OP_LSH | OP_RSHI | OP_RSHU | OP_NEGF | OP_ADDF | OP_SUBF | OP_DIVF | OP_MULF | OP_CVIF | OP_CVFI

definition qvm_ops :: "qvm_op_e list" where
  "qvm_ops = [OP_UNDEF, OP_NOP, OP_BREAK, OP_ENTER, OP_LEAVE, OP_CALL, OP_PUSH, OP_POP, OP_CONST, OP_LOCAL,
     OP_JUMP, OP_EQ, OP_NE, OP_LTI, OP_LEI, OP_GTI, OP_GEI, OP_LTU, OP_LEU, OP_GTU, OP_GEU,
     OP_EQF, OP_NEF, OP_LTF, OP_LEF, OP_GTF, OP_GEF, OP_LOAD1, OP_LOAD2, OP_LOAD4, OP_STORE1,
     OP_STORE2, OP_STORE4, OP_ARG, OP_BLOCK_COPY, OP_SEX8, OP_SEX16, OP_NEGI, OP_ADD, OP_SUB,
     OP_DIVI, OP_DIVU, OP_MODI, OP_MODU, OP_MULI, OP_MULU, OP_BAND, OP_BOR, OP_BXOR, OP_BCOM,
     OP_LSH, OP_RSHI, OP_RSHU, OP_NEGF, OP_ADDF, OP_SUBF, OP_DIVF, OP_MULF, OP_CVIF, OP_CVFI]"

text \<open>A word that is no opcode is \<open>None\<close>, the \<open>default\<close> of the interpreter's \<open>switch\<close>.\<close>

definition op_of :: "int32 \<Rightarrow> qvm_op_e option" where
  "op_of w = (if unat w < length qvm_ops then Some (qvm_ops ! unat w) else None)"

section \<open>The machine\<close>

record qvm_t =
  cs :: "int32 list"
  ds :: "nat \<Rightarrow> byte"
  ds_size :: nat
  pc :: int
  sp :: nat
  bp :: int32
  min_sp :: nat
  max_sp :: nat
  min_bp :: int32
  max_bp :: int32
  len_cs :: int32
  len_ds :: int32
  len_ss :: int32
  ds_mask :: int32

record qvm_host =
  syscall :: "(nat \<Rightarrow> byte) \<Rightarrow> int32 \<Rightarrow> int32 \<Rightarrow> nat \<Rightarrow> (int32 \<times> (nat \<Rightarrow> byte)) res"
  fadd :: "int32 \<Rightarrow> int32 \<Rightarrow> int32"
  fsub :: "int32 \<Rightarrow> int32 \<Rightarrow> int32"
  fmul :: "int32 \<Rightarrow> int32 \<Rightarrow> int32"
  fdiv :: "int32 \<Rightarrow> int32 \<Rightarrow> int32"
  feq :: "int32 \<Rightarrow> int32 \<Rightarrow> bool"
  flt :: "int32 \<Rightarrow> int32 \<Rightarrow> bool"
  fle :: "int32 \<Rightarrow> int32 \<Rightarrow> bool"
  f_of_int :: "int32 \<Rightarrow> int32"
  int_of_f :: "int32 \<Rightarrow> int32"

section \<open>Memory\<close>

definition word_of_bytes :: "byte \<Rightarrow> byte \<Rightarrow> byte \<Rightarrow> byte \<Rightarrow> int32" where
  "word_of_bytes a b c d = ucast a OR push_bit 8 (ucast b) OR push_bit 16 (ucast c) OR push_bit 24 (ucast d)"

definition rd8 :: "qvm_t \<Rightarrow> nat \<Rightarrow> int32 res" where
  "rd8 vm a = (if a + 1 \<le> ds_size vm then Inr (ucast (ds vm a)) else Inl Out_Of_Bounds)"

definition rd16 :: "qvm_t \<Rightarrow> nat \<Rightarrow> int32 res" where
  "rd16 vm a = (if a + 2 \<le> ds_size vm then Inr (ucast (ds vm a) OR push_bit 8 (ucast (ds vm (a + 1))))
     else Inl Out_Of_Bounds)"

definition rd32 :: "qvm_t \<Rightarrow> nat \<Rightarrow> int32 res" where
  "rd32 vm a = (if a + 4 \<le> ds_size vm
     then Inr (word_of_bytes (ds vm a) (ds vm (a + 1)) (ds vm (a + 2)) (ds vm (a + 3)))
     else Inl Out_Of_Bounds)"

definition put_bytes :: "nat \<Rightarrow> byte list \<Rightarrow> (nat \<Rightarrow> byte) \<Rightarrow> nat \<Rightarrow> byte" where
  "put_bytes a bs m = (\<lambda>i. if a \<le> i \<and> i < a + length bs then bs ! (i - a) else m i)"

definition wr :: "nat \<Rightarrow> byte list \<Rightarrow> qvm_t \<Rightarrow> qvm_t res" where
  "wr a bs vm = (if a + length bs \<le> ds_size vm then Inr (vm\<lparr>ds := put_bytes a bs (ds vm)\<rparr>)
     else Inl Out_Of_Bounds)"

abbreviation wr32 :: "nat \<Rightarrow> int32 \<Rightarrow> qvm_t \<Rightarrow> qvm_t res" where
  "wr32 a w \<equiv> wr a (le32 w)"

text \<open>\<open>vm->sp[k]\<close>.\<close>

abbreviation sp_get :: "qvm_t \<Rightarrow> nat \<Rightarrow> int32 res" where
  "sp_get vm k \<equiv> rd32 vm (sp vm + 4 * k)"

abbreviation sp_set :: "nat \<Rightarrow> int32 \<Rightarrow> qvm_t \<Rightarrow> qvm_t res" where
  "sp_set k w vm \<equiv> wr32 (sp vm + 4 * k) w vm"

text \<open>The words of the code; behind it lie the bytes of \<open>ds\<close>.\<close>

definition fetch :: "qvm_t \<Rightarrow> int \<Rightarrow> int32 res" where
  "fetch vm i =
     (if i < 0 then Inl Out_Of_Bounds
      else if nat i < length (cs vm) then Inr (cs vm ! nat i)
      else rd32 vm (4 * (nat i - length (cs vm))))"

section \<open>Loading\<close>

definition VM_MAGIC :: int32 where "VM_MAGIC = 0x12721444"
definition VM_MAGIC2 :: int32 where "VM_MAGIC2 = 0x12721445"

record vmHeader =
  vmMagic :: int32
  instructionCount :: int32
  codeOffset :: int32
  codeLength :: int32
  dataOffset :: int32
  dataLength :: int32
  litLength :: int32
  bssLength :: int32

text \<open>\<open>raw_at raw o\<close> is the byte at the signed offset \<open>o\<close> of the file.\<close>

definition raw_at :: "byte list \<Rightarrow> int \<Rightarrow> byte res" where
  "raw_at raw i = (if i < 0 then Inl Out_Of_Bounds else peek raw (nat i))"

definition raw_long :: "byte list \<Rightarrow> int \<Rightarrow> int32 res" where
  "raw_long raw i =
     rbind (raw_at raw i) (\<lambda>a. rbind (raw_at raw (i + 1)) (\<lambda>b.
     rbind (raw_at raw (i + 2)) (\<lambda>c. rbind (raw_at raw (i + 3)) (\<lambda>d.
     Inr (word_of_bytes a b c d)))))"

definition read_header :: "byte list \<Rightarrow> vmHeader res" where
  "read_header raw =
     rbind (raw_long raw 0) (\<lambda>magic. rbind (raw_long raw 4) (\<lambda>count.
     rbind (raw_long raw 8) (\<lambda>co. rbind (raw_long raw 12) (\<lambda>cl.
     rbind (raw_long raw 16) (\<lambda>dof. rbind (raw_long raw 20) (\<lambda>dl.
     rbind (raw_long raw 24) (\<lambda>ll. rbind (raw_long raw 28) (\<lambda>bl.
     rbind (if magic = VM_MAGIC2 then raw_long raw 32 else Inr 0) (\<lambda>_.
     Inr \<lparr>vmMagic = magic, instructionCount = count, codeOffset = co, codeLength = cl, dataOffset = dof,
          dataLength = dl, litLength = ll, bssLength = bl\<rparr>)))))))))"

text \<open>The size of the operand of an instruction in the file.\<close>

definition operand_size :: "int32 \<Rightarrow> nat" where
  "operand_size w = (case op_of w of
     Some OP_ENTER \<Rightarrow> 4 | Some OP_LEAVE \<Rightarrow> 4 | Some OP_CONST \<Rightarrow> 4 | Some OP_LOCAL \<Rightarrow> 4
   | Some OP_EQ \<Rightarrow> 4 | Some OP_NE \<Rightarrow> 4 | Some OP_LTI \<Rightarrow> 4 | Some OP_LEI \<Rightarrow> 4 | Some OP_GTI \<Rightarrow> 4
   | Some OP_GEI \<Rightarrow> 4 | Some OP_LTU \<Rightarrow> 4 | Some OP_LEU \<Rightarrow> 4 | Some OP_GTU \<Rightarrow> 4 | Some OP_GEU \<Rightarrow> 4
   | Some OP_EQF \<Rightarrow> 4 | Some OP_NEF \<Rightarrow> 4 | Some OP_LTF \<Rightarrow> 4 | Some OP_LEF \<Rightarrow> 4 | Some OP_GTF \<Rightarrow> 4
   | Some OP_GEF \<Rightarrow> 4 | Some OP_BLOCK_COPY \<Rightarrow> 4 | Some OP_ARG \<Rightarrow> 1 | _ \<Rightarrow> 0)"

text \<open>The \<open>for\<close> over the instructions: \<open>n\<close> are left, \<open>src\<close> is the offset of the next in the file.\<close>

fun load_code :: "byte list \<Rightarrow> nat \<Rightarrow> int \<Rightarrow> int32 list res" where
  "load_code raw 0 src = Inr []"
| "load_code raw (Suc n) src =
     rbind (raw_at raw src) (\<lambda>b.
     let op = ucast b; k = operand_size op in
     rbind (if k = 4 then raw_long raw (src + 1)
            else if k = 1 then rbind (raw_at raw (src + 1)) (\<lambda>v. Inr (ucast v))
            else Inr 0) (\<lambda>param.
     rbind (load_code raw n (src + 1 + int k)) (\<lambda>rest. Inr (op # param # rest))))"

text \<open>\<open>memcpy\<close> of \<open>n\<close> bytes of the file at \<open>src\<close> to \<open>ds + dst\<close>.\<close>

definition load_bytes :: "byte list \<Rightarrow> int \<Rightarrow> nat \<Rightarrow> nat \<Rightarrow> qvm_t \<Rightarrow> qvm_t res" where
  "load_bytes raw src n dst vm =
     (if n = 0 then Inr vm
      else if src < 0 \<or> nat src + n > length raw then Inl Out_Of_Bounds
      else wr dst (take n (drop (nat src) raw)) vm)"

text \<open>\<open>for (i = 0; i < 31; i++) if ((1<<i) >= need) break;\<close>.\<close>

fun mask_bits :: "int32 \<Rightarrow> nat \<Rightarrow> nat \<Rightarrow> nat" where
  "mask_bits need i 0 = i"
| "mask_bits need i (Suc n) = (if push_bit i 1 \<ge> need then i else mask_bits need (i + 1) n)"

text \<open>
  \<open>QVM_LoadVM\<close> on the bytes of the file: \<open>None\<close> for a file that is refused.  The memory comes
  zeroed from \<open>Z_Malloc\<close>; the code must fit into what was allocated, whose size is an \<open>unsigned int\<close>.
\<close>

definition qvm_layout :: "vmHeader \<Rightarrow> qvm_t" where
  "qvm_layout h =
     (let lcs = instructionCount h + 1;
          lds = dataLength h + litLength h + bssLength h;
          i = mask_bits (lds + (256 * 1024 + 64)) 0 31;
          lss0 = push_bit i 1 - lds - 4;
          mask = lds + (lss0 + 4);
          lss = lss0 - (lss0 AND 7);
          mem_size = lcs * 8 + mask
      in \<lparr>cs = [], ds = (\<lambda>_. 0), ds_size = unat mem_size - 8 * unat lcs, pc = 0,
          sp = unat lds + unat lss, bp = lds + drop_bit 1 lss,
          min_sp = unat lds + unat (drop_bit 1 lss), max_sp = unat lds + unat lss,
          min_bp = lds, max_bp = lds + drop_bit 1 lss,
          len_cs = lcs, len_ds = lds, len_ss = lss, ds_mask = mask - 1\<rparr>)"

definition QVM_LoadVM :: "byte list \<Rightarrow> qvm_t option res" where
  "QVM_LoadVM raw =
     rbind (read_header raw) (\<lambda>h.
     if (vmMagic h \<noteq> VM_MAGIC \<and> vmMagic h \<noteq> VM_MAGIC2) \<or> sint (instructionCount h) \<le> 0 \<or>
        sint (codeLength h) \<le> 0
     then Inr None
     else
       let vm = qvm_layout h; total = unat (instructionCount h); words = nat (sint (dataLength h)) div 4 in
       rbind (load_code raw total (sint (codeOffset h))) (\<lambda>code.
       rbind (if 8 * (total + 1) \<le> 8 * unat (len_cs vm) + ds_size vm then Inr () else Inl Out_Of_Bounds) (\<lambda>_.
       let vm = vm\<lparr>cs := code @ [2, 0]\<rparr> in
       rbind (load_bytes raw (sint (dataOffset h)) (4 * words) 0 vm) (\<lambda>vm.
       rbind (if sint (litLength h) < 0 then Inl Out_Of_Bounds
              else load_bytes raw (sint (dataOffset h) + int (4 * words)) (unat (litLength h)) (4 * words) vm) (\<lambda>vm.
       Inr (Some vm))))))"


section \<open>Registers\<close>

text \<open>The macros \<open>POP\<close> and \<open>PUSH\<close>; the operand stack grows downwards.\<close>

definition POP :: "nat \<Rightarrow> qvm_t \<Rightarrow> qvm_t res" where
  "POP t vm = (if sp vm + 4 * t > max_sp vm then Inl Sys_Error else Inr (vm\<lparr>sp := sp vm + 4 * t\<rparr>))"

text \<open>\<open>sp--\<close> with its test.\<close>

definition sp_down :: "qvm_t \<Rightarrow> qvm_t res" where
  "sp_down vm = (if sp vm < min_sp vm + 4 then Inl Sys_Error else Inr (vm\<lparr>sp := sp vm - 4\<rparr>))"

definition PUSH :: "int32 \<Rightarrow> qvm_t \<Rightarrow> qvm_t res" where
  "PUSH v vm = rbind (sp_down vm) (sp_set 0 v)"

definition QVM_Goto :: "int32 \<Rightarrow> qvm_t \<Rightarrow> qvm_t res" where
  "QVM_Goto addr vm = (if addr > len_cs vm then Inl Sys_Error else Inr (vm\<lparr>pc := int (unat (addr * 2))\<rparr>))"

definition QVM_Call :: "qvm_host \<Rightarrow> int32 \<Rightarrow> qvm_t \<Rightarrow> qvm_t res" where
  "QVM_Call host addr vm =
     rbind (sp_down vm) (\<lambda>vm.
     if sint addr < 0 then
       rbind (syscall host (ds vm) (ds_mask vm) (- addr - 1) (unat (bp vm) + 8)) (\<lambda>(r, m).
       sp_set 0 r (vm\<lparr>ds := m\<rparr>))
     else if addr \<ge> len_cs vm then Inl Sys_Error
     else
       rbind (sp_set 0 (word_of_int (pc vm)) vm) (\<lambda>vm. Inr (vm\<lparr>pc := int (unat addr) * 2\<rparr>)))"

text \<open>\<open>vm->sp - vm->max_sp\<close>, a difference of pointers to words.\<close>

definition sp_depth :: "qvm_t \<Rightarrow> int" where
  "sp_depth vm = (int (sp vm) - int (max_sp vm)) div 4"

definition QVM_Enter :: "int32 \<Rightarrow> qvm_t \<Rightarrow> qvm_t res" where
  "QVM_Enter n vm0 =
     (let vm = vm0\<lparr>bp := bp vm0 - n\<rparr> in
      if bp vm < min_bp vm then Inl Sys_Error
      else
        rbind (wr32 (unat (bp vm)) (word_of_int (sp_depth vm)) vm) (\<lambda>vm.
        rbind (sp_get vm 0) (\<lambda>ret.
        rbind (wr32 (unat (bp vm) + 4) ret (vm\<lparr>sp := sp vm + 4\<rparr>)) (\<lambda>vm.
        if sp vm > max_sp vm then Inl Sys_Error else Inr vm))))"

text \<open>The first result is false when the function returns to the engine.\<close>

definition QVM_Return :: "int32 \<Rightarrow> qvm_t \<Rightarrow> (bool \<times> qvm_t) res" where
  "QVM_Return n vm0 =
     (let fp = unat (bp vm0); vm = vm0\<lparr>bp := bp vm0 + n\<rparr> in
      if bp vm > max_bp vm then Inl Sys_Error
      else
        rbind (rd32 vm fp) (\<lambda>depth.
        if sp_depth vm \<noteq> sint depth then Inl Sys_Error
        else
          rbind (rd32 vm (fp + 4)) (\<lambda>ret.
          let vm = vm\<lparr>pc := sint ret\<rparr> in
          if ret \<ge> len_cs vm * 2 then
            (if ret = -1 then Inr (False, vm) else Inl Sys_Error)
          else Inr (True, vm))))"

section \<open>Operations on the stack\<close>

text \<open>\<open>sp[0] = f(sp[0])\<close>, and \<open>sp[1] = f(sp[1], sp[0]); POP(1)\<close>.\<close>

definition unop :: "(int32 \<Rightarrow> int32) \<Rightarrow> qvm_t \<Rightarrow> qvm_t res" where
  "unop f vm = rbind (sp_get vm 0) (\<lambda>a. sp_set 0 (f a) vm)"

definition binop :: "(int32 \<Rightarrow> int32 \<Rightarrow> int32 res) \<Rightarrow> qvm_t \<Rightarrow> qvm_t res" where
  "binop f vm =
     rbind (sp_get vm 1) (\<lambda>b. rbind (sp_get vm 0) (\<lambda>a. rbind (f b a) (\<lambda>r.
     rbind (sp_set 1 r vm) (POP 1))))"

definition branch :: "(int32 \<Rightarrow> int32 \<Rightarrow> bool) \<Rightarrow> int32 \<Rightarrow> qvm_t \<Rightarrow> qvm_t res" where
  "branch c param vm =
     rbind (sp_get vm 1) (\<lambda>b. rbind (sp_get vm 0) (\<lambda>a.
     rbind (if c b a then QVM_Goto param vm else Inr vm) (POP 2)))"

definition quot_traps :: "int32 \<Rightarrow> int32 \<Rightarrow> bool" where
  "quot_traps b a \<longleftrightarrow> a = 0 \<or> (b = 0x80000000 \<and> a = -1)"

definition op_divi :: "int32 \<Rightarrow> int32 \<Rightarrow> int32 res" where
  "op_divi b a = (if quot_traps b a then Inl Div_By_Zero else Inr (word_of_int (sint b sdiv sint a)))"

definition op_modi :: "int32 \<Rightarrow> int32 \<Rightarrow> int32 res" where
  "op_modi b a = (if quot_traps b a then Inl Div_By_Zero else Inr (word_of_int (sint b smod sint a)))"

definition op_divu :: "int32 \<Rightarrow> int32 \<Rightarrow> int32 res" where
  "op_divu b a = (if a = 0 then Inl Div_By_Zero else Inr (b div a))"

definition op_modu :: "int32 \<Rightarrow> int32 \<Rightarrow> int32 res" where
  "op_modu b a = (if a = 0 then Inl Div_By_Zero else Inr (b mod a))"

definition op_sex8 :: "int32 \<Rightarrow> int32" where
  "op_sex8 a = (if a AND 0x80 \<noteq> 0 then a OR 0xFFFFFF00 else a)"

definition op_sex16 :: "int32 \<Rightarrow> int32" where
  "op_sex16 a = (if a AND 0x8000 \<noteq> 0 then a OR 0xFFFF0000 else a)"

text \<open>Shift counts modulo 32, as on x86; \<open>>>\<close> of an \<open>int\<close> copies the sign.\<close>

definition sh_count :: "int32 \<Rightarrow> nat" where
  "sh_count a = unat a mod 32"

section \<open>Memory instructions\<close>

definition op_load :: "(qvm_t \<Rightarrow> nat \<Rightarrow> int32 res) \<Rightarrow> qvm_t \<Rightarrow> qvm_t res" where
  "op_load rd vm =
     rbind (sp_get vm 0) (\<lambda>a. rbind (rd vm (unat (a AND ds_mask vm))) (\<lambda>v. sp_set 0 v vm))"

definition op_store :: "(int32 \<Rightarrow> byte list) \<Rightarrow> qvm_t \<Rightarrow> qvm_t res" where
  "op_store enc vm =
     rbind (sp_get vm 1) (\<lambda>a. rbind (sp_get vm 0) (\<lambda>v.
     rbind (wr (unat (a AND ds_mask vm)) (enc v) vm) (POP 2)))"

definition op_arg :: "int32 \<Rightarrow> qvm_t \<Rightarrow> qvm_t res" where
  "op_arg param vm =
     rbind (sp_get vm 0) (\<lambda>v.
     rbind (wr32 (unat ((param + bp vm) AND ds_mask vm)) v vm) (POP 1))"

definition block_copy :: "nat \<Rightarrow> nat \<Rightarrow> nat \<Rightarrow> qvm_t \<Rightarrow> qvm_t res" where
  "block_copy dst src n vm =
     (if n > 0 \<and> (dst + n > ds_size vm \<or> src + n > ds_size vm) then Inl Out_Of_Bounds
      else Inr (vm\<lparr>ds := (\<lambda>i. if dst \<le> i \<and> i < dst + n then ds vm (src + (i - dst)) else ds vm i)\<rparr>))"

definition op_block_copy :: "int32 \<Rightarrow> qvm_t \<Rightarrow> qvm_t res" where
  "op_block_copy param vm =
     rbind (sp_get vm 1) (\<lambda>d. rbind (sp_get vm 0) (\<lambda>s.
     rbind (if d + param < ds_mask vm \<and> s + param < ds_mask vm
            then block_copy (unat (d AND ds_mask vm)) (unat (s AND ds_mask vm)) (unat param) vm
            else Inr vm) (POP 2)))"

section \<open>The interpreter\<close>

datatype outcome = Running qvm_t | Returned qvm_t

text \<open>
  One instruction, the program counter past it.  \<open>OP_PUSH\<close> is \<open>PUSH(*qvm->sp)\<close>, where the macro
  decrements \<open>sp\<close> before it evaluates its argument: the new top is what the memory held there.
\<close>

definition exec_op :: "qvm_host \<Rightarrow> qvm_op_e option \<Rightarrow> int32 \<Rightarrow> qvm_t \<Rightarrow> outcome res" where
  "exec_op host op param vm =
     (let go = (\<lambda>r. rbind r (\<lambda>vm. Inr (Running vm))) in
      case op of None \<Rightarrow> Inl Sys_Error
      | Some op \<Rightarrow> (case op of
        OP_UNDEF \<Rightarrow> Inr (Running vm) | OP_NOP \<Rightarrow> Inr (Running vm)
      | OP_BREAK \<Rightarrow> Inl Sys_Error
      | OP_ENTER \<Rightarrow> go (QVM_Enter param vm)
      | OP_LEAVE \<Rightarrow> rbind (QVM_Return param vm) (\<lambda>(more, vm). Inr (if more then Running vm else Returned vm))
      | OP_CALL \<Rightarrow> go (rbind (sp_get vm 0) (\<lambda>a. rbind (POP 1 vm) (QVM_Call host a)))
      | OP_PUSH \<Rightarrow> go (rbind (sp_down vm) (\<lambda>vm. rbind (sp_get vm 0) (\<lambda>v. sp_set 0 v vm)))
      | OP_POP \<Rightarrow> go (POP 1 vm)
      | OP_CONST \<Rightarrow> go (PUSH param vm)
      | OP_LOCAL \<Rightarrow> go (PUSH (param + bp vm) vm)
      | OP_JUMP \<Rightarrow> go (rbind (sp_get vm 0) (\<lambda>a. rbind (POP 1 vm) (QVM_Goto a)))
      | OP_EQ \<Rightarrow> go (branch (\<lambda>b a. b = a) param vm)
      | OP_NE \<Rightarrow> go (branch (\<lambda>b a. b \<noteq> a) param vm)
      | OP_LTI \<Rightarrow> go (branch (\<lambda>b a. sint b < sint a) param vm)
      | OP_LEI \<Rightarrow> go (branch (\<lambda>b a. sint b \<le> sint a) param vm)
      | OP_GTI \<Rightarrow> go (branch (\<lambda>b a. sint b > sint a) param vm)
      | OP_GEI \<Rightarrow> go (branch (\<lambda>b a. sint b \<ge> sint a) param vm)
      | OP_LTU \<Rightarrow> go (branch (\<lambda>b a. b < a) param vm)
      | OP_LEU \<Rightarrow> go (branch (\<lambda>b a. b \<le> a) param vm)
      | OP_GTU \<Rightarrow> go (branch (\<lambda>b a. b > a) param vm)
      | OP_GEU \<Rightarrow> go (branch (\<lambda>b a. b \<ge> a) param vm)
      | OP_EQF \<Rightarrow> go (branch (feq host) param vm)
      | OP_NEF \<Rightarrow> go (branch (\<lambda>b a. \<not> feq host b a) param vm)
      | OP_LTF \<Rightarrow> go (branch (flt host) param vm)
      | OP_LEF \<Rightarrow> go (branch (fle host) param vm)
      | OP_GTF \<Rightarrow> go (branch (\<lambda>b a. flt host a b) param vm)
      | OP_GEF \<Rightarrow> go (branch (\<lambda>b a. fle host a b) param vm)
      | OP_LOAD1 \<Rightarrow> go (op_load rd8 vm)
      | OP_LOAD2 \<Rightarrow> go (op_load rd16 vm)
      | OP_LOAD4 \<Rightarrow> go (op_load rd32 vm)
      | OP_STORE1 \<Rightarrow> go (op_store (\<lambda>v. [ucast v]) vm)
      | OP_STORE2 \<Rightarrow> go (op_store le16 vm)
      | OP_STORE4 \<Rightarrow> go (op_store le32 vm)
      | OP_ARG \<Rightarrow> go (op_arg param vm)
      | OP_BLOCK_COPY \<Rightarrow> go (op_block_copy param vm)
      | OP_SEX8 \<Rightarrow> go (unop op_sex8 vm)
      | OP_SEX16 \<Rightarrow> go (unop op_sex16 vm)
      | OP_NEGI \<Rightarrow> go (unop uminus vm)
      | OP_ADD \<Rightarrow> go (binop (\<lambda>b a. Inr (b + a)) vm)
      | OP_SUB \<Rightarrow> go (binop (\<lambda>b a. Inr (b - a)) vm)
      | OP_DIVI \<Rightarrow> go (binop op_divi vm)
      | OP_DIVU \<Rightarrow> go (binop op_divu vm)
      | OP_MODI \<Rightarrow> go (binop op_modi vm)
      | OP_MODU \<Rightarrow> go (binop op_modu vm)
      | OP_MULI \<Rightarrow> go (binop (\<lambda>b a. Inr (b * a)) vm)
      | OP_MULU \<Rightarrow> go (binop (\<lambda>b a. Inr (b * a)) vm)
      | OP_BAND \<Rightarrow> go (binop (\<lambda>b a. Inr (b AND a)) vm)
      | OP_BOR \<Rightarrow> go (binop (\<lambda>b a. Inr (b OR a)) vm)
      | OP_BXOR \<Rightarrow> go (binop (\<lambda>b a. Inr (b XOR a)) vm)
      | OP_BCOM \<Rightarrow> go (unop (\<lambda>a. NOT a) vm)
      | OP_LSH \<Rightarrow> go (binop (\<lambda>b a. Inr (push_bit (sh_count a) b)) vm)
      | OP_RSHI \<Rightarrow> go (binop (\<lambda>b a. Inr (signed_drop_bit (sh_count a) b)) vm)
      | OP_RSHU \<Rightarrow> go (binop (\<lambda>b a. Inr (drop_bit (sh_count a) b)) vm)
      | OP_NEGF \<Rightarrow> go (unop (\<lambda>a. a XOR 0x80000000) vm)
      | OP_ADDF \<Rightarrow> go (binop (\<lambda>b a. Inr (fadd host b a)) vm)
      | OP_SUBF \<Rightarrow> go (binop (\<lambda>b a. Inr (fsub host b a)) vm)
      | OP_DIVF \<Rightarrow> go (binop (\<lambda>b a. Inr (fdiv host b a)) vm)
      | OP_MULF \<Rightarrow> go (binop (\<lambda>b a. Inr (fmul host b a)) vm)
      | OP_CVIF \<Rightarrow> go (unop (f_of_int host) vm)
      | OP_CVFI \<Rightarrow> go (unop (int_of_f host) vm)))"

definition qvm_step :: "qvm_host \<Rightarrow> qvm_t \<Rightarrow> outcome res" where
  "qvm_step host vm =
     rbind (fetch vm (pc vm)) (\<lambda>op. rbind (fetch vm (pc vm + 1)) (\<lambda>param.
     exec_op host (op_of op) param (vm\<lparr>pc := pc vm + 2\<rparr>)))"

text \<open>The \<open>for(;;)\<close>: \<open>None\<close> when the program never returns to the engine.\<close>

partial_function (option) qvm_run :: "qvm_host \<Rightarrow> qvm_t \<Rightarrow> qvm_t run" where
  "qvm_run host vm =
     (case qvm_step host vm of
        Inl e \<Rightarrow> Some (Inl e)
      | Inr (Returned vm) \<Rightarrow> Some (Inr vm)
      | Inr (Running vm) \<Rightarrow> qvm_run host vm)"

declare qvm_run.simps [simp del]

text \<open>\<open>args\<close> are the command and its eight arguments.\<close>

definition QVM_ExecVM :: "qvm_host \<Rightarrow> int32 list \<Rightarrow> qvm_t \<Rightarrow> (int32 \<times> qvm_t) run" where
  "QVM_ExecVM host args vm0 =
     (let vm = vm0\<lparr>pc := -1, bp := bp vm0 - 60\<rparr>;
          frame = [0, 0] @ take 9 args @ replicate 4 0
      in
      run_bind (Some (wr (unat (bp vm)) (concat (map le32 frame)) vm)) (\<lambda>vm.
      run_bind (Some (QVM_Call host 0 vm)) (\<lambda>vm.
      run_bind (qvm_run host vm) (\<lambda>vm.
      let vm = vm\<lparr>pc := pc vm0, bp := bp vm + 60\<rparr> in
      run_bind (Some (sp_get vm 0)) (\<lambda>r.
      run_bind (Some (POP 1 vm)) (\<lambda>vm.
      Some (Inr (r, vm))))))))"

end
