(* ===== verification/QvmProps.thy ===== *)
theory QvmProps
  imports Qvm
begin

text \<open>
  What the Quake 3 virtual machine guarantees.  \<open>vm_ok\<close> is the invariant of the machine between two
  instructions.  \<open>checked\<close> collects what an instruction must satisfy for the sandbox to hold and the
  interpreter does not test; under it no instruction leaves the allocated memory, and each of its
  clauses is needed.
\<close>

section \<open>Memory\<close>

text \<open>The word at an address, and the operand stack from its top.\<close>

definition mem32 :: "qvm_t \<Rightarrow> nat \<Rightarrow> int32" where
  "mem32 vm a = word_of_bytes (ds vm a) (ds vm (a + 1)) (ds vm (a + 2)) (ds vm (a + 3))"

abbreviation stk :: "qvm_t \<Rightarrow> nat \<Rightarrow> int32" where
  "stk vm k \<equiv> mem32 vm (sp vm + 4 * k)"

lemma rd32_eq: "rd32 vm a = (if a + 4 \<le> ds_size vm then Inr (mem32 vm a) else Inl Out_Of_Bounds)"
  by (simp add: rd32_def mem32_def)

lemma wr_size: "a + length bs \<le> ds_size vm \<Longrightarrow> wr a bs vm = Inr (vm\<lparr>ds := put_bytes a bs (ds vm)\<rparr>)"
  by (simp add: wr_def)

section \<open>The invariant\<close>

text \<open>The registers stay in their segments and the code is padded; the program counter is at a slot.\<close>

definition regs_ok :: "qvm_t \<Rightarrow> bool" where
  "regs_ok vm \<longleftrightarrow> unat (ds_mask vm) + 1 = ds_size vm \<and>
     min_sp vm \<le> sp vm \<and> sp vm \<le> max_sp vm \<and> max_sp vm + 8 \<le> ds_size vm \<and>
     min_bp vm \<le> bp vm \<and> bp vm \<le> max_bp vm \<and> unat (max_bp vm) \<le> min_sp vm \<and>
     0 < unat (len_cs vm) \<and> 2 * unat (len_cs vm) < 2 ^ 31 \<and> length (cs vm) = 2 * unat (len_cs vm) \<and>
     cs vm ! (2 * unat (len_cs vm) - 2) = 2"

definition pc_ok :: "qvm_t \<Rightarrow> bool" where
  "pc_ok vm \<longleftrightarrow> 0 \<le> pc vm \<and> even (pc vm) \<and> pc vm + 2 \<le> 2 * int (unat (len_cs vm))"

definition vm_ok :: "qvm_t \<Rightarrow> bool" where
  "vm_ok vm \<longleftrightarrow> regs_ok vm \<and> pc_ok vm"

lemmas vm_ok_defs = vm_ok_def regs_ok_def pc_ok_def

lemma vm_ok_mem [simp]: "vm_ok (vm\<lparr>ds := m\<rparr>) \<longleftrightarrow> vm_ok vm" "regs_ok (vm\<lparr>ds := m\<rparr>) \<longleftrightarrow> regs_ok vm"
  by (simp_all add: vm_ok_defs)

lemma vm_ok_sp: "vm_ok vm \<Longrightarrow> min_sp vm \<le> s \<Longrightarrow> s \<le> max_sp vm \<Longrightarrow> vm_ok (vm\<lparr>sp := s\<rparr>)"
  by (simp add: vm_ok_defs)

lemma vm_ok_bp: "vm_ok vm \<Longrightarrow> min_bp vm \<le> b \<Longrightarrow> b \<le> max_bp vm \<Longrightarrow> vm_ok (vm\<lparr>bp := b\<rparr>)"
  by (simp add: vm_ok_defs)

lemma vm_ok_pc:
  assumes "vm_ok vm" and "addr < len_cs vm"
  shows "vm_ok (vm\<lparr>pc := uint addr * 2\<rparr>)"
proof -
  have "uint addr + 1 \<le> uint (len_cs vm)" using assms(2) by (simp add: word_less_def)
  with assms(1) show ?thesis by (simp add: vm_ok_defs)
qed

lemma vm_ok_sizes:
  "vm_ok vm \<Longrightarrow> min_sp vm \<le> sp vm \<and> sp vm + 8 \<le> ds_size vm \<and> unat (bp vm) + 8 \<le> ds_size vm \<and>
     2 * unat (len_cs vm) < 2 ^ 31"
  by (auto simp: vm_ok_defs word_le_nat_alt)

text \<open>\<open>stays r\<close>: the result is no access outside the memory, and keeps the invariant.\<close>

definition stays :: "qvm_t res \<Rightarrow> bool" where
  "stays r \<longleftrightarrow> (case r of Inl e \<Rightarrow> e \<noteq> Out_Of_Bounds | Inr vm \<Rightarrow> vm_ok vm)"

lemma stays_simps [simp]:
  "stays (Inl e) \<longleftrightarrow> e \<noteq> Out_Of_Bounds" "stays (Inr vm) \<longleftrightarrow> vm_ok vm"
  by (simp_all add: stays_def)

lemma stays_bind:
  "stays r \<Longrightarrow> (\<And>vm. r = Inr vm \<Longrightarrow> vm_ok vm \<Longrightarrow> stays (f vm)) \<Longrightarrow> stays (rbind r f)"
  by (cases r) simp_all

lemma sp_get_ok: "vm_ok vm \<Longrightarrow> k \<le> 1 \<Longrightarrow> sp_get vm k = Inr (stk vm k)"
  using vm_ok_sizes [of vm] by (simp add: rd32_eq)

lemmas sp_get0_ok = sp_get_ok [where k = 0, simplified]
lemmas sp_get1_ok = sp_get_ok [where k = 1, simplified]

lemma sp_set_ok: "vm_ok vm \<Longrightarrow> k \<le> 1 \<Longrightarrow>
   sp_set k w vm = Inr (vm\<lparr>ds := put_bytes (sp vm + 4 * k) (le32 w) (ds vm)\<rparr>)"
  by (rule wr_size) (auto dest: vm_ok_sizes)

lemmas sp_set0_ok = sp_set_ok [where k = 0, simplified]
lemmas sp_set1_ok = sp_set_ok [where k = 1, simplified]
lemmas stack_ok = sp_get0_ok sp_get1_ok sp_set0_ok sp_set1_ok

lemma masked_bound: "vm_ok vm \<Longrightarrow> unat (a AND ds_mask vm) < ds_size vm"
proof -
  assume "vm_ok vm"
  then have "unat (ds_mask vm) + 1 = ds_size vm" by (simp add: vm_ok_defs)
  moreover have "a AND ds_mask vm \<le> ds_mask vm" by (rule word_and_le1)
  then have "unat (a AND ds_mask vm) \<le> unat (ds_mask vm)" by (simp add: word_le_nat_alt)
  ultimately show ?thesis by simp
qed

section \<open>Registers and stack operations keep it\<close>

lemma POP_stays [intro]: "vm_ok vm \<Longrightarrow> stays (POP t vm)"
  using vm_ok_sp [of vm "sp vm + 4 * t"] vm_ok_sizes [of vm] by (auto simp: POP_def)

lemma sp_down_stays: "vm_ok vm \<Longrightarrow> stays (sp_down vm)"
  by (auto simp: sp_down_def vm_ok_defs)

lemma PUSH_stays: "vm_ok vm \<Longrightarrow> stays (PUSH v vm)"
  unfolding PUSH_def by (rule stays_bind [OF sp_down_stays]) (simp_all add: sp_set0_ok)

lemma unop_stays: "vm_ok vm \<Longrightarrow> stays (unop f vm)"
  by (simp add: unop_def stack_ok)

lemma binop_stays: "vm_ok vm \<Longrightarrow> (\<And>b a. f b a \<noteq> Inl Out_Of_Bounds) \<Longrightarrow> stays (binop f vm)"
  by (cases "f (stk vm 1) (stk vm 0)") (auto simp: binop_def stack_ok)

lemma Goto_stays:
  assumes "vm_ok vm" and "addr \<noteq> len_cs vm"
  shows "stays (QVM_Goto addr vm)"
proof (cases "addr > len_cs vm")
  case False
  then have lt: "addr < len_cs vm"
    using assms(2) by simp
  then have "unat addr < unat (len_cs vm)"
    by (simp add: word_less_nat_alt)
  moreover have "2 * unat (len_cs vm) < 2 ^ 31"
    using vm_ok_sizes [OF assms(1)] by simp
  ultimately have "unat (addr * 2) = unat addr * 2"
    by (simp add: unat_word_ariths)
  then have "int (unat (addr * 2)) = uint addr * 2"
    by simp
  then show ?thesis
    using False vm_ok_pc [OF assms(1) lt] by (simp add: QVM_Goto_def)
qed (simp add: QVM_Goto_def)

lemma branch_stays: "vm_ok vm \<Longrightarrow> addr \<noteq> len_cs vm \<Longrightarrow> stays (branch c addr vm)"
  by (auto simp: branch_def stack_ok intro: stays_bind Goto_stays)

section \<open>Calls and frames\<close>

lemma Call_stays:
  assumes "vm_ok vm" and "\<And>m. syscall host m (ds_mask vm) (- addr - 1) (unat (bp vm) + 8) \<noteq> Inl Out_Of_Bounds"
  shows "stays (QVM_Call host addr vm)"
  unfolding QVM_Call_def
proof (rule stays_bind [OF sp_down_stays [OF assms(1)]])
  fix vm1
  assume vm1: "sp_down vm = Inr vm1" "vm_ok vm1"
  then have eqs: "ds_mask vm1 = ds_mask vm" "bp vm1 = bp vm"
    by (auto simp: sp_down_def split: if_splits)
  show "stays (if sint addr < 0 then
       rbind (syscall host (ds vm1) (ds_mask vm1) (- addr - 1) (unat (bp vm1) + 8)) (\<lambda>(r, m).
       sp_set 0 r (vm1\<lparr>ds := m\<rparr>))
     else if addr \<ge> len_cs vm1 then Inl Sys_Error
     else
       rbind (sp_set 0 (word_of_int (pc vm1)) vm1) (\<lambda>vm. Inr (vm\<lparr>pc := int (unat addr) * 2\<rparr>)))"
  proof (cases "syscall host (ds vm1) (ds_mask vm) (- addr - 1) (unat (bp vm) + 8)")
    case (Inl e)
    then show ?thesis
      using vm1(2) assms(2) [of "ds vm1"] by (auto simp: eqs stack_ok not_le intro: vm_ok_pc)
  next
    case (Inr rm)
    then show ?thesis
      using vm1(2) sp_set0_ok [of "vm1\<lparr>ds := snd rm\<rparr>"] by (cases rm) (auto simp: eqs stack_ok not_le intro: vm_ok_pc)
  qed
qed

lemma Enter_in:
  assumes "vm_ok vm" and "n \<le> bp vm"
  shows "stays (QVM_Enter n vm)"
proof (cases "bp vm - n < min_bp vm")
  case False
  have le: "bp vm - n \<le> bp vm"
    using assms(2) by (simp add: word_le_nat_alt unat_sub)
  have bp: "vm_ok (vm\<lparr>bp := bp vm - n\<rparr>)"
    using False le assms(1) by (intro vm_ok_bp) (auto simp: vm_ok_defs)
  then have "unat (bp vm - n) + 8 \<le> ds_size vm"
    using vm_ok_sizes [OF bp] by simp
  then show ?thesis
    using False bp vm_ok_sp [OF bp, of "sp vm + 4"] vm_ok_sizes [OF bp]
    by (auto simp: QVM_Enter_def wr_size rd32_eq Let_def)
qed (simp add: QVM_Enter_def)

text \<open>A frame below the segment wraps round to an address that the lower bound accepts.\<close>

lemma Enter_oob:
  assumes "vm_ok vm"
  shows "QVM_Enter n vm = Inl Out_Of_Bounds \<longleftrightarrow> min_bp vm \<le> bp vm - n \<and> ds_size vm < unat (bp vm - n) + 8"
proof -
  have "sp vm + 4 \<le> ds_size vm" using vm_ok_sizes [OF assms] by simp
  then show ?thesis
    by (auto simp: QVM_Enter_def wr_def rd32_eq Let_def)
qed

text \<open>What a function returns to: a slot of the code, or \<open>-1\<close>, the engine.\<close>

definition ret_ok :: "qvm_t \<Rightarrow> bool" where
  "ret_ok vm \<longleftrightarrow> mem32 vm (unat (bp vm) + 4) = -1 \<or> even (mem32 vm (unat (bp vm) + 4))"

definition stays_or_returns :: "outcome res \<Rightarrow> bool" where
  "stays_or_returns r \<longleftrightarrow> (case r of Inl e \<Rightarrow> e \<noteq> Out_Of_Bounds | Inr (Running vm) \<Rightarrow> vm_ok vm
     | Inr (Returned vm) \<Rightarrow> regs_ok vm \<and> pc vm = -1)"

lemma even_unat: "even (unat w) \<longleftrightarrow> even w" "even (uint w) \<longleftrightarrow> even w" for w :: int32
  using bit_unsigned_iff [where w = w and n = 0 and ?'a = nat]
    bit_unsigned_iff [where w = w and n = 0 and ?'a = int] by (simp_all add: bit_0)

lemma Return_ok:
  assumes "vm_ok vm" and "bp vm \<le> bp vm + n" and "ret_ok vm"
  shows "stays_or_returns (rbind (QVM_Return n vm)
     (\<lambda>(more, vm). Inr (if more then Running vm else Returned vm)))"
proof (cases "bp vm + n > max_bp vm \<or> sp_depth vm \<noteq> sint (mem32 vm (unat (bp vm)))")
  case True
  then show ?thesis
    using vm_ok_sizes [OF assms(1)]
    by (auto simp: QVM_Return_def rd32_eq Let_def stays_or_returns_def sp_depth_def mem32_def)
next
  case False
  let ?ret = "mem32 vm (unat (bp vm) + 4)" and ?vm = "vm\<lparr>bp := bp vm + n\<rparr>"
  have ok: "vm_ok ?vm"
    using False assms(1,2) by (intro vm_ok_bp) (auto simp: vm_ok_defs)
  have eq: "QVM_Return n vm = (let vm = ?vm\<lparr>pc := sint ?ret\<rparr> in
      if ?ret \<ge> len_cs vm * 2 then (if ?ret = -1 then Inr (False, vm) else Inl Sys_Error) else Inr (True, vm))"
    using False vm_ok_sizes [OF assms(1)]
    by (simp add: QVM_Return_def rd32_eq Let_def sp_depth_def mem32_def)
  show ?thesis
  proof (cases "?ret \<ge> len_cs vm * 2")
    case True
    then show ?thesis using ok by (simp add: eq stays_or_returns_def vm_ok_def regs_ok_def)
  next
    case lt: False
    have small: "2 * unat (len_cs vm) < 2 ^ 31" using vm_ok_sizes [OF assms(1)] by simp
    then have l2: "unat (len_cs vm * 2) = 2 * unat (len_cs vm)" by (simp add: unat_word_ariths)
    with lt have r: "unat ?ret < 2 * unat (len_cs vm)" by (simp add: word_le_nat_alt)
    then have "?ret \<noteq> -1" using small by (auto simp: unsigned_minus_1_eq_mask mask_eq_exp_minus_1)
    then have "even ?ret" using assms(3) by (simp add: ret_ok_def)
    then have ev: "even (unat ?ret)" by (simp add: even_unat)
    have "sint ?ret = int (unat ?ret)" using r small by (intro sint_small) simp
    moreover have "unat ?ret + 2 \<le> 2 * unat (len_cs vm)" using r ev by presburger
    then have "int (unat ?ret) + 2 \<le> 2 * int (unat (len_cs vm))" by linarith
    ultimately have "pc_ok (?vm\<lparr>pc := sint ?ret\<rparr>)" using ev by (simp add: pc_ok_def even_unat)
    then show ?thesis using lt ok by (simp add: eq stays_or_returns_def vm_ok_def regs_ok_def)
  qed
qed

section \<open>Memory instructions\<close>

text \<open>The address an instruction uses, masked as the code does.\<close>

abbreviation masked :: "qvm_t \<Rightarrow> int32 \<Rightarrow> nat" where
  "masked vm a \<equiv> unat (a AND ds_mask vm)"

lemma POP_no_oob [simp]: "POP t vm \<noteq> Inl Out_Of_Bounds"
  by (simp add: POP_def)

lemma load_oob:
  "vm_ok vm \<Longrightarrow> (\<And>a. rd vm a = (if a + n \<le> ds_size vm then Inr (v a) else Inl Out_Of_Bounds)) \<Longrightarrow>
   op_load rd vm = Inl Out_Of_Bounds \<longleftrightarrow> ds_size vm < masked vm (stk vm 0) + n"
  by (auto simp: op_load_def stack_ok)

lemma load_stays: "vm_ok vm \<Longrightarrow> op_load rd vm \<noteq> Inl Out_Of_Bounds \<Longrightarrow> stays (op_load rd vm)"
  by (cases "rd vm (masked vm (stk vm 0))") (auto simp: op_load_def stack_ok)

lemma load8_stays: "vm_ok vm \<Longrightarrow> stays (op_load rd8 vm)"
  using load_oob [of vm rd8 1] masked_bound [of vm "stk vm 0"]
  by (intro load_stays) (auto simp: rd8_def)

lemma load16_stays: "vm_ok vm \<Longrightarrow> masked vm (stk vm 0) + 2 \<le> ds_size vm \<Longrightarrow> stays (op_load rd16 vm)"
  using load_oob [of vm rd16 2] by (intro load_stays) (auto simp: rd16_def)

lemma load32_stays: "vm_ok vm \<Longrightarrow> masked vm (stk vm 0) + 4 \<le> ds_size vm \<Longrightarrow> stays (op_load rd32 vm)"
  using load_oob [of vm rd32 4] by (intro load_stays) (auto simp: rd32_eq)

lemma store_oob:
  "vm_ok vm \<Longrightarrow> op_store enc vm = Inl Out_Of_Bounds \<longleftrightarrow>
     ds_size vm < masked vm (stk vm 1) + length (enc (stk vm 0))"
  by (auto simp: op_store_def stack_ok wr_def)

lemma store_stays:
  "vm_ok vm \<Longrightarrow> masked vm (stk vm 1) + length (enc (stk vm 0)) \<le> ds_size vm \<Longrightarrow> stays (op_store enc vm)"
  by (auto simp: op_store_def stack_ok wr_def)

lemma store8_stays: "vm_ok vm \<Longrightarrow> stays (op_store (\<lambda>v. [f v]) vm)"
  using masked_bound [of vm "stk vm 1"] by (intro store_stays) simp_all

lemma arg_oob:
  "vm_ok vm \<Longrightarrow> op_arg n vm = Inl Out_Of_Bounds \<longleftrightarrow> ds_size vm < masked vm (n + bp vm) + 4"
  by (auto simp: op_arg_def stack_ok wr_def)

lemma arg_stays: "vm_ok vm \<Longrightarrow> masked vm (n + bp vm) + 4 \<le> ds_size vm \<Longrightarrow> stays (op_arg n vm)"
  by (auto simp: op_arg_def stack_ok wr_def)

definition copy_out :: "int32 \<Rightarrow> qvm_t \<Rightarrow> bool" where
  "copy_out n vm \<longleftrightarrow> stk vm 1 + n < ds_mask vm \<and> stk vm 0 + n < ds_mask vm \<and> 0 < n \<and>
     (ds_size vm < masked vm (stk vm 1) + unat n \<or> ds_size vm < masked vm (stk vm 0) + unat n)"

lemma copy_oob:
  "vm_ok vm \<Longrightarrow> op_block_copy n vm = Inl Out_Of_Bounds \<longleftrightarrow> copy_out n vm"
  by (auto simp: op_block_copy_def block_copy_def copy_out_def stack_ok word_less_nat_alt unat_gt_0)

lemma copy_stays: "vm_ok vm \<Longrightarrow> \<not> copy_out n vm \<Longrightarrow> stays (op_block_copy n vm)"
  by (auto simp: op_block_copy_def block_copy_def copy_out_def stack_ok word_less_nat_alt unat_gt_0)

text \<open>A copy whose sums do not wrap stays inside.\<close>

lemma copy_in:
  assumes "vm_ok vm" and "stk vm 1 \<le> stk vm 1 + n" and "stk vm 0 \<le> stk vm 0 + n"
  shows "\<not> copy_out n vm"
proof
  assume out: "copy_out n vm"
  have m: "unat (ds_mask vm) < ds_size vm" using assms(1) by (auto simp: vm_ok_defs)
  have *: "masked vm a + unat n < ds_size vm" if "a \<le> a + n" "a + n < ds_mask vm" for a
  proof -
    have "unat (a AND ds_mask vm) \<le> unat a"
      using word_and_le2 [of a "ds_mask vm"] by (simp add: word_le_nat_alt)
    moreover have "unat (a + n) = unat a + unat n" using that(1) by (simp add: unat_plus_simple)
    moreover have "unat (a + n) < unat (ds_mask vm)" using that(2) by (simp add: word_less_nat_alt)
    ultimately show ?thesis using m by simp
  qed
  from out show False
    using * [OF assms(2)] * [OF assms(3)] unfolding copy_out_def by linarith
qed

section \<open>One instruction\<close>

text \<open>
  Exactly when an instruction leaves the memory of the machine, and, besides that, when it takes
  the registers out of their segments (\<open>derails\<close>): a frame larger than the base pointer or one that
  wraps, a return to the middle of a slot, a jump to the end of the code.
\<close>

definition escapes :: "qvm_op_e option \<Rightarrow> int32 \<Rightarrow> qvm_t \<Rightarrow> bool" where
  "escapes op param vm = (case op of
     Some OP_ENTER \<Rightarrow> min_bp vm \<le> bp vm - param \<and> ds_size vm < unat (bp vm - param) + 8
   | Some OP_LOAD2 \<Rightarrow> ds_size vm < masked vm (stk vm 0) + 2
   | Some OP_LOAD4 \<Rightarrow> ds_size vm < masked vm (stk vm 0) + 4
   | Some OP_STORE2 \<Rightarrow> ds_size vm < masked vm (stk vm 1) + 2
   | Some OP_STORE4 \<Rightarrow> ds_size vm < masked vm (stk vm 1) + 4
   | Some OP_ARG \<Rightarrow> ds_size vm < masked vm (param + bp vm) + 4
   | Some OP_BLOCK_COPY \<Rightarrow> copy_out param vm
   | _ \<Rightarrow> False)"

definition derails :: "qvm_op_e option \<Rightarrow> int32 \<Rightarrow> qvm_t \<Rightarrow> bool" where
  "derails op param vm = (case op of
     Some OP_ENTER \<Rightarrow> bp vm < param
   | Some OP_LEAVE \<Rightarrow> bp vm + param < bp vm \<or> \<not> ret_ok vm
   | Some OP_JUMP \<Rightarrow> stk vm 0 = len_cs vm
   | Some op \<Rightarrow> op \<in> {OP_EQ, OP_NE, OP_LTI, OP_LEI, OP_GTI, OP_GEI, OP_LTU, OP_LEU, OP_GTU, OP_GEU,
       OP_EQF, OP_NEF, OP_LTF, OP_LEF, OP_GTF, OP_GEF} \<and> param = len_cs vm
   | None \<Rightarrow> False)"

text \<open>The host keeps inside: a system call is itself no access outside the memory.\<close>

definition host_ok :: "qvm_host \<Rightarrow> bool" where
  "host_ok host \<longleftrightarrow> (\<forall>m k n fp. syscall host m k n fp \<noteq> Inl Out_Of_Bounds)"

lemma jump_stays:
  assumes "vm_ok vm" and "a \<noteq> len_cs vm"
  shows "stays (rbind (POP 1 vm) (QVM_Goto a))"
proof (rule stays_bind [OF POP_stays [OF assms(1)]])
  fix vm' assume "POP 1 vm = Inr vm'" and "vm_ok vm'"
  then show "stays (QVM_Goto a vm')"
    using assms(2) by (auto simp: POP_def intro: Goto_stays split: if_splits)
qed

lemma call_stays:
  assumes "vm_ok vm" and "host_ok host"
  shows "stays (rbind (POP 1 vm) (QVM_Call host a))"
  using assms by (intro stays_bind [OF POP_stays] Call_stays) (auto simp: host_ok_def)

lemma push_top_stays:
  "vm_ok vm \<Longrightarrow> stays (rbind (sp_down vm) (\<lambda>vm. rbind (rd32 vm (sp vm)) (\<lambda>v. wr32 (sp vm) v vm)))"
  by (rule stays_bind [OF sp_down_stays]) (simp_all add: stack_ok)

lemma stays_running:
  "stays r \<Longrightarrow> stays_or_returns (rbind r (\<lambda>vm. Inr (Running vm)))"
  by (cases r) (simp_all add: stays_or_returns_def)

lemma stays_or_returns_simps [simp]:
  "stays_or_returns (Inl e) \<longleftrightarrow> e \<noteq> Out_Of_Bounds" "stays_or_returns (Inr (Running vm)) \<longleftrightarrow> vm_ok vm"
  by (simp_all add: stays_or_returns_def)

lemma no_oob_ops [simp]:
  "op_divi b a \<noteq> Inl Out_Of_Bounds" "op_modi b a \<noteq> Inl Out_Of_Bounds"
  "op_divu b a \<noteq> Inl Out_Of_Bounds" "op_modu b a \<noteq> Inl Out_Of_Bounds"
  by (simp_all add: op_divi_def op_modi_def op_divu_def op_modu_def)

lemmas op_stays = Enter_in POP_stays push_top_stays PUSH_stays branch_stays unop_stays binop_stays
  jump_stays call_stays load8_stays load16_stays load32_stays store8_stays store_stays arg_stays copy_stays

lemma exec_op_stays:
  assumes "vm_ok vm" "host_ok host" "\<not> escapes op param vm" "\<not> derails op param vm"
  shows "stays_or_returns (exec_op host op param vm)"
proof (cases op)
  case (Some i)
  show ?thesis
    using assms unfolding Some exec_op_def Let_def
    by (cases i) (auto simp: escapes_def derails_def not_less stack_ok
      intro!: stays_running Return_ok op_stays simp del: One_nat_def)
qed (simp add: exec_op_def stays_or_returns_def)

lemma Return_no_oob:
  "vm_ok vm \<Longrightarrow> rbind (QVM_Return n vm) (\<lambda>(more, vm). Inr (if more then Running vm else Returned vm))
     \<noteq> Inl Out_Of_Bounds"
  using vm_ok_sizes [of vm] by (auto simp: QVM_Return_def rd32_eq Let_def mem32_def)

lemma branch_no_oob: "vm_ok vm \<Longrightarrow> branch c n vm \<noteq> Inl Out_Of_Bounds"
  by (auto simp: branch_def stack_ok QVM_Goto_def)

lemma rbind_oob:
  "rbind r f = Inl e \<longleftrightarrow> r = Inl e \<or> (\<exists>x. r = Inr x \<and> f x = Inl e)"
  by (cases r) auto

lemma jump_no_oob: "rbind (POP 1 vm) (QVM_Goto a) \<noteq> Inl Out_Of_Bounds"
  by (auto simp: rbind_oob QVM_Goto_def)

lemma stays_no_oob: "stays r \<Longrightarrow> r \<noteq> Inl Out_Of_Bounds"
  by auto

lemmas ops_no_oob = Return_no_oob branch_no_oob jump_no_oob push_top_stays [THEN stays_no_oob]
  PUSH_stays [THEN stays_no_oob] unop_stays [THEN stays_no_oob] binop_stays [THEN stays_no_oob]
  call_stays [THEN stays_no_oob] load8_stays [THEN stays_no_oob] store8_stays [THEN stays_no_oob]

lemma load_oobs:
  "vm_ok vm \<Longrightarrow> op_load rd16 vm = Inl Out_Of_Bounds \<longleftrightarrow> ds_size vm < masked vm (stk vm 0) + 2"
  "vm_ok vm \<Longrightarrow> op_load rd32 vm = Inl Out_Of_Bounds \<longleftrightarrow> ds_size vm < masked vm (stk vm 0) + 4"
  by (rule load_oob; simp add: rd16_def rd32_eq)+

lemma exec_op_oob:
  assumes "vm_ok vm" and "host_ok host"
  shows "exec_op host op param vm = Inl Out_Of_Bounds \<longleftrightarrow> escapes op param vm"
proof (cases op)
  case (Some i)
  have "Suc (masked vm (stk vm 1)) \<le> ds_size vm"
    using masked_bound [OF assms(1)] by (rule Suc_leI)
  then show ?thesis
    using assms unfolding Some exec_op_def Let_def
    by (cases i) (simp_all add: escapes_def rbind_oob [of _ "\<lambda>vm. Inr (Running vm)"]
      Enter_oob store_oob arg_oob copy_oob load_oobs ops_no_oob stack_ok del: One_nat_def)
qed (simp add: exec_op_def escapes_def)

section \<open>One step\<close>

abbreviation cur_op :: "qvm_t \<Rightarrow> qvm_op_e option" where
  "cur_op vm \<equiv> op_of (cs vm ! nat (pc vm))"

abbreviation cur_param :: "qvm_t \<Rightarrow> int32" where
  "cur_param vm \<equiv> cs vm ! nat (pc vm + 1)"

abbreviation past :: "qvm_t \<Rightarrow> qvm_t" where
  "past vm \<equiv> vm\<lparr>pc := pc vm + 2\<rparr>"

lemma vm_ok_slot:
  assumes "vm_ok vm"
  obtains k where "pc vm = 2 * int k" and "k < unat (len_cs vm)" and "length (cs vm) = 2 * unat (len_cs vm)"
proof -
  have pc: "0 \<le> pc vm" "even (pc vm)" "pc vm + 2 \<le> 2 * int (unat (len_cs vm))"
    and len: "length (cs vm) = 2 * unat (len_cs vm)"
    using assms unfolding vm_ok_defs by blast+
  obtain j where j: "pc vm = 2 * j" using pc(2) by (rule evenE)
  have "pc vm = 2 * int (nat j)" and "nat j < unat (len_cs vm)"
    using pc(1,3) j by linarith+
  then show ?thesis using that len by blast
qed

lemma fetch_ok:
  assumes "vm_ok vm"
  shows "qvm_step host vm = exec_op host (cur_op vm) (cur_param vm) (past vm)"
proof -
  obtain k where k: "pc vm = 2 * int k" "k < unat (len_cs vm)" "length (cs vm) = 2 * unat (len_cs vm)"
    using assms by (rule vm_ok_slot)
  then have "nat (pc vm) = 2 * k" "nat (pc vm + 1) = 2 * k + 1" by auto
  with k show ?thesis by (simp add: qvm_step_def fetch_def)
qed

text \<open>Only the padding is in the last slot, and it stops the machine.\<close>

lemma past_ok:
  assumes "vm_ok vm" and "cur_op vm \<noteq> Some OP_BREAK"
  shows "vm_ok (past vm)"
proof -
  obtain k where k: "pc vm = 2 * int k" "k < unat (len_cs vm)"
    using assms(1) by (rule vm_ok_slot)
  have "op_of 2 = Some OP_BREAK" by (simp add: op_of_def qvm_ops_def)
  then have "cs vm ! (2 * k) \<noteq> 2" using assms(2) k(1) by (auto simp: nat_mult_distrib)
  then have "k \<noteq> unat (len_cs vm) - 1"
    using assms(1) k(2) by (auto simp: vm_ok_defs diff_mult_distrib2)
  then have "pc vm + 2 + 2 \<le> 2 * int (unat (len_cs vm))" using k by linarith
  then show ?thesis using assms(1) by (simp add: vm_ok_defs)
qed

lemma step_oob_iff:
  assumes "vm_ok vm" and "host_ok host"
  shows "qvm_step host vm = Inl Out_Of_Bounds \<longleftrightarrow> escapes (cur_op vm) (cur_param vm) (past vm)"
proof (cases "cur_op vm = Some OP_BREAK")
  case True
  then show ?thesis by (simp add: fetch_ok [OF assms(1)] exec_op_def escapes_def)
next
  case False
  show ?thesis unfolding fetch_ok [OF assms(1)] by (rule exec_op_oob [OF past_ok [OF assms(1) False] assms(2)])
qed

text \<open>
  C6: from a state of the invariant, and for a host that stays inside, one step of the interpreter
  leaves the memory of the machine exactly when \<open>escapes\<close> says so: a frame that wraps below zero, a
  load or store of two or four bytes at one of the last addresses, a block copy whose sum wraps.
  The masks of the code cover every other access of all sixty instructions.
\<close>

theorem qvm_step_escapes_iff:
  assumes "vm_ok vm" and "host_ok host"
  shows "qvm_step host vm = Inl Out_Of_Bounds \<longleftrightarrow> escapes (cur_op vm) (cur_param vm) (past vm)"
  by (rule step_oob_iff [OF assms])

lemma qvm_step_stays:
  assumes "vm_ok vm" "host_ok host" "\<not> escapes (cur_op vm) (cur_param vm) (past vm)"
    and "\<not> derails (cur_op vm) (cur_param vm) (past vm)"
  shows "stays_or_returns (qvm_step host vm)"
proof (cases "cur_op vm = Some OP_BREAK")
  case True
  then show ?thesis by (simp add: fetch_ok [OF assms(1)] exec_op_def)
next
  case False
  show ?thesis unfolding fetch_ok [OF assms(1)]
    by (rule exec_op_stays [OF past_ok [OF assms(1) False] assms(2-4)])
qed

section \<open>Runs\<close>

text \<open>The states a program passes through, from one to another.\<close>

inductive reaches :: "qvm_host \<Rightarrow> qvm_t \<Rightarrow> qvm_t \<Rightarrow> bool" for host where
  refl: "reaches host vm vm"
| step: "qvm_step host vm = Inr (Running vm') \<Longrightarrow> reaches host vm' vm'' \<Longrightarrow> reaches host vm vm''"

text \<open>A program that behaves: whatever it reaches, its next instruction neither escapes nor derails.\<close>

definition behaves :: "qvm_host \<Rightarrow> qvm_t \<Rightarrow> bool" where
  "behaves host vm \<longleftrightarrow> (\<forall>vm'. reaches host vm vm' \<longrightarrow>
     \<not> escapes (cur_op vm') (cur_param vm') (past vm') \<and> \<not> derails (cur_op vm') (cur_param vm') (past vm'))"

lemma behaves_step:
  "behaves host vm \<Longrightarrow> qvm_step host vm = Inr (Running vm') \<Longrightarrow> behaves host vm'"
  by (auto simp: behaves_def intro: reaches.step)

lemma behaves_now:
  "behaves host vm \<Longrightarrow> vm_ok vm \<Longrightarrow> host_ok host \<Longrightarrow> stays_or_returns (qvm_step host vm)"
  using reaches.refl [of host vm] by (intro qvm_step_stays) (auto simp: behaves_def)

text \<open>
  C7: the invariant of the interpreter (registers inside their segments, the program counter at a
  slot of the code) holds in every state a program that behaves can reach.
\<close>

theorem reaches_ok:
  assumes "reaches host vm vm'" and "vm_ok vm" and "host_ok host" and "behaves host vm"
  shows "vm_ok vm'"
  using assms
proof (induction rule: reaches.induct)
  case (step vm1 vm2 vm3)
  have "vm_ok vm2" using behaves_now [OF step.prems(3,1,2)] step.hyps(1) by simp
  then show ?case using step behaves_step by blast
qed

definition run_kept :: "qvm_t res \<Rightarrow> bool" where
  "run_kept r \<longleftrightarrow> (case r of Inl e \<Rightarrow> e \<noteq> Out_Of_Bounds | Inr vm \<Rightarrow> regs_ok vm \<and> pc vm = -1)"

lemma qvm_run_kept:
  assumes "qvm_run host vm = Some r"
  shows "vm_ok vm \<longrightarrow> host_ok host \<longrightarrow> behaves host vm \<longrightarrow> run_kept r"
proof (rule qvm_run.raw_induct [OF _ assms], intro impI)
  fix run host vm r
  assume IH: "\<And>host vm y. run host vm = Some y \<Longrightarrow>
      vm_ok vm \<longrightarrow> host_ok host \<longrightarrow> behaves host vm \<longrightarrow> run_kept y"
    and run: "(case qvm_step host vm of Inl e \<Rightarrow> Some (Inl e) | Inr (Running vm) \<Rightarrow> run host vm
       | Inr (Returned vm) \<Rightarrow> Some (Inr vm)) = Some r"
    and ok: "vm_ok vm" "host_ok host" "behaves host vm"
  have s: "stays_or_returns (qvm_step host vm)" using ok by (intro behaves_now)
  show "run_kept r"
  proof (cases "qvm_step host vm")
    case (Inl e)
    then show ?thesis using run s by (auto simp: run_kept_def)
  next
    case (Inr out)
    then show ?thesis using run s IH ok behaves_step
      by (cases out) (auto simp: stays_or_returns_def run_kept_def)
  qed
qed

lemma qvm_run_in_bounds:
  assumes "qvm_run host vm = Some r" and "vm_ok vm" and "host_ok host" and "behaves host vm"
  shows "r \<noteq> Inl Out_Of_Bounds \<and> (\<forall>vm'. r = Inr vm' \<longrightarrow> regs_ok vm' \<and> pc vm' = -1)"
  using qvm_run_kept [OF assms(1)] assms(2-4) by (auto simp: run_kept_def split: sum.splits)

end
