(* ===== verification/QvmLoad.thy ===== *)
theory QvmLoad
  imports QvmProps
begin

text \<open>
  The loader of the virtual machine: the registers it sets up satisfy the invariant of the
  interpreter when the header's lengths are sane, which the code does not check, and the code and
  data of a well-formed file arrive in the machine.
\<close>

section \<open>The size of the memory\<close>

lemma mask_bits_spec:
  "unat need \<le> 2 ^ 30 \<Longrightarrow> i + n = 31 \<Longrightarrow> i \<le> 30 \<Longrightarrow>
   mask_bits need i n \<le> 30 \<and> unat need \<le> 2 ^ mask_bits need i n"
proof (induction need i n rule: mask_bits.induct)
  case (2 need i n)
  have p: "push_bit i 1 \<ge> need \<longleftrightarrow> unat need \<le> 2 ^ i"
    using 2(4) by (simp add: word_le_nat_alt push_bit_eq_mult unat_pow2)
  show ?case
  proof (cases "unat need \<le> 2 ^ i")
    case False
    have "i \<noteq> 30" using False 2(2) by auto
    then show ?thesis using 2 False p by simp
  qed (use p 2 in simp)
qed simp

abbreviation seg_len :: "vmHeader \<Rightarrow> nat" where
  "seg_len h \<equiv> unat (dataLength h) + unat (litLength h) + unat (bssLength h)"

text \<open>Lengths for which no sum of the loader wraps.\<close>

definition sane :: "vmHeader \<Rightarrow> bool" where
  "sane h \<longleftrightarrow> seg_len h + 262208 \<le> 2 ^ 30 \<and> unat (instructionCount h) < 2 ^ 26"

lemma seg_len_word:
  "sane h \<Longrightarrow> unat (dataLength h + litLength h + bssLength h) = seg_len h"
  by (simp add: sane_def unat_word_ariths)

definition mem_bits :: "vmHeader \<Rightarrow> nat" where
  "mem_bits h = mask_bits (dataLength h + litLength h + bssLength h + (256 * 1024 + 64)) 0 31"

lemma mem_bits_bounds:
  assumes "sane h"
  shows "mem_bits h \<le> 30" and "seg_len h + 262208 \<le> 2 ^ mem_bits h" and "8 dvd (2::nat) ^ mem_bits h"
proof -
  have n: "unat (dataLength h + litLength h + bssLength h + (256 * 1024 + 64)) = seg_len h + 262208"
    using assms seg_len_word [OF assms] by (simp add: sane_def unat_word_ariths)
  have "unat (dataLength h + litLength h + bssLength h + (256 * 1024 + 64)) \<le> 2 ^ 30"
    unfolding n using assms by (simp add: sane_def)
  from mask_bits_spec [OF this, of 0 31]
  show "mem_bits h \<le> 30" and le: "seg_len h + 262208 \<le> 2 ^ mem_bits h"
    unfolding n mem_bits_def by simp_all
  have "\<not> mem_bits h < 3"
  proof
    assume "mem_bits h < 3"
    then have "(2::nat) ^ mem_bits h \<le> 2 ^ 3" by (intro power_increasing) simp_all
    with le show False by simp
  qed
  then show "8 dvd (2::nat) ^ mem_bits h"
    using le_imp_power_dvd [of 3 "mem_bits h" "2::nat"] by simp
qed

section \<open>The registers\<close>

lemma and_7: "unat (w AND 7) = unat w mod 8" for w :: int32
proof -
  have "w AND 7 = take_bit 3 w" by (simp add: take_bit_eq_mask mask_eq_exp_minus_1)
  then show ?thesis by (simp only: unsigned_take_bit_eq) (simp add: take_bit_eq_mod)
qed

text \<open>The length of the stack segment, and when it leaves two words behind the operand stack.\<close>

definition stack_len :: "vmHeader \<Rightarrow> nat" where
  "stack_len h = (let n = 2 ^ mem_bits h - seg_len h - 4 in n - n mod 8)"

lemma slack_mod:
  assumes "L + 262208 \<le> M" and "8 dvd (M :: nat)"
  shows "4 \<le> (M - L - 4) mod 8 \<longleftrightarrow> L mod 8 \<notin> {1, 2, 3, 4}"
proof -
  define l e where "l = L div 8" and "e = L mod 8"
  obtain k where k: "M = 8 * k" using assms(2) by (rule dvdE)
  have L: "L = 8 * l + e" "e < 8" by (simp_all add: l_def e_def)
  have "l + 2 \<le> k" using assms(1) k L by linarith
  then obtain j where j: "k = l + 2 + j" using le_Suc_ex by blast
  show ?thesis
  proof (cases "e \<le> 4")
    case True
    then have "M - L - 4 = 8 * (j + 1) + (4 - e)" using k j L by simp
    then have "(M - L - 4) mod 8 = (4 - e) mod 8" by (simp only: mod_mult_self4)
    then have "4 \<le> (M - L - 4) mod 8 \<longleftrightarrow> e = 0" by auto
    also have "e = 0 \<longleftrightarrow> e \<notin> {1, 2, 3, 4}" using True by auto
    finally show ?thesis by (simp only: e_def)
  next
    case False
    then have "M - L - 4 = 8 * j + (4 + (8 - e))" using k j L by simp
    then have "(M - L - 4) mod 8 = (4 + (8 - e)) mod 8" by simp
    also have "\<dots> = 12 - e" using False L(2) by simp
    finally show ?thesis using False L(2) by (auto simp: e_def)
  qed
qed

text \<open>What \<open>QVM_LoadVM\<close> sets up, as numbers.\<close>

lemma layout_sizes:
  assumes "sane h"
  defines "L \<equiv> seg_len h" and "M \<equiv> 2 ^ mem_bits h" and "S \<equiv> stack_len h"
  shows "ds_size (qvm_layout h) = M" "unat (ds_mask (qvm_layout h)) = M - 1"
    "max_sp (qvm_layout h) = L + S" "sp (qvm_layout h) = L + S" "min_sp (qvm_layout h) = L + S div 2"
    "unat (max_bp (qvm_layout h)) = L + S div 2" "bp (qvm_layout h) = max_bp (qvm_layout h)"
    "unat (min_bp (qvm_layout h)) = L" "unat (len_cs (qvm_layout h)) = unat (instructionCount h) + 1"
    "pc (qvm_layout h) = 0" "ds (qvm_layout h) = (\<lambda>_. 0)"
proof -
  define lds where "lds = dataLength h + litLength h + bssLength h"
  define top where "top = push_bit (mem_bits h) (1 :: int32)"
  define lss0 where "lss0 = top - lds - 4"
  define lss where "lss = lss0 - (lss0 AND 7)"
  have lds: "unat lds = L"
    using seg_len_word [OF assms(1)] by (simp add: lds_def L_def)
  have b: "mem_bits h \<le> 30" "L + 262208 \<le> M" "S = (M - L - 4) - (M - L - 4) mod 8"
    using mem_bits_bounds [OF assms(1)] by (simp_all add: L_def M_def S_def stack_len_def Let_def)
  have M30: "M \<le> 2 ^ 30"
    unfolding M_def using b(1) by (rule power_increasing) simp
  have top: "unat top = M"
    using b(1) by (simp add: top_def M_def push_bit_eq_mult unat_pow2)
  have lss0: "unat lss0 = M - L - 4"
    using b M30 lds top unfolding lss0_def by (simp add: unat_sub_if')
  have lss: "unat lss = S"
    using lss0 b(2,3) mod_less_eq_dividend [of "M - L - 4" 8] unfolding lss_def by (auto simp: unat_sub_if' and_7)
  have SM: "S \<le> M" using b(3) by simp
  have half: "unat (drop_bit 1 lss) = S div 2"
    using lss by (simp add: drop_bit_eq_div unat_div_distrib)
  have mask: "lds + (lss0 + 4) = top" by (simp add: lss0_def)
  have n: "unat (instructionCount h) < 2 ^ 26" using assms(1) by (simp add: sane_def)
  have lcs: "unat (instructionCount h + 1) = unat (instructionCount h) + 1"
    using n by (simp add: unat_word_ariths)
  have mem: "unat ((instructionCount h + 1) * 8 + top) = 8 * (unat (instructionCount h) + 1) + M"
    using n M30 top lcs by (simp add: unat_word_ariths)
  have msk: "unat (top - 1) = M - 1"
    using top b(2) by (simp add: unat_sub_if')
  have mb: "unat (lds + drop_bit 1 lss) = L + S div 2"
    using lds half b(2) SM M30 by (simp add: unat_word_ariths)
  have lay: "qvm_layout h = \<lparr>cs = [], ds = (\<lambda>_. 0),
      ds_size = unat ((instructionCount h + 1) * 8 + top) - 8 * unat (instructionCount h + 1), pc = 0,
      sp = unat lds + unat lss, bp = lds + drop_bit 1 lss,
      min_sp = unat lds + unat (drop_bit 1 lss), max_sp = unat lds + unat lss,
      min_bp = lds, max_bp = lds + drop_bit 1 lss,
      len_cs = instructionCount h + 1, len_ds = lds, len_ss = lss, ds_mask = top - 1\<rparr>"
    unfolding qvm_layout_def Let_def lds_def [symmetric] mem_bits_def [of h, folded lds_def, symmetric]
      top_def [symmetric] lss0_def [symmetric] lss_def [symmetric] mask ..
  show "ds_size (qvm_layout h) = M" "unat (ds_mask (qvm_layout h)) = M - 1"
    "max_sp (qvm_layout h) = L + S" "sp (qvm_layout h) = L + S" "min_sp (qvm_layout h) = L + S div 2"
    "unat (max_bp (qvm_layout h)) = L + S div 2" "bp (qvm_layout h) = max_bp (qvm_layout h)"
    "unat (min_bp (qvm_layout h)) = L" "unat (len_cs (qvm_layout h)) = unat (instructionCount h) + 1"
    "pc (qvm_layout h) = 0" "ds (qvm_layout h) = (\<lambda>_. 0)"
    using b(2) unfolding lay qvm_t.select_convs mem lcs msk mb half lss lds by simp_all
qed

lemma layout_ok_iff:
  assumes "sane h" and "length code = 2 * unat (instructionCount h)"
  shows "vm_ok ((qvm_layout h)\<lparr>cs := code @ [2, 0], ds := m\<rparr>) \<longleftrightarrow> seg_len h mod 8 \<notin> {1, 2, 3, 4}"
proof -
  let ?n = "2 ^ mem_bits h - seg_len h - 4"
  have b: "seg_len h + 262208 \<le> 2 ^ mem_bits h" and "unat (instructionCount h) < 2 ^ 26"
    using assms(1) mem_bits_bounds by (simp_all add: sane_def)
  then have rest: "vm_ok ((qvm_layout h)\<lparr>cs := code @ [2, 0], ds := m\<rparr>) \<longleftrightarrow>
      seg_len h + stack_len h + 8 \<le> 2 ^ mem_bits h"
    using layout_sizes [OF assms(1)] assms(2)
    by (auto simp: vm_ok_defs word_le_nat_alt nth_append)
  have n: "seg_len h + 4 + ?n = 2 ^ mem_bits h" "?n mod 8 \<le> ?n"
    using b by simp_all
  have "seg_len h + stack_len h + 8 \<le> 2 ^ mem_bits h \<longleftrightarrow> 4 \<le> ?n mod 8"
    unfolding stack_len_def Let_def using n by linarith
  then show ?thesis
    using rest slack_mod [OF b] mem_bits_bounds(3) [OF assms(1)] by simp
qed

section \<open>The file\<close>

lemma load_code_length: "load_code raw n src = Inr code \<Longrightarrow> length code = 2 * n"
  by (induction n arbitrary: src code) (auto simp: Let_def rbind_eq_Inr split: if_splits)

lemma load_bytes_ds: "load_bytes raw src n dst vm = Inr vm' \<Longrightarrow> \<exists>m. vm' = vm\<lparr>ds := m\<rparr>"
  by (auto simp: load_bytes_def wr_def split: if_splits intro: exI [of _ "ds vm"])

lemma QVM_LoadVM_form:
  assumes "QVM_LoadVM raw = Inr (Some vm)" and "read_header raw = Inr h"
  obtains code m where "length code = 2 * unat (instructionCount h)"
    and "vm = (qvm_layout h)\<lparr>cs := code @ [2, 0], ds := m\<rparr>"
  using assms
  by (auto simp: QVM_LoadVM_def Let_def rbind_eq_Inr dest!: load_code_length load_bytes_ds split: if_splits)

text \<open>
  C9: the machine \<open>QVM_LoadVM\<close> builds from a file whose lengths are sane satisfies the invariant of
  the interpreter, exactly if the data of the file does not end one to four bytes past a multiple of
  eight.  In that case it gets four to seven bytes behind the operand stack, where an instruction
  with two operands looks at eight.
\<close>

theorem QVM_LoadVM_ok_iff:
  assumes "QVM_LoadVM raw = Inr (Some vm)" and "read_header raw = Inr h" and "sane h"
  shows "vm_ok vm \<longleftrightarrow> seg_len h mod 8 \<notin> {1, 2, 3, 4}"
  using QVM_LoadVM_form [OF assms(1,2)] layout_ok_iff [OF assms(3)] by metis

text \<open>
  on a machine loaded from a file whose data ends so, an instruction with two operands on the
  empty stack reads behind the memory: the word the loader reserves for that case is one too few.
\<close>

theorem empty_stack_escapes:
  assumes "QVM_LoadVM raw = Inr (Some vm)" and "read_header raw = Inr h" and "sane h"
    and "seg_len h mod 8 \<in> {1, 2, 3, 4}"
  shows "exec_op host (Some OP_ADD) param vm = Inl Out_Of_Bounds"
proof -
  obtain code m where vm: "vm = (qvm_layout h)\<lparr>cs := code @ [2, 0], ds := m\<rparr>"
    using QVM_LoadVM_form [OF assms(1,2)] .
  let ?n = "2 ^ mem_bits h - seg_len h - 4"
  have b: "seg_len h + 262208 \<le> 2 ^ mem_bits h" "8 dvd (2::nat) ^ mem_bits h"
    using mem_bits_bounds [OF assms(3)] by simp_all
  then have "\<not> 4 \<le> ?n mod 8" using slack_mod [OF b] assms(4) by blast
  moreover have "seg_len h + 4 + ?n = 2 ^ mem_bits h" "?n mod 8 \<le> ?n"
    using b(1) by simp_all
  moreover have "sp vm = seg_len h + (?n - ?n mod 8)" "ds_size vm = 2 ^ mem_bits h"
    using layout_sizes(1,4) [OF assms(3)] by (simp_all add: vm stack_len_def Let_def)
  ultimately have "ds_size vm < sp vm + 8" by linarith
  then show ?thesis by (simp add: exec_op_def binop_def rd32_eq)
qed

section \<open>Round trip\<close>

text \<open>A file of given instructions, data words and literal bytes.\<close>

definition enc_slot :: "int32 \<times> int32 \<Rightarrow> byte list" where
  "enc_slot = (\<lambda>(w, p). ucast w #
     (if operand_size w = 4 then le32 p else if operand_size w = 1 then [ucast p] else []))"

definition slot_ok :: "int32 \<times> int32 \<Rightarrow> bool" where
  "slot_ok = (\<lambda>(w, p). w < 256 \<and>
     (if operand_size w = 4 then True else if operand_size w = 1 then p < 256 else p = 0))"

definition image_header :: "(int32 \<times> int32) list \<Rightarrow> int32 list \<Rightarrow> byte list \<Rightarrow> int32 \<Rightarrow> vmHeader" where
  "image_header code data lit bss =
     \<lparr>vmMagic = VM_MAGIC, instructionCount = of_nat (length code), codeOffset = 32,
      codeLength = of_nat (length (concat (map enc_slot code))),
      dataOffset = of_nat (32 + length (concat (map enc_slot code))),
      dataLength = of_nat (4 * length data), litLength = of_nat (length lit), bssLength = bss\<rparr>"

definition enc_header :: "vmHeader \<Rightarrow> byte list" where
  "enc_header h = concat (map le32 [vmMagic h, instructionCount h, codeOffset h, codeLength h,
     dataOffset h, dataLength h, litLength h, bssLength h])"

definition qvm_image :: "(int32 \<times> int32) list \<Rightarrow> int32 list \<Rightarrow> byte list \<Rightarrow> int32 \<Rightarrow> byte list" where
  "qvm_image code data lit bss =
     enc_header (image_header code data lit bss) @
     concat (map enc_slot code) @ concat (map le32 data) @ lit"

lemma word_of_le32 [simp]:
  "word_of_bytes (ucast w) (ucast (drop_bit 8 w)) (ucast (drop_bit 16 w)) (ucast (drop_bit 24 w)) = w"
  using join_le32 [of w] by (simp only: word_of_bytes_def byte_sum_or4)

lemma byte_small: "w < 256 \<Longrightarrow> ucast (ucast w :: byte) = w" for w :: int32
proof -
  assume "w < 256"
  then have "w < 2 ^ 8" by simp
  then have "take_bit 8 w = w" by (simp add: less_mask_eq take_bit_eq_mask)
  then show ?thesis by (simp add: byte_and_mask take_bit_eq_mask)
qed

lemma operand_size_cases: "operand_size w = 4 \<or> operand_size w = 1 \<or> operand_size w = 0"
proof (cases "op_of w")
  case (Some i)
  then show ?thesis by (cases i) (simp_all add: operand_size_def)
qed (simp add: operand_size_def)

lemma raw_at_append: "k < length bs \<Longrightarrow> raw_at (pre @ bs @ post) (int (length pre + k)) = Inr (bs ! k)"
  unfolding raw_at_def nat_int by (simp add: nth_append)

lemma raw_long_append:
  "raw_long (pre @ le32 w @ post) (int (length pre)) = Inr w"
proof -
  have *: "raw_at (pre @ le32 w @ post) (int (length pre) + int k) = Inr (le32 w ! k)" if "k < 4" for k
    using raw_at_append [of k "le32 w" pre post] that by simp
  show ?thesis
    using * [of 0] * [of 1] * [of 2] * [of 3]
    by (simp add: raw_long_def le32_def numeral_2_eq_2 numeral_3_eq_3)
qed

lemma load_code_enc:
  "\<forall>s \<in> set code. slot_ok s \<Longrightarrow>
   load_code (pre @ concat (map enc_slot code) @ post) (length code) (int (length pre)) =
     Inr (concat (map (\<lambda>(w, p). [w, p]) code))"
proof (induction code arbitrary: pre)
  case (Cons s code)
  obtain w p where s: "s = (w, p)" by (cases s)
  define raw where "raw = pre @ concat (map enc_slot (s # code)) @ post"
  let ?rest = "concat (map enc_slot code) @ post"
  have raw: "raw = pre @ enc_slot (w, p) @ ?rest" by (simp add: raw_def s)
  have ok: "slot_ok (w, p)" using Cons.prems s by simp
  then have w: "ucast (ucast w :: byte) = w" by (simp add: slot_ok_def byte_small)
  have rest: "load_code raw (length code) (int (length pre + length (enc_slot (w, p)))) =
      Inr (concat (map (\<lambda>(w, p). [w, p]) code))"
    using Cons.IH [of "pre @ enc_slot (w, p)"] Cons.prems by (simp add: raw)
  have op: "raw_at raw (int (length pre)) = Inr (ucast w)"
    using raw_at_append [of 0 "enc_slot (w, p)" pre ?rest] by (simp add: raw enc_slot_def)
  have "load_code raw (length (s # code)) (int (length pre)) = Inr (w # p # concat (map (\<lambda>(w, p). [w, p]) code))"
  proof -
    consider "operand_size w = 4" | "operand_size w = 1" | "operand_size w = 0"
      using operand_size_cases [of w] by linarith
    then show ?thesis
    proof cases
      case 1
      have "raw_long raw (int (length pre) + 1) = Inr p"
        using raw_long_append [of "pre @ [ucast w]" p ?rest] 1 by (simp add: raw enc_slot_def add.commute)
      moreover have "load_code raw (length code) (int (length pre) + 1 + 4) =
          Inr (concat (map (\<lambda>(w, p). [w, p]) code))"
        using rest 1 by (simp add: enc_slot_def add.commute)
      ultimately show ?thesis using op w 1 by (simp add: Let_def)
    next
      case 2
      have "raw_at raw (int (length pre) + 1) = Inr (ucast p)"
        using raw_at_append [of 0 "[ucast p]" "pre @ [ucast w]" ?rest] 2
        by (simp add: raw enc_slot_def add.commute)
      moreover have "load_code raw (length code) (int (length pre) + 1 + 1) =
          Inr (concat (map (\<lambda>(w, p). [w, p]) code))"
        using rest 2 by (simp add: enc_slot_def add.commute)
      moreover have "ucast (ucast p :: byte) = p" using ok 2 by (simp add: slot_ok_def byte_small)
      ultimately show ?thesis using op w 2 by (simp add: Let_def)
    next
      case 3
      have "load_code raw (length code) (int (length pre) + 1) =
          Inr (concat (map (\<lambda>(w, p). [w, p]) code))"
        using rest 3 by (simp add: enc_slot_def add.commute)
      then show ?thesis using op w ok 3 by (simp add: Let_def slot_ok_def)
    qed
  qed
  then show ?case by (simp add: raw_def s)
qed simp

lemma length_le32s: "length (concat (map le32 ws)) = 4 * length ws"
  by (induction ws) simp_all

lemma raw_long_words:
  assumes "k < length ws"
  shows "raw_long (concat (map le32 ws) @ rest) (4 * int k) = Inr (ws ! k)"
proof -
  have "concat (map le32 ws) @ rest =
      concat (map le32 (take k ws)) @ le32 (ws ! k) @ concat (map le32 (drop (Suc k) ws)) @ rest"
    using id_take_nth_drop [OF assms] by (metis append.assoc concat.simps(2) concat_append list.simps(9) map_append)
  moreover have "int (length (concat (map le32 (take k ws)))) = 4 * int k"
    using assms by (simp add: length_le32s)
  ultimately show ?thesis
    using raw_long_append [of "concat (map le32 (take k ws))" "ws ! k"] by metis
qed

lemma read_header_enc:
  assumes "vmMagic h = VM_MAGIC"
  shows "read_header (enc_header h @ rest) = Inr h"
proof -
  let ?ws = "[vmMagic h, instructionCount h, codeOffset h, codeLength h,
     dataOffset h, dataLength h, litLength h, bssLength h]"
  have r: "raw_long (enc_header h @ rest) (4 * int k) = Inr (?ws ! k)" if "k < 8" for k
    unfolding enc_header_def using that by (intro raw_long_words) simp
  have "VM_MAGIC \<noteq> VM_MAGIC2" by (simp add: VM_MAGIC_def VM_MAGIC2_def)
  then show ?thesis
    using r [of 0] r [of 1] r [of 2] r [of 3] r [of 4] r [of 5] r [of 6] r [of 7] assms
    by (simp add: read_header_def)
qed

lemma put_bytes_Nil [simp]: "put_bytes a [] m = m"
  by (rule ext) (auto simp: put_bytes_def)

lemma put_bytes_append: "put_bytes (a + length bs) bs' (put_bytes a bs m) = put_bytes a (bs @ bs') m"
  by (rule ext) (auto simp: put_bytes_def nth_append)

lemma load_bytes_append:
  assumes "dst + length bs \<le> ds_size vm"
  shows "load_bytes (pre @ bs @ post) (int (length pre)) (length bs) dst vm =
    Inr (vm\<lparr>ds := put_bytes dst bs (ds vm)\<rparr>)"
  using assms by (cases bs) (simp_all add: load_bytes_def wr_def)

lemma length_enc_slot: "0 < length (enc_slot s)"
  by (cases s) (simp add: enc_slot_def)

lemma length_enc_code: "length code \<le> length (concat (map enc_slot code))"
proof (induction code)
  case (Cons s code)
  then show ?case
    using length_enc_slot [of s] unfolding list.map concat.simps length_append list.size by linarith
qed simp

lemma int_of_nat_small: "n < 2 ^ 31 \<Longrightarrow> unat (of_nat n :: int32) = n \<and> sint (of_nat n :: int32) = int n"
proof -
  assume n: "n < 2 ^ 31"
  then have u: "unat (of_nat n :: int32) = n" by (simp add: unat_of_nat)
  with n show ?thesis using sint_small [of "of_nat n :: int32"] by simp
qed

lemma sint_unat_small: "unat w < 2 ^ 31 \<Longrightarrow> 0 \<le> sint w" for w :: int32
  by (simp add: sint_small)

text \<open>A file of known parts is accepted, and its code and data arrive.\<close>

lemma load_image:
  assumes "code \<noteq> []" and "\<forall>s \<in> set code. slot_ok s"
    and "length (qvm_image code data lit bss) < 2 ^ 31" and "sane (image_header code data lit bss)"
  shows "\<exists>vm. QVM_LoadVM (qvm_image code data lit bss) = Inr (Some vm) \<and>
    (seg_len (image_header code data lit bss) mod 8 = 0 \<longrightarrow> vm_ok vm) \<and>
    cs vm = concat (map (\<lambda>(w, p). [w, p]) code) @ [2, 0] \<and>
    ds vm = put_bytes 0 (concat (map le32 data) @ lit) (\<lambda>_. 0)"
proof -
  let ?h = "image_header code data lit bss" and ?raw = "qvm_image code data lit bss"
  let ?code = "concat (map enc_slot code)" and ?data = "concat (map le32 data)"
  let ?words = "concat (map (\<lambda>(w, p). [w, p]) code)"
  define hdr where "hdr = enc_header ?h"
  have hdr: "length hdr = 32" by (simp add: hdr_def enc_header_def)
  have raw: "?raw = hdr @ ?code @ ?data @ lit" by (simp add: qvm_image_def hdr_def)
  have len: "32 + length ?code + 4 * length data + length lit < 2 ^ 31"
    using assms(3) unfolding raw length_append hdr length_le32s by simp
  have lc: "length code \<le> length ?code" by (rule length_enc_code)
  have nc: "0 < length code" using assms(1) by simp
  have rh: "read_header ?raw = Inr ?h"
    unfolding raw hdr_def by (rule read_header_enc) (simp add: image_header_def)
  have f: "unat (instructionCount ?h) = length code" "sint (instructionCount ?h) = int (length code)"
    "sint (codeLength ?h) = int (length ?code)" "sint (codeOffset ?h) = 32"
    "sint (dataOffset ?h) = int (32 + length ?code)" "sint (dataLength ?h) = int (4 * length data)"
    "unat (dataLength ?h) = 4 * length data" "unat (litLength ?h) = length lit"
    "sint (litLength ?h) = int (length lit)"
    using len lc int_of_nat_small by (simp_all add: image_header_def del: of_nat_add of_nat_mult)
  have lcode: "load_code ?raw (length code) 32 = Inr ?words"
    using load_code_enc [OF assms(2), of hdr "?data @ lit"] by (simp add: raw hdr)
  define vm0 where "vm0 = (qvm_layout ?h)\<lparr>cs := ?words @ [2, 0]\<rparr>"
  have lw: "length ?words = 2 * length code" by (induction code) auto
  have ok0: "vm_ok vm0" if "seg_len ?h mod 8 = 0"
    using layout_ok_iff [OF assms(4), of ?words "ds (qvm_layout ?h)"] that lw f(1) by (simp add: vm0_def)
  have room: "4 * length data + length lit \<le> ds_size vm0"
    using layout_sizes(1) [OF assms(4)] mem_bits_bounds(2) [OF assms(4)] f(7,8) by (simp add: vm0_def)
  have fit: "8 * (length code + 1) \<le> 8 * unat (len_cs (qvm_layout ?h)) + ds_size (qvm_layout ?h)"
    using layout_sizes(9) [OF assms(4)] f(1) by simp
  define vm1 where "vm1 = vm0\<lparr>ds := put_bytes 0 ?data (\<lambda>_. 0)\<rparr>"
  have ds0: "ds vm0 = (\<lambda>_. 0)"
    using layout_sizes(11) [OF assms(4)] by (simp add: vm0_def)
  have l1: "load_bytes ?raw (int (32 + length ?code)) (4 * length data) 0 vm0 = Inr vm1"
    using load_bytes_append [of 0 ?data vm0 "hdr @ ?code" lit] room ds0
    by (simp add: raw hdr length_le32s vm1_def)
  have l2: "load_bytes ?raw (int (32 + length ?code) + int (4 * length data)) (length lit) (4 * length data) vm1 =
      Inr (vm1\<lparr>ds := put_bytes 0 (?data @ lit) (\<lambda>_. 0)\<rparr>)"
    using load_bytes_append [of "4 * length data" lit vm1 "hdr @ ?code @ ?data" "[]"] room
      put_bytes_append [of 0 ?data lit "\<lambda>_. 0"]
    by (simp add: raw hdr length_le32s vm1_def add.assoc)
  have words: "nat (sint (dataLength ?h)) div 4 = length data"
    unfolding f(6) nat_int by simp
  have accept: "((vmMagic ?h \<noteq> VM_MAGIC \<and> vmMagic ?h \<noteq> VM_MAGIC2) \<or>
      sint (instructionCount ?h) \<le> 0 \<or> sint (codeLength ?h) \<le> 0) = False"
    using nc less_le_trans [OF nc lc] unfolding f by (simp add: image_header_def)
  have pos: "(sint (litLength ?h) < 0) = False" unfolding f by simp
  have "QVM_LoadVM ?raw = Inr (Some (vm1\<lparr>ds := put_bytes 0 (?data @ lit) (\<lambda>_. 0)\<rparr>))"
    unfolding QVM_LoadVM_def rh rbind_Inr Let_def
    by (simp only: accept if_False f(1,4,5,8) words lcode rbind_Inr fit if_True vm0_def [symmetric] l1 pos l2)
  then show ?thesis
    using ok0 by (simp add: vm1_def vm0_def)
qed

end
