(* ===== verification/QvmExpr.thy ===== *)
theory QvmExpr
  imports QvmLoad
begin

text \<open>
  Programs that compute: expressions over the arguments of \<open>QVM_ExecVM\<close>, with a meaning of their own
  on integers, compiled to the instructions of the virtual machine.  A file with such a function,
  loaded and called, returns the value of the expression, or stops at the division the expression
  cannot do; registers and data come back as they were.
\<close>

section \<open>Expressions\<close>

datatype un = Sex8 | Sex16 | Negi | Bcom

datatype bin = Add | Sub | Divi | Divu | Modi | Modu | Muli | Mulu | Band | Bor | Bxor | Lsh | Rshi | Rshu

datatype expr = Const int32 | Arg nat | Unary un expr | Binary bin expr expr

text \<open>
  The meaning of the operators, on the numbers the words stand for.  Sign extension leaves a value
  whose sign bit is clear as it is, upper bits included.
\<close>

fun un_sem :: "un \<Rightarrow> int32 \<Rightarrow> int32" where
  "un_sem Sex8 a = (if bit a 7 then scast (ucast a :: 8 word) else a)"
| "un_sem Sex16 a = (if bit a 15 then scast (ucast a :: 16 word) else a)"
| "un_sem Negi a = word_of_int (- sint a)"
| "un_sem Bcom a = word_of_int (- sint a - 1)"

fun bin_sem :: "bin \<Rightarrow> int32 \<Rightarrow> int32 \<Rightarrow> int32 res" where
  "bin_sem Add b a = Inr (word_of_int (sint b + sint a))"
| "bin_sem Sub b a = Inr (word_of_int (sint b - sint a))"
| "bin_sem Divi b a = (if a = 0 \<or> sint b = - (2 ^ 31) \<and> sint a = -1 then Inl Div_By_Zero
     else Inr (word_of_int (sint b sdiv sint a)))"
| "bin_sem Divu b a = (if a = 0 then Inl Div_By_Zero else Inr (word_of_int (uint b div uint a)))"
| "bin_sem Modi b a = (if a = 0 \<or> sint b = - (2 ^ 31) \<and> sint a = -1 then Inl Div_By_Zero
     else Inr (word_of_int (sint b smod sint a)))"
| "bin_sem Modu b a = (if a = 0 then Inl Div_By_Zero else Inr (word_of_int (uint b mod uint a)))"
| "bin_sem Muli b a = Inr (word_of_int (sint b * sint a))"
| "bin_sem Mulu b a = Inr (word_of_int (uint b * uint a))"
| "bin_sem Band b a = Inr (b AND a)"
| "bin_sem Bor b a = Inr (b OR a)"
| "bin_sem Bxor b a = Inr (b XOR a)"
| "bin_sem Lsh b a = Inr (word_of_int (uint b * 2 ^ (unat a mod 32)))"
| "bin_sem Rshi b a = Inr (word_of_int (sint b div 2 ^ (unat a mod 32)))"
| "bin_sem Rshu b a = Inr (word_of_int (uint b div 2 ^ (unat a mod 32)))"

fun eval :: "int32 list \<Rightarrow> expr \<Rightarrow> int32 res" where
  "eval args (Const w) = Inr w"
| "eval args (Arg i) = peek args i"
| "eval args (Unary f e) = rbind (eval args e) (\<lambda>a. Inr (un_sem f a))"
| "eval args (Binary f e e') = rbind (eval args e) (\<lambda>b. rbind (eval args e') (bin_sem f b))"

section \<open>Compilation\<close>

fun un_op :: "un \<Rightarrow> qvm_op_e" where
  "un_op Sex8 = OP_SEX8" | "un_op Sex16 = OP_SEX16" | "un_op Negi = OP_NEGI" | "un_op Bcom = OP_BCOM"

fun bin_op :: "bin \<Rightarrow> qvm_op_e" where
  "bin_op Add = OP_ADD" | "bin_op Sub = OP_SUB" | "bin_op Divi = OP_DIVI" | "bin_op Divu = OP_DIVU"
| "bin_op Modi = OP_MODI" | "bin_op Modu = OP_MODU" | "bin_op Muli = OP_MULI" | "bin_op Mulu = OP_MULU"
| "bin_op Band = OP_BAND" | "bin_op Bor = OP_BOR" | "bin_op Bxor = OP_BXOR"
| "bin_op Lsh = OP_LSH" | "bin_op Rshi = OP_RSHI" | "bin_op Rshu = OP_RSHU"

definition op_word :: "qvm_op_e \<Rightarrow> int32" where
  "op_word i = of_nat (length (takeWhile (\<lambda>j. j \<noteq> i) qvm_ops))"

lemma op_of_word [simp]: "op_of (op_word i) = Some i"
  by (cases i) (simp_all add: op_word_def op_of_def qvm_ops_def)

text \<open>The frame has eight bytes, for what \<open>QVM_Enter\<close> saves; the arguments lie behind it and two words.\<close>

fun comp :: "expr \<Rightarrow> (int32 \<times> int32) list" where
  "comp (Const w) = [(op_word OP_CONST, w)]"
| "comp (Arg i) = [(op_word OP_LOCAL, of_nat (16 + 4 * i)), (op_word OP_LOAD4, 0)]"
| "comp (Unary f e) = comp e @ [(op_word (un_op f), 0)]"
| "comp (Binary f e e') = comp e @ comp e' @ [(op_word (bin_op f), 0)]"

definition compile :: "expr \<Rightarrow> (int32 \<times> int32) list" where
  "compile e = (op_word OP_ENTER, 8) # comp e @ [(op_word OP_LEAVE, 8)]"

text \<open>The words an expression needs on the operand stack, and that it names the nine arguments only.\<close>

fun depth :: "expr \<Rightarrow> nat" where
  "depth (Const w) = 1"
| "depth (Arg i) = 1"
| "depth (Unary f e) = depth e"
| "depth (Binary f e e') = max (depth e) (1 + depth e')"

fun args_below :: "nat \<Rightarrow> expr \<Rightarrow> bool" where
  "args_below n (Const w) \<longleftrightarrow> True"
| "args_below n (Arg i) \<longleftrightarrow> i < n"
| "args_below n (Unary f e) \<longleftrightarrow> args_below n e"
| "args_below n (Binary f e e') \<longleftrightarrow> args_below n e \<and> args_below n e'"

lemma depth_pos [simp]: "0 < depth e"
  by (induction e) auto

section \<open>The instructions mean the operators\<close>

lemma sex_bits: "a AND 0x80 \<noteq> 0 \<longleftrightarrow> bit a 7" "a AND 0x8000 \<noteq> 0 \<longleftrightarrow> bit a 15" for a :: int32
  using and_exp_eq_0_iff_not_bit [of a 7] and_exp_eq_0_iff_not_bit [of a 15] by simp_all

lemma sex_masks: "(0xFFFFFF00 :: int32) = NOT (mask 8)" "(0xFFFF0000 :: int32) = NOT (mask 16)"
  by (simp_all add: mask_eq_exp_minus_1)

lemma sex8_eq: "op_sex8 a = un_sem Sex8 a"
proof -
  have "a OR NOT (mask 8) = scast (ucast a :: 8 word)" if "bit a 7"
  proof (rule bit_word_eqI)
    fix n assume "n < LENGTH(32)"
    then show "bit (a OR NOT (mask 8)) n = bit (scast (ucast a :: 8 word) :: int32) n"
      using that by (cases "n < 7"; cases "n = 7") (auto simp: bit_simps min_def)
  qed
  then show ?thesis unfolding op_sex8_def sex_bits sex_masks by simp
qed

lemma sex16_eq: "op_sex16 a = un_sem Sex16 a"
proof -
  have "a OR NOT (mask 16) = scast (ucast a :: 16 word)" if "bit a 15"
  proof (rule bit_word_eqI)
    fix n assume "n < LENGTH(32)"
    then show "bit (a OR NOT (mask 16)) n = bit (scast (ucast a :: 16 word) :: int32) n"
      using that by (cases "n < 15"; cases "n = 15") (auto simp: bit_simps min_def)
  qed
  then show ?thesis unfolding op_sex16_def sex_bits sex_masks by simp
qed

lemma un_exec:
  "exec_op host (Some (un_op f)) p vm = rbind (unop (un_sem f) vm) (\<lambda>vm. Inr (Running vm))"
proof -
  have "uminus = un_sem Negi" "NOT = un_sem Bcom"
    by (auto simp: fun_eq_iff not_eq_complement wi_hom_neg wi_hom_sub)
  moreover have "op_sex8 = un_sem Sex8" "op_sex16 = un_sem Sex16"
    by (rule ext, simp only: sex8_eq sex16_eq)+
  ultimately show ?thesis by (cases f) (simp_all add: exec_op_def)
qed

lemma sint_int_min: "b = 0x80000000 \<longleftrightarrow> sint b = - (2 ^ 31)" for b :: int32
proof
  assume "sint b = - (2 ^ 31)"
  then have "word_of_int (sint b) = (word_of_int (- (2 ^ 31)) :: int32)" by simp
  then show "b = 0x80000000" by simp
qed simp

lemma sint_minus_1: "a = -1 \<longleftrightarrow> sint a = -1" for a :: int32
proof
  assume "sint a = -1"
  then have "word_of_int (sint a) = (word_of_int (-1) :: int32)" by simp
  then show "a = -1" by simp
qed simp

lemma quot_traps_iff: "quot_traps b a \<longleftrightarrow> a = 0 \<or> sint b = - (2 ^ 31) \<and> sint a = -1"
  unfolding quot_traps_def sint_int_min sint_minus_1 ..

lemma shr_signed: "word_of_int (sint b div 2 ^ n) = signed_drop_bit n b" for b :: int32
proof -
  have "word_of_int (sint (signed_drop_bit n b)) = (word_of_int (sint b div 2 ^ n) :: int32)"
    by (simp only: sint_signed_drop_bit_eq drop_bit_eq_div)
  then show ?thesis by simp
qed

lemma shr_unsigned: "word_of_int (uint b div 2 ^ n) = drop_bit n b" for b :: int32
  unfolding drop_bit_eq_div [symmetric]
  by (rule bit_word_eqI) (auto simp: bit_simps dest: bit_imp_le_length)

lemma bin_exec:
  "exec_op host (Some (bin_op f)) p vm = rbind (binop (bin_sem f) vm) (\<lambda>vm. Inr (Running vm))"
proof -
  have "bin_sem f b a = (case f of
       Add \<Rightarrow> Inr (b + a) | Sub \<Rightarrow> Inr (b - a) | Divi \<Rightarrow> op_divi b a | Divu \<Rightarrow> op_divu b a
     | Modi \<Rightarrow> op_modi b a | Modu \<Rightarrow> op_modu b a | Muli \<Rightarrow> Inr (b * a) | Mulu \<Rightarrow> Inr (b * a)
     | Band \<Rightarrow> Inr (b AND a) | Bor \<Rightarrow> Inr (b OR a) | Bxor \<Rightarrow> Inr (b XOR a)
     | Lsh \<Rightarrow> Inr (push_bit (sh_count a) b) | Rshi \<Rightarrow> Inr (signed_drop_bit (sh_count a) b)
     | Rshu \<Rightarrow> Inr (drop_bit (sh_count a) b))" for b a
    by (cases f) (simp_all add: op_divi_def op_modi_def op_divu_def op_modu_def quot_traps_iff
        word_div_def word_mod_def sh_count_def wi_hom_add wi_hom_sub wi_hom_mult
        push_bit_eq_mult shr_signed shr_unsigned)
  then have "bin_sem f = (\<lambda>b a. case f of
       Add \<Rightarrow> Inr (b + a) | Sub \<Rightarrow> Inr (b - a) | Divi \<Rightarrow> op_divi b a | Divu \<Rightarrow> op_divu b a
     | Modi \<Rightarrow> op_modi b a | Modu \<Rightarrow> op_modu b a | Muli \<Rightarrow> Inr (b * a) | Mulu \<Rightarrow> Inr (b * a)
     | Band \<Rightarrow> Inr (b AND a) | Bor \<Rightarrow> Inr (b OR a) | Bxor \<Rightarrow> Inr (b XOR a)
     | Lsh \<Rightarrow> Inr (push_bit (sh_count a) b) | Rshi \<Rightarrow> Inr (signed_drop_bit (sh_count a) b)
     | Rshu \<Rightarrow> Inr (drop_bit (sh_count a) b))"
    by blast
  then show ?thesis by (cases f) (simp_all add: exec_op_def)
qed

section \<open>Memory\<close>

definition m32 :: "(nat \<Rightarrow> byte) \<Rightarrow> nat \<Rightarrow> int32" where
  "m32 m a = word_of_bytes (m a) (m (a + 1)) (m (a + 2)) (m (a + 3))"

lemma rd32_m32: "a + 4 \<le> ds_size vm \<Longrightarrow> rd32 vm a = Inr (m32 (ds vm) a)"
  by (simp add: rd32_eq mem32_def m32_def)

lemma m32_put [simp]: "m32 (put_bytes a (le32 w) m) a = w"
  by (simp add: m32_def put_bytes_def le32_def)

lemma m32_cong: "(\<And>i. a \<le> i \<Longrightarrow> i < a + 4 \<Longrightarrow> m i = m' i) \<Longrightarrow> m32 m a = m32 m' a"
  by (simp add: m32_def)

lemma put_bytes_other: "i < a \<or> a + length bs \<le> i \<Longrightarrow> put_bytes a bs m i = m i"
  by (auto simp: put_bytes_def)

section \<open>Running the code\<close>

text \<open>The machine at a slot of its code, with its stack pointer and its memory.\<close>

definition at_slot :: "qvm_t \<Rightarrow> nat \<Rightarrow> nat \<Rightarrow> (nat \<Rightarrow> byte) \<Rightarrow> qvm_t" where
  "at_slot vm k s m = vm\<lparr>ds := m, pc := 2 * int k, sp := s\<rparr>"

lemma at_slot_simps [simp]:
  "ds (at_slot vm k s m) = m" "pc (at_slot vm k s m) = 2 * int k" "sp (at_slot vm k s m) = s"
  "bp (at_slot vm k s m) = bp vm" "cs (at_slot vm k s m) = cs vm" "ds_size (at_slot vm k s m) = ds_size vm"
  "ds_mask (at_slot vm k s m) = ds_mask vm" "min_sp (at_slot vm k s m) = min_sp vm"
  "max_sp (at_slot vm k s m) = max_sp vm" "len_cs (at_slot vm k s m) = len_cs vm"
  "max_bp (at_slot vm k s m) = max_bp vm"
  by (simp_all add: at_slot_def)

lemma at_slot_updates [simp]:
  "(at_slot vm k s m)\<lparr>ds := m'\<rparr> = at_slot vm k s m'" "(at_slot vm k s m)\<lparr>sp := s'\<rparr> = at_slot vm k s' m"
  "(at_slot vm k s m)\<lparr>pc := 2 * int k + 2\<rparr> = at_slot vm (k + 1) s m"
  by (cases vm, simp add: at_slot_def)+

definition code_at :: "qvm_t \<Rightarrow> nat \<Rightarrow> (int32 \<times> int32) list \<Rightarrow> bool" where
  "code_at vm k code \<longleftrightarrow> (\<forall>j < length code. 2 * (k + j) + 1 < length (cs vm) \<and>
     cs vm ! (2 * (k + j)) = fst (code ! j) \<and> cs vm ! (2 * (k + j) + 1) = snd (code ! j))"

lemma code_at_append:
  "code_at vm k (c @ c') \<longleftrightarrow> code_at vm k c \<and> code_at vm (k + length c) c'"
proof
  assume "code_at vm k c \<and> code_at vm (k + length c) c'"
  then have c: "code_at vm k c" and c': "code_at vm (k + length c) c'" by simp_all
  show "code_at vm k (c @ c')"
    unfolding code_at_def
  proof (intro allI impI)
    fix j assume "j < length (c @ c')"
    then show "2 * (k + j) + 1 < length (cs vm) \<and> cs vm ! (2 * (k + j)) = fst ((c @ c') ! j) \<and>
        cs vm ! (2 * (k + j) + 1) = snd ((c @ c') ! j)"
      using c [unfolded code_at_def, rule_format, of j] c' [unfolded code_at_def, rule_format, of "j - length c"]
      by (cases "j < length c") (auto simp: nth_append)
  qed
next
  assume a: "code_at vm k (c @ c')"
  have "code_at vm k c"
    unfolding code_at_def
  proof (intro allI impI)
    fix j assume "j < length c"
    then show "2 * (k + j) + 1 < length (cs vm) \<and> cs vm ! (2 * (k + j)) = fst (c ! j) \<and>
        cs vm ! (2 * (k + j) + 1) = snd (c ! j)"
      using a [unfolded code_at_def, rule_format, of j] by (simp add: nth_append)
  qed
  moreover have "code_at vm (k + length c) c'"
    unfolding code_at_def
  proof (intro allI impI)
    fix j assume "j < length c'"
    then show "2 * (k + length c + j) + 1 < length (cs vm) \<and> cs vm ! (2 * (k + length c + j)) = fst (c' ! j) \<and>
        cs vm ! (2 * (k + length c + j) + 1) = snd (c' ! j)"
      using a [unfolded code_at_def, rule_format, of "length c + j"] by (simp add: nth_append add.assoc)
  qed
  ultimately show "code_at vm k c \<and> code_at vm (k + length c) c'" ..
qed

lemma step_slot:
  assumes "code_at vm k [(op_word i, p)]"
  shows "qvm_step host (at_slot vm k s m) = exec_op host (Some i) p (at_slot vm (k + 1) s m)"
proof -
  have "2 * k + 1 < length (cs vm)" "cs vm ! (2 * k) = op_word i" "cs vm ! (2 * k + 1) = p"
    using assms by (simp_all add: code_at_def)
  moreover have "nat (2 * int k) = 2 * k" "nat (2 * int k + 1) = 2 * k + 1" by auto
  ultimately show ?thesis by (simp add: qvm_step_def fetch_def)
qed

lemma run_running: "qvm_step host vm = Inr (Running vm') \<Longrightarrow> qvm_run host vm = qvm_run host vm'"
  by (simp add: qvm_run.simps)

lemma run_fault: "qvm_step host vm = Inl e \<Longrightarrow> qvm_run host vm = Some (Inl e)"
  by (simp add: qvm_run.simps)

section \<open>Instructions of compiled code\<close>

lemma push_slot:
  assumes "min_sp vm + 4 \<le> s" and "s \<le> ds_size vm"
  shows "PUSH v (at_slot vm k s m) = Inr (at_slot vm k (s - 4) (put_bytes (s - 4) (le32 v) m))"
  using assms by (simp add: PUSH_def sp_down_def wr_size)

lemma unop_slot:
  assumes "s + 4 \<le> ds_size vm"
  shows "unop f (at_slot vm k s m) = Inr (at_slot vm k s (put_bytes s (le32 (f (m32 m s))) m))"
  using assms by (simp add: unop_def rd32_m32 wr_size)

lemma binop_slot:
  assumes "s + 8 \<le> ds_size vm" and "s + 4 \<le> max_sp vm"
  shows "binop f (at_slot vm k s m) = rbind (f (m32 m (s + 4)) (m32 m s))
     (\<lambda>r. Inr (at_slot vm k (s + 4) (put_bytes (s + 4) (le32 r) m)))"
  using assms by (auto simp: binop_def rd32_m32 wr_size POP_def intro: rbind_cong)

lemma load_slot:
  assumes "s + 4 \<le> ds_size vm" and "unat (m32 m s AND ds_mask vm) + 4 \<le> ds_size vm"
  shows "op_load rd32 (at_slot vm k s m) =
    Inr (at_slot vm k s (put_bytes s (le32 (m32 m (unat (m32 m s AND ds_mask vm)))) m))"
  using assms by (simp add: op_load_def rd32_m32 wr_size)

text \<open>Where the arguments are, and that the stack does not reach them.\<close>

definition args_at :: "qvm_t \<Rightarrow> int32 list \<Rightarrow> (nat \<Rightarrow> byte) \<Rightarrow> bool" where
  "args_at vm args m \<longleftrightarrow> unat (bp vm) + 16 + 4 * length args \<le> min_sp vm \<and> min_sp vm + 8 \<le> ds_size vm \<and>
     (\<exists>b \<le> 30. ds_mask vm = mask b \<and> ds_size vm = 2 ^ b) \<and>
     (\<forall>i < length args. m32 m (unat (bp vm) + 16 + 4 * i) = args ! i)"

lemma args_at_cong:
  assumes "args_at vm args m" and "\<And>i. i < min_sp vm \<Longrightarrow> m' i = m i"
  shows "args_at vm args m'"
proof -
  have "m32 m' (unat (bp vm) + 16 + 4 * i) = m32 m (unat (bp vm) + 16 + 4 * i)" if "i < length args" for i
    using assms that by (intro m32_cong assms(2)) (auto simp: args_at_def)
  then show ?thesis using assms(1) by (simp add: args_at_def)
qed

lemma mask_small: "b \<le> 30 \<Longrightarrow> unat w < 2 ^ b \<Longrightarrow> w AND mask b = w" for w :: int32
  using word_less_pow2 [of b w] by (simp add: less_mask_eq)

lemma arg_addr:
  assumes "args_at vm args m" and "i < length args"
  defines "a \<equiv> of_nat (16 + 4 * i) + bp vm"
  shows "unat (a AND ds_mask vm) = unat (bp vm) + 16 + 4 * i"
proof -
  obtain n where n: "n \<le> 30" "ds_mask vm = mask n" "ds_size vm = 2 ^ n"
    using assms(1) by (auto simp: args_at_def)
  have "(2::nat) ^ n \<le> 2 ^ 30" using n(1) by (rule power_increasing) simp
  then have b: "unat (bp vm) + 16 + 4 * i + 4 \<le> min_sp vm" "min_sp vm + 8 \<le> 2 ^ n" "(2::nat) ^ n \<le> 2 ^ 30"
    using assms(1,2) n(3) by (auto simp: args_at_def)
  then have "unat a = unat (bp vm) + 16 + 4 * i"
    unfolding a_def by (simp add: unat_word_ariths unat_of_nat)
  then show ?thesis using b n mask_small [of n a] by simp
qed

section \<open>Compiled expressions\<close>

text \<open>
  What a run of compiled code does from a state: it leaves the value on the stack and changes
  nothing outside the stack below \<open>s\<close>, or it stops as the expression does.
\<close>

definition computes :: "qvm_host \<Rightarrow> qvm_t \<Rightarrow> nat \<Rightarrow> nat \<Rightarrow> (nat \<Rightarrow> byte) \<Rightarrow> nat \<Rightarrow> int32 res \<Rightarrow> bool" where
  "computes host vm k s m k' r \<longleftrightarrow> (case r of
     Inl e \<Rightarrow> qvm_run host (at_slot vm k s m) = Some (Inl e)
   | Inr v \<Rightarrow> \<exists>m'. qvm_run host (at_slot vm k s m) = qvm_run host (at_slot vm k' (s - 4) m') \<and>
       m32 m' (s - 4) = v \<and> (\<forall>i. i < min_sp vm \<or> s \<le> i \<longrightarrow> m' i = m i))"

definition room :: "qvm_t \<Rightarrow> nat \<Rightarrow> nat \<Rightarrow> bool" where
  "room vm s n \<longleftrightarrow> min_sp vm + 4 * n \<le> s \<and> s \<le> max_sp vm \<and> max_sp vm + 4 \<le> ds_size vm"

lemma computes_error: "computes host vm k s m k' (Inl e) \<longleftrightarrow> qvm_run host (at_slot vm k s m) = Some (Inl e)"
  by (simp add: computes_def)

lemma computesI:
  "qvm_run host (at_slot vm k s m) = qvm_run host (at_slot vm k' (s - 4) m') \<Longrightarrow> m32 m' (s - 4) = v \<Longrightarrow>
   (\<And>i. i < min_sp vm \<or> s \<le> i \<Longrightarrow> m' i = m i) \<Longrightarrow> computes host vm k s m k' (Inr v)"
  by (auto simp: computes_def)

lemma computesE:
  assumes "computes host vm k s m k' (Inr v)"
  obtains m' where "qvm_run host (at_slot vm k s m) = qvm_run host (at_slot vm k' (s - 4) m')"
    and "m32 m' (s - 4) = v" and "\<And>i. i < min_sp vm \<or> s \<le> i \<Longrightarrow> m' i = m i"
  using assms by (auto simp: computes_def)

lemma comp_const:
  assumes "room vm s 1" and "code_at vm k [(op_word OP_CONST, w)]"
  shows "computes host vm k s m (k + 1) (Inr w)"
proof -
  have "qvm_step host (at_slot vm k s m) = Inr (Running (at_slot vm (k + 1) (s - 4) (put_bytes (s - 4) (le32 w) m)))"
    using assms by (simp add: step_slot exec_op_def push_slot room_def)
  from run_running [OF this] show ?thesis
    using assms(1) by (intro computesI [of _ _ _ _ _ _ "put_bytes (s - 4) (le32 w) m"])
      (auto simp: room_def put_bytes_other)
qed

lemma comp_arg:
  assumes "room vm s 1" and "code_at vm k (comp (Arg i))" and "args_at vm args m" and "i < length args"
  shows "computes host vm k s m (k + 2) (Inr (args ! i))"
proof -
  define a where "a = of_nat (16 + 4 * i) + bp vm"
  define m1 where "m1 = put_bytes (s - 4) (le32 a) m"
  define m2 where "m2 = put_bytes (s - 4) (le32 (args ! i)) m1"
  have c: "code_at vm k [(op_word OP_LOCAL, of_nat (16 + 4 * i))]" "code_at vm (k + 1) [(op_word OP_LOAD4, 0)]"
    using assms(2) code_at_append [of vm k "[(op_word OP_LOCAL, of_nat (16 + 4 * i))]" "[(op_word OP_LOAD4, 0)]"]
    by simp_all
  have s: "min_sp vm + 4 \<le> s" "s \<le> ds_size vm" "s - 4 + 4 \<le> ds_size vm"
    using assms(1) by (auto simp: room_def)
  have step1: "qvm_step host (at_slot vm k s m) = Inr (Running (at_slot vm (k + 1) (s - 4) m1))"
    using s step_slot [OF c(1)] by (simp add: exec_op_def push_slot a_def m1_def)
  define p where "p = unat (bp vm) + 16 + 4 * i"
  have addr: "unat (a AND ds_mask vm) = p"
    unfolding a_def p_def using assms(3,4) by (rule arg_addr)
  have in_arg: "p + 4 \<le> min_sp vm" "p + 4 \<le> ds_size vm"
    using assms(3,4) by (auto simp: args_at_def p_def)
  have "m32 m1 p = m32 m p"
    using in_arg s(1) by (intro m32_cong) (simp add: m1_def put_bytes_other)
  also have "\<dots> = args ! i" using assms(3,4) by (simp add: args_at_def p_def)
  finally have arg: "m32 m1 p = args ! i" .
  have top: "m32 m1 (s - 4) = a" by (simp add: m1_def)
  have step2: "qvm_step host (at_slot vm (k + 1) (s - 4) m1) = Inr (Running (at_slot vm (k + 2) (s - 4) m2))"
    using s in_arg step_slot [OF c(2)] load_slot [of "s - 4" vm m1 "k + 1 + 1"]
    by (simp add: exec_op_def top addr arg m2_def add.assoc)
  have "m2 j = m j" if "j < min_sp vm \<or> s \<le> j" for j
    using that s(1) by (auto simp: m1_def m2_def put_bytes_other)
  then show ?thesis
    using run_running [OF step1] run_running [OF step2] by (intro computesI [of _ _ _ _ _ _ m2]) (simp_all add: m2_def)
qed

lemma comp_un:
  assumes "computes host vm k s m k1 r" and "room vm s 1" and "code_at vm k1 [(op_word (un_op f), 0)]"
  shows "computes host vm k s m (k1 + 1) (rbind r (\<lambda>a. Inr (un_sem f a)))"
proof (cases r)
  case (Inr v)
  obtain m' where m': "qvm_run host (at_slot vm k s m) = qvm_run host (at_slot vm k1 (s - 4) m')"
      "m32 m' (s - 4) = v" "\<And>i. i < min_sp vm \<or> s \<le> i \<Longrightarrow> m' i = m i"
    using computesE assms(1) unfolding Inr by blast
  let ?m = "put_bytes (s - 4) (le32 (un_sem f v)) m'"
  have "qvm_step host (at_slot vm k1 (s - 4) m') = Inr (Running (at_slot vm (k1 + 1) (s - 4) ?m))"
    using assms(2) step_slot [OF assms(3)] m'(2) by (simp add: un_exec unop_slot room_def)
  moreover have "?m j = m j" if "j < min_sp vm \<or> s \<le> j" for j
    using that assms(2) m'(3) by (auto simp: put_bytes_other room_def)
  ultimately show ?thesis
    unfolding Inr rbind_Inr using m'(1) by (intro computesI [of _ _ _ _ _ _ ?m]) (simp_all add: run_running)
qed (use assms(1) in \<open>simp add: computes_def\<close>)

lemma comp_bin:
  assumes "computes host vm k s m k1 r"
    and "\<And>m'. (\<And>i. i < min_sp vm \<Longrightarrow> m' i = m i) \<Longrightarrow> computes host vm k1 (s - 4) m' k2 r'"
    and "room vm s 2" and "code_at vm k2 [(op_word (bin_op f), 0)]"
  shows "computes host vm k s m (k2 + 1) (rbind r (\<lambda>b. rbind r' (bin_sem f b)))"
proof (cases r)
  case r: (Inr b)
  obtain m1 where m1: "qvm_run host (at_slot vm k s m) = qvm_run host (at_slot vm k1 (s - 4) m1)"
      "m32 m1 (s - 4) = b" "\<And>i. i < min_sp vm \<or> s \<le> i \<Longrightarrow> m1 i = m i"
    using computesE assms(1) unfolding r by blast
  have c2: "computes host vm k1 (s - 4) m1 k2 r'" using m1(3) by (intro assms(2)) simp
  show ?thesis
  proof (cases r')
    case (Inl e)
    then show ?thesis using c2 m1(1) by (simp add: r computes_error)
  next
    case r': (Inr a)
    obtain m2 where m2: "qvm_run host (at_slot vm k1 (s - 4) m1) = qvm_run host (at_slot vm k2 (s - 4 - 4) m2)"
        "m32 m2 (s - 4 - 4) = a" "\<And>i. i < min_sp vm \<or> s - 4 \<le> i \<Longrightarrow> m2 i = m1 i"
      using computesE c2 unfolding r' by blast
    have s: "min_sp vm + 8 \<le> s" "s \<le> ds_size vm" "s - 8 + 4 \<le> max_sp vm" "s - 8 + 4 = s - 4"
      using assms(3) by (auto simp: room_def)
    have b2: "m32 m2 (s - 4) = b"
      using m2(3) m1(2) m32_cong [of "s - 4" m2 m1] by simp
    have step: "qvm_step host (at_slot vm k2 (s - 8) m2) = rbind (bin_sem f b a)
        (\<lambda>v. Inr (Running (at_slot vm (k2 + 1) (s - 4) (put_bytes (s - 4) (le32 v) m2))))"
      using s m2(2) b2 step_slot [OF assms(4)] binop_slot [of "s - 8" vm "bin_sem f" "k2 + 1" m2]
      by (cases "bin_sem f b a") (simp_all add: bin_exec)
    have run: "qvm_run host (at_slot vm k s m) = qvm_run host (at_slot vm k2 (s - 8) m2)"
      using m1(1) m2(1) by simp
    show ?thesis
    proof (cases "bin_sem f b a")
      case (Inl e)
      then show ?thesis using step by (simp add: r r' computes_error run run_fault)
    next
      case (Inr v)
      have "qvm_run host (at_slot vm k s m) =
          qvm_run host (at_slot vm (k2 + 1) (s - 4) (put_bytes (s - 4) (le32 v) m2))"
        using run run_running step unfolding Inr by simp
      moreover have "put_bytes (s - 4) (le32 v) m2 j = m j" if "j < min_sp vm \<or> s \<le> j" for j
        using that s(1) m1(3) m2(3) by (auto simp: put_bytes_other)
      ultimately show ?thesis
        unfolding r r' rbind_Inr Inr
        by (intro computesI [of _ _ _ _ _ _ "put_bytes (s - 4) (le32 v) m2"]) simp_all
    qed
  qed
qed (use assms(1) in \<open>simp add: computes_error\<close>)

lemma room_mono: "room vm s n \<Longrightarrow> n' \<le> n \<Longrightarrow> room vm s n'"
  by (auto simp: room_def)

lemma room_push: "room vm s (Suc n) \<Longrightarrow> room vm (s - 4) n"
  by (auto simp: room_def)

theorem comp_computes:
  assumes "code_at vm k (comp e)" and "room vm s (depth e)" and "args_at vm args m"
    and "args_below (length args) e"
  shows "computes host vm k s m (k + length (comp e)) (eval args e)"
  using assms
proof (induction e arbitrary: k s m)
  case (Const w)
  then show ?case using comp_const [of vm s k w] by simp
next
  case (Arg i)
  then show ?case using comp_arg [of vm s k i args m] by simp
next
  case (Unary f e)
  have c: "code_at vm k (comp e)" "code_at vm (k + length (comp e)) [(op_word (un_op f), 0)]"
    using Unary.prems(1) by (simp_all add: code_at_append)
  have "room vm s 1" using Unary.prems(2) by (rule room_mono) (simp add: Suc_le_eq)
  then show ?case
    using comp_un [OF Unary.IH [OF c(1)]] Unary.prems c(2) by (simp add: add.assoc)
next
  case (Binary f e e')
  have c: "code_at vm k (comp e)" "code_at vm (k + length (comp e)) (comp e')"
    "code_at vm (k + length (comp e) + length (comp e')) [(op_word (bin_op f), 0)]"
    using Binary.prems(1) by (simp_all add: code_at_append)
  have r': "room vm s (depth e)" "room vm s (Suc (depth e'))"
    using Binary.prems(2) by (auto elim: room_mono)
  have "2 \<le> Suc (depth e')" using depth_pos [of e'] by linarith
  then have r: "room vm s (depth e)" "room vm (s - 4) (depth e')" "room vm s 2"
    using r' room_push room_mono by blast+
  have "computes host vm k s m (k + length (comp e)) (eval args e)"
    using Binary.IH(1) [OF c(1) r(1)] Binary.prems(3,4) by simp
  moreover have "computes host vm (k + length (comp e)) (s - 4) m'
      (k + length (comp e) + length (comp e')) (eval args e')" if "\<And>i. i < min_sp vm \<Longrightarrow> m' i = m i" for m'
    using Binary.IH(2) [OF c(2) r(2)] args_at_cong [OF Binary.prems(3)] that Binary.prems(4) by simp
  ultimately show ?case
    using comp_bin [OF _ _ r(3) c(3)] by (simp add: add.assoc)
qed

end
