(* ===== verification/QvmCall.thy ===== *)
theory QvmCall
  imports QvmExpr
begin

text \<open>
  The whole path through \<open>qvm.c\<close>: a file with one function is loaded, called with a command and
  eight arguments, enters its frame, computes, leaves and returns to the engine.
\<close>

section \<open>A machine ready to be called\<close>

definition ready :: "qvm_t \<Rightarrow> bool" where
  "ready vm \<longleftrightarrow> pc vm = 0 \<and> sp vm = max_sp vm \<and> bp vm = max_bp vm \<and> unat (bp vm) = min_sp vm \<and>
     unat (min_bp vm) + 131072 \<le> min_sp vm \<and> min_sp vm + 131072 \<le> max_sp vm \<and>
     max_sp vm + 8 \<le> ds_size vm \<and> (\<exists>b \<le> 30. ds_mask vm = mask b \<and> ds_size vm = 2 ^ b) \<and>
     0 < unat (len_cs vm)"

lemma unat_mask: "b \<le> 30 \<Longrightarrow> unat (mask b :: int32) = 2 ^ b - 1"
proof -
  assume "b \<le> 30"
  then have p: "unat (2 ^ b :: int32) = 2 ^ b" by (simp add: unat_pow2)
  then have "(1 :: int32) \<le> 2 ^ b" by (simp add: word_le_nat_alt)
  then show ?thesis using p by (simp add: mask_eq_exp_minus_1 unat_sub)
qed

lemma load_ready:
  assumes "QVM_LoadVM raw = Inr (Some vm)" and "read_header raw = Inr h" and "sane h" and "vm_ok vm"
  shows "ready vm"
proof -
  obtain code m where vm: "vm = (qvm_layout h)\<lparr>cs := code @ [2, 0], ds := m\<rparr>"
    using QVM_LoadVM_form [OF assms(1,2)] .
  note lay = layout_sizes [OF assms(3)]
  let ?n = "2 ^ mem_bits h - seg_len h - 4"
  have b: "mem_bits h \<le> 30" "seg_len h + 262208 \<le> 2 ^ mem_bits h"
    using mem_bits_bounds [OF assms(3)] by simp_all
  have "?n mod 8 < 8" by simp
  moreover have "stack_len h = ?n - ?n mod 8" by (simp add: stack_len_def Let_def)
  ultimately have "262196 \<le> stack_len h" using b(2) by linarith
  then have S: "131072 \<le> stack_len h div 2" "stack_len h div 2 + 131072 \<le> stack_len h"
    by linarith+
  have "unat (ds_mask vm) = unat (mask (mem_bits h) :: int32)"
    using lay(2) unat_mask [OF b(1)] by (simp add: vm)
  then have "ds_mask vm = mask (mem_bits h)" by (simp add: word_unat_eq_iff)
  moreover have "max_sp vm + 8 \<le> ds_size vm" using assms(4) by (simp add: vm_ok_defs)
  ultimately show ?thesis
    using lay S b(1) by (auto simp: ready_def vm)
qed

section \<open>The frame of a call\<close>

lemma m32_words:
  assumes "j < length ws"
  shows "m32 (put_bytes a (concat (map le32 ws)) m) (a + 4 * j) = ws ! j"
proof -
  have b: "concat (map le32 ws) ! (4 * j + i) = le32 (ws ! j) ! i" if "i < 4" for i
    using assms that
  proof (induction ws arbitrary: j)
    case (Cons w ws)
    then show ?case by (cases j) (simp_all add: nth_append)
  qed simp
  have "put_bytes a (concat (map le32 ws)) m (a + 4 * j + i) = le32 (ws ! j) ! i" if "i < 4" for i
    using b [OF that] that assms by (simp add: put_bytes_def length_le32s add.assoc)
  from this [of 0] this [of 1] this [of 2] this [of 3] show ?thesis
    by (simp add: m32_def le32_def numeral_2_eq_2 numeral_3_eq_3)
qed

lemmas put_bytes_sides = put_bytes_other [OF disjI1] put_bytes_other [OF disjI2]

text \<open>The memory when the function has been called, and when it has entered its frame of eight bytes.\<close>

definition frame_words :: "int32 list \<Rightarrow> int32 list" where
  "frame_words args = [0, 0] @ args @ replicate 4 0"

definition called_mem :: "qvm_t \<Rightarrow> int32 list \<Rightarrow> nat \<Rightarrow> byte" where
  "called_mem vm args = put_bytes (max_sp vm - 4) (le32 (-1))
     (put_bytes (min_sp vm - 60) (concat (map le32 (frame_words args))) (ds vm))"

definition entered_mem :: "qvm_t \<Rightarrow> int32 list \<Rightarrow> nat \<Rightarrow> byte" where
  "entered_mem vm args = put_bytes (min_sp vm - 64) (le32 (-1))
     (put_bytes (min_sp vm - 68) (le32 (-1)) (called_mem vm args))"

lemma ready_bp:
  assumes "ready vm"
  shows "unat (bp vm - 60) = min_sp vm - 60" "unat (bp vm - 60 - 8) = min_sp vm - 68"
    "min_bp vm \<le> bp vm - 60 - 8" "bp vm - 60 \<le> max_bp vm"
  using assms by (auto simp: ready_def unat_sub_if' word_le_nat_alt)

lemma ExecVM_called:
  assumes "ready vm" and "length args = 9"
  shows "QVM_ExecVM host args vm =
    run_bind (qvm_run host (at_slot (vm\<lparr>bp := bp vm - 60\<rparr>) 0 (max_sp vm - 4) (called_mem vm args)))
      (\<lambda>vm'. let vm' = vm'\<lparr>pc := pc vm, bp := bp vm' + 60\<rparr> in
       run_bind (Some (sp_get vm' 0)) (\<lambda>r. run_bind (Some (POP 1 vm')) (\<lambda>vm'. Some (Inr (r, vm')))))"
proof -
  let ?vm1 = "vm\<lparr>pc := -1, bp := bp vm - 60\<rparr>"
  let ?bytes = "concat (map le32 (frame_words args))"
  let ?m = "put_bytes (min_sp vm - 60) ?bytes (ds vm)"
  have sz: "60 \<le> min_sp vm" "min_sp vm + 131072 \<le> max_sp vm" "max_sp vm + 8 \<le> ds_size vm" "sp vm = max_sp vm"
    using assms(1) by (auto simp: ready_def)
  have l: "length ?bytes = 60" unfolding length_le32s using assms(2) by (simp add: frame_words_def)
  have w: "wr (unat (bp vm - 60)) ?bytes ?vm1 = Inr (?vm1\<lparr>ds := ?m\<rparr>)"
    using ready_bp(1) [OF assms(1)] sz l by (simp add: wr_size)
  have call: "QVM_Call host 0 (?vm1\<lparr>ds := ?m\<rparr>) =
      Inr (at_slot (vm\<lparr>bp := bp vm - 60\<rparr>) 0 (max_sp vm - 4) (called_mem vm args))"
    using assms(1) sz
    by (cases vm) (simp add: QVM_Call_def sp_down_def wr_size called_mem_def at_slot_def ready_def word_le_nat_alt)
  have "[0, 0] @ take 9 args @ replicate 4 0 = frame_words args"
    using assms(2) by (simp add: frame_words_def)
  then show ?thesis
    using w call by (simp add: QVM_ExecVM_def Let_def)
qed

section \<open>Entering and leaving\<close>

lemma Enter_step:
  assumes "ready vm" and "code_at vm 0 [(op_word OP_ENTER, 8)]"
  shows "qvm_step host (at_slot (vm\<lparr>bp := bp vm - 60\<rparr>) 0 (max_sp vm - 4) (called_mem vm args)) =
    Inr (Running (at_slot (vm\<lparr>bp := bp vm - 60 - 8\<rparr>) 1 (max_sp vm) (entered_mem vm args)))"
proof -
  let ?vm1 = "vm\<lparr>bp := bp vm - 60\<rparr>" and ?m = "called_mem vm args"
  have sz: "68 \<le> min_sp vm" "min_sp vm + 131072 \<le> max_sp vm" "max_sp vm + 8 \<le> ds_size vm"
    using assms(1) by (auto simp: ready_def)
  have b2: "unat (bp vm - 60 - 8) = min_sp vm - 68" "min_bp vm \<le> bp vm - 60 - 8"
    using ready_bp [OF assms(1)] by simp_all
  have top: "m32 (put_bytes (min_sp vm - 68) (le32 (-1)) ?m) (max_sp vm - 4) = -1"
  proof -
    have "m32 (put_bytes (min_sp vm - 68) (le32 (-1)) ?m) (max_sp vm - 4) = m32 ?m (max_sp vm - 4)"
      using sz by (intro m32_cong) (simp add: put_bytes_sides)
    then show ?thesis by (simp add: called_mem_def)
  qed
  have dep: "(int (max_sp vm - 4) - int (max_sp vm)) div 4 = -1" using sz by simp
  have "code_at ?vm1 0 [(op_word OP_ENTER, 8)]" using assms(2) by (simp add: code_at_def)
  then have "qvm_step host (at_slot ?vm1 0 (max_sp vm - 4) ?m) =
      exec_op host (Some OP_ENTER) 8 (at_slot ?vm1 1 (max_sp vm - 4) ?m)"
    by (simp add: step_slot)
  also have "QVM_Enter 8 (at_slot ?vm1 1 (max_sp vm - 4) ?m) =
      Inr (at_slot (vm\<lparr>bp := bp vm - 60 - 8\<rparr>) 1 (max_sp vm) (entered_mem vm args))"
    using b2 sz dep top
    by (cases vm) (simp add: QVM_Enter_def at_slot_def sp_depth_def wr_size rd32_m32 entered_mem_def Let_def)
  then have "exec_op host (Some OP_ENTER) 8 (at_slot ?vm1 1 (max_sp vm - 4) ?m) =
      Inr (Running (at_slot (vm\<lparr>bp := bp vm - 60 - 8\<rparr>) 1 (max_sp vm) (entered_mem vm args)))"
    by (simp add: exec_op_def)
  finally show ?thesis .
qed

lemma Leave_step:
  assumes "ready vm" and "code_at vm k [(op_word OP_LEAVE, 8)]"
    and "m32 m (min_sp vm - 68) = -1" and "m32 m (min_sp vm - 64) = -1"
  shows "qvm_step host (at_slot (vm\<lparr>bp := bp vm - 60 - 8\<rparr>) k (max_sp vm - 4) m) =
    Inr (Returned (vm\<lparr>bp := bp vm - 60, sp := max_sp vm - 4, ds := m, pc := -1\<rparr>))"
proof -
  let ?vm2 = "vm\<lparr>bp := bp vm - 60 - 8\<rparr>"
  have sz: "68 \<le> min_sp vm" "min_sp vm + 131072 \<le> max_sp vm" "max_sp vm + 8 \<le> ds_size vm"
    using assms(1) by (auto simp: ready_def)
  have b2: "unat (bp vm - 60 - 8) = min_sp vm - 68" "bp vm - 60 \<le> max_bp vm"
    using ready_bp [OF assms(1)] by simp_all
  have dep: "(int (max_sp vm - 4) - int (max_sp vm)) div 4 = -1" using sz by simp
  have "code_at ?vm2 k [(op_word OP_LEAVE, 8)]" using assms(2) by (simp add: code_at_def)
  then have "qvm_step host (at_slot ?vm2 k (max_sp vm - 4) m) =
      exec_op host (Some OP_LEAVE) 8 (at_slot ?vm2 (k + 1) (max_sp vm - 4) m)"
    by (simp add: step_slot)
  also have "QVM_Return 8 (at_slot ?vm2 (k + 1) (max_sp vm - 4) m) =
      Inr (False, vm\<lparr>bp := bp vm - 60, sp := max_sp vm - 4, ds := m, pc := -1\<rparr>)"
    using b2 sz dep assms(3,4)
    by (cases vm) (simp add: QVM_Return_def at_slot_def sp_depth_def rd32_m32 Let_def not_less)
  then have "exec_op host (Some OP_LEAVE) 8 (at_slot ?vm2 (k + 1) (max_sp vm - 4) m) =
      Inr (Returned (vm\<lparr>bp := bp vm - 60, sp := max_sp vm - 4, ds := m, pc := -1\<rparr>))"
    by (simp add: exec_op_def)
  finally show ?thesis .
qed

lemma entered_args:
  assumes "ready vm" and "length args = 9"
  shows "args_at (vm\<lparr>bp := bp vm - 60 - 8\<rparr>) args (entered_mem vm args)"
    and "m32 (entered_mem vm args) (min_sp vm - 68) = -1" and "m32 (entered_mem vm args) (min_sp vm - 64) = -1"
    and "\<And>i. i < min_sp vm - 68 \<Longrightarrow> entered_mem vm args i = ds vm i"
proof -
  have sz: "68 \<le> min_sp vm" "min_sp vm + 131072 \<le> max_sp vm" "max_sp vm + 8 \<le> ds_size vm"
    using assms(1) by (auto simp: ready_def)
  have l: "length (frame_words args) = 15" using assms(2) by (simp add: frame_words_def)
  let ?m0 = "put_bytes (min_sp vm - 60) (concat (map le32 (frame_words args))) (ds vm)"
  show "m32 (entered_mem vm args) (min_sp vm - 64) = -1" by (simp add: entered_mem_def)
  show "m32 (entered_mem vm args) (min_sp vm - 68) = -1"
  proof -
    have "m32 (entered_mem vm args) (min_sp vm - 68) =
        m32 (put_bytes (min_sp vm - 68) (le32 (-1)) (called_mem vm args)) (min_sp vm - 68)"
      unfolding entered_mem_def using sz by (intro m32_cong) (simp add: put_bytes_sides)
    then show ?thesis by simp
  qed
  show "entered_mem vm args i = ds vm i" if "i < min_sp vm - 68" for i
    using that sz unfolding entered_mem_def called_mem_def by (simp add: put_bytes_sides)
  have "m32 (entered_mem vm args) (unat (bp vm - 60 - 8) + 16 + 4 * i) = args ! i" if "i < 9" for i
  proof -
    have a: "unat (bp vm - 60 - 8) + 16 + 4 * i = min_sp vm - 60 + 4 * (i + 2)"
      using ready_bp(2) [OF assms(1)] sz by simp
    have "m32 (entered_mem vm args) (min_sp vm - 60 + 4 * (i + 2)) = m32 ?m0 (min_sp vm - 60 + 4 * (i + 2))"
      using sz that unfolding entered_mem_def called_mem_def by (intro m32_cong) (simp add: put_bytes_sides)
    also have "\<dots> = frame_words args ! (i + 2)" using that l by (intro m32_words) simp
    also have "\<dots> = args ! i" using that assms(2) by (simp add: frame_words_def nth_append)
    finally show ?thesis unfolding a .
  qed
  then show "args_at (vm\<lparr>bp := bp vm - 60 - 8\<rparr>) args (entered_mem vm args)"
    using assms ready_bp(2) [OF assms(1)] sz by (auto simp: args_at_def ready_def)
qed

section \<open>Calling compiled code\<close>

lemma code_at_bp [simp]: "code_at (vm\<lparr>bp := b\<rparr>) k c \<longleftrightarrow> code_at vm k c"
  by (simp add: code_at_def)

theorem ExecVM_compiled:
  assumes "ready vm" and "code_at vm 0 (compile e)" and "length args = 9" and "args_below 9 e"
    and "depth e \<le> 32768"
  shows "case eval args e of Inl err \<Rightarrow> QVM_ExecVM host args vm = Some (Inl err)
    | Inr v \<Rightarrow> \<exists>m. QVM_ExecVM host args vm = Some (Inr (v, vm\<lparr>ds := m\<rparr>)) \<and>
        (\<forall>i < unat (min_bp vm). m i = ds vm i)"
proof -
  let ?vm1 = "vm\<lparr>bp := bp vm - 60\<rparr>" and ?vm2 = "vm\<lparr>bp := bp vm - 60 - 8\<rparr>"
  let ?m = "entered_mem vm args" and ?k = "1 + length (comp e)"
  have c: "code_at vm 0 [(op_word OP_ENTER, 8)]" "code_at vm 1 (comp e)" "code_at vm ?k [(op_word OP_LEAVE, 8)]"
    using assms(2) code_at_append [of vm 0 "[(op_word OP_ENTER, 8)]" "comp e @ [(op_word OP_LEAVE, 8)]"]
    by (simp_all add: compile_def code_at_append)
  have sz: "68 \<le> min_sp vm" "min_sp vm + 131072 \<le> max_sp vm" "max_sp vm + 8 \<le> ds_size vm"
      "unat (min_bp vm) \<le> min_sp vm - 68" "sp vm = max_sp vm" "pc vm = 0"
    using assms(1) by (auto simp: ready_def)
  note ea = entered_args [OF assms(1,3)]
  have comp: "computes host ?vm2 1 (max_sp vm) ?m ?k (eval args e)"
    using comp_computes [of ?vm2 1 e "max_sp vm" args ?m host] c(2) ea(1) assms(3,4,5) sz
    by (simp add: room_def)
  have entry: "qvm_run host (at_slot ?vm1 0 (max_sp vm - 4) (called_mem vm args)) =
      qvm_run host (at_slot ?vm2 1 (max_sp vm) ?m)"
    by (rule run_running [OF Enter_step [OF assms(1) c(1)]])
  show ?thesis
  proof (cases "eval args e")
    case (Inl err)
    then show ?thesis using comp by (simp add: computes_error ExecVM_called [OF assms(1,3)] entry)
  next
    case (Inr v)
    obtain m where m: "qvm_run host (at_slot ?vm2 1 (max_sp vm) ?m) = qvm_run host (at_slot ?vm2 ?k (max_sp vm - 4) m)"
        "m32 m (max_sp vm - 4) = v" "\<And>i. i < min_sp vm \<or> max_sp vm \<le> i \<Longrightarrow> m i = ?m i"
      using computesE [OF comp [unfolded Inr]] by auto
    have "m32 m a = m32 ?m a" if "a + 4 \<le> min_sp vm" for a
      using that by (intro m32_cong m(3)) simp
    from this [of "min_sp vm - 68"] this [of "min_sp vm - 64"]
    have "m32 m (min_sp vm - 68) = -1" "m32 m (min_sp vm - 64) = -1"
      using ea(2,3) sz by simp_all
    then have "qvm_step host (at_slot ?vm2 ?k (max_sp vm - 4) m) =
        Inr (Returned (vm\<lparr>bp := bp vm - 60, sp := max_sp vm - 4, ds := m, pc := -1\<rparr>))"
      by (rule Leave_step [OF assms(1) c(3)])
    then have run: "qvm_run host (at_slot ?vm1 0 (max_sp vm - 4) (called_mem vm args)) =
        Some (Inr (vm\<lparr>bp := bp vm - 60, sp := max_sp vm - 4, ds := m, pc := -1\<rparr>))"
      using entry m(1) by (simp add: qvm_run.simps)
    have "QVM_ExecVM host args vm = Some (Inr (v, vm\<lparr>ds := m\<rparr>))"
      unfolding ExecVM_called [OF assms(1,3)] run using sz m(2)
      by (cases vm) (simp add: Let_def rd32_m32 POP_def)
    moreover have "m i = ds vm i" if "i < unat (min_bp vm)" for i
    proof -
      have "i < min_sp vm - 68" "i < min_sp vm" using that sz(4) by linarith+
      then show ?thesis using ea(4) [of i] m(3) [of i] by simp
    qed
    ultimately show ?thesis by (auto simp: Inr)
  qed
qed

section \<open>From the file to the result\<close>

lemma op_word_small: "op_word i < 256"
  by (cases i) (simp_all add: op_word_def qvm_ops_def)

lemma operand_sizes:
  "operand_size (op_word OP_CONST) = 4" "operand_size (op_word OP_LOCAL) = 4"
  "operand_size (op_word OP_ENTER) = 4" "operand_size (op_word OP_LEAVE) = 4"
  "operand_size (op_word OP_LOAD4) = 0" "operand_size (op_word (un_op f)) = 0"
  "operand_size (op_word (bin_op g)) = 0"
  by (simp add: operand_size_def, simp add: operand_size_def, simp add: operand_size_def,
    simp add: operand_size_def, simp add: operand_size_def,
    cases f, simp_all add: operand_size_def, cases g, simp_all)

lemma comp_slots: "\<forall>s \<in> set (comp e). slot_ok s"
  by (induction e) (auto simp: slot_ok_def op_word_small operand_sizes)

lemma compile_slots: "\<forall>s \<in> set (compile e). slot_ok s"
  using comp_slots [of e] by (auto simp: compile_def slot_ok_def op_word_small operand_sizes)

lemma words_nth:
  "j < length code \<Longrightarrow> concat (map (\<lambda>(w, p). [w, p]) code) ! (2 * j) = fst (code ! j) \<and>
     concat (map (\<lambda>(w, p). [w, p]) code) ! (2 * j + 1) = snd (code ! j)"
proof (induction code arbitrary: j)
  case (Cons s code)
  then show ?case by (cases j; cases s) simp_all
qed simp

lemma code_at_words:
  assumes "cs vm = concat (map (\<lambda>(w, p). [w, p]) code) @ rest"
  shows "code_at vm 0 code"
proof -
  have "length (concat (map (\<lambda>(w, p). [w, p]) code)) = 2 * length code"
    by (induction code) auto
  then show ?thesis
    using words_nth [of _ code] unfolding code_at_def assms by (simp add: nth_append)
qed

text \<open>
  C5: a file with one function, the compiled form of an expression over the command and the eight
  arguments, is accepted by \<open>QVM_LoadVM\<close>, and \<open>QVM_ExecVM\<close> on the machine it gives returns, with the
  value the expression has on numbers; the registers are as before the call and the data below the
  frames is unchanged.  Where the expression divides by zero, or overflows a signed division, the
  call stops there.
\<close>

theorem QVM_evaluates:
  assumes "args_below 9 e" and "depth e \<le> 32768" and "length args = 9"
    and "length (qvm_image (compile e) data lit bss) < 2 ^ 31"
    and "sane (image_header (compile e) data lit bss)"
    and "seg_len (image_header (compile e) data lit bss) mod 8 = 0"
  shows "\<exists>vm. QVM_LoadVM (qvm_image (compile e) data lit bss) = Inr (Some vm) \<and>
    (case eval args e of Inl err \<Rightarrow> QVM_ExecVM host args vm = Some (Inl err)
     | Inr v \<Rightarrow> \<exists>m. QVM_ExecVM host args vm = Some (Inr (v, vm\<lparr>ds := m\<rparr>)) \<and>
         (\<forall>i < unat (min_bp vm). m i = ds vm i))"
proof -
  have ne: "compile e \<noteq> []" by (simp add: compile_def)
  obtain vm where vm: "QVM_LoadVM (qvm_image (compile e) data lit bss) = Inr (Some vm)" "vm_ok vm"
      "cs vm = concat (map (\<lambda>(w, p). [w, p]) (compile e)) @ [2, 0]"
    using load_image [OF ne compile_slots assms(4,5)] assms(6) by blast
  have "read_header (qvm_image (compile e) data lit bss) = Inr (image_header (compile e) data lit bss)"
    unfolding qvm_image_def by (rule read_header_enc) (simp add: image_header_def)
  then have "ready vm" using load_ready [OF vm(1) _ assms(5) vm(2)] by simp
  then show ?thesis
    using ExecVM_compiled [OF _ code_at_words [OF vm(3)] assms(3,1,2)] vm(1) by blast
qed

end
