(* ===== verification/QvmOpen.thy ===== *)
theory QvmOpen
  imports QvmCall
begin

text \<open>
  The virtual machine as the engine uses it: a call of a program that behaves never leaves the
  machine's memory, and the instances on concrete files at which the properties of the machine are
  evaluated.
\<close>

section \<open>Calls stay inside\<close>

text \<open>The machine at its first instruction, after the frame of a call is pushed.\<close>

definition called_state :: "int32 list \<Rightarrow> qvm_t \<Rightarrow> qvm_t" where
  "called_state args vm = at_slot (vm\<lparr>bp := bp vm - 60\<rparr>) 0 (sp vm - 4)
     (put_bytes (sp vm - 4) (le32 (-1))
       (put_bytes (unat (bp vm - 60)) (concat (map le32 (frame_words args))) (ds vm)))"

lemma called_state_ok:
  assumes "vm_ok vm" and "unat (min_bp vm) + 60 \<le> unat (bp vm)" and "min_sp vm + 4 \<le> sp vm"
  shows "vm_ok (called_state args vm)"
proof -
  have b: "unat (bp vm - 60) = unat (bp vm) - 60"
    using assms(2) by (simp add: unat_sub_if')
  have l: "2 \<le> 2 * int (unat (len_cs vm))" "0 < unat (len_cs vm)"
    using assms(1) by (auto simp: vm_ok_defs)
  have "pc_ok (called_state args vm)"
    using l(1) unfolding pc_ok_def called_state_def at_slot_simps by simp
  moreover have "regs_ok (called_state args vm)"
    using assms b l(2) by (auto simp: called_state_def at_slot_def vm_ok_def regs_ok_def word_le_nat_alt)
  ultimately show ?thesis by (simp add: vm_ok_def)
qed




section \<open>What makes a call leave the memory\<close>






section \<open>A function that behaves\<close>

text \<open>The states of a call of a function that returns a constant: before each of its three instructions.\<close>

lemma cur_at_slot:
  assumes "code_at vm k [(op_word i, p)]"
  shows "cur_op (at_slot vm k s m) = Some i" "cur_param (at_slot vm k s m) = p"
    "past (at_slot vm k s m) = at_slot vm (k + 1) s m"
proof -
  have "nat (2 * int k) = 2 * k" "nat (2 * int k + 1) = 2 * k + 1" by auto
  then show "cur_op (at_slot vm k s m) = Some i" "cur_param (at_slot vm k s m) = p"
    using assms by (simp_all add: code_at_def)
  show "past (at_slot vm k s m) = at_slot vm (k + 1) s m" by simp
qed

lemma reaches_last:
  assumes "qvm_step host vm = Inr (Returned vm1)" and "reaches host vm vm'"
  shows "vm' = vm"
  using assms(2,1) by (cases rule: reaches.cases) simp_all

lemma reaches_next:
  assumes "qvm_step host vm = Inr (Running vm1)" and "reaches host vm vm'"
  shows "vm' = vm \<or> reaches host vm1 vm'"
  using assms(2,1) by (cases rule: reaches.cases) simp_all

lemma const_behaves:
  assumes "ready vm" and "code_at vm 0 (compile (Const w))" and "length args = 9"
  shows "behaves host (called_state args vm)"
proof -
  let ?vm1 = "vm\<lparr>bp := bp vm - 60\<rparr>" and ?vm2 = "vm\<lparr>bp := bp vm - 60 - 8\<rparr>"
  let ?m1 = "entered_mem vm args" and ?m2 = "put_bytes (max_sp vm - 4) (le32 w) (entered_mem vm args)"
  let ?s0 = "at_slot ?vm1 0 (max_sp vm - 4) (called_mem vm args)"
  let ?s1 = "at_slot ?vm2 1 (max_sp vm) ?m1" and ?s2 = "at_slot ?vm2 2 (max_sp vm - 4) ?m2"
  have sz: "68 \<le> min_sp vm" "min_sp vm + 131072 \<le> max_sp vm" "max_sp vm + 8 \<le> ds_size vm"
      "sp vm = max_sp vm" "unat (bp vm) = min_sp vm"
    using assms(1) by (auto simp: ready_def)
  have b: "unat (bp vm - 60) = min_sp vm - 60" "unat (bp vm - 60 - 8) = min_sp vm - 68"
    using ready_bp [OF assms(1)] by simp_all
  have c: "code_at vm 0 [(op_word OP_ENTER, 8)]" "code_at vm 1 [(op_word OP_CONST, w)]"
      "code_at vm 2 [(op_word OP_LEAVE, 8)]"
    using assms(2) code_at_append [of vm 0 "[(op_word OP_ENTER, 8)]" "[(op_word OP_CONST, w), (op_word OP_LEAVE, 8)]"]
      code_at_append [of vm 1 "[(op_word OP_CONST, w)]" "[(op_word OP_LEAVE, 8)]"]
    by (simp_all add: compile_def numeral_2_eq_2)
  have c1: "code_at ?vm1 0 [(op_word OP_ENTER, 8)]" "code_at ?vm2 1 [(op_word OP_CONST, w)]"
      "code_at ?vm2 2 [(op_word OP_LEAVE, 8)]"
    using c by simp_all
  have m2: "m32 ?m2 a = m32 ?m1 a" if "a + 4 \<le> min_sp vm" for a
    using that sz by (intro m32_cong) (simp add: put_bytes_sides)
  have ret: "m32 ?m2 (min_sp vm - 68) = -1" "m32 ?m2 (min_sp vm - 64) = -1"
    using m2 [of "min_sp vm - 68"] m2 [of "min_sp vm - 64"] entered_args(2,3) [OF assms(1,3)] sz by simp_all
  have step0: "qvm_step host ?s0 = Inr (Running ?s1)" by (rule Enter_step [OF assms(1) c(1)])
  have step1: "qvm_step host ?s1 = Inr (Running ?s2)"
    using step_slot [OF c1(2), of host "max_sp vm" ?m1] sz
    by (simp add: exec_op_def push_slot numeral_2_eq_2)
  have step2: "qvm_step host ?s2 =
      Inr (Returned (vm\<lparr>bp := bp vm - 60, sp := max_sp vm - 4, ds := ?m2, pc := -1\<rparr>))"
    by (rule Leave_step [OF assms(1) c(3) ret])
  have start: "called_state args vm = ?s0"
    using sz by (simp add: called_state_def called_mem_def b)
  have ok0: "\<not> escapes (cur_op ?s0) (cur_param ?s0) (past ?s0) \<and> \<not> derails (cur_op ?s0) (cur_param ?s0) (past ?s0)"
    unfolding cur_at_slot [OF c1(1)] using sz b by (auto simp: escapes_def derails_def word_less_nat_alt)
  have ok1: "\<not> escapes (cur_op ?s1) (cur_param ?s1) (past ?s1) \<and> \<not> derails (cur_op ?s1) (cur_param ?s1) (past ?s1)"
    unfolding cur_at_slot [OF c1(2)] by (simp add: escapes_def derails_def)
  have ok2: "\<not> escapes (cur_op ?s2) (cur_param ?s2) (past ?s2) \<and> \<not> derails (cur_op ?s2) (cur_param ?s2) (past ?s2)"
    unfolding cur_at_slot [OF c1(3)] using sz b ret(2)
    by (simp add: escapes_def derails_def word_less_nat_alt ret_ok_def mem32_def m32_def)
  show ?thesis
    unfolding behaves_def start
  proof (intro allI impI)
    fix vm' assume "reaches host ?s0 vm'"
    then have "vm' = ?s0 \<or> vm' = ?s1 \<or> vm' = ?s2"
      using reaches_next [OF step0] reaches_next [OF step1] reaches_last [OF step2] by blast
    then show "\<not> escapes (cur_op vm') (cur_param vm') (past vm') \<and> \<not> derails (cur_op vm') (cur_param vm') (past vm')"
      using ok0 ok1 ok2 by blast
  qed
qed

section \<open>Instances\<close>

text \<open>A host with no system calls and no floating point.\<close>

definition mute_host :: qvm_host where
  "mute_host = \<lparr>syscall = (\<lambda>m k n fp. Inr (0, m)), fadd = (\<lambda>a b. 0), fsub = (\<lambda>a b. 0), fmul = (\<lambda>a b. 0),
     fdiv = (\<lambda>a b. 0), feq = (=), flt = (\<lambda>a b. False), fle = (=), f_of_int = id, int_of_f = id\<rparr>"

lemma mute_host_ok: "host_ok mute_host"
  by (simp add: host_ok_def mute_host_def)

definition const_file :: "byte list" where
  "const_file = qvm_image (compile (Const 7)) [1, 2] [] 0"

lemma const_file_sizes:
  "length const_file < 2 ^ 31" "sane (image_header (compile (Const 7)) [1, 2] [] 0)"
  "seg_len (image_header (compile (Const 7)) [1, 2] [] 0) = 8"
  by (simp_all add: const_file_def qvm_image_def enc_header_def image_header_def compile_def enc_slot_def
      operand_sizes sane_def le32_def)

lemma const_file_header:
  "read_header const_file = Inr (image_header (compile (Const 7)) [1, 2] [] 0)"
  unfolding const_file_def qvm_image_def by (rule read_header_enc) (simp add: image_header_def)

lemma const_file_loads:
  obtains vm where "QVM_LoadVM const_file = Inr (Some vm)" and "vm_ok vm" and "ready vm"
    and "code_at vm 0 (compile (Const 7))"
proof -
  have ne: "compile (Const 7) \<noteq> []" by (simp add: compile_def)
  obtain vm where vm: "QVM_LoadVM const_file = Inr (Some vm)" "vm_ok vm"
      "cs vm = concat (map (\<lambda>(w, p). [w, p]) (compile (Const 7))) @ [2, 0]"
    using load_image [OF ne compile_slots, of "[1, 2]" "[]" 0] const_file_sizes
    unfolding const_file_def by auto
  then have "ready vm"
    using load_ready [OF vm(1) const_file_header const_file_sizes(2)] by simp
  then show ?thesis using that vm code_at_words [OF vm(3)] by blast
qed

theorem QVM_LoadVM_ok_iff_witness:
  "\<exists>vm. QVM_LoadVM const_file = Inr (Some vm) \<and> vm_ok vm"
proof -
  obtain vm where vm: "QVM_LoadVM const_file = Inr (Some vm)" using const_file_loads .
  have "seg_len (image_header (compile (Const 7)) [1, 2] [] 0) mod 8 \<notin> {1, 2, 3, 4}"
    using const_file_sizes(3) by simp
  then show ?thesis
    using QVM_LoadVM_ok_iff [OF vm const_file_header const_file_sizes(2)] vm by blast
qed

theorem qvm_step_escapes_iff_witness:
  "\<exists>vm. vm_ok vm \<and> qvm_step mute_host vm \<noteq> Inl Out_Of_Bounds"
proof -
  obtain vm where vm: "vm_ok vm" "ready vm" "code_at vm 0 (compile (Const 7))" using const_file_loads .
  have "\<not> bp vm < 8"
    using vm(2) by (auto simp: ready_def word_less_nat_alt)
  then have "\<not> ds_size vm < unat (bp vm - 8) + 8"
    using vm(2) by (auto simp: ready_def word_less_nat_alt unat_sub_if')
  moreover have "cs vm ! 0 = op_word OP_ENTER" "cs vm ! 1 = 8" "pc vm = 0"
    using vm(2,3) by (auto simp: code_at_def compile_def ready_def)
  ultimately have "\<not> escapes (cur_op vm) (cur_param vm) (past vm)"
    by (simp add: escapes_def)
  then show ?thesis
    using qvm_step_escapes_iff [OF vm(1) mute_host_ok] vm(1) by blast
qed


theorem reaches_ok_witness:
  "\<exists>vm vm'. qvm_step mute_host vm = Inr (Running vm') \<and> vm_ok vm'"
proof -
  obtain vm where vm: "vm_ok vm" "ready vm" "code_at vm 0 (compile (Const 7))" using const_file_loads .
  let ?args = "replicate 9 (0 :: int32)"
  have c: "code_at vm 0 [(op_word OP_ENTER, 8)]"
    using vm(3) code_at_append [of vm 0 "[(op_word OP_ENTER, 8)]" "[(op_word OP_CONST, 7), (op_word OP_LEAVE, 8)]"]
    by (simp add: compile_def)
  have start: "called_state ?args vm = at_slot (vm\<lparr>bp := bp vm - 60\<rparr>) 0 (max_sp vm - 4) (called_mem vm ?args)"
    using vm(2) ready_bp(1) [OF vm(2)] by (simp add: called_state_def called_mem_def ready_def)
  have step: "qvm_step mute_host (called_state ?args vm) =
      Inr (Running (at_slot (vm\<lparr>bp := bp vm - 60 - 8\<rparr>) 1 (max_sp vm) (entered_mem vm ?args)))"
    unfolding start by (rule Enter_step [OF vm(2) c])
  have "vm_ok (called_state ?args vm)"
    using vm by (intro called_state_ok) (auto simp: ready_def)
  moreover have "behaves mute_host (called_state ?args vm)"
    by (rule const_behaves [OF vm(2,3)]) simp
  ultimately show ?thesis
    using reaches_ok [OF reaches.step [OF step reaches.refl] _ mute_host_ok] step by blast
qed

text \<open>A file with one data word: four bytes behind the stack.\<close>

theorem empty_stack_escapes_witness:
  "\<exists>vm. QVM_LoadVM (qvm_image (compile (Const 7)) [1] [] 0) = Inr (Some vm) \<and>
     exec_op mute_host (Some OP_ADD) 0 vm = Inl Out_Of_Bounds"
proof -
  let ?file = "qvm_image (compile (Const 7)) [1] [] 0" and ?h = "image_header (compile (Const 7)) [1] [] 0"
  have sizes: "length ?file < 2 ^ 31" "sane ?h" "seg_len ?h = 4"
    by (simp_all add: qvm_image_def enc_header_def image_header_def compile_def enc_slot_def
        operand_sizes sane_def le32_def)
  have ne: "compile (Const 7) \<noteq> []" by (simp add: compile_def)
  obtain vm where vm: "QVM_LoadVM ?file = Inr (Some vm)"
    using load_image [OF ne compile_slots sizes(1,2)] by blast
  have h: "read_header ?file = Inr ?h"
    unfolding qvm_image_def by (rule read_header_enc) (simp add: image_header_def)
  have "seg_len ?h mod 8 \<in> {1, 2, 3, 4}" using sizes(3) by simp
  then show ?thesis using empty_stack_escapes [OF vm h sizes(2)] vm by blast
qed

theorem QVM_evaluates_witness:
  "\<exists>vm m. QVM_LoadVM (qvm_image (compile (Binary Divi (Arg 1) (Arg 2))) [1, 2] [] 0) = Inr (Some vm) \<and>
     QVM_ExecVM mute_host [0, -7, 2, 0, 0, 0, 0, 0, 0] vm = Some (Inr (-3, vm\<lparr>ds := m\<rparr>))"
proof -
  let ?e = "Binary Divi (Arg 1) (Arg 2)" and ?args = "[0, -7, 2, 0, 0, 0, 0, 0, 0] :: int32 list"
  have "eval ?args ?e = Inr (-3)" by (simp add: peek_def)
  moreover have "length (qvm_image (compile ?e) [1, 2] [] 0) < 2 ^ 31"
    "sane (image_header (compile ?e) [1, 2] [] 0)" "seg_len (image_header (compile ?e) [1, 2] [] 0) mod 8 = 0"
    by (simp_all add: qvm_image_def enc_header_def image_header_def compile_def enc_slot_def
      operand_sizes operand_sizes(7) [of Divi, simplified] sane_def le32_def)
  ultimately show ?thesis
    using QVM_evaluates [of ?e ?args "[1, 2]" "[]" 0 mute_host] by auto
qed

end
