(* ===== verification/Json.thy ===== *)
theory Json
  imports Unicode
begin

text \<open>
  The JSON reader of \<open>engine/common/json.c\<close>: the recursive-descent parser, lookups in the tree it
  builds, and the decoding of string bodies.

  The parser's position is the list of the bytes not read yet; the text is a C string, so the byte
  behind the last one is 0.  A node is a value here: the children of an object in the order of the chain
  of \<open>child\<close> and \<open>sibling\<close>, those of an array in the order of its slots, which is what the lookups read.
  The nodes in memory, with these pointers, their creation and destruction, are the subject of
  \<open>JsonStore\<close>, where the parser works on a store.  The marks \<open>used\<close>, which only serve a warning, are
  left out.
\<close>

section \<open>Nodes\<close>

datatype json_type =
  json_type_string | json_type_number | json_type_object | json_type_array |
  json_type_true | json_type_false | json_type_null

datatype json_t = JNode (jtype: json_type) (jname: "byte list") (jbody: "byte list")
  (jkids: "json_t list")

section \<open>Tokens\<close>

text \<open>Quote, backslash, comma, colon, brackets and braces.\<close>

definition QUOTE :: byte where "QUOTE = 0x22"
definition BACKSLASH :: byte where "BACKSLASH = 0x5C"
definition COMMA :: byte where "COMMA = 0x2C"
definition COLON :: byte where "COLON = 0x3A"
definition LBRACK :: byte where "LBRACK = 0x5B"
definition RBRACK :: byte where "RBRACK = 0x5D"
definition LBRACE :: byte where "LBRACE = 0x7B"
definition RBRACE :: byte where "RBRACE = 0x7D"

definition is_white :: "byte \<Rightarrow> bool" where
  "is_white c \<longleftrightarrow> c = 0x20 \<or> c = 0x09 \<or> c = 0x0D \<or> c = 0x0A"

fun skip_line :: "byte list \<Rightarrow> byte list" where
  "skip_line [] = []"
| "skip_line (c # r) = (if c = 0x0D \<or> c = 0x0A then c # r else skip_line r)"

text \<open>The loop stops one byte before the end when the comment is not closed.\<close>

fun skip_block :: "byte list \<Rightarrow> byte list" where
  "skip_block (c # d # r) = (if c = 0x2A \<and> d = 0x2F then r else skip_block (d # r))"
| "skip_block r = r"

lemma skip_line_length: "length (skip_line r) \<le> length r"
  by (induction r) auto

lemma skip_block_length: "length (skip_block r) \<le> length r"
  by (induction r rule: skip_block.induct) auto

function JSON_SkipWhite :: "byte list \<Rightarrow> byte list" where
  "JSON_SkipWhite r = (case r of
     [] \<Rightarrow> []
   | c # r' \<Rightarrow>
       if is_white c then JSON_SkipWhite r'
       else if c = 0x2F then
         (case r' of
            [] \<Rightarrow> r
          | d # r'' \<Rightarrow>
              if d = 0x2F then JSON_SkipWhite (skip_line r'')
              else if d = 0x2A then JSON_SkipWhite (skip_block r'')
              else r)
       else r)"
  by pat_completeness auto
termination
  by (relation "measure length")
    (auto simp: less_Suc_eq_le intro: le_SucI skip_line_length skip_block_length)

declare JSON_SkipWhite.simps [simp del]

text \<open>The letters an escape may have; the byte behind the text is its terminator.\<close>

definition is_escape :: "byte \<Rightarrow> bool" where
  "is_escape c \<longleftrightarrow> c \<in> {0x22, 0x5C, 0x2F, 0x62, 0x66, 0x6E, 0x72, 0x74, 0x75}"

text \<open>What \<open>JSON_ParseString\<close> passes over inside quotes, and what is left: the closing quote or nothing.\<close>

fun scan_quoted :: "byte list \<Rightarrow> byte list \<times> byte list" where
  "scan_quoted [] = ([], [])"
| "scan_quoted (c # r) =
     (if c = QUOTE then ([], c # r)
      else if c = BACKSLASH then
        (case r of
           [] \<Rightarrow> ([c], [])
         | d # r' \<Rightarrow>
             if is_escape d then (let (b, q) = scan_quoted r' in (c # d # b, q))
             else (let (b, q) = scan_quoted r in (c # b, q)))
      else (let (b, q) = scan_quoted r in (c # b, q)))"

definition ends_name :: "byte \<Rightarrow> bool" where
  "ends_name c \<longleftrightarrow> is_white c \<or> c \<in> {COLON, COMMA, RBRACE, LBRACE, LBRACK, RBRACK}"

text \<open>The body and the rest, or \<open>None\<close> and where the scanner stopped.\<close>

definition JSON_ParseString :: "byte list \<Rightarrow> byte list option \<times> byte list" where
  "JSON_ParseString r =
     (if r \<noteq> [] \<and> hd r = QUOTE then
        (case scan_quoted (tl r) of
           (b, []) \<Rightarrow> (None, [])
         | (b, q # r') \<Rightarrow> (Some b, r'))
      else
        (let b = takeWhile (\<lambda>c. \<not> ends_name c) r in
         (if b = [] then None else Some b, dropWhile (\<lambda>c. \<not> ends_name c) r)))"

section \<open>The parser\<close>

text \<open>\<open>Q_strncasecmp\<close> with the length of both, and \<open>%u\<close>.\<close>

definition same_word :: "byte list \<Rightarrow> string \<Rightarrow> bool" where
  "same_word b w \<longleftrightarrow> map (\<lambda>c. if 65 \<le> c \<and> c \<le> 90 then c + 32 else c) b = str w"

fun dec :: "nat \<Rightarrow> byte list" where
  "dec n = (if n < 10 then [word_of_nat (48 + n)] else dec (n div 10) @ [word_of_nat (48 + n mod 10)])"

declare dec.simps [simp del]

definition word_type :: "byte list \<Rightarrow> json_type" where
  "word_type b =
     (if same_word b ''true'' then json_type_true
      else if same_word b ''false'' then json_type_false
      else if same_word b ''null'' then json_type_null
      else json_type_number)"

text \<open>
  \<open>JSON_ParseNode\<close>, and its loops over the members of an object and the elements of an array, which
  carry the children made so far.  The first number bounds calls and iterations; \<open>None\<close> is a bound
  that was too small.  A child that fails leaves its loop, before white space is skipped.
\<close>

fun JSON_ParseNode :: "nat \<Rightarrow> byte list \<Rightarrow> byte list \<Rightarrow> (json_t option \<times> byte list) option"
and parse_members :: "nat \<Rightarrow> json_t list \<Rightarrow> byte list \<Rightarrow> (json_t list \<times> byte list) option"
and parse_elements :: "nat \<Rightarrow> json_t list \<Rightarrow> byte list \<Rightarrow> (json_t list \<times> byte list) option"
where
  "JSON_ParseNode 0 name r = None"
| "JSON_ParseNode (Suc n) name r =
     (case JSON_SkipWhite r of
        [] \<Rightarrow> Some (None, [])
      | c # r' \<Rightarrow>
          if c = LBRACE then
            (case parse_members n [] (JSON_SkipWhite r') of
               None \<Rightarrow> None
             | Some (kids, q) \<Rightarrow> Some
                 (if q \<noteq> [] \<and> hd q = RBRACE then (Some (JNode json_type_object name [] kids), tl q)
                  else (None, q)))
          else if c = LBRACK then
            (case parse_elements n [] (JSON_SkipWhite r') of
               None \<Rightarrow> None
             | Some (kids, q) \<Rightarrow>
                 let q = JSON_SkipWhite q in Some
                 (if q \<noteq> [] \<and> hd q = RBRACK then (Some (JNode json_type_array name [] kids), tl q)
                  else (None, q)))
          else
            (case JSON_ParseString (c # r') of
               (None, q) \<Rightarrow> Some (None, q)
             | (Some b, q) \<Rightarrow> Some
                 (Some (JNode (if c = QUOTE then json_type_string else word_type b) name b []), q)))"
| "parse_members 0 kids r = None"
| "parse_members (Suc n) kids r =
     (if r \<noteq> [] \<and> hd r = QUOTE then
        (case JSON_ParseString r of
           (None, q) \<Rightarrow> Some (kids, q)
         | (Some name, q) \<Rightarrow>
             let q = JSON_SkipWhite q in
             (case (if q \<noteq> [] \<and> hd q = COLON then JSON_ParseNode n name (tl q)
                    else Some (None, q)) of
                None \<Rightarrow> None
              | Some (p, q') \<Rightarrow>
                  if q \<noteq> [] \<and> hd q = COLON \<and> p = None then Some (kids, q')
                  else
                    let kids = (case p of Some j \<Rightarrow> kids @ [j] | None \<Rightarrow> kids);
                        q' = JSON_SkipWhite q'
                    in if q' \<noteq> [] \<and> hd q' = COMMA then parse_members n kids (JSON_SkipWhite (tl q'))
                       else Some (kids, q')))
      else Some (kids, r))"
| "parse_elements 0 kids r = None"
| "parse_elements (Suc n) kids r =
     (case JSON_ParseNode n (dec (length kids)) r of
        None \<Rightarrow> None
      | Some (Some j, q) \<Rightarrow>
          if q \<noteq> [] \<and> hd q = COMMA then parse_elements n (kids @ [j]) (JSON_SkipWhite (tl q))
          else Some (kids @ [j], q)
      | Some (None, q) \<Rightarrow> Some (kids, q))"

text \<open>Twice the length bounds the calls and iterations; \<open>JSON_Parse\<close> skips a byte-order mark.\<close>

definition JSON_Parse :: "byte list \<Rightarrow> json_t option option" where
  "JSON_Parse text =
     (let r = (if take 3 text = [0xEF, 0xBB, 0xBF] then drop 3 text else text) in
      case JSON_ParseNode (2 * length r + 2) [] r of
        None \<Rightarrow> None
      | Some (p, q) \<Rightarrow>
          Some (if JSON_SkipWhite q = [] then p else None))"

section \<open>Lookups\<close>

text \<open>The C library's \<open>atoi\<close> on what a path can hold.\<close>

definition is_digit :: "byte \<Rightarrow> bool" where
  "is_digit c \<longleftrightarrow> 48 \<le> c \<and> c \<le> 57"

fun digits_value :: "nat \<Rightarrow> byte list \<Rightarrow> nat" where
  "digits_value n [] = n"
| "digits_value n (c # r) = (if is_digit c then digits_value (10 * n + unat (c - 48)) r else n)"

definition atoi :: "byte list \<Rightarrow> int" where
  "atoi s =
     (let s = dropWhile (\<lambda>c. c = 0x20 \<or> (9 \<le> c \<and> c \<le> 13)) s in
      if s \<noteq> [] \<and> hd s = 0x2D then - int (digits_value 0 (tl s))
      else if s \<noteq> [] \<and> hd s = 0x2B then int (digits_value 0 (tl s))
      else int (digits_value 0 s))"

definition DOT :: byte where "DOT = 0x2E"

text \<open>\<open>!strncmp(t->name, child, nl) && (t->name[nl] == '.' || !t->name[nl])\<close>.\<close>

definition names_child :: "byte list \<Rightarrow> byte list \<Rightarrow> bool" where
  "names_child name part \<longleftrightarrow> take (length part) name = part \<and>
     (length name = length part \<or> name ! length part = DOT)"

definition child_of :: "json_t \<Rightarrow> byte list \<Rightarrow> json_t option" where
  "child_of t path =
     (if jtype t = json_type_array then
        (let idx = atoi path in
         if 0 \<le> idx \<and> nat idx < length (jkids t) then Some (jkids t ! nat idx) else None)
      else find (\<lambda>k. names_child (jname k) (takeWhile (\<lambda>c. c \<noteq> DOT) path)) (jkids t))"

function JSON_FindChild :: "json_t option \<Rightarrow> byte list \<Rightarrow> json_t option" where
  "JSON_FindChild t path = (case t of
     None \<Rightarrow> None
   | Some t \<Rightarrow>
       (case child_of t path of
          None \<Rightarrow> None
        | Some k \<Rightarrow>
            (case dropWhile (\<lambda>c. c \<noteq> DOT) path of
               [] \<Rightarrow> Some k
             | _ # rest \<Rightarrow> JSON_FindChild (Some k) rest)))"
  by pat_completeness auto
termination
  by (relation "measure (\<lambda>(t, path). length path)")
    (auto dest!: arg_cong [where f = length] simp: less_Suc_eq_le, metis Suc_le_lessD length_dropWhile_le)

declare JSON_FindChild.simps [simp del]

definition JSON_GetIndexed :: "json_t option \<Rightarrow> nat \<Rightarrow> json_t option" where
  "JSON_GetIndexed t idx = (case t of
     None \<Rightarrow> None
   | Some t \<Rightarrow> if idx < length (jkids t) then Some (jkids t ! idx) else None)"

definition JSON_FindIndexedChild :: "json_t option \<Rightarrow> byte list option \<Rightarrow> nat \<Rightarrow> json_t option" where
  "JSON_FindIndexedChild t path idx =
     JSON_GetIndexed (case path of None \<Rightarrow> t | Some p \<Rightarrow> JSON_FindChild t p) idx"

text \<open>The loop counts until an index has no child.\<close>

function count_from :: "json_t option \<Rightarrow> nat \<Rightarrow> nat" where
  "count_from t n = (if JSON_GetIndexed t n = None then n else count_from t (n + 1))"
  by pat_completeness auto
termination
  by (relation "measure (\<lambda>(t, n). case t of None \<Rightarrow> 0 | Some t \<Rightarrow> length (jkids t) - n)")
    (auto simp: JSON_GetIndexed_def split: option.splits if_splits)

declare count_from.simps [simp del]

definition JSON_GetCount :: "json_t option \<Rightarrow> nat" where
  "JSON_GetCount t = count_from t 0"

definition JSON_Equals :: "json_t option \<Rightarrow> byte list option \<Rightarrow> byte list \<Rightarrow> bool" where
  "JSON_Equals t path expected =
     (case (case path of None \<Rightarrow> t | Some p \<Rightarrow> JSON_FindChild t p) of
        None \<Rightarrow> False
      | Some k \<Rightarrow> jbody k = expected)"

section \<open>Bodies\<close>

text \<open>Hexadecimal digits at a position of the memory, as long as they are some.\<close>

fun hexes :: "byte list \<Rightarrow> nat \<Rightarrow> nat \<Rightarrow> int32 \<Rightarrow> int32 option res" where
  "hexes m i 0 code = Inr (Some code)"
| "hexes m i (Suc n) code =
     rbind (peek m i) (\<lambda>c.
     if ishexcode c then hexes m (i + 1) n (code OR push_bit (4 * n) (dehex c)) else Inr None)"

definition low_half :: "byte list \<Rightarrow> nat \<Rightarrow> int32 \<Rightarrow> int32 option res" where
  "low_half m i code =
     (if 0xd800 \<le> code \<and> code < 0xdc00 then
        rbind (peek m i) (\<lambda>c. if c \<noteq> BACKSLASH then Inr None else
        rbind (peek m (i + 1)) (\<lambda>d. if d \<noteq> 0x75 then Inr None else
        rbind (hexes m (i + 2) 4 0) (\<lambda>h. Inr (case h of
            None \<Rightarrow> None
          | Some low \<Rightarrow> if 0xdc00 \<le> low \<and> low < 0xe000 then Some low else None))))
      else Inr None)"

text \<open>The character of a \<open>\u\<close> escape whose digits are at \<open>i\<close>, and where it ends.\<close>

definition unescape_u :: "byte list \<Rightarrow> nat \<Rightarrow> (int32 \<times> nat) option res" where
  "unescape_u m i =
     rbind (hexes m i 4 0) (\<lambda>h. case h of
       None \<Rightarrow> Inr None
     | Some code \<Rightarrow> rbind (low_half m (i + 4) code) (\<lambda>l. Inr (Some (case l of
           None \<Rightarrow> (code, i + 4)
         | Some low \<Rightarrow> (0x10000 + (code - 0xd800) * 0x400 + (low - 0xdc00), i + 10)))))"

definition unescape_char :: "byte \<Rightarrow> byte option" where
  "unescape_char c = (if c = 0x22 then Some 0x22 else if c = 0x5C then Some 0x5C else if c = 0x2F then Some 0x2F
     else if c = 0x62 then Some 8 else if c = 0x66 then Some 12 else if c = 0x6E then Some 10
     else if c = 0x72 then Some 13 else if c = 0x74 then Some 9 else None)"

text \<open>An escape that is none is copied, as far as there is room.\<close>

definition put_unknown :: "byte \<Rightarrow> byte list \<Rightarrow> nat \<Rightarrow> nat \<Rightarrow> (byte list \<times> nat) res" where
  "put_unknown d out pos outend =
     rbind (poke pos BACKSLASH out) (\<lambda>out.
     if pos + 1 < outend then rbind (poke (pos + 1) d out) (\<lambda>out. Inr (out, pos + 2)) else Inr (out, pos + 1))"

text \<open>One round of the loop at \<open>m + i\<close>, for a body that ends at \<open>e\<close>: the new \<open>in\<close> and \<open>out\<close>.\<close>

definition read_one :: "byte list \<Rightarrow> nat \<Rightarrow> nat \<Rightarrow> byte list \<Rightarrow> nat \<Rightarrow> nat \<Rightarrow> (nat \<times> byte list \<times> nat) run" where
  "read_one m e i out pos outend =
     run_bind (Some (peek m i)) (\<lambda>c.
     if c \<noteq> BACKSLASH then run_bind (Some (poke pos c out)) (\<lambda>out. Some (Inr (i + 1, out, pos + 1)))
     else if \<not> i + 1 < e then run_bind (Some (poke pos BACKSLASH out)) (\<lambda>out. Some (Inr (i + 1, out, pos + 1)))
     else
       run_bind (Some (peek m (i + 1))) (\<lambda>d.
       case unescape_char d of
         Some x \<Rightarrow> run_bind (Some (poke pos x out)) (\<lambda>out. Some (Inr (i + 2, out, pos + 1)))
       | None \<Rightarrow>
           run_bind (Some (if d = 0x75 then unescape_u m (i + 2) else Inr None)) (\<lambda>u. case u of
             Some (code, j) \<Rightarrow>
               run_bind (utf8_encode out pos code (word_of_nat (outend - pos))) (\<lambda>(out, k).
                 Some (Inr (j, out, pos + k)))
           | None \<Rightarrow>
               run_bind (Some (put_unknown d out pos outend)) (\<lambda>(out, pos). Some (Inr (i + 2, out, pos))))))"

text \<open>\<open>while (in < t->bodyend && out < outend)\<close>, without a bound: \<open>None\<close> is a loop that does not end.\<close>

partial_function (option) read_loop ::
  "byte list \<Rightarrow> nat \<Rightarrow> nat \<Rightarrow> byte list \<Rightarrow> nat \<Rightarrow> nat \<Rightarrow> (byte list \<times> nat) run" where
  "read_loop m e i out pos outend =
     (if i < e \<and> pos < outend then
        (case read_one m e i out pos outend of
           None \<Rightarrow> None
         | Some (Inl err) \<Rightarrow> Some (Inl err)
         | Some (Inr r) \<Rightarrow> read_loop m e (fst r) (fst (snd r)) (snd (snd r)) outend)
      else Some (Inr (out, pos)))"

text \<open>\<open>m\<close> is the memory at \<open>bodystart\<close> and \<open>e\<close> the length of the body; \<open>None\<close> is a null node.\<close>

definition JSON_ReadBody ::
  "(byte list \<times> nat) option \<Rightarrow> byte list option \<Rightarrow> nat \<Rightarrow> (byte list option \<times> nat) run" where
  "JSON_ReadBody t out outsize = (case t of
     None \<Rightarrow> (case out of
         None \<Rightarrow> Some (Inr (None, 0))
       | Some out \<Rightarrow> run_bind (Some (poke 0 0 out)) (\<lambda>out. Some (Inr (Some out, 0))))
   | Some (m, e) \<Rightarrow> (case out of
         None \<Rightarrow> Some (Inr (None, e))
       | Some out \<Rightarrow>
           if outsize = 0 then Some (Inr (Some out, e))
           else
             run_bind (read_loop m e 0 out 0 (outsize - 1)) (\<lambda>(out, pos).
             run_bind (Some (poke pos 0 out)) (\<lambda>out. Some (Inr (Some out, e))))))"

text \<open>\<open>after k\<close> is the memory behind the body of node \<open>k\<close>; the result is what the returned string points to.\<close>

definition JSON_GetString ::
  "(json_t \<Rightarrow> byte list) \<Rightarrow> json_t option \<Rightarrow> byte list option \<Rightarrow> byte list \<Rightarrow> nat \<Rightarrow> byte list \<Rightarrow> byte list run" where
  "JSON_GetString after t path buffer buffersize fallback =
     (case (case path of None \<Rightarrow> t | Some p \<Rightarrow> JSON_FindChild t p) of
        None \<Rightarrow> Some (Inr fallback)
      | Some k \<Rightarrow>
          run_bind (JSON_ReadBody (Some (jbody k @ after k, length (jbody k))) (Some buffer) buffersize) (\<lambda>(out, n).
            Some (Inr (case out of Some out \<Rightarrow> out | None \<Rightarrow> buffer))))"

end
