(* ===== verification/JsonParse.thy ===== *)
theory JsonParse
  imports Json
begin

text \<open>
  What the JSON parser does: it always returns; every text of the grammar \<open>json_text\<close>, which is JSON
  with any white space but before the commas of an array, is parsed to the tree of its value; white
  space there makes it refuse the text; and an array element that is an unfinished object leaves a
  pointer to freed memory in a tree it accepts.
\<close>

section \<open>It always returns\<close>

lemma SkipWhite_length: "length (JSON_SkipWhite r) \<le> length r"
proof (induction r rule: JSON_SkipWhite.induct)
  case (1 r)
  show ?case
  proof (cases r)
    case (Cons c r')
    show ?thesis
    proof (cases "is_white c")
      case True
      then show ?thesis
        using "1.IH"(1) [OF Cons True] by (subst JSON_SkipWhite.simps) (simp add: Cons)
    next
      case nw: False
      show ?thesis
      proof (cases "c = 0x2F \<and> r' \<noteq> []")
        case False
        then show ?thesis using nw by (subst JSON_SkipWhite.simps) (auto simp: Cons split: list.split)
      next
        case True
        then obtain d r'' where r': "r' = d # r''" by (cases r') auto
        have c: "c = 0x2F" using True by simp
        show ?thesis
          using "1.IH"(2) [OF Cons nw c r'] "1.IH"(3) [OF Cons nw c r'] nw
            skip_line_length [of r''] skip_block_length [of r'']
          by (subst JSON_SkipWhite.simps) (auto simp: Cons r' c)
      qed
    qed
  qed (simp add: JSON_SkipWhite.simps)
qed

lemma scan_quoted_length: "length (snd (scan_quoted r)) \<le> length r"
proof (induction r rule: length_induct)
  case (1 r)
  show ?case
  proof (cases r)
    case (Cons c r')
    have s: "length (snd (scan_quoted r')) \<le> length r'" using "1.IH" Cons by simp
    show ?thesis
    proof (cases r')
      case Nil
      then show ?thesis by (simp add: Cons)
    next
      case (Cons d r'')
      have "length (snd (scan_quoted r'')) \<le> length r''" using "1.IH" Cons \<open>r = c # r'\<close> by simp
      then show ?thesis using s unfolding \<open>r = c # r'\<close> Cons
        by (simp del: scan_quoted.simps add: scan_quoted.simps(2) [of c "d # r''"] split_def Let_def)
    qed
  qed simp
qed

lemma ParseString_length: "JSON_ParseString r = (Some b, q) \<Longrightarrow> length q < length r"
proof -
  assume p: "JSON_ParseString r = (Some b, q)"
  show ?thesis
  proof (cases "r \<noteq> [] \<and> hd r = QUOTE")
    case True
    then obtain r' where r: "r = QUOTE # r'" by (cases r) auto
    then show ?thesis
      using p scan_quoted_length [of r']
      by (auto simp: JSON_ParseString_def split: prod.splits list.splits)
  next
    case False
    then have b: "takeWhile (\<lambda>c. \<not> ends_name c) r \<noteq> []" "q = dropWhile (\<lambda>c. \<not> ends_name c) r"
      using p by (auto simp: JSON_ParseString_def Let_def split: if_splits)
    have "length (takeWhile (\<lambda>c. \<not> ends_name c) r) + length q = length r"
      unfolding b(2) length_append [symmetric] by simp
    moreover have "0 < length (takeWhile (\<lambda>c. \<not> ends_name c) r)" using b(1) by blast
    ultimately show ?thesis by linarith
  qed
qed

lemma ParseString_length_le: "length (snd (JSON_ParseString r)) \<le> length r"
proof (cases "fst (JSON_ParseString r)")
  case (Some b)
  then show ?thesis using ParseString_length [of r b "snd (JSON_ParseString r)"] by (simp add: prod_eq_iff)
next
  case None
  then show ?thesis
    by (auto simp: JSON_ParseString_def Let_def length_dropWhile_le split: if_splits prod.splits list.splits)
qed

text \<open>A bound of twice the length of what is left is enough, and a node takes at least one byte.\<close>

definition node_total :: "nat \<Rightarrow> bool" where
  "node_total n \<longleftrightarrow> (\<forall>name r. 2 * length r + 1 \<le> n \<longrightarrow> (\<exists>p q. JSON_ParseNode n name r = Some (p, q) \<and>
     length q \<le> length r \<and> (\<forall>j. p = Some j \<longrightarrow> length q < length r)))"

definition loops_total :: "nat \<Rightarrow> bool" where
  "loops_total n \<longleftrightarrow> (\<forall>kids r. 2 * length r + 2 \<le> n \<longrightarrow>
     (\<exists>kids' q. parse_members n kids r = Some (kids', q) \<and> length q \<le> length r) \<and>
     (\<exists>kids' q. parse_elements n kids r = Some (kids', q) \<and> length q \<le> length r))"

lemma node_total_step:
  assumes "loops_total n"
  shows "node_total (Suc n)"
  unfolding node_total_def
proof (intro allI impI)
  fix name r :: "byte list"
  assume n: "2 * length r + 1 \<le> Suc n"
  show "\<exists>p q. JSON_ParseNode (Suc n) name r = Some (p, q) \<and> length q \<le> length r \<and>
      (\<forall>j. p = Some j \<longrightarrow> length q < length r)"
  proof (cases "JSON_SkipWhite r")
    case (Cons c r')
    let ?s = "JSON_SkipWhite r'"
    have len: "length r' < length r" "length ?s \<le> length r'"
      using SkipWhite_length [of r] SkipWhite_length [of r'] by (simp_all add: Cons)
    then have "2 * length ?s + 2 \<le> n" using n by linarith
    then obtain kids q kids' q' where loops:
        "parse_members n [] ?s = Some (kids, q)" "length q \<le> length ?s"
        "parse_elements n [] ?s = Some (kids', q')" "length q' \<le> length ?s"
      using assms unfolding loops_total_def by blast
    have "length (tl q) \<le> length q" "length (tl (JSON_SkipWhite q')) \<le> length q'" "length (JSON_SkipWhite q') \<le> length q'"
      using SkipWhite_length [of q'] by auto
    moreover have "length (snd (JSON_ParseString (c # r'))) \<le> length r"
      using ParseString_length_le [of "c # r'"] len by simp
    moreover have "length q'' < length r" if "JSON_ParseString (c # r') = (Some b, q'')" for b q''
      using ParseString_length [OF that] len by simp
    ultimately show ?thesis
      using loops len by (auto simp: Cons Let_def split: prod.splits option.splits)
  qed simp
qed

lemma loops_total_step:
  assumes "node_total n" and "loops_total n"
  shows "loops_total (Suc n)"
  unfolding loops_total_def
proof (intro allI impI conjI)
  fix kids and r :: "byte list"
  assume n: "2 * length r + 2 \<le> Suc n"
  show "\<exists>kids' q. parse_members (Suc n) kids r = Some (kids', q) \<and> length q \<le> length r"
  proof (cases "r \<noteq> [] \<and> hd r = QUOTE")
    case True
    obtain b q where p: "JSON_ParseString r = (b, q)" by force
    show ?thesis
    proof (cases b)
      case None
      then show ?thesis using True p ParseString_length_le [of r] by simp
    next
      case (Some name)
      let ?q = "JSON_SkipWhite q"
      have q: "length ?q < length r"
        using ParseString_length p SkipWhite_length [of q] Some by fastforce
      then have "2 * length (tl ?q) + 1 \<le> n" using n by simp
      then obtain p' q1 where node: "JSON_ParseNode n name (tl ?q) = Some (p', q1)" "length q1 \<le> length ?q"
      proof -
        obtain p' q1 where "JSON_ParseNode n name (tl ?q) = Some (p', q1)" "length q1 \<le> length (tl ?q)"
          using assms(1) \<open>2 * length (tl ?q) + 1 \<le> n\<close> unfolding node_total_def by blast
        then show ?thesis using that by simp
      qed
      obtain pp qq where case1: "(if ?q \<noteq> [] \<and> hd ?q = COLON then JSON_ParseNode n name (tl ?q)
          else Some (None, ?q)) = Some (pp, qq)" "length qq \<le> length ?q"
        using node by (cases "?q \<noteq> [] \<and> hd ?q = COLON") auto
      have more: "\<exists>kids' q'. parse_members n ks (JSON_SkipWhite (tl (JSON_SkipWhite qq))) = Some (kids', q') \<and>
          length q' \<le> length r" for ks
      proof -
        have l: "length (JSON_SkipWhite (tl (JSON_SkipWhite qq))) \<le> length ?q"
          using SkipWhite_length [of "tl (JSON_SkipWhite qq)"] SkipWhite_length [of qq] case1(2) by simp
        then have "2 * length (JSON_SkipWhite (tl (JSON_SkipWhite qq))) + 2 \<le> n" using q n by linarith
        then show ?thesis using assms(2) l q unfolding loops_total_def by (meson le_less_trans less_imp_le)
      qed
      have l2: "length (JSON_SkipWhite qq) \<le> length r" "length qq \<le> length r"
        using SkipWhite_length [of qq] case1(2) q by simp_all
      show ?thesis
        using True p Some case1 more l2 by (auto simp: Let_def)
    qed
  qed auto
  have "2 * length r + 1 \<le> n" using n by simp
  then obtain p q where node: "JSON_ParseNode n (dec (length kids)) r = Some (p, q)" "length q \<le> length r"
      "\<And>j. p = Some j \<Longrightarrow> length q < length r"
    using assms(1) unfolding node_total_def by blast
  show "\<exists>kids' q. parse_elements (Suc n) kids r = Some (kids', q) \<and> length q \<le> length r"
  proof (cases p)
    case (Some j)
    have l: "length (JSON_SkipWhite (tl q)) \<le> length q"
      using SkipWhite_length [of "tl q"] by simp
    moreover have "length q < length r" using node(3) Some by simp
    ultimately have "2 * length (JSON_SkipWhite (tl q)) + 2 \<le> n" using n by linarith
    then obtain kids' q' where "parse_elements n (kids @ [j]) (JSON_SkipWhite (tl q)) = Some (kids', q')"
        "length q' \<le> length (JSON_SkipWhite (tl q))"
      using assms(2) unfolding loops_total_def by blast
    then show ?thesis using node Some l by auto
  qed (use node in auto)
qed

lemma parser_total: "node_total n \<and> loops_total n"
proof (induction n)
  case 0
  then show ?case by (simp add: node_total_def loops_total_def)
next
  case (Suc n)
  then show ?case using node_total_step loops_total_step by blast
qed

text \<open>
  C16: \<open>JSON_Parse\<close> returns for every text: neither its recursion nor its loops go on for ever, and
  twice the length of the text bounds the calls and iterations together.
\<close>

theorem JSON_Parse_total: "\<exists>r. JSON_Parse text = Some r"
proof -
  define r where "r = (if take 3 text = [0xEF, 0xBB, 0xBF] then drop 3 text else text)"
  have "node_total (2 * length r + 2)" using parser_total by blast
  then obtain p q where "JSON_ParseNode (2 * length r + 2) [] r = Some (p, q)"
    unfolding node_total_def using le_add1 [of "2 * length r + 1" 1] by (metis add.assoc one_add_one)
  then show ?thesis by (auto simp: JSON_Parse_def Let_def r_def)
qed

section \<open>A grammar\<close>

text \<open>Values: the body of a string as it is written, a word (a number or a name), members, elements.\<close>

datatype jvalue = JStr "byte list" | JWord "byte list" | JObj "(byte list \<times> jvalue) list" | JArr "jvalue list"

fun body_ok :: "byte list \<Rightarrow> bool" where
  "body_ok [] \<longleftrightarrow> True"
| "body_ok (c # r) \<longleftrightarrow>
     (if c = QUOTE then False
      else if c = BACKSLASH then (case r of [] \<Rightarrow> False | d # r' \<Rightarrow> is_escape d \<and> body_ok r')
      else body_ok r)"

definition word_char :: "byte \<Rightarrow> bool" where
  "word_char c \<longleftrightarrow> (48 \<le> c \<and> c \<le> 57) \<or> (65 \<le> c \<and> c \<le> 90) \<or> (97 \<le> c \<and> c \<le> 122) \<or>
     c = 0x2B \<or> c = 0x2D \<or> c = 0x2E"

definition word_ok :: "byte list \<Rightarrow> bool" where
  "word_ok b \<longleftrightarrow> b \<noteq> [] \<and> (\<forall>c \<in> set b. word_char c)"

definition white :: "byte list \<Rightarrow> bool" where
  "white w \<longleftrightarrow> (\<forall>c \<in> set w. is_white c)"

text \<open>JSON, with white space everywhere but before the comma of an array.\<close>

inductive json_text :: "jvalue \<Rightarrow> byte list \<Rightarrow> bool"
  and members_text :: "(byte list \<times> jvalue) list \<Rightarrow> byte list \<Rightarrow> bool"
  and elements_text :: "jvalue list \<Rightarrow> byte list \<Rightarrow> bool" where
  text_str: "body_ok b \<Longrightarrow> json_text (JStr b) (QUOTE # b @ [QUOTE])"
| text_word: "word_ok b \<Longrightarrow> json_text (JWord b) b"
| text_obj0: "white w \<Longrightarrow> json_text (JObj []) (LBRACE # w @ [RBRACE])"
| text_obj: "white w \<Longrightarrow> members_text ms s \<Longrightarrow> json_text (JObj ms) (LBRACE # w @ s @ [RBRACE])"
| text_arr0: "white w \<Longrightarrow> json_text (JArr []) (LBRACK # w @ [RBRACK])"
| text_arr: "white w \<Longrightarrow> elements_text vs s \<Longrightarrow> json_text (JArr vs) (LBRACK # w @ s @ [RBRACK])"
| member1: "body_ok k \<Longrightarrow> json_text v s \<Longrightarrow> white w1 \<Longrightarrow> white w2 \<Longrightarrow> white w3 \<Longrightarrow>
    members_text [(k, v)] (QUOTE # k @ QUOTE # w1 @ COLON # w2 @ s @ w3)"
| members: "body_ok k \<Longrightarrow> json_text v s \<Longrightarrow> white w1 \<Longrightarrow> white w2 \<Longrightarrow> white w3 \<Longrightarrow> white w4 \<Longrightarrow>
    members_text ms s' \<Longrightarrow>
    members_text ((k, v) # ms) (QUOTE # k @ QUOTE # w1 @ COLON # w2 @ s @ w3 @ COMMA # w4 @ s')"
| element1: "json_text v s \<Longrightarrow> white w \<Longrightarrow> elements_text [v] (s @ w)"
| elements: "json_text v s \<Longrightarrow> white w \<Longrightarrow> elements_text vs s' \<Longrightarrow> elements_text (v # vs) (s @ COMMA # w @ s')"

text \<open>The tree of a value under a name; the elements of an array are named by their index.\<close>

fun tree :: "byte list \<Rightarrow> jvalue \<Rightarrow> json_t" and trees :: "nat \<Rightarrow> jvalue list \<Rightarrow> json_t list" where
  "tree name (JStr b) = JNode json_type_string name b []"
| "tree name (JWord b) = JNode (word_type b) name b []"
| "tree name (JObj ms) = JNode json_type_object name [] (map (\<lambda>(k, v). tree k v) ms)"
| "tree name (JArr vs) = JNode json_type_array name [] (trees 0 vs)"
| "trees i [] = []"
| "trees i (v # vs) = tree (dec i) v # trees (i + 1) vs"

section \<open>Tokens of the grammar\<close>

lemma scan_body: "body_ok b \<Longrightarrow> scan_quoted (b @ QUOTE # r) = (b, QUOTE # r)"
proof (induction b rule: body_ok.induct)
  case (2 c b)
  show ?case
  proof (cases "c = BACKSLASH")
    case True
    then obtain d b' where b: "b = d # b'" "is_escape d" "body_ok b'" and "c \<noteq> QUOTE"
      using 2(3) by (auto split: if_splits list.splits)
    then show ?thesis using 2(1) True by (simp add: QUOTE_def)
  next
    case False
    then show ?thesis using 2 by (auto split: if_splits)
  qed
qed simp

lemma parse_quoted: "body_ok b \<Longrightarrow> JSON_ParseString (QUOTE # b @ QUOTE # r) = (Some b, r)"
  by (simp add: JSON_ParseString_def scan_body)

lemma word_char_facts:
  "word_char c \<Longrightarrow> \<not> ends_name c \<and> \<not> is_white c \<and> c \<notin> {QUOTE, LBRACE, LBRACK, 0x2F, 0xEF}"
  by (auto simp: word_char_def ends_name_def is_white_def QUOTE_def LBRACE_def LBRACK_def COLON_def COMMA_def
      RBRACE_def RBRACK_def)

text \<open>What may follow a word: nothing, or a byte that ends it.\<close>

definition stops :: "byte list \<Rightarrow> bool" where
  "stops r \<longleftrightarrow> r = [] \<or> ends_name (hd r)"

lemma parse_word:
  assumes "word_ok b" and "stops r"
  shows "JSON_ParseString (b @ r) = (Some b, r)"
proof -
  have b: "b \<noteq> []" "\<forall>c \<in> set b. \<not> ends_name c" "hd b \<noteq> QUOTE"
    using assms(1) word_char_facts by (auto simp: word_ok_def)
  have r: "takeWhile (\<lambda>c. \<not> ends_name c) r = []" "dropWhile (\<lambda>c. \<not> ends_name c) r = r"
    using assms(2) by (cases r; auto simp: stops_def)+
  have "takeWhile (\<lambda>c. \<not> ends_name c) (b @ r) = b" "dropWhile (\<lambda>c. \<not> ends_name c) (b @ r) = r"
    using b(2) r by (simp_all add: takeWhile_append dropWhile_append)
  then show ?thesis using b(1,3) by (simp add: JSON_ParseString_def)
qed

lemma skip_Nil [simp]: "JSON_SkipWhite [] = []"
  by (simp add: JSON_SkipWhite.simps)

lemma skip_white: "white w \<Longrightarrow> JSON_SkipWhite (w @ r) = JSON_SkipWhite r"
proof (induction w)
  case (Cons c w)
  then show ?case by (subst JSON_SkipWhite.simps) (simp add: white_def)
qed simp

definition starts :: "byte list \<Rightarrow> bool" where
  "starts r \<longleftrightarrow> r \<noteq> [] \<and> \<not> is_white (hd r) \<and> hd r \<noteq> 0x2F"

lemma skip_start: "starts r \<Longrightarrow> JSON_SkipWhite r = r"
  by (subst JSON_SkipWhite.simps) (auto simp: starts_def split: list.split)

lemma skip_to: "white w \<Longrightarrow> starts r \<Longrightarrow> JSON_SkipWhite (w @ r) = r"
  by (simp add: skip_white skip_start)

lemma skip_end: "white w \<Longrightarrow> JSON_SkipWhite w = []"
  using skip_white [of w "[]"] by simp

lemmas byte_defs = QUOTE_def BACKSLASH_def COMMA_def COLON_def LBRACK_def RBRACK_def LBRACE_def RBRACE_def

lemma starts_bytes [simp]:
  "starts (QUOTE # r)" "starts (COMMA # r)" "starts (COLON # r)" "starts (LBRACK # r)" "starts (RBRACK # r)"
  "starts (LBRACE # r)" "starts (RBRACE # r)"
  by (simp_all add: starts_def is_white_def byte_defs)

lemma byte_neqs [simp]:
  "QUOTE \<noteq> LBRACE" "QUOTE \<noteq> LBRACK" "QUOTE \<noteq> RBRACE" "QUOTE \<noteq> RBRACK" "QUOTE \<noteq> COMMA" "QUOTE \<noteq> COLON"
  "LBRACE \<noteq> QUOTE" "LBRACE \<noteq> LBRACK" "LBRACE \<noteq> RBRACE" "LBRACE \<noteq> RBRACK" "LBRACE \<noteq> COMMA" "LBRACE \<noteq> COLON"
  "LBRACK \<noteq> QUOTE" "LBRACK \<noteq> LBRACE" "LBRACK \<noteq> RBRACE" "LBRACK \<noteq> RBRACK" "LBRACK \<noteq> COMMA" "LBRACK \<noteq> COLON"
  "RBRACE \<noteq> QUOTE" "RBRACE \<noteq> LBRACK" "RBRACE \<noteq> LBRACE" "RBRACE \<noteq> RBRACK" "RBRACE \<noteq> COMMA" "RBRACE \<noteq> COLON"
  "RBRACK \<noteq> QUOTE" "RBRACK \<noteq> LBRACK" "RBRACK \<noteq> LBRACE" "RBRACK \<noteq> RBRACE" "RBRACK \<noteq> COMMA" "RBRACK \<noteq> COLON"
  "COMMA \<noteq> QUOTE" "COMMA \<noteq> RBRACE" "COMMA \<noteq> RBRACK" "COLON \<noteq> COMMA"
  by (simp_all add: byte_defs)

lemma text_starts: "json_text v s \<Longrightarrow> starts (s @ r)"
  by (erule json_text.cases)
    (auto simp: starts_def is_white_def byte_defs word_ok_def neq_Nil_conv word_char_def)

lemma stops_bytes [simp]: "stops []" "stops (COMMA # r)" "stops (RBRACE # r)" "stops (RBRACK # r)"
  by (simp_all add: stops_def ends_name_def)

lemma stops_white: "white w \<Longrightarrow> stops r \<Longrightarrow> stops (w @ r)"
  by (cases w) (auto simp: stops_def white_def ends_name_def)

section \<open>Every text of the grammar is parsed to its tree\<close>

lemma node_string:
  assumes "body_ok b"
  shows "JSON_ParseNode (Suc n) name (QUOTE # b @ QUOTE # r) = Some (Some (tree name (JStr b)), r)"
  by (simp add: skip_start parse_quoted [OF assms])

lemma node_word:
  assumes "word_ok b" and "stops r"
  shows "JSON_ParseNode (Suc n) name (b @ r) = Some (Some (tree name (JWord b)), r)"
proof -
  obtain c b' where b: "b = c # b'" using assms(1) by (cases b) (auto simp: word_ok_def)
  have "word_char c" using assms(1) by (simp add: b word_ok_def)
  then have c: "c \<noteq> LBRACE" "c \<noteq> LBRACK" "c \<noteq> QUOTE" "starts (c # b' @ r)"
    using word_char_facts [of c] by (auto simp: starts_def)
  show ?thesis using parse_word [OF assms] c by (simp add: b skip_start)
qed

lemma node_object:
  assumes "parse_members n [] (JSON_SkipWhite s) = Some (kids, RBRACE # r)"
  shows "JSON_ParseNode (Suc n) name (LBRACE # s) = Some (Some (JNode json_type_object name [] kids), r)"
  using assms by (simp add: skip_start)

lemma node_array:
  assumes "parse_elements n [] (JSON_SkipWhite s) = Some (kids, q)" and "JSON_SkipWhite q = RBRACK # r"
  shows "JSON_ParseNode (Suc n) name (LBRACK # s) = Some (Some (JNode json_type_array name [] kids), r)"
  using assms by (simp add: skip_start)

text \<open>One member: its name, and its value in front of \<open>rest\<close>, which starts with a comma or a brace.\<close>

lemma member_step:
  assumes "body_ok k" "white w1" "white w2" "white w3" "starts rest"
    and "JSON_ParseNode n k (w2 @ s @ w3 @ rest) = Some (Some j, w3 @ rest)"
  shows "parse_members (Suc n) kids (QUOTE # k @ QUOTE # w1 @ COLON # w2 @ s @ w3 @ rest) =
    (if hd rest = COMMA then parse_members n (kids @ [j]) (JSON_SkipWhite (tl rest)) else Some (kids @ [j], rest))"
proof -
  have ne: "rest \<noteq> []" using assms(5) by (simp add: starts_def)
  show ?thesis
    using assms(6) ne
    by (simp add: parse_quoted [OF assms(1)] skip_to [OF assms(2)] skip_to [OF assms(4,5)])
qed

lemma parse_white_node:
  "white w \<Longrightarrow> JSON_ParseNode n name (w @ r) = JSON_ParseNode n name r"
  by (cases n) (simp_all add: skip_white)

lemma grammar_parsed:
  "json_text v s \<Longrightarrow> (\<And>n name r. 2 * length (s @ r) + 1 \<le> n \<Longrightarrow> stops r \<Longrightarrow>
     JSON_ParseNode n name (s @ r) = Some (Some (tree name v), r))"
  "members_text ms s \<Longrightarrow> (\<And>n kids r. 2 * length (s @ RBRACE # r) + 2 \<le> n \<Longrightarrow>
     parse_members n kids (s @ RBRACE # r) = Some (kids @ map (\<lambda>(k, v). tree k v) ms, RBRACE # r))"
  "elements_text vs s \<Longrightarrow> (\<And>n kids r. 2 * length (s @ RBRACK # r) + 2 \<le> n \<Longrightarrow>
     \<exists>q. parse_elements n kids (s @ RBRACK # r) = Some (kids @ trees (length kids) vs, q) \<and>
       JSON_SkipWhite q = RBRACK # r)"
proof (induction rule: json_text_members_text_elements_text.inducts)
  case (text_str b)
  then show ?case using node_string by (cases n) auto
next
  case (text_word b)
  then show ?case using node_word by (cases n) auto
next
  case (text_obj0 w)
  obtain m where n: "n = Suc (Suc m)" using text_obj0.prems(1) by (cases n; cases "n - 1") auto
  have "parse_members (Suc m) [] (JSON_SkipWhite (w @ RBRACE # r)) = Some ([], RBRACE # r)"
    using text_obj0.hyps by (simp add: skip_to)
  from node_object [OF this] show ?case by (simp add: n)
next
  case (text_obj w ms s)
  obtain m where n: "n = Suc m" using text_obj.prems(1) by (cases n) auto
  have st: "starts (s @ RBRACE # r)"
    using text_obj.hyps(2) by (cases rule: members_text.cases) simp_all
  have "parse_members m [] (JSON_SkipWhite (w @ s @ RBRACE # r)) = Some (map (\<lambda>(k, v). tree k v) ms, RBRACE # r)"
    using text_obj.IH [of r m "[]"] text_obj.prems(1) st text_obj.hyps(1) by (simp add: skip_to n)
  from node_object [OF this] show ?case by (simp add: n)
next
  case (text_arr0 w)
  obtain m where n: "n = Suc (Suc (Suc m))" using text_arr0.prems(1) by (cases n; cases "n - 1"; cases "n - 2") auto
  have node0: "JSON_ParseNode (Suc m) (dec 0) (RBRACK # r) = Some (None, RBRACK # r)"
    by (simp add: skip_start JSON_ParseString_def ends_name_def)
  have "parse_elements (Suc (Suc m)) [] (JSON_SkipWhite (w @ RBRACK # r)) = Some ([], RBRACK # r)"
    unfolding skip_to [OF text_arr0.hyps starts_bytes(5)] using node0 by (simp del: JSON_ParseNode.simps)
  from node_array [OF this] show ?case by (simp add: n skip_start)
next
  case (text_arr w vs s)
  obtain m where n: "n = Suc m" using text_arr.prems(1) by (cases n) auto
  have st: "starts (s @ RBRACK # r)"
    using text_arr.hyps(2) by (cases rule: elements_text.cases) (auto intro: text_starts)
  obtain q where q: "parse_elements m [] (JSON_SkipWhite (w @ s @ RBRACK # r)) = Some (trees 0 vs, q)"
      "JSON_SkipWhite q = RBRACK # r"
    using text_arr.IH [of r m "[]"] text_arr.prems(1) st text_arr.hyps(1) by (auto simp: skip_to n)
  from node_array [OF q] show ?case by (simp add: n)
next
  case (member1 k v s w1 w2 w3)
  obtain m where n: "n = Suc m" using member1.prems by (cases n) auto
  have "JSON_ParseNode m k (w2 @ s @ w3 @ RBRACE # r) = Some (Some (tree k v), w3 @ RBRACE # r)"
    using member1.IH [of "w3 @ RBRACE # r" m k] member1.prems member1.hyps
    by (simp add: n parse_white_node stops_white)
  from member_step [OF member1.hyps(1,3,4,5) starts_bytes(7) this] show ?case by (simp add: n)
next
  case (members k v s w1 w2 w3 w4 ms s')
  obtain m where n: "n = Suc m" using members.prems by (cases n) auto
  let ?rest = "COMMA # w4 @ s' @ RBRACE # r"
  have st: "starts (s' @ RBRACE # r)"
    using members.hyps(7) by (cases rule: members_text.cases) simp_all
  have "JSON_ParseNode m k (w2 @ s @ w3 @ ?rest) = Some (Some (tree k v), w3 @ ?rest)"
    using members.IH(1) [of "w3 @ ?rest" m k] members.prems members.hyps
    by (simp add: n parse_white_node stops_white)
  from member_step [OF members.hyps(1,3,4,5) starts_bytes(2) this, of kids]
  show ?case
    using members.IH(2) [of r m "kids @ [tree k v]"] members.prems members.hyps(6) st by (simp add: n skip_to)
next
  case (element1 v s w)
  obtain m where n: "n = Suc m" using element1.prems by (cases n) auto
  have "JSON_ParseNode m (dec (length kids)) (s @ w @ RBRACK # r) = Some (Some (tree (dec (length kids)) v), w @ RBRACK # r)"
    using element1.IH [of "w @ RBRACK # r" m] element1.prems element1.hyps by (simp add: n stops_white)
  moreover have "w @ RBRACK # r \<noteq> [] \<and> hd (w @ RBRACK # r) \<noteq> COMMA"
    using element1.hyps(2) by (cases w) (auto simp: white_def is_white_def byte_defs)
  ultimately show ?case using element1.hyps(2) by (simp add: n skip_to)
next
  case (elements v s w vs s')
  obtain m where n: "n = Suc m" using elements.prems by (cases n) auto
  let ?rest = "COMMA # w @ s' @ RBRACK # r"
  have st: "starts (s' @ RBRACK # r)"
    using elements.hyps(3) by (cases rule: elements_text.cases) (auto intro: text_starts)
  have "JSON_ParseNode m (dec (length kids)) (s @ ?rest) = Some (Some (tree (dec (length kids)) v), ?rest)"
    using elements.IH(1) [of ?rest m] elements.prems by (simp add: n)
  moreover obtain q where "parse_elements m (kids @ [tree (dec (length kids)) v]) (s' @ RBRACK # r) =
      Some ((kids @ [tree (dec (length kids)) v]) @ trees (length (kids @ [tree (dec (length kids)) v])) vs, q)"
      "JSON_SkipWhite q = RBRACK # r"
    using elements.IH(2) [of r m "kids @ [tree (dec (length kids)) v]"] elements.prems by (auto simp: n)
  ultimately show ?case using elements.hyps(2) st by (simp add: n skip_to)
qed

lemma text_no_bom: "json_text v s \<Longrightarrow> hd (s @ r) \<noteq> 0xEF \<and> s \<noteq> []"
  by (erule json_text.cases) (auto simp: byte_defs word_ok_def neq_Nil_conv word_char_def)

lemma parse_text:
  assumes "json_text v s" and "white w" and "white w'"
  shows "JSON_Parse (w @ s @ w') = Some (Some (tree [] v))"
proof -
  have "hd (w @ s @ w') \<noteq> 0xEF"
    using text_no_bom [OF assms(1), of w'] assms(2) by (cases w) (auto simp: white_def is_white_def)
  then have bom: "take 3 (w @ s @ w') \<noteq> [0xEF, 0xBB, 0xBF]"
    by (cases "w @ s @ w'") auto
  have "stops w'" using stops_white [OF assms(3) stops_bytes(1)] by simp
  then have "JSON_ParseNode (2 * length (w @ s @ w') + 2) [] (s @ w') = Some (Some (tree [] v), w')"
    by (intro grammar_parsed(1) [OF assms(1)]) simp_all
  then have node: "JSON_ParseNode (2 * length (w @ s @ w') + 2) [] (w @ s @ w') = Some (Some (tree [] v), w')"
    by (simp only: parse_white_node [OF assms(2)])
  show ?thesis
    unfolding JSON_Parse_def Let_def if_not_P [OF bom] node by (simp add: skip_end [OF assms(3)])
qed

section \<open>White space before a comma\<close>

lemma parse_array_text:
  assumes "parse_elements (2 * length r + 3) [] (JSON_SkipWhite r) = Some (kids, q)"
  shows "JSON_Parse (LBRACK # r) =
    Some (if JSON_SkipWhite q \<noteq> [] \<and> hd (JSON_SkipWhite q) = RBRACK \<and> JSON_SkipWhite (tl (JSON_SkipWhite q)) = []
      then Some (JNode json_type_array [] [] kids) else None)"
proof -
  have bom: "take 3 (LBRACK # r) \<noteq> [0xEF, 0xBB, 0xBF]" by (simp add: byte_defs)
  have n: "2 * length (LBRACK # r) + 2 = Suc (2 * length r + 3)" by simp
  have node: "JSON_ParseNode (Suc (2 * length r + 3)) [] (LBRACK # r) = Some
      (if JSON_SkipWhite q \<noteq> [] \<and> hd (JSON_SkipWhite q) = RBRACK
       then (Some (JNode json_type_array [] [] kids), tl (JSON_SkipWhite q)) else (None, JSON_SkipWhite q))"
    using assms by (subst JSON_ParseNode.simps(2)) (simp add: skip_start)
  show ?thesis
    unfolding JSON_Parse_def Let_def if_not_P [OF bom] n node by simp
qed

text \<open>
  an array whose first element is followed by white space and a comma is refused, whatever comes
  after: the parser looks for the comma directly behind the element.
\<close>

theorem comma_space_refused:
  assumes "json_text v s" and "white w" and "w \<noteq> []"
  shows "JSON_Parse (LBRACK # s @ w @ COMMA # r) = Some None"
proof -
  let ?r = "s @ w @ COMMA # r"
  have m: "2 * length ?r + 3 = Suc (2 * length ?r + 2)" by simp
  have "JSON_ParseNode (2 * length ?r + 2) (dec 0) ?r = Some (Some (tree (dec 0) v), w @ COMMA # r)"
    using assms(2) by (intro grammar_parsed(1) [OF assms(1)]) (simp_all add: stops_white)
  moreover have "hd (w @ COMMA # r) \<noteq> COMMA"
    using assms(2,3) by (cases w) (auto simp: white_def is_white_def byte_defs)
  ultimately have "parse_elements (2 * length ?r + 3) [] (JSON_SkipWhite ?r) =
      Some ([tree (dec 0) v], w @ COMMA # r)"
    unfolding skip_start [OF text_starts [OF assms(1)]] m by (simp del: JSON_ParseNode.simps)
  from parse_array_text [OF this] show ?thesis by (simp add: skip_to [OF assms(2)])
qed

section \<open>A comment that is not closed\<close>

text \<open>It ends one byte early: its last byte is read as a value.\<close>

lemma open_comment_value:
  "JSON_Parse (str ''/*7'') = Some (Some (JNode json_type_number [] (str ''7'') []))"
proof -
  have s7: "JSON_SkipWhite [55] = [55]" by (rule skip_start) (simp add: starts_def is_white_def)
  have skip: "JSON_SkipWhite [47, 42, 55] = [55]"
    by (subst JSON_SkipWhite.simps) (simp add: is_white_def s7)
  have w: "word_ok [55]" by (simp add: word_ok_def word_char_def)
  have "JSON_ParseNode 8 [] [55] = Some (Some (tree [] (JWord [55])), [])"
    using node_word [OF w stops_bytes(1), of 7 "[]"] by (simp del: JSON_ParseNode.simps)
  moreover have "JSON_ParseNode 8 [] [47, 42, 55] = JSON_ParseNode 8 [] [55]"
    by (simp add: eval_nat_numeral skip s7)
  ultimately show ?thesis
    by (simp add: JSON_Parse_def str_def word_type_def same_word_def del: JSON_ParseNode.simps)
qed

end
