(* ===== verification/JsonProps.thy ===== *)
theory JsonProps
  imports JsonParse
begin

text \<open>
  Using a parsed document: a path of member names and indices joined by dots finds the value it
  leads to.
\<close>

section \<open>Indices\<close>

lemma dec_unfold: "dec n = (if n < 10 then [] else dec (n div 10)) @ [word_of_nat (48 + n mod 10)]"
  by (subst dec.simps) simp

lemma digit_byte:
  "n < 10 \<Longrightarrow> is_digit (word_of_nat (48 + n)) \<and> unat (word_of_nat (48 + n) - 48 :: byte) = n"
proof -
  assume n: "n < 10"
  have u: "unat (word_of_nat (48 + n) :: byte) = 48 + n"
    unfolding unat_of_nat using n by simp
  moreover have "unat (word_of_nat n :: byte) = n"
    unfolding unat_of_nat using n by simp
  ultimately show ?thesis using n by (simp add: is_digit_def word_le_nat_alt unat_sub_if')
qed

lemma digits_dec: "digits_value n (dec i @ r) = digits_value (n * 10 ^ length (dec i) + i) r"
proof (induction i arbitrary: n r rule: dec.induct)
  case (1 i)
  have d: "is_digit (word_of_nat (48 + i mod 10))" "unat (word_of_nat (48 + i mod 10) - 48 :: byte) = i mod 10"
    using digit_byte [of "i mod 10"] by simp_all
  show ?case
  proof (cases "i < 10")
    case True
    then show ?thesis using d by (subst (1 2) dec_unfold) (simp add: mult.commute)
  next
    case False
    have "digits_value n (dec i @ r) = digits_value n (dec (i div 10) @ (word_of_nat (48 + i mod 10) # r))"
      using False by (subst dec_unfold) simp
    also have "\<dots> = digits_value (n * 10 ^ length (dec (i div 10)) + i div 10) (word_of_nat (48 + i mod 10) # r)"
      using 1 False by simp
    also have "\<dots> = digits_value (n * 10 ^ length (dec (i div 10)) * 10 + i) r"
      using d by (simp add: algebra_simps)
    also have "n * 10 ^ length (dec (i div 10)) * 10 = n * 10 ^ length (dec i)"
      using False by (subst (2) dec_unfold) simp
    finally show ?thesis .
  qed
qed

lemma dec_digits: "\<forall>c \<in> set (dec i). is_digit c"
proof (induction i rule: dec.induct)
  case (1 i)
  then show ?case using digit_byte [of "i mod 10"] by (subst dec_unfold) auto
qed

lemma dec_ne: "dec i \<noteq> []"
  by (subst dec_unfold) simp

lemma digit_facts: "is_digit c \<Longrightarrow> c \<noteq> 0x20 \<and> \<not> (9 \<le> c \<and> c \<le> 13) \<and> c \<noteq> 0x2D \<and> c \<noteq> 0x2B \<and> c \<noteq> DOT"
  by (auto simp: is_digit_def DOT_def word_le_nat_alt)

lemma atoi_dec:
  assumes "r = [] \<or> hd r = DOT"
  shows "atoi (dec i @ r) = int i"
proof -
  obtain c s where cs: "dec i = c # s" using dec_ne [of i] by (cases "dec i") auto
  then have c: "is_digit c" using dec_digits [of i] by simp
  have stop: "digits_value n r = n" for n
    using assms digit_facts [of "hd r"] by (cases r) auto
  have "digits_value 0 (c # s @ r) = i"
    using digits_dec [of 0 i r] stop by (simp add: cs)
  moreover have dw: "dropWhile (\<lambda>c. c = 0x20 \<or> (9 \<le> c \<and> c \<le> 13)) (c # s @ r) = c # s @ r"
    using digit_facts [OF c] by auto
  ultimately show ?thesis
    unfolding atoi_def cs append_Cons Let_def dw using digit_facts [OF c] by simp
qed

section \<open>Paths\<close>

fun join :: "byte list list \<Rightarrow> byte list" where
  "join [] = []"
| "join [k] = k"
| "join (k # k' # ks) = k @ DOT # join (k' # ks)"

text \<open>One step down: to a member of an object whose names differ and have no dot, or to an element.\<close>

inductive down :: "jvalue \<Rightarrow> byte list \<Rightarrow> jvalue \<Rightarrow> bool" where
  down_member: "(k, v) \<in> set ms \<Longrightarrow> distinct (map fst ms) \<Longrightarrow> \<forall>k' \<in> set (map fst ms). DOT \<notin> set k' \<Longrightarrow>
    down (JObj ms) k v"
| down_element: "i < length vs \<Longrightarrow> down (JArr vs) (dec i) (vs ! i)"

inductive leads :: "jvalue \<Rightarrow> byte list list \<Rightarrow> jvalue \<Rightarrow> bool" where
  leads_one: "down v k u \<Longrightarrow> leads v [k] u"
| leads_more: "down v k u \<Longrightarrow> leads u ks w \<Longrightarrow> leads v (k # ks) w"

inductive_cases leads_Nil [elim!]: "leads v [] u"

lemma jname_tree [simp]: "jname (tree name v) = name"
  by (cases v) simp_all

lemma trees_nth: "i < length vs \<Longrightarrow> trees j vs ! i = tree (dec (j + i)) (vs ! i)"
  by (induction vs arbitrary: i j) (auto simp: nth_Cons split: nat.split)

lemma length_trees [simp]: "length (trees j vs) = length vs"
  by (induction vs arbitrary: j) simp_all

lemma names_child_eq: "DOT \<notin> set name \<Longrightarrow> names_child name part \<longleftrightarrow> name = part"
proof
  assume d: "DOT \<notin> set name" and n: "names_child name part"
  then have t: "take (length part) name = part" by (simp add: names_child_def)
  have "length (take (length part) name) \<le> length name" by simp
  then have "length part \<le> length name" by (simp only: t)
  moreover have "\<not> length part < length name"
  proof
    assume lt: "length part < length name"
    then have "name ! length part = DOT" using n by (simp add: names_child_def)
    then show False using d nth_mem [OF lt] by simp
  qed
  ultimately show "name = part" using t by simp
qed (simp add: names_child_def)

lemma find_member:
  assumes "(k, v) \<in> set ms" and "distinct (map fst ms)" and "\<forall>k' \<in> set (map fst ms). DOT \<notin> set k'"
  shows "find (\<lambda>j. names_child (jname j) k) (map (\<lambda>(k, v). tree k v) ms) = Some (tree k v)"
  using assms
proof (induction ms)
  case (Cons m ms)
  obtain k' v' where m: "m = (k', v')" by (cases m)
  show ?case
  proof (cases "k' = k")
    case True
    then have "v' = v" using Cons.prems(1,2) m by (auto simp: rev_image_eqI)
    then show ?thesis using True by (simp add: m names_child_def)
  next
    case False
    then show ?thesis using Cons m names_child_eq [of k' k] by auto
  qed
qed simp

lemma down_dotless: "down v k u \<Longrightarrow> DOT \<notin> set k"
proof (induction rule: down.induct)
  case (down_member k v ms)
  then show ?case by force
next
  case (down_element i vs)
  then show ?case using dec_digits [of i] digit_facts by blast
qed

lemma child_down:
  assumes "down v k u" and "r = [] \<or> hd r = DOT"
  shows "child_of (tree name v) (k @ r) = Some (tree k u)"
proof -
  have tw: "takeWhile (\<lambda>c. c \<noteq> DOT) (k @ r) = k"
    using down_dotless [OF assms(1)] assms(2) by (cases r) (auto simp: takeWhile_append)
  show ?thesis using assms(1)
  proof (cases rule: down.cases)
    case (down_member ms)
    then show ?thesis by (simp add: child_of_def tw find_member)
  next
    case (down_element i vs)
    then show ?thesis
      using atoi_dec [OF assms(2), of i] by (simp add: child_of_def trees_nth)
  qed
qed

lemma find_path:
  "leads v ks u \<Longrightarrow> ks \<noteq> [] \<and> JSON_FindChild (Some (tree name v)) (join ks) = Some (tree (last ks) u)"
proof (induction arbitrary: name rule: leads.induct)
  case (leads_one v k u)
  have "dropWhile (\<lambda>c. c \<noteq> DOT) k = []" using down_dotless [OF leads_one] by auto
  then show ?case
    using child_down [OF leads_one, of "[]" name]
    by (subst JSON_FindChild.simps) (simp del: dropWhile_eq_Nil_conv)
next
  case (leads_more v k u ks w)
  obtain k' ks' where ks: "ks = k' # ks'" using leads_more.IH by (cases ks) auto
  have "dropWhile (\<lambda>c. c \<noteq> DOT) (k @ DOT # join ks) = DOT # join ks"
    using down_dotless [OF leads_more.hyps(1)] by (auto simp: dropWhile_append)
  then have "JSON_FindChild (Some (tree name v)) (k @ DOT # join ks) = JSON_FindChild (Some (tree k u)) (join ks)"
    using child_down [OF leads_more.hyps(1), of "DOT # join ks" name]
    by (subst JSON_FindChild.simps) simp
  then show ?case using leads_more.IH [of k] by (simp add: ks)
qed

text \<open>
  C15: in a document of the grammar, a path of member names and decimal indices joined by dots finds
  the node of the value it leads to: \<open>JSON_Parse\<close> followed by \<open>JSON_FindChild\<close> is selection.
\<close>

theorem parse_find:
  assumes "json_text v s" and "white w" and "white w'" and "leads v ks u"
  shows "\<exists>t. JSON_Parse (w @ s @ w') = Some (Some t) \<and> JSON_FindChild (Some t) (join ks) = Some (tree (last ks) u)"
  using parse_text [OF assms(1-3)] find_path [OF assms(4)] by blast

end
