(* ===== verification/JsonBody.thy ===== *)
theory JsonBody
  imports JsonProps
begin

text \<open>
  Reading the body of a string: \<open>JSON_ReadBody\<close> stays inside its buffer and inside the document for
  every body, and undoes the usual escaping of a string.
\<close>

section \<open>Digits\<close>

definition hex_codes :: "int list" where
  "hex_codes = [48..57] @ [65..70] @ [97..102]"

lemma hex_codes_small: "list_all (\<lambda>k. dehex (word_of_int k) < 16) hex_codes"
  by code_simp

lemma hex_small: "ishexcode c \<Longrightarrow> dehex c < 16"
proof -
  assume "ishexcode c"
  then have "sint c \<in> set hex_codes" unfolding hex_codes_def set_append set_upto by (auto simp: ishexcode_def ischar_def)
  then have "dehex (word_of_int (sint c)) < 16" using hex_codes_small unfolding list_all_iff by blast
  then show "dehex c < 16" by (simp only: scast_eq [symmetric] scast_id)
qed

lemma hex_bits: "ishexcode c \<Longrightarrow> bit (dehex c) k \<Longrightarrow> k < 4"
  using no_high_bit [of "dehex c" 4 k] hex_small [of c] by (cases "k < 4") auto

text \<open>
  A body at the start of memory \<open>m\<close> and \<open>e\<close> long: the byte behind it, a quote or a terminator, is no
  digit and starts no escape.
\<close>

definition body_end :: "byte list \<Rightarrow> nat \<Rightarrow> bool" where
  "body_end m e \<longleftrightarrow> e < length m \<and> \<not> ishexcode (m ! e) \<and> m ! e \<noteq> BACKSLASH \<and> m ! e \<noteq> 0x75"

lemma hexes_ok:
  assumes "body_end m e" and "i \<le> e" and "n \<le> 4" and "\<forall>k. bit code k \<longrightarrow> k < 16"
  obtains "hexes m i n code = Inr None"
  | h where "hexes m i n code = Inr (Some h)" and "i + n \<le> e" and "\<forall>k. bit h k \<longrightarrow> k < 16"
  using assms
proof (induction n arbitrary: i code thesis)
  case (Suc n)
  have pk: "peek m i = Inr (m ! i)" using Suc.prems(3,4) by (simp add: body_end_def)
  show ?case
  proof (cases "ishexcode (m ! i)")
    case False
    then show ?thesis by (intro Suc.prems(1)) (simp add: pk)
  next
    case True
    then have i: "i + 1 \<le> e" using Suc.prems(3,4) by (cases "i = e") (auto simp: body_end_def)
    have b: "\<forall>k. bit (code OR push_bit (4 * n) (dehex (m ! i))) k \<longrightarrow> k < 16"
      using Suc.prems(5,6) hex_bits [OF True] by (fastforce simp: bit_simps)
    have eq: "hexes m i (Suc n) code = hexes m (i + 1) n (code OR push_bit (4 * n) (dehex (m ! i)))"
      using True by (simp add: pk)
    have n: "n \<le> 4" using Suc.prems(5) by simp
    show ?thesis
    proof (rule Suc.IH [OF _ _ Suc.prems(3) i n b])
      assume "hexes m (i + 1) n (code OR push_bit (4 * n) (dehex (m ! i))) = Inr None"
      then show thesis by (intro Suc.prems(1)) (simp only: eq)
    next
      fix h
      assume h: "hexes m (i + 1) n (code OR push_bit (4 * n) (dehex (m ! i))) = Inr (Some h)"
        "i + 1 + n \<le> e" "\<forall>k. bit h k \<longrightarrow> k < 16"
      from h(2) have "i + Suc n \<le> e" by simp
      then show thesis using Suc.prems(2) [of h] h(1,3) by (simp only: eq)
    qed
  qed
qed simp

lemma low_half_ok:
  assumes "body_end m e" and "i \<le> e"
  obtains "low_half m i code = Inr None"
  | low where "low_half m i code = Inr (Some low)" and "i + 6 \<le> e" and "0xd800 \<le> code" and "code < 0xdc00"
      and "0xdc00 \<le> low" and "low < 0xe000"
proof (cases "0xd800 \<le> code \<and> code < 0xdc00 \<and> m ! i = BACKSLASH \<and> i + 1 \<le> e \<and> m ! (i + 1) = 0x75")
  case False
  have pk: "peek m i = Inr (m ! i)" using assms by (simp add: body_end_def)
  have "low_half m i code = Inr None"
  proof (cases "0xd800 \<le> code \<and> code < 0xdc00 \<and> m ! i = BACKSLASH")
    case True
    then have "i + 1 \<le> e" using assms by (cases "i = e") (auto simp: body_end_def)
    then have "peek m (Suc i) = Inr (m ! Suc i)" using assms(1) by (simp add: body_end_def)
    then show ?thesis using True False \<open>i + 1 \<le> e\<close> by (simp add: low_half_def pk)
  qed (auto simp: low_half_def pk)
  then show ?thesis using that(1) by blast
next
  case True
  then have i: "i + 2 \<le> e" using assms by (cases "i + 1 = e") (auto simp: body_end_def)
  have pk: "peek m i = Inr (m ! i)" "peek m (Suc i) = Inr (m ! Suc i)"
    using assms i by (simp_all add: body_end_def)
  have z: "\<forall>k. bit (0 :: int32) k \<longrightarrow> k < 16" by simp
  note none = that(1) and some = that(2)
  have four: "(4 :: nat) \<le> 4" by simp
  show ?thesis
  proof (cases rule: hexes_ok [OF assms(1) i four z])
    case 1
    then show thesis using True by (intro none) (simp add: low_half_def pk del: hexes.simps)
  next
    case (2 h)
    note h = 2
    show thesis
    proof (cases "0xdc00 \<le> h \<and> h < 0xe000")
      case True': True
      show thesis using h True True'
        by (intro some [of h]) (simp_all add: low_half_def pk del: hexes.simps)
    next
      case False
      then show thesis using h True
        by (intro none) (auto simp: low_half_def pk simp del: hexes.simps)
    qed
  qed
qed

section \<open>One round\<close>

lemma small_code: "\<forall>k. bit h k \<longrightarrow> k < 16 \<Longrightarrow> h \<le> (0x10ffff :: int32)"
proof -
  assume b: "\<forall>k. bit h k \<longrightarrow> k < 16"
  have "take_bit 16 h = h" using b by (intro bit_word_eqI) (auto simp: bit_simps)
  then have "h AND mask 16 = h" by (simp only: take_bit_eq_mask)
  then have "h \<le> mask 16" using word_and_le1 [of h "mask 16"] by simp
  also have "mask 16 \<le> (0x10ffff :: int32)" by (simp add: mask_eq_exp_minus_1)
  finally show ?thesis .
qed

lemma pair_code:
  assumes "0xd800 \<le> code" and "code < 0xdc00" and "0xdc00 \<le> low" and "low < (0xe000 :: int32)"
  shows "0x10000 + (code - 0xd800) * 0x400 + (low - 0xdc00) \<le> 0x10ffff"
proof -
  define a b where "a = unat code - 0xd800" and "b = unat low - 0xdc00"
  have ab: "a < 0x400" "b < 0x400" using assms by (simp_all add: a_def b_def word_le_nat_alt word_less_nat_alt)
  have "code - 0xd800 = word_of_nat a" "low - 0xdc00 = word_of_nat b"
    using assms by (simp_all add: a_def b_def word_le_nat_alt of_nat_diff)
  then have "0x10000 + (code - 0xd800) * 0x400 + (low - 0xdc00) = word_of_nat (0x10000 + a * 0x400 + b)"
    by simp
  moreover have "unat (word_of_nat (0x10000 + a * 0x400 + b) :: int32) = 0x10000 + a * 0x400 + b"
    unfolding unat_of_nat using ab by simp
  ultimately show ?thesis using ab by (simp only: word_le_nat_alt) simp
qed

lemma unescape_u_ok:
  assumes "body_end m e" and "i \<le> e"
  obtains "unescape_u m i = Inr None"
  | code j where "unescape_u m i = Inr (Some (code, j))" and "i + 4 \<le> j" and "j \<le> e" and "code \<le> 0x10ffff"
proof -
  note none = that(1) and some = that(2)
  have four: "(4 :: nat) \<le> 4" by simp
  have z: "\<forall>k. bit (0 :: int32) k \<longrightarrow> k < 16" by simp
  show ?thesis
  proof (cases rule: hexes_ok [OF assms four z])
    case 1
    then show ?thesis by (intro none) (simp add: unescape_u_def del: hexes.simps)
  next
    case (2 h)
    show ?thesis
    proof (cases rule: low_half_ok [OF assms(1) 2(2), of h])
      case 1
      then show ?thesis using 2 small_code [OF 2(3)]
        by (intro some [of h "i + 4"]) (simp_all add: unescape_u_def del: hexes.simps)
    next
      case l: (2 low)
      show ?thesis using 2 l pair_code [OF l(3-6)]
        by (intro some [of "0x10000 + (h - 0xd800) * 0x400 + (low - 0xdc00)" "i + 10"])
          (simp_all add: unescape_u_def del: hexes.simps)
    qed
  qed
qed

text \<open>Writing between \<open>pos\<close> and the last byte leaves the rest.\<close>

lemma utf8_encode_room:
  assumes "code \<le> 0x10ffff" and "pos \<le> outend" and "outend < length out" and "outend < 2 ^ 32"
  obtains out' k where "utf8_encode out pos code (word_of_nat (outend - pos)) = Some (Inr (out', k))"
    and "pos + k \<le> outend" and "k \<le> 4" and "length out' = length out" and "drop outend out' = drop outend out"
proof -
  obtain b where b: "(if code = 0 then Some 2 else utf8_size code 1 0x80) = Some b" "b = length (utf8 code)"
    "utf8_bytes code b = utf8 code" by (rule utf8_bytes_eq [OF assms(1)])
  have u: "unat (word_of_nat (outend - pos) :: int32) = outend - pos" "unat (word_of_nat b :: int32) = b"
    unfolding unat_of_nat using assms(4) utf8_length(1) [of code] b(2) by simp_all
  show ?thesis
  proof (cases "outend - pos < b")
    case True
    then have "(word_of_nat (outend - pos) :: int32) < word_of_nat b" by (simp only: word_less_nat_alt u)
    then have "utf8_encode out pos code (word_of_nat (outend - pos)) = Some (Inr (out, 0))"
      by (simp add: utf8_encode_bytes [OF b(1)])
    then show ?thesis using assms(2) by (intro that [of out 0]) simp_all
  next
    case False
    then have nl: "\<not> (word_of_nat (outend - pos) :: int32) < word_of_nat (length (utf8 code))"
      by (simp only: word_less_nat_alt u b(2) [symmetric]) simp
    have room: "pos + length (utf8 code) \<le> length out" using False assms b(2) by simp
    show ?thesis
      using utf8_encode_eq [OF assms(1) room] nl False assms b(2)
      by (intro that [of "take pos out @ utf8 code @ drop (pos + length (utf8 code)) out" "length (utf8 code)"])
        (simp_all add: utf8_length)
  qed
qed

lemma upd_before:
  assumes "pos < outend" and "outend < length (out :: byte list)"
  shows "length (out[pos := x]) = length out" and "drop outend (out[pos := x]) = drop outend out"
  using assms by simp_all

lemma read_one_ok:
  assumes "body_end m e" and "i < e" and "pos < outend" and "outend < length out" and "outend < 2 ^ 32"
  obtains i' out' pos' where "read_one m e i out pos outend = Some (Inr (i', out', pos'))"
    and "i < i'" and "i' \<le> e" and "pos' \<le> outend" and "pos' + i \<le> pos + i'" and "length out' = length out"
    and "drop outend out' = drop outend out"
proof -
  have pk: "peek m i = Inr (m ! i)" using assms(1,2) by (simp add: body_end_def)
  have po: "poke pos x out = Inr (out[pos := x])" for x using assms(3,4) by simp
  show ?thesis
  proof (cases "m ! i = BACKSLASH \<and> Suc i < e")
    case False
    then show ?thesis
      using assms by (intro that [of "i + 1" "out[pos := m ! i]" "pos + 1"]) (auto simp: read_one_def pk po)
  next
    case True
    have pk1: "peek m (Suc i) = Inr (m ! Suc i)" using assms(1) True by (simp add: body_end_def)
    define u where "u = (if m ! Suc i = 0x75 then unescape_u m (i + 2) else Inr None)"
    have i2: "i + 2 \<le> e" using True by simp
    show ?thesis
    proof (cases "unescape_char (m ! Suc i)")
      case (Some x)
      then show ?thesis using assms True
        by (intro that [of "i + 2" "out[pos := x]" "pos + 1"]) (simp_all add: read_one_def pk pk1 po)
    next
      case None
      have one: "read_one m e i out pos outend = run_bind (Some u) (\<lambda>u. case u of
          Some (code, j) \<Rightarrow> run_bind (utf8_encode out pos code (word_of_nat (outend - pos))) (\<lambda>(out, k).
              Some (Inr (j, out, pos + k)))
        | None \<Rightarrow> run_bind (Some (put_unknown (m ! Suc i) out pos outend)) (\<lambda>(out, pos).
              Some (Inr (i + 2, out, pos))))"
        using True None pk1
        by (simp only: read_one_def pk run_bind_simps u_def if_True if_False not_not option.case Suc_eq_plus1 simp_thms)
      have "u = Inr None \<or> (\<exists>code j. u = Inr (Some (code, j)) \<and> i + 6 \<le> j \<and> j \<le> e \<and> code \<le> 0x10ffff)"
        by (cases rule: unescape_u_ok [OF assms(1) i2]) (auto simp: u_def)
      then show ?thesis
      proof (elim disjE exE conjE)
        assume "u = Inr None"
        moreover have "put_unknown d out pos outend =
            (if pos + 1 < outend then Inr (out[pos := BACKSLASH, pos + 1 := d], pos + 2)
             else Inr (out[pos := BACKSLASH], pos + 1))" for d
          using assms by (simp add: put_unknown_def)
        ultimately show ?thesis using assms i2
          by (cases "pos + 1 < outend";
              intro that [of "i + 2" "if pos + 1 < outend then out[pos := BACKSLASH, pos + 1 := m ! Suc i] else out[pos := BACKSLASH]"
                "if pos + 1 < outend then pos + 2 else pos + 1"]) (simp_all add: one)
      next
        fix code j assume u: "u = Inr (Some (code, j))" and j: "i + 6 \<le> j" "j \<le> e" and c: "code \<le> 0x10ffff"
        obtain out' k where r: "utf8_encode out pos code (word_of_nat (outend - pos)) = Some (Inr (out', k))"
          "pos + k \<le> outend" "k \<le> 4" "length out' = length out" "drop outend out' = drop outend out"
          by (rule utf8_encode_room [OF c less_imp_le [OF assms(3)] assms(4,5)])
        then show ?thesis using j by (intro that [of j out' "pos + k"]) (simp_all add: one u)
      qed
    qed
  qed
qed

text \<open>The loop ends: every round moves \<open>in\<close> forward, and it does not pass the end of the body.\<close>

lemma read_loop_ok:
  assumes "body_end m e" and "i \<le> e" and "pos \<le> outend" and "outend < length out" and "outend < 2 ^ 32"
  shows "\<exists>out' pos'. read_loop m e i out pos outend = Some (Inr (out', pos')) \<and> pos' \<le> outend \<and>
    pos' + i \<le> pos + e \<and> length out' = length out \<and> drop outend out' = drop outend out"
  using assms
proof (induction "e - i" arbitrary: i out pos rule: less_induct)
  case less
  show ?case
  proof (cases "i < e \<and> pos < outend")
    case True
    obtain i' out' pos' where o: "read_one m e i out pos outend = Some (Inr (i', out', pos'))" "i < i'" "i' \<le> e"
      "pos' \<le> outend" "length out' = length out" "drop outend out' = drop outend out" "pos' + i \<le> pos + i'"
      using True by (auto intro: read_one_ok [OF less.prems(1) _ _ less.prems(4,5)])
    have "e - i' < e - i" using o(2,3) True by linarith
    from less.hyps [OF this less.prems(1) o(3,4), of out'] obtain out'' pos'' where
      "read_loop m e i' out' pos' outend = Some (Inr (out'', pos''))" "pos'' \<le> outend" "pos'' + i' \<le> pos' + e"
      "length out'' = length out" "drop outend out'' = drop outend out"
      using less.prems(4,5) o(5,6) by auto
    then show ?thesis using True o(1,7) by (subst read_loop.simps) simp
  next
    case False
    then have "read_loop m e i out pos outend = Some (Inr (out, pos))" by (subst read_loop.simps) (simp only: if_False)
    then show ?thesis using less.prems by simp
  qed
qed

text \<open>
  C14: for every body in a document, and the buffer and size a caller passes, the loop of \<open>JSON_ReadBody\<close>
  ends and the function returns, reads only the body and the byte behind it, leaves every byte of the buffer from \<open>outsize\<close> on as it
  was, terminates what it wrote within the size (the text is never longer than the body), and returns the
  length of the body.
\<close>

theorem JSON_ReadBody_bounds:
  assumes "body_end m e" and "0 < outsize" and "outsize \<le> length out" and "outsize \<le> 2 ^ 32"
  shows "\<exists>out'. JSON_ReadBody (Some (m, e)) (Some out) outsize = Some (Inr (Some out', e)) \<and>
    length out' = length out \<and> drop outsize out' = drop outsize out \<and> 0 \<in> set (take (min outsize (e + 1)) out')"
proof -
  obtain out' pos' where l: "read_loop m e 0 out 0 (outsize - 1) = Some (Inr (out', pos'))"
    "pos' \<le> outsize - 1" "length out' = length out" "drop (outsize - 1) out' = drop (outsize - 1) out" "pos' \<le> e"
  proof -
    have "outsize - 1 < length out" "outsize - 1 < 2 ^ 32" using assms(2-4) by linarith+
    then show thesis using read_loop_ok [OF assms(1), of 0 0 "outsize - 1" out] that by auto
  qed
  have "drop outsize out' = drop 1 (drop (outsize - 1) out')" using assms(2) by simp
  also have "\<dots> = drop outsize out" using assms(2) by (simp only: l(4)) simp
  finally have d: "drop outsize out' = drop outsize out" .
  have p: "pos' < min outsize (e + 1)" "pos' < length out'" using l(2,3,5) assms(2,3) by auto
  then have "0 \<in> set (take (min outsize (e + 1)) (out'[pos' := 0]))"
    using set_update_memI [of pos' "take (min outsize (e + 1)) out'" 0] by (simp add: take_update_swap)
  then show ?thesis using l p d assms(2) by (intro exI [of _ "out'[pos' := 0]"]) (simp add: JSON_ReadBody_def)
qed

section \<open>Escaping and reading\<close>

text \<open>The usual escaping of a byte: the short escapes, and four digits for the other control characters.\<close>

definition escape_byte :: "byte \<Rightarrow> byte list" where
  "escape_byte c =
     (if c = QUOTE then [BACKSLASH, QUOTE] else if c = BACKSLASH then [BACKSLASH, BACKSLASH]
      else if c = 8 then [BACKSLASH, 0x62] else if c = 12 then [BACKSLASH, 0x66] else if c = 10 then [BACKSLASH, 0x6E]
      else if c = 13 then [BACKSLASH, 0x72] else if c = 9 then [BACKSLASH, 0x74]
      else if c < 32 then [BACKSLASH, 0x75, 0x30, 0x30, hex_tab ! (unat c div 16), hex_tab ! (unat c mod 16)]
      else [c])"

definition escape :: "byte list \<Rightarrow> byte list" where
  "escape s = concat (map escape_byte s)"

lemma escape_simps [simp]: "escape [] = []" "escape (c # s) = escape_byte c @ escape s"
  by (simp_all add: escape_def)

lemma hex_tab_facts:
  "list_all (\<lambda>n. hex_tab ! n \<noteq> QUOTE \<and> hex_tab ! n \<noteq> BACKSLASH \<and> hex_tab ! n \<noteq> 0) [0..<16]"
  by code_simp

lemma hex_tab_plain: "n < 16 \<Longrightarrow> hex_tab ! n \<noteq> QUOTE \<and> hex_tab ! n \<noteq> BACKSLASH \<and> hex_tab ! n \<noteq> 0"
  using hex_tab_facts by (simp add: list_all_iff)

lemma escape_byte_cases:
  obtains d where "escape_byte c = [BACKSLASH, d]" and "is_escape d" and "unescape_char d = Some c"
  | h l where "escape_byte c = [BACKSLASH, 0x75, 0x30, 0x30, hex_tab ! h, hex_tab ! l]" and "c < 32"
      and "h < 2" and "l < 16" and "unat c = 16 * h + l"
  | "escape_byte c = [c]" and "c \<noteq> QUOTE" and "c \<noteq> BACKSLASH"
proof -
  note short = that(1) and long = that(2) and plain = that(3)
  consider "c = QUOTE" | "c = BACKSLASH" | "c = 8" | "c = 12" | "c = 10" | "c = 13" | "c = 9"
    | "c \<noteq> QUOTE \<and> c \<noteq> BACKSLASH \<and> c \<notin> {8, 12, 10, 13, 9}" by auto
  then show ?thesis
  proof cases
    case 8
    show ?thesis
    proof (cases "c < 32")
      case True
      then have "unat c div 16 < 2" by (simp add: word_less_nat_alt)
      then show ?thesis using 8 True by (intro long [of "unat c div 16" "unat c mod 16"]) (simp_all add: escape_byte_def)
    qed (use 8 plain in \<open>simp add: escape_byte_def\<close>)
  qed (rule short, simp add: escape_byte_def QUOTE_def BACKSLASH_def,
      simp add: is_escape_def QUOTE_def BACKSLASH_def, simp add: unescape_char_def QUOTE_def BACKSLASH_def)+
qed

lemma body_ok_more:
  "c \<noteq> QUOTE \<Longrightarrow> c \<noteq> BACKSLASH \<Longrightarrow> body_ok (c # r) = body_ok r"
  "is_escape d \<Longrightarrow> body_ok (BACKSLASH # d # r) = body_ok r"
  by (simp_all add: QUOTE_def BACKSLASH_def)

lemma body_ok_escape_byte: "body_ok (escape_byte c @ r) = body_ok r"
proof (cases rule: escape_byte_cases [of c])
  case (2 h l)
  have "0x30 \<noteq> QUOTE" "0x30 \<noteq> BACKSLASH" "is_escape 0x75" by (simp_all add: QUOTE_def BACKSLASH_def is_escape_def)
  then show ?thesis
    using hex_tab_plain [of h] hex_tab_plain [of l] 2 by (simp only: append_Cons append_Nil body_ok_more) simp
next
  case 3
  then show ?thesis by (simp only: append_Cons append_Nil body_ok_more not_False_eq_True)
qed (simp only: append_Cons append_Nil body_ok_more)

lemma body_ok_escape: "body_ok (escape s)"
  by (induction s) (simp_all add: body_ok_escape_byte)

lemma peek_at: "drop i m = p # r \<Longrightarrow> peek m i = Inr p"
  using peek_drop [of i m 0] by (simp add: peek_def)

lemma hex_pairs:
  "list_all (\<lambda>h. list_all (\<lambda>l. push_bit 4 (word_of_nat h :: int32) OR word_of_nat l = word_of_nat (16 * h + l))
     [0..<16]) [0..<2]"
  by code_simp

lemma hexes_code:
  assumes "drop i m = [0x30, 0x30, hex_tab ! h, hex_tab ! l] @ r" and "h < 2" and "l < 16"
  shows "hexes m i 4 0 = Inr (Some (word_of_nat (16 * h + l)))"
proof -
  have pk: "peek m i = Inr 0x30" "peek m (Suc i) = Inr 0x30" "peek m (Suc (Suc i)) = Inr (hex_tab ! h)"
    "peek m (Suc (Suc (Suc i))) = Inr (hex_tab ! l)"
    using assms(1) peek_drop [of i m 0] peek_drop [of i m 1] peek_drop [of i m 2] peek_drop [of i m 3]
    by (simp_all add: peek_def eval_nat_numeral)
  have z: "ishexcode 0x30" "dehex 0x30 = 0" by code_simp+
  have "push_bit 4 (word_of_nat h :: int32) OR word_of_nat l = word_of_nat (16 * h + l)"
    using hex_pairs assms(2,3) by (simp add: list_all_iff)
  then show ?thesis
    using hex_digit [of h] hex_digit [of l] assms(2,3) by (simp add: eval_nat_numeral pk z)
qed

lemma low_bytes:
  "list_all (\<lambda>k. utf8 (word_of_nat k) = [word_of_nat k] \<and> \<not> 0xd800 \<le> (word_of_nat k :: int32)) [1..<32]"
  by code_simp

lemma low_byte:
  assumes "c \<noteq> 0" and "c < 32"
  shows "utf8 (word_of_nat (unat c)) = [c]" and "\<not> 0xd800 \<le> (word_of_nat (unat c) :: int32)"
proof -
  have "unat c \<noteq> 0" using assms(1) by (simp add: unat_eq_zero)
  then have "unat c \<in> set [1..<32]" using assms(2) by (simp add: word_less_nat_alt)
  then have "utf8 (word_of_nat (unat c)) = [word_of_nat (unat c)] \<and> \<not> 0xd800 \<le> (word_of_nat (unat c) :: int32)"
    using low_bytes unfolding list_all_iff by blast
  moreover have "(word_of_nat (unat c) :: byte) = c" by simp
  ultimately show "utf8 (word_of_nat (unat c)) = [c]" and "\<not> 0xd800 \<le> (word_of_nat (unat c) :: int32)"
    by simp_all
qed

lemma read_one_escape:
  assumes "drop i m = escape_byte c @ r" and "i + length (escape_byte c) \<le> e" and "c \<noteq> 0"
    and "pos < outend" and "outend < length out" and "outend < 2 ^ 32"
  shows "read_one m e i out pos outend = Some (Inr (i + length (escape_byte c), out[pos := c], pos + 1))"
proof -
  have po: "poke pos x out = Inr (out[pos := x])" for x using assms(4,5) by simp
  show ?thesis
  proof (cases rule: escape_byte_cases [of c])
    case (1 d)
    then have "peek m i = Inr BACKSLASH" "peek m (Suc i) = Inr d"
      using assms(1) peek_drop [of i m 0] peek_drop [of i m 1] by (simp_all add: peek_def)
    then show ?thesis using 1 assms(2) by (simp add: read_one_def po)
  next
    case (2 h l)
    have d: "drop (i + 2) m = [0x30, 0x30, hex_tab ! h, hex_tab ! l] @ r"
      using assms(1) drop_drop [of 2 i m] unfolding 2(1) by (simp add: add.commute)
    have x: "hexes m (i + 2) 4 0 = Inr (Some (word_of_nat (unat c)))"
      using hexes_code [OF d 2(3,4)] 2(5) by (simp only:)
    have pk: "peek m i = Inr BACKSLASH" "peek m (i + 1) = Inr 0x75"
      using assms(1) peek_drop [of i m 0] peek_drop [of i m 1] unfolding 2(1) by (simp_all add: peek_def)
    define code :: int32 where "code = word_of_nat (unat c)"
    have u8: "utf8 code = [c]" and small: "\<not> 0xd800 \<le> code" unfolding code_def by (fact low_byte [OF assms(3) 2(2)])+
    have u: "unescape_u m (i + 2) = Inr (Some (code, i + 6))"
      using x small unfolding unescape_u_def low_half_def code_def [symmetric] by (simp del: hexes.simps)
    have "unat (word_of_nat (outend - pos) :: int32) = outend - pos"
      unfolding unat_of_nat using assms(6) by simp
    then have nl: "\<not> (word_of_nat (outend - pos) :: int32) < 1" using assms(4) by (simp only: word_less_nat_alt) simp
    have c: "code \<le> 0x10ffff" using small by (simp add: word_le_nat_alt)
    have enc: "utf8_encode out pos code (word_of_nat (outend - pos)) = Some (Inr (out[pos := c], 1))"
      using utf8_encode_eq [OF c, of pos out] nl assms(4,5) by (simp add: u8 upd_conv_take_nth_drop)
    have un: "unescape_char 0x75 = None" by (simp add: unescape_char_def)
    have "i + 1 < e" using assms(2) by (simp add: 2(1))
    then have "read_one m e i out pos outend = Some (Inr (i + 6, out[pos := c], pos + 1))"
      using pk by (simp only: read_one_def run_bind_simps if_True if_False not_not option.case simp_thms un u
        prod.case enc)
    then show ?thesis by (simp add: 2(1))
  next
    case 3
    then have "peek m i = Inr c" using assms(1) peek_at [of i m c] by simp
    then show ?thesis using 3 by (simp add: read_one_def po)
  qed
qed

lemma escape_byte_ne: "escape_byte c \<noteq> []"
  by (cases rule: escape_byte_cases [of c]) simp_all

lemma read_loop_escape:
  assumes "drop i m = escape s @ r" and "0 \<notin> set s" and "pos + length s \<le> outend"
    and "outend < length out" and "outend < 2 ^ 32"
  shows "read_loop m (i + length (escape s)) i out pos outend =
    Some (Inr (take pos out @ s @ drop (pos + length s) out, pos + length s))"
  using assms
proof (induction s arbitrary: i out pos)
  case Nil
  then show ?case by (subst read_loop.simps) simp
next
  case (Cons c s)
  let ?k = "length (escape_byte c)"
  have k: "0 < ?k" using escape_byte_ne by simp
  have one: "read_one m (i + length (escape (c # s))) i out pos outend = Some (Inr (i + ?k, out[pos := c], pos + 1))"
    using Cons.prems by (intro read_one_escape [of i m c "escape s @ r"]) auto
  have "drop (i + ?k) m = drop ?k (drop i m)" by (simp add: add.commute)
  also have "\<dots> = escape s @ r" unfolding Cons.prems(1) by simp
  finally have "read_loop m (i + ?k + length (escape s)) (i + ?k) (out[pos := c]) (pos + 1) outend =
      Some (Inr (take (pos + 1) (out[pos := c]) @ s @ drop (pos + 1 + length s) (out[pos := c]), pos + 1 + length s))"
    using Cons.prems by (intro Cons.IH) auto
  moreover have "take (Suc pos) (out[pos := c]) @ s @ drop (Suc pos + length s) (out[pos := c]) =
      take pos out @ (c # s) @ drop (pos + Suc (length s)) out"
    using Cons.prems(3,4) by (intro splice_step) simp
  ultimately show ?case using Cons.prems(3) k one by (subst read_loop.simps) (simp add: add.assoc)
qed

text \<open>
  C13: escaping and reading is the identity: a string without a zero byte, escaped as JSON writers do and
  quoted, parses to a string node, and \<open>JSON_ReadBody\<close> of its body puts the string and a terminator
  into every buffer whose size has room for them, and changes nothing behind it.
\<close>

theorem escape_roundtrip:
  assumes "0 \<notin> set s" and "length s < outsize" and "outsize \<le> length out" and "outsize \<le> 2 ^ 32"
  shows "\<exists>t. JSON_Parse (QUOTE # escape s @ [QUOTE]) = Some (Some t) \<and> jtype t = json_type_string \<and>
    JSON_ReadBody (Some (jbody t @ [QUOTE, 0], length (jbody t))) (Some out) outsize =
      Some (Inr (Some (s @ 0 # drop (length s + 1) out), length (jbody t)))"
proof -
  have "length s \<le> length (escape s)"
  proof (induction s)
    case (Cons c s)
    have "0 < length (escape_byte c)" using escape_byte_ne by simp
    then show ?case using Cons by (simp del: length_greater_0_conv)
  qed simp
  then have "read_loop (escape s @ [QUOTE, 0]) (length (escape s)) 0 out 0 (outsize - 1) =
      Some (Inr (s @ drop (length s) out, length s))"
    using read_loop_escape [of 0 "escape s @ [QUOTE, 0]" s "[QUOTE, 0]" 0 "outsize - 1" out]
      assms by simp
  moreover have "(s @ drop (length s) out)[length s := 0] = s @ 0 # drop (Suc (length s)) out"
    using assms(2,3) by (simp add: list_update_append Cons_nth_drop_Suc [symmetric])
  ultimately have "JSON_ReadBody (Some (escape s @ [QUOTE, 0], length (escape s))) (Some out) outsize =
      Some (Inr (Some (s @ 0 # drop (length s + 1) out), length (escape s)))"
    using assms(2,3) by (simp add: JSON_ReadBody_def)
  moreover have "JSON_Parse (QUOTE # escape s @ [QUOTE]) = Some (Some (tree [] (JStr (escape s))))"
    using parse_text [OF text_str [OF body_ok_escape [of s]], of "[]" "[]"] by (simp add: white_def)
  ultimately show ?thesis by simp
qed


section \<open>At concrete inputs\<close>

lemma body_bounds_witness:
  "\<exists>out'. JSON_ReadBody (Some ([BACKSLASH, 0x75, 0x30, 0x30, QUOTE], 4)) (Some [1, 2, 3, 4]) 2 = Some (Inr (Some out', 4)) \<and>
    length out' = length [1, 2, 3, 4 :: byte] \<and> drop 2 out' = drop 2 [1, 2, 3, 4] \<and> 0 \<in> set (take (min 2 (4 + 1)) out')"
proof -
  have e: "body_end [BACKSLASH, 0x75, 0x30, 0x30, QUOTE] 4"
    by (simp add: body_end_def QUOTE_def BACKSLASH_def ishexcode_def ischar_def)
  show ?thesis by (rule JSON_ReadBody_bounds [OF e]) simp_all
qed

lemma escape_witness:
  "\<exists>t. JSON_Parse (QUOTE # escape [65, 10, 1] @ [QUOTE]) = Some (Some t) \<and> jtype t = json_type_string \<and>
    JSON_ReadBody (Some (jbody t @ [QUOTE, 0], length (jbody t))) (Some [9, 9, 9, 9, 9]) 4 =
      Some (Inr (Some [65, 10, 1, 0, 9], length (jbody t)))"
  using escape_roundtrip [of "[65, 10, 1]" 4 "[9, 9, 9, 9, 9]"] by simp

lemma one_text: "json_text (JWord [49]) [49]"
  by (rule text_word) (simp add: word_ok_def word_char_def)

lemma space_white: "white [0x20]"
  by (simp add: white_def is_white_def)

lemma comma_space_witness: "JSON_Parse [LBRACK, 49, 0x20, COMMA, 50, RBRACK] = Some None"
  using comma_space_refused [OF one_text space_white, of "[50, RBRACK]"] by simp

text \<open>\<open>{"a": [1]}\<close> and the path \<open>a.0\<close>.\<close>

lemma parse_find_witness:
  "\<exists>t. JSON_Parse ([] @ (LBRACE # [] @ (QUOTE # [97] @ QUOTE # [] @ COLON # [0x20] @ (LBRACK # [] @ [49] @ [RBRACK]) @ []) @
      [RBRACE]) @ [0x20]) = Some (Some t) \<and> JSON_FindChild (Some t) [97, DOT, 48] = Some (tree [48] (JWord [49]))"
proof -
  let ?one = "JWord [49]"
  have w: "white []" by (simp add: white_def)
  have arr: "json_text (JArr [?one]) (LBRACK # [] @ [49] @ [RBRACK])"
    using text_arr [OF w element1 [OF one_text w]] by simp
  have k: "body_ok [97]" by (simp add: QUOTE_def BACKSLASH_def)
  note obj = text_obj [OF w member1 [OF k arr w space_white w]]
  have d: "down (JObj [([97], JArr [?one])]) [97] (JArr [?one])"
    by (rule down_member) (simp_all add: DOT_def)
  have d0: "dec 0 = [48]" by (subst dec.simps) simp
  have "down (JArr [?one]) [48] ?one" using down_element [of 0 "[?one]"] by (simp add: d0)
  then have l: "leads (JObj [([97], JArr [?one])]) [[97], [48]] ?one" using d by (intro leads_more leads_one)
  show ?thesis using parse_find [OF obj w space_white l] by simp
qed

end
