(* ===== verification/JsonStore.thy ===== *)
theory JsonStore
  imports JsonProps
begin

text \<open>
  The nodes of \<open>engine/common/json.c\<close> in memory: \<open>JSON_CreateNode\<close>, \<open>JSON_Orphan\<close> and \<open>JSON_Destroy\<close>
  with the pointers they set, and the parser as it makes and destroys nodes.  A pointer is an address,
  0 the null pointer; a freed address holds nothing, and an access to it is the error
  \<open>Out_Of_Bounds\<close>.  \<open>malloc\<close> succeeds and never hands out an address again, so that a pointer to a
  freed node stays recognisable.  The marks \<open>used\<close> are left out as in \<open>Json\<close>.
\<close>

section \<open>Calls within a recursion that may not end\<close>

lemma run_bind_bind: "run_bind r f = Option.bind r (case_sum (\<lambda>e. Some (Inl e)) f)"
  by (auto simp: run_bind_def split: option.split sum.split)

lemma run_bind_mono [partial_function_mono]:
  assumes "mono_option F" and "\<And>y. mono_option (\<lambda>f. G y f)"
  shows "mono_option (\<lambda>f. run_bind (F f) (\<lambda>y. G y f))"
  unfolding run_bind_bind
proof (rule bind_mono [OF assms(1)])
  show "mono_option (\<lambda>f. case_sum (\<lambda>e. Some (Inl e)) (\<lambda>y. G y f) x)" for x
    using assms(2) by (cases x) (simp_all add: monotone_def option.leq_refl)
qed

section \<open>Nodes\<close>

type_synonym jptr = nat

definition JNULL :: jptr where "JNULL = 0"

text \<open>
  A \<open>json_t **\<close> that points into a node: to its \<open>child\<close> or its \<open>sibling\<close>.  The union of \<open>childlink\<close> and
  \<open>array\<close>: \<open>arraymax\<close>, which tells which one is held, is the length of the array, or 0.
\<close>

datatype jcell = ChildOf jptr | SiblingOf jptr
datatype jlinks = Childlink jcell | Slots "jptr list"

record json_node =
  n_type :: json_type
  n_name :: "byte list"
  n_body :: "byte list option"
  n_parent :: jptr
  n_child :: jptr
  n_sibling :: jptr
  n_links :: jlinks

record jheap =
  j_cells :: "jptr \<Rightarrow> json_node option"
  j_count :: nat

definition empty_heap :: jheap where
  "empty_heap = \<lparr>j_cells = (\<lambda>p. None), j_count = 0\<rparr>"

definition get_node :: "jheap \<Rightarrow> jptr \<Rightarrow> json_node res" where
  "get_node h p = (case j_cells h p of None \<Rightarrow> Inl Out_Of_Bounds | Some n \<Rightarrow> Inr n)"

definition upd_node :: "jptr \<Rightarrow> (json_node \<Rightarrow> json_node) \<Rightarrow> jheap \<Rightarrow> jheap res" where
  "upd_node p f h = rbind (get_node h p) (\<lambda>n. Inr (h\<lparr>j_cells := (j_cells h)(p := Some (f n))\<rparr>))"

definition free_node :: "jptr \<Rightarrow> jheap \<Rightarrow> jheap res" where
  "free_node p h = rbind (get_node h p) (\<lambda>n. Inr (h\<lparr>j_cells := (j_cells h)(p := None)\<rparr>))"

definition malloc_node :: "json_node \<Rightarrow> jheap \<Rightarrow> jptr \<times> jheap" where
  "malloc_node n h = (let p = Suc (j_count h) in (p, h\<lparr>j_cells := (j_cells h)(p := Some n), j_count := p\<rparr>))"

definition get_cell :: "jheap \<Rightarrow> jcell \<Rightarrow> jptr res" where
  "get_cell h l = (case l of ChildOf p \<Rightarrow> rbind (get_node h p) (\<lambda>n. Inr (n_child n))
     | SiblingOf p \<Rightarrow> rbind (get_node h p) (\<lambda>n. Inr (n_sibling n)))"

definition set_cell :: "jcell \<Rightarrow> jptr \<Rightarrow> jheap \<Rightarrow> jheap res" where
  "set_cell l q h = (case l of ChildOf p \<Rightarrow> upd_node p (\<lambda>n. n\<lparr>n_child := q\<rparr>) h
     | SiblingOf p \<Rightarrow> upd_node p (\<lambda>n. n\<lparr>n_sibling := q\<rparr>) h)"

section \<open>Destroying\<close>

text \<open>The slot of an array; \<open>idx\<close> is a \<open>size_t\<close>, which a negative \<open>atoi\<close> makes larger than any array.\<close>

definition clear_slot :: "jptr \<Rightarrow> json_node \<Rightarrow> jptr list \<Rightarrow> jheap \<Rightarrow> jheap res" where
  "clear_slot p t a h =
     (let idx = atoi (n_name t) in
      if 0 \<le> idx \<and> nat idx \<le> length a then
        rbind (poke (nat idx) JNULL a) (\<lambda>a. upd_node p (\<lambda>n. n\<lparr>n_links := Slots a\<rparr>) h)
      else Inr h)"

text \<open>\<open>while (*l)\<close>: walk the chain of the parent \<open>p\<close> to the pointer to \<open>t\<close>.\<close>

partial_function (option) unlink_node :: "jptr \<Rightarrow> jptr \<Rightarrow> jcell \<Rightarrow> jheap \<Rightarrow> jheap run" where
  "unlink_node t p l h =
     (case get_cell h l of
        Inl e \<Rightarrow> Some (Inl e)
      | Inr x \<Rightarrow>
          if x = JNULL then Some (Inr h)
          else if x = t then Some (rbind (get_node h t) (\<lambda>n. rbind (set_cell l (n_sibling n) h) (\<lambda>h.
            if n_sibling n \<noteq> JNULL then upd_node p (\<lambda>n. n\<lparr>n_links := Childlink l\<rparr>) h else Inr h)))
          else unlink_node t p (SiblingOf x) h)"

definition JSON_Orphan :: "jptr \<Rightarrow> jheap \<Rightarrow> jheap run" where
  "JSON_Orphan t h =
     run_bind (Some (get_node h t)) (\<lambda>n.
     if n_parent n = JNULL then Some (Inr h)
     else
       run_bind (Some (get_node h (n_parent n))) (\<lambda>p.
       run_bind (case n_links p of
                   Slots a \<Rightarrow> Some (clear_slot (n_parent n) n a h)
                 | Childlink _ \<Rightarrow> unlink_node t (n_parent n) (ChildOf (n_parent n)) h) (\<lambda>h.
       Some (upd_node t (\<lambda>n. n\<lparr>n_parent := JNULL, n_sibling := JNULL\<rparr>) h))))"

text \<open>
  \<open>JSON_Destroy\<close> and its two loops: over the slots from \<open>idx\<close> on, and as long as there is a \<open>child\<close>.
\<close>

datatype jtask = Whole jptr | From_Slot jptr nat | Children jptr

definition kids_of :: "jptr \<Rightarrow> json_node \<Rightarrow> jtask" where
  "kids_of t n = (case n_links n of Slots a \<Rightarrow> From_Slot t 0 | Childlink l \<Rightarrow> Children t)"

partial_function (option) destroy_task :: "jtask \<Rightarrow> jheap \<Rightarrow> jheap run" where
  "destroy_task k h = (case k of
     Whole t \<Rightarrow>
       if t = JNULL then Some (Inr h)
       else
         run_bind (Some (get_node h t)) (\<lambda>n.
         run_bind (destroy_task (kids_of t n) h) (\<lambda>h.
         run_bind (JSON_Orphan t h) (\<lambda>h. Some (free_node t h))))
   | From_Slot t idx \<Rightarrow>
       run_bind (Some (get_node h t)) (\<lambda>n.
       (case n_links n of
          Childlink l \<Rightarrow> Some (Inr h)
        | Slots a \<Rightarrow>
            if idx < length a then
              run_bind (destroy_task (Whole (a ! idx)) h) (\<lambda>h. destroy_task (From_Slot t (idx + 1)) h)
            else Some (Inr h)))
   | Children t \<Rightarrow>
       run_bind (Some (get_node h t)) (\<lambda>n.
       if n_child n = JNULL then Some (Inr h)
       else run_bind (destroy_task (Whole (n_child n)) h) (\<lambda>h. destroy_task (Children t) h)))"

definition JSON_Destroy :: "jptr \<Rightarrow> jheap \<Rightarrow> jheap run" where
  "JSON_Destroy t h = destroy_task (Whole t) h"

section \<open>Creating\<close>

text \<open>
  The name and the body are what the pointers delimit, copied or not; an array starts with 32 slots.  The
  new node is put into the slot its name says, the array growing where it must, and the node in the
  slot before it gets it as its sibling; a member is appended through \<open>childlink\<close>.
\<close>

definition array_insert :: "jptr \<Rightarrow> jptr list \<Rightarrow> jptr \<Rightarrow> byte list \<Rightarrow> jheap \<Rightarrow> jheap res" where
  "array_insert p a j name h =
     (if atoi name < 0 then Inl Out_Of_Bounds
      else
        let idx = nat (atoi name);
            a = (if length a \<le> idx then a @ replicate (max (idx + 1) (length a * 2) - length a) JNULL else a)
        in rbind (poke idx j a) (\<lambda>a.
           rbind (upd_node p (\<lambda>n. n\<lparr>n_links := Slots a\<rparr>) h) (\<lambda>h.
           if idx = 0 then upd_node p (\<lambda>n. n\<lparr>n_child := j\<rparr>) h
           else if a ! (idx - 1) \<noteq> JNULL then upd_node (a ! (idx - 1)) (\<lambda>n. n\<lparr>n_sibling := j\<rparr>) h
           else Inr h)))"

definition JSON_CreateNode ::
  "jptr \<Rightarrow> byte list \<Rightarrow> byte list option \<Rightarrow> json_type \<Rightarrow> jheap \<Rightarrow> (jptr \<times> jheap) res" where
  "JSON_CreateNode parent name body ty h =
     (let links = (\<lambda>j. if ty = json_type_array then Slots (replicate 32 JNULL) else Childlink (ChildOf j));
          (j, h) = malloc_node \<lparr>n_type = ty, n_name = name, n_body = body, n_parent = parent, n_child = JNULL,
                                n_sibling = JNULL, n_links = links (Suc (j_count h))\<rparr> h
      in if parent = JNULL then Inr (j, h)
         else
           rbind (get_node h parent) (\<lambda>p.
           rbind (case n_links p of
                    Slots a \<Rightarrow> array_insert parent a j name h
                  | Childlink l \<Rightarrow> rbind (set_cell l j h) (\<lambda>h.
                      upd_node parent (\<lambda>n. n\<lparr>n_links := Childlink (SiblingOf j)\<rparr>) h)) (\<lambda>h.
           Inr (j, h))))"

section \<open>The parser\<close>

text \<open>
  \<open>JSON_ParseNode\<close> and its loops on the store; bounds as in \<open>Json\<close>.  The null pointer is a node that
  could not be parsed, and the one begun for it has been destroyed.
\<close>

fun store_node :: "nat \<Rightarrow> jptr \<Rightarrow> byte list \<Rightarrow> byte list \<Rightarrow> jheap \<Rightarrow> (jptr \<times> byte list \<times> jheap) run"
and store_members :: "nat \<Rightarrow> jptr \<Rightarrow> byte list \<Rightarrow> jheap \<Rightarrow> (byte list \<times> jheap) run"
and store_elements :: "nat \<Rightarrow> jptr \<Rightarrow> nat \<Rightarrow> byte list \<Rightarrow> jheap \<Rightarrow> (byte list \<times> jheap) run"
where
  "store_node 0 par name r h = None"
| "store_node (Suc n) par name r h =
     (case JSON_SkipWhite r of
        [] \<Rightarrow> Some (Inr (JNULL, [], h))
      | c # r' \<Rightarrow>
          if c = LBRACE then
            run_bind (Some (JSON_CreateNode par name None json_type_object h)) (\<lambda>(t, h).
            run_bind (store_members n t (JSON_SkipWhite r') h) (\<lambda>(q, h).
            if q \<noteq> [] \<and> hd q = RBRACE then Some (Inr (t, tl q, h))
            else run_bind (JSON_Destroy t h) (\<lambda>h. Some (Inr (JNULL, q, h)))))
          else if c = LBRACK then
            run_bind (Some (JSON_CreateNode par name None json_type_array h)) (\<lambda>(t, h).
            run_bind (store_elements n t 0 (JSON_SkipWhite r') h) (\<lambda>(q, h).
            let q = JSON_SkipWhite q in
            if q \<noteq> [] \<and> hd q = RBRACK then Some (Inr (t, tl q, h))
            else run_bind (JSON_Destroy t h) (\<lambda>h. Some (Inr (JNULL, q, h)))))
          else
            (case JSON_ParseString (c # r') of
               (None, q) \<Rightarrow> Some (Inr (JNULL, q, h))
             | (Some b, q) \<Rightarrow>
                 run_bind (Some (JSON_CreateNode par name (Some b)
                     (if c = QUOTE then json_type_string else word_type b) h)) (\<lambda>(t, h).
                 Some (Inr (t, q, h)))))"
| "store_members 0 t r h = None"
| "store_members (Suc n) t r h =
     (if r \<noteq> [] \<and> hd r = QUOTE then
        (case JSON_ParseString r of
           (None, q) \<Rightarrow> Some (Inr (q, h))
         | (Some name, q) \<Rightarrow>
             let q = JSON_SkipWhite q in
             run_bind (if q \<noteq> [] \<and> hd q = COLON then store_node n t name (tl q) h
                       else Some (Inr (t, q, h))) (\<lambda>(p, q, h).
             if p = JNULL then Some (Inr (q, h))
             else
               let q = JSON_SkipWhite q in
               if q \<noteq> [] \<and> hd q = COMMA then store_members n t (JSON_SkipWhite (tl q)) h
               else Some (Inr (q, h))))
      else Some (Inr (r, h)))"
| "store_elements 0 t idx r h = None"
| "store_elements (Suc n) t idx r h =
     run_bind (store_node n t (dec idx) r h) (\<lambda>(p, q, h).
     if p = JNULL then Some (Inr (q, h))
     else if q \<noteq> [] \<and> hd q = COMMA then store_elements n t (idx + 1) (JSON_SkipWhite (tl q)) h
     else Some (Inr (q, h)))"

definition JSON_Parse_store :: "byte list \<Rightarrow> (jptr \<times> jheap) run" where
  "JSON_Parse_store text =
     (let r = (if take 3 text = [0xEF, 0xBB, 0xBF] then drop 3 text else text) in
      run_bind (store_node (2 * length r + 2) JNULL [] r empty_heap) (\<lambda>(t, q, h).
      if JSON_SkipWhite q = [] then Some (Inr (t, h))
      else run_bind (JSON_Destroy t h) (\<lambda>h. Some (Inr (JNULL, h)))))"

text \<open>
  \<open>PR_JSON_Count\<close> of \<open>engine/common/pr_bgcmd.c\<close>, which QuakeC's \<open>json_parse\<close> runs on a new tree: nodes and
  bytes of names, along \<open>child\<close> and \<open>sibling\<close>; bodies are not counted (\<open>JSON_PERSIST_STRINGDATA\<close>).
\<close>

definition count_node :: "json_node \<Rightarrow> nat \<times> nat \<Rightarrow> nat \<times> nat" where
  "count_node n c = (fst c + 1, snd c + (if n_name n = [] then 0 else length (n_name n) + 1))"

definition count_from_child :: "json_node \<Rightarrow> jptr" where
  "count_from_child n = (if n_type n = json_type_object \<or> n_type n = json_type_array then n_child n else JNULL)"

partial_function (option) count_chain :: "jheap \<Rightarrow> jptr \<Rightarrow> nat \<times> nat \<Rightarrow> (nat \<times> nat) run" where
  "count_chain h r c =
     (if r = JNULL then Some (Inr c)
      else
        run_bind (Some (get_node h r)) (\<lambda>n.
        run_bind (count_chain h (count_from_child n) (count_node n c)) (\<lambda>c.
        count_chain h (n_sibling n) c)))"

definition PR_JSON_Count :: "jheap \<Rightarrow> jptr \<Rightarrow> nat \<times> nat \<Rightarrow> (nat \<times> nat) run" where
  "PR_JSON_Count h r c =
     run_bind (Some (get_node h r)) (\<lambda>n. count_chain h (count_from_child n) (count_node n c))"

section \<open>The same texts\<close>

lemma run_bind_Inr: "run_bind r f = Some (Inr x) \<longleftrightarrow> (\<exists>y. r = Some (Inr y) \<and> f y = Some (Inr x))"
  by (auto simp: run_bind_def split: option.split sum.split)

lemma create_address: "JSON_CreateNode par name body ty h = Inr (j, h') \<Longrightarrow> j = Suc (j_count h)"
  by (auto simp: JSON_CreateNode_def malloc_node_def Let_def rbind_Inr split: if_splits)

text \<open>
  The parser on the store accepts a value exactly when the parser on values does, and stops at the same
  place: what happens to the nodes does not steer it.
\<close>

lemma store_agrees:
  "store_node n par name r h = Some (Inr (p, q, h')) \<Longrightarrow>
    \<exists>v. JSON_ParseNode n name r = Some (v, q) \<and> (v = None \<longleftrightarrow> p = JNULL)"
  "store_members n t r h = Some (Inr (q, h')) \<Longrightarrow> t \<noteq> JNULL \<Longrightarrow> \<exists>kids'. parse_members n kids r = Some (kids', q)"
  "store_elements n t idx r h = Some (Inr (q, h')) \<Longrightarrow> length kids' = idx \<Longrightarrow>
    \<exists>kids''. parse_elements n kids' r = Some (kids'', q)"
proof (induction n arbitrary: par name r h p q h' t kids idx kids')
  case 0
  { case 1 then show ?case by simp }
  { case 2 then show ?case by simp }
  { case 3 then show ?case by simp }
next
  case (Suc n)
  { case 1
    show ?case
    proof (cases "JSON_SkipWhite r")
      case Nil
      then show ?thesis using 1 by simp
    next
      case (Cons c r')
      consider "c = LBRACE" | "c = LBRACK" | "c \<noteq> LBRACE" "c \<noteq> LBRACK" by blast
      then show ?thesis
      proof cases
        assume c: "c = LBRACE"
        obtain t h1 q1 h2 where st: "JSON_CreateNode par name None json_type_object h = Inr (t, h1)"
          "store_members n t (JSON_SkipWhite r') h1 = Some (Inr (q1, h2))"
          "(if q1 \<noteq> [] \<and> hd q1 = RBRACE then Some (Inr (t, tl q1, h2))
            else run_bind (JSON_Destroy t h2) (\<lambda>h. Some (Inr (JNULL, q1, h)))) = Some (Inr (p, q, h'))"
          using 1 c Cons by (auto simp: run_bind_Inr)
        have t: "t \<noteq> JNULL" using create_address [OF st(1)] by (simp add: JNULL_def)
        show ?thesis
          using Suc.IH(2) [OF st(2) t, of "[]"] st(3) t c Cons by (auto simp: run_bind_Inr split: if_splits)
      next
        assume c: "c = LBRACK"
        then have c': "c \<noteq> LBRACE" by simp
        obtain t h1 q1 h2 where st: "JSON_CreateNode par name None json_type_array h = Inr (t, h1)"
          "store_elements n t 0 (JSON_SkipWhite r') h1 = Some (Inr (q1, h2))"
          "(if JSON_SkipWhite q1 \<noteq> [] \<and> hd (JSON_SkipWhite q1) = RBRACK then Some (Inr (t, tl (JSON_SkipWhite q1), h2))
            else run_bind (JSON_Destroy t h2) (\<lambda>h. Some (Inr (JNULL, JSON_SkipWhite q1, h)))) = Some (Inr (p, q, h'))"
          using 1 c c' Cons by (auto simp: run_bind_Inr Let_def)
        have t: "t \<noteq> JNULL" using create_address [OF st(1)] by (simp add: JNULL_def)
        obtain kids where "parse_elements n [] (JSON_SkipWhite r') = Some (kids, q1)"
          using Suc.IH(3) [OF st(2), of "[]"] by auto
        then show ?thesis
          using st(3) t c c' Cons by (auto simp: run_bind_Inr Let_def split: if_splits)
      next
        assume c: "c \<noteq> LBRACE" "c \<noteq> LBRACK"
        obtain b q1 where ps: "JSON_ParseString (c # r') = (b, q1)" by force
        show ?thesis
          using 1 c ps Cons
          by (cases b) (auto simp: run_bind_Inr JNULL_def dest: create_address)
      qed
    qed }
  { case 2
    show ?case
    proof (cases "r \<noteq> [] \<and> hd r = QUOTE")
      case True
      obtain b q1 where ps: "JSON_ParseString r = (b, q1)" by force
      show ?thesis
      proof (cases b)
        case None
        then show ?thesis using 2 True ps by simp
      next
        case (Some nm)
        let ?q = "JSON_SkipWhite q1"
        obtain p2 q2 h2 where st: "(if ?q \<noteq> [] \<and> hd ?q = COLON then store_node n t nm (tl ?q) h
            else Some (Inr (t, ?q, h))) = Some (Inr (p2, q2, h2))"
          "(if p2 = JNULL then Some (Inr (q2, h2))
            else if JSON_SkipWhite q2 \<noteq> [] \<and> hd (JSON_SkipWhite q2) = COMMA
              then store_members n t (JSON_SkipWhite (tl (JSON_SkipWhite q2))) h2
              else Some (Inr (JSON_SkipWhite q2, h2))) = Some (Inr (q, h'))"
          using 2(1) True ps Some by (auto simp: run_bind_Inr Let_def cong: if_cong)
        have v: "\<exists>v. (if ?q \<noteq> [] \<and> hd ?q = COLON then JSON_ParseNode n nm (tl ?q) else Some (None, ?q)) = Some (v, q2) \<and>
            (?q \<noteq> [] \<and> hd ?q = COLON \<and> v = None \<longleftrightarrow> p2 = JNULL)"
          using st(1) Suc.IH(1) 2(2) by (fastforce split: if_splits)
        then obtain v where v: "(if ?q \<noteq> [] \<and> hd ?q = COLON then JSON_ParseNode n nm (tl ?q) else Some (None, ?q)) = Some (v, q2)"
          "?q \<noteq> [] \<and> hd ?q = COLON \<and> v = None \<longleftrightarrow> p2 = JNULL" by blast
        have v2: "(?q \<noteq> [] \<and> hd ?q = COLON \<and> v = None) = (p2 = JNULL)" by (rule v(2))
        show ?thesis
        proof (cases "p2 = JNULL")
          case True
          then show ?thesis using v st(2) \<open>r \<noteq> [] \<and> hd r = QUOTE\<close> ps Some by (simp add: Let_def)
        next
          case False
          have m: "\<exists>kids'. parse_members n ks (JSON_SkipWhite (tl (JSON_SkipWhite q2))) = Some (kids', q)"
            if "JSON_SkipWhite q2 \<noteq> [] \<and> hd (JSON_SkipWhite q2) = COMMA" for ks
            using Suc.IH(2) [of t "JSON_SkipWhite (tl (JSON_SkipWhite q2))" h2 q h' ks] st(2) False that 2(2) by simp
          have e: "parse_members (Suc n) kids r =
             (let kids = (case v of Some j \<Rightarrow> kids @ [j] | None \<Rightarrow> kids); q' = JSON_SkipWhite q2
              in if q' \<noteq> [] \<and> hd q' = COMMA then parse_members n kids (JSON_SkipWhite (tl q')) else Some (kids, q'))"
            using v(1) v2 False \<open>r \<noteq> [] \<and> hd r = QUOTE\<close> ps Some
            by (cases "?q \<noteq> [] \<and> hd ?q = COLON"; cases v) (auto simp: Let_def)
          show ?thesis
            unfolding e Let_def using m st(2) False by auto
        qed
      qed
    next
      case False
      then show ?thesis using 2 by auto
    qed }
  { case 3
    obtain p2 q2 h2 where st: "store_node n t (dec idx) r h = Some (Inr (p2, q2, h2))"
      "(if p2 = JNULL then Some (Inr (q2, h2))
        else if q2 \<noteq> [] \<and> hd q2 = COMMA then store_elements n t (idx + 1) (JSON_SkipWhite (tl q2)) h2
        else Some (Inr (q2, h2))) = Some (Inr (q, h'))"
      using 3(1) by (auto simp: run_bind_Inr)
    obtain v where v: "JSON_ParseNode n (dec idx) r = Some (v, q2)" "v = None \<longleftrightarrow> p2 = JNULL"
      using Suc.IH(1) [OF st(1)] by blast
    show ?case
    proof (cases v)
      case None
      then show ?thesis using v st(2) 3(2) by auto
    next
      case (Some j)
      have e: "parse_elements (Suc n) kids' r =
          (if q2 \<noteq> [] \<and> hd q2 = COMMA then parse_elements n (kids' @ [j]) (JSON_SkipWhite (tl q2)) else Some (kids' @ [j], q2))"
        using v(1) Some 3(2) by simp
      have "p2 \<noteq> JNULL" using v(2) Some by simp
      then show ?thesis
        unfolding e using st(2) Suc.IH(3) [of t "idx + 1" "JSON_SkipWhite (tl q2)" h2 q h' "kids' @ [j]"] 3(2)
        by (auto split: if_splits)
    qed }
qed

section \<open>An array whose elements are strings and words\<close>

text \<open>The root at address 1 with \<open>m\<close> elements, the elements behind it, and their chain up to element \<open>k\<close>.\<close>

definition slots_ok :: "nat \<Rightarrow> jheap \<Rightarrow> bool" where
  "slots_ok m h \<longleftrightarrow> (\<exists>rt sl. j_cells h 1 = Some rt \<and> n_type rt = json_type_array \<and> n_parent rt = JNULL \<and>
     n_child rt = (if m = 0 then JNULL else 2) \<and> n_links rt = Slots sl \<and> m \<le> length sl \<and> 32 \<le> length sl \<and>
     (\<forall>i<m. sl ! i = i + 2))"

definition chain_ok :: "nat \<Rightarrow> nat \<Rightarrow> jheap \<Rightarrow> bool" where
  "chain_ok m k h \<longleftrightarrow> (\<forall>i<k. \<exists>e. j_cells h (i + 2) = Some e \<and> n_type e \<noteq> json_type_object \<and>
     n_type e \<noteq> json_type_array \<and> n_sibling e = (if Suc i < m then i + 3 else JNULL))"

definition new_element :: "nat \<Rightarrow> byte list option \<Rightarrow> json_type \<Rightarrow> json_node" where
  "new_element m body ty = \<lparr>n_type = ty, n_name = dec m, n_body = body, n_parent = 1, n_child = JNULL,
     n_sibling = JNULL, n_links = Childlink (ChildOf (m + 2))\<rparr>"

lemma atoi_dec_all: "atoi (dec m) = int m"
  using atoi_dec [of "[]" m] by simp

lemma create_element:
  assumes "slots_ok m h" and "chain_ok m m h" and "j_count h = Suc m" and "ty \<noteq> json_type_array"
  shows "\<exists>h'. JSON_CreateNode 1 (dec m) body ty h = Inr (m + 2, h') \<and> slots_ok (Suc m) h' \<and>
    chain_ok (Suc m) m h' \<and> j_count h' = Suc (Suc m) \<and> j_cells h' (m + 2) = Some (new_element m body ty)"
proof -
  obtain rt sl where rt: "j_cells h 1 = Some rt" "n_type rt = json_type_array" "n_parent rt = JNULL"
    "n_child rt = (if m = 0 then JNULL else 2)" "n_links rt = Slots sl" "m \<le> length sl" "32 \<le> length sl"
    "\<forall>i<m. sl ! i = i + 2"
    using assms(1) by (auto simp: slots_ok_def)
  define sl' where "sl' = (if length sl \<le> m then sl @ replicate (max (m + 1) (length sl * 2) - length sl) JNULL else sl)"
  have sl': "m < length sl'" "32 \<le> length sl'" "\<forall>i<m. sl' ! i = i + 2"
    using rt(6,7,8) by (auto simp: sl'_def nth_append)
  let ?h = "h\<lparr>j_cells := (j_cells h)(m + 2 := Some (new_element m body ty)), j_count := m + 2\<rparr>"
  let ?rt = "rt\<lparr>n_links := Slots (sl'[m := m + 2])\<rparr>"
  have mk: "JSON_CreateNode 1 (dec m) body ty h = rbind (array_insert 1 sl (m + 2) (dec m) ?h) (\<lambda>h. Inr (m + 2, h))"
    using assms(3,4) rt(1,5)
    by (simp add: JSON_CreateNode_def malloc_node_def new_element_def JNULL_def get_node_def Let_def)
  have ins: "array_insert 1 sl (m + 2) (dec m) ?h =
      (if m = 0 then upd_node 1 (\<lambda>n. n\<lparr>n_child := m + 2\<rparr>) (?h\<lparr>j_cells := (j_cells ?h)(1 := Some ?rt)\<rparr>)
       else upd_node (m + 1) (\<lambda>n. n\<lparr>n_sibling := m + 2\<rparr>) (?h\<lparr>j_cells := (j_cells ?h)(1 := Some ?rt)\<rparr>))"
  proof -
    have a: "array_insert 1 sl j (dec m) h0 = rbind (poke m j sl') (\<lambda>a.
        rbind (upd_node 1 (\<lambda>n. n\<lparr>n_links := Slots a\<rparr>) h0) (\<lambda>h.
        if m = 0 then upd_node 1 (\<lambda>n. n\<lparr>n_child := j\<rparr>) h
        else if a ! (m - 1) \<noteq> JNULL then upd_node (a ! (m - 1)) (\<lambda>n. n\<lparr>n_sibling := j\<rparr>) h
        else Inr h))" for j h0
      unfolding array_insert_def atoi_dec_all sl'_def by (simp only: Let_def nat_int of_nat_less_0_iff if_False)
    have p: "poke m (m + 2) sl' = Inr (sl'[m := m + 2])" using sl'(1) by simp
    have u: "upd_node 1 (\<lambda>n. n\<lparr>n_links := Slots a\<rparr>) ?h = Inr (?h\<lparr>j_cells := (j_cells ?h)(1 := Some (rt\<lparr>n_links := Slots a\<rparr>))\<rparr>)" for a
      using rt(1) by (simp add: upd_node_def get_node_def)
    have b: "m \<noteq> 0 \<Longrightarrow> sl'[m := m + 2] ! (m - 1) = m + 1" using sl'(1,3) by simp
    show ?thesis unfolding a p rbind_Inr u using b by (cases "m = 0") (simp_all add: JNULL_def)
  qed
  show ?thesis
  proof (cases m)
    case 0
    then show ?thesis
      using mk ins sl' rt(2,3) by (simp add: upd_node_def get_node_def slots_ok_def chain_ok_def JNULL_def)
  next
    case (Suc k)
    obtain e where e: "j_cells h (k + 2) = Some e" "n_type e \<noteq> json_type_object" "n_type e \<noteq> json_type_array"
      using assms(2) Suc by (auto simp: chain_ok_def)
    let ?h2 = "?h\<lparr>j_cells := (j_cells ?h)(1 := Some ?rt, k + 2 := Some (e\<lparr>n_sibling := m + 2\<rparr>))\<rparr>"
    have r: "JSON_CreateNode 1 (dec m) body ty h = Inr (m + 2, ?h2)"
      using mk ins e(1) Suc by (simp add: upd_node_def get_node_def)
    have "chain_ok (Suc m) m ?h2"
      unfolding chain_ok_def
    proof (intro allI impI)
      fix i assume i: "i < m"
      show "\<exists>e. j_cells ?h2 (i + 2) = Some e \<and> n_type e \<noteq> json_type_object \<and> n_type e \<noteq> json_type_array \<and>
          n_sibling e = (if Suc i < Suc m then i + 3 else JNULL)"
      proof (cases "i = k")
        case True
        then show ?thesis using e Suc by simp
      next
        case False
        then have "Suc i < m" using i Suc by simp
        moreover obtain e' where "j_cells h (i + 2) = Some e'" "n_type e' \<noteq> json_type_object"
          "n_type e' \<noteq> json_type_array" "n_sibling e' = (if Suc i < m then i + 3 else JNULL)"
          using assms(2) i unfolding chain_ok_def by blast
        ultimately show ?thesis using i False by simp
      qed
    qed
    moreover have "slots_ok (Suc m) ?h2"
      using rt(2,3,4) sl' Suc by (auto simp: slots_ok_def nth_list_update less_Suc_eq)
    moreover have "j_cells ?h2 (m + 2) = Some (new_element m body ty)" using Suc by simp
    ultimately show ?thesis using r by (intro exI [of _ ?h2]) simp
  qed
qed

text \<open>Destroying the last element clears its slot and frees it; the chain keeps its pointer to it.\<close>

lemma destroy_element:
  assumes "slots_ok (Suc m) h" and "chain_ok (Suc m) m h" and "j_cells h (m + 2) = Some (new_element m body ty)"
  shows "\<exists>h' rt. JSON_Destroy (m + 2) h = Some (Inr h') \<and> chain_ok (Suc m) m h' \<and> j_cells h' (m + 2) = None \<and>
    j_cells h' 1 = Some rt \<and> n_type rt = json_type_array \<and> n_child rt = 2"
proof -
  obtain rt sl where rt: "j_cells h 1 = Some rt" "n_type rt = json_type_array" "n_child rt = 2" "n_links rt = Slots sl"
    "Suc m \<le> length sl"
    using assms(1) by (auto simp: slots_ok_def)
  have kids: "destroy_task (kids_of (m + 2) (new_element m body ty)) h = Some (Inr h)"
    using assms(3) by (subst destroy_task.simps) (simp add: kids_of_def new_element_def get_node_def)
  let ?rt = "rt\<lparr>n_links := Slots (sl[m := JNULL])\<rparr>"
  let ?e = "(new_element m body ty)\<lparr>n_parent := JNULL, n_sibling := JNULL\<rparr>"
  let ?h = "h\<lparr>j_cells := (j_cells h)(1 := Some ?rt, m + 2 := Some ?e)\<rparr>"
  have orphan: "JSON_Orphan (m + 2) h = Some (Inr ?h)"
    using assms(3) rt
    by (simp add: JSON_Orphan_def get_node_def new_element_def JNULL_def clear_slot_def atoi_dec_all upd_node_def)
  have "JSON_Destroy (m + 2) h = Some (free_node (m + 2) ?h)"
    unfolding JSON_Destroy_def using assms(3) kids orphan
    by (subst destroy_task.simps) (simp add: JNULL_def get_node_def)
  then show ?thesis
    using assms(2) rt(2,3) by (auto simp: free_node_def get_node_def chain_ok_def)
qed

lemma count_faults:
  assumes "chain_ok (Suc m) m h" and "j_cells h (m + 2) = None"
  shows "i \<le> m \<Longrightarrow> count_chain h (i + 2) c = Some (Inl Out_Of_Bounds)"
proof (induction "m - i" arbitrary: i c)
  case 0
  then have "i = m" by simp
  then show ?case using assms(2) by (subst count_chain.simps) (simp add: JNULL_def get_node_def)
next
  case (Suc d)
  then have i: "i < m" by simp
  then obtain e where e: "j_cells h (i + 2) = Some e" "n_type e \<noteq> json_type_object" "n_type e \<noteq> json_type_array"
    "n_sibling e = i + 3"
    using assms(1) by (auto simp: chain_ok_def)
  have stop: "count_chain h JNULL c' = Some (Inr c')" for c'
    by (subst count_chain.simps) simp
  have "count_chain h (Suc i + 2) c' = Some (Inl Out_Of_Bounds)" for c'
    using Suc.hyps(2) i by (intro Suc.hyps(1)) simp_all
  then have next_fault: "count_chain h (n_sibling e) c' = Some (Inl Out_Of_Bounds)" for c'
  proof -
    have "i + 3 = Suc i + 2" by simp
    then show ?thesis using \<open>\<And>c'. count_chain h (Suc i + 2) c' = Some (Inl Out_Of_Bounds)\<close> by (simp only: e(4))
  qed
  have "i + 2 \<noteq> JNULL" "count_from_child e = JNULL" "get_node h (i + 2) = Inr e"
    using e by (simp_all add: JNULL_def count_from_child_def get_node_def)
  then show ?case by (subst count_chain.simps) (simp add: stop next_fault)
qed

section \<open>The element that is not closed\<close>

fun scalar_text :: "jvalue \<Rightarrow> byte list" where
  "scalar_text (JStr b) = QUOTE # b @ [QUOTE]"
| "scalar_text (JWord b) = b"
| "scalar_text _ = []"

fun scalar_ok :: "jvalue \<Rightarrow> bool" where
  "scalar_ok (JStr b) \<longleftrightarrow> body_ok b"
| "scalar_ok (JWord b) \<longleftrightarrow> word_ok b"
| "scalar_ok _ \<longleftrightarrow> False"

lemma word_type_scalar: "word_type b \<noteq> json_type_object" "word_type b \<noteq> json_type_array"
  by (simp_all add: word_type_def)

lemma scalar_step:
  assumes "scalar_ok v" and "slots_ok m h" and "chain_ok m m h" and "j_count h = Suc m"
  shows "\<exists>h'. store_node (Suc n) 1 (dec m) (scalar_text v @ COMMA # r) h = Some (Inr (m + 2, COMMA # r, h')) \<and>
    slots_ok (Suc m) h' \<and> chain_ok (Suc m) (Suc m) h' \<and> j_count h' = Suc (Suc m)"
proof -
  obtain c s b ty where t: "scalar_text v @ COMMA # r = c # s" "starts (c # s)" "c \<noteq> LBRACE" "c \<noteq> LBRACK"
    "JSON_ParseString (c # s) = (Some b, COMMA # r)" "ty = (if c = QUOTE then json_type_string else word_type b)"
  proof (cases v)
    case (JStr b)
    then show ?thesis using assms(1) by (intro that [of QUOTE "b @ QUOTE # COMMA # r" b]) (simp_all add: parse_quoted)
  next
    case (JWord b)
    then have w: "word_ok b" using assms(1) by simp
    then obtain c b' where b: "b = c # b'" by (cases b) (auto simp: word_ok_def)
    have "word_char c" using w by (simp add: b word_ok_def)
    then have "c \<noteq> LBRACE" "c \<noteq> LBRACK" "starts (c # b' @ COMMA # r)"
      using word_char_facts [of c] by (auto simp: starts_def)
    then show ?thesis
      using parse_word [OF w stops_bytes(2), of r] JWord by (intro that [of c "b' @ COMMA # r" b]) (simp_all add: b)
  qed (use assms(1) in simp_all)
  have ty: "ty \<noteq> json_type_array" "ty \<noteq> json_type_object"
    using word_type_scalar [of b] by (simp_all add: t(6))
  obtain h' where h': "JSON_CreateNode 1 (dec m) (Some b) ty h = Inr (m + 2, h')" "slots_ok (Suc m) h'"
    "chain_ok (Suc m) m h'" "j_count h' = Suc (Suc m)" "j_cells h' (m + 2) = Some (new_element m (Some b) ty)"
    using create_element [OF assms(2-4) ty(1), of "Some b"] by blast
  have "chain_ok (Suc m) (Suc m) h'"
    using h'(3,5) ty by (auto simp: chain_ok_def less_Suc_eq new_element_def)
  then show ?thesis
    using h' t by (simp add: skip_start)
qed

lemma unclosed_step:
  assumes "slots_ok m h" and "chain_ok m m h" and "j_count h = Suc m" and "white w"
  shows "\<exists>h' rt. store_node (Suc (Suc n)) 1 (dec m) (LBRACE # w @ [RBRACK]) h = Some (Inr (JNULL, [RBRACK], h')) \<and>
    chain_ok (Suc m) m h' \<and> j_cells h' (m + 2) = None \<and> j_cells h' 1 = Some rt \<and>
    n_type rt = json_type_array \<and> n_child rt = 2"
proof -
  obtain h1 where h1: "JSON_CreateNode 1 (dec m) None json_type_object h = Inr (m + 2, h1)" "slots_ok (Suc m) h1"
    "chain_ok (Suc m) m h1" "j_cells h1 (m + 2) = Some (new_element m None json_type_object)"
    using create_element [OF assms(1-3), of json_type_object None] by auto
  obtain h2 rt where h2: "JSON_Destroy (m + 2) h1 = Some (Inr h2)" "chain_ok (Suc m) m h2" "j_cells h2 (m + 2) = None"
    "j_cells h2 1 = Some rt" "n_type rt = json_type_array" "n_child rt = 2"
    using destroy_element [OF h1(2-4)] by blast
  have "JSON_SkipWhite (LBRACE # w @ [RBRACK]) = LBRACE # w @ [RBRACK]" "JSON_SkipWhite (w @ [RBRACK]) = [RBRACK]"
    using assms(4) by (simp_all add: skip_start skip_to)
  then show ?thesis
    using h1(1) h2 by (intro exI [of _ h2] exI [of _ rt]) simp
qed

lemma elements_start:
  assumes "list_all scalar_ok vs"
  shows "JSON_SkipWhite (concat (map (\<lambda>v. scalar_text v @ [COMMA]) vs) @ LBRACE # r) =
    concat (map (\<lambda>v. scalar_text v @ [COMMA]) vs) @ LBRACE # r"
proof (cases vs)
  case (Cons v vs')
  then have "json_text v (scalar_text v)" using assms by (cases v) (simp_all add: text_str text_word)
  then show ?thesis using text_starts by (simp add: Cons skip_start)
qed (simp add: skip_start)

lemma elements_unclosed:
  assumes "list_all scalar_ok vs" and "white w" and "slots_ok m h" and "chain_ok m m h" and "j_count h = Suc m"
    and "length vs + 3 \<le> n"
  shows "\<exists>h' rt k. store_elements n 1 m (concat (map (\<lambda>v. scalar_text v @ [COMMA]) vs) @ LBRACE # w @ [RBRACK]) h =
      Some (Inr ([RBRACK], h')) \<and> chain_ok (Suc k) k h' \<and> j_cells h' (k + 2) = None \<and> j_cells h' 1 = Some rt \<and>
      n_type rt = json_type_array \<and> n_child rt = 2"
  using assms
proof (induction vs arbitrary: m h n)
  case Nil
  obtain n' where n: "n = Suc (Suc (Suc n'))" using Nil.prems(6) by (auto dest!: le_Suc_ex simp: eval_nat_numeral)
  show ?case
    using unclosed_step [OF Nil.prems(3-5,2), of n'] by (fastforce simp: n simp del: store_node.simps)
next
  case (Cons v vs)
  let ?r = "concat (map (\<lambda>v. scalar_text v @ [COMMA]) vs) @ LBRACE # w @ [RBRACK]"
  obtain n' where n: "n = Suc (Suc n')" using Cons.prems(6) by (auto dest!: le_Suc_ex simp: eval_nat_numeral)
  obtain h1 where h1: "store_node (Suc n') 1 (dec m) (scalar_text v @ COMMA # ?r) h = Some (Inr (m + 2, COMMA # ?r, h1))"
    "slots_ok (Suc m) h1" "chain_ok (Suc m) (Suc m) h1" "j_count h1 = Suc (Suc m)"
    using scalar_step [of v m h n' ?r] Cons.prems by auto
  have st: "JSON_SkipWhite ?r = ?r"
    by (rule elements_start) (use Cons.prems(1) in simp)
  have "store_elements n 1 m (concat (map (\<lambda>v. scalar_text v @ [COMMA]) (v # vs)) @ LBRACE # w @ [RBRACK]) h =
      store_elements (Suc n') 1 (Suc m) ?r h1"
    using h1(1) st by (simp add: n JNULL_def del: store_node.simps)
  then show ?case
    using Cons.IH [OF _ Cons.prems(2) h1(2-4), of "Suc n'"] Cons.prems(1,6) by (simp add: n)
qed

text \<open>
  C17: an array of any strings and words that ends in an object that is not closed is accepted.
  \<open>JSON_Destroy\<close> has freed the node of that object and cleared its slot, but the pointer to it that
  \<open>JSON_CreateNode\<close> stored (the \<open>sibling\<close> of the element before it, or the \<open>child\<close> of the array)
  is still there: the count that QuakeC's \<open>json_parse\<close> makes of the tree reads the freed node.
\<close>

theorem unfinished_element_dangles:
  assumes "list_all scalar_ok vs" and "white w"
  shows "\<exists>t h. JSON_Parse_store (LBRACK # concat (map (\<lambda>v. scalar_text v @ [COMMA]) vs) @ LBRACE # w @ [RBRACK]) =
      Some (Inr (t, h)) \<and> t \<noteq> JNULL \<and> PR_JSON_Count h t c = Some (Inl Out_Of_Bounds)"
proof -
  let ?r = "concat (map (\<lambda>v. scalar_text v @ [COMMA]) vs) @ LBRACE # w @ [RBRACK]"
  define h0 where "h0 = \<lparr>j_cells = (\<lambda>p. None)(1 := Some \<lparr>n_type = json_type_array, n_name = [], n_body = None,
      n_parent = JNULL, n_child = JNULL, n_sibling = JNULL, n_links = Slots (replicate 32 JNULL)\<rparr>), j_count = 1\<rparr>"
  have mk: "JSON_CreateNode JNULL [] None json_type_array empty_heap = Inr (1, h0)"
    by (simp add: JSON_CreateNode_def malloc_node_def empty_heap_def h0_def Let_def)
  have inv: "slots_ok 0 h0" "chain_ok 0 0 h0" "j_count h0 = Suc 0"
    by (simp_all add: slots_ok_def chain_ok_def h0_def)
  have len: "length vs + 3 \<le> 2 * length ?r + 3"
  proof -
    have "length vs \<le> length (concat (map (\<lambda>v. scalar_text v @ [COMMA]) vs))" by (induction vs) simp_all
    then show ?thesis by simp
  qed
  have st: "JSON_SkipWhite ?r = ?r"
    by (rule elements_start) (use assms(1) in simp)
  obtain h rt k where h: "store_elements (2 * length ?r + 3) 1 0 ?r h0 = Some (Inr ([RBRACK], h))"
    "chain_ok (Suc k) k h" "j_cells h (k + 2) = None" "j_cells h 1 = Some rt" "n_type rt = json_type_array" "n_child rt = 2"
    using elements_unclosed [OF assms inv len] by blast
  have n: "2 * length (LBRACK # ?r) + 2 = Suc (2 * length ?r + 3)" by simp
  have bom: "take 3 (LBRACK # ?r) \<noteq> [0xEF, 0xBB, 0xBF]" by (simp add: byte_defs)
  have end0: "JSON_SkipWhite [] = []" "JSON_SkipWhite [RBRACK] = [RBRACK]"
    using skip_end [of "[]"] by (simp_all add: white_def skip_start)
  have "store_node (Suc (2 * length ?r + 3)) JNULL [] (LBRACK # ?r) empty_heap = Some (Inr (1, [], h))"
    using mk h(1) st end0 by (subst store_node.simps(2)) (simp add: skip_start)
  then have "JSON_Parse_store (LBRACK # ?r) = Some (Inr (1, h))"
    unfolding JSON_Parse_store_def Let_def if_not_P [OF bom] n using end0 by simp
  moreover have "count_chain h 2 c' = Some (Inl Out_Of_Bounds)" for c'
    using count_faults [OF h(2,3), of 0 c'] unfolding add_0 by blast
  then have "PR_JSON_Count h 1 c = Some (Inl Out_Of_Bounds)"
    using h(4-6) by (simp add: PR_JSON_Count_def get_node_def count_from_child_def)
  ultimately show ?thesis by (intro exI [of _ 1] exI [of _ h]) (simp add: JNULL_def)
qed

lemma unfinished_element_witness:
  "\<exists>t h. JSON_Parse_store [LBRACK, 49, COMMA, LBRACE, 0x20, RBRACK] = Some (Inr (t, h)) \<and> t \<noteq> JNULL \<and>
    PR_JSON_Count h t (0, 0) = Some (Inl Out_Of_Bounds)"
  using unfinished_element_dangles [of "[JWord [49]]" "[0x20]" "(0, 0)"]
  by (simp add: word_ok_def word_char_def white_def is_white_def)

end
