(* ===== verification/Token.thy ===== *)
theory Token
  imports TextCodes
begin

text \<open>
  The tokenisers of \<open>engine/common/common.c\<close>: \<open>COM_ParseStringSetSep\<close>, \<open>COM_ParseStringSet\<close>,
  \<open>COM_ParseType\<close> (which is \<open>COM_Parse\<close> and \<open>COM_ParseOut\<close>), \<open>COM_StringParse\<close>,
  \<open>COM_ParseTokenOut\<close>, \<open>COM_ParseCString\<close>, and \<open>COM_QuotedString\<close>, which writes what they read.

  A pointer into the text is the memory from that pointer on, with the terminator and what lies
  behind it; reading at the end of that list is a fault.  The token goes to an array \<open>out\<close> with the
  position \<open>len\<close>.  \<open>char\<close> is signed, so a byte of 128 or more is below the space where the code
  compares a plain \<open>char\<close> with it, and above it where the code compares as unsigned.
\<close>

section \<open>White space and comments\<close>

definition signed_low :: "byte \<Rightarrow> bool" where
  "signed_low c \<longleftrightarrow> sint c \<le> 32"

text \<open>The loop \<open>while ((c = *data) <= ' ')\<close> and its variants; \<open>None\<close> is the end of the text.\<close>

fun skip_low :: "(byte \<Rightarrow> bool) \<Rightarrow> byte list \<Rightarrow> byte list option res" where
  "skip_low low [] = Inl Out_Of_Bounds"
| "skip_low low (c # r) =
     (if low c then (if c = 0 then Inr None else skip_low low r) else Inr (Some (c # r)))"

fun to_newline :: "byte list \<Rightarrow> byte list res" where
  "to_newline [] = Inl Out_Of_Bounds"
| "to_newline (c # r) = (if c \<noteq> 0 \<and> c \<noteq> 10 then to_newline r else Inr (c # r))"

text \<open>A block comment from behind its opening: in a loop that leaves behind the end, and in one that
  stops before it and steps twice.\<close>

fun skip_comment :: "byte list \<Rightarrow> byte list res" where
  "skip_comment [] = Inl Out_Of_Bounds"
| "skip_comment (c # r) =
     (if c = 0 then Inr (c # r)
      else if c = 0x2A then
        (case r of
           [] \<Rightarrow> Inl Out_Of_Bounds
         | d # r' \<Rightarrow> if d = 0x2F then Inr r' else skip_comment r)
      else skip_comment r)"

fun find_comment_end :: "byte list \<Rightarrow> byte list res" where
  "find_comment_end [] = Inl Out_Of_Bounds"
| "find_comment_end (c # r) =
     (if c = 0 then Inr (c # r)
      else if c = 0x2A then
        (case r of
           [] \<Rightarrow> Inl Out_Of_Bounds
         | d # r' \<Rightarrow> if d = 0x2F then Inr (c # r) else find_comment_end r)
      else find_comment_end r)"

fun step_in_text :: "byte list \<Rightarrow> byte list res" where
  "step_in_text [] = Inl Out_Of_Bounds"
| "step_in_text (c # r) = Inr (if c = 0 then c # r else r)"

text \<open>How a tokeniser treats block comments.\<close>

datatype block_style = No_Block | Block_Skip | Block_Find

fun block_comment :: "block_style \<Rightarrow> byte list \<Rightarrow> byte list res" where
  "block_comment Block_Find r = rbind (find_comment_end r) (\<lambda>r. rbind (step_in_text r) step_in_text)"
| "block_comment b r = skip_comment r"

lemma to_newline_length: "to_newline s = Inr t \<Longrightarrow> length t \<le> length s"
  by (induction s) (auto split: if_splits)

lemma skip_comment_length: "skip_comment s = Inr t \<Longrightarrow> length t \<le> length s"
proof (induction s)
  case (Cons c s)
  then show ?case by (cases s) (auto split: if_splits simp: le_Suc_eq)
qed simp

lemma find_comment_end_length: "find_comment_end s = Inr t \<Longrightarrow> length t \<le> length s"
proof (induction s)
  case (Cons c s)
  then show ?case by (cases s) (auto split: if_splits simp: le_Suc_eq)
qed simp

lemma step_in_text_length: "step_in_text s = Inr t \<Longrightarrow> length t \<le> length s"
  by (cases s) auto

lemma block_comment_length: "block_comment b s = Inr t \<Longrightarrow> length t \<le> length s"
proof (cases b)
  case Block_Find
  assume "block_comment b s = Inr t"
  then obtain u v where "find_comment_end s = Inr u" "step_in_text u = Inr v" "step_in_text v = Inr t"
    unfolding Block_Find by (auto simp: rbind_eq_Inr)
  then show ?thesis using find_comment_end_length step_in_text_length by (meson order_trans)
qed (auto dest: skip_comment_length)

lemma skip_low_length: "skip_low low s = Inr (Some t) \<Longrightarrow> length t \<le> length s"
  by (induction s) (auto split: if_splits)

text \<open>\<open>skipwhite\<close>: white space and comments, again and again.\<close>

function skip_space :: "(byte \<Rightarrow> bool) \<Rightarrow> block_style \<Rightarrow> byte list \<Rightarrow> byte list option res" where
  "skip_space low block s = (case skip_low low s of
     Inl e \<Rightarrow> Inl e
   | Inr None \<Rightarrow> Inr None
   | Inr (Some []) \<Rightarrow> Inl Out_Of_Bounds
   | Inr (Some [c]) \<Rightarrow> if c = 0x2F then Inl Out_Of_Bounds else Inr (Some [c])
   | Inr (Some (c # d # r)) \<Rightarrow>
       if c = 0x2F \<and> d = 0x2F then
         (case to_newline r of Inl e \<Rightarrow> Inl e | Inr t \<Rightarrow> skip_space low block t)
       else if c = 0x2F \<and> d = 0x2A \<and> block \<noteq> No_Block then
         (case block_comment block r of Inl e \<Rightarrow> Inl e | Inr t \<Rightarrow> skip_space low block t)
       else Inr (Some (c # d # r)))"
  by pat_completeness auto
termination
  by (relation "measure (\<lambda>(low, block, s). length s)")
    (auto dest!: skip_low_length to_newline_length block_comment_length)

declare skip_space.simps [simp del]

section \<open>The token\<close>

text \<open>\<open>len >= tokenlen-1\<close> in the width of the size, and the terminator.\<close>

definition full :: "nat \<Rightarrow> 'w::len word \<Rightarrow> bool" where
  "full len lim \<longleftrightarrow> lim \<le> word_of_nat len"

definition finish :: "'p \<Rightarrow> nat \<Rightarrow> byte list \<Rightarrow> ('p \<times> byte list) res" where
  "finish p len out = rbind (poke len 0 out) (\<lambda>out. Inr (p, out))"

text \<open>The loop over a quoted string that knows no escapes, from behind the opening quote.\<close>

fun plain_quoted :: "u64 \<Rightarrow> byte list \<Rightarrow> nat \<Rightarrow> byte list \<Rightarrow> (byte list \<times> byte list) res" where
  "plain_quoted lim [] len out = (if full len lim then finish [] len out else Inl Out_Of_Bounds)"
| "plain_quoted lim (c # r) len out =
     (if full len lim then finish (c # r) len out
      else if c = 0x22 \<or> c = 0 then finish r len out
      else rbind (poke len c out) (\<lambda>out. plain_quoted lim r (len + 1) out))"

text \<open>
  The \<open>do ... while\<close> over a regular word: where it stopped, whether for want of room, and the length.
\<close>

fun word_loop :: "'w::len word \<Rightarrow> (byte \<Rightarrow> bool) \<Rightarrow> byte list \<Rightarrow> nat \<Rightarrow> byte list \<Rightarrow> (byte list \<times> bool \<times> nat \<times> byte list) res" where
  "word_loop lim go [] len out = (if full len lim then Inr ([], True, len, out) else Inl Out_Of_Bounds)"
| "word_loop lim go (c # r) len out =
     (if full len lim then Inr (c # r, True, len, out)
      else rbind (poke len c out) (\<lambda>out.
        case r of
          [] \<Rightarrow> Inl Out_Of_Bounds
        | d # _ \<Rightarrow> if go d then word_loop lim go r (len + 1) out else Inr (r, False, len + 1, out)))"

definition parse_word :: "'w::len word \<Rightarrow> (byte \<Rightarrow> bool) \<Rightarrow> byte list \<Rightarrow> byte list \<Rightarrow> (byte list \<times> byte list) res" where
  "parse_word lim go s out =
     rbind (word_loop lim go s 0 out) (\<lambda>(s, fl, len, out). finish s len out)"

section \<open>COM\_ParseStringSetSep\<close>

fun sep_loop :: "u64 \<Rightarrow> byte \<Rightarrow> byte list \<Rightarrow> nat \<Rightarrow> byte list \<Rightarrow> (byte list \<times> byte list) res" where
  "sep_loop lim sep [] len out = Inl Out_Of_Bounds"
| "sep_loop lim sep (c # r) len out =
     (if c = 0 then finish (c # r) len out
      else if full len lim then finish (c # r) len out
      else if c = sep then finish r len out
      else rbind (poke len c out) (\<lambda>out. sep_loop lim sep r (len + 1) out))"

definition COM_ParseStringSetSep ::
  "byte list option \<Rightarrow> byte \<Rightarrow> byte list \<Rightarrow> u64 \<Rightarrow> (byte list option \<times> byte list) res" where
  "COM_ParseStringSetSep data sep out outsize =
     rbind (poke 0 0 out) (\<lambda>out.
     case data of
       None \<Rightarrow> finish None 0 out
     | Some s \<Rightarrow> rbind (sep_loop (outsize - 1) sep s 0 out) (\<lambda>(s, out). Inr (Some s, out)))"

section \<open>COM\_ParseCString\<close>

text \<open>\<open>\x\<close> with up to two digits, as an \<open>int\<close>.\<close>

definition hex_escape :: "byte list \<Rightarrow> (int32 \<times> byte list) res" where
  "hex_escape r =
     (case r of
        [] \<Rightarrow> Inl Out_Of_Bounds
      | a # r' \<Rightarrow>
          let (c, q) = (if ishexcode a then (dehex a, r') else (0, r)) in
          case q of
            [] \<Rightarrow> Inl Out_Of_Bounds
          | b # q' \<Rightarrow> Inr (if ishexcode b then (push_bit 4 c OR dehex b, q') else (c, q)))"

text \<open>What an escape stands for, other than a quote or a line ending.\<close>

definition c_escape :: "byte \<Rightarrow> byte list \<Rightarrow> (int32 \<times> byte list) res" where
  "c_escape e r =
     (if e = 0x6E then Inr (10, r) else if e = 0x74 then Inr (9, r) else if e = 0x72 then Inr (13, r)
      else if e = 0x78 then hex_escape r
      else if e = 0x24 \<or> e = 0x5C \<or> e = 0x27 then Inr (ucast e, r)
      else Inr (0x3F, r))"

lemma hex_escape_length: "hex_escape r = Inr (x, q) \<Longrightarrow> length q \<le> length r"
  by (auto simp: hex_escape_def Let_def split: list.splits if_splits)

lemma c_escape_length: "c_escape e r = Inr (x, q) \<Longrightarrow> length q \<le> length r"
  by (auto simp: c_escape_def dest: hex_escape_length split: if_splits)

text \<open>The results of the loop: where it stopped, the length, the token.\<close>

function c_quoted :: "u64 \<Rightarrow> byte list \<Rightarrow> nat \<Rightarrow> byte list \<Rightarrow> ((byte list \<times> nat) \<times> byte list) res" where
  "c_quoted lim s len out =
     (if full len lim then finish (s, len) len out
      else case s of
        [] \<Rightarrow> Inl Out_Of_Bounds
      | c # r \<Rightarrow>
          if c = 0 then finish (s, len) len out
          else if c = 0x5C then
            (case r of
               [] \<Rightarrow> Inl Out_Of_Bounds
             | e # r' \<Rightarrow>
                 if e = 13 then
                   (case r' of
                      [] \<Rightarrow> Inl Out_Of_Bounds
                    | f # r'' \<Rightarrow> c_quoted lim (if f = 10 then r'' else r') len out)
                 else if e = 10 then c_quoted lim r' len out
                 else if e = 0x22 then
                   (case poke len e out of Inl e \<Rightarrow> Inl e | Inr out \<Rightarrow> c_quoted lim r' (len + 1) out)
                 else
                   (case c_escape e r' of
                      Inl e \<Rightarrow> Inl e
                    | Inr (x, q) \<Rightarrow>
                        if x = 0x22 \<or> x = 0 then finish (q, len) len out
                        else (case poke len (ucast x) out of
                            Inl e \<Rightarrow> Inl e
                          | Inr out \<Rightarrow> c_quoted lim q (len + 1) out)))
          else if c = 0x22 then finish (r, len) len out
          else (case poke len c out of Inl e \<Rightarrow> Inl e | Inr out \<Rightarrow> c_quoted lim r (len + 1) out))"
  by pat_completeness auto
termination
  by (relation "measure (\<lambda>(lim, s, len, out). length s)") (auto dest: c_escape_length simp: le_imp_less_Suc)

declare c_quoted.simps [simp del]

text \<open>The second component is \<open>*lengthwritten\<close>.\<close>

definition COM_ParseCString ::
  "byte list option \<Rightarrow> byte list \<Rightarrow> u64 \<Rightarrow> (byte list option \<times> nat \<times> byte list) res" where
  "COM_ParseCString data token sizeoftoken =
     rbind (poke 0 0 token) (\<lambda>token.
     case data of
       None \<Rightarrow> Inr (None, 0, token)
     | Some s \<Rightarrow>
         rbind (skip_space signed_low No_Block s) (\<lambda>p.
         case p of
           None \<Rightarrow> Inr (None, 0, token)
         | Some s \<Rightarrow>
             if hd s = 0x22 then
               rbind (c_quoted (sizeoftoken - 2) (tl s) 0 token) (\<lambda>((r, len), token). Inr (Some r, len, token))
             else
               rbind (word_loop (sizeoftoken - 1) (\<lambda>c. \<not> signed_low c) s 0 token) (\<lambda>(r, fl, len, token).
               rbind (poke len 0 token) (\<lambda>token. Inr (Some r, len, token)))))"

text \<open>As the other tokenisers call it, without \<open>lengthwritten\<close>.\<close>

definition parse_cstring :: "byte list \<Rightarrow> byte list \<Rightarrow> u64 \<Rightarrow> (byte list option \<times> byte list) res" where
  "parse_cstring s token sizeoftoken =
     rbind (COM_ParseCString (Some s) token sizeoftoken) (\<lambda>(r, len, token). Inr (r, token))"

section \<open>COM\_ParseStringSet and COM\_ParseType\<close>

definition COM_ParseStringSet :: "byte list option \<Rightarrow> byte list \<Rightarrow> u64 \<Rightarrow> (byte list option \<times> byte list) res" where
  "COM_ParseStringSet data out outsize =
     rbind (poke 0 0 out) (\<lambda>out.
     case data of
       None \<Rightarrow> Inr (None, out)
     | Some s \<Rightarrow>
         rbind (skip_low (\<lambda>c. signed_low c \<or> c = 0x3B) s) (\<lambda>p.
         case p of
           None \<Rightarrow> Inr (None, out)
         | Some s \<Rightarrow>
             if hd s = 0x22 then parse_cstring s out outsize
             else rbind (parse_word (outsize - 1) (\<lambda>c. 32 < c \<and> c \<noteq> 0x3B) s out) (\<lambda>(s, out). Inr (Some s, out))))"

datatype com_tokentype_t =
  TTP_UNKNOWN | TTP_STRING | TTP_LINEENDING | TTP_RAWTOKEN | TTP_EOF | TTP_PUNCTUATION

definition COM_ParseType ::
  "byte list option \<Rightarrow> byte list \<Rightarrow> u64 \<Rightarrow> (byte list option \<times> com_tokentype_t \<times> byte list) res" where
  "COM_ParseType data out outlen =
     rbind (poke 0 0 out) (\<lambda>out.
     case data of
       None \<Rightarrow> Inr (None, TTP_EOF, out)
     | Some s \<Rightarrow>
         rbind (skip_space signed_low Block_Skip s) (\<lambda>p.
         case p of
           None \<Rightarrow> Inr (None, TTP_EOF, out)
         | Some s \<Rightarrow>
             if hd s = 0x22 then
               rbind (plain_quoted (outlen - 1) (tl s) 0 out) (\<lambda>(s, out). Inr (Some s, TTP_STRING, out))
             else
               rbind (parse_word (outlen - 1) (\<lambda>c. \<not> signed_low c) s out) (\<lambda>(s, out).
                 Inr (Some s, TTP_RAWTOKEN, out))))"

section \<open>COM\_ParseTokenOut\<close>

definition DEFAULT_PUNCTUATION :: "byte list" where
  "DEFAULT_PUNCTUATION =
     [0x28, 0x2C, 0x7B, 0x7D, 0x29, 0x28, 0x27, 0x3A, 0x3B, 0x3D, 0x21, 0x3E, 0x3C, 0x26, 0x7C, 0x2B]"

definition punct_low :: "bool \<Rightarrow> byte \<Rightarrow> bool" where
  "punct_low typed c \<longleftrightarrow> c \<le> 32 \<and> (c \<noteq> 13 \<and> c \<noteq> 10 \<or> \<not> typed)"

text \<open>A token of one byte.\<close>

definition one_char :: "byte \<Rightarrow> byte list \<Rightarrow> byte list res" where
  "one_char c token = rbind (poke 0 c token) (poke 1 0)"

text \<open>\<open>typed\<close>: the caller passed a pointer for the type of the token.\<close>

definition COM_ParseTokenOut ::
  "byte list option \<Rightarrow> byte list option \<Rightarrow> byte list \<Rightarrow> u64 \<Rightarrow> bool \<Rightarrow>
   (byte list option \<times> com_tokentype_t \<times> byte list) res" where
  "COM_ParseTokenOut data punctuation token tokenlen typed =
     (let punct = (case punctuation of None \<Rightarrow> DEFAULT_PUNCTUATION | Some p \<Rightarrow> p) in
      rbind (poke 0 0 token) (\<lambda>token.
      case data of
        None \<Rightarrow> Inr (None, TTP_EOF, token)
      | Some s \<Rightarrow>
          rbind (skip_space (punct_low typed) Block_Find s) (\<lambda>p.
          case p of
            None \<Rightarrow> Inr (None, TTP_EOF, token)
          | Some s \<Rightarrow>
              let c = hd s; r = tl s in
              if c = 13 \<or> c = 10 then
                rbind (if c = 13 then rbind (peek r 0) (\<lambda>d. Inr (if d = 10 then tl r else r)) else Inr r) (\<lambda>r.
                rbind (one_char 10 token) (\<lambda>token. Inr (Some r, TTP_LINEENDING, token)))
              else if c = 0x22 then
                rbind (plain_quoted (tokenlen - 1) r 0 token) (\<lambda>(s, token). Inr (Some s, TTP_STRING, token))
              else
                rbind (if c = 0x5C then rbind (peek r 0) (\<lambda>d. Inr (d = 0x22)) else Inr False) (\<lambda>cstring.
                if cstring then
                  rbind (parse_cstring r token tokenlen) (\<lambda>(q, token). Inr (q, TTP_STRING, token))
                else if c \<in> set punct then
                  rbind (one_char c token) (\<lambda>token. Inr (Some r, TTP_PUNCTUATION, token))
                else
                  rbind (parse_word (tokenlen - 1) (\<lambda>c. c \<noteq> 0 \<and> c \<notin> set punct \<and> \<not> signed_low c) s token)
                    (\<lambda>(s, token). Inr (Some s, TTP_RAWTOKEN, token))))))"

section \<open>COM\_StringParse\<close>

text \<open>Inside quotes: a backslash before a quote or a backslash (\<open>dpcompat_console\<close>), or two quotes for one.\<close>

fun dp_quoted :: "int32 \<Rightarrow> byte list \<Rightarrow> nat \<Rightarrow> byte list \<Rightarrow> (byte list \<times> byte list) res" where
  "dp_quoted lim [] len out = (if full len lim then finish [] len out else Inl Out_Of_Bounds)"
| "dp_quoted lim (c # r) len out =
     (if full len lim then finish (c # r) len out
      else if c = 0x5C then
        (case r of
           [] \<Rightarrow> Inl Out_Of_Bounds
         | d # r' \<Rightarrow>
             if d = 0x22 \<or> d = 0x5C then rbind (poke len d out) (\<lambda>out. dp_quoted lim r' (len + 1) out)
             else rbind (poke len c out) (\<lambda>out. dp_quoted lim r (len + 1) out))
      else if c = 0x22 then finish r len out
      else if c = 0 then finish (c # r) len out
      else rbind (poke len c out) (\<lambda>out. dp_quoted lim r (len + 1) out))"

fun dup_quoted :: "int32 \<Rightarrow> byte list \<Rightarrow> nat \<Rightarrow> byte list \<Rightarrow> (byte list \<times> byte list) res" where
  "dup_quoted lim [] len out = (if full len lim then finish [] len out else Inl Out_Of_Bounds)"
| "dup_quoted lim (c # r) len out =
     (if full len lim then finish (c # r) len out
      else if c = 0x22 then
        (case r of
           [] \<Rightarrow> Inl Out_Of_Bounds
         | d # r' \<Rightarrow>
             if d \<noteq> 0x22 then finish r len out
             else rbind (poke len d out) (\<lambda>out. dup_quoted lim r' (len + 1) out))
      else if c = 0 then finish (c # r) len out
      else rbind (poke len c out) (\<lambda>out. dup_quoted lim r (len + 1) out))"

text \<open>
  Single quotes of \<open>qctokenize\<close>.  A run of them is copied by a loop with no test for room that steps
  one byte and looks at the one after; it leaves the byte it saw last in \<open>c\<close>.
\<close>

fun quote_run :: "byte list \<Rightarrow> nat \<Rightarrow> byte list \<Rightarrow> (byte list \<times> byte \<times> nat \<times> byte list) res" where
  "quote_run (p # q # x # r) len out =
     rbind (poke len 0x27 out) (\<lambda>out.
       if x = 0x27 then quote_run (q # x # r) (len + 1) out else Inr (q # x # r, x, len + 1, out))"
| "quote_run r len out = Inl Out_Of_Bounds"

lemma quote_run_length: "quote_run s len out = Inr (q, x, len', out') \<Longrightarrow> length q < length s"
  by (induction s len out rule: quote_run.induct) (force simp: rbind_eq_Inr split: if_splits)+

function single_quoted :: "int32 \<Rightarrow> byte list \<Rightarrow> nat \<Rightarrow> byte list \<Rightarrow> (byte list \<times> byte list) res" where
  "single_quoted lim s len out =
     (if full len lim then finish s len out
      else case s of
        [] \<Rightarrow> Inl Out_Of_Bounds
      | c # r \<Rightarrow>
          if c = 0x27 then
            (case r of
               [] \<Rightarrow> Inl Out_Of_Bounds
             | d # r' \<Rightarrow>
                 if d \<noteq> 0x27 then finish r len out
                 else (case quote_run r len out of
                     Inl e \<Rightarrow> Inl e
                   | Inr (q, x, len, out) \<Rightarrow>
                       if x = 0 then finish q len out
                       else (case poke len x out of
                           Inl e \<Rightarrow> Inl e
                         | Inr out \<Rightarrow> single_quoted lim q (len + 1) out)))
          else if c = 0 then finish r len out
          else (case poke len c out of Inl e \<Rightarrow> Inl e | Inr out \<Rightarrow> single_quoted lim r (len + 1) out))"
  by pat_completeness auto
termination
  by (relation "measure (\<lambda>(lim, s, len, out). length s)") (auto dest: quote_run_length)

declare single_quoted.simps [simp del]

text \<open>The name behind a dollar sign at \<open>s\<close> ends before index \<open>i\<close>; \<open>n\<close> bytes may still be looked at.\<close>

fun name_end :: "byte list \<Rightarrow> nat \<Rightarrow> nat \<Rightarrow> nat \<Rightarrow> nat res" where
  "name_end token s i 0 = Inr i"
| "name_end token s i (Suc n) =
     rbind (peek token (s + i)) (\<lambda>x. if x \<le> 32 \<or> x = 0x24 then Inr i else name_end token s (i + 1) n)"

text \<open>\<open>memmove(token+dst, token+src, n)\<close>, whose count is an \<open>int\<close> taken as a size.\<close>

definition move_bytes :: "nat \<Rightarrow> nat \<Rightarrow> int \<Rightarrow> byte list \<Rightarrow> byte list res" where
  "move_bytes dst src n token =
     (if n < 0 \<or> length token < src + nat n then Inl Out_Of_Bounds
      else pokes dst (take (nat n) (drop src token)) token)"

lemma move_bytes_length: "move_bytes dst src n token = Inr token' \<Longrightarrow> length token' = length token"
  by (auto simp: move_bytes_def pokes_length split: if_splits)

text \<open>
  Replacing macros: \<open>s\<close> is the position in the token, \<open>c\<close> the counter that is compared with \<open>len\<close>.
  Looking up a variable (\<open>Cvar_FindVar\<close>) is a parameter.
\<close>

function expand_macros ::
  "(byte list \<Rightarrow> byte list option) \<Rightarrow> int32 \<Rightarrow> byte list \<Rightarrow> nat \<Rightarrow> nat \<Rightarrow> int \<Rightarrow> byte list \<Rightarrow> (byte list \<times> byte list) res" where
  "expand_macros cvar tokenlen p s c len token =
     (if \<not> int c < len then Inr (p, token)
      else if \<not> s < length token then Inl Out_Of_Bounds
      else if token ! s \<noteq> 0x24 then expand_macros cvar tokenlen p (s + 1) (c + 1) len token
      else (case name_end token s 1 63 of
          Inl e \<Rightarrow> Inl e
        | Inr j \<Rightarrow>
            let i = j - 1 in
            (case cvar (take i (drop (s + 1) token)) of
               None \<Rightarrow> expand_macros cvar tokenlen p (s + 1) (c + 1) len token
             | Some m \<Rightarrow>
                 if ucast (tokenlen - 1) \<le> (word_of_int (len + int (length m) - int (i + 1)) :: u64) then
                   (if len < 0 then Inl Out_Of_Bounds else finish p (nat len) token)
                 else
                   (case move_bytes (s + length m) (s + i + 1) (len - int c - int i) token of
                      Inl e \<Rightarrow> Inl e
                    | Inr token' \<Rightarrow>
                        (case pokes s m token' of
                           Inl e \<Rightarrow> Inl e
                         | Inr token'' \<Rightarrow>
                             expand_macros cvar tokenlen p (s + length m + 1) (c + 1)
                               (len + int (length m) - int (i + 1)) token'')))))"
  by pat_completeness auto
termination
  by (relation "measure (\<lambda>(cvar, tokenlen, p, s, c, len, token). length token - s)")
    (auto dest!: move_bytes_length pokes_length)

declare expand_macros.simps [simp del]

definition string_low :: "byte \<Rightarrow> bool" where
  "string_low c \<longleftrightarrow> c \<le> 32 \<and> c \<noteq> 10"

definition qc_single :: "byte \<Rightarrow> bool" where
  "qc_single c \<longleftrightarrow> c \<in> {10, 0x7B, 0x7D, 0x29, 0x28, 0x5D, 0x5B, 0x27, 0x3A, 0x2C, 0x3B}"

text \<open>\<open>dp\<close> is \<open>dpcompat_console.ival\<close>; the results are the pointer and the token.\<close>

definition COM_StringParse ::
  "bool \<Rightarrow> (byte list \<Rightarrow> byte list option) \<Rightarrow> byte list option \<Rightarrow> byte list \<Rightarrow> int32 \<Rightarrow> bool \<Rightarrow> bool \<Rightarrow>
   (byte list option \<times> byte list) res" where
  "COM_StringParse dp cvar data token tokenlen expandmacros qctokenize =
     rbind (poke 0 0 token) (\<lambda>token.
     case data of
       None \<Rightarrow> Inr (None, token)
     | Some s \<Rightarrow>
         rbind (skip_space string_low (if qctokenize then No_Block else Block_Skip) s) (\<lambda>p.
         case p of
           None \<Rightarrow> Inr (None, token)
         | Some s \<Rightarrow>
             let c = hd s; r = tl s; some = (\<lambda>(q, token). Inr (Some q, token)) in
             if c = 10 then rbind (one_char c token) (\<lambda>token. Inr (Some r, token))
             else
               rbind (if c = 0x5C then rbind (peek r 0) (\<lambda>d. Inr (d = 0x22)) else Inr False) (\<lambda>cstring.
               if cstring then parse_cstring r token (ucast tokenlen)
               else if c = 0x22 then
                 rbind (if dp then dp_quoted (tokenlen - 1) r 0 token else dup_quoted (tokenlen - 1) r 0 token) some
               else if c = 0x27 \<and> qctokenize then rbind (single_quoted (tokenlen - 1) r 0 token) some
               else if qctokenize \<and> qc_single c then rbind (one_char c token) (\<lambda>token. Inr (Some r, token))
               else
                 rbind (word_loop (tokenlen - 1) (\<lambda>c. 32 < c \<and> \<not> (qctokenize \<and> qc_single c)) s 0 token)
                   (\<lambda>(q, fl, len, token).
                 rbind (finish q len token) (\<lambda>(q, token).
                 if fl \<or> \<not> expandmacros then Inr (Some q, token)
                 else rbind (expand_macros cvar tokenlen q 0 0 (int len) token) some)))))"

section \<open>COM\_QuotedString\<close>

definition esc_letter :: "byte \<Rightarrow> byte option" where
  "esc_letter c = (if c = 10 then Some 0x6E else if c = 13 then Some 0x72 else if c = 9 then Some 0x74
     else if c = 0x27 \<or> c = 0x22 \<or> c = 0x5C \<or> c = 0x24 then Some c else None)"

text \<open>The three loops, with \<open>buflen\<close> bytes left and the position \<open>pos\<close> in \<open>buf\<close>.\<close>

fun put_escaped :: "byte list \<Rightarrow> int \<Rightarrow> nat \<Rightarrow> byte list \<Rightarrow> (nat \<times> byte list) res" where
  "put_escaped [] buflen pos buf = Inr (pos, buf)"
| "put_escaped (c # r) buflen pos buf =
     (if 2 \<le> buflen then
        (case esc_letter c of
           None \<Rightarrow> rbind (poke pos c buf) (\<lambda>buf. put_escaped r (buflen - 1) (pos + 1) buf)
         | Some e \<Rightarrow> rbind (poke pos 0x5C buf) (\<lambda>buf.
             rbind (poke (pos + 1) e buf) (\<lambda>buf. put_escaped r (buflen - 2) (pos + 2) buf)))
      else Inr (pos, buf))"

fun put_dp :: "byte list \<Rightarrow> int \<Rightarrow> nat \<Rightarrow> byte list \<Rightarrow> (nat \<times> byte list) res" where
  "put_dp [] buflen pos buf = Inr (pos, buf)"
| "put_dp (c # r) buflen pos buf =
     (if 2 \<le> buflen then
        (if c = 0x5C \<or> c = 0x22 then
           rbind (poke pos 0x5C buf) (\<lambda>buf.
           rbind (poke (pos + 1) c buf) (\<lambda>buf. put_dp r (buflen - 2) (pos + 2) buf))
         else rbind (poke pos c buf) (\<lambda>buf. put_dp r (buflen - 1) (pos + 1) buf))
      else Inr (pos, buf))"

fun put_plain :: "byte list \<Rightarrow> int \<Rightarrow> nat \<Rightarrow> byte list \<Rightarrow> (nat \<times> byte list) res" where
  "put_plain [] buflen pos buf = Inr (pos, buf)"
| "put_plain (c # r) buflen pos buf =
     (if 1 \<le> buflen then rbind (poke pos c buf) (\<lambda>buf. put_plain r (buflen - 1) (pos + 1) buf)
      else Inr (pos, buf))"

text \<open>The string is given without its terminator.\<close>

definition COM_QuotedString :: "bool \<Rightarrow> byte list \<Rightarrow> byte list \<Rightarrow> int \<Rightarrow> bool \<Rightarrow> byte list res" where
  "COM_QuotedString dp string buf buflen omitquotes =
     (let close = (\<lambda>(pos, buf).
        if omitquotes then poke pos 0 buf else rbind (poke pos 0x22 buf) (poke (pos + 1) 0)) in
      if 13 \<in> set string \<or> 10 \<in> set string \<or> (\<not> dp \<and> 0x22 \<in> set string) then
        (if omitquotes then rbind (put_escaped string (buflen - 1) 0 buf) close
         else rbind (pokes 0 [0x5C, 0x22] buf) (\<lambda>buf. rbind (put_escaped string (buflen - 4) 2 buf) close))
      else
        (let put = (if dp then put_dp else put_plain) in
         if omitquotes then rbind (put string (buflen - 1) 0 buf) close
         else rbind (poke 0 0x22 buf) (\<lambda>buf. rbind (put string (buflen - 3) 1 buf) close)))"

end
