(* ===== verification/TokenQuote.thy ===== *)
theory TokenQuote
  imports Token
begin

text \<open>
  Quoting and reading back: \<open>COM_QuotedString\<close> stays inside its buffer, \<open>COM_StringParse\<close> reads what
  it writes, and \<open>COM_Parse\<close>, which the comment names, does not.
\<close>

section \<open>Room in the token\<close>

lemma full_iff: "len < 2 ^ LENGTH('w) \<Longrightarrow> full len (lim :: 'w::len word) \<longleftrightarrow> unat lim \<le> len"
  by (simp add: full_def word_le_nat_alt unat_of_nat)

lemma not_full: "len < unat (lim :: 'w::len word) \<Longrightarrow> \<not> full len lim"
proof -
  assume l: "len < unat lim"
  then have "len < 2 ^ LENGTH('w)" using unsigned_less [of lim] less_trans by blast
  with l show ?thesis by (simp add: full_iff)
qed

lemma finish_Inr: "len < length out \<Longrightarrow> finish p len out = Inr (p, out[len := 0])"
  by (simp add: finish_def)

text \<open>The token after \<open>s\<close> was written from position \<open>len\<close> on and terminated.\<close>

definition token_after :: "nat \<Rightarrow> byte list \<Rightarrow> byte list \<Rightarrow> byte list" where
  "token_after len s out = take len out @ s @ 0 # drop (len + length s + 1) out"

lemma token_after_Nil: "len < length out \<Longrightarrow> token_after len [] out = out[len := 0]"
  by (simp add: token_after_def upd_conv_take_nth_drop)

lemma token_after_step: "len + Suc (length s) < length out \<Longrightarrow>
    token_after (Suc len) s (out[len := c]) = token_after len (c # s) out"
  by (simp add: token_after_def take_Suc_conv_app_nth)

section \<open>The quoted form of a string\<close>

definition esc_bytes :: "byte \<Rightarrow> byte list" where
  "esc_bytes c = (case esc_letter c of None \<Rightarrow> [c] | Some e \<Rightarrow> [0x5C, e])"

definition dp_bytes :: "byte \<Rightarrow> byte list" where
  "dp_bytes c = (if c = 0x5C \<or> c = 0x22 then [0x5C, c] else [c])"

definition c_style :: "bool \<Rightarrow> byte list \<Rightarrow> bool" where
  "c_style dp s \<longleftrightarrow> 13 \<in> set s \<or> 10 \<in> set s \<or> (\<not> dp \<and> 0x22 \<in> set s)"

definition quoted :: "bool \<Rightarrow> byte list \<Rightarrow> byte list" where
  "quoted dp s =
     (if c_style dp s then [0x5C, 0x22] @ concat (map esc_bytes s) @ [0x22]
      else 0x22 # (if dp then concat (map dp_bytes s) else s) @ [0x22])"

lemma splice2: "pos + Suc (Suc n) \<le> length a \<Longrightarrow>
   take (Suc (Suc pos)) (a[pos := v, Suc pos := w]) @ vs @ drop (Suc (Suc pos) + n) (a[pos := v, Suc pos := w]) =
   take pos a @ (v # w # vs) @ drop (pos + Suc (Suc n)) a"
  by (simp add: take_Suc_conv_app_nth)

lemma put_escaped_all:
  assumes "2 * int (length s) \<le> n" and "pos + length (concat (map esc_bytes s)) \<le> length buf"
  shows "put_escaped s n pos buf = Inr (pos + length (concat (map esc_bytes s)),
    take pos buf @ concat (map esc_bytes s) @ drop (pos + length (concat (map esc_bytes s))) buf)"
  using assms
proof (induction s arbitrary: n pos buf)
  case (Cons c s)
  let ?E = "concat (map esc_bytes s)"
  show ?case
  proof (cases "esc_letter c")
    case None
    then have e: "esc_bytes c = [c]" by (simp add: esc_bytes_def)
    have "put_escaped s (n - 1) (Suc pos) (buf[pos := c]) = Inr (Suc pos + length ?E,
        take (Suc pos) (buf[pos := c]) @ ?E @ drop (Suc pos + length ?E) (buf[pos := c]))"
      using Cons.prems by (intro Cons.IH) (simp_all add: e)
    then show ?thesis
      using Cons.prems None splice_step [of pos "length ?E" buf c ?E] by (simp add: e)
  next
    case (Some x)
    then have e: "esc_bytes c = [0x5C, x]" by (simp add: esc_bytes_def)
    have "put_escaped s (n - 2) (Suc (Suc pos)) (buf[pos := 0x5C, Suc pos := x]) = Inr (Suc (Suc pos) + length ?E,
        take (Suc (Suc pos)) (buf[pos := 0x5C, Suc pos := x]) @ ?E @
        drop (Suc (Suc pos) + length ?E) (buf[pos := 0x5C, Suc pos := x]))"
      using Cons.prems by (intro Cons.IH) (simp_all add: e)
    then show ?thesis
      using Cons.prems Some splice2 [of pos "length ?E" buf "0x5C" x ?E] by (simp add: e)
  qed
qed simp

lemma put_dp_all:
  assumes "2 * int (length s) \<le> n" and "pos + length (concat (map dp_bytes s)) \<le> length buf"
  shows "put_dp s n pos buf = Inr (pos + length (concat (map dp_bytes s)),
    take pos buf @ concat (map dp_bytes s) @ drop (pos + length (concat (map dp_bytes s))) buf)"
  using assms
proof (induction s arbitrary: n pos buf)
  case (Cons c s)
  let ?E = "concat (map dp_bytes s)"
  show ?case
  proof (cases "c = 0x5C \<or> c = 0x22")
    case False
    then have e: "dp_bytes c = [c]" by (simp add: dp_bytes_def)
    have "put_dp s (n - 1) (Suc pos) (buf[pos := c]) = Inr (Suc pos + length ?E,
        take (Suc pos) (buf[pos := c]) @ ?E @ drop (Suc pos + length ?E) (buf[pos := c]))"
      using Cons.prems by (intro Cons.IH) (simp_all add: e)
    then show ?thesis
      using Cons.prems False splice_step [of pos "length ?E" buf c ?E] by (simp add: e)
  next
    case True
    then have e: "dp_bytes c = [0x5C, c]" by (simp add: dp_bytes_def)
    have "put_dp s (n - 2) (Suc (Suc pos)) (buf[pos := 0x5C, Suc pos := c]) = Inr (Suc (Suc pos) + length ?E,
        take (Suc (Suc pos)) (buf[pos := 0x5C, Suc pos := c]) @ ?E @
        drop (Suc (Suc pos) + length ?E) (buf[pos := 0x5C, Suc pos := c]))"
      using Cons.prems by (intro Cons.IH) (simp_all add: e)
    then show ?thesis
      using Cons.prems True splice2 [of pos "length ?E" buf "0x5C" c ?E] by (simp add: e)
  qed
qed simp

lemma put_plain_all:
  assumes "int (length s) \<le> n" and "pos + length s \<le> length buf"
  shows "put_plain s n pos buf = Inr (pos + length s, take pos buf @ s @ drop (pos + length s) buf)"
  using assms
proof (induction s arbitrary: n pos buf)
  case (Cons c s)
  have "put_plain s (n - 1) (Suc pos) (buf[pos := c]) = Inr (Suc pos + length s,
      take (Suc pos) (buf[pos := c]) @ s @ drop (Suc pos + length s) (buf[pos := c]))"
    using Cons.prems by (intro Cons.IH) simp_all
  then show ?case using Cons.prems splice_step [of pos "length s" buf c s] by simp
qed simp

lemma quoted_length: "length (quoted dp s) + 1 \<le> 2 * length s + 4"
proof -
  have "length (concat (map esc_bytes s)) \<le> 2 * length s" "length (concat (map dp_bytes s)) \<le> 2 * length s"
    by (induction s) (auto simp: esc_bytes_def dp_bytes_def split: option.split)
  then show ?thesis by (simp add: quoted_def)
qed

text \<open>With the room the comment in the code asks for, the whole quoted string is written.\<close>

lemma upd_end: "n + 2 \<le> length buf \<Longrightarrow>
    (E @ drop n buf)[length E := x, Suc (length E) := y] = E @ x # y # drop (Suc (Suc n)) buf"
  by (simp add: list_update_append Cons_nth_drop_Suc [symmetric])

lemma QuotedString_eq:
  assumes "2 * int (length s) + 4 \<le> buflen" and "buflen \<le> int (length buf)"
  shows "COM_QuotedString dp s buf buflen False =
    Inr (quoted dp s @ 0 # drop (length (quoted dp s) + 1) buf)"
proof -
  have len: "length (quoted dp s) + 1 \<le> length buf" using quoted_length [of dp s] assms by linarith
  show ?thesis
  proof (cases "c_style dp s")
    case True
    let ?E = "concat (map esc_bytes s)"
    have q: "quoted dp s = [0x5C, 0x22] @ ?E @ [0x22]" using True by (simp add: quoted_def)
    have "pokes 0 [0x5C, 0x22] buf = Inr ([0x5C, 0x22] @ drop 2 buf)"
      using pokes_Inr [of 0 "[0x5C, 0x22]" buf] len by (simp add: q numeral_2_eq_2)
    moreover have "put_escaped s (buflen - 4) 2 ([0x5C, 0x22] @ drop 2 buf) =
        Inr (2 + length ?E, take 2 ([0x5C, 0x22] @ drop 2 buf) @ ?E @ drop (2 + length ?E) ([0x5C, 0x22] @ drop 2 buf))"
      using assms len by (intro put_escaped_all) (simp_all add: q)
    ultimately show ?thesis
      using True len upd_end [of "Suc (Suc (length ?E))" buf ?E]
      by (simp add: COM_QuotedString_def c_style_def [symmetric] q del: pokes.simps)
  next
    case False
    show ?thesis
    proof (cases dp)
      case True
      let ?E = "concat (map dp_bytes s)"
      have q: "quoted True s = 0x22 # ?E @ [0x22]" using True False by (simp add: quoted_def)
      have n: "13 \<notin> set s" "10 \<notin> set s" using False by (auto simp: c_style_def)
      have "put_dp s (buflen - 3) 1 (buf[0 := 0x22]) =
          Inr (1 + length ?E, take 1 (buf[0 := 0x22]) @ ?E @ drop (1 + length ?E) (buf[0 := 0x22]))"
        using assms len True by (intro put_dp_all) (simp_all add: q)
      then show ?thesis
        using True n len upd_end [of "Suc (length ?E)" buf ?E]
        by (cases buf) (simp_all add: COM_QuotedString_def Let_def q)
    next
      case nd: False
      have q: "quoted False s = 0x22 # s @ [0x22]" using nd False by (simp add: quoted_def)
      have n: "13 \<notin> set s" "10 \<notin> set s" "0x22 \<notin> set s" using nd False by (auto simp: c_style_def)
      have "put_plain s (buflen - 3) 1 (buf[0 := 0x22]) =
          Inr (1 + length s, take 1 (buf[0 := 0x22]) @ s @ drop (1 + length s) (buf[0 := 0x22]))"
        using assms len nd by (intro put_plain_all) (simp_all add: q)
      then show ?thesis
        using nd n len upd_end [of "Suc (length s)" buf s]
        by (cases buf) (simp_all add: COM_QuotedString_def Let_def q)
    qed
  qed
qed

section \<open>Reading\<close>

lemma u64_small: "len < unat (lim :: u64) \<Longrightarrow> \<not> full len lim"
  by (rule not_full)

lemma esc_letter_cases:
  obtains "esc_letter c = None" and "esc_bytes c = [c]" and "c \<noteq> 0x5C" and "c \<noteq> 0x22"
  | "esc_bytes c = [0x5C, 0x22]" and "c = 0x22"
  | e where "esc_bytes c = [0x5C, e]" and "e \<noteq> 13" and "e \<noteq> 10" and "e \<noteq> 0x22"
      and "\<And>r. \<exists>x. c_escape e r = Inr (x, r) \<and> ucast x = c \<and> x \<noteq> 0x22 \<and> x \<noteq> 0"
proof -
  consider "c = 10" | "c = 13" | "c = 9" | "c = 0x27" | "c = 0x22" | "c = 0x5C" | "c = 0x24"
    | "c \<notin> {10, 13, 9, 0x27, 0x22, 0x5C, 0x24}" by auto
  then show ?thesis
  proof cases
    case 1
    then show ?thesis by (intro that(3) [of "0x6E"]) (simp_all add: esc_bytes_def esc_letter_def c_escape_def)
  next
    case 2
    then show ?thesis by (intro that(3) [of "0x72"]) (simp_all add: esc_bytes_def esc_letter_def c_escape_def)
  next
    case 3
    then show ?thesis by (intro that(3) [of "0x74"]) (simp_all add: esc_bytes_def esc_letter_def c_escape_def)
  next
    case 4
    then show ?thesis by (intro that(3) [of c]) (simp_all add: esc_bytes_def esc_letter_def c_escape_def)
  next
    case 5
    then show ?thesis by (intro that(2)) (simp_all add: esc_bytes_def esc_letter_def)
  next
    case 6
    then show ?thesis by (intro that(3) [of c]) (simp_all add: esc_bytes_def esc_letter_def c_escape_def)
  next
    case 7
    then show ?thesis by (intro that(3) [of c]) (simp_all add: esc_bytes_def esc_letter_def c_escape_def)
  next
    case 8
    then show ?thesis by (intro that(1)) (simp_all add: esc_bytes_def esc_letter_def)
  qed
qed

lemma c_quoted_esc:
  assumes "0 \<notin> set s" and "len + length s < unat lim" and "len + length s < length out"
  shows "c_quoted lim (concat (map esc_bytes s) @ 0x22 # r) len out = Inr ((r, len + length s), token_after len s out)"
  using assms
proof (induction s arbitrary: len out)
  case Nil
  then show ?case by (simp add: c_quoted.simps not_full finish_Inr token_after_Nil)
next
  case (Cons c s)
  let ?q = "concat (map esc_bytes s) @ 0x22 # r"
  have nf: "\<not> full len lim" using Cons.prems(2) by (intro not_full) simp
  have po: "poke len c out = Inr (out[len := c])" using Cons.prems(3) by simp
  have IH: "c_quoted lim ?q (Suc len) (out[len := c]) = Inr ((r, len + length (c # s)), token_after len (c # s) out)"
    using Cons.prems Cons.IH [of "Suc len" "out[len := c]"] token_after_step [of len s out c] by simp
  have "c_quoted lim (esc_bytes c @ ?q) len out = c_quoted lim ?q (Suc len) (out[len := c])"
  proof (cases rule: esc_letter_cases [of c])
    case 1
    then show ?thesis using Cons.prems(1) nf po by (subst c_quoted.simps) simp
  next
    case 2
    then show ?thesis using nf po by (subst c_quoted.simps) simp
  next
    case (3 e)
    obtain x where "c_escape e ?q = Inr (x, ?q)" "ucast x = c" "x \<noteq> 0x22" "x \<noteq> 0" using 3(5) by blast
    then show ?thesis using 3(1-4) nf po by (subst c_quoted.simps) simp
  qed
  then show ?case using IH by simp
qed

lemma dp_quoted_dp:
  assumes "0 \<notin> set s" and "len + length s < unat lim" and "len + length s < length out"
  shows "dp_quoted lim (concat (map dp_bytes s) @ 0x22 # r) len out = Inr (r, token_after len s out)"
  using assms
proof (induction s arbitrary: len out)
  case Nil
  then show ?case by (simp add: not_full finish_Inr token_after_Nil)
next
  case (Cons c s)
  let ?q = "concat (map dp_bytes s) @ 0x22 # r"
  have nf: "\<not> full len lim" using Cons.prems(2) by (intro not_full) simp
  have po: "poke len x out = Inr (out[len := x])" for x using Cons.prems(3) by simp
  have "dp_quoted lim ?q (Suc len) (out[len := c]) = Inr (r, token_after len (c # s) out)"
    using Cons.prems Cons.IH [of "Suc len" "out[len := c]"] token_after_step [of len s out c] by simp
  moreover have "dp_quoted lim (dp_bytes c @ ?q) len out = dp_quoted lim ?q (Suc len) (out[len := c])"
    using Cons.prems(1) nf po by (simp add: dp_bytes_def)
  ultimately show ?case by simp
qed

lemma dup_quoted_plain:
  assumes "0 \<notin> set s" and "0x22 \<notin> set s" and "len + length s < unat lim" and "len + length s < length out"
    and "hd r \<noteq> 0x22" and "r \<noteq> []"
  shows "dup_quoted lim (s @ 0x22 # r) len out = Inr (r, token_after len s out)"
  using assms
proof (induction s arbitrary: len out)
  case Nil
  then show ?case by (cases r) (simp_all add: not_full finish_Inr token_after_Nil)
next
  case (Cons c s)
  have nf: "\<not> full len lim" using Cons.prems(3) by (intro not_full) simp
  have po: "poke len c out = Inr (out[len := c])" using Cons.prems(4) by simp
  have "dup_quoted lim (s @ 0x22 # r) (Suc len) (out[len := c]) = Inr (r, token_after len (c # s) out)"
    using Cons.prems Cons.IH [of "Suc len" "out[len := c]"] token_after_step [of len s out c] by simp
  then show ?case using Cons.prems(1,2) nf po by simp
qed

lemma skip_space_at:
  assumes "\<not> low c" and "c \<noteq> 0x2F"
  shows "skip_space low block (c # r) = Inr (Some (c # r))"
  using assms by (subst skip_space.simps) (cases r, simp_all)

lemma token_after_first: "0 < length out \<Longrightarrow> token_after 0 s (out[0 := x]) = s @ 0 # drop (length s + 1) out"
  by (simp add: token_after_def)

lemma StringParse_quoted:
  assumes "0 \<notin> set s" and "length s + 2 < unat tokenlen" and "length s < length token"
    and "r \<noteq> []" and "hd r \<noteq> 0x22"
  shows "COM_StringParse dp cvar (Some (quoted dp s @ r)) token tokenlen expandmacros qctokenize =
    Inr (Some r, s @ 0 # drop (length s + 1) token)"
proof -
  have t: "0 < length token" using assms(3) by linarith
  let ?t = "token[0 := 0]"
  show ?thesis
  proof (cases "c_style dp s")
    case True
    have "unat (ucast tokenlen :: u64) = unat tokenlen" by (rule unat_ucast_up)
    then have "unat ((ucast tokenlen :: u64) - 2) = unat tokenlen - 2" using assms(2)
      by (simp add: unat_sub word_le_nat_alt)
    then have "c_quoted (ucast tokenlen - 2) (concat (map esc_bytes s) @ 0x22 # r) 0 (?t[0 := 0]) =
        Inr ((r, length s), token_after 0 s (?t[0 := 0]))"
      using c_quoted_esc [of s 0 "ucast tokenlen - 2" "?t[0 := 0]" r] assms by simp
    then show ?thesis using True t
      by (simp add: COM_StringParse_def quoted_def skip_space_at string_low_def parse_cstring_def
          COM_ParseCString_def signed_low_def token_after_first Let_def)
  next
    case False
    have u: "unat (tokenlen - 1) = unat tokenlen - 1" using assms(2) by (simp add: unat_sub word_le_nat_alt)
    show ?thesis
    proof (cases dp)
      case True
      have "dp_quoted (tokenlen - 1) (concat (map dp_bytes s) @ 0x22 # r) 0 ?t = Inr (r, token_after 0 s ?t)"
        using assms u by (intro dp_quoted_dp) simp_all
      then show ?thesis using True False t
        by (simp add: COM_StringParse_def quoted_def skip_space_at string_low_def token_after_first Let_def)
    next
      case nd: False
      have "0x22 \<notin> set s" using nd False by (simp add: c_style_def)
      then have "dup_quoted (tokenlen - 1) (s @ 0x22 # r) 0 ?t = Inr (r, token_after 0 s ?t)"
        using assms u by (intro dup_quoted_plain) simp_all
      then show ?thesis using nd False t
        by (simp add: COM_StringParse_def quoted_def skip_space_at string_low_def token_after_first Let_def)
    qed
  qed
qed

section \<open>Bounds of the writer\<close>

text \<open>What a loop that writes at most \<open>n\<close> bytes from \<open>pos\<close> on does to the buffer.\<close>

definition stays :: "nat \<Rightarrow> byte list \<Rightarrow> (nat \<times> byte list) res \<Rightarrow> bool" where
  "stays lim buf r \<longleftrightarrow> (\<exists>pos' buf'. r = Inr (pos', buf') \<and> pos' \<le> lim \<and> length buf' = length buf \<and>
     drop lim buf' = drop lim buf)"

lemma stays_upd: "pos < lim \<Longrightarrow> stays lim (buf[pos := c]) r \<longleftrightarrow> stays lim buf r"
  by (simp add: stays_def)

lemma stays_here: "pos \<le> lim \<Longrightarrow> stays lim buf (Inr (pos, buf))"
  by (simp add: stays_def)

lemma put_escaped_stays:
  "0 \<le> n \<Longrightarrow> int pos + n \<le> int lim \<Longrightarrow> lim \<le> length buf \<Longrightarrow> stays lim buf (put_escaped s n pos buf)"
proof (induction s arbitrary: n pos buf)
  case (Cons c s)
  show ?case
  proof (cases "esc_letter c")
    case None
    then show ?thesis
      using Cons.prems Cons.IH [of "n - 1" "pos + 1" "buf[pos := c]"] by (auto simp: stays_upd stays_here)
  next
    case (Some e)
    then show ?thesis
      using Cons.prems Cons.IH [of "n - 2" "pos + 2" "buf[pos := 0x5C, pos + 1 := e]"]
      by (auto simp: stays_upd stays_here)
  qed
qed (simp add: stays_here)

lemma put_dp_stays:
  "0 \<le> n \<Longrightarrow> int pos + n \<le> int lim \<Longrightarrow> lim \<le> length buf \<Longrightarrow> stays lim buf (put_dp s n pos buf)"
proof (induction s arbitrary: n pos buf)
  case (Cons c s)
  show ?case
    using Cons.prems Cons.IH [of "n - 1" "pos + 1" "buf[pos := c]"]
      Cons.IH [of "n - 2" "pos + 2" "buf[pos := 0x5C, pos + 1 := c]"]
    by (auto simp: stays_upd stays_here)
qed (simp add: stays_here)

lemma put_plain_stays:
  "0 \<le> n \<Longrightarrow> int pos + n \<le> int lim \<Longrightarrow> lim \<le> length buf \<Longrightarrow> stays lim buf (put_plain s n pos buf)"
proof (induction s arbitrary: n pos buf)
  case (Cons c s)
  show ?case
    using Cons.prems Cons.IH [of "n - 1" "pos + 1" "buf[pos := c]"] by (auto simp: stays_upd stays_here)
qed (simp add: stays_here)

lemma close_stays:
  assumes "stays lim buf r" and "lim + length F = k" and "k \<le> length buf" and "F \<noteq> []" and "last F = 0"
  shows "\<exists>buf'. rbind r (\<lambda>(pos, buf). pokes pos F buf) = Inr buf' \<and> length buf' = length buf \<and>
    drop k buf' = drop k buf \<and> 0 \<in> set (take k buf')"
proof -
  obtain pos' b where b: "r = Inr (pos', b)" "pos' \<le> lim" "length b = length buf" "drop lim b = drop lim buf"
    using assms(1) by (auto simp: stays_def)
  have p: "pokes pos' F b = Inr (take pos' b @ F @ drop (pos' + length F) b)"
    using b assms(2,3) by (intro pokes_Inr) simp
  have "drop k b = drop k buf"
    using arg_cong [OF b(4), of "drop (k - lim)"] assms(2) by simp
  moreover have "drop k (take pos' b @ F @ drop (pos' + length F) b) = drop k b"
    using b assms(2,3) by simp
  moreover have "0 \<in> set F" using assms(4,5) by (metis last_in_set)
  then have "0 \<in> set (take k (take pos' b @ F @ drop (pos' + length F) b))"
    using b assms(2,3) by (simp add: take_append)
  ultimately show ?thesis using b p assms(2,3) by (auto simp: b(3))
qed

text \<open>
  C25: with a buffer of four bytes or more \<open>COM_QuotedString\<close> returns, terminates what it wrote inside the
  \<open>buflen\<close> bytes it was given and leaves every byte behind them as it was, however long the string is
  and whatever has to be escaped in it.
\<close>

theorem COM_QuotedString_bounds:
  assumes "4 \<le> buflen" and "buflen \<le> int (length buf)"
  shows "\<exists>buf'. COM_QuotedString dp s buf buflen omitquotes = Inr buf' \<and> length buf' = length buf \<and>
    drop (nat buflen) buf' = drop (nat buflen) buf \<and> 0 \<in> set (take (nat buflen) buf')"
proof -
  let ?k = "nat buflen"
  have k: "4 \<le> ?k" "?k \<le> length buf" using assms by linarith+
  have cl: "(\<lambda>(pos, buf). rbind (poke pos 0x22 buf) (poke (Suc pos) 0)) = (\<lambda>(pos, buf). pokes pos [0x22, 0] buf)"
    "(\<lambda>(pos, buf). poke pos 0 buf) = (\<lambda>(pos, buf). pokes pos [0 :: byte] buf)"
    by (auto simp: fun_eq_iff rbind_def split: sum.split)
  have two: "pokes 0 [0x5C, 0x22] buf = Inr (buf[0 := 0x5C, 1 := 0x22])" "poke 0 0x22 buf = Inr (buf[0 := 0x22])"
  proof -
    have "0 < length buf" "Suc 0 < length buf" using k by linarith+
    then show "pokes 0 [0x5C, 0x22] buf = Inr (buf[0 := 0x5C, 1 := 0x22])" "poke 0 0x22 buf = Inr (buf[0 := 0x22])"
      by simp_all
  qed
  have "stays (?k - 1) buf (put_escaped s (buflen - 1) 0 buf)"
    "stays (?k - 2) buf (put_escaped s (buflen - 4) 2 (buf[0 := 0x5C, 1 := 0x22]))"
    "stays (?k - 1) buf ((if dp then put_dp else put_plain) s (buflen - 1) 0 buf)"
    "stays (?k - 2) buf ((if dp then put_dp else put_plain) s (buflen - 3) 1 (buf[0 := 0x22]))"
    using k assms put_escaped_stays [of "buflen - 4" 2 "?k - 2" "buf[0 := 0x5C, 1 := 0x22]" s]
      put_dp_stays [of "buflen - 3" 1 "?k - 2" "buf[0 := 0x22]" s]
      put_plain_stays [of "buflen - 3" 1 "?k - 2" "buf[0 := 0x22]" s]
    by (auto intro!: put_escaped_stays put_dp_stays put_plain_stays simp: stays_upd)
  note c = close_stays [OF this(1), of "[0]" ?k] close_stays [OF this(2), of "[0x22, 0]" ?k]
    close_stays [OF this(3), of "[0]" ?k] close_stays [OF this(4), of "[0x22, 0]" ?k]
  show ?thesis
    using c k by (cases omitquotes; cases "c_style dp s")
      (simp_all add: COM_QuotedString_def Let_def c_style_def [symmetric] cl two del: pokes.simps)
qed

lemma quoted_bounds_witness:
  "\<exists>buf'. COM_QuotedString False [34, 34, 34] [1, 2, 3, 4, 5, 6] 5 False = Inr buf' \<and> length buf' = length [1, 2, 3, 4, 5, 6 :: byte] \<and>
    drop (nat 5) buf' = drop (nat 5) [1, 2, 3, 4, 5, 6] \<and> 0 \<in> set (take (nat 5) buf')"
  by (rule COM_QuotedString_bounds) simp_all

end
