(* ===== verification/TokenSafe.thy ===== *)
theory TokenSafe
  imports TokenQuote "HOL-Library.Sublist"
begin

text \<open>
  Where the tokenisers stay inside their text and token, and where they do not: \<open>COM_Parse\<close> is safe on
  every text but may leave its pointer behind the terminator; \<open>COM_ParseCString\<close> reads on behind a
  terminator that follows a backslash; the single quotes of \<open>COM_StringParse\<close> overflow the token.
\<close>

section \<open>Texts\<close>

text \<open>A pointer into the text whose terminator has not been passed.\<close>

definition in_text :: "byte list \<Rightarrow> byte list \<Rightarrow> bool" where
  "in_text m s \<longleftrightarrow> suffix s m \<and> 0 \<in> set s"

lemma in_text_refl: "0 \<in> set m \<Longrightarrow> in_text m m"
  by (simp add: in_text_def)

lemma in_text_trans: "in_text s t \<Longrightarrow> in_text m s \<Longrightarrow> in_text m t"
  by (auto simp: in_text_def intro: suffix_order.order_trans)

lemma in_text_tl: "in_text m (c # s) \<Longrightarrow> c \<noteq> 0 \<Longrightarrow> in_text m s"
  by (auto simp: in_text_def dest: suffix_ConsD)

lemma in_text_ne: "in_text m s \<Longrightarrow> s \<noteq> []"
  by (auto simp: in_text_def)

lemma skip_low_safe:
  "in_text m s \<Longrightarrow> skip_low low s = Inr None \<or>
    (\<exists>c r. skip_low low s = Inr (Some (c # r)) \<and> \<not> low c \<and> in_text m (c # r) \<and> length (c # r) \<le> length s)"
proof (induction s)
  case (Cons c s)
  show ?case
  proof (cases "low c \<and> c \<noteq> 0")
    case True
    then have "in_text m s" using Cons.prems in_text_tl by blast
    from Cons.IH [OF this] show ?thesis
    proof (elim disjE exE conjE)
      fix d r assume "skip_low low s = Inr (Some (d # r))" and "\<not> low d" and "in_text m (d # r)"
        and "length (d # r) \<le> length s"
      then show ?thesis using True by auto
    qed (use True in simp)
  next
    case False
    then show ?thesis using Cons.prems by auto
  qed
qed (simp add: in_text_def)

lemma to_newline_safe: "in_text m s \<Longrightarrow> \<exists>t. to_newline s = Inr t \<and> in_text m t"
proof (induction s)
  case (Cons c s)
  then show ?case by (auto dest: in_text_tl)
qed (simp add: in_text_def)

lemma skip_comment_safe: "in_text m s \<Longrightarrow> \<exists>t. skip_comment s = Inr t \<and> in_text m t"
proof (induction s)
  case (Cons c s)
  show ?case
  proof (cases "c = 0")
    case False
    then have s: "in_text m s" using Cons.prems in_text_tl by blast
    then obtain d r where d: "s = d # r" using in_text_ne by (cases s) auto
    show ?thesis using False s Cons.IH in_text_tl [of m d r] by (auto simp: d)
  qed (use Cons.prems in simp)
qed (simp add: in_text_def)

lemma skip_space_safe:
  assumes "in_text m s" and "low 0" and "block \<noteq> Block_Find"
  shows "skip_space low block s = Inr None \<or>
    (\<exists>c r. skip_space low block s = Inr (Some (c # r)) \<and> \<not> low c \<and> in_text m (c # r) \<and> length (c # r) \<le> length s)"
  using assms
proof (induction low block s rule: skip_space.induct)
  case (1 low block s)
  from skip_low_safe [OF "1.prems"(1), of low] show ?case
  proof (elim disjE exE conjE)
    assume "skip_low low s = Inr None"
    then show ?thesis by (subst skip_space.simps) simp
  next
    fix c r assume sl: "skip_low low s = Inr (Some (c # r))" and c: "\<not> low c" and t: "in_text m (c # r)"
      and len: "length (c # r) \<le> length s"
    have "c \<noteq> 0" using c "1.prems"(2) by auto
    then have r: "in_text m r" using t in_text_tl by blast
    then obtain d q where dq: "r = d # q" using in_text_ne by (cases r) auto
    have go: ?thesis if "skip_space low block s = skip_space low block t'" "length t' \<le> length s"
      "skip_space low block t' = Inr None \<or> (\<exists>c r. skip_space low block t' = Inr (Some (c # r)) \<and> \<not> low c \<and>
        in_text m (c # r) \<and> length (c # r) \<le> length t')" for t'
      using that by (metis order_trans)
    show ?thesis
    proof (cases "c = 0x2F \<and> d = 0x2F")
      case True
      then have "in_text m q" using r dq in_text_tl by simp
      then obtain t' where t': "to_newline q = Inr t'" "in_text m t'" using to_newline_safe by blast
      have "length t' \<le> length s" using to_newline_length [OF t'(1)] len dq by simp
      moreover have "skip_space low block s = skip_space low block t'"
        using True sl t' by (subst skip_space.simps) (simp add: dq)
      moreover note "1.IH"(1) [OF sl [unfolded dq] refl refl refl True _ t'(2) "1.prems"(2,3)] t'(1)
      ultimately show ?thesis using go by blast
    next
      case no: False
      show ?thesis
      proof (cases "c = 0x2F \<and> d = 0x2A \<and> block \<noteq> No_Block")
        case True
        then have "in_text m q" using r dq in_text_tl by simp
        then obtain t' where t': "skip_comment q = Inr t'" "in_text m t'" using skip_comment_safe by blast
        then have b: "block_comment block q = Inr t'" using "1.prems"(3) by (cases block) auto
        have "length t' \<le> length s" using block_comment_length [OF b] len dq by simp
        moreover have "skip_space low block s = skip_space low block t'"
          using no True sl b by (subst skip_space.simps) (simp add: dq)
        ultimately show ?thesis
          using go "1.IH"(2) [OF sl [unfolded dq] refl refl refl no True b t'(2) "1.prems"(2,3)] by blast
      next
        case False
        then have "skip_space low block s = Inr (Some (c # r))"
          using no sl by (subst skip_space.simps) (auto simp: dq)
        then show ?thesis using c t len by blast
      qed
    qed
  qed
qed

section \<open>Tokens\<close>

text \<open>The token array after a call: terminated within the first \<open>n\<close> bytes, and unchanged from there on.\<close>

definition token_ok :: "nat \<Rightarrow> byte list \<Rightarrow> byte list \<Rightarrow> bool" where
  "token_ok n out out' \<longleftrightarrow> length out' = length out \<and> drop n out' = drop n out \<and> 0 \<in> set (take n out')"

lemma token_ok_end: "len < n \<Longrightarrow> n \<le> length out \<Longrightarrow> token_ok n out (out[len := 0])"
  using set_update_memI [of len "take n out" 0] by (simp add: token_ok_def take_update_swap)

lemma token_ok_upd: "len < n \<Longrightarrow> n \<le> length out \<Longrightarrow> token_ok n (out[len := c]) out' \<longleftrightarrow> token_ok n out out'"
  by (simp add: token_ok_def)

lemma full_lim: "full len (lim :: u64) \<Longrightarrow> len \<le> unat lim \<Longrightarrow> len = unat lim"
proof -
  assume f: "full len lim" and l: "len \<le> unat lim"
  have "unat lim < 2 ^ LENGTH(64)" by (rule unsigned_less)
  then have "len < 2 ^ LENGTH(64)" using l by linarith
  then show ?thesis using f l by (simp add: full_iff)
qed

lemma finish_ok: "len \<le> lim \<Longrightarrow> lim < length out \<Longrightarrow>
    \<exists>out'. finish p len out = Inr (p, out') \<and> token_ok (Suc lim) out out'"
  using token_ok_end [of len "Suc lim" out] by (simp add: finish_Inr)

lemma plain_quoted_safe:
  assumes "in_text m s" and "len \<le> unat lim" and "unat lim < length out"
  shows "\<exists>q out'. plain_quoted lim s len out = Inr (q, out') \<and> suffix q m \<and> length q \<le> length s \<and>
    token_ok (Suc (unat lim)) out out'"
  using assms
proof (induction s arbitrary: len out)
  case (Cons c r)
  have suf: "suffix (c # r) m" "suffix r m" using Cons.prems(1) by (auto simp: in_text_def dest: suffix_ConsD)
  show ?case
  proof (cases "full len lim")
    case True
    then show ?thesis using suf finish_ok [of len "unat lim" out "c # r"] Cons.prems(2,3) by auto
  next
    case nf: False
    show ?thesis
    proof (cases "c = 0x22 \<or> c = 0")
      case True
      then show ?thesis using nf suf finish_ok [of len "unat lim" out r] Cons.prems(2,3) by (auto simp: le_SucI)
    next
      case False
      then have t: "in_text m r" using Cons.prems(1) in_text_tl by blast
      have len: "len < unat lim"
      proof (rule ccontr)
        assume "\<not> len < unat lim"
        then have "len = unat lim" using Cons.prems(2) by simp
        then have "full len lim" by (simp add: full_def)
        then show False using nf by simp
      qed
      then have po: "poke len c out = Inr (out[len := c])" using Cons.prems(3) by simp
      obtain q out' where "plain_quoted lim r (len + 1) (out[len := c]) = Inr (q, out')" "suffix q m"
        "length q \<le> length r" "token_ok (Suc (unat lim)) (out[len := c]) out'"
        using Cons.IH [OF t, of "len + 1" "out[len := c]"] len Cons.prems(3) by auto
      then show ?thesis using nf False po len Cons.prems(3) by (simp add: token_ok_upd le_SucI)
    qed
  qed
qed (simp add: in_text_def)

text \<open>The bytes of a word are the first one and others that keep the loop going.\<close>

lemma word_loop_safe:
  assumes "in_text m s" and "len \<le> unat lim" and "unat lim < length out" and "hd s \<noteq> 0" and "\<not> go 0"
  shows "\<exists>q fl len' out'. word_loop (lim :: u64) go s len out = Inr (q, fl, len', out') \<and> in_text m q \<and>
    length q \<le> length s \<and> (len < unat lim \<longrightarrow> length q < length s) \<and>
    len \<le> len' \<and> len' \<le> unat lim \<and> length out' = length out \<and>
    drop (Suc (unat lim)) out' = drop (Suc (unat lim)) out \<and> take len out' = take len out \<and>
    (\<forall>i. len \<le> i \<and> i < len' \<longrightarrow> out' ! i = hd s \<or> go (out' ! i))"
  using assms
proof (induction s arbitrary: len out)
  case (Cons c r)
  show ?case
  proof (cases "full len lim")
    case True
    then have "len = unat lim" using full_lim Cons.prems(2) by blast
    then show ?thesis using True Cons.prems(1,2) by auto
  next
    case nf: False
    have len: "len < unat lim"
    proof (rule ccontr)
      assume "\<not> len < unat lim"
      then have "len = unat lim" using Cons.prems(2) by simp
      then have "full len lim" by (simp add: full_def)
      then show False using nf by simp
    qed
    then have po: "poke len c out = Inr (out[len := c])" using Cons.prems(3) by simp
    have t: "in_text m r" using Cons.prems(1,4) in_text_tl by auto
    then obtain d r' where r: "r = d # r'" using in_text_ne by (cases r) auto
    show ?thesis
    proof (cases "go d")
      case False
      have "out[len := c] ! i = c" if "len \<le> i" "i < len + 1" for i
        using that len Cons.prems(3) by (simp add: le_less_Suc_eq)
      then show ?thesis using nf False po t len by (simp add: r) (rule exI [of _ False], simp)
    next
      case True
      then have d: "hd r \<noteq> 0" using Cons.prems(5) r by auto
      obtain q fl len' out' where w: "word_loop lim go r (len + 1) (out[len := c]) = Inr (q, fl, len', out')"
        "in_text m q" "length q \<le> length r" "len + 1 \<le> len'" "len' \<le> unat lim" "length out' = length out"
        "drop (Suc (unat lim)) out' = drop (Suc (unat lim)) out"
        "take (len + 1) out' = take (len + 1) (out[len := c])"
        "\<forall>i. len + 1 \<le> i \<and> i < len' \<longrightarrow> out' ! i = hd r \<or> go (out' ! i)"
        using Cons.IH [OF t _ _ d Cons.prems(5), of "len + 1" "out[len := c]"] len Cons.prems(3) by auto
      have e: "out' ! len = c" "take len out' = take len out"
      proof -
        have "out' ! len = take (len + 1) out' ! len" by simp
        also have "\<dots> = take (len + 1) (out[len := c]) ! len" by (simp only: w(8))
        also have "\<dots> = c" using len Cons.prems(3) by simp
        finally show "out' ! len = c" .
        have "take len out' = take len (take (len + 1) out')" by simp
        also have "\<dots> = take len out" by (simp only: w(8)) simp
        finally show "take len out' = take len out" .
      qed
      have "out' ! i = c \<or> go (out' ! i)" if "len \<le> i" "i < len'" for i
      proof (cases "i = len")
        case False
        then have "out' ! i = hd r \<or> go (out' ! i)" using that w(9) by simp
        then show ?thesis using True r by auto
      qed (simp add: e)
      then show ?thesis using nf po True w e(2) by (auto simp: r)
    qed
  qed
qed (simp add: in_text_def)

text \<open>
  C24: on every text with a terminator and for every size of token but 0 and 1 \<open>COM_Parse\<close> returns; it
  reads no byte behind the terminator, writes only inside the token and terminates it there, and moves
  forward.  The pointer it returns is still in the text unless the token is a string: a string
  without its closing quote leaves the pointer behind the terminator.
\<close>

theorem COM_ParseType_safe:
  assumes "0 \<in> set m" and "1 < unat outlen" and "unat outlen \<le> length out"
  shows "\<exists>p t out'. COM_ParseType (Some m) out outlen = Inr (p, t, out') \<and> token_ok (unat outlen) out out' \<and>
    (case p of
       None \<Rightarrow> t = TTP_EOF
     | Some q \<Rightarrow> suffix q m \<and> length q < length m \<and> (if t = TTP_STRING then True else t = TTP_RAWTOKEN \<and> 0 \<in> set q))"
proof -
  have lim: "unat (outlen - 1) = unat outlen - 1" "Suc (unat outlen - 1) = unat outlen"
    using assms(2) by (simp_all add: unat_sub word_le_nat_alt)
  have room: "unat (outlen - 1) < length (out[0 := 0])" using lim assms(2,3) by simp
  have "0 < length out" using assms(2,3) by linarith
  then have z: "poke 0 0 out = Inr (out[0 := 0])" by simp
  have tok: "token_ok (unat outlen) (out[0 := 0]) o' \<longleftrightarrow> token_ok (unat outlen) out o'" for o'
    using assms(2,3) by (intro token_ok_upd) simp_all
  have "skip_space signed_low Block_Skip m = Inr None \<or>
    (\<exists>c r. skip_space signed_low Block_Skip m = Inr (Some (c # r)) \<and> \<not> signed_low c \<and> in_text m (c # r) \<and>
      length (c # r) \<le> length m)"
    by (rule skip_space_safe [OF in_text_refl [OF assms(1)]]) (simp_all add: signed_low_def)
  then show ?thesis
  proof (elim disjE exE conjE)
    assume "skip_space signed_low Block_Skip m = Inr None"
    moreover have "token_ok (unat outlen) out (out[0 := 0])" using assms(2,3) by (intro token_ok_end) simp_all
    ultimately show ?thesis by (simp add: COM_ParseType_def z)
  next
    fix c r assume s: "skip_space signed_low Block_Skip m = Inr (Some (c # r))" and c: "\<not> signed_low c"
      and t: "in_text m (c # r)" and len: "length (c # r) \<le> length m"
    have c0: "c \<noteq> 0" using c by (auto simp: signed_low_def)
    show ?thesis
    proof (cases "c = 0x22")
      case True
      have "in_text m r" using t c0 in_text_tl by blast
      then obtain q out' where "plain_quoted (outlen - 1) r 0 (out[0 := 0]) = Inr (q, out')" "suffix q m"
        "length q \<le> length r" "token_ok (Suc (unat (outlen - 1))) (out[0 := 0]) out'"
        using plain_quoted_safe [of m r 0 "outlen - 1" "out[0 := 0]"] room by blast
      moreover have "Suc (unat (outlen - 1)) = unat outlen" using lim by simp
      ultimately have "plain_quoted (outlen - 1) r 0 (out[0 := 0]) = Inr (q, out')" "suffix q m"
        "length q \<le> length r" "token_ok (unat outlen) out out'"
        by (simp_all only: tok)
      then show ?thesis using True s len by (simp add: COM_ParseType_def z)
    next
      case False
      obtain q fl len' out' where w: "word_loop (outlen - 1) (\<lambda>c. \<not> signed_low c) (c # r) 0 (out[0 := 0]) = Inr (q, fl, len', out')"
        "in_text m q" "length q < length (c # r)" "len' \<le> unat outlen - 1" "length out' = length out"
        "drop (unat outlen) out' = drop (unat outlen) out"
        using word_loop_safe [OF t, of 0 "outlen - 1" "out[0 := 0]" "\<lambda>c. \<not> signed_low c"] room c0 assms(2)
        by (auto simp: lim signed_low_def)
      have f: "finish q len' out' = Inr (q, out'[len' := 0])"
        using w(4,5) assms(2,3) by (intro finish_Inr) linarith
      have "token_ok (unat outlen) out' (out'[len' := 0])"
        using w(4,5) assms(2,3) by (intro token_ok_end) linarith+
      then have "token_ok (unat outlen) out (out'[len' := 0])"
        using w(5,6) by (simp add: token_ok_def)
      then show ?thesis using False s len w(2,3)
        by (simp add: COM_ParseType_def z parse_word_def w(1) f in_text_def del: word_loop.simps)
    qed
  qed
qed

section \<open>Behind the terminator\<close>

definition no_specials :: "byte list \<Rightarrow> bool" where
  "no_specials s \<longleftrightarrow> (\<forall>c \<in> set s. c \<noteq> 0 \<and> c \<noteq> 0x5C \<and> c \<noteq> 0x22)"

lemma c_quoted_plain:
  assumes "no_specials s" and "len + length s < unat lim" and "len + length s \<le> length out"
  shows "c_quoted lim (s @ r) len out = c_quoted lim r (len + length s) (take len out @ s @ drop (len + length s) out)"
  using assms
proof (induction s arbitrary: len out)
  case (Cons c s)
  have nf: "\<not> full len lim" using Cons.prems(2) by (intro not_full) simp
  have po: "poke len c out = Inr (out[len := c])" using Cons.prems(3) by simp
  have "c_quoted lim (c # s @ r) len out = c_quoted lim (s @ r) (Suc len) (out[len := c])"
    using Cons.prems(1) nf po by (subst c_quoted.simps) (simp add: no_specials_def)
  also have "\<dots> = c_quoted lim r (Suc len + length s)
      (take (Suc len) (out[len := c]) @ s @ drop (Suc len + length s) (out[len := c]))"
    using Cons.prems by (intro Cons.IH) (simp_all add: no_specials_def)
  also have "take (Suc len) (out[len := c]) @ s @ drop (Suc len + length s) (out[len := c]) =
      take len out @ (c # s) @ drop (len + Suc (length s)) out"
    using Cons.prems(3) by (intro splice_step) simp
  finally show ?case by simp
qed simp

text \<open>
  a text that ends in a backslash inside quotes is read on behind its terminator:
  \<open>COM_ParseCString\<close> takes the terminator for an unknown escape and goes on with whatever lies
  behind, up to the next quote there; that memory becomes part of the token.
\<close>

theorem COM_ParseCString_overread:
  assumes "no_specials s" and "no_specials behind"
    and "length s + length behind + 3 < unat sizeoftoken" and "unat sizeoftoken \<le> length token"
  shows "\<exists>token'. COM_ParseCString (Some (0x22 # s @ [0x5C, 0] @ behind @ 0x22 # r)) token sizeoftoken =
      Inr (Some r, length s + 1 + length behind, token') \<and>
    take (length s + 1 + length behind) token' = s @ 0x3F # behind"
proof -
  let ?lim = "sizeoftoken - 2" and ?n = "length s + 1 + length behind"
  let ?rest = "behind @ 0x22 # r"
  have lim: "unat ?lim = unat sizeoftoken - 2" using assms(3) by (simp add: unat_sub word_le_nat_alt)
  have "0 < length token" using assms(3,4) by linarith
  then have z: "poke 0 0 token = Inr (token[0 := 0])" by simp
  let ?t0 = "token[0 := 0]"
  let ?t1 = "s @ drop (length s) ?t0"
  have "c_quoted ?lim (s @ 0x5C # 0 # ?rest) 0 ?t0 = c_quoted ?lim (0x5C # 0 # ?rest) (length s) ?t1"
    using c_quoted_plain [OF assms(1), of 0 ?lim ?t0 "0x5C # 0 # ?rest"] assms(3,4) by (simp add: lim)
  also have "\<dots> = c_quoted ?lim ?rest (length s + 1) (?t1[length s := 0x3F])"
  proof -
    have "\<not> full (length s) ?lim" using assms(3) by (intro not_full) (simp add: lim)
    moreover have "poke (length s) x ?t1 = Inr (?t1[length s := x])" for x using assms(3,4) by simp
    ultimately show ?thesis by (subst c_quoted.simps) (simp add: c_escape_def)
  qed
  also have "\<dots> = c_quoted ?lim (0x22 # r) ?n
      (take (length s + 1) (?t1[length s := 0x3F]) @ behind @ drop ?n (?t1[length s := 0x3F]))"
    using c_quoted_plain [OF assms(2), of "length s + 1" ?lim "?t1[length s := 0x3F]" "0x22 # r"] assms(3,4)
    by (simp add: lim)
  also have "take (length s + 1) (?t1[length s := 0x3F]) = s @ [0x3F]"
    using assms(3,4) by (simp add: take_Suc_conv_app_nth)
  also have "c_quoted ?lim (0x22 # r) ?n ((s @ [0x3F]) @ behind @ drop ?n (?t1[length s := 0x3F])) =
      Inr ((r, ?n), ((s @ [0x3F]) @ behind @ drop ?n (?t1[length s := 0x3F]))[?n := 0])"
  proof -
    have "\<not> full ?n ?lim" using assms(3) by (intro not_full) (simp add: lim)
    then show ?thesis using assms(3,4) by (subst c_quoted.simps) (simp add: finish_def)
  qed
  finally have "c_quoted ?lim (s @ 0x5C # 0 # ?rest) 0 ?t0 =
      Inr ((r, ?n), ((s @ [0x3F]) @ behind @ drop ?n (?t1[length s := 0x3F]))[?n := 0])" .
  then show ?thesis
    by (simp add: COM_ParseCString_def z skip_space_at signed_low_def take_update_cancel)
qed

section \<open>Past the end of the token\<close>

lemma quote_run_overflow:
  "length out + 3 \<le> len + k \<Longrightarrow> len \<le> length out \<Longrightarrow> quote_run (replicate k 0x27 @ r) len out = Inl Out_Of_Bounds"
proof (induction k arbitrary: len out)
  case (Suc k)
  then have "3 \<le> Suc k" by linarith
  then obtain j where k: "k = Suc (Suc j)" by (metis Suc_le_D Suc_le_mono numeral_3_eq_3)
  show ?case
  proof (cases "len < length out")
    case True
    then show ?thesis using Suc.IH [of "out[len := 0x27]" "Suc len"] Suc.prems by (simp add: k)
  next
    case False
    then show ?thesis by (simp add: k poke_def)
  qed
qed simp

text \<open>
  a run of single quotes overflows the token: with the QuakeC style of tokens
  \<open>COM_StringParse\<close> copies the run without a test for room, whatever the size of the token.
\<close>

theorem quotes_overflow:
  assumes "length token = unat tokenlen" and "1 < unat tokenlen" and "unat tokenlen + 5 \<le> n"
  shows "COM_StringParse dp cvar (Some (replicate n 0x27 @ r)) token tokenlen expandmacros True = Inl Out_Of_Bounds"
proof -
  define k where "k = n - 3"
  have n: "n = Suc (Suc (Suc k))" using assms(3) by (simp add: k_def)
  have "0 < length token" using assms(1,2) by linarith
  then have z: "poke 0 0 token = Inr (token[0 := 0])" by simp
  have "unat (tokenlen - 1) = unat tokenlen - 1" using assms(2) by (simp add: unat_sub word_le_nat_alt)
  then have nf: "\<not> full 0 (tokenlen - 1)" using assms(2) by (intro not_full) simp
  have "quote_run (replicate (Suc k) 0x27 @ r) 0 (token[0 := 0]) = Inl Out_Of_Bounds"
    using assms by (intro quote_run_overflow) (simp_all add: k_def)
  then have "single_quoted (tokenlen - 1) (0x27 # 0x27 # replicate k 0x27 @ r) 0 (token[0 := 0]) = Inl Out_Of_Bounds"
    using nf by (subst single_quoted.simps) simp
  then show ?thesis
    by (simp add: COM_StringParse_def z n skip_space_at string_low_def)
qed

section \<open>A reader that does not fit\<close>

lemma takeWhile_word:
  assumes "takeWhile (\<lambda>c. c \<noteq> 0) (out[len := 0]) = t" and "len < length out" and "c \<in> set t"
  shows "\<exists>i < len. out ! i = c"
proof -
  have "out[len := 0] = take len out @ 0 # drop (Suc len) out" using assms(2) by (rule upd_conv_take_nth_drop)
  then have "t = takeWhile (\<lambda>c. c \<noteq> 0) (take len out @ 0 # drop (Suc len) out)" using assms(1) by simp
  also have "\<dots> = takeWhile (\<lambda>c. c \<noteq> 0) (take len out)" by (rule takeWhile_tail) simp
  finally have "c \<in> set (take len out)" using assms(3) set_takeWhileD by fastforce
  then show ?thesis using assms(2) by (auto simp: in_set_conv_nth)
qed

text \<open>
  \<open>COM_Parse\<close>, which the comment over \<open>COM_QuotedString\<close> names as its reader, does not give back a
  string with a line ending: it takes the escaped form for a plain word.
\<close>

theorem COM_Parse_loses_newline:
  assumes "10 \<in> set s \<or> 13 \<in> set s" and "2 * int (length s) + 4 \<le> buflen" and "buflen \<le> int (length buf)"
    and "1 < unat outlen" and "unat outlen \<le> length out"
  shows "\<exists>buf' p t out'. COM_QuotedString dp s buf buflen False = Inr buf' \<and>
    COM_ParseType (Some buf') out outlen = Inr (p, t, out') \<and> takeWhile (\<lambda>c. c \<noteq> 0) out' \<noteq> s"
proof -
  have q: "quoted dp s = 0x5C # 0x22 # concat (map esc_bytes s) @ [0x22]"
    using assms(1) by (auto simp: quoted_def c_style_def)
  define m where "m = quoted dp s @ 0 # drop (length (quoted dp s) + 1) buf"
  have w: "COM_QuotedString dp s buf buflen False = Inr m"
    unfolding m_def by (rule QuotedString_eq [OF assms(2,3)])
  obtain r where m: "m = 0x5C # r" by (simp add: m_def q)
  have t: "in_text m m" by (simp add: in_text_def m_def)
  have lim: "unat (outlen - 1) = unat outlen - 1" using assms(4) by (simp add: unat_sub word_le_nat_alt)
  have "0 < length out" using assms(4,5) by linarith
  then have z: "poke 0 0 out = Inr (out[0 := 0])" by simp
  have skip: "skip_space signed_low Block_Skip m = Inr (Some m)"
    unfolding m by (rule skip_space_at) (simp_all add: signed_low_def)
  let ?go = "\<lambda>c. \<not> signed_low c"
  have pre: "unat (outlen - 1) < length (out[0 := 0])" "hd m \<noteq> 0" "\<not> ?go 0"
    using assms(4,5) by (simp_all add: lim m signed_low_def)
  obtain q fl len' out' where wl: "word_loop (outlen - 1) ?go m 0 (out[0 := 0]) = Inr (q, fl, len', out')"
    "len' \<le> unat (outlen - 1)" "length out' = length (out[0 := 0])"
    "\<forall>i. 0 \<le> i \<and> i < len' \<longrightarrow> out' ! i = hd m \<or> ?go (out' ! i)"
    using word_loop_safe [where go = ?go, OF t le0 pre] by blast
  have len: "len' < length out'" using wl(2,3) pre(1) by linarith
  have "takeWhile (\<lambda>c. c \<noteq> 0) (out'[len' := 0]) \<noteq> s"
  proof
    assume "takeWhile (\<lambda>c. c \<noteq> 0) (out'[len' := 0]) = s"
    then obtain i where "i < len'" "out' ! i = 10 \<or> out' ! i = 13"
      using takeWhile_word [OF _ len] assms(1) by blast
    then show False using wl(4) by (auto simp: m signed_low_def)
  qed
  moreover have "COM_ParseType (Some m) out outlen = Inr (Some q, TTP_RAWTOKEN, out'[len' := 0])"
    using skip wl(1) unfolding m
    by (simp add: COM_ParseType_def z parse_word_def finish_Inr [OF len] del: word_loop.simps)
  ultimately show ?thesis using w by blast
qed

section \<open>At concrete inputs\<close>

lemma ParseType_witness:
  "\<exists>p t out'. COM_ParseType (Some [32, 0x22, 65, 0, 66]) [1, 2, 3, 4] 3 = Inr (p, t, out') \<and> token_ok (unat (3 :: u64)) [1, 2, 3, 4] out' \<and>
    (case p of
       None \<Rightarrow> t = TTP_EOF
     | Some q \<Rightarrow> suffix q [32, 0x22, 65, 0, 66] \<and> length q < length [32, 0x22, 65, 0, 66 :: byte] \<and>
         (if t = TTP_STRING then True else t = TTP_RAWTOKEN \<and> 0 \<in> set q))"
  by (rule COM_ParseType_safe) simp_all

lemma overread_witness:
  "\<exists>token'. COM_ParseCString (Some (0x22 # [65] @ [0x5C, 0] @ [66, 67] @ 0x22 # [68])) (replicate 10 0) 10 =
      Inr (Some [68], length [65 :: byte] + 1 + length [66, 67 :: byte], token') \<and>
    take (length [65 :: byte] + 1 + length [66, 67 :: byte]) token' = [65] @ 0x3F # [66, 67]"
  by (rule COM_ParseCString_overread) (simp_all add: no_specials_def)

lemma quotes_overflow_witness:
  "COM_StringParse False (\<lambda>_. None) (Some (replicate 9 0x27 @ [0])) [0, 0, 0, 0] 4 False True = Inl Out_Of_Bounds"
  by (rule quotes_overflow) simp_all

lemma loses_newline_witness:
  "\<exists>buf' p t out'. COM_QuotedString False [65, 10] (replicate 20 0) 20 False = Inr buf' \<and>
    COM_ParseType (Some buf') (replicate 16 0) 16 = Inr (p, t, out') \<and> takeWhile (\<lambda>c. c \<noteq> 0) out' \<noteq> [65, 10]"
  by (rule COM_Parse_loses_newline) simp_all

end
