(* ===== verification/Command.thy ===== *)
theory Command
  imports TokenQuote
begin

text \<open>
  The arguments of a console command (\<open>engine/common/cmd.c\<close>): \<open>Cmd_TokenizeString\<close> and
  \<open>Cmd_TokenizePunctation\<close> cut a line into \<open>cmd_argv\<close>, \<open>Cmd_Argv\<close>, \<open>Cmd_Args\<close> and \<open>Cmd_ShiftArgs\<close> use it.
  Lines made of quoted arguments give those arguments back.

  \<open>cmd_argc\<close> is the length of \<open>cmd_argv\<close>; \<open>cmd_args\<close> is the memory its pointer leads into, with a
  terminator.  The loops end because each token takes a byte of the line; they are written as
  loops that might not (\<open>None\<close>), and shown to end where it matters.
\<close>

section \<open>State\<close>

definition MAX_ARGS :: nat where "MAX_ARGS = 80"
definition TOKENSIZE :: nat where "TOKENSIZE = 65536"

record cmd_state =
  cmd_argv :: "byte list list"
  cmd_args :: "byte list option"
  com_token :: "byte list"

definition Cmd_Argc :: "cmd_state \<Rightarrow> nat" where
  "Cmd_Argc st = length (cmd_argv st)"

definition Cmd_Argv :: "cmd_state \<Rightarrow> int \<Rightarrow> byte list res" where
  "Cmd_Argv st arg =
     (if int (Cmd_Argc st) \<le> arg then Inr []
      else if arg < 0 then Inl Out_Of_Bounds
      else peek (cmd_argv st) (nat arg))"

definition Cmd_Args :: "cmd_state \<Rightarrow> byte list" where
  "Cmd_Args st = (case cmd_args st of None \<Rightarrow> [0, 0] | Some a \<Rightarrow> a)"

definition Cmd_Args_Set :: "byte list option \<Rightarrow> cmd_state \<Rightarrow> cmd_state" where
  "Cmd_Args_Set newargs st = st\<lparr>cmd_args := map_option (\<lambda>a. a @ [0]) newargs\<rparr>"

section \<open>Cutting a line\<close>

fun skip_blank :: "byte list \<Rightarrow> byte list res" where
  "skip_blank [] = Inl Out_Of_Bounds"
| "skip_blank (c # r) = (if c \<noteq> 0 \<and> c \<le> 32 \<and> c \<noteq> 10 then skip_blank r else Inr (c # r))"

text \<open>The two tokenisers have the same loop around \<open>parse\<close>, which reads a token; one also stops at a
  token that is a newline.\<close>

partial_function (option) tokenize_loop ::
  "(byte list \<Rightarrow> byte list \<Rightarrow> (byte list option \<times> byte list) res) \<Rightarrow> bool \<Rightarrow>
   byte list \<Rightarrow> byte list option \<Rightarrow> cmd_state \<Rightarrow> (byte list option \<times> byte list option \<times> cmd_state) run" where
  "tokenize_loop parse newline_ends text args st =
     (case skip_blank text of
        Inl e \<Rightarrow> Some (Inl e)
      | Inr text \<Rightarrow>
          if hd text = 10 then Some (Inr (Some (tl text), args, st))
          else if hd text = 0 then Some (Inr (Some text, args, st))
          else
            (let args = (if Cmd_Argc st = 1 then Some text else args) in
             case parse text (com_token st) of
               Inl e \<Rightarrow> Some (Inl e)
             | Inr (p, token) \<Rightarrow>
                 (let st = st\<lparr>com_token := token\<rparr> in
                  case p of
                    None \<Rightarrow> Some (Inr (None, args, st))
                  | Some text \<Rightarrow>
                      (case c_str token of
                         Inl e \<Rightarrow> Some (Inl e)
                       | Inr tok \<Rightarrow>
                           if newline_ends \<and> tok = [10] then Some (Inr (Some text, args, st))
                           else tokenize_loop parse newline_ends text args
                             (if Cmd_Argc st < MAX_ARGS then st\<lparr>cmd_argv := cmd_argv st @ [tok]\<rparr> else st)))))"

text \<open>The text from the second argument to where reading stopped, less the line ending.\<close>

definition args_text :: "byte list \<Rightarrow> byte list option \<Rightarrow> byte list res" where
  "args_text args text =
     rbind (case text of None \<Rightarrow> c_str args | Some t \<Rightarrow> Inr (take (length args - length t) args)) (\<lambda>a.
     Inr (rev (dropWhile (\<lambda>c. c = 10 \<or> c = 13) (rev a))))"

definition set_args :: "byte list option \<times> byte list option \<times> cmd_state \<Rightarrow> (byte list option \<times> cmd_state) res" where
  "set_args = (\<lambda>(text, args, st).
     case args of
       None \<Rightarrow> Inr (text, Cmd_Args_Set None st)
     | Some a \<Rightarrow> rbind (args_text a text) (\<lambda>a. Inr (text, Cmd_Args_Set (Some a) st)))"

definition Cmd_TokenizeString ::
  "bool \<Rightarrow> (byte list \<Rightarrow> byte list option) \<Rightarrow> byte list \<Rightarrow> bool \<Rightarrow> bool \<Rightarrow> cmd_state \<Rightarrow>
   (byte list option \<times> cmd_state) run" where
  "Cmd_TokenizeString dp cvar text expandmacros qctokenize st =
     run_bind (tokenize_loop
         (\<lambda>text token. COM_StringParse dp cvar (Some text) token (word_of_nat TOKENSIZE) expandmacros qctokenize)
         True text None (st\<lparr>cmd_argv := []\<rparr>))
       (\<lambda>r. Some (set_args r))"

definition Cmd_TokenizePunctation :: "byte list \<Rightarrow> byte list option \<Rightarrow> cmd_state \<Rightarrow> cmd_state run" where
  "Cmd_TokenizePunctation text punctuation st =
     run_bind (tokenize_loop
         (\<lambda>text token. rbind (COM_ParseTokenOut (Some text) punctuation token (word_of_nat TOKENSIZE) True)
            (\<lambda>(p, t, token). Inr (p, token)))
         False text None (Cmd_Args_Set None (st\<lparr>cmd_argv := []\<rparr>)))
       (\<lambda>r. Some (rbind (set_args r) (\<lambda>(text, st). Inr st)))"

section \<open>Shifting\<close>

fun skip_tabs :: "byte list \<Rightarrow> byte list res" where
  "skip_tabs [] = Inl Out_Of_Bounds"
| "skip_tabs (c # r) = (if c = 32 \<or> c = 9 then skip_tabs r else Inr (c # r))"

definition shift_args_text ::
  "bool \<Rightarrow> (byte list \<Rightarrow> byte list option) \<Rightarrow> bool \<Rightarrow> cmd_state \<Rightarrow> cmd_state res" where
  "shift_args_text dp cvar expandstring st = (case cmd_args st of
     None \<Rightarrow> Inr st
   | Some a \<Rightarrow>
       rbind (COM_StringParse dp cvar (Some a) (com_token st) (word_of_nat TOKENSIZE) expandstring False) (\<lambda>(p, token).
       rbind (case p of None \<Rightarrow> Inr None | Some q \<Rightarrow> rbind (skip_tabs q) (\<lambda>q. Inr (Some q))) (\<lambda>p.
       Inr (st\<lparr>cmd_args := p, com_token := token\<rparr>))))"

fun Cmd_ShiftArgs ::
  "bool \<Rightarrow> (byte list \<Rightarrow> byte list option) \<Rightarrow> nat \<Rightarrow> bool \<Rightarrow> cmd_state \<Rightarrow> cmd_state res" where
  "Cmd_ShiftArgs dp cvar 0 expandstring st = Inr st"
| "Cmd_ShiftArgs dp cvar (Suc n) expandstring st =
     (if cmd_argv st = [] then Inr st
      else rbind (shift_args_text dp cvar expandstring (st\<lparr>cmd_argv := tl (cmd_argv st)\<rparr>))
        (Cmd_ShiftArgs dp cvar n expandstring))"

section \<open>Lines of quoted arguments\<close>

text \<open>What \<open>COM_QuotedString\<close> makes of an argument in a buffer of the size its comment asks for.\<close>

definition quote_arg :: "bool \<Rightarrow> byte list \<Rightarrow> byte list" where
  "quote_arg dp a =
     (case COM_QuotedString dp a (replicate (2 * length a + 4) 0) (int (2 * length a + 4)) False of
        Inl e \<Rightarrow> []
      | Inr buf \<Rightarrow> takeWhile (\<lambda>c. c \<noteq> 0) buf)"

definition line :: "bool \<Rightarrow> byte list list \<Rightarrow> byte list" where
  "line dp args = concat (map (\<lambda>a. quote_arg dp a @ [32]) args)"

lemma line_simps [simp]: "line dp [] = []" "line dp (a # args) = quote_arg dp a @ 32 # line dp args"
  by (simp_all add: line_def)

definition arg_ok :: "byte list \<Rightarrow> bool" where
  "arg_ok a \<longleftrightarrow> 0 \<notin> set a \<and> length a + 2 < TOKENSIZE"

lemma quote_arg_eq: "arg_ok a \<Longrightarrow> quote_arg dp a = quoted dp a"
proof -
  assume a: "arg_ok a"
  have "0 \<notin> set (concat (map esc_bytes a))" "0 \<notin> set (concat (map dp_bytes a))" "0 \<notin> set a"
    using a by (auto simp: arg_ok_def esc_bytes_def esc_letter_def dp_bytes_def split: option.splits if_splits)
  then have "\<forall>c \<in> set (quoted dp a). c \<noteq> 0" unfolding quoted_def by (auto simp del: set_concat)
  then show ?thesis by (simp add: quote_arg_def QuotedString_eq takeWhile_append2)
qed

lemma quoted_first:
  "\<exists>c q. quoted dp a = c # q \<and> c \<noteq> 0 \<and> \<not> c \<le> 32 \<and> c \<noteq> 10"
  by (simp add: quoted_def)

lemma skip_blank_quoted: "skip_blank (quoted dp a @ r) = Inr (quoted dp a @ r)"
  using quoted_first [of dp a] by auto

lemma hd_quoted: "hd (quoted dp a @ r) \<noteq> 10" "hd (quoted dp a @ r) \<noteq> 0"
  using quoted_first [of dp a] by auto

lemma tokensize_word: "unat (word_of_nat TOKENSIZE :: int32) = TOKENSIZE"
  by (simp add: TOKENSIZE_def)

lemma parse_arg:
  assumes "arg_ok a" and "length token = TOKENSIZE"
  shows "COM_StringParse dp cvar (Some (quoted dp a @ 32 # r)) token (word_of_nat TOKENSIZE) em qc =
      Inr (Some (32 # r), a @ 0 # drop (Suc (length a)) token)"
    and "c_str (a @ 0 # drop (Suc (length a)) token) = Inr a"
    and "length (a @ 0 # drop (Suc (length a)) token) = TOKENSIZE"
proof -
  show "COM_StringParse dp cvar (Some (quoted dp a @ 32 # r)) token (word_of_nat TOKENSIZE) em qc =
      Inr (Some (32 # r), a @ 0 # drop (Suc (length a)) token)"
    using assms StringParse_quoted [of a "word_of_nat TOKENSIZE" token "32 # r" dp cvar em qc]
    by (simp add: tokensize_word arg_ok_def)
  have "\<forall>c \<in> set a. c \<noteq> 0" using assms(1) by (auto simp: arg_ok_def)
  then show "c_str (a @ 0 # drop (Suc (length a)) token) = Inr a" by (simp add: c_str_def)
  show "length (a @ 0 # drop (Suc (length a)) token) = TOKENSIZE" using assms by (simp add: arg_ok_def)
qed

text \<open>The memory \<open>args\<close> points to when argument number \<open>n\<close> comes next.\<close>

definition args_from ::
  "byte list \<Rightarrow> bool \<Rightarrow> nat \<Rightarrow> byte list list \<Rightarrow> byte list option \<Rightarrow> byte list option" where
  "args_from behind dp n args old =
     (if n \<le> 1 \<and> 1 < n + length args then Some (line dp (drop (1 - n) args) @ 0 # behind) else old)"

lemma skip_blank_line: "\<forall>a \<in> set args. arg_ok a \<Longrightarrow> skip_blank (line dp args @ 0 # r) = Inr (line dp args @ 0 # r)"
  using skip_blank_quoted by (cases args) (auto simp: quote_arg_eq)

lemma tokenize_line:
  assumes "\<forall>a \<in> set args. arg_ok a \<and> (ends \<longrightarrow> a \<noteq> [10])" and "length (com_token st) = TOKENSIZE"
    and "Cmd_Argc st + length args \<le> MAX_ARGS" and "skip_blank mem = Inr (line dp args @ 0 # behind)"
  shows "\<exists>token. length token = TOKENSIZE \<and>
    tokenize_loop (\<lambda>text token. COM_StringParse dp cvar (Some text) token (word_of_nat TOKENSIZE) em qc) ends mem old st =
      Some (Inr (Some (0 # behind), args_from behind dp (Cmd_Argc st) args old,
        st\<lparr>cmd_argv := cmd_argv st @ args, com_token := token\<rparr>))"
  using assms
proof (induction args arbitrary: mem old st)
  case Nil
  then show ?case
    by (subst tokenize_loop.simps) (auto simp: args_from_def intro!: exI [of _ "com_token st"])
next
  case (Cons a args)
  let ?rest = "line dp args @ 0 # behind" and ?t = "a @ 0 # drop (Suc (length a)) (com_token st)"
  let ?st = "st\<lparr>com_token := ?t, cmd_argv := cmd_argv st @ [a]\<rparr>"
  let ?old = "if Cmd_Argc st = 1 then Some (quoted dp a @ 32 # ?rest) else old"
  let ?loop = "tokenize_loop (\<lambda>text token. COM_StringParse dp cvar (Some text) token (word_of_nat TOKENSIZE) em qc) ends"
  have a: "arg_ok a" using Cons.prems(1) by simp
  have a2: "(ends \<and> a = [10]) = False" using Cons.prems(1) by auto
  note p = parse_arg [OF a Cons.prems(2)]
  have room: "Cmd_Argc st < MAX_ARGS" using Cons.prems(3) by simp
  have skip: "skip_blank mem = Inr (quoted dp a @ 32 # ?rest)" using Cons.prems(4) a by (simp add: quote_arg_eq)
  have "?loop mem old st = ?loop (32 # ?rest) ?old ?st"
    using a2 room by (subst tokenize_loop.simps, cases ends) (simp_all add: skip hd_quoted p Cmd_Argc_def Let_def)
  moreover obtain token where "length token = TOKENSIZE" and
    "?loop (32 # ?rest) ?old ?st = Some (Inr (Some (0 # behind), args_from behind dp (Cmd_Argc ?st) args ?old,
        ?st\<lparr>cmd_argv := cmd_argv ?st @ args, com_token := token\<rparr>))"
    using Cons.IH [of ?st "32 # ?rest" ?old] Cons.prems p(3) by (auto simp: Cmd_Argc_def skip_blank_line)
  moreover have "args_from behind dp (Cmd_Argc ?st) args ?old = args_from behind dp (Cmd_Argc st) (a # args) old"
    using a by (auto simp: args_from_def Cmd_Argc_def drop_Cons' le_Suc_eq quote_arg_eq)
  ultimately show ?case by (intro exI [of _ token]) simp
qed

lemma line_end: "args \<noteq> [] \<Longrightarrow> \<exists>q. line dp args = q @ [32]"
proof (induction args)
  case (Cons a args)
  show ?case
  proof (cases "args = []")
    case False
    then obtain q where "line dp args = q @ [32]" using Cons.IH by blast
    then show ?thesis by simp
  qed simp
qed simp

lemma args_text_line: "args \<noteq> [] \<Longrightarrow> args_text (line dp args @ 0 # r) (Some (0 # r)) = Inr (line dp args)"
  using line_end [of args dp] by (auto simp: args_text_def)

text \<open>The state of a command with the arguments \<open>args\<close>: \<open>cmd_args\<close> is the text from the second on.\<close>

definition holds_args :: "bool \<Rightarrow> byte list list \<Rightarrow> cmd_state \<Rightarrow> bool" where
  "holds_args dp args st \<longleftrightarrow> cmd_argv st = args \<and> length (com_token st) = TOKENSIZE \<and>
     (cmd_args st = Some (line dp (drop 1 args) @ [0]) \<or> (length args \<le> 1 \<and> cmd_args st = None))"

text \<open>
  C18: a line of up to 80 arguments, each quoted with \<open>COM_QuotedString\<close>, is cut by \<open>Cmd_TokenizeString\<close>
  into exactly these arguments, with or without expansion of macros, in either style of quoting and of
  tokens, whatever lies behind the line; \<open>Cmd_Args\<close> is the text from the second argument on.  The one exception is the argument that
  is a single newline, which the tokeniser takes for the end of the line.
\<close>

theorem tokenize_quoted:
  assumes "\<forall>a \<in> set args. arg_ok a \<and> a \<noteq> [10]" and "length args \<le> MAX_ARGS" and "length (com_token st) = TOKENSIZE"
  shows "\<exists>st'. Cmd_TokenizeString dp cvar (line dp args @ 0 # behind) expandmacros qctokenize st =
    Some (Inr (Some (0 # behind), st')) \<and>
    holds_args dp args st'"
proof -
  obtain token where t: "length token = TOKENSIZE" and
    l: "tokenize_loop (\<lambda>text token. COM_StringParse dp cvar (Some text) token (word_of_nat TOKENSIZE) expandmacros qctokenize)
      True (line dp args @ 0 # behind) None (st\<lparr>cmd_argv := []\<rparr>) =
      Some (Inr (Some (0 # behind), args_from behind dp 0 args None, st\<lparr>cmd_argv := args, com_token := token\<rparr>))"
    using tokenize_line [of args True "st\<lparr>cmd_argv := []\<rparr>" "line dp args @ 0 # behind" dp behind cvar expandmacros qctokenize None]
      assms by (auto simp: Cmd_Argc_def skip_blank_line)
  show ?thesis
  proof (cases "1 < length args")
    case True
    then have "drop 1 args \<noteq> []" by simp
    then show ?thesis using True l t
      by (simp add: Cmd_TokenizeString_def args_from_def set_args_def args_text_line Cmd_Args_Set_def holds_args_def)
  next
    case False
    then show ?thesis using l t
      by (simp add: Cmd_TokenizeString_def args_from_def set_args_def Cmd_Args_Set_def holds_args_def)
  qed
qed

lemma skip_tabs_line: "\<forall>a \<in> set args. arg_ok a \<Longrightarrow> skip_tabs (line dp args @ [0]) = Inr (line dp args @ [0])"
proof (cases args)
  case (Cons a as)
  assume "\<forall>a \<in> set args. arg_ok a"
  obtain c q where "quoted dp a = c # q" "\<not> c \<le> 32" using quoted_first by blast
  then show ?thesis using \<open>\<forall>a \<in> set args. arg_ok a\<close> by (auto simp: Cons quote_arg_eq)
qed simp

lemma shift_one:
  assumes "holds_args dp (a # args) st" and "\<forall>a \<in> set args. arg_ok a"
  shows "\<exists>st'. shift_args_text dp cvar expandstring (st\<lparr>cmd_argv := args\<rparr>) = Inr st' \<and> holds_args dp args st'"
proof (cases "cmd_args st")
  case None
  then show ?thesis using assms(1) by (auto simp: shift_args_text_def holds_args_def)
next
  case (Some m)
  then have m: "m = line dp args @ [0]" and t: "length (com_token st) = TOKENSIZE"
    using assms(1) by (auto simp: holds_args_def)
  show ?thesis
  proof (cases args)
    case Nil
    have "0 < length (com_token st)" using t by (simp add: TOKENSIZE_def)
    moreover have "skip_space string_low Block_Skip [0] = Inr None"
      by (subst skip_space.simps) (simp add: string_low_def)
    ultimately have "COM_StringParse dp cvar (Some [0]) (com_token st) (word_of_nat TOKENSIZE) expandstring False =
        Inr (None, (com_token st)[0 := 0])"
      by (simp add: COM_StringParse_def)
    then show ?thesis using Some m t Nil by (simp add: shift_args_text_def holds_args_def)
  next
    case (Cons b bs)
    then have b: "arg_ok b" using assms(2) by simp
    note p = parse_arg [OF b t]
    have "skip_tabs (line dp bs @ [0]) = Inr (line dp bs @ [0])" using assms(2) Cons by (intro skip_tabs_line) simp
    then show ?thesis using Some m p b by (simp add: Cons shift_args_text_def holds_args_def quote_arg_eq)
  qed
qed

text \<open>
  C26: for a command that was cut from a line whose arguments were quoted with \<open>COM_QuotedString\<close>
  (\<open>holds_args\<close>), \<open>Cmd_ShiftArgs\<close> drops any number of arguments from the front of both views of the
  command: \<open>cmd_argv\<close> and the text that \<open>Cmd_Args\<close> returns stay in step, as if the line had been cut
  without them.  Lines with unquoted arguments are not covered: the text is advanced by another
  tokeniser than the one that cut the line, and on punctuation such as \<open>a(b)\<close> the views part.
\<close>

theorem shift_args:
  assumes "holds_args dp args st" and "\<forall>a \<in> set (drop 1 args). arg_ok a"
  shows "\<exists>st'. Cmd_ShiftArgs dp cvar n expandstring st = Inr st' \<and> holds_args dp (drop n args) st'"
  using assms
proof (induction n arbitrary: args st)
  case (Suc n)
  show ?case
  proof (cases args)
    case Nil
    then show ?thesis using Suc.prems(1) by (simp add: holds_args_def)
  next
    case (Cons a as)
    then obtain st' where s: "shift_args_text dp cvar expandstring (st\<lparr>cmd_argv := as\<rparr>) = Inr st'"
      "holds_args dp as st'"
      using shift_one [of dp a as st cvar expandstring] Suc.prems by auto
    have "\<forall>a \<in> set (drop 1 as). arg_ok a" using Suc.prems(2) Cons by (auto dest: in_set_dropD)
    then show ?thesis using Suc.IH [OF s(2)] s(1) Suc.prems(1) Cons by (simp add: holds_args_def)
  qed
qed simp

section \<open>At concrete inputs\<close>

definition fresh_cmd :: cmd_state where
  "fresh_cmd = \<lparr>cmd_argv = [], cmd_args = None, com_token = replicate TOKENSIZE 0\<rparr>"

lemma small_args: "\<forall>a \<in> set [[65], [34, 10], []]. arg_ok a \<and> a \<noteq> [10]"
  by (simp add: arg_ok_def TOKENSIZE_def)

lemma tokenize_quoted_witness:
  "\<exists>st'. Cmd_TokenizeString True (\<lambda>_. None) (line True [[65], [34, 10], []] @ 0 # [7]) True False fresh_cmd =
     Some (Inr (Some (0 # [7]), st')) \<and> holds_args True [[65], [34, 10], []] st'"
  by (rule tokenize_quoted [OF small_args]) (simp_all add: MAX_ARGS_def fresh_cmd_def)

lemma shift_args_witness:
  "\<exists>st'. Cmd_ShiftArgs False (\<lambda>_. None) 2 True
      (fresh_cmd\<lparr>cmd_argv := [[65], [34, 10], []], cmd_args := Some (line False [[34, 10], []] @ [0])\<rparr>) = Inr st' \<and>
    holds_args False (drop 2 [[65], [34, 10], []]) st'"
  using small_args by (intro shift_args) (simp_all add: holds_args_def fresh_cmd_def)

end
