(* ===== verification/Cbuf.thy ===== *)
theory Cbuf
  imports Complex_Main Command SizeBuf
begin

text \<open>
  The command buffer of the console (\<open>engine/common/cmd.c\<close>): text is added at its end or in front,
  cut at line ends and semicolons, expanded and handed to a command.

  A level of \<open>cmd_text\<close> is a \<open>sizebuf_t\<close>, whose storage keeps what was there before, and what it waits
  for.  The heap is a parameter: \<open>heap n\<close> is a fresh block of \<open>n\<close> bytes.  \<open>realtime\<close>, the state of the
  map, the variables and macros, and what a command does are parameters too; calls come from the main
  thread.
\<close>

section \<open>Levels\<close>

record cmd_level =
  cb_buf :: sizebuf
  waitattime :: real
  waitframes :: int
  waituntil :: real
  waitmap :: bool

record cbuf_env =
  heap :: "nat \<Rightarrow> byte list"
  cmd_maxbuffersize :: int
  realtime :: real
  map_up :: bool

section \<open>Adding text\<close>

text \<open>\<open>while (newmax < n) newmax *= 2\<close>; the size of a buffer in use is never 0.\<close>

function double_until :: "nat \<Rightarrow> nat \<Rightarrow> nat" where
  "double_until n newmax = (if newmax < n \<and> 0 < newmax then double_until n (newmax * 2) else newmax)"
  by pat_completeness auto
termination
  by (relation "measure (\<lambda>(n, newmax). n - newmax)") auto

declare double_until.simps [simp del]

definition first_block :: "cbuf_env \<Rightarrow> sizebuf \<Rightarrow> sizebuf" where
  "first_block env buf =
     (if maxsize buf = 0 then buf\<lparr>data := heap env 8192, maxsize := 8192\<rparr> else buf)"

definition realloc :: "cbuf_env \<Rightarrow> nat \<Rightarrow> sizebuf \<Rightarrow> sizebuf" where
  "realloc env newmax buf =
     buf\<lparr>data := take newmax (data buf) @ drop (length (data buf)) (heap env newmax), maxsize := newmax\<rparr>"

definition add_text :: "cbuf_env \<Rightarrow> byte list \<Rightarrow> sizebuf \<Rightarrow> sizebuf res" where
  "add_text env text buf =
     (let l = length text; buf = first_block env buf in
      if maxsize buf \<le> cursize buf + l then
        (let newmax = maxsize buf * 2 in
         if cmd_maxbuffersize env < int newmax \<and> cmd_maxbuffersize env \<noteq> 0 then Inr buf
         else SZ_Write (realloc env (double_until (cursize buf + l) newmax) buf) text)
      else SZ_Write buf text)"

text \<open>An operation on level number \<open>level\<close>; the test for its range lets the number of levels pass.\<close>

definition at_level :: "int \<Rightarrow> (cmd_level \<Rightarrow> cmd_level res) \<Rightarrow> cmd_level list \<Rightarrow> cmd_level list res" where
  "at_level level f cmd_text =
     (if int (length cmd_text) < level \<or> level < 0 then Inr cmd_text
      else rbind (peek cmd_text (nat level)) (\<lambda>lv. rbind (f lv) (\<lambda>lv. poke (nat level) lv cmd_text)))"

definition on_buf :: "(sizebuf \<Rightarrow> sizebuf res) \<Rightarrow> cmd_level \<Rightarrow> cmd_level res" where
  "on_buf f lv = rbind (f (cb_buf lv)) (\<lambda>b. Inr (lv\<lparr>cb_buf := b\<rparr>))"

definition Cbuf_AddText :: "cbuf_env \<Rightarrow> byte list \<Rightarrow> int \<Rightarrow> cmd_level list \<Rightarrow> cmd_level list res" where
  "Cbuf_AddText env text level = at_level level (on_buf (add_text env text))"

text \<open>\<open>Q_memcpy\<close> from the start of the storage, and a copy read as a string.\<close>

definition copy_off :: "sizebuf \<Rightarrow> byte list res" where
  "copy_off buf =
     (if cursize buf \<le> length (data buf) then Inr (take (cursize buf) (data buf)) else Inl Out_Of_Bounds)"

definition insert_text :: "cbuf_env \<Rightarrow> byte list \<Rightarrow> bool \<Rightarrow> sizebuf \<Rightarrow> sizebuf res" where
  "insert_text env text addnl buf =
     rbind (copy_off buf) (\<lambda>temp.
     rbind (add_text env text (if temp \<noteq> [] then SZ_Clear buf else buf)) (\<lambda>buf.
     rbind (if addnl then add_text env [10] buf else Inr buf) (\<lambda>buf.
     if temp \<noteq> [] then add_text env (takeWhile (\<lambda>c. c \<noteq> 0) temp) buf else Inr buf)))"

definition Cbuf_InsertText :: "cbuf_env \<Rightarrow> byte list \<Rightarrow> int \<Rightarrow> bool \<Rightarrow> cmd_level list \<Rightarrow> cmd_level list res" where
  "Cbuf_InsertText env text level addnl = at_level level (on_buf (insert_text env text addnl))"

section \<open>The next statement, for scripts\<close>

function next_end :: "byte list \<Rightarrow> nat \<Rightarrow> bool \<Rightarrow> nat \<Rightarrow> nat \<Rightarrow> bool \<Rightarrow> nat res" where
  "next_end text n ignoresemicolon i quotes comment =
     (if \<not> i < n then Inr i
      else if \<not> i < length text then Inl Out_Of_Bounds
      else
        let c = text ! i in
        if c = 10 then Inr i
        else
          let quotes = (if c = 0x22 then quotes + 1 else quotes) in
          (case (if even quotes \<and> \<not> comment \<and> c = 0x2F \<and> i + 1 < n
                 then rbind (peek text (i + 1)) (\<lambda>d. Inr (d = 0x2F)) else Inr comment) of
             Inl e \<Rightarrow> Inl e
           | Inr comment \<Rightarrow>
               if even quotes \<and> \<not> comment \<and> c = 0x3B \<and> \<not> ignoresemicolon then Inr i
               else next_end text n ignoresemicolon (i + 1) quotes comment))"
  by pat_completeness auto
termination
  by (relation "measure (\<lambda>(text, n, ig, i, q, c). n - i)") auto

declare next_end.simps [simp del]

text \<open>
  \<open>memcpy\<close> of the statement, and moving the rest of the buffer down.  The size of the rest is an \<open>int\<close>;
  a negative one is a move of almost the whole address space.
\<close>

definition remove_front :: "nat \<Rightarrow> sizebuf \<Rightarrow> sizebuf res" where
  "remove_front i buf =
     (if i = cursize buf then Inr (buf\<lparr>cursize := 0\<rparr>)
      else if cursize buf < i + 1 \<or> length (data buf) < cursize buf then Inl Out_Of_Bounds
      else let n = cursize buf - (i + 1) in
        Inr (buf\<lparr>cursize := n, data := take n (drop (i + 1) (data buf)) @ drop n (data buf)\<rparr>))"

definition cut_line :: "nat \<Rightarrow> sizebuf \<Rightarrow> (byte list \<times> sizebuf) res" where
  "cut_line i buf =
     (if length (data buf) < i then Inl Out_Of_Bounds
      else rbind (remove_front i buf) (\<lambda>b. Inr (take i (data buf) @ [0], b)))"

partial_function (option) get_next :: "bool \<Rightarrow> sizebuf \<Rightarrow> (byte list \<times> sizebuf) run" where
  "get_next ignoresemicolon buf =
     (case next_end (data buf) (cursize buf) ignoresemicolon 0 0 False of
        Inl e \<Rightarrow> Some (Inl e)
      | Inr i \<Rightarrow>
          if 1023 \<le> i then Some (Inr ([0], buf))
          else (case cut_line i buf of
              Inl e \<Rightarrow> Some (Inl e)
            | Inr (cmd, buf) \<Rightarrow>
                (case skip_tabs cmd of
                   Inl e \<Rightarrow> Some (Inl e)
                 | Inr text \<Rightarrow>
                     if hd text = 0 \<and> cursize buf \<noteq> 0 then get_next ignoresemicolon buf
                     else Some (Inr (text, buf)))))"

definition Cbuf_GetNext :: "bool \<Rightarrow> cmd_level \<Rightarrow> (byte list \<times> cmd_level) run" where
  "Cbuf_GetNext ignoresemicolon lv =
     run_bind (get_next ignoresemicolon (cb_buf lv)) (\<lambda>(cmd, b). Some (Inr (cmd, lv\<lparr>cb_buf := b\<rparr>)))"

definition Cbuf_StripText :: "cmd_level \<Rightarrow> (byte list \<times> cmd_level) res" where
  "Cbuf_StripText lv =
     rbind (copy_off (cb_buf lv)) (\<lambda>t. Inr (t, lv\<lparr>cb_buf := (cb_buf lv)\<lparr>cursize := 0\<rparr>\<rparr>))"

section \<open>Expanding a line\<close>

text \<open>
  What \<open>Cmd_ExpandString\<close> asks: \<open>Cmd_ExpandCvar\<close> and \<open>TP_MacroString\<close>, with the name and the access
  level, which they may change; their answer is a string, which later calls leave alone, and how much of
  the name it stands for.  \<open>name_buf\<close> is the array \<open>buf\<close> on the stack, of undefined content.
\<close>

record expander =
  dpcompat :: bool
  expand_cvar :: "int \<Rightarrow> bool \<Rightarrow> byte list \<Rightarrow> int \<Rightarrow> (byte list \<times> nat) option \<times> int"
  tp_macro :: "byte list \<Rightarrow> int \<Rightarrow> (byte list \<times> nat) option \<times> int"
  name_buf :: "byte list"

definition look_up ::
  "expander \<Rightarrow> int \<Rightarrow> bool \<Rightarrow> bool \<Rightarrow> byte list \<Rightarrow> (byte list \<times> nat) option \<Rightarrow> int \<Rightarrow> (byte list \<times> nat) option \<times> int" where
  "look_up ex maxlevel macros enclosed name best level =
     (let (a, level) = expand_cvar ex maxlevel enclosed name level;
          best = (case a of None \<Rightarrow> best | Some v \<Rightarrow> Some v);
          (b, level) = (if macros then tp_macro ex name level else (None, level))
      in (case b of None \<Rightarrow> best | Some v \<Rightarrow> Some v, level))"

text \<open>\<open>${name}\<close>: the name is cut to the buffer, 255 bytes; the rest of the text starts at its end.\<close>

fun brace_name :: "byte list \<Rightarrow> nat \<Rightarrow> byte list \<Rightarrow> (byte list \<times> nat \<times> byte list) res" where
  "brace_name [] i buf = Inl Out_Of_Bounds"
| "brace_name (c # r) i buf =
     (if c = 0 \<or> c = 0x7D then rbind (poke i 0 buf) (\<lambda>buf. Inr (c # r, i, buf))
      else if i < 253 then rbind (poke i c buf) (\<lambda>buf. brace_name r (i + 1) buf)
      else brace_name r i buf)"

text \<open>\<open>$name\<close>: each longer name is looked up, the last answer counts; the buffer has no test for room.\<close>

fun plain_name ::
  "expander \<Rightarrow> int \<Rightarrow> bool \<Rightarrow> nat \<Rightarrow> byte list \<Rightarrow> nat \<Rightarrow> byte list \<Rightarrow> (byte list \<times> nat) option \<Rightarrow> int \<Rightarrow>
   (byte list \<times> byte list \<times> (byte list \<times> nat) option \<times> int) res" where
  "plain_name ex maxlevel macros strip [] i buf best level = Inl Out_Of_Bounds"
| "plain_name ex maxlevel macros strip (c # r) i buf best level =
     (if c = 0 \<or> c < 32 \<or> c = 0x24 then Inr (c # r, buf, best, level)
      else rbind (if c = 32 then rbind (peek buf 0) (\<lambda>b. Inr (b \<noteq> 0x7B)) else Inr False) (\<lambda>stop.
        if stop then Inr (c # r, buf, best, level)
        else
          rbind (poke i c buf) (\<lambda>buf.
          rbind (poke (i + 1) 0 buf) (\<lambda>buf.
          let (best, level) = look_up ex maxlevel macros False (drop strip (take (i + 1) buf)) best level
          in plain_name ex maxlevel macros strip r (i + 1) buf best level))))"

fun skip_signed_low :: "byte list \<Rightarrow> byte list res" where
  "skip_signed_low [] = Inl Out_Of_Bounds"
| "skip_signed_low (c # r) = (if signed_low c \<and> c \<noteq> 0 then skip_signed_low r else Inr (c # r))"

text \<open>The name behind a dollar sign: rest, name buffer, answer, \<open>name_length\<close>, \<open>striptrailing\<close>, level.\<close>

definition dollar ::
  "expander \<Rightarrow> int \<Rightarrow> bool \<Rightarrow> byte list \<Rightarrow> int \<Rightarrow>
   (byte list \<times> byte list \<times> byte list option \<times> nat \<times> bool \<times> int) res" where
  "dollar ex maxlevel macros r level =
     rbind (peek r 0) (\<lambda>c.
     if c = 0x24 then
       rbind (pokes 0 [0, 0] (name_buf ex)) (\<lambda>buf. Inr (tl r, buf, Some [0x24], 0, False, level))
     else if c = 0x7B then
       rbind (peek r 1) (\<lambda>d.
       let strip = (if d = 0x2D then 1 else 0) in
       rbind (poke 0 0x7B (name_buf ex)) (\<lambda>buf.
       rbind (brace_name (tl r) 1 buf) (\<lambda>(q, i, buf).
       let name = takeWhile (\<lambda>c. c \<noteq> 0) (drop (1 + strip) buf);
           (best, level) = look_up ex maxlevel macros True name None level
       in rbind (if hd q = 0x7D then rbind (pokes i [0x7D, 0] buf) (\<lambda>buf. Inr (tl q, i + 1, buf)) else Inr (q, i, buf))
         (\<lambda>(q, i, buf). Inr (q, buf, map_option fst best, i, strip = 1, level)))))
     else
       rbind (pokes 0 [0, 0] (name_buf ex)) (\<lambda>buf.
       let strip = (if c = 0x2D then 1 else 0) in
       rbind (plain_name ex maxlevel macros strip r 0 buf None level) (\<lambda>(q, buf, best, level).
       case best of
         None \<Rightarrow> Inr (q, buf, None, 0, strip = 1, level)
       | Some (s, n) \<Rightarrow> Inr (q, buf, Some s, n, strip = 1, level))))"

text \<open>\<open>strtol(s, &end, 10)\<close> as an \<open>int\<close>, and \<open>end\<close>; the number is clamped to a \<open>long\<close>.\<close>

fun digits_of :: "byte list \<Rightarrow> int \<Rightarrow> int \<times> byte list" where
  "digits_of [] n = (n, [])"
| "digits_of (c # r) n = (if 48 \<le> c \<and> c \<le> 57 then digits_of r (10 * n + (uint c - 48)) else (n, c # r))"

definition strtol10 :: "byte list \<Rightarrow> int \<times> byte list" where
  "strtol10 s =
     (let t = dropWhile (\<lambda>c. c = 32 \<or> (9 \<le> c \<and> c \<le> 13)) s;
          neg = (t \<noteq> [] \<and> hd t = 0x2D);
          u = (if neg \<or> (t \<noteq> [] \<and> hd t = 0x2B) then tl t else t);
          (n, q) = digits_of u 0;
          v = (if neg then max (- (2 ^ 63)) (- n) else min (2 ^ 63 - 1) n)
      in if q = u then (0, s) else (sint (word_of_int v :: int32), q))"

text \<open>The \<open>%\<close> expansions of aliases: the string and the rest of the text.  \<open>va\<close> has a buffer of 8192 bytes.\<close>

definition va_quoted :: "byte list \<Rightarrow> byte list" where
  "va_quoted s = take 8190 (0x22 # s @ [0x22])"

definition percent :: "cmd_state \<Rightarrow> byte list \<Rightarrow> (byte list \<times> byte list) res" where
  "percent st r =
     rbind (peek r 0) (\<lambda>d.
     if d = 0x25 then Inr ([0x25], tl r)
     else if d = 0x23 then rbind (c_str (Cmd_Args st)) (\<lambda>args. Inr (va_quoted args, tl r))
     else if d = 0x2A then rbind (c_str (Cmd_Args st)) (\<lambda>args. Inr (args, tl r))
     else
       (let (i, q) = strtol10 r in
        rbind (if i \<noteq> 0 then Inr True
               else if q = r then Inr False else rbind (peek q 0) (\<lambda>e. Inr (e = 0 \<or> e = 32 \<or> e = 9))) (\<lambda>number.
        if number then rbind (Cmd_Argv st i) (\<lambda>a. Inr (a, q)) else Inr ([0x25], r))))"

text \<open>
  The loop of \<open>Cmd_ExpandString\<close>: the length, the destination and the access level it ends with.  The
  part of a name that its variable did not use is copied without a test for room.
\<close>

partial_function (option) expand_loop ::
  "expander \<Rightarrow> cmd_state \<Rightarrow> int \<Rightarrow> bool \<Rightarrow> bool \<Rightarrow> nat \<Rightarrow> byte list \<Rightarrow> nat \<Rightarrow> nat \<Rightarrow> byte list \<Rightarrow> int \<Rightarrow>
   (nat \<times> byte list \<times> int) run" where
  "expand_loop ex st maxlevel expandargs macros destlen src quotes len dest level =
     (case src of
        [] \<Rightarrow> Some (Inl Out_Of_Bounds)
      | c # r \<Rightarrow>
          if c = 0 then Some (Inr (len, dest, level))
          else
            (let quotes = (if c = 0x22 then quotes + 1 else quotes) in
             if c = 0x25 \<and> even quotes \<and> \<not> dpcompat ex \<and> expandargs then
               (case percent st r of
                  Inl e \<Rightarrow> Some (Inl e)
                | Inr (s, q) \<Rightarrow>
                    if destlen - 1 \<le> len + length s then Some (Inr (len, dest, level))
                    else (case pokes len (s @ [0]) dest of
                        Inl e \<Rightarrow> Some (Inl e)
                      | Inr dest \<Rightarrow>
                          expand_loop ex st maxlevel expandargs macros destlen q quotes (len + length s) dest level))
             else if c = 0x24 \<and> (even quotes \<or> dpcompat ex) then
               (case dollar ex maxlevel macros r level of
                  Inl e \<Rightarrow> Some (Inl e)
                | Inr (q, buf, None, n, strip, level) \<Rightarrow>
                    (case rbind (poke len 0x24 dest) (\<lambda>dest. rbind (c_str buf) (\<lambda>name. Inr (dest, name))) of
                       Inl e \<Rightarrow> Some (Inl e)
                     | Inr (dest, name) \<Rightarrow>
                         if destlen - 1 \<le> len + 1 + length name then Some (Inr (len + 1, dest, level))
                         else (case pokes (len + 1) (name @ [0]) dest of
                             Inl e \<Rightarrow> Some (Inl e)
                           | Inr dest \<Rightarrow>
                               expand_loop ex st maxlevel expandargs macros destlen q quotes
                                 (len + 1 + length name) dest level))
                | Inr (q, buf, Some s, n, strip, level) \<Rightarrow>
                    if destlen - 1 \<le> len + length s then Some (Inr (len, dest, level))
                    else (case rbind (pokes len (s @ [0]) dest) (\<lambda>dest.
                            rbind (c_str (drop n buf)) (\<lambda>rest.
                            rbind (pokes (len + length s) rest dest) (\<lambda>dest.
                            rbind (if strip \<and> s = [] then skip_signed_low q else Inr q) (\<lambda>q.
                            Inr (q, len + length s + length rest, dest))))) of
                        Inl e \<Rightarrow> Some (Inl e)
                      | Inr (q, len, dest) \<Rightarrow>
                          expand_loop ex st maxlevel expandargs macros destlen q quotes len dest level))
             else
               (case poke len c dest of
                  Inl e \<Rightarrow> Some (Inl e)
                | Inr dest \<Rightarrow>
                    if destlen - 1 \<le> len + 1 then Some (Inr (len + 1, dest, level))
                    else expand_loop ex st maxlevel expandargs macros destlen r quotes (len + 1) dest level)))"

definition Cmd_ExpandString ::
  "expander \<Rightarrow> cmd_state \<Rightarrow> byte list \<Rightarrow> byte list \<Rightarrow> nat \<Rightarrow> int \<Rightarrow> bool \<Rightarrow> bool \<Rightarrow> bool \<Rightarrow> (byte list \<times> int) run" where
  "Cmd_ExpandString ex st src dest destlen accesslevel expandargs expandcvars expandmacros =
     run_bind (expand_loop ex st (if expandcvars then accesslevel else -999) expandargs expandmacros destlen
         src 0 0 dest accesslevel) (\<lambda>(len, dest, level).
     Some (rbind (poke len 0 dest) (\<lambda>dest.
       rbind (if len = 0 then Inr False else rbind (peek dest (len - 1)) (\<lambda>c. Inr (c = 13))) (\<lambda>cr.
       rbind (if cr then poke (len - 1) 0 dest else Inr dest) (\<lambda>dest. Inr (dest, level))))))"

section \<open>Executing\<close>

definition RESTRICT_LOCAL :: int where "RESTRICT_LOCAL = 29"

fun skip_start :: "byte list \<Rightarrow> byte list res" where
  "skip_start [] = Inl Out_Of_Bounds"
| "skip_start (c # r) = (if c = 32 \<or> c = 10 then skip_start r else Inr (c # r))"

text \<open>\<open>!strncmp(text, "alias", 5) && (text[5] == ' ' || text[5] == '\t')\<close>.\<close>

definition is_alias :: "byte list \<Rightarrow> bool" where
  "is_alias text \<longleftrightarrow> take 5 text = str ''alias'' \<and> (drop 5 text \<noteq> []) \<and> (text ! 5 = 32 \<or> text ! 5 = 9)"

text \<open>
  \<open>Cmd_ExecuteString\<close>: the line is expanded, cut into arguments and handed to \<open>act\<close>, the command, alias
  or variable of that name.  \<open>find_var\<close> is \<open>Cvar_FindVar\<close>; \<open>stack_dest\<close> the array \<open>dest\<close>, of undefined
  content.
\<close>

record 'w executor =
  expands :: expander
  find_var :: "byte list \<Rightarrow> byte list option"
  stack_dest :: "byte list"
  act :: "int \<Rightarrow> cmd_state \<times> 'w \<Rightarrow> (cmd_state \<times> 'w) run"

definition Cmd_ExecuteString ::
  "'w executor \<Rightarrow> byte list \<Rightarrow> int \<Rightarrow> cmd_state \<times> 'w \<Rightarrow> (cmd_state \<times> 'w) run" where
  "Cmd_ExecuteString x text level s = (case s of (st, w) \<Rightarrow>
     run_bind (Some (skip_start text)) (\<lambda>text.
     run_bind (if dpcompat (expands x) \<and> is_alias text then Some (Inr (text, level))
               else Cmd_ExpandString (expands x) st text (stack_dest x) 65536 level False True True) (\<lambda>(text, level).
     run_bind (Cmd_TokenizeString (dpcompat (expands x)) (find_var x) text
         (level = RESTRICT_LOCAL \<and> \<not> dpcompat (expands x)) False st) (\<lambda>(p, st).
     if Cmd_Argc st = 0 then Some (Inr (st, w)) else act x level (st, w)))))"

section \<open>Running the buffer\<close>

text \<open>
  Where a command ends.  \<open>quotes\<close> is 1 inside simple quotes and 2 inside escaped ones; the byte behind
  a backslash is looked at without a test for the end of the text.
\<close>

function command_end :: "byte list \<Rightarrow> nat \<Rightarrow> nat \<Rightarrow> nat \<Rightarrow> bool \<Rightarrow> nat res" where
  "command_end text n i quotes comment =
     (if \<not> i < n then Inr i
      else if \<not> i < length text then Inl Out_Of_Bounds
      else
        let c = text ! i in
        if c = 10 then Inr i
        else if quotes \<noteq> 0 then
          let quotes = (if c = 0x22 then 0 else quotes) in
          (case (if c = 0x5C \<and> quotes = 2 then rbind (peek text (i + 1)) (\<lambda>d. Inr (d = 0x22 \<or> d = 0x5C)) else Inr False) of
             Inl e \<Rightarrow> Inl e
           | Inr both \<Rightarrow> command_end text n (if both then i + 2 else i + 1) quotes comment)
        else if c = 0x22 then command_end text n (i + 1) 1 comment
        else
          (case (if c = 0x5C then rbind (peek text (i + 1)) (\<lambda>d. Inr (d = 0x22)) else Inr False) of
             Inl e \<Rightarrow> Inl e
           | Inr escaped \<Rightarrow>
               if escaped then command_end text n (i + 2) 2 comment
               else if comment then command_end text n (i + 1) 0 comment
               else
                 (case (if c = 0x2F \<and> i + 1 < n then rbind (peek text (i + 1)) (\<lambda>d. Inr (d = 0x2F)) else Inr False) of
                    Inl e \<Rightarrow> Inl e
                  | Inr slashes \<Rightarrow>
                      if slashes then command_end text n (i + 1) 0 True
                      else if c = 0x3B then Inr i
                      else command_end text n (i + 1) 0 comment)))"
  by pat_completeness auto
termination
  by (relation "measure (\<lambda>(text, n, i, q, c). n - i)") auto

declare command_end.simps [simp del]

definition take_command :: "sizebuf \<Rightarrow> (byte list \<times> sizebuf) res" where
  "take_command buf = rbind (command_end (data buf) (cursize buf) 0 0 False) (\<lambda>i. cut_line i buf)"

text \<open>The waits: whether this level has to wait for another frame, and the level after.\<close>

definition wait_step :: "cbuf_env \<Rightarrow> cmd_level \<Rightarrow> bool \<times> cmd_level" where
  "wait_step env lv =
     (if waitattime lv = realtime env then (True, lv)
      else
        let (held, lv) =
          (if waitmap lv then
             if map_up env \<or> waituntil lv \<le> realtime env then (False, lv\<lparr>waitmap := False, waituntil := 0\<rparr>)
             else (True, lv\<lparr>waitattime := realtime env\<rparr>)
           else (False, lv)) in
        if held then (True, lv)
        else if realtime env < waituntil lv then (True, lv\<lparr>waitattime := realtime env\<rparr>)
        else
          let lv = lv\<lparr>waituntil := 0\<rparr> in
          if 0 < waitframes lv then (True, lv\<lparr>waitframes := waitframes lv - 1, waitattime := realtime env\<rparr>)
          else (False, lv))"

text \<open>\<open>run\<close> executes a line; it may change the level, as commands do.\<close>

partial_function (option) execute_loop ::
  "cbuf_env \<Rightarrow> (byte list \<Rightarrow> 's \<times> cmd_level \<Rightarrow> ('s \<times> cmd_level) run) \<Rightarrow> 's \<times> cmd_level \<Rightarrow> ('s \<times> cmd_level) run" where
  "execute_loop env run s =
     (if cursize (cb_buf (snd s)) = 0 then Some (Inr s)
      else
        (let (held, lv) = wait_step env (snd s) in
         if held then Some (Inr (fst s, lv))
         else
           (case take_command (cb_buf lv) of
              Inl e \<Rightarrow> Some (Inl e)
            | Inr (cmd, b) \<Rightarrow>
                (case run cmd (fst s, lv\<lparr>cb_buf := b\<rparr>) of
                   None \<Rightarrow> None
                 | Some (Inl e) \<Rightarrow> Some (Inl e)
                 | Some (Inr s) \<Rightarrow> execute_loop env run s))))"

definition spent :: "cmd_level \<Rightarrow> cmd_level" where
  "spent lv = (if cursize (cb_buf lv) = 0 then lv\<lparr>waitframes := 0, waituntil := 0, waitmap := False\<rparr> else lv)"

definition Cbuf_ExecuteLevel ::
  "cbuf_env \<Rightarrow> ('w \<times> cmd_level) executor \<Rightarrow> int \<Rightarrow> cmd_state \<times> 'w \<times> cmd_level \<Rightarrow> (cmd_state \<times> 'w \<times> cmd_level) run" where
  "Cbuf_ExecuteLevel env x level s = (case s of (st, w, lv) \<Rightarrow>
     run_bind (execute_loop env
         (\<lambda>cmd ((st, w), lv). run_bind (Cmd_ExecuteString x cmd level (st, w, lv)) (\<lambda>(st, w, lv). Some (Inr ((st, w), lv))))
         ((st, w), lv))
       (\<lambda>((st, w), lv). Some (Inr (st, w, spent lv))))"

section \<open>Waiting\<close>

text \<open>The levels \<open>Cbuf_Init\<close> sets; the ones behind keep the zeros of static storage.\<close>

definition Cbuf_Init :: "cmd_level list \<Rightarrow> cmd_level list" where
  "Cbuf_Init cmd_text =
     map (\<lambda>lv. lv\<lparr>waitattime := -1, waitframes := 0, waituntil := 0, waitmap := False\<rparr>) (take (nat (RESTRICT_LOCAL + 2)) cmd_text) @
     drop (nat (RESTRICT_LOCAL + 2)) cmd_text"

definition Cbuf_Waited :: "cmd_level list \<Rightarrow> cmd_level list res" where
  "Cbuf_Waited cmd_text =
     rbind (peek cmd_text (nat RESTRICT_LOCAL)) (\<lambda>lv. poke (nat RESTRICT_LOCAL) (lv\<lparr>waitattime := 0\<rparr>) cmd_text)"

text \<open>\<open>Cmd_Wait_f\<close> on the level that runs: \<open>cmd_blockwait\<close>, \<open>cmd_didwait\<close>, \<open>atoi\<close> as \<open>strtol\<close> in base 10.\<close>

definition Cmd_Wait_f :: "cbuf_env \<Rightarrow> bool \<Rightarrow> cmd_state \<Rightarrow> bool \<times> cmd_level \<Rightarrow> (bool \<times> cmd_level) res" where
  "Cmd_Wait_f env cmd_blockwait st s = (case s of (didwait, lv) \<Rightarrow>
     if cmd_blockwait then Inr (didwait, lv)
     else
       let lv = lv\<lparr>waitattime := realtime env\<rparr> in
       if 1 < Cmd_Argc st then
         rbind (Cmd_Argv st 1) (\<lambda>a.
         let n = fst (strtol10 a) in
         if 1 < n then Inr (True, lv\<lparr>waitframes := (if 100000 < n then 100000 else n) - 1\<rparr>) else Inr (True, lv))
       else Inr (True, lv))"

end
