(* ===== verification/CbufProps.thy ===== *)
theory CbufProps
  imports Cbuf
begin

text \<open>
  What the command buffer does: text is added at its end or put in front, lines of quoted arguments are
  run one by one with exactly their arguments; where quoting, cutting and expanding fail.
\<close>

section \<open>Text in a buffer\<close>

definition holds_text :: "byte list \<Rightarrow> sizebuf \<Rightarrow> bool" where
  "holds_text t buf \<longleftrightarrow> length (data buf) = maxsize buf \<and> cursize buf = length t \<and> take (length t) (data buf) = t"

lemma holds_text_iff: "holds_text t buf \<longleftrightarrow>
    cursize buf = length t \<and> length (data buf) = maxsize buf \<and> (\<exists>r. data buf = t @ r)"
  unfolding holds_text_def by (metis append_eq_conv_conj append_take_drop_id)

lemma double_until_ge: "0 < m \<Longrightarrow> n \<le> double_until n m \<and> m \<le> double_until n m"
proof (induction n m rule: double_until.induct)
  case (1 n m)
  then show ?case by (subst (1 2) double_until.simps) auto
qed

definition sane_env :: "cbuf_env \<Rightarrow> bool" where
  "sane_env env \<longleftrightarrow> (\<forall>n. length (heap env n) = n)"

lemma write_room: "holds_text t buf \<Longrightarrow> length t + length u \<le> maxsize buf \<Longrightarrow>
    \<exists>buf'. SZ_Write buf u = Inr buf' \<and> holds_text (t @ u) buf' \<and> maxsize buf' = maxsize buf"
  by (auto simp: holds_text_iff SZ_Write_def SZ_GetSpace_def sz_puts_def pokes_Inr)

text \<open>The code makes room for \<open>n\<close> bytes if there is no limit, the storage is there, or the limit is twice that.\<close>

definition fits :: "cbuf_env \<Rightarrow> nat \<Rightarrow> sizebuf \<Rightarrow> bool" where
  "fits env n buf \<longleftrightarrow> cmd_maxbuffersize env = 0 \<or> n < maxsize (first_block env buf) \<or> int (2 * n) \<le> cmd_maxbuffersize env"

lemma first_block_holds: "sane_env env \<Longrightarrow> holds_text t buf \<Longrightarrow>
    holds_text t (first_block env buf) \<and> 0 < maxsize (first_block env buf) \<and>
    first_block env (first_block env buf) = first_block env buf"
  by (auto simp: first_block_def holds_text_def sane_env_def)

lemma realloc_holds: "sane_env env \<Longrightarrow> holds_text t buf \<Longrightarrow> maxsize buf \<le> n \<Longrightarrow>
    holds_text t (realloc env n buf) \<and> maxsize (realloc env n buf) = n"
  by (auto simp: realloc_def holds_text_iff sane_env_def)

lemma add_text_room:
  assumes "sane_env env" and "holds_text t buf" and "fits env (length t + length u) buf"
  shows "\<exists>buf'. add_text env u buf = Inr buf' \<and> holds_text (t @ u) buf' \<and>
    maxsize (first_block env buf) \<le> maxsize buf' \<and> 0 < maxsize buf'"
proof -
  let ?b = "first_block env buf"
  have b: "holds_text t ?b" "0 < maxsize ?b" using first_block_holds [OF assms(1,2)] by auto
  then have c: "cursize ?b = length t" by (simp add: holds_text_def)
  show ?thesis
  proof (cases "maxsize ?b \<le> length t + length u")
    case False
    then show ?thesis using write_room [OF b(1), of u] b(2) c by (auto simp: add_text_def Let_def)
  next
    case True
    let ?n = "double_until (length t + length u) (maxsize ?b * 2)"
    have n: "length t + length u \<le> ?n" "maxsize ?b \<le> ?n"
      using double_until_ge [of "maxsize ?b * 2" "length t + length u"] b(2) by auto
    then have "holds_text t (realloc env ?n ?b) \<and> maxsize (realloc env ?n ?b) = ?n"
      by (intro realloc_holds assms(1) b(1))
    then show ?thesis
      using write_room [of t "realloc env ?n ?b" u] True n b(2) c assms(3) by (auto simp: add_text_def Let_def fits_def)
  qed
qed

lemma fits_mono: "fits env n buf \<Longrightarrow> m \<le> n \<Longrightarrow> fits env m buf"
  by (auto simp: fits_def)

lemma fits_grown: "fits env n buf \<Longrightarrow> maxsize (first_block env buf) \<le> maxsize buf' \<Longrightarrow> 0 < maxsize buf' \<Longrightarrow> fits env n buf'"
  by (auto simp: fits_def first_block_def)

lemma insert_text_room:
  assumes "sane_env env" and "holds_text t buf" and "0 \<notin> set t"
    and "fits env (length u + of_bool nl + length t) buf"
  shows "\<exists>buf'. insert_text env u nl buf = Inr buf' \<and>
    holds_text (u @ (if nl then [10] else []) @ t) buf'"
proof -
  have off: "copy_off buf = Inr t" using assms(2) by (auto simp: copy_off_def holds_text_iff)
  have t: "takeWhile (\<lambda>c. c \<noteq> 0) t = t" using assms(3) by (auto simp: takeWhile_eq_all_conv)
  let ?b = "if t \<noteq> [] then SZ_Clear buf else buf" and ?n = "length u + of_bool nl + length t"
  have b: "holds_text [] ?b" "fits env ?n ?b"
    using assms(2,4) by (auto simp: SZ_Clear_def holds_text_def fits_def first_block_def)
  obtain b1 where b1: "add_text env u ?b = Inr b1" "holds_text u b1"
    "maxsize (first_block env ?b) \<le> maxsize b1" "0 < maxsize b1"
    using add_text_room [OF assms(1) b(1), of u] b(2) fits_mono [of env ?n ?b "length u"] by auto
  have r1: "fits env ?n b1" using fits_grown [OF b(2) b1(3,4)] .
  obtain b2 where b2: "(if nl then add_text env [10] b1 else Inr b1) = Inr b2"
    "holds_text (u @ (if nl then [10] else [])) b2" "fits env ?n b2"
  proof (cases nl)
    case True
    obtain b2 where "add_text env [10] b1 = Inr b2" "holds_text (u @ [10]) b2"
      "maxsize (first_block env b1) \<le> maxsize b2" "0 < maxsize b2"
      using add_text_room [OF assms(1) b1(2), of "[10]"] r1 True fits_mono [of env ?n b1 "length u + 1"] by auto
    then show ?thesis using that True r1 fits_grown [of env ?n b1 b2] by auto
  qed (use b1 r1 that in auto)
  obtain b3 where "(if t \<noteq> [] then add_text env t b2 else Inr b2) = Inr b3"
    "holds_text ((u @ (if nl then [10] else [])) @ t) b3"
  proof (cases "t = []")
    case False
    then show ?thesis
      using that add_text_room [OF assms(1) b2(2), of t] b2(3) by (auto simp: of_bool_def split: if_splits)
  qed (use b2 that in auto)
  then show ?thesis using b1(1) b2(1) by (auto simp: insert_text_def off t)
qed

lemma at_level_eq:
  assumes "nat level < length cmd_text" and "0 \<le> level" and "f (cb_buf (cmd_text ! nat level)) = Inr b"
  shows "at_level level (on_buf f) cmd_text = Inr (cmd_text[nat level := (cmd_text ! nat level)\<lparr>cb_buf := b\<rparr>])"
  using assms by (auto simp: at_level_def on_buf_def)

text \<open>
  C20: with room for it, \<open>Cbuf_AddText\<close> puts a text behind what the level holds and \<open>Cbuf_InsertText\<close> puts
  it in front, with a newline between them if asked, also when the storage has to grow; nothing of the
  old text is lost and no other level changes.
\<close>

theorem Cbuf_adds:
  assumes "sane_env env" and "0 \<le> level" and "nat level < length cmd_text"
    and "holds_text t (cb_buf (cmd_text ! nat level))" and "0 \<notin> set t"
    and "fits env (length u + 1 + length t) (cb_buf (cmd_text ! nat level))"
  shows "\<exists>b b'. Cbuf_AddText env u level cmd_text = Inr (cmd_text[nat level := (cmd_text ! nat level)\<lparr>cb_buf := b\<rparr>]) \<and>
    holds_text (t @ u) b \<and>
    Cbuf_InsertText env u level nl cmd_text = Inr (cmd_text[nat level := (cmd_text ! nat level)\<lparr>cb_buf := b'\<rparr>]) \<and>
    holds_text (u @ (if nl then [10] else []) @ t) b'"
proof -
  let ?buf = "cb_buf (cmd_text ! nat level)"
  obtain b where b: "add_text env u ?buf = Inr b" "holds_text (t @ u) b"
    using add_text_room [OF assms(1,4), of u] fits_mono [OF assms(6), of "length t + length u"] by auto
  have "fits env (length u + of_bool nl + length t) ?buf" by (rule fits_mono [OF assms(6)]) simp
  then obtain b' where b': "insert_text env u nl ?buf = Inr b'" "holds_text (u @ (if nl then [10] else []) @ t) b'"
    using insert_text_room [OF assms(1,4,5)] by blast
  show ?thesis
    unfolding Cbuf_AddText_def Cbuf_InsertText_def
    using at_level_eq [OF assms(3,2), of "add_text env u" b] at_level_eq [OF assms(3,2), of "insert_text env u nl" b'] b b'
    by blast
qed

section \<open>Where a command ends\<close>

lemma end_simple:
  assumes "10 \<notin> set s" and "0x22 \<notin> set s" and "length (pre @ s) < n" and "n \<le> length (pre @ s @ rest)"
  shows "command_end (pre @ s @ rest) n (length pre) 1 comment = command_end (pre @ s @ rest) n (length (pre @ s)) 1 comment"
  using assms
proof (induction s arbitrary: pre)
  case (Cons c s)
  have "command_end (pre @ (c # s) @ rest) n (length pre) 1 comment = command_end (pre @ (c # s) @ rest) n (length (pre @ [c])) 1 comment"
    using Cons.prems by (subst command_end.simps) (simp add: nth_append)
  then show ?case using Cons.IH [of "pre @ [c]"] Cons.prems by simp
qed simp

lemma end_escaped:
  assumes "length (pre @ concat (map esc_bytes s)) < n" and "n \<le> length (pre @ concat (map esc_bytes s) @ rest)"
  shows "command_end (pre @ concat (map esc_bytes s) @ rest) n (length pre) 2 comment =
    command_end (pre @ concat (map esc_bytes s) @ rest) n (length (pre @ concat (map esc_bytes s))) 2 comment"
  using assms
proof (induction s arbitrary: pre)
  case (Cons c s)
  let ?t = "pre @ concat (map esc_bytes (c # s)) @ rest"
  have step: "command_end ?t n (length pre) 2 comment = command_end ?t n (length (pre @ esc_bytes c)) 2 comment"
  proof (cases "esc_letter c")
    case None
    then have "c \<noteq> 10 \<and> c \<noteq> 0x22 \<and> c \<noteq> 0x5C" by (auto simp: esc_letter_def split: if_splits)
    then show ?thesis
      using Cons.prems None by (subst command_end.simps) (simp add: nth_append esc_bytes_def)
  next
    case (Some e)
    show ?thesis
    proof (cases "e = 0x22 \<or> e = 0x5C")
      case True
      then show ?thesis
        using Cons.prems Some by (subst command_end.simps) (auto simp: nth_append esc_bytes_def)
    next
      case False
      moreover have "e \<noteq> 10" using Some by (auto simp: esc_letter_def split: if_splits)
      ultimately show ?thesis
        using Cons.prems Some
        by (subst command_end.simps, simp add: nth_append esc_bytes_def)
          (subst command_end.simps, simp add: nth_append esc_bytes_def)
    qed
  qed
  then show ?case using Cons.IH [of "pre @ esc_bytes c"] Cons.prems by simp
qed simp

lemma end_quoted:
  assumes "length (pre @ quoted False a) \<le> n" and "n \<le> length (pre @ quoted False a @ rest)"
  shows "command_end (pre @ quoted False a @ rest) n (length pre) 0 False =
    command_end (pre @ quoted False a @ rest) n (length (pre @ quoted False a)) 0 False"
proof (cases "c_style False a")
  case True
  let ?e = "concat (map esc_bytes a)" and ?q = "[0x5C, 0x22] :: byte list"
  let ?t = "pre @ ?q @ ?e @ [0x22] @ rest"
  have "command_end ?t n (length pre) 0 False = command_end ?t n (length (pre @ ?q)) 2 False"
    using assms True by (subst command_end.simps) (simp add: nth_append quoted_def)
  also have "\<dots> = command_end ?t n (length (pre @ ?q @ ?e)) 2 False"
    using end_escaped [of "pre @ ?q" a n "[0x22] @ rest" False] assms True by (simp add: quoted_def)
  also have "\<dots> = command_end ?t n (length (pre @ ?q @ ?e @ [0x22])) 0 False"
    using assms True by (subst command_end.simps) (simp add: nth_append quoted_def)
  finally show ?thesis using True by (simp add: quoted_def)
next
  case False
  then have a: "10 \<notin> set a" "0x22 \<notin> set a" by (auto simp: c_style_def)
  let ?t = "pre @ [0x22] @ a @ [0x22] @ rest"
  have "command_end ?t n (length pre) 0 False = command_end ?t n (length (pre @ [0x22])) 1 False"
    using assms False by (subst command_end.simps) (simp add: nth_append quoted_def)
  also have "\<dots> = command_end ?t n (length (pre @ [0x22] @ a)) 1 False"
    using end_simple [of a "pre @ [0x22]" n "[0x22] @ rest" False] assms False a by (simp add: quoted_def)
  also have "\<dots> = command_end ?t n (length (pre @ [0x22] @ a @ [0x22])) 0 False"
    using assms False by (subst command_end.simps) (simp add: nth_append quoted_def)
  finally show ?thesis using False by (simp add: quoted_def)
qed

lemma end_args:
  assumes "\<forall>a \<in> set args. arg_ok a" and "length (pre @ line False args) \<le> n"
    and "n \<le> length (pre @ line False args @ rest)"
  shows "command_end (pre @ line False args @ rest) n (length pre) 0 False =
    command_end (pre @ line False args @ rest) n (length (pre @ line False args)) 0 False"
  using assms
proof (induction args arbitrary: pre)
  case (Cons a args)
  let ?q = "quoted False a" and ?l = "32 # line False args"
  let ?t = "pre @ ?q @ ?l @ rest"
  have q: "quote_arg False a = ?q" using Cons.prems(1) by (simp add: quote_arg_eq)
  have "command_end ?t n (length pre) 0 False = command_end ?t n (length (pre @ ?q)) 0 False"
    using end_quoted [of pre a n "?l @ rest"] Cons.prems(2,3) q by simp
  also have "\<dots> = command_end ?t n (length (pre @ ?q @ [32])) 0 False"
    using Cons.prems(2,3) q by (subst command_end.simps) (simp add: nth_append)
  also have "\<dots> = command_end ?t n (length (pre @ ?q @ ?l)) 0 False"
    using Cons.IH [of "pre @ ?q @ [32]"] Cons.prems q by simp
  finally show ?case using q by simp
qed simp

definition ends_command :: "byte \<Rightarrow> bool" where
  "ends_command c \<longleftrightarrow> c = 10 \<or> c = 0x3B"

lemma take_at:
  assumes "holds_text (p @ c # t) buf" and "command_end (data buf) (cursize buf) 0 0 False = Inr (length p)"
  shows "\<exists>buf'. take_command buf = Inr (p @ [0], buf') \<and> holds_text t buf'"
  using assms by (auto simp: take_command_def cut_line_def remove_front_def holds_text_iff Let_def)

lemma take_line:
  assumes "\<forall>a \<in> set args. arg_ok a" and "ends_command c" and "holds_text (line False args @ c # t) buf"
  shows "\<exists>buf'. take_command buf = Inr (line False args @ [0], buf') \<and> holds_text t buf'"
proof -
  obtain r where r: "data buf = line False args @ c # t @ r" and l: "cursize buf = Suc (length (line False args) + length t)"
    "length (data buf) = maxsize buf"
    using assms(3) by (auto simp: holds_text_iff)
  let ?d = "line False args @ c # t @ r" and ?n = "Suc (length (line False args) + length t)"
  have "command_end (data buf) (cursize buf) 0 0 False = command_end (data buf) (cursize buf) (length (line False args)) 0 False"
    using end_args [OF assms(1), of "[]" ?n "c # t @ r"] r l by simp
  also have "\<dots> = Inr (length (line False args))"
    using assms(2) r l by (subst command_end.simps) (auto simp: nth_append ends_command_def)
  finally show ?thesis by (rule take_at [OF assms(3)])
qed

section \<open>Text that expansion leaves alone\<close>

text \<open>No dollar sign stands behind an even number of quotes.\<close>

fun dollar_ok :: "bool \<Rightarrow> byte list \<Rightarrow> bool" where
  "dollar_ok ev [] = True"
| "dollar_ok ev (c # r) =
     (let ev = (if c = 0x22 then \<not> ev else ev) in c \<noteq> 0 \<and> (c = 0x24 \<longrightarrow> \<not> ev) \<and> dollar_ok ev r)"

lemma expand_prefix:
  assumes "dollar_ok (even q) s" and "len + length s < destlen - 1" and "length dest = destlen"
    and "\<not> (dpcompat ex \<and> 0x24 \<in> set s)"
  shows "\<exists>q'. expand_loop ex st maxlevel False macros destlen (s @ r) q len dest level =
      expand_loop ex st maxlevel False macros destlen r q' (len + length s)
        (take len dest @ s @ drop (len + length s) dest) level \<and> (0x22 \<notin> set s \<longrightarrow> q' = q)"
  using assms
proof (induction s arbitrary: q len dest)
  case (Cons c s)
  let ?q = "if c = 0x22 then q + 1 else q"
  have c: "c \<noteq> 0" "c = 0x24 \<Longrightarrow> odd q" "dollar_ok (even ?q) s"
    using Cons.prems(1) by (auto simp: Let_def split: if_splits)
  have "expand_loop ex st maxlevel False macros destlen ((c # s) @ r) q len dest level =
      expand_loop ex st maxlevel False macros destlen (s @ r) ?q (len + 1) (dest[len := c]) level"
    using Cons.prems c by (subst expand_loop.simps) auto
  moreover obtain q' where "expand_loop ex st maxlevel False macros destlen (s @ r) ?q (len + 1) (dest[len := c]) level =
      expand_loop ex st maxlevel False macros destlen r q' (len + 1 + length s)
        (take (len + 1) (dest[len := c]) @ s @ drop (len + 1 + length s) (dest[len := c])) level"
    "0x22 \<notin> set s \<longrightarrow> q' = ?q"
    using Cons.IH [of ?q "len + 1" "dest[len := c]"] Cons.prems c(3) by auto
  ultimately show ?case
    using splice_step [of len "length s" dest c s] Cons.prems(2,3) by (intro exI [of _ q']) auto
qed auto

lemma expand_copy:
  assumes "dollar_ok (even q) s" and "len + length s < destlen - 1" and "length dest = destlen" and "\<not> dpcompat ex"
  shows "expand_loop ex st maxlevel False macros destlen (s @ 0 # r) q len dest level =
    Some (Inr (len + length s, take len dest @ s @ drop (len + length s) dest, level))"
  using expand_prefix [OF assms(1-3), of ex st maxlevel macros "0 # r" level] assms(4)
  by (auto simp: expand_loop.simps [of ex st maxlevel False macros destlen "0 # r"])

lemma ExpandString_same:
  assumes "dollar_ok True s" and "length s < destlen - 1" and "length dest = destlen" and "\<not> dpcompat ex"
    and "s \<noteq> [] \<Longrightarrow> last s \<noteq> 13"
  shows "\<exists>r. Cmd_ExpandString ex st (s @ [0]) dest destlen level False cvars macros = Some (Inr (s @ 0 # r, level))"
proof -
  have l: "length s < length dest" using assms(2,3) by simp
  then have "drop (length s) dest = dest ! length s # drop (Suc (length s)) dest" by (simp add: Cons_nth_drop_Suc)
  then have "(s @ drop (length s) dest)[length s := 0] = s @ 0 # drop (Suc (length s)) dest"
    by (simp add: list_update_append)
  moreover have "\<not> (s \<noteq> [] \<and> (s @ 0 # drop (Suc (length s)) dest) ! (length s - 1) = 13)"
    using assms(5) by (auto simp: nth_append last_conv_nth)
  ultimately show ?thesis
    using expand_copy [of 0 s 0 destlen dest ex st "if cvars then level else -999" macros "[]" level] assms l
    by (auto simp: Cmd_ExpandString_def)
qed

text \<open>Either no argument has a dollar sign or none has a quote.\<close>

definition plain_args :: "byte list list \<Rightarrow> bool" where
  "plain_args args \<longleftrightarrow> (\<forall>a \<in> set args. 0x24 \<notin> set a) \<or> (\<forall>a \<in> set args. 0x22 \<notin> set a)"

lemma dollar_ok_none: "0 \<notin> set s \<Longrightarrow> 0x24 \<notin> set s \<Longrightarrow> dollar_ok ev s"
  by (induction s arbitrary: ev) (auto simp: Let_def)

lemma dollar_ok_inside: "0 \<notin> set s \<Longrightarrow> 0x22 \<notin> set s \<Longrightarrow> dollar_ok False (s @ t) = dollar_ok False t"
  by (induction s) (auto simp: Let_def)

lemma quoted_bytes: "arg_ok a \<Longrightarrow> 0 \<notin> set (quoted False a)"
    "arg_ok a \<Longrightarrow> 0x24 \<notin> set a \<Longrightarrow> 0x24 \<notin> set (quoted False a)"
    "arg_ok a \<Longrightarrow> 0x22 \<notin> set a \<Longrightarrow> 0 \<notin> set (concat (map esc_bytes a)) \<and> 0x22 \<notin> set (concat (map esc_bytes a))"
  by (auto simp: quoted_def arg_ok_def esc_bytes_def esc_letter_def split: option.splits if_splits)

lemma dollar_ok_quoted: "arg_ok a \<Longrightarrow> 0x22 \<notin> set a \<Longrightarrow> dollar_ok True (quoted False a @ t) = dollar_ok True t"
  using quoted_bytes(3) [of a] dollar_ok_inside [of a "0x22 # t"] dollar_ok_inside [of "concat (map esc_bytes a)" "0x22 # t"]
  by (auto simp: quoted_def arg_ok_def)

lemma dollar_ok_line:
  assumes "\<forall>a \<in> set args. arg_ok a" and "plain_args args"
  shows "dollar_ok True (line False args)"
proof (cases "\<forall>a \<in> set args. 0x24 \<notin> set a")
  case True
  then have "0 \<notin> set (line False args) \<and> 0x24 \<notin> set (line False args)"
    using assms(1) by (induction args) (auto simp: quote_arg_eq quoted_bytes)
  then show ?thesis using dollar_ok_none by blast
next
  case False
  then have "\<forall>a \<in> set args. 0x22 \<notin> set a" using assms(2) unfolding plain_args_def by blast
  then show ?thesis using assms(1)
    by (induction args) (simp_all add: quote_arg_eq dollar_ok_quoted)
qed

section \<open>Running lines\<close>

text \<open>
  Commands the buffer can carry: not empty, at most 80 arguments, and the line fits the array it is
  expanded into.
\<close>

definition cmd_ok :: "byte list list \<Rightarrow> bool" where
  "cmd_ok args \<longleftrightarrow> args \<noteq> [] \<and> length args \<le> MAX_ARGS \<and> (\<forall>a \<in> set args. arg_ok a \<and> a \<noteq> [10]) \<and>
     length (line False args) < TOKENSIZE - 1 \<and> plain_args args"

text \<open>A command that does \<open>f\<close> with its arguments, leaves the buffer alone and keeps the token's storage.\<close>

definition does :: "('w \<times> cmd_level) executor \<Rightarrow> int \<Rightarrow> (byte list list \<Rightarrow> 'w \<Rightarrow> 'w) \<Rightarrow> bool" where
  "does x level f \<longleftrightarrow> (\<forall>st w lv. length (com_token st) = TOKENSIZE \<longrightarrow>
     (\<exists>st'. act x level (st, w, lv) = Some (Inr (st', f (cmd_argv st) w, lv)) \<and> length (com_token st') = TOKENSIZE))"

definition plain_console :: "('w \<times> cmd_level) executor \<Rightarrow> bool" where
  "plain_console x \<longleftrightarrow> \<not> dpcompat (expands x) \<and> length (stack_dest x) = TOKENSIZE"

lemma skip_start_line:
  "cmd_ok args \<Longrightarrow> skip_start (line False args @ r) = Inr (line False args @ r)"
proof (cases args)
  case (Cons a as)
  assume "cmd_ok args"
  moreover obtain c q where "quoted False a = c # q" "\<not> c \<le> 32" using quoted_first by blast
  ultimately show ?thesis by (auto simp: Cons cmd_ok_def quote_arg_eq)
qed (simp add: cmd_ok_def)

lemma ExecuteString_line:
  assumes "cmd_ok args" and "does x level f" and "plain_console x" and "length (com_token st) = TOKENSIZE"
  shows "\<exists>st'. Cmd_ExecuteString x (line False args @ [0]) level (st, w, lv) = Some (Inr (st', f args w, lv)) \<and>
    length (com_token st') = TOKENSIZE"
proof -
  note ok = assms(1) [unfolded cmd_ok_def]
  obtain q where q: "line False args = q @ [32]" using line_end ok by blast
  have "dollar_ok True (line False args)" using ok by (intro dollar_ok_line) auto
  then obtain r where e: "Cmd_ExpandString (expands x) st (line False args @ [0]) (stack_dest x) 65536 level False True True =
      Some (Inr (line False args @ 0 # r, level))"
    using ExpandString_same [of "line False args" 65536 "stack_dest x" "expands x" st level True True] ok q assms(3)
    by (auto simp: plain_console_def TOKENSIZE_def)
  obtain st1 where t: "Cmd_TokenizeString False (find_var x) (line False args @ 0 # r) (level = RESTRICT_LOCAL) False st =
      Some (Inr (Some (0 # r), st1))" and h: "holds_args False args st1"
    using tokenize_quoted [of args st False "find_var x" r "level = RESTRICT_LOCAL" False] ok assms(4) by blast
  then have a: "cmd_argv st1 = args" "length (com_token st1) = TOKENSIZE" by (simp_all add: holds_args_def)
  obtain st2 where "act x level (st1, w, lv) = Some (Inr (st2, f args w, lv))" "length (com_token st2) = TOKENSIZE"
    using assms(2) a unfolding does_def by blast
  moreover have "Cmd_Argc st1 \<noteq> 0" using a ok by (simp add: Cmd_Argc_def)
  ultimately show ?thesis
    using assms(3) e t by (simp add: Cmd_ExecuteString_def skip_start_line [OF assms(1)] plain_console_def)
qed

text \<open>The text of a script, each command with what ends it.\<close>

definition script :: "(byte list list \<times> byte) list \<Rightarrow> byte list" where
  "script cmds = concat (map (\<lambda>(args, c). line False args @ [c]) cmds)"

lemma script_simps [simp]: "script [] = []" "script ((args, c) # cmds) = line False args @ c # script cmds"
  by (simp_all add: script_def)

definition ready :: "cbuf_env \<Rightarrow> cmd_level \<Rightarrow> bool" where
  "ready env lv \<longleftrightarrow> waitattime lv \<noteq> realtime env \<and> \<not> waitmap lv \<and> waituntil lv \<le> realtime env \<and>
     waitframes lv \<le> 0 \<and> 0 \<le> realtime env"

lemma wait_ready: "ready env lv \<Longrightarrow> wait_step env lv = (False, lv\<lparr>waituntil := 0\<rparr>)"
  by (simp add: ready_def wait_step_def Let_def)

lemma ready_next: "ready env lv \<Longrightarrow> ready env (lv\<lparr>waituntil := 0, cb_buf := b\<rparr>)"
  by (simp add: ready_def)

lemma execute_script:
  fixes x :: "('w \<times> cmd_level) executor" and level :: int
  defines "run \<equiv> \<lambda>cmd ((st, w), lv). run_bind (Cmd_ExecuteString x cmd level (st, w, lv)) (\<lambda>(st, w, lv). Some (Inr ((st, w), lv)))"
  assumes "\<forall>(args, c) \<in> set cmds. cmd_ok args \<and> ends_command c" and "does x level f" and "plain_console x"
    and "length (com_token st) = TOKENSIZE" and "ready env lv" and "holds_text (script cmds) (cb_buf lv)"
  shows "\<exists>st' lv'. execute_loop env run ((st, w), lv) = Some (Inr ((st', fold (\<lambda>(args, c). f args) cmds w), lv')) \<and>
    holds_text [] (cb_buf lv')"
  using assms(2,5-)
proof (induction cmds arbitrary: st w lv)
  case Nil
  then show ?case by (subst execute_loop.simps) (auto simp: holds_text_def)
next
  case (Cons p cmds)
  obtain args c where p: "p = (args, c)" by fastforce
  have ok: "cmd_ok args" "ends_command c" using Cons.prems(1) p by auto
  obtain b where b: "take_command (cb_buf lv) = Inr (line False args @ [0], b)" "holds_text (script cmds) b"
    using take_line [of args c "script cmds" "cb_buf lv"] ok Cons.prems(4) p by (auto simp: cmd_ok_def)
  let ?lv = "lv\<lparr>waituntil := 0, cb_buf := b\<rparr>"
  obtain st1 where e: "Cmd_ExecuteString x (line False args @ [0]) level (st, w, ?lv) = Some (Inr (st1, f args w, ?lv))"
    "length (com_token st1) = TOKENSIZE"
    using ExecuteString_line [OF ok(1) assms(3,4) Cons.prems(2), of w ?lv] by blast
  have "cursize (cb_buf lv) \<noteq> 0" using Cons.prems(4) p by (auto simp: holds_text_def)
  then have "execute_loop env run ((st, w), lv) = execute_loop env run ((st1, f args w), ?lv)"
    using b(1) e(1) by (subst execute_loop.simps) (simp add: wait_ready [OF Cons.prems(3)] run_def)
  moreover obtain st' lv' where "execute_loop env run ((st1, f args w), ?lv) =
      Some (Inr ((st', fold (\<lambda>(args, c). f args) cmds (f args w)), lv'))" "holds_text [] (cb_buf lv')"
    using Cons.IH [of st1 ?lv "f args w"] Cons.prems(1) e(2) b(2) ready_next [OF Cons.prems(3)] by auto
  ultimately show ?case using p by auto
qed

text \<open>
  C19: a script of commands whose arguments are quoted with \<open>COM_QuotedString\<close>, ended by newlines or
  semicolons and held by a level that waits for nothing, is executed completely: \<open>Cbuf_ExecuteLevel\<close>
  returns, each command has been run once, in order, with exactly its arguments, whatever they contain
  (newlines, semicolons, comments and dollar signs too), and the level is empty.  The console is not in
  DarkPlaces mode, each line fits, and no line mixes dollar signs with quotes.
\<close>

theorem ExecuteLevel_script:
  assumes "\<forall>(args, c) \<in> set cmds. cmd_ok args \<and> ends_command c" and "does x level f" and "plain_console x"
    and "length (com_token st) = TOKENSIZE" and "ready env lv" and "holds_text (script cmds) (cb_buf lv)"
  shows "\<exists>st' lv'. Cbuf_ExecuteLevel env x level (st, w, lv) =
      Some (Inr (st', fold (\<lambda>(args, c). f args) cmds w, lv')) \<and> holds_text [] (cb_buf lv')"
  using execute_script [OF assms, of w] by (auto simp: Cbuf_ExecuteLevel_def spent_def)

section \<open>Names too long\<close>

text \<open>Bytes that belong to a name behind a dollar sign, whatever stands before them.\<close>

definition name_bytes :: "byte list \<Rightarrow> bool" where
  "name_bytes s \<longleftrightarrow> (\<forall>c \<in> set s. 32 < c \<and> c \<noteq> 0x24)"

lemma plain_name_overruns:
  assumes "name_bytes s" and "length buf \<le> i + length s" and "s \<noteq> []"
  shows "plain_name ex maxlevel macros strip (s @ r) i buf best level = Inl Out_Of_Bounds"
  using assms
proof (induction s arbitrary: i buf best level)
  case (Cons c s)
  have c: "\<not> (c = 0 \<or> c < 32 \<or> c = 0x24)" "c \<noteq> 32" using Cons.prems(1) by (auto simp: name_bytes_def)
  show ?case
  proof (cases "i + 1 < length buf")
    case False
    then show ?thesis using c by (cases "i < length buf") (simp_all add: poke_def)
  next
    case True
    then have "s \<noteq> []" using Cons.prems(2) by auto
    then have "plain_name ex maxlevel macros strip (s @ r) (i + 1) (buf[i := c, i + 1 := 0]) b l = Inl Out_Of_Bounds" for b l
      using Cons.IH [of "buf[i := c, i + 1 := 0]" "i + 1"] Cons.prems by (simp add: name_bytes_def)
    then show ?thesis using c True by (simp add: split_def Let_def)
  qed
qed simp

lemma dollar_overruns:
  assumes "name_bytes s" and "length (name_buf ex) \<le> length s" and "2 \<le> length (name_buf ex)" and "hd s \<noteq> 0x7B"
  shows "dollar ex maxlevel macros (s @ r) level = Inl Out_Of_Bounds"
proof -
  obtain c s' where s: "s = c # s'" using assms(2,3) by (cases s) auto
  then have "c \<noteq> 0x24" "c \<noteq> 0x7B" using assms(1,4) by (auto simp: name_bytes_def)
  moreover let ?buf = "(name_buf ex)[0 := 0, 1 := 0]"
  have "pokes 0 [0, 0] (name_buf ex) = Inr ?buf"
    using assms(3) length_greater_0_conv [of "name_buf ex"] by (cases "name_buf ex") (auto simp: poke_def)
  moreover have "plain_name ex maxlevel macros strip (c # s' @ r) 0 ?buf None level = Inl Out_Of_Bounds" for strip
    using plain_name_overruns [OF assms(1), of ?buf 0 ex maxlevel macros strip r None level] assms(2) s by simp
  ultimately show ?thesis by (simp add: dollar_def s del: pokes.simps plain_name.simps)
qed

text \<open>
  C23: a dollar sign with 255 or more bytes behind it that may stand in a name overflows the array
  \<open>Cmd_ExpandString\<close> collects the name in, whatever the variables and macros of the console are; every
  line that gets executed is expanded.
\<close>

theorem long_name_overflows:
  assumes "length (name_buf (expands x)) = 255" and "length (stack_dest x) = 65536"
    and "name_bytes s" and "255 \<le> length s" and "hd s \<noteq> 0x7B"
    and "set pre \<inter> {0, 0x22, 0x24} = {}" and "pre \<noteq> []" and "hd pre \<notin> {32, 10}" and "length pre < 65535"
    and "\<not> (dpcompat (expands x) \<and> is_alias (pre @ 0x24 # s @ r))"
  shows "Cmd_ExecuteString x (pre @ 0x24 # s @ r) level (st, w) = Some (Inl Out_Of_Bounds)"
proof -
  let ?text = "pre @ 0x24 # s @ r"
  have "dollar_ok True pre" using assms(6) by (intro dollar_ok_none) auto
  then obtain dest where "expand_loop (expands x) st level False True 65536 ?text 0 0 (stack_dest x) level =
      expand_loop (expands x) st level False True 65536 (0x24 # s @ r) 0 (length pre) dest level"
    using expand_prefix [of 0 pre 0 65536 "stack_dest x" "expands x" st level True "0x24 # s @ r" level]
      assms(2,6,9) by auto
  moreover have "dollar (expands x) level True (s @ r) level = Inl Out_Of_Bounds"
    using assms(1,3-5) by (intro dollar_overruns) auto
  ultimately have "Cmd_ExpandString (expands x) st ?text (stack_dest x) 65536 level False True True = Some (Inl Out_Of_Bounds)"
    by (simp add: Cmd_ExpandString_def expand_loop.simps [of _ _ _ _ _ _ "0x24 # s @ r"])
  moreover have "skip_start ?text = Inr ?text" using assms(7,8) by (cases pre) auto
  ultimately show ?thesis using assms(10)
    by (cases "dpcompat (expands x)") (simp_all add: Cmd_ExecuteString_def)
qed

section \<open>Cutting in the wrong place\<close>

lemma end_plain:
  assumes "set s \<inter> {10, 0x22, 0x2F, 0x3B, 0x5C} = {}" and "length (pre @ s) < n" and "n \<le> length (pre @ s @ rest)"
  shows "command_end (pre @ s @ rest) n (length pre) 0 False = command_end (pre @ s @ rest) n (length (pre @ s)) 0 False"
  using assms
proof (induction s arbitrary: pre)
  case (Cons c s)
  have "command_end (pre @ (c # s) @ rest) n (length pre) 0 False = command_end (pre @ (c # s) @ rest) n (length (pre @ [c])) 0 False"
    using Cons.prems by (subst command_end.simps) (simp add: nth_append)
  then show ?case using Cons.IH [of "pre @ [c]"] Cons.prems by simp
qed simp

lemma dp_bytes_plain: "set s \<inter> {0x22, 0x5C} = {} \<Longrightarrow> concat (map dp_bytes s) = s"
  by (induction s) (auto simp: dp_bytes_def)

text \<open>
  C22: in DarkPlaces mode the quoting does not protect an argument from the buffer: of \<open>u";v\<close>, quoted with
  \<open>COM_QuotedString\<close> as an argument, the buffer takes the quote behind the backslash for the end of the
  string and the semicolon for the end of the command, and \<open>v\<close> becomes a command of its own.
\<close>

theorem dp_quoted_injects:
  assumes "set word \<inter> {10, 0x22, 0x2F, 0x3B, 0x5C} = {}" and "set u \<inter> {0, 10, 13, 0x22, 0x5C} = {}"
    and "set v \<inter> {0, 10, 13, 0x22, 0x5C} = {}" and "arg_ok (u @ [0x22, 0x3B] @ v)"
    and "holds_text (word @ quote_arg True (u @ [0x22, 0x3B] @ v) @ rest) buf"
  shows "\<exists>buf'. take_command buf = Inr (word @ 0x22 # u @ [0x5C, 0x22] @ [0], buf') \<and> holds_text (v @ 0x22 # rest) buf'"
proof -
  let ?p = "word @ [0x22]" and ?q = "u @ [0x5C]"
  have uv: "concat (map dp_bytes u) = u" "concat (map dp_bytes v) = v" using assms(2,3) by (auto intro!: dp_bytes_plain)
  have "\<not> c_style True (u @ [0x22, 0x3B] @ v)" using assms(2,3) by (auto simp: c_style_def)
  then have q: "quote_arg True (u @ [0x22, 0x3B] @ v) = 0x22 # ?q @ [0x22, 0x3B] @ v @ [0x22]"
    using uv by (simp only: quote_arg_eq [OF assms(4)] quoted_def if_False if_True map_append concat_append)
      (simp add: dp_bytes_def)
  obtain r where r: "data buf = ?p @ ?q @ [0x22, 0x3B] @ v @ [0x22] @ rest @ r"
    and n: "cursize buf = length word + length u + length v + length rest + 5" "length (data buf) = maxsize buf"
    using assms(5) unfolding q by (auto simp: holds_text_iff)
  let ?d = "?p @ ?q @ [0x22, 0x3B] @ v @ [0x22] @ rest @ r" and ?n = "length word + length u + length v + length rest + 5"
  have "command_end ?d ?n 0 0 False = command_end ?d ?n (length word) 0 False"
    using end_plain [OF assms(1), of "[]" ?n "[0x22] @ ?q @ [0x22, 0x3B] @ v @ [0x22] @ rest @ r"] by simp
  also have "\<dots> = command_end ?d ?n (length ?p) 1 False"
    by (subst command_end.simps) (simp add: nth_append)
  also have "\<dots> = command_end ?d ?n (length (?p @ ?q)) 1 False"
    using end_simple [of ?q ?p ?n "[0x22, 0x3B] @ v @ [0x22] @ rest @ r" False] assms(2) by simp
  also have "\<dots> = command_end ?d ?n (length (?p @ ?q) + 1) 0 False"
    by (subst command_end.simps) (simp add: nth_append)
  also have "\<dots> = Inr (length (?p @ ?q) + 1)"
    by (subst command_end.simps) (simp add: nth_append)
  finally have "command_end (data buf) (cursize buf) 0 0 False = Inr (length (?p @ ?q @ [0x22]))"
    by (simp add: r n)
  moreover have "holds_text ((?p @ ?q @ [0x22]) @ 0x3B # v @ 0x22 # rest) buf"
    using assms(5) unfolding q by simp
  ultimately show ?thesis using take_at [of "?p @ ?q @ [0x22]" "0x3B" "v @ 0x22 # rest" buf] by simp
qed

text \<open>
  a text that ends in a backslash, with a quote left behind it from a text executed before, makes
  \<open>Cbuf_ExecuteLevel\<close> find the end of the command one byte behind the text, and move a negative number of
  bytes.
\<close>

theorem trailing_backslash_faults:
  assumes "set t \<inter> {10, 0x22, 0x2F, 0x3B, 0x5C} = {}" and "data (cb_buf lv) = t @ [0x5C, 0x22] @ stale"
    and "cursize (cb_buf lv) = length t + 1" and "ready env lv"
  shows "Cbuf_ExecuteLevel env x level (st, w, lv) = Some (Inl Out_Of_Bounds)"
proof -
  let ?d = "t @ [0x5C, 0x22] @ stale" and ?n = "length t + 1"
  have "command_end ?d ?n 0 0 False = command_end ?d ?n (length t) 0 False"
    using end_plain [OF assms(1), of "[]" ?n "[0x5C, 0x22] @ stale"] by simp
  also have "\<dots> = command_end ?d ?n (length t + 2) 2 False"
    by (subst command_end.simps) (simp add: nth_append)
  also have "\<dots> = Inr (length t + 2)"
    by (subst command_end.simps) simp
  finally have "command_end (data (cb_buf lv)) (cursize (cb_buf lv)) 0 0 False = Inr (length t + 2)"
    by (simp add: assms(2,3))
  then have "take_command (cb_buf lv) = Inl Out_Of_Bounds"
    by (simp add: take_command_def cut_line_def remove_front_def assms(2,3))
  then show ?thesis
    using assms(3) by (simp add: Cbuf_ExecuteLevel_def execute_loop.simps [of env _ "((st, w), lv)"] wait_ready [OF assms(4)])
qed

section \<open>Waiting\<close>






section \<open>At concrete inputs\<close>

definition sample_buf :: "byte list \<Rightarrow> byte list \<Rightarrow> sizebuf" where
  "sample_buf t stale = \<lparr>data = t @ stale, maxsize = length (t @ stale), cursize = length t, allowoverflow = False,
     overflowed = False, packing = SZ_RAWBYTES, currentbit = 0,
     prim = \<lparr>coordtype = 0, anglesize = 0, npflags = 0\<rparr>\<rparr>"

definition sample_level :: "sizebuf \<Rightarrow> cmd_level" where
  "sample_level b = \<lparr>cb_buf = b, waitattime = 0, waitframes = 0, waituntil = 0, waitmap = False\<rparr>"

definition sample_env :: cbuf_env where
  "sample_env = \<lparr>heap = (\<lambda>n. replicate n 7), cmd_maxbuffersize = 65536, realtime = 1, map_up = False\<rparr>"

definition sample_console :: "(byte list list list \<times> cmd_level) executor" where
  "sample_console = \<lparr>expands = \<lparr>dpcompat = False, expand_cvar = (\<lambda>_ _ _ l. (None, l)), tp_macro = (\<lambda>_ l. (None, l)),
       name_buf = replicate 255 7\<rparr>,
     find_var = (\<lambda>_. None), stack_dest = replicate TOKENSIZE 7,
     act = (\<lambda>_ (st, w, lv). Some (Inr (st, w @ [cmd_argv st], lv)))\<rparr>"

lemma sample_holds: "holds_text t (sample_buf t stale)"
  by (simp add: holds_text_def sample_buf_def)

lemma sample_ready: "ready sample_env (sample_level b)"
  by (simp add: ready_def sample_env_def sample_level_def)

lemma sample_does: "does sample_console level (\<lambda>args w. w @ [args])"
  by (simp add: does_def sample_console_def)

lemma Cbuf_adds_witness:
  "\<exists>b b'. Cbuf_AddText sample_env [65, 66] 0 [sample_level (sample_buf [97] [])] =
      Inr ([sample_level (sample_buf [97] [])][nat 0 := ([sample_level (sample_buf [97] [])] ! nat 0)\<lparr>cb_buf := b\<rparr>]) \<and>
    holds_text ([97] @ [65, 66]) b \<and>
    Cbuf_InsertText sample_env [65, 66] 0 True [sample_level (sample_buf [97] [])] =
      Inr ([sample_level (sample_buf [97] [])][nat 0 := ([sample_level (sample_buf [97] [])] ! nat 0)\<lparr>cb_buf := b'\<rparr>]) \<and>
    holds_text ([65, 66] @ (if True then [10] else []) @ [97]) b'"
  by (rule Cbuf_adds) (simp_all add: sane_env_def sample_env_def sample_level_def sample_holds fits_def)

definition sample_script :: "(byte list list \<times> byte) list" where
  "sample_script = [([str ''say'', [0x22, 10]], 0x3B), ([str ''echo'', str ''a;b//''], 10)]"

lemma sample_script_ok: "\<forall>(args, c) \<in> set sample_script. cmd_ok args \<and> ends_command c"
  by (auto simp: sample_script_def cmd_ok_def ends_command_def MAX_ARGS_def TOKENSIZE_def arg_ok_def plain_args_def
      str_def quote_arg_eq quoted_def c_style_def esc_bytes_def esc_letter_def)

lemma ExecuteLevel_script_witness:
  "\<exists>st' lv'. Cbuf_ExecuteLevel sample_env sample_console 0
      (fresh_cmd, [], sample_level (sample_buf (script sample_script) [])) =
      Some (Inr (st', fold (\<lambda>(args, c) w. w @ [args]) sample_script [], lv')) \<and> holds_text [] (cb_buf lv')"
  by (rule ExecuteLevel_script [OF sample_script_ok sample_does])
    (simp_all add: sample_ready plain_console_def sample_console_def fresh_cmd_def sample_level_def sample_holds
      sample_ready [unfolded sample_level_def])

lemma long_name_overflows_witness:
  "Cmd_ExecuteString sample_console (str ''say '' @ 0x24 # replicate 255 97 @ [0]) 0 (fresh_cmd, [], sample_level (sample_buf [] [])) =
    Some (Inl Out_Of_Bounds)"
  by (rule long_name_overflows) (simp_all add: sample_console_def TOKENSIZE_def name_bytes_def str_def hd_replicate)

lemma dp_quoted_injects_witness:
  "\<exists>buf'. take_command (sample_buf (str ''say '' @ quote_arg True (str ''a'' @ [0x22, 0x3B] @ str ''quit'') @ [10]) []) =
      Inr (str ''say '' @ 0x22 # str ''a'' @ [0x5C, 0x22] @ [0], buf') \<and> holds_text (str ''quit'' @ 0x22 # [10]) buf'"
  by (rule dp_quoted_injects) (simp_all add: str_def arg_ok_def TOKENSIZE_def sample_holds)

lemma trailing_backslash_faults_witness:
  "Cbuf_ExecuteLevel sample_env sample_console 0 (fresh_cmd, [], sample_level (sample_buf [97, 0x5C] [0x22])) =
    Some (Inl Out_Of_Bounds)"
  by (rule trailing_backslash_faults [of "[97]" _ "[]", OF _ _ _ sample_ready]) (simp_all add: sample_level_def sample_buf_def)



end
