(* ===== verification/Paths.thy ===== *)
theory Paths
  imports Prelude
begin

text \<open>
  File names: the path functions of \<open>engine/common/common.c\<close> and \<open>FS_GetCleanPath\<close> of
  \<open>engine/common/fs.c\<close>, which every name passes before a file is opened.

  A string that is only read is the list of its bytes; an array that is written is a list with its length,
  of any content.  Pointers into a string are offsets.
\<close>

section \<open>Copies\<close>

definition Q_strncpyz :: "byte list \<Rightarrow> byte list \<Rightarrow> int \<Rightarrow> byte list res" where
  "Q_strncpyz d s n = (if n - 1 < 0 then Inr d else pokes 0 (take (nat (n - 1)) s @ [0]) d)"

text \<open>The copying macro, for a negative count too: it then goes on to the end of the string.\<close>

definition Q_strncpyS :: "byte list \<Rightarrow> byte list \<Rightarrow> int \<Rightarrow> byte list res" where
  "Q_strncpyS d s n =
     (let t = (if n < 0 then s else take (nat n) s) in
      rbind (pokes 0 t d) (\<lambda>d. if int (length t) < n then poke (length t) 0 d else Inr d))"

text \<open>\<open>strncat\<close> gets the room left as a \<open>size_t\<close>, all of memory when the string is too long already.\<close>

definition Q_strncatz :: "byte list \<Rightarrow> byte list \<Rightarrow> int \<Rightarrow> byte list res" where
  "Q_strncatz dest src sizeofdest =
     rbind (c_str dest) (\<lambda>p.
     let n = sizeofdest - int (length p) - 1 in
     rbind (pokes (length p) ((if n < 0 then src else take (nat n) src) @ [0]) dest) (\<lambda>dest.
     if sizeofdest - 1 < 0 then Inl Out_Of_Bounds else poke (nat (sizeofdest - 1)) 0 dest))"

text \<open>Comparison without case, of strings in memory; \<open>char\<close> is signed.\<close>

definition upper :: "int \<Rightarrow> int" where
  "upper c = (if 97 \<le> c \<and> c \<le> 122 then c - 32 else c)"

fun Q_strncasecmp :: "byte list \<Rightarrow> byte list \<Rightarrow> nat \<Rightarrow> int res" where
  "Q_strncasecmp [] s2 n = Inl Out_Of_Bounds"
| "Q_strncasecmp s1 [] n = Inl Out_Of_Bounds"
| "Q_strncasecmp (a # s1) (b # s2) n =
     (if n = 0 then Inr 0
      else if upper (sint a) \<noteq> upper (sint b) then Inr (if upper (sint b) < upper (sint a) then 1 else -1)
      else if a = 0 then Inr 0
      else Q_strncasecmp s1 s2 (n - 1))"

definition Q_strcasecmp :: "byte list \<Rightarrow> byte list \<Rightarrow> int res" where
  "Q_strcasecmp s1 s2 = Q_strncasecmp s1 s2 0x7fffffff"

section \<open>Parts of a name\<close>

definition is_sep :: "byte \<Rightarrow> bool" where
  "is_sep c \<longleftrightarrow> c = 0x2F \<or> c = 0x5C"

fun skip_path :: "byte list \<Rightarrow> byte list \<Rightarrow> byte list" where
  "skip_path [] rest = rest"
| "skip_path (c # r) rest = skip_path r (if is_sep c then r else rest)"

definition COM_SkipPath :: "byte list \<Rightarrow> byte list" where
  "COM_SkipPath pathname = skip_path pathname pathname"

text \<open>Extensions that do not count.\<close>

definition packed_ext :: "byte list \<Rightarrow> bool" where
  "packed_ext e \<longleftrightarrow> e = str ''gz'' \<or> e = str ''xz''"

text \<open>From position \<open>i\<close> of the string in \<open>out\<close> back to the first one, which is not looked at.\<close>

fun strip_back :: "bool \<Rightarrow> nat \<Rightarrow> byte list \<Rightarrow> byte list" where
  "strip_back every 0 out = out"
| "strip_back every (Suc i) out =
     (if out ! Suc i = 0x2F then out
      else if out ! Suc i = 0x2E then
        (let e = takeWhile (\<lambda>c. c \<noteq> 0) (drop (Suc i + 1) out); out = out[Suc i := 0] in
         if every \<or> packed_ext e then strip_back every i out else out)
      else strip_back every i out)"

text \<open>\<open>src\<close> is another string, or \<open>None\<close> for the one in \<open>out\<close>.\<close>

definition strip_into :: "bool \<Rightarrow> byte list option \<Rightarrow> byte list \<Rightarrow> int \<Rightarrow> byte list res" where
  "strip_into every src out outlen =
     rbind (case src of None \<Rightarrow> Inr out | Some s \<Rightarrow> Q_strncpyz out s outlen) (\<lambda>out.
     rbind (c_str out) (\<lambda>s. Inr (strip_back every (length s) out)))"

definition COM_StripExtension :: "byte list option \<Rightarrow> byte list \<Rightarrow> int \<Rightarrow> byte list res" where
  "COM_StripExtension = strip_into False"

definition COM_StripAllExtensions :: "byte list option \<Rightarrow> byte list \<Rightarrow> int \<Rightarrow> byte list res" where
  "COM_StripAllExtensions = strip_into True"

fun find_ext :: "byte list \<Rightarrow> nat \<Rightarrow> nat option" where
  "find_ext s 0 = None"
| "find_ext s (Suc i) = (if is_sep (s ! i) then None else if s ! i = 0x2E then Some i else find_ext s i)"

definition COM_FileExtension :: "byte list \<Rightarrow> byte list \<Rightarrow> nat \<Rightarrow> byte list res" where
  "COM_FileExtension s result sizeofresult =
     (case find_ext s (length s) of
        None \<Rightarrow> poke 0 0 result
      | Some i \<Rightarrow>
          let e = drop (i + 1) s in
          pokes 0 ((if sizeofresult = 0 then e else take (sizeofresult - 1) e) @ [0]) result)"

definition COM_GetFileExtension :: "byte list \<Rightarrow> nat option \<Rightarrow> nat option" where
  "COM_GetFileExtension s term = find_ext s (case term of None \<Rightarrow> length s | Some t \<Rightarrow> t)"

fun base_end :: "byte list \<Rightarrow> nat \<Rightarrow> nat" where
  "base_end s 0 = 0"
| "base_end s (Suc i) =
     (if (s ! Suc i = 0x2E \<and> \<not> packed_ext (drop (Suc i + 1) s)) \<or> s ! Suc i = 0x2F then Suc i else base_end s i)"

fun base_start :: "byte list \<Rightarrow> nat \<Rightarrow> nat" where
  "base_start s 0 = 0"
| "base_start s (Suc i) = (if s ! Suc i = 0x2F then Suc i else base_start s i)"

definition COM_FileBase :: "byte list \<Rightarrow> byte list \<Rightarrow> int \<Rightarrow> byte list res" where
  "COM_FileBase s out outlen =
     (let e = base_end s (length s - 1); b = base_start s e in
      if e - b < 2 then
        (if e = b then Q_strncpyz out s outlen else Q_strncpyz out (str ''?model?'') outlen)
      else
        let n = min (outlen - 1) (int (e - 1 - b)) in
        rbind (Q_strncpyS out (drop (b + 1) s) n) (\<lambda>out.
        if n < 0 then Inl Out_Of_Bounds else poke (nat n) 0 out))"

text \<open>Whether there is a dot behind the last slash; the first byte does not count.\<close>

fun has_ext :: "byte list \<Rightarrow> nat \<Rightarrow> bool" where
  "has_ext s 0 = False"
| "has_ext s (Suc i) = (if s ! Suc i = 0x2F then False else if s ! Suc i = 0x2E then True else has_ext s i)"

definition COM_DefaultExtension :: "byte list \<Rightarrow> byte list \<Rightarrow> int \<Rightarrow> byte list res" where
  "COM_DefaultExtension path extension maxlen =
     rbind (c_str path) (\<lambda>p.
     if has_ext p (length p - 1) then Inr path
     else
       rbind (if take 1 extension \<noteq> [0x2E] then Q_strncatz path [0x2E] maxlen else Inr path) (\<lambda>path.
       Q_strncatz path extension maxlen))"

definition COM_RequireExtension :: "byte list \<Rightarrow> byte list \<Rightarrow> int \<Rightarrow> (bool \<times> byte list) res" where
  "COM_RequireExtension path extension maxlen =
     rbind (c_str path) (\<lambda>p.
     let plen = length p; elen = length extension in
     rbind (if elen \<le> plen then rbind (Q_strcasecmp (drop (plen - elen) p @ [0]) (extension @ [0])) (\<lambda>c. Inr (c = 0))
            else Inr False) (\<lambda>suffixed.
     if suffixed then Inr (True, path)
     else if maxlen < int (plen + 1 + elen) then
       (if maxlen < int (elen + 1) then Inl Sys_Error
        else rbind (pokes (nat (maxlen - 1 + int elen)) (extension @ [0]) path) (\<lambda>path. Inr (False, path)))
     else rbind (pokes plen (extension @ [0]) path) (\<lambda>path. Inr (True, path))))"

section \<open>Cleaning up\<close>

text \<open>\<open>COM_CleanUpPath\<close> moves bytes within the string it is given, which never grows.\<close>

fun find_dots :: "byte list \<Rightarrow> nat option" where
  "find_dots (a # b # r) = (if a = 0x2E \<and> b = 0x2E then Some 0 else map_option Suc (find_dots (b # r)))"
| "find_dots s = None"

fun slash_before :: "byte list \<Rightarrow> nat \<Rightarrow> nat option" where
  "slash_before s 0 = None"
| "slash_before s (Suc i) = (if s ! i = 0x2F then Some i else slash_before s i)"

lemma find_dots_lt: "find_dots s = Some d \<Longrightarrow> Suc d < length s"
  by (induction s arbitrary: d rule: find_dots.induct) (auto split: if_splits)

lemma slash_before_lt: "slash_before s i = Some j \<Longrightarrow> j < i"
  by (induction i) (auto split: if_splits)

function drop_dots :: "byte list \<Rightarrow> byte list" where
  "drop_dots s =
     (case find_dots s of
        None \<Rightarrow> s
      | Some d \<Rightarrow> drop_dots (take (case slash_before s d of None \<Rightarrow> d | Some i \<Rightarrow> i) s @ drop (d + 2) s))"
  by pat_completeness auto
termination
  by (relation "measure length") (auto dest!: find_dots_lt slash_before_lt split: option.splits)

declare drop_dots.simps [simp del]

fun collapse :: "byte list \<Rightarrow> byte list" where
  "collapse (a # b # r) = (if a = 0x2F \<and> b = 0x2F then collapse (b # r) else a # collapse (b # r))"
| "collapse s = s"

definition COM_CleanUpPath :: "byte list \<Rightarrow> byte list" where
  "COM_CleanUpPath s =
     collapse (dropWhile (\<lambda>c. c = 0x2F) (drop_dots (map (\<lambda>c. if c = 0x5C then 0x2F else c) s)))"

section \<open>Clean names\<close>

text \<open>
  \<open>FS_GetCleanPath\<close>.  \<open>seg\<close> is where the segment that is being copied begins; to test it the code skips
  its spaces, which may lead behind \<open>o\<close>, into bytes of \<open>outbuf\<close> never written.  \<open>win32\<close> is the build for
  Windows.
\<close>

function skip_seg :: "byte list \<Rightarrow> nat \<Rightarrow> nat res" where
  "skip_seg out i = (if \<not> i < length out then Inl Out_Of_Bounds else if out ! i = 32 then skip_seg out (i + 1) else Inr i)"
  by pat_completeness auto
termination
  by (relation "measure (\<lambda>(out, i). length out - i)") auto

declare skip_seg.simps [simp del]

text \<open>\<open>a && b && ...\<close> over the bytes from \<open>i\<close> on.\<close>

fun matches :: "byte list \<Rightarrow> nat \<Rightarrow> (byte \<Rightarrow> bool) list \<Rightarrow> bool res" where
  "matches out i [] = Inr True"
| "matches out i (p # ps) = rbind (peek out i) (\<lambda>c. if p c then matches out (i + 1) ps else Inr False)"

fun any_match :: "byte list \<Rightarrow> nat \<Rightarrow> (byte \<Rightarrow> bool) list list \<Rightarrow> bool res" where
  "any_match out i [] = Inr False"
| "any_match out i (ps # pss) = rbind (matches out i ps) (\<lambda>b. if b then Inr True else any_match out i pss)"

definition letter :: "byte \<Rightarrow> byte \<Rightarrow> bool" where
  "letter l c \<longleftrightarrow> c = l \<or> c = l - 32"

definition digit :: "byte \<Rightarrow> bool" where
  "digit c \<longleftrightarrow> 48 \<le> c \<and> c \<le> 57"

definition reserved4 :: "(byte \<Rightarrow> bool) list list" where
  "reserved4 = [map letter (str ''com'') @ [digit], map letter (str ''lpt'') @ [digit]]"

definition reserved3 :: "(byte \<Rightarrow> bool) list list" where
  "reserved3 = [map letter (str ''con''), map letter (str ''prn''), map letter (str ''nul'')]"

definition ends_name :: "byte \<Rightarrow> bool" where
  "ends_name c \<longleftrightarrow> c = 32 \<or> c = 9 \<or> c = 0x2E"

definition reserved_at :: "byte list \<Rightarrow> nat \<Rightarrow> nat \<Rightarrow> nat \<Rightarrow> (byte \<Rightarrow> bool) list list \<Rightarrow> bool res" where
  "reserved_at out seg pos n names =
     rbind (any_match out seg names) (\<lambda>m.
     if \<not> m then Inr False
     else if pos = seg + n then Inr True
     else rbind (peek out (seg + n)) (\<lambda>c. Inr (ends_name c)))"

text \<open>The tests on a segment, whether it is refused; \<open>seg\<close> is behind its spaces.\<close>

definition refused :: "bool \<Rightarrow> byte list \<Rightarrow> nat \<Rightarrow> nat \<Rightarrow> bool res" where
  "refused win32 out seg pos =
     rbind (peek out seg) (\<lambda>c.
     if c = 0 then Inr True
     else if c = 0x2E then
       (if pos = seg + 1 then Inr True else rbind (peek out (seg + 1)) (\<lambda>d. Inr True))
     else if win32 then
       rbind (reserved_at out seg pos 4 reserved4) (\<lambda>r.
       if r then Inr True else reserved_at out seg pos 3 reserved3)
     else Inr False)"

definition bad_seg :: "bool \<Rightarrow> byte list \<Rightarrow> nat \<Rightarrow> nat \<Rightarrow> bool res" where
  "bad_seg win32 out seg pos = rbind (skip_seg out seg) (\<lambda>seg. refused win32 out seg pos)"

fun clean_path :: "bool \<Rightarrow> byte list \<Rightarrow> nat \<Rightarrow> nat \<Rightarrow> byte list \<Rightarrow> byte list option res" where
  "clean_path win32 [] pos seg out = Inl Out_Of_Bounds"
| "clean_path win32 (c # r) pos seg out =
     (if pos = length out then Inr None
      else if c = 0x3A then Inr None
      else if is_sep c \<or> c = 0 then
        (if pos = seg then
           (if pos = 0 then Inr None
            else if c = 0 then rbind (poke pos 0 out) (\<lambda>out. Inr (Some out))
            else clean_path win32 r pos seg out)
         else
           rbind (bad_seg win32 out seg pos) (\<lambda>bad.
           if bad then Inr None
           else if c \<noteq> 0 then rbind (poke pos 0x2F out) (\<lambda>out. clean_path win32 r (pos + 1) (pos + 1) out)
           else rbind (poke pos 0 out) (\<lambda>out. Inr (Some out))))
      else rbind (poke pos c out) (\<lambda>out. clean_path win32 r (pos + 1) seg out))"

text \<open>The array afterwards if the name is accepted.\<close>

definition FS_GetCleanPath :: "bool \<Rightarrow> byte list option \<Rightarrow> byte list \<Rightarrow> byte list option res" where
  "FS_GetCleanPath win32 pattern outbuf =
     (case pattern of
        None \<Rightarrow> Inr None
      | Some s \<Rightarrow> rbind (peek s 0) (\<lambda>c. if c = 0 then Inr None else clean_path win32 s 0 0 outbuf))"

end
