(* ===== verification/PathProps.thy ===== *)
theory PathProps
  imports Paths
begin

text \<open>
  What the path functions guarantee: a name that \<open>FS_GetCleanPath\<close> accepts stays below its directory,
  whatever the array held before; \<open>COM_CleanUpPath\<close> leaves nothing that climbs; and what
  \<open>COM_RequireExtension\<close> does to an array that is too small.
\<close>

section \<open>Accepted names\<close>

definition plain_byte :: "byte \<Rightarrow> bool" where
  "plain_byte c \<longleftrightarrow> c \<noteq> 0 \<and> c \<noteq> 0x3A \<and> \<not> is_sep c"

definition unspaced :: "byte list \<Rightarrow> byte list" where
  "unspaced g = dropWhile (\<lambda>c. c = 32) g"

definition matches_name :: "(byte \<Rightarrow> bool) list \<Rightarrow> byte list \<Rightarrow> bool" where
  "matches_name ps g \<longleftrightarrow> length ps \<le> length g \<and> list_all2 (\<lambda>p c. p c) ps (take (length ps) g) \<and>
     (length g = length ps \<or> ends_name (g ! length ps))"

text \<open>The segments a name may have: not hidden, \<open>.\<close> or \<open>..\<close>, and no name of a device.\<close>

definition seg_ok :: "bool \<Rightarrow> byte list \<Rightarrow> bool" where
  "seg_ok win32 g \<longleftrightarrow> (\<forall>c \<in> set g. plain_byte c) \<and> take 1 (unspaced g) \<noteq> [0x2E] \<and>
     (win32 \<longrightarrow> (\<forall>ps \<in> set (reserved4 @ reserved3). \<not> matches_name ps (unspaced g)))"

definition path_of :: "byte list list \<Rightarrow> byte list \<Rightarrow> byte list" where
  "path_of gs g = concat (map (\<lambda>x. x @ [0x2F]) gs) @ g"

lemma path_of_simps [simp]: "path_of [] g = g" "path_of (x # gs) g = x @ 0x2F # path_of gs g"
  by (simp_all add: path_of_def)

lemma path_of_snoc: "path_of (gs @ [x]) g = path_of gs [] @ x @ 0x2F # g"
  by (simp add: path_of_def)

lemma skip_seg_spaces:
  "g \<noteq> [] \<Longrightarrow> hd g \<noteq> 32 \<Longrightarrow> skip_seg (pre @ replicate n 32 @ g) (length pre) = Inr (length pre + n)"
proof (induction n arbitrary: pre)
  case 0
  then show ?case by (cases g) (subst skip_seg.simps, simp)+
next
  case (Suc n)
  have "skip_seg (pre @ replicate (Suc n) 32 @ g) (length pre) = skip_seg ((pre @ [32]) @ replicate n 32 @ g) (length (pre @ [32]))"
    by (subst skip_seg.simps) (simp add: nth_append)
  then show ?case using Suc.IH [of "pre @ [32]"] Suc.prems by simp
qed

lemma unspaced_split: "\<exists>n. g = replicate n 32 @ unspaced g"
proof (induction g)
  case (Cons c g)
  then obtain n where "g = replicate n 32 @ unspaced g" by blast
  then have "c = 32 \<Longrightarrow> c # g = replicate (Suc n) 32 @ unspaced (c # g)" by (simp add: unspaced_def)
  moreover have "c \<noteq> 32 \<Longrightarrow> c # g = replicate 0 32 @ unspaced (c # g)" by (simp add: unspaced_def)
  ultimately show ?case by blast
qed (simp add: unspaced_def)

lemma hd_unspaced: "unspaced g \<noteq> [] \<Longrightarrow> hd (unspaced g) \<noteq> 32"
  unfolding unspaced_def by (induction g) auto

lemma matches_list:
  "length ps \<le> length g \<Longrightarrow> matches (pre @ g @ rest) (length pre) ps = Inr (list_all2 (\<lambda>p c. p c) ps (take (length ps) g))"
proof (induction ps arbitrary: pre g)
  case (Cons p ps)
  obtain c g' where g: "g = c # g'" using Cons.prems by (cases g) auto
  have "matches ((pre @ [c]) @ g' @ rest) (length (pre @ [c])) ps = Inr (list_all2 (\<lambda>p c. p c) ps (take (length ps) g'))"
    using Cons.prems g by (intro Cons.IH) simp
  then show ?case by (simp add: g nth_append)
qed simp

lemma any_match_false: "any_match out i pss = Inr False \<Longrightarrow> ps \<in> set pss \<Longrightarrow> matches out i ps = Inr False"
  by (induction pss) (auto split: if_splits)

lemma reserved_at_false:
  assumes "reserved_at (pre @ g @ rest) (length pre) (length pre + length g) n names = Inr False"
    and "ps \<in> set names" and "length ps = n"
  shows "\<not> matches_name ps g"
proof
  assume m: "matches_name ps g"
  then have l: "n \<le> length g" using assms(3) by (simp add: matches_name_def)
  have "any_match (pre @ g @ rest) (length pre) names \<noteq> Inr False"
    using any_match_false [OF _ assms(2)] matches_list [of ps g pre rest] m by (auto simp: matches_name_def)
  then have "length g \<noteq> n" "n < length g \<Longrightarrow> \<not> ends_name (g ! n)"
    using assms(1) l by (auto simp: reserved_at_def nth_append split: if_splits)
  then show False using m l assms(3) by (auto simp: matches_name_def)
qed

lemma refused_false:
  assumes "refused win32 (pre @ g @ rest) (length pre) (length pre + length g) = Inr False" and "g \<noteq> []"
  shows "hd g \<noteq> 0x2E" and "win32 \<Longrightarrow> ps \<in> set (reserved4 @ reserved3) \<Longrightarrow> \<not> matches_name ps g"
proof -
  obtain c g' where g: "g = c # g'" using assms(2) by (cases g) auto
  have c: "peek (pre @ g @ rest) (length pre) = Inr c" by (simp add: g)
  show "hd g \<noteq> 0x2E"
  proof
    assume "hd g = 0x2E"
    then show False using assms(1) c g by (auto simp: refused_def elim!: rbind_InrE split: if_splits)
  qed
  assume w: "win32" and ps: "ps \<in> set (reserved4 @ reserved3)"
  have r: "reserved_at (pre @ g @ rest) (length pre) (length pre + length g) 4 reserved4 = Inr False"
    "reserved_at (pre @ g @ rest) (length pre) (length pre + length g) 3 reserved3 = Inr False"
    using assms(1) c w by (auto simp: refused_def elim!: rbind_InrE split: if_splits)
  have "ps \<in> set reserved4 \<Longrightarrow> length ps = 4" "ps \<in> set reserved3 \<Longrightarrow> length ps = 3"
    by (auto simp: reserved4_def reserved3_def str_def)
  then show "\<not> matches_name ps g" using reserved_at_false [OF r(1)] reserved_at_false [OF r(2)] ps by auto
qed

lemma bad_seg_unspaced:
  "unspaced g \<noteq> [] \<Longrightarrow> \<exists>n. g = replicate n 32 @ unspaced g \<and>
     bad_seg win32 (pre @ g @ rest) (length pre) (length pre + length g) =
     refused win32 ((pre @ replicate n 32) @ unspaced g @ rest) (length (pre @ replicate n 32))
       (length (pre @ replicate n 32) + length (unspaced g))"
proof -
  assume u: "unspaced g \<noteq> []"
  obtain n where n: "g = replicate n 32 @ unspaced g" using unspaced_split by blast
  then have out: "pre @ g @ rest = (pre @ replicate n 32) @ unspaced g @ rest" by simp
  have len: "length g = n + length (unspaced g)" using arg_cong [OF n, of length] by simp
  have "skip_seg (pre @ g @ rest) (length pre) = Inr (length pre + n)"
    unfolding out using skip_seg_spaces [of "unspaced g @ rest" pre n] u hd_unspaced [of g] by simp
  then have "bad_seg win32 (pre @ g @ rest) (length pre) (length pre + length g) =
      refused win32 (pre @ g @ rest) (length pre + n) (length pre + n + length (unspaced g))"
    by (simp add: bad_seg_def len add.assoc)
  then show ?thesis unfolding out by (intro exI [of _ n] conjI n) simp
qed

lemma seg_ok_blank: "unspaced g = [] \<Longrightarrow> \<forall>c \<in> set g. plain_byte c \<Longrightarrow> seg_ok win32 g"
proof -
  assume g: "unspaced g = []" "\<forall>c \<in> set g. plain_byte c"
  have "ps \<in> set (reserved4 @ reserved3) \<Longrightarrow> ps \<noteq> []" for ps
    by (auto simp: reserved4_def reserved3_def str_def)
  then show ?thesis using g by (auto simp: seg_ok_def matches_name_def)
qed

lemma bad_seg_false:
  assumes "bad_seg win32 (pre @ g @ rest) (length pre) (length pre + length g) = Inr False"
    and "\<forall>c \<in> set g. plain_byte c"
  shows "seg_ok win32 g"
proof (cases "unspaced g = []")
  case True
  then show ?thesis using assms(2) seg_ok_blank by blast
next
  case False
  then obtain n where "refused win32 ((pre @ replicate n 32) @ unspaced g @ rest) (length (pre @ replicate n 32))
       (length (pre @ replicate n 32) + length (unspaced g)) = Inr False"
    using assms(1) bad_seg_unspaced [of g win32 pre rest] by auto
  note r = refused_false [OF this False]
  have "take 1 (unspaced g) = [hd (unspaced g)]" using False by (cases "unspaced g") auto
  then show ?thesis using r assms(2) by (auto simp: seg_ok_def)
qed

text \<open>A relative name of good segments, with its terminator, in an array of \<open>n\<close> bytes; a slash may end it.\<close>

definition accepted :: "bool \<Rightarrow> nat \<Rightarrow> byte list \<Rightarrow> bool" where
  "accepted win32 n out \<longleftrightarrow> length out = n \<and> (\<exists>gs g r. out = path_of gs g @ 0 # r \<and>
     (\<forall>x \<in> set gs. x \<noteq> [] \<and> seg_ok win32 x) \<and> seg_ok win32 g \<and> (gs = [] \<longrightarrow> g \<noteq> []))"

lemma acceptedI: "out = path_of gs g @ 0 # r \<Longrightarrow> length out = n \<Longrightarrow> \<forall>x \<in> set gs. x \<noteq> [] \<and> seg_ok win32 x \<Longrightarrow>
    seg_ok win32 g \<Longrightarrow> gs = [] \<longrightarrow> g \<noteq> [] \<Longrightarrow> accepted win32 n out"
  unfolding accepted_def by blast

lemma clean_path_inv:
  assumes "clean_path win32 s (length (path_of gs g)) (length (path_of gs [])) (path_of gs g @ rest) = Inr (Some out')"
    and "\<forall>x \<in> set gs. x \<noteq> [] \<and> seg_ok win32 x" and "\<forall>c \<in> set g. plain_byte c"
  shows "accepted win32 (length (path_of gs g @ rest)) out'"
  using assms
proof (induction s arbitrary: gs g rest)
  case (Cons c s)
  have p: "path_of gs g = path_of gs [] @ g" by (simp add: path_of_def)
  let ?d = "path_of gs []" and ?o = "path_of gs g @ rest"
  show ?case
  proof (cases "plain_byte c")
    case True
    then have n: "\<not> is_sep c" "c \<noteq> 0" "c \<noteq> 0x3A" by (auto simp: plain_byte_def)
    then obtain x rest' where x: "rest = x # rest'" using Cons.prems(1) by (cases rest) auto
    then have "clean_path win32 s (length (path_of gs (g @ [c]))) (length ?d) (path_of gs (g @ [c]) @ rest') = Inr (Some out')"
      using Cons.prems(1) n by (simp add: path_of_def list_update_append)
    then show ?thesis using Cons.IH [of gs "g @ [c]" rest'] Cons.prems(2,3) True x by (simp add: path_of_def)
  next
    case False
    then have sep: "is_sep c \<or> c = 0" using Cons.prems(1) by (auto simp: plain_byte_def is_sep_def split: if_splits)
    then have colon: "c \<noteq> 0x3A" by (auto simp: is_sep_def)
    obtain x rest' where x: "rest = x # rest'" using Cons.prems(1) by (cases rest) auto
    have full: "length (path_of gs g) \<noteq> length ?o" using x by simp
    show ?thesis
    proof (cases "g = []")
      case True
      then have gs: "gs \<noteq> []" using Cons.prems(1) sep colon full by auto
      show ?thesis
      proof (cases "c = 0")
        case True
        then have "out' = path_of gs g @ 0 # rest'" using Cons.prems(1) \<open>g = []\<close> gs x sep by (auto simp: is_sep_def path_of_def split: if_splits)
        then show ?thesis using Cons.prems(2) \<open>g = []\<close> gs x by (intro acceptedI [of _ gs g rest']) (simp_all add: seg_ok_blank unspaced_def)
      next
        case False
        then have "clean_path win32 s (length (path_of gs g)) (length ?d) ?o = Inr (Some out')"
          using Cons.prems(1) \<open>g = []\<close> gs sep colon full by (auto split: if_splits)
        then show ?thesis using Cons.IH Cons.prems(2,3) by blast
      qed
    next
      case False
      let ?n = "length ?d + length g" and ?a = "?d @ g @ rest"
      have o: "clean_path win32 (c # s) (length (path_of gs g)) (length ?d) ?o =
          rbind (bad_seg win32 ?a (length ?d) ?n) (\<lambda>bad. if bad then Inr None
             else if c \<noteq> 0 then rbind (poke ?n 0x2F ?a) (\<lambda>out. clean_path win32 s (?n + 1) (?n + 1) out)
             else rbind (poke ?n 0 ?a) (\<lambda>out. Inr (Some out)))"
        using sep colon False by (simp add: p x cong: if_cong)
      then have "bad_seg win32 (?d @ g @ rest) (length ?d) (length ?d + length g) = Inr False"
        using Cons.prems(1) by (auto elim!: rbind_InrE split: if_splits)
      note ok = bad_seg_false [OF this Cons.prems(3)] and b = this
      show ?thesis
      proof (cases "c = 0")
        case True
        then have "out' = path_of gs g @ 0 # rest'" using Cons.prems(1) o b x by (simp add: p list_update_append)
        then show ?thesis using Cons.prems(2) ok False x by (intro acceptedI [of _ gs g rest']) simp_all
      next
        case sl: False
        then have "clean_path win32 s (length (path_of (gs @ [g]) [])) (length (path_of (gs @ [g]) [])) (path_of (gs @ [g]) [] @ rest') = Inr (Some out')"
          using Cons.prems(1) o b x by (simp add: p path_of_snoc list_update_append add.assoc)
        then show ?thesis using Cons.IH [of "gs @ [g]" "[]" rest'] Cons.prems(2) ok False x by (simp add: path_of_def)
      qed
    qed
  qed
qed simp

text \<open>
  C27: a name that \<open>FS_GetCleanPath\<close> accepts stays in the directory it is opened in: it is relative, its
  segments are separated by single slashes, none of them begins with a dot (behind spaces or not), so
  there is no parent directory among them, none has a colon or a backslash, and in the Windows build
  none is one of the names of devices the code knows.  This holds for every pattern and whatever the
  array held before, though the code looks at that; nothing outside the array is written.
\<close>

theorem GetCleanPath_stays:
  assumes "FS_GetCleanPath win32 pattern outbuf = Inr (Some out)"
  shows "length out = length outbuf \<and> (\<exists>gs g r. out = path_of gs g @ 0 # r \<and>
    (\<forall>x \<in> set gs. x \<noteq> [] \<and> seg_ok win32 x) \<and> seg_ok win32 g \<and> (gs = [] \<longrightarrow> g \<noteq> []))"
proof -
  obtain s where "clean_path win32 s 0 0 outbuf = Inr (Some out)"
    using assms by (auto simp: FS_GetCleanPath_def split: option.splits if_splits)
  then show ?thesis using clean_path_inv [of win32 s "[]" "[]" outbuf out] by (simp add: accepted_def)
qed

section \<open>Which names are accepted\<close>

fun split_seps :: "byte list \<Rightarrow> byte list list" where
  "split_seps [] = [[]]"
| "split_seps (c # r) = (if is_sep c then [] # split_seps r else (c # hd (split_seps r)) # tl (split_seps r))"

text \<open>The segments joined again, empty ones left out except the last.\<close>

fun tidy :: "byte list list \<Rightarrow> byte list" where
  "tidy [] = []"
| "tidy [p] = p"
| "tidy (p # q # ps) = (if p = [] then tidy (q # ps) else p @ 0x2F # tidy (q # ps))"

definition undotted :: "byte list \<Rightarrow> bool" where
  "undotted g \<longleftrightarrow> take 1 (unspaced g) \<noteq> [0x2E]"

definition name_ok :: "byte list \<Rightarrow> bool" where
  "name_ok s \<longleftrightarrow> s \<noteq> [] \<and> \<not> is_sep (hd s) \<and> 0x3A \<notin> set s \<and> (\<forall>g \<in> set (split_seps s). undotted g)"

text \<open>No segment consists of spaces only.\<close>

definition no_blank :: "byte list list \<Rightarrow> bool" where
  "no_blank ps \<longleftrightarrow> (\<forall>g \<in> set ps. g \<noteq> [] \<longrightarrow> unspaced g \<noteq> [])"

lemma split_seps_not_Nil: "split_seps s \<noteq> []"
  by (cases s) auto

lemma split_seps_Cons: "\<exists>p ps. split_seps s = p # ps"
  using split_seps_not_Nil by (cases "split_seps s") auto

lemma tidy_snoc: "ps \<noteq> [] \<Longrightarrow> tidy (p # ps) = (if p = [] then tidy ps else p @ 0x2F # tidy ps)"
  by (cases ps) simp_all

lemma bad_seg_eq:
  assumes "unspaced g \<noteq> []" and "0 \<notin> set g"
  shows "bad_seg False (pre @ g @ rest) (length pre) (length pre + length g) = Inr (\<not> undotted g)"
proof -
  obtain n where n: "g = replicate n 32 @ unspaced g" and
    b: "bad_seg False (pre @ g @ rest) (length pre) (length pre + length g) =
     refused False ((pre @ replicate n 32) @ unspaced g @ rest) (length (pre @ replicate n 32))
       (length (pre @ replicate n 32) + length (unspaced g))"
    using bad_seg_unspaced [OF assms(1), of False pre rest] by blast
  obtain c u where u: "unspaced g = c # u" using assms(1) by (cases "unspaced g") auto
  have "set (unspaced g) \<subseteq> set g" by (simp add: unspaced_def set_dropWhileD subsetI)
  then have "c \<noteq> 0" using u assms(2) by auto
  moreover have "u \<noteq> [] \<Longrightarrow> peek ((pre @ replicate n 32) @ (c # u) @ rest) (length (pre @ replicate n 32) + 1) = Inr (hd u)"
    by (cases u) (simp_all add: nth_append)
  ultimately show ?thesis unfolding b refused_def u
    by (cases "u = []") (auto simp: undotted_def u nth_append)
qed

lemma undotted_Nil [simp]: "undotted []"
  by (simp add: undotted_def unspaced_def)

text \<open>The state in the middle of a name: \<open>gs\<close> and \<open>g\<close> are copied, \<open>s\<close> is to come.\<close>

definition outcome :: "byte list list \<Rightarrow> byte list \<Rightarrow> byte list \<Rightarrow> byte list \<Rightarrow> byte list option" where
  "outcome gs g s rest =
     (let ps = (g @ hd (split_seps s)) # tl (split_seps s); t = path_of gs (tidy ps) in
      if (gs = [] \<and> g = [] \<longrightarrow> s \<noteq> [] \<and> \<not> is_sep (hd s)) \<and> 0x3A \<notin> set s \<and> (\<forall>p \<in> set ps. undotted p) \<and>
         length t < length (path_of gs g @ rest)
      then Some (t @ 0 # drop (length t + 1) (path_of gs g @ rest)) else None)"

lemma tidy_ge: "length p \<le> length (tidy (p # ps))"
  by (cases ps) auto

lemma drop_other: "length a < n \<Longrightarrow> drop n (a @ x # b) = drop n (a @ y # b)"
  by (simp add: drop_Cons' drop_append)

lemma outcome_full: "outcome gs g s [] = None"
proof -
  have "length (path_of gs g) \<le> length (path_of gs (tidy ((g @ hd (split_seps s)) # tl (split_seps s))))"
    using tidy_ge [of "g @ hd (split_seps s)" "tl (split_seps s)"] by (simp add: path_of_def)
  then show ?thesis by (simp add: outcome_def Let_def)
qed

lemma outcome_byte:
  "plain_byte c \<Longrightarrow> outcome gs g (c # s) (x # rest) = outcome gs (g @ [c]) s rest"
proof -
  assume c: "plain_byte c"
  obtain q qs where q: "split_seps s = q # qs" using split_seps_Cons by blast
  let ?t = "path_of gs (tidy ((g @ c # q) # qs))"
  have "length (path_of gs g) < length ?t + 1"
    using tidy_ge [of "g @ c # q" qs] by (simp add: path_of_def)
  then have "drop (length ?t + 1) (path_of gs g @ x # rest) = drop (length ?t + 1) (path_of gs g @ c # rest)"
    by (rule drop_other)
  moreover have "path_of gs (g @ [c]) @ rest = path_of gs g @ c # rest" by (simp add: path_of_def)
  ultimately show ?thesis using c q by (auto simp: outcome_def Let_def plain_byte_def)
qed

lemma outcome_seg:
  "is_sep c \<Longrightarrow> g \<noteq> [] \<Longrightarrow> undotted g \<Longrightarrow> outcome gs g (c # s) (x # rest) = outcome (gs @ [g]) [] s rest"
proof -
  assume c: "is_sep c" and g: "g \<noteq> []" "undotted g"
  obtain q qs where q: "split_seps s = q # qs" using split_seps_Cons by blast
  let ?t = "path_of gs (g @ 0x2F # tidy (q # qs))"
  have "length (path_of gs g) < length ?t + 1" by (simp add: path_of_def)
  then have "drop (length ?t + 1) (path_of gs g @ x # rest) = drop (length ?t + 1) (path_of gs g @ 0x2F # rest)"
    by (rule drop_other)
  moreover have "path_of (gs @ [g]) [] @ rest = path_of gs g @ 0x2F # rest" by (simp add: path_of_def)
  moreover have "path_of (gs @ [g]) y = path_of gs (g @ 0x2F # y)" for y by (simp add: path_of_def)
  ultimately show ?thesis using c g q by (auto simp: outcome_def Let_def is_sep_def)
qed

lemma clean_path_eq:
  assumes "0 \<notin> set s" and "0 \<notin> set g" and "no_blank ((g @ hd (split_seps s)) # tl (split_seps s))"
  shows "clean_path False (s @ 0 # r) (length (path_of gs g)) (length (path_of gs [])) (path_of gs g @ rest) =
    Inr (outcome gs g s rest)"
  using assms
proof (induction s arbitrary: gs g rest)
  case Nil
  let ?d = "path_of gs []"
  have p: "path_of gs g = ?d @ g" by (simp add: path_of_def)
  show ?case
  proof (cases "g = []")
    case True
    then show ?thesis
      by (cases rest) (auto simp: outcome_def Let_def list_update_append path_of_def)
  next
    case False
    then have "bad_seg False (?d @ g @ rest) (length ?d) (length ?d + length g) = Inr (\<not> undotted g)"
      using Nil.prems by (intro bad_seg_eq) (auto simp: no_blank_def)
    then show ?thesis using False
      by (cases rest) (auto simp: outcome_def Let_def p list_update_append is_sep_def)
  qed
next
  case (Cons c s)
  let ?d = "path_of gs []"
  have p: "path_of gs g = ?d @ g" by (simp add: path_of_def)
  have c0: "c \<noteq> 0" "0 \<notin> set s" using Cons.prems(1) by auto
  obtain q qs where q: "split_seps s = q # qs" using split_seps_Cons by blast
  show ?case
  proof (cases rest)
    case Nil
    then show ?thesis by (simp add: outcome_full)
  next
    case (Cons x rest')
    consider "plain_byte c" | "c = 0x3A" | "is_sep c" "g = []" | "is_sep c" "g \<noteq> []"
      using c0 by (auto simp: plain_byte_def)
    then show ?thesis
    proof cases
      case 1
      then have "\<not> is_sep c" "c \<noteq> 0x3A" by (simp_all add: plain_byte_def)
      then have "clean_path False ((c # s) @ 0 # r) (length (path_of gs g)) (length ?d) (path_of gs g @ rest) =
          clean_path False (s @ 0 # r) (length (path_of gs (g @ [c]))) (length ?d) (path_of gs (g @ [c]) @ rest')"
        using Cons c0(1) by (simp add: path_of_def list_update_append)
      also have "\<dots> = Inr (outcome gs (g @ [c]) s rest')"
        using Cons.prems(2,3) c0 q \<open>\<not> is_sep c\<close> by (intro Cons.IH) simp_all
      finally show ?thesis using outcome_byte [OF 1] Cons by simp
    next
      case 2
      then show ?thesis using Cons by (simp add: outcome_def Let_def)
    next
      case 3
      then have "c \<noteq> 0x3A" by (auto simp: is_sep_def)
      moreover have "gs \<noteq> [] \<Longrightarrow> clean_path False (s @ 0 # r) (length (path_of gs [])) (length ?d) (path_of gs [] @ rest) =
          Inr (outcome gs [] s rest)"
        using Cons.prems(2,3) c0 q 3 by (intro Cons.IH) (simp_all add: no_blank_def)
      moreover have "gs \<noteq> [] \<Longrightarrow> outcome gs [] (c # s) rest = outcome gs [] s rest"
        using 3 q \<open>c \<noteq> 0x3A\<close> by (simp add: outcome_def Let_def)
      moreover have "gs = [] \<Longrightarrow> outcome gs [] (c # s) rest = None" using 3 by (simp add: outcome_def Let_def)
      moreover have "gs \<noteq> [] \<Longrightarrow> path_of gs [] \<noteq> []" by (simp add: path_of_def)
      moreover have "length (path_of gs []) \<noteq> length (path_of gs [] @ rest)" using Cons by simp
      ultimately show ?thesis using 3 c0(1)
        by (cases "gs = []") simp_all
    next
      case 4
      then have c: "c \<noteq> 0x3A" by (auto simp: is_sep_def)
      have b: "bad_seg False (?d @ g @ rest) (length ?d) (length ?d + length g) = Inr (\<not> undotted g)"
        using Cons.prems(2,3) 4 by (intro bad_seg_eq) (auto simp: no_blank_def)
      show ?thesis
      proof (cases "undotted g")
        case True
        then have "clean_path False ((c # s) @ 0 # r) (length (path_of gs g)) (length ?d) (path_of gs g @ rest) =
            clean_path False (s @ 0 # r) (length (path_of (gs @ [g]) [])) (length (path_of (gs @ [g]) []))
              (path_of (gs @ [g]) [] @ rest')"
          using Cons c0(1) c 4 b by (simp add: p path_of_snoc list_update_append)
        also have "\<dots> = Inr (outcome (gs @ [g]) [] s rest')"
          using Cons.prems(3) c0 q 4 by (intro Cons.IH) (simp_all add: no_blank_def)
        finally show ?thesis using outcome_seg [OF 4 True] Cons by simp
      next
        case False
        then have "outcome gs g (c # s) rest = None" using 4 by (simp add: outcome_def Let_def)
        then show ?thesis using False Cons c0(1) c 4 b by (simp add: p)
      qed
    qed
  qed
qed

text \<open>
  C28: which names \<open>FS_GetCleanPath\<close> accepts outside Windows: exactly the relative ones without a colon
  and without a segment that begins with a dot behind its spaces, if the result fits the array; the
  result is the name with slashes for backslashes and without empty segments.  A segment of nothing but
  spaces is left out: there the code looks at bytes it has not written.
\<close>

theorem GetCleanPath_eq:
  assumes "0 \<notin> set s" and "no_blank (split_seps s)"
  shows "FS_GetCleanPath False (Some (s @ 0 # r)) outbuf =
    Inr (let t = tidy (split_seps s) in
      if name_ok s \<and> length t < length outbuf then Some (t @ 0 # drop (length t + 1) outbuf) else None)"
proof -
  obtain q qs where q: "split_seps s = q # qs" using split_seps_Cons by blast
  have "outcome [] [] s outbuf = (let t = tidy (split_seps s) in
      if name_ok s \<and> length t < length outbuf then Some (t @ 0 # drop (length t + 1) outbuf) else None)"
    by (auto simp: outcome_def name_ok_def Let_def q)
  moreover have "clean_path False (s @ 0 # r) 0 0 outbuf = Inr (outcome [] [] s outbuf)"
    using clean_path_eq [of s "[]" r "[]" outbuf] assms q by simp
  ultimately show ?thesis using assms(1)
    by (cases s) (auto simp: FS_GetCleanPath_def outcome_def name_ok_def)
qed

section \<open>Paths cleaned up\<close>

fun has_pair :: "byte \<Rightarrow> byte list \<Rightarrow> bool" where
  "has_pair a (x # y # r) = ((x = a \<and> y = a) \<or> has_pair a (y # r))"
| "has_pair a s = False"

lemma has_pair_split: "has_pair a (u @ a # a # v)"
proof (induction u)
  case (Cons x u)
  then show ?case by (cases u) auto
qed simp

lemma pair_free: "\<not> has_pair a s \<Longrightarrow> \<nexists>u v. s = u @ [a, a] @ v"
  using has_pair_split by auto

lemma find_dots_None: "find_dots s = None \<longleftrightarrow> \<not> has_pair 0x2E s"
  by (induction s rule: find_dots.induct) auto

lemma drop_dots_clean: "\<not> has_pair 0x2E (drop_dots s) \<and> set (drop_dots s) \<subseteq> set s \<and> length (drop_dots s) \<le> length s"
proof (induction s rule: drop_dots.induct)
  case (1 s)
  show ?case
  proof (cases "find_dots s")
    case None
    then have "drop_dots s = s" by (subst drop_dots.simps) simp
    then show ?thesis using None by (simp add: find_dots_None)
  next
    case (Some d)
    let ?t = "take (case slash_before s d of None \<Rightarrow> d | Some i \<Rightarrow> i) s @ drop (d + 2) s"
    have e: "drop_dots s = drop_dots ?t" using Some by (subst drop_dots.simps) simp
    have "set ?t \<subseteq> set s" by (auto dest: in_set_takeD in_set_dropD)
    moreover have "length ?t \<le> length s"
      using find_dots_lt [OF Some] by (auto split: option.splits dest: slash_before_lt)
    ultimately show ?thesis using 1 [OF Some] e by auto
  qed
qed

lemma has_pair_Cons: "\<not> has_pair a (x # r) \<Longrightarrow> \<not> has_pair a r"
  by (cases r) auto

lemma has_pair_dropWhile: "\<not> has_pair a s \<Longrightarrow> \<not> has_pair a (dropWhile P s)"
proof (induction s)
  case (Cons x s)
  then show ?case using has_pair_Cons [of a x s] by simp
qed simp

lemma collapse_first: "take 1 (collapse s) = take 1 s"
  by (induction s rule: collapse.induct) auto

lemma collapse_pair: "has_pair a (collapse s) \<Longrightarrow> a \<noteq> 0x2F \<and> has_pair a s"
proof (induction s rule: collapse.induct)
  case (1 x y r)
  obtain q where q: "collapse (y # r) = y # q"
    using collapse_first [of "y # r"] by (cases "collapse (y # r)") auto
  show ?case using 1 q by (auto split: if_splits)
qed auto

lemma collapse_set: "set (collapse s) \<subseteq> set s \<and> length (collapse s) \<le> length s"
  by (induction s rule: collapse.induct) auto

text \<open>
  C29: \<open>COM_CleanUpPath\<close> returns for every path, and what it leaves has no backslash, no two dots next to
  each other, no slash in front and no two slashes in a row; it is no longer than the path.
\<close>

theorem CleanUpPath_clean:
  "0x5C \<notin> set (COM_CleanUpPath s) \<and> (\<nexists>u v. COM_CleanUpPath s = u @ [0x2E, 0x2E] @ v) \<and>
   (\<nexists>u v. COM_CleanUpPath s = u @ [0x2F, 0x2F] @ v) \<and> take 1 (COM_CleanUpPath s) \<noteq> [0x2F] \<and>
   length (COM_CleanUpPath s) \<le> length s"
proof -
  let ?m = "map (\<lambda>c. if c = 0x5C then 0x2F else c) s"
  let ?d = "drop_dots ?m"
  let ?w = "dropWhile (\<lambda>c. c = 0x2F) ?d"
  have c: "COM_CleanUpPath s = collapse ?w" by (simp add: COM_CleanUpPath_def)
  note d = drop_dots_clean [of ?m]
  have w: "set ?w \<subseteq> set ?m" "length ?w \<le> length s"
    using d set_dropWhileD [of _ "\<lambda>c. c = 0x2F" ?d] length_dropWhile_le [of "\<lambda>c. c = 0x2F" ?d] by auto
  have first: "take 1 (dropWhile (\<lambda>c. c = 0x2F) z) \<noteq> [0x2F]" for z :: "byte list" by (induction z) auto
  have dots: "\<not> has_pair 0x2E ?w" using d has_pair_dropWhile by blast
  have "0x5C \<notin> set ?m" by auto
  then have "0x5C \<notin> set (collapse ?w)" using w(1) collapse_set [of ?w] by blast
  moreover have "\<not> has_pair 0x2E (collapse ?w)" "\<not> has_pair 0x2F (collapse ?w)"
    using dots collapse_pair [of _ ?w] by blast+
  moreover have "take 1 (collapse ?w) \<noteq> [0x2F]" using first [of ?d] collapse_first [of ?w] by metis
  moreover have "length (collapse ?w) \<le> length s" using w(2) collapse_set [of ?w] by linarith
  ultimately show ?thesis unfolding c by (intro conjI pair_free)
qed

section \<open>Required extensions\<close>

definition folded :: "byte list \<Rightarrow> int list" where
  "folded s = map (\<lambda>c. upper (sint c)) s"

lemma upper_0: "upper (sint a) = 0 \<longleftrightarrow> a = 0" for a :: byte
proof -
  have "upper (sint a) = 0 \<longleftrightarrow> sint a = 0" by (auto simp: upper_def)
  also have "\<dots> \<longleftrightarrow> a = 0" using signed_eq_0_iff [of a] by blast
  finally show ?thesis .
qed

lemma strncasecmp_eq:
  "0 \<notin> set s \<Longrightarrow> 0 \<notin> set t \<Longrightarrow> length s < n \<Longrightarrow>
   \<exists>c. Q_strncasecmp (s @ 0 # r) (t @ 0 # q) n = Inr c \<and> (c = 0 \<longleftrightarrow> folded s = folded t)"
proof (induction s arbitrary: t n)
  case Nil
  then show ?case using upper_0 [of "hd t"] by (cases t) (auto simp: folded_def upper_def)
next
  case (Cons a s)
  show ?case
  proof (cases t)
    case Nil
    then show ?thesis using Cons.prems upper_0 [of a] by (auto simp: folded_def upper_def)
  next
    case (Cons b t')
    then show ?thesis using Cons.IH [of t' "n - 1"] Cons.prems by (auto simp: folded_def)
  qed
qed

text \<open>
  C30: \<open>COM_RequireExtension\<close> leaves a path that has the extension, in any case, adds it where it fits,
  and where it does not writes it behind the array: the length it cuts the path to has a wrong sign.
\<close>

theorem RequireExtension_cases:
  assumes "0 \<notin> set p" and "0 \<notin> set ext" and "ext \<noteq> []" and "length ext + 1 \<le> n"
    and "length (p @ 0 # rest) = n" and "length ext < 0x7fffffff"
  shows "COM_RequireExtension (p @ 0 # rest) ext (int n) =
    (if length ext \<le> length p \<and> folded (drop (length p - length ext) p) = folded ext then Inr (True, p @ 0 # rest)
     else if length p + length ext + 1 \<le> n then Inr (True, p @ ext @ 0 # drop (length ext) rest)
     else Inl Out_Of_Bounds)"
proof -
  have c: "c_str (p @ 0 # rest) = Inr p" using assms(1) by (rule c_str_mem)
  let ?e = "drop (length p - length ext) p"
  have "0 \<notin> set ?e" using assms(1) by (auto dest: in_set_dropD)
  moreover have "length ?e < 0x7fffffff" using assms(6) by simp
  ultimately obtain x where x: "Q_strcasecmp (?e @ [0]) (ext @ [0]) = Inr x" "x = 0 \<longleftrightarrow> folded ?e = folded ext"
    using strncasecmp_eq [of ?e ext "0x7fffffff" "[]" "[]"] assms(2) by (auto simp: Q_strcasecmp_def)
  have over: "pokes (nat (int n - 1 + int (length ext))) (ext @ [0]) (p @ 0 # rest) = Inl Out_Of_Bounds"
  proof (rule pokes_overflow)
    have "nat (int n - 1 + int (length ext)) = n - 1 + length ext" using assms(4) by linarith
    then show "length (p @ 0 # rest) < nat (int n - 1 + int (length ext)) + length (ext @ [0])"
      using assms(3-5) by (cases ext) simp_all
  qed simp
  have fit: "length p + length ext + 1 \<le> n \<Longrightarrow>
      pokes (length p) (ext @ [0]) (p @ 0 # rest) = Inr (p @ ext @ 0 # drop (length ext) rest)"
    using assms(5) pokes_Inr [of "length p" "ext @ [0]" "p @ 0 # rest"] by simp
  show ?thesis
  proof (cases "length ext \<le> length p \<and> folded ?e = folded ext")
    case True
    then show ?thesis using x by (simp add: COM_RequireExtension_def c)
  next
    case False
    then have "(if length ext \<le> length p then rbind (Q_strcasecmp (?e @ [0]) (ext @ [0])) (\<lambda>c. Inr (c = 0)) else Inr False) = Inr False"
      using x by auto
    then show ?thesis unfolding if_not_P [OF False] using fit over assms(4)
      by (cases "length p + length ext + 1 \<le> n") (simp_all add: COM_RequireExtension_def c Let_def)
  qed
qed

section \<open>Parts of names\<close>

lemma skip_path_none: "\<forall>c \<in> set s. \<not> is_sep c \<Longrightarrow> skip_path s r = r"
  by (induction s) auto

lemma skip_path_dir: "is_sep c \<Longrightarrow> skip_path (d @ c # s) r = skip_path s s"
  by (induction d arbitrary: r) auto

lemma SkipPath_file:
  assumes "\<forall>c \<in> set f. \<not> is_sep c"
  shows "COM_SkipPath f = f" and "is_sep c \<Longrightarrow> COM_SkipPath (d @ c # f) = f"
  using assms by (simp_all add: COM_SkipPath_def skip_path_none skip_path_dir)

lemma find_ext_last:
  "\<forall>c \<in> set e. \<not> is_sep c \<and> c \<noteq> 0x2E \<Longrightarrow> find_ext (b @ 0x2E # e @ r) (length b + 1 + length e) = Some (length b)"
proof (induction e arbitrary: r rule: rev_induct)
  case (snoc x e)
  have "find_ext (b @ 0x2E # (e @ [x]) @ r) (length b + 1 + length (e @ [x])) = find_ext (b @ 0x2E # e @ x # r) (length b + 1 + length e)"
    using snoc.prems by (simp add: nth_append)
  then show ?case using snoc.IH [of "x # r"] snoc.prems by simp
qed (simp add: nth_append is_sep_def)

text \<open>Stripping takes off the extension that \<open>COM_GetFileExtension\<close> finds, if it is one that counts.\<close>

lemma GetFileExtension_last:
  "\<forall>c \<in> set e. \<not> is_sep c \<and> c \<noteq> 0x2E \<Longrightarrow> COM_GetFileExtension (b @ 0x2E # e) None = Some (length b)"
  using find_ext_last [of e b "[]"] by (simp add: COM_GetFileExtension_def)

lemma strip_back_over:
  "\<forall>c \<in> set e. c \<noteq> 0x2F \<and> c \<noteq> 0x2E \<Longrightarrow> b \<noteq> [] \<Longrightarrow>
   strip_back every (length b + length e) (b @ 0x2E # e @ r) = strip_back every (length b) (b @ 0x2E # e @ r)"
proof (induction e arbitrary: r rule: rev_induct)
  case (snoc x e)
  have "strip_back every (length b + length (e @ [x])) (b @ 0x2E # (e @ [x]) @ r) = strip_back every (length b + length e) (b @ 0x2E # e @ x # r)"
    using snoc.prems by (simp add: nth_append)
  then show ?case using snoc.IH [of "x # r"] snoc.prems by simp
qed simp

lemma StripExtension_last:
  assumes "\<forall>c \<in> set e. c \<noteq> 0x2F \<and> c \<noteq> 0x2E \<and> c \<noteq> 0" and "b \<noteq> []" and "0 \<notin> set b" and "\<not> packed_ext e"
  shows "COM_StripExtension None (b @ 0x2E # e @ 0 # r) outlen = Inr (b @ 0 # e @ 0 # r)"
proof -
  have c: "c_str (b @ 0x2E # e @ 0 # r) = Inr (b @ 0x2E # e)" using assms(1,3) c_str_mem [of "b @ 0x2E # e" r] by auto
  obtain n where n: "length b = Suc n" using assms(2) by (cases b) auto
  have "strip_back False (length b + 1 + length e) (b @ 0x2E # e @ 0 # r) = strip_back False (length b + length e) (b @ 0x2E # e @ 0 # r)"
    by (simp add: nth_append nth_Cons')
  also have "\<dots> = strip_back False (length b) (b @ 0x2E # e @ 0 # r)"
    using assms(1,2) by (intro strip_back_over) auto
  also have "\<dots> = b @ 0 # e @ 0 # r"
  proof -
    have "takeWhile (\<lambda>c. c \<noteq> 0) (e @ 0 # r) = e" using assms(1) by simp
    then show ?thesis using n assms(4) by (simp add: nth_append list_update_append)
  qed
  finally show ?thesis by (simp add: COM_StripExtension_def strip_into_def c)
qed

text \<open>A name without a directory loses its first byte, and an empty path is not resolved but cut.\<close>

lemma FileBase_loses: "COM_FileBase (str ''abc.x'') (replicate 8 7) 8 = Inr (str ''bc'' @ 0 # replicate 5 7)"
  by code_simp

lemma CleanUpPath_parent: "COM_CleanUpPath (str ''a/b/../c'') = str ''a/b/c''"
  by code_simp

lemma GetCleanPath_blank:
  "FS_GetCleanPath False (Some [32, 0]) [7, 0, 7] = Inr None"
  "FS_GetCleanPath False (Some [32, 0]) [7, 65, 7] = Inr (Some [32, 0, 7])"
  "FS_GetCleanPath False (Some [32, 0]) [7, 32, 32] = Inl Out_Of_Bounds"
  by code_simp+

section \<open>At concrete inputs\<close>

definition sample_name :: "byte list" where
  "sample_name = str ''maps'' @ [0x5C, 0x2F] @ str '' e1m1.bsp''"

lemma sample_clean: "FS_GetCleanPath True (Some (sample_name @ [0])) (replicate 20 7) =
    Inr (Some (str ''maps/ e1m1.bsp'' @ 0 # replicate 5 7))"
  by code_simp

lemma GetCleanPath_stays_witness:
  "length (str ''maps/ e1m1.bsp'' @ 0 # replicate 5 7) = length (replicate 20 (7::byte)) \<and>
   (\<exists>gs g r. str ''maps/ e1m1.bsp'' @ 0 # replicate 5 7 = path_of gs g @ 0 # r \<and>
    (\<forall>x \<in> set gs. x \<noteq> [] \<and> seg_ok True x) \<and> seg_ok True g \<and> (gs = [] \<longrightarrow> g \<noteq> []))"
  using GetCleanPath_stays [OF sample_clean] .

lemma GetCleanPath_eq_witness:
  "FS_GetCleanPath False (Some ([97, 0x5C, 0x2F, 32, 98] @ 0 # [])) [7, 7, 7, 7, 7, 7] =
    Inr (let t = tidy (split_seps [97, 0x5C, 0x2F, 32, 98]) in
      if name_ok [97, 0x5C, 0x2F, 32, 98] \<and> length t < length [7, 7, 7, 7, 7, 7 :: byte]
      then Some (t @ 0 # drop (length t + 1) [7, 7, 7, 7, 7, 7]) else None)"
  by (rule GetCleanPath_eq) (simp_all add: no_blank_def is_sep_def unspaced_def)

lemma RequireExtension_cases_witness:
  "COM_RequireExtension (str ''abcde'' @ 0 # [7, 7]) (str ''.tga'') (int 8) =
    (if length (str ''.tga'') \<le> length (str ''abcde'') \<and>
        folded (drop (length (str ''abcde'') - length (str ''.tga'')) (str ''abcde'')) = folded (str ''.tga'')
     then Inr (True, str ''abcde'' @ 0 # [7, 7])
     else if length (str ''abcde'') + length (str ''.tga'') + 1 \<le> 8
     then Inr (True, str ''abcde'' @ str ''.tga'' @ 0 # drop (length (str ''.tga'')) [7, 7])
     else Inl Out_Of_Bounds)"
  by (rule RequireExtension_cases) (simp_all add: str_def)

end
