(* ===== verification/Spec2Isabelle.thy ===== *)
theory Spec2Isabelle
  imports MsgProps InfoString HashSpec Sha1 Sha2 Md4 Md5 Blake2b Crc16 Unicode HuffProps NetAddr NetLoop NetOpen QvmOpen JsonBody JsonStore TokenSafe CbufProps PathProps
begin

text \<open>
  A verification library for the common layer of the FTE engine: \<open>src/engine/common\<close>, and the hash
  tables of \<open>src/engine/qclib\<close> it shares with the QuakeC tools.

  \<^bold>\<open>The program.\<close>  The engine is a client, a server and several tools over one common layer.  A game
  writes what it has to say with the \<open>MSG_Write\<close> functions into a \<open>sizebuf_t\<close>; a \<open>netchan_t\<close> sends
  the buffer in datagrams, reliably or not, to an address (\<open>netadr_t\<close>) or over the loopback, perhaps
  Huffman-packed; the other side reads it back with the \<open>MSG_Read\<close> functions.  Settings travel as
  backslash-separated info strings, names are found through chained hash tables, passwords and files
  are checked with the digests behind \<open>hashfunc_t\<close>, text is encoded in UTF-8, base 64 and base 16,
  requests and configurations are JSON, console commands are text that is cut, expanded and run from
  buffers, and game code of Quake 3 runs in a virtual machine.

  \<^bold>\<open>How code is modelled.\<close>  A function that can access memory wrongly or stop in an engine error
  returns \<open>'a res\<close>, a sum with the faults of the theory Prelude on the left: every array access is
  \<open>peek\<close>, \<open>poke\<close> or \<open>pokes\<close> and is checked against the length of the array, which the C code does
  not do, so that a theorem that no fault happens says something about the code.  A function whose
  loop may not end returns \<open>'a run\<close>, an option around that, where \<open>None\<close> is a call that never
  returns; its loops are \<open>partial_function (option)\<close>, or recursion on a bound that is shown to be
  enough.  Integers keep their width as words; \<open>char\<close> is signed; a shift out of range uses the
  count modulo the width, and an integer division that does not fit traps, as on x86; the host is
  little-endian.  A C string is a list of bytes, with its terminator or without as the theory says;
  structures are records or datatypes with the fields of the source.  Times and bandwidth averages
  are real numbers.

  \<^bold>\<open>Messages.\<close>
  \<^item> Prelude: results, faults, checked access, C arrays, the collection \<open>res_simps\<close>.
  \<^item> SizeBuf, MsgRead: \<open>common.c\<close>; \<open>sizebuf_t\<close> with \<open>SZ_Clear\<close>, \<open>SZ_GetSpace\<close>, \<open>SZ_Write\<close>,
    \<open>SZ_Print\<close> and the writers; the reader's position \<open>netread\<close> (\<open>msg_readmsg\<close> and its counters) and
    the readers, of integers, floats, strings, entities and bit fields in each packing.
  \<^item> MsgCodec: the contract of a writer and its reader as the locale \<open>codec\<close>, closed under pairs
    (\<open>codec_pair\<close>, a sublocale of \<open>codec\<close>).  MsgPrims interprets it for every primitive, MsgBits shows it
    for bit fields, MsgProps holds the round trips of sequences and what the buffer guarantees.
  \<^item> Huffman, HuffTree, HuffProps: \<open>huff.c\<close>; the tree as an array of nodes, symbols bit by bit, the
    adaptive tree with its weight list, whole messages, and packets through the engine's fixed tree.
    The walk down a tree is bounded by the number of nodes, 768, which no path without a cycle exceeds.

  \<^bold>\<open>Network.\<close>
  \<^item> NetAddr: \<open>net_wins.c\<close> and \<open>net.h\<close>; comparison, masks and classes of addresses.
  \<^item> NetLoop: the two rings of the loopback; the locale \<open>bounded_fifo\<close> is what its users rely on, and
    the ring refines it.
  \<^item> Netchan, NetSend: \<open>net_chan.c\<close>; \<open>netchan_t\<close>, \<open>Netchan_Setup\<close>, \<open>Netchan_Process\<close> with
    fragments and MTU confirmations, \<open>Netchan_Transmit\<close> with the reliable stream, fragmentation and MTU
    probes, \<open>Netchan_OutOfBand\<close>, bandwidth limits, and the older protocol.  The sockets are a parameter:
    any function from what was sent before to an answer.
  \<^item> NetCore, NetFrag, NetSafe: the part of a channel that carries the reliable protocol, the pieces of
    a fragmented packet, and the proof that no datagram and no payload makes a channel without a
    compression table access memory outside its arrays (\<open>store_ok\<close>).
  \<^item> NetProto, NetReliable: the even/odd protocol of reliable messages on its own, as a step relation
    over networks that lose, repeat and reorder, with its invariant; and the simulation that carries
    the invariant to two channels running \<open>Netchan_Transmit\<close> and \<open>Netchan_Process\<close>.
  \<^item> NetLive, NetOpen: delivery over a network that loses nothing, and all of it on channels opened
    by \<open>Netchan_Setup\<close>.

  \<^bold>\<open>The Quake 3 virtual machine.\<close>
  \<^item> Qvm: \<open>qvm.c\<close>; the loader of a file and the interpreter, one definition for each group of
    instructions.  System calls and floating point are the parameter \<open>qvm_host\<close>.  \<open>qvm_run\<close> is the loop of
    \<open>QVM_Exec\<close>; a program that loops for ever is \<open>None\<close>.
  \<^item> QvmProps, QvmLoad: the invariant \<open>vm_ok\<close> of the registers, the instructions at which the sandbox
    fails (exactly those), and the invariant from sane lengths in the header.
  \<^item> QvmExpr, QvmCall, QvmOpen: expressions compiled to the machine's code, loaded and called from the
    engine, return their value; concrete files.

  \<^bold>\<open>Data.\<close>
  \<^item> InfoString: \<open>common.c\<close>, the \<open>Info_\<close> functions; the locale \<open>kv_store\<close> is the contract of a
    key/value store.  The recursion of \<open>Info_SetValueForStarKey\<close> through the key \<open>*ver\<close> has a bound on
    its depth that is shown to be enough.
  \<^item> HashTable, HashSpec: \<open>qclib/hash.c\<close> on an explicit store of buckets, with case and without, and
    the locale \<open>shadow_map\<close> (the newest entry hides the older ones) that the tables refine.
  \<^item> Fips: the hash functions of FIPS 180-4 and the HMAC of RFC 2104 written from the standards and
    from nothing of the code: their constants are computed as the fractional parts of the roots of
    the first primes, their padding is on the octets of the whole message.
  \<^item> DigestApi, Sha1, Sha2, Md4, Md5, Blake2b, Crc16: \<open>sha1.c\<close>, \<open>sha2.c\<close>, \<open>md4.c\<close>, \<open>md5.c\<close>,
    \<open>blake2b.c\<close>, \<open>crc.c\<close>; the
    locale \<open>stream_hash\<close> is the contract of a digest that may be fed in pieces, interpreted for every
    digest that keeps it, and \<open>CalcHMAC\<close>, \<open>CalcHash\<close> are its clients.  SHA-1, SHA-2 and HMAC over SHA-1
    are shown equal to the functions of Fips, BLAKE2b to RFC 7693 with constants of its own.  The loop
    that pads SHA-1 runs at most 63 times.
  \<^item> TextCodes, Unicode: \<open>common.c\<close>; base 64, base 16, UTF-8 and the code pages.
  \<^item> Paths, PathProps: \<open>common.c\<close> and \<open>fs.c\<close>; taking file names apart and cleaning them.  A name that
    \<open>FS_GetCleanPath\<close> accepts stays in its directory, though the code looks at bytes it has not written.
  \<^item> Json, JsonParse, JsonProps, JsonBody: \<open>json.c\<close>; the parser by recursive descent, lookups, the
    decoding of string bodies.  Here the tree is a value.  A call of the parser has a bound of twice
    the length of the text and two, shown to be enough for every text; the loop of \<open>JSON_ReadBody\<close> has
    no bound and is shown to end.  Valid texts (\<open>json_text\<close>) are parsed to the tree of their value,
    paths select, escaped strings come back.
  \<^item> JsonStore: the nodes of \<open>json.c\<close> in memory, with \<open>JSON_CreateNode\<close>, \<open>JSON_Orphan\<close>, \<open>JSON_Destroy\<close>
    and the parser that calls them; what QuakeC's \<open>json_parse\<close> meets when it walks the tree of an array
    whose last element was not finished.

  \<^bold>\<open>The console.\<close>
  \<^item> Token: \<open>common.c\<close>; the tokenisers from \<open>COM_ParseStringSetSep\<close> to \<open>COM_ParseCString\<close>, and
    \<open>COM_QuotedString\<close>.  A text is the memory it stands in, up to the end of its array; the token is an
    array with what was there before.  Most loops go along the text; skipping comments and expanding
    macros may go back, so they are runs.
  \<^item> TokenQuote, TokenSafe: quoting stays in its buffer and is undone by reading; what each tokeniser
    may read and write, and where two of them do not keep to it.
  \<^item> Command: \<open>cmd.c\<close>; \<open>cmd_state\<close> is \<open>cmd_argc\<close>, \<open>cmd_argv\<close> and \<open>cmd_args\<close>; cutting a line into
    arguments and shifting them.  A line of quoted arguments is cut into those arguments.
  \<^item> Cbuf, CbufProps: \<open>cmd.c\<close>; a level of \<open>cmd_text\<close> is a \<open>sizebuf_t\<close> and its waits.  \<open>Cbuf_AddText\<close>,
    \<open>Cbuf_InsertText\<close>, \<open>Cbuf_GetNext\<close>, \<open>Cmd_ExpandString\<close>, \<open>Cmd_ExecuteString\<close> up to the choice of what to
    run, \<open>Cbuf_ExecuteLevel\<close> and \<open>wait\<close>.  Variables, macros, the heap, the clock, the state of the map and
    what a command does are parameters (\<open>expander\<close>, \<open>executor\<close>, \<open>cbuf_env\<close>).  The loops of expansion and
    execution are runs: a command may add text for ever.  A script of quoted commands is shown to end,
    with each command run once; the theorem puts together the buffer, the expansion and the tokeniser.

  \<^bold>\<open>What the theorems show.\<close>  Each property carries its number in the theory that proves it.  In short:
  what is written is read back; buffers are not overrun; digests fed in pieces are those of the standards;
  tables, rings and stores refine their contracts; reliable messages arrive once and in order over
  a network that does what it likes; scripts run as they were quoted; file names stay in place; the
  virtual machine computes what was compiled and leaves its memory only at the instructions named.  Where the code does not keep a promise the theorem states
  the failure: the instructions that leave the machine, the dangling node of an array in JSON, the
  quoted argument that DarkPlaces mode splits, the name that is too long to expand, the extension
  written behind its array; lemmas beside them show smaller ones (the backslash a tokeniser reads past,
  the uninitialised bytes of \<open>md5_final\<close>, the key that overruns \<open>Info_RemoveKey\<close>, a run of quotes, a
  backslash at the end of a buffer, a file name of spaces).

  \<^bold>\<open>Not modelled.\<close>  Coordinates, angles, deltas and user commands in messages (floating point and the
  state of the game); numbers in JSON (\<open>strtoll\<close>, \<open>atof\<close>); printing and parsing of addresses, sockets,
  encryption, files and threads (the operating system and other libraries; where the modelled code
  calls them they are parameters); compression with zlib; the commands, aliases and variables of the
  console, its timers and the waits that take a float; renderers, sound, client and server, which use
  the layer; the QuakeC compiler and interpreter, which are bound to the data of
  the whole engine; third-party code.
\<close>

end
